(* ===== verification/Vrt_Prelude.thy ===== *)
theory Vrt_Prelude
  imports Main "HOL-Library.Word"
begin

text \<open>
  Shared vocabulary of the development: the errors the modelled C++ throws, the result
  type of a fallible operation, the theorem collections, and the generic lemmas on lists
  and lists of adjacent pairs that several components use.
\<close>

section \<open>Theorem collections\<close>

named_theorems upd_simps \<open>how an update of one field or one slot changes what is read back\<close>
named_theorems inv_intros \<open>introduction rules for the components' invariants\<close>

section \<open>Errors and results\<close>

text \<open>
  The exceptions of \<^verbatim>\<open>vr/exceptions.h\<close> that modelled code raises, by the class the
  source names in \<open>throw_x\<close> or in a failing \<open>check_*\<close> macro.
\<close>

datatype vr_error =
    Capacity_limit
  | Invalid_input
  | Check_failure
  | Out_of_bounds
  | Illegal_state
  | Agent_runtime
  | Io_exception
  | Type_mismatch
  | App_exception
  | Eof_exception

type_synonym 'a result = "vr_error + 'a"

definition bind_r :: "'a result \<Rightarrow> ('a \<Rightarrow> 'b result) \<Rightarrow> 'b result" where
  "bind_r r f = (case r of Inl e \<Rightarrow> Inl e | Inr a \<Rightarrow> f a)"

lemma bind_r_simps [simp]:
  "bind_r (Inl e) f = Inl e"
  "bind_r (Inr a) f = f a"
  by (simp_all add: bind_r_def)

lemma bind_r_Inr_iff: "bind_r r f = Inr b \<longleftrightarrow> (\<exists>a. r = Inr a \<and> f a = Inr b)"
  by (cases r) simp_all

text \<open>
  An operation that may also not return, or may leave what the C++ defines: \<open>None\<close>. Its
  sequencing, and the lifting of a partial operation that never throws.
\<close>

definition bind_ro :: "'a result option \<Rightarrow> ('a \<Rightarrow> 'b result option) \<Rightarrow> 'b result option" where
  "bind_ro m f = (case m of None \<Rightarrow> None | Some (Inl e) \<Rightarrow> Some (Inl e) | Some (Inr a) \<Rightarrow> f a)"

definition lift_o :: "'a option \<Rightarrow> 'a result option" where
  "lift_o m = map_option Inr m"

lemma bind_ro_simps [simp]:
  "bind_ro None f = None"
  "bind_ro (Some (Inl e)) f = Some (Inl e)"
  "bind_ro (Some (Inr a)) f = f a"
  by (simp_all add: bind_ro_def)

lemma bind_ro_assoc: "bind_ro (bind_ro m f) g = bind_ro m (\<lambda>x. bind_ro (f x) g)"
  by (auto simp: bind_ro_def split: option.splits sum.splits)

lemma lift_o_simps [simp]: "lift_o None = None" "lift_o (Some a) = Some (Inr a)"
  by (simp_all add: lift_o_def)

section \<open>Integers of a fixed width\<close>

text \<open>A store into a signed integer of \<open>w\<close> bits keeps the low bits.\<close>

definition narrow :: "nat \<Rightarrow> int \<Rightarrow> int" where
  "narrow w x = (x + 2 ^ (w - 1)) mod 2 ^ w - 2 ^ (w - 1)"

lemma narrow_id: "- (2 ^ (w - 1)) \<le> x \<Longrightarrow> x < 2 ^ (w - 1) \<Longrightarrow> 0 < w \<Longrightarrow> narrow w x = x"
  by (cases w) (simp_all add: narrow_def)

lemma narrow_mod: "narrow w x mod 2 ^ w = x mod 2 ^ w"
  by (simp add: narrow_def mod_simps)

lemma narrow_cong: "narrow w x = narrow w y \<longleftrightarrow> x mod 2 ^ w = y mod 2 ^ w"
proof
  assume "narrow w x = narrow w y"
  then show "x mod 2 ^ w = y mod 2 ^ w" by (metis narrow_mod)
next
  assume "x mod 2 ^ w = y mod 2 ^ w"
  then have "(x + 2 ^ (w - 1)) mod 2 ^ w = (y + 2 ^ (w - 1)) mod 2 ^ w" by (rule mod_add_cong) simp
  then show "narrow w x = narrow w y" by (simp add: narrow_def)
qed

lemma narrow_add: "narrow w (narrow w x + y) = narrow w (x + y)"
  unfolding narrow_cong by (rule mod_add_cong) (simp_all add: narrow_mod)

lemma narrow_add_right: "narrow w (y + narrow w x) = narrow w (y + x)"
  using narrow_add [of w x y] by (simp only: add.commute)

lemma narrow_diff: "narrow w (narrow w x - y) = narrow w (x - y)"
  unfolding narrow_cong by (rule mod_diff_cong) (simp_all add: narrow_mod)

lemma narrow_narrow [simp]: "narrow w (narrow w x) = narrow w x"
  unfolding narrow_cong by (rule narrow_mod)

lemma narrow_bounds: "0 < w \<Longrightarrow> - (2 ^ (w - 1)) \<le> narrow w x \<and> narrow w x < 2 ^ (w - 1)"
proof -
  assume "0 < w"
  then have "(2::int) ^ w = 2 ^ (w - 1) + 2 ^ (w - 1)" by (cases w) simp_all
  moreover have "0 \<le> (x + 2 ^ (w - 1)) mod 2 ^ w" "(x + 2 ^ (w - 1)) mod 2 ^ w < 2 ^ w" by simp_all
  ultimately show ?thesis unfolding narrow_def by linarith
qed

section \<open>Lists\<close>

lemma distinct_split_eq:
  assumes "distinct (xs @ a # ys)" "xs @ a # ys = xs' @ a # ys'"
  shows "xs = xs' \<and> ys = ys'"
  using assms by (auto simp: append_eq_append_conv2 append_eq_Cons_conv Cons_eq_append_conv)

lemma successively_cong_on:
  assumes "successively P xs" "\<And>x y. x \<in> set xs \<Longrightarrow> y \<in> set xs \<Longrightarrow> P x y \<Longrightarrow> Q x y"
  shows "successively Q xs"
  using assms by (induction P xs rule: successively.induct) auto

text \<open>
  A relation on neighbours may be exchanged where it agrees on the pairs that occur: the
  left member is never the last element and the right member never the first.
\<close>

lemma successively_cong_adj:
  assumes "successively P xs"
    and "\<And>x y. x \<in> set (butlast xs) \<Longrightarrow> y \<in> set (tl xs) \<Longrightarrow> P x y \<Longrightarrow> Q x y"
  shows "successively Q xs"
  using assms
proof (induction P xs rule: successively.induct)
  case (3 P x y xs)
  have "successively Q (y # xs)"
  proof (rule "3.IH")
    show "successively P (y # xs)" using "3.prems"(1) by simp
    fix u v assume "u \<in> set (butlast (y # xs))" "v \<in> set (tl (y # xs))" "P u v"
    then show "Q u v" using "3.prems"(2) [of u v] by auto
  qed
  moreover have "Q x y" using "3.prems" by simp
  ultimately show ?case by simp
qed simp_all

lemma butlast_distinct_last:
  "distinct xs \<Longrightarrow> x \<in> set (butlast xs) \<Longrightarrow> x \<noteq> last xs"
  by (induction xs) auto

lemma tl_distinct_hd:
  "distinct xs \<Longrightarrow> y \<in> set (tl xs) \<Longrightarrow> y \<noteq> hd xs"
  by (cases xs) auto

lemma successively_adjacent:
  "successively P (xs @ x # y # ys) \<Longrightarrow> P x y"
  by (simp add: successively_append_iff)

lemma last_in_or [simp]: "last (x # xs) \<in> insert x (set xs)"
  by (induction xs) auto

lemma nth_update_if: "i < length xs \<Longrightarrow> xs[i := v] ! j = (if i = j then v else xs ! j)"
  by (simp add: nth_list_update)

lemma bex_set_iff_nth: "(\<exists>x\<in>set xs. Q x) \<longleftrightarrow> (\<exists>j < length xs. Q (xs ! j))"
  by (metis in_set_conv_nth)

lemma filter_upt_card: "length (filter P [0..<n]) = card {i. i < n \<and> P i}"
proof -
  have "length (filter P [0..<n]) = card (set (filter P [0..<n]))"
    by (rule distinct_card [symmetric]) simp
  also have "set (filter P [0..<n]) = {i. i < n \<and> P i}" by auto
  finally show ?thesis .
qed

end
