(* ===== verification/Ops_Int.thy ===== *)
theory Ops_Int
  imports Vrt_Prelude
begin

text \<open>
  Integer operations of \<^verbatim>\<open>vr/util/ops_int.h\<close>: the base-2 logarithms on the
  \<open>lzcnt\<close> instruction that size the hash tables.
\<close>

section \<open>Base-2 logarithms\<close>

text \<open>
  \<open>lzcnt w x\<close> is the leading-zero count of the low \<open>w\<close> bits of \<open>x\<close>, as the instruction the
  source's inline assembly issues computes it (the operand width for zero).
\<close>

primrec lzcnt :: "nat \<Rightarrow> nat \<Rightarrow> nat" where
  "lzcnt 0 x = 0"
| "lzcnt (Suc w) x = (if bit x w then 0 else Suc (lzcnt w x))"

text \<open>
  \<open>ops_int::log2_floor\<close> on a signed type of \<open>w\<close> bits: with \<open>CHECK_INPUT\<close> a negative
  argument is refused; the zero policy is \<open>ignore\<close>, so zero gives \<open>-1\<close>.
\<close>

definition log2_floor :: "nat \<Rightarrow> int \<Rightarrow> int result" where
  "log2_floor w x =
     (if x < 0 then Inl Check_failure else Inr (int w - 1 - int (lzcnt w (nat x))))"

definition log2_ceil :: "nat \<Rightarrow> int \<Rightarrow> int result" where
  "log2_ceil w x = bind_r (log2_floor w (x - 1)) (\<lambda>r. Inr (1 + r))"

lemma lzcnt_le: "lzcnt w x \<le> w"
  by (induction w) auto

lemma lzcnt_zero [simp]: "lzcnt w 0 = w"
  by (induction w) auto

lemma lzcnt_bounds:
  assumes "0 < x" "x < 2 ^ w"
  shows "lzcnt w x < w \<and> 2 ^ (w - 1 - lzcnt w x) \<le> x \<and> x < 2 ^ (w - lzcnt w x)"
  using assms
proof (induction w)
  case 0
  then show ?case by simp
next
  case (Suc w)
  show ?case
  proof (cases "bit x w")
    case True
    have "2 ^ w \<le> x"
    proof (rule ccontr)
      assume "\<not> 2 ^ w \<le> x"
      then have "x div 2 ^ w = 0" by simp
      with True show False by (simp add: bit_iff_odd)
    qed
    with True Suc.prems show ?thesis by simp
  next
    case False
    have "x < 2 ^ w"
    proof (rule ccontr)
      assume "\<not> x < 2 ^ w"
      then have "x div 2 ^ w = 1"
        using Suc.prems by (intro div_nat_eqI) auto
      with False show False by (simp add: bit_iff_odd)
    qed
    with Suc False show ?thesis
      by (auto simp: Suc_diff_le)
  qed
qed

lemma lzcnt_eq:
  assumes "2 ^ r \<le> x" "x < 2 ^ Suc r" "r < w"
  shows "lzcnt w x = w - Suc r"
proof -
  have x: "0 < x" using assms(1) by (metis gr0I not_less zero_less_numeral zero_less_power)
  have "x < 2 ^ w" using assms(2,3) power_increasing [of "Suc r" w "2::nat"] by simp
  note b = lzcnt_bounds [OF x this]
  have "(2::nat) ^ (w - 1 - lzcnt w x) < 2 ^ Suc r" "(2::nat) ^ r < 2 ^ (w - lzcnt w x)"
    using b assms by linarith+
  then have "w - 1 - lzcnt w x < Suc r" "r < w - lzcnt w x"
    by (auto dest: power_less_imp_less_exp [rotated] simp del: power_Suc)
  with b show ?thesis by linarith
qed

lemma log2_floor_bounds:
  assumes "0 < x" "x < 2 ^ w"
  obtains r where "log2_floor w x = Inr (int r)" "2 ^ r \<le> x" "x < 2 ^ Suc r" "r < w"
proof -
  let ?r = "w - 1 - lzcnt w (nat x)"
  have nx: "0 < nat x" "nat x < 2 ^ w"
    using assms by (auto simp: nat_less_iff)
  note b = lzcnt_bounds [OF nx]
  have "log2_floor w x = Inr (int ?r)"
    using assms b by (simp add: log2_floor_def)
  moreover have "(2::int) ^ ?r \<le> x"
    using b by (metis One_nat_def assms(1) nat_0_le of_nat_le_iff of_nat_numeral of_nat_power order_less_imp_le)
  moreover have "x < 2 ^ Suc ?r"
  proof -
    have "Suc ?r = w - lzcnt w (nat x)" using b by linarith
    with b have "nat x < 2 ^ Suc ?r" by metis
    then show ?thesis using assms(1) by (simp add: nat_less_iff)
  qed
  moreover have "?r < w" using b by linarith
  ultimately show ?thesis by (rule that)
qed

text \<open>\<open>log2_ceil n\<close> is the least exponent whose power of two reaches \<open>n\<close>.\<close>

lemma log2_ceil_least:
  assumes "1 \<le> n" "n \<le> 2 ^ w" "0 < w"
  obtains p where "log2_ceil w n = Inr (int p)" "n \<le> 2 ^ p" "\<And>q. n \<le> 2 ^ q \<Longrightarrow> p \<le> q" "p \<le> w"
proof (cases "n = 1")
  case True
  then have "log2_ceil w n = Inr (int 0)"
    by (simp add: log2_ceil_def log2_floor_def)
  with True show ?thesis by (intro that [of 0]) auto
next
  case False
  then have "0 < n - 1" "n - 1 < 2 ^ w" using assms by auto
  then obtain r where r: "log2_floor w (n - 1) = Inr (int r)" "2 ^ r \<le> n - 1" "n - 1 < 2 ^ Suc r" "r < w"
    by (rule log2_floor_bounds)
  show ?thesis
  proof (rule that [of "Suc r"])
    show "log2_ceil w n = Inr (int (Suc r))" using r by (simp add: log2_ceil_def)
    show "n \<le> 2 ^ Suc r" "Suc r \<le> w" using r by auto
    fix q assume "n \<le> 2 ^ q"
    with r(2) have "(2::int) ^ r < 2 ^ q" by linarith
    then show "Suc r \<le> q" by (simp add: power_strict_increasing_iff)
  qed
qed

end
