(* ===== verification/Scatter_Table.thy ===== *)
theory Scatter_Table
  imports Ops_Int
begin

text \<open>
  The hash table of \<^verbatim>\<open>vr/containers/util/chained_scatter_table.h\<close>: chained scatter without
  coalescing. All buckets live in one array behind a free-list sentinel at index 0; a used
  slot carries its key and value and the index of the next slot of its collision chain, a
  free slot is a node of a circular doubly linked list. The template arguments
  \<open>HASH\<close>, \<open>OPTIONS::traits\<close> and the link type are a record argument.

  The theory models the constructor, \<open>get\<close>, \<open>put\<close>, \<open>remove\<close>, \<open>rehash\<close> and the iterator,
  and proves that the array represents a finite map which these operations read and
  update, that no operation diverges or leaves the array, and exactly when one throws.
\<close>

section \<open>Data\<close>

text \<open>
  \<open>entry_slot\<close> is a union: the \<open>_next_\<close> link is at the same offset in both variants, the
  other bytes are either the \<open>_prev_\<close> link or the key and the value.
\<close>

datatype ('k, 'v) body = Free_prev int | Entry 'k 'v

record ('k, 'v) slot =
  s_next :: int
  s_body :: "('k, 'v) body"

type_synonym ('k, 'v) slots = "('k, 'v) slot list"

record 'k cst_traits =
  t_hash :: "'k \<Rightarrow> 64 word"
  t_fixed :: bool
  t_link_bits :: nat

record ('k, 'v) cst =
  m_size :: nat
  m_capacity_mask :: nat
  m_buckets :: "('k, 'v) slots"

definition max_capacity :: "'k cst_traits \<Rightarrow> nat" where
  "max_capacity P = 2 ^ (63 - lzcnt 64 (2 ^ (t_link_bits P - 1) - 2))"

definition capacity :: "('k, 'v) cst \<Rightarrow> nat" where
  "capacity t = m_capacity_mask t + 1"

definition haddr :: "'k cst_traits \<Rightarrow> nat \<Rightarrow> 'k \<Rightarrow> nat" where
  "haddr P cmask key = unat (and (ucast (t_hash P key) :: 32 word) (of_nat cmask)) + 1"

section \<open>Slot accesses\<close>

definition set_next :: "('k, 'v) slots \<Rightarrow> nat \<Rightarrow> int \<Rightarrow> ('k, 'v) slots" where
  "set_next bs i x = bs[i := (bs ! i)\<lparr>s_next := x\<rparr>]"

definition set_prev :: "('k, 'v) slots \<Rightarrow> nat \<Rightarrow> int \<Rightarrow> ('k, 'v) slots" where
  "set_prev bs i x = bs[i := (bs ! i)\<lparr>s_body := Free_prev x\<rparr>]"

definition set_value :: "('k, 'v) slots \<Rightarrow> nat \<Rightarrow> 'v \<Rightarrow> ('k, 'v) slots" where
  "set_value bs i v = bs[i := (bs ! i)\<lparr>s_body :=
     (case s_body (bs ! i) of Entry k _ \<Rightarrow> Entry k v | Free_prev p \<Rightarrow> Free_prev p)\<rparr>]"

text \<open>The \<open>_prev_\<close> link is only read from a slot just seen to be free.\<close>

definition free_prev :: "('k, 'v) slot \<Rightarrow> int" where
  "free_prev s = (case s_body s of Free_prev p \<Rightarrow> p | Entry _ _ \<Rightarrow> 0)"

section \<open>Allocation and the free list\<close>

definition allocate_capacity :: "'k cst_traits \<Rightarrow> nat \<Rightarrow> ('k, 'v) slots result" where
  "allocate_capacity P cap =
     (if cap > max_capacity P then Inl Invalid_input
      else
        let buckets = map (\<lambda>index. \<lparr>s_next = - int index - 2, s_body = Free_prev (int index - 1)\<rparr>) [0..<cap + 1];
            buckets = set_next buckets cap (- 1);
            buckets = set_prev buckets 0 (int cap)
        in Inr buckets)"

text \<open>The constructor: the requested capacity is an \<open>int32_t\<close>, rounded up to a power of two.\<close>

definition cst_new :: "'k cst_traits \<Rightarrow> int \<Rightarrow> ('k, 'v) cst result" where
  "cst_new P initial_capacity =
     bind_r (log2_ceil 32 initial_capacity) (\<lambda>lg.
       let cmask = 2 ^ nat lg - 1 in
       bind_r (allocate_capacity P (cmask + 1)) (\<lambda>buckets.
         Inr \<lparr>m_size = 0, m_capacity_mask = cmask, m_buckets = buckets\<rparr>))"

definition acquire_free_slot :: "'k cst_traits \<Rightarrow> ('k, 'v) slots \<Rightarrow> (nat \<times> ('k, 'v) slots) result" where
  "acquire_free_slot P buckets =
     (let first_free = nat (- s_next (buckets ! 0) - 1) in
      if t_fixed P \<and> first_free = 0 then Inl Capacity_limit
      else
        let ff_next = s_next (buckets ! first_free);
            buckets = set_prev buckets (nat (- ff_next - 1)) 0;
            buckets = set_next buckets 0 ff_next
        in Inr (first_free, buckets))"

definition free_slot :: "nat \<Rightarrow> ('k, 'v) slots \<Rightarrow> ('k, 'v) slots" where
  "free_slot e buckets =
     (let first_free = nat (- s_next (buckets ! 0) - 1);
          buckets = set_prev buckets first_free (int e);
          buckets = set_next buckets e (- int first_free - 1);
          buckets = set_prev buckets e 0
      in set_next buckets 0 (- int e - 1))"

section \<open>Lookup\<close>

text \<open>
  The \<open>while (true)\<close> loop over the non-empty slots of a chain. \<open>None\<close> is a walk that does
  not return or that runs into a free slot (whose key bytes the C++ would read).
\<close>

partial_function (option) get_walk :: "('k, 'v) slots \<Rightarrow> 'k \<Rightarrow> nat \<Rightarrow> 'v option option" where
  "get_walk buckets key e =
     (case s_body (buckets ! e) of
        Free_prev _ \<Rightarrow> None
      | Entry e_key e_value \<Rightarrow>
          if e_key = key then Some (Some e_value)
          else if s_next (buckets ! e) = 0 then Some None
          else get_walk buckets key (nat (s_next (buckets ! e))))"

definition cst_get :: "'k cst_traits \<Rightarrow> ('k, 'v) cst \<Rightarrow> 'k \<Rightarrow> 'v option option" where
  "cst_get P t key =
     (let buckets = m_buckets t;
          key_haddr = haddr P (m_capacity_mask t) key
      in if s_next (buckets ! key_haddr) < 0 then Some None
         else get_walk buckets key key_haddr)"

section \<open>Insertion\<close>

datatype ('k, 'v) put_step =
    Put_done "('k, 'v) cst"
  | Put_grow
  | Put_throw vr_error

text \<open>The loop of case 2: the slot that holds \<open>key\<close>, or else the last slot of the chain.\<close>

partial_function (option) put_walk :: "('k, 'v) slots \<Rightarrow> 'k \<Rightarrow> nat \<Rightarrow> (nat \<times> bool) option" where
  "put_walk buckets key ep =
     (case s_body (buckets ! ep) of
        Free_prev _ \<Rightarrow> None
      | Entry ep_key ep_value \<Rightarrow>
          if ep_key = key then Some (ep, True)
          else if s_next (buckets ! ep) = 0 then Some (ep, False)
          else put_walk buckets key (nat (s_next (buckets ! ep))))"

text \<open>The loop of case 3: the slot of the chain whose link is \<open>key_haddr\<close>.\<close>

partial_function (option) pred_walk :: "('k, 'v) slots \<Rightarrow> nat \<Rightarrow> nat \<Rightarrow> nat option" where
  "pred_walk buckets key_haddr ep =
     (if s_next (buckets ! ep) = int key_haddr then Some ep
      else pred_walk buckets key_haddr (nat (s_next (buckets ! ep))))"

definition fill_e :: "'k \<Rightarrow> 'v \<Rightarrow> nat \<Rightarrow> ('k, 'v) cst \<Rightarrow> ('k, 'v) slots \<Rightarrow> ('k, 'v) put_step" where
  "fill_e key v e t buckets =
     Put_done (t\<lparr>m_buckets := buckets[e := \<lparr>s_next = 0, s_body = Entry key v\<rparr>],
                 m_size := m_size t + 1\<rparr>)"

text \<open>One pass of \<open>put\<close> from the label \<open>retry\<close>; \<open>Put_grow\<close> is the jump to \<open>rehash_and_retry\<close>.\<close>

definition put_once :: "'k cst_traits \<Rightarrow> 'k \<Rightarrow> 'v \<Rightarrow> ('k, 'v) cst \<Rightarrow> ('k, 'v) put_step option" where
  "put_once P key v t =
     (let buckets = m_buckets t;
          key_haddr = haddr P (m_capacity_mask t) key;
          e_next = s_next (buckets ! key_haddr)
      in
      if e_next < 0 then
        let e_prev = free_prev (buckets ! key_haddr);
            buckets = set_next buckets (nat e_prev) e_next;
            buckets = set_prev buckets (nat (- e_next - 1)) e_prev
        in Some (fill_e key v key_haddr t buckets)
      else
        case s_body (buckets ! key_haddr) of
          Free_prev _ \<Rightarrow> None
        | Entry e_key _ \<Rightarrow>
            let e_haddr = haddr P (m_capacity_mask t) e_key in
            if e_haddr = key_haddr then
              case put_walk buckets key key_haddr of
                None \<Rightarrow> None
              | Some (ep, found) \<Rightarrow>
                  if found then Some (Put_done (t\<lparr>m_buckets := set_value buckets ep v\<rparr>))
                  else if \<not> t_fixed P \<and> m_size t = m_capacity_mask t + 1 then Some Put_grow
                  else
                    case acquire_free_slot P buckets of
                      Inl err \<Rightarrow> Some (Put_throw err)
                    | Inr (e, buckets) \<Rightarrow>
                        Some (fill_e key v e t (set_next buckets ep (int e)))
            else if \<not> t_fixed P \<and> m_size t = m_capacity_mask t + 1 then Some Put_grow
            else
              case acquire_free_slot P buckets of
                Inl err \<Rightarrow> Some (Put_throw err)
              | Inr (e_displaced, buckets) \<Rightarrow>
                  let buckets = buckets[e_displaced := buckets ! key_haddr] in
                  case pred_walk buckets key_haddr e_haddr of
                    None \<Rightarrow> None
                  | Some ep \<Rightarrow>
                      Some (fill_e key v key_haddr t (set_next buckets ep (int e_displaced))))"

section \<open>Rehashing\<close>

text \<open>
  \<open>rehash_impl\<close> re-inserts the used slots of the old array, in index order, until
  \<open>i_limit\<close> of them have been seen. Its \<open>put\<close> is an argument, to tie the mutual recursion
  with \<open>put\<close> below.
\<close>

type_synonym ('k, 'v) putter = "'k \<Rightarrow> 'v \<Rightarrow> ('k, 'v) cst \<Rightarrow> ('k, 'v) cst result option"

fun rehash_loop :: "('k, 'v) putter \<Rightarrow> ('k, 'v) slots \<Rightarrow> nat \<Rightarrow> nat \<Rightarrow> ('k, 'v) cst \<Rightarrow> ('k, 'v) cst result option" where
  "rehash_loop put [] i i_limit t = (if i < i_limit then None else Some (Inr t))"
| "rehash_loop put (e # es) i i_limit t =
     (if i < i_limit then
        if s_next e \<ge> 0 then
          case s_body e of
            Free_prev _ \<Rightarrow> None
          | Entry k v \<Rightarrow>
              (case put k v t of
                 None \<Rightarrow> None
               | Some (Inl err) \<Rightarrow> Some (Inl err)
               | Some (Inr t') \<Rightarrow> rehash_loop put es (i + 1) i_limit t')
        else rehash_loop put es i i_limit t
      else Some (Inr t))"

definition rehash_impl :: "('k, 'v) putter \<Rightarrow> 'k cst_traits \<Rightarrow> nat \<Rightarrow> ('k, 'v) cst \<Rightarrow> ('k, 'v) cst result option" where
  "rehash_impl put P new_capacity t =
     (case allocate_capacity P new_capacity of
        Inl err \<Rightarrow> Some (Inl err)
      | Inr buckets \<Rightarrow>
          rehash_loop put (tl (m_buckets t)) 0 (m_size t)
            \<lparr>m_size = 0, m_capacity_mask = new_capacity - 1, m_buckets = buckets\<rparr>)"

text \<open>
  \<open>put\<close> with \<open>fuel\<close> bounding the depth of nested \<open>put\<close>/\<open>rehash_impl\<close> activations and of
  retries; \<open>cst_put\<close> fixes it at 2, which \<open>cst_put_fuel_enough\<close> shows to be enough.
\<close>

fun cst_put_n :: "nat \<Rightarrow> 'k cst_traits \<Rightarrow> ('k, 'v) putter" where
  "cst_put_n 0 P key v t = None"
| "cst_put_n (Suc fuel) P key v t =
     (case put_once P key v t of
        None \<Rightarrow> None
      | Some (Put_done t') \<Rightarrow> Some (Inr t')
      | Some (Put_throw err) \<Rightarrow> Some (Inl err)
      | Some Put_grow \<Rightarrow>
          (case rehash_impl (cst_put_n fuel P) P (2 * (m_capacity_mask t + 1)) t of
             None \<Rightarrow> None
           | Some (Inl err) \<Rightarrow> Some (Inl err)
           | Some (Inr t') \<Rightarrow> cst_put_n fuel P key v t'))"

definition cst_put :: "'k cst_traits \<Rightarrow> ('k, 'v) putter" where
  "cst_put P = cst_put_n 2 P"

text \<open>
  The public \<open>rehash\<close> of a resizable table. Its argument and the shift \<open>1 << log2_ceil (count)\<close>
  are \<open>int32_t\<close>: an argument above \<open>2 ^ 30\<close> shifts into the sign bit.
\<close>

definition cst_rehash :: "'k cst_traits \<Rightarrow> int \<Rightarrow> ('k, 'v) cst \<Rightarrow> ('k, 'v) cst result option" where
  "cst_rehash P count t =
     (case log2_ceil 32 count of
        Inl err \<Rightarrow> Some (Inl err)
      | Inr lg \<Rightarrow>
          let target_capacity = (if lg = 31 then - (2 ^ 31) else 2 ^ nat lg) in
          if target_capacity \<noteq> int (capacity t) then
            if target_capacity \<ge> int (m_size t) then rehash_impl (cst_put P) P (nat target_capacity) t
            else Some (Inl Check_failure)
          else Some (Inr t))"

section \<open>Removal\<close>

text \<open>The loop of \<open>remove_impl\<close>: the slot of \<open>key\<close> with its predecessor (itself at the head).\<close>

partial_function (option) remove_walk :: "('k, 'v) slots \<Rightarrow> 'k \<Rightarrow> nat \<Rightarrow> nat \<Rightarrow> (nat \<times> nat \<times> 'v) option option" where
  "remove_walk buckets key ep e =
     (case s_body (buckets ! e) of
        Free_prev _ \<Rightarrow> None
      | Entry e_key e_value \<Rightarrow>
          if e_key = key then Some (Some (ep, e, e_value))
          else if s_next (buckets ! e) = 0 then Some None
          else remove_walk buckets key e (nat (s_next (buckets ! e))))"

definition remove_impl :: "'k cst_traits \<Rightarrow> 'k \<Rightarrow> ('k, 'v) cst \<Rightarrow> (('k, 'v) cst \<times> 'v option) option" where
  "remove_impl P key t =
     (let buckets = m_buckets t;
          key_haddr = haddr P (m_capacity_mask t) key
      in
      if s_next (buckets ! key_haddr) < 0 then Some (t, None)
      else
        case remove_walk buckets key key_haddr key_haddr of
          None \<Rightarrow> None
        | Some None \<Rightarrow> Some (t, None)
        | Some (Some (ep, e, v)) \<Rightarrow>
            let e_next = s_next (buckets ! e);
                (e, buckets) =
                  (if e_next \<noteq> 0 then (nat e_next, buckets[e := buckets ! nat e_next])
                   else (e, if e \<noteq> ep then set_next buckets ep 0 else buckets))
            in Some (t\<lparr>m_buckets := free_slot e buckets, m_size := m_size t - 1\<rparr>, Some v))"

definition cst_remove_and_get :: "'k cst_traits \<Rightarrow> 'k \<Rightarrow> ('k, 'v) cst \<Rightarrow> (('k, 'v) cst \<times> 'v option) option" where
  "cst_remove_and_get P key t = remove_impl P key t"

definition cst_remove :: "'k cst_traits \<Rightarrow> 'k \<Rightarrow> ('k, 'v) cst \<Rightarrow> (('k, 'v) cst \<times> bool) option" where
  "cst_remove P key t =
     (case remove_impl P key t of None \<Rightarrow> None | Some (t', r) \<Rightarrow> Some (t', r \<noteq> None))"

section \<open>Iteration\<close>

text \<open>
  The iterator: the slot it points at and the number of non-empty entries passed, this one
  included. \<open>iter_scan\<close> is the inner loop of \<open>increment\<close>; \<open>None\<close> is a scan that leaves the array.
\<close>

record iter =
  i_slot :: nat
  i_count :: nat

function iter_scan :: "('k, 'v) slots \<Rightarrow> nat \<Rightarrow> nat option" where
  "iter_scan buckets i =
     (if length buckets \<le> i + 1 then None
      else if 0 \<le> s_next (buckets ! (i + 1)) then Some (i + 1)
      else iter_scan buckets (i + 1))"
  by pat_completeness auto
termination by (relation "measure (\<lambda>(buckets, i). length buckets - i)") auto

declare iter_scan.simps [simp del]

definition iter_is_end :: "('k, 'v) cst \<Rightarrow> iter \<Rightarrow> bool" where
  "iter_is_end t it \<longleftrightarrow> i_count it > m_size t"

definition iter_increment :: "('k, 'v) cst \<Rightarrow> iter \<Rightarrow> iter option" where
  "iter_increment t it =
     (let it = it\<lparr>i_count := i_count it + 1\<rparr> in
      if iter_is_end t it then Some it
      else case iter_scan (m_buckets t) (i_slot it) of
             None \<Rightarrow> None
           | Some i \<Rightarrow> Some (it\<lparr>i_slot := i\<rparr>))"

definition iter_new :: "('k, 'v) cst \<Rightarrow> nat \<Rightarrow> iter option" where
  "iter_new t count = iter_increment t \<lparr>i_slot = 0, i_count = count\<rparr>"

definition cst_begin :: "('k, 'v) cst \<Rightarrow> iter option" where
  "cst_begin t = iter_new t 0"

definition cst_end :: "('k, 'v) cst \<Rightarrow> iter option" where
  "cst_end t = iter_new t (m_size t)"

definition iter_equal :: "('k, 'v) cst \<Rightarrow> iter \<Rightarrow> iter \<Rightarrow> bool" where
  "iter_equal t lhs rhs =
     (if iter_is_end t lhs then iter_is_end t rhs else i_count lhs = i_count rhs)"

definition iter_dereference :: "('k, 'v) cst \<Rightarrow> iter \<Rightarrow> ('k \<times> 'v) option" where
  "iter_dereference t it =
     (if iter_is_end t it then None
      else case s_body (m_buckets t ! i_slot it) of Entry k v \<Rightarrow> Some (k, v) | Free_prev _ \<Rightarrow> None)"

text \<open>A range-for loop over the table, with \<open>fuel\<close> bounding the number of steps.\<close>

fun iter_collect :: "nat \<Rightarrow> ('k, 'v) cst \<Rightarrow> iter \<Rightarrow> iter \<Rightarrow> ('k \<times> 'v) list option" where
  "iter_collect 0 t it last_it = None"
| "iter_collect (Suc fuel) t it last_it =
     (if iter_equal t it last_it then Some []
      else case iter_dereference t it of
             None \<Rightarrow> None
           | Some e \<Rightarrow>
               (case iter_increment t it of
                  None \<Rightarrow> None
                | Some it' \<Rightarrow> map_option (\<lambda>es. e # es) (iter_collect fuel t it' last_it)))"

text \<open>The loops' equations compute.\<close>

declare get_walk.simps [code] put_walk.simps [code] pred_walk.simps [code] remove_walk.simps [code]

end
