(* ===== verification/Scatter_Rep.thy ===== *)
theory Scatter_Rep
  imports Scatter_Table
begin

text \<open>
  The representation invariant of the scatter table, and how its two linked structures (the
  free list and the collision chains) behave under the link updates the code makes. The
  bucket array is read through two projections, the links and the bodies, so that an update
  of one slot is an update of a function at one point.
\<close>

section \<open>Projections of the bucket array\<close>

definition nx :: "('k, 'v) slots \<Rightarrow> nat \<Rightarrow> int" where
  "nx bs i = s_next (bs ! i)"

definition bd :: "('k, 'v) slots \<Rightarrow> nat \<Rightarrow> ('k, 'v) body" where
  "bd bs i = s_body (bs ! i)"

lemma length_set_next [simp]: "length (set_next bs i x) = length bs"
  and length_set_prev [simp]: "length (set_prev bs i x) = length bs"
  and length_set_value [simp]: "length (set_value bs i v) = length bs"
  by (simp_all add: set_next_def set_prev_def set_value_def)

lemma nx_set_next [upd_simps]: "i < length bs \<Longrightarrow> nx (set_next bs i x) = (nx bs)(i := x)"
  and nx_set_prev [upd_simps]: "i < length bs \<Longrightarrow> nx (set_prev bs i x) = nx bs"
  and nx_set_value [upd_simps]: "i < length bs \<Longrightarrow> nx (set_value bs i v) = nx bs"
  and nx_update [upd_simps]: "i < length bs \<Longrightarrow> nx (bs[i := s]) = (nx bs)(i := s_next s)"
  by (auto simp: nx_def set_next_def set_prev_def set_value_def nth_update_if fun_eq_iff)

lemma bd_set_next [upd_simps]: "i < length bs \<Longrightarrow> bd (set_next bs i x) = bd bs"
  and bd_set_prev [upd_simps]: "i < length bs \<Longrightarrow> bd (set_prev bs i x) = (bd bs)(i := Free_prev x)"
  and bd_update [upd_simps]: "i < length bs \<Longrightarrow> bd (bs[i := s]) = (bd bs)(i := s_body s)"
  by (auto simp: bd_def set_next_def set_prev_def nth_update_if fun_eq_iff)

lemma bd_set_value [upd_simps]:
  "i < length bs \<Longrightarrow> bd bs i = Entry k w \<Longrightarrow> bd (set_value bs i v) = (bd bs)(i := Entry k v)"
  by (auto simp: bd_def set_value_def nth_update_if fun_eq_iff)

section \<open>The free list\<close>

text \<open>
  \<open>free_adj\<close> says that \<open>y\<close> follows \<open>x\<close> on the free list: the forward link is stored as
  \<open>-(index + 1)\<close>, the backward one as the index. The list is circular through slot 0.
\<close>

definition free_adj :: "(nat \<Rightarrow> int) \<Rightarrow> (nat \<Rightarrow> ('k, 'v) body) \<Rightarrow> nat \<Rightarrow> nat \<Rightarrow> bool" where
  "free_adj N B x y \<longleftrightarrow> N x = - int y - 1 \<and> B y = Free_prev (int x)"

definition free_list :: "(nat \<Rightarrow> int) \<Rightarrow> (nat \<Rightarrow> ('k, 'v) body) \<Rightarrow> nat list \<Rightarrow> bool" where
  "free_list N B fl \<longleftrightarrow> successively (free_adj N B) (0 # fl @ [0]) \<and> distinct (0 # fl)"

lemma free_list_next:
  assumes "free_list N B (f1 @ e # f2)"
  shows "N e = - int (hd (f2 @ [0])) - 1"
    and "B e = Free_prev (int (last (0 # f1)))"
proof -
  have s: "successively (free_adj N B) ((0 # f1) @ e # f2 @ [0])"
    using assms by (simp add: free_list_def)
  from s have "free_adj N B (last (0 # f1)) e"
    unfolding successively_append_iff by simp
  then show "B e = Free_prev (int (last (0 # f1)))" by (simp add: free_adj_def)
  have "successively (free_adj N B) ((0 # f1 @ [e]) @ (f2 @ [0]))"
    using s by simp
  then have "free_adj N B e (hd (f2 @ [0]))"
    unfolding successively_append_iff by simp
  then show "N e = - int (hd (f2 @ [0])) - 1" by (simp add: free_adj_def)
qed

lemma free_list_head:
  assumes "free_list N B fl"
  shows "N 0 = - int (hd (fl @ [0])) - 1"
  using assms by (cases fl) (auto simp: free_list_def free_adj_def)

lemma free_list_body:
  assumes "free_list N B fl" "i \<in> set (0 # fl)"
  shows "\<exists>p. B i = Free_prev p"
proof (cases "i = 0")
  case True
  have "successively (free_adj N B) ((0 # fl) @ [0])"
    using assms by (simp add: free_list_def)
  then have "free_adj N B (last (0 # fl)) 0"
    unfolding successively_append_iff by simp
  with True show ?thesis by (auto simp: free_adj_def)
next
  case False
  then obtain f1 f2 where "fl = f1 @ i # f2"
    using assms by (auto simp: in_set_conv_decomp)
  with assms free_list_next(2) show ?thesis by blast
qed

text \<open>Unlinking a node: its two neighbours are joined.\<close>

lemma free_list_unlink:
  assumes fl: "free_list N B (f1 @ e # f2)"
    and p: "p = last (0 # f1)" and q: "q = hd (f2 @ [0])"
  shows "free_list (N(p := - int q - 1)) (B(q := Free_prev (int p))) (f1 @ f2)"
proof -
  let ?N = "N(p := - int q - 1)" and ?B = "B(q := Free_prev (int p))"
  have d: "distinct (0 # f1 @ e # f2)" using fl by (simp add: free_list_def)
  have s: "successively (free_adj N B) ((0 # f1) @ (e # f2 @ [0]))"
    using fl by (simp add: free_list_def)
  have a: "successively (free_adj N B) (0 # f1)" and b: "successively (free_adj N B) (e # f2 @ [0])"
    using s unfolding successively_append_iff by auto
  have b': "successively (free_adj N B) (f2 @ [0])"
    using b by (cases f2) auto
  have "successively (free_adj ?N ?B) (0 # f1)"
  proof (rule successively_cong_adj [OF a])
    fix x y assume xy: "x \<in> set (butlast (0 # f1))" "y \<in> set (tl (0 # f1))" "free_adj N B x y"
    have "x \<noteq> p" using xy(1) d p butlast_distinct_last [of "0 # f1"] by auto
    moreover have "q \<notin> set f1" using d q by (cases f2) auto
    then have "y \<noteq> q" using xy(2) by auto
    ultimately show "free_adj ?N ?B x y" using xy(3) by (simp add: free_adj_def)
  qed
  moreover have "successively (free_adj ?N ?B) (f2 @ [0])"
  proof (rule successively_cong_adj [OF b'])
    fix x y assume xy: "x \<in> set (butlast (f2 @ [0]))" "y \<in> set (tl (f2 @ [0]))" "free_adj N B x y"
    have "x \<in> set f2" using xy(1) by simp
    moreover have "p \<in> insert 0 (set f1)" using p last_in_or [of 0 f1] by simp
    ultimately have "x \<noteq> p" using d by auto
    moreover have "distinct (f2 @ [0])" using d by simp
    then have "y \<noteq> q" using xy(2) q tl_distinct_hd by metis
    ultimately show "free_adj ?N ?B x y" using xy(3) by (simp add: free_adj_def)
  qed
  moreover have "free_adj ?N ?B p q" by (simp add: free_adj_def)
  ultimately have "successively (free_adj ?N ?B) ((0 # f1) @ (f2 @ [0]))"
    unfolding successively_append_iff using p q by auto
  then show ?thesis using d by (simp add: free_list_def)
qed

text \<open>Pushing a node right behind the sentinel.\<close>

lemma free_list_push:
  assumes fl: "free_list N B fl" and e: "e \<notin> set (0 # fl)" and f: "f = hd (fl @ [0])"
  shows "free_list (N(e := - int f - 1, 0 := - int e - 1)) (B(f := Free_prev (int e), e := Free_prev 0)) (e # fl)"
proof -
  let ?N = "N(e := - int f - 1, 0 := - int e - 1)"
  let ?B = "B(f := Free_prev (int e), e := Free_prev 0)"
  have d: "distinct (0 # fl)" and "successively (free_adj N B) (0 # fl @ [0])"
    using fl by (auto simp: free_list_def)
  then have s: "successively (free_adj N B) (fl @ [0])"
    by (cases fl) auto
  have fe: "f \<noteq> e" using e f by (cases fl) auto
  have "successively (free_adj ?N ?B) (fl @ [0])"
  proof (rule successively_cong_adj [OF s])
    fix x y assume xy: "x \<in> set (butlast (fl @ [0]))" "y \<in> set (tl (fl @ [0]))" "free_adj N B x y"
    have "x \<in> set fl" using xy(1) by simp
    moreover have "0 \<notin> set fl" "e \<notin> set fl" using d e by auto
    ultimately have "x \<noteq> 0" "x \<noteq> e" by metis+
    moreover have "distinct (fl @ [0])" using d by simp
    then have "y \<noteq> f" using xy(2) f tl_distinct_hd by metis
    moreover have "y \<in> set (fl @ [0])" using xy(2) by (cases fl) auto
    then have "y \<noteq> e" using e by auto
    ultimately show "free_adj ?N ?B x y" using xy(3) by (simp add: free_adj_def)
  qed
  moreover have "free_adj ?N ?B e f" "free_adj ?N ?B 0 e"
    using e fe by (auto simp: free_adj_def)
  ultimately have "successively (free_adj ?N ?B) (0 # e # (fl @ [0]))"
    using f by (cases fl) auto
  then show ?thesis using d e by (simp add: free_list_def)
qed

lemma free_list_cong:
  assumes "free_list N B fl" "\<And>i. i \<in> set (0 # fl) \<Longrightarrow> N' i = N i \<and> B' i = B i"
  shows "free_list N' B' fl"
proof -
  have "successively (free_adj N' B') (0 # fl @ [0])"
    using assms by (auto simp: free_list_def free_adj_def intro: successively_cong_on)
  with assms show ?thesis by (simp add: free_list_def)
qed

section \<open>Collision chains\<close>

definition chain :: "(nat \<Rightarrow> int) \<Rightarrow> nat list \<Rightarrow> bool" where
  "chain N c \<longleftrightarrow> successively (\<lambda>x y. N x = int y) c \<and> distinct c \<and> (c \<noteq> [] \<longrightarrow> N (last c) = 0)"

lemma chain_Nil [simp]: "chain N []"
  by (simp add: chain_def)

lemma chain_single [simp]: "chain N [i] \<longleftrightarrow> N i = 0"
  by (simp add: chain_def)

lemma chain_Cons: "chain N (x # y # c) \<longleftrightarrow> N x = int y \<and> x \<notin> set (y # c) \<and> chain N (y # c)"
  by (auto simp: chain_def)

lemma chain_suffix: "chain N (xs @ ys) \<Longrightarrow> chain N ys"
  by (auto simp: chain_def successively_append_iff)

lemma chain_next:
  assumes "chain N (c1 @ e # c2)"
  shows "N e = (case c2 of [] \<Rightarrow> 0 | s # _ \<Rightarrow> int s)"
proof -
  from assms have "chain N (e # c2)" by (rule chain_suffix)
  then show ?thesis by (cases c2) (auto simp: chain_Cons)
qed

lemma chain_pred:
  assumes "chain N (c1 @ e # c2)" "c1 \<noteq> []"
  shows "N (last c1) = int e"
proof -
  have "c1 @ e # c2 = butlast c1 @ last c1 # (e # c2)"
    using assms(2) by simp
  with assms(1) have "chain N (butlast c1 @ last c1 # (e # c2))" by metis
  from chain_next [OF this] show ?thesis by simp
qed

lemma chain_cong: "chain N c \<Longrightarrow> (\<And>i. i \<in> set c \<Longrightarrow> N' i = N i) \<Longrightarrow> chain N' c"
  by (auto simp: chain_def intro: successively_cong_on)

lemma chain_cong_butlast:
  assumes "successively (\<lambda>x y. N x = int y) c" "distinct c" "\<And>i. i \<in> set (butlast c) \<Longrightarrow> N' i = N i"
  shows "successively (\<lambda>x y. N' x = int y) c"
  by (rule successively_cong_adj [OF assms(1)]) (simp add: assms(3))

lemma chain_append:
  "chain N (xs @ y # ys) \<longleftrightarrow>
     successively (\<lambda>x y. N x = int y) xs \<and> (xs \<noteq> [] \<longrightarrow> N (last xs) = int y) \<and>
     chain N (y # ys) \<and> distinct xs \<and> set xs \<inter> set (y # ys) = {}"
  by (simp add: chain_def successively_append_iff) blast

text \<open>Appending a slot, replacing a slot by a copy elsewhere, and cutting one out.\<close>

lemma chain_snoc:
  assumes c: "chain N c" and "c \<noteq> []" "d \<notin> set c"
  shows "chain (N(last c := int d, d := 0)) (c @ [d])"
proof -
  have dc: "distinct c" and s: "successively (\<lambda>x y. N x = int y) c"
    using c by (simp_all add: chain_def)
  have "successively (\<lambda>x y. (N(last c := int d, d := 0)) x = int y) c"
  proof (rule chain_cong_butlast [OF s dc])
    fix i assume "i \<in> set (butlast c)"
    then have "i \<noteq> last c" "i \<in> set c"
      using dc butlast_distinct_last in_set_butlastD by metis+
    with assms(3) show "(N(last c := int d, d := 0)) i = N i" by auto
  qed
  moreover have "last c \<noteq> d" using assms(2,3) by auto
  ultimately show ?thesis
    using assms(2,3) dc unfolding chain_append by simp
qed

lemma chain_subst:
  assumes c: "chain N (c1 @ e # c2)" and ne: "c1 \<noteq> []" and d: "d \<notin> set (c1 @ e # c2)"
    and N': "N' (last c1) = int d" "N' d = N e" "\<And>i. i \<in> set (butlast c1) \<union> set c2 \<Longrightarrow> N' i = N i"
  shows "chain N' (c1 @ d # c2)"
proof -
  have s: "successively (\<lambda>x y. N x = int y) c1" "distinct c1" and e: "chain N (e # c2)"
    and disj: "set c1 \<inter> set (e # c2) = {}"
    using c unfolding chain_append by auto
  have "successively (\<lambda>x y. N' x = int y) c1"
    using N'(3) by (intro chain_cong_butlast [OF s]) auto
  moreover have "chain N' (d # c2)"
  proof (cases c2)
    case Nil
    with e N'(2) show ?thesis by simp
  next
    case (Cons y ys)
    have "chain N' (y # ys)"
      by (rule chain_cong [of N]) (use e N'(3) Cons in \<open>auto simp: chain_Cons\<close>)
    with e N'(2) d Cons show ?thesis by (auto simp: chain_Cons)
  qed
  ultimately show ?thesis
    using N'(1) s(2) disj d unfolding chain_append by auto
qed

lemma chain_cut:
  assumes c: "chain N (c1 @ e # s # c2)"
    and N': "N' e = N s" "\<And>i. i \<in> set c1 \<union> set c2 \<Longrightarrow> N' i = N i"
  shows "chain N' (c1 @ e # c2)"
proof -
  have s: "successively (\<lambda>x y. N x = int y) c1" "distinct c1" "c1 \<noteq> [] \<Longrightarrow> N (last c1) = int e"
    and e: "chain N (s # c2)" "e \<notin> set (s # c2)" and disj: "set c1 \<inter> set (e # s # c2) = {}"
    using c unfolding chain_append by (auto simp: chain_Cons)
  have "successively (\<lambda>x y. N' x = int y) c1"
    using N'(2) in_set_butlastD by (intro chain_cong_butlast [OF s(1,2)]) fastforce
  moreover have "chain N' (e # c2)"
  proof (cases c2)
    case Nil
    with e N'(1) show ?thesis by simp
  next
    case (Cons y ys)
    have "chain N' (y # ys)"
      by (rule chain_cong [of N]) (use e N'(2) Cons in \<open>auto simp: chain_Cons\<close>)
    with e N'(1) Cons show ?thesis by (auto simp: chain_Cons)
  qed
  moreover have "c1 \<noteq> [] \<Longrightarrow> N' (last c1) = int e" using s(3) N'(2) by simp
  ultimately show ?thesis
    using s(2) disj unfolding chain_append by auto
qed

lemma chain_drop_last:
  assumes "chain N (c1 @ [e])"
  shows "chain (N(last c1 := 0)) c1"
proof -
  have s: "successively (\<lambda>x y. N x = int y) c1" "distinct c1"
    using assms unfolding chain_append by auto
  have "successively (\<lambda>x y. (N(last c1 := 0)) x = int y) c1"
    using butlast_distinct_last [OF s(2)] by (intro chain_cong_butlast [OF s]) auto
  with s(2) show ?thesis by (simp add: chain_def)
qed

end
