(* ===== verification/Scatter_Walk.thy ===== *)
theory Scatter_Walk
  imports Scatter_Rep
begin

text \<open>
  The representation relation of the scatter table over its links and bodies, the three
  ways a hash address can look, and what the table's loops return on a chain.
\<close>

section \<open>Contents and representation\<close>

text \<open>What slot \<open>i\<close> of a table of \<open>n\<close> slots holds: \<open>None\<close> for a free one.\<close>

definition content :: "(nat \<Rightarrow> int) \<Rightarrow> (nat \<Rightarrow> ('k, 'v) body) \<Rightarrow> nat \<Rightarrow> nat \<Rightarrow> ('k \<times> 'v) option" where
  "content N B n i =
     (if i \<in> {1..n} \<and> 0 \<le> N i then (case B i of Entry k v \<Rightarrow> Some (k, v) | Free_prev _ \<Rightarrow> None) else None)"

lemma content_Some_iff:
  "content N B n i = Some (k, v) \<longleftrightarrow> i \<in> {1..n} \<and> 0 \<le> N i \<and> B i = Entry k v"
  by (auto simp: content_def split: body.splits)

text \<open>
  \<open>chs a\<close> is the list of slots of the chain with home address \<open>a\<close> and \<open>fl\<close> the free list:
  the free slots are those on the free list, each key sits in the chain of its own hash
  address (no coalescing), which starts at that address, and no key occurs twice.
\<close>

definition rep :: "('k \<Rightarrow> nat) \<Rightarrow> nat \<Rightarrow> nat \<Rightarrow> (nat \<Rightarrow> int) \<Rightarrow> (nat \<Rightarrow> ('k, 'v) body) \<Rightarrow>
    (nat \<Rightarrow> nat list) \<Rightarrow> nat list \<Rightarrow> bool" where
  "rep h n sz N B chs fl \<longleftrightarrow>
     free_list N B fl \<and> set fl = {i \<in> {1..n}. content N B n i = None} \<and>
     (\<forall>a. chain N (chs a) \<and> set (chs a) = {i. \<exists>k v. content N B n i = Some (k, v) \<and> h k = a} \<and>
        (chs a \<noteq> [] \<longrightarrow> hd (chs a) = a)) \<and>
     (\<forall>i j k v w. content N B n i = Some (k, v) \<longrightarrow> content N B n j = Some (k, w) \<longrightarrow> i = j) \<and>
     (\<forall>k. h k \<in> {1..n}) \<and> sz + length fl = n"

lemma repI [inv_intros]:
  assumes "free_list N B fl" "set fl = {i \<in> {1..n}. content N B n i = None}"
    and "\<And>a. chain N (chs a)"
    and "\<And>a. set (chs a) = {i. \<exists>k v. content N B n i = Some (k, v) \<and> h k = a}"
    and "\<And>a. chs a \<noteq> [] \<Longrightarrow> hd (chs a) = a"
    and "\<And>i j k v w. content N B n i = Some (k, v) \<Longrightarrow> content N B n j = Some (k, w) \<Longrightarrow> i = j"
    and "\<And>k. h k \<in> {1..n}" "sz + length fl = n"
  shows "rep h n sz N B chs fl"
  unfolding rep_def using assms by blast

lemma repD:
  assumes "rep h n sz N B chs fl"
  shows rep_free: "free_list N B fl"
    and rep_fl: "set fl = {i \<in> {1..n}. content N B n i = None}"
    and rep_chain: "chain N (chs a)"
    and rep_home: "set (chs a) = {i. \<exists>k v. content N B n i = Some (k, v) \<and> h k = a}"
    and rep_hd: "chs a \<noteq> [] \<Longrightarrow> hd (chs a) = a"
    and rep_unique: "content N B n i = Some (k, v) \<Longrightarrow> content N B n j = Some (k, w) \<Longrightarrow> i = j"
    and rep_haddr: "h x \<in> {1..n}"
    and rep_size: "sz + length fl = n"
proof -
  note r = assms [unfolded rep_def]
  show "free_list N B fl" "set fl = {i \<in> {1..n}. content N B n i = None}" "h x \<in> {1..n}"
    "sz + length fl = n" "chain N (chs a)"
    "set (chs a) = {i. \<exists>k v. content N B n i = Some (k, v) \<and> h k = a}"
    using r by auto
  show "chs a \<noteq> [] \<Longrightarrow> hd (chs a) = a" using r by blast
  show "content N B n i = Some (k, v) \<Longrightarrow> content N B n j = Some (k, w) \<Longrightarrow> i = j"
    using r by blast
qed

lemma rep_fl_iff: "rep h n sz N B chs fl \<Longrightarrow> i \<in> set fl \<longleftrightarrow> i \<in> {1..n} \<and> content N B n i = None"
  using rep_fl by blast

lemma rep_free_neg:
  assumes r: "rep h n sz N B chs fl" and i: "i \<in> {1..n}"
  shows "N i < 0 \<longleftrightarrow> content N B n i = None"
proof
  assume "content N B n i = None"
  then have "i \<in> set fl" using rep_fl_iff [OF r] i by blast
  then obtain f1 f2 where "fl = f1 @ i # f2" by (auto simp: in_set_conv_decomp)
  with free_list_next(1) rep_free [OF r] have "N i = - int (hd (f2 @ [0])) - 1" by blast
  then show "N i < 0" by simp
qed (simp add: content_def)

text \<open>The three cases of the comment in \<open>get\<close>.\<close>

lemma rep_cases [consumes 1, case_names empty home foreign]:
  assumes r: "rep h n sz N B chs fl"
  obtains (empty) "N (h key) < 0" "h key \<in> set fl" "chs (h key) = []" "content N B n (h key) = None"
    | (home) k v c where "0 \<le> N (h key)" "B (h key) = Entry k v" "h k = h key" "chs (h key) = h key # c"
    | (foreign) k v c1 c2 where "0 \<le> N (h key)" "B (h key) = Entry k v" "h k \<noteq> h key"
        "chs (h key) = []" "chs (h k) = c1 @ h key # c2" "c1 \<noteq> []" "hd c1 = h k"
proof (cases "content N B n (h key)")
  case None
  have "chs (h key) = []"
  proof (rule ccontr)
    assume "chs (h key) \<noteq> []"
    with rep_hd [OF r this] have "h key \<in> set (chs (h key))" using list.set_sel(1) by metis
    with rep_home [OF r] None show False by auto
  qed
  moreover have "N (h key) < 0" using rep_free_neg [OF r rep_haddr [OF r]] None by simp
  ultimately show ?thesis using empty None rep_fl_iff [OF r] rep_haddr [OF r] by blast
next
  case (Some kv)
  obtain k v where kv: "content N B n (h key) = Some (k, v)" using Some by (cases kv) auto
  then have nb: "0 \<le> N (h key)" "B (h key) = Entry k v" by (auto simp: content_Some_iff)
  have mem: "h key \<in> set (chs (h k))" using rep_home [OF r] kv by auto
  show ?thesis
  proof (cases "h k = h key")
    case True
    with mem have "chs (h key) \<noteq> []" by auto
    with rep_hd [OF r this] obtain c where "chs (h key) = h key # c" by (cases "chs (h key)") auto
    with home nb True show ?thesis by blast
  next
    case False
    obtain c1 c2 where c: "chs (h k) = c1 @ h key # c2" using mem by (auto simp: in_set_conv_decomp)
    have "hd (chs (h k)) = h k" by (rule rep_hd [OF r]) (use mem in auto)
    with c False have c1: "c1 \<noteq> []" "hd c1 = h k" by (cases c1; auto)+
    have "chs (h key) = []"
    proof (rule ccontr)
      assume ne: "chs (h key) \<noteq> []"
      with rep_hd [OF r ne] have "h key \<in> set (chs (h key))" using list.set_sel(1) by metis
      with rep_home [OF r] kv False show False by auto
    qed
    with foreign nb False c c1 show ?thesis by blast
  qed
qed

lemma rep_occupied:
  assumes "rep h n sz N B chs fl" "i \<in> set (chs a)"
  shows "i \<in> {1..n}" "i \<notin> set fl" "i \<noteq> 0" "0 \<le> N i" "\<exists>k v. B i = Entry k v"
proof -
  obtain k v where kv: "content N B n i = Some (k, v)"
    using assms rep_home by blast
  then show "i \<in> {1..n}" "0 \<le> N i" "\<exists>k v. B i = Entry k v" by (auto simp: content_Some_iff)
  then show "i \<noteq> 0" by auto
  show "i \<notin> set fl" using kv rep_fl_iff [OF assms(1)] by auto
qed

section \<open>Walks\<close>

text \<open>
  \<open>key_free B key c\<close>: all slots of \<open>c\<close> hold an entry, none of them for \<open>key\<close>.
\<close>

definition key_free :: "(nat \<Rightarrow> ('k, 'v) body) \<Rightarrow> 'k \<Rightarrow> nat list \<Rightarrow> bool" where
  "key_free B key c \<longleftrightarrow> (\<forall>i\<in>set c. \<exists>k v. B i = Entry k v \<and> k \<noteq> key)"

lemma key_free_simps [simp]:
  "key_free B key []"
  "key_free B key (i # c) \<longleftrightarrow> (\<exists>k v. B i = Entry k v \<and> k \<noteq> key) \<and> key_free B key c"
  "key_free B key (c1 @ c2) \<longleftrightarrow> key_free B key c1 \<and> key_free B key c2"
  by (auto simp: key_free_def)

text \<open>One step of each loop past a slot with another key.\<close>

lemma walk_skip:
  assumes "bd bs i = Entry k v" "k \<noteq> key" "nx bs i = int j" "j \<noteq> 0"
  shows "get_walk bs key i = get_walk bs key j"
    and "put_walk bs key i = put_walk bs key j"
    and "remove_walk bs key ep i = remove_walk bs key i j"
  using assms
  by (subst get_walk.simps put_walk.simps remove_walk.simps, simp add: nx_def bd_def)+

lemma walk_miss_end:
  assumes "bd bs i = Entry k v" "k \<noteq> key" "nx bs i = 0"
  shows "get_walk bs key i = Some None"
    and "put_walk bs key i = Some (i, False)"
    and "remove_walk bs key ep i = Some None"
  using assms
  by (subst get_walk.simps put_walk.simps remove_walk.simps, simp add: nx_def bd_def)+

lemma walk_hit_here:
  assumes "bd bs i = Entry key v"
  shows "get_walk bs key i = Some (Some v)"
    and "put_walk bs key i = Some (i, True)"
    and "remove_walk bs key ep i = Some (Some (ep, i, v))"
  using assms
  by (subst get_walk.simps put_walk.simps remove_walk.simps, simp add: nx_def bd_def)+

lemma walk_miss:
  assumes "chain (nx bs) (i # c)" "key_free (bd bs) key (i # c)" "0 \<notin> set c"
  shows "get_walk bs key i = Some None \<and> put_walk bs key i = Some (last (i # c), False) \<and>
         remove_walk bs key ep i = Some None"
  using assms
proof (induction c arbitrary: i ep)
  case Nil
  then show ?case by (auto simp: walk_miss_end)
next
  case (Cons j c)
  from Cons.prems obtain k v where "bd bs i = Entry k v" "k \<noteq> key" "nx bs i = int j" "j \<noteq> 0"
    by (auto simp: chain_Cons)
  then show ?case
    using Cons.IH [of j i] Cons.prems by (simp add: walk_skip chain_Cons)
qed

lemma walk_hit:
  assumes "chain (nx bs) (c1 @ e # c2)" "key_free (bd bs) key c1" "bd bs e = Entry key v"
    "0 \<notin> set (c1 @ [e])"
  shows "get_walk bs key (hd (c1 @ [e])) = Some (Some v) \<and>
         put_walk bs key (hd (c1 @ [e])) = Some (e, True) \<and>
         remove_walk bs key ep (hd (c1 @ [e])) = Some (Some (last (ep # c1), e, v))"
  using assms
proof (induction c1 arbitrary: ep)
  case Nil
  then show ?case by (auto simp: walk_hit_here)
next
  case (Cons i c1)
  let ?j = "hd (c1 @ [e])"
  from Cons.prems have "nx bs i = int ?j" "?j \<noteq> 0"
    by (cases c1; auto simp: chain_Cons)+
  moreover from Cons.prems obtain k w where "bd bs i = Entry k w" "k \<noteq> key" by auto
  moreover have "chain (nx bs) (c1 @ e # c2)"
    using Cons.prems(1) chain_suffix [of _ "[i]"] by simp
  ultimately show ?case
    using Cons.IH [of i] Cons.prems by (simp add: walk_skip)
qed

lemma pred_walk_chain:
  assumes "chain (nx bs) (c1 @ a # c2)" "c1 \<noteq> []" "0 \<notin> set c1"
  shows "pred_walk bs a (hd c1) = Some (last c1)"
  using assms
proof (induction c1)
  case (Cons i c1)
  show ?case
  proof (cases c1)
    case Nil
    with Cons.prems show ?thesis
      by (subst pred_walk.simps) (simp add: chain_Cons nx_def)
  next
    case (Cons j c)
    with Cons.prems have "nx bs i = int j" "j \<noteq> a" "chain (nx bs) (c1 @ a # c2)"
      by (auto simp: chain_Cons chain_def)
    then show ?thesis
      using Cons.IH Cons.prems Cons
      by (subst pred_walk.simps) (simp add: nx_def [symmetric] del: last.simps, simp)
  qed
qed simp

end
