(* ===== verification/Scatter_Update.thy ===== *)
theory Scatter_Update
  imports Scatter_Walk
begin

text \<open>
  How each rearrangement of slots that \<open>put\<close> and \<open>remove\<close> perform changes the
  representation: unlinking and pushing free slots, filling a slot, appending to a chain,
  displacing a foreign entry, and cutting an entry out of its chain.
\<close>

section \<open>Contents under updates\<close>

lemma content_fill:
  assumes "e \<in> {1..n}"
  shows "content (N(e := 0)) (B(e := Entry k v)) n = (content N B n)(e := Some (k, v))"
  using assms by (auto simp: content_def fun_eq_iff)

lemma content_relink:
  assumes "0 \<le> x" "0 \<le> N i"
  shows "content (N(i := x)) B n = content N B n"
  using assms by (auto simp: content_def fun_eq_iff)

lemma content_copy:
  assumes "d \<in> {1..n}" "a \<in> {1..n}"
  shows "content (N(d := N a)) (B(d := B a)) n = (content N B n)(d := content N B n a)"
  using assms by (auto simp: content_def fun_eq_iff)

text \<open>Unlinking a free slot leaves the contents alone.\<close>

lemma content_unlink:
  assumes r: "rep h n sz N B chs (f1 @ e # f2)" and p: "p = last (0 # f1)" and q: "q = hd (f2 @ [0])"
  shows "content (N(p := - int q - 1)) (B(q := Free_prev x)) n = content N B n"
proof
  fix i
  have pq: "p \<in> insert 0 (set f1)" "q \<in> insert 0 (set f2)"
    using p q last_in_or [of 0 f1] by (cases f2; simp)+
  have none: "content N B n j = None" if "j \<in> insert 0 (set f1 \<union> set f2)" for j
  proof (cases "j = 0")
    case False
    with that have "j \<in> set (f1 @ e # f2)" by auto
    then show ?thesis using rep_fl_iff [OF r, of j] by simp
  qed (simp add: content_def)
  show "content (N(p := - int q - 1)) (B(q := Free_prev x)) n i = content N B n i"
  proof (cases "i = p \<or> i = q")
    case True
    with pq have "i \<in> insert 0 (set f1 \<union> set f2)" by auto
    then have "content N B n i = None" by (rule none)
    moreover have "content (N(p := - int q - 1)) (B(q := Free_prev x)) n i = None"
    proof (cases "i = p")
      case True
      then show ?thesis by (simp add: content_def)
    next
      case False
      with True show ?thesis by (simp add: content_def)
    qed
    ultimately show ?thesis by simp
  next
    case False
    then show ?thesis by (simp add: content_def)
  qed
qed

section \<open>Taking a slot off the free list\<close>

text \<open>
  The state between taking slot \<open>e\<close> off the free list and filling it: everything is as in
  a represented table but for \<open>e\<close>, which is on no list.
\<close>

definition rep_hole :: "('k \<Rightarrow> nat) \<Rightarrow> nat \<Rightarrow> nat \<Rightarrow> (nat \<Rightarrow> int) \<Rightarrow> (nat \<Rightarrow> ('k, 'v) body) \<Rightarrow>
    (nat \<Rightarrow> nat list) \<Rightarrow> nat list \<Rightarrow> nat \<Rightarrow> bool" where
  "rep_hole h n sz N B chs fl e \<longleftrightarrow>
     free_list N B fl \<and> e \<in> {1..n} \<and> e \<notin> set fl \<and> content N B n e = None \<and>
     insert e (set fl) = {i \<in> {1..n}. content N B n i = None} \<and>
     (\<forall>a. chain N (chs a) \<and> set (chs a) = {i. \<exists>k v. content N B n i = Some (k, v) \<and> h k = a} \<and>
        (chs a \<noteq> [] \<longrightarrow> hd (chs a) = a)) \<and>
     (\<forall>i j k v w. content N B n i = Some (k, v) \<longrightarrow> content N B n j = Some (k, w) \<longrightarrow> i = j) \<and>
     (\<forall>k. h k \<in> {1..n}) \<and> sz + length fl + 1 = n"

lemma rep_hole_occupied:
  assumes "rep_hole h n sz N B chs fl e" "i \<in> set (chs a)"
  shows "i \<in> {1..n}" "i \<notin> set (0 # fl)" "i \<noteq> e" "0 \<le> N i"
proof -
  obtain k v where kv: "content N B n i = Some (k, v)"
    using assms unfolding rep_hole_def by blast
  then show "i \<in> {1..n}" "0 \<le> N i" by (auto simp: content_Some_iff)
  moreover have "i \<notin> insert e (set fl)"
    using assms(1) kv unfolding rep_hole_def by force
  ultimately show "i \<notin> set (0 # fl)" "i \<noteq> e" by auto
qed

lemma rep_unlink:
  assumes r: "rep h n sz N B chs (f1 @ e # f2)" and p: "p = last (0 # f1)" and q: "q = hd (f2 @ [0])"
  shows "rep_hole h n sz (N(p := - int q - 1)) (B(q := Free_prev (int p))) chs (f1 @ f2) e"
proof -
  let ?N = "N(p := - int q - 1)" and ?B = "B(q := Free_prev (int p))"
  have c: "content ?N ?B n = content N B n" by (rule content_unlink [OF r p q])
  have d: "distinct (f1 @ e # f2)" using rep_free [OF r] by (simp add: free_list_def)
  have "p \<in> insert 0 (set f1)" using p last_in_or [of 0 f1] by simp
  then have pf: "p \<in> set (0 # f1 @ e # f2)" by auto
  have ch: "chain ?N (chs a)" for a
  proof (rule chain_cong [OF rep_chain [OF r]])
    fix i assume "i \<in> set (chs a)"
    then have "i \<noteq> p" using rep_occupied(2,3) [OF r] pf by auto
    then show "?N i = N i" by simp
  qed
  have e: "e \<in> {1..n}" "content N B n e = None" using rep_fl_iff [OF r, of e] by auto
  show ?thesis
    unfolding rep_hole_def c
    using free_list_unlink [OF rep_free [OF r] p q] e d ch rep_fl [OF r] rep_home [OF r]
      rep_hd [OF r] rep_unique [OF r] rep_haddr [OF r] rep_size [OF r]
    by (intro conjI allI impI) auto
qed

section \<open>Filling the slot\<close>

lemma rep_fill:
  assumes r: "rep_hole h n sz N B chs fl e"
    and new: "\<And>i v. content N B n i \<noteq> Some (key, v)"
    and ch: "\<And>a. chain N' (chs' a)" "\<And>a. chs' a \<noteq> [] \<Longrightarrow> hd (chs' a) = a"
      "\<And>a. set (chs' a) = {i. \<exists>k v. content N' B' n i = Some (k, v) \<and> h k = a}"
    and NB: "\<And>i. i \<in> set (0 # fl) \<Longrightarrow> N' i = N i \<and> B' i = B i"
    and c: "content N' B' n = ((content N B n) \<circ> \<pi>)(e' := Some (key, v))"
    and \<pi>: "\<And>i j. i \<noteq> e' \<Longrightarrow> j \<noteq> e' \<Longrightarrow> \<pi> i = \<pi> j \<Longrightarrow> content N B n (\<pi> i) \<noteq> None \<Longrightarrow> i = j"
    and dom: "\<And>i. i \<in> {1..n} \<Longrightarrow> content N' B' n i = None \<longleftrightarrow> i \<in> set fl"
  shows "rep h n (sz + 1) N' B' chs' fl"
proof (rule repI)
  show "free_list N' B' fl"
    using r NB unfolding rep_hole_def by (auto intro: free_list_cong)
  show "set fl = {i \<in> {1..n}. content N' B' n i = None}"
  proof -
    have "set fl \<subseteq> {1..n}" using r unfolding rep_hole_def by blast
    with dom show ?thesis by blast
  qed
  show "i = j" if "content N' B' n i = Some (k, w)" "content N' B' n j = Some (k, w')" for i j k w w'
  proof (cases "i = e' \<or> j = e'")
    case True
    with that c new show ?thesis by (auto split: if_splits)
  next
    case False
    with that c have "content N B n (\<pi> i) = Some (k, w)" "content N B n (\<pi> j) = Some (k, w')" by auto
    with r have "\<pi> i = \<pi> j" unfolding rep_hole_def by blast
    with \<pi> False \<open>content N B n (\<pi> i) = Some (k, w)\<close> show ?thesis by auto
  qed
  show "h k \<in> {1..n}" for k using r unfolding rep_hole_def by blast
  show "sz + 1 + length fl = n" using r unfolding rep_hole_def by simp
qed (use ch in auto)

lemma hole_dom:
  assumes "rep_hole h n sz N B chs fl e" "i \<in> {1..n}" "i \<noteq> e"
  shows "content N B n i = None \<longleftrightarrow> i \<in> set fl"
proof -
  have "insert e (set fl) = {i \<in> {1..n}. content N B n i = None}"
    using assms(1) by (simp add: rep_hole_def)
  then have "i \<in> insert e (set fl) \<longleftrightarrow> i \<in> {1..n} \<and> content N B n i = None" by simp
  with assms(2,3) show ?thesis by simp
qed

text \<open>Case 1 of \<open>put\<close>: the slot is the head of its key's own, empty, chain.\<close>

lemma rep_fill_head:
  assumes r: "rep_hole h n sz N B chs fl e" and e: "h key = e" "chs e = []"
  shows "rep h n (sz + 1) (N(e := 0)) (B(e := Entry key v)) (chs(e := [e])) fl"
    and "content (N(e := 0)) (B(e := Entry key v)) n = (content N B n)(e := Some (key, v))"
proof -
  let ?N = "N(e := 0)" and ?B = "B(e := Entry key v)"
  have en: "e \<in> {1..n}" using r by (simp add: rep_hole_def)
  show c: "content ?N ?B n = (content N B n)(e := Some (key, v))"
    by (rule content_fill [OF en])
  have home: "set (chs a) = {i. \<exists>k v. content N B n i = Some (k, v) \<and> h k = a}" for a
    using r unfolding rep_hole_def by blast
  have ne: "content N B n e = None" using r by (simp add: rep_hole_def)
  show "rep h n (sz + 1) ?N ?B (chs(e := [e])) fl"
  proof (rule rep_fill [OF r, where \<pi> = id and e' = e])
    show "content N B n i \<noteq> Some (key, v)" for i v using home [of e] e by auto
    show "chain ?N ((chs(e := [e])) a)" for a
      using r rep_hole_occupied(3) [OF r] by (auto simp: rep_hole_def intro: chain_cong)
    show "(chs(e := [e])) a \<noteq> [] \<Longrightarrow> hd ((chs(e := [e])) a) = a" for a
      using r by (auto simp: rep_hole_def split: if_splits)
    show "set ((chs(e := [e])) a) = {i. \<exists>k v. content ?N ?B n i = Some (k, v) \<and> h k = a}" for a
      using home [of a] home [of e] e ne unfolding c by auto
    show "?N i = N i \<and> ?B i = B i" if "i \<in> set (0 # fl)" for i
      using that r en by (auto simp: rep_hole_def)
    show "content ?N ?B n i = None \<longleftrightarrow> i \<in> set fl" if "i \<in> {1..n}" for i
      using hole_dom [OF r that] r unfolding c by (auto simp: rep_hole_def)
  qed (auto simp: c)
qed

text \<open>Case 2: the slot becomes the last of the key's chain.\<close>

lemma rep_fill_last:
  assumes r: "rep_hole h n sz N B chs fl d" and a: "h key = a" "chs a \<noteq> []" "ep = last (chs a)"
    and new: "\<And>i v. content N B n i \<noteq> Some (key, v)"
  shows "rep h n (sz + 1) (N(ep := int d, d := 0)) (B(d := Entry key v)) (chs(a := chs a @ [d])) fl"
    and "content (N(ep := int d, d := 0)) (B(d := Entry key v)) n = (content N B n)(d := Some (key, v))"
proof -
  let ?N = "N(ep := int d, d := 0)" and ?B = "B(d := Entry key v)"
  have dn: "d \<in> {1..n}" and dnone: "content N B n d = None" using r by (auto simp: rep_hole_def)
  have epc: "ep \<in> set (chs a)" using a by simp
  note ep = rep_hole_occupied [OF r epc]
  show c: "content ?N ?B n = (content N B n)(d := Some (key, v))"
    by (simp add: content_fill [OF dn] content_relink ep(4))
  have home: "set (chs a) = {i. \<exists>k v. content N B n i = Some (k, v) \<and> h k = a}" for a
    using r unfolding rep_hole_def by blast
  have chn: "chain N (chs b)" for b using r unfolding rep_hole_def by blast
  show "rep h n (sz + 1) ?N ?B (chs(a := chs a @ [d])) fl"
  proof (rule rep_fill [OF r, where \<pi> = id and e' = d])
    show "content N B n i \<noteq> Some (key, v)" for i v by (rule new)
    show "chain ?N ((chs(a := chs a @ [d])) b)" for b
    proof (cases "b = a")
      case True
      then show ?thesis
        using chain_snoc [OF chn a(2), of d] a(3) rep_hole_occupied(3) [OF r] by auto
    next
      case False
      have "i \<noteq> ep" if "i \<in> set (chs b)" for i
        using that epc False home by auto
      then show ?thesis
        using False rep_hole_occupied(3) [OF r] by (auto intro: chain_cong [OF chn])
    qed
    show "(chs(a := chs a @ [d])) b \<noteq> [] \<Longrightarrow> hd ((chs(a := chs a @ [d])) b) = b" for b
      using r a(2) by (auto simp: rep_hole_def split: if_splits)
    show "set ((chs(a := chs a @ [d])) b) = {i. \<exists>k v. content ?N ?B n i = Some (k, v) \<and> h k = b}" for b
      using home [of b] a dnone unfolding c by auto
    show "?N i = N i \<and> ?B i = B i" if "i \<in> set (0 # fl)" for i
      using that r dn ep(2) by (auto simp: rep_hole_def)
    show "content ?N ?B n i = None \<longleftrightarrow> i \<in> set fl" if "i \<in> {1..n}" for i
      using hole_dom [OF r that] r unfolding c by (auto simp: rep_hole_def)
  qed (auto simp: c)
qed

text \<open>
  Case 3: the entry of another chain that sits in slot \<open>a = h key\<close> moves to the free slot
  \<open>d\<close>, its predecessor is relinked, and \<open>a\<close> becomes the head of the key's chain.
\<close>

lemma rep_fill_displace:
  assumes r: "rep_hole h n sz N B chs fl d" and a: "h key = a" "chs a = []"
    and b: "chs b = c1 @ a # c2" "c1 \<noteq> []" "ep = last c1"
    and N': "N' = N(d := N a, ep := int d, a := 0)" and B': "B' = B(d := B a, a := Entry key v)"
  shows "rep h n (sz + 1) N' B' (chs(b := c1 @ d # c2, a := [a])) fl"
    and "content N' B' n = (content N B n)(d := content N B n a, a := Some (key, v))"
proof -
  have dn: "d \<in> {1..n}" and dnone: "content N B n d = None" using r by (auto simp: rep_hole_def)
  have abc: "a \<in> set (chs b)" "ep \<in> set (chs b)" using b by auto
  note av = rep_hole_occupied [OF r abc(1)] and ev = rep_hole_occupied [OF r abc(2)]
  have chn: "chain N (chs b)" for b using r unfolding rep_hole_def by blast
  have dst: "distinct (c1 @ a # c2)" using chn [of b] b(1) by (simp add: chain_def)
  have ne: "ep \<noteq> a" "ep \<noteq> d" "a \<noteq> d" using b dst av(3) ev(3) by auto
  have ab: "a \<noteq> b" using a(2) b(1) by auto
  have N'': "N' = (N(d := N a))(ep := int d, a := 0)" using N' by simp
  have "0 \<le> (N(d := N a)) ep" using ev(4) ne by simp
  then have c1': "content ((N(d := N a))(ep := int d)) (B(d := B a)) n = (content N B n)(d := content N B n a)"
    by (simp add: content_relink content_copy [OF dn av(1)])
  then show c: "content N' B' n = (content N B n)(d := content N B n a, a := Some (key, v))"
    unfolding N'' B' by (simp add: content_fill [OF av(1)])
  have home: "set (chs a) = {i. \<exists>k v. content N B n i = Some (k, v) \<and> h k = a}" for a
    using r unfolding rep_hole_def by blast
  have new: "content N B n i \<noteq> Some (key, v)" for i v using home [of a] a by auto
  obtain k0 v0 where kv0: "content N B n a = Some (k0, v0)" "h k0 = b"
    using abc(1) home [of b] by auto
  have uniq: "\<And>i j k v w. content N B n i = Some (k, v) \<Longrightarrow> content N B n j = Some (k, w) \<Longrightarrow> i = j"
    using r unfolding rep_hole_def by blast
  let ?chs = "chs(b := c1 @ d # c2, a := [a])"
  show "rep h n (sz + 1) N' B' ?chs fl"
  proof (rule rep_fill [OF r, where \<pi> = "id(d := a)" and e' = a])
    show "content N B n i \<noteq> Some (key, v)" for i v by (rule new)
    show "chain N' (?chs x)" for x
    proof -
      have "chain N' [a]" by (simp add: N')
      moreover have "chain N' (c1 @ d # c2)"
      proof (rule chain_subst [OF _ b(2)])
        show "chain N (c1 @ a # c2)" using chn [of b] b(1) by simp
        show "d \<notin> set (c1 @ a # c2)" using rep_hole_occupied(3) [OF r, of d b] b(1) by auto
        show "N' (last c1) = int d" "N' d = N a" using ne b(3) by (auto simp: N')
        fix i assume i: "i \<in> set (butlast c1) \<union> set c2"
        then have "i \<in> set (chs b)" using b(1) in_set_butlastD by fastforce
        moreover have "ep \<in> set c1" using b(2,3) by simp
        then have "ep \<notin> set c2" using dst by (simp add: disjoint_iff)
        then have "i \<noteq> ep" using i b(2,3) dst butlast_distinct_last [of c1 i] by auto
        moreover have "i \<noteq> a" using i dst in_set_butlastD by fastforce
        ultimately show "N' i = N i" using rep_hole_occupied(3) [OF r] by (auto simp: N')
      qed
      moreover have "chain N' (chs x)" if "x \<noteq> b"
      proof (rule chain_cong [OF chn])
        fix i assume "i \<in> set (chs x)"
        moreover from this have "i \<noteq> ep" "i \<noteq> a" using abc home that by auto
        ultimately show "N' i = N i" using rep_hole_occupied(3) [OF r] by (auto simp: N')
      qed
      ultimately show ?thesis by simp
    qed
    show "?chs x \<noteq> [] \<Longrightarrow> hd (?chs x) = x" for x
    proof -
      have hd: "\<And>y. chs y \<noteq> [] \<Longrightarrow> hd (chs y) = y" using r by (simp add: rep_hole_def)
      from hd [of b] b(1,2) have "hd c1 = b" by simp
      with hd [of x] b(2) show "?chs x \<noteq> [] \<Longrightarrow> hd (?chs x) = x" by (auto split: if_splits)
    qed
    show "set (?chs x) = {i. \<exists>k v. content N' B' n i = Some (k, v) \<and> h k = x}" for x
    proof (cases "x = a")
      case True
      have "content N B n i \<noteq> Some (k, w) \<or> h k \<noteq> a" for i k w using home [of a] a(2) by auto
      then show ?thesis using True a(1) kv0 ab unfolding c by auto
    next
      case False
      note hx = home [of x]
      show ?thesis
      proof (cases "x = b")
        case True
        have "set (c1 @ d # c2) = insert d (set (chs b) - {a})" using b(1) dst by auto
        with True False hx kv0 dnone ne ab a(1) show ?thesis unfolding c by auto
      next
        case xb: False
        with False hx kv0 dnone ne ab a(1) show ?thesis unfolding c by auto
      qed
    qed
    show "N' i = N i \<and> B' i = B i" if "i \<in> set (0 # fl)" for i
      using that r dn av(1,2) ev(1,2) by (auto simp: rep_hole_def N' B')
    show "content N' B' n = (content N B n \<circ> id(d := a))(a := Some (key, v))"
      using ne by (auto simp: c fun_eq_iff)
    show "i = j" if "i \<noteq> a" "j \<noteq> a" "(id(d := a)) i = (id(d := a)) j" for i j
      using that by (auto split: if_splits)
    show "content N' B' n i = None \<longleftrightarrow> i \<in> set fl" if "i \<in> {1..n}" for i
      using hole_dom [OF r that] r kv0 av(2) unfolding c by (auto simp: rep_hole_def)
  qed
qed

section \<open>Releasing a slot\<close>

text \<open>
  \<open>free_slot\<close> on slot \<open>e\<close> after its entry has been cut out of its chain: \<open>N'\<close> and \<open>B'\<close> are
  the links and bodies at that point, \<open>c'\<close> the contents that remain.
\<close>

lemma rep_release:
  assumes r: "rep h n sz N B chs fl" and e: "e \<in> {1..n}" "content N B n e \<noteq> None"
    and NB: "\<And>i. i \<in> set (0 # fl) \<Longrightarrow> N' i = N i \<and> B' i = B i"
    and ch: "\<And>x. chain N' (chs' x)" "\<And>x. e \<notin> set (chs' x)" "\<And>x. chs' x \<noteq> [] \<Longrightarrow> hd (chs' x) = x"
      "\<And>x. set (chs' x) = {i. \<exists>k v. c' i = Some (k, v) \<and> h k = x}"
    and c': "c' = (content N' B' n)(e := None)"
    and uniq: "\<And>i j k v w. c' i = Some (k, v) \<Longrightarrow> c' j = Some (k, w) \<Longrightarrow> i = j"
    and dom: "\<And>i. i \<noteq> e \<Longrightarrow> c' i = None \<longleftrightarrow> content N B n i = None"
    and f: "f = hd (fl @ [0])"
    and N'': "N'' = N'(e := - int f - 1, 0 := - int e - 1)"
    and B'': "B'' = B'(f := Free_prev (int e), e := Free_prev 0)"
  shows "rep h n (sz - 1) N'' B'' chs' (e # fl) \<and> content N'' B'' n = c'"
proof -
  have fl': "free_list N' B' fl" by (rule free_list_cong [OF rep_free [OF r] NB])
  have efl: "e \<notin> set (0 # fl)" using e rep_fl_iff [OF r, of e] by auto
  have ff: "f \<in> insert 0 (set fl)" using f by (cases fl) auto
  have nf: "N f < 0" if "f \<noteq> 0"
    using that ff rep_fl_iff [OF r, of f] rep_free_neg [OF r, of f] by auto
  have c'': "content N'' B'' n = c'"
  proof
    fix i
    show "content N'' B'' n i = c' i"
    proof (cases "i = e \<or> i = f \<or> i = 0")
      case True
      moreover have "content N'' B'' n f = None" "c' f = None"
      proof -
        show "content N'' B'' n f = None"
          using ff efl nf NB [of f] by (auto simp: content_def N'')
        show "c' f = None"
          using ff efl nf NB [of f] by (auto simp: content_def c')
      qed
      ultimately show ?thesis using e by (auto simp: content_def N'' c')
    next
      case False
      then show ?thesis by (simp add: content_def N'' B'' c')
    qed
  qed
  have occ: "i \<noteq> 0 \<and> i \<noteq> e" if "i \<in> set (chs' x)" for i x
  proof -
    have "\<exists>k v. c' i = Some (k, v) \<and> h k = x" using that unfolding ch(4) [of x] by simp
    then obtain k v where "c' i = Some (k, v)" by blast
    then have "i \<noteq> e" "i \<in> {1..n}" by (auto simp: c' content_Some_iff split: if_splits)
    then show ?thesis by auto
  qed
  have "rep h n (sz - 1) N'' B'' chs' (e # fl)"
  proof (rule repI, unfold c'')
    show "free_list N'' B'' (e # fl)"
      unfolding N'' B'' by (rule free_list_push [OF fl' efl f])
    have "c' e = None" by (simp add: c')
    moreover have "i \<in> set fl \<longleftrightarrow> i \<in> {1..n} \<and> c' i = None" if "i \<noteq> e" for i
      using rep_fl_iff [OF r, of i] dom [OF that] by simp
    ultimately have "i \<in> set (e # fl) \<longleftrightarrow> i \<in> {1..n} \<and> c' i = None" for i
      using e(1) by (cases "i = e") auto
    then show "set (e # fl) = {i \<in> {1..n}. c' i = None}" by blast
    show "chain N'' (chs' a)" for a
    proof (rule chain_cong [OF ch(1)])
      fix i assume "i \<in> set (chs' a)"
      then have "i \<noteq> 0" "i \<noteq> e" using occ by blast+
      then show "N'' i = N' i" by (simp add: N'')
    qed
    have "0 < sz"
    proof (rule ccontr)
      assume "\<not> 0 < sz"
      then have "length fl = n" using rep_size [OF r] by simp
      moreover have "distinct fl" using rep_free [OF r] by (simp add: free_list_def)
      ultimately have "card (set fl) = card {1..n}" by (simp add: distinct_card)
      moreover have "set fl \<subseteq> {1..n}" using rep_fl [OF r] by blast
      ultimately have "set fl = {1..n}" by (intro card_subset_eq) auto
      with efl e(1) show False by auto
    qed
    then show "sz - 1 + length (e # fl) = n" using rep_size [OF r] by simp
  qed (use ch uniq rep_haddr [OF r] in auto)
  with c'' show ?thesis by blast
qed

text \<open>The removed entry is the last of its chain.\<close>

lemma rep_remove_last:
  assumes r: "rep h n sz N B chs fl" and a: "chs a = c1 @ [e]"
    and N': "N' = (if c1 = [] then N else N(last c1 := 0))" and f: "f = hd (fl @ [0])"
    and N'': "N'' = N'(e := - int f - 1, 0 := - int e - 1)"
    and B'': "B'' = B(f := Free_prev (int e), e := Free_prev 0)"
  shows "rep h n (sz - 1) N'' B'' (chs(a := c1)) (e # fl)"
    and "content N'' B'' n = (content N B n)(e := None)"
proof -
  have ea: "e \<in> set (chs a)" using a by simp
  note ev = rep_occupied [OF r ea]
  have dst: "e \<notin> set c1" using rep_chain [OF r, of a] a by (simp add: chain_def)
  have lc: "last c1 \<in> set (chs a)" if "c1 \<noteq> []" using that a by simp
  have home: "\<And>x. set (chs x) = {i. \<exists>k v. content N B n i = Some (k, v) \<and> h k = x}"
    by (rule rep_home [OF r])
  have c: "content N' B n = content N B n"
    using rep_occupied(4) [OF r] lc by (auto simp: N' content_relink)
  have e0: "content N B n e \<noteq> None" using ea home by auto
  have goal: "rep h n (sz - 1) N'' B'' (chs(a := c1)) (e # fl) \<and>
      content N'' B'' n = (content N B n)(e := None)"
  proof (rule rep_release [OF r ev(1) e0, where N' = N' and B' = B])
    show "N' i = N i \<and> B i = B i" if "i \<in> set (0 # fl)" for i
      using that rep_occupied(2,3) [OF r lc] by (auto simp: N')
    show "chain N' ((chs(a := c1)) x)" for x
    proof (cases "x = a")
      case True
      then show ?thesis using chain_drop_last rep_chain [OF r, of a] a by (cases "c1 = []") (auto simp: N')
    next
      case False
      have "N' i = N i" if "i \<in> set (chs x)" for i
      proof -
        have "i \<noteq> last c1" if "c1 \<noteq> []" using lc [OF that] \<open>i \<in> set (chs x)\<close> False home by auto
        then show ?thesis by (auto simp: N')
      qed
      then show ?thesis using False by (auto intro: chain_cong [OF rep_chain [OF r]])
    qed
    show "e \<notin> set ((chs(a := c1)) x)" for x
      using dst ea home by auto
    show "(chs(a := c1)) x \<noteq> [] \<Longrightarrow> hd ((chs(a := c1)) x) = x" for x
      using rep_hd [OF r, of x] a by (auto split: if_splits)
    show "set ((chs(a := c1)) x) = {i. \<exists>k v. ((content N B n)(e := None)) i = Some (k, v) \<and> h k = x}" for x
    proof -
      have "set c1 = set (chs a) - {e}" using a dst by auto
      then show ?thesis using home ea by auto
    qed
    show "(content N B n)(e := None) = (content N' B n)(e := None)" using c by simp
    show "i = j" if "((content N B n)(e := None)) i = Some (k, v)" "((content N B n)(e := None)) j = Some (k, w)" for i j k v w
      using that rep_unique [OF r] by (auto split: if_splits)
  qed (use f N'' B'' in auto)
  then show "rep h n (sz - 1) N'' B'' (chs(a := c1)) (e # fl)"
    and "content N'' B'' n = (content N B n)(e := None)" by blast+
qed

text \<open>The removed entry has a successor, which is moved into its slot.\<close>

lemma rep_remove_mid:
  assumes r: "rep h n sz N B chs fl" and a: "chs a = c1 @ e # s # c2"
    and f: "f = hd (fl @ [0])"
    and N'': "N'' = N(e := N s, s := - int f - 1, 0 := - int s - 1)"
    and B'': "B'' = B(e := B s, f := Free_prev (int s), s := Free_prev 0)"
  shows "rep h n (sz - 1) N'' B'' (chs(a := c1 @ e # c2)) (s # fl)"
    and "content N'' B'' n = (content N B n)(e := content N B n s, s := None)"
proof -
  have ea: "e \<in> set (chs a)" and sa: "s \<in> set (chs a)" using a by auto
  note ev = rep_occupied [OF r ea] and sv = rep_occupied [OF r sa]
  have dst: "distinct (c1 @ e # s # c2)" using rep_chain [OF r, of a] a by (simp add: chain_def)
  have home: "\<And>x. set (chs x) = {i. \<exists>k v. content N B n i = Some (k, v) \<and> h k = x}"
    by (rule rep_home [OF r])
  let ?N = "N(e := N s)" and ?B = "B(e := B s)" and ?c = "(content N B n)(e := content N B n s, s := None)"
  have c: "content ?N ?B n = (content N B n)(e := content N B n s)"
    by (rule content_copy [OF ev(1) sv(1)])
  have s0: "content N B n s \<noteq> None" using sa home by auto
  obtain k0 v0 where kv: "content N B n s = Some (k0, v0)" "h k0 = a" using sa home by auto
  obtain k1 v1 where ke: "content N B n e = Some (k1, v1)" "h k1 = a" using ea home by auto
  have "rep h n (sz - 1) N'' B'' (chs(a := c1 @ e # c2)) (s # fl) \<and> content N'' B'' n = ?c"
  proof (rule rep_release [OF r sv(1) s0, where N' = ?N and B' = ?B])
    show "?N i = N i \<and> ?B i = B i" if "i \<in> set (0 # fl)" for i
      using that ev(2,3) by auto
    show "chain ?N ((chs(a := c1 @ e # c2)) x)" for x
    proof (cases "x = a")
      case True
      have "chain ?N (c1 @ e # c2)"
        by (rule chain_cut [of N _ _ s]) (use rep_chain [OF r, of a] a dst in auto)
      with True show ?thesis by simp
    next
      case False
      then have "e \<notin> set (chs x)" using ea home by auto
      with False show ?thesis by (auto intro: chain_cong [OF rep_chain [OF r]])
    qed
    show "s \<notin> set ((chs(a := c1 @ e # c2)) x)" for x
      using dst sa home by auto
    show "(chs(a := c1 @ e # c2)) x \<noteq> [] \<Longrightarrow> hd ((chs(a := c1 @ e # c2)) x) = x" for x
      using rep_hd [OF r, of x] a by (cases c1) (auto split: if_splits)
    show "set ((chs(a := c1 @ e # c2)) x) = {i. \<exists>k v. ?c i = Some (k, v) \<and> h k = x}" for x
    proof -
      have "set (c1 @ e # c2) = set (chs a) - {s}" using a dst by auto
      then show ?thesis using home kv ke dst by auto
    qed
    show "?c = (content ?N ?B n)(s := None)" using c by simp
    show "i = j" if "?c i = Some (k, v)" "?c j = Some (k, w)" for i j k v w
    proof -
      have "\<And>i. ?c i = content N B n ((id(e := s)) i) \<or> i = s" by auto
      then have "content N B n ((id(e := s)) i) = Some (k, v)" "content N B n ((id(e := s)) j) = Some (k, w)"
        "i \<noteq> s" "j \<noteq> s"
        using that by (auto split: if_splits)
      then show ?thesis using rep_unique [OF r] by (fastforce split: if_splits)
    qed
    show "?c i = None \<longleftrightarrow> content N B n i = None" if "i \<noteq> s" for i
      using that kv ke by auto
  qed (use f N'' B'' in auto)
  then show "rep h n (sz - 1) N'' B'' (chs(a := c1 @ e # c2)) (s # fl)"
    and "content N'' B'' n = ?c" by blast+
qed

end
