(* ===== verification/Scatter_Correct.thy ===== *)
theory Scatter_Correct
  imports Scatter_Update
begin

text \<open>
  The scatter table as a finite map: its invariant, its abstraction to a map, and what
  \<open>get\<close>, one pass of \<open>put\<close> and \<open>remove\<close> do to both.
\<close>

section \<open>Invariant and abstraction\<close>

definition cst_entries :: "('k, 'v) cst \<Rightarrow> ('k \<times> 'v) list" where
  "cst_entries t = concat (map (\<lambda>s. if 0 \<le> s_next s then (case s_body s of Entry k v \<Rightarrow> [(k, v)] | Free_prev _ \<Rightarrow> []) else [])
     (tl (m_buckets t)))"

definition cst_map :: "('k, 'v) cst \<Rightarrow> ('k \<rightharpoonup> 'v)" where
  "cst_map t = map_of (cst_entries t)"

abbreviation contents :: "('k, 'v) cst \<Rightarrow> nat \<Rightarrow> ('k \<times> 'v) option" where
  "contents t \<equiv> content (nx (m_buckets t)) (bd (m_buckets t)) (capacity t)"

definition cst_rep :: "'k cst_traits \<Rightarrow> ('k, 'v) cst \<Rightarrow> (nat \<Rightarrow> nat list) \<Rightarrow> nat list \<Rightarrow> bool" where
  "cst_rep P t chs fl \<longleftrightarrow>
     length (m_buckets t) = capacity t + 1 \<and> capacity t \<le> max_capacity P \<and> (\<exists>p. capacity t = 2 ^ p) \<and>
     rep (haddr P (m_capacity_mask t)) (capacity t) (m_size t) (nx (m_buckets t)) (bd (m_buckets t)) chs fl"

definition cst_inv :: "'k cst_traits \<Rightarrow> ('k, 'v) cst \<Rightarrow> bool" where
  "cst_inv P t \<longleftrightarrow> (\<exists>chs fl. cst_rep P t chs fl)"

lemma haddr_range: "haddr P cm key \<in> {1..cm + 1}"
proof -
  have "unat (and (ucast (t_hash P key) :: 32 word) (of_nat cm)) \<le> unat (of_nat cm :: 32 word)"
    using word_and_le1 word_le_nat_alt by (metis and.commute)
  also have "\<dots> \<le> cm" by (simp add: unat_of_nat)
  finally show ?thesis by (simp add: haddr_def)
qed

lemma entries_content:
  assumes "length (m_buckets t) = capacity t + 1"
  shows "(k, v) \<in> set (cst_entries t) \<longleftrightarrow> (\<exists>i. contents t i = Some (k, v))"
proof -
  let ?bs = "m_buckets t"
  have "(k, v) \<in> set (cst_entries t) \<longleftrightarrow> (\<exists>s\<in>set (tl ?bs). 0 \<le> s_next s \<and> s_body s = Entry k v)"
    by (force simp: cst_entries_def split: body.splits if_splits)
  also have "\<dots> \<longleftrightarrow> (\<exists>j < capacity t. 0 \<le> nx ?bs (Suc j) \<and> bd ?bs (Suc j) = Entry k v)"
    unfolding bex_set_iff_nth using assms by (auto simp: nx_def bd_def nth_tl)
  also have "\<dots> \<longleftrightarrow> (\<exists>i\<in>{1..capacity t}. 0 \<le> nx ?bs i \<and> bd ?bs i = Entry k v)"
  proof
    assume "\<exists>i\<in>{1..capacity t}. 0 \<le> nx ?bs i \<and> bd ?bs i = Entry k v"
    then obtain i where "i \<in> {1..capacity t}" "0 \<le> nx ?bs i" "bd ?bs i = Entry k v" by blast
    then show "\<exists>j < capacity t. 0 \<le> nx ?bs (Suc j) \<and> bd ?bs (Suc j) = Entry k v"
      by (intro exI [of _ "i - 1"]) auto
  qed force
  finally show ?thesis by (auto simp: content_Some_iff)
qed

lemma map_of_unique_iff:
  assumes "\<And>v w. (k, v) \<in> set xs \<Longrightarrow> (k, w) \<in> set xs \<Longrightarrow> v = w"
  shows "map_of xs k = Some v \<longleftrightarrow> (k, v) \<in> set xs"
  using assms map_of_SomeD weak_map_of_SomeI by metis

lemma cst_map_iff:
  assumes "cst_rep P t chs fl"
  shows "cst_map t k = Some v \<longleftrightarrow> (\<exists>i. contents t i = Some (k, v))"
proof -
  have len: "length (m_buckets t) = capacity t + 1"
    and r: "rep (haddr P (m_capacity_mask t)) (capacity t) (m_size t) (nx (m_buckets t)) (bd (m_buckets t)) chs fl"
    using assms by (auto simp: cst_rep_def)
  have "v = w" if "(k, v) \<in> set (cst_entries t)" "(k, w) \<in> set (cst_entries t)" for v w
    using that unfolding entries_content [OF len] using rep_unique [OF r] by fastforce
  then show ?thesis
    unfolding cst_map_def entries_content [OF len, symmetric] by (rule map_of_unique_iff)
qed

lemma cst_map_eqI:
  assumes "cst_rep P t chs fl" "\<And>k v. (\<exists>i. contents t i = Some (k, v)) \<longleftrightarrow> m k = Some v"
  shows "cst_map t = m"
proof
  fix k
  have "\<And>v. cst_map t k = Some v \<longleftrightarrow> m k = Some v"
    using cst_map_iff [OF assms(1)] assms(2) by blast
  then show "cst_map t k = m k" by (metis not_Some_eq)
qed

lemma finite_cst_map: "finite (dom (cst_map t))"
  by (simp add: cst_map_def finite_dom_map_of)

lemma cst_size:
  assumes "cst_rep P t chs fl"
  shows "m_size t = card (dom (cst_map t))" "m_size t + length fl = capacity t" "m_size t \<le> capacity t"
proof -
  have r: "rep (haddr P (m_capacity_mask t)) (capacity t) (m_size t) (nx (m_buckets t)) (bd (m_buckets t)) chs fl"
    using assms by (auto simp: cst_rep_def)
  show sz: "m_size t + length fl = capacity t" by (rule rep_size [OF r])
  then show "m_size t \<le> capacity t" by simp
  let ?O = "{i. contents t i \<noteq> None}"
  have sub: "?O \<subseteq> {1..capacity t}" by (auto simp: content_def split: if_splits)
  have "bij_betw (\<lambda>i. fst (the (contents t i))) ?O (dom (cst_map t))"
  proof (rule bij_betw_imageI)
    show "inj_on (\<lambda>i. fst (the (contents t i))) ?O"
      using rep_unique [OF r] by (fastforce simp: inj_on_def)
    show "(\<lambda>i. fst (the (contents t i))) ` ?O = dom (cst_map t)"
      using cst_map_iff [OF assms] by (force simp: image_iff dom_def)
  qed
  then have "card ?O = card (dom (cst_map t))" by (rule bij_betw_same_card)
  moreover have "card ?O = m_size t"
  proof -
    have "?O = {1..capacity t} - set fl" using sub rep_fl_iff [OF r] by auto
    moreover have "set fl \<subseteq> {1..capacity t}" using rep_fl_iff [OF r] by auto
    moreover have "card (set fl) = length fl"
      using rep_free [OF r] by (simp add: free_list_def distinct_card)
    ultimately have "card ?O = capacity t - length fl" by (simp add: card_Diff_subset)
    with sz show ?thesis by simp
  qed
  ultimately show "m_size t = card (dom (cst_map t))" by simp
qed

lemma cst_count: "cst_inv P t \<Longrightarrow> m_size t = card (dom (cst_map t))"
  using cst_size(1) by (auto simp: cst_inv_def)

section \<open>The code's rearrangements of the bucket array\<close>

lemma acquire_spec:
  assumes fl: "free_list (nx bs) (bd bs) (d # f2)" and q: "q = hd (f2 @ [0])"
    and len: "\<And>i. i \<in> set (0 # d # f2) \<Longrightarrow> i < length bs"
  obtains bs' where "acquire_free_slot P bs = Inr (d, bs')" "length bs' = length bs"
    "nx bs' = (nx bs)(0 := - int q - 1)" "bd bs' = (bd bs)(q := Free_prev 0)"
proof -
  have n0: "nx bs 0 = - int d - 1" using free_list_head [OF fl] by simp
  have nd: "nx bs d = - int q - 1" using free_list_next(1) [of _ _ "[]"] fl q by auto
  have d0: "d \<noteq> 0" using fl by (simp add: free_list_def)
  have ql: "q < length bs" "0 < length bs" using q len len [of 0] by (cases f2; simp)+
  show ?thesis
    by (rule that [of "set_next (set_prev bs q 0) 0 (- int q - 1)"])
      (use n0 nd d0 ql len in \<open>auto simp: acquire_free_slot_def Let_def nx_def [symmetric] upd_simps\<close>)
qed

lemma acquire_full:
  assumes "free_list (nx bs) (bd bs) []" "t_fixed P"
  shows "acquire_free_slot P bs = Inl Capacity_limit"
  using free_list_head [OF assms(1)] assms(2) by (simp add: acquire_free_slot_def nx_def [symmetric])

lemma free_slot_spec:
  assumes fl: "free_list (nx bs) (bd bs) fl" and f: "f = hd (fl @ [0])"
    and len: "e < length bs" "0 < length bs" "\<And>i. i \<in> set fl \<Longrightarrow> i < length bs"
    and e: "e \<notin> set (0 # fl)"
  shows "nx (free_slot e bs) = (nx bs)(e := - int f - 1, 0 := - int e - 1)"
    and "bd (free_slot e bs) = (bd bs)(f := Free_prev (int e), e := Free_prev 0)"
    and "length (free_slot e bs) = length bs"
proof -
  have n0: "nx bs 0 = - int f - 1" using free_list_head [OF fl] f by simp
  have fl: "f < length bs" using f len by (cases fl) auto
  note defs = free_slot_def Let_def nx_def [symmetric] n0 upd_simps
  show "nx (free_slot e bs) = (nx bs)(e := - int f - 1, 0 := - int e - 1)"
    using fl len e by (simp add: defs)
  show "bd (free_slot e bs) = (bd bs)(f := Free_prev (int e), e := Free_prev 0)"
    using fl len e by (simp add: defs)
  show "length (free_slot e bs) = length bs" by (simp add: free_slot_def Let_def)
qed

section \<open>Lookup\<close>

lemma rep_key_free:
  assumes "rep h n sz N B chs fl" "set c \<subseteq> set (chs a)" "\<And>i v. i \<in> set c \<Longrightarrow> content N B n i \<noteq> Some (key, v)"
  shows "key_free B key c"
  unfolding key_free_def
proof
  fix i assume i: "i \<in> set c"
  then obtain k v where kv: "content N B n i = Some (k, v)" using rep_home [OF assms(1)] assms(2) by blast
  with assms(3) [OF i] have "B i = Entry k v" "k \<noteq> key" by (auto simp: content_Some_iff)
  then show "\<exists>k v. B i = Entry k v \<and> k \<noteq> key" by blast
qed

text \<open>Where a present key sits, and what the walks from its hash address find.\<close>

lemma rep_walk_present:
  assumes r: "rep h n sz (nx bs) (bd bs) chs fl" and kv: "content (nx bs) (bd bs) n e = Some (key, v)"
  obtains c1 c2 where "chs (h key) = c1 @ e # c2" "hd (c1 @ [e]) = h key"
    "0 \<le> nx bs (h key)"
    "get_walk bs key (h key) = Some (Some v)" "put_walk bs key (h key) = Some (e, True)"
    "remove_walk bs key (h key) (h key) = Some (Some (last (h key # c1), e, v))"
    "\<exists>k w. bd bs (h key) = Entry k w \<and> h k = h key"
proof -
  have mem: "e \<in> set (chs (h key))" using rep_home [OF r] kv by auto
  then obtain c1 c2 where c: "chs (h key) = c1 @ e # c2" by (auto simp: in_set_conv_decomp)
  have hd: "hd (c1 @ [e]) = h key"
    using rep_hd [OF r, of "h key"] c by (cases c1) auto
  have d: "distinct (c1 @ e # c2)" using rep_chain [OF r, of "h key"] c by (simp add: chain_def)
  have kf: "key_free (bd bs) key c1"
  proof (rule rep_key_free [OF r])
    show "set c1 \<subseteq> set (chs (h key))" using c by auto
    fix i w assume "i \<in> set c1"
    then have "i \<noteq> e" using d by auto
    then show "content (nx bs) (bd bs) n i \<noteq> Some (key, w)" using rep_unique [OF r kv] by auto
  qed
  have z: "0 \<notin> set (c1 @ [e])" using rep_occupied(3) [OF r, of _ "h key"] c by auto
  have b: "bd bs e = Entry key v" using kv by (simp add: content_Some_iff)
  have ch: "chain (nx bs) (c1 @ e # c2)" using rep_chain [OF r, of "h key"] c by simp
  have hm: "h key \<in> set (chs (h key))" using c hd by (cases c1) auto
  note w = walk_hit [OF ch kf b z, unfolded hd]
  obtain k w where "content (nx bs) (bd bs) n (h key) = Some (k, w)" "h k = h key"
    using hm rep_home [OF r] by blast
  then have "\<exists>k w. bd bs (h key) = Entry k w \<and> h k = h key" "0 \<le> nx bs (h key)"
    by (auto simp: content_Some_iff)
  with that c hd w show ?thesis by blast
qed

lemma rep_walk_absent:
  assumes r: "rep h n sz (nx bs) (bd bs) chs fl" and no: "\<And>i v. content (nx bs) (bd bs) n i \<noteq> Some (key, v)"
    and occ: "0 \<le> nx bs (h key)"
  shows "get_walk bs key (h key) = Some None \<and> remove_walk bs key ep (h key) = Some None"
    and "chs (h key) \<noteq> [] \<Longrightarrow> put_walk bs key (h key) = Some (last (chs (h key)), False)"
proof -
  have walk: "get_walk bs key i = Some None \<and> put_walk bs key i = Some (last (i # c), False) \<and>
      remove_walk bs key ep i = Some None"
    if "chs a = c1 @ i # c" for a i c c1
  proof (rule walk_miss)
    show "chain (nx bs) (i # c)" using rep_chain [OF r, of a] that chain_suffix by metis
    show "key_free (bd bs) key (i # c)"
      by (rule rep_key_free [OF r, of _ a]) (use that no in auto)
    show "0 \<notin> set c" using rep_occupied(3) [OF r, of 0 a] that by auto
  qed
  show "get_walk bs key (h key) = Some None \<and> remove_walk bs key ep (h key) = Some None"
    using r
  proof (cases rule: rep_cases [where key = key])
    case empty
    with occ show ?thesis by simp
  next
    case (home k v c)
    with walk [of "h key" "[]"] show ?thesis by simp
  next
    case (foreign k v c1 c2)
    with walk show ?thesis by blast
  qed
  assume "chs (h key) \<noteq> []"
  with rep_hd [OF r this] obtain c where "chs (h key) = h key # c" by (cases "chs (h key)") auto
  with walk [of "h key" "[]"] show "put_walk bs key (h key) = Some (last (chs (h key)), False)" by simp
qed

lemma cst_get_correct: "cst_inv P t \<Longrightarrow> cst_get P t key = Some (cst_map t key)"
proof -
  assume "cst_inv P t"
  then obtain chs fl where R: "cst_rep P t chs fl" by (auto simp: cst_inv_def)
  let ?h = "haddr P (m_capacity_mask t)" and ?bs = "m_buckets t"
  have r: "rep ?h (capacity t) (m_size t) (nx ?bs) (bd ?bs) chs fl" using R by (simp add: cst_rep_def)
  show ?thesis
  proof (cases "cst_map t key")
    case (Some v)
    then obtain e where e: "contents t e = Some (key, v)" using cst_map_iff [OF R] by blast
    show ?thesis
      by (rule rep_walk_present [OF r e]) (simp add: cst_get_def Let_def Some nx_def)
  next
    case None
    then have no: "contents t i \<noteq> Some (key, v)" for i v using cst_map_iff [OF R] by (metis option.distinct(1))
    show ?thesis
      using rep_walk_absent(1) [OF r no] None by (auto simp: cst_get_def Let_def nx_def not_less)
  qed
qed

end
