(* ===== verification/Scatter_Put.thy ===== *)
theory Scatter_Put
  imports Scatter_Correct
begin

text \<open>
  What \<open>put\<close>, \<open>remove\<close>, \<open>rehash\<close> and the constructor of the scatter table do to its
  invariant and to the map it represents, and the interpretation of the keyed-map
  interface by the table.
\<close>

section \<open>One pass of insertion\<close>

lemma cst_inv_updI:
  assumes "cst_rep P t chs fl"
    and "length bs' = length (m_buckets t)"
    and "rep (haddr P (m_capacity_mask t)) (capacity t) sz' (nx bs') (bd bs') chs' fl'"
    and "content (nx bs') (bd bs') (capacity t) = c'"
    and "\<And>k v. (\<exists>i. c' i = Some (k, v)) \<longleftrightarrow> m' k = Some v"
  shows "cst_inv P (t\<lparr>m_buckets := bs', m_size := sz'\<rparr>)"
    and "cst_map (t\<lparr>m_buckets := bs', m_size := sz'\<rparr>) = m'"
proof -
  let ?t = "t\<lparr>m_buckets := bs', m_size := sz'\<rparr>"
  have cap: "capacity ?t = capacity t" by (simp add: capacity_def)
  have R: "cst_rep P ?t chs' fl'"
    using assms(1-3) by (simp add: cst_rep_def cap)
  then show "cst_inv P ?t" by (auto simp: cst_inv_def)
  show "cst_map ?t = m'"
    by (rule cst_map_eqI [OF R]) (simp add: cap assms(4,5))
qed

lemma fill_map:
  assumes "cst_rep P t chs fl" "cst_map t key = None" "contents t e = None"
  shows "(\<exists>i. ((contents t)(e := Some (key, v))) i = Some (k, w)) \<longleftrightarrow> ((cst_map t)(key \<mapsto> v)) k = Some w"
proof (cases "k = key")
  case True
  have "\<And>i. contents t i \<noteq> Some (key, w)" using cst_map_iff [OF assms(1)] assms(2) by (metis option.distinct(1))
  with True show ?thesis by (auto split: if_splits)
next
  case False
  have "cst_map t k = Some w \<longleftrightarrow> (\<exists>i. contents t i = Some (k, w))" by (rule cst_map_iff [OF assms(1)])
  moreover have "contents t i = Some (k, w) \<Longrightarrow> i \<noteq> e" for i using assms(3) by auto
  ultimately show ?thesis using False by (auto split: if_splits)
qed

lemma put_once_present:
  assumes inv: "cst_inv P t" and k: "cst_map t key = Some w"
  obtains t' where "put_once P key v t = Some (Put_done t')" "cst_inv P t'"
    "cst_map t' = (cst_map t)(key \<mapsto> v)" "capacity t' = capacity t" "m_size t' = m_size t"
proof -
  obtain chs fl where R: "cst_rep P t chs fl" using inv by (auto simp: cst_inv_def)
  let ?h = "haddr P (m_capacity_mask t)" and ?bs = "m_buckets t" and ?n = "capacity t"
  have r: "rep ?h ?n (m_size t) (nx ?bs) (bd ?bs) chs fl" using R by (simp add: cst_rep_def)
  obtain e where e: "contents t e = Some (key, w)" using cst_map_iff [OF R] k by blast
  then have eb: "bd ?bs e = Entry key w" "e \<in> {1..?n}" by (auto simp: content_Some_iff)
  have el: "e < length ?bs" using R eb(2) by (simp add: cst_rep_def)
  let ?bs' = "set_value ?bs e v"
  have nb: "nx ?bs' = nx ?bs" "bd ?bs' = (bd ?bs)(e := Entry key v)"
    using el eb by (auto simp: upd_simps)
  have c: "content (nx ?bs') (bd ?bs') ?n = (contents t)(e := Some (key, v))"
    unfolding nb using e by (auto simp: content_def fun_eq_iff)
  have "rep ?h ?n (m_size t) (nx ?bs') (bd ?bs') chs fl"
  proof (rule repI)
    have efl: "e \<notin> set (0 # fl)" using eb rep_fl_iff [OF r, of e] e by auto
    then show "free_list (nx ?bs') (bd ?bs') fl"
      unfolding nb by (intro free_list_cong [OF rep_free [OF r]]) auto
    show "set fl = {i \<in> {1..?n}. content (nx ?bs') (bd ?bs') ?n i = None}"
      unfolding c using rep_fl [OF r] e by auto
    show "chain (nx ?bs') (chs a)" for a unfolding nb by (rule rep_chain [OF r])
    show "set (chs a) = {i. \<exists>k v. content (nx ?bs') (bd ?bs') ?n i = Some (k, v) \<and> ?h k = a}" for a
      unfolding c using rep_home [OF r, of a] e by auto
    show "i = j" if "content (nx ?bs') (bd ?bs') ?n i = Some (k, v1)" "content (nx ?bs') (bd ?bs') ?n j = Some (k, v2)" for i j k v1 v2
      using that e rep_unique [OF r] unfolding c by (auto split: if_splits)
    show "?h x \<in> {1..?n}" for x by (rule rep_haddr [OF r])
  qed (use rep_hd [OF r] rep_size [OF r] in auto)
  note r' = this
  have m: "(\<exists>i. ((contents t)(e := Some (key, v))) i = Some (k, v')) \<longleftrightarrow> ((cst_map t)(key \<mapsto> v)) k = Some v'" for k v'
  proof (cases "k = key")
    case True
    have "\<And>i v. contents t i = Some (key, v) \<Longrightarrow> i = e" using rep_unique [OF r e] by blast
    with True show ?thesis by (auto split: if_splits)
  next
    case False
    then have "contents t i = Some (k, v') \<Longrightarrow> i \<noteq> e" for i using e by auto
    with False cst_map_iff [OF R, of k v'] show ?thesis by auto
  qed
  have "length ?bs' = length ?bs" by simp
  note res = cst_inv_updI [OF R this r' c m]
  have "put_once P key v t = Some (Put_done (t\<lparr>m_buckets := ?bs'\<rparr>))"
    by (rule rep_walk_present [OF r e])
      (auto simp: put_once_def Let_def nx_def bd_def)
  moreover have "t\<lparr>m_buckets := ?bs', m_size := m_size t\<rparr> = t\<lparr>m_buckets := ?bs'\<rparr>" by simp
  ultimately show ?thesis
    by (intro that [of "t\<lparr>m_buckets := ?bs'\<rparr>"]) (use res in \<open>simp_all add: capacity_def fun_upd_def\<close>)
qed

text \<open>
  A new key, while there is a free slot. \<open>put_result\<close> says what the pass must achieve; each
  of the three cases of the code reaches it through \<open>fill_e\<close>.
\<close>

definition put_result :: "'k cst_traits \<Rightarrow> 'k \<Rightarrow> 'v \<Rightarrow> ('k, 'v) cst \<Rightarrow> ('k, 'v) put_step option \<Rightarrow> bool" where
  "put_result P key v t r \<longleftrightarrow>
     (\<exists>t'. r = Some (Put_done t') \<and> cst_inv P t' \<and> cst_map t' = (cst_map t)(key \<mapsto> v) \<and>
        capacity t' = capacity t \<and> m_size t' = m_size t + 1)"

lemma put_result_fill:
  assumes R: "cst_rep P t chs fl" and e: "e \<in> {1..capacity t}"
    and len: "length bs1 = length (m_buckets t)"
    and rep': "rep (haddr P (m_capacity_mask t)) (capacity t) (m_size t + 1)
      ((nx bs1)(e := 0)) ((bd bs1)(e := Entry key v)) chs' fl'"
    and c': "content ((nx bs1)(e := 0)) ((bd bs1)(e := Entry key v)) (capacity t) = c'"
    and m': "\<And>k w. (\<exists>i. c' i = Some (k, w)) \<longleftrightarrow> ((cst_map t)(key \<mapsto> v)) k = Some w"
  shows "put_result P key v t (Some (fill_e key v e t bs1))"
proof -
  let ?bs' = "bs1[e := \<lparr>s_next = 0, s_body = Entry key v\<rparr>]"
  have el: "e < length bs1" using e len R by (auto simp: cst_rep_def)
  have nb: "nx ?bs' = (nx bs1)(e := 0)" "bd ?bs' = (bd bs1)(e := Entry key v)"
    using el by (auto simp: upd_simps)
  note up = cst_inv_updI [OF R _ _ _ m', of ?bs', unfolded nb, OF _ rep' c']
  from up len show ?thesis
    by (auto simp: put_result_def fill_e_def capacity_def)
qed

lemma put_empty_slot:
  assumes R: "cst_rep P t chs fl" and k: "cst_map t key = None"
    and empty: "nx (m_buckets t) (haddr P (m_capacity_mask t) key) < 0"
      "haddr P (m_capacity_mask t) key \<in> set fl" "chs (haddr P (m_capacity_mask t) key) = []"
  shows "put_result P key v t (put_once P key v t)"
proof -
  let ?bs = "m_buckets t" and ?n = "capacity t" and ?a = "haddr P (m_capacity_mask t) key"
  have r: "rep (haddr P (m_capacity_mask t)) ?n (m_size t) (nx ?bs) (bd ?bs) chs fl"
    and len: "length ?bs = ?n + 1" using R by (auto simp: cst_rep_def)
  obtain f1 f2 where fl: "fl = f1 @ ?a # f2" using empty(2) by (auto simp: in_set_conv_decomp)
  let ?p = "last (0 # f1)" and ?q = "hd (f2 @ [0])"
  let ?bs1 = "set_prev (set_next ?bs ?p (- int ?q - 1)) ?q (int ?p)"
  have na: "nx ?bs ?a = - int ?q - 1" "bd ?bs ?a = Free_prev (int ?p)"
    using free_list_next rep_free [OF r] fl by blast+
  have inl: "i < length ?bs" if "i \<in> insert 0 (set fl)" for i
    using that rep_fl_iff [OF r] len by auto
  have "?p \<in> insert 0 (set fl)" using last_in_or [of 0 f1] fl by (auto simp del: last.simps last_in_or)
  moreover have "?q \<in> insert 0 (set fl)" using fl by (cases f2) auto
  ultimately
  have pq: "?p < length ?bs" "?q < length ?bs" using inl by blast+
  have once: "put_once P key v t = Some (fill_e key v ?a t ?bs1)"
    using na by (simp add: put_once_def Let_def nx_def bd_def free_prev_def del: last.simps)
  have nb: "nx ?bs1 = (nx ?bs)(?p := - int ?q - 1)" "bd ?bs1 = (bd ?bs)(?q := Free_prev (int ?p))"
    using pq by (simp_all add: upd_simps del: last.simps)
  note hole = rep_unlink [OF r [unfolded fl] refl refl, folded nb]
  have c1: "content (nx ?bs1) (bd ?bs1) ?n = contents t"
    unfolding nb by (rule content_unlink [OF r [unfolded fl] refl refl])
  note fill = rep_fill_head [OF hole refl empty(3)]
  show ?thesis
    unfolding once
  proof (rule put_result_fill [OF R rep_haddr [OF r] _ fill(1) fill(2)])
    show "(\<exists>i. ((content (nx ?bs1) (bd ?bs1) ?n)(?a \<mapsto> (key, v))) i = Some (k, w)) \<longleftrightarrow>
        ((cst_map t)(key \<mapsto> v)) k = Some w" for k w
      unfolding c1 by (rule fill_map [OF R k]) (use empty(2) rep_fl_iff [OF r] in blast)
  qed simp
qed

text \<open>The free slot that \<open>acquire_free_slot\<close> takes in cases 2 and 3.\<close>

lemma put_acquire:
  assumes R: "cst_rep P t chs fl" and room: "m_size t < capacity t"
  obtains d f2 bs1 where "fl = d # f2" "acquire_free_slot P (m_buckets t) = Inr (d, bs1)"
    "length bs1 = length (m_buckets t)" "d \<in> {1..capacity t}" "contents t d = None"
    "rep_hole (haddr P (m_capacity_mask t)) (capacity t) (m_size t) (nx bs1) (bd bs1) chs f2 d"
    "content (nx bs1) (bd bs1) (capacity t) = contents t"
    "\<And>i. i \<noteq> 0 \<Longrightarrow> nx bs1 i = nx (m_buckets t) i" "\<And>i. i \<notin> set (0 # fl) \<Longrightarrow> bd bs1 i = bd (m_buckets t) i"
proof -
  let ?bs = "m_buckets t" and ?n = "capacity t"
  have r: "rep (haddr P (m_capacity_mask t)) ?n (m_size t) (nx ?bs) (bd ?bs) chs fl"
    and len: "length ?bs = ?n + 1" using R by (auto simp: cst_rep_def)
  obtain d f2 where fl: "fl = d # f2" using rep_size [OF r] room by (cases fl) auto
  let ?q = "hd (f2 @ [0])"
  have inl: "i < length ?bs" if "i \<in> set (0 # d # f2)" for i
    using that rep_fl_iff [OF r, of i] len fl by auto
  obtain bs1 where a: "acquire_free_slot P ?bs = Inr (d, bs1)" "length bs1 = length ?bs"
    "nx bs1 = (nx ?bs)(0 := - int ?q - 1)" "bd bs1 = (bd ?bs)(?q := Free_prev 0)"
    using acquire_spec [OF rep_free [OF r, unfolded fl] refl inl] by blast
  have r': "rep (haddr P (m_capacity_mask t)) ?n (m_size t) (nx ?bs) (bd ?bs) chs ([] @ d # f2)"
    using r fl by simp
  have hole: "rep_hole (haddr P (m_capacity_mask t)) ?n (m_size t) (nx bs1) (bd bs1) chs f2 d"
    using rep_unlink [OF r' refl refl] by (simp add: a(3,4))
  have c1: "content (nx bs1) (bd bs1) ?n = contents t"
    using content_unlink [OF r' refl refl, of 0] by (simp add: a(3,4))
  have q: "?q \<in> set (0 # fl)" using fl by (cases f2) auto
  show ?thesis
    by (rule that [OF fl a(1,2) _ _ hole c1])
      (use q a(3,4) rep_fl_iff [OF r, of d] fl in auto)
qed

lemma put_home_chain:
  assumes R: "cst_rep P t chs fl" and k: "cst_map t key = None" and room: "m_size t < capacity t"
    and home: "0 \<le> nx (m_buckets t) (haddr P (m_capacity_mask t) key)"
      "bd (m_buckets t) (haddr P (m_capacity_mask t) key) = Entry k0 v0"
      "haddr P (m_capacity_mask t) k0 = haddr P (m_capacity_mask t) key"
      "chs (haddr P (m_capacity_mask t) key) = haddr P (m_capacity_mask t) key # c"
  shows "put_result P key v t (put_once P key v t)"
proof -
  let ?bs = "m_buckets t" and ?n = "capacity t" and ?a = "haddr P (m_capacity_mask t) key"
  have r: "rep (haddr P (m_capacity_mask t)) ?n (m_size t) (nx ?bs) (bd ?bs) chs fl"
    and len: "length ?bs = ?n + 1" using R by (auto simp: cst_rep_def)
  have no: "contents t i \<noteq> Some (key, w)" for i w using cst_map_iff [OF R] k by (metis option.distinct(1))
  have ne: "chs ?a \<noteq> []" using home(4) by simp
  have walk: "put_walk ?bs key ?a = Some (last (chs ?a), False)"
    by (rule rep_walk_absent(2) [OF r no home(1) ne])
  obtain d f2 bs1 where A: "fl = d # f2" "acquire_free_slot P ?bs = Inr (d, bs1)"
    "length bs1 = length ?bs" "d \<in> {1..?n}" "contents t d = None"
    "rep_hole (haddr P (m_capacity_mask t)) ?n (m_size t) (nx bs1) (bd bs1) chs f2 d"
    "content (nx bs1) (bd bs1) ?n = contents t"
    using put_acquire [OF R room] by metis
  let ?ep = "last (chs ?a)"
  have epl: "?ep < length bs1"
    using rep_hole_occupied(1) [OF A(6), of ?ep ?a] ne A(3) len by simp
  have once: "put_once P key v t = Some (fill_e key v d t (set_next bs1 ?ep (int d)))"
    using home(1,2,3) walk A(2) room
    by (simp add: put_once_def Let_def nx_def bd_def capacity_def del: last.simps)
  have "content (nx bs1) (bd bs1) ?n i \<noteq> Some (key, w)" for i w using no A(7) by simp
  note fill = rep_fill_last [OF A(6) refl ne refl this]
  have nb: "(nx (set_next bs1 ?ep (int d)))(d := 0) = (nx bs1)(?ep := int d, d := 0)"
    "bd (set_next bs1 ?ep (int d)) = bd bs1"
    using epl by (simp_all add: upd_simps)
  show ?thesis
    unfolding once
  proof (rule put_result_fill [OF R A(4)])
    show "rep (haddr P (m_capacity_mask t)) ?n (m_size t + 1) ((nx (set_next bs1 ?ep (int d)))(d := 0))
        ((bd (set_next bs1 ?ep (int d)))(d := Entry key v)) (chs(?a := chs ?a @ [d])) f2"
      unfolding nb by (rule fill(1))
    show "content ((nx (set_next bs1 ?ep (int d)))(d := 0)) ((bd (set_next bs1 ?ep (int d)))(d := Entry key v)) ?n =
        (contents t)(d \<mapsto> (key, v))"
      unfolding nb fill(2) A(7) ..
  qed (use A(3) fill_map [OF R k A(5)] in simp_all)
qed

lemma put_displace:
  assumes R: "cst_rep P t chs fl" and k: "cst_map t key = None" and room: "m_size t < capacity t"
    and foreign: "0 \<le> nx (m_buckets t) (haddr P (m_capacity_mask t) key)"
      "bd (m_buckets t) (haddr P (m_capacity_mask t) key) = Entry k0 v0"
      "haddr P (m_capacity_mask t) k0 \<noteq> haddr P (m_capacity_mask t) key"
      "chs (haddr P (m_capacity_mask t) key) = []"
      "chs (haddr P (m_capacity_mask t) k0) = c1 @ haddr P (m_capacity_mask t) key # c2"
      "c1 \<noteq> []" "hd c1 = haddr P (m_capacity_mask t) k0"
  shows "put_result P key v t (put_once P key v t)"
proof -
  let ?bs = "m_buckets t" and ?n = "capacity t" and ?a = "haddr P (m_capacity_mask t) key"
    and ?b = "haddr P (m_capacity_mask t) k0"
  have r: "rep (haddr P (m_capacity_mask t)) ?n (m_size t) (nx ?bs) (bd ?bs) chs fl"
    and len: "length ?bs = ?n + 1" using R by (auto simp: cst_rep_def)
  obtain d f2 bs1 where A: "fl = d # f2" "acquire_free_slot P ?bs = Inr (d, bs1)"
    "length bs1 = length ?bs" "d \<in> {1..?n}" "contents t d = None"
    "rep_hole (haddr P (m_capacity_mask t)) ?n (m_size t) (nx bs1) (bd bs1) chs f2 d"
    "content (nx bs1) (bd bs1) ?n = contents t"
    using put_acquire [OF R room] by metis
  let ?ep = "last c1" and ?bs2 = "bs1[d := bs1 ! ?a]"
  have occ: "i \<in> {1..?n}" "i \<noteq> d" if "i \<in> set (chs ?b)" for i
    using rep_hole_occupied [OF A(6) that] by auto
  have il: "d < length bs1" "?ep < length bs1" "?a < length bs1"
    using A(3,4) len occ(1) [of ?ep] occ(1) [of ?a] foreign(5,6) by auto
  have n2: "nx ?bs2 = (nx bs1)(d := nx bs1 ?a)" "bd ?bs2 = (bd bs1)(d := bd bs1 ?a)"
    using il by (simp_all add: upd_simps) (simp_all add: nx_def bd_def)
  have "chain (nx bs1) (chs ?b)" using A(6) unfolding rep_hole_def by blast
  then have "chain (nx ?bs2) (c1 @ ?a # c2)"
    unfolding foreign(5) [symmetric] by (rule chain_cong) (use occ n2 in auto)
  moreover have "0 \<notin> set c1" using occ(1) [of 0] foreign(5) by auto
  ultimately have walk: "pred_walk ?bs2 ?a ?b = Some ?ep"
    using pred_walk_chain [OF _ foreign(6)] foreign(7) by metis
  let ?bs3 = "set_next ?bs2 ?ep (int d)"
  have once: "put_once P key v t = Some (fill_e key v ?a t ?bs3)"
    using foreign(1,2,3) walk A(2) room
    by (simp add: put_once_def Let_def nx_def bd_def capacity_def)
  have n3: "nx ?bs3 = (nx bs1)(d := nx bs1 ?a, ?ep := int d)" "bd ?bs3 = (bd bs1)(d := bd bs1 ?a)"
    using il n2 by (simp_all add: upd_simps)
  note fill = rep_fill_displace [OF A(6) refl foreign(4,5,6) refl refl refl]
  show ?thesis
    unfolding once
  proof (rule put_result_fill [OF R rep_haddr [OF r]])
    show "rep (haddr P (m_capacity_mask t)) ?n (m_size t + 1) ((nx ?bs3)(?a := 0)) ((bd ?bs3)(?a := Entry key v))
       (chs(?b := c1 @ d # c2, ?a := [?a])) f2"
      unfolding n3 by (rule fill(1))
    show "content ((nx ?bs3)(?a := 0)) ((bd ?bs3)(?a := Entry key v)) ?n =
       (contents t)(d := contents t ?a, ?a := Some (key, v))"
      unfolding n3 fill(2) A(7) ..
    show "(\<exists>i. ((contents t)(d := contents t ?a, ?a := Some (key, v))) i = Some (k', w)) \<longleftrightarrow>
        ((cst_map t)(key \<mapsto> v)) k' = Some w" for k' w
    proof -
      have ad: "?a \<noteq> d" using occ(2) [of ?a] foreign(5) by simp
      have no: "\<And>i. contents t i \<noteq> Some (key, w)" using cst_map_iff [OF R] k by (metis option.distinct(1))
      show ?thesis
      proof (cases "k' = key")
        case True
        with no ad show ?thesis by (auto split: if_splits)
      next
        case False
        have "(\<exists>i. ((contents t)(d := contents t ?a, ?a := Some (key, v))) i = Some (k', w)) \<longleftrightarrow>
            (\<exists>i. contents t i = Some (k', w))"
        proof
          assume "\<exists>i. contents t i = Some (k', w)"
          then obtain i where i: "contents t i = Some (k', w)" by blast
          then have "i \<noteq> d" using A(5) by auto
          with i ad False show "\<exists>i. ((contents t)(d := contents t ?a, ?a := Some (key, v))) i = Some (k', w)"
            by (intro exI [of _ "if i = ?a then d else i"]) auto
        qed (use False in \<open>auto split: if_splits\<close>)
        with cst_map_iff [OF R, of k' w] False show ?thesis by simp
      qed
    qed
  qed (use A(3) in simp)
qed

lemma put_once_room:
  assumes inv: "cst_inv P t" and k: "cst_map t key = None" and room: "m_size t < capacity t"
  shows "put_result P key v t (put_once P key v t)"
proof -
  obtain chs fl where R: "cst_rep P t chs fl" using inv by (auto simp: cst_inv_def)
  then have "rep (haddr P (m_capacity_mask t)) (capacity t) (m_size t) (nx (m_buckets t)) (bd (m_buckets t)) chs fl"
    by (simp add: cst_rep_def)
  then show ?thesis
  proof (cases rule: rep_cases [where key = key])
    case empty
    then show ?thesis by (intro put_empty_slot [OF R k])
  next
    case (home k0 v0 c)
    then show ?thesis by (intro put_home_chain [OF R k room])
  next
    case (foreign k0 v0 c1 c2)
    then show ?thesis by (intro put_displace [OF R k room])
  qed
qed

end
