(* ===== verification/Scatter_Ops.thy ===== *)
theory Scatter_Ops
  imports Scatter_Put
begin

text \<open>
  Construction, growth and removal of the scatter table: a full table grows or throws, a
  rehash keeps the map, \<open>put\<close> returns at its fuel, \<open>remove\<close> deletes exactly one key.
\<close>

declare cst_put_n.simps [simp del]

section \<open>Insertion into a full table\<close>

lemma put_once_full:
  assumes inv: "cst_inv P t" and k: "cst_map t key = None" and full: "m_size t = capacity t"
  shows "put_once P key v t = Some (if t_fixed P then Put_throw Capacity_limit else Put_grow)"
proof -
  obtain chs fl where R: "cst_rep P t chs fl" using inv by (auto simp: cst_inv_def)
  then have r: "rep (haddr P (m_capacity_mask t)) (capacity t) (m_size t) (nx (m_buckets t)) (bd (m_buckets t)) chs fl"
    by (simp add: cst_rep_def)
  have fl: "fl = []" using rep_size [OF r] full by simp
  have no: "contents t i \<noteq> Some (key, w)" for i w using cst_map_iff [OF R] k by (metis option.distinct(1))
  note acq = acquire_full [OF rep_free [OF r, unfolded fl]]
  note defs = put_once_def Let_def nx_def bd_def capacity_def
  from r show ?thesis
  proof (cases rule: rep_cases [where key = key])
    case empty
    then show ?thesis using fl by simp
  next
    case (home k0 v0 c)
    have "put_walk (m_buckets t) key (haddr P (m_capacity_mask t) key) =
        Some (last (chs (haddr P (m_capacity_mask t) key)), False)"
      by (rule rep_walk_absent(2) [OF r no home(1)]) (simp add: home(4))
    with home(1-3) full acq show ?thesis by (auto simp: defs)
  next
    case (foreign k0 v0 c1 c2)
    from foreign(1-3) full acq show ?thesis by (auto simp: defs)
  qed
qed

lemma cst_size_le: "cst_inv P t \<Longrightarrow> m_size t \<le> capacity t"
  by (auto simp: cst_inv_def dest: cst_size(3))

lemma cst_put_n_room:
  assumes "cst_inv P t" "cst_map t key \<noteq> None \<or> m_size t < capacity t"
  obtains t' where "cst_put_n (Suc n) P key v t = Some (Inr t')" "cst_inv P t'"
    "cst_map t' = (cst_map t)(key \<mapsto> v)" "capacity t' = capacity t"
    "m_size t' = (if cst_map t key = None then m_size t + 1 else m_size t)"
proof (cases "cst_map t key")
  case None
  with assms(2) have "m_size t < capacity t" by simp
  from put_once_room [OF assms(1) None this, of v] obtain t' where
    "put_once P key v t = Some (Put_done t')" "cst_inv P t'" "cst_map t' = (cst_map t)(key \<mapsto> v)"
    "capacity t' = capacity t" "m_size t' = m_size t + 1"
    by (auto simp: put_result_def)
  with None show ?thesis by (intro that [of t']) (simp_all add: cst_put_n.simps)
next
  case (Some w)
  with put_once_present [OF assms(1) Some, of v] that show ?thesis by (fastforce simp: cst_put_n.simps)
qed

section \<open>Allocation\<close>

lemma allocate_spec:
  assumes "cap \<le> max_capacity P" "0 < cap"
  obtains bs :: "('k, 'v) slots" where "allocate_capacity P cap = Inr bs" "length bs = cap + 1"
    "\<And>i. i < cap \<Longrightarrow> nx bs i = - int i - 2" "nx bs cap = - 1"
    "\<And>i. 0 < i \<Longrightarrow> i \<le> cap \<Longrightarrow> bd bs i = Free_prev (int i - 1)" "bd bs 0 = Free_prev (int cap)"
proof -
  define b0 :: "('k, 'v) slots" where
    "b0 = map (\<lambda>index. \<lparr>s_next = - int index - 2, s_body = Free_prev (int index - 1)\<rparr>) [0..<cap + 1]"
  have n0: "nx b0 i = - int i - 2" "bd b0 i = Free_prev (int i - 1)" if "i \<le> cap" for i
    using that by (simp_all add: b0_def nx_def bd_def del: upt_Suc)
  have l0: "length b0 = cap + 1" by (simp add: b0_def)
  show ?thesis
  proof (rule that [of "set_prev (set_next b0 cap (- 1)) 0 (int cap)"])
    show "allocate_capacity P cap = Inr (set_prev (set_next b0 cap (- 1)) 0 (int cap))"
      using assms by (simp add: allocate_capacity_def Let_def b0_def del: upt_Suc)
  qed (use assms n0 l0 in \<open>auto simp: upd_simps\<close>)
qed

lemma successively_upt: "successively R [a..<b] \<longleftrightarrow> (\<forall>i. a \<le> i \<and> Suc i < b \<longrightarrow> R i (Suc i))"
proof (induction b)
  case (Suc b)
  show ?case
  proof (cases "a < b")
    case True
    then obtain c where c: "b = Suc c" "a \<le> c" by (cases b) auto
    have "successively R [a..<Suc b] \<longleftrightarrow> successively R [a..<b] \<and> R c b"
      using c True by (cases "a = c") (auto simp: successively_append_iff)
    also have "\<dots> \<longleftrightarrow> (\<forall>i. a \<le> i \<and> Suc i < Suc b \<longrightarrow> R i (Suc i))"
      unfolding Suc.IH using c by (auto simp: less_Suc_eq)
    finally show ?thesis .
  qed (auto simp: not_less)
qed simp

lemma allocate_rep:
  assumes cap: "cap \<le> max_capacity P" "cap = 2 ^ p"
  obtains bs :: "('k, 'v) slots" where "allocate_capacity P cap = Inr bs"
    "cst_rep P \<lparr>m_size = 0, m_capacity_mask = cap - 1, m_buckets = bs\<rparr> (\<lambda>_. []) [1..<cap + 1]"
proof -
  have pos: "0 < cap" using cap(2) by simp
  obtain bs :: "('k, 'v) slots" where bs: "allocate_capacity P cap = Inr bs" "length bs = cap + 1"
    "\<And>i. i < cap \<Longrightarrow> nx bs i = - int i - 2" "nx bs cap = - 1"
    "\<And>i. 0 < i \<Longrightarrow> i \<le> cap \<Longrightarrow> bd bs i = Free_prev (int i - 1)" "bd bs 0 = Free_prev (int cap)"
    using allocate_spec [OF cap(1) pos] by blast
  let ?h = "haddr P (cap - 1)"
  have neg: "nx bs i < 0" if "i \<le> cap" for i using bs(3,4) that by (cases "i = cap") auto
  have none: "content (nx bs) (bd bs) cap i = None" for i
    using neg [of i] by (auto simp: content_def)
  have list: "0 # [1..<cap + 1] = [0..<cap + 1]" by (simp add: upt_conv_Cons)
  have "successively (free_adj (nx bs) (bd bs)) ([0..<cap + 1] @ [0])"
    using bs(3-6) pos by (auto simp: successively_append_iff successively_upt free_adj_def simp del: upt_Suc)
  moreover have "distinct (0 # [1..<cap + 1])" by (simp del: upt_Suc)
  ultimately have fl: "free_list (nx bs) (bd bs) [1..<cap + 1]"
    unfolding free_list_def append_Cons [symmetric] list by blast
  have "rep ?h cap 0 (nx bs) (bd bs) (\<lambda>_. []) [1..<cap + 1]"
    by (rule repI [OF fl]) (use none haddr_range [of P "cap - 1"] pos in \<open>auto simp: chain_def\<close>)
  with cap pos bs(2) have "cst_rep P \<lparr>m_size = 0, m_capacity_mask = cap - 1, m_buckets = bs\<rparr> (\<lambda>_. []) [1..<cap + 1]"
    by (auto simp: cst_rep_def capacity_def)
  with that bs(1) show ?thesis by blast
qed

lemma empty_cst_map:
  assumes "cst_rep P t (\<lambda>_. []) fl"
  shows "cst_map t = Map.empty"
proof (rule cst_map_eqI [OF assms])
  have r: "rep (haddr P (m_capacity_mask t)) (capacity t) (m_size t) (nx (m_buckets t)) (bd (m_buckets t)) (\<lambda>_. []) fl"
    using assms by (simp add: cst_rep_def)
  show "(\<exists>i. contents t i = Some (k, v)) \<longleftrightarrow> Map.empty k = Some v" for k v
    using rep_home [OF r, of "haddr P (m_capacity_mask t) k"] by auto
qed

section \<open>The entries of the bucket array\<close>

definition slot_entries :: "('k, 'v) slots \<Rightarrow> ('k \<times> 'v) list" where
  "slot_entries es = concat (map (\<lambda>s. if 0 \<le> s_next s then
     (case s_body s of Entry k v \<Rightarrow> [(k, v)] | Free_prev _ \<Rightarrow> []) else []) es)"

lemma cst_entries_slots: "cst_entries t = slot_entries (tl (m_buckets t))"
  by (simp add: cst_entries_def slot_entries_def)

definition slot_ok :: "('k, 'v) slot \<Rightarrow> bool" where
  "slot_ok s \<longleftrightarrow> (0 \<le> s_next s \<longrightarrow> (\<exists>k v. s_body s = Entry k v))"

lemma slot_entries_Cons:
  "slot_entries (s # es) = (if 0 \<le> s_next s then (case s_body s of Entry k v \<Rightarrow> [(k, v)] | Free_prev _ \<Rightarrow> []) else [])
     @ slot_entries es"
  by (simp add: slot_entries_def)

lemma length_slot_entries:
  "\<forall>s\<in>set es. slot_ok s \<Longrightarrow> length (slot_entries es) = length (filter (\<lambda>s. 0 \<le> s_next s) es)"
  by (induction es) (auto simp: slot_entries_def slot_ok_def split: body.splits)

lemma cst_slots_ok:
  assumes R: "cst_rep P t chs fl"
  shows "\<forall>s\<in>set (tl (m_buckets t)). slot_ok s"
proof
  have r: "rep (haddr P (m_capacity_mask t)) (capacity t) (m_size t) (nx (m_buckets t)) (bd (m_buckets t)) chs fl"
    and len: "length (m_buckets t) = capacity t + 1" using R by (auto simp: cst_rep_def)
  fix s assume "s \<in> set (tl (m_buckets t))"
  then obtain j where j: "j < capacity t" "s = m_buckets t ! Suc j"
    using len by (auto simp: in_set_conv_nth nth_tl)
  then have "Suc j \<in> {1..capacity t}" by simp
  from rep_free_neg [OF r this] j show "slot_ok s"
    by (auto simp: slot_ok_def nx_def bd_def content_def split: body.splits if_splits)
qed

lemma cst_entries_distinct:
  assumes R: "cst_rep P t chs fl"
  shows "length (cst_entries t) = m_size t" "distinct (map fst (cst_entries t))"
proof -
  have r: "rep (haddr P (m_capacity_mask t)) (capacity t) (m_size t) (nx (m_buckets t)) (bd (m_buckets t)) chs fl"
    and len: "length (m_buckets t) = capacity t + 1" using R by (auto simp: cst_rep_def)
  let ?n = "capacity t" and ?N = "nx (m_buckets t)"
  have tlm: "tl (m_buckets t) = map (\<lambda>j. m_buckets t ! Suc j) [0..<?n]"
    using len by (intro nth_equalityI) (auto simp: nth_tl)
  have "length (cst_entries t) = length (filter (\<lambda>j. 0 \<le> ?N (Suc j)) [0..<?n])"
    unfolding cst_entries_slots length_slot_entries [OF cst_slots_ok [OF R]] unfolding tlm
    by (simp add: filter_map o_def nx_def length_slot_entries)
  also have "\<dots> = card {j. j < ?n \<and> 0 \<le> ?N (Suc j)}" by (rule filter_upt_card)
  also have "\<dots> = card ({1..?n} - set fl)"
  proof (rule bij_betw_same_card)
    show "bij_betw Suc {j. j < ?n \<and> 0 \<le> ?N (Suc j)} ({1..?n} - set fl)"
    proof (rule bij_betw_imageI)
      show "Suc ` {j. j < ?n \<and> 0 \<le> ?N (Suc j)} = {1..?n} - set fl"
      proof (rule set_eqI)
        fix i
        show "i \<in> Suc ` {j. j < ?n \<and> 0 \<le> ?N (Suc j)} \<longleftrightarrow> i \<in> {1..?n} - set fl"
          using rep_free_neg [OF r, of i] rep_fl_iff [OF r, of i]
          by (cases i) (auto simp: image_iff not_less)
      qed
    qed simp
  qed
  also have "\<dots> = ?n - length fl"
  proof -
    have "set fl \<subseteq> {1..?n}" using rep_fl_iff [OF r] by auto
    moreover have "card (set fl) = length fl" using rep_free [OF r] by (simp add: free_list_def distinct_card)
    ultimately show ?thesis by (simp add: card_Diff_subset)
  qed
  finally show l: "length (cst_entries t) = m_size t" using rep_size [OF r] by simp
  have "dom (cst_map t) = set (map fst (cst_entries t))" by (simp add: cst_map_def dom_map_of_conv_image_fst)
  then have "card (set (map fst (cst_entries t))) = length (map fst (cst_entries t))"
    using cst_size(1) [OF R] l by simp
  then show "distinct (map fst (cst_entries t))" by (rule card_distinct)
qed

section \<open>Rehashing\<close>

lemma rehash_loop_spec:
  assumes "\<forall>s\<in>set es. slot_ok s" "cst_inv P t" "lim = i + length (slot_entries es)"
    and "distinct (map fst (slot_entries es))" "fst ` set (slot_entries es) \<inter> dom (cst_map t) = {}"
    and "m_size t + length (slot_entries es) \<le> capacity t"
  shows "\<exists>t'. rehash_loop (cst_put_n (Suc n) P) es i lim t = Some (Inr t') \<and> cst_inv P t' \<and>
    cst_map t' = cst_map t ++ map_of (slot_entries es) \<and> capacity t' = capacity t"
  using assms
proof (induction es arbitrary: i t)
  case Nil
  then show ?case by (simp add: slot_entries_def)
next
  case (Cons e es)
  show ?case
  proof (cases "0 \<le> s_next e")
    case False
    then have "slot_entries (e # es) = slot_entries es" by (simp add: slot_entries_Cons)
    then show ?thesis using Cons.IH [of t i] Cons.prems False by auto
  next
    case True
    with Cons.prems(1) obtain k v where kv: "s_body e = Entry k v" by (auto simp: slot_ok_def)
    with True have es: "slot_entries (e # es) = (k, v) # slot_entries es" by (simp add: slot_entries_Cons)
    have k: "cst_map t k = None" using Cons.prems(5) es by auto
    moreover have "m_size t < capacity t" using Cons.prems(6) es by simp
    ultimately obtain t' where t': "cst_put_n (Suc n) P k v t = Some (Inr t')" "cst_inv P t'"
      "cst_map t' = (cst_map t)(k \<mapsto> v)" "capacity t' = capacity t" "m_size t' = m_size t + 1"
      using cst_put_n_room [OF Cons.prems(2)] by (metis (full_types))
    have fr: "k \<notin> fst ` set (slot_entries es)" using Cons.prems(4) es by simp
    obtain t2 where t2: "rehash_loop (cst_put_n (Suc n) P) es (i + 1) lim t' = Some (Inr t2)" "cst_inv P t2"
      "cst_map t2 = cst_map t' ++ map_of (slot_entries es)" "capacity t2 = capacity t'"
    proof -
      have "\<exists>t2. rehash_loop (cst_put_n (Suc n) P) es (i + 1) lim t' = Some (Inr t2) \<and> cst_inv P t2 \<and>
        cst_map t2 = cst_map t' ++ map_of (slot_entries es) \<and> capacity t2 = capacity t'"
      proof (rule Cons.IH)
        show "fst ` set (slot_entries es) \<inter> dom (cst_map t') = {}"
          using Cons.prems(5) es t'(3) fr by auto
      qed (use Cons.prems es t' in auto)
      with that show ?thesis by blast
    qed
    have "cst_map t2 = cst_map t ++ map_of (slot_entries (e # es))"
    proof
      fix x
      have "map_of (slot_entries es) k = None" using fr by (simp add: map_of_eq_None_iff)
      then show "cst_map t2 x = (cst_map t ++ map_of (slot_entries (e # es))) x"
        by (simp add: t2(3) t'(3) es map_add_def split: option.splits)
    qed
    moreover have "i < lim" using Cons.prems(3) es by simp
    ultimately show ?thesis using True kv t' t2 by simp
  qed
qed

lemma rehash_impl_spec:
  fixes t :: "('k, 'v) cst"
  assumes inv: "cst_inv P t" and new: "new = 2 ^ p" "new \<le> max_capacity P" "m_size t \<le> new"
  obtains t' where "rehash_impl (cst_put_n (Suc n) P) P new t = Some (Inr t')" "cst_inv P t'"
    "cst_map t' = cst_map t" "capacity t' = new"
proof -
  obtain chs fl where R: "cst_rep P t chs fl" using inv by (auto simp: cst_inv_def)
  obtain bs :: "('k, 'v) slots" where bs: "allocate_capacity P new = Inr bs"
    "cst_rep P \<lparr>m_size = 0, m_capacity_mask = new - 1, m_buckets = bs\<rparr> (\<lambda>_. []) [1..<new + 1]"
    (is "cst_rep P ?t0 _ _")
    using allocate_rep [OF new(2,1)] by blast
  have cap: "capacity ?t0 = new" using new(1) by (simp add: capacity_def)
  note e = cst_entries_distinct [OF R, unfolded cst_entries_slots] and mt = empty_cst_map [OF bs(2)]
  have "\<exists>t'. rehash_loop (cst_put_n (Suc n) P) (tl (m_buckets t)) 0 (m_size t) ?t0 = Some (Inr t') \<and> cst_inv P t' \<and>
    cst_map t' = cst_map ?t0 ++ map_of (slot_entries (tl (m_buckets t))) \<and> capacity t' = capacity ?t0"
    by (rule rehash_loop_spec [OF cst_slots_ok [OF R]])
      (use bs(2) e new(3) cap mt in \<open>auto simp: cst_inv_def\<close>)
  then show ?thesis
    using that bs(1) cap mt by (auto simp: rehash_impl_def cst_map_def cst_entries_slots)
qed

lemma rehash_impl_too_big:
  "max_capacity P < new \<Longrightarrow> rehash_impl put P new t = Some (Inl Invalid_input)"
  by (simp add: rehash_impl_def allocate_capacity_def)

text \<open>More fuel never changes a result.\<close>

lemma rehash_loop_mono:
  assumes "\<And>k v t r. put k v t = Some r \<Longrightarrow> put' k v t = Some r"
  shows "rehash_loop put es i lim t = Some r \<Longrightarrow> rehash_loop put' es i lim t = Some r"
  by (induction es arbitrary: i t) (auto split: if_splits body.splits option.splits sum.splits dest: assms)

lemma rehash_impl_mono:
  assumes "\<And>k v t r. put k v t = Some r \<Longrightarrow> put' k v t = Some r"
  shows "rehash_impl put P new t = Some r \<Longrightarrow> rehash_impl put' P new t = Some r"
  using rehash_loop_mono [of put put', OF assms] by (auto simp: rehash_impl_def split: sum.splits)

lemma put_body_mono:
  assumes "\<And>k v t r. f k v t = Some r \<Longrightarrow> f' k v t = Some r"
  shows "(case put_once P key v t of None \<Rightarrow> None | Some (Put_done t') \<Rightarrow> Some (Inr t')
      | Some (Put_throw err) \<Rightarrow> Some (Inl err)
      | Some Put_grow \<Rightarrow> (case rehash_impl f P new t of None \<Rightarrow> None | Some (Inl err) \<Rightarrow> Some (Inl err)
          | Some (Inr t') \<Rightarrow> f key v t')) = Some r \<Longrightarrow>
    (case put_once P key v t of None \<Rightarrow> None | Some (Put_done t') \<Rightarrow> Some (Inr t')
      | Some (Put_throw err) \<Rightarrow> Some (Inl err)
      | Some Put_grow \<Rightarrow> (case rehash_impl f' P new t of None \<Rightarrow> None | Some (Inl err) \<Rightarrow> Some (Inl err)
          | Some (Inr t') \<Rightarrow> f' key v t')) = Some r"
  using assms rehash_impl_mono [of f f', OF assms]
  by (auto split: option.splits put_step.splits sum.splits)

lemma cst_put_n_mono:
  "cst_put_n n P key v t = Some r \<Longrightarrow> cst_put_n (Suc n) P key v t = Some r"
proof (induction n arbitrary: key v t r)
  case (Suc n)
  from Suc.prems show ?case
    unfolding cst_put_n.simps(2) [of "Suc n"] unfolding cst_put_n.simps(2) [of n]
    by (rule put_body_mono [rotated]) (rule Suc.IH [unfolded cst_put_n.simps(2) [of n]])
qed (simp add: cst_put_n.simps)

end
