(* ===== verification/Scatter_Api.thy ===== *)
theory Scatter_Api
  imports Scatter_Ops
begin

text \<open>
  The public operations of the scatter table: construction, \<open>put\<close>, \<open>rehash\<close>, \<open>remove\<close> and
  the iterator against the map the table represents.
\<close>

section \<open>Construction\<close>

lemma max_capacity_pow2: "\<exists>p. max_capacity P = 2 ^ p"
  by (auto simp: max_capacity_def)

lemma cst_new_spec:
  assumes "1 \<le> n" "n \<le> int (max_capacity P)" "n \<le> 2 ^ 31"
  obtains t :: "('k, 'v) cst" where "cst_new P n = Inr t" "cst_inv P t" "cst_map t = Map.empty"
    "n \<le> int (capacity t)" "\<And>q. n \<le> 2 ^ q \<Longrightarrow> capacity t \<le> 2 ^ q" "m_size t = 0"
proof -
  have n32: "n \<le> 2 ^ 32" using assms(3) by simp
  obtain p where p: "log2_ceil 32 n = Inr (int p)" "n \<le> 2 ^ p" "\<And>q. n \<le> 2 ^ q \<Longrightarrow> p \<le> q"
    using log2_ceil_least [OF assms(1) n32] by auto
  obtain m where m: "max_capacity P = 2 ^ m" using max_capacity_pow2 by blast
  have "p \<le> m" using p(3) assms(2) m by simp
  then have le: "2 ^ p \<le> max_capacity P" by (simp add: m)
  obtain bs :: "('k, 'v) slots" where bs: "allocate_capacity P (2 ^ p) = Inr bs"
    "cst_rep P \<lparr>m_size = 0, m_capacity_mask = 2 ^ p - 1, m_buckets = bs\<rparr> (\<lambda>_. []) [1..<2 ^ p + 1]"
    (is "cst_rep P ?t _ _")
    using allocate_rep [OF le refl] by blast
  show ?thesis
  proof (rule that [of ?t])
    show "cst_new P n = Inr ?t" using p(1) bs(1) by (simp add: cst_new_def Let_def)
    show "cst_inv P ?t" using bs(2) by (auto simp: cst_inv_def)
    show "cst_map ?t = Map.empty" by (rule empty_cst_map [OF bs(2)])
    show "n \<le> int (capacity ?t)" using p(2) by (simp add: capacity_def)
    show "capacity ?t \<le> 2 ^ q" if "n \<le> 2 ^ q" for q using p(3) [OF that] by (simp add: capacity_def)
  qed simp
qed

lemma cst_new_errors:
  "n \<le> 0 \<Longrightarrow> cst_new P n = Inl Check_failure"
  "int (max_capacity P) < n \<Longrightarrow> n \<le> 2 ^ 31 \<Longrightarrow> cst_new P n = Inl Invalid_input"
proof -
  show "n \<le> 0 \<Longrightarrow> cst_new P n = Inl Check_failure"
    by (simp add: cst_new_def log2_ceil_def log2_floor_def)
next
  assume a: "int (max_capacity P) < n" "n \<le> 2 ^ 31"
  then have "1 \<le> n" "n \<le> 2 ^ 32" by auto
  then obtain p where p: "log2_ceil 32 n = Inr (int p)" "n \<le> 2 ^ p"
    using log2_ceil_least [of n 32] by auto
  have "int (max_capacity P) < 2 ^ p" using a(1) p(2) by (rule less_le_trans)
  then have "int (max_capacity P) < int (2 ^ p)" by (simp only: of_nat_power of_nat_numeral)
  then have "max_capacity P < 2 ^ p" by (simp only: of_nat_less_iff)
  with p(1) show "cst_new P n = Inl Invalid_input"
    by (simp add: cst_new_def Let_def allocate_capacity_def)
qed

section \<open>Insertion\<close>

lemma cst_put_n_full_error:
  assumes "cst_inv P t" "cst_map t key = None" "m_size t = capacity t"
    and "t_fixed P \<or> max_capacity P < 2 * capacity t"
  shows "cst_put_n (Suc (Suc n)) P key v t = Some (Inl (if t_fixed P then Capacity_limit else Invalid_input))"
proof -
  have "max_capacity P < 2 * (m_capacity_mask t + 1)" if "\<not> t_fixed P"
    using assms(4) that by (simp add: capacity_def)
  then show ?thesis
    using put_once_full [OF assms(1-3), of v]
    by (simp add: cst_put_n.simps(2) rehash_impl_too_big)
qed

lemma cst_put_n_grow:
  assumes "cst_inv P t" "cst_map t key = None" "m_size t = capacity t"
    and "\<not> t_fixed P" "2 * capacity t \<le> max_capacity P"
  obtains t' where "cst_put_n (Suc (Suc n)) P key v t = Some (Inr t')" "cst_inv P t'"
    "cst_map t' = (cst_map t)(key \<mapsto> v)" "capacity t' = 2 * capacity t"
proof -
  obtain p where "capacity t = 2 ^ p" using assms(1) by (auto simp: cst_inv_def cst_rep_def)
  then have pow: "2 * capacity t = 2 ^ Suc p" by simp
  have le: "m_size t \<le> 2 * capacity t" using assms(3) by simp
  obtain t1 where t1: "rehash_impl (cst_put_n (Suc n) P) P (2 * capacity t) t = Some (Inr t1)" "cst_inv P t1"
    "cst_map t1 = cst_map t" "capacity t1 = 2 * capacity t"
    using rehash_impl_spec [OF assms(1) pow assms(5) le] by blast
  have "m_size t1 = m_size t"
    using t1(2,3) assms(1) cst_size(1) by (metis cst_inv_def)
  then have room: "m_size t1 < capacity t1" using assms(3) t1(4) by (simp add: capacity_def)
  obtain t2 where t2: "cst_put_n (Suc n) P key v t1 = Some (Inr t2)" "cst_inv P t2"
    "cst_map t2 = (cst_map t1)(key \<mapsto> v)" "capacity t2 = capacity t1"
    using cst_put_n_room [OF t1(2) disjI2 [OF room]] by metis
  have "m_capacity_mask t + 1 = capacity t" by (simp add: capacity_def)
  then have "cst_put_n (Suc (Suc n)) P key v t = Some (Inr t2)"
    using put_once_full [OF assms(1-3), of v] t1(1) t2(1) assms(4)
    by (simp only: cst_put_n.simps(2) [of "Suc n"] option.case put_step.case if_False sum.case)
  then show ?thesis using that t2 t1(3,4) by simp
qed

definition put_fails :: "'k cst_traits \<Rightarrow> ('k, 'v) cst \<Rightarrow> 'k \<Rightarrow> bool" where
  "put_fails P t key \<longleftrightarrow> cst_map t key = None \<and> m_size t = capacity t \<and>
     (t_fixed P \<or> max_capacity P < 2 * capacity t)"

lemma cst_put_n_ok:
  assumes inv: "cst_inv P t" and ok: "\<not> put_fails P t key"
  obtains t' where "cst_put_n (Suc (Suc n)) P key v t = Some (Inr t')" "cst_inv P t'"
    "cst_map t' = (cst_map t)(key \<mapsto> v)"
    "capacity t' = (if cst_map t key = None \<and> m_size t = capacity t then 2 * capacity t else capacity t)"
proof (cases "cst_map t key = None \<and> m_size t = capacity t")
  case True
  with ok have "\<not> t_fixed P" "2 * capacity t \<le> max_capacity P" by (auto simp: put_fails_def)
  with cst_put_n_grow [OF inv _ _ this] True that show ?thesis by metis
next
  case False
  then have room: "cst_map t key \<noteq> None \<or> m_size t < capacity t" using cst_size_le [OF inv] by force
  obtain t' where t': "cst_put_n (Suc (Suc n)) P key v t = Some (Inr t')" "cst_inv P t'"
    "cst_map t' = (cst_map t)(key \<mapsto> v)" "capacity t' = capacity t"
    using cst_put_n_room [OF inv room] by metis
  with that [of t'] False show ?thesis by auto
qed

lemma cst_put_2: "cst_put P = cst_put_n (Suc (Suc 0)) P"
  by (simp add: cst_put_def numeral_2_eq_2)

lemma cst_put_ok:
  assumes "cst_inv P t" "\<not> put_fails P t key"
  obtains t' where "cst_put P key v t = Some (Inr t')" "cst_inv P t'" "cst_map t' = (cst_map t)(key \<mapsto> v)"
    "capacity t' = (if cst_map t key = None \<and> m_size t = capacity t then 2 * capacity t else capacity t)"
  unfolding cst_put_2 using cst_put_n_ok [OF assms] by metis

lemma cst_put_error:
  assumes "cst_inv P t" "put_fails P t key"
  shows "cst_put P key v t = Some (Inl (if t_fixed P then Capacity_limit else Invalid_input))"
  unfolding cst_put_2 using assms by (intro cst_put_n_full_error) (auto simp: put_fails_def)

section \<open>Removal\<close>

lemma remove_impl_absent:
  assumes inv: "cst_inv P t" and k: "cst_map t key = None"
  shows "remove_impl P key t = Some (t, None)"
proof -
  obtain chs fl where R: "cst_rep P t chs fl" using inv by (auto simp: cst_inv_def)
  then have r: "rep (haddr P (m_capacity_mask t)) (capacity t) (m_size t) (nx (m_buckets t)) (bd (m_buckets t)) chs fl"
    by (simp add: cst_rep_def)
  have no: "contents t i \<noteq> Some (key, w)" for i w using cst_map_iff [OF R] k by (metis option.distinct(1))
  show ?thesis
    using rep_walk_absent(1) [OF r no] by (auto simp: remove_impl_def Let_def nx_def not_less)
qed

text \<open>What a removal leaves behind: the entry of the removed slot is gone, wherever the others moved.\<close>

lemma remove_result:
  assumes R: "cst_rep P t chs fl" and e: "contents t e = Some (key, v)"
    and len: "length bs' = length (m_buckets t)"
    and rep': "rep (haddr P (m_capacity_mask t)) (capacity t) (m_size t - 1) (nx bs') (bd bs') chs' fl'"
    and c': "\<And>k w. (\<exists>i. content (nx bs') (bd bs') (capacity t) i = Some (k, w)) \<longleftrightarrow> (\<exists>i. i \<noteq> e \<and> contents t i = Some (k, w))"
  shows "cst_inv P (t\<lparr>m_buckets := bs', m_size := m_size t - 1\<rparr>)"
    and "cst_map (t\<lparr>m_buckets := bs', m_size := m_size t - 1\<rparr>) = (cst_map t)(key := None)"
proof -
  have r: "rep (haddr P (m_capacity_mask t)) (capacity t) (m_size t) (nx (m_buckets t)) (bd (m_buckets t)) chs fl"
    using R by (simp add: cst_rep_def)
  have m: "(\<exists>i. content (nx bs') (bd bs') (capacity t) i = Some (k, w)) \<longleftrightarrow> ((cst_map t)(key := None)) k = Some w" for k w
  proof (cases "k = key")
    case True
    have "contents t i = Some (key, w) \<Longrightarrow> i = e" for i using rep_unique [OF r e] by metis
    with True show ?thesis unfolding c' by auto
  next
    case False
    with e have "contents t i = Some (k, w) \<Longrightarrow> i \<noteq> e" for i by auto
    with False cst_map_iff [OF R, of k w] show ?thesis unfolding c' by auto
  qed
  show "cst_inv P (t\<lparr>m_buckets := bs', m_size := m_size t - 1\<rparr>)"
    by (rule cst_inv_updI(1) [OF R len rep' refl]) (rule m)
  show "cst_map (t\<lparr>m_buckets := bs', m_size := m_size t - 1\<rparr>) = (cst_map t)(key := None)"
    by (rule cst_inv_updI(2) [OF R len rep' refl]) (rule m)
qed

definition remove_ok :: "'k cst_traits \<Rightarrow> 'k \<Rightarrow> 'v \<Rightarrow> ('k, 'v) cst \<Rightarrow> (('k, 'v) cst \<times> 'v option) option \<Rightarrow> bool" where
  "remove_ok P key v t r \<longleftrightarrow>
     (\<exists>t'. r = Some (t', Some v) \<and> cst_inv P t' \<and> cst_map t' = (cst_map t)(key := None) \<and>
        capacity t' = capacity t \<and> m_size t' = m_size t - 1)"

lemma remove_okI:
  assumes "cst_rep P t chs fl" "contents t e = Some (key, v)" "length bs' = length (m_buckets t)"
    and "rep (haddr P (m_capacity_mask t)) (capacity t) (m_size t - 1) (nx bs') (bd bs') chs' fl'"
    and "\<And>k w. (\<exists>i. content (nx bs') (bd bs') (capacity t) i = Some (k, w)) \<longleftrightarrow> (\<exists>i. i \<noteq> e \<and> contents t i = Some (k, w))"
    and "r = Some (t\<lparr>m_buckets := bs', m_size := m_size t - 1\<rparr>, Some v)"
  shows "remove_ok P key v t r"
  unfolding remove_ok_def
  by (rule exI [of _ "t\<lparr>m_buckets := bs', m_size := m_size t - 1\<rparr>"])
    (use remove_result [OF assms(1-5)] assms(6) in \<open>simp add: capacity_def\<close>)

lemma chain_facts:
  assumes R: "cst_rep P t chs fl" and c: "chs (haddr P (m_capacity_mask t) key) = c"
  shows "chain (nx (m_buckets t)) c"
    and "i \<in> set c \<Longrightarrow> i < length (m_buckets t) \<and> i \<notin> set (0 # fl)"
    and "i \<in> set (0 # fl) \<Longrightarrow> i < length (m_buckets t)"
    and "free_list (nx (m_buckets t)) (bd (m_buckets t)) fl"
    and "rep (haddr P (m_capacity_mask t)) (capacity t) (m_size t) (nx (m_buckets t)) (bd (m_buckets t)) chs fl"
proof -
  show r: "rep (haddr P (m_capacity_mask t)) (capacity t) (m_size t) (nx (m_buckets t)) (bd (m_buckets t)) chs fl"
    using R by (simp add: cst_rep_def)
  have len: "length (m_buckets t) = capacity t + 1" using R by (simp add: cst_rep_def)
  show "chain (nx (m_buckets t)) c" using rep_chain [OF r] c by blast
  show "i \<in> set c \<Longrightarrow> i < length (m_buckets t) \<and> i \<notin> set (0 # fl)"
    using rep_occupied(1-3) [OF r, of i "haddr P (m_capacity_mask t) key"] c len by auto
  show "i \<in> set (0 # fl) \<Longrightarrow> i < length (m_buckets t)" using rep_fl_iff [OF r, of i] len by auto
  show "free_list (nx (m_buckets t)) (bd (m_buckets t)) fl" by (rule rep_free [OF r])
qed

lemma remove_impl_last:
  assumes R: "cst_rep P t chs fl" and e: "contents t e = Some (key, v)"
    and c: "chs (haddr P (m_capacity_mask t) key) = c1 @ [e]"
      "hd (c1 @ [e]) = haddr P (m_capacity_mask t) key"
    and w: "remove_walk (m_buckets t) key (haddr P (m_capacity_mask t) key) (haddr P (m_capacity_mask t) key) =
        Some (Some (last (haddr P (m_capacity_mask t) key # c1), e, v))"
      "0 \<le> nx (m_buckets t) (haddr P (m_capacity_mask t) key)"
  shows "remove_ok P key v t (remove_impl P key t)"
proof -
  let ?bs = "m_buckets t" and ?a = "haddr P (m_capacity_mask t) key"
  note cf = chain_facts [OF R c(1)]
  have ne: "nx ?bs e = 0" using cf(1) by (simp add: chain_def successively_append_iff)
  have d: "distinct (c1 @ [e])" using cf(1) by (simp add: chain_def)
  let ?bs1 = "if c1 = [] then ?bs else set_next ?bs (last c1) 0"
  have lc: "last c1 < length ?bs" "last c1 \<notin> set (0 # fl)" if "c1 \<noteq> []"
    using cf(2) [of "last c1"] that by auto
  have el: "e < length ?bs" "e \<notin> set (0 # fl)" using cf(2) [of e] by auto
  have n1: "nx ?bs1 = (if c1 = [] then nx ?bs else (nx ?bs)(last c1 := 0))" "bd ?bs1 = bd ?bs"
    "length ?bs1 = length ?bs"
    using lc(1) by (auto simp: upd_simps)
  have fl1: "free_list (nx ?bs1) (bd ?bs1) fl"
    by (rule free_list_cong [OF cf(4)]) (use lc(2) n1 in auto)
  note fs = free_slot_spec [OF fl1 refl, of e]
  have fs': "nx (free_slot e ?bs1) = (nx ?bs1)(e := - int (hd (fl @ [0])) - 1, 0 := - int e - 1)"
    "bd (free_slot e ?bs1) = (bd ?bs)(hd (fl @ [0]) := Free_prev (int e), e := Free_prev 0)"
    "length (free_slot e ?bs1) = length ?bs"
    using fs n1(2,3) el cf(3) cf(3) [of 0] by simp_all
  note rm = rep_remove_last [OF cf(5) c(1) n1(1) refl fs'(1,2)]
  have last: "e \<noteq> last (?a # c1) \<longleftrightarrow> c1 \<noteq> []" "c1 \<noteq> [] \<Longrightarrow> last (?a # c1) = last c1"
    using d c(2) by (cases "c1 = []"; force)+
  have "remove_impl P key t = Some (t\<lparr>m_buckets := free_slot e ?bs1, m_size := m_size t - 1\<rparr>, Some v)"
    using w ne last by (auto simp: remove_impl_def Let_def nx_def)
  with rm show ?thesis
    by (intro remove_okI [OF R e fs'(3)]) auto
qed

lemma remove_impl_mid:
  assumes R: "cst_rep P t chs fl" and e: "contents t e = Some (key, v)"
    and c: "chs (haddr P (m_capacity_mask t) key) = c1 @ e # s # c2"
    and w: "remove_walk (m_buckets t) key (haddr P (m_capacity_mask t) key) (haddr P (m_capacity_mask t) key) =
        Some (Some (last (haddr P (m_capacity_mask t) key # c1), e, v))"
      "0 \<le> nx (m_buckets t) (haddr P (m_capacity_mask t) key)"
  shows "remove_ok P key v t (remove_impl P key t)"
proof -
  let ?bs = "m_buckets t" and ?a = "haddr P (m_capacity_mask t) key"
  note cf = chain_facts [OF R c(1)]
  have ne: "nx ?bs e = int s" using cf(1) by (simp add: chain_def successively_append_iff)
  have d: "e \<noteq> s" using cf(1) by (simp add: chain_def)
  let ?bs1 = "?bs[e := ?bs ! s]"
  have el: "e < length ?bs" "e \<notin> set (0 # fl)" "s < length ?bs" "s \<notin> set (0 # fl)"
    using cf(2) [of e] cf(2) [of s] by auto
  have n1: "nx ?bs1 = (nx ?bs)(e := nx ?bs s)" "bd ?bs1 = (bd ?bs)(e := bd ?bs s)" "length ?bs1 = length ?bs"
    using el by (simp_all add: upd_simps) (simp_all add: nx_def bd_def)
  have fl1: "free_list (nx ?bs1) (bd ?bs1) fl"
    by (rule free_list_cong [OF cf(4)]) (use el n1 in auto)
  have fs': "nx (free_slot s ?bs1) = (nx ?bs)(e := nx ?bs s, s := - int (hd (fl @ [0])) - 1, 0 := - int s - 1)"
    "bd (free_slot s ?bs1) = (bd ?bs)(e := bd ?bs s, hd (fl @ [0]) := Free_prev (int s), s := Free_prev 0)"
    "length (free_slot s ?bs1) = length ?bs"
    using free_slot_spec [OF fl1 refl, of s] n1 el cf(3) cf(3) [of 0] by simp_all
  note rm = rep_remove_mid [OF cf(5) c refl fs'(1,2)]
  have cs: "contents t s \<noteq> None"
  proof -
    have "s \<in> set (chs ?a)" using c by simp
    then show ?thesis unfolding rep_home [OF cf(5)] by auto
  qed
  have "remove_impl P key t = Some (t\<lparr>m_buckets := free_slot s ?bs1, m_size := m_size t - 1\<rparr>, Some v)"
    using w ne el(4) by (auto simp: remove_impl_def Let_def nx_def)
  moreover have "(\<exists>i. ((contents t)(e := contents t s, s := None)) i = Some (k, u)) \<longleftrightarrow>
      (\<exists>i. i \<noteq> e \<and> contents t i = Some (k, u))" (is "?L \<longleftrightarrow> ?R") for k u
  proof
    assume ?R
    then obtain i where i: "i \<noteq> e" "contents t i = Some (k, u)" by blast
    then show ?L using d by (intro exI [of _ "if i = s then e else i"]) auto
  qed (use d in \<open>auto split: if_splits\<close>)
  ultimately show ?thesis
    by (intro remove_okI [OF R e fs'(3) rm(1)]) (simp_all only: rm(2))
qed

lemma remove_impl_present:
  assumes inv: "cst_inv P t" and k: "cst_map t key = Some v"
  shows "remove_ok P key v t (remove_impl P key t)"
proof -
  obtain chs fl where R: "cst_rep P t chs fl" using inv by (auto simp: cst_inv_def)
  then have r: "rep (haddr P (m_capacity_mask t)) (capacity t) (m_size t) (nx (m_buckets t)) (bd (m_buckets t)) chs fl"
    by (simp add: cst_rep_def)
  obtain e where e: "contents t e = Some (key, v)" using cst_map_iff [OF R] k by blast
  obtain c1 c2 where c: "chs (haddr P (m_capacity_mask t) key) = c1 @ e # c2"
    "hd (c1 @ [e]) = haddr P (m_capacity_mask t) key"
    "0 \<le> nx (m_buckets t) (haddr P (m_capacity_mask t) key)"
    "remove_walk (m_buckets t) key (haddr P (m_capacity_mask t) key) (haddr P (m_capacity_mask t) key) =
      Some (Some (last (haddr P (m_capacity_mask t) key # c1), e, v))"
    using rep_walk_present [OF r e] by metis
  show ?thesis
  proof (cases c2)
    case Nil
    with c show ?thesis by (intro remove_impl_last [OF R e _ c(2,4,3)]) simp
  next
    case (Cons s c3)
    with c show ?thesis by (intro remove_impl_mid [OF R e _ c(4,3)]) simp
  qed
qed

section \<open>Rehashing\<close>

lemma max_capacity_int32:
  assumes "t_link_bits P \<le> 32" shows "max_capacity P \<le> 2 ^ 30"
proof -
  define x :: nat where "x = 2 ^ (t_link_bits P - 1) - 2"
  have "(2::nat) ^ (t_link_bits P - 1) \<le> 2 ^ 31" by (rule power_increasing) (use assms in auto)
  then have x: "x < 2 ^ 31" by (simp add: x_def)
  show ?thesis
  proof (cases "x = 0")
    case True
    then show ?thesis by (simp add: max_capacity_def x_def)
  next
    case False
    have "2 ^ (63 - lzcnt 64 x) \<le> x" using lzcnt_bounds [of x 64] False x by simp
    with x have "(2::nat) ^ (63 - lzcnt 64 x) < 2 ^ 31" by linarith
    then have "63 - lzcnt 64 x < 31" by (rule power_less_imp_less_exp [rotated]) simp
    then have "63 - lzcnt 64 x \<le> 30" by linarith
    then have "(2::nat) ^ (63 - lzcnt 64 x) \<le> 2 ^ 30" by (rule power_increasing) simp
    then show ?thesis by (simp add: max_capacity_def x_def)
  qed
qed

text \<open>The outcome of \<open>rehash\<close> for every count in the range of its argument.\<close>

lemma cst_rehash_ok:
  assumes inv: "cst_inv P t" and n: "1 \<le> count" "int (m_size t) \<le> count"
    and le: "count \<le> int (max_capacity P)" and bits: "t_link_bits P \<le> 32"
  obtains t' where "cst_rehash P count t = Some (Inr t')" "cst_inv P t'" "cst_map t' = cst_map t"
    "count \<le> int (capacity t')" "\<And>q. count \<le> 2 ^ q \<Longrightarrow> capacity t' \<le> 2 ^ q"
proof -
  have c30: "count \<le> 2 ^ 30" using le of_nat_mono [OF max_capacity_int32 [OF bits], where 'a = int] by simp
  obtain p where p: "log2_ceil 32 count = Inr (int p)" "count \<le> 2 ^ p" "\<And>q. count \<le> 2 ^ q \<Longrightarrow> p \<le> q"
    using log2_ceil_least [of count 32] n(1) c30 by auto
  have p30: "p \<le> 30" using p(3) [OF c30] .
  obtain m where m: "max_capacity P = 2 ^ m" using max_capacity_pow2 by blast
  have "p \<le> m" using p(3) [of m] le m by simp
  then have le': "2 ^ p \<le> max_capacity P" by (simp add: m)
  have "int (m_size t) \<le> 2 ^ p" using n(2) p(2) by (rule order_trans)
  then have "int (m_size t) \<le> int (2 ^ p)" by (simp only: of_nat_power of_nat_numeral)
  then have sz: "m_size t \<le> 2 ^ p" by (simp only: of_nat_le_iff)
  obtain t1 where t1: "rehash_impl (cst_put P) P (2 ^ p) t = Some (Inr t1)" "cst_inv P t1"
    "cst_map t1 = cst_map t" "capacity t1 = 2 ^ p"
    using rehash_impl_spec [OF inv refl le' sz, of 1] unfolding cst_put_def numeral_2_eq_2 One_nat_def by blast
  show ?thesis
  proof (cases "capacity t = 2 ^ p")
    case True
    then have "cst_rehash P count t = Some (Inr t)" using p(1) p30 by (simp add: cst_rehash_def)
    with True p(2,3) inv show ?thesis by (intro that [of t]) auto
  next
    case False
    then have ne: "int (2 ^ p) \<noteq> int (capacity t)" by (metis of_nat_eq_iff)
    have "cst_rehash P count t = Some (Inr t1)"
      using p(1) p30 ne sz t1(1) \<open>int (m_size t) \<le> int (2 ^ p)\<close>
      by (simp add: cst_rehash_def nat_power_eq)
    with t1 p(2,3) show ?thesis by (intro that [of t1]) auto
  qed
qed

end
