(* ===== verification/Keyed_Map.thy ===== *)
theory Keyed_Map
  imports Vrt_Prelude
begin

text \<open>
  The keyed-map interface: what the clients of a hash map (the order books' and the execution
  manager's id-to-object maps) rely on, and the guarantee that follows for whole programs of
  map operations. \<open>Scatter_Props\<close> interprets it by the scatter table.
\<close>

section \<open>Programs of map operations\<close>

datatype ('k, 'v) map_op = Op_get 'k | Op_put 'k 'v | Op_remove 'k

datatype 'v map_out = Out_value "'v option" | Out_done | Out_refused vr_error

text \<open>
  The implementation's run threads its state; \<open>None\<close> is an operation that does not return.
  A put that throws leaves the table as it was.
\<close>

fun run_ops :: "('t \<Rightarrow> 'k \<Rightarrow> 'v option option) \<Rightarrow> ('k \<Rightarrow> 'v \<Rightarrow> 't \<Rightarrow> 't result option) \<Rightarrow>
    ('k \<Rightarrow> 't \<Rightarrow> ('t \<times> 'v option) option) \<Rightarrow> ('k, 'v) map_op list \<Rightarrow> 't \<Rightarrow> ('t \<times> 'v map_out list) option" where
  "run_ops get put rem [] t = Some (t, [])"
| "run_ops get put rem (Op_get k # ops) t =
     (case get t k of None \<Rightarrow> None
      | Some r \<Rightarrow> map_option (\<lambda>(t', os). (t', Out_value r # os)) (run_ops get put rem ops t))"
| "run_ops get put rem (Op_put k v # ops) t =
     (case put k v t of None \<Rightarrow> None
      | Some (Inl e) \<Rightarrow> map_option (\<lambda>(t', os). (t', Out_refused e # os)) (run_ops get put rem ops t)
      | Some (Inr t1) \<Rightarrow> map_option (\<lambda>(t', os). (t', Out_done # os)) (run_ops get put rem ops t1))"
| "run_ops get put rem (Op_remove k # ops) t =
     (case rem k t of None \<Rightarrow> None
      | Some (t1, r) \<Rightarrow> map_option (\<lambda>(t', os). (t', Out_value r # os)) (run_ops get put rem ops t1))"

text \<open>The abstract machine, told which puts were refused by the outputs it must explain.\<close>

fun spec_ops :: "('k, 'v) map_op list \<Rightarrow> 'v map_out list \<Rightarrow> ('k \<rightharpoonup> 'v) \<Rightarrow> ('k \<rightharpoonup> 'v) option" where
  "spec_ops [] [] m = Some m"
| "spec_ops (Op_get k # ops) (Out_value r # os) m = (if r = m k then spec_ops ops os m else None)"
| "spec_ops (Op_put k v # ops) (Out_done # os) m = spec_ops ops os (m(k \<mapsto> v))"
| "spec_ops (Op_put k v # ops) (Out_refused e # os) m = (if m k = None then spec_ops ops os m else None)"
| "spec_ops (Op_remove k # ops) (Out_value r # os) m = (if r = m k then spec_ops ops os (m(k := None)) else None)"
| "spec_ops _ _ m = None"

section \<open>The interface\<close>

locale keyed_map =
  fixes inv :: "'t \<Rightarrow> bool"
    and abs :: "'t \<Rightarrow> ('k \<rightharpoonup> 'v)"
    and refuses :: "'t \<Rightarrow> 'k \<Rightarrow> bool"
    and get :: "'t \<Rightarrow> 'k \<Rightarrow> 'v option option"
    and put :: "'k \<Rightarrow> 'v \<Rightarrow> 't \<Rightarrow> 't result option"
    and rem :: "'k \<Rightarrow> 't \<Rightarrow> ('t \<times> 'v option) option"
  assumes get_law: "inv t \<Longrightarrow> get t k = Some (abs t k)"
    and put_law: "inv t \<Longrightarrow> \<not> refuses t k \<Longrightarrow>
      \<exists>t'. put k v t = Some (Inr t') \<and> inv t' \<and> abs t' = (abs t)(k \<mapsto> v)"
    and put_refused: "inv t \<Longrightarrow> refuses t k \<Longrightarrow> abs t k = None \<and> (\<exists>e. put k v t = Some (Inl e))"
    and rem_law: "inv t \<Longrightarrow> \<exists>t'. rem k t = Some (t', abs t k) \<and> inv t' \<and> abs t' = (abs t)(k := None)"
begin

lemma present_never_refused: "inv t \<Longrightarrow> abs t k \<noteq> None \<Longrightarrow> \<not> refuses t k"
  using put_refused by metis

lemma get_put_same: "inv t \<Longrightarrow> put k v t = Some (Inr t') \<Longrightarrow> get t' k = Some (Some v)"
  using put_law [of t k v] put_refused [of t k v] get_law by fastforce

lemma get_put_other: "inv t \<Longrightarrow> put k v t = Some (Inr t') \<Longrightarrow> j \<noteq> k \<Longrightarrow> get t' j = get t j"
  using put_law [of t k v] put_refused [of t k v] get_law by fastforce

lemma run_refines:
  assumes "inv t"
  shows "\<exists>t' os. run_ops get put rem ops t = Some (t', os) \<and> inv t' \<and> spec_ops ops os (abs t) = Some (abs t')"
  using assms
proof (induction ops arbitrary: t)
  case (Cons opn ops)
  show ?case
  proof (cases opn)
    case (Op_get k)
    with Cons get_law show ?thesis by fastforce
  next
    case (Op_put k v)
    show ?thesis
    proof (cases "refuses t k")
      case True
      with Cons.prems put_refused [of t k v] obtain e where "put k v t = Some (Inl e)" "abs t k = None" by blast
      moreover obtain t' os where "run_ops get put rem ops t = Some (t', os)" "inv t'"
        "spec_ops ops os (abs t) = Some (abs t')" using Cons by blast
      ultimately show ?thesis using Op_put by simp
    next
      case False
      with Cons.prems put_law obtain t1 where t1: "put k v t = Some (Inr t1)" "inv t1" "abs t1 = (abs t)(k \<mapsto> v)"
        by blast
      moreover obtain t' os where "run_ops get put rem ops t1 = Some (t', os)" "inv t'"
        "spec_ops ops os (abs t1) = Some (abs t')" using Cons.IH t1(2) by blast
      ultimately show ?thesis using Op_put by simp
    qed
  next
    case (Op_remove k)
    obtain t1 where t1: "rem k t = Some (t1, abs t k)" "inv t1" "abs t1 = (abs t)(k := None)"
      using Cons.prems rem_law by blast
    moreover obtain t' os where "run_ops get put rem ops t1 = Some (t', os)" "inv t'"
      "spec_ops ops os (abs t1) = Some (abs t')" using Cons.IH t1(2) by blast
    ultimately show ?thesis using Op_remove by simp
  qed
qed simp

end

end
