(* ===== verification/Scatter_Props.thy ===== *)
theory Scatter_Props
  imports Scatter_Api Keyed_Map
begin

text \<open>
  The interpretation of the keyed-map interface by the scatter table, the iterator's
  traversal, and the properties of the table.
\<close>

section \<open>The keyed-map interface\<close>

interpretation cst: keyed_map "cst_inv P" cst_map "put_fails P" "cst_get P" "cst_put P" "\<lambda>k t. cst_remove_and_get P k t"
  for P :: "'k cst_traits"
proof
  fix t :: "('k, 'v) cst" and k v
  assume inv: "cst_inv P t"
  show "cst_get P t k = Some (cst_map t k)" by (rule cst_get_correct [OF inv])
  show "\<exists>t'. cst_put P k v t = Some (Inr t') \<and> cst_inv P t' \<and> cst_map t' = (cst_map t)(k \<mapsto> v)"
    if "\<not> put_fails P t k"
    using cst_put_ok [OF inv that] by metis
  show "cst_map t k = None \<and> (\<exists>e. cst_put P k v t = Some (Inl e))" if "put_fails P t k"
    using cst_put_error [OF inv that] that by (auto simp: put_fails_def)
  show "\<exists>t'. cst_remove_and_get P k t = Some (t', cst_map t k) \<and> cst_inv P t' \<and> cst_map t' = (cst_map t)(k := None)"
  proof (cases "cst_map t k")
    case None
    then have "(cst_map t)(k := None) = cst_map t" by auto
    with None remove_impl_absent [OF inv None] inv show ?thesis by (auto simp: cst_remove_and_get_def)
  next
    case (Some v)
    with remove_impl_present [OF inv Some] show ?thesis by (auto simp: cst_remove_and_get_def remove_ok_def)
  qed
qed

section \<open>Iteration\<close>

lemma iter_scan_next:
  assumes "slot_entries (drop (Suc i) bs) \<noteq> []" "\<forall>s\<in>set (drop (Suc i) bs). slot_ok s"
  obtains j k v where "iter_scan bs i = Some j" "i < j" "j < length bs" "s_body (bs ! j) = Entry k v"
    "slot_entries (drop (Suc i) bs) = (k, v) # slot_entries (drop (Suc j) bs)"
  using assms
proof (induction bs i arbitrary: thesis rule: iter_scan.induct)
  case (1 bs i)
  show ?case
  proof (cases "length bs \<le> i + 1")
    case True
    with "1.prems"(2) show ?thesis by (simp add: slot_entries_def)
  next
    case False
    then have d: "drop (Suc i) bs = bs ! Suc i # drop (Suc (Suc i)) bs" by (simp add: Cons_nth_drop_Suc)
    show ?thesis
    proof (cases "0 \<le> s_next (bs ! Suc i)")
      case True
      with "1.prems"(3) d obtain k v where "s_body (bs ! Suc i) = Entry k v" by (auto simp: slot_ok_def)
      with True False d show ?thesis
        by (intro "1.prems"(1) [of "Suc i" k v]) (auto simp: iter_scan.simps [of bs i] slot_entries_Cons)
    next
      case neg: False
      then have e: "slot_entries (drop (Suc i) bs) = slot_entries (drop (Suc (Suc i)) bs)"
        unfolding d by (simp add: slot_entries_Cons)
      obtain j k v where "iter_scan bs (i + 1) = Some j" "i + 1 < j" "j < length bs" "s_body (bs ! j) = Entry k v"
        "slot_entries (drop (Suc (i + 1)) bs) = (k, v) # slot_entries (drop (Suc j) bs)"
        by (rule "1.IH" [OF False]) (use neg "1.prems"(2,3) e d in auto)
      with e neg False show ?thesis
        by (intro "1.prems"(1) [of j k v]) (auto simp: iter_scan.simps [of bs i])
    qed
  qed
qed

lemma iter_collect_entries:
  assumes "\<forall>s\<in>set (drop (Suc i) (m_buckets t)). slot_ok s"
    and "c + length (slot_entries (drop (Suc i) (m_buckets t))) = m_size t"
    and "length (slot_entries (drop (Suc i) (m_buckets t))) < fuel"
  shows "\<exists>it. iter_increment t \<lparr>i_slot = i, i_count = c\<rparr> = Some it \<and>
    iter_collect fuel t it \<lparr>i_slot = 0, i_count = m_size t + 1\<rparr> =
      Some (slot_entries (drop (Suc i) (m_buckets t)))"
  using assms
proof (induction "length (slot_entries (drop (Suc i) (m_buckets t)))" arbitrary: i c fuel)
  case 0
  then obtain f where "fuel = Suc f" by (cases fuel) auto
  with 0 show ?case
    by (simp add: iter_increment_def iter_is_end_def iter_equal_def)
next
  case (Suc n)
  obtain j k v where j: "iter_scan (m_buckets t) i = Some j" "i < j" "j < length (m_buckets t)"
    "s_body (m_buckets t ! j) = Entry k v"
    "slot_entries (drop (Suc i) (m_buckets t)) = (k, v) # slot_entries (drop (Suc j) (m_buckets t))"
    using Suc.hyps(2) Suc.prems(1) by (elim iter_scan_next [rotated]) auto
  have "drop (Suc j) (m_buckets t) = drop (j - i) (drop (Suc i) (m_buckets t))" using j(2) by simp
  then have ok: "\<forall>s\<in>set (drop (Suc j) (m_buckets t)). slot_ok s"
    using Suc.prems(1) by (metis in_set_dropD)
  obtain f where f: "fuel = Suc f" using Suc.prems(3) by (cases fuel) auto
  have "\<exists>it. iter_increment t \<lparr>i_slot = j, i_count = Suc c\<rparr> = Some it \<and>
    iter_collect f t it \<lparr>i_slot = 0, i_count = m_size t + 1\<rparr> = Some (slot_entries (drop (Suc j) (m_buckets t)))"
    by (rule Suc.hyps(1)) (use Suc.hyps(2) Suc.prems j ok f in auto)
  then obtain it where it: "iter_increment t \<lparr>i_slot = j, i_count = Suc c\<rparr> = Some it"
    "iter_collect f t it \<lparr>i_slot = 0, i_count = m_size t + 1\<rparr> = Some (slot_entries (drop (Suc j) (m_buckets t)))" by blast
  have c: "Suc c \<le> m_size t" using Suc.prems(2) j(5) by simp
  then have "iter_increment t \<lparr>i_slot = i, i_count = c\<rparr> = Some \<lparr>i_slot = j, i_count = Suc c\<rparr>"
    using j(1) by (simp add: iter_increment_def iter_is_end_def)
  with it c f j(4,5) show ?case
    by (simp add: iter_equal_def iter_is_end_def iter_dereference_def)
qed

lemma cst_iteration:
  assumes inv: "cst_inv P t" and fuel: "m_size t < fuel"
  obtains it last_it where "cst_begin t = Some it" "cst_end t = Some last_it"
    "iter_collect fuel t it last_it = Some (cst_entries t)"
proof -
  obtain chs fl where R: "cst_rep P t chs fl" using inv by (auto simp: cst_inv_def)
  have tl: "tl (m_buckets t) = drop (Suc 0) (m_buckets t)" by (simp add: drop_Suc)
  note ent = cst_entries_distinct(1) [OF R, unfolded cst_entries_slots tl]
  have "\<exists>it. iter_increment t \<lparr>i_slot = 0, i_count = 0\<rparr> = Some it \<and>
    iter_collect fuel t it \<lparr>i_slot = 0, i_count = m_size t + 1\<rparr> = Some (slot_entries (drop (Suc 0) (m_buckets t)))"
    by (rule iter_collect_entries) (use cst_slots_ok [OF R] ent fuel in \<open>auto simp: tl\<close>)
  moreover have "cst_end t = Some \<lparr>i_slot = 0, i_count = m_size t + 1\<rparr>"
    by (simp add: cst_end_def iter_new_def iter_increment_def iter_is_end_def)
  ultimately show ?thesis
    using that by (auto simp: cst_begin_def iter_new_def cst_entries_slots tl)
qed

section \<open>The range of the links\<close>

lemma rep_link_range:
  assumes R: "cst_rep P t chs fl" and i: "i \<le> capacity t"
  shows "- int (capacity t) - 1 \<le> nx (m_buckets t) i \<and> nx (m_buckets t) i \<le> int (capacity t)"
    and "bd (m_buckets t) i = Free_prev p \<Longrightarrow> 0 \<le> p \<and> p \<le> int (capacity t)"
proof -
  let ?N = "nx (m_buckets t)" and ?B = "bd (m_buckets t)" and ?n = "capacity t"
  have r: "rep (haddr P (m_capacity_mask t)) ?n (m_size t) ?N ?B chs fl" using R by (simp add: cst_rep_def)
  have fr: "j \<le> ?n" if "j \<in> set (0 # fl)" for j using that rep_fl_iff [OF r, of j] by auto
  have hdr: "hd (f @ [0]) \<le> ?n" if "set f \<subseteq> set fl" for f using that fr by (cases f) auto
  consider "i = 0" | "i \<in> set fl" | k v where "contents t i = Some (k, v)"
    using i rep_fl_iff [OF r, of i] by (cases "contents t i") (auto simp: Suc_le_eq)
  then have "(- int ?n - 1 \<le> ?N i \<and> ?N i \<le> int ?n) \<and> (?B i = Free_prev p \<longrightarrow> 0 \<le> p \<and> p \<le> int ?n)"
  proof cases
    case 1
    have "successively (free_adj ?N ?B) ((0 # fl) @ [0])" using rep_free [OF r] by (simp add: free_list_def)
    then have "?B 0 = Free_prev (int (last (0 # fl)))" unfolding successively_append_iff by (simp add: free_adj_def)
    moreover have "last (0 # fl) \<le> ?n" by (rule fr) (metis last_in_set list.distinct(1))
    ultimately show ?thesis using 1 free_list_head [OF rep_free [OF r]] hdr [of fl] by auto
  next
    case 2
    then obtain f1 f2 where f: "fl = f1 @ i # f2" by (auto simp: in_set_conv_decomp)
    have "last (0 # f1) \<le> ?n" by (rule fr) (use f last_in_or [of 0 f1] in \<open>auto simp del: last.simps last_in_or\<close>)
    moreover have "hd (f2 @ [0]) \<le> ?n" by (rule hdr) (use f in auto)
    ultimately show ?thesis using free_list_next [OF rep_free [OF r, unfolded f]] by auto
  next
    case 3
    let ?c = "chs (haddr P (m_capacity_mask t) k)"
    have "i \<in> set ?c" using rep_home [OF r] 3 by auto
    then obtain c1 c2 where c: "?c = c1 @ i # c2" by (auto simp: in_set_conv_decomp)
    have "\<And>j. j \<in> set c2 \<Longrightarrow> j \<le> ?n" using rep_occupied(1) [OF r, of _ "haddr P (m_capacity_mask t) k"] c by auto
    then have "0 \<le> ?N i \<and> ?N i \<le> int ?n"
      using chain_next [of ?N c1 i c2] rep_chain [OF r, of "haddr P (m_capacity_mask t) k"] c by (cases c2) auto
    then show ?thesis using 3 by (auto simp: content_Some_iff)
  qed
  then show "- int ?n - 1 \<le> ?N i \<and> ?N i \<le> int ?n" "?B i = Free_prev p \<Longrightarrow> 0 \<le> p \<and> p \<le> int ?n" by auto
qed

lemma max_capacity_fits:
  assumes "3 \<le> t_link_bits P" "t_link_bits P \<le> 64"
  shows "max_capacity P + 2 \<le> 2 ^ (t_link_bits P - 1)"
proof -
  define x :: nat where "x = 2 ^ (t_link_bits P - 1) - 2"
  have p: "(2::nat) ^ 2 \<le> 2 ^ (t_link_bits P - 1)" by (rule power_increasing) (use assms in auto)
  have "(2::nat) ^ (t_link_bits P - 1) \<le> 2 ^ 63" by (rule power_increasing) (use assms in auto)
  then have "0 < x" "x < 2 ^ 64" using p by (auto simp: x_def)
  from lzcnt_bounds [OF this] have "max_capacity P \<le> x" by (simp add: max_capacity_def x_def)
  with p show ?thesis by (simp add: x_def)
qed

section \<open>A concrete table\<close>

definition demo_traits :: "nat cst_traits" where
  "demo_traits = \<lparr>t_hash = of_nat, t_fixed = False, t_link_bits = 16\<rparr>"

definition demo_table :: "(nat, nat) cst" where
  "demo_table = \<lparr>m_size = 0, m_capacity_mask = 1, m_buckets =
     [\<lparr>s_next = - 2, s_body = Free_prev 2\<rparr>, \<lparr>s_next = - 3, s_body = Free_prev 0\<rparr>,
      \<lparr>s_next = - 1, s_body = Free_prev 1\<rparr>]\<rparr>"

lemma demo_max: "max_capacity demo_traits = 16384"
  using lzcnt_eq [of 14 32766 64] by (simp add: max_capacity_def demo_traits_def)

lemma demo_new: "cst_new demo_traits 2 = Inr demo_table"
proof -
  have "log2_ceil 32 2 = Inr 1" using lzcnt_eq [of 0 1 32] by (simp add: log2_ceil_def log2_floor_def)
  then show ?thesis
    by (simp add: cst_new_def demo_max allocate_capacity_def demo_table_def set_next_def set_prev_def
        upt_conv_Cons eval_nat_numeral)
qed

lemma demo_inv: "cst_inv demo_traits demo_table" and demo_map: "cst_map demo_table = Map.empty"
  and demo_size: "m_size demo_table = 0" and demo_capacity: "capacity demo_table = 2"
proof -
  obtain t :: "(nat, nat) cst" where "cst_new demo_traits 2 = Inr t" "cst_inv demo_traits t" "cst_map t = Map.empty"
    by (rule cst_new_spec [of 2 demo_traits]) (auto simp: demo_max)
  then show "cst_inv demo_traits demo_table" "cst_map demo_table = Map.empty" by (simp_all add: demo_new)
qed (simp_all add: demo_table_def capacity_def)

text \<open>The same table with one entry.\<close>

lemma demo_one:
  obtains t where "cst_put demo_traits 5 50 demo_table = Some (Inr t)" "cst_inv demo_traits t"
    "cst_map t = [5 \<mapsto> 50]" "capacity t = 2"
proof -
  have "\<not> put_fails demo_traits demo_table 5" by (simp add: put_fails_def demo_size demo_capacity)
  from cst_put_ok [OF demo_inv this, of 50] obtain t where
    "cst_put demo_traits 5 50 demo_table = Some (Inr t)" "cst_inv demo_traits t"
    "cst_map t = (cst_map demo_table)(5 \<mapsto> 50)" "capacity t = 2"
    by (auto simp: demo_size demo_capacity)
  with that show ?thesis by (simp add: demo_map)
qed

lemma distinct_singleton: "set xs = {x} \<Longrightarrow> distinct xs \<Longrightarrow> xs = [x]"
  by (cases xs) (auto simp: subset_singleton_iff)

section \<open>Properties\<close>

text \<open>
  C1: a program of lookups, insertions and removals on the table always returns, keeps the
  invariant, and its outputs are those of the same program on a finite map, where only an
  insertion of an absent key may be refused.
\<close>

theorem cst_program_refines:
  assumes "cst_inv P t"
  shows "\<exists>t' os. run_ops (cst_get P) (cst_put P) (\<lambda>k t. cst_remove_and_get P k t) ops t = Some (t', os) \<and>
    cst_inv P t' \<and> spec_ops ops os (cst_map t) = Some (cst_map t')"
  by (rule cst.run_refines [OF assms])

lemma cst_program_refines_witness:
  "\<exists>t' os. run_ops (cst_get demo_traits) (cst_put demo_traits) (\<lambda>k t. cst_remove_and_get demo_traits k t)
      [Op_put 5 50, Op_put 7 70, Op_remove 5, Op_get 7] demo_table = Some (t', os) \<and>
    cst_inv demo_traits t' \<and>
    spec_ops [Op_put 5 50, Op_put 7 70, Op_remove 5, Op_get 7] os (cst_map demo_table) = Some (cst_map t')"
  by (rule cst_program_refines [OF demo_inv])

text \<open>
  C2: \<open>put\<close> always returns. It throws exactly when the key is absent, all slots are used and the
  table is of fixed capacity (\<open>capacity_limit\<close>) or cannot double its capacity within the link
  type (\<open>invalid_input\<close>); otherwise it adds or overwrites that key alone, and the capacity
  doubles exactly when an absent key meets a full table.
\<close>

theorem cst_put_exact:
  assumes "cst_inv P t"
  shows "if cst_map t key = None \<and> m_size t = capacity t \<and> t_fixed P then
      cst_put P key v t = Some (Inl Capacity_limit)
    else if cst_map t key = None \<and> m_size t = capacity t \<and> max_capacity P < 2 * capacity t then
      cst_put P key v t = Some (Inl Invalid_input)
    else \<exists>t'. cst_put P key v t = Some (Inr t') \<and> cst_inv P t' \<and> cst_map t' = (cst_map t)(key \<mapsto> v) \<and>
      capacity t' = (if cst_map t key = None \<and> m_size t = capacity t then 2 * capacity t else capacity t)"
proof (cases "put_fails P t key")
  case True
  with cst_put_error [OF assms True] show ?thesis by (auto simp: put_fails_def)
next
  case False
  obtain t' where "cst_put P key v t = Some (Inr t')" "cst_inv P t'" "cst_map t' = (cst_map t)(key \<mapsto> v)"
    "capacity t' = (if cst_map t key = None \<and> m_size t = capacity t then 2 * capacity t else capacity t)"
    using cst_put_ok [OF assms False] by metis
  moreover have "\<not> (cst_map t key = None \<and> m_size t = capacity t \<and> t_fixed P)"
    "\<not> (cst_map t key = None \<and> m_size t = capacity t \<and> max_capacity P < 2 * capacity t)"
    using False by (auto simp: put_fails_def)
  ultimately show ?thesis by (simp only: if_False) blast
qed

lemma cst_put_exact_witness:
  "\<exists>t'. cst_put demo_traits 5 50 demo_table = Some (Inr t') \<and> cst_map t' = [5 \<mapsto> 50] \<and> capacity t' = 2"
  using cst_put_exact [OF demo_inv, of 5 50] by (auto simp: demo_size demo_capacity demo_map)

text \<open>
  C7: \<open>remove\<close> always returns, answers whether the key was present, and deletes that key alone;
  the table's size is then the number of keys left and its capacity is unchanged.
\<close>

theorem cst_remove_exact:
  assumes "cst_inv P t"
  shows "\<exists>t'. cst_remove P key t = Some (t', key \<in> dom (cst_map t)) \<and> cst_inv P t' \<and>
    cst_map t' = (cst_map t)(key := None) \<and> capacity t' = capacity t \<and> m_size t' = card (dom (cst_map t) - {key})"
proof (cases "cst_map t key")
  case None
  then have "(cst_map t)(key := None) = cst_map t" "dom (cst_map t) - {key} = dom (cst_map t)" by auto
  with None remove_impl_absent [OF assms None] assms cst_size(1) show ?thesis
    by (auto simp: cst_remove_def cst_inv_def)
next
  case (Some v)
  obtain t' where t': "remove_impl P key t = Some (t', Some v)" "cst_inv P t'"
    "cst_map t' = (cst_map t)(key := None)" "capacity t' = capacity t"
    using remove_impl_present [OF assms Some] by (auto simp: remove_ok_def)
  from t'(2) have "m_size t' = card (dom (cst_map t'))" using cst_size(1) by (auto simp: cst_inv_def)
  with t' Some show ?thesis by (auto simp: cst_remove_def)
qed

lemma cst_remove_exact_witness:
  "\<exists>t t'. cst_put demo_traits 5 50 demo_table = Some (Inr t) \<and> cst_remove demo_traits 5 t = Some (t', True) \<and>
     cst_map t' = Map.empty \<and> m_size t' = 0"
proof (rule demo_one)
  fix t assume t: "cst_put demo_traits 5 50 demo_table = Some (Inr t)" "cst_inv demo_traits t" "cst_map t = [5 \<mapsto> 50]"
  from cst_remove_exact [OF t(2), of 5] t show ?thesis by auto
qed

text \<open>
  The constructor refuses a capacity below 1 (\<open>check_failure\<close>) and one above what the link
  type can index (\<open>invalid_input\<close>); otherwise the table is empty and its capacity is the least
  power of two that reaches the request.
\<close>

theorem cst_new_exact:
  fixes r :: "('k, 'v) cst result"
  assumes "n \<le> 2 ^ 31" "r = cst_new P n"
  shows "if n \<le> 0 then r = Inl Check_failure
    else if int (max_capacity P) < n then r = Inl Invalid_input
    else \<exists>t p. r = Inr t \<and> cst_inv P t \<and> cst_map t = Map.empty \<and> capacity t = 2 ^ p \<and>
      n \<le> int (capacity t) \<and> (\<forall>q. n \<le> 2 ^ q \<longrightarrow> capacity t \<le> 2 ^ q)"
proof (cases "n \<le> 0 \<or> int (max_capacity P) < n")
  case True
  with assms cst_new_errors(1) [of n P] cst_new_errors(2) [of P n] show ?thesis by auto
next
  case False
  then have n: "1 \<le> n" "n \<le> int (max_capacity P)" by auto
  obtain t :: "('k, 'v) cst" where t: "cst_new P n = Inr t" "cst_inv P t" "cst_map t = Map.empty"
    "n \<le> int (capacity t)" "\<And>q. n \<le> 2 ^ q \<Longrightarrow> capacity t \<le> 2 ^ q"
    using cst_new_spec [OF n assms(1)] by metis
  obtain p where "capacity t = 2 ^ p" using t(2) by (auto simp: cst_inv_def cst_rep_def)
  with t False assms(2) show ?thesis by auto
qed

lemma cst_new_exact_witness:
  "\<exists>t :: (nat, nat) cst. cst_new demo_traits 2 = Inr t \<and> capacity t = 2"
  using cst_new_exact [of 2 "cst_new demo_traits 2 :: (nat, nat) cst result" demo_traits] by (auto simp: demo_max demo_new demo_capacity)

text \<open>
  \<open>rehash\<close> to any count from the current size up to the link type's limit returns, keeps the
  map, and leaves the least power-of-two capacity that reaches the count.
\<close>

theorem cst_rehash_correct:
  assumes "cst_inv P t" "1 \<le> count" "int (m_size t) \<le> count" "count \<le> int (max_capacity P)"
    and "t_link_bits P \<le> 32"
  shows "\<exists>t'. cst_rehash P count t = Some (Inr t') \<and> cst_inv P t' \<and> cst_map t' = cst_map t \<and>
    m_size t' = m_size t \<and> count \<le> int (capacity t') \<and> (\<forall>q. count \<le> 2 ^ q \<longrightarrow> capacity t' \<le> 2 ^ q)"
proof (rule cst_rehash_ok [OF assms])
  fix t' assume t': "cst_rehash P count t = Some (Inr t')" "cst_inv P t'" "cst_map t' = cst_map t"
    "count \<le> int (capacity t')" "\<And>q. count \<le> 2 ^ q \<Longrightarrow> capacity t' \<le> 2 ^ q"
  have "m_size t' = m_size t" using t'(2,3) assms(1) cst_size(1) by (metis cst_inv_def)
  with t' show ?thesis by blast
qed

lemma cst_rehash_correct_witness:
  "\<exists>t t'. cst_put demo_traits 5 50 demo_table = Some (Inr t) \<and> cst_rehash demo_traits 100 t = Some (Inr t') \<and>
     cst_map t' = [5 \<mapsto> 50] \<and> 100 \<le> capacity t' \<and> capacity t' \<le> 128"
proof (rule demo_one)
  fix t assume t: "cst_put demo_traits 5 50 demo_table = Some (Inr t)" "cst_inv demo_traits t" "cst_map t = [5 \<mapsto> 50]"
  have "m_size t = 1" using t(2,3) cst_size(1) by (fastforce simp: cst_inv_def)
  then have "\<exists>t'. cst_rehash demo_traits 100 t = Some (Inr t') \<and> cst_inv demo_traits t' \<and> cst_map t' = cst_map t \<and>
    m_size t' = m_size t \<and> 100 \<le> int (capacity t') \<and> (\<forall>q. (100::int) \<le> 2 ^ q \<longrightarrow> capacity t' \<le> 2 ^ q)"
    by (intro cst_rehash_correct [OF t(2)]) (simp_all add: demo_max, simp add: demo_traits_def)
  then obtain t' where t': "cst_rehash demo_traits 100 t = Some (Inr t')" "cst_map t' = cst_map t"
    "100 \<le> int (capacity t')" "\<And>q. (100::int) \<le> 2 ^ q \<Longrightarrow> capacity t' \<le> 2 ^ q" by blast
  from t'(4) [of 7] t'(1-3) t show ?thesis by auto
qed

text \<open>
  C8: a range-for loop over the table visits every entry of the map exactly once and stops.
\<close>

theorem cst_iteration_exact:
  assumes "cst_inv P t"
  shows "\<exists>it last_it es. cst_begin t = Some it \<and> cst_end t = Some last_it \<and>
    iter_collect (m_size t + 1) t it last_it = Some es \<and> distinct (map fst es) \<and> map_of es = cst_map t"
proof -
  obtain it last_it where "cst_begin t = Some it" "cst_end t = Some last_it"
    "iter_collect (m_size t + 1) t it last_it = Some (cst_entries t)"
    using cst_iteration [OF assms, of "m_size t + 1"] by auto
  moreover have "distinct (map fst (cst_entries t))"
    using assms cst_entries_distinct(2) by (auto simp: cst_inv_def)
  ultimately show ?thesis by (auto simp: cst_map_def)
qed

lemma cst_iteration_exact_witness:
  "\<exists>t it last_it. cst_put demo_traits 5 50 demo_table = Some (Inr t) \<and> cst_begin t = Some it \<and>
     cst_end t = Some last_it \<and> iter_collect (m_size t + 1) t it last_it = Some [(5, 50)]"
proof (rule demo_one)
  fix t assume t: "cst_put demo_traits 5 50 demo_table = Some (Inr t)" "cst_inv demo_traits t" "cst_map t = [5 \<mapsto> 50]"
  from cst_iteration_exact [OF t(2)] obtain it last_it es where
    it: "cst_begin t = Some it" "cst_end t = Some last_it" "iter_collect (m_size t + 1) t it last_it = Some es"
      "distinct (map fst es)" "map_of es = cst_map t" by blast
  have "(k, v) \<in> set es \<longleftrightarrow> k = 5 \<and> v = 50" for k v
    unfolding map_of_eq_Some_iff [OF it(4), symmetric] it(5) t(3) by auto
  then have "set es = {(5, 50)}" by auto
  moreover have "distinct es" using it(4) by (simp add: distinct_map)
  ultimately have "es = [(5, 50)]" by (rule distinct_singleton)
  with it(1-3) t(1) show ?thesis by blast
qed

text \<open>
  Every link of the bucket array lies in the range the layout comment states, from
  \<open>- capacity - 1\<close> to \<open>capacity\<close>, so it fits the signed link type the table was built with.
\<close>

theorem cst_links_in_range:
  assumes "cst_inv P t" "3 \<le> t_link_bits P" "t_link_bits P \<le> 32" "s \<in> set (m_buckets t)"
  shows "- int (capacity t) - 1 \<le> s_next s \<and> s_next s \<le> int (capacity t) \<and>
    - (2 ^ (t_link_bits P - 1)) \<le> s_next s \<and> s_next s < 2 ^ (t_link_bits P - 1) \<and>
    (case s_body s of Free_prev p \<Rightarrow> 0 \<le> p \<and> p < 2 ^ (t_link_bits P - 1) | Entry _ _ \<Rightarrow> True)"
proof -
  obtain chs fl where R: "cst_rep P t chs fl" using assms(1) by (auto simp: cst_inv_def)
  then have len: "length (m_buckets t) = capacity t + 1" "capacity t \<le> max_capacity P" by (auto simp: cst_rep_def)
  obtain i where i: "i \<le> capacity t" "s = m_buckets t ! i"
    using assms(4) len(1) by (auto simp: in_set_conv_nth less_Suc_eq_le)
  have "capacity t + 2 \<le> 2 ^ (t_link_bits P - 1)"
    using max_capacity_fits [of P] assms(2,3) len(2) by simp
  then have "int (capacity t + 2) \<le> int (2 ^ (t_link_bits P - 1))" by (simp only: of_nat_le_iff)
  then have "int (capacity t) + 2 \<le> 2 ^ (t_link_bits P - 1)" by simp
  with rep_link_range [OF R i(1)] i(2) show ?thesis
    by (fastforce simp: nx_def bd_def split: body.splits)
qed

lemma cst_links_in_range_witness:
  "- 3 \<le> s_next (m_buckets demo_table ! 1) \<and> s_next (m_buckets demo_table ! 1) \<le> 2"
proof -
  have "m_buckets demo_table ! 1 \<in> set (m_buckets demo_table)" by (simp add: demo_table_def)
  from cst_links_in_range [OF demo_inv _ _ this] show ?thesis by (simp add: demo_traits_def demo_capacity)
qed

text \<open>
  C6: the fuel of \<open>cst_put\<close> is enough: more of it never changes what \<open>put\<close> returns, so a put
  rehashes at most once and the re-insertions of that rehash never rehash again.
\<close>

theorem cst_put_fuel_enough:
  assumes "cst_inv P t"
  shows "cst_put P key v t \<noteq> None \<and> cst_put_n (n + 2) P key v t = cst_put P key v t"
proof -
  obtain r where r: "cst_put P key v t = Some r"
  proof (cases "put_fails P t key")
    case True
    with that cst_put_error [OF assms] show ?thesis by metis
  next
    case False
    with that cst_put_ok [OF assms] show ?thesis by metis
  qed
  have "cst_put_n (n + 2) P key v t = Some r"
  proof (induction n)
    case 0
    with r show ?case by (simp add: cst_put_2 numeral_2_eq_2)
  next
    case (Suc n)
    then show ?case using cst_put_n_mono by (metis add_Suc)
  qed
  with r show ?thesis by simp
qed

lemma cst_put_fuel_enough_witness:
  "cst_put_n 7 demo_traits 5 50 demo_table = cst_put demo_traits 5 50 demo_table"
  using cst_put_fuel_enough [OF demo_inv, of 5 50 5] by simp

end
