(* ===== verification/Object_Pool.thy ===== *)
theory Object_Pool
  imports Vrt_Prelude
begin

text \<open>
  The object pools of \<^verbatim>\<open>vr/util/object_pools.h\<close> and \<^verbatim>\<open>object_pools.cpp\<close>: slots of a fixed
  size in power-of-two chunks, addressed by short references, with the free slots linked
  into a stack through their own storage. The theory models \<open>fixed_size_allocator\<close> and
  \<open>object_pool\<close> and proves that live objects keep their references and contents while others
  come and go, that a released slot is the next one handed out, and that the pool's
  destructor destroys exactly the live objects.
\<close>

section \<open>Data\<close>

text \<open>
  The storage of a slot: untouched bytes, the link of a free slot, or a seated object.
  \<open>o_shift\<close> is \<open>chunk_index_shift\<close>, \<open>o_max\<close> the largest value of \<open>pointer_type\<close> and
  \<open>o_check_input\<close> the build's \<open>VR_CHECK_INPUT\<close>.
\<close>

datatype 'a cell = Raw | Free_link nat | Obj 'a

record pool_opts =
  o_shift :: nat
  o_max :: nat
  o_check_input :: bool

record 'a pool =
  m_chunks :: "'a cell list list"
  m_chunk_count :: nat
  m_free_list :: nat

definition chunk_capacity :: "pool_opts \<Rightarrow> nat" where
  "chunk_capacity Q = 2 ^ o_shift Q"

definition chunk_offset_mask :: "pool_opts \<Rightarrow> nat" where
  "chunk_offset_mask Q = chunk_capacity Q - 1"

definition null_ref :: "pool_opts \<Rightarrow> nat" where
  "null_ref Q = o_max Q"

definition pool_capacity :: "pool_opts \<Rightarrow> 'a pool \<Rightarrow> nat" where
  "pool_capacity Q p = m_chunk_count p * chunk_capacity Q"

section \<open>Storage\<close>

definition chunk_index :: "pool_opts \<Rightarrow> nat \<Rightarrow> nat" where
  "chunk_index Q ref = drop_bit (o_shift Q) ref"

definition chunk_offset :: "pool_opts \<Rightarrow> nat \<Rightarrow> nat" where
  "chunk_offset Q ref = and ref (chunk_offset_mask Q)"

definition cell_at :: "pool_opts \<Rightarrow> 'a pool \<Rightarrow> nat \<Rightarrow> 'a cell" where
  "cell_at Q p ref = m_chunks p ! chunk_index Q ref ! chunk_offset Q ref"

definition write_cell :: "pool_opts \<Rightarrow> nat \<Rightarrow> 'a cell \<Rightarrow> 'a pool \<Rightarrow> 'a pool" where
  "write_cell Q ref c p =
     p\<lparr>m_chunks := (m_chunks p)[chunk_index Q ref := (m_chunks p ! chunk_index Q ref)[chunk_offset Q ref := c]]\<rparr>"

section \<open>Construction\<close>

definition create :: "pool_opts \<Rightarrow> nat \<Rightarrow> 'a cell list list" where
  "create Q initial_capacity =
     replicate ((initial_capacity + chunk_capacity Q - 1) div chunk_capacity Q) (replicate (chunk_capacity Q) Raw)"

text \<open>The two nested loops that store \<open>++ ref\<close> into each slot in turn.\<close>

fun init_slots :: "'a cell list \<Rightarrow> nat \<Rightarrow> 'a cell list \<times> nat" where
  "init_slots [] ref = ([], ref)"
| "init_slots (_ # slots) ref =
     (let ref = ref + 1; (slots, r) = init_slots slots ref in (Free_link ref # slots, r))"

fun init_chunks :: "'a cell list list \<Rightarrow> nat \<Rightarrow> 'a cell list list" where
  "init_chunks [] ref = []"
| "init_chunks (c # cs) ref = (let (c, ref) = init_slots c ref in c # init_chunks cs ref)"

definition fixed_size_allocator :: "pool_opts \<Rightarrow> nat \<Rightarrow> 'a pool result" where
  "fixed_size_allocator Q initial_capacity =
     (let chunks = create Q initial_capacity; count = length chunks in
      if initial_capacity = 0 then Inl Check_failure
      else if count * chunk_capacity Q > o_max Q then Inl Check_failure
      else
        let p = \<lparr>m_chunks = init_chunks chunks 0, m_chunk_count = count, m_free_list = 0\<rparr>
        in Inr (write_cell Q (count * chunk_capacity Q - 1) (Free_link (null_ref Q)) p))"

section \<open>Dereferencing\<close>

text \<open>\<open>None\<close> is an access outside the chunk array.\<close>

definition dereference :: "pool_opts \<Rightarrow> bool \<Rightarrow> nat \<Rightarrow> 'a pool \<Rightarrow> 'a cell result option" where
  "dereference Q check_bounds ref p =
     (if check_bounds \<and> \<not> chunk_index Q ref < m_chunk_count p then Some (Inl Out_of_bounds)
      else if chunk_index Q ref < length (m_chunks p) then Some (Inr (cell_at Q p ref))
      else None)"

section \<open>Allocation and release of raw slots\<close>

definition allocate_chunk :: "pool_opts \<Rightarrow> 'a cell list list \<Rightarrow> 'a cell list list" where
  "allocate_chunk Q chunks = chunks @ [replicate (chunk_capacity Q) Raw]"

definition allocate_first_slot_of_new_chunk :: "pool_opts \<Rightarrow> 'a pool \<Rightarrow> (nat \<times> 'a pool) result" where
  "allocate_first_slot_of_new_chunk Q p =
     (let chunk_count = m_chunk_count p in
      if (chunk_count + 1) * chunk_capacity Q > o_max Q then Inl Check_failure
      else
        let chunks = allocate_chunk Q (m_chunks p);
            chunk = chunks ! chunk_count;
            first_ref = chunk_count * chunk_capacity Q;
            chunk = hd chunk # fst (init_slots (butlast (tl chunk)) (first_ref + 1)) @ [Free_link (null_ref Q)]
        in Inr (first_ref, \<lparr>m_chunks = chunks[chunk_count := chunk], m_chunk_count = chunk_count + 1,
                            m_free_list = first_ref + 1\<rparr>))"

text \<open>
  \<open>None\<close>: the head of the free list is a slot that is not free, whose object's bytes the
  C++ would take for a link.
\<close>

definition allocate :: "pool_opts \<Rightarrow> 'a pool \<Rightarrow> (nat \<times> 'a pool) result option" where
  "allocate Q p =
     (let first_ref = m_free_list p in
      if first_ref = null_ref Q then Some (allocate_first_slot_of_new_chunk Q p)
      else case dereference Q False first_ref p of
             Some (Inr (Free_link nxt)) \<Rightarrow> Some (Inr (first_ref, p\<lparr>m_free_list := nxt\<rparr>))
           | _ \<Rightarrow> None)"

definition release :: "pool_opts \<Rightarrow> nat \<Rightarrow> 'a pool \<Rightarrow> 'a pool result option" where
  "release Q ref p =
     (case dereference Q (o_check_input Q) ref p of
        None \<Rightarrow> None
      | Some (Inl err) \<Rightarrow> Some (Inl err)
      | Some (Inr _) \<Rightarrow> Some (Inr (write_cell Q ref (Free_link (m_free_list p)) (p\<lparr>m_free_list := ref\<rparr>))))"

text \<open>The loop that clears the bits of the free slots; \<open>None\<close> as above, or a cyclic free list.\<close>

partial_function (option) bitmap_walk :: "pool_opts \<Rightarrow> 'a pool \<Rightarrow> nat \<Rightarrow> bool list \<Rightarrow> bool list option" where
  "bitmap_walk Q p ref r =
     (if ref = null_ref Q then Some r
      else case dereference Q False ref p of
             Some (Inr (Free_link nxt)) \<Rightarrow> bitmap_walk Q p nxt (r[ref := False])
           | _ \<Rightarrow> None)"

declare bitmap_walk.simps [code]

definition allocation_bitmap :: "pool_opts \<Rightarrow> 'a pool \<Rightarrow> bool list option" where
  "allocation_bitmap Q p = bitmap_walk Q p (m_free_list p) (replicate (pool_capacity Q p) True)"

section \<open>Object pools\<close>

definition object_pool :: "pool_opts \<Rightarrow> nat \<Rightarrow> 'a pool result" where
  "object_pool Q initial_capacity = fixed_size_allocator Q initial_capacity"

definition pool_allocate :: "pool_opts \<Rightarrow> 'a \<Rightarrow> 'a pool \<Rightarrow> (nat \<times> 'a pool) result option" where
  "pool_allocate Q x p =
     (case allocate Q p of
        Some (Inr (ref, p')) \<Rightarrow> Some (Inr (ref, write_cell Q ref (Obj x) p'))
      | Some (Inl err) \<Rightarrow> Some (Inl err)
      | None \<Rightarrow> None)"

text \<open>\<open>destruct<T>\<close> runs the destructor of what must be a seated object before it relinks the slot.\<close>

definition pool_release :: "pool_opts \<Rightarrow> nat \<Rightarrow> 'a pool \<Rightarrow> ('a \<times> 'a pool) result option" where
  "pool_release Q ref p =
     (case dereference Q (o_check_input Q) ref p of
        Some (Inr (Obj x)) \<Rightarrow>
          Some (Inr (x, write_cell Q ref (Free_link (m_free_list p)) (p\<lparr>m_free_list := ref\<rparr>)))
      | Some (Inl err) \<Rightarrow> Some (Inl err)
      | _ \<Rightarrow> None)"

text \<open>
  The \<open>const\<close> overload checks bounds as its template argument says; the mutating overload
  goes through \<open>operator[]\<close> and so never does.
\<close>

definition pool_get :: "pool_opts \<Rightarrow> bool \<Rightarrow> nat \<Rightarrow> 'a pool \<Rightarrow> 'a result option" where
  "pool_get Q check_bounds ref p =
     (case dereference Q check_bounds ref p of
        Some (Inr (Obj x)) \<Rightarrow> Some (Inr x)
      | Some (Inl err) \<Rightarrow> Some (Inl err)
      | _ \<Rightarrow> None)"

definition pool_get_mut :: "pool_opts \<Rightarrow> bool \<Rightarrow> nat \<Rightarrow> 'a pool \<Rightarrow> 'a result option" where
  "pool_get_mut Q check_bounds ref p = pool_get Q False ref p"

text \<open>A mutation through a reference.\<close>

definition pool_modify :: "pool_opts \<Rightarrow> nat \<Rightarrow> ('a \<Rightarrow> 'a) \<Rightarrow> 'a pool \<Rightarrow> 'a pool option" where
  "pool_modify Q ref f p =
     (case pool_get_mut Q False ref p of
        Some (Inr x) \<Rightarrow> Some (write_cell Q ref (Obj (f x)) p)
      | _ \<Rightarrow> None)"

text \<open>The destructor: the objects destructed, in order.\<close>

definition pool_destructor :: "pool_opts \<Rightarrow> 'a pool \<Rightarrow> 'a list option" where
  "pool_destructor Q p =
     (case allocation_bitmap Q p of
        None \<Rightarrow> None
      | Some abm \<Rightarrow>
          those (map (\<lambda>ref. case pool_get Q False ref p of Some (Inr x) \<Rightarrow> Some x | _ \<Rightarrow> None)
            (filter (\<lambda>ref. abm ! ref) [0..<length abm])))"

section \<open>Addressing\<close>

lemma chunk_index_div: "chunk_index Q ref = ref div chunk_capacity Q"
  by (simp add: chunk_index_def chunk_capacity_def drop_bit_eq_div)

lemma chunk_offset_mod: "chunk_offset Q ref = ref mod chunk_capacity Q"
  unfolding chunk_offset_def chunk_offset_mask_def chunk_capacity_def
    mask_eq_exp_minus_1 [symmetric] take_bit_eq_mask [symmetric] take_bit_eq_mod ..

lemma chunk_capacity_pos [simp]: "0 < chunk_capacity Q"
  by (simp add: chunk_capacity_def)

text \<open>The chunk array has its declared shape.\<close>

definition pool_shape :: "pool_opts \<Rightarrow> 'a pool \<Rightarrow> bool" where
  "pool_shape Q p \<longleftrightarrow> 1 \<le> o_shift Q \<and> length (m_chunks p) = m_chunk_count p \<and>
     (\<forall>c\<in>set (m_chunks p). length c = chunk_capacity Q) \<and>
     0 < m_chunk_count p \<and> pool_capacity Q p \<le> o_max Q"

lemma index_lt: "ref < pool_capacity Q p \<longleftrightarrow> chunk_index Q ref < m_chunk_count p"
  by (simp add: chunk_index_div pool_capacity_def div_less_iff_less_mult)

lemma offset_lt: "chunk_offset Q ref < chunk_capacity Q"
  by (simp add: chunk_offset_mod)

lemma ref_eqI: "chunk_index Q r = chunk_index Q s \<Longrightarrow> chunk_offset Q r = chunk_offset Q s \<Longrightarrow> r = s"
  unfolding chunk_index_div chunk_offset_mod by (metis div_mult_mod_eq)

lemma cell_write [upd_simps]:
  assumes "pool_shape Q p" "r < pool_capacity Q p" "s < pool_capacity Q p"
  shows "cell_at Q (write_cell Q r c p) s = (if s = r then c else cell_at Q p s)"
proof -
  have i: "chunk_index Q r < length (m_chunks p)" "chunk_index Q s < length (m_chunks p)"
    using assms by (auto simp: pool_shape_def index_lt)
  then have o: "chunk_offset Q r < length (m_chunks p ! chunk_index Q r)"
    using assms(1) offset_lt [of Q r] by (auto simp: pool_shape_def)
  show ?thesis
  proof (cases "chunk_index Q s = chunk_index Q r")
    case True
    with i o ref_eqI [of Q s r] show ?thesis by (auto simp: cell_at_def write_cell_def nth_list_update)
  next
    case False
    with i show ?thesis by (auto simp: cell_at_def write_cell_def)
  qed
qed

lemma shape_write [simp]: "pool_shape Q (write_cell Q r c p) \<longleftrightarrow> pool_shape Q p"
proof (cases "chunk_index Q r < length (m_chunks p)")
  case True
  have *: "(\<forall>c\<in>set (xs[i := ys]). length c = n) \<longleftrightarrow> (\<forall>c\<in>set xs. length c = n)"
    if "length ys = length (xs ! i)" "i < length xs" for xs :: "'b list list" and i ys n
    using that by (auto simp: all_set_conv_all_nth nth_list_update)
  from True show ?thesis by (simp add: pool_shape_def write_cell_def pool_capacity_def *)
next
  case False
  then show ?thesis by (simp add: write_cell_def list_update_beyond)
qed

lemma write_fields [simp]:
  "m_chunk_count (write_cell Q r c p) = m_chunk_count p"
  "m_free_list (write_cell Q r c p) = m_free_list p"
  "pool_capacity Q (write_cell Q r c p) = pool_capacity Q p"
  by (simp_all add: write_cell_def pool_capacity_def)

lemma free_list_update [simp]:
  "cell_at Q (p\<lparr>m_free_list := x\<rparr>) r = cell_at Q p r"
  "pool_capacity Q (p\<lparr>m_free_list := x\<rparr>) = pool_capacity Q p"
  "pool_shape Q (p\<lparr>m_free_list := x\<rparr>) = pool_shape Q p"
  by (simp_all add: cell_at_def pool_capacity_def pool_shape_def)

lemma dereference_in [simp]:
  "pool_shape Q p \<Longrightarrow> ref < pool_capacity Q p \<Longrightarrow> dereference Q b ref p = Some (Inr (cell_at Q p ref))"
  by (simp add: dereference_def index_lt pool_shape_def)

lemma dereference_out:
  "\<not> ref < pool_capacity Q p \<Longrightarrow> dereference Q True ref p = Some (Inl Out_of_bounds)"
  by (simp add: dereference_def index_lt)

end
