(* ===== verification/Pool_Correct.thy ===== *)
theory Pool_Correct
  imports Object_Pool
begin

text \<open>
  The object pool as a map from references to live objects: the invariant with the free
  stack as a witness, what each operation does to both, and the slot-pool interface that
  the clients of a pool rely on.
\<close>

section \<open>The free stack\<close>

fun linked :: "(nat \<Rightarrow> 'a cell) \<Rightarrow> nat \<Rightarrow> nat \<Rightarrow> nat list \<Rightarrow> bool" where
  "linked cell nul h [] \<longleftrightarrow> h = nul"
| "linked cell nul h (r # rs) \<longleftrightarrow> h = r \<and> (\<exists>n. cell r = Free_link n \<and> linked cell nul n rs)"

lemma linked_cong: "linked cell nul h fl \<Longrightarrow> (\<And>r. r \<in> set fl \<Longrightarrow> cell' r = cell r) \<Longrightarrow> linked cell' nul h fl"
  by (induction cell nul h fl rule: linked.induct) auto

lemma linked_range:
  assumes "a \<le> b" "\<And>i. a \<le> i \<Longrightarrow> i < b \<Longrightarrow> cell i = Free_link (if Suc i = b then nul else Suc i)" "a < b"
  shows "linked cell nul a [a..<b]"
  using assms
proof (induction "b - a" arbitrary: a)
  case (Suc n)
  show ?case
  proof (cases "Suc a = b")
    case True
    with Suc.prems show ?thesis by (simp add: upt_conv_Cons)
  next
    case False
    then have "linked cell nul (Suc a) [Suc a..<b]"
      using Suc.prems Suc.hyps(2) by (intro Suc.hyps(1)) auto
    with False Suc.prems show ?thesis by (simp add: upt_conv_Cons)
  qed
qed simp

text \<open>
  The invariant: the free slots are those on the stack, every other slot seats an object,
  except that \<open>raw\<close> slots may be in between allocation and construction.
\<close>

definition pool_rep :: "pool_opts \<Rightarrow> nat set \<Rightarrow> nat list \<Rightarrow> 'a pool \<Rightarrow> bool" where
  "pool_rep Q raw fl p \<longleftrightarrow> pool_shape Q p \<and> distinct fl \<and> set fl \<subseteq> {..<pool_capacity Q p} \<and>
     linked (cell_at Q p) (null_ref Q) (m_free_list p) fl \<and> raw \<inter> set fl = {} \<and>
     (\<forall>r < pool_capacity Q p. r \<notin> set fl \<longrightarrow> r \<notin> raw \<longrightarrow> (\<exists>x. cell_at Q p r = Obj x))"

definition pool_inv :: "pool_opts \<Rightarrow> 'a pool \<Rightarrow> bool" where
  "pool_inv Q p \<longleftrightarrow> (\<exists>fl. pool_rep Q {} fl p)"

definition objs :: "pool_opts \<Rightarrow> 'a pool \<Rightarrow> nat \<Rightarrow> 'a option" where
  "objs Q p r = (if r < pool_capacity Q p then (case cell_at Q p r of Obj x \<Rightarrow> Some x | _ \<Rightarrow> None) else None)"

lemma objs_Some: "objs Q p r = Some x \<longleftrightarrow> r < pool_capacity Q p \<and> cell_at Q p r = Obj x"
  by (auto simp: objs_def split: cell.splits)

lemma linked_free: "linked cell nul h fl \<Longrightarrow> r \<in> set fl \<Longrightarrow> \<exists>n. cell r = Free_link n"
  by (induction cell nul h fl rule: linked.induct) auto

lemma rep_objs_None:
  "pool_rep Q {} fl p \<Longrightarrow> r < pool_capacity Q p \<Longrightarrow> objs Q p r = None \<longleftrightarrow> r \<in> set fl"
  unfolding pool_rep_def objs_def using linked_free by fastforce

text \<open>Seating an object in a raw or a live slot, and pushing a slot.\<close>

lemma rep_seat:
  assumes r: "pool_rep Q raw fl p" and ref: "ref < pool_capacity Q p" "ref \<notin> set fl"
  shows "pool_rep Q (raw - {ref}) fl (write_cell Q ref (Obj x) p)"
    and "objs Q (write_cell Q ref (Obj x) p) = (objs Q p)(ref \<mapsto> x)"
proof -
  have sh: "pool_shape Q p" using r by (simp add: pool_rep_def)
  note w = cell_write [OF sh ref(1)]
  have "linked (cell_at Q (write_cell Q ref (Obj x) p)) (null_ref Q) (m_free_list p) fl"
  proof (rule linked_cong)
    show "linked (cell_at Q p) (null_ref Q) (m_free_list p) fl" using r by (simp add: pool_rep_def)
    fix s assume "s \<in> set fl"
    then have "s < pool_capacity Q p" "s \<noteq> ref" using r ref by (auto simp: pool_rep_def)
    then show "cell_at Q (write_cell Q ref (Obj x) p) s = cell_at Q p s" by (simp add: w)
  qed
  with r ref show "pool_rep Q (raw - {ref}) fl (write_cell Q ref (Obj x) p)"
    by (auto simp: pool_rep_def w)
  show "objs Q (write_cell Q ref (Obj x) p) = (objs Q p)(ref \<mapsto> x)"
    using ref(1) by (auto simp: objs_def fun_eq_iff w)
qed

lemma rep_push:
  assumes r: "pool_rep Q {} fl p" and ref: "ref < pool_capacity Q p" "ref \<notin> set fl"
  shows "pool_rep Q {} (ref # fl) (write_cell Q ref (Free_link (m_free_list p)) (p\<lparr>m_free_list := ref\<rparr>))"
    and "objs Q (write_cell Q ref (Free_link (m_free_list p)) (p\<lparr>m_free_list := ref\<rparr>)) = (objs Q p)(ref := None)"
proof -
  let ?p = "p\<lparr>m_free_list := ref\<rparr>"
  have sh: "pool_shape Q ?p" using r by (simp add: pool_rep_def)
  note w = cell_write [OF sh, of ref]
  have "linked (cell_at Q (write_cell Q ref (Free_link (m_free_list p)) ?p)) (null_ref Q) (m_free_list p) fl"
  proof (rule linked_cong)
    show "linked (cell_at Q p) (null_ref Q) (m_free_list p) fl" using r by (simp add: pool_rep_def)
    fix s assume "s \<in> set fl"
    then have "s < pool_capacity Q p" "s \<noteq> ref" using r ref by (auto simp: pool_rep_def)
    with ref show "cell_at Q (write_cell Q ref (Free_link (m_free_list p)) ?p) s = cell_at Q p s" by (simp add: w)
  qed
  with r ref show "pool_rep Q {} (ref # fl) (write_cell Q ref (Free_link (m_free_list p)) ?p)"
    by (auto simp: pool_rep_def w)
  show "objs Q (write_cell Q ref (Free_link (m_free_list p)) ?p) = (objs Q p)(ref := None)"
    using ref(1) by (auto simp: objs_def fun_eq_iff w)
qed

lemma ref_not_null: "pool_rep Q raw fl p \<Longrightarrow> r < pool_capacity Q p \<Longrightarrow> r \<noteq> null_ref Q"
  by (auto simp: pool_rep_def pool_shape_def null_ref_def)

lemma rep_pop:
  assumes r: "pool_rep Q {} (ref # fl) p"
  obtains p' where "allocate Q p = Some (Inr (ref, p'))" "pool_rep Q {ref} fl p'"
    "pool_capacity Q p' = pool_capacity Q p" "\<And>s. cell_at Q p' s = cell_at Q p s"
proof -
  obtain n where n: "cell_at Q p ref = Free_link n" "linked (cell_at Q p) (null_ref Q) n fl" "m_free_list p = ref"
    using r by (auto simp: pool_rep_def)
  have lt: "ref < pool_capacity Q p" using r by (simp add: pool_rep_def)
  have sh: "pool_shape Q p" using r by (simp add: pool_rep_def)
  have nn: "ref \<noteq> null_ref Q" by (rule ref_not_null [OF r lt])
  have "cell_at Q (p\<lparr>m_free_list := n\<rparr>) = cell_at Q p" by (simp add: fun_eq_iff)
  then have "pool_rep Q {ref} fl (p\<lparr>m_free_list := n\<rparr>)"
    using r n(2) by (auto simp: pool_rep_def)
  with n(1,3) nn sh lt show ?thesis
    by (intro that [of "p\<lparr>m_free_list := n\<rparr>"]) (auto simp: allocate_def Let_def)
qed

section \<open>Growth\<close>

lemma init_slots_spec:
  "init_slots cs ref = (map (\<lambda>i. Free_link (ref + i + 1)) [0..<length cs], ref + length cs)"
proof (induction cs arbitrary: ref)
  case (Cons c cs)
  have "map (\<lambda>i. Free_link (ref + i + 1)) [0..<Suc (length cs)] =
      Free_link (ref + 1) # map (\<lambda>i. Free_link (ref + 1 + i + 1)) [0..<length cs]"
    by (simp add: upt_conv_Cons map_Suc_upt [symmetric] o_def del: upt_Suc)
  from Cons this [symmetric] show ?case by (simp add: Let_def del: upt_Suc)
qed simp

lemma rep_grow:
  assumes r: "pool_rep Q {} [] p"
    and room: "pool_capacity Q p + chunk_capacity Q \<le> o_max Q"
  defines "n \<equiv> pool_capacity Q p"
  obtains p' where "allocate Q p = Some (Inr (n, p'))" "pool_rep Q {n} [n + 1..<n + chunk_capacity Q] p'"
    "pool_capacity Q p' = n + chunk_capacity Q" "\<And>s. s < n \<Longrightarrow> cell_at Q p' s = cell_at Q p s"
    "cell_at Q p' n = Raw"
proof -
  let ?c = "chunk_capacity Q" and ?k = "m_chunk_count p"
  have sh: "pool_shape Q p" "m_free_list p = null_ref Q" using r by (auto simp: pool_rep_def)
  have c2: "2 \<le> ?c"
  proof -
    have "(2::nat) ^ 1 \<le> 2 ^ o_shift Q" using sh(1) by (intro power_increasing) (auto simp: pool_shape_def)
    then show ?thesis by (simp add: chunk_capacity_def)
  qed
  have n: "n = ?k * ?c" by (simp add: n_def pool_capacity_def)
  let ?chunk = "Raw # map (\<lambda>i. Free_link (n + 1 + i + 1)) [0..<?c - 2] @ [Free_link (null_ref Q)]"
  let ?p = "\<lparr>m_chunks = m_chunks p @ [?chunk], m_chunk_count = ?k + 1, m_free_list = n + 1\<rparr>"
  have len: "length (m_chunks p) = ?k" "\<And>c. c \<in> set (m_chunks p) \<Longrightarrow> length c = ?c" "1 \<le> o_shift Q"
    using sh(1) by (auto simp: pool_shape_def)
  have fits: "\<not> o_max Q < (?k + 1) * ?c" using room n by (simp add: n_def [symmetric])
  have "replicate ?c Raw = Raw # replicate (?c - 1) Raw" using c2 by (cases ?c) auto
  moreover have "length (butlast (replicate (?c - 1) Raw)) = ?c - 2" by simp
  ultimately have al: "allocate Q p = Some (Inr (n, ?p))"
    using sh(2) fits len(1)
    by (simp add: allocate_def allocate_first_slot_of_new_chunk_def allocate_chunk_def Let_def nth_append
        init_slots_spec n [symmetric] list_update_append)
  have cap: "pool_capacity Q ?p = n + ?c" by (simp add: pool_capacity_def n)
  have shp: "pool_shape Q ?p"
    using len c2 room cap by (auto simp: pool_shape_def n_def [symmetric])
  have old: "cell_at Q ?p s = cell_at Q p s" if "s < n" for s
  proof -
    have "chunk_index Q s < ?k" using that by (simp add: n_def index_lt)
    then show ?thesis by (simp add: cell_at_def nth_append len(1))
  qed
  have new: "cell_at Q ?p s = ?chunk ! (s - n)" if "n \<le> s" "s < n + ?c" for s
  proof -
    have "s = ?c * ?k + (s - n)" using that n by (simp add: mult.commute)
    then have "s div ?c = ?k" "s mod ?c = s - n"
      using that by (metis add_less_cancel_left chunk_capacity_pos div_mult_self4 div_less add.right_neutral add_cancel_right_left mult.commute n le_add_diff_inverse less_not_refl2,
        metis add_less_cancel_left mod_mult_self4 mod_less le_add_diff_inverse)
    then show ?thesis by (simp add: cell_at_def chunk_index_div chunk_offset_mod nth_append len(1))
  qed
  have link: "linked (cell_at Q ?p) (null_ref Q) (n + 1) [n + 1..<n + ?c]"
  proof (rule linked_range)
    fix i assume i: "n + 1 \<le> i" "i < n + ?c"
    then have "cell_at Q ?p i = ?chunk ! (i - n)" by (intro new) auto
    also have "\<dots> = Free_link (if Suc i = n + ?c then null_ref Q else Suc i)"
      using i by (cases "Suc i = n + ?c") (auto simp: nth_Cons' nth_append)
    finally show "cell_at Q ?p i = Free_link (if Suc i = n + ?c then null_ref Q else Suc i)" .
  qed (use c2 in auto)
  have raw: "cell_at Q ?p n = Raw" using new [of n] c2 by simp
  have "pool_rep Q {n} [n + 1..<n + ?c] ?p"
    unfolding pool_rep_def
  proof (intro conjI allI impI)
    fix s assume s: "s < pool_capacity Q ?p" "s \<notin> set [n + 1..<n + ?c]" "s \<notin> {n}"
    then have "s < n" using cap by auto
    with r old show "\<exists>x. cell_at Q ?p s = Obj x" by (auto simp: pool_rep_def n_def)
  qed (use shp link cap in auto)
  with that al cap old raw show ?thesis by blast
qed

lemma grow_full:
  assumes r: "pool_rep Q {} [] p" and full: "o_max Q < pool_capacity Q p + chunk_capacity Q"
  shows "allocate Q p = Some (Inl Check_failure)"
  using assms by (simp add: pool_rep_def allocate_def allocate_first_slot_of_new_chunk_def Let_def pool_capacity_def add.commute)

section \<open>Object allocation and release\<close>

lemma pool_inv_shape: "pool_inv Q p \<Longrightarrow> pool_shape Q p"
  by (auto simp: pool_inv_def pool_rep_def)

definition pool_full :: "pool_opts \<Rightarrow> 'a pool \<Rightarrow> bool" where
  "pool_full Q p \<longleftrightarrow> dom (objs Q p) = {..<pool_capacity Q p} \<and> o_max Q < pool_capacity Q p + chunk_capacity Q"

lemma rep_dom:
  assumes "pool_rep Q {} fl p"
  shows "dom (objs Q p) = {..<pool_capacity Q p} - set fl"
proof (rule set_eqI)
  fix s
  show "s \<in> dom (objs Q p) \<longleftrightarrow> s \<in> {..<pool_capacity Q p} - set fl"
  proof (cases "s < pool_capacity Q p")
    case True
    from rep_objs_None [OF assms this] True show ?thesis by (auto simp: dom_def)
  qed (auto simp: objs_def dom_def)
qed

lemma dom_objs: "dom (objs Q p) \<subseteq> {..<pool_capacity Q p}"
  by (auto simp: objs_def dom_def split: if_splits)

lemma rep_allocate_pop:
  assumes r: "pool_rep Q {} (ref # fl) p"
  obtains p' where "pool_allocate Q x p = Some (Inr (ref, p'))" "pool_rep Q {} fl p'"
    "pool_capacity Q p' = pool_capacity Q p" "objs Q p' = (objs Q p)(ref \<mapsto> x)"
proof -
  obtain p1 where p1: "allocate Q p = Some (Inr (ref, p1))" "pool_rep Q {ref} fl p1"
    "pool_capacity Q p1 = pool_capacity Q p" "\<And>s. cell_at Q p1 s = cell_at Q p s"
    using rep_pop [OF r] by blast
  have lt: "ref < pool_capacity Q p1" "ref \<notin> set fl" using r p1(3) by (auto simp: pool_rep_def)
  note seat = rep_seat [OF p1(2) lt, of x]
  have "objs Q p1 = objs Q p" by (simp add: objs_def fun_eq_iff p1(3,4))
  with p1 seat show ?thesis
    by (intro that [of "write_cell Q ref (Obj x) p1"]) (auto simp: pool_allocate_def)
qed

lemma rep_allocate_grow:
  fixes Q :: pool_opts and p :: "'a pool"
  defines "n \<equiv> pool_capacity Q p"
  assumes r: "pool_rep Q {} [] p" and room: "n + chunk_capacity Q \<le> o_max Q"
  obtains p' where "pool_allocate Q x p = Some (Inr (n, p'))" "pool_rep Q {} [n + 1..<n + chunk_capacity Q] p'"
    "pool_capacity Q p' = n + chunk_capacity Q" "objs Q p' = (objs Q p)(n \<mapsto> x)"
proof -
  obtain p1 where p1: "allocate Q p = Some (Inr (n, p1))" "pool_rep Q {n} [n + 1..<n + chunk_capacity Q] p1"
    "pool_capacity Q p1 = n + chunk_capacity Q" "\<And>s. s < n \<Longrightarrow> cell_at Q p1 s = cell_at Q p s" "cell_at Q p1 n = Raw"
    using rep_grow [OF r] room unfolding n_def by blast
  have lt: "n < pool_capacity Q p1" "n \<notin> set [n + 1..<n + chunk_capacity Q]" using p1(3) by auto
  note seat = rep_seat [OF p1(2) lt, of x]
  have "objs Q p1 s = objs Q p s" for s
  proof (cases "s < n")
    case True
    with p1(3,4) show ?thesis by (simp add: objs_def n_def)
  next
    case False
    have "objs Q p1 s = None"
    proof (cases "s = n \<or> \<not> s < pool_capacity Q p1")
      case True
      then show ?thesis using p1(5) by (auto simp: objs_def)
    next
      case F: False
      with False p1(3) have "s \<in> set [n + 1..<n + chunk_capacity Q]" by auto
      then show ?thesis using p1(2) linked_free by (fastforce simp: pool_rep_def objs_def)
    qed
    with False show ?thesis by (simp add: objs_def n_def)
  qed
  then have "objs Q p1 = objs Q p" by blast
  with p1 seat show ?thesis
    by (intro that [of "write_cell Q n (Obj x) p1"]) (auto simp: pool_allocate_def)
qed

lemma pool_allocate_spec:
  assumes inv: "pool_inv Q p" and ok: "\<not> pool_full Q p"
  obtains ref p' where "pool_allocate Q x p = Some (Inr (ref, p'))" "pool_inv Q p'"
    "objs Q p ref = None" "objs Q p' = (objs Q p)(ref \<mapsto> x)"
    "pool_capacity Q p' = (if dom (objs Q p) = {..<pool_capacity Q p} then pool_capacity Q p + chunk_capacity Q
       else pool_capacity Q p)"
    "m_free_list p \<noteq> null_ref Q \<Longrightarrow> ref = m_free_list p"
proof -
  obtain fl where r: "pool_rep Q {} fl p" using inv by (auto simp: pool_inv_def)
  note d = rep_dom [OF r]
  show ?thesis
  proof (cases fl)
    case (Cons ref fl')
    note r' = r [unfolded Cons]
    obtain p1 where p1: "pool_allocate Q x p = Some (Inr (ref, p1))" "pool_rep Q {} fl' p1"
      "pool_capacity Q p1 = pool_capacity Q p" "objs Q p1 = (objs Q p)(ref \<mapsto> x)"
      by (rule rep_allocate_pop [OF r', of x])
    have "ref < pool_capacity Q p" using r' by (simp add: pool_rep_def)
    then have "objs Q p ref = None" "dom (objs Q p) \<noteq> {..<pool_capacity Q p}"
      using rep_objs_None [OF r, of ref] d Cons by auto
    moreover have "m_free_list p = ref" using r' by (simp add: pool_rep_def)
    ultimately show ?thesis using that [OF p1(1)] p1(2-4) by (auto simp: pool_inv_def)
  next
    case Nil
    note r' = r [unfolded Nil]
    have full: "dom (objs Q p) = {..<pool_capacity Q p}" using d Nil by simp
    with ok have room: "pool_capacity Q p + chunk_capacity Q \<le> o_max Q" by (simp add: pool_full_def)
    have "objs Q p (pool_capacity Q p) = None" "m_free_list p = null_ref Q"
      using r' by (simp_all add: objs_def pool_rep_def)
    moreover obtain p1 where "pool_allocate Q x p = Some (Inr (pool_capacity Q p, p1))"
      "pool_rep Q {} [pool_capacity Q p + 1..<pool_capacity Q p + chunk_capacity Q] p1"
      "pool_capacity Q p1 = pool_capacity Q p + chunk_capacity Q" "objs Q p1 = (objs Q p)(pool_capacity Q p \<mapsto> x)"
      by (rule rep_allocate_grow [OF r' room, of x])
    ultimately show ?thesis using full by (intro that [of "pool_capacity Q p" p1]) (auto simp: pool_inv_def)
  qed
qed

lemma pool_allocate_full:
  assumes inv: "pool_inv Q p" and full: "pool_full Q p"
  shows "pool_allocate Q x p = Some (Inl Check_failure)"
proof -
  obtain fl where r: "pool_rep Q {} fl p" using inv by (auto simp: pool_inv_def)
  have "fl = []"
  proof (rule ccontr)
    assume "fl \<noteq> []"
    then obtain s where "s \<in> set fl" by (cases fl) auto
    moreover from this have "s < pool_capacity Q p" using r by (auto simp: pool_rep_def)
    ultimately show False using full rep_dom [OF r] by (auto simp: pool_full_def)
  qed
  with grow_full [of Q p] r full show ?thesis by (simp add: pool_allocate_def pool_full_def)
qed

lemma rep_release_slot:
  assumes r: "pool_rep Q {} fl p" and x: "objs Q p ref = Some x"
  obtains p' where "pool_release Q ref p = Some (Inr (x, p'))" "release Q ref p = Some (Inr p')"
    "pool_rep Q {} (ref # fl) p'" "objs Q p' = (objs Q p)(ref := None)"
    "pool_capacity Q p' = pool_capacity Q p" "m_free_list p' = ref"
proof -
  have ref: "ref < pool_capacity Q p" "cell_at Q p ref = Obj x" using x by (auto simp: objs_Some)
  have nf: "ref \<notin> set fl" using rep_objs_None [OF r ref(1)] x by auto
  have sh: "pool_shape Q p" using r by (simp add: pool_rep_def)
  note push = rep_push [OF r ref(1) nf]
  show ?thesis
    by (rule that [of "write_cell Q ref (Free_link (m_free_list p)) (p\<lparr>m_free_list := ref\<rparr>)"])
      (use push ref sh in \<open>auto simp: pool_release_def release_def\<close>)
qed

lemma pool_release_spec:
  assumes inv: "pool_inv Q p" and x: "objs Q p ref = Some x"
  obtains p' where "pool_release Q ref p = Some (Inr (x, p'))" "pool_inv Q p'" "objs Q p' = (objs Q p)(ref := None)"
    "pool_capacity Q p' = pool_capacity Q p" "m_free_list p' = ref"
proof -
  obtain fl where r: "pool_rep Q {} fl p" using inv by (auto simp: pool_inv_def)
  obtain p' where "pool_release Q ref p = Some (Inr (x, p'))" "pool_rep Q {} (ref # fl) p'"
    "objs Q p' = (objs Q p)(ref := None)" "pool_capacity Q p' = pool_capacity Q p" "m_free_list p' = ref"
    by (rule rep_release_slot [OF r x])
  with that show ?thesis by (auto simp: pool_inv_def)
qed

lemma rep_modify:
  assumes r: "pool_rep Q {} fl p" and x: "objs Q p ref = Some x"
  obtains p' where "pool_modify Q ref f p = Some p'" "pool_rep Q {} fl p'" "objs Q p' = (objs Q p)(ref \<mapsto> f x)"
    "pool_capacity Q p' = pool_capacity Q p" "m_free_list p' = m_free_list p"
proof -
  have ref: "ref < pool_capacity Q p" "cell_at Q p ref = Obj x" using x by (auto simp: objs_Some)
  have nf: "ref \<notin> set fl" using rep_objs_None [OF r ref(1)] x by auto
  have sh: "pool_shape Q p" using r by (simp add: pool_rep_def)
  note seat = rep_seat [OF r ref(1) nf, of "f x"]
  show ?thesis
    by (rule that [of "write_cell Q ref (Obj (f x)) p"])
      (use seat ref sh in \<open>auto simp: pool_modify_def pool_get_mut_def pool_get_def\<close>)
qed

lemma pool_modify_spec:
  assumes inv: "pool_inv Q p" and x: "objs Q p ref = Some x"
  obtains p' where "pool_modify Q ref f p = Some p'" "pool_inv Q p'" "objs Q p' = (objs Q p)(ref \<mapsto> f x)"
    "pool_capacity Q p' = pool_capacity Q p" "m_free_list p' = m_free_list p"
proof -
  obtain fl where r: "pool_rep Q {} fl p" using inv by (auto simp: pool_inv_def)
  obtain p' where "pool_modify Q ref f p = Some p'" "pool_rep Q {} fl p'" "objs Q p' = (objs Q p)(ref \<mapsto> f x)"
    "pool_capacity Q p' = pool_capacity Q p" "m_free_list p' = m_free_list p"
    by (rule rep_modify [OF r x, of f])
  with that show ?thesis by (auto simp: pool_inv_def)
qed

lemma pool_get_spec:
  "pool_inv Q p \<Longrightarrow> objs Q p ref = Some x \<Longrightarrow> pool_get Q b ref p = Some (Inr x)"
  using pool_inv_shape [of Q p] by (simp add: pool_get_def objs_Some)

section \<open>The allocation bitmap and the destructor\<close>

lemma bitmap_walk_spec:
  assumes "pool_shape Q p" "linked (cell_at Q p) (null_ref Q) h fl" "set fl \<subseteq> {..<pool_capacity Q p}"
    and "length bits = pool_capacity Q p"
  shows "\<exists>bits'. bitmap_walk Q p h bits = Some bits' \<and> length bits' = pool_capacity Q p \<and>
    (\<forall>i < pool_capacity Q p. bits' ! i \<longleftrightarrow> i \<notin> set fl \<and> bits ! i)"
  using assms
proof (induction fl arbitrary: h bits)
  case Nil
  then show ?case by (simp add: bitmap_walk.simps)
next
  case (Cons r rs)
  then obtain n where n: "h = r" "cell_at Q p r = Free_link n" "linked (cell_at Q p) (null_ref Q) n rs" by auto
  have r: "r < pool_capacity Q p" "r \<noteq> null_ref Q" using Cons.prems(1,3) by (auto simp: pool_shape_def null_ref_def)
  obtain bits' where b: "bitmap_walk Q p n (bits[r := False]) = Some bits'" "length bits' = pool_capacity Q p"
    "\<forall>i < pool_capacity Q p. bits' ! i \<longleftrightarrow> i \<notin> set rs \<and> bits[r := False] ! i"
    using Cons.IH [OF Cons.prems(1) n(3), of "bits[r := False]"] Cons.prems(3,4) by auto
  have "bitmap_walk Q p h bits = Some bits'"
    using b(1) n r Cons.prems(1) by (simp add: bitmap_walk.simps [of Q p r bits])
  with b r Cons.prems(4) show ?case by (auto simp: nth_list_update)
qed

lemma allocation_bitmap_spec:
  assumes "pool_inv Q p"
  shows "allocation_bitmap Q p = Some (map (\<lambda>r. r \<in> dom (objs Q p)) [0..<pool_capacity Q p])"
proof -
  obtain fl where r: "pool_rep Q {} fl p" using assms by (auto simp: pool_inv_def)
  then obtain bits where b: "allocation_bitmap Q p = Some bits" "length bits = pool_capacity Q p"
    "\<forall>i < pool_capacity Q p. bits ! i \<longleftrightarrow> i \<notin> set fl"
    using bitmap_walk_spec [of Q p "m_free_list p" fl "replicate (pool_capacity Q p) True"]
    by (auto simp: allocation_bitmap_def pool_rep_def)
  then have "bits = map (\<lambda>r. r \<in> dom (objs Q p)) [0..<pool_capacity Q p]"
    unfolding rep_dom [OF r] by (intro nth_equalityI) auto
  with b(1) show ?thesis by simp
qed

lemma those_map_Some: "(\<And>x. x \<in> set xs \<Longrightarrow> f x = Some (g x)) \<Longrightarrow> those (map f xs) = Some (map g xs)"
  by (induction xs) auto

lemma pool_destructor_spec:
  assumes inv: "pool_inv Q p"
  shows "pool_destructor Q p = Some (map (\<lambda>r. the (objs Q p r)) (filter (\<lambda>r. r \<in> dom (objs Q p)) [0..<pool_capacity Q p]))"
proof -
  let ?f = "\<lambda>ref. case pool_get Q False ref p of Some (Inr x) \<Rightarrow> Some x | _ \<Rightarrow> None"
  have "filter (\<lambda>ref. map (\<lambda>r. r \<in> dom (objs Q p)) [0..<pool_capacity Q p] ! ref) [0..<pool_capacity Q p] =
      filter (\<lambda>r. r \<in> dom (objs Q p)) [0..<pool_capacity Q p]"
    by (rule filter_cong) auto
  moreover have "those (map ?f (filter (\<lambda>r. r \<in> dom (objs Q p)) [0..<pool_capacity Q p])) =
      Some (map (\<lambda>r. the (objs Q p r)) (filter (\<lambda>r. r \<in> dom (objs Q p)) [0..<pool_capacity Q p]))"
    by (rule those_map_Some) (auto simp: pool_get_spec [OF inv])
  ultimately show ?thesis by (simp add: pool_destructor_def allocation_bitmap_spec [OF inv])
qed

section \<open>Construction\<close>

lemma init_chunks_spec:
  assumes "\<forall>c\<in>set cs. length c = n"
  shows "init_chunks cs ref = map (\<lambda>k. map (\<lambda>i. Free_link (ref + k * n + i + 1)) [0..<n]) [0..<length cs]"
  using assms
proof (induction cs arbitrary: ref)
  case (Cons c cs)
  have "map (\<lambda>k. map (\<lambda>i. Free_link (ref + k * n + i + 1)) [0..<n]) [0..<Suc (length cs)] =
      map (\<lambda>i. Free_link (ref + i + 1)) [0..<n] #
      map (\<lambda>k. map (\<lambda>i. Free_link (ref + n + k * n + i + 1)) [0..<n]) [0..<length cs]"
    by (simp add: upt_conv_Cons map_Suc_upt [symmetric] o_def algebra_simps del: upt_Suc)
  from Cons this [symmetric] show ?case by (simp add: init_slots_spec del: upt_Suc)
qed simp

lemma object_pool_spec:
  fixes Q :: pool_opts and initial :: nat
  defines "n \<equiv> (initial + chunk_capacity Q - 1) div chunk_capacity Q * chunk_capacity Q"
  assumes ok: "0 < initial" "n \<le> o_max Q" "1 \<le> o_shift Q"
  obtains p :: "'a pool" where "object_pool Q initial = Inr p" "pool_rep Q {} [0..<n] p" "pool_capacity Q p = n"
    "initial \<le> n" "objs Q p = Map.empty"
proof -
  let ?c = "chunk_capacity Q" and ?k = "(initial + chunk_capacity Q - 1) div chunk_capacity Q"
  have k: "initial \<le> ?k * ?c"
  proof -
    have "initial + ?c - 1 < ?k * ?c + ?c" 
      using dividend_less_div_times [OF chunk_capacity_pos, of "initial + ?c - 1" Q] by simp
    then show ?thesis by linarith
  qed
  then have k0: "0 < ?k" using ok(1) by (cases "?k = 0") auto
  define p0 :: "'a pool" where
    "p0 = \<lparr>m_chunks = map (\<lambda>k. map (\<lambda>i. Free_link (k * ?c + i + 1)) [0..<?c]) [0..<?k], m_chunk_count = ?k, m_free_list = 0\<rparr>"
  let ?p = "write_cell Q (n - 1) (Free_link (null_ref Q)) p0"
  have cap: "pool_capacity Q p0 = n" by (simp add: pool_capacity_def p0_def n_def)
  have sh: "pool_shape Q p0" using k0 ok(2,3) cap by (auto simp: pool_shape_def p0_def)
  have n0: "0 < n" using k ok(1) unfolding n_def by linarith
  have new: "object_pool Q initial = Inr ?p"
    using ok unfolding n_def
    by (simp add: object_pool_def fixed_size_allocator_def create_def Let_def p0_def init_chunks_spec [where n = "chunk_capacity Q"])
  have c0: "cell_at Q p0 i = Free_link (Suc i)" if "i < n" for i
  proof -
    have "i div ?c < ?k" using that unfolding n_def by (simp add: less_mult_imp_div_less)
    moreover have "i div ?c * ?c + i mod ?c = i" by simp
    ultimately show ?thesis by (simp add: cell_at_def chunk_index_div chunk_offset_mod p0_def)
  qed
  have cells: "cell_at Q ?p i = Free_link (if Suc i = n then null_ref Q else Suc i)" if "i < n" for i
    using that n0 c0 [OF that] by (auto simp: cell_write [OF sh] cap)
  have "linked (cell_at Q ?p) (null_ref Q) 0 [0..<n]"
    by (rule linked_range) (use cells n0 in auto)
  then have rep: "pool_rep Q {} [0..<n] ?p"
    using sh cap by (auto simp: pool_rep_def p0_def)
  have "dom (objs Q ?p) = {}" using rep_dom [OF rep] cap by auto
  then have "objs Q ?p = Map.empty" by (simp only: dom_eq_empty_conv)
  with that new rep cap k show ?thesis by (auto simp: n_def)
qed

end
