(* ===== verification/Slot_Pool.thy ===== *)
theory Slot_Pool
  imports Vrt_Prelude
begin

text \<open>
  The slot-pool interface: what the order books rely on when they keep short references into
  an object pool, and what follows for whole programs of allocations, releases and
  mutations. \<open>Pool_Props\<close> interprets it by the object pool.
\<close>

datatype 'a pool_op = Pool_alloc 'a | Pool_free nat | Pool_set nat 'a

datatype 'a pool_out = Out_ref nat | Out_full vr_error | Out_obj 'a | Out_set

fun run_pool :: "('a \<Rightarrow> 'p \<Rightarrow> (nat \<times> 'p) result option) \<Rightarrow> (nat \<Rightarrow> 'p \<Rightarrow> ('a \<times> 'p) result option) \<Rightarrow>
    (nat \<Rightarrow> ('a \<Rightarrow> 'a) \<Rightarrow> 'p \<Rightarrow> 'p option) \<Rightarrow> 'a pool_op list \<Rightarrow> 'p \<Rightarrow> ('p \<times> 'a pool_out list) option" where
  "run_pool alloc free upd [] p = Some (p, [])"
| "run_pool alloc free upd (Pool_alloc x # ops) p =
     (case alloc x p of
        None \<Rightarrow> None
      | Some (Inl e) \<Rightarrow> map_option (\<lambda>(p', os). (p', Out_full e # os)) (run_pool alloc free upd ops p)
      | Some (Inr (r, p1)) \<Rightarrow> map_option (\<lambda>(p', os). (p', Out_ref r # os)) (run_pool alloc free upd ops p1))"
| "run_pool alloc free upd (Pool_free r # ops) p =
     (case free r p of
        Some (Inr (x, p1)) \<Rightarrow> map_option (\<lambda>(p', os). (p', Out_obj x # os)) (run_pool alloc free upd ops p1)
      | _ \<Rightarrow> None)"
| "run_pool alloc free upd (Pool_set r x # ops) p =
     (case upd r (\<lambda>_. x) p of
        None \<Rightarrow> None
      | Some p1 \<Rightarrow> map_option (\<lambda>(p', os). (p', Out_set # os)) (run_pool alloc free upd ops p1))"

text \<open>
  The abstract pool hands out any reference that is not live; it is told which by the outputs
  it must explain. A client that frees or sets a dead reference is outside its contract.
\<close>

fun spec_pool :: "'a pool_op list \<Rightarrow> 'a pool_out list \<Rightarrow> (nat \<rightharpoonup> 'a) \<Rightarrow> (nat \<rightharpoonup> 'a) option" where
  "spec_pool [] [] m = Some m"
| "spec_pool (Pool_alloc x # ops) (Out_ref r # os) m = (if m r = None then spec_pool ops os (m(r \<mapsto> x)) else None)"
| "spec_pool (Pool_alloc x # ops) (Out_full e # os) m = spec_pool ops os m"
| "spec_pool (Pool_free r # ops) (Out_obj x # os) m = (if m r = Some x then spec_pool ops os (m(r := None)) else None)"
| "spec_pool (Pool_set r x # ops) (Out_set # os) m = (if m r \<noteq> None then spec_pool ops os (m(r \<mapsto> x)) else None)"
| "spec_pool _ _ m = None"

text \<open>
  The exact abstract pool, which says which reference comes next: the free slots are a stack,
  a released slot goes on its top, and when the stack is empty the next chunk is added unless
  it would pass the pointer limit; its first slot is handed out and the others become the
  stack.
\<close>

record 'a slots =
  sl_free :: "nat list"
  sl_cap :: nat
  sl_live :: "nat \<rightharpoonup> 'a"

fun spec_slot :: "nat \<Rightarrow> nat \<Rightarrow> 'a pool_op \<Rightarrow> 'a slots \<Rightarrow> ('a slots \<times> 'a pool_out) option" where
  "spec_slot chunk limit (Pool_alloc x) A = Some
     (case sl_free A of
        r # fl \<Rightarrow> (\<lparr>sl_free = fl, sl_cap = sl_cap A, sl_live = (sl_live A)(r \<mapsto> x)\<rparr>, Out_ref r)
      | [] \<Rightarrow>
          if sl_cap A + chunk \<le> limit
          then (\<lparr>sl_free = [sl_cap A + 1..<sl_cap A + chunk], sl_cap = sl_cap A + chunk,
                 sl_live = (sl_live A)(sl_cap A \<mapsto> x)\<rparr>, Out_ref (sl_cap A))
          else (A, Out_full Check_failure))"
| "spec_slot chunk limit (Pool_free r) A =
     map_option (\<lambda>x. (\<lparr>sl_free = r # sl_free A, sl_cap = sl_cap A, sl_live = (sl_live A)(r := None)\<rparr>, Out_obj x)) (sl_live A r)"
| "spec_slot chunk limit (Pool_set r y) A =
     map_option (\<lambda>x. (\<lparr>sl_free = sl_free A, sl_cap = sl_cap A, sl_live = (sl_live A)(r \<mapsto> y)\<rparr>, Out_set)) (sl_live A r)"

fun spec_slots :: "nat \<Rightarrow> nat \<Rightarrow> 'a pool_op list \<Rightarrow> 'a slots \<Rightarrow> ('a slots \<times> 'a pool_out list) option" where
  "spec_slots chunk limit [] A = Some (A, [])"
| "spec_slots chunk limit (opn # ops) A =
     (case spec_slot chunk limit opn A of
        None \<Rightarrow> None
      | Some (A1, out) \<Rightarrow> map_option (\<lambda>(A', outs). (A', out # outs)) (spec_slots chunk limit ops A1))"

primrec touches :: "nat \<Rightarrow> 'a pool_op \<Rightarrow> bool" where
  "touches r (Pool_alloc x) \<longleftrightarrow> False"
| "touches r (Pool_free s) \<longleftrightarrow> s = r"
| "touches r (Pool_set s x) \<longleftrightarrow> s = r"

definition slots_ok :: "'a slots \<Rightarrow> bool" where
  "slots_ok A \<longleftrightarrow> distinct (sl_free A) \<and> set (sl_free A) \<inter> dom (sl_live A) = {} \<and>
     set (sl_free A) \<union> dom (sl_live A) \<subseteq> {..<sl_cap A}"

lemma spec_slot_ok:
  assumes pos: "0 < chunk" and ok: "slots_ok A" and st: "spec_slot chunk limit opn A = Some (A1, out)"
  shows "slots_ok A1"
proof (cases opn)
  case al: (Pool_alloc x)
  show ?thesis
  proof (cases "sl_free A")
    case (Cons r fl)
    with st al have "A1 = \<lparr>sl_free = fl, sl_cap = sl_cap A, sl_live = (sl_live A)(r \<mapsto> x)\<rparr>" by simp
    with ok Cons show ?thesis by (auto simp: slots_ok_def)
  next
    case Nil
    show ?thesis
    proof (cases "sl_cap A + chunk \<le> limit")
      case True
      with st al Nil have A1: "A1 = \<lparr>sl_free = [sl_cap A + 1..<sl_cap A + chunk], sl_cap = sl_cap A + chunk,
          sl_live = (sl_live A)(sl_cap A \<mapsto> x)\<rparr>" by simp
      have "dom (sl_live A) \<subseteq> {..<sl_cap A}" using ok by (simp add: slots_ok_def)
      with pos show ?thesis unfolding slots_ok_def A1 by fastforce
    next
      case False
      with st al Nil ok pos show ?thesis by simp
    qed
  qed
next
  case (Pool_free r)
  with st obtain x where x: "sl_live A r = Some x"
    "A1 = \<lparr>sl_free = r # sl_free A, sl_cap = sl_cap A, sl_live = (sl_live A)(r := None)\<rparr>" by auto
  from ok x(1) have "r \<notin> set (sl_free A)" "r < sl_cap A" by (auto simp: slots_ok_def)
  with ok show ?thesis unfolding slots_ok_def x(2) by auto
next
  case (Pool_set r y)
  with st obtain x where x: "sl_live A r = Some x"
    "A1 = \<lparr>sl_free = sl_free A, sl_cap = sl_cap A, sl_live = (sl_live A)(r \<mapsto> y)\<rparr>" by auto
  from ok x(1) have "r \<notin> set (sl_free A)" "r < sl_cap A" by (auto simp: slots_ok_def)
  with ok show ?thesis unfolding slots_ok_def x(2) by auto
qed

lemma spec_slot_stable:
  "slots_ok A \<Longrightarrow> spec_slot chunk limit opn A = Some (A1, out) \<Longrightarrow> sl_live A r = Some x \<Longrightarrow> \<not> touches r opn \<Longrightarrow>
    sl_live A1 r = Some x"
  by (cases opn; cases "sl_free A") (auto simp: slots_ok_def split: if_splits)

lemma spec_slots_stable:
  assumes "0 < chunk" "slots_ok A" "spec_slots chunk limit ops A = Some (A', os)" "sl_live A r = Some x" "\<forall>opn\<in>set ops. \<not> touches r opn"
  shows "sl_live A' r = Some x"
  using assms
proof (induction ops arbitrary: A os)
  case (Cons opn ops)
  from Cons.prems(3) obtain A1 out outs where
    "spec_slot chunk limit opn A = Some (A1, out)" "spec_slots chunk limit ops A1 = Some (A', outs)"
    by (auto split: option.splits)
  with Cons.IH Cons.prems spec_slot_ok spec_slot_stable show ?case by (metis list.set_intros)
qed simp

text \<open>A client that keeps to live references.\<close>

fun keeps_live :: "('p \<Rightarrow> nat \<Rightarrow> 'a option) \<Rightarrow> ('a \<Rightarrow> 'p \<Rightarrow> (nat \<times> 'p) result option) \<Rightarrow>
    (nat \<Rightarrow> 'p \<Rightarrow> ('a \<times> 'p) result option) \<Rightarrow> (nat \<Rightarrow> ('a \<Rightarrow> 'a) \<Rightarrow> 'p \<Rightarrow> 'p option) \<Rightarrow>
    'a pool_op list \<Rightarrow> 'p \<Rightarrow> bool" where
  "keeps_live live alloc free upd [] p = True"
| "keeps_live live alloc free upd (Pool_alloc x # ops) p =
     (case alloc x p of Some (Inr (r, p1)) \<Rightarrow> keeps_live live alloc free upd ops p1
      | _ \<Rightarrow> keeps_live live alloc free upd ops p)"
| "keeps_live live alloc free upd (Pool_free r # ops) p =
     (live p r \<noteq> None \<and>
      (case free r p of Some (Inr (x, p1)) \<Rightarrow> keeps_live live alloc free upd ops p1 | _ \<Rightarrow> False))"
| "keeps_live live alloc free upd (Pool_set r x # ops) p =
     (live p r \<noteq> None \<and>
      (case upd r (\<lambda>_. x) p of Some p1 \<Rightarrow> keeps_live live alloc free upd ops p1 | _ \<Rightarrow> False))"

lemma spec_pool_stable:
  assumes "spec_pool ops os m = Some m'" "m r = Some x" "\<forall>opn\<in>set ops. \<not> touches r opn"
  shows "m' r = Some x"
  using assms
proof (induction ops os m rule: spec_pool.induct)
  case (2 y ops s os m)
  then have "m s = None" "spec_pool ops os (m(s \<mapsto> y)) = Some m'" by (auto split: if_splits)
  moreover have "(m(s \<mapsto> y)) r = Some x" using 2 calculation(1) by auto
  ultimately show ?case using "2.IH" "2.prems"(3) by (metis list.set_intros(2))
qed (auto split: if_splits)

locale slot_pool =
  fixes inv :: "'p \<Rightarrow> bool"
    and abs :: "'p \<Rightarrow> nat \<Rightarrow> 'a option"
    and full :: "'p \<Rightarrow> bool"
    and alloc :: "'a \<Rightarrow> 'p \<Rightarrow> (nat \<times> 'p) result option"
    and free :: "nat \<Rightarrow> 'p \<Rightarrow> ('a \<times> 'p) result option"
    and upd :: "nat \<Rightarrow> ('a \<Rightarrow> 'a) \<Rightarrow> 'p \<Rightarrow> 'p option"
  assumes alloc_law: "inv p \<Longrightarrow> \<not> full p \<Longrightarrow>
      \<exists>r p'. alloc x p = Some (Inr (r, p')) \<and> inv p' \<and> abs p r = None \<and> abs p' = (abs p)(r \<mapsto> x)"
    and alloc_full: "inv p \<Longrightarrow> full p \<Longrightarrow> \<exists>e. alloc x p = Some (Inl e)"
    and free_law: "inv p \<Longrightarrow> abs p r = Some x \<Longrightarrow>
      \<exists>p'. free r p = Some (Inr (x, p')) \<and> inv p' \<and> abs p' = (abs p)(r := None) \<and> \<not> full p'"
    and free_recycles: "inv p \<Longrightarrow> free r p = Some (Inr (x, p')) \<Longrightarrow> abs p r = Some x \<Longrightarrow>
      \<exists>p''. alloc y p' = Some (Inr (r, p''))"
    and upd_law: "inv p \<Longrightarrow> abs p r = Some x \<Longrightarrow>
      \<exists>p'. upd r f p = Some p' \<and> inv p' \<and> abs p' = (abs p)(r \<mapsto> f x)"
begin

lemma alloc_fresh: "inv p \<Longrightarrow> alloc x p = Some (Inr (r, p')) \<Longrightarrow> abs p r = None \<and> abs p' = (abs p)(r \<mapsto> x) \<and> inv p'"
  using alloc_law [of p x] alloc_full [of p x] by fastforce

text \<open>Such a client is served as the abstract pool would.\<close>

lemma run_refines:
  assumes "inv p" "keeps_live abs alloc free upd ops p"
  shows "\<exists>p' os. run_pool alloc free upd ops p = Some (p', os) \<and> inv p' \<and> spec_pool ops os (abs p) = Some (abs p')"
  using assms
proof (induction ops arbitrary: p)
  case (Cons opn ops)
  show ?case
  proof (cases opn)
    case (Pool_alloc x)
    show ?thesis
    proof (cases "full p")
      case True
      with Cons Pool_alloc alloc_full [of p x] show ?thesis by fastforce
    next
      case False
      then obtain r p1 where a: "alloc x p = Some (Inr (r, p1))" "inv p1" "abs p r = None" "abs p1 = (abs p)(r \<mapsto> x)"
        using alloc_law Cons.prems(1) by blast
      then have "keeps_live abs alloc free upd ops p1" using Cons.prems(2) Pool_alloc by simp
      then obtain p' os where "run_pool alloc free upd ops p1 = Some (p', os)" "inv p'"
        "spec_pool ops os (abs p1) = Some (abs p')"
        using Cons.IH [OF a(2)] by blast
      with a Pool_alloc show ?thesis by simp
    qed
  next
    case (Pool_free r)
    then obtain x where x: "abs p r = Some x" using Cons.prems(2) by auto
    then obtain p1 where f: "free r p = Some (Inr (x, p1))" "inv p1" "abs p1 = (abs p)(r := None)"
      using free_law Cons.prems(1) by blast
    then have "keeps_live abs alloc free upd ops p1" using Cons.prems(2) Pool_free by simp
    then obtain p' os where "run_pool alloc free upd ops p1 = Some (p', os)" "inv p'"
      "spec_pool ops os (abs p1) = Some (abs p')"
      using Cons.IH [OF f(2)] by blast
    with f x Pool_free show ?thesis by simp
  next
    case (Pool_set r y)
    then obtain x where x: "abs p r = Some x" using Cons.prems(2) by auto
    then obtain p1 where f: "upd r (\<lambda>_. y) p = Some p1" "inv p1" "abs p1 = (abs p)(r \<mapsto> y)"
      using upd_law [of p r x "\<lambda>_. y"] Cons.prems(1) by blast
    then have "keeps_live abs alloc free upd ops p1" using Cons.prems(2) Pool_set by simp
    then obtain p' os where "run_pool alloc free upd ops p1 = Some (p', os)" "inv p'"
      "spec_pool ops os (abs p1) = Some (abs p')"
      using Cons.IH [OF f(2)] by blast
    with f x Pool_set show ?thesis by simp
  qed
qed simp

end

end
