(* ===== verification/Pool_Props.thy ===== *)
theory Pool_Props
  imports Pool_Correct Slot_Pool
begin

text \<open>
  The interpretation of the slot-pool interface by the object pool, and the pool's
  properties.
\<close>

lemma pool_release_not_full:
  assumes "pool_inv Q p" "objs Q p ref = Some x" "pool_release Q ref p = Some (Inr (x, p'))"
  shows "\<not> pool_full Q p'" "m_free_list p' = ref" "m_free_list p' \<noteq> null_ref Q"
proof -
  obtain p2 where p2: "pool_release Q ref p = Some (Inr (x, p2))" "pool_inv Q p2" "objs Q p2 = (objs Q p)(ref := None)"
    "pool_capacity Q p2 = pool_capacity Q p" "m_free_list p2 = ref"
    using pool_release_spec [OF assms(1,2)] by metis
  have ref: "ref < pool_capacity Q p" using assms(2) by (simp add: objs_Some)
  have "ref \<notin> dom (objs Q p2)" using p2(3) by simp
  with ref p2(4) have "dom (objs Q p2) \<noteq> {..<pool_capacity Q p2}" by auto
  with p2 assms(3) show "\<not> pool_full Q p'" "m_free_list p' = ref" by (auto simp: pool_full_def)
  moreover have "ref \<noteq> null_ref Q"
    using ref pool_inv_shape [OF assms(1)] by (auto simp: pool_shape_def null_ref_def)
  ultimately show "m_free_list p' \<noteq> null_ref Q" by simp
qed

text \<open>Programs over the exact abstract pool.\<close>

lemma rep_slots_ok:
  assumes "pool_rep Q {} fl p"
  shows "slots_ok \<lparr>sl_free = fl, sl_cap = pool_capacity Q p, sl_live = objs Q p\<rparr>"
  using rep_dom [OF assms] assms by (auto simp: slots_ok_def pool_rep_def)

lemma run_slots:
  assumes "pool_rep Q {} fl p"
    and "spec_slots (chunk_capacity Q) (o_max Q) ops \<lparr>sl_free = fl, sl_cap = pool_capacity Q p, sl_live = objs Q p\<rparr> = Some (A, os)"
  shows "\<exists>p'. run_pool (pool_allocate Q) (pool_release Q) (pool_modify Q) ops p = Some (p', os) \<and>
    pool_rep Q {} (sl_free A) p' \<and> pool_capacity Q p' = sl_cap A \<and> objs Q p' = sl_live A"
  using assms
proof (induction ops arbitrary: fl p os)
  case (Cons opn ops)
  let ?A = "\<lparr>sl_free = fl, sl_cap = pool_capacity Q p, sl_live = objs Q p\<rparr>"
  from Cons.prems(2) obtain A1 out outs where
    st: "spec_slot (chunk_capacity Q) (o_max Q) opn ?A = Some (A1, out)"
    and rest: "spec_slots (chunk_capacity Q) (o_max Q) ops A1 = Some (A, outs)" "os = out # outs"
    by (auto split: option.splits)
  have go: "\<exists>p'. run_pool (pool_allocate Q) (pool_release Q) (pool_modify Q) ops p1 = Some (p', outs) \<and>
    pool_rep Q {} (sl_free A) p' \<and> pool_capacity Q p' = sl_cap A \<and> objs Q p' = sl_live A"
    if "pool_rep Q {} (sl_free A1) p1" "pool_capacity Q p1 = sl_cap A1" "objs Q p1 = sl_live A1" for p1
    using Cons.IH [OF that(1)] rest(1) that(2,3) by (cases A1) simp
  show ?case
  proof (cases opn)
    case al: (Pool_alloc x)
    show ?thesis
    proof (cases fl)
      case (Cons r fl')
      obtain p1 where "pool_allocate Q x p = Some (Inr (r, p1))" "pool_rep Q {} fl' p1"
        "pool_capacity Q p1 = pool_capacity Q p" "objs Q p1 = (objs Q p)(r \<mapsto> x)"
        by (rule rep_allocate_pop [OF Cons.prems(1) [unfolded Cons], of x])
      with go [of p1] st al Cons rest(2) show ?thesis by auto
    next
      case Nil
      note r' = Cons.prems(1) [unfolded Nil]
      show ?thesis
      proof (cases "pool_capacity Q p + chunk_capacity Q \<le> o_max Q")
        case True
        obtain p1 where "pool_allocate Q x p = Some (Inr (pool_capacity Q p, p1))"
          "pool_rep Q {} [pool_capacity Q p + 1..<pool_capacity Q p + chunk_capacity Q] p1"
          "pool_capacity Q p1 = pool_capacity Q p + chunk_capacity Q" "objs Q p1 = (objs Q p)(pool_capacity Q p \<mapsto> x)"
          by (rule rep_allocate_grow [OF r' True, of x])
        with go [of p1] st al Nil True rest(2) show ?thesis by auto
      next
        case False
        then have "pool_allocate Q x p = Some (Inl Check_failure)"
          using grow_full [OF r'] by (simp add: pool_allocate_def)
        with go [of p] st al Nil False rest(2) Cons.prems(1) show ?thesis by auto
      qed
    qed
  next
    case fr: (Pool_free r)
    with st obtain x where x: "objs Q p r = Some x" by auto
    obtain p1 where "pool_release Q r p = Some (Inr (x, p1))" "pool_rep Q {} (r # fl) p1"
      "objs Q p1 = (objs Q p)(r := None)" "pool_capacity Q p1 = pool_capacity Q p"
      by (rule rep_release_slot [OF Cons.prems(1) x])
    with go [of p1] st fr x rest(2) show ?thesis by auto
  next
    case se: (Pool_set r y)
    with st obtain x where x: "objs Q p r = Some x" by auto
    obtain p1 where "pool_modify Q r (\<lambda>_. y) p = Some p1" "pool_rep Q {} fl p1"
      "objs Q p1 = (objs Q p)(r \<mapsto> y)" "pool_capacity Q p1 = pool_capacity Q p"
      by (rule rep_modify [OF Cons.prems(1) x, of "\<lambda>_. y"])
    with go [of p1] st se x rest(2) show ?thesis by auto
  qed
qed auto

interpretation pool: slot_pool "pool_inv Q" "objs Q" "pool_full Q" "pool_allocate Q" "pool_release Q" "pool_modify Q"
  for Q :: pool_opts
proof
  fix p :: "'a pool" and x y :: 'a and r f p'
  assume inv: "pool_inv Q p"
  show "\<exists>r p'. pool_allocate Q x p = Some (Inr (r, p')) \<and> pool_inv Q p' \<and> objs Q p r = None \<and> objs Q p' = (objs Q p)(r \<mapsto> x)"
    if "\<not> pool_full Q p"
    using pool_allocate_spec [OF inv that] by metis
  show "\<exists>e. pool_allocate Q x p = Some (Inl e)" if "pool_full Q p"
    using pool_allocate_full [OF inv that] by blast
  show "\<exists>p'. pool_modify Q r f p = Some p' \<and> pool_inv Q p' \<and> objs Q p' = (objs Q p)(r \<mapsto> f x)" if "objs Q p r = Some x"
    using pool_modify_spec [OF inv that] by metis
  show "\<exists>p'. pool_release Q r p = Some (Inr (x, p')) \<and> pool_inv Q p' \<and> objs Q p' = (objs Q p)(r := None) \<and> \<not> pool_full Q p'"
    if "objs Q p r = Some x"
    using pool_release_spec [OF inv that] pool_release_not_full(1) [OF inv that] by metis
  show "\<exists>p''. pool_allocate Q y p' = Some (Inr (r, p''))"
    if rel: "pool_release Q r p = Some (Inr (x, p'))" and x: "objs Q p r = Some x"
  proof -
    note nf = pool_release_not_full [OF inv x rel]
    have inv': "pool_inv Q p'" using pool_release_spec [OF inv x] rel by auto
    from pool_allocate_spec [OF inv' nf(1), of y] nf(2,3) show ?thesis by metis
  qed
qed

section \<open>A concrete pool\<close>

definition demo_pool_opts :: pool_opts where
  "demo_pool_opts = \<lparr>o_shift = 1, o_max = 7, o_check_input = True\<rparr>"

definition demo_pool :: "'a pool" where
  "demo_pool = \<lparr>m_chunks = [[Free_link 1, Free_link 7]], m_chunk_count = 1, m_free_list = 0\<rparr>"

lemma demo_pool_new: "object_pool demo_pool_opts 2 = Inr demo_pool"
proof -
  have r: "replicate 2 Raw = [Raw, Raw]" by (simp add: numeral_2_eq_2)
  show ?thesis
    by (simp add: object_pool_def fixed_size_allocator_def create_def chunk_capacity_def demo_pool_opts_def demo_pool_def
      Let_def write_cell_def chunk_index_def chunk_offset_def chunk_offset_mask_def null_ref_def r drop_bit_eq_div)
qed

lemma no_two: "{} \<noteq> {..<2::nat}"
  by (metis empty_iff lessThan_iff zero_less_numeral)

lemma demo_pool_inv: "pool_inv demo_pool_opts (demo_pool :: 'a pool)"
  and demo_pool_empty: "objs demo_pool_opts (demo_pool :: 'a pool) = Map.empty"
proof -
  obtain p :: "'a pool" where "object_pool demo_pool_opts 2 = Inr p" "pool_rep demo_pool_opts {} [0..<2] p"
    "objs demo_pool_opts p = Map.empty"
    by (rule object_pool_spec [of 2 demo_pool_opts]) (auto simp: demo_pool_opts_def chunk_capacity_def)
  then show "pool_inv demo_pool_opts (demo_pool :: 'a pool)" "objs demo_pool_opts (demo_pool :: 'a pool) = Map.empty"
    by (auto simp: demo_pool_new pool_inv_def)
qed

lemma demo_pool_rep: "pool_rep demo_pool_opts {} [0, 1] (demo_pool :: 'a pool)"
proof -
  obtain p :: "'a pool" where "object_pool demo_pool_opts 2 = Inr p" "pool_rep demo_pool_opts {} [0..<2] p"
    "objs demo_pool_opts p = Map.empty"
    by (rule object_pool_spec [of 2 demo_pool_opts]) (auto simp: demo_pool_opts_def chunk_capacity_def)
  then show ?thesis by (simp add: demo_pool_new upt_conv_Cons)
qed

lemma demo_pool_facts: "pool_capacity demo_pool_opts demo_pool = 2" "m_free_list demo_pool = 0" "null_ref demo_pool_opts = 7"
  by (simp_all add: pool_capacity_def demo_pool_def demo_pool_opts_def chunk_capacity_def null_ref_def)

lemma demo_pool_limits: "chunk_capacity demo_pool_opts = 2" "o_max demo_pool_opts = 7"
  by (simp_all add: demo_pool_opts_def chunk_capacity_def)

lemma demo_pool_not_full: "\<not> pool_full demo_pool_opts demo_pool"
  by (auto simp: pool_full_def demo_pool_facts demo_pool_empty no_two)

lemma demo_pool_alloc:
  fixes x :: 'a
  obtains p where "pool_allocate demo_pool_opts x demo_pool = Some (Inr (0, p))" "pool_inv demo_pool_opts p"
    "objs demo_pool_opts p = [0 \<mapsto> x]" "\<not> pool_full demo_pool_opts p"
proof -
  obtain ref p where p: "pool_allocate demo_pool_opts x demo_pool = Some (Inr (ref, p))" "pool_inv demo_pool_opts p"
    "objs demo_pool_opts (demo_pool :: 'a pool) ref = None" "objs demo_pool_opts p = (objs demo_pool_opts demo_pool)(ref \<mapsto> x)"
    "pool_capacity demo_pool_opts p = (if dom (objs demo_pool_opts (demo_pool :: 'a pool)) = {..<pool_capacity demo_pool_opts (demo_pool :: 'a pool)}
       then pool_capacity demo_pool_opts (demo_pool :: 'a pool) + chunk_capacity demo_pool_opts
       else pool_capacity demo_pool_opts (demo_pool :: 'a pool))"
    "m_free_list (demo_pool :: 'a pool) \<noteq> null_ref demo_pool_opts \<Longrightarrow> ref = m_free_list (demo_pool :: 'a pool)"
    by (rule pool_allocate_spec [OF demo_pool_inv demo_pool_not_full, of x]) (rule that, simp_all)
  have r: "ref = 0" using p(6) by (simp add: demo_pool_facts)
  have c: "pool_capacity demo_pool_opts p = 2" using p(5) by (simp add: demo_pool_empty demo_pool_facts no_two)
  have o: "objs demo_pool_opts p = [0 \<mapsto> x]" using p(4) r by (simp add: demo_pool_empty)
  have "(1::nat) \<notin> dom (objs demo_pool_opts p)" "(1::nat) \<in> {..<2}" by (simp_all add: o)
  then have "dom (objs demo_pool_opts p) \<noteq> {..<2}" by metis
  then have "\<not> pool_full demo_pool_opts p" by (simp add: pool_full_def c)
  then show ?thesis by (rule that [OF p(1) [unfolded r] p(2) o])
qed

section \<open>Properties\<close>

text \<open>
  The pool's constructor rounds the requested capacity up to whole chunks and starts with
  every slot free; it fails exactly for a zero request and for one whose references would
  overflow the pointer type.
\<close>

theorem object_pool_exact:
  fixes r :: "'a pool result"
  assumes "1 \<le> o_shift Q" "r = object_pool Q initial"
    and "n = (initial + chunk_capacity Q - 1) div chunk_capacity Q * chunk_capacity Q"
  shows "if initial = 0 \<or> o_max Q < n then r = Inl Check_failure
    else \<exists>p. r = Inr p \<and> pool_inv Q p \<and> objs Q p = Map.empty \<and> pool_capacity Q p = n \<and> initial \<le> n"
proof (cases "initial = 0 \<or> o_max Q < n")
  case True
  with assms show ?thesis by (auto simp: object_pool_def fixed_size_allocator_def create_def Let_def)
next
  case False
  then have ok: "0 < initial" "n \<le> o_max Q" by auto
  obtain p :: "'a pool" where "object_pool Q initial = Inr p" "pool_rep Q {} [0..<n] p" "pool_capacity Q p = n"
    "initial \<le> n" "objs Q p = Map.empty"
    using object_pool_spec [OF ok(1) _ assms(1), folded assms(3)] ok(2) by metis
  with False assms(2) show ?thesis by (auto simp: pool_inv_def)
qed

lemma object_pool_exact_witness: "object_pool demo_pool_opts 9 = (Inl Check_failure :: nat pool result)"
  using object_pool_exact [of demo_pool_opts "object_pool demo_pool_opts 9 :: nat pool result" 9, OF _ refl refl]
  by (simp add: demo_pool_opts_def chunk_capacity_def)

text \<open>
  C9: \<open>allocate\<close> seats the object in a slot that was not live, leaving every live object in
  place; the pool grows by one chunk exactly when all its slots are live, and the allocation
  fails exactly when that chunk would overflow the pointer type.
\<close>

theorem pool_allocate_exact:
  assumes "pool_inv Q p"
  shows "if dom (objs Q p) = {..<pool_capacity Q p} \<and> o_max Q < pool_capacity Q p + chunk_capacity Q
    then pool_allocate Q x p = Some (Inl Check_failure)
    else \<exists>ref p'. pool_allocate Q x p = Some (Inr (ref, p')) \<and> pool_inv Q p' \<and> objs Q p ref = None \<and>
      objs Q p' = (objs Q p)(ref \<mapsto> x) \<and>
      pool_capacity Q p' = (if dom (objs Q p) = {..<pool_capacity Q p} then pool_capacity Q p + chunk_capacity Q
         else pool_capacity Q p)"
proof (cases "pool_full Q p")
  case True
  with pool_allocate_full [OF assms True] show ?thesis by (simp add: pool_full_def)
next
  case False
  from pool_allocate_spec [OF assms False, of x] obtain ref p' where
    "pool_allocate Q x p = Some (Inr (ref, p'))" "pool_inv Q p'" "objs Q p ref = None"
    "objs Q p' = (objs Q p)(ref \<mapsto> x)"
    "pool_capacity Q p' = (if dom (objs Q p) = {..<pool_capacity Q p} then pool_capacity Q p + chunk_capacity Q
       else pool_capacity Q p)" by metis
  with False show ?thesis unfolding pool_full_def by (simp only: if_False) blast
qed

lemma pool_allocate_exact_witness:
  "\<exists>ref p'. pool_allocate demo_pool_opts (5::nat) demo_pool = Some (Inr (ref, p')) \<and> objs demo_pool_opts p' = [ref \<mapsto> 5]"
  using pool_allocate_exact [OF demo_pool_inv, of 5] by (auto simp: demo_pool_empty demo_pool_facts no_two)

text \<open>
  C3: a pool whose free slots are linked into the stack \<open>fl\<close> runs any program of allocations,
  releases and mutations that keeps to live references exactly as the abstract pool does: the
  same references handed out in the same order (a released slot first), the same objects
  destructed, the same refusals, and the same live objects, capacity and free stack
  afterwards. An object the program does not touch keeps its reference and contents.
  The raw \<open>release\<close> of a live slot relinks it exactly as the destructing one does, and a checked
  release of a reference outside the capacity is refused.
\<close>

theorem pool_program_refines:
  assumes "pool_rep Q {} fl p"
    and "spec_slots (chunk_capacity Q) (o_max Q) ops \<lparr>sl_free = fl, sl_cap = pool_capacity Q p, sl_live = objs Q p\<rparr> = Some (A, os)"
  shows "(\<exists>p'. run_pool (pool_allocate Q) (pool_release Q) (pool_modify Q) ops p = Some (p', os) \<and>
      pool_rep Q {} (sl_free A) p' \<and> pool_capacity Q p' = sl_cap A \<and> objs Q p' = sl_live A) \<and>
    (\<forall>r x. objs Q p r = Some x \<longrightarrow> (\<forall>opn\<in>set ops. \<not> touches r opn) \<longrightarrow> sl_live A r = Some x) \<and>
    (\<forall>r. r \<in> dom (objs Q p) \<longrightarrow> (\<exists>x p'. pool_release Q r p = Some (Inr (x, p')) \<and> release Q r p = Some (Inr p'))) \<and>
    (\<forall>r. o_check_input Q \<longrightarrow> pool_capacity Q p \<le> r \<longrightarrow>
      pool_release Q r p = Some (Inl Out_of_bounds) \<and> release Q r p = Some (Inl Out_of_bounds))"
proof (intro conjI allI impI)
  show "\<exists>p'. run_pool (pool_allocate Q) (pool_release Q) (pool_modify Q) ops p = Some (p', os) \<and>
      pool_rep Q {} (sl_free A) p' \<and> pool_capacity Q p' = sl_cap A \<and> objs Q p' = sl_live A"
    by (rule run_slots [OF assms])
next
  fix r x assume "objs Q p r = Some x" "\<forall>opn\<in>set ops. \<not> touches r opn"
  with spec_slots_stable [OF chunk_capacity_pos rep_slots_ok [OF assms(1)] assms(2)] show "sl_live A r = Some x" by simp
next
  fix r assume "r \<in> dom (objs Q p)"
  then obtain x where x: "objs Q p r = Some x" by auto
  from rep_release_slot [OF assms(1) x]
  show "\<exists>x p'. pool_release Q r p = Some (Inr (x, p')) \<and> release Q r p = Some (Inr p')" by metis
next
  fix r assume "o_check_input Q" "pool_capacity Q p \<le> r"
  then show "pool_release Q r p = Some (Inl Out_of_bounds)" "release Q r p = Some (Inl Out_of_bounds)"
    by (simp_all add: pool_release_def release_def dereference_out)
qed

lemma pool_program_refines_witness:
  "\<exists>p'. run_pool (pool_allocate demo_pool_opts) (pool_release demo_pool_opts) (pool_modify demo_pool_opts)
      [Pool_alloc (5::nat), Pool_alloc 6, Pool_set 1 8, Pool_free 0, Pool_free 1, Pool_alloc 7, Pool_alloc 9, Pool_alloc 4] demo_pool =
        Some (p', [Out_ref 0, Out_ref 1, Out_set, Out_obj 5, Out_obj 8, Out_ref 1, Out_ref 0, Out_ref 2]) \<and>
      objs demo_pool_opts p' = [0 \<mapsto> 9, 1 \<mapsto> 7, 2 \<mapsto> 4] \<and> pool_rep demo_pool_opts {} [3] p'"
proof -
  let ?ops = "[Pool_alloc (5::nat), Pool_alloc 6, Pool_set 1 8, Pool_free 0, Pool_free 1, Pool_alloc 7, Pool_alloc 9, Pool_alloc 4]"
  have "spec_slots (chunk_capacity demo_pool_opts) (o_max demo_pool_opts) ?ops
      \<lparr>sl_free = [0, 1], sl_cap = pool_capacity demo_pool_opts demo_pool, sl_live = objs demo_pool_opts demo_pool\<rparr> =
    Some (\<lparr>sl_free = [3], sl_cap = 4, sl_live = [0 \<mapsto> 9, 1 \<mapsto> 7, 2 \<mapsto> 4]\<rparr>,
      [Out_ref 0, Out_ref 1, Out_set, Out_obj 5, Out_obj 8, Out_ref 1, Out_ref 0, Out_ref 2])"
    by (simp add: demo_pool_facts demo_pool_empty demo_pool_limits upt_conv_Cons) (auto simp: fun_eq_iff)
  from pool_program_refines [OF demo_pool_rep this] show ?thesis by auto
qed

text \<open>
  releasing a live reference destructs its object and nothing else, and the next
  allocation recycles exactly that slot.
\<close>

theorem pool_release_recycles:
  assumes "pool_inv Q p" "objs Q p ref = Some x"
  shows "\<exists>p' p''. pool_release Q ref p = Some (Inr (x, p')) \<and> pool_inv Q p' \<and> objs Q p' = (objs Q p)(ref := None) \<and>
    pool_allocate Q y p' = Some (Inr (ref, p'')) \<and> objs Q p'' = (objs Q p)(ref \<mapsto> y)"
proof -
  obtain p' where p': "pool_release Q ref p = Some (Inr (x, p'))" "pool_inv Q p'" "objs Q p' = (objs Q p)(ref := None)"
    using pool.free_law [OF assms] by blast
  obtain p'' where p'': "pool_allocate Q y p' = Some (Inr (ref, p''))"
    using pool.free_recycles [OF assms(1) p'(1) assms(2)] by blast
  with pool.alloc_fresh [OF p'(2) p''] p' show ?thesis by auto
qed

lemma pool_release_recycles_witness:
  "\<exists>ref p p' p''. pool_allocate demo_pool_opts (5::nat) demo_pool = Some (Inr (ref, p)) \<and>
     pool_release demo_pool_opts ref p = Some (Inr (5, p')) \<and> pool_allocate demo_pool_opts 6 p' = Some (Inr (ref, p''))"
proof -
  obtain ref p where p: "pool_allocate demo_pool_opts (5::nat) demo_pool = Some (Inr (ref, p))" "pool_inv demo_pool_opts p"
    "objs demo_pool_opts p = (objs demo_pool_opts demo_pool)(ref \<mapsto> 5)"
    using pool_allocate_spec [OF demo_pool_inv demo_pool_not_full] by metis
  then have "objs demo_pool_opts p ref = Some 5" by simp
  from pool_release_recycles [OF p(2) this, of 6] p(1) show ?thesis by blast
qed

text \<open>
  The allocation bitmap always terminates and marks exactly the live slots, and the
  pool's destructor destructs each live object exactly once, in slot order.
\<close>

theorem pool_destructor_exact:
  assumes "pool_inv Q p"
  shows "\<exists>bits refs. allocation_bitmap Q p = Some bits \<and> length bits = pool_capacity Q p \<and>
    (\<forall>r < pool_capacity Q p. bits ! r \<longleftrightarrow> r \<in> dom (objs Q p)) \<and>
    pool_destructor Q p = Some (map (\<lambda>r. the (objs Q p r)) refs) \<and> distinct refs \<and> sorted refs \<and> set refs = dom (objs Q p)"
proof -
  let ?refs = "filter (\<lambda>r. r \<in> dom (objs Q p)) [0..<pool_capacity Q p]"
  have "set ?refs = dom (objs Q p)" using dom_objs [of Q p] by auto
  moreover have "sorted ?refs" "distinct ?refs" by (simp_all add: sorted_wrt_filter)
  ultimately show ?thesis
    using allocation_bitmap_spec [OF assms] pool_destructor_spec [OF assms] by (intro exI conjI) auto
qed

lemma pool_destructor_exact_witness: "pool_destructor demo_pool_opts (demo_pool :: nat pool) = Some []"
  using pool_destructor_exact [OF demo_pool_inv] by (auto simp: demo_pool_empty)

end
