(* ===== verification/Prices.thy ===== *)
theory Prices
  imports Vrt_Prelude
begin

text \<open>
  Prices of \<^verbatim>\<open>vr/market/prices.h\<close> with the ASX scales of \<^verbatim>\<open>vr/market/sources/asx/defs.h\<close>:
  a wire price is an \<open>int32_t\<close> in ten-thousandths, a book price an \<open>int64_t\<close> in ten-millionths,
  and the smallest value of either type stands for a missing price. Sides are in
  \<^verbatim>\<open>vr/market/defs.h\<close>.
\<close>

section \<open>Sides\<close>

datatype side = BID | ASK

primrec side_not :: "side \<Rightarrow> side" where
  "side_not BID = ASK"
| "side_not ASK = BID"

primrec side_ord :: "side \<Rightarrow> int" where
  "side_ord BID = 0"
| "side_ord ASK = 1"

definition side_sign :: "side \<Rightarrow> int" where
  "side_sign s = 1 - 2 * side_ord s"

datatype ord_side = Buy | Sell | Short

definition to_side :: "ord_side \<Rightarrow> side" where
  "to_side e = (if e = Buy then BID else ASK)"

lemma side_sign_simps [simp]: "side_sign BID = 1" "side_sign ASK = - 1"
  by (simp_all add: side_sign_def)

lemma side_not_neq [simp]: "side_not s \<noteq> s" "side_not (side_not s) = s" "s \<noteq> side_not s"
  by (cases s; simp)+

section \<open>Scaling\<close>

definition price_si_scale :: int where
  "price_si_scale = 10000000"

definition na_int :: "nat \<Rightarrow> int" where
  "na_int w = - (2 ^ (w - 1))"

text \<open>
  Integer scaling: the product is an \<open>int64_t\<close> (the ratio's numerator is \<open>intmax_t\<close>), the
  quotient truncates towards zero, and the result is stored in \<open>lhs_bits\<close> bits.
\<close>

definition trunc_div :: "int \<Rightarrow> int \<Rightarrow> int" where
  "trunc_div a b = (if 0 \<le> a then a div b else - (- a div b))"

definition scale_price :: "nat \<Rightarrow> nat \<Rightarrow> int \<Rightarrow> int \<Rightarrow> bool \<Rightarrow> int \<Rightarrow> int" where
  "scale_price lhs_bits rhs_bits num den na_aware v =
     (if na_aware \<and> v = na_int rhs_bits then na_int lhs_bits
      else narrow lhs_bits (trunc_div (narrow 64 (v * num)) den))"

definition wire_to_book :: "int \<Rightarrow> int" where
  "wire_to_book v = scale_price 64 32 (price_si_scale div 10000) 1 True v"

definition book_to_wire :: "int \<Rightarrow> int" where
  "book_to_wire v = scale_price 32 64 1 (price_si_scale div 10000) False v"

section \<open>Wire prices through the book\<close>

definition int32 :: "int \<Rightarrow> bool" where
  "int32 v \<longleftrightarrow> - (2 ^ 31) \<le> v \<and> v < 2 ^ 31"

lemma wire_to_book_simps:
  assumes "int32 v"
  shows "wire_to_book v = (if v = - (2 ^ 31) then - (2 ^ 63) else 1000 * v)"
proof (cases "v = - (2 ^ 31)")
  case True
  then show ?thesis by (simp add: wire_to_book_def scale_price_def na_int_def)
next
  case False
  have "narrow 64 (v * 1000) = v * 1000"
    by (rule narrow_id) (use assms in \<open>auto simp: int32_def\<close>)
  then show ?thesis
    using False by (simp add: wire_to_book_def scale_price_def na_int_def price_si_scale_def trunc_div_def)
qed

lemma wire_to_book_mono:
  assumes "int32 v" "int32 w" "v < w"
  shows "wire_to_book v < wire_to_book w"
  using assms by (auto simp: wire_to_book_simps int32_def)

lemma book_to_wire_book:
  assumes "int32 v" "v \<noteq> - (2 ^ 31)"
  shows "book_to_wire (wire_to_book v) = v"
proof -
  have "narrow 64 (1000 * v) = 1000 * v" by (rule narrow_id) (use assms in \<open>auto simp: int32_def\<close>)
  moreover have "narrow 32 v = v" by (rule narrow_id) (use assms in \<open>auto simp: int32_def\<close>)
  moreover have "trunc_div (1000 * v) 1000 = v"
    using nonzero_mult_div_cancel_left [of 1000 "- v"] by (simp add: trunc_div_def)
  ultimately show ?thesis
    using assms by (simp add: wire_to_book_simps book_to_wire_def scale_price_def price_si_scale_def)
qed

section \<open>Properties\<close>

text \<open>
  C10: a wire price survives the trip into the book and back unless it is the missing-price
  marker, which the way back does not know and truncates to 1511828489; and the conversion into the book preserves the order of
  all wire prices, the marker included, so the book sorts by what the exchange sent.
\<close>

theorem price_roundtrip:
  assumes "int32 v" "int32 w"
  shows "book_to_wire (wire_to_book v) = (if v = - (2 ^ 31) then 1511828489 else v) \<and>
    (wire_to_book v < wire_to_book w \<longleftrightarrow> v < w) \<and> (wire_to_book v = wire_to_book w \<longleftrightarrow> v = w)"
proof -
  have na: "book_to_wire (wire_to_book (- (2 ^ 31))) = 1511828489"
    by (simp add: wire_to_book_simps int32_def book_to_wire_def scale_price_def price_si_scale_def narrow_def trunc_div_def)
  have "wire_to_book v < wire_to_book w \<longleftrightarrow> v < w" "wire_to_book v = wire_to_book w \<longleftrightarrow> v = w"
    using wire_to_book_mono [OF assms] wire_to_book_mono [OF assms(2,1)] by (metis less_asym linorder_neqE)+
  then show ?thesis using na book_to_wire_book [OF assms(1)] by auto
qed

lemma price_roundtrip_witness: "book_to_wire (wire_to_book 12345) = 12345 \<and> wire_to_book (- 5) < wire_to_book 12345"
  using price_roundtrip [of 12345 "- 5"] price_roundtrip [of "- 5" 12345] by (simp add: int32_def)

end
