(* ===== verification/Limit_Book.thy ===== *)
theory Limit_Book
  imports Scatter_Props Pool_Props Prices
begin

text \<open>
  The limit order book of \<^verbatim>\<open>vr/market/books/limit_order_book.h\<close> and
  \<^verbatim>\<open>books/impl/limit_order_book_impl.h\<close>: orders and price levels in object pools, an
  id-to-order hash table and a price map per side. The intrusive list of a level's orders and
  the intrusive splay tree of a side's levels are Boost's: they are the operations of the
  record \<open>lob_env\<close>, and \<open>env_ok\<close> states what Boost documents of them.
\<close>

section \<open>Data\<close>

record lob_order =
  o_parent :: nat
  o_qty :: int

record 'l lob_level =
  l_price :: int
  l_qty :: int
  l_order_count :: int
  l_orders :: 'l

record 'pm book_side =
  bs_oid_map :: "(int, nat) cst"
  bs_price_map :: 'pm

record ('l, 'pm) lob =
  b_order_pool :: "lob_order pool"
  b_level_pool :: "'l lob_level pool"
  b_side :: "side \<Rightarrow> 'pm book_side"

text \<open>
  The template arguments (\<open>e_has_qty\<close>, \<open>e_has_order_count\<close>, \<open>e_const_depth\<close>, the pools' and
  the table's options) and Boost's containers: \<open>e_list_*\<close> work on a level's list of order
  references; \<open>e_pm_*\<close> on a side's tree, whose nodes are level references. \<open>e_pm_nodes\<close> is the
  iteration from \<open>begin\<close> to \<open>end\<close>, and an iterator is a position in it.
\<close>

record ('l, 'pm) lob_env =
  e_has_qty :: bool
  e_has_order_count :: bool
  e_oid_traits :: "int cst_traits"
  e_order_opts :: pool_opts
  e_level_opts :: pool_opts
  e_list_new :: 'l
  e_list_refs :: "'l \<Rightarrow> nat list"
  e_list_push_front :: "nat \<Rightarrow> 'l \<Rightarrow> 'l"
  e_list_erase :: "nat \<Rightarrow> 'l \<Rightarrow> 'l"
  e_list_front :: "'l \<Rightarrow> nat"
  e_list_empty :: "'l \<Rightarrow> bool"
  e_list_splice_front :: "nat \<Rightarrow> 'l \<Rightarrow> 'l \<Rightarrow> 'l \<times> 'l"
  e_pm_new :: "side \<Rightarrow> 'pm"
  e_pm_nodes :: "'pm \<Rightarrow> (int \<times> nat) list"
  e_pm_side :: "'pm \<Rightarrow> side"
  e_pm_insert_check :: "int \<Rightarrow> 'pm \<Rightarrow> nat option"
  e_pm_insert_commit :: "int \<Rightarrow> nat \<Rightarrow> 'pm \<Rightarrow> 'pm"
  e_pm_erase :: "nat \<Rightarrow> 'pm \<Rightarrow> 'pm"
  e_pm_find :: "int \<Rightarrow> 'pm \<Rightarrow> nat"
  e_pm_lower_bound :: "int \<Rightarrow> 'pm \<Rightarrow> nat"
  e_pm_upper_bound :: "int \<Rightarrow> 'pm \<Rightarrow> nat"

text \<open>The comparator of a side's price map: towards the inside first.\<close>

definition before :: "side \<Rightarrow> int \<Rightarrow> int \<Rightarrow> bool" where
  "before s lhs rhs \<longleftrightarrow> (if s = BID then rhs < lhs else lhs < rhs)"

definition initial_oid_map_capacity :: int where
  "initial_oid_map_capacity = 512"

definition default_order :: lob_order where
  "default_order = \<lparr>o_parent = 0, o_qty = 0\<rparr>"

definition default_level :: "('l, 'pm) lob_env \<Rightarrow> 'l lob_level" where
  "default_level E = \<lparr>l_price = 0, l_qty = 0, l_order_count = 0, l_orders = e_list_new E\<rparr>"

section \<open>Construction\<close>

definition book_side_new :: "('l, 'pm) lob_env \<Rightarrow> side \<Rightarrow> 'pm book_side result" where
  "book_side_new E s =
     bind_r (cst_new (e_oid_traits E) initial_oid_map_capacity)
       (\<lambda>oids. Inr \<lparr>bs_oid_map = oids, bs_price_map = e_pm_new E s\<rparr>)"

definition lob_new :: "('l, 'pm) lob_env \<Rightarrow> lob_order pool \<Rightarrow> 'l lob_level pool \<Rightarrow> ('l, 'pm) lob result" where
  "lob_new E orders levels =
     bind_r (book_side_new E BID) (\<lambda>bid. bind_r (book_side_new E ASK) (\<lambda>ask.
       Inr \<lparr>b_order_pool = orders, b_level_pool = levels, b_side = (\<lambda>s. if s = BID then bid else ask)\<rparr>))"

definition set_side :: "side \<Rightarrow> 'pm book_side \<Rightarrow> ('l, 'pm) lob \<Rightarrow> ('l, 'pm) lob" where
  "set_side s bs b = b\<lparr>b_side := (b_side b)(s := bs)\<rparr>"

section \<open>Price queries\<close>

definition find_eq_price :: "('l, 'pm) lob_env \<Rightarrow> 'pm \<Rightarrow> int \<Rightarrow> nat" where
  "find_eq_price E pm price = e_pm_find E price pm"

definition find_next_worse_price :: "('l, 'pm) lob_env \<Rightarrow> 'pm \<Rightarrow> int \<Rightarrow> nat" where
  "find_next_worse_price E pm price = e_pm_upper_bound E price pm"

definition find_eq_or_next_worse_price :: "('l, 'pm) lob_env \<Rightarrow> 'pm \<Rightarrow> int \<Rightarrow> nat" where
  "find_eq_or_next_worse_price E pm price = e_pm_lower_bound E price pm"

definition find_next_better_price :: "('l, 'pm) lob_env \<Rightarrow> 'pm \<Rightarrow> int \<Rightarrow> nat" where
  "find_next_better_price E pm price =
     (let i = e_pm_lower_bound E price pm in if i \<noteq> 0 then i - 1 else i)"

definition find_eq_or_next_better_price :: "('l, 'pm) lob_env \<Rightarrow> 'pm \<Rightarrow> int \<Rightarrow> nat" where
  "find_eq_or_next_better_price E pm price =
     (let i = e_pm_upper_bound E price pm in if i \<noteq> 0 then i - 1 else i)"

text \<open>\<open>None\<close> is \<open>nullptr\<close>: the iterator is \<open>end\<close>.\<close>

definition level_at :: "('l, 'pm) lob_env \<Rightarrow> 'pm \<Rightarrow> nat \<Rightarrow> (int \<times> nat) option" where
  "level_at E pm i = (if i = length (e_pm_nodes E pm) then None else Some (e_pm_nodes E pm ! i))"

definition eq_price :: "('l, 'pm) lob_env \<Rightarrow> 'pm \<Rightarrow> int \<Rightarrow> (int \<times> nat) option" where
  "eq_price E pm price = level_at E pm (find_eq_price E pm price)"

definition next_worse_price :: "('l, 'pm) lob_env \<Rightarrow> 'pm \<Rightarrow> int \<Rightarrow> (int \<times> nat) option" where
  "next_worse_price E pm price = level_at E pm (find_next_worse_price E pm price)"

definition eq_or_next_worse_price :: "('l, 'pm) lob_env \<Rightarrow> 'pm \<Rightarrow> int \<Rightarrow> (int \<times> nat) option" where
  "eq_or_next_worse_price E pm price = level_at E pm (find_eq_or_next_worse_price E pm price)"

definition next_better_price :: "('l, 'pm) lob_env \<Rightarrow> 'pm \<Rightarrow> int \<Rightarrow> (int \<times> nat) option" where
  "next_better_price E pm price = level_at E pm (find_next_better_price E pm price)"

definition eq_or_next_better_price :: "('l, 'pm) lob_env \<Rightarrow> 'pm \<Rightarrow> int \<Rightarrow> (int \<times> nat) option" where
  "eq_or_next_better_price E pm price = level_at E pm (find_eq_or_next_better_price E pm price)"

definition side_empty :: "('l, 'pm) lob_env \<Rightarrow> 'pm \<Rightarrow> bool" where
  "side_empty E pm \<longleftrightarrow> e_pm_nodes E pm = []"

definition depth :: "('l, 'pm) lob_env \<Rightarrow> 'pm \<Rightarrow> nat" where
  "depth E pm = length (e_pm_nodes E pm)"

section \<open>Order queries\<close>

definition find_order :: "('l, 'pm) lob_env \<Rightarrow> side \<Rightarrow> int \<Rightarrow> ('l, 'pm) lob \<Rightarrow> lob_order option result option" where
  "find_order E s oid b =
     (case cst_get (e_oid_traits E) (bs_oid_map (b_side b s)) oid of
        None \<Rightarrow> None
      | Some None \<Rightarrow> Some (Inr None)
      | Some (Some ref) \<Rightarrow> bind_ro (pool_get (e_order_opts E) False ref (b_order_pool b)) (\<lambda>ord. Some (Inr (Some ord))))"

definition level_of :: "('l, 'pm) lob_env \<Rightarrow> lob_order \<Rightarrow> ('l, 'pm) lob \<Rightarrow> 'l lob_level result option" where
  "level_of E ord b = pool_get (e_level_opts E) False (o_parent ord) (b_level_pool b)"

text \<open>The order count and quantity of a level, from the field or by traversal.\<close>

definition order_count :: "('l, 'pm) lob_env \<Rightarrow> 'l lob_level \<Rightarrow> int" where
  "order_count E l = (if e_has_order_count E then l_order_count l else int (length (e_list_refs E (l_orders l))))"

definition evaluate_qty :: "('l, 'pm) lob_env \<Rightarrow> ('l, 'pm) lob \<Rightarrow> 'l lob_level \<Rightarrow> int result option" where
  "evaluate_qty E b l =
     (if e_has_qty E then Some (Inr (l_qty l))
      else fold (\<lambda>ref acc. bind_ro acc (\<lambda>r. bind_ro (pool_get (e_order_opts E) False ref (b_order_pool b))
             (\<lambda>ord. Some (Inr (narrow 32 (r + o_qty ord))))))
           (e_list_refs E (l_orders l)) (Some (Inr 0)))"

section \<open>What Boost documents\<close>

text \<open>A side's iteration order, and where a price falls in it.\<close>

definition sorted_side :: "side \<Rightarrow> (int \<times> nat) list \<Rightarrow> bool" where
  "sorted_side s xs \<longleftrightarrow> sorted_wrt (\<lambda>x y. before s (fst x) (fst y)) xs"

definition list_ok :: "('l, 'pm) lob_env \<Rightarrow> bool" where
  "list_ok E \<longleftrightarrow>
     e_list_refs E (e_list_new E) = [] \<and>
     (\<forall>r l. r \<notin> set (e_list_refs E l) \<longrightarrow> e_list_refs E (e_list_push_front E r l) = r # e_list_refs E l) \<and>
     (\<forall>r l. r \<in> set (e_list_refs E l) \<longrightarrow> e_list_refs E (e_list_erase E r l) = remove1 r (e_list_refs E l)) \<and>
     (\<forall>l. e_list_refs E l \<noteq> [] \<longrightarrow> e_list_front E l = hd (e_list_refs E l)) \<and>
     (\<forall>l. e_list_empty E l \<longleftrightarrow> e_list_refs E l = [])"

definition pm_ok :: "('l, 'pm) lob_env \<Rightarrow> bool" where
  "pm_ok E \<longleftrightarrow>
     (\<forall>s. e_pm_nodes E (e_pm_new E s) = [] \<and> e_pm_side E (e_pm_new E s) = s) \<and>
     (\<forall>p r pm. e_pm_side E (e_pm_insert_commit E p r pm) = e_pm_side E pm \<and>
        e_pm_side E (e_pm_erase E r pm) = e_pm_side E pm) \<and>
     (\<forall>pm. sorted_side (e_pm_side E pm) (e_pm_nodes E pm) \<longrightarrow>
        (\<forall>p. e_pm_insert_check E p pm = map_of (e_pm_nodes E pm) p \<and>
          e_pm_lower_bound E p pm = length (takeWhile (\<lambda>x. before (e_pm_side E pm) (fst x) p) (e_pm_nodes E pm)) \<and>
          e_pm_upper_bound E p pm = length (takeWhile (\<lambda>x. \<not> before (e_pm_side E pm) p (fst x)) (e_pm_nodes E pm)) \<and>
          e_pm_find E p pm = length (takeWhile (\<lambda>x. fst x \<noteq> p) (e_pm_nodes E pm))) \<and>
        (\<forall>p r. p \<notin> fst ` set (e_pm_nodes E pm) \<longrightarrow>
          e_pm_nodes E (e_pm_insert_commit E p r pm) =
            takeWhile (\<lambda>x. before (e_pm_side E pm) (fst x) p) (e_pm_nodes E pm) @
            (p, r) # dropWhile (\<lambda>x. before (e_pm_side E pm) (fst x) p) (e_pm_nodes E pm)) \<and>
        (\<forall>r. e_pm_nodes E (e_pm_erase E r pm) = filter (\<lambda>x. snd x \<noteq> r) (e_pm_nodes E pm)))"

definition env_ok :: "('l, 'pm) lob_env \<Rightarrow> bool" where
  "env_ok E \<longleftrightarrow> list_ok E \<and> pm_ok E"

end
