(* ===== verification/Market_Data.thy ===== *)
theory Market_Data
  imports Limit_Book
begin

text \<open>
  The ASX market data listener of \<^verbatim>\<open>vr/market/books/asx/market_data_listener.h\<close>: what the
  order messages of the ITCH feed do to a limit order book.
\<close>

section \<open>Messages\<close>

record itch_order =
  m_oid :: int
  m_side :: ord_side
  m_qty :: int
  m_price :: int

section \<open>Levels and their aggregates\<close>

text \<open>The optional aggregate fields, each present only where the level's traits ask for it.\<close>

definition agg_set :: "('l, 'pm) lob_env \<Rightarrow> int \<Rightarrow> int \<Rightarrow> 'l lob_level \<Rightarrow> 'l lob_level" where
  "agg_set E qty count l =
     l\<lparr>l_qty := (if e_has_qty E then narrow 32 qty else l_qty l),
       l_order_count := (if e_has_order_count E then narrow 32 count else l_order_count l)\<rparr>"

definition agg_add :: "('l, 'pm) lob_env \<Rightarrow> int \<Rightarrow> int \<Rightarrow> 'l lob_level \<Rightarrow> 'l lob_level" where
  "agg_add E qty count l = agg_set E (l_qty l + qty) (l_order_count l + count) l"

text \<open>\<open>insert_check\<close>, and \<open>insert_commit\<close> of a level taken from the pool where there is none.\<close>

definition find_or_add_level :: "('l, 'pm) lob_env \<Rightarrow> side \<Rightarrow> int \<Rightarrow> ('l lob_level \<Rightarrow> 'l lob_level) \<Rightarrow> ('l lob_level \<Rightarrow> 'l lob_level) \<Rightarrow>
    ('l, 'pm) lob \<Rightarrow> (nat \<times> nat \<times> ('l, 'pm) lob) result option" where
  "find_or_add_level E s o_price on_new on_old b =
     (case e_pm_insert_check E o_price (bs_price_map (b_side b s)) of
        None \<Rightarrow>
          bind_ro (pool_allocate (e_level_opts E) (default_level E) (b_level_pool b)) (\<lambda>(l_ref, levels).
          bind_ro (lift_o (pool_modify (e_level_opts E) l_ref (\<lambda>l. on_new (l\<lparr>l_price := o_price\<rparr>)) levels)) (\<lambda>levels.
            let side = b_side b s;
                side = side\<lparr>bs_price_map := e_pm_insert_commit E o_price l_ref (bs_price_map side)\<rparr>
            in Some (Inr (l_ref, l_ref, (set_side s side b)\<lparr>b_level_pool := levels\<rparr>))))
      | Some l_ref \<Rightarrow>
          bind_ro (lift_o (pool_modify (e_level_opts E) l_ref on_old (b_level_pool b))) (\<lambda>levels.
          bind_ro (pool_get (e_level_opts E) False l_ref levels) (\<lambda>l.
          if e_list_empty E (l_orders l) then None
          else
            bind_ro (pool_get (e_order_opts E) False (e_list_front E (l_orders l)) (b_order_pool b)) (\<lambda>front.
              Some (Inr (l_ref, o_parent front, b\<lparr>b_level_pool := levels\<rparr>))))))"

section \<open>Visits\<close>

definition visit_order_add :: "('l, 'pm) lob_env \<Rightarrow> itch_order \<Rightarrow> ('l, 'pm) lob \<Rightarrow> ('l, 'pm) lob result option" where
  "visit_order_add E msg b =
     (let s = to_side (m_side msg); side = b_side b s in
      bind_ro (pool_allocate (e_order_opts E) default_order (b_order_pool b)) (\<lambda>(o_ref, orders).
      bind_ro (cst_put (e_oid_traits E) (m_oid msg) o_ref (bs_oid_map side)) (\<lambda>oids.
      let b = (set_side s (side\<lparr>bs_oid_map := oids\<rparr>) b)\<lparr>b_order_pool := orders\<rparr>;
          o_price = wire_to_book (m_price msg);
          o_qty = m_qty msg
      in
      bind_ro (find_or_add_level E s o_price (agg_set E o_qty 1) (agg_add E o_qty 1) b) (\<lambda>(l_ref, parent, b).
      bind_ro (lift_o (pool_modify (e_order_opts E) o_ref
          (\<lambda>ord. ord\<lparr>o_parent := parent, o_qty := narrow 32 o_qty\<rparr>) (b_order_pool b))) (\<lambda>orders.
      bind_ro (lift_o (pool_modify (e_level_opts E) l_ref
          (\<lambda>l. l\<lparr>l_orders := e_list_push_front E o_ref (l_orders l)\<rparr>) (b_level_pool b))) (\<lambda>levels.
        Some (Inr (b\<lparr>b_order_pool := orders, b_level_pool := levels\<rparr>))))))))"

text \<open>\<open>order_add_with_participant\<close> and \<open>order_fill_with_price\<close> pass on to the plain visits.\<close>

definition visit_order_add_with_participant :: "('l, 'pm) lob_env \<Rightarrow> itch_order \<Rightarrow> ('l, 'pm) lob \<Rightarrow> ('l, 'pm) lob result option" where
  "visit_order_add_with_participant E msg b = visit_order_add E msg b"

definition remove_order :: "('l, 'pm) lob_env \<Rightarrow> side \<Rightarrow> int \<Rightarrow> nat \<Rightarrow> ('l, 'pm) lob \<Rightarrow> ('l, 'pm) lob result option" where
  "remove_order E s oid o_ref b =
     (let side = b_side b s in
      bind_ro (pool_get (e_order_opts E) False o_ref (b_order_pool b)) (\<lambda>ord.
      bind_ro (lift_o (cst_remove (e_oid_traits E) oid (bs_oid_map side))) (\<lambda>(oids, _).
      let side = side\<lparr>bs_oid_map := oids\<rparr>; o_parent_ref = o_parent ord in
      bind_ro (lift_o (pool_modify (e_level_opts E) o_parent_ref
          (\<lambda>l. l\<lparr>l_orders := e_list_erase E o_ref (l_orders l)\<rparr>) (b_level_pool b))) (\<lambda>levels.
      bind_ro (pool_get (e_level_opts E) False o_parent_ref levels) (\<lambda>l.
      bind_ro
        (if e_list_empty E (l_orders l) then
           bind_ro (pool_release (e_level_opts E) o_parent_ref levels) (\<lambda>(_, levels).
             Some (Inr (side\<lparr>bs_price_map := e_pm_erase E o_parent_ref (bs_price_map side)\<rparr>, levels)))
         else
           bind_ro (lift_o (pool_modify (e_level_opts E) o_parent_ref (agg_add E (- o_qty ord) (- 1)) levels)) (\<lambda>levels.
             Some (Inr (side, levels))))
        (\<lambda>(side, levels).
      bind_ro (pool_release (e_order_opts E) o_ref (b_order_pool b)) (\<lambda>(_, orders).
        Some (Inr ((set_side s side b)\<lparr>b_order_pool := orders, b_level_pool := levels\<rparr>)))))))))"

definition visit_order_fill :: "('l, 'pm) lob_env \<Rightarrow> itch_order \<Rightarrow> ('l, 'pm) lob \<Rightarrow> ('l, 'pm) lob result option" where
  "visit_order_fill E msg b =
     (let s = to_side (m_side msg); oid = m_oid msg; qty = m_qty msg in
      case cst_get (e_oid_traits E) (bs_oid_map (b_side b s)) oid of
        None \<Rightarrow> None
      | Some None \<Rightarrow> Some (Inr b)
      | Some (Some o_ref) \<Rightarrow>
          bind_ro (pool_get (e_order_opts E) False o_ref (b_order_pool b)) (\<lambda>ord.
          let new_o_qty = o_qty ord - qty in
          if new_o_qty \<le> 0 then remove_order E s oid o_ref b
          else
            bind_ro
              (if e_has_qty E then
                 lift_o (pool_modify (e_level_opts E) (o_parent ord) (\<lambda>l. l\<lparr>l_qty := narrow 32 (l_qty l - qty)\<rparr>) (b_level_pool b))
               else Some (Inr (b_level_pool b))) (\<lambda>levels.
            bind_ro (lift_o (pool_modify (e_order_opts E) o_ref (\<lambda>ord. ord\<lparr>o_qty := narrow 32 new_o_qty\<rparr>) (b_order_pool b))) (\<lambda>orders.
              Some (Inr (b\<lparr>b_order_pool := orders, b_level_pool := levels\<rparr>))))))"

definition visit_order_fill_with_price :: "('l, 'pm) lob_env \<Rightarrow> itch_order \<Rightarrow> ('l, 'pm) lob \<Rightarrow> ('l, 'pm) lob result option" where
  "visit_order_fill_with_price E msg b = visit_order_fill E msg b"

text \<open>
  \<open>order_replace\<close>, with its statements in the source's order: the order's parent reference is
  overwritten with the destination level before it is read as the level to leave.
\<close>

definition visit_order_replace :: "('l, 'pm) lob_env \<Rightarrow> itch_order \<Rightarrow> ('l, 'pm) lob \<Rightarrow> ('l, 'pm) lob result option" where
  "visit_order_replace E msg b =
     (let s = to_side (m_side msg) in
      case cst_get (e_oid_traits E) (bs_oid_map (b_side b s)) (m_oid msg) of
        None \<Rightarrow> None
      | Some None \<Rightarrow> Some (Inr b)
      | Some (Some o_ref) \<Rightarrow>
          let price = wire_to_book (m_price msg); qty = m_qty msg in
          bind_ro (find_or_add_level E s price (agg_set E 0 0) (\<lambda>l. l) b) (\<lambda>(new_l, parent, b).
          bind_ro (lift_o (pool_modify (e_order_opts E) o_ref (\<lambda>ord. ord\<lparr>o_parent := parent\<rparr>) (b_order_pool b))) (\<lambda>orders.
          bind_ro (pool_get (e_order_opts E) False o_ref orders) (\<lambda>ord.
          let o_parent_ref = o_parent ord in
          bind_ro (pool_get (e_level_opts E) False o_parent_ref (b_level_pool b)) (\<lambda>l.
          bind_ro
            (if o_parent_ref \<noteq> new_l then
               bind_ro (pool_get (e_level_opts E) False new_l (b_level_pool b)) (\<lambda>nl.
               let (to_orders, from_orders) = e_list_splice_front E o_ref (l_orders nl) (l_orders l) in
               bind_ro (lift_o (pool_modify (e_level_opts E) new_l
                   (\<lambda>l. (agg_add E qty 1 l)\<lparr>l_orders := to_orders\<rparr>) (b_level_pool b))) (\<lambda>levels.
               bind_ro (lift_o (pool_modify (e_level_opts E) o_parent_ref
                   (\<lambda>l. l\<lparr>l_orders := from_orders\<rparr>) levels)) (\<lambda>levels.
               if e_list_empty E from_orders then
                 bind_ro (pool_release (e_level_opts E) o_parent_ref levels) (\<lambda>(_, levels).
                 let side = b_side b s in
                   Some (Inr ((set_side s (side\<lparr>bs_price_map := e_pm_erase E o_parent_ref (bs_price_map side)\<rparr>) b)
                     \<lparr>b_level_pool := levels\<rparr>)))
               else
                 bind_ro (lift_o (pool_modify (e_level_opts E) o_parent_ref (agg_add E (- o_qty ord) (- 1)) levels)) (\<lambda>levels.
                   Some (Inr (b\<lparr>b_level_pool := levels\<rparr>))))))
             else if e_has_qty E then
               bind_ro (lift_o (pool_modify (e_level_opts E) o_parent_ref
                   (\<lambda>l. l\<lparr>l_qty := narrow 32 (l_qty l + (qty - o_qty ord))\<rparr>) (b_level_pool b))) (\<lambda>levels.
                 Some (Inr (b\<lparr>b_level_pool := levels\<rparr>)))
             else Some (Inr b)) (\<lambda>b.
          bind_ro (lift_o (pool_modify (e_order_opts E) o_ref (\<lambda>ord. ord\<lparr>o_qty := narrow 32 qty\<rparr>) orders)) (\<lambda>orders.
            Some (Inr (b\<lparr>b_order_pool := orders\<rparr>)))))))))"

definition visit_order_delete :: "('l, 'pm) lob_env \<Rightarrow> itch_order \<Rightarrow> ('l, 'pm) lob \<Rightarrow> ('l, 'pm) lob result option" where
  "visit_order_delete E msg b =
     (let s = to_side (m_side msg); oid = m_oid msg; side = b_side b s in
      bind_ro (lift_o (cst_remove_and_get (e_oid_traits E) oid (bs_oid_map side))) (\<lambda>(oids, found).
      let b = set_side s (side\<lparr>bs_oid_map := oids\<rparr>) b in
      case found of
        None \<Rightarrow> Some (Inr b)
      | Some o_ref \<Rightarrow> remove_order E s oid o_ref b))"

section \<open>Messages of the feed\<close>

datatype itch_msg =
    Order_add itch_order
  | Order_add_with_participant itch_order
  | Order_fill itch_order
  | Order_fill_with_price itch_order
  | Order_replace itch_order
  | Order_delete itch_order

primrec visit :: "('l, 'pm) lob_env \<Rightarrow> itch_msg \<Rightarrow> ('l, 'pm) lob \<Rightarrow> ('l, 'pm) lob result option" where
  "visit E (Order_add m) b = visit_order_add E m b"
| "visit E (Order_add_with_participant m) b = visit_order_add_with_participant E m b"
| "visit E (Order_fill m) b = visit_order_fill E m b"
| "visit E (Order_fill_with_price m) b = visit_order_fill_with_price E m b"
| "visit E (Order_replace m) b = visit_order_replace E m b"
| "visit E (Order_delete m) b = visit_order_delete E m b"

end
