(* ===== verification/Book_Inv.thy ===== *)
theory Book_Inv
  imports Market_Data
begin

text \<open>
  The invariant of a limit order book over the maps its containers represent, and what the
  elementary updates of the listener do to one side of a book: add an order to a new or to an
  existing level, fill it, and remove it.
\<close>

section \<open>Sorted sides\<close>

lemma before_irrefl [simp]: "\<not> before s p p" by (simp add: before_def)

lemma before_trans: "before s p q \<Longrightarrow> before s q r \<Longrightarrow> before s p r"
  by (auto simp: before_def split: if_splits)

lemma before_linear: "p \<noteq> q \<Longrightarrow> before s p q \<or> before s q p"
  by (auto simp: before_def)

lemma before_asym: "before s p q \<Longrightarrow> \<not> before s q p"
  by (auto simp: before_def split: if_splits)

lemma sorted_side_distinct: "sorted_side s xs \<Longrightarrow> distinct (map fst xs)"
  by (induction xs) (auto simp: sorted_side_def)

lemma sorted_side_map_of: "sorted_side s xs \<Longrightarrow> map_of xs p = Some r \<longleftrightarrow> (p, r) \<in> set xs"
  by (rule map_of_eq_Some_iff) (rule sorted_side_distinct)

lemma sorted_side_unique: "sorted_side s xs \<Longrightarrow> (p, r) \<in> set xs \<Longrightarrow> (p, r') \<in> set xs \<Longrightarrow> r = r'"
  using sorted_side_map_of by (metis option.inject)

lemma sorted_side_filter: "sorted_side s xs \<Longrightarrow> sorted_side s (filter P xs)"
  by (simp add: sorted_side_def sorted_wrt_filter)

definition insert_level :: "side \<Rightarrow> int \<Rightarrow> nat \<Rightarrow> (int \<times> nat) list \<Rightarrow> (int \<times> nat) list" where
  "insert_level s p r xs = takeWhile (\<lambda>x. before s (fst x) p) xs @ (p, r) # dropWhile (\<lambda>x. before s (fst x) p) xs"

lemma set_insert_level [simp]: "set (insert_level s p r xs) = insert (p, r) (set xs)"
  unfolding insert_level_def by (metis Un_insert_right list.simps(15) set_append takeWhile_dropWhile_id)

lemma sorted_insert_level:
  assumes "sorted_side s xs" "p \<notin> fst ` set xs"
  shows "sorted_side s (insert_level s p r xs)"
  using assms
proof (induction xs)
  case (Cons x xs)
  show ?case
  proof (cases "before s (fst x) p")
    case True
    have "sorted_side s (insert_level s p r xs)" using Cons by (auto simp: sorted_side_def)
    moreover have "insert_level s p r (x # xs) = x # insert_level s p r xs" using True by (simp add: insert_level_def)
    ultimately show ?thesis using Cons.prems True by (auto simp: sorted_side_def)
  next
    case False
    have "before s p (fst x)" using False Cons.prems(2) before_linear [of "fst x" p s] by auto
    moreover have "before s p (fst y)" if "y \<in> set xs" for y
      using Cons.prems(1) that calculation before_trans by (auto simp: sorted_side_def)
    ultimately show ?thesis using Cons.prems(1) False by (simp add: sorted_side_def insert_level_def)
  qed
qed (simp add: sorted_side_def insert_level_def)

section \<open>The invariant of a side\<close>

definition refs :: "('l, 'pm) lob_env \<Rightarrow> 'l lob_level \<Rightarrow> nat list" where
  "refs E lv = e_list_refs E (l_orders lv)"

definition qty_sum :: "(nat \<Rightarrow> lob_order option) \<Rightarrow> nat list \<Rightarrow> int" where
  "qty_sum Om rs = (\<Sum>r\<leftarrow>rs. o_qty (the (Om r)))"

definition level_ok :: "('l, 'pm) lob_env \<Rightarrow> (nat \<Rightarrow> lob_order option) \<Rightarrow> (int \<Rightarrow> nat option) \<Rightarrow> int \<Rightarrow> nat \<Rightarrow> 'l lob_level \<Rightarrow> bool" where
  "level_ok E Om M p lr lv \<longleftrightarrow> l_price lv = p \<and> refs E lv \<noteq> [] \<and> distinct (refs E lv) \<and>
     (\<forall>r\<in>set (refs E lv). \<exists>oid ord. M oid = Some r \<and> Om r = Some ord \<and> o_parent ord = lr) \<and>
     (e_has_qty E \<longrightarrow> l_qty lv = narrow 32 (qty_sum Om (refs E lv))) \<and>
     (e_has_order_count E \<longrightarrow> l_order_count lv = narrow 32 (int (length (refs E lv))))"

definition side_ok :: "('l, 'pm) lob_env \<Rightarrow> side \<Rightarrow> (nat \<Rightarrow> lob_order option) \<Rightarrow> (nat \<Rightarrow> 'l lob_level option) \<Rightarrow>
    (int \<Rightarrow> nat option) \<Rightarrow> (int \<times> nat) list \<Rightarrow> bool" where
  "side_ok E s Om L M N \<longleftrightarrow> sorted_side s N \<and>
     (\<forall>p lr. (p, lr) \<in> set N \<longrightarrow> (\<exists>lv. L lr = Some lv \<and> level_ok E Om M p lr lv)) \<and>
     (\<forall>oid r. M oid = Some r \<longrightarrow> (\<exists>ord lv. Om r = Some ord \<and> L (o_parent ord) = Some lv \<and>
        (l_price lv, o_parent ord) \<in> set N \<and> r \<in> set (refs E lv))) \<and>
     (\<forall>a b r. M a = Some r \<longrightarrow> M b = Some r \<longrightarrow> a = b)"

lemma side_okD:
  assumes "side_ok E s Om L M N"
  shows side_sorted: "sorted_side s N"
    and side_level: "(p, lr) \<in> set N \<Longrightarrow> \<exists>lv. L lr = Some lv \<and> level_ok E Om M p lr lv"
    and side_order: "M oid = Some r \<Longrightarrow> \<exists>ord lv. Om r = Some ord \<and> L (o_parent ord) = Some lv \<and>
      (l_price lv, o_parent ord) \<in> set N \<and> r \<in> set (refs E lv)"
    and side_inj: "M a = Some r \<Longrightarrow> M b = Some r \<Longrightarrow> a = b"
  using assms unfolding side_ok_def by blast+

lemma side_okI:
  assumes "sorted_side s N"
    and "\<And>p lr. (p, lr) \<in> set N \<Longrightarrow> \<exists>lv. L lr = Some lv \<and> level_ok E Om M p lr lv"
    and "\<And>oid r. M oid = Some r \<Longrightarrow> \<exists>ord lv. Om r = Some ord \<and> L (o_parent ord) = Some lv \<and>
      (l_price lv, o_parent ord) \<in> set N \<and> r \<in> set (refs E lv)"
    and "\<And>a b r. M a = Some r \<Longrightarrow> M b = Some r \<Longrightarrow> a = b"
  shows "side_ok E s Om L M N"
  unfolding side_ok_def using assms by blast

lemma side_ok_empty: "side_ok E s Om L Map.empty []"
  by (rule side_okI) (simp_all add: sorted_side_def)

lemma qty_sum_cong: "(\<And>r. r \<in> set rs \<Longrightarrow> Om' r = Om r) \<Longrightarrow> qty_sum Om' rs = qty_sum Om rs"
  unfolding qty_sum_def by (metis (mono_tags, lifting) map_eq_conv)

lemma level_ok_cong:
  assumes "level_ok E Om M p lr lv" "\<And>r. r \<in> set (refs E lv) \<Longrightarrow> Om' r = Om r"
    and "\<And>oid r. r \<in> set (refs E lv) \<Longrightarrow> M oid = Some r \<Longrightarrow> M' oid = Some r"
  shows "level_ok E Om' M' p lr lv"
proof -
  have "\<exists>oid ord. M' oid = Some r \<and> Om' r = Some ord \<and> o_parent ord = lr" if "r \<in> set (refs E lv)" for r
    using assms that unfolding level_ok_def by metis
  then show ?thesis using assms(1) qty_sum_cong [of "refs E lv" Om' Om, OF assms(2)] by (simp add: level_ok_def)
qed

text \<open>A side only depends on its own orders and levels.\<close>

lemma side_ok_frame:
  assumes ok: "side_ok E s Om L M N" and Om: "\<And>r. r \<in> ran M \<Longrightarrow> Om' r = Om r"
    and L: "\<And>lr. lr \<in> snd ` set N \<Longrightarrow> L' lr = L lr"
  shows "side_ok E s Om' L' M N"
proof (rule side_okI)
  fix p lr assume "(p, lr) \<in> set N"
  with side_level [OF ok] obtain lv where lv: "L lr = Some lv" "level_ok E Om M p lr lv" by blast
  have "level_ok E Om' M p lr lv"
  proof (rule level_ok_cong [OF lv(2)])
    fix r assume "r \<in> set (refs E lv)"
    then have "r \<in> ran M" using lv(2) by (fastforce simp: level_ok_def ran_def)
    then show "Om' r = Om r" by (rule Om)
  qed
  with L [of lr] \<open>(p, lr) \<in> set N\<close> lv(1) show "\<exists>lv. L' lr = Some lv \<and> level_ok E Om' M p lr lv" by force
next
  fix oid r assume M: "M oid = Some r"
  with side_order [OF ok] obtain ord lv where "Om r = Some ord" "L (o_parent ord) = Some lv"
    "(l_price lv, o_parent ord) \<in> set N" "r \<in> set (refs E lv)" by blast
  with Om [of r] L [of "o_parent ord"] M show "\<exists>ord lv. Om' r = Some ord \<and> L' (o_parent ord) = Some lv \<and>
      (l_price lv, o_parent ord) \<in> set N \<and> r \<in> set (refs E lv)" by (force simp: ran_def)
qed (use side_sorted [OF ok] side_inj [OF ok] in blast)+

lemma side_order_here:
  assumes "side_ok E s Om L M N" "M oid = Some r" "Om r = Some ord" "o_parent ord = lr" "L lr = Some lv"
  shows "r \<in> set (refs E lv)" "(l_price lv, lr) \<in> set N"
  using side_order [OF assms(1,2)] assms(3-5) by auto

text \<open>The orders of a level are the side's orders with that parent.\<close>

lemma level_refs_parent:
  assumes ok: "side_ok E s Om L M N" and lv: "(p, lr) \<in> set N" "L lr = Some lv" and r: "r \<in> set (refs E lv)"
  obtains oid ord where "M oid = Some r" "Om r = Some ord" "o_parent ord = lr"
  using side_level [OF ok lv(1)] lv(2) r by (auto simp: level_ok_def)

text \<open>Another level's orders are not this one's.\<close>

lemma other_level_ok:
  assumes ok: "side_ok E s Om L M N" and lv: "(p, lr) \<in> set N" and ne: "lr \<noteq> lr0"
    and Om: "\<And>r' ord. Om r' = Some ord \<Longrightarrow> o_parent ord \<noteq> lr0 \<Longrightarrow> r' \<in> ran M \<Longrightarrow> Om' r' = Om r'"
    and M: "\<And>oid r' ord. M oid = Some r' \<Longrightarrow> Om r' = Some ord \<Longrightarrow> o_parent ord \<noteq> lr0 \<Longrightarrow> M' oid = Some r'"
  shows "\<exists>lv. L lr = Some lv \<and> level_ok E Om' M' p lr lv"
proof -
  obtain lv where l: "L lr = Some lv" "level_ok E Om M p lr lv" using side_level [OF ok lv] by blast
  have "level_ok E Om' M' p lr lv"
  proof (rule level_ok_cong [OF l(2)])
    fix r' assume r': "r' \<in> set (refs E lv)"
    obtain oid ord where o: "M oid = Some r'" "Om r' = Some ord" "o_parent ord = lr"
      using level_refs_parent [OF ok lv l(1) r'] by blast
    with Om ne show "Om' r' = Om r'" by (metis ranI)
    fix oid' assume "M oid' = Some r'"
    with M o ne show "M' oid' = Some r'" by metis
  qed
  with l show ?thesis by blast
qed

section \<open>Adding an order\<close>

lemma side_ok_add_new:
  assumes ok: "side_ok E s Om L M N"
    and fresh: "M oid = None" "r \<notin> ran M" "lr \<notin> snd ` set N" "p \<notin> fst ` set N"
    and lv: "l_price lv = p" "refs E lv = [r]"
      "e_has_qty E \<Longrightarrow> l_qty lv = narrow 32 q" "e_has_order_count E \<Longrightarrow> l_order_count lv = narrow 32 1"
    and q: "narrow 32 q = q"
  shows "side_ok E s (Om(r \<mapsto> \<lparr>o_parent = lr, o_qty = q\<rparr>)) (L(lr \<mapsto> lv)) (M(oid \<mapsto> r)) (insert_level s p lr N)"
    (is "side_ok E s ?Om ?L ?M ?N")
proof (rule side_okI)
  show "sorted_side s ?N" using sorted_insert_level [OF side_sorted [OF ok] fresh(4)] .
next
  fix p' lr' assume "(p', lr') \<in> set ?N"
  then consider "p' = p" "lr' = lr" | "(p', lr') \<in> set N" "lr' \<noteq> lr" using fresh(3) by force
  then show "\<exists>lv. ?L lr' = Some lv \<and> level_ok E ?Om ?M p' lr' lv"
  proof cases
    case 1
    have "level_ok E ?Om ?M p lr lv"
      using lv q by (auto simp: level_ok_def qty_sum_def)
    with 1 show ?thesis by simp
  next
    case 2
    have "\<exists>lv. L lr' = Some lv \<and> level_ok E ?Om ?M p' lr' lv"
      by (rule other_level_ok [OF ok 2]) (use fresh in auto)
    with 2 show ?thesis by simp
  qed
next
  fix oid' r' assume M: "?M oid' = Some r'"
  show "\<exists>ord lv. ?Om r' = Some ord \<and> ?L (o_parent ord) = Some lv \<and> (l_price lv, o_parent ord) \<in> set ?N \<and> r' \<in> set (refs E lv)"
  proof (cases "oid' = oid")
    case True
    with M lv show ?thesis by auto
  next
    case False
    with M have M': "M oid' = Some r'" by simp
    then have "r' \<noteq> r" using fresh(2) by (auto simp: ran_def)
    moreover obtain ord lv' where o: "Om r' = Some ord" "L (o_parent ord) = Some lv'"
      "(l_price lv', o_parent ord) \<in> set N" "r' \<in> set (refs E lv')" using side_order [OF ok M'] by blast
    moreover have "o_parent ord \<noteq> lr" using o(3) fresh(3) by force
    ultimately show ?thesis by auto
  qed
next
  fix a b r' assume "?M a = Some r'" "?M b = Some r'"
  then show "a = b" using side_inj [OF ok] fresh(2) by (auto simp: ran_def split: if_splits)
qed

text \<open>An update of one level and of orders below it, everything else staying.\<close>

lemma side_ok_level_update:
  assumes ok: "side_ok E s Om L M N" and lr: "(p, lr) \<in> set N"
    and new: "level_ok E Om' M' p lr lv'"
    and Om: "\<And>r' ord. Om r' = Some ord \<Longrightarrow> o_parent ord \<noteq> lr \<Longrightarrow> r' \<in> ran M \<Longrightarrow> Om' r' = Om r'"
    and M: "\<And>oid r' ord. M oid = Some r' \<Longrightarrow> Om r' = Some ord \<Longrightarrow> o_parent ord \<noteq> lr \<Longrightarrow> M' oid = Some r'"
    and M': "\<And>oid r'. M' oid = Some r' \<Longrightarrow> M oid = Some r' \<or> r' \<in> set (refs E lv')"
    and here: "\<And>oid r' ord. M' oid = Some r' \<Longrightarrow> M oid = Some r' \<Longrightarrow> Om r' = Some ord \<Longrightarrow> o_parent ord = lr \<Longrightarrow>
      r' \<in> set (refs E lv')"
    and inj: "\<And>a b r. M' a = Some r \<Longrightarrow> M' b = Some r \<Longrightarrow> a = b"
  shows "side_ok E s Om' (L(lr \<mapsto> lv')) M' N"
proof (rule side_okI)
  show "sorted_side s N" by (rule side_sorted [OF ok])
  fix p' lr' assume N: "(p', lr') \<in> set N"
  show "\<exists>lv. (L(lr \<mapsto> lv')) lr' = Some lv \<and> level_ok E Om' M' p' lr' lv"
  proof (cases "lr' = lr")
    case True
    have "p' = p" using side_level [OF ok N] side_level [OF ok lr] True by (auto simp: level_ok_def)
    with True new show ?thesis by simp
  next
    case False
    have "\<exists>lv. L lr' = Some lv \<and> level_ok E Om' M' p' lr' lv"
      by (rule other_level_ok [OF ok N False]) (use Om M in blast)+
    with False show ?thesis by simp
  qed
next
  fix oid r' assume m: "M' oid = Some r'"
  have new': "\<exists>ord lv. Om' r' = Some ord \<and> (L(lr \<mapsto> lv')) (o_parent ord) = Some lv \<and>
      (l_price lv, o_parent ord) \<in> set N \<and> r' \<in> set (refs E lv)" if "r' \<in> set (refs E lv')"
    using new that lr by (fastforce simp: level_ok_def)
  from M' [OF m] show "\<exists>ord lv. Om' r' = Some ord \<and> (L(lr \<mapsto> lv')) (o_parent ord) = Some lv \<and>
      (l_price lv, o_parent ord) \<in> set N \<and> r' \<in> set (refs E lv)"
  proof
    assume old: "M oid = Some r'"
    obtain ord lv where o: "Om r' = Some ord" "L (o_parent ord) = Some lv"
      "(l_price lv, o_parent ord) \<in> set N" "r' \<in> set (refs E lv)" using side_order [OF ok old] by blast
    show ?thesis
    proof (cases "o_parent ord = lr")
      case True
      from here [OF m old o(1) True] show ?thesis by (rule new')
    next
      case False
      with Om [OF o(1) False] old o show ?thesis by (auto simp: ran_def)
    qed
  qed (rule new')
qed (rule inj)

lemma qty_sum_Cons: "qty_sum Om (r # rs) = o_qty (the (Om r)) + qty_sum Om rs"
  by (simp add: qty_sum_def)

lemma side_ok_add_old:
  assumes ok: "side_ok E s Om L M N" and lr: "(p, lr) \<in> set N" "L lr = Some lv"
    and fresh: "M oid = None" "r \<notin> ran M"
    and lv': "l_price lv' = p" "refs E lv' = r # refs E lv"
      "e_has_qty E \<Longrightarrow> l_qty lv' = narrow 32 (l_qty lv + q)"
      "e_has_order_count E \<Longrightarrow> l_order_count lv' = narrow 32 (l_order_count lv + 1)"
  shows "side_ok E s (Om(r \<mapsto> \<lparr>o_parent = lr, o_qty = narrow 32 q\<rparr>)) (L(lr \<mapsto> lv')) (M(oid \<mapsto> r)) N"
proof (rule side_ok_level_update [OF ok lr(1)])
  let ?Om = "Om(r \<mapsto> \<lparr>o_parent = lr, o_qty = narrow 32 q\<rparr>)" and ?M = "M(oid \<mapsto> r)"
  have l: "level_ok E Om M p lr lv" using side_level [OF ok lr(1)] lr(2) by auto
  have rn: "r' \<noteq> r" if "r' \<in> set (refs E lv)" for r'
    using l that fresh(2) by (fastforce simp: level_ok_def ran_def)
  have "level_ok E ?Om ?M p lr lv"
    by (rule level_ok_cong [OF l]) (use rn fresh in auto)
  moreover have "qty_sum ?Om (refs E lv) = qty_sum Om (refs E lv)" by (rule qty_sum_cong) (use rn in auto)
  moreover have "narrow 32 (l_qty lv + q) = narrow 32 (narrow 32 q + qty_sum Om (refs E lv))" if "e_has_qty E"
    using l that by (simp add: level_ok_def narrow_add narrow_add_right add.commute)
  moreover have "narrow 32 (l_order_count lv + 1) = narrow 32 (1 + int (length (refs E lv)))" if "e_has_order_count E"
    using l that by (simp add: level_ok_def narrow_add narrow_add_right add.commute)
  ultimately show "level_ok E ?Om ?M p lr lv'"
    using rn lv' by (auto simp: level_ok_def qty_sum_Cons)
  show "?M a = Some r' \<Longrightarrow> ?M b = Some r' \<Longrightarrow> a = b" for a b r'
    using side_inj [OF ok] fresh(2) by (auto simp: ran_def split: if_splits)
  show "r' \<in> set (refs E lv')" if "?M oid' = Some r'" "M oid' = Some r'" "Om r' = Some ord" "o_parent ord = lr" for oid' r' ord
    using side_order [OF ok that(2)] that(3,4) lr(2) lv'(2) by auto
qed (use fresh lv'(2) in \<open>auto simp: ran_def split: if_splits\<close>)

section \<open>Filling and removing an order\<close>

lemma qty_sum_remove:
  assumes "r \<in> set rs" shows "qty_sum Om (remove1 r rs) = qty_sum Om rs - o_qty (the (Om r))"
  using assms by (induction rs) (auto simp: qty_sum_Cons)

lemma qty_sum_upd:
  assumes "r \<in> set rs" "distinct rs"
  shows "qty_sum (Om(r \<mapsto> x)) rs = qty_sum Om rs - o_qty (the (Om r)) + o_qty x"
  using assms
proof (induction rs)
  case (Cons a rs)
  show ?case
  proof (cases "a = r")
    case True
    with Cons.prems have "r \<notin> set rs" by simp
    then have "qty_sum (Om(r \<mapsto> x)) rs = qty_sum Om rs" by (intro qty_sum_cong) auto
    then show ?thesis unfolding qty_sum_Cons using True by (metis (no_types, lifting) add_diff_cancel_left' add.commute fun_upd_same option.sel)
  next
    case False
    with Cons show ?thesis by (simp add: qty_sum_Cons)
  qed
qed simp

lemma side_ok_fill:
  assumes ok: "side_ok E s Om L M N" and m: "M oid = Some r" "Om r = Some ord" "o_parent ord = lr" "L lr = Some lv"
    and lv': "l_price lv' = l_price lv" "refs E lv' = refs E lv"
      "e_has_qty E \<Longrightarrow> l_qty lv' = narrow 32 (l_qty lv - d)" "l_order_count lv' = l_order_count lv"
    and q: "q = narrow 32 (o_qty ord - d)"
  shows "side_ok E s (Om(r \<mapsto> ord\<lparr>o_qty := q\<rparr>)) (L(lr \<mapsto> lv')) M N"
proof -
  let ?Om = "Om(r \<mapsto> ord\<lparr>o_qty := q\<rparr>)"
  have N: "(l_price lv, lr) \<in> set N" and r: "r \<in> set (refs E lv)" using side_order [OF ok m(1)] m by auto
  have l: "level_ok E Om M (l_price lv) lr lv" using side_level [OF ok N] m(4) by auto
  have "narrow 32 (l_qty lv - d) = narrow 32 (qty_sum ?Om (refs E lv))" if "e_has_qty E"
  proof -
    have "qty_sum ?Om (refs E lv) = q + (qty_sum Om (refs E lv) - o_qty ord)"
      using qty_sum_upd [OF r, of Om] l m(2) by (simp add: level_ok_def)
    then have "narrow 32 (qty_sum ?Om (refs E lv)) = narrow 32 (o_qty ord - d + (qty_sum Om (refs E lv) - o_qty ord))"
      by (simp only: q narrow_add)
    moreover have "narrow 32 (l_qty lv - d) = narrow 32 (qty_sum Om (refs E lv) - d)"
      using l that by (simp add: level_ok_def narrow_diff)
    ultimately show ?thesis by simp
  qed
  then have new: "level_ok E ?Om M (l_price lv) lr lv'"
    using l lv' m(2,3) by (fastforce simp: level_ok_def)
  show ?thesis
    by (rule side_ok_level_update [OF ok N new])
      (use m lv'(2) side_order_here [OF ok] side_inj [OF ok] in auto)
qed

lemma side_ok_remove_more:
  assumes ok: "side_ok E s Om L M N" and m: "M oid = Some r" "Om r = Some ord" "o_parent ord = lr" "L lr = Some lv"
    and ne: "remove1 r (refs E lv) \<noteq> []"
    and lv': "l_price lv' = l_price lv" "refs E lv' = remove1 r (refs E lv)"
      "e_has_qty E \<Longrightarrow> l_qty lv' = narrow 32 (l_qty lv - o_qty ord)"
      "e_has_order_count E \<Longrightarrow> l_order_count lv' = narrow 32 (l_order_count lv - 1)"
  shows "side_ok E s (Om(r := None)) (L(lr \<mapsto> lv')) (M(oid := None)) N"
proof -
  let ?Om = "Om(r := None)" and ?M = "M(oid := None)"
  have N: "(l_price lv, lr) \<in> set N" and r: "r \<in> set (refs E lv)" using side_order [OF ok m(1)] m by auto
  have l: "level_ok E Om M (l_price lv) lr lv" using side_level [OF ok N] m(4) by auto
  have inj: "oid' = oid" if "M oid' = Some r" for oid' using side_inj [OF ok that m(1)] .
  have d: "distinct (refs E lv)" using l by (simp add: level_ok_def)
  have "qty_sum ?Om (remove1 r (refs E lv)) = qty_sum Om (remove1 r (refs E lv))"
    by (rule qty_sum_cong) (use d in auto)
  then have "narrow 32 (l_qty lv - o_qty ord) = narrow 32 (qty_sum ?Om (remove1 r (refs E lv)))" if "e_has_qty E"
    using l that m(2) qty_sum_remove [OF r, of Om] by (simp add: level_ok_def narrow_diff)
  moreover have "narrow 32 (l_order_count lv - 1) = narrow 32 (int (length (remove1 r (refs E lv))))" if "e_has_order_count E"
  proof -
    have "int (length (remove1 r (refs E lv))) = int (length (refs E lv)) - 1"
      by (metis r length_remove1 of_nat_1 of_nat_diff Suc_leI One_nat_def length_pos_if_in_set)
    with l that show ?thesis by (simp add: level_ok_def narrow_diff)
  qed
  moreover have "\<exists>oid' ord'. ?M oid' = Some r' \<and> ?Om r' = Some ord' \<and> o_parent ord' = lr"
    if r': "r' \<in> set (remove1 r (refs E lv))" for r'
  proof -
    have "r' \<noteq> r" "r' \<in> set (refs E lv)" using r' d by auto
    moreover obtain oid' ord' where "M oid' = Some r'" "Om r' = Some ord'" "o_parent ord' = lr"
      using l calculation(2) by (auto simp: level_ok_def)
    ultimately show ?thesis using m(1) by (intro exI [of _ oid'] exI [of _ ord']) auto
  qed
  ultimately have new: "level_ok E ?Om ?M (l_price lv) lr lv'"
    using lv' ne d by (simp add: level_ok_def distinct_remove1)
  show ?thesis
  proof (rule side_ok_level_update [OF ok N new])
    show "r' \<in> set (refs E lv')" if "?M oid' = Some r'" "M oid' = Some r'" "Om r' = Some ord'" "o_parent ord' = lr" for oid' r' ord'
    proof -
      have "r' \<noteq> r" using that(1,2) inj by (auto split: if_splits)
      moreover have "r' \<in> set (refs E lv)" using side_order [OF ok that(2)] that(3,4) m(4) by auto
      ultimately show ?thesis using lv'(2) by (simp add: in_set_remove1)
    qed
    show "?M a = Some r' \<Longrightarrow> ?M b = Some r' \<Longrightarrow> a = b" for a b r'
      using side_inj [OF ok] by (auto split: if_splits)
  qed (use m in \<open>auto split: if_splits\<close>)
qed

lemma side_ok_remove_last:
  assumes ok: "side_ok E s Om L M N" and m: "M oid = Some r" "Om r = Some ord" "o_parent ord = lr" "L lr = Some lv"
    and one: "remove1 r (refs E lv) = []"
  shows "side_ok E s (Om(r := None)) (L(lr := None)) (M(oid := None)) (filter (\<lambda>x. snd x \<noteq> lr) N)"
proof -
  let ?Om = "Om(r := None)" and ?M = "M(oid := None)"
  have N: "(l_price lv, lr) \<in> set N" and r: "r \<in> set (refs E lv)" using side_order [OF ok m(1)] m by auto
  have refs: "refs E lv = [r]" using one r by (cases "refs E lv") (auto split: if_splits)
  have inj: "oid' = oid" if "M oid' = Some r" for oid' using side_inj [OF ok that m(1)] .
  show ?thesis
  proof (rule side_okI)
    show "sorted_side s (filter (\<lambda>x. snd x \<noteq> lr) N)" by (rule sorted_side_filter [OF side_sorted [OF ok]])
    show "\<exists>lv. (L(lr := None)) lr' = Some lv \<and> level_ok E ?Om ?M p lr' lv"
      if "(p, lr') \<in> set (filter (\<lambda>x. snd x \<noteq> lr) N)" for p lr'
    proof -
      have N': "(p, lr') \<in> set N" "lr' \<noteq> lr" using that by auto
      have "\<exists>lv. L lr' = Some lv \<and> level_ok E ?Om ?M p lr' lv"
        by (rule other_level_ok [OF ok N']) (use m in auto)
      with N'(2) show ?thesis by simp
    qed
    show "\<exists>ord lv. ?Om r' = Some ord \<and> (L(lr := None)) (o_parent ord) = Some lv \<and>
        (l_price lv, o_parent ord) \<in> set (filter (\<lambda>x. snd x \<noteq> lr) N) \<and> r' \<in> set (refs E lv)"
      if "?M oid' = Some r'" for oid' r'
    proof -
      have M: "M oid' = Some r'" "oid' \<noteq> oid" using that by (auto split: if_splits)
      then have ne: "r' \<noteq> r" using inj by auto
      obtain ord' lv' where o: "Om r' = Some ord'" "L (o_parent ord') = Some lv'"
        "(l_price lv', o_parent ord') \<in> set N" "r' \<in> set (refs E lv')" using side_order [OF ok M(1)] by blast
      have "o_parent ord' \<noteq> lr" using o(2,4) ne refs m(4) by auto
      with o ne show ?thesis by auto
    qed
    show "?M a = Some r' \<Longrightarrow> ?M b = Some r' \<Longrightarrow> a = b" for a b r'
      using side_inj [OF ok] by (auto split: if_splits)
  qed
qed

end
