(* ===== verification/Book_Ops.thy ===== *)
theory Book_Ops
  imports Book_Inv
begin

text \<open>
  The listener's operations on a whole book: its invariant, its abstraction to the resting
  orders of each side, and what each message does to both.
\<close>

section \<open>The book's invariant and abstraction\<close>

abbreviation orders :: "('l, 'pm) lob_env \<Rightarrow> ('l, 'pm) lob \<Rightarrow> nat \<Rightarrow> lob_order option" where
  "orders E b \<equiv> objs (e_order_opts E) (b_order_pool b)"

abbreviation levels :: "('l, 'pm) lob_env \<Rightarrow> ('l, 'pm) lob \<Rightarrow> nat \<Rightarrow> 'l lob_level option" where
  "levels E b \<equiv> objs (e_level_opts E) (b_level_pool b)"

abbreviation oids :: "('l, 'pm) lob \<Rightarrow> side \<Rightarrow> int \<Rightarrow> nat option" where
  "oids b s \<equiv> cst_map (bs_oid_map (b_side b s))"

abbreviation nodes :: "('l, 'pm) lob_env \<Rightarrow> ('l, 'pm) lob \<Rightarrow> side \<Rightarrow> (int \<times> nat) list" where
  "nodes E b s \<equiv> e_pm_nodes E (bs_price_map (b_side b s))"

definition book_inv :: "('l, 'pm) lob_env \<Rightarrow> ('l, 'pm) lob \<Rightarrow> bool" where
  "book_inv E b \<longleftrightarrow>
     pool_inv (e_order_opts E) (b_order_pool b) \<and> pool_inv (e_level_opts E) (b_level_pool b) \<and>
     (\<forall>s. cst_inv (e_oid_traits E) (bs_oid_map (b_side b s)) \<and> e_pm_side E (bs_price_map (b_side b s)) = s \<and>
        side_ok E s (orders E b) (levels E b) (oids b s) (nodes E b s)) \<and>
     (\<forall>s. ran (oids b s) \<inter> ran (oids b (side_not s)) = {} \<and>
        snd ` set (nodes E b s) \<inter> snd ` set (nodes E b (side_not s)) = {})"

lemma book_invD:
  assumes "book_inv E b"
  shows book_orders: "pool_inv (e_order_opts E) (b_order_pool b)"
    and book_levels: "pool_inv (e_level_opts E) (b_level_pool b)"
    and book_oids: "cst_inv (e_oid_traits E) (bs_oid_map (b_side b s))"
    and book_pm: "e_pm_side E (bs_price_map (b_side b s)) = s"
    and book_side_ok: "side_ok E s (orders E b) (levels E b) (oids b s) (nodes E b s)"
    and book_disj: "ran (oids b s) \<inter> ran (oids b (side_not s)) = {}"
      "snd ` set (nodes E b s) \<inter> snd ` set (nodes E b (side_not s)) = {}"
  using assms by (auto simp: book_inv_def)

text \<open>The resting orders of a side: the price and the quantity of each id.\<close>

definition resting :: "('l, 'pm) lob_env \<Rightarrow> ('l, 'pm) lob \<Rightarrow> side \<Rightarrow> int \<Rightarrow> (int \<times> int) option" where
  "resting E b s oid =
     (case oids b s oid of None \<Rightarrow> None
      | Some r \<Rightarrow> (case orders E b r of None \<Rightarrow> None
          | Some ord \<Rightarrow> (case levels E b (o_parent ord) of None \<Rightarrow> None
              | Some lv \<Rightarrow> Some (l_price lv, o_qty ord))))"

lemma resting_None: "book_inv E b \<Longrightarrow> resting E b s oid = None \<longleftrightarrow> oids b s oid = None"
proof -
  assume inv: "book_inv E b"
  show ?thesis
    using side_order [OF book_side_ok [OF inv], of s oid] by (auto simp: resting_def split: option.splits)
qed

lemma resting_Some:
  assumes "book_inv E b" "oids b s oid = Some r"
  obtains ord lv where "orders E b r = Some ord" "levels E b (o_parent ord) = Some lv"
    "(l_price lv, o_parent ord) \<in> set (nodes E b s)" "r \<in> set (refs E lv)" "resting E b s oid = Some (l_price lv, o_qty ord)"
  using side_order [OF book_side_ok [OF assms(1)] assms(2)] assms(2) that by (auto simp: resting_def)

text \<open>An operation on side \<open>s\<close> that leaves the other side's orders and levels alone.\<close>

lemma book_inv_upd:
  assumes inv: "book_inv E b" and same: "b_side b' (side_not s) = b_side b (side_not s)"
    and pools: "pool_inv (e_order_opts E) (b_order_pool b')" "pool_inv (e_level_opts E) (b_level_pool b')"
    and side: "cst_inv (e_oid_traits E) (bs_oid_map (b_side b' s))" "e_pm_side E (bs_price_map (b_side b' s)) = s"
      "side_ok E s (orders E b') (levels E b') (oids b' s) (nodes E b' s)"
    and fo: "\<And>r. r \<in> ran (oids b (side_not s)) \<Longrightarrow> orders E b' r = orders E b r \<and> r \<notin> ran (oids b' s)"
    and fl: "\<And>lr. lr \<in> snd ` set (nodes E b (side_not s)) \<Longrightarrow> levels E b' lr = levels E b lr \<and> lr \<notin> snd ` set (nodes E b' s)"
  shows "book_inv E b'" and "resting E b' (side_not s) = resting E b (side_not s)"
proof -
  have other: "side_ok E (side_not s) (orders E b') (levels E b') (oids b' (side_not s)) (nodes E b' (side_not s))"
    using side_ok_frame [OF book_side_ok [OF inv, of "side_not s"]] fo fl same by auto
  have all: "\<And>x. P x" if "P s" "P (side_not s)" for P :: "side \<Rightarrow> bool"
    using that by (metis side.exhaust side_not_neq(1))
  show "book_inv E b'"
    unfolding book_inv_def
  proof (intro conjI allI)
    fix x
    show "cst_inv (e_oid_traits E) (bs_oid_map (b_side b' x))"
      by (rule all [of "\<lambda>x. cst_inv (e_oid_traits E) (bs_oid_map (b_side b' x))"])
        (use side same book_oids [OF inv] in auto)
    show "e_pm_side E (bs_price_map (b_side b' x)) = x"
      by (rule all [of "\<lambda>x. e_pm_side E (bs_price_map (b_side b' x)) = x"]) (use side same book_pm [OF inv] in auto)
    show "side_ok E x (orders E b') (levels E b') (oids b' x) (nodes E b' x)"
      by (rule all [of "\<lambda>x. side_ok E x (orders E b') (levels E b') (oids b' x) (nodes E b' x)"]) (use side other in auto)
    have d: "ran (oids b' s) \<inter> ran (oids b' (side_not s)) = {}"
      "snd ` set (nodes E b' s) \<inter> snd ` set (nodes E b' (side_not s)) = {}"
      unfolding same using fo fl by blast+
    show "ran (oids b' x) \<inter> ran (oids b' (side_not x)) = {}"
      by (rule all [of "\<lambda>x. ran (oids b' x) \<inter> ran (oids b' (side_not x)) = {}"]) (use d in auto)
    show "snd ` set (nodes E b' x) \<inter> snd ` set (nodes E b' (side_not x)) = {}"
      by (rule all [of "\<lambda>x. snd ` set (nodes E b' x) \<inter> snd ` set (nodes E b' (side_not x)) = {}"]) (use d in auto)
  qed (use pools in auto)
  show "resting E b' (side_not s) = resting E b (side_not s)"
  proof
    fix oid
    show "resting E b' (side_not s) oid = resting E b (side_not s) oid"
    proof (cases "oids b (side_not s) oid")
      case None
      then show ?thesis by (simp add: resting_def same)
    next
      case (Some r)
      obtain ord lv where o: "orders E b r = Some ord" "levels E b (o_parent ord) = Some lv"
        "(l_price lv, o_parent ord) \<in> set (nodes E b (side_not s))" "resting E b (side_not s) oid = Some (l_price lv, o_qty ord)"
        using resting_Some [OF inv Some] by metis
      have "orders E b' r = Some ord" using fo [of r] Some o(1) by (auto simp: ran_def)
      moreover have "levels E b' (o_parent ord) = Some lv" using fl [of "o_parent ord"] o(2,3) by force
      ultimately show ?thesis using Some o(4) by (simp add: resting_def same)
    qed
  qed
qed

text \<open>
  Books share the pools: what a book does not hold, an operation on it neither changes nor takes.
\<close>

definition keeps_others :: "('l, 'pm) lob_env \<Rightarrow> ('l, 'pm) lob \<Rightarrow> ('l, 'pm) lob \<Rightarrow> bool" where
  "keeps_others E b b' \<longleftrightarrow>
     (\<forall>r ord. orders E b r = Some ord \<longrightarrow> (\<forall>s. r \<notin> ran (oids b s)) \<longrightarrow>
        orders E b' r = Some ord \<and> (\<forall>s. r \<notin> ran (oids b' s))) \<and>
     (\<forall>l lv. levels E b l = Some lv \<longrightarrow> (\<forall>s. l \<notin> snd ` set (nodes E b s)) \<longrightarrow>
        levels E b' l = Some lv \<and> (\<forall>s. l \<notin> snd ` set (nodes E b' s)))"

lemma side_or_not: "t = s \<or> t = side_not s"
  by (cases t; cases s) simp_all

lemma keeps_others_refl: "keeps_others E b b"
  by (simp add: keeps_others_def)

lemma keeps_othersI:
  assumes side: "b_side b' (side_not s) = b_side b (side_not s)"
    and o: "\<And>r ord. orders E b r = Some ord \<Longrightarrow> r \<notin> ran (oids b s) \<Longrightarrow> orders E b' r = Some ord \<and> r \<notin> ran (oids b' s)"
    and l: "\<And>l lv. levels E b l = Some lv \<Longrightarrow> l \<notin> snd ` set (nodes E b s) \<Longrightarrow>
      levels E b' l = Some lv \<and> l \<notin> snd ` set (nodes E b' s)"
  shows "keeps_others E b b'"
  unfolding keeps_others_def
proof (intro conjI allI impI)
  fix r ord t assume a: "orders E b r = Some ord" "\<forall>s. r \<notin> ran (oids b s)"
  then show "orders E b' r = Some ord" using o by blast
  show "r \<notin> ran (oids b' t)"
  proof (cases "t = s")
    case True
    then show ?thesis using o a by blast
  next
    case False
    then have "t = side_not s" using side_or_not by blast
    then show ?thesis using a(2) side by simp
  qed
next
  fix l lv t assume a: "levels E b l = Some lv" "\<forall>s. l \<notin> snd ` set (nodes E b s)"
  then show "levels E b' l = Some lv" using l by blast
  show "l \<notin> snd ` set (nodes E b' t)"
  proof (cases "t = s")
    case True
    then show ?thesis using l a by blast
  next
    case False
    then have "t = side_not s" using side_or_not by blast
    then show ?thesis using a(2) [rule_format, of "side_not s"] side by simp
  qed
qed

section \<open>Levels\<close>

lemma envD:
  assumes "env_ok E"
  shows env_list: "e_list_refs E (e_list_new E) = []"
      "r \<notin> set (e_list_refs E l) \<Longrightarrow> e_list_refs E (e_list_push_front E r l) = r # e_list_refs E l"
      "r \<in> set (e_list_refs E l) \<Longrightarrow> e_list_refs E (e_list_erase E r l) = remove1 r (e_list_refs E l)"
      "e_list_refs E l \<noteq> [] \<Longrightarrow> e_list_front E l = hd (e_list_refs E l)"
      "e_list_empty E l \<longleftrightarrow> e_list_refs E l = []"
    and env_pm_side: "e_pm_side E (e_pm_insert_commit E p r pm) = e_pm_side E pm"
      "e_pm_side E (e_pm_erase E r pm) = e_pm_side E pm"
      "e_pm_side E (e_pm_new E s) = s" "e_pm_nodes E (e_pm_new E s) = []"
    and env_pm: "sorted_side (e_pm_side E pm) (e_pm_nodes E pm) \<Longrightarrow> e_pm_insert_check E p pm = map_of (e_pm_nodes E pm) p"
      "sorted_side (e_pm_side E pm) (e_pm_nodes E pm) \<Longrightarrow> p \<notin> fst ` set (e_pm_nodes E pm) \<Longrightarrow>
        e_pm_nodes E (e_pm_insert_commit E p r pm) = insert_level (e_pm_side E pm) p r (e_pm_nodes E pm)"
      "sorted_side (e_pm_side E pm) (e_pm_nodes E pm) \<Longrightarrow> e_pm_nodes E (e_pm_erase E r pm) = filter (\<lambda>x. snd x \<noteq> r) (e_pm_nodes E pm)"
    and env_bounds: "sorted_side (e_pm_side E pm) (e_pm_nodes E pm) \<Longrightarrow>
        e_pm_lower_bound E p pm = length (takeWhile (\<lambda>x. before (e_pm_side E pm) (fst x) p) (e_pm_nodes E pm))"
      "sorted_side (e_pm_side E pm) (e_pm_nodes E pm) \<Longrightarrow>
        e_pm_upper_bound E p pm = length (takeWhile (\<lambda>x. \<not> before (e_pm_side E pm) p (fst x)) (e_pm_nodes E pm))"
      "sorted_side (e_pm_side E pm) (e_pm_nodes E pm) \<Longrightarrow>
        e_pm_find E p pm = length (takeWhile (\<lambda>x. fst x \<noteq> p) (e_pm_nodes E pm))"
  using assms unfolding env_ok_def list_ok_def pm_ok_def insert_level_def by blast+

lemma set_side_simps [simp]:
  "b_side (set_side s x b) s = x" "b_side (set_side s x b) (side_not s) = b_side b (side_not s)"
  "b_order_pool (set_side s x b) = b_order_pool b" "b_level_pool (set_side s x b) = b_level_pool b"
  "b_side (set_side s x b) t = (if t = s then x else b_side b t)"
  by (simp_all add: set_side_def)

lemma add_level_spec:
  assumes env: "env_ok E" and pinv: "pool_inv (e_level_opts E) (b_level_pool b)"
    and sorted: "sorted_side s (nodes E b s)" "e_pm_side E (bs_price_map (b_side b s)) = s"
    and new: "p \<notin> fst ` set (nodes E b s)"
  shows "(pool_full (e_level_opts E) (b_level_pool b) \<and> find_or_add_level E s p f g b = Some (Inl Check_failure)) \<or>
    (\<exists>lr lp. find_or_add_level E s p f g b = Some (Inr (lr, lr, (set_side s ((b_side b s)\<lparr>bs_price_map :=
        e_pm_insert_commit E p lr (bs_price_map (b_side b s))\<rparr>) b)\<lparr>b_level_pool := lp\<rparr>)) \<and>
      pool_inv (e_level_opts E) lp \<and> levels E b lr = None \<and>
      objs (e_level_opts E) lp = (levels E b)(lr \<mapsto> f ((default_level E)\<lparr>l_price := p\<rparr>)) \<and>
      e_pm_nodes E (e_pm_insert_commit E p lr (bs_price_map (b_side b s))) = insert_level s p lr (nodes E b s))"
proof (cases "pool_full (e_level_opts E) (b_level_pool b)")
  case True
  have "map_of (nodes E b s) p = None" using new by (simp add: map_of_eq_None_iff)
  with True pool_allocate_full [OF pinv True] env_pm(1) [OF env, of "bs_price_map (b_side b s)" p] sorted show ?thesis
    by (simp add: find_or_add_level_def)
next
  case False
  have none: "map_of (nodes E b s) p = None" using new by (simp add: map_of_eq_None_iff)
  obtain lr lp where a: "pool_allocate (e_level_opts E) (default_level E) (b_level_pool b) = Some (Inr (lr, lp))"
    "pool_inv (e_level_opts E) lp" "levels E b lr = None" "objs (e_level_opts E) lp = (levels E b)(lr \<mapsto> default_level E)"
    using pool.alloc_law [OF pinv False] by blast
  then have "objs (e_level_opts E) lp lr = Some (default_level E)" by simp
  then obtain lp' where m: "pool_modify (e_level_opts E) lr (\<lambda>l. f (l\<lparr>l_price := p\<rparr>)) lp = Some lp'" "pool_inv (e_level_opts E) lp'"
    "objs (e_level_opts E) lp' = (objs (e_level_opts E) lp)(lr \<mapsto> f ((default_level E)\<lparr>l_price := p\<rparr>))"
    using pool.upd_law [OF a(2)] by blast
  from m(3) have "objs (e_level_opts E) lp' = (levels E b)(lr \<mapsto> f ((default_level E)\<lparr>l_price := p\<rparr>))" by (simp add: a(4))
  with a m none env_pm(1) [OF env, of "bs_price_map (b_side b s)" p] env_pm(2) [OF env, of "bs_price_map (b_side b s)" p] sorted new
  show ?thesis by (intro disjI2 exI [of _ lr] exI [of _ lp']) (simp add: find_or_add_level_def Let_def)
qed

lemma find_level_spec:
  assumes env: "env_ok E" and pinv: "pool_inv (e_level_opts E) (b_level_pool b)" "pool_inv (e_order_opts E) (b_order_pool b)"
    and sorted: "sorted_side s (nodes E b s)" "e_pm_side E (bs_price_map (b_side b s)) = s"
    and old: "(p, lr) \<in> set (nodes E b s)" "levels E b lr = Some lv" "refs E (g lv) = x # xs" "orders E b x = Some front"
  obtains lp where "find_or_add_level E s p f g b = Some (Inr (lr, o_parent front, b\<lparr>b_level_pool := lp\<rparr>))"
    "pool_inv (e_level_opts E) lp" "objs (e_level_opts E) lp = (levels E b)(lr \<mapsto> g lv)"
proof -
  have some: "map_of (nodes E b s) p = Some lr" using old(1) sorted_side_map_of [OF sorted(1)] by blast
  obtain lp where m: "pool_modify (e_level_opts E) lr g (b_level_pool b) = Some lp" "pool_inv (e_level_opts E) lp"
    "objs (e_level_opts E) lp = (levels E b)(lr \<mapsto> g lv)"
    using pool.upd_law [OF pinv(1) old(2)] by blast
  have g: "pool_get (e_level_opts E) False lr lp = Some (Inr (g lv))"
    by (rule pool_get_spec [OF m(2)]) (simp add: m(3))
  have "pool_get (e_order_opts E) False x (b_order_pool b) = Some (Inr front)"
    by (rule pool_get_spec [OF pinv(2) old(4)])
  moreover have "\<not> e_list_empty E (l_orders (g lv))" "e_list_front E (l_orders (g lv)) = x"
    using env_list(4,5) [OF env, of "l_orders (g lv)"] old(3) by (auto simp: refs_def)
  ultimately have "find_or_add_level E s p f g b = Some (Inr (lr, o_parent front, b\<lparr>b_level_pool := lp\<rparr>))"
    using some m(1) g env_pm(1) [OF env, of "bs_price_map (b_side b s)" p] sorted by (simp add: find_or_add_level_def)
  with that m show ?thesis by blast
qed

section \<open>Adding an order\<close>

text \<open>The resting orders after one order and one level have changed.\<close>

lemma resting_upd:
  assumes inv: "book_inv E b" and ids: "oids b' s = M'" and ord: "orders E b' = Om'" and lev: "levels E b' = L'"
    and M: "\<And>oid'. oid' \<noteq> oid \<Longrightarrow> M' oid' = oids b s oid'"
    and Om: "\<And>oid' r ord. oid' \<noteq> oid \<Longrightarrow> oids b s oid' = Some r \<Longrightarrow> orders E b r = Some ord \<Longrightarrow> Om' r = Some ord"
    and L: "\<And>oid' r ord lv. oid' \<noteq> oid \<Longrightarrow> oids b s oid' = Some r \<Longrightarrow> orders E b r = Some ord \<Longrightarrow>
      levels E b (o_parent ord) = Some lv \<Longrightarrow> r \<in> set (refs E lv) \<Longrightarrow> \<exists>lv'. L' (o_parent ord) = Some lv' \<and> l_price lv' = l_price lv"
  shows "resting E b' s = (resting E b s)(oid := resting E b' s oid)"
proof
  fix oid'
  show "resting E b' s oid' = ((resting E b s)(oid := resting E b' s oid)) oid'"
  proof (cases "oid' = oid")
    case False
    show ?thesis
    proof (cases "oids b s oid'")
      case None
      with False M ids show ?thesis by (simp add: resting_def)
    next
      case (Some r)
      obtain o1 lv where o: "orders E b r = Some o1" "levels E b (o_parent o1) = Some lv" "r \<in> set (refs E lv)"
        "resting E b s oid' = Some (l_price lv, o_qty o1)"
        using resting_Some [OF inv Some] by metis
      with Om [OF False Some o(1)] L [OF False Some o(1,2,3)] M [OF False] False Some ids ord lev
      show ?thesis by (auto simp: resting_def)
    qed
  qed simp
qed

lemma fresh_order:
  assumes inv: "book_inv E b" and r: "orders E b r = None"
  shows "r \<notin> ran (oids b s)"
  using side_order [OF book_side_ok [OF inv], of s _ r] r by (auto simp: ran_def)

lemma fresh_level:
  assumes inv: "book_inv E b" and r: "levels E b lr = None"
  shows "lr \<notin> snd ` set (nodes E b s)"
  using side_level [OF book_side_ok [OF inv], of _ lr s] r by auto

definition add_exhausts :: "('l, 'pm) lob_env \<Rightarrow> itch_order \<Rightarrow> ('l, 'pm) lob \<Rightarrow> bool" where
  "add_exhausts E msg b \<longleftrightarrow>
     pool_full (e_order_opts E) (b_order_pool b) \<or>
     put_fails (e_oid_traits E) (bs_oid_map (b_side b (to_side (m_side msg)))) (m_oid msg) \<or>
     pool_full (e_level_opts E) (b_level_pool b)"

text \<open>The part of the visit after the level has been found: the order is seated and listed.\<close>

lemma add_finish:
  assumes env: "env_ok E" and lp: "pool_inv (e_level_opts E) lp" "objs (e_level_opts E) lp lr = Some lv"
    and op: "pool_inv (e_order_opts E) op" "objs (e_order_opts E) op r = Some ord0" and nr: "r \<notin> set (refs E lv)"
  obtains op' lp' where "pool_modify (e_order_opts E) r (\<lambda>ord. ord\<lparr>o_parent := parent, o_qty := q\<rparr>) op = Some op'"
    "pool_modify (e_level_opts E) lr (\<lambda>l. l\<lparr>l_orders := e_list_push_front E r (l_orders l)\<rparr>) lp = Some lp'"
    "pool_inv (e_order_opts E) op'" "pool_inv (e_level_opts E) lp'"
    "objs (e_order_opts E) op' = (objs (e_order_opts E) op)(r \<mapsto> \<lparr>o_parent = parent, o_qty = q\<rparr>)"
    "objs (e_level_opts E) lp' = (objs (e_level_opts E) lp)(lr \<mapsto> lv\<lparr>l_orders := e_list_push_front E r (l_orders lv)\<rparr>)"
    "refs E (lv\<lparr>l_orders := e_list_push_front E r (l_orders lv)\<rparr>) = r # refs E lv"
proof -
  obtain op' where "pool_modify (e_order_opts E) r (\<lambda>ord. ord\<lparr>o_parent := parent, o_qty := q\<rparr>) op = Some op'"
    "pool_inv (e_order_opts E) op'"
    "objs (e_order_opts E) op' = (objs (e_order_opts E) op)(r \<mapsto> ord0\<lparr>o_parent := parent, o_qty := q\<rparr>)"
    using pool.upd_law [OF op] by blast
  moreover obtain lp' where "pool_modify (e_level_opts E) lr (\<lambda>l. l\<lparr>l_orders := e_list_push_front E r (l_orders l)\<rparr>) lp = Some lp'"
    "pool_inv (e_level_opts E) lp'"
    "objs (e_level_opts E) lp' = (objs (e_level_opts E) lp)(lr \<mapsto> lv\<lparr>l_orders := e_list_push_front E r (l_orders lv)\<rparr>)"
    using pool.upd_law [OF lp] by blast
  moreover have "ord0\<lparr>o_parent := parent, o_qty := q\<rparr> = \<lparr>o_parent = parent, o_qty = q\<rparr>" by simp
  moreover have "refs E (lv\<lparr>l_orders := e_list_push_front E r (l_orders lv)\<rparr>) = r # refs E lv"
    using env_list(2) [OF env] nr by (simp add: refs_def)
  ultimately show ?thesis using that by metis
qed

definition add_tail :: "('l, 'pm) lob_env \<Rightarrow> side \<Rightarrow> int \<Rightarrow> int \<Rightarrow> nat \<Rightarrow> ('l, 'pm) lob \<Rightarrow> ('l, 'pm) lob result option" where
  "add_tail E s p q r b =
     bind_ro (find_or_add_level E s p (agg_set E q 1) (agg_add E q 1) b) (\<lambda>(l_ref, parent, b).
     bind_ro (lift_o (pool_modify (e_order_opts E) r (\<lambda>ord. ord\<lparr>o_parent := parent, o_qty := narrow 32 q\<rparr>) (b_order_pool b))) (\<lambda>orders.
     bind_ro (lift_o (pool_modify (e_level_opts E) l_ref
         (\<lambda>l. l\<lparr>l_orders := e_list_push_front E r (l_orders l)\<rparr>) (b_level_pool b))) (\<lambda>levels.
       Some (Inr (b\<lparr>b_order_pool := orders, b_level_pool := levels\<rparr>)))))"

text \<open>What the tail leaves of a book: the order seated in level \<open>lr\<close>, whose new contents are \<open>lv\<close>.\<close>

definition seated :: "('l, 'pm) lob_env \<Rightarrow> nat \<Rightarrow> nat \<Rightarrow> int \<Rightarrow> 'l lob_level \<Rightarrow> ('l, 'pm) lob \<Rightarrow> ('l, 'pm) lob \<Rightarrow> bool" where
  "seated E r lr q lv b b' \<longleftrightarrow> pool_inv (e_order_opts E) (b_order_pool b') \<and> pool_inv (e_level_opts E) (b_level_pool b') \<and>
     orders E b' = (orders E b)(r \<mapsto> \<lparr>o_parent = lr, o_qty = narrow 32 q\<rparr>) \<and> levels E b' = (levels E b)(lr \<mapsto> lv)"

lemma add_tail_old:
  assumes env: "env_ok E" and pinv: "pool_inv (e_level_opts E) (b_level_pool b)" "pool_inv (e_order_opts E) (b_order_pool b)"
    and sorted: "sorted_side s (nodes E b s)" "e_pm_side E (bs_price_map (b_side b s)) = s"
    and lr: "(p, lr) \<in> set (nodes E b s)" "levels E b lr = Some lv" "refs E lv = x # xs" "orders E b x = Some front"
      "o_parent front = lr"
    and r: "orders E b r = Some ord0" "r \<notin> set (refs E lv)"
  obtains b' lv' where "add_tail E s p q r b = Some (Inr b')" "b_side b' = b_side b" "seated E r lr q lv' b b'"
    "l_price lv' = l_price lv" "refs E lv' = r # refs E lv" "e_has_qty E \<Longrightarrow> l_qty lv' = narrow 32 (l_qty lv + q)"
    "e_has_order_count E \<Longrightarrow> l_order_count lv' = narrow 32 (l_order_count lv + 1)"
proof -
  let ?lv1 = "agg_add E q 1 lv"
  have rl: "refs E ?lv1 = refs E lv" by (simp add: refs_def agg_add_def agg_set_def)
  obtain lp where lp: "find_or_add_level E s p (agg_set E q 1) (agg_add E q 1) b = Some (Inr (lr, o_parent front, b\<lparr>b_level_pool := lp\<rparr>))"
    "pool_inv (e_level_opts E) lp" "objs (e_level_opts E) lp = (levels E b)(lr \<mapsto> ?lv1)"
    by (rule find_level_spec [where g = "agg_add E q 1", OF env pinv sorted lr(1,2) _ lr(4)]) (simp add: rl lr(3))
  have lpr: "objs (e_level_opts E) lp lr = Some ?lv1" by (simp add: lp(3))
  obtain op' lp' where f: "pool_modify (e_order_opts E) r (\<lambda>ord. ord\<lparr>o_parent := lr, o_qty := narrow 32 q\<rparr>) (b_order_pool b) = Some op'"
    "pool_modify (e_level_opts E) lr (\<lambda>l. l\<lparr>l_orders := e_list_push_front E r (l_orders l)\<rparr>) lp = Some lp'"
    "pool_inv (e_order_opts E) op'" "pool_inv (e_level_opts E) lp'"
    "objs (e_order_opts E) op' = (orders E b)(r \<mapsto> \<lparr>o_parent = lr, o_qty = narrow 32 q\<rparr>)"
    "objs (e_level_opts E) lp' = (objs (e_level_opts E) lp)(lr \<mapsto> ?lv1\<lparr>l_orders := e_list_push_front E r (l_orders ?lv1)\<rparr>)"
    "refs E (?lv1\<lparr>l_orders := e_list_push_front E r (l_orders ?lv1)\<rparr>) = r # refs E ?lv1"
    by (rule add_finish [where q = "narrow 32 q" and parent = lr, OF env lp(2) lpr pinv(2) r(1) r(2) [folded rl]])
  show ?thesis
  proof (rule that [of "b\<lparr>b_order_pool := op', b_level_pool := lp'\<rparr>" "?lv1\<lparr>l_orders := e_list_push_front E r (l_orders ?lv1)\<rparr>"])
    show "add_tail E s p q r b = Some (Inr (b\<lparr>b_order_pool := op', b_level_pool := lp'\<rparr>))"
      using lp(1) f(1,2) lr(5) by (simp add: add_tail_def)
    show "seated E r lr q (?lv1\<lparr>l_orders := e_list_push_front E r (l_orders ?lv1)\<rparr>) b (b\<lparr>b_order_pool := op', b_level_pool := lp'\<rparr>)"
      using f(3-6) lp(3) by (simp add: seated_def)
    show "refs E (?lv1\<lparr>l_orders := e_list_push_front E r (l_orders ?lv1)\<rparr>) = r # refs E lv" using f(7) rl by simp
  qed (simp_all add: agg_add_def agg_set_def)
qed

lemma add_tail_new:
  assumes env: "env_ok E" and pinv: "pool_inv (e_level_opts E) (b_level_pool b)" "pool_inv (e_order_opts E) (b_order_pool b)"
    and sorted: "sorted_side s (nodes E b s)" "e_pm_side E (bs_price_map (b_side b s)) = s"
    and new: "p \<notin> fst ` set (nodes E b s)" and r: "orders E b r = Some ord0"
    and room: "\<not> pool_full (e_level_opts E) (b_level_pool b)"
  obtains b' lr lv' where "add_tail E s p q r b = Some (Inr b')" "seated E r lr q lv' b b'" "levels E b lr = None"
    "b_side b' = (b_side b)(s := (b_side b s)\<lparr>bs_price_map := e_pm_insert_commit E p lr (bs_price_map (b_side b s))\<rparr>)"
    "nodes E b' s = insert_level s p lr (nodes E b s)" "l_price lv' = p" "refs E lv' = [r]"
    "e_has_qty E \<Longrightarrow> l_qty lv' = narrow 32 q" "e_has_order_count E \<Longrightarrow> l_order_count lv' = narrow 32 1"
proof -
  let ?lv1 = "agg_set E q 1 ((default_level E)\<lparr>l_price := p\<rparr>)"
  let ?lv2 = "?lv1\<lparr>l_orders := e_list_push_front E r (l_orders ?lv1)\<rparr>"
  obtain lr lp where res: "find_or_add_level E s p (agg_set E q 1) (agg_add E q 1) b =
      Some (Inr (lr, lr, (set_side s ((b_side b s)\<lparr>bs_price_map := e_pm_insert_commit E p lr (bs_price_map (b_side b s))\<rparr>) b)
        \<lparr>b_level_pool := lp\<rparr>))"
    "pool_inv (e_level_opts E) lp" "levels E b lr = None" "objs (e_level_opts E) lp = (levels E b)(lr \<mapsto> ?lv1)"
    "e_pm_nodes E (e_pm_insert_commit E p lr (bs_price_map (b_side b s))) = insert_level s p lr (nodes E b s)"
    using add_level_spec [OF env pinv(1) sorted new, of "agg_set E q 1" "agg_add E q 1"] room by metis
  have rl: "refs E ?lv1 = []" using env_list(1) [OF env] by (simp add: refs_def agg_set_def default_level_def)
  then have nr: "r \<notin> set (refs E ?lv1)" by simp
  have lpr: "objs (e_level_opts E) lp lr = Some ?lv1" by (simp add: res(4))
  obtain op' lp' where f: "pool_modify (e_order_opts E) r (\<lambda>ord. ord\<lparr>o_parent := lr, o_qty := narrow 32 q\<rparr>) (b_order_pool b) = Some op'"
    "pool_modify (e_level_opts E) lr (\<lambda>l. l\<lparr>l_orders := e_list_push_front E r (l_orders l)\<rparr>) lp = Some lp'"
    "pool_inv (e_order_opts E) op'" "pool_inv (e_level_opts E) lp'"
    "objs (e_order_opts E) op' = (orders E b)(r \<mapsto> \<lparr>o_parent = lr, o_qty = narrow 32 q\<rparr>)"
    "objs (e_level_opts E) lp' = (objs (e_level_opts E) lp)(lr \<mapsto> ?lv2)" "refs E ?lv2 = r # refs E ?lv1"
    by (rule add_finish [where q = "narrow 32 q" and parent = lr, OF env res(2) lpr pinv(2) r nr])
  let ?b' = "(set_side s ((b_side b s)\<lparr>bs_price_map := e_pm_insert_commit E p lr (bs_price_map (b_side b s))\<rparr>) b)
    \<lparr>b_order_pool := op', b_level_pool := lp'\<rparr>"
  show ?thesis
  proof (rule that [of ?b' lr ?lv2])
    show "add_tail E s p q r b = Some (Inr ?b')" using res(1) f(1,2) by (simp add: add_tail_def)
    show "seated E r lr q ?lv2 b ?b'" using f(3-6) res(4) by (simp add: seated_def)
    show "refs E ?lv2 = [r]" using f(7) rl by simp
  qed (use res(3,5) in \<open>simp_all add: agg_set_def set_side_def\<close>)
qed

lemma add_tail_full:
  assumes env: "env_ok E" and pinv: "pool_inv (e_level_opts E) (b_level_pool b)"
    and sorted: "sorted_side s (nodes E b s)" "e_pm_side E (bs_price_map (b_side b s)) = s"
    and new: "p \<notin> fst ` set (nodes E b s)" and full: "pool_full (e_level_opts E) (b_level_pool b)"
  shows "add_tail E s p q r b = Some (Inl Check_failure)"
proof -
  have "map_of (nodes E b s) p = None" using new by (simp add: map_of_eq_None_iff)
  then have "find_or_add_level E s p (agg_set E q 1) (agg_add E q 1) b = Some (Inl Check_failure)"
    using pool_allocate_full [OF pinv full] env_pm(1) [OF env, of "bs_price_map (b_side b s)" p] sorted
    by (simp add: find_or_add_level_def)
  then show ?thesis by (simp add: add_tail_def)
qed

text \<open>From a seated order to the book's invariant and its resting orders.\<close>

lemma add_result:
  assumes inv: "book_inv E b" and new: "oids b s oid = None" and r: "orders E b r = None"
    and b1: "orders E b1 = (orders E b)(r \<mapsto> d)" "levels E b1 = levels E b"
    and st: "seated E r lr q lv' b1 b'" and side: "b_side b' (side_not s) = b_side b (side_not s)"
    and om: "cst_inv (e_oid_traits E) (bs_oid_map (b_side b' s))" "oids b' s = (oids b s)(oid \<mapsto> r)"
    and pms: "e_pm_side E (bs_price_map (b_side b' s)) = s" and pr: "l_price lv' = p"
    and sok': "side_ok E s ((orders E b)(r \<mapsto> \<lparr>o_parent = lr, o_qty = narrow 32 q\<rparr>)) ((levels E b)(lr \<mapsto> lv'))
      ((oids b s)(oid \<mapsto> r)) (nodes E b' s)"
    and lrs: "levels E b lr = None \<or> (p, lr) \<in> set (nodes E b s)"
    and ns: "set (nodes E b' s) = insert (p, lr) (set (nodes E b s))"
  shows "book_inv E b' \<and> resting E b' s = (resting E b s)(oid \<mapsto> (p, narrow 32 q)) \<and>
    resting E b' (side_not s) = resting E b (side_not s) \<and> keeps_others E b b'"
proof -
  have ords: "orders E b' = (orders E b)(r \<mapsto> \<lparr>o_parent = lr, o_qty = narrow 32 q\<rparr>)"
    and levs: "levels E b' = (levels E b)(lr \<mapsto> lv')"
    and pools: "pool_inv (e_order_opts E) (b_order_pool b')" "pool_inv (e_level_opts E) (b_level_pool b')"
    using st b1 by (simp_all add: seated_def)
  have lo: "lr \<notin> snd ` set (nodes E b (side_not s))"
    using lrs fresh_level [OF inv, of lr "side_not s"] book_disj(2) [OF inv, of s] by force
  have f1: "orders E b' r' = orders E b r' \<and> r' \<notin> ran (oids b' s)" if "r' \<in> ran (oids b (side_not s))" for r'
  proof -
    have "r' \<noteq> r" using that fresh_order [OF inv r] by blast
    moreover have "r' \<notin> ran (oids b s)" using that book_disj(1) [OF inv, of s] by auto
    ultimately show ?thesis using new by (auto simp: ords om(2) ran_map_upd)
  qed
  have f2: "levels E b' l' = levels E b l' \<and> l' \<notin> snd ` set (nodes E b' s)"
    if "l' \<in> snd ` set (nodes E b (side_not s))" for l'
    using that lo book_disj(2) [OF inv, of s] by (auto simp: levs ns)
  note upd = book_inv_upd [OF inv side pools om(1) pms sok' [folded ords levs om(2)] f1 f2]
  have "resting E b' s = (resting E b s)(oid := resting E b' s oid)"
  proof (rule resting_upd [OF inv om(2) ords levs])
    show "\<exists>lv''. ((levels E b)(lr \<mapsto> lv')) (o_parent ord) = Some lv'' \<and> l_price lv'' = l_price lv"
      if "oids b s oid' = Some r'" "orders E b r' = Some ord" "levels E b (o_parent ord) = Some lv" for oid' r' ord lv
    proof (cases "o_parent ord = lr")
      case True
      with that(3) lrs have "(p, lr) \<in> set (nodes E b s)" by auto
      with side_level [OF book_side_ok [OF inv] this] that(3) True pr show ?thesis by (auto simp: level_ok_def)
    qed (use that in simp)
    show "((orders E b)(r \<mapsto> \<lparr>o_parent = lr, o_qty = narrow 32 q\<rparr>)) r' = Some ord" if "orders E b r' = Some ord" for r' ord
      using that r by auto
  qed simp
  moreover have "resting E b' s oid = Some (p, narrow 32 q)" by (simp add: resting_def om(2) ords levs pr)
  moreover have "keeps_others E b b'"
  proof (rule keeps_othersI [OF side])
    fix r' ord assume "orders E b r' = Some ord" "r' \<notin> ran (oids b s)"
    then show "orders E b' r' = Some ord \<and> r' \<notin> ran (oids b' s)" using r new by (auto simp: ords om(2) ran_map_upd)
  next
    fix l lv assume "levels E b l = Some lv" "l \<notin> snd ` set (nodes E b s)"
    then show "levels E b' l = Some lv \<and> l \<notin> snd ` set (nodes E b' s)" using lrs by (force simp: levs ns)
  qed
  ultimately show ?thesis using upd by auto
qed

lemma order_add_spec:
  fixes b :: "('l, 'pm) lob" and msg :: itch_order
  defines "s \<equiv> to_side (m_side msg)" and "oid \<equiv> m_oid msg" and "p \<equiv> wire_to_book (m_price msg)"
  assumes env: "env_ok E" and inv: "book_inv E b" and new: "oids b s oid = None"
  shows "(add_exhausts E msg b \<and> (\<exists>e. visit_order_add E msg b = Some (Inl e))) \<or>
    (\<exists>b'. visit_order_add E msg b = Some (Inr b') \<and> book_inv E b' \<and>
      resting E b' s = (resting E b s)(oid \<mapsto> (p, narrow 32 (m_qty msg))) \<and>
      resting E b' (side_not s) = resting E b (side_not s) \<and> keeps_others E b b')"
proof (cases "pool_full (e_order_opts E) (b_order_pool b)")
  case True
  with pool_allocate_full [OF book_orders [OF inv] True] show ?thesis
    by (simp add: visit_order_add_def add_exhausts_def Let_def)
next
  case order_room: False
  obtain r op where r: "pool_allocate (e_order_opts E) default_order (b_order_pool b) = Some (Inr (r, op))"
    "pool_inv (e_order_opts E) op" "orders E b r = None" "objs (e_order_opts E) op = (orders E b)(r \<mapsto> default_order)"
    using pool.alloc_law [OF book_orders [OF inv] order_room] by blast
  show ?thesis
  proof (cases "put_fails (e_oid_traits E) (bs_oid_map (b_side b s)) oid")
    case True
    obtain e where "cst_put (e_oid_traits E) oid r (bs_oid_map (b_side b s)) = Some (Inl e)"
      using cst.put_refused [OF book_oids [OF inv] True, of r] by blast
    with True r(1) show ?thesis
      by (auto simp: visit_order_add_def add_exhausts_def Let_def s_def oid_def)
  next
    case False
    obtain m' where m': "cst_put (e_oid_traits E) oid r (bs_oid_map (b_side b s)) = Some (Inr m')"
      "cst_inv (e_oid_traits E) m'" "cst_map m' = (oids b s)(oid \<mapsto> r)"
      using cst.put_law [OF book_oids [OF inv] False] by blast
    define b1 where "b1 = (set_side s ((b_side b s)\<lparr>bs_oid_map := m'\<rparr>) b)\<lparr>b_order_pool := op\<rparr>"
    have start: "visit_order_add E msg b = add_tail E s p (m_qty msg) r b1"
      using r(1) m'(1) by (simp add: visit_order_add_def Let_def s_def oid_def p_def b1_def add_tail_def)
    have b1: "nodes E b1 s = nodes E b s" "e_pm_side E (bs_price_map (b_side b1 s)) = s" "b_level_pool b1 = b_level_pool b"
      "b_order_pool b1 = op" "bs_oid_map (b_side b1 s) = m'" "b_side b1 (side_not s) = b_side b (side_not s)"
      by (simp_all add: b1_def book_pm [OF inv])
    note sok = book_side_ok [OF inv, of s] and fr = fresh_order [OF inv r(3)]
    have sorted: "sorted_side s (nodes E b1 s)" unfolding b1(1) by (rule side_sorted [OF sok])
    have pinv1: "pool_inv (e_level_opts E) (b_level_pool b1)" "pool_inv (e_order_opts E) (b_order_pool b1)"
      unfolding b1(3,4) by (rule book_levels [OF inv], rule r(2))
    have o1: "orders E b1 = (orders E b)(r \<mapsto> default_order)" "levels E b1 = levels E b" "orders E b1 r = Some default_order"
      by (simp_all add: b1 r(4))
    show ?thesis
    proof (cases "p \<in> fst ` set (nodes E b s)")
      case True
      then obtain lr where lr: "(p, lr) \<in> set (nodes E b s)" by auto
      obtain lv where lv: "levels E b lr = Some lv" "level_ok E (orders E b) (oids b s) p lr lv"
        using side_level [OF sok lr] by blast
      obtain x xs where x: "refs E lv = x # xs" using lv(2) by (cases "refs E lv") (auto simp: level_ok_def)
      then obtain front where front: "orders E b x = Some front" "o_parent front = lr" using lv(2) by (auto simp: level_ok_def)
      have nr: "r \<notin> set (refs E lv)" using lv(2) r(3) by (fastforce simp: level_ok_def)
      have lr1: "(p, lr) \<in> set (nodes E b1 s)" "levels E b1 lr = Some lv" "orders E b1 x = Some front"
        using lr lv(1) front x nr by (auto simp: b1 r(4))
      obtain b' lv' where b': "add_tail E s p (m_qty msg) r b1 = Some (Inr b')" "b_side b' = b_side b1" "seated E r lr (m_qty msg) lv' b1 b'"
        "l_price lv' = l_price lv" "refs E lv' = r # refs E lv" "e_has_qty E \<Longrightarrow> l_qty lv' = narrow 32 (l_qty lv + m_qty msg)"
        "e_has_order_count E \<Longrightarrow> l_order_count lv' = narrow 32 (l_order_count lv + 1)"
        using add_tail_old [OF env pinv1 sorted b1(2) lr1(1,2) x lr1(3) front(2) o1(3) nr] by metis
      have pr: "l_price lv' = p" using b'(4) lv(2) by (simp add: level_ok_def)
      note sok' = side_ok_add_old [OF sok lr lv(1) new fr pr b'(5-7)]
      have "book_inv E b' \<and> resting E b' s = (resting E b s)(oid \<mapsto> (p, narrow 32 (m_qty msg))) \<and>
          resting E b' (side_not s) = resting E b (side_not s) \<and> keeps_others E b b'"
        by (rule add_result [OF inv new r(3) o1(1,2) b'(3) _ _ _ _ pr])
          (use sok' lr m' b1 b'(2) in \<open>simp_all add: insert_absorb\<close>)
      then show ?thesis using start b'(1) by auto
    next
      case newp: False
      then have newp1: "p \<notin> fst ` set (nodes E b1 s)" by (simp add: b1(1))
      show ?thesis
      proof (cases "pool_full (e_level_opts E) (b_level_pool b1)")
        case True
        with add_tail_full [OF env pinv1(1) sorted b1(2) newp1 True] start b1(3) show ?thesis
          by (auto simp: add_exhausts_def)
      next
        case False
        obtain b' lr lv' where b': "add_tail E s p (m_qty msg) r b1 = Some (Inr b')" "seated E r lr (m_qty msg) lv' b1 b'"
          "levels E b1 lr = None"
          "b_side b' = (b_side b1)(s := (b_side b1 s)\<lparr>bs_price_map := e_pm_insert_commit E p lr (bs_price_map (b_side b1 s))\<rparr>)"
          "nodes E b' s = insert_level s p lr (nodes E b1 s)" "l_price lv' = p" "refs E lv' = [r]"
          "e_has_qty E \<Longrightarrow> l_qty lv' = narrow 32 (m_qty msg)" "e_has_order_count E \<Longrightarrow> l_order_count lv' = narrow 32 1"
          using add_tail_new [OF env pinv1 sorted b1(2) newp1 o1(3) False] by metis
        have lr': "levels E b lr = None" using b'(3) o1(2) by simp
        have lq: "e_has_qty E \<Longrightarrow> l_qty lv' = narrow 32 (narrow 32 (m_qty msg))" using b'(8) by simp
        note sok' = side_ok_add_new [OF sok new fr fresh_level [OF inv lr'] newp b'(6,7) lq b'(9) narrow_narrow]
        have "book_inv E b' \<and> resting E b' s = (resting E b s)(oid \<mapsto> (p, narrow 32 (m_qty msg))) \<and>
            resting E b' (side_not s) = resting E b (side_not s) \<and> keeps_others E b b'"
          by (rule add_result [OF inv new r(3) o1(1,2) b'(2) _ _ _ _ b'(6)])
            (use sok' lr' m' b1 b'(4,5) env_pm_side(1) [OF env] in simp_all)
        then show ?thesis using start b'(1) by auto
      qed
    qed
  qed
qed

end
