(* ===== verification/Book_Remove.thy ===== *)
theory Book_Remove
  imports Book_Ops
begin

text \<open>
  Fills, deletions and replacements of resting orders: what each does to the invariant and to
  the resting orders of a book.
\<close>

section \<open>Removing an order\<close>

lemma cst_remove_law:
  assumes "cst_inv P t"
  obtains t' found where "cst_remove P k t = Some (t', found)" "cst_inv P t'" "cst_map t' = (cst_map t)(k := None)"
  using cst.rem_law [OF assms, of k] by (auto simp: cst_remove_def cst_remove_and_get_def)

text \<open>The level after the removal: gone with its last order, or with its aggregates lowered.\<close>

definition level_tail :: "('l, 'pm) lob_env \<Rightarrow> nat \<Rightarrow> int \<Rightarrow> 'pm book_side \<Rightarrow> 'l lob_level pool \<Rightarrow> ('pm book_side \<times> 'l lob_level pool) result option" where
  "level_tail E lr q side lp =
     bind_ro (pool_get (e_level_opts E) False lr lp) (\<lambda>l.
       if e_list_empty E (l_orders l) then
         bind_ro (pool_release (e_level_opts E) lr lp) (\<lambda>(_, lp).
           Some (Inr (side\<lparr>bs_price_map := e_pm_erase E lr (bs_price_map side)\<rparr>, lp)))
       else
         bind_ro (lift_o (pool_modify (e_level_opts E) lr (agg_add E (- q) (- 1)) lp)) (\<lambda>lp.
           Some (Inr (side, lp))))"

lemma level_tail_last:
  assumes env: "env_ok E" and lp: "pool_inv (e_level_opts E) lp" "objs (e_level_opts E) lp lr = Some lv" "refs E lv = []"
  obtains lp' where "level_tail E lr q side lp =
      Some (Inr (side\<lparr>bs_price_map := e_pm_erase E lr (bs_price_map side)\<rparr>, lp'))"
    "pool_inv (e_level_opts E) lp'" "objs (e_level_opts E) lp' = (objs (e_level_opts E) lp)(lr := None)"
proof -
  obtain lp' where "pool_release (e_level_opts E) lr lp = Some (Inr (lv, lp'))" "pool_inv (e_level_opts E) lp'"
    "objs (e_level_opts E) lp' = (objs (e_level_opts E) lp)(lr := None)"
    using pool.free_law [OF lp(1,2)] by blast
  with that pool_get_spec [OF lp(1,2)] lp(3) env_list(5) [OF env, of "l_orders lv"] show ?thesis
    by (auto simp: level_tail_def refs_def)
qed

lemma level_tail_more:
  assumes env: "env_ok E" and lp: "pool_inv (e_level_opts E) lp" "objs (e_level_opts E) lp lr = Some lv" "refs E lv \<noteq> []"
  obtains lp' where "level_tail E lr q side lp = Some (Inr (side, lp'))" "pool_inv (e_level_opts E) lp'"
    "objs (e_level_opts E) lp' = (objs (e_level_opts E) lp)(lr \<mapsto> agg_add E (- q) (- 1) lv)"
proof -
  obtain lp' where "pool_modify (e_level_opts E) lr (agg_add E (- q) (- 1)) lp = Some lp'" "pool_inv (e_level_opts E) lp'"
    "objs (e_level_opts E) lp' = (objs (e_level_opts E) lp)(lr \<mapsto> agg_add E (- q) (- 1) lv)"
    using pool.upd_law [OF lp(1,2)] by blast
  with that pool_get_spec [OF lp(1,2)] lp(3) env_list(5) [OF env, of "l_orders lv"] show ?thesis
    by (auto simp: level_tail_def refs_def)
qed

text \<open>From a removed order to the book's invariant and its resting orders.\<close>

lemma book_remove_result:
  assumes inv: "book_inv E b" and m: "oids b s oid = Some r" "orders E b r = Some ord" "levels E b (o_parent ord) = Some lv"
    and side: "b_side b' (side_not s) = b_side b (side_not s)"
    and pools: "pool_inv (e_order_opts E) (b_order_pool b')" "pool_inv (e_level_opts E) (b_level_pool b')"
    and ords: "orders E b' = (orders E b)(r := None)" and levs: "levels E b' = (levels E b)(o_parent ord := lv')"
    and lv': "\<And>l. lv' = Some l \<Longrightarrow> l_price l = l_price lv" "lv' = None \<Longrightarrow> refs E lv = [r]"
    and om: "cst_inv (e_oid_traits E) (bs_oid_map (b_side b' s))" "oids b' s = (oids b s)(oid := None)"
    and pms: "e_pm_side E (bs_price_map (b_side b' s)) = s"
    and sok': "side_ok E s ((orders E b)(r := None)) ((levels E b)(o_parent ord := lv')) ((oids b s)(oid := None)) (nodes E b' s)"
    and ns: "set (nodes E b' s) \<subseteq> set (nodes E b s)"
  shows "book_inv E b' \<and> resting E b' s = (resting E b s)(oid := None) \<and> resting E b' (side_not s) = resting E b (side_not s) \<and>
    keeps_others E b b'"
proof -
  have rs: "r \<in> ran (oids b s)" using m(1) by (auto simp: ran_def)
  have ps: "o_parent ord \<in> snd ` set (nodes E b s)"
    using side_order_here(2) [OF book_side_ok [OF inv] m(1,2) refl m(3)] by force
  have ran: "ran ((oids b s)(oid := None)) \<subseteq> ran (oids b s)" by (auto simp: ran_def split: if_splits)
  have f1: "orders E b' r' = orders E b r' \<and> r' \<notin> ran (oids b' s)" if "r' \<in> ran (oids b (side_not s))" for r'
    using that rs ran book_disj(1) [OF inv, of s] unfolding ords om(2) by auto
  have f2: "levels E b' l' = levels E b l' \<and> l' \<notin> snd ` set (nodes E b' s)" if "l' \<in> snd ` set (nodes E b (side_not s))" for l'
  proof -
    have "l' \<notin> snd ` set (nodes E b s)" using that book_disj(2) [OF inv, of s] by blast
    with ps ns show ?thesis unfolding levs by auto
  qed
  note upd = book_inv_upd [OF inv side pools om(1) pms sok' [folded ords levs om(2)] f1 f2]
  have "resting E b' s = (resting E b s)(oid := resting E b' s oid)"
  proof (rule resting_upd [OF inv om(2) ords levs])
    fix oid' r' ord' lv1
    assume o: "oid' \<noteq> oid" "oids b s oid' = Some r'"
    then have ne: "r' \<noteq> r" using side_inj [OF book_side_ok [OF inv]] m(1) by blast
    then show "orders E b r' = Some ord' \<Longrightarrow> ((orders E b)(r := None)) r' = Some ord'" by simp
    assume "orders E b r' = Some ord'" "levels E b (o_parent ord') = Some lv1" "r' \<in> set (refs E lv1)"
    then show "\<exists>lv''. ((levels E b)(o_parent ord := lv')) (o_parent ord') = Some lv'' \<and> l_price lv'' = l_price lv1"
      using m(3) lv' ne by (cases lv') auto
  qed simp
  moreover have "resting E b' s oid = None" by (simp add: resting_def om(2))
  moreover have "keeps_others E b b'"
  proof (rule keeps_othersI [OF side])
    fix r' o1 assume "orders E b r' = Some o1" "r' \<notin> ran (oids b s)"
    then show "orders E b' r' = Some o1 \<and> r' \<notin> ran (oids b' s)" using rs ran by (auto simp: ords om(2))
  next
    fix l lv1 assume "levels E b l = Some lv1" "l \<notin> snd ` set (nodes E b s)"
    then show "levels E b' l = Some lv1 \<and> l \<notin> snd ` set (nodes E b' s)" using ps ns by (auto simp: levs)
  qed
  ultimately show ?thesis using upd by auto
qed

lemma remove_order_spec:
  assumes env: "env_ok E" and inv: "book_inv E b" and m: "oids b s oid = Some r"
    and b1: "b1 = set_side s ((b_side b s)\<lparr>bs_oid_map := m1\<rparr>) b" "cst_inv (e_oid_traits E) m1"
      "(cst_map m1)(oid := None) = (oids b s)(oid := None)"
  obtains b' where "remove_order E s oid r b1 = Some (Inr b')" "book_inv E b'"
    "resting E b' s = (resting E b s)(oid := None)" "resting E b' (side_not s) = resting E b (side_not s)" "keeps_others E b b'"
proof -
  note sok = book_side_ok [OF inv, of s]
  obtain ord lv where o: "orders E b r = Some ord" "levels E b (o_parent ord) = Some lv"
    "(l_price lv, o_parent ord) \<in> set (nodes E b s)" "r \<in> set (refs E lv)"
    using resting_Some [OF inv m] by metis
  let ?lr = "o_parent ord" and ?lv1 = "lv\<lparr>l_orders := e_list_erase E r (l_orders lv)\<rparr>"
  have rl: "refs E ?lv1 = remove1 r (refs E lv)" using env_list(3) [OF env, of r "l_orders lv"] o(4) by (simp add: refs_def)
  obtain m2 found where m2: "cst_remove (e_oid_traits E) oid m1 = Some (m2, found)" "cst_inv (e_oid_traits E) m2"
    "cst_map m2 = (cst_map m1)(oid := None)"
    using cst_remove_law [OF b1(2)] by metis
  obtain lp1 where lp1: "pool_modify (e_level_opts E) ?lr (\<lambda>l. l\<lparr>l_orders := e_list_erase E r (l_orders l)\<rparr>) (b_level_pool b) = Some lp1"
    "pool_inv (e_level_opts E) lp1" "objs (e_level_opts E) lp1 = (levels E b)(?lr \<mapsto> ?lv1)"
    using pool.upd_law [OF book_levels [OF inv] o(2)] by blast
  obtain op' where op': "pool_release (e_order_opts E) r (b_order_pool b) = Some (Inr (ord, op'))"
    "pool_inv (e_order_opts E) op'" "objs (e_order_opts E) op' = (orders E b)(r := None)"
    using pool.free_law [OF book_orders [OF inv] o(1)] by blast
  have lpr: "objs (e_level_opts E) lp1 ?lr = Some ?lv1" by (simp add: lp1(3))
  let ?side = "(b_side b s)\<lparr>bs_oid_map := m2\<rparr>"
  have start: "remove_order E s oid r b1 =
    bind_ro (level_tail E ?lr (o_qty ord) ?side lp1) (\<lambda>(side, levels).
      Some (Inr ((set_side s side b)\<lparr>b_order_pool := op', b_level_pool := levels\<rparr>)))"
  proof -
    have sd: "(b_side b1 s)\<lparr>bs_oid_map := m2\<rparr> = ?side" "bs_oid_map (b_side b1 s) = m1"
      "bs_price_map (b_side b1 s) = bs_price_map (b_side b s)" by (simp_all add: b1(1))
    have st: "set_side s x b1 = set_side s x b" "b_order_pool b1 = b_order_pool b" "b_level_pool b1 = b_level_pool b" for x
      by (simp_all add: b1(1) set_side_def)
    show ?thesis
      using pool_get_spec [OF book_orders [OF inv] o(1)] m2(1) lp1(1) op'(1)
      by (simp add: remove_order_def Let_def sd st level_tail_def bind_ro_assoc cong: if_cong)
  qed
  have pm: "e_pm_side E (bs_price_map (b_side b s)) = s" by (rule book_pm [OF inv])
  have ids: "cst_map m2 = (oids b s)(oid := None)" using m2(3) b1(3) by simp
  show ?thesis
  proof (cases "remove1 r (refs E lv) = []")
    case True
    obtain lp2 where lp2: "level_tail E ?lr (o_qty ord) ?side lp1 =
        Some (Inr (?side\<lparr>bs_price_map := e_pm_erase E ?lr (bs_price_map ?side)\<rparr>, lp2))"
      "pool_inv (e_level_opts E) lp2" "objs (e_level_opts E) lp2 = (objs (e_level_opts E) lp1)(?lr := None)"
      by (rule level_tail_last [OF env lp1(2) lpr]) (simp add: rl True)
    let ?b' = "(set_side s (?side\<lparr>bs_price_map := e_pm_erase E ?lr (bs_price_map ?side)\<rparr>) b)\<lparr>b_order_pool := op', b_level_pool := lp2\<rparr>"
    have nd: "nodes E ?b' s = filter (\<lambda>x. snd x \<noteq> ?lr) (nodes E b s)"
      using env_pm(3) [OF env, of "bs_price_map (b_side b s)"] side_sorted [OF sok] pm by simp
    have one: "refs E lv = [r]" using True o(4) by (cases "refs E lv") (auto split: if_splits)
    have "book_inv E ?b' \<and> resting E ?b' s = (resting E b s)(oid := None) \<and> resting E ?b' (side_not s) = resting E b (side_not s) \<and>
        keeps_others E b ?b'"
      by (rule book_remove_result [OF inv m o(1,2), where lv' = None])
        (use op' lp2 lp1(3) m2(2) ids pm one env_pm_side(2) [OF env] nd side_ok_remove_last [OF sok m o(1) refl o(2) True] in simp_all)
    with that start lp2(1) show ?thesis by simp
  next
    case False
    obtain lp2 where lp2: "level_tail E ?lr (o_qty ord) ?side lp1 = Some (Inr (?side, lp2))"
      "pool_inv (e_level_opts E) lp2"
      "objs (e_level_opts E) lp2 = (objs (e_level_opts E) lp1)(?lr \<mapsto> agg_add E (- o_qty ord) (- 1) ?lv1)"
      by (rule level_tail_more [OF env lp1(2) lpr]) (simp add: rl False)
    let ?lv2 = "agg_add E (- o_qty ord) (- 1) ?lv1"
    let ?b' = "(set_side s ?side b)\<lparr>b_order_pool := op', b_level_pool := lp2\<rparr>"
    have l2: "l_price ?lv2 = l_price lv" "refs E ?lv2 = remove1 r (refs E lv)"
      "e_has_qty E \<Longrightarrow> l_qty ?lv2 = narrow 32 (l_qty lv - o_qty ord)"
      "e_has_order_count E \<Longrightarrow> l_order_count ?lv2 = narrow 32 (l_order_count lv - 1)"
      using rl by (simp_all add: agg_add_def agg_set_def refs_def)
    have "book_inv E ?b' \<and> resting E ?b' s = (resting E b s)(oid := None) \<and> resting E ?b' (side_not s) = resting E b (side_not s) \<and>
        keeps_others E b ?b'"
      by (rule book_remove_result [OF inv m o(1,2), where lv' = "Some ?lv2"])
        (use op' lp2 lp1(3) m2(2) ids pm l2(1) side_ok_remove_more [OF sok m o(1) refl o(2) False l2] in simp_all)
    with that start lp2(1) show ?thesis by simp
  qed
qed

lemma order_delete_spec:
  fixes b :: "('l, 'pm) lob" and msg :: itch_order
  defines "s \<equiv> to_side (m_side msg)" and "oid \<equiv> m_oid msg"
  assumes env: "env_ok E" and inv: "book_inv E b"
  obtains b' where "visit_order_delete E msg b = Some (Inr b')" "book_inv E b'"
    "resting E b' s = (resting E b s)(oid := None)" "resting E b' (side_not s) = resting E b (side_not s)" "keeps_others E b b'"
proof -
  obtain m1 where m1: "cst_remove_and_get (e_oid_traits E) oid (bs_oid_map (b_side b s)) = Some (m1, oids b s oid)"
    "cst_inv (e_oid_traits E) m1" "cst_map m1 = (oids b s)(oid := None)"
    using cst.rem_law [OF book_oids [OF inv]] by blast
  let ?b1 = "set_side s ((b_side b s)\<lparr>bs_oid_map := m1\<rparr>) b"
  have start: "visit_order_delete E msg b = (case oids b s oid of None \<Rightarrow> Some (Inr ?b1) | Some r \<Rightarrow> remove_order E s oid r ?b1)"
    using m1(1) by (simp add: visit_order_delete_def Let_def flip: s_def oid_def)
  show ?thesis
  proof (cases "oids b s oid")
    case None
    have ids: "cst_map m1 = oids b s" using m1(3) None by (auto simp: fun_eq_iff)
    have fr: "r' \<notin> ran (oids b s)" if "r' \<in> ran (oids b (side_not s))" for r' using that book_disj(1) [OF inv, of s] by auto
    have fl: "l' \<notin> snd ` set (nodes E b s)" if "l' \<in> snd ` set (nodes E b (side_not s))" for l'
      using that book_disj(2) [OF inv, of s] by auto
    have sd: "b_side ?b1 (side_not s) = b_side b (side_not s)" by simp
    have "book_inv E ?b1" "resting E ?b1 (side_not s) = resting E b (side_not s)"
      by (rule book_inv_upd [OF inv sd], use book_orders [OF inv] book_levels [OF inv] m1(2) book_pm [OF inv] book_side_ok [OF inv] ids fr fl in auto)+
    moreover have "resting E ?b1 s = resting E b s" by (rule ext) (simp add: resting_def ids cong: option.case_cong)
    moreover have "(resting E b s)(oid := None) = resting E b s" using None resting_None [OF inv, of s oid] by auto
    moreover have "keeps_others E b ?b1" by (rule keeps_othersI [OF sd]) (simp_all add: ids)
    ultimately show ?thesis using that start None by simp
  next
    case (Some r)
    have "(cst_map m1)(oid := None) = (oids b s)(oid := None)" by (simp add: m1(3))
    from remove_order_spec [OF env inv Some refl m1(2) this] that start Some show ?thesis by auto
  qed
qed

section \<open>Filling an order\<close>

text \<open>A change of one order's quantity, with its level's aggregate following.\<close>

lemma qty_result:
  assumes inv: "book_inv E b" and m: "oids b s oid = Some r" "orders E b r = Some ord" "levels E b (o_parent ord) = Some lv"
    and same: "b_side b' = b_side b"
    and pools: "pool_inv (e_order_opts E) (b_order_pool b')" "pool_inv (e_level_opts E) (b_level_pool b')"
    and q: "q = narrow 32 (o_qty ord - d)"
    and ords: "orders E b' = (orders E b)(r \<mapsto> ord\<lparr>o_qty := q\<rparr>)"
    and levs: "levels E b' = (levels E b)(o_parent ord \<mapsto> (if e_has_qty E then lv\<lparr>l_qty := narrow 32 (l_qty lv - d)\<rparr> else lv))"
  shows "book_inv E b' \<and> resting E b' s = (resting E b s)(oid \<mapsto> (l_price lv, q)) \<and>
    resting E b' (side_not s) = resting E b (side_not s) \<and> keeps_others E b b'"
proof -
  let ?lr = "o_parent ord" and ?lv = "if e_has_qty E then lv\<lparr>l_qty := narrow 32 (l_qty lv - d)\<rparr> else lv"
  have sok: "side_ok E s (orders E b') (levels E b') (oids b' s) (nodes E b' s)"
    using side_ok_fill [OF book_side_ok [OF inv] m(1,2) refl m(3), of ?lv d q] by (simp add: refs_def q same ords levs)
  have rs: "r \<in> ran (oids b s)" using m(1) by (auto simp: ran_def)
  have ps: "?lr \<in> snd ` set (nodes E b s)" using side_order_here(2) [OF book_side_ok [OF inv] m(1,2) refl m(3)] by force
  have f1: "orders E b' r' = orders E b r' \<and> r' \<notin> ran (oids b' s)" if "r' \<in> ran (oids b (side_not s))" for r'
    using that rs book_disj(1) [OF inv, of s] by (auto simp: ords same)
  have f2: "levels E b' l' = levels E b l' \<and> l' \<notin> snd ` set (nodes E b' s)" if "l' \<in> snd ` set (nodes E b (side_not s))" for l'
  proof -
    have "l' \<notin> snd ` set (nodes E b s)" using that book_disj(2) [OF inv, of s] by blast
    with ps show ?thesis by (auto simp: levs same)
  qed
  have sd: "b_side b' (side_not s) = b_side b (side_not s)" by (simp add: same)
  have om: "cst_inv (e_oid_traits E) (bs_oid_map (b_side b' s))" "e_pm_side E (bs_price_map (b_side b' s)) = s"
    using book_oids [OF inv] book_pm [OF inv] by (simp_all add: same)
  note upd = book_inv_upd [OF inv sd pools om sok f1 f2]
  have ids: "oids b' s = oids b s" by (simp add: same)
  have "resting E b' s = (resting E b s)(oid := resting E b' s oid)"
  proof (rule resting_upd [OF inv ids ords levs])
    fix oid' r' ord' lv1
    assume o': "oid' \<noteq> oid" "oids b s oid' = Some r'"
    then have "r' \<noteq> r" using side_inj [OF book_side_ok [OF inv]] m(1) by blast
    then show "orders E b r' = Some ord' \<Longrightarrow> ((orders E b)(r \<mapsto> ord\<lparr>o_qty := q\<rparr>)) r' = Some ord'" by simp
    assume "orders E b r' = Some ord'" "levels E b (o_parent ord') = Some lv1"
    then show "\<exists>lv''. ((levels E b)(?lr \<mapsto> ?lv)) (o_parent ord') = Some lv'' \<and> l_price lv'' = l_price lv1"
      using m(3) by auto
  qed simp
  moreover have "resting E b' s oid = Some (l_price lv, q)" using m(1) by (simp add: resting_def ids ords levs)
  moreover have "keeps_others E b b'"
    by (rule keeps_othersI [OF sd]) (use rs ps in \<open>auto simp: ords levs same\<close>)
  ultimately show ?thesis using upd by auto
qed

lemma level_qty_step:
  assumes "pool_inv (e_level_opts E) lp" "objs (e_level_opts E) lp lr = Some lv"
  obtains lp' where "(if e_has_qty E then
          lift_o (pool_modify (e_level_opts E) lr (\<lambda>l. l\<lparr>l_qty := narrow 32 (h (l_qty l))\<rparr>) lp)
        else Some (Inr lp)) = Some (Inr lp')"
    "pool_inv (e_level_opts E) lp'"
    "objs (e_level_opts E) lp' = (objs (e_level_opts E) lp)(lr \<mapsto> (if e_has_qty E then lv\<lparr>l_qty := narrow 32 (h (l_qty lv))\<rparr> else lv))"
proof (cases "e_has_qty E")
  case True
  obtain lp' where "pool_modify (e_level_opts E) lr (\<lambda>l. l\<lparr>l_qty := narrow 32 (h (l_qty l))\<rparr>) lp = Some lp'"
    "pool_inv (e_level_opts E) lp'" "objs (e_level_opts E) lp' = (objs (e_level_opts E) lp)(lr \<mapsto> lv\<lparr>l_qty := narrow 32 (h (l_qty lv))\<rparr>)"
    using pool.upd_law [OF assms] by blast
  with that [of lp'] True show ?thesis by simp
next
  case no: False
  with that [of lp] assms show ?thesis by (simp add: fun_upd_idem)
qed

lemma order_fill_spec:
  fixes b :: "('l, 'pm) lob" and msg :: itch_order
  defines "s \<equiv> to_side (m_side msg)" and "oid \<equiv> m_oid msg" and "d \<equiv> m_qty msg"
  assumes env: "env_ok E" and inv: "book_inv E b"
  obtains b' where "visit_order_fill E msg b = Some (Inr b')" "book_inv E b'"
    "resting E b' s = (case resting E b s oid of None \<Rightarrow> resting E b s
       | Some (p, q) \<Rightarrow> if q - d \<le> 0 then (resting E b s)(oid := None) else (resting E b s)(oid \<mapsto> (p, narrow 32 (q - d))))"
    "resting E b' (side_not s) = resting E b (side_not s)" "keeps_others E b b'"
proof -
  have get: "cst_get (e_oid_traits E) (bs_oid_map (b_side b s)) oid = Some (oids b s oid)"
    by (rule cst.get_law [OF book_oids [OF inv]])
  show ?thesis
  proof (cases "oids b s oid")
    case None
    then have "visit_order_fill E msg b = Some (Inr b)" using get by (simp add: visit_order_fill_def Let_def flip: s_def oid_def)
    with that [of b] inv None resting_None [OF inv, of s oid] keeps_others_refl [of E b] show ?thesis by simp
  next
    case (Some r)
    obtain ord lv where o: "orders E b r = Some ord" "levels E b (o_parent ord) = Some lv"
      "(l_price lv, o_parent ord) \<in> set (nodes E b s)" "r \<in> set (refs E lv)"
      "resting E b s oid = Some (l_price lv, o_qty ord)"
      using resting_Some [OF inv Some] by metis
    note og = pool_get_spec [OF book_orders [OF inv] o(1), of False]
    show ?thesis
    proof (cases "o_qty ord - d \<le> 0")
      case True
      have b: "b = set_side s ((b_side b s)\<lparr>bs_oid_map := bs_oid_map (b_side b s)\<rparr>) b" by (simp add: set_side_def)
      from remove_order_spec [OF env inv Some b book_oids [OF inv] refl] obtain b' where
        "remove_order E s oid r b = Some (Inr b')" "book_inv E b'"
        "resting E b' s = (resting E b s)(oid := None)" "resting E b' (side_not s) = resting E b (side_not s)" "keeps_others E b b'"
        by metis
      moreover have "visit_order_fill E msg b = remove_order E s oid r b"
        using get Some og True by (simp add: visit_order_fill_def Let_def flip: s_def oid_def d_def)
      ultimately show ?thesis using that o(5) True by simp
    next
      case False
      let ?q = "narrow 32 (o_qty ord - d)"
      obtain lp where lp: "(if e_has_qty E then
          lift_o (pool_modify (e_level_opts E) (o_parent ord) (\<lambda>l. l\<lparr>l_qty := narrow 32 (l_qty l - d)\<rparr>) (b_level_pool b))
          else Some (Inr (b_level_pool b))) = Some (Inr lp)" "pool_inv (e_level_opts E) lp"
        "objs (e_level_opts E) lp = (levels E b)(o_parent ord \<mapsto> (if e_has_qty E then lv\<lparr>l_qty := narrow 32 (l_qty lv - d)\<rparr> else lv))"
        by (rule level_qty_step [where h = "\<lambda>x. x - d", OF book_levels [OF inv] o(2)])
      obtain op' where op': "pool_modify (e_order_opts E) r (\<lambda>ord. ord\<lparr>o_qty := ?q\<rparr>) (b_order_pool b) = Some op'"
        "pool_inv (e_order_opts E) op'" "objs (e_order_opts E) op' = (orders E b)(r \<mapsto> ord\<lparr>o_qty := ?q\<rparr>)"
        using pool.upd_law [OF book_orders [OF inv] o(1)] by blast
      let ?b' = "b\<lparr>b_order_pool := op', b_level_pool := lp\<rparr>"
      have res: "visit_order_fill E msg b = Some (Inr ?b')"
        using get Some og False lp(1) op'(1) by (simp add: visit_order_fill_def Let_def flip: s_def oid_def d_def)
      have "book_inv E ?b' \<and> resting E ?b' s = (resting E b s)(oid \<mapsto> (l_price lv, ?q)) \<and>
          resting E ?b' (side_not s) = resting E b (side_not s) \<and> keeps_others E b ?b'"
        by (rule qty_result [OF inv Some o(1,2) _ _ _ refl]) (use op' lp in simp_all)
      with that res o(5) False show ?thesis by simp
    qed
  qed
qed

section \<open>Replacing an order\<close>

text \<open>
  Because the parent reference has been overwritten when it is read, the visit always takes
  the branch of a replacement within one level.
\<close>

lemma replace_body:
  fixes b :: "('l, 'pm) lob" and msg :: itch_order
  defines "s \<equiv> to_side (m_side msg)" and "p \<equiv> wire_to_book (m_price msg)" and "q \<equiv> m_qty msg"
  assumes m: "cst_get (e_oid_traits E) (bs_oid_map (b_side b s)) (m_oid msg) = Some (Some r)"
    and find: "find_or_add_level E s p (agg_set E 0 0) (\<lambda>l. l) b = Some (Inr (lr, lr, b1))"
    and b1: "pool_inv (e_order_opts E) (b_order_pool b1)" "pool_inv (e_level_opts E) (b_level_pool b1)"
      "orders E b1 r = Some ord" "levels E b1 lr = Some lv"
  obtains b' where "visit_order_replace E msg b = Some (Inr b')" "b_side b' = b_side b1"
    "pool_inv (e_order_opts E) (b_order_pool b')" "pool_inv (e_level_opts E) (b_level_pool b')"
    "orders E b' = (orders E b1)(r \<mapsto> \<lparr>o_parent = lr, o_qty = narrow 32 q\<rparr>)"
    "levels E b' = (levels E b1)(lr \<mapsto> (if e_has_qty E then lv\<lparr>l_qty := narrow 32 (l_qty lv + (q - o_qty ord))\<rparr> else lv))"
proof -
  obtain op1 where op1: "pool_modify (e_order_opts E) r (\<lambda>ord. ord\<lparr>o_parent := lr\<rparr>) (b_order_pool b1) = Some op1"
    "pool_inv (e_order_opts E) op1" "objs (e_order_opts E) op1 = (orders E b1)(r \<mapsto> ord\<lparr>o_parent := lr\<rparr>)"
    using pool.upd_law [OF b1(1,3)] by blast
  then have o1: "objs (e_order_opts E) op1 r = Some (ord\<lparr>o_parent := lr\<rparr>)" by simp
  obtain op2 where op2: "pool_modify (e_order_opts E) r (\<lambda>ord. ord\<lparr>o_qty := narrow 32 q\<rparr>) op1 = Some op2"
    "pool_inv (e_order_opts E) op2" "objs (e_order_opts E) op2 = (objs (e_order_opts E) op1)(r \<mapsto> ord\<lparr>o_parent := lr, o_qty := narrow 32 q\<rparr>)"
    using pool.upd_law [OF op1(2) o1] by blast
  have same: "ord\<lparr>o_parent := lr, o_qty := narrow 32 q\<rparr> = \<lparr>o_parent = lr, o_qty = narrow 32 q\<rparr>" by simp
  obtain lp where lp: "(if e_has_qty E then
      lift_o (pool_modify (e_level_opts E) lr (\<lambda>l. l\<lparr>l_qty := narrow 32 (l_qty l + (q - o_qty ord))\<rparr>) (b_level_pool b1))
      else Some (Inr (b_level_pool b1))) = Some (Inr lp)" "pool_inv (e_level_opts E) lp"
    "objs (e_level_opts E) lp = (levels E b1)(lr \<mapsto> (if e_has_qty E then lv\<lparr>l_qty := narrow 32 (l_qty lv + (q - o_qty ord))\<rparr> else lv))"
    by (rule level_qty_step [where h = "\<lambda>x. x + (q - o_qty ord)", OF b1(2,4)])
  let ?b' = "b1\<lparr>b_order_pool := op2, b_level_pool := lp\<rparr>"
  have "visit_order_replace E msg b = Some (Inr ?b')"
    using m find op1(1) op2(1) pool_get_spec [OF op1(2) o1] pool_get_spec [OF b1(2,4)] lp(1)
    by (cases "e_has_qty E") (simp_all add: visit_order_replace_def Let_def flip: s_def p_def q_def)
  with that [of ?b'] op2 op1(3) lp(2,3) same show ?thesis by simp
qed

lemma order_replace_same_spec:
  fixes b :: "('l, 'pm) lob" and msg :: itch_order
  defines "s \<equiv> to_side (m_side msg)" and "oid \<equiv> m_oid msg" and "p \<equiv> wire_to_book (m_price msg)"
  assumes env: "env_ok E" and inv: "book_inv E b" and here: "resting E b s oid = Some (p, q0)"
  obtains b' where "visit_order_replace E msg b = Some (Inr b')" "book_inv E b'"
    "resting E b' s = (resting E b s)(oid \<mapsto> (p, narrow 32 (m_qty msg)))"
    "resting E b' (side_not s) = resting E b (side_not s)" "keeps_others E b b'"
proof -
  have "oids b s oid \<noteq> None" using here resting_None [OF inv, of s oid] by auto
  then obtain r where r: "oids b s oid = Some r" by blast
  obtain ord lv where o: "orders E b r = Some ord" "levels E b (o_parent ord) = Some lv"
    "(l_price lv, o_parent ord) \<in> set (nodes E b s)" "r \<in> set (refs E lv)" "resting E b s oid = Some (l_price lv, o_qty ord)"
    using resting_Some [OF inv r] by metis
  have pr: "l_price lv = p" using o(5) here by simp
  note sok = book_side_ok [OF inv, of s]
  obtain x xs where x: "refs E lv = x # xs" using o(4) by (cases "refs E lv") auto
  obtain front where front: "orders E b x = Some front" "o_parent front = o_parent ord"
    using level_refs_parent [OF sok o(3,2), of x] x by auto
  obtain lp where lp: "find_or_add_level E s p (agg_set E 0 0) (\<lambda>l. l) b = Some (Inr (o_parent ord, o_parent front, b\<lparr>b_level_pool := lp\<rparr>))"
    "pool_inv (e_level_opts E) lp" "objs (e_level_opts E) lp = (levels E b)(o_parent ord \<mapsto> lv)"
    by (rule find_level_spec [where g = "\<lambda>l. l", OF env book_levels [OF inv] book_orders [OF inv] side_sorted [OF sok] book_pm [OF inv]
        o(3) [unfolded pr] o(2) x front(1)])
  have lsame: "objs (e_level_opts E) lp = levels E b" using o(2) by (simp add: lp(3) fun_upd_idem)
  let ?b1 = "b\<lparr>b_level_pool := lp\<rparr>" and ?q = "narrow 32 (m_qty msg)"
  have get: "cst_get (e_oid_traits E) (bs_oid_map (b_side b s)) oid = Some (Some r)"
    using cst.get_law [OF book_oids [OF inv], of s oid] r by simp
  have b1: "pool_inv (e_order_opts E) (b_order_pool ?b1)" "pool_inv (e_level_opts E) (b_level_pool ?b1)"
    "orders E ?b1 r = Some ord" "levels E ?b1 (o_parent ord) = Some lv"
    using book_orders [OF inv] lp(2) o(1,2) lsame by simp_all
  obtain b' where b': "visit_order_replace E msg b = Some (Inr b')" "b_side b' = b_side ?b1"
    "pool_inv (e_order_opts E) (b_order_pool b')" "pool_inv (e_level_opts E) (b_level_pool b')"
    "orders E b' = (orders E ?b1)(r \<mapsto> \<lparr>o_parent = o_parent ord, o_qty = ?q\<rparr>)"
    "levels E b' = (levels E ?b1)(o_parent ord \<mapsto> (if e_has_qty E then lv\<lparr>l_qty := narrow 32 (l_qty lv + (m_qty msg - o_qty ord))\<rparr> else lv))"
    by (rule replace_body [OF get [unfolded s_def oid_def] lp(1) [unfolded front(2) s_def p_def] b1])
  have eq: "\<lparr>o_parent = o_parent ord, o_qty = ?q\<rparr> = ord\<lparr>o_qty := ?q\<rparr>" "?q = narrow 32 (o_qty ord - (o_qty ord - m_qty msg))"
    "l_qty lv + (m_qty msg - o_qty ord) = l_qty lv - (o_qty ord - m_qty msg)" by (cases ord) simp_all
  have ords: "orders E b' = (orders E b)(r \<mapsto> ord\<lparr>o_qty := ?q\<rparr>)" using b'(5) unfolding eq(1) by simp
  have levs: "levels E b' = (levels E b)(o_parent ord \<mapsto>
      (if e_has_qty E then lv\<lparr>l_qty := narrow 32 (l_qty lv - (o_qty ord - m_qty msg))\<rparr> else lv))"
    using b'(6) unfolding eq(3) by (simp add: lsame)
  have "book_inv E b' \<and> resting E b' s = (resting E b s)(oid \<mapsto> (l_price lv, ?q)) \<and>
      resting E b' (side_not s) = resting E b (side_not s) \<and> keeps_others E b b'"
    by (rule qty_result [OF inv r o(1,2), where d = "o_qty ord - m_qty msg", OF _ b'(3,4) eq(2) ords levs]) (simp add: b'(2))
  with that b'(1) pr show ?thesis by simp
qed

lemma order_replace_move_spec:
  fixes b :: "('l, 'pm) lob" and msg :: itch_order
  defines "s \<equiv> to_side (m_side msg)" and "oid \<equiv> m_oid msg" and "p \<equiv> wire_to_book (m_price msg)"
  assumes env: "env_ok E" and inv: "book_inv E b" and there: "resting E b s oid = Some (p0, q0)" "p0 \<noteq> p"
    and room: "\<not> pool_full (e_level_opts E) (b_level_pool b)"
  obtains b' ord lv r where "visit_order_replace E msg b = Some (Inr b')" "oids b' s oid = Some r" "orders E b' r = Some ord"
    "levels E b' (o_parent ord) = Some lv" "l_price lv = p" "r \<notin> set (refs E lv)"
    "\<exists>old lv0. old \<noteq> o_parent ord \<and> (p0, old) \<in> set (nodes E b' s) \<and> levels E b old = Some lv0 \<and>
      levels E b' old = Some lv0 \<and> l_price lv0 = p0 \<and> r \<in> set (refs E lv0)"
proof -
  have "oids b s oid \<noteq> None" using there resting_None [OF inv, of s oid] by auto
  then obtain r where r: "oids b s oid = Some r" by blast
  obtain ord lv where o: "orders E b r = Some ord" "levels E b (o_parent ord) = Some lv"
    "(l_price lv, o_parent ord) \<in> set (nodes E b s)" "resting E b s oid = Some (l_price lv, o_qty ord)" "r \<in> set (refs E lv)"
    using resting_Some [OF inv r] by metis
  have pr: "l_price lv = p0" using o(4) there by simp
  note sok = book_side_ok [OF inv, of s]
  have get: "cst_get (e_oid_traits E) (bs_oid_map (b_side b s)) oid = Some (Some r)"
    using cst.get_law [OF book_oids [OF inv], of s oid] r by simp
  obtain lr b1 lv1 where b1: "find_or_add_level E s p (agg_set E 0 0) (\<lambda>l. l) b = Some (Inr (lr, lr, b1))"
    "pool_inv (e_order_opts E) (b_order_pool b1)" "pool_inv (e_level_opts E) (b_level_pool b1)"
    "orders E b1 r = Some ord" "levels E b1 lr = Some lv1" "l_price lv1 = p" "r \<notin> set (refs E lv1)" "oids b1 s = oids b s"
    "o_parent ord \<noteq> lr" "levels E b1 (o_parent ord) = Some lv" "(p0, o_parent ord) \<in> set (nodes E b1 s)"
  proof (cases "p \<in> fst ` set (nodes E b s)")
    case True
    then obtain lr where lr: "(p, lr) \<in> set (nodes E b s)" by auto
    obtain lv1 where lv1: "levels E b lr = Some lv1" "level_ok E (orders E b) (oids b s) p lr lv1" using side_level [OF sok lr] by blast
    obtain x xs where x: "refs E lv1 = x # xs" using lv1(2) by (cases "refs E lv1") (auto simp: level_ok_def)
    obtain front where front: "orders E b x = Some front" "o_parent front = lr"
      using level_refs_parent [OF sok lr lv1(1), of x] x by auto
    obtain lp where lp: "find_or_add_level E s p (agg_set E 0 0) (\<lambda>l. l) b = Some (Inr (lr, o_parent front, b\<lparr>b_level_pool := lp\<rparr>))"
      "pool_inv (e_level_opts E) lp" "objs (e_level_opts E) lp = (levels E b)(lr \<mapsto> lv1)"
      by (rule find_level_spec [where g = "\<lambda>l. l", OF env book_levels [OF inv] book_orders [OF inv] side_sorted [OF sok] book_pm [OF inv]
          lr lv1(1) x front(1)])
    have "r \<notin> set (refs E lv1)"
    proof
      assume "r \<in> set (refs E lv1)"
      then have "o_parent ord = lr" using lv1(2) o(1) by (auto simp: level_ok_def)
      with lv1 o(2) pr there(2) show False by (auto simp: level_ok_def)
    qed
    moreover have "o_parent ord \<noteq> lr"
    proof
      assume "o_parent ord = lr"
      then show False using lv1 o(2) pr there(2) by (auto simp: level_ok_def)
    qed
    ultimately show ?thesis
      using that [of lr "b\<lparr>b_level_pool := lp\<rparr>" lv1] lp front(2) book_orders [OF inv] o(1-3) lv1(2) pr
      by (auto simp: level_ok_def)
  next
    case False
    obtain lr lp where res: "find_or_add_level E s p (agg_set E 0 0) (\<lambda>l. l) b =
        Some (Inr (lr, lr, (set_side s ((b_side b s)\<lparr>bs_price_map := e_pm_insert_commit E p lr (bs_price_map (b_side b s))\<rparr>) b)
          \<lparr>b_level_pool := lp\<rparr>))"
      "pool_inv (e_level_opts E) lp"
      "objs (e_level_opts E) lp = (levels E b)(lr \<mapsto> agg_set E 0 0 ((default_level E)\<lparr>l_price := p\<rparr>))" "levels E b lr = None"
      "e_pm_nodes E (e_pm_insert_commit E p lr (bs_price_map (b_side b s))) = insert_level s p lr (nodes E b s)"
      using add_level_spec [OF env book_levels [OF inv] side_sorted [OF sok] book_pm [OF inv] False, of "agg_set E 0 0" "\<lambda>l. l"] room
      by metis
    have "refs E (agg_set E 0 0 ((default_level E)\<lparr>l_price := p\<rparr>)) = []"
      using env_list(1) [OF env] by (simp add: refs_def agg_set_def default_level_def)
    moreover have "o_parent ord \<noteq> lr" using o(2) res(4) by auto
    ultimately show ?thesis using that [OF res(1), of "agg_set E 0 0 ((default_level E)\<lparr>l_price := p\<rparr>)"] res(2,3,5) book_orders [OF inv] o(1-3) pr
      by (simp add: agg_set_def set_insert_level)
  qed
  obtain b' where b': "visit_order_replace E msg b = Some (Inr b')" "b_side b' = b_side b1"
    "orders E b' = (orders E b1)(r \<mapsto> \<lparr>o_parent = lr, o_qty = narrow 32 (m_qty msg)\<rparr>)"
    "levels E b' = (levels E b1)(lr \<mapsto> (if e_has_qty E then lv1\<lparr>l_qty := narrow 32 (l_qty lv1 + (m_qty msg - o_qty ord))\<rparr> else lv1))"
    by (rule replace_body [OF get [unfolded s_def oid_def] b1(1) [unfolded s_def p_def] b1(2-5)])
  show ?thesis
  proof (rule that [OF b'(1), of r "\<lparr>o_parent = lr, o_qty = narrow 32 (m_qty msg)\<rparr>"
        "if e_has_qty E then lv1\<lparr>l_qty := narrow 32 (l_qty lv1 + (m_qty msg - o_qty ord))\<rparr> else lv1"])
    show "\<exists>old lv0. old \<noteq> o_parent \<lparr>o_parent = lr, o_qty = narrow 32 (m_qty msg)\<rparr> \<and> (p0, old) \<in> set (nodes E b' s) \<and>
        levels E b old = Some lv0 \<and> levels E b' old = Some lv0 \<and> l_price lv0 = p0 \<and> r \<in> set (refs E lv0)"
      by (intro exI [of _ "o_parent ord"] exI [of _ lv]) (use b' b1 o pr in \<open>simp\<close>)
  qed (use b' b1 r in \<open>simp_all add: refs_def\<close>)
qed

end
