(* ===== verification/Simulation.thy ===== *)
theory Simulation
  imports Vrt_Prelude
begin

text \<open>
  The interface between a component that handles one message at a time and the abstract state
  it keeps: every step either runs out of some resource or follows the specification. The
  lemmas lift it to message sequences.
\<close>

section \<open>Sequences\<close>

primrec run_steps :: "('m \<Rightarrow> 'c \<Rightarrow> 'c result option) \<Rightarrow> 'm list \<Rightarrow> 'c \<Rightarrow> 'c result option" where
  "run_steps step [] c = Some (Inr c)"
| "run_steps step (m # ms) c = bind_ro (step m c) (run_steps step ms)"

primrec all_allowed :: "('m \<Rightarrow> 'a \<Rightarrow> bool) \<Rightarrow> ('m \<Rightarrow> 'a \<Rightarrow> 'a) \<Rightarrow> 'm list \<Rightarrow> 'a \<Rightarrow> bool" where
  "all_allowed ok spec [] a \<longleftrightarrow> True"
| "all_allowed ok spec (m # ms) a \<longleftrightarrow> ok m a \<and> all_allowed ok spec ms (spec m a)"

lemma run_steps_append: "run_steps step (xs @ ys) = (\<lambda>c. bind_ro (run_steps step xs c) (run_steps step ys))"
proof (induction xs)
  case (Cons a xs)
  show ?case by (rule ext) (simp add: Cons.IH bind_ro_assoc)
qed simp

section \<open>The interface\<close>

locale simulation =
  fixes inv :: "'c \<Rightarrow> bool" and abs_st :: "'c \<Rightarrow> 'a"
    and step :: "'m \<Rightarrow> 'c \<Rightarrow> 'c result option" and spec :: "'m \<Rightarrow> 'a \<Rightarrow> 'a"
    and allowed :: "'m \<Rightarrow> 'a \<Rightarrow> bool" and exhausts :: "'m \<Rightarrow> 'c \<Rightarrow> bool"
  assumes step_law: "inv c \<Longrightarrow> allowed m (abs_st c) \<Longrightarrow>
    (exhausts m c \<and> (\<exists>e. step m c = Some (Inl e))) \<or>
    (\<exists>c'. step m c = Some (Inr c') \<and> inv c' \<and> abs_st c' = spec m (abs_st c))"
begin

lemma run_refines:
  assumes "inv c" "all_allowed allowed spec ms (abs_st c)"
  shows "(\<exists>c'. run_steps step ms c = Some (Inr c') \<and> inv c' \<and> abs_st c' = fold spec ms (abs_st c)) \<or>
    (\<exists>done m rest c' e. ms = done @ m # rest \<and> run_steps step done c = Some (Inr c') \<and> inv c' \<and>
      abs_st c' = fold spec done (abs_st c) \<and> exhausts m c' \<and> run_steps step ms c = Some (Inl e))"
  using assms
proof (induction ms arbitrary: c)
  case (Cons m ms)
  then have ok: "allowed m (abs_st c)" by simp
  from step_law [OF Cons.prems(1) ok] show ?case
  proof (elim disjE conjE exE)
    fix e assume "exhausts m c" "step m c = Some (Inl e)"
    then show ?thesis using Cons.prems(1) by (intro disjI2 exI [of _ "[]"] exI [of _ m] exI [of _ ms] exI [of _ c]) simp
  next
    fix c1 assume c1: "step m c = Some (Inr c1)" "inv c1" "abs_st c1 = spec m (abs_st c)"
    then have "all_allowed allowed spec ms (abs_st c1)" using Cons.prems(2) by simp
    from Cons.IH [OF c1(2) this] show ?thesis
    proof (elim disjE conjE exE)
      fix c' assume "run_steps step ms c1 = Some (Inr c')" "inv c'" "abs_st c' = fold spec ms (abs_st c1)"
      then show ?thesis using c1 by simp
    next
      fix done' m' rest c' e
      assume "ms = done' @ m' # rest" "run_steps step done' c1 = Some (Inr c')" "inv c'"
        "abs_st c' = fold spec done' (abs_st c1)" "exhausts m' c'" "run_steps step ms c1 = Some (Inl e)"
      then show ?thesis
        using c1 by (intro disjI2 exI [of _ "m # done'"] exI [of _ m'] exI [of _ rest] exI [of _ c'] exI [of _ e]) simp
    qed
  qed
qed simp

lemma run_total:
  assumes "inv c" "all_allowed allowed spec ms (abs_st c)"
  shows "run_steps step ms c \<noteq> None"
  using run_refines [OF assms] by auto

end

end
