(* ===== verification/Book_Feed.thy ===== *)
theory Book_Feed
  imports Book_Remove Simulation
begin

text \<open>
  The abstract order book a feed describes (the price and quantity of every resting order),
  the listener as a simulation of it, and what the levels and the price queries of a book say
  about it.
\<close>

section \<open>The abstract book\<close>

type_synonym quotes = "side \<Rightarrow> int \<Rightarrow> (int \<times> int) option"

definition spec_add :: "itch_order \<Rightarrow> quotes \<Rightarrow> quotes" where
  "spec_add m Q = (let s = to_side (m_side m) in
     Q(s := (Q s)(m_oid m \<mapsto> (wire_to_book (m_price m), narrow 32 (m_qty m)))))"

definition spec_fill :: "itch_order \<Rightarrow> quotes \<Rightarrow> quotes" where
  "spec_fill m Q = (let s = to_side (m_side m) in
     case Q s (m_oid m) of None \<Rightarrow> Q
     | Some (p, q) \<Rightarrow>
         if q - m_qty m \<le> 0 then Q(s := (Q s)(m_oid m := None))
         else Q(s := (Q s)(m_oid m \<mapsto> (p, narrow 32 (q - m_qty m)))))"

definition spec_replace :: "itch_order \<Rightarrow> quotes \<Rightarrow> quotes" where
  "spec_replace m Q = (let s = to_side (m_side m) in
     if Q s (m_oid m) = None then Q
     else Q(s := (Q s)(m_oid m \<mapsto> (wire_to_book (m_price m), narrow 32 (m_qty m)))))"

definition spec_delete :: "itch_order \<Rightarrow> quotes \<Rightarrow> quotes" where
  "spec_delete m Q = (let s = to_side (m_side m) in Q(s := (Q s)(m_oid m := None)))"

primrec spec_visit :: "itch_msg \<Rightarrow> quotes \<Rightarrow> quotes" where
  "spec_visit (Order_add m) Q = spec_add m Q"
| "spec_visit (Order_add_with_participant m) Q = spec_add m Q"
| "spec_visit (Order_fill m) Q = spec_fill m Q"
| "spec_visit (Order_fill_with_price m) Q = spec_fill m Q"
| "spec_visit (Order_replace m) Q = spec_replace m Q"
| "spec_visit (Order_delete m) Q = spec_delete m Q"

text \<open>
  An id is added once while it rests, and a replacement keeps the price: the listener does not
  handle the other cases.
\<close>

definition id_is_new :: "itch_order \<Rightarrow> quotes \<Rightarrow> bool" where
  "id_is_new m Q \<longleftrightarrow> Q (to_side (m_side m)) (m_oid m) = None"

definition price_is_kept :: "itch_order \<Rightarrow> quotes \<Rightarrow> bool" where
  "price_is_kept m Q \<longleftrightarrow>
     (case Q (to_side (m_side m)) (m_oid m) of None \<Rightarrow> True | Some (p, q) \<Rightarrow> p = wire_to_book (m_price m))"

primrec feed_allows :: "itch_msg \<Rightarrow> quotes \<Rightarrow> bool" where
  "feed_allows (Order_add m) Q \<longleftrightarrow> id_is_new m Q"
| "feed_allows (Order_add_with_participant m) Q \<longleftrightarrow> id_is_new m Q"
| "feed_allows (Order_fill m) Q \<longleftrightarrow> True"
| "feed_allows (Order_fill_with_price m) Q \<longleftrightarrow> True"
| "feed_allows (Order_replace m) Q \<longleftrightarrow> price_is_kept m Q"
| "feed_allows (Order_delete m) Q \<longleftrightarrow> True"

primrec visit_exhausts :: "('l, 'pm) lob_env \<Rightarrow> itch_msg \<Rightarrow> ('l, 'pm) lob \<Rightarrow> bool" where
  "visit_exhausts E (Order_add m) b \<longleftrightarrow> add_exhausts E m b"
| "visit_exhausts E (Order_add_with_participant m) b \<longleftrightarrow> add_exhausts E m b"
| "visit_exhausts E (Order_fill m) b \<longleftrightarrow> False"
| "visit_exhausts E (Order_fill_with_price m) b \<longleftrightarrow> False"
| "visit_exhausts E (Order_replace m) b \<longleftrightarrow> False"
| "visit_exhausts E (Order_delete m) b \<longleftrightarrow> False"

section \<open>The listener simulates it\<close>

lemma quotes_eqI:
  fixes Q Q' :: quotes
  assumes "Q' s = (Q s)(k := v)" "Q' (side_not s) = Q (side_not s)"
  shows "Q' = Q(s := (Q s)(k := v))"
proof
  fix t
  have "t = s \<or> t = side_not s" by (cases t; cases s) simp_all
  then show "Q' t = (Q(s := (Q s)(k := v))) t" using assms by auto
qed

lemma quotes_sameI: "Q' s = Q s \<Longrightarrow> Q' (side_not s) = Q (side_not s) \<Longrightarrow> Q' = (Q :: quotes)"
proof
  fix t
  assume "Q' s = Q s" "Q' (side_not s) = Q (side_not s)"
  moreover have "t = s \<or> t = side_not s" by (cases t; cases s) simp_all
  ultimately show "Q' t = Q t" by auto
qed

lemma add_sim:
  assumes "env_ok E" "book_inv E b" "id_is_new m (resting E b)"
  shows "(add_exhausts E m b \<and> (\<exists>e. visit_order_add E m b = Some (Inl e))) \<or>
    (\<exists>b'. visit_order_add E m b = Some (Inr b') \<and> book_inv E b' \<and> resting E b' = spec_add m (resting E b) \<and>
      keeps_others E b b')"
proof -
  have "oids b (to_side (m_side m)) (m_oid m) = None"
    using assms(3) resting_None [OF assms(2)] by (simp add: id_is_new_def)
  from order_add_spec [OF assms(1,2) this] show ?thesis
  proof (elim disjE exE conjE)
    fix b' assume b': "visit_order_add E m b = Some (Inr b')" "book_inv E b'"
      "resting E b' (to_side (m_side m)) = (resting E b (to_side (m_side m)))(m_oid m \<mapsto> (wire_to_book (m_price m), narrow 32 (m_qty m)))"
      "resting E b' (side_not (to_side (m_side m))) = resting E b (side_not (to_side (m_side m)))" "keeps_others E b b'"
    from quotes_eqI [OF b'(3,4)] b'(1,2,5) show ?thesis by (simp add: spec_add_def Let_def)
  qed blast
qed

lemma fill_sim:
  assumes "env_ok E" "book_inv E b"
  shows "\<exists>b'. visit_order_fill E m b = Some (Inr b') \<and> book_inv E b' \<and> resting E b' = spec_fill m (resting E b) \<and>
    keeps_others E b b'"
proof -
  let ?s = "to_side (m_side m)" and ?Q = "resting E b"
  obtain b' where b': "visit_order_fill E m b = Some (Inr b')" "book_inv E b'"
    "resting E b' ?s = (case ?Q ?s (m_oid m) of None \<Rightarrow> ?Q ?s
       | Some (p, q) \<Rightarrow> if q - m_qty m \<le> 0 then (?Q ?s)(m_oid m := None) else (?Q ?s)(m_oid m \<mapsto> (p, narrow 32 (q - m_qty m))))"
    "resting E b' (side_not ?s) = ?Q (side_not ?s)" "keeps_others E b b'"
    by (rule order_fill_spec [OF assms, of m])
  have "resting E b' = spec_fill m ?Q"
  proof (cases "?Q ?s (m_oid m)")
    case None
    with b'(3,4) show ?thesis by (auto simp: spec_fill_def intro!: quotes_sameI)
  next
    case (Some pq)
    obtain p q where pq: "pq = (p, q)" by (cases pq)
    show ?thesis
    proof (cases "q - m_qty m \<le> 0")
      case True
      then have "resting E b' ?s = (?Q ?s)(m_oid m := None)" using b'(3) Some pq by simp
      from quotes_eqI [OF this b'(4)] Some pq True show ?thesis by (simp add: spec_fill_def Let_def)
    next
      case False
      then have "resting E b' ?s = (?Q ?s)(m_oid m \<mapsto> (p, narrow 32 (q - m_qty m)))" using b'(3) Some pq by simp
      from quotes_eqI [OF this b'(4)] Some pq False show ?thesis by (simp add: spec_fill_def Let_def)
    qed
  qed
  with b' show ?thesis by blast
qed

lemma delete_sim:
  assumes "env_ok E" "book_inv E b"
  shows "\<exists>b'. visit_order_delete E m b = Some (Inr b') \<and> book_inv E b' \<and> resting E b' = spec_delete m (resting E b) \<and>
    keeps_others E b b'"
proof -
  let ?s = "to_side (m_side m)"
  obtain b' where b': "visit_order_delete E m b = Some (Inr b')" "book_inv E b'"
    "resting E b' ?s = (resting E b ?s)(m_oid m := None)" "resting E b' (side_not ?s) = resting E b (side_not ?s)"
    "keeps_others E b b'"
    by (rule order_delete_spec [OF assms, of m])
  from quotes_eqI [OF b'(3,4)] have "resting E b' = spec_delete m (resting E b)" by (simp add: spec_delete_def Let_def)
  with b' show ?thesis by blast
qed

lemma replace_sim:
  assumes "env_ok E" "book_inv E b" "price_is_kept m (resting E b)"
  shows "\<exists>b'. visit_order_replace E m b = Some (Inr b') \<and> book_inv E b' \<and> resting E b' = spec_replace m (resting E b) \<and>
    keeps_others E b b'"
proof (cases "resting E b (to_side (m_side m)) (m_oid m)")
  case None
  then have "oids b (to_side (m_side m)) (m_oid m) = None" using resting_None [OF assms(2)] by blast
  then have "visit_order_replace E m b = Some (Inr b)"
    using cst.get_law [OF book_oids [OF assms(2)]] by (simp add: visit_order_replace_def Let_def)
  with None assms(2) show ?thesis by (simp add: spec_replace_def keeps_others_refl)
next
  case (Some pq)
  let ?s = "to_side (m_side m)"
  obtain q where q: "resting E b ?s (m_oid m) = Some (wire_to_book (m_price m), q)"
    using Some assms(3) by (cases pq) (simp add: price_is_kept_def)
  obtain b' where b': "visit_order_replace E m b = Some (Inr b')" "book_inv E b'"
    "resting E b' ?s = (resting E b ?s)(m_oid m \<mapsto> (wire_to_book (m_price m), narrow 32 (m_qty m)))"
    "resting E b' (side_not ?s) = resting E b (side_not ?s)"
    "keeps_others E b b'"
    by (rule order_replace_same_spec [OF assms(1,2) q])
  from quotes_eqI [OF b'(3,4)] q have "resting E b' = spec_replace m (resting E b)" by (simp add: spec_replace_def Let_def)
  with b' show ?thesis by blast
qed

text \<open>One visit: it runs out of storage or does what the specification says, to this book alone.\<close>

lemma visit_sim:
  assumes "env_ok E" "book_inv E b" "feed_allows m (resting E b)"
  shows "(visit_exhausts E m b \<and> (\<exists>e. visit E m b = Some (Inl e))) \<or>
    (\<exists>b'. visit E m b = Some (Inr b') \<and> book_inv E b' \<and> resting E b' = spec_visit m (resting E b) \<and> keeps_others E b b')"
proof (cases m)
  case (Order_add x1)
  then show ?thesis using add_sim [of E b x1] assms by auto
next
  case (Order_add_with_participant x2)
  then show ?thesis using add_sim [of E b x2] assms by (auto simp: visit_order_add_with_participant_def)
next
  case (Order_fill x3)
  then show ?thesis using fill_sim [of E b x3] assms by auto
next
  case (Order_fill_with_price x4)
  then show ?thesis using fill_sim [of E b x4] assms by (auto simp: visit_order_fill_with_price_def)
next
  case (Order_replace x5)
  then show ?thesis using replace_sim [of E b x5] assms by auto
next
  case (Order_delete x6)
  then show ?thesis using delete_sim [of E b x6] assms by auto
qed

interpretation feed: simulation "\<lambda>b. env_ok E \<and> book_inv E b" "resting E" "visit E" spec_visit feed_allows "visit_exhausts E"
  for E :: "('l, 'pm) lob_env"
  by unfold_locales (use visit_sim in blast)

end
