(* ===== verification/Book_Query.thy ===== *)
theory Book_Query
  imports Book_Feed
begin

text \<open>
  What the read operations of a book say about its resting orders: the levels of a side with
  their aggregates, and the price queries.
\<close>

section \<open>Levels\<close>

text \<open>The ids resting at a price, and their total quantity.\<close>

definition at_price :: "quotes \<Rightarrow> side \<Rightarrow> int \<Rightarrow> int set" where
  "at_price Q s p = {oid. \<exists>q. Q s oid = Some (p, q)}"

definition qty_at :: "quotes \<Rightarrow> side \<Rightarrow> int \<Rightarrow> int" where
  "qty_at Q s p = (\<Sum>oid\<in>at_price Q s p. snd (the (Q s oid)))"

lemma at_price_refs:
  assumes inv: "book_inv E b" and lr: "(p, lr) \<in> set (nodes E b s)" "levels E b lr = Some lv"
  shows "bij_betw (\<lambda>oid. the (oids b s oid)) (at_price (resting E b) s p) (set (refs E lv))"
    and "oid \<in> at_price (resting E b) s p \<Longrightarrow>
      snd (the (resting E b s oid)) = o_qty (the (orders E b (the (oids b s oid))))"
proof -
  note sok = book_side_ok [OF inv, of s]
  have price: "l_price lv = p" using side_level [OF sok lr(1)] lr(2) by (auto simp: level_ok_def)
  have here: "\<exists>r ord. oids b s oid = Some r \<and> orders E b r = Some ord \<and> r \<in> set (refs E lv) \<and> resting E b s oid = Some (p, o_qty ord)"
    if oid: "oid \<in> at_price (resting E b) s p" for oid
  proof -
    from oid obtain q where q: "resting E b s oid = Some (p, q)" by (auto simp: at_price_def)
    then obtain r where r: "oids b s oid = Some r" using resting_None [OF inv, of s oid] by fastforce
    obtain ord lv' where o: "orders E b r = Some ord" "levels E b (o_parent ord) = Some lv'"
      "(l_price lv', o_parent ord) \<in> set (nodes E b s)" "r \<in> set (refs E lv')" "resting E b s oid = Some (l_price lv', o_qty ord)"
      using resting_Some [OF inv r] by metis
    have "o_parent ord = lr" using sorted_side_unique [OF side_sorted [OF sok]] o(3,5) q lr(1) by auto
    with o lr(2) r q show ?thesis by auto
  qed
  show "oid \<in> at_price (resting E b) s p \<Longrightarrow> snd (the (resting E b s oid)) = o_qty (the (orders E b (the (oids b s oid))))"
    using here by fastforce
  show "bij_betw (\<lambda>oid. the (oids b s oid)) (at_price (resting E b) s p) (set (refs E lv))"
  proof (rule bij_betw_imageI)
    show "inj_on (\<lambda>oid. the (oids b s oid)) (at_price (resting E b) s p)"
    proof (rule inj_onI)
      fix x y assume "x \<in> at_price (resting E b) s p" "y \<in> at_price (resting E b) s p" "the (oids b s x) = the (oids b s y)"
      with here [of x] here [of y] show "x = y" using side_inj [OF sok] by fastforce
    qed
    show "(\<lambda>oid. the (oids b s oid)) ` at_price (resting E b) s p = set (refs E lv)"
    proof
      show "(\<lambda>oid. the (oids b s oid)) ` at_price (resting E b) s p \<subseteq> set (refs E lv)" using here by fastforce
      show "set (refs E lv) \<subseteq> (\<lambda>oid. the (oids b s oid)) ` at_price (resting E b) s p"
      proof
        fix r assume r: "r \<in> set (refs E lv)"
        obtain oid ord where o: "oids b s oid = Some r" "orders E b r = Some ord" "o_parent ord = lr"
          by (rule level_refs_parent [OF sok lr r])
        then have "oid \<in> at_price (resting E b) s p" using lr(2) price by (simp add: at_price_def resting_def)
        with o(1) show "r \<in> (\<lambda>oid. the (oids b s oid)) ` at_price (resting E b) s p" by force
      qed
    qed
  qed
qed

lemma level_totals:
  assumes inv: "book_inv E b" and lr: "(p, lr) \<in> set (nodes E b s)" "levels E b lr = Some lv"
  shows "card (at_price (resting E b) s p) = length (refs E lv)"
    and "qty_at (resting E b) s p = qty_sum (orders E b) (refs E lv)"
proof -
  note bij = at_price_refs(1) [OF inv lr] and dist = side_level [OF book_side_ok [OF inv] lr(1)]
  have d: "distinct (refs E lv)" using dist lr(2) by (auto simp: level_ok_def)
  show "card (at_price (resting E b) s p) = length (refs E lv)"
    using bij_betw_same_card [OF bij] distinct_card [OF d] by simp
  have "qty_at (resting E b) s p = (\<Sum>oid\<in>at_price (resting E b) s p. o_qty (the (orders E b (the (oids b s oid)))))"
    unfolding qty_at_def by (rule sum.cong) (use at_price_refs(2) [OF inv lr] in auto)
  also have "\<dots> = (\<Sum>r\<in>set (refs E lv). o_qty (the (orders E b r)))"
    by (rule sum.reindex_bij_betw [OF bij])
  also have "\<dots> = qty_sum (orders E b) (refs E lv)"
    unfolding qty_sum_def by (rule sum_list_distinct_conv_sum_set [OF d, symmetric])
  finally show "qty_at (resting E b) s p = qty_sum (orders E b) (refs E lv)" .
qed

lemma prices_of_nodes:
  assumes inv: "book_inv E b"
  shows "p \<in> fst ` set (nodes E b s) \<longleftrightarrow> at_price (resting E b) s p \<noteq> {}"
proof
  assume "p \<in> fst ` set (nodes E b s)"
  then obtain lr where lr: "(p, lr) \<in> set (nodes E b s)" by auto
  then obtain lv where lv: "levels E b lr = Some lv" "level_ok E (orders E b) (oids b s) p lr lv"
    using side_level [OF book_side_ok [OF inv]] by blast
  have "refs E lv \<noteq> []" using lv(2) by (simp add: level_ok_def)
  with level_totals(1) [OF inv lr lv(1)] show "at_price (resting E b) s p \<noteq> {}" by auto
next
  assume "at_price (resting E b) s p \<noteq> {}"
  then obtain oid q where q: "resting E b s oid = Some (p, q)" by (auto simp: at_price_def)
  then obtain r where r: "oids b s oid = Some r" using resting_None [OF inv, of s oid] by fastforce
  from resting_Some [OF inv r] q show "p \<in> fst ` set (nodes E b s)" by (metis fst_conv image_eqI option.inject prod.inject)
qed

lemma evaluate_qty_fold:
  assumes "pool_inv (e_order_opts E) (b_order_pool b)" "\<forall>r\<in>set rs. orders E b r \<noteq> None"
  shows "fold (\<lambda>ref acc. bind_ro acc (\<lambda>r. bind_ro (pool_get (e_order_opts E) False ref (b_order_pool b))
       (\<lambda>ord. Some (Inr (narrow 32 (r + o_qty ord)))))) rs (Some (Inr (narrow 32 a)))
    = Some (Inr (narrow 32 (a + qty_sum (orders E b) rs)))"
  using assms(2)
proof (induction rs arbitrary: a)
  case (Cons r rs)
  then obtain ord where o: "orders E b r = Some ord" by auto
  with pool_get_spec [OF assms(1) o, of False] Cons show ?case
    by (simp add: qty_sum_Cons narrow_add add.assoc)
qed (simp add: qty_sum_def)

lemma evaluate_qty_level:
  assumes inv: "book_inv E b" and lr: "(p, lr) \<in> set (nodes E b s)" "levels E b lr = Some lv"
  shows "evaluate_qty E b lv = Some (Inr (narrow 32 (qty_at (resting E b) s p)))"
proof -
  have lv: "level_ok E (orders E b) (oids b s) p lr lv" using side_level [OF book_side_ok [OF inv] lr(1)] lr(2) by auto
  have "\<forall>r\<in>set (refs E lv). orders E b r \<noteq> None" using lv by (auto simp: level_ok_def)
  from evaluate_qty_fold [OF book_orders [OF inv] this, of 0] lv level_totals(2) [OF inv lr]
  show ?thesis by (simp add: evaluate_qty_def refs_def level_ok_def narrow_id)
qed

section \<open>Price queries\<close>

text \<open>The first and the last level of a set, in the side's order; \<open>None\<close> where it is empty.\<close>

definition first_of :: "side \<Rightarrow> (int \<times> nat) set \<Rightarrow> (int \<times> nat) option \<Rightarrow> bool" where
  "first_of s S r \<longleftrightarrow> (case r of None \<Rightarrow> S = {} | Some x \<Rightarrow> x \<in> S \<and> (\<forall>y\<in>S. y = x \<or> before s (fst x) (fst y)))"

definition last_of :: "side \<Rightarrow> (int \<times> nat) set \<Rightarrow> (int \<times> nat) option \<Rightarrow> bool" where
  "last_of s S r \<longleftrightarrow> (case r of None \<Rightarrow> S = {} | Some x \<Rightarrow> x \<in> S \<and> (\<forall>y\<in>S. y = x \<or> before s (fst y) (fst x)))"

lemma takeWhile_split:
  "xs = takeWhile P xs @ dropWhile P xs" "length (takeWhile P xs) = length xs \<longleftrightarrow> dropWhile P xs = []"
  by (simp, metis append_Nil2 append_self_conv length_append length_0_conv add_cancel_right_right takeWhile_dropWhile_id)

lemma nth_takeWhile_length: "dropWhile P xs = y # ys \<Longrightarrow> xs ! length (takeWhile P xs) = y"
  by (metis nth_append_length takeWhile_dropWhile_id)

lemma sorted_side_app:
  "sorted_side s (xs @ ys) \<longleftrightarrow> sorted_side s xs \<and> sorted_side s ys \<and> (\<forall>x\<in>set xs. \<forall>y\<in>set ys. before s (fst x) (fst y))"
  by (simp add: sorted_side_def sorted_wrt_append)

text \<open>A predicate that holds on a prefix of a side splits it where \<open>takeWhile\<close> does.\<close>

lemma sorted_split:
  assumes s: "sorted_side s xs" and P: "\<And>x y. P y \<Longrightarrow> before s (fst x) (fst y) \<Longrightarrow> P x"
  shows "set (takeWhile P xs) = {x\<in>set xs. P x}" "set (dropWhile P xs) = {x\<in>set xs. \<not> P x}"
proof -
  have "takeWhile P xs = filter P xs \<and> dropWhile P xs = filter (\<lambda>x. \<not> P x) xs"
    using s
  proof (induction xs)
    case (Cons x xs)
    then have b: "\<And>y. y \<in> set xs \<Longrightarrow> before s (fst x) (fst y)" and sx: "sorted_side s xs" by (auto simp: sorted_side_def)
    show ?case
    proof (cases "P x")
      case False
      then have "\<forall>y\<in>set xs. \<not> P y" using P b by blast
      with False show ?thesis by (auto simp: filter_empty_conv filter_id_conv)
    qed (use Cons.IH [OF sx] in simp)
  qed simp
  then show "set (takeWhile P xs) = {x\<in>set xs. P x}" "set (dropWhile P xs) = {x\<in>set xs. \<not> P x}" by auto
qed

lemma first_at_split:
  assumes s: "sorted_side s xs" and P: "\<And>x y. P y \<Longrightarrow> before s (fst x) (fst y) \<Longrightarrow> P x" and nd: "xs = e_pm_nodes E pm"
  shows "first_of s {x\<in>set xs. \<not> P x} (level_at E pm (length (takeWhile P xs)))"
proof (cases "dropWhile P xs")
  case Nil
  with sorted_split(2) [OF s, of P] P takeWhile_split(2) [of P xs] show ?thesis
    by (auto simp: first_of_def level_at_def nd [symmetric])
next
  case (Cons y ys)
  have "sorted_side s (y # ys)" using s takeWhile_split(1) [of xs P] Cons sorted_side_app by metis
  then have "\<forall>z\<in>set ys. before s (fst y) (fst z)" by (simp add: sorted_side_def)
  moreover have "{x\<in>set xs. \<not> P x} = insert y (set ys)" using sorted_split(2) [OF s, of P] P Cons by auto
  moreover have "level_at E pm (length (takeWhile P xs)) = Some y"
    using takeWhile_split(2) [of P xs] nth_takeWhile_length [OF Cons] Cons by (simp add: level_at_def nd [symmetric])
  ultimately show ?thesis by (simp add: first_of_def)
qed

lemma last_at_split:
  assumes s: "sorted_side s xs" and P: "\<And>x y. P y \<Longrightarrow> before s (fst x) (fst y) \<Longrightarrow> P x" and nd: "xs = e_pm_nodes E pm"
    and some: "takeWhile P xs \<noteq> []"
  shows "last_of s {x\<in>set xs. P x} (level_at E pm (length (takeWhile P xs) - 1))"
proof -
  obtain ys y where y: "takeWhile P xs = ys @ [y]" using some by (cases "takeWhile P xs" rule: rev_cases) auto
  have x: "xs = ys @ y # dropWhile P xs" using takeWhile_split(1) [of xs P] y by simp
  then have "xs ! length ys = y" "length ys < length xs" by (metis nth_append_length, metis add_Suc_right length_Cons length_append less_add_Suc1)
  moreover have "sorted_side s (ys @ [y])" using s y takeWhile_split(1) [of xs P] sorted_side_app by metis
  moreover have "{x\<in>set xs. P x} = insert y (set ys)" using sorted_split(1) [OF s, of P] P y by auto
  ultimately show ?thesis using y by (auto simp: last_of_def level_at_def nd [symmetric] sorted_side_app)
qed

end
