(* ===== verification/Book_Props.thy ===== *)
theory Book_Props
  imports Book_Query
begin

text \<open>
  The properties of the limit order book and its market data listener, and a small concrete
  book over list-based containers.
\<close>

section \<open>Concrete containers\<close>

definition demo_env :: "(nat list, side \<times> (int \<times> nat) list) lob_env" where
  "demo_env = \<lparr>e_has_qty = True, e_has_order_count = True,
     e_oid_traits = \<lparr>t_hash = of_int, t_fixed = False, t_link_bits = 16\<rparr>,
     e_order_opts = demo_pool_opts, e_level_opts = demo_pool_opts,
     e_list_new = [], e_list_refs = (\<lambda>l. l), e_list_push_front = (#), e_list_erase = remove1, e_list_front = hd,
     e_list_empty = (\<lambda>l. l = []), e_list_splice_front = (\<lambda>r to from. (r # to, remove1 r from)),
     e_pm_new = (\<lambda>s. (s, [])), e_pm_nodes = snd, e_pm_side = fst,
     e_pm_insert_check = (\<lambda>p pm. map_of (snd pm) p),
     e_pm_insert_commit = (\<lambda>p r pm. (fst pm, insert_level (fst pm) p r (snd pm))),
     e_pm_erase = (\<lambda>r pm. (fst pm, filter (\<lambda>x. snd x \<noteq> r) (snd pm))),
     e_pm_find = (\<lambda>p pm. length (takeWhile (\<lambda>x. fst x \<noteq> p) (snd pm))),
     e_pm_lower_bound = (\<lambda>p pm. length (takeWhile (\<lambda>x. before (fst pm) (fst x) p) (snd pm))),
     e_pm_upper_bound = (\<lambda>p pm. length (takeWhile (\<lambda>x. \<not> before (fst pm) p (fst x)) (snd pm)))\<rparr>"

lemma demo_env_ok: "env_ok demo_env"
  by (simp add: env_ok_def list_ok_def pm_ok_def demo_env_def insert_level_def)

lemma demo_oid_capacity: "max_capacity (e_oid_traits demo_env) = 16384"
  using lzcnt_eq [of 14 32766 64] by (simp add: max_capacity_def demo_env_def)

section \<open>Construction\<close>

lemma book_side_new_ok:
  assumes "512 \<le> max_capacity (e_oid_traits E)"
  obtains t where "book_side_new E s = Inr \<lparr>bs_oid_map = t, bs_price_map = e_pm_new E s\<rparr>"
    "cst_inv (e_oid_traits E) t" "cst_map t = Map.empty" "m_size t = 0"
proof -
  obtain t :: "(int, nat) cst" where "cst_new (e_oid_traits E) 512 = Inr t" "cst_inv (e_oid_traits E) t" "cst_map t = Map.empty" "m_size t = 0"
    by (rule cst_new_spec [of 512 "e_oid_traits E"]) (use assms in auto)
  with that show ?thesis by (simp add: book_side_new_def initial_oid_map_capacity_def)
qed

lemma lob_new_ok:
  assumes "env_ok E" "512 \<le> max_capacity (e_oid_traits E)" "pool_inv (e_order_opts E) op" "pool_inv (e_level_opts E) lp"
  obtains b where "lob_new E op lp = Inr b" "book_inv E b" "resting E b = (\<lambda>s. Map.empty)" "b_order_pool b = op" "b_level_pool b = lp"
    "\<And>s. oids b s = Map.empty" "\<And>s. nodes E b s = []" "\<And>s. cst_inv (e_oid_traits E) (bs_oid_map (b_side b s))"
    "\<And>s. m_size (bs_oid_map (b_side b s)) = 0" "\<And>s. e_pm_side E (bs_price_map (b_side b s)) = s"
proof -
  obtain t where t: "book_side_new E BID = Inr \<lparr>bs_oid_map = t, bs_price_map = e_pm_new E BID\<rparr>"
    "cst_inv (e_oid_traits E) t" "cst_map t = Map.empty" "m_size t = 0" by (rule book_side_new_ok [OF assms(2)])
  obtain u where u: "book_side_new E ASK = Inr \<lparr>bs_oid_map = u, bs_price_map = e_pm_new E ASK\<rparr>"
    "cst_inv (e_oid_traits E) u" "cst_map u = Map.empty" "m_size u = 0" by (rule book_side_new_ok [OF assms(2)])
  define b where "b = \<lparr>b_order_pool = op, b_level_pool = lp, b_side = (\<lambda>s. if s = BID
      then \<lparr>bs_oid_map = t, bs_price_map = e_pm_new E BID\<rparr> else \<lparr>bs_oid_map = u, bs_price_map = e_pm_new E ASK\<rparr>)\<rparr>"
  have new: "lob_new E op lp = Inr b" by (simp add: lob_new_def t(1) u(1) b_def)
  have m: "oids b s = Map.empty" "nodes E b s = []" "cst_inv (e_oid_traits E) (bs_oid_map (b_side b s))"
    "m_size (bs_oid_map (b_side b s)) = 0" "e_pm_side E (bs_price_map (b_side b s)) = s" for s
    using t u env_pm_side(3,4) [OF assms(1)] by (cases s; simp add: b_def)+
  have p: "b_order_pool b = op" "b_level_pool b = lp" by (simp_all add: b_def)
  have "book_inv E b" unfolding book_inv_def using m p assms(3,4) by (simp add: side_ok_empty)
  moreover have "resting E b = (\<lambda>s. Map.empty)" by (intro ext) (simp add: resting_def m)
  ultimately show ?thesis using that new m p by blast
qed

text \<open>An empty concrete book, and one with a single order for 10 at price 1000.\<close>

definition demo_book :: "(nat list, side \<times> (int \<times> nat) list) lob" where
  "demo_book = (case lob_new demo_env demo_pool demo_pool of Inr b \<Rightarrow> b)"

lemma demo_book:
  shows demo_book_new: "lob_new demo_env demo_pool demo_pool = Inr demo_book"
    and demo_book_inv: "book_inv demo_env demo_book"
    and demo_book_resting: "resting demo_env demo_book = (\<lambda>s. Map.empty)"
    and demo_book_pools: "b_order_pool demo_book = demo_pool" "b_level_pool demo_book = demo_pool"
    and demo_book_sides: "oids demo_book s = Map.empty" "nodes demo_env demo_book s = []"
      "m_size (bs_oid_map (b_side demo_book s)) = 0"
proof -
  have q: "e_order_opts demo_env = demo_pool_opts" "e_level_opts demo_env = demo_pool_opts" by (simp_all add: demo_env_def)
  have p: "512 \<le> max_capacity (e_oid_traits demo_env)" "pool_inv (e_order_opts demo_env) demo_pool"
    "pool_inv (e_level_opts demo_env) demo_pool" using demo_oid_capacity demo_pool_inv q by simp_all
  obtain b where "lob_new demo_env demo_pool demo_pool = Inr b" "book_inv demo_env b"
    "resting demo_env b = (\<lambda>s. Map.empty)" "b_order_pool b = demo_pool" "b_level_pool b = demo_pool"
    "\<And>s. oids b s = Map.empty" "\<And>s. nodes demo_env b s = []" "\<And>s. m_size (bs_oid_map (b_side b s)) = 0"
    by (rule lob_new_ok [OF demo_env_ok p]) (rule that; assumption)
  then show "lob_new demo_env demo_pool demo_pool = Inr demo_book" "book_inv demo_env demo_book"
    "resting demo_env demo_book = (\<lambda>s. Map.empty)" "b_order_pool demo_book = demo_pool" "b_level_pool demo_book = demo_pool"
    "oids demo_book s = Map.empty" "nodes demo_env demo_book s = []" "m_size (bs_oid_map (b_side demo_book s)) = 0"
    by (simp_all add: demo_book_def)
qed

lemma demo_one_order:
  obtains b where "book_inv demo_env b" "resting demo_env b = (\<lambda>s. if s = BID then [7 \<mapsto> (1000, 10)] else Map.empty)"
    "nodes demo_env b BID = [(1000, 0)]" "nodes demo_env b ASK = []" "\<not> pool_full (e_level_opts demo_env) (b_level_pool b)"
    "levels demo_env b 0 = Some \<lparr>l_price = 1000, l_qty = 10, l_order_count = 1, l_orders = [0]\<rparr>"
proof -
  let ?ord = "\<lparr>o_parent = 0, o_qty = 10\<rparr>" and ?lv = "\<lparr>l_price = 1000, l_qty = 10, l_order_count = 1, l_orders = [0::nat]\<rparr>"
  obtain op where op: "pool_inv demo_pool_opts op" "objs demo_pool_opts op = [0 \<mapsto> ?ord]"
    using demo_pool_alloc [of ?ord] by blast
  obtain lp where lp: "pool_inv demo_pool_opts lp" "objs demo_pool_opts lp = [0 \<mapsto> ?lv]" "\<not> pool_full demo_pool_opts lp"
    using demo_pool_alloc [of ?lv] by blast
  have q: "e_order_opts demo_env = demo_pool_opts" "e_level_opts demo_env = demo_pool_opts" by (simp_all add: demo_env_def)
  have "\<not> put_fails (e_oid_traits demo_env) (bs_oid_map (b_side demo_book BID)) 7"
    using demo_book_sides(3) [of BID] by (simp add: put_fails_def capacity_def)
  then obtain t where t: "cst_inv (e_oid_traits demo_env) t" "cst_map t = (oids demo_book BID)(7 \<mapsto> 0)"
    using cst.put_law [OF book_oids [OF demo_book_inv], of BID 7 0] by blast
  define b where "b = \<lparr>b_order_pool = op, b_level_pool = lp, b_side = (\<lambda>s. if s = BID
      then \<lparr>bs_oid_map = t, bs_price_map = (BID, [(1000, 0)])\<rparr> else b_side demo_book s)\<rparr>"
  have b: "oids b BID = [7 \<mapsto> 0]" "oids b ASK = Map.empty" "nodes demo_env b BID = [(1000, 0)]" "nodes demo_env b ASK = []"
    "b_order_pool b = op" "b_level_pool b = lp" "orders demo_env b = [0 \<mapsto> ?ord]" "levels demo_env b = [0 \<mapsto> ?lv]"
    using t(2) op lp by (simp_all add: b_def demo_book_sides q) (simp_all add: demo_env_def)
  have bid: "side_ok demo_env BID (Map.empty(0 \<mapsto> ?ord)) (Map.empty(0 \<mapsto> ?lv)) (Map.empty(7 \<mapsto> 0)) (insert_level BID 1000 0 [])"
    by (rule side_ok_add_new [OF side_ok_empty]) (simp_all add: refs_def demo_env_def narrow_id)
  have sides: "s = BID \<or> s = ASK" for s by (cases s) simp_all
  have ok: "side_ok demo_env s (orders demo_env b) (levels demo_env b) (oids b s) (nodes demo_env b s)" for s
    using sides [of s] bid by (auto simp: b(1-4,7,8) side_ok_empty insert_level_def)
  have cst: "cst_inv (e_oid_traits demo_env) (bs_oid_map (b_side b s))" for s
    using t(1) book_oids [OF demo_book_inv, of s] by (simp add: b_def)
  have pm: "e_pm_side demo_env (bs_price_map (b_side b s)) = s" for s
    using book_pm [OF demo_book_inv, of s] by (simp add: b_def) (simp add: demo_env_def)
  have disj: "ran (oids b s) \<inter> ran (oids b (side_not s)) = {} \<and>
      snd ` set (nodes demo_env b s) \<inter> snd ` set (nodes demo_env b (side_not s)) = {}" for s
    by (cases s) (simp_all add: b)
  have inv: "book_inv demo_env b" unfolding book_inv_def using ok cst pm disj by (simp add: b(5,6) q op(1) lp(1))
  have "resting demo_env b s oid = (if s = BID then [7 \<mapsto> (1000, 10)] else Map.empty) oid" for s oid
    by (cases s) (simp_all add: resting_def b(1,2,7,8))
  then have "resting demo_env b = (\<lambda>s. if s = BID then [7 \<mapsto> (1000, 10)] else Map.empty)" by blast
  with that inv b lp(3) q show ?thesis by simp
qed

section \<open>Properties\<close>

text \<open>
  C4: processing any sequence of feed messages in which ids are added once while resting and
  replacements keep their price, the listener maintains the book's invariant (id table, level
  lists, price map and aggregates agree) and the book holds exactly the resting orders that
  the messages describe; it stops early only when a pool or the id table is exhausted by an
  add, with everything before that add processed exactly.
\<close>

theorem lob_feed_refines:
  assumes "env_ok E" "book_inv E b" "all_allowed feed_allows spec_visit ms (resting E b)"
  shows "(\<exists>b'. run_steps (visit E) ms b = Some (Inr b') \<and> book_inv E b' \<and> resting E b' = fold spec_visit ms (resting E b)) \<or>
    (\<exists>before_add m rest b' e. ms = before_add @ m # rest \<and> run_steps (visit E) before_add b = Some (Inr b') \<and> book_inv E b' \<and>
      resting E b' = fold spec_visit before_add (resting E b) \<and> visit_exhausts E m b' \<and> run_steps (visit E) ms b = Some (Inl e))"
  using feed.run_refines [of E b ms] assms by auto

lemma lob_feed_refines_witness:
  "(\<exists>b'. run_steps (visit demo_env) [Order_add \<lparr>m_oid = 7, m_side = Buy, m_qty = 10, m_price = 5\<rparr>,
       Order_fill \<lparr>m_oid = 7, m_side = Buy, m_qty = 4, m_price = 0\<rparr>,
       Order_replace \<lparr>m_oid = 7, m_side = Buy, m_qty = 20, m_price = 5\<rparr>] demo_book = Some (Inr b') \<and>
     resting demo_env b' BID 7 = Some (5000, 20)) \<or>
   (\<exists>e. run_steps (visit demo_env) [Order_add \<lparr>m_oid = 7, m_side = Buy, m_qty = 10, m_price = 5\<rparr>,
       Order_fill \<lparr>m_oid = 7, m_side = Buy, m_qty = 4, m_price = 0\<rparr>,
       Order_replace \<lparr>m_oid = 7, m_side = Buy, m_qty = 20, m_price = 5\<rparr>] demo_book = Some (Inl e))"
proof -
  let ?ms = "[Order_add \<lparr>m_oid = 7, m_side = Buy, m_qty = 10, m_price = 5\<rparr>,
       Order_fill \<lparr>m_oid = 7, m_side = Buy, m_qty = 4, m_price = 0\<rparr>,
       Order_replace \<lparr>m_oid = 7, m_side = Buy, m_qty = 20, m_price = 5\<rparr>]"
  have p: "wire_to_book 5 = 5000" by (simp add: wire_to_book_simps int32_def)
  have "all_allowed feed_allows spec_visit ?ms (resting demo_env demo_book)"
    by (simp add: demo_book_resting id_is_new_def price_is_kept_def spec_add_def spec_fill_def to_side_def p narrow_id)
  moreover have "fold spec_visit ?ms (resting demo_env demo_book) BID 7 = Some (5000, 20)"
    by (simp add: demo_book_resting spec_add_def spec_fill_def spec_replace_def to_side_def p narrow_id)
  ultimately show ?thesis using lob_feed_refines [OF demo_env_ok demo_book_inv, of ?ms] by metis
qed

text \<open>
  An order added under a new id either finds a pool or the id table exhausted and fails, or
  rests with the message's price and quantity (stored in 32 bits), every other order on either
  side keeping its price and quantity.
\<close>

theorem lob_order_add_exact:
  assumes "env_ok E" "book_inv E b" "id_is_new m (resting E b)"
  shows "(add_exhausts E m b \<and> (\<exists>e. visit_order_add E m b = Some (Inl e))) \<or>
    (\<exists>b'. visit_order_add E m b = Some (Inr b') \<and> book_inv E b' \<and> resting E b' = spec_add m (resting E b))"
  using add_sim [OF assms] by blast

lemma lob_order_add_exact_witness:
  "(\<exists>e. visit_order_add demo_env \<lparr>m_oid = 7, m_side = Sell, m_qty = 10, m_price = 5\<rparr> demo_book = Some (Inl e)) \<or>
   (\<exists>b'. visit_order_add demo_env \<lparr>m_oid = 7, m_side = Sell, m_qty = 10, m_price = 5\<rparr> demo_book = Some (Inr b') \<and>
      resting demo_env b' ASK 7 = Some (5000, 10))"
  using lob_order_add_exact [OF demo_env_ok demo_book_inv, of "\<lparr>m_oid = 7, m_side = Sell, m_qty = 10, m_price = 5\<rparr>"]
  by (auto simp: demo_book_resting id_is_new_def spec_add_def to_side_def wire_to_book_simps int32_def narrow_id Let_def)


text \<open>
  C5: the levels of a side are exactly the prices at which orders rest, in the side's order
  (bids from the highest, asks from the lowest), and every level reports the number of orders
  and the total quantity resting at its price, wrapped to 32 bits.
\<close>

theorem lob_levels_exact:
  assumes "book_inv E b"
  shows "sorted_side s (nodes E b s) \<and> fst ` set (nodes E b s) = {p. at_price (resting E b) s p \<noteq> {}} \<and>
    (\<forall>(p, lr) \<in> set (nodes E b s). \<exists>lv. levels E b lr = Some lv \<and> l_price lv = p \<and>
       order_count E lv = (let n = int (card (at_price (resting E b) s p)) in if e_has_order_count E then narrow 32 n else n) \<and>
       evaluate_qty E b lv = Some (Inr (narrow 32 (qty_at (resting E b) s p))))"
proof (intro conjI ballI)
  show "sorted_side s (nodes E b s)" by (rule side_sorted [OF book_side_ok [OF assms]])
  show "fst ` set (nodes E b s) = {p. at_price (resting E b) s p \<noteq> {}}" using prices_of_nodes [OF assms] by blast
  fix x assume x: "x \<in> set (nodes E b s)"
  obtain p lr where plr: "x = (p, lr)" by (cases x)
  with x have lr: "(p, lr) \<in> set (nodes E b s)" by simp
  obtain lv where lv: "levels E b lr = Some lv" "level_ok E (orders E b) (oids b s) p lr lv"
    using side_level [OF book_side_ok [OF assms] lr] by blast
  have "order_count E lv = (let n = int (card (at_price (resting E b) s p)) in if e_has_order_count E then narrow 32 n else n)"
    using lv(2) level_totals(1) [OF assms lr lv(1)] by (simp add: order_count_def level_ok_def refs_def Let_def)
  with lv evaluate_qty_level [OF assms lr lv(1)] plr
  show "case x of (p, lr) \<Rightarrow> \<exists>lv. levels E b lr = Some lv \<and> l_price lv = p \<and>
       order_count E lv = (let n = int (card (at_price (resting E b) s p)) in if e_has_order_count E then narrow 32 n else n) \<and>
       evaluate_qty E b lv = Some (Inr (narrow 32 (qty_at (resting E b) s p)))"
    by (auto simp: level_ok_def)
qed

lemma lob_levels_exact_witness:
  "\<exists>b. book_inv demo_env b \<and> fst ` set (nodes demo_env b BID) = {1000} \<and>
    {p. at_price (resting demo_env b) BID p \<noteq> {}} = {1000}"
proof (rule demo_one_order)
  fix b assume b: "book_inv demo_env b" "nodes demo_env b BID = [(1000, 0)]"
  from lob_levels_exact [OF b(1), of BID] b show ?thesis by (intro exI [of _ b]) simp
qed

text \<open>
  C11: the queries towards the outside are exact: \<open>eq_price\<close> finds the level of a price or
  nothing, \<open>next_worse_price\<close> the first level strictly behind the price in the side's order, and
  \<open>eq_or_next_worse_price\<close> the first level at or behind it, each \<open>nullptr\<close> exactly where there
  is none.
\<close>

theorem lob_worse_price_exact:
  assumes "env_ok E" "book_inv E b"
  shows "(let pm = bs_price_map (b_side b s); N = set (nodes E b s) in
    first_of s {x \<in> N. fst x = p} (eq_price E pm p) \<and>
    first_of s {x \<in> N. before s p (fst x)} (next_worse_price E pm p) \<and>
    first_of s {x \<in> N. \<not> before s (fst x) p} (eq_or_next_worse_price E pm p))"
proof -
  let ?pm = "bs_price_map (b_side b s)" and ?N = "nodes E b s"
  have side: "e_pm_side E ?pm = s" and sorted: "sorted_side s ?N"
    by (rule book_pm [OF assms(2)], rule side_sorted [OF book_side_ok [OF assms(2)]])
  note bounds = env_bounds [OF assms(1), of ?pm, unfolded side, OF sorted]
  have "first_of s {x \<in> set ?N. \<not> before s (fst x) p} (eq_or_next_worse_price E ?pm p)"
    unfolding eq_or_next_worse_price_def find_eq_or_next_worse_price_def bounds(1)
    by (rule first_at_split [OF sorted _ refl]) (rule before_trans)
  moreover have "first_of s {x \<in> set ?N. \<not> \<not> before s p (fst x)} (next_worse_price E ?pm p)"
    unfolding next_worse_price_def find_next_worse_price_def bounds(2)
    by (rule first_at_split [OF sorted _ refl]) (meson before_trans)
  moreover have "first_of s {x \<in> set ?N. fst x = p} (eq_price E ?pm p)"
  proof (cases "dropWhile (\<lambda>x. fst x \<noteq> p) ?N")
    case Nil
    then have "length (takeWhile (\<lambda>x. fst x \<noteq> p) ?N) = length ?N" by (simp only: takeWhile_split(2))
    then have "eq_price E ?pm p = None" by (simp only: eq_price_def find_eq_price_def bounds(3) level_at_def if_True simp_thms)
    moreover have "{x \<in> set ?N. fst x = p} = {}" using Nil by (auto simp: dropWhile_eq_Nil_conv)
    ultimately show ?thesis by (simp add: first_of_def)
  next
    case (Cons y ys)
    have y1: "fst y = p" using hd_dropWhile [of "\<lambda>x. fst x \<noteq> p" ?N] Cons by simp
    have "y \<in> set (dropWhile (\<lambda>x. fst x \<noteq> p) ?N)" unfolding Cons by simp
    then have y: "fst y = p" "y \<in> set ?N" using y1 set_dropWhileD by fast+
    have "x = y" if "x \<in> set ?N" "fst x = p" for x
      using sorted_side_unique [OF sorted, of p "snd x" "snd y"] that y by (cases x; cases y) auto
    then have "y \<in> {x \<in> set ?N. fst x = p} \<and> (\<forall>z\<in>{x \<in> set ?N. fst x = p}. z = y \<or> before s (fst y) (fst z))"
      using y by blast
    moreover have "eq_price E ?pm p = Some y"
      using Cons takeWhile_split(2) [of "\<lambda>x. fst x \<noteq> p" ?N] nth_takeWhile_length [OF Cons]
      by (simp add: eq_price_def find_eq_price_def bounds(3) level_at_def)
    ultimately show ?thesis by (simp only: first_of_def option.case) (simp only: simp_thms; blast)
  qed
  ultimately show ?thesis by (simp add: Let_def)
qed

lemma lob_worse_price_exact_witness:
  "\<exists>b. book_inv demo_env b \<and> first_of BID {(1000, 0)} (next_worse_price demo_env (bs_price_map (b_side b BID)) 2000)"
proof (rule demo_one_order)
  fix b assume b: "book_inv demo_env b" "nodes demo_env b BID = [(1000, 0)]"
  have "{x \<in> {(1000::int, 0::nat)}. before BID 2000 (fst x)} = {(1000, 0)}" by (auto simp: before_def)
  with lob_worse_price_exact [OF demo_env_ok b(1), where s = BID and p = 2000] b show ?thesis
    by (intro exI [of _ b]) (simp add: Let_def)
qed

text \<open>
  The queries towards the inside find the closest better level where there is one; where
  there is none they still return the inside level of a side that is not empty, whatever its
  price, and \<open>nullptr\<close> only on an empty side.
\<close>

theorem lob_better_price_exact:
  assumes "env_ok E" "book_inv E b"
  shows "(let pm = bs_price_map (b_side b s); N = set (nodes E b s); B = {x \<in> N. before s (fst x) p}; C = {x \<in> N. \<not> before s p (fst x)} in
    (if B = {} then first_of s N (next_better_price E pm p) else last_of s B (next_better_price E pm p)) \<and>
    (if C = {} then first_of s N (eq_or_next_better_price E pm p) else last_of s C (eq_or_next_better_price E pm p)))"
proof -
  let ?pm = "bs_price_map (b_side b s)" and ?N = "nodes E b s"
  have side: "e_pm_side E ?pm = s" and sorted: "sorted_side s ?N"
    by (rule book_pm [OF assms(2)], rule side_sorted [OF book_side_ok [OF assms(2)]])
  note bounds = env_bounds [OF assms(1), of ?pm, unfolded side, OF sorted]
  have main: "if {x \<in> set ?N. P x} = {} then first_of s (set ?N) (level_at E ?pm i) else last_of s {x \<in> set ?N. P x} (level_at E ?pm i)"
    if P: "\<And>x y. P y \<Longrightarrow> before s (fst x) (fst y) \<Longrightarrow> P x" and i: "i = length (takeWhile P ?N) - 1" for P i
  proof (cases "takeWhile P ?N")
    case Nil
    have none: "{x \<in> set ?N. P x} = {}" using sorted_split(1) [OF sorted, of P] P Nil by auto
    have "first_of s {x \<in> set ?N. \<not> False} (level_at E ?pm (length (takeWhile (\<lambda>_. False) ?N)))"
      by (rule first_at_split [OF sorted _ refl])
    moreover have "takeWhile (\<lambda>_. False) ?N = []" by (cases ?N) simp_all
    ultimately show ?thesis using none Nil i by simp
  next
    case (Cons y ys)
    have some: "takeWhile P ?N \<noteq> []" by (simp add: Cons)
    then have "set (takeWhile P ?N) \<noteq> {}" by simp
    then have "{x \<in> set ?N. P x} \<noteq> {}" using sorted_split(1) [OF sorted P] by simp
    moreover have "last_of s {x \<in> set ?N. P x} (level_at E ?pm i)"
      unfolding i by (rule last_at_split [OF sorted _ refl some]) (rule P)
    ultimately show ?thesis by (simp only: if_False)
  qed
  have dec: "(let i = n in if i \<noteq> 0 then i - 1 else i) = n - 1" for n :: nat by (simp add: Let_def)
  have "if {x \<in> set ?N. before s (fst x) p} = {} then first_of s (set ?N) (next_better_price E ?pm p)
      else last_of s {x \<in> set ?N. before s (fst x) p} (next_better_price E ?pm p)"
    unfolding next_better_price_def find_next_better_price_def dec bounds(1)
    by (rule main) (meson before_trans, simp)
  moreover have "if {x \<in> set ?N. \<not> before s p (fst x)} = {} then first_of s (set ?N) (eq_or_next_better_price E ?pm p)
      else last_of s {x \<in> set ?N. \<not> before s p (fst x)} (eq_or_next_better_price E ?pm p)"
    unfolding eq_or_next_better_price_def find_eq_or_next_better_price_def dec bounds(2)
    by (rule main) (meson before_trans, simp)
  ultimately show ?thesis by (simp add: Let_def)
qed

lemma lob_better_price_exact_witness:
  "\<exists>b. book_inv demo_env b \<and> first_of BID {(1000, 0)} (next_better_price demo_env (bs_price_map (b_side b BID)) 2000)"
proof (rule demo_one_order)
  fix b assume b: "book_inv demo_env b" "nodes demo_env b BID = [(1000, 0)]"
  have "{x \<in> {(1000::int, 0::nat)}. before BID (fst x) 2000} = {}" by (auto simp: before_def)
  with lob_better_price_exact [OF demo_env_ok b(1), where s = BID and p = 2000] b show ?thesis
    by (intro exI [of _ b]) (simp add: Let_def)
qed

text \<open>
  An order lookup by id never faults, finds exactly the resting orders, and leads from the
  order to the level that carries its price.
\<close>

theorem lob_find_order_exact:
  assumes "book_inv E b"
  shows "(case resting E b s oid of
      None \<Rightarrow> find_order E s oid b = Some (Inr None)
    | Some (p, q) \<Rightarrow> \<exists>ord lv. find_order E s oid b = Some (Inr (Some ord)) \<and> o_qty ord = q \<and>
        level_of E ord b = Some (Inr lv) \<and> l_price lv = p \<and> p \<in> fst ` set (nodes E b s))"
proof (cases "oids b s oid")
  case None
  then show ?thesis using cst.get_law [OF book_oids [OF assms]] resting_None [OF assms, of s oid] by (simp add: find_order_def)
next
  case (Some r)
  obtain ord lv where o: "orders E b r = Some ord" "levels E b (o_parent ord) = Some lv"
    "(l_price lv, o_parent ord) \<in> set (nodes E b s)" "resting E b s oid = Some (l_price lv, o_qty ord)"
    using resting_Some [OF assms Some] by metis
  have "l_price lv \<in> fst ` set (nodes E b s)" using o(3) by force
  with o Some pool_get_spec [OF book_orders [OF assms] o(1)] pool_get_spec [OF book_levels [OF assms] o(2)]
    cst.get_law [OF book_oids [OF assms], of s oid] show ?thesis
    by (simp add: find_order_def level_of_def)
qed

lemma lob_find_order_exact_witness:
  "\<exists>b ord. book_inv demo_env b \<and> find_order demo_env BID 7 b = Some (Inr (Some ord)) \<and> o_qty ord = 10"
proof (rule demo_one_order)
  fix b assume b: "book_inv demo_env b" "resting demo_env b = (\<lambda>s. if s = BID then [7 \<mapsto> (1000, 10)] else Map.empty)"
  from lob_find_order_exact [OF b(1), of BID 7] b show ?thesis by auto
qed

text \<open>
  a book built over two pools starts with its invariant and with no resting orders, where
  the id table's initial capacity is one its link type can index.
\<close>

theorem lob_new_exact:
  assumes "env_ok E" "512 \<le> max_capacity (e_oid_traits E)" "pool_inv (e_order_opts E) op" "pool_inv (e_level_opts E) lp"
  shows "\<exists>b. lob_new E op lp = Inr b \<and> book_inv E b \<and> resting E b = (\<lambda>s. Map.empty) \<and>
    b_order_pool b = op \<and> b_level_pool b = lp \<and> (\<forall>s. side_empty E (bs_price_map (b_side b s)))"
  by (rule lob_new_ok [OF assms]) (auto simp: side_empty_def)

lemma lob_new_exact_witness: "\<exists>b. lob_new demo_env demo_pool demo_pool = Inr b \<and> book_inv demo_env b"
proof -
  have "e_order_opts demo_env = demo_pool_opts" "e_level_opts demo_env = demo_pool_opts" by (simp_all add: demo_env_def)
  then have p: "pool_inv (e_order_opts demo_env) demo_pool" "pool_inv (e_level_opts demo_env) demo_pool"
    by (simp_all add: demo_pool_inv)
  have "512 \<le> max_capacity (e_oid_traits demo_env)" by (simp add: demo_oid_capacity)
  from lob_new_exact [OF demo_env_ok this p] show ?thesis by blast
qed

text \<open>
  C12: a replacement to another price is not completed: the order is made to point at the level
  of the new price, in whose list it is not, and stays in the list of the level it came from, which stays
  in the price map, unchanged; so the book's invariant is lost.
\<close>

theorem lob_replace_loses_order:
  assumes "env_ok E" "book_inv E b" "resting E b (to_side (m_side m)) (m_oid m) = Some (p, q)"
    and "p \<noteq> wire_to_book (m_price m)" "\<not> pool_full (e_level_opts E) (b_level_pool b)"
  shows "\<exists>b' ord lv r old lv0. visit_order_replace E m b = Some (Inr b') \<and> oids b' (to_side (m_side m)) (m_oid m) = Some r \<and>
    orders E b' r = Some ord \<and> levels E b' (o_parent ord) = Some lv \<and> l_price lv = wire_to_book (m_price m) \<and>
    r \<notin> set (e_list_refs E (l_orders lv)) \<and>
    old \<noteq> o_parent ord \<and> (p, old) \<in> set (nodes E b' (to_side (m_side m))) \<and> levels E b old = Some lv0 \<and>
    levels E b' old = Some lv0 \<and> l_price lv0 = p \<and> r \<in> set (e_list_refs E (l_orders lv0)) \<and> \<not> book_inv E b'"
proof -
  obtain b' ord lv r where b': "visit_order_replace E m b = Some (Inr b')" "oids b' (to_side (m_side m)) (m_oid m) = Some r"
    "orders E b' r = Some ord" "levels E b' (o_parent ord) = Some lv" "l_price lv = wire_to_book (m_price m)" "r \<notin> set (refs E lv)"
    and keep: "\<exists>old lv0. old \<noteq> o_parent ord \<and> (p, old) \<in> set (nodes E b' (to_side (m_side m))) \<and> levels E b old = Some lv0 \<and>
      levels E b' old = Some lv0 \<and> l_price lv0 = p \<and> r \<in> set (refs E lv0)"
    by (rule order_replace_move_spec [OF assms])
  have "\<not> book_inv E b'"
  proof
    assume "book_inv E b'"
    from side_order_here(1) [OF book_side_ok [OF this] b'(2,3) refl b'(4)] b'(6) show False by simp
  qed
  moreover obtain old lv0 where "old \<noteq> o_parent ord" "(p, old) \<in> set (nodes E b' (to_side (m_side m)))" "levels E b old = Some lv0"
    "levels E b' old = Some lv0" "l_price lv0 = p" "r \<in> set (refs E lv0)" using keep by blast
  ultimately show ?thesis using b' unfolding refs_def
    by (intro exI [of _ b'] exI [of _ ord] exI [of _ lv] exI [of _ r] exI [of _ old] exI [of _ lv0]) simp
qed

lemma lob_replace_loses_order_witness:
  "\<exists>b b'. book_inv demo_env b \<and> visit_order_replace demo_env \<lparr>m_oid = 7, m_side = Buy, m_qty = 10, m_price = 2\<rparr> b = Some (Inr b') \<and>
     \<not> book_inv demo_env b'"
proof (rule demo_one_order)
  fix b assume b: "book_inv demo_env b" "resting demo_env b = (\<lambda>s. if s = BID then [7 \<mapsto> (1000, 10)] else Map.empty)"
    "\<not> pool_full (e_level_opts demo_env) (b_level_pool b)"
  let ?m = "\<lparr>m_oid = 7, m_side = Buy, m_qty = 10, m_price = 2\<rparr>"
  have "resting demo_env b (to_side (m_side ?m)) (m_oid ?m) = Some (1000, 10)" by (simp add: b(2) to_side_def)
  from lob_replace_loses_order [OF demo_env_ok b(1) this _ b(3)] b(1) show ?thesis
    by (auto simp: wire_to_book_simps int32_def)
qed

end
