(* ===== verification/Execution_Book.thy ===== *)
theory Execution_Book
  imports Scatter_Props Pool_Props
begin

unbundle bit_operations_syntax

text \<open>
  The execution order book of \<^verbatim>\<open>vr/market/books/execution_order_book.h\<close>: the orders this
  process has in flight, each with a small state machine in a bit set, kept in an object pool
  and found by order token (every token the order has had) and by exchange order id. The
  tables hold pointers into the pool; the model keeps the pool reference of the object a
  pointer points at.
\<close>

section \<open>The order state machine\<close>

type_synonym fsm = "32 word"
type_synonym order_token = "64 word"

definition fs_ERROR :: fsm where "fs_ERROR = 0"
definition fs_created :: fsm where "fs_created = 1"
definition fs_live :: fsm where "fs_live = 2"
definition fs_done :: fsm where "fs_done = 3"

definition fp_none :: fsm where "fp_none = 0"
definition fp_submit :: fsm where "fp_submit = 8"
definition fp_replace :: fsm where "fp_replace = 16"
definition fp_cancel :: fsm where "fp_cancel = 32"
definition fp_finalize :: fsm where "fp_finalize = 64"

definition order_state :: "fsm \<Rightarrow> fsm" where
  "order_state m_data = m_data AND 3"

definition pending_state :: "fsm \<Rightarrow> fsm" where
  "pending_state m_data = m_data AND NOT 3"

definition transition :: "fsm \<Rightarrow> fsm \<Rightarrow> fsm" where
  "transition os ps = os OR ps"

definition error_transition :: "fsm \<Rightarrow> fsm" where
  "error_transition m_data = fs_ERROR OR pending_state m_data"

definition fsm_mark :: "fsm \<Rightarrow> fsm \<Rightarrow> fsm" where
  "fsm_mark p m_data = m_data OR p"

definition fsm_clear :: "fsm \<Rightarrow> fsm \<Rightarrow> fsm" where
  "fsm_clear p m_data = m_data AND NOT p"

section \<open>Orders and the book\<close>

record eo_order =
  x_state :: fsm
  x_liid :: int
  x_otk :: order_token
  x_history :: "order_token list option"
  x_oid :: int
  x_price :: int
  x_qty :: int
  x_qty_filled :: int
  x_loid :: nat
  x_error :: "int \<times> fsm"
  x_reject_code :: int
  x_cancel_code :: int

record eo_book =
  eo_pool :: "eo_order pool"
  eo_otk_map :: "(order_token, nat) cst"
  eo_oid_map :: "(int, nat) cst"

text \<open>The template arguments: the two tables' and the pool's options.\<close>

record ex_env =
  xe_otk_traits :: "order_token cst_traits"
  xe_oid_traits :: "int cst_traits"
  xe_pool :: pool_opts

definition fresh_order :: eo_order where
  "fresh_order = \<lparr>x_state = 0, x_liid = 0, x_otk = 0, x_history = None, x_oid = 0, x_price = 0, x_qty = 0,
     x_qty_filled = 0, x_loid = 0, x_error = (0, 0), x_reject_code = 0, x_cancel_code = 0\<rparr>"

definition fsm_error_transition :: "int \<Rightarrow> eo_order \<Rightarrow> eo_order" where
  "fsm_error_transition lineno ord = ord\<lparr>x_error := (lineno, x_state ord), x_state := error_transition (x_state ord)\<rparr>"

section \<open>Operations\<close>

definition initial_book_capacity :: int where
  "initial_book_capacity = 128"

definition ex_book_new :: "ex_env \<Rightarrow> eo_order pool \<Rightarrow> eo_book result" where
  "ex_book_new E pool =
     bind_r (cst_new (xe_otk_traits E) initial_book_capacity) (\<lambda>otks.
     bind_r (cst_new (xe_oid_traits E) initial_book_capacity) (\<lambda>oids.
       Inr \<lparr>eo_pool = pool, eo_otk_map = otks, eo_oid_map = oids\<rparr>))"

definition ex_size :: "eo_book \<Rightarrow> nat" where
  "ex_size b = m_size (eo_oid_map b)"

text \<open>\<open>Some None\<close> is \<open>nullptr\<close>.\<close>

definition ex_find_order :: "ex_env \<Rightarrow> order_token \<Rightarrow> eo_book \<Rightarrow> nat option option" where
  "ex_find_order E otk b = cst_get (xe_otk_traits E) (eo_otk_map b) otk"

definition create_order :: "ex_env \<Rightarrow> int \<Rightarrow> order_token \<Rightarrow> eo_book \<Rightarrow> (nat \<times> eo_book) result option" where
  "create_order E liid otk b =
     bind_ro (pool_allocate (xe_pool E) fresh_order (eo_pool b)) (\<lambda>(o_ref, pool).
     bind_ro (lift_o (pool_modify (xe_pool E) o_ref (\<lambda>ord. ord\<lparr>x_loid := o_ref, x_liid := liid, x_otk := otk, x_oid := 0,
         x_qty_filled := 0, x_reject_code := 0, x_cancel_code := 0\<rparr>) pool)) (\<lambda>pool.
     bind_ro (cst_put (xe_otk_traits E) otk o_ref (eo_otk_map b)) (\<lambda>otks.
       Some (Inr (o_ref, b\<lparr>eo_pool := pool, eo_otk_map := otks\<rparr>)))))"

definition push_token :: "order_token \<Rightarrow> order_token list option \<Rightarrow> order_token list option" where
  "push_token otk h = Some ((case h of None \<Rightarrow> [] | Some otk_trace \<Rightarrow> otk_trace) @ [otk])"

definition alias_order :: "ex_env \<Rightarrow> nat \<Rightarrow> order_token \<Rightarrow> eo_book \<Rightarrow> eo_book result option" where
  "alias_order E o_ref new_otk b =
     bind_ro (cst_put (xe_otk_traits E) new_otk o_ref (eo_otk_map b)) (\<lambda>otks.
     bind_ro (lift_o (pool_modify (xe_pool E) o_ref (\<lambda>ord. ord\<lparr>x_history := push_token new_otk (x_history ord)\<rparr>) (eo_pool b))) (\<lambda>pool.
       Some (Inr (b\<lparr>eo_pool := pool, eo_otk_map := otks\<rparr>))))"

primrec erase_tokens :: "ex_env \<Rightarrow> order_token list \<Rightarrow> (order_token, nat) cst \<Rightarrow> (order_token, nat) cst result option" where
  "erase_tokens E [] m = Some (Inr m)"
| "erase_tokens E (old_otk # otks) m =
     bind_ro (lift_o (cst_remove (xe_otk_traits E) old_otk m)) (\<lambda>(m, _). erase_tokens E otks m)"

definition erase_order :: "ex_env \<Rightarrow> nat \<Rightarrow> eo_book \<Rightarrow> eo_book result option" where
  "erase_order E o_ref b =
     bind_ro (pool_get (xe_pool E) False o_ref (eo_pool b)) (\<lambda>ord.
     if pending_state (x_state ord) \<noteq> 0 \<or> order_state (x_state ord) = fs_live then Some (Inl Agent_runtime)
     else
       bind_ro (lift_o (cst_remove (xe_oid_traits E) (x_oid ord) (eo_oid_map b))) (\<lambda>(oids, _).
       bind_ro (lift_o (cst_remove (xe_otk_traits E) (x_otk ord) (eo_otk_map b))) (\<lambda>(otks, _).
       bind_ro (erase_tokens E (case x_history ord of None \<Rightarrow> [] | Some otk_trace \<Rightarrow> otk_trace) otks) (\<lambda>otks.
       bind_ro (pool_release (xe_pool E) (x_loid ord) (eo_pool b)) (\<lambda>(_, pool).
         Some (Inr (b\<lparr>eo_pool := pool, eo_otk_map := otks, eo_oid_map := oids\<rparr>)))))))"

end
