(* ===== verification/Execution_Inv.thy ===== *)
theory Execution_Inv
  imports Execution_Book
begin

text \<open>
  The invariant of the execution book: its tables say exactly which tokens and exchange ids
  its orders have. What creation, aliasing, mutation and erasure do to it.
\<close>

section \<open>States\<close>

lemmas fsm_names = fs_ERROR_def fs_created_def fs_live_def fs_done_def
  fp_none_def fp_submit_def fp_replace_def fp_cancel_def fp_finalize_def

lemmas fsm_ops = order_state_def pending_state_def transition_def error_transition_def fsm_mark_def fsm_clear_def

lemma order_state_mark:
  "order_state p = 0 \<Longrightarrow> order_state (fsm_mark p s) = order_state s"
  "order_state p = 0 \<Longrightarrow> order_state (fsm_clear p s) = order_state s"
  by (simp_all add: fsm_ops bit_eq_iff bit_simps) blast+

lemma order_state_error [simp]: "order_state (error_transition s) = fs_ERROR"
  by (simp add: fsm_ops fs_ERROR_def bit_eq_iff bit_simps)

lemma pending_state_error [simp]: "pending_state (error_transition s) = pending_state s"
  by (simp add: fsm_ops fs_ERROR_def bit_eq_iff bit_simps)

lemma order_state_pending [simp]:
  "order_state fp_none = 0" "order_state fp_submit = 0" "order_state fp_replace = 0" "order_state fp_cancel = 0"
  "order_state fp_finalize = 0"
  by (simp_all add: fsm_names fsm_ops)

section \<open>The invariant\<close>

abbreviation xorders :: "ex_env \<Rightarrow> eo_book \<Rightarrow> nat \<Rightarrow> eo_order option" where
  "xorders E b \<equiv> objs (xe_pool E) (eo_pool b)"

definition history_list :: "order_token list option \<Rightarrow> order_token list" where
  "history_list h = (case h of None \<Rightarrow> [] | Some ks \<Rightarrow> ks)"

definition tokens :: "eo_order \<Rightarrow> order_token set" where
  "tokens ord = insert (x_otk ord) (set (history_list (x_history ord)))"

lemma history_push [simp]: "history_list (push_token k h) = history_list h @ [k]"
  by (simp add: push_token_def history_list_def split: option.splits)

definition token_table :: "(nat \<Rightarrow> eo_order option) \<Rightarrow> (order_token \<Rightarrow> nat option) \<Rightarrow> bool" where
  "token_table A T \<longleftrightarrow> (\<forall>k r. T k = Some r \<longleftrightarrow> (\<exists>ord. A r = Some ord \<and> k \<in> tokens ord))"

definition oid_table :: "(nat \<Rightarrow> eo_order option) \<Rightarrow> (int \<Rightarrow> nat option) \<Rightarrow> bool" where
  "oid_table A I \<longleftrightarrow> (\<forall>i r. I i = Some r \<longleftrightarrow> (\<exists>ord. A r = Some ord \<and> x_oid ord = i \<and> i \<noteq> 0))"

definition orders_ok :: "(nat \<Rightarrow> eo_order option) \<Rightarrow> bool" where
  "orders_ok A \<longleftrightarrow> (\<forall>r ord. A r = Some ord \<longrightarrow> x_loid ord = r \<and> (order_state (x_state ord) = fs_created \<longrightarrow> x_oid ord = 0))"

definition ex_inv :: "ex_env \<Rightarrow> eo_book \<Rightarrow> bool" where
  "ex_inv E b \<longleftrightarrow> pool_inv (xe_pool E) (eo_pool b) \<and> cst_inv (xe_otk_traits E) (eo_otk_map b) \<and>
     cst_inv (xe_oid_traits E) (eo_oid_map b) \<and> token_table (xorders E b) (cst_map (eo_otk_map b)) \<and>
     oid_table (xorders E b) (cst_map (eo_oid_map b)) \<and> orders_ok (xorders E b)"

lemma ex_invD:
  assumes "ex_inv E b"
  shows ex_pool: "pool_inv (xe_pool E) (eo_pool b)"
    and ex_otks: "cst_inv (xe_otk_traits E) (eo_otk_map b)"
    and ex_oids: "cst_inv (xe_oid_traits E) (eo_oid_map b)"
    and ex_tokens: "cst_map (eo_otk_map b) k = Some r \<longleftrightarrow> (\<exists>ord. xorders E b r = Some ord \<and> k \<in> tokens ord)"
    and ex_ids: "cst_map (eo_oid_map b) i = Some r \<longleftrightarrow> (\<exists>ord. xorders E b r = Some ord \<and> x_oid ord = i \<and> i \<noteq> 0)"
    and ex_orders: "orders_ok (xorders E b)"
    and ex_tt: "token_table (xorders E b) (cst_map (eo_otk_map b))"
    and ex_it: "oid_table (xorders E b) (cst_map (eo_oid_map b))"
  using assms unfolding ex_inv_def token_table_def oid_table_def by blast+

lemma ex_loid: "ex_inv E b \<Longrightarrow> xorders E b r = Some ord \<Longrightarrow> x_loid ord = r"
  using ex_orders by (auto simp: orders_ok_def)

text \<open>Two orders share neither a token nor an exchange id.\<close>

lemma ex_token_unique:
  assumes "ex_inv E b" "xorders E b r = Some ord" "xorders E b r' = Some ord'" "k \<in> tokens ord" "k \<in> tokens ord'"
  shows "r = r'"
  using ex_tokens [OF assms(1), of k r] ex_tokens [OF assms(1), of k r'] assms(2-5) by auto

lemma ex_id_unique:
  assumes "ex_inv E b" "xorders E b r = Some ord" "xorders E b r' = Some ord'" "x_oid ord = x_oid ord'" "x_oid ord \<noteq> 0"
  shows "r = r'"
  using ex_ids [OF assms(1), of "x_oid ord" r] ex_ids [OF assms(1), of "x_oid ord" r'] assms(2-5) by auto

lemma ex_token_None:
  "ex_inv E b \<Longrightarrow> cst_map (eo_otk_map b) k = None \<longleftrightarrow> (\<forall>r ord. xorders E b r = Some ord \<longrightarrow> k \<notin> tokens ord)"
  using ex_tokens [of E b k] by (metis option.exhaust option.simps(3))

lemma ex_id_None:
  "ex_inv E b \<Longrightarrow> cst_map (eo_oid_map b) i = None \<longleftrightarrow> (\<forall>r ord. xorders E b r = Some ord \<longrightarrow> x_oid ord \<noteq> i \<or> i = 0)"
  using ex_ids [of E b i] by (metis option.exhaust option.simps(3))

section \<open>Construction\<close>

lemma ex_book_new_ok:
  assumes "128 \<le> max_capacity (xe_otk_traits E)" "128 \<le> max_capacity (xe_oid_traits E)"
    and "pool_inv (xe_pool E) pool" "objs (xe_pool E) pool = Map.empty"
  obtains b where "ex_book_new E pool = Inr b" "ex_inv E b" "xorders E b = Map.empty" "eo_pool b = pool"
    "m_size (eo_otk_map b) = 0" "m_size (eo_oid_map b) = 0"
proof -
  obtain t :: "(order_token, nat) cst" where t: "cst_new (xe_otk_traits E) 128 = Inr t" "cst_inv (xe_otk_traits E) t"
    "cst_map t = Map.empty" "m_size t = 0"
    by (rule cst_new_spec [of 128 "xe_otk_traits E"]) (use assms in auto)
  obtain u :: "(int, nat) cst" where u: "cst_new (xe_oid_traits E) 128 = Inr u" "cst_inv (xe_oid_traits E) u"
    "cst_map u = Map.empty" "m_size u = 0"
    by (rule cst_new_spec [of 128 "xe_oid_traits E"]) (use assms in auto)
  let ?b = "\<lparr>eo_pool = pool, eo_otk_map = t, eo_oid_map = u\<rparr>"
  have "ex_inv E ?b" using assms(3,4) t u by (simp add: ex_inv_def token_table_def oid_table_def orders_ok_def)
  with that [of ?b] t u assms(4) show ?thesis by (simp add: ex_book_new_def initial_book_capacity_def)
qed

section \<open>Updates of the represented book\<close>

lemma token_table_unique:
  assumes "token_table A T" "token_table A T'"
  shows "T = T'"
proof
  fix k
  show "T k = T' k"
  proof (cases "T k")
    case None
    then have "T' k \<noteq> Some r" for r using assms unfolding token_table_def by (metis option.simps(3))
    with None show ?thesis by (cases "T' k") auto
  next
    case (Some r)
    with assms show ?thesis unfolding token_table_def by metis
  qed
qed

lemma token_table_add:
  assumes "token_table A T" "A r = None" "T k = None" "tokens ord = {k}"
  shows "token_table (A(r \<mapsto> ord)) (T(k \<mapsto> r))"
proof -
  have none: "\<And>r ord. A r = Some ord \<Longrightarrow> k \<notin> tokens ord" using assms(1,3) unfolding token_table_def by (metis option.simps(3))
  then show ?thesis using assms unfolding token_table_def by (auto 0 3)
qed

lemma token_table_alias:
  assumes "token_table A T" "A r = Some ord" "T k = None" "tokens ord' = insert k (tokens ord)"
  shows "token_table (A(r \<mapsto> ord')) (T(k \<mapsto> r))"
proof -
  have none: "\<And>r ord. A r = Some ord \<Longrightarrow> k \<notin> tokens ord" using assms(1,3) unfolding token_table_def by (metis option.simps(3))
  then show ?thesis using assms unfolding token_table_def by (auto 0 3)
qed

lemma token_table_same:
  assumes "token_table A T" "A r = Some ord" "tokens ord' = tokens ord"
  shows "token_table (A(r \<mapsto> ord')) T"
  using assms unfolding token_table_def by (auto 0 3)

lemma token_table_erase:
  assumes "token_table A T" "A r = Some ord"
  shows "token_table (A(r := None)) (\<lambda>k. if k \<in> tokens ord then None else T k)"
  unfolding token_table_def
proof (intro allI)
  fix k r'
  have one: "r' = r" if "k \<in> tokens ord" "A r' = Some ord'" "k \<in> tokens ord'" for ord'
    using assms that unfolding token_table_def by (metis option.inject)
  have "T k = Some r' \<longleftrightarrow> (\<exists>ord. A r' = Some ord \<and> k \<in> tokens ord)" using assms(1) by (simp add: token_table_def)
  with one assms(2) show "(if k \<in> tokens ord then None else T k) = Some r' \<longleftrightarrow> (\<exists>ord. (A(r := None)) r' = Some ord \<and> k \<in> tokens ord)"
    by auto
qed

lemma oid_table_same:
  assumes "oid_table A I" "A r = Some ord" "x_oid ord' = x_oid ord"
  shows "oid_table (A(r \<mapsto> ord')) I"
  using assms unfolding oid_table_def by (auto 0 3)

lemma oid_table_add:
  assumes "oid_table A I" "A r = None" "x_oid ord = 0"
  shows "oid_table (A(r \<mapsto> ord)) I"
  using assms unfolding oid_table_def by (auto 0 3)

lemma oid_table_assign:
  assumes "oid_table A I" "A r = Some ord" "x_oid ord = 0" "I i = None" "i \<noteq> 0" "x_oid ord' = i"
  shows "oid_table (A(r \<mapsto> ord')) (I(i \<mapsto> r))"
proof -
  have none: "\<And>s ord. A s = Some ord \<Longrightarrow> x_oid ord \<noteq> i" using assms(1,4,5) unfolding oid_table_def by (metis option.simps(3))
  then show ?thesis using assms unfolding oid_table_def by (auto 0 3)
qed

lemma oid_table_erase:
  assumes "oid_table A I" "A r = Some ord"
  shows "oid_table (A(r := None)) (I(x_oid ord := None))"
  unfolding oid_table_def
proof (intro allI)
  fix i r'
  have I: "I j = Some s \<longleftrightarrow> (\<exists>ord. A s = Some ord \<and> x_oid ord = j \<and> j \<noteq> 0)" for j s using assms(1) by (simp add: oid_table_def)
  have one: "r' = r" if "A r' = Some ord'" "x_oid ord' = x_oid ord" "x_oid ord \<noteq> 0" for ord'
    using I [of "x_oid ord" r] I [of "x_oid ord" r'] assms(2) that by auto
  show "(I(x_oid ord := None)) i = Some r' \<longleftrightarrow> (\<exists>ord. (A(r := None)) r' = Some ord \<and> x_oid ord = i \<and> i \<noteq> 0)"
    using I [of i r'] one assms(2) by auto
qed

section \<open>Operations\<close>

lemma create_order_ok:
  assumes inv: "ex_inv E b" and new: "cst_map (eo_otk_map b) otk = None"
  shows "((pool_full (xe_pool E) (eo_pool b) \<or> put_fails (xe_otk_traits E) (eo_otk_map b) otk) \<and>
      (\<exists>e. create_order E liid otk b = Some (Inl e))) \<or>
    (\<exists>r b'. create_order E liid otk b = Some (Inr (r, b')) \<and> ex_inv E b' \<and> xorders E b r = None \<and>
      xorders E b' = (xorders E b)(r \<mapsto> fresh_order\<lparr>x_loid := r, x_liid := liid, x_otk := otk\<rparr>))"
proof (cases "pool_full (xe_pool E) (eo_pool b)")
  case True
  with pool.alloc_full [OF ex_pool [OF inv], where x = fresh_order] show ?thesis by (auto simp: create_order_def)
next
  case False
  let ?f = "\<lambda>r ord. ord\<lparr>x_loid := r, x_liid := liid, x_otk := otk, x_oid := 0, x_qty_filled := 0, x_reject_code := 0, x_cancel_code := 0\<rparr>"
  obtain r p1 where p1: "pool_allocate (xe_pool E) fresh_order (eo_pool b) = Some (Inr (r, p1))" "pool_inv (xe_pool E) p1"
    "xorders E b r = None" "objs (xe_pool E) p1 = (xorders E b)(r \<mapsto> fresh_order)"
    using pool.alloc_law [OF ex_pool [OF inv] False] by blast
  have "objs (xe_pool E) p1 r = Some fresh_order" by (simp add: p1(4))
  then obtain p2 where p2: "pool_modify (xe_pool E) r (?f r) p1 = Some p2" "pool_inv (xe_pool E) p2"
    "objs (xe_pool E) p2 = (objs (xe_pool E) p1)(r \<mapsto> ?f r fresh_order)"
    using pool.upd_law [OF p1(2)] by blast
  have fr: "?f r fresh_order = fresh_order\<lparr>x_loid := r, x_liid := liid, x_otk := otk\<rparr>" by (simp add: fresh_order_def)
  have objs2: "objs (xe_pool E) p2 = (xorders E b)(r \<mapsto> fresh_order\<lparr>x_loid := r, x_liid := liid, x_otk := otk\<rparr>)"
    using p2(3) p1(4) fr by simp
  show ?thesis
  proof (cases "put_fails (xe_otk_traits E) (eo_otk_map b) otk")
    case True
    with cst.put_refused [OF ex_otks [OF inv] True, of r] p1(1) p2(1) show ?thesis by (auto simp: create_order_def)
  next
    case False
    obtain m where m: "cst_put (xe_otk_traits E) otk r (eo_otk_map b) = Some (Inr m)" "cst_inv (xe_otk_traits E) m"
      "cst_map m = (cst_map (eo_otk_map b))(otk \<mapsto> r)"
      using cst.put_law [OF ex_otks [OF inv] False] by blast
    let ?b' = "b\<lparr>eo_pool := p2, eo_otk_map := m\<rparr>"
    let ?o = "fresh_order\<lparr>x_loid := r, x_liid := liid, x_otk := otk\<rparr>"
    have o: "tokens ?o = {otk}" "x_oid ?o = 0" by (simp_all add: tokens_def history_list_def fresh_order_def)
    have "ex_inv E ?b'"
      using inv m(2) p2(2) token_table_add [OF ex_tt [OF inv] p1(3) new o(1)] oid_table_add [OF ex_it [OF inv] p1(3) o(2)]
      by (simp add: ex_inv_def objs2 m(3) orders_ok_def fresh_order_def)
    with p1(1,3) p2(1) m(1) objs2 show ?thesis by (simp add: create_order_def)
  qed
qed

lemma alias_order_ok:
  assumes inv: "ex_inv E b" and r: "xorders E b r = Some ord" and new: "cst_map (eo_otk_map b) otk = None"
  shows "(put_fails (xe_otk_traits E) (eo_otk_map b) otk \<and> (\<exists>e. alias_order E r otk b = Some (Inl e))) \<or>
    (\<exists>b'. alias_order E r otk b = Some (Inr b') \<and> ex_inv E b' \<and> eo_oid_map b' = eo_oid_map b \<and>
      xorders E b' = (xorders E b)(r \<mapsto> ord\<lparr>x_history := push_token otk (x_history ord)\<rparr>))"
proof (cases "put_fails (xe_otk_traits E) (eo_otk_map b) otk")
  case True
  with cst.put_refused [OF ex_otks [OF inv] True, of r] show ?thesis by (auto simp: alias_order_def)
next
  case False
  obtain m where m: "cst_put (xe_otk_traits E) otk r (eo_otk_map b) = Some (Inr m)" "cst_inv (xe_otk_traits E) m"
    "cst_map m = (cst_map (eo_otk_map b))(otk \<mapsto> r)"
    using cst.put_law [OF ex_otks [OF inv] False] by blast
  let ?o = "ord\<lparr>x_history := push_token otk (x_history ord)\<rparr>"
  obtain p where p: "pool_modify (xe_pool E) r (\<lambda>ord. ord\<lparr>x_history := push_token otk (x_history ord)\<rparr>) (eo_pool b) = Some p"
    "pool_inv (xe_pool E) p" "objs (xe_pool E) p = (xorders E b)(r \<mapsto> ?o)"
    using pool.upd_law [OF ex_pool [OF inv] r] by blast
  have t: "tokens ?o = insert otk (tokens ord)" by (auto simp: tokens_def)
  have "ex_inv E (b\<lparr>eo_pool := p, eo_otk_map := m\<rparr>)"
    using inv m(2) p(2) token_table_alias [OF ex_tt [OF inv] r new t] oid_table_same [OF ex_it [OF inv] r, of ?o] r
    by (auto simp: ex_inv_def p(3) m(3) orders_ok_def)
  with m(1) p show ?thesis by (simp add: alias_order_def)
qed

text \<open>A mutation that keeps the tokens, the id and the slot.\<close>

lemma modify_order_ok:
  assumes inv: "ex_inv E b" and r: "xorders E b r = Some ord"
    and keeps: "tokens (f ord) = tokens ord" "x_oid (f ord) = x_oid ord" "x_loid (f ord) = x_loid ord"
      "order_state (x_state (f ord)) = fs_created \<Longrightarrow> order_state (x_state ord) = fs_created \<or> x_oid ord = 0"
  obtains p where "pool_modify (xe_pool E) r f (eo_pool b) = Some p" "ex_inv E (b\<lparr>eo_pool := p\<rparr>)"
    "xorders E (b\<lparr>eo_pool := p\<rparr>) = (xorders E b)(r \<mapsto> f ord)"
proof -
  obtain p where p: "pool_modify (xe_pool E) r f (eo_pool b) = Some p" "pool_inv (xe_pool E) p"
    "objs (xe_pool E) p = (xorders E b)(r \<mapsto> f ord)"
    using pool.upd_law [OF ex_pool [OF inv] r] by blast
  have "orders_ok ((xorders E b)(r \<mapsto> f ord))" using ex_orders [OF inv] r keeps by (auto simp: orders_ok_def)
  then have "ex_inv E (b\<lparr>eo_pool := p\<rparr>)"
    using inv p(2) token_table_same [OF ex_tt [OF inv] r keeps(1)] oid_table_same [OF ex_it [OF inv] r keeps(2)] by (simp add: ex_inv_def p(3))
  with that p show ?thesis by simp
qed

lemma erase_tokens_ok:
  assumes "cst_inv (xe_otk_traits E) m"
  obtains m' where "erase_tokens E ks m = Some (Inr m')" "cst_inv (xe_otk_traits E) m'"
    "cst_map m' = (\<lambda>k. if k \<in> set ks then None else cst_map m k)"
  using assms
proof (induction ks arbitrary: m thesis)
  case Nil
  then show ?case by simp
next
  case (Cons k ks)
  obtain m1 v where m1: "cst_remove_and_get (xe_otk_traits E) k m = Some (m1, v)" "cst_inv (xe_otk_traits E) m1"
    "cst_map m1 = (cst_map m)(k := None)"
    using cst.rem_law [OF Cons.prems(2), of k] by blast
  obtain m2 where m2: "erase_tokens E ks m1 = Some (Inr m2)" "cst_inv (xe_otk_traits E) m2"
    "cst_map m2 = (\<lambda>k. if k \<in> set ks then None else cst_map m1 k)"
    using Cons.IH [OF _ m1(2)] by blast
  have "cst_map m2 = (\<lambda>j. if j \<in> set (k # ks) then None else cst_map m j)" by (auto simp: m2(3) m1(3))
  moreover have "erase_tokens E (k # ks) m = Some (Inr m2)"
    using m1(1) m2(1) by (simp add: cst_remove_def cst_remove_and_get_def)
  ultimately show ?case using Cons.prems(1) m2(2) by blast
qed

definition erasable :: "eo_order \<Rightarrow> bool" where
  "erasable ord \<longleftrightarrow> pending_state (x_state ord) = 0 \<and> order_state (x_state ord) \<noteq> fs_live"

lemma erase_order_ok:
  assumes inv: "ex_inv E b" and r: "xorders E b r = Some ord"
  shows "if erasable ord then \<exists>b'. erase_order E r b = Some (Inr b') \<and> ex_inv E b' \<and> xorders E b' = (xorders E b)(r := None)
    else erase_order E r b = Some (Inl Agent_runtime)"
proof (cases "erasable ord")
  case False
  with pool_get_spec [OF ex_pool [OF inv] r, of False] show ?thesis by (auto simp: erase_order_def erasable_def)
next
  case True
  obtain i u where i: "cst_remove_and_get (xe_oid_traits E) (x_oid ord) (eo_oid_map b) = Some (i, u)" "cst_inv (xe_oid_traits E) i"
    "cst_map i = (cst_map (eo_oid_map b))(x_oid ord := None)"
    using cst.rem_law [OF ex_oids [OF inv], of "x_oid ord"] by blast
  obtain m0 v where m0: "cst_remove_and_get (xe_otk_traits E) (x_otk ord) (eo_otk_map b) = Some (m0, v)" "cst_inv (xe_otk_traits E) m0"
    "cst_map m0 = (cst_map (eo_otk_map b))(x_otk ord := None)"
    using cst.rem_law [OF ex_otks [OF inv], of "x_otk ord"] by blast
  obtain m where m: "erase_tokens E (history_list (x_history ord)) m0 = Some (Inr m)" "cst_inv (xe_otk_traits E) m"
    "cst_map m = (\<lambda>k. if k \<in> set (history_list (x_history ord)) then None else cst_map m0 k)"
    by (rule erase_tokens_ok [OF m0(2)])
  obtain p where p: "pool_release (xe_pool E) (x_loid ord) (eo_pool b) = Some (Inr (ord, p))" "pool_inv (xe_pool E) p"
    "objs (xe_pool E) p = (xorders E b)(r := None)"
    using pool.free_law [OF ex_pool [OF inv] r] ex_loid [OF inv r] by auto
  have t: "cst_map m = (\<lambda>k. if k \<in> tokens ord then None else cst_map (eo_otk_map b) k)"
    by (auto simp: m(3) m0(3) tokens_def)
  let ?b' = "b\<lparr>eo_pool := p, eo_otk_map := m, eo_oid_map := i\<rparr>"
  have "erase_order E r b = Some (Inr ?b')"
    using pool_get_spec [OF ex_pool [OF inv] r, of False] True i(1) m0(1) m(1) p(1)
    by (simp add: erase_order_def erasable_def cst_remove_def cst_remove_and_get_def history_list_def cong: option.case_cong)
  moreover have "ex_inv E ?b'"
    using inv i(2) m(2) p(2) token_table_erase [OF ex_tt [OF inv] r] oid_table_erase [OF ex_it [OF inv] r]
    by (simp add: ex_inv_def p(3) t i(3) orders_ok_def)
  ultimately show ?thesis using True p(3) by simp
qed

end
