(* ===== verification/Execution_Listener.thy ===== *)
theory Execution_Listener
  imports Execution_Inv Prices Simulation
begin

text \<open>
  The listener of \<^verbatim>\<open>vr/market/books/asx/execution_listener.h\<close> that applies the messages of the
  order entry protocol (OUCH) to an execution book. Of the messages of
  \<^verbatim>\<open>sources/asx/ouch/messages.h\<close> the records hold the fields it reads; the token is the first
  eight bytes of the token field, as \<open>otk_of\<close> reads it. Its statements under \<open>VR_IF_DEBUG\<close> and
  its \<open>assert\<close>s are not part of a release build.
\<close>

section \<open>Messages\<close>

definition os_LIVE :: int where "os_LIVE = 1"
definition os_NOT_ON_BOOK :: int where "os_NOT_ON_BOOK = 2"

record ouch_order =
  ou_otk :: order_token
  ou_oid :: int
  ou_qty :: int
  ou_price :: int
  ou_state :: int

record ouch_reject =
  uj_otk :: order_token
  uj_reject_code :: int

record ouch_cancel =
  uc_oid :: int
  uc_cancel_code :: int

record ouch_execution =
  ue_otk :: order_token
  ue_qty :: int
  ue_price :: int

datatype ouch_msg =
    Order_accepted ouch_order
  | Order_rejected ouch_reject
  | Order_replaced ouch_order
  | Order_canceled ouch_cancel
  | Order_execution ouch_execution

section \<open>Visits\<close>

text \<open>A change of the order a pointer points at.\<close>

definition set_order :: "ex_env \<Rightarrow> nat \<Rightarrow> (eo_order \<Rightarrow> eo_order) \<Rightarrow> eo_book \<Rightarrow> eo_book result option" where
  "set_order E r f b = bind_ro (lift_o (pool_modify (xe_pool E) r f (eo_pool b))) (\<lambda>pool. Some (Inr (b\<lparr>eo_pool := pool\<rparr>)))"

definition visit_order_accepted :: "ex_env \<Rightarrow> ouch_order \<Rightarrow> eo_book \<Rightarrow> eo_book result option" where
  "visit_order_accepted E msg b =
     bind_ro (lift_o (cst_get (xe_otk_traits E) (eo_otk_map b) (ou_otk msg))) (\<lambda>o_ptr.
     case o_ptr of None \<Rightarrow> Some (Inr b)
     | Some r \<Rightarrow>
         bind_ro (pool_get (xe_pool E) False r (eo_pool b)) (\<lambda>ord.
         if x_state ord = fs_created OR fp_submit then
           bind_ro (set_order E r (\<lambda>ord. ord\<lparr>x_oid := ou_oid msg\<rparr>) b) (\<lambda>b.
           bind_ro (cst_put (xe_oid_traits E) (ou_oid msg) r (eo_oid_map b)) (\<lambda>oids.
           let b = b\<lparr>eo_oid_map := oids\<rparr> in
           if ou_state msg = os_LIVE then set_order E r (\<lambda>ord. ord\<lparr>x_state := transition fs_live fp_none\<rparr>) b
           else if ou_state msg = os_NOT_ON_BOOK then set_order E r (\<lambda>ord. ord\<lparr>x_state := transition fs_done fp_finalize\<rparr>) b
           else Some (Inr b)))
         else set_order E r (fsm_error_transition 129) b))"

definition visit_order_rejected :: "ex_env \<Rightarrow> ouch_reject \<Rightarrow> eo_book \<Rightarrow> eo_book result option" where
  "visit_order_rejected E msg b =
     bind_ro (lift_o (cst_get (xe_otk_traits E) (eo_otk_map b) (uj_otk msg))) (\<lambda>o_ptr.
     case o_ptr of None \<Rightarrow> Some (Inr b)
     | Some r \<Rightarrow>
         bind_ro (set_order E r (\<lambda>ord. ord\<lparr>x_reject_code := uj_reject_code msg\<rparr>) b) (\<lambda>b.
         bind_ro (pool_get (xe_pool E) False r (eo_pool b)) (\<lambda>ord.
         if x_state ord = fs_created OR fp_submit then set_order E r (\<lambda>ord. ord\<lparr>x_state := transition fs_done fp_none\<rparr>) b
         else if x_state ord = fs_live OR fp_replace then set_order E r (\<lambda>ord. ord\<lparr>x_state := fsm_clear fp_replace (x_state ord)\<rparr>) b
         else if x_state ord = fs_live OR fp_cancel then set_order E r (\<lambda>ord. ord\<lparr>x_state := fsm_clear fp_cancel (x_state ord)\<rparr>) b
         else set_order E r (fsm_error_transition 206) b)))"

definition visit_order_replaced :: "ex_env \<Rightarrow> ouch_order \<Rightarrow> eo_book \<Rightarrow> eo_book result option" where
  "visit_order_replaced E msg b =
     bind_ro (lift_o (cst_get (xe_oid_traits E) (eo_oid_map b) (ou_oid msg))) (\<lambda>o_ptr.
     case o_ptr of None \<Rightarrow> Some (Inr b)
     | Some r \<Rightarrow>
         bind_ro (pool_get (xe_pool E) False r (eo_pool b)) (\<lambda>ord.
         if order_state (x_state ord) = fs_live then
           if ou_state msg = os_LIVE then
             bind_ro (set_order E r (\<lambda>ord. ord\<lparr>x_price := wire_to_book (ou_price msg), x_qty := ou_qty msg\<rparr>) b) (\<lambda>b.
             set_order E r (\<lambda>ord. ord\<lparr>x_state := transition fs_live fp_none\<rparr>) b)
           else if ou_state msg = os_NOT_ON_BOOK then set_order E r (\<lambda>ord. ord\<lparr>x_state := transition fs_done fp_finalize\<rparr>) b
           else Some (Inr b)
         else set_order E r (fsm_error_transition 286) b))"

definition visit_order_canceled :: "ex_env \<Rightarrow> ouch_cancel \<Rightarrow> eo_book \<Rightarrow> eo_book result option" where
  "visit_order_canceled E msg b =
     bind_ro (lift_o (cst_get (xe_oid_traits E) (eo_oid_map b) (uc_oid msg))) (\<lambda>o_ptr.
     case o_ptr of None \<Rightarrow> Some (Inr b)
     | Some r \<Rightarrow>
         bind_ro (pool_get (xe_pool E) False r (eo_pool b)) (\<lambda>ord.
         if order_state (x_state ord) = fs_live then
           bind_ro (set_order E r (\<lambda>ord. ord\<lparr>x_state := transition fs_done fp_none\<rparr>) b) (\<lambda>b.
           set_order E r (\<lambda>ord. ord\<lparr>x_cancel_code := uc_cancel_code msg\<rparr>) b)
         else set_order E r (fsm_error_transition 345) b))"

definition visit_order_execution :: "ex_env \<Rightarrow> ouch_execution \<Rightarrow> eo_book \<Rightarrow> eo_book result option" where
  "visit_order_execution E msg b = Some (Inr b)"

primrec visit_ouch :: "ex_env \<Rightarrow> ouch_msg \<Rightarrow> eo_book \<Rightarrow> eo_book result option" where
  "visit_ouch E (Order_accepted m) b = visit_order_accepted E m b"
| "visit_ouch E (Order_rejected m) b = visit_order_rejected E m b"
| "visit_ouch E (Order_replaced m) b = visit_order_replaced E m b"
| "visit_ouch E (Order_canceled m) b = visit_order_canceled E m b"
| "visit_ouch E (Order_execution m) b = visit_order_execution E m b"

section \<open>The protocol, order by order\<close>

text \<open>A book as a function from whatever names its orders.\<close>

type_synonym 'i xbook = "'i \<Rightarrow> eo_order option"

text \<open>The orders a message is about, and what it does to each of them.\<close>

primrec addresses :: "ouch_msg \<Rightarrow> eo_order \<Rightarrow> bool" where
  "addresses (Order_accepted m) ord \<longleftrightarrow> ou_otk m \<in> tokens ord"
| "addresses (Order_rejected m) ord \<longleftrightarrow> uj_otk m \<in> tokens ord"
| "addresses (Order_replaced m) ord \<longleftrightarrow> x_oid ord = ou_oid m \<and> ou_oid m \<noteq> 0"
| "addresses (Order_canceled m) ord \<longleftrightarrow> x_oid ord = uc_oid m \<and> uc_oid m \<noteq> 0"
| "addresses (Order_execution m) ord \<longleftrightarrow> False"

definition awaits_accept :: "eo_order \<Rightarrow> bool" where
  "awaits_accept ord \<longleftrightarrow> x_state ord = fs_created OR fp_submit"

definition is_live :: "eo_order \<Rightarrow> bool" where
  "is_live ord \<longleftrightarrow> order_state (x_state ord) = fs_live"

definition off_book :: fsm where
  "off_book = fs_done OR fp_finalize"

primrec order_after :: "ouch_msg \<Rightarrow> eo_order \<Rightarrow> eo_order" where
  "order_after (Order_accepted m) ord =
     (if awaits_accept ord then ord\<lparr>x_oid := ou_oid m, x_state := if ou_state m = os_LIVE then fs_live else off_book\<rparr>
      else fsm_error_transition 129 ord)"
| "order_after (Order_rejected m) ord =
     (let ord = ord\<lparr>x_reject_code := uj_reject_code m\<rparr> in
      if awaits_accept ord then ord\<lparr>x_state := fs_done\<rparr>
      else if x_state ord \<in> {fs_live OR fp_replace, fs_live OR fp_cancel} then ord\<lparr>x_state := fs_live\<rparr>
      else fsm_error_transition 206 ord)"
| "order_after (Order_replaced m) ord =
     (if \<not> is_live ord then fsm_error_transition 286 ord
      else if ou_state m = os_LIVE then ord\<lparr>x_price := wire_to_book (ou_price m), x_qty := ou_qty m, x_state := fs_live\<rparr>
      else if ou_state m = os_NOT_ON_BOOK then ord\<lparr>x_state := off_book\<rparr> else ord)"
| "order_after (Order_canceled m) ord =
     (if is_live ord then ord\<lparr>x_state := fs_done, x_cancel_code := uc_cancel_code m\<rparr> else fsm_error_transition 345 ord)"
| "order_after (Order_execution m) ord = ord"

definition spec_ouch :: "ouch_msg \<Rightarrow> 'i xbook \<Rightarrow> 'i xbook" where
  "spec_ouch msg A = (\<lambda>r. map_option (\<lambda>ord. if addresses msg ord then order_after msg ord else ord) (A r))"

text \<open>
  What the listener takes for granted of an acceptance: the exchange id is nonzero, no order of
  the book has it, and the state is one of the two of the protocol.
\<close>

definition new_exchange_id :: "int \<Rightarrow> 'i xbook \<Rightarrow> bool" where
  "new_exchange_id i A \<longleftrightarrow> i \<noteq> 0 \<and> (\<forall>r ord. A r = Some ord \<longrightarrow> x_oid ord \<noteq> i)"

primrec ouch_allows :: "ouch_msg \<Rightarrow> 'i xbook \<Rightarrow> bool" where
  "ouch_allows (Order_accepted m) A \<longleftrightarrow> new_exchange_id (ou_oid m) A \<and> ou_state m \<in> {os_LIVE, os_NOT_ON_BOOK}"
| "ouch_allows (Order_rejected m) A \<longleftrightarrow> True"
| "ouch_allows (Order_replaced m) A \<longleftrightarrow> True"
| "ouch_allows (Order_canceled m) A \<longleftrightarrow> True"
| "ouch_allows (Order_execution m) A \<longleftrightarrow> True"

primrec ouch_exhausts :: "ex_env \<Rightarrow> ouch_msg \<Rightarrow> eo_book \<Rightarrow> bool" where
  "ouch_exhausts E (Order_accepted m) b \<longleftrightarrow> put_fails (xe_oid_traits E) (eo_oid_map b) (ou_oid m)"
| "ouch_exhausts E (Order_rejected m) b \<longleftrightarrow> False"
| "ouch_exhausts E (Order_replaced m) b \<longleftrightarrow> False"
| "ouch_exhausts E (Order_canceled m) b \<longleftrightarrow> False"
| "ouch_exhausts E (Order_execution m) b \<longleftrightarrow> False"

end
