(* ===== verification/Order_Token.thy ===== *)
theory Order_Token
  imports Execution_Book
begin

text \<open>
  The order token generator of \<^verbatim>\<open>vr/market/rt/asx/utility.h\<close>: a 32-bit counter and a prefix
  digit become eight hexadecimal digits in a 64-bit string, the most significant digit first
  (in the lowest byte).
\<close>

section \<open>Definitions\<close>

text \<open>The digits \<open>0..9A..F\<close> as the bytes of a 128-bit constant, the digit of \<open>0\<close> lowest.\<close>

definition digits_hi :: "128 word" where "digits_hi = 0x4645444342413938"
definition digits_lo :: "128 word" where "digits_lo = 0x3736353433323130"

definition digits :: "128 word" where
  "digits = push_bit 64 digits_hi OR digits_lo"

definition hex_digit :: "nat \<Rightarrow> 64 word" where
  "hex_digit d = ucast (drop_bit (d * 8) digits AND 0xFF)"

text \<open>\<open>vr_DIGIT\<close>: the digit of hexadecimal position \<open>dix\<close> of \<open>v\<close>, moved to its byte.\<close>

definition token_digit :: "32 word \<Rightarrow> nat \<Rightarrow> 64 word" where
  "token_digit v dix = push_bit (56 - dix * 8) (hex_digit (unat (drop_bit (dix * 4) v AND 0x0F)))"

definition convert_fw :: "32 word \<Rightarrow> order_token" where
  "convert_fw v = fold (\<lambda>dix r. r OR token_digit v dix) [0, 1, 2, 3, 4, 5, 6, 7] 0"

definition make_with_prefix :: "32 word \<Rightarrow> 32 word \<Rightarrow> order_token" where
  "make_with_prefix v prefix = convert_fw (v OR push_bit ((8 - 1) * 4) prefix)"

section \<open>Tokens determine their value\<close>

lemma less_16: "n < 16 \<Longrightarrow> n \<in> set [0, 1, 2, 3, 4, 5, 6, 7, 8, 9, 10, 11, 12, 13, 14, 15::nat]"
  by simp presburger

lemma digits_eq: "digits = 0x46454443424139383736353433323130"
  by (simp add: digits_def digits_hi_def digits_lo_def)

lemma hex_digit_table:
  "hex_digit 0 = 48" "hex_digit 1 = 49" "hex_digit 2 = 50" "hex_digit 3 = 51" "hex_digit 4 = 52" "hex_digit 5 = 53"
  "hex_digit 6 = 54" "hex_digit 7 = 55" "hex_digit 8 = 56" "hex_digit 9 = 57" "hex_digit 10 = 65" "hex_digit 11 = 66"
  "hex_digit 12 = 67" "hex_digit 13 = 68" "hex_digit 14 = 69" "hex_digit 15 = 70"
  by (simp_all add: hex_digit_def digits_eq)

lemma hex_digit_val: "n < 16 \<Longrightarrow> hex_digit n = word_of_nat (if n < 10 then n + 48 else n + 55)"
  using less_16 [of n] by (auto simp: hex_digit_table simp del: One_nat_def)

lemma unat_hex_digit:
  assumes "d < 16"
  shows "unat (hex_digit d) = (if d < 10 then d + 48 else d + 55)"
proof -
  have "(if d < 10 then d + 48 else d + 55) < 2 ^ LENGTH(64)" using assms by auto
  then show ?thesis by (simp only: hex_digit_val [OF assms] unat_of_nat mod_less)
qed

lemma hex_digit_inj:
  assumes "m < 16" "n < 16" "hex_digit m = hex_digit n"
  shows "m = n"
proof -
  have "(if m < 10 then m + 48 else m + 55) = (if n < 10 then n + 48 else n + 55)"
    using unat_hex_digit [OF assms(1)] unat_hex_digit [OF assms(2)] assms(3) by metis
  then show ?thesis by presburger
qed

lemma less_take_bit_self:
  fixes w :: "'a::len word"
  assumes "w < 2 ^ n" "n < LENGTH('a)"
  shows "take_bit n w = w"
proof -
  have "unat ((2 :: 'a word) ^ n) = 2 ^ n" using assms(2) by (metis unat_of_nat take_bit_eq_mod unsigned_of_nat word_of_nat_eq_iff of_nat_numeral of_nat_power mod_less power_strict_increasing_iff one_less_numeral_iff semiring_norm(76))
  then have "unat w < 2 ^ n" using assms(1) by (simp add: word_less_nat_alt)
  then have "unat (take_bit n w) = unat w" by (simp add: unsigned_take_bit_eq take_bit_nat_eq_self_iff)
  then show ?thesis by (rule unsigned_word_eqI)
qed

lemma hex_digit_byte:
  assumes "d < 16"
  shows "take_bit 8 (hex_digit d) = hex_digit d"
proof -
  have "hex_digit d < 2 ^ 8" using assms by (auto simp: word_less_nat_alt unat_hex_digit [OF assms])
  then show ?thesis by (simp add: less_take_bit_self)
qed

lemma nibble_lt: "unat (drop_bit n (v :: 32 word) AND 0x0F) < 16"
proof -
  have "drop_bit n v AND 0x0F = take_bit 4 (drop_bit n v)" by (simp add: take_bit_eq_mask mask_eq_exp_minus_1)
  then have "unat (drop_bit n v AND 0x0F) = take_bit 4 (unat (drop_bit n v))" by (simp add: unsigned_take_bit_eq)
  then show ?thesis by (simp add: take_bit_eq_mod)
qed


text \<open>Digit position \<open>dix\<close> of a value.\<close>

definition nibble :: "32 word \<Rightarrow> nat \<Rightarrow> nat" where
  "nibble v dix = unat (drop_bit (dix * 4) v AND 0x0F)"

lemma nibble_bits: "j < 4 \<Longrightarrow> bit (nibble v dix) j \<longleftrightarrow> bit v (4 * dix + j)"
proof -
  assume j: "j < 4"
  have "drop_bit (dix * 4) v AND 0x0F = take_bit 4 (drop_bit (dix * 4) v)" by (simp add: take_bit_eq_mask mask_eq_exp_minus_1)
  then have "nibble v dix = take_bit 4 (unat (drop_bit (dix * 4) v))" by (simp add: nibble_def unsigned_take_bit_eq)
  with j show ?thesis by (simp add: bit_take_bit_iff bit_unsigned_iff bit_drop_bit_eq mult.commute)
qed

lemma word_eq_nibbles:
  assumes "\<And>dix. dix < 8 \<Longrightarrow> nibble v dix = nibble w dix"
  shows "v = (w :: 32 word)"
proof (rule bit_word_eqI)
  fix n assume "n < LENGTH(32)"
  then have "n div 4 < 8" by simp
  from assms [OF this] have "bit (nibble v (n div 4)) (n mod 4) = bit (nibble w (n div 4)) (n mod 4)" by simp
  then show "bit v n = bit w n" by (simp add: nibble_bits)
qed

lemma nibble_div: "nibble v dix = unat v div 16 ^ dix mod 16"
proof -
  have "drop_bit (dix * 4) v AND 0x0F = take_bit 4 (drop_bit (dix * 4) v)" by (simp add: take_bit_eq_mask mask_eq_exp_minus_1)
  then have "nibble v dix = take_bit 4 (drop_bit (dix * 4) (unat v))" by (simp add: nibble_def unsigned_take_bit_eq unat_drop_bit_eq)
  then show ?thesis by (simp add: take_bit_eq_mod drop_bit_eq_div power_mult mult.commute [of dix])
qed

text \<open>The bytes of a token.\<close>

lemma bit_token_digit:
  assumes "dix < 8"
  shows "bit (token_digit v dix) n \<longleftrightarrow> 56 - dix * 8 \<le> n \<and> n < 64 - dix * 8 \<and> bit (hex_digit (nibble v dix)) (n - (56 - dix * 8))"
proof -
  have nb: "nibble v dix < 16" unfolding nibble_def by (rule nibble_lt)
  have hd: "bit (hex_digit (nibble v dix)) k \<Longrightarrow> k < 8" for k
    using hex_digit_byte [OF nb] by (metis bit_take_bit_iff)
  have lim: "n < 64 - dix * 8 \<and> n < 64" if "56 - dix * 8 \<le> n" "n - (56 - dix * 8) < 8"
    using that assms by arith
  have tok: "token_digit v dix = push_bit (56 - dix * 8) (hex_digit (nibble v dix))"
    by (simp only: token_digit_def nibble_def)
  show ?thesis
    unfolding tok bit_push_bit_iff using hd [of "n - (56 - dix * 8)"] lim by auto
qed

lemma digit_position:
  assumes "dix < 8" "d < 8" "n < 8" "56 - d * 8 \<le> 56 - dix * 8 + n" "56 - dix * 8 + n < 64 - d * (8::nat)"
  shows "d = dix"
proof -
  have "d \<le> 7" "dix \<le> 7" using assms by simp_all
  then show ?thesis using assms(3-5) by arith
qed

lemma token_byte:
  assumes "dix < 8"
  shows "take_bit 8 (drop_bit (56 - dix * 8) (convert_fw v)) = hex_digit (nibble v dix)"
proof (rule bit_word_eqI)
  fix n assume "n < LENGTH(64)"
  have nb: "nibble v dix < 16" unfolding nibble_def by (rule nibble_lt)
  have hd: "bit (hex_digit (nibble v dix)) n \<Longrightarrow> n < 8"
    using hex_digit_byte [OF nb] by (metis bit_take_bit_iff)
  have "bit (convert_fw v) k \<longleftrightarrow> (\<exists>d<8. bit (token_digit v d) k)" for k
  proof -
    have "bit (fold (\<lambda>dix r. r OR token_digit v dix) ds r) k \<longleftrightarrow> bit r k \<or> (\<exists>d\<in>set ds. bit (token_digit v d) k)" for ds r
      by (induction ds arbitrary: r) (auto simp: bit_or_iff)
    moreover have "set [0, 1, 2, 3, 4, 5, 6, 7::nat] = {..<8}" by (simp add: lessThan_nat_numeral lessThan_Suc) blast
    ultimately show ?thesis by (auto simp: convert_fw_def simp del: fold.simps list.set)
  qed
  then have "bit (take_bit 8 (drop_bit (56 - dix * 8) (convert_fw v))) n \<longleftrightarrow>
      n < 8 \<and> (\<exists>d<8. bit (token_digit v d) (56 - dix * 8 + n))"
    by (simp add: bit_take_bit_iff bit_drop_bit_eq)
  also have "\<dots> \<longleftrightarrow> n < 8 \<and> bit (token_digit v dix) (56 - dix * 8 + n)"
  proof -
    have "d = dix" if "n < 8" "d < 8" "bit (token_digit v d) (56 - dix * 8 + n)" for d
      using digit_position [OF assms that(2,1)] that(3) by (simp add: bit_token_digit [OF that(2)])
    with assms show ?thesis by blast
  qed
  also have "\<dots> \<longleftrightarrow> bit (hex_digit (nibble v dix)) n" using hd assms by (auto simp: bit_token_digit)
  finally show "bit (take_bit 8 (drop_bit (56 - dix * 8) (convert_fw v))) n = bit (hex_digit (nibble v dix)) n" .
qed

lemma convert_fw_inj: "convert_fw v = convert_fw w \<longleftrightarrow> v = w"
proof
  assume "convert_fw v = convert_fw w"
  then have "hex_digit (nibble v dix) = hex_digit (nibble w dix)" if "dix < 8" for dix using token_byte [OF that] by metis
  then show "v = w" by (intro word_eq_nibbles hex_digit_inj) (auto simp: nibble_def nibble_lt)
qed simp

text \<open>The counter below the prefix digit.\<close>

lemma prefix_split:
  assumes "v < 2 ^ 28" "w < 2 ^ 28" "p < 16" "q < 16"
  shows "v OR push_bit 28 p = w OR push_bit 28 q \<longleftrightarrow> v = w \<and> p = (q :: 32 word)"
proof
  assume eq: "v OR push_bit 28 p = w OR push_bit 28 q"
  have low: "take_bit 28 (x OR push_bit 28 y) = x" if "x < 2 ^ 28" for x y :: "32 word"
    using that by (simp add: take_bit_or take_bit_push_bit less_take_bit_self)
  have high: "take_bit 4 (drop_bit 28 (x OR push_bit 28 y)) = y" if "x < 2 ^ 28" "y < 16" for x y :: "32 word"
  proof -
    have "take_bit 28 x = x" using that(1) by (simp add: less_take_bit_self)
    then have "bit x k \<Longrightarrow> k < 28" for k by (metis bit_take_bit_iff)
    then have "drop_bit 28 x = 0" by (intro bit_word_eqI) (auto simp: bit_drop_bit_eq)
    moreover have "take_bit 4 (drop_bit 28 (push_bit 28 y)) = take_bit 4 y"
      by (rule bit_word_eqI) (auto simp: bit_simps)
    ultimately show ?thesis using that(2) by (simp add: drop_bit_or take_bit_or less_take_bit_self)
  qed
  show "v = w \<and> p = q" using low [OF assms(1), of p] low [OF assms(2), of q] high [OF assms(1,3)] high [OF assms(2,4)] eq by metis
qed simp

lemma make_with_prefix_inj:
  assumes "v < 2 ^ 28" "w < 2 ^ 28" "p < 16" "q < 16"
  shows "make_with_prefix v p = make_with_prefix w q \<longleftrightarrow> v = w \<and> p = q"
  using prefix_split [OF assms] by (simp add: make_with_prefix_def convert_fw_inj)

text \<open>The digits of a token with a prefix.\<close>

lemma prefixed_unat:
  assumes "v < 2 ^ 28" "p < (16 :: 32 word)"
  shows "unat (v OR push_bit 28 p) = unat v + 16 ^ 7 * unat p"
proof -
  have v: "unat v < 2 ^ 28" using assms(1) by (simp add: word_less_nat_alt)
  have p: "unat p < 16" using assms(2) by (simp add: word_less_nat_alt)
  have small: "unat v + 2 ^ 28 * unat p < 2 ^ 32" using v p by simp
  have "v AND push_bit 28 p = 0"
  proof (rule bit_word_eqI)
    fix n
    have "take_bit 28 v = v" using assms(1) by (simp add: less_take_bit_self)
    then have "bit v n \<Longrightarrow> n < 28" by (metis bit_take_bit_iff)
    then show "bit (v AND push_bit 28 p) n = bit (0 :: 32 word) n" by (auto simp: bit_and_iff bit_push_bit_iff)
  qed
  then have "v OR push_bit 28 p = v + push_bit 28 p" by (simp add: disjunctive_add_eq_or)
  also have "\<dots> = word_of_nat (unat v + 2 ^ 28 * unat p)" by (simp add: push_bit_eq_mult)
  finally have "unat (v OR push_bit 28 p) = (unat v + 2 ^ 28 * unat p) mod 2 ^ LENGTH(32)" by (simp only: unat_of_nat)
  then show ?thesis using small by simp
qed

lemma prefixed_digit:
  assumes "v < 2 ^ 28" "p < (16 :: 32 word)" "dix < 8"
  shows "unat (v OR push_bit 28 p) div 16 ^ dix mod 16 = (if dix < 7 then unat v div 16 ^ dix mod 16 else unat p)"
proof (cases "dix < 7")
  case True
  have "(16 :: nat) ^ 7 = 16 ^ (dix + Suc (6 - dix))" using True by simp
  also have "\<dots> = 16 ^ dix * (16 * 16 ^ (6 - dix))" by (simp only: power_add power_Suc)
  finally have pow: "unat v + 16 ^ 7 * unat p = unat v + 16 ^ dix * (16 * (16 ^ (6 - dix) * unat p))" by (simp only: mult.assoc)
  have "(unat v + 16 ^ 7 * unat p) div 16 ^ dix = 16 * (16 ^ (6 - dix) * unat p) + unat v div 16 ^ dix"
    unfolding pow by (rule div_mult_self2) simp
  then show ?thesis using True by (simp add: prefixed_unat [OF assms(1,2)])
next
  case False
  then have d: "dix = 7" using assms(3) by simp
  have "unat v < 16 ^ 7" "unat p < 16" using assms(1,2) by (simp_all add: word_less_nat_alt)
  then show ?thesis unfolding d prefixed_unat [OF assms(1,2)] by simp
qed

section \<open>Properties\<close>

text \<open>
  C18: the token of a counter below 2 to the 28th and a one-digit prefix is eight upper-case hexadecimal digits, the prefix
  and then the counter, as ASCII characters; so two such tokens are equal exactly when counter and prefix are. A counter that reaches
  2 to the 28th runs into the prefix digit: the token of counter 0x10000000 of prefix 0xA is the token of
  counter 0 of prefix 0xB.
\<close>

theorem order_tokens_exact:
  assumes "v < 2 ^ 28" "w < 2 ^ 28" "p < 16" "q < 16"
  shows "(make_with_prefix v p = make_with_prefix w q \<longleftrightarrow> v = w \<and> p = q) \<and>
    (\<forall>dix < 8. take_bit 8 (drop_bit (56 - dix * 8) (make_with_prefix v p)) =
      hex_digit (if dix < 7 then unat v div 16 ^ dix mod 16 else unat p)) \<and>
    (\<forall>d < 16. hex_digit d = word_of_nat (if d < 10 then d + 48 else d + 55)) \<and>
    make_with_prefix 0x10000000 0xA = make_with_prefix 0 0xB"
proof (intro conjI allI impI)
  show "make_with_prefix v p = make_with_prefix w q \<longleftrightarrow> v = w \<and> p = q"
    by (rule make_with_prefix_inj [OF assms])
  show "make_with_prefix 0x10000000 0xA = make_with_prefix 0 0xB"
    by (simp add: make_with_prefix_def)
  fix dix :: nat assume dix: "dix < 8"
  show "take_bit 8 (drop_bit (56 - dix * 8) (make_with_prefix v p)) = hex_digit (if dix < 7 then unat v div 16 ^ dix mod 16 else unat p)"
    using token_byte [OF dix, of "v OR push_bit 28 p"] prefixed_digit [OF assms(1,3) dix]
    by (simp add: make_with_prefix_def nibble_div)
next
  fix d :: nat assume "d < 16"
  then show "hex_digit d = word_of_nat (if d < 10 then d + 48 else d + 55)" by (rule hex_digit_val)
qed

lemma order_tokens_exact_witness:
  "make_with_prefix 0x1234 0xA \<noteq> make_with_prefix 0x1235 0xA \<and> make_with_prefix 0x1234 0xA \<noteq> make_with_prefix 0x1234 0xB \<and>
    take_bit 8 (make_with_prefix 0x1234 0xA) = hex_digit 10 \<and> take_bit 8 (drop_bit 40 (make_with_prefix 0x1234 0xA)) = hex_digit 2"
proof -
  have "(0x1234 :: 32 word) < 2 ^ 28" "(0x1235 :: 32 word) < 2 ^ 28" "(0xA :: 32 word) < 16" by simp_all
  note digit = order_tokens_exact [OF this(1,2,3,3), THEN conjunct2, THEN conjunct1, rule_format]
  have "take_bit 8 (make_with_prefix 0x1234 0xA) = hex_digit 10" "take_bit 8 (drop_bit 40 (make_with_prefix 0x1234 0xA)) = hex_digit 2"
    using digit [of 7] digit [of 2] by simp_all
  then show ?thesis
    using order_tokens_exact [of "0x1234" "0x1235" "0xA" "0xA"] order_tokens_exact [of "0x1234" "0x1234" "0xA" "0xB"] by simp
qed

end
