(* ===== verification/Decimal.thy ===== *)
theory Decimal
  imports Ops_Int
begin

text \<open>
  Decimal numbers: the integer logarithm of \<^verbatim>\<open>vr/util/ops_int.h\<close> that sizes the output, printing
  (\<^verbatim>\<open>vr/util/format.h\<close>, \<^verbatim>\<open>format.cpp\<close>) two digits at a time from the right, parsing and trimming
  (\<^verbatim>\<open>vr/util/parse.h\<close>), and the fraction of a timestamp (\<^verbatim>\<open>vr/util/datetime.cpp\<close>). A character
  buffer is a list; a write outside it is undefined.
\<close>

section \<open>The integer logarithm\<close>

definition ilog10_i32_table_0 :: "32 word list" where
  "ilog10_i32_table_0 = [- 1, 9, 99, 999, 9999, 99999, 999999, 9999999, 99999999, 999999999, 0xFFFFFFFF]"

definition ilog10_i32_table_1 :: "32 word list" where
  "ilog10_i32_table_1 = [0, 9, 99, 999, 9999, 99999, 999999, 9999999, 99999999, 999999999, 0xFFFFFFFF]"

definition ilog10_i64_table_0 :: "64 word list" where
  "ilog10_i64_table_0 = [- 1, 9, 99, 999, 9999, 99999, 999999, 9999999, 99999999, 999999999,
     9999999999, 99999999999, 999999999999, 9999999999999, 99999999999999, 999999999999999,
     9999999999999999, 99999999999999999, 999999999999999999, 9999999999999999999]"

definition ilog10_i64_table_1 :: "64 word list" where
  "ilog10_i64_table_1 = [0, 9, 99, 999, 9999, 99999, 999999, 9999999, 99999999, 999999999,
     9999999999, 99999999999, 999999999999, 9999999999999, 99999999999999, 999999999999999,
     9999999999999999, 99999999999999999, 999999999999999999, 9999999999999999999]"

text \<open>
  The estimate from the leading-zero count is an \<open>int32_t\<close>, shifted arithmetically. The
  correction is a bit of an unsigned difference; the template argument \<open>zero\<close> picks the table.
\<close>

definition ilog10_floor_32 :: "bool \<Rightarrow> 32 word \<Rightarrow> int" where
  "ilog10_floor_32 zero x =
     (let y = (19 * (31 - int (lzcnt 32 (unat x)))) div 2 ^ 6;
          table = (if zero then ilog10_i32_table_0 else ilog10_i32_table_1)
      in y + uint (drop_bit 31 (table ! nat (y + 1) - x)))"

definition ilog10_floor_64 :: "bool \<Rightarrow> 64 word \<Rightarrow> int" where
  "ilog10_floor_64 zero x =
     (let y = (19 * (63 - int (lzcnt 64 (unat x)))) div 2 ^ 6;
          table = (if zero then ilog10_i64_table_0 else ilog10_i64_table_1)
      in y + uint (drop_bit 63 (table ! nat (y + 1) - x)))"

section \<open>Printing\<close>

definition g_digit_pairs :: string where
  "g_digit_pairs = ''00010203040506070809'' @ ''10111213141516171819'' @ ''20212223242526272829'' @ ''30313233343536373839'' @
     ''40414243444546474849'' @ ''50515253545556575859'' @ ''60616263646566676869'' @ ''70717273747576777879'' @
     ''80818283848586878889'' @ ''90919293949596979899''"

definition char_plus :: "char \<Rightarrow> nat \<Rightarrow> char" where
  "char_plus c n = char_of ((of_char c :: nat) + n)"

definition write_char :: "int \<Rightarrow> char \<Rightarrow> string \<Rightarrow> string option" where
  "write_char i ch dst = (if 0 \<le> i \<and> i < int (length dst) then Some (dst[nat i := ch]) else None)"

text \<open>\<open>memcpy (c - 1, g_digit_pairs + 2 * r, 2)\<close>\<close>

definition write_pair :: "int \<Rightarrow> nat \<Rightarrow> string \<Rightarrow> string option" where
  "write_pair c r dst =
     (case write_char (c - 1) (g_digit_pairs ! (2 * r)) dst of None \<Rightarrow> None
      | Some dst \<Rightarrow> write_char c (g_digit_pairs ! (2 * r + 1)) dst)"

text \<open>The loop on \<open>x >= 100\<close>, with the number of digits written; then the last one or two digits.\<close>

fun print_pairs :: "nat \<Rightarrow> int \<Rightarrow> nat \<Rightarrow> string \<Rightarrow> (nat \<times> int \<times> nat \<times> string) option" where
  "print_pairs x c digits10 dst =
     (if x < 100 then Some (x, c, digits10, dst)
      else case write_pair c (x mod 100) dst of None \<Rightarrow> None
        | Some dst \<Rightarrow> print_pairs (x div 100) (c - 2) (digits10 + 2) dst)"

declare print_pairs.simps [simp del]

definition print_rest :: "nat \<Rightarrow> int \<Rightarrow> string \<Rightarrow> string option" where
  "print_rest x c dst = (if x < 10 then write_char c (char_plus CHR ''0'' x) dst else write_pair c x dst)"

definition rjust_print_decimal_nonnegative :: "nat \<Rightarrow> nat \<Rightarrow> string \<Rightarrow> (nat \<times> string) option" where
  "rjust_print_decimal_nonnegative x width dst =
     (case print_pairs x (int width - 1) 0 dst of None \<Rightarrow> None
      | Some (x, c, digits10, dst) \<Rightarrow>
          map_option (\<lambda>dst. (digits10 + (if x < 10 then 1 else 2), dst)) (print_rest x c dst))"

text \<open>The unsigned printer writes at \<open>dst + at\<close>; \<open>wide\<close> says whether \<open>T\<close> has 64 bits or 32.\<close>

definition print_decimal_unsigned :: "bool \<Rightarrow> nat \<Rightarrow> nat \<Rightarrow> string \<Rightarrow> (int \<times> string) option" where
  "print_decimal_unsigned wide x at dst =
     (let digits10 = 1 + (if wide then ilog10_floor_64 True (of_nat x) else ilog10_floor_32 True (of_nat x)) in
      case print_pairs x (int at + digits10 - 1) 0 dst of None \<Rightarrow> None
      | Some (x, c, _, dst) \<Rightarrow> map_option (\<lambda>dst. (digits10, dst)) (print_rest x c dst))"

definition type_bits :: "bool \<Rightarrow> nat" where
  "type_bits wide = (if wide then 64 else 32)"

text \<open>
  \<open>x = - x\<close> is an operation on the signed \<open>T\<close>: for its smallest value it overflows, which the
  language leaves undefined (\<open>None\<close>).
\<close>

definition print_decimal_signed :: "bool \<Rightarrow> int \<Rightarrow> string \<Rightarrow> (int \<times> string) option" where
  "print_decimal_signed wide x dst =
     (if x < 0 then
        (if x = - (2 ^ (type_bits wide - 1)) then None
         else case write_char 0 CHR ''-'' dst of None \<Rightarrow> None
         | Some dst \<Rightarrow> map_option (\<lambda>(n, dst). (1 + n, dst)) (print_decimal_unsigned wide (nat (- x)) 1 dst))
      else print_decimal_unsigned wide (nat x) 0 dst)"

section \<open>Parsing\<close>

text \<open>A plain \<open>char\<close> is signed.\<close>

definition char_value :: "char \<Rightarrow> int" where
  "char_value c = narrow 8 (int (of_char c))"

definition parse_decimal_unsigned :: "string \<Rightarrow> 'a::len word" where
  "parse_decimal_unsigned s = foldl (\<lambda>r c. r * 10 + word_of_int (char_value c - char_value CHR ''0'')) 0 s"

text \<open>
  The value read by the unsigned parser converts to the signed \<open>T\<close> modulo its width; \<open>- r_abs\<close>
  is then a signed operation, undefined when \<open>r_abs\<close> is the smallest value of a type at least as
  wide as \<open>int\<close>. \<open>start [0]\<close> of an empty string is outside it.
\<close>

definition parse_decimal_signed :: "string \<Rightarrow> 'a::len word option" where
  "parse_decimal_signed s =
     (if s = [] then None
      else
        let negative = (s ! 0 = CHR ''-'');
            r_abs = parse_decimal_unsigned (if negative then drop 1 s else s)
        in if negative
           then if 32 \<le> LENGTH('a) \<and> r_abs = 2 ^ (LENGTH('a) - 1) then None else Some (- r_abs)
           else Some r_abs)"

fun ltrim :: "char \<Rightarrow> string \<Rightarrow> string" where
  "ltrim blank [] = []"
| "ltrim blank (c # s) = (if c \<noteq> blank then c # s else ltrim blank s)"

definition rtrim :: "char \<Rightarrow> string \<Rightarrow> string" where
  "rtrim blank s = rev (ltrim blank (rev s))"

section \<open>The fraction of a timestamp\<close>

text \<open>\<open>%\<close> truncates towards zero; a negative remainder is converted to \<open>uint64_t\<close>.\<close>

definition print_fraction :: "int \<Rightarrow> nat \<Rightarrow> string option" where
  "print_fraction ts_utc digits_secs =
     (let rem = ts_utc - 1000000000 * (if 0 \<le> ts_utc then ts_utc div 1000000000 else - (- ts_utc div 1000000000)) in
      case rjust_print_decimal_nonnegative (nat (rem mod 2 ^ 64)) 9 (replicate 9 CHR ''0'') of None \<Rightarrow> None
      | Some (_, buf) \<Rightarrow> Some (take (1 + digits_secs) (CHR ''.'' # buf)))"

end
