(* ===== verification/Execution_Manager.thy ===== *)
theory Execution_Manager
  imports Execution_Listener Order_Token Decimal
begin

text \<open>
  The order entry interface of an agent, \<^verbatim>\<open>vr/market/rt/agents/asx/execution_manager.h\<close> and
  \<^verbatim>\<open>.cpp\<close>: it creates, replaces, cancels and erases orders of its execution book, sends requests
  (\<^verbatim>\<open>rt/asx/xl_request.h\<close>) to the execution link through a bounded queue, and follows the login
  protocol. The queue is the list of the requests committed to it; whether an attempt to enqueue
  finds room is the link's doing, so it is a parameter, a predicate on the number of the attempt.
\<close>

section \<open>Requests\<close>

definition DAY :: nat where "DAY = 0"
definition IOC :: nat where "IOC = 3"

datatype xl_request =
    Start_login
  | Submit_order int order_token ord_side int int nat
  | Replace_order int order_token order_token int int
  | Cancel_order int order_token

datatype manager_state = State_start | State_login_barrier | State_running | State_done

record session_context =
  sc_seqnum :: "64 word"
  sc_name :: string

record ex_manager =
  xm_book :: eo_book
  xm_queue :: "xl_request list"
  xm_try :: nat
  xm_state :: manager_state
  xm_partition_mask :: "32 word"
  xm_otk_counter :: "32 word"
  xm_otk_prefix :: "32 word"
  xm_liids :: "int list"
  xm_login_pending :: "32 word"
  xm_sessions :: "session_context list"

section \<open>Starting and logging in\<close>

text \<open>
  \<open>start\<close>: the time of day seeds the token counter; the instruments of the agent are shuffled
  (the permutation is a parameter), and the link's \<open>connect\<close> returned the partitions and
  the token prefix.
\<close>

definition manager_start ::
  "(int list \<Rightarrow> int list) \<Rightarrow> nat \<Rightarrow> int list \<Rightarrow> 32 word \<Rightarrow> 32 word \<Rightarrow> ex_manager \<Rightarrow> ex_manager result" where
  "manager_start shuffle total_seconds liids part_mask prefix M =
     (let M = M\<lparr>xm_otk_counter := max 1 (of_nat total_seconds), xm_liids := shuffle liids,
        xm_partition_mask := part_mask, xm_otk_prefix := prefix\<rparr> in
      if xm_partition_mask M = 0 then Inl Check_failure
      else if xm_otk_counter M = 0 then Inl Check_failure
      else if \<not> xm_otk_prefix M \<le> 0xF then Inl Check_failure
      else Inr M)"

definition login_transition :: "(nat \<Rightarrow> bool) \<Rightarrow> ex_manager \<Rightarrow> ex_manager option" where
  "login_transition room M =
     (case xm_state M of
        State_start \<Rightarrow>
          Some (if room (xm_try M)
            then M\<lparr>xm_try := Suc (xm_try M), xm_queue := xm_queue M @ [Start_login],
              xm_login_pending := xm_partition_mask M, xm_state := State_login_barrier\<rparr>
            else M\<lparr>xm_try := Suc (xm_try M)\<rparr>)
      | State_login_barrier \<Rightarrow> Some (if xm_login_pending M = 0 then M\<lparr>xm_state := State_running\<rparr> else M)
      | _ \<Rightarrow> None)"

text \<open>\<open>None\<close>: the sequence number's text is that of the smallest 64-bit value, which the parser cannot negate.\<close>

definition visit_login_accepted :: "nat \<Rightarrow> string \<Rightarrow> string \<Rightarrow> ex_manager \<Rightarrow> ex_manager result option" where
  "visit_login_accepted pix session seqnum M =
     (if xm_login_pending M AND push_bit pix 1 = 0 then Some (Inl Check_failure)
      else
        let M = M\<lparr>xm_login_pending := xm_login_pending M AND NOT (push_bit pix 1)\<rparr>;
            sc = (xm_sessions M ! pix)\<lparr>sc_name := session\<rparr>;
            msg_seqnum = ltrim CHR '' '' seqnum
        in bind_ro (if msg_seqnum \<noteq> [] then map_option (\<lambda>n. Inr (sc\<lparr>sc_seqnum := n\<rparr>)) (parse_decimal_signed msg_seqnum) else Some (Inr sc))
          (\<lambda>sc. Some (Inr (M\<lparr>xm_sessions := (xm_sessions M)[pix := sc]\<rparr>))))"

definition visit_login_rejected :: "ex_manager \<Rightarrow> ex_manager result" where
  "visit_login_rejected M = Inl Illegal_state"

section \<open>Requests to the link\<close>

text \<open>The loop that attempts to enqueue until there is room; the value is the number of the next attempt.\<close>

partial_function (option) spin_enqueue :: "(nat \<Rightarrow> bool) \<Rightarrow> nat \<Rightarrow> nat option" where
  "spin_enqueue room n = (if room n then Some (Suc n) else spin_enqueue room (Suc n))"

definition enqueue_request :: "(nat \<Rightarrow> bool) \<Rightarrow> xl_request \<Rightarrow> ex_manager \<Rightarrow> ex_manager result option" where
  "enqueue_request room req M =
     bind_ro (lift_o (spin_enqueue room (xm_try M))) (\<lambda>n.
       Some (Inr (M\<lparr>xm_try := n, xm_queue := xm_queue M @ [req]\<rparr>)))"

definition otk_gen :: "ex_manager \<Rightarrow> order_token \<times> ex_manager" where
  "otk_gen M = (make_with_prefix (xm_otk_counter M) (xm_otk_prefix M), M\<lparr>xm_otk_counter := xm_otk_counter M + 1\<rparr>)"

text \<open>A change of an order of the manager's book.\<close>

definition set_my_order :: "ex_env \<Rightarrow> nat \<Rightarrow> (eo_order \<Rightarrow> eo_order) \<Rightarrow> ex_manager \<Rightarrow> ex_manager result option" where
  "set_my_order E r f M = bind_ro (set_order E r f (xm_book M)) (\<lambda>b. Some (Inr (M\<lparr>xm_book := b\<rparr>)))"

section \<open>Orders\<close>

definition submit_order_impl ::
  "ex_env \<Rightarrow> (nat \<Rightarrow> bool) \<Rightarrow> nat \<Rightarrow> int \<Rightarrow> side \<Rightarrow> int \<Rightarrow> int \<Rightarrow> ex_manager \<Rightarrow> (nat \<times> ex_manager) result option" where
  "submit_order_impl E room TIF liid s price qty M =
     (let (otk, M) = otk_gen M in
      bind_ro (create_order E liid otk (xm_book M)) (\<lambda>(r, b).
      bind_ro (set_my_order E r (\<lambda>ord. ord\<lparr>x_price := price, x_qty := qty\<rparr>) (M\<lparr>xm_book := b\<rparr>)) (\<lambda>M.
      bind_ro (set_my_order E r (\<lambda>ord. ord\<lparr>x_state := transition fs_created fp_none\<rparr>) M) (\<lambda>M.
      bind_ro (enqueue_request room (Submit_order liid otk (if s = BID then Buy else Sell) price qty TIF) M) (\<lambda>M.
      bind_ro (set_my_order E r (\<lambda>ord. ord\<lparr>x_state := fsm_mark fp_submit (x_state ord)\<rparr>) M) (\<lambda>M.
        Some (Inr (r, M))))))))"

definition submit_limit_order ::
  "ex_env \<Rightarrow> (nat \<Rightarrow> bool) \<Rightarrow> int \<Rightarrow> side \<Rightarrow> int \<Rightarrow> int \<Rightarrow> ex_manager \<Rightarrow> (nat \<times> ex_manager) result option" where
  "submit_limit_order E room liid s price qty M = submit_order_impl E room DAY liid s price qty M"

definition submit_IOC_order ::
  "ex_env \<Rightarrow> (nat \<Rightarrow> bool) \<Rightarrow> int \<Rightarrow> side \<Rightarrow> int \<Rightarrow> int \<Rightarrow> ex_manager \<Rightarrow> (nat \<times> ex_manager) result option" where
  "submit_IOC_order E room liid s price qty M = submit_order_impl E room IOC liid s price qty M"

definition modify_order_impl :: "ex_env \<Rightarrow> (nat \<Rightarrow> bool) \<Rightarrow> nat \<Rightarrow> int \<Rightarrow> int \<Rightarrow> ex_manager \<Rightarrow> ex_manager result option" where
  "modify_order_impl E room r price qty M =
     (let (new_otk, M) = otk_gen M in
      bind_ro (alias_order E r new_otk (xm_book M)) (\<lambda>b.
      bind_ro (pool_get (xe_pool E) False r (eo_pool b)) (\<lambda>ord.
      bind_ro (enqueue_request room (Replace_order (x_liid ord) (x_otk ord) new_otk price qty) (M\<lparr>xm_book := b\<rparr>)) (\<lambda>M.
        set_my_order E r (\<lambda>ord. ord\<lparr>x_state := fsm_mark fp_replace (x_state ord)\<rparr>) M))))"

definition cancel_order_impl :: "ex_env \<Rightarrow> (nat \<Rightarrow> bool) \<Rightarrow> nat \<Rightarrow> ex_manager \<Rightarrow> ex_manager result option" where
  "cancel_order_impl E room r M =
     bind_ro (pool_get (xe_pool E) False r (eo_pool (xm_book M))) (\<lambda>ord.
     bind_ro (enqueue_request room (Cancel_order (x_liid ord) (x_otk ord)) M) (\<lambda>M.
       set_my_order E r (\<lambda>ord. ord\<lparr>x_state := fsm_mark fp_cancel (x_state ord)\<rparr>) M))"

definition erase_order_impl :: "ex_env \<Rightarrow> nat \<Rightarrow> ex_manager \<Rightarrow> ex_manager result option" where
  "erase_order_impl E r M = bind_ro (erase_order E r (xm_book M)) (\<lambda>b. Some (Inr (M\<lparr>xm_book := b\<rparr>)))"

text \<open>
  The versions that look the order up by a token: \<open>assert_nonnull\<close> is compiled out of a release
  build, so a token that is not in the book dereferences a null pointer.
\<close>

definition with_token :: "ex_env \<Rightarrow> order_token \<Rightarrow> (nat \<Rightarrow> ex_manager \<Rightarrow> 'r result option) \<Rightarrow> ex_manager \<Rightarrow> 'r result option" where
  "with_token E otk f M =
     bind_ro (lift_o (ex_find_order E otk (xm_book M))) (\<lambda>o_ptr. case o_ptr of None \<Rightarrow> None | Some r \<Rightarrow> f r M)"

definition modify_order :: "ex_env \<Rightarrow> (nat \<Rightarrow> bool) \<Rightarrow> order_token \<Rightarrow> int \<Rightarrow> int \<Rightarrow> ex_manager \<Rightarrow> ex_manager result option" where
  "modify_order E room otk price qty M = with_token E otk (\<lambda>r M. modify_order_impl E room r price qty M) M"

definition cancel_order :: "ex_env \<Rightarrow> (nat \<Rightarrow> bool) \<Rightarrow> order_token \<Rightarrow> ex_manager \<Rightarrow> ex_manager result option" where
  "cancel_order E room otk M = with_token E otk (cancel_order_impl E room) M"

definition manager_erase_order :: "ex_env \<Rightarrow> order_token \<Rightarrow> ex_manager \<Rightarrow> ex_manager result option" where
  "manager_erase_order E otk M = with_token E otk (erase_order_impl E) M"

section \<open>An agent's actions and what reaches it\<close>

datatype agent_event =
    Submit nat int side int int
  | Modify order_token int int
  | Cancel order_token
  | Erase order_token
  | Receive ouch_msg

primrec agent_step :: "ex_env \<Rightarrow> (nat \<Rightarrow> bool) \<Rightarrow> agent_event \<Rightarrow> ex_manager \<Rightarrow> ex_manager result option" where
  "agent_step E room (Submit TIF liid s price qty) M =
     bind_ro (submit_order_impl E room TIF liid s price qty M) (\<lambda>(_, M). Some (Inr M))"
| "agent_step E room (Modify otk price qty) M = modify_order E room otk price qty M"
| "agent_step E room (Cancel otk) M = cancel_order E room otk M"
| "agent_step E room (Erase otk) M = manager_erase_order E otk M"
| "agent_step E room (Receive msg) M = bind_ro (visit_ouch E msg (xm_book M)) (\<lambda>b. Some (Inr (M\<lparr>xm_book := b\<rparr>)))"

section \<open>The specification\<close>

text \<open>
  What an agent can observe: under every token the order that has it (without the place it
  is kept in), the requests sent so far, and the token counter.
\<close>

record agent_view =
  av_orders :: "order_token xbook"
  av_sent :: "xl_request list"
  av_counter :: "32 word"

text \<open>One order changes under all its tokens.\<close>

definition change_order :: "eo_order \<Rightarrow> (eo_order \<Rightarrow> eo_order) \<Rightarrow> order_token xbook \<Rightarrow> order_token xbook" where
  "change_order ord f P = (\<lambda>t. map_option (\<lambda>ord'. if x_otk ord' = x_otk ord then f ord' else ord') (P t))"

definition sent_order :: "int \<Rightarrow> order_token \<Rightarrow> int \<Rightarrow> int \<Rightarrow> eo_order" where
  "sent_order liid otk price qty =
     fresh_order\<lparr>x_liid := liid, x_otk := otk, x_price := price, x_qty := qty, x_state := fs_created OR fp_submit\<rparr>"

primrec spec_agent :: "32 word \<Rightarrow> agent_event \<Rightarrow> agent_view \<Rightarrow> agent_view" where
  "spec_agent prefix (Submit TIF liid s price qty) V =
     (let otk = make_with_prefix (av_counter V) prefix in
      V\<lparr>av_orders := (av_orders V)(otk \<mapsto> sent_order liid otk price qty),
        av_sent := av_sent V @ [Submit_order liid otk (if s = BID then Buy else Sell) price qty TIF],
        av_counter := av_counter V + 1\<rparr>)"
| "spec_agent prefix (Modify t price qty) V =
     (case av_orders V t of None \<Rightarrow> V
      | Some ord \<Rightarrow>
          let new = make_with_prefix (av_counter V) prefix;
              f = (\<lambda>ord. ord\<lparr>x_history := push_token new (x_history ord), x_state := x_state ord OR fp_replace\<rparr>)
          in V\<lparr>av_orders := (change_order ord f (av_orders V))(new \<mapsto> f ord),
               av_sent := av_sent V @ [Replace_order (x_liid ord) (x_otk ord) new price qty],
               av_counter := av_counter V + 1\<rparr>)"
| "spec_agent prefix (Cancel t) V =
     (case av_orders V t of None \<Rightarrow> V
      | Some ord \<Rightarrow>
          V\<lparr>av_orders := change_order ord (\<lambda>ord. ord\<lparr>x_state := x_state ord OR fp_cancel\<rparr>) (av_orders V),
            av_sent := av_sent V @ [Cancel_order (x_liid ord) (x_otk ord)]\<rparr>)"
| "spec_agent prefix (Erase t) V =
     (case av_orders V t of None \<Rightarrow> V
      | Some ord \<Rightarrow> V\<lparr>av_orders := (\<lambda>t'. if t' \<in> tokens ord then None else av_orders V t')\<rparr>)"
| "spec_agent prefix (Receive msg) V = V\<lparr>av_orders := spec_ouch msg (av_orders V)\<rparr>"

text \<open>
  An action names an order of the book, and a new token needs a counter below the prefix
  digit.
\<close>

primrec agent_allows :: "agent_event \<Rightarrow> agent_view \<Rightarrow> bool" where
  "agent_allows (Submit TIF liid s price qty) V \<longleftrightarrow> av_counter V < 2 ^ 28"
| "agent_allows (Modify t price qty) V \<longleftrightarrow> av_counter V < 2 ^ 28 \<and> av_orders V t \<noteq> None"
| "agent_allows (Cancel t) V \<longleftrightarrow> av_orders V t \<noteq> None"
| "agent_allows (Erase t) V \<longleftrightarrow> av_orders V t \<noteq> None"
| "agent_allows (Receive msg) V \<longleftrightarrow> ouch_allows msg (av_orders V)"

text \<open>What stops it: exhausted storage, or an order that may not be erased yet.\<close>

primrec agent_stops :: "ex_env \<Rightarrow> agent_event \<Rightarrow> ex_manager \<Rightarrow> bool" where
  "agent_stops E (Submit TIF liid s price qty) M \<longleftrightarrow> pool_full (xe_pool E) (eo_pool (xm_book M)) \<or>
     put_fails (xe_otk_traits E) (eo_otk_map (xm_book M)) (fst (otk_gen M))"
| "agent_stops E (Modify t price qty) M \<longleftrightarrow> put_fails (xe_otk_traits E) (eo_otk_map (xm_book M)) (fst (otk_gen M))"
| "agent_stops E (Cancel t) M \<longleftrightarrow> False"
| "agent_stops E (Erase t) M \<longleftrightarrow> (\<exists>r ord. xorders E (xm_book M) r = Some ord \<and> t \<in> tokens ord \<and>
     (pending_state (x_state ord) \<noteq> 0 \<or> order_state (x_state ord) = fs_live))"
| "agent_stops E (Receive msg) M \<longleftrightarrow> ouch_exhausts E msg (xm_book M)"

end
