(* ===== verification/Execution_Sim.thy ===== *)
theory Execution_Sim
  imports Execution_Listener
begin

text \<open>
  The listener as a simulation of the order entry protocol: every message changes exactly the
  orders it addresses, as the protocol says, and keeps the invariant of the book.
\<close>

section \<open>Lookups and changes\<close>

lemma spec_ouch_none:
  assumes "\<And>r ord. A r = Some ord \<Longrightarrow> \<not> addresses msg ord"
  shows "spec_ouch msg A = A"
proof
  fix r
  show "spec_ouch msg A r = A r" using assms [of r] by (cases "A r") (simp_all add: spec_ouch_def)
qed

lemma spec_ouch_one:
  assumes "A r = Some ord" "addresses msg ord" "\<And>r' ord. A r' = Some ord \<Longrightarrow> addresses msg ord \<Longrightarrow> r' = r"
  shows "spec_ouch msg A = A(r \<mapsto> order_after msg ord)"
proof
  fix r'
  show "spec_ouch msg A r' = (A(r \<mapsto> order_after msg ord)) r'"
  proof (cases "r' = r")
    case False
    with assms(3) [of r'] show ?thesis by (cases "A r'") (auto simp: spec_ouch_def)
  qed (use assms(1,2) in \<open>simp add: spec_ouch_def\<close>)
qed

text \<open>The order a token or an id names.\<close>

lemma token_lookup:
  assumes "ex_inv E b"
  obtains (miss) "cst_get (xe_otk_traits E) (eo_otk_map b) k = Some None" "\<And>r ord. xorders E b r = Some ord \<Longrightarrow> k \<notin> tokens ord"
  | (hit) r ord where "cst_get (xe_otk_traits E) (eo_otk_map b) k = Some (Some r)" "xorders E b r = Some ord" "k \<in> tokens ord"
      "\<And>r' ord'. xorders E b r' = Some ord' \<Longrightarrow> k \<in> tokens ord' \<Longrightarrow> r' = r"
      "pool_get (xe_pool E) False r (eo_pool b) = Some (Inr ord)"
proof (cases "cst_map (eo_otk_map b) k")
  case None
  with cst.get_law [OF ex_otks [OF assms]] ex_token_None [OF assms, of k] miss show ?thesis by auto
next
  case (Some r)
  then obtain ord where ord: "xorders E b r = Some ord" "k \<in> tokens ord" using ex_tokens [OF assms, of k r] by blast
  show ?thesis
    by (rule hit [OF _ ord ex_token_unique [OF assms _ ord(1) _ ord(2)] pool_get_spec [OF ex_pool [OF assms] ord(1)]])
      (simp_all add: Some cst.get_law [OF ex_otks [OF assms]])
qed

lemma id_lookup:
  assumes "ex_inv E b"
  obtains (miss) "cst_get (xe_oid_traits E) (eo_oid_map b) i = Some None" "\<And>r ord. xorders E b r = Some ord \<Longrightarrow> x_oid ord \<noteq> i \<or> i = 0"
  | (hit) r ord where "cst_get (xe_oid_traits E) (eo_oid_map b) i = Some (Some r)" "xorders E b r = Some ord" "x_oid ord = i" "i \<noteq> 0"
      "\<And>r' ord'. xorders E b r' = Some ord' \<Longrightarrow> x_oid ord' = i \<Longrightarrow> r' = r"
      "pool_get (xe_pool E) False r (eo_pool b) = Some (Inr ord)"
proof (cases "cst_map (eo_oid_map b) i")
  case None
  with cst.get_law [OF ex_oids [OF assms]] ex_id_None [OF assms, of i] miss show ?thesis by auto
next
  case (Some r)
  then obtain ord where ord: "xorders E b r = Some ord" "x_oid ord = i" "i \<noteq> 0" using ex_ids [OF assms, of i r] by blast
  show ?thesis
    by (rule hit [OF _ ord ex_id_unique [OF assms _ ord(1)] pool_get_spec [OF ex_pool [OF assms] ord(1)]])
      (use ord(2,3) in \<open>auto simp: Some cst.get_law [OF ex_oids [OF assms]]\<close>)
qed

lemma set_order_ok:
  assumes "ex_inv E b" "xorders E b r = Some ord" "tokens (f ord) = tokens ord" "x_oid (f ord) = x_oid ord" "x_loid (f ord) = x_loid ord"
    and "order_state (x_state (f ord)) = fs_created \<Longrightarrow> order_state (x_state ord) = fs_created \<or> x_oid ord = 0"
  obtains b' where "set_order E r f b = Some (Inr b')" "ex_inv E b'" "xorders E b' = (xorders E b)(r \<mapsto> f ord)"
proof -
  obtain p where p: "pool_modify (xe_pool E) r f (eo_pool b) = Some p" "ex_inv E (b\<lparr>eo_pool := p\<rparr>)"
    "xorders E (b\<lparr>eo_pool := p\<rparr>) = (xorders E b)(r \<mapsto> f ord)"
    by (rule modify_order_ok [of E b r ord f, OF assms])
  show ?thesis by (rule that [of "b\<lparr>eo_pool := p\<rparr>"]) (use p in \<open>simp_all add: set_order_def\<close>)
qed

text \<open>Two changes in a row.\<close>

lemma set_order_twice:
  assumes "ex_inv E b" "xorders E b r = Some ord"
    and "tokens (f ord) = tokens ord" "x_oid (f ord) = x_oid ord" "x_loid (f ord) = x_loid ord"
    and "order_state (x_state (f ord)) = fs_created \<Longrightarrow> order_state (x_state ord) = fs_created \<or> x_oid ord = 0"
    and "tokens (g (f ord)) = tokens ord" "x_oid (g (f ord)) = x_oid ord" "x_loid (g (f ord)) = x_loid ord"
    and "order_state (x_state (g (f ord))) = fs_created \<Longrightarrow> order_state (x_state (f ord)) = fs_created \<or> x_oid ord = 0"
  obtains b' where "bind_ro (set_order E r f b) (set_order E r g) = Some (Inr b')" "ex_inv E b'"
    "xorders E b' = (xorders E b)(r \<mapsto> g (f ord))"
proof -
  obtain b1 where b1: "set_order E r f b = Some (Inr b1)" "ex_inv E b1" "xorders E b1 = (xorders E b)(r \<mapsto> f ord)"
    by (rule set_order_ok [of E b r ord f, OF assms(1-6)])
  have r: "xorders E b1 r = Some (f ord)" by (simp add: b1(3))
  obtain b2 where "set_order E r g b1 = Some (Inr b2)" "ex_inv E b2" "xorders E b2 = (xorders E b1)(r \<mapsto> g (f ord))"
    by (rule set_order_ok [of E b1 r "f ord" g, OF b1(2) r]) (simp_all add: assms)
  with b1 that show ?thesis by simp
qed

text \<open>The facts that decide whether a change is one of the admissible ones.\<close>

lemma tokens_upd [simp]:
  "tokens (ord\<lparr>x_state := s\<rparr>) = tokens ord" "tokens (ord\<lparr>x_reject_code := c\<rparr>) = tokens ord" "tokens (ord\<lparr>x_cancel_code := c\<rparr>) = tokens ord"
  "tokens (ord\<lparr>x_price := p\<rparr>) = tokens ord" "tokens (ord\<lparr>x_qty := q\<rparr>) = tokens ord" "tokens (ord\<lparr>x_oid := i\<rparr>) = tokens ord"
  "tokens (ord\<lparr>x_error := e\<rparr>) = tokens ord" "tokens (ord\<lparr>x_price := p, x_qty := q\<rparr>) = tokens ord"
  "tokens (ord\<lparr>x_state := s, x_cancel_code := c\<rparr>) = tokens ord" "tokens (fsm_error_transition n ord) = tokens ord"
  by (simp_all add: tokens_def fsm_error_transition_def)

lemma error_transition_upd [simp]:
  "x_oid (fsm_error_transition n ord) = x_oid ord" "x_loid (fsm_error_transition n ord) = x_loid ord"
  "x_state (fsm_error_transition n ord) = error_transition (x_state ord)"
  by (simp_all add: fsm_error_transition_def)

lemma order_states [simp]:
  "order_state fs_live = fs_live" "order_state fs_done = fs_done" "order_state off_book = fs_done" "order_state (fs_created OR fp_submit) = fs_created"
  "order_state (fs_live OR fp_replace) = fs_live" "order_state (fs_live OR fp_cancel) = fs_live"
  by (simp_all add: fsm_names fsm_ops off_book_def)

lemma distinct_states [simp]:
  "fs_live \<noteq> fs_created" "fs_done \<noteq> fs_created" "fs_ERROR \<noteq> fs_created" "fs_live \<noteq> fs_done" "fs_ERROR \<noteq> fs_live" "fs_ERROR \<noteq> fs_done"
  "fs_created \<noteq> fs_live" "fs_created \<noteq> fs_done" "fs_created \<noteq> fs_ERROR" "fs_done \<noteq> fs_live" "fs_live \<noteq> fs_ERROR" "fs_done \<noteq> fs_ERROR"
  by (simp_all add: fsm_names)

lemma transitions [simp]:
  "transition fs_live fp_none = fs_live" "transition fs_done fp_none = fs_done" "transition fs_done fp_finalize = off_book"
  "fsm_clear fp_replace (fs_live OR fp_replace) = fs_live" "fsm_clear fp_cancel (fs_live OR fp_cancel) = fs_live"
  by (simp_all add: fsm_names fsm_ops off_book_def)

section \<open>The visits\<close>

lemma rejected_sim:
  assumes inv: "ex_inv E b"
  shows "\<exists>b'. visit_order_rejected E m b = Some (Inr b') \<and> ex_inv E b' \<and> xorders E b' = spec_ouch (Order_rejected m) (xorders E b)"
proof (cases rule: token_lookup [OF inv, of "uj_otk m", case_names miss hit])
  case miss
  then have "spec_ouch (Order_rejected m) (xorders E b) = xorders E b" by (intro spec_ouch_none) simp
  with miss inv show ?thesis by (simp add: visit_order_rejected_def)
next
  case (hit r ord)
  let ?o1 = "ord\<lparr>x_reject_code := uj_reject_code m\<rparr>"
  obtain b1 where b1: "set_order E r (\<lambda>ord. ord\<lparr>x_reject_code := uj_reject_code m\<rparr>) b = Some (Inr b1)" "ex_inv E b1"
    "xorders E b1 = (xorders E b)(r \<mapsto> ?o1)"
    by (rule set_order_ok [of E b r ord "\<lambda>ord. ord\<lparr>x_reject_code := uj_reject_code m\<rparr>", OF inv hit(2)]) simp_all
  have r1: "xorders E b1 r = Some ?o1" by (simp add: b1(3))
  have g: "pool_get (xe_pool E) False r (eo_pool b1) = Some (Inr ?o1)" by (rule pool_get_spec [OF ex_pool [OF b1(2)] r1])
  have spec: "spec_ouch (Order_rejected m) (xorders E b) = (xorders E b)(r \<mapsto> order_after (Order_rejected m) ord)"
    by (rule spec_ouch_one [of "xorders E b" r ord, OF hit(2)]) (use hit(3,4) in auto)
  define f where "f = (if x_state ord = fs_created OR fp_submit then (\<lambda>ord. ord\<lparr>x_state := transition fs_done fp_none\<rparr>)
    else if x_state ord = fs_live OR fp_replace then (\<lambda>ord. ord\<lparr>x_state := fsm_clear fp_replace (x_state ord)\<rparr>)
    else if x_state ord = fs_live OR fp_cancel then (\<lambda>ord. ord\<lparr>x_state := fsm_clear fp_cancel (x_state ord)\<rparr>)
    else fsm_error_transition 206)"
  have f: "f ?o1 = order_after (Order_rejected m) ord" by (simp add: f_def Let_def awaits_accept_def)
  have k: "tokens (f ?o1) = tokens ?o1" "x_oid (f ?o1) = x_oid ?o1" "x_loid (f ?o1) = x_loid ?o1"
    "order_state (x_state (f ?o1)) = fs_created \<Longrightarrow> order_state (x_state ?o1) = fs_created \<or> x_oid ?o1 = 0"
    by (simp_all add: f_def split: if_splits)
  obtain b2 where b2: "set_order E r f b1 = Some (Inr b2)" "ex_inv E b2" "xorders E b2 = (xorders E b1)(r \<mapsto> f ?o1)"
    by (rule set_order_ok [of E b1 r ?o1 f, OF b1(2) r1 k])
  have "visit_order_rejected E m b = set_order E r f b1"
    using hit(1) b1(1) g by (simp add: visit_order_rejected_def f_def)
  with b2 f spec b1(3) show ?thesis by simp
qed

lemma canceled_sim:
  assumes inv: "ex_inv E b"
  shows "\<exists>b'. visit_order_canceled E m b = Some (Inr b') \<and> ex_inv E b' \<and> xorders E b' = spec_ouch (Order_canceled m) (xorders E b)"
proof (cases rule: id_lookup [OF inv, of "uc_oid m", case_names miss hit])
  case miss
  then have "spec_ouch (Order_canceled m) (xorders E b) = xorders E b" by (intro spec_ouch_none) auto
  with miss inv show ?thesis by (simp add: visit_order_canceled_def)
next
  case (hit r ord)
  have spec: "spec_ouch (Order_canceled m) (xorders E b) = (xorders E b)(r \<mapsto> order_after (Order_canceled m) ord)"
    by (rule spec_ouch_one [of "xorders E b" r ord, OF hit(2)]) (use hit(3,4,5) in auto)
  let ?f = "\<lambda>ord. ord\<lparr>x_state := transition fs_done fp_none\<rparr>" and ?g = "\<lambda>ord. ord\<lparr>x_cancel_code := uc_cancel_code m\<rparr>"
  show ?thesis
  proof (cases "is_live ord")
    case True
    then have l: "order_state (x_state ord) = fs_live" by (simp add: is_live_def)
    obtain b' where "bind_ro (set_order E r ?f b) (set_order E r ?g) = Some (Inr b')" "ex_inv E b'"
      "xorders E b' = (xorders E b)(r \<mapsto> ?g (?f ord))"
      by (rule set_order_twice [of E b r ord ?f ?g, OF inv hit(2)]) simp_all
    with hit(1,6) l True spec show ?thesis by (simp add: visit_order_canceled_def)
  next
    case False
    then have l: "order_state (x_state ord) \<noteq> fs_live" by (simp add: is_live_def)
    obtain b1 where b1: "set_order E r (fsm_error_transition 345) b = Some (Inr b1)" "ex_inv E b1"
      "xorders E b1 = (xorders E b)(r \<mapsto> fsm_error_transition 345 ord)"
      by (rule set_order_ok [of E b r ord "fsm_error_transition 345", OF inv hit(2)]) simp_all
    with hit(1,6) l False spec show ?thesis by (simp add: visit_order_canceled_def)
  qed
qed

lemma replaced_sim:
  assumes inv: "ex_inv E b"
  shows "\<exists>b'. visit_order_replaced E m b = Some (Inr b') \<and> ex_inv E b' \<and> xorders E b' = spec_ouch (Order_replaced m) (xorders E b)"
proof (cases rule: id_lookup [OF inv, of "ou_oid m", case_names miss hit])
  case miss
  then have "spec_ouch (Order_replaced m) (xorders E b) = xorders E b" by (intro spec_ouch_none) auto
  with miss inv show ?thesis by (simp add: visit_order_replaced_def)
next
  case (hit r ord)
  have spec: "spec_ouch (Order_replaced m) (xorders E b) = (xorders E b)(r \<mapsto> order_after (Order_replaced m) ord)"
    by (rule spec_ouch_one [of "xorders E b" r ord, OF hit(2)]) (use hit(3,4,5) in auto)
  have same: "(xorders E b)(r \<mapsto> ord) = xorders E b" using hit(2) by (rule map_upd_triv)
  let ?f = "\<lambda>ord. ord\<lparr>x_price := wire_to_book (ou_price m), x_qty := ou_qty m\<rparr>" and ?g = "\<lambda>ord. ord\<lparr>x_state := transition fs_live fp_none\<rparr>"
  have one: "\<exists>b'. set_order E r h b = Some (Inr b') \<and> ex_inv E b' \<and> xorders E b' = (xorders E b)(r \<mapsto> h ord)"
    if "h = fsm_error_transition 286 \<or> h = (\<lambda>ord. ord\<lparr>x_state := transition fs_done fp_finalize\<rparr>)" for h
    by (rule set_order_ok [of E b r ord h, OF inv hit(2)]) (use that in auto)
  show ?thesis
  proof (cases "is_live ord")
    case True
    then have l: "order_state (x_state ord) = fs_live" by (simp add: is_live_def)
    show ?thesis
    proof (cases "ou_state m = os_LIVE")
      case True
      obtain b' where "bind_ro (set_order E r ?f b) (set_order E r ?g) = Some (Inr b')" "ex_inv E b'"
        "xorders E b' = (xorders E b)(r \<mapsto> ?g (?f ord))"
        by (rule set_order_twice [of E b r ord ?f ?g, OF inv hit(2)]) simp_all
      with hit(1,6) l True spec show ?thesis by (simp add: visit_order_replaced_def is_live_def)
    next
      case False
      with hit(1,6) l spec one [of "\<lambda>ord. ord\<lparr>x_state := transition fs_done fp_finalize\<rparr>"] inv same show ?thesis
        by (cases "ou_state m = os_NOT_ON_BOOK") (simp_all add: visit_order_replaced_def is_live_def)
    qed
  next
    case False
    with one [of "fsm_error_transition 286"] hit(1,6) spec show ?thesis by (simp add: visit_order_replaced_def is_live_def)
  qed
qed


lemma accepted_sim:
  assumes inv: "ex_inv E b" and ok: "ouch_allows (Order_accepted m) (xorders E b)"
  shows "(ouch_exhausts E (Order_accepted m) b \<and> (\<exists>e. visit_order_accepted E m b = Some (Inl e))) \<or>
    (\<exists>b'. visit_order_accepted E m b = Some (Inr b') \<and> ex_inv E b' \<and> xorders E b' = spec_ouch (Order_accepted m) (xorders E b))"
proof (cases rule: token_lookup [OF inv, of "ou_otk m", case_names miss hit])
  case miss
  then have "spec_ouch (Order_accepted m) (xorders E b) = xorders E b" by (intro spec_ouch_none) simp
  with miss inv show ?thesis by (simp add: visit_order_accepted_def)
next
  case (hit r ord)
  have spec: "spec_ouch (Order_accepted m) (xorders E b) = (xorders E b)(r \<mapsto> order_after (Order_accepted m) ord)"
    by (rule spec_ouch_one [of "xorders E b" r ord, OF hit(2)]) (use hit(3,4) in auto)
  show ?thesis
  proof (cases "awaits_accept ord")
    case False
    obtain b1 where "set_order E r (fsm_error_transition 129) b = Some (Inr b1)" "ex_inv E b1"
      "xorders E b1 = (xorders E b)(r \<mapsto> fsm_error_transition 129 ord)"
      by (rule set_order_ok [of E b r ord "fsm_error_transition 129", OF inv hit(2)]) simp_all
    with hit(1,5) False spec show ?thesis by (simp add: visit_order_accepted_def awaits_accept_def)
  next
    case True
    then have st: "x_state ord = fs_created OR fp_submit" by (simp add: awaits_accept_def)
    let ?f = "\<lambda>ord. ord\<lparr>x_oid := ou_oid m\<rparr>"
    let ?s = "if ou_state m = os_LIVE then transition fs_live fp_none else transition fs_done fp_finalize"
    let ?g = "\<lambda>ord. ord\<lparr>x_state := ?s\<rparr>"
    obtain p1 where p1: "pool_modify (xe_pool E) r ?f (eo_pool b) = Some p1" "pool_inv (xe_pool E) p1"
      "objs (xe_pool E) p1 = (xorders E b)(r \<mapsto> ?f ord)"
      using pool.upd_law [OF ex_pool [OF inv] hit(2)] by blast
    have s1: "set_order E r ?f b = Some (Inr (b\<lparr>eo_pool := p1\<rparr>))" by (simp add: set_order_def p1(1))
    show ?thesis
    proof (cases "put_fails (xe_oid_traits E) (eo_oid_map b) (ou_oid m)")
      case True
      with cst.put_refused [OF ex_oids [OF inv] True, of r] hit(1,5) st s1 show ?thesis
        by (auto simp: visit_order_accepted_def)
    next
      case False
      obtain oids where oids: "cst_put (xe_oid_traits E) (ou_oid m) r (eo_oid_map b) = Some (Inr oids)" "cst_inv (xe_oid_traits E) oids"
        "cst_map oids = (cst_map (eo_oid_map b))(ou_oid m \<mapsto> r)"
        using cst.put_law [OF ex_oids [OF inv] False] by blast
      have "objs (xe_pool E) p1 r = Some (?f ord)" by (simp add: p1(3))
      then obtain p2 where p2: "pool_modify (xe_pool E) r ?g p1 = Some p2" "pool_inv (xe_pool E) p2"
        "objs (xe_pool E) p2 = (objs (xe_pool E) p1)(r \<mapsto> ?g (?f ord))"
        using pool.upd_law [OF p1(2)] by blast
      let ?b' = "b\<lparr>eo_pool := p2, eo_oid_map := oids\<rparr>"
      have A: "objs (xe_pool E) p2 = (xorders E b)(r \<mapsto> ?g (?f ord))" using p2(3) p1(3) by simp
      have run: "visit_order_accepted E m b = Some (Inr ?b')"
        using hit(1,5) st s1 oids(1) p2(1) ok
        by (cases "ou_state m = os_LIVE") (simp_all add: visit_order_accepted_def set_order_def)
      have old: "x_oid ord = 0" "x_loid ord = r" using ex_orders [OF inv] hit(2) st by (simp_all add: orders_ok_def)
      have new: "ou_oid m \<noteq> 0" "cst_map (eo_oid_map b) (ou_oid m) = None"
        using ok ex_id_None [OF inv, of "ou_oid m"] by (auto simp: new_exchange_id_def)
      have "orders_ok ((xorders E b)(r \<mapsto> ?g (?f ord)))" using ex_orders [OF inv] old by (simp add: orders_ok_def)
      moreover have "tokens (?g (?f ord)) = tokens ord" by (simp add: tokens_def)
      ultimately have "ex_inv E ?b'"
        using inv p2(2) oids(2) token_table_same [OF ex_tt [OF inv] hit(2), of "?g (?f ord)"]
          oid_table_assign [OF ex_it [OF inv] hit(2) old(1) new(2,1), of "?g (?f ord)"]
        by (simp add: ex_inv_def A oids(3))
      moreover have "?g (?f ord) = order_after (Order_accepted m) ord" using True \<open>awaits_accept ord\<close> by simp
      ultimately show ?thesis using run A spec by simp
    qed
  qed
qed

section \<open>The simulation\<close>

interpretation ouch: simulation "ex_inv E" "xorders E" "visit_ouch E" spec_ouch ouch_allows "ouch_exhausts E"
  for E :: ex_env
proof
  fix b m assume "ex_inv E b" "ouch_allows m (xorders E b)"
  then show "(ouch_exhausts E m b \<and> (\<exists>e. visit_ouch E m b = Some (Inl e))) \<or>
    (\<exists>b'. visit_ouch E m b = Some (Inr b') \<and> ex_inv E b' \<and> xorders E b' = spec_ouch m (xorders E b))"
    using accepted_sim rejected_sim replaced_sim canceled_sim
    by (cases m) (simp_all add: visit_order_execution_def spec_ouch_none)
qed

end
