(* ===== verification/Manager_Inv.thy ===== *)
theory Manager_Inv
  imports Execution_Manager Execution_Sim
begin

text \<open>
  What an agent can observe of its execution manager, how changes of the book look from there,
  and the manager's invariant: every token in the book comes from a counter below the current one.
\<close>

section \<open>Orders under their tokens\<close>

definition norm_order :: "eo_order \<Rightarrow> eo_order" where
  "norm_order ord = ord\<lparr>x_loid := 0\<rparr>"

definition portfolio :: "ex_env \<Rightarrow> eo_book \<Rightarrow> order_token xbook" where
  "portfolio E b t =
     (case cst_map (eo_otk_map b) t of None \<Rightarrow> None | Some r \<Rightarrow> map_option norm_order (xorders E b r))"

definition manager_view :: "ex_env \<Rightarrow> ex_manager \<Rightarrow> agent_view" where
  "manager_view E M = \<lparr>av_orders = portfolio E (xm_book M), av_sent = xm_queue M, av_counter = xm_otk_counter M\<rparr>"

lemma norm_order_simps [simp]:
  "x_state (norm_order ord) = x_state ord" "x_otk (norm_order ord) = x_otk ord" "x_oid (norm_order ord) = x_oid ord"
  "x_liid (norm_order ord) = x_liid ord" "x_history (norm_order ord) = x_history ord" "x_price (norm_order ord) = x_price ord"
  "x_qty (norm_order ord) = x_qty ord" "tokens (norm_order ord) = tokens ord" "norm_order (norm_order ord) = norm_order ord"
  by (simp_all add: norm_order_def tokens_def)

lemma otk_in_tokens [simp]: "x_otk ord \<in> tokens ord"
  by (simp add: tokens_def)

lemma portfolio_at:
  assumes "ex_inv E b" "xorders E b r = Some ord" "t \<in> tokens ord"
  shows "portfolio E b t = Some (norm_order ord)"
proof -
  have "cst_map (eo_otk_map b) t = Some r" using ex_tokens [OF assms(1), of t r] assms(2,3) by blast
  with assms(2) show ?thesis by (simp add: portfolio_def)
qed

lemma portfolio_miss:
  assumes "ex_inv E b" "\<And>r ord. xorders E b r = Some ord \<Longrightarrow> t \<notin> tokens ord"
  shows "portfolio E b t = None"
  using ex_token_None [OF assms(1), of t] assms(2) by (simp add: portfolio_def)

lemma portfolio_cases:
  assumes "ex_inv E b"
  obtains (hit) r ord where "xorders E b r = Some ord" "t \<in> tokens ord" "portfolio E b t = Some (norm_order ord)"
  | (miss) "\<And>r ord. xorders E b r = Some ord \<Longrightarrow> t \<notin> tokens ord" "portfolio E b t = None"
proof (cases "\<exists>r ord. xorders E b r = Some ord \<and> t \<in> tokens ord")
  case True
  then obtain r ord where ord: "xorders E b r = Some ord" "t \<in> tokens ord" by blast
  show ?thesis by (rule hit [OF ord portfolio_at [OF assms ord]])
next
  case False
  then have none: "t \<notin> tokens ord" if "xorders E b r = Some ord" for r ord using that by blast
  show ?thesis by (rule miss [OF none portfolio_miss [OF assms none]])
qed

lemma portfolio_None:
  assumes "ex_inv E b"
  shows "portfolio E b t = None \<longleftrightarrow> cst_map (eo_otk_map b) t = None"
  by (cases rule: portfolio_cases [OF assms, of t, case_names hit miss]) (use ex_token_None [OF assms, of t] in auto)

section \<open>Changes of the book\<close>

lemma portfolio_map:
  assumes inv: "ex_inv E b" "ex_inv E b'" and A: "xorders E b' = (\<lambda>r. map_option g (xorders E b r))"
    and g: "\<And>r ord. xorders E b r = Some ord \<Longrightarrow> tokens (g ord) = tokens ord" "\<And>ord. g (norm_order ord) = norm_order (g ord)"
  shows "portfolio E b' = (\<lambda>t. map_option g (portfolio E b t))"
proof
  fix t
  show "portfolio E b' t = map_option g (portfolio E b t)"
  proof (cases rule: portfolio_cases [OF inv(1), of t, case_names hit miss])
    case (hit r ord)
    have "xorders E b' r = Some (g ord)" "t \<in> tokens (g ord)" using hit(1,2) A g(1) [OF hit(1)] by simp_all
    from portfolio_at [OF inv(2) this] hit(3) g(2) show ?thesis by simp
  next
    case miss
    have "portfolio E b' t = None"
    proof (rule portfolio_miss [OF inv(2)])
      fix r ord assume "xorders E b' r = Some ord"
      then obtain ord0 where "xorders E b r = Some ord0" "ord = g ord0" using A by auto
      with g(1) miss(1) show "t \<notin> tokens ord" by metis
    qed
    with miss(2) show ?thesis by simp
  qed
qed

lemma same_otk:
  assumes "ex_inv E b" "xorders E b r = Some ord" "xorders E b r' = Some ord'" "x_otk ord' = x_otk ord"
  shows "r' = r" "ord' = ord"
proof -
  show "r' = r" by (rule ex_token_unique [OF assms(1,3,2), of "x_otk ord"]) (use assms(4) in \<open>simp_all add: tokens_def\<close>)
  with assms(2,3) show "ord' = ord" by simp
qed

lemma one_as_map:
  assumes "ex_inv E b" "xorders E b r = Some ord"
  shows "(xorders E b)(r \<mapsto> f ord) = (\<lambda>r. map_option (\<lambda>ord'. if x_otk ord' = x_otk ord then f ord' else ord') (xorders E b r))"
proof
  fix r'
  show "((xorders E b)(r \<mapsto> f ord)) r' = map_option (\<lambda>ord'. if x_otk ord' = x_otk ord then f ord' else ord') (xorders E b r')"
  proof (cases "xorders E b r'")
    case None
    with assms(2) show ?thesis by auto
  next
    case (Some ord')
    with same_otk [OF assms Some] assms(2) show ?thesis by auto
  qed
qed

lemma portfolio_change:
  assumes inv: "ex_inv E b" "ex_inv E b'" and r: "xorders E b r = Some ord" and A: "xorders E b' = (xorders E b)(r \<mapsto> f ord)"
    and f: "tokens (f ord) = tokens ord" "\<And>ord. f (norm_order ord) = norm_order (f ord)"
  shows "portfolio E b' = change_order (norm_order ord) f (portfolio E b)"
proof -
  let ?g = "\<lambda>ord'. if x_otk ord' = x_otk ord then f ord' else ord'"
  have "portfolio E b' = (\<lambda>t. map_option ?g (portfolio E b t))"
  proof (rule portfolio_map [OF inv])
    show "xorders E b' = (\<lambda>r. map_option ?g (xorders E b r))" unfolding A by (rule one_as_map [OF inv(1) r])
    show "tokens (?g ord') = tokens ord'" if "xorders E b r' = Some ord'" for r' ord'
      using same_otk [OF inv(1) r that] f(1) by auto
  qed (simp add: f(2))
  then show ?thesis by (simp add: change_order_def)
qed

lemma portfolio_add:
  assumes inv: "ex_inv E b" "ex_inv E b'" and A: "xorders E b r = None" "xorders E b' = (xorders E b)(r \<mapsto> ord)"
    and k: "tokens ord = {k}" "cst_map (eo_otk_map b) k = None"
  shows "portfolio E b' = (portfolio E b)(k \<mapsto> norm_order ord)"
proof
  fix t
  show "portfolio E b' t = ((portfolio E b)(k \<mapsto> norm_order ord)) t"
  proof (cases "t = k")
    case True
    with portfolio_at [OF inv(2), of r ord k] A(2) k(1) show ?thesis by simp
  next
    case False
    show ?thesis
    proof (cases rule: portfolio_cases [OF inv(1), of t, case_names hit miss])
      case (hit r' ord')
      then have "xorders E b' r' = Some ord'" using A by auto
      from portfolio_at [OF inv(2) this hit(2)] hit(3) False show ?thesis by simp
    next
      case miss
      have "portfolio E b' t = None" by (rule portfolio_miss [OF inv(2)]) (use miss(1) A(2) k(1) False in \<open>auto split: if_splits\<close>)
      with miss(2) False show ?thesis by simp
    qed
  qed
qed

lemma portfolio_alias:
  assumes inv: "ex_inv E b" "ex_inv E b'" and r: "xorders E b r = Some ord" and A: "xorders E b' = (xorders E b)(r \<mapsto> f ord)"
    and f: "tokens (f ord) = insert k (tokens ord)" "\<And>ord. f (norm_order ord) = norm_order (f ord)"
    and k: "cst_map (eo_otk_map b) k = None"
  shows "portfolio E b' = (change_order (norm_order ord) f (portfolio E b))(k \<mapsto> f (norm_order ord))"
proof
  fix t
  let ?P = "(change_order (norm_order ord) f (portfolio E b))(k \<mapsto> f (norm_order ord))"
  have r': "xorders E b' r = Some (f ord)" by (simp add: A)
  show "portfolio E b' t = ?P t"
  proof (cases "t = k")
    case True
    with portfolio_at [OF inv(2) r', of k] f show ?thesis by simp
  next
    case False
    show ?thesis
    proof (cases rule: portfolio_cases [OF inv(1), of t, case_names hit miss])
      case (hit q ord')
      show ?thesis
      proof (cases "x_otk ord' = x_otk ord")
        case True
        with same_otk [OF inv(1) r hit(1)] have "ord' = ord" by simp
        with hit False portfolio_at [OF inv(2) r', of t] f show ?thesis by (simp add: change_order_def)
      next
        case other: False
        then have "q \<noteq> r" using hit(1) r by auto
        then have "xorders E b' q = Some ord'" using hit(1) by (simp add: A)
        from portfolio_at [OF inv(2) this hit(2)] hit(3) other False show ?thesis by (simp add: change_order_def)
      qed
    next
      case miss
      have "t \<notin> tokens ord" by (rule miss(1) [OF r])
      then have "portfolio E b' t = None" by (intro portfolio_miss [OF inv(2)]) (use miss(1) f(1) False in \<open>auto simp: A split: if_splits\<close>)
      with miss(2) False show ?thesis by (simp add: change_order_def)
    qed
  qed
qed

lemma portfolio_erase:
  assumes inv: "ex_inv E b" "ex_inv E b'" and r: "xorders E b r = Some ord" and A: "xorders E b' = (xorders E b)(r := None)"
  shows "portfolio E b' = (\<lambda>t. if t \<in> tokens ord then None else portfolio E b t)"
proof
  fix t
  show "portfolio E b' t = (if t \<in> tokens ord then None else portfolio E b t)"
  proof (cases "t \<in> tokens ord")
    case True
    have "portfolio E b' t = None"
      by (rule portfolio_miss [OF inv(2)]) (use ex_token_unique [OF inv(1) _ r _ True] in \<open>auto simp: A split: if_splits\<close>)
    with True show ?thesis by simp
  next
    case False
    show ?thesis
    proof (cases rule: portfolio_cases [OF inv(1), of t, case_names hit miss])
      case (hit q ord')
      with False r have "q \<noteq> r" by auto
      then have "xorders E b' q = Some ord'" using hit(1) by (simp add: A)
      from portfolio_at [OF inv(2) this hit(2)] hit(3) False show ?thesis by simp
    next
      case miss
      have "portfolio E b' t = None" by (rule portfolio_miss [OF inv(2)]) (use miss(1) in \<open>auto simp: A split: if_splits\<close>)
      with miss(2) False show ?thesis by simp
    qed
  qed
qed

section \<open>The manager\<close>

definition made_below :: "32 word \<Rightarrow> 32 word \<Rightarrow> order_token \<Rightarrow> bool" where
  "made_below prefix counter t \<longleftrightarrow> (\<exists>v. unat v < unat counter \<and> t = make_with_prefix v prefix)"

definition manager_inv :: "ex_env \<Rightarrow> (nat \<Rightarrow> bool) \<Rightarrow> 32 word \<Rightarrow> ex_manager \<Rightarrow> bool" where
  "manager_inv E room prefix M \<longleftrightarrow> ex_inv E (xm_book M) \<and> xm_otk_prefix M = prefix \<and> prefix < 16 \<and>
     unat (xm_otk_counter M) \<le> 2 ^ 28 \<and> (\<forall>n. \<exists>m\<ge>n. room m) \<and>
     (\<forall>r ord. xorders E (xm_book M) r = Some ord \<longrightarrow> (\<forall>t\<in>tokens ord. made_below prefix (xm_otk_counter M) t))"

lemma spin_returns:
  assumes "\<exists>m\<ge>n. room m"
  obtains n' where "spin_enqueue room n = Some n'"
proof -
  obtain d where "room (n + d)" using assms by (metis le_Suc_ex)
  then have "\<exists>n'. spin_enqueue room n = Some n'"
  proof (induction d arbitrary: n)
    case 0
    then show ?case by (simp add: spin_enqueue.simps [of room n])
  next
    case (Suc d)
    then show ?case by (cases "room n") (simp_all add: spin_enqueue.simps [of room n])
  qed
  with that show ?thesis by blast
qed

lemma enqueue_returns:
  assumes "\<forall>n. \<exists>m\<ge>n. room m"
  obtains n where "enqueue_request room req M = Some (Inr (M\<lparr>xm_try := n, xm_queue := xm_queue M @ [req]\<rparr>))"
proof -
  obtain n where "spin_enqueue room (xm_try M) = Some n" by (rule spin_returns [of "xm_try M" room]) (use assms in blast)
  with that show ?thesis by (simp add: enqueue_request_def)
qed

lemma counter_next:
  fixes c :: "32 word"
  assumes "c < 2 ^ 28"
  shows "unat (c + 1) = Suc (unat c)" "unat c < 2 ^ 28"
proof -
  show c: "unat c < 2 ^ 28" using assms by (simp add: word_less_nat_alt)
  have "unat (c + 1) = (unat c + 1) mod 2 ^ 32" by (simp add: unat_word_ariths)
  with c show "unat (c + 1) = Suc (unat c)" by simp
qed

lemma made_below_next: "c < 2 ^ 28 \<Longrightarrow> made_below p c t \<Longrightarrow> made_below p (c + 1) t"
  unfolding made_below_def using counter_next [of c] by (metis less_SucI)

lemma made_below_new: "c < 2 ^ 28 \<Longrightarrow> made_below p (c + 1) (make_with_prefix c p)"
  unfolding made_below_def using counter_next [of c] by auto

lemma made_below_fresh:
  assumes "c < 2 ^ 28" "p < 16"
  shows "\<not> made_below p c (make_with_prefix c p)"
proof
  assume "made_below p c (make_with_prefix c p)"
  then obtain v where v: "unat v < unat c" "make_with_prefix c p = make_with_prefix v p" by (auto simp: made_below_def)
  then have "v < c" by (simp add: word_less_nat_alt)
  then have "v < 2 ^ 28" using assms(1) by simp
  with v make_with_prefix_inj [OF assms(1) _ assms(2) assms(2), of v] show False by simp
qed

end
