(* ===== verification/Manager_Sim.thy ===== *)
theory Manager_Sim
  imports Manager_Inv
begin

text \<open>
  Every action of an agent and every message it receives, as a step of the specification: the
  manager as a simulation.
\<close>

section \<open>Storing into the manager's orders\<close>

lemma set_my_order_ok:
  assumes "ex_inv E (xm_book M)" "xorders E (xm_book M) r = Some ord"
    and "tokens (f ord) = tokens ord" "x_oid (f ord) = x_oid ord" "x_loid (f ord) = x_loid ord"
    and "order_state (x_state (f ord)) = fs_created \<Longrightarrow> order_state (x_state ord) = fs_created \<or> x_oid ord = 0"
  obtains b' where "set_my_order E r f M = Some (Inr (M\<lparr>xm_book := b'\<rparr>))" "ex_inv E b'"
    "xorders E b' = (xorders E (xm_book M))(r \<mapsto> f ord)"
proof -
  obtain b' where "set_order E r f (xm_book M) = Some (Inr b')" "ex_inv E b'" "xorders E b' = (xorders E (xm_book M))(r \<mapsto> f ord)"
    by (rule set_order_ok [of E "xm_book M" r ord f, OF assms])
  with that show ?thesis by (simp add: set_my_order_def)
qed

lemma manager_invD:
  assumes "manager_inv E room prefix M"
  shows mi_book: "ex_inv E (xm_book M)" and mi_prefix: "xm_otk_prefix M = prefix" "prefix < 16"
    and mi_counter: "unat (xm_otk_counter M) \<le> 2 ^ 28" and mi_room: "\<forall>n. \<exists>m\<ge>n. room m"
    and mi_tokens: "xorders E (xm_book M) r = Some ord \<Longrightarrow> t \<in> tokens ord \<Longrightarrow> made_below prefix (xm_otk_counter M) t"
  using assms by (auto simp: manager_inv_def)

lemma manager_view_simps [simp]:
  "av_orders (manager_view E M) = portfolio E (xm_book M)" "av_sent (manager_view E M) = xm_queue M"
  "av_counter (manager_view E M) = xm_otk_counter M"
  by (simp_all add: manager_view_def)

text \<open>A step that keeps the prefix, and the tokens of the book below the counter.\<close>

lemma manager_invI:
  assumes "manager_inv E room prefix M" "ex_inv E (xm_book M')" "xm_otk_prefix M' = xm_otk_prefix M"
    and "unat (xm_otk_counter M') \<le> 2 ^ 28"
    and "\<And>r ord t. xorders E (xm_book M') r = Some ord \<Longrightarrow> t \<in> tokens ord \<Longrightarrow> made_below prefix (xm_otk_counter M') t"
  shows "manager_inv E room prefix M'"
  using assms by (auto simp: manager_inv_def)

lemma fresh_token:
  assumes "manager_inv E room prefix M" "xm_otk_counter M < 2 ^ 28"
  shows "cst_map (eo_otk_map (xm_book M)) (make_with_prefix (xm_otk_counter M) prefix) = None"
  using ex_token_None [OF mi_book [OF assms(1)]] mi_tokens [OF assms(1)] made_below_fresh [OF assms(2) mi_prefix(2) [OF assms(1)]]
  by blast

section \<open>Submitting\<close>

lemma submit_sim:
  assumes inv: "manager_inv E room prefix M" and c: "xm_otk_counter M < 2 ^ 28"
  shows "(agent_stops E (Submit TIF liid s price qty) M \<and> (\<exists>e. submit_order_impl E room TIF liid s price qty M = Some (Inl e))) \<or>
    (\<exists>r M'. submit_order_impl E room TIF liid s price qty M = Some (Inr (r, M')) \<and> manager_inv E room prefix M' \<and>
      manager_view E M' = spec_agent prefix (Submit TIF liid s price qty) (manager_view E M))"
proof -
  let ?t = "make_with_prefix (xm_otk_counter M) prefix" and ?b = "xm_book M"
  let ?M1 = "M\<lparr>xm_otk_counter := xm_otk_counter M + 1\<rparr>"
  note book = mi_book [OF inv]
  have gen: "otk_gen M = (?t, ?M1)" by (simp add: otk_gen_def mi_prefix(1) [OF inv])
  have new: "cst_map (eo_otk_map ?b) ?t = None" by (rule fresh_token [OF inv c])
  from create_order_ok [OF book new, of liid] show ?thesis
  proof (elim disjE conjE exE)
    fix e assume "create_order E liid ?t ?b = Some (Inl e)"
      "pool_full (xe_pool E) (eo_pool ?b)"
    then show ?thesis by (simp add: submit_order_impl_def gen)
  next
    fix e assume "create_order E liid ?t ?b = Some (Inl e)" "put_fails (xe_otk_traits E) (eo_otk_map ?b) ?t"
    then show ?thesis by (simp add: submit_order_impl_def gen)
  next
    fix r b1 assume b1: "create_order E liid ?t ?b = Some (Inr (r, b1))" "ex_inv E b1" "xorders E ?b r = None"
      "xorders E b1 = (xorders E ?b)(r \<mapsto> fresh_order\<lparr>x_loid := r, x_liid := liid, x_otk := ?t\<rparr>)"
    let ?o1 = "fresh_order\<lparr>x_loid := r, x_liid := liid, x_otk := ?t\<rparr>"
    let ?f2 = "\<lambda>ord. ord\<lparr>x_price := price, x_qty := qty\<rparr>" and ?f3 = "\<lambda>ord. ord\<lparr>x_state := transition fs_created fp_none\<rparr>"
    let ?f4 = "\<lambda>ord. ord\<lparr>x_state := fsm_mark fp_submit (x_state ord)\<rparr>"
    let ?M2 = "?M1\<lparr>xm_book := b1\<rparr>"
    have o: "x_oid fresh_order = 0" by (simp add: fresh_order_def)
    obtain b2 where b2: "set_my_order E r ?f2 ?M2 = Some (Inr (?M2\<lparr>xm_book := b2\<rparr>))" "ex_inv E b2"
      "xorders E b2 = (xorders E b1)(r \<mapsto> ?f2 ?o1)"
      by (rule set_my_order_ok [of E ?M2 r ?o1 ?f2]) (simp_all add: b1(2,4) o)
    let ?M3 = "?M2\<lparr>xm_book := b2\<rparr>"
    obtain b3 where b3: "set_my_order E r ?f3 ?M3 = Some (Inr (?M3\<lparr>xm_book := b3\<rparr>))" "ex_inv E b3"
      "xorders E b3 = (xorders E b2)(r \<mapsto> ?f3 (?f2 ?o1))"
      by (rule set_my_order_ok [of E ?M3 r "?f2 ?o1" ?f3]) (simp_all add: b2(2,3) o)
    let ?req = "Submit_order liid ?t (if s = BID then Buy else Sell) price qty TIF"
    obtain n where n: "enqueue_request room ?req (?M3\<lparr>xm_book := b3\<rparr>) =
        Some (Inr ((?M3\<lparr>xm_book := b3\<rparr>)\<lparr>xm_try := n, xm_queue := xm_queue (?M3\<lparr>xm_book := b3\<rparr>) @ [?req]\<rparr>))"
      by (rule enqueue_returns [OF mi_room [OF inv], of ?req "?M3\<lparr>xm_book := b3\<rparr>"])
    let ?M4 = "(?M3\<lparr>xm_book := b3\<rparr>)\<lparr>xm_try := n, xm_queue := xm_queue (?M3\<lparr>xm_book := b3\<rparr>) @ [?req]\<rparr>"
    obtain b4 where b4: "set_my_order E r ?f4 ?M4 = Some (Inr (?M4\<lparr>xm_book := b4\<rparr>))" "ex_inv E b4"
      "xorders E b4 = (xorders E b3)(r \<mapsto> ?f4 (?f3 (?f2 ?o1)))"
      by (rule set_my_order_ok [of E ?M4 r "?f3 (?f2 ?o1)" ?f4]) (simp_all add: b3(2,3) o)
    let ?o = "?f4 (?f3 (?f2 ?o1))" and ?M' = "?M4\<lparr>xm_book := b4\<rparr>"
    have A: "xorders E b4 = (xorders E ?b)(r \<mapsto> ?o)" by (simp add: b4(3) b3(3) b2(3) b1(4))
    have tok: "tokens ?o = {?t}" by (simp add: tokens_def history_list_def fresh_order_def)
    have "norm_order ?o = sent_order liid ?t price qty"
      by (simp add: norm_order_def sent_order_def fresh_order_def fsm_names fsm_ops)
    then have P: "portfolio E b4 = (portfolio E ?b)(?t \<mapsto> sent_order liid ?t price qty)"
      using portfolio_add [OF book b4(2) b1(3) A tok new] by simp
    have run: "submit_order_impl E room TIF liid s price qty M = Some (Inr (r, ?M'))"
      using b1(1) b2(1) b3(1) n b4(1) by (simp add: submit_order_impl_def gen)
    have "manager_inv E room prefix ?M'"
    proof (rule manager_invI [OF inv])
      show "unat (xm_otk_counter ?M') \<le> 2 ^ 28" using counter_next [OF c] by simp
      fix q ord t assume "xorders E (xm_book ?M') q = Some ord" "t \<in> tokens ord"
      then show "made_below prefix (xm_otk_counter ?M') t"
        using mi_tokens [OF inv] made_below_next [OF c] made_below_new [OF c] tok by (auto simp: A split: if_splits)
    qed (simp_all add: b4(2))
    moreover have "manager_view E ?M' = spec_agent prefix (Submit TIF liid s price qty) (manager_view E M)"
      by (simp add: manager_view_def P Let_def)
    ultimately show ?thesis using run by blast
  qed
qed

section \<open>Replacing, cancelling and erasing\<close>

lemma by_token:
  assumes "ex_inv E (xm_book M)" "portfolio E (xm_book M) t \<noteq> None"
  obtains r ord where "ex_find_order E t (xm_book M) = Some (Some r)" "xorders E (xm_book M) r = Some ord" "t \<in> tokens ord"
    "portfolio E (xm_book M) t = Some (norm_order ord)" "pool_get (xe_pool E) False r (eo_pool (xm_book M)) = Some (Inr ord)"
proof (cases rule: portfolio_cases [OF assms(1), of t, case_names hit miss])
  case (hit r ord)
  then have "cst_map (eo_otk_map (xm_book M)) t = Some r" using ex_tokens [OF assms(1), of t r] by blast
  then have "ex_find_order E t (xm_book M) = Some (Some r)"
    using cst.get_law [OF ex_otks [OF assms(1)], of t] by (simp add: ex_find_order_def)
  then show ?thesis by (rule that [OF _ hit pool_get_spec [OF ex_pool [OF assms(1)] hit(1)]])
next
  case miss
  with assms(2) show ?thesis by simp
qed

lemma order_state_marks [simp]:
  "order_state (fsm_mark fp_replace st) = order_state st" "order_state (fsm_mark fp_cancel st) = order_state st"
  by (rule order_state_mark; simp)+

lemma modify_sim:
  assumes inv: "manager_inv E room prefix M" and c: "xm_otk_counter M < 2 ^ 28" and t: "portfolio E (xm_book M) t \<noteq> None"
  shows "(agent_stops E (Modify t price qty) M \<and> (\<exists>e. modify_order E room t price qty M = Some (Inl e))) \<or>
    (\<exists>M'. modify_order E room t price qty M = Some (Inr M') \<and> manager_inv E room prefix M' \<and>
      manager_view E M' = spec_agent prefix (Modify t price qty) (manager_view E M))"
proof -
  let ?b = "xm_book M" and ?new = "make_with_prefix (xm_otk_counter M) prefix"
  let ?M1 = "M\<lparr>xm_otk_counter := xm_otk_counter M + 1\<rparr>"
  note book = mi_book [OF inv]
  obtain r ord where r: "ex_find_order E t ?b = Some (Some r)" "xorders E ?b r = Some ord" "t \<in> tokens ord"
    "portfolio E ?b t = Some (norm_order ord)" by (rule by_token [OF book t])
  have gen: "otk_gen M = (?new, ?M1)" by (simp add: otk_gen_def mi_prefix(1) [OF inv])
  have new: "cst_map (eo_otk_map ?b) ?new = None" by (rule fresh_token [OF inv c])
  have run: "modify_order E room t price qty M = modify_order_impl E room r price qty M"
    by (simp add: modify_order_def with_token_def r(1))
  let ?f1 = "\<lambda>ord. ord\<lparr>x_history := push_token ?new (x_history ord)\<rparr>"
  let ?f2 = "\<lambda>ord. ord\<lparr>x_state := fsm_mark fp_replace (x_state ord)\<rparr>"
  from alias_order_ok [OF book r(2) new] show ?thesis
  proof (elim disjE conjE exE)
    fix e assume "put_fails (xe_otk_traits E) (eo_otk_map ?b) ?new" "alias_order E r ?new ?b = Some (Inl e)"
    then show ?thesis by (simp add: run modify_order_impl_def gen)
  next
    fix b1 assume b1: "alias_order E r ?new ?b = Some (Inr b1)" "ex_inv E b1" "xorders E b1 = (xorders E ?b)(r \<mapsto> ?f1 ord)"
    have r1: "xorders E b1 r = Some (?f1 ord)" by (simp add: b1(3))
    have g: "pool_get (xe_pool E) False r (eo_pool b1) = Some (Inr (?f1 ord))" by (rule pool_get_spec [OF ex_pool [OF b1(2)] r1])
    let ?M2 = "?M1\<lparr>xm_book := b1\<rparr>" and ?req = "Replace_order (x_liid ord) (x_otk ord) ?new price qty"
    obtain n where n: "enqueue_request room ?req ?M2 = Some (Inr (?M2\<lparr>xm_try := n, xm_queue := xm_queue ?M2 @ [?req]\<rparr>))"
      by (rule enqueue_returns [OF mi_room [OF inv], of ?req ?M2])
    let ?M3 = "?M2\<lparr>xm_try := n, xm_queue := xm_queue ?M2 @ [?req]\<rparr>"
    obtain b2 where b2: "set_my_order E r ?f2 ?M3 = Some (Inr (?M3\<lparr>xm_book := b2\<rparr>))" "ex_inv E b2"
      "xorders E b2 = (xorders E b1)(r \<mapsto> ?f2 (?f1 ord))"
      by (rule set_my_order_ok [of E ?M3 r "?f1 ord" ?f2]) (use b1(2) r1 in simp_all)
    let ?M' = "?M3\<lparr>xm_book := b2\<rparr>"
    let ?f = "\<lambda>ord. ord\<lparr>x_history := push_token ?new (x_history ord), x_state := x_state ord OR fp_replace\<rparr>"
    have A: "xorders E b2 = (xorders E ?b)(r \<mapsto> ?f ord)" by (simp add: b2(3) b1(3) fsm_mark_def)
    have tok: "tokens (?f ord) = insert ?new (tokens ord)" by (auto simp: tokens_def)
    have P: "portfolio E b2 = (change_order (norm_order ord) ?f (portfolio E ?b))(?new \<mapsto> ?f (norm_order ord))"
      by (rule portfolio_alias [of E ?b b2 r ord ?f ?new, OF book b2(2) r(2) A tok _ new]) (simp add: norm_order_def)
    have res: "modify_order E room t price qty M = Some (Inr ?M')"
      using b1(1) g n b2(1) by (simp add: run modify_order_impl_def gen)
    have "manager_inv E room prefix ?M'"
    proof (rule manager_invI [OF inv])
      show "unat (xm_otk_counter ?M') \<le> 2 ^ 28" using counter_next [OF c] by simp
      fix q ord' t' assume "xorders E (xm_book ?M') q = Some ord'" "t' \<in> tokens ord'"
      then show "made_below prefix (xm_otk_counter ?M') t'"
        using mi_tokens [OF inv] r(2) made_below_next [OF c] made_below_new [OF c] tok by (auto simp: A split: if_splits)
    qed (simp_all add: b2(2))
    moreover have "manager_view E ?M' = spec_agent prefix (Modify t price qty) (manager_view E M)"
      by (simp add: manager_view_def P r(4) Let_def)
    ultimately show ?thesis using res by blast
  qed
qed

lemma cancel_sim:
  assumes inv: "manager_inv E room prefix M" and t: "portfolio E (xm_book M) t \<noteq> None"
  shows "\<exists>M'. cancel_order E room t M = Some (Inr M') \<and> manager_inv E room prefix M' \<and>
      manager_view E M' = spec_agent prefix (Cancel t) (manager_view E M)"
proof -
  let ?b = "xm_book M"
  note book = mi_book [OF inv]
  obtain r ord where r: "ex_find_order E t ?b = Some (Some r)" "xorders E ?b r = Some ord" "t \<in> tokens ord"
    "portfolio E ?b t = Some (norm_order ord)" "pool_get (xe_pool E) False r (eo_pool ?b) = Some (Inr ord)"
    by (rule by_token [OF book t])
  let ?f = "\<lambda>ord. ord\<lparr>x_state := fsm_mark fp_cancel (x_state ord)\<rparr>" and ?req = "Cancel_order (x_liid ord) (x_otk ord)"
  obtain n where n: "enqueue_request room ?req M = Some (Inr (M\<lparr>xm_try := n, xm_queue := xm_queue M @ [?req]\<rparr>))"
    by (rule enqueue_returns [OF mi_room [OF inv], of ?req M])
  let ?M1 = "M\<lparr>xm_try := n, xm_queue := xm_queue M @ [?req]\<rparr>"
  obtain b1 where b1: "set_my_order E r ?f ?M1 = Some (Inr (?M1\<lparr>xm_book := b1\<rparr>))" "ex_inv E b1"
    "xorders E b1 = (xorders E (xm_book ?M1))(r \<mapsto> ?f ord)"
    by (rule set_my_order_ok [of E ?M1 r ord ?f]) (use book r(2) in simp_all)
  let ?M' = "?M1\<lparr>xm_book := b1\<rparr>"
  have A: "xorders E b1 = (xorders E ?b)(r \<mapsto> ?f ord)" using b1(3) by simp
  have P: "portfolio E b1 = change_order (norm_order ord) ?f (portfolio E ?b)"
    by (rule portfolio_change [of E ?b b1 r ord ?f, OF book b1(2) r(2) A]) (simp_all add: norm_order_def)
  have "cancel_order E room t M = Some (Inr ?M')"
    using r(5) n b1(1) by (simp add: cancel_order_def with_token_def r(1) cancel_order_impl_def)
  moreover have "manager_inv E room prefix ?M'"
    by (rule manager_invI [OF inv])
      (use b1(2) mi_counter [OF inv] mi_tokens [OF inv] r(2) in \<open>auto simp: A split: if_splits\<close>)
  moreover have "manager_view E ?M' = spec_agent prefix (Cancel t) (manager_view E M)"
    by (simp add: manager_view_def P r(4) fsm_mark_def)
  ultimately show ?thesis by blast
qed

lemma erase_sim:
  assumes inv: "manager_inv E room prefix M" and t: "portfolio E (xm_book M) t \<noteq> None"
  shows "(agent_stops E (Erase t) M \<and> (\<exists>e. manager_erase_order E t M = Some (Inl e))) \<or>
    (\<exists>M'. manager_erase_order E t M = Some (Inr M') \<and> manager_inv E room prefix M' \<and>
      manager_view E M' = spec_agent prefix (Erase t) (manager_view E M))"
proof -
  let ?b = "xm_book M"
  note book = mi_book [OF inv]
  obtain r ord where r: "ex_find_order E t ?b = Some (Some r)" "xorders E ?b r = Some ord" "t \<in> tokens ord"
    "portfolio E ?b t = Some (norm_order ord)"
    by (rule by_token [OF book t])
  show ?thesis
  proof (cases "erasable ord")
    case False
    with erase_order_ok [OF book r(2)] have "manager_erase_order E t M = Some (Inl Agent_runtime)"
      by (simp add: manager_erase_order_def with_token_def r(1) erase_order_impl_def)
    with False r(2,3) show ?thesis by (auto simp: erasable_def)
  next
    case True
    with erase_order_ok [OF book r(2)]
    obtain b1 where b1: "erase_order E r ?b = Some (Inr b1)" "ex_inv E b1" "xorders E b1 = (xorders E ?b)(r := None)" by auto
    let ?M' = "M\<lparr>xm_book := b1\<rparr>"
    have "manager_erase_order E t M = Some (Inr ?M')"
      by (simp add: manager_erase_order_def with_token_def r(1) erase_order_impl_def b1(1))
    moreover have "manager_inv E room prefix ?M'"
      by (rule manager_invI [OF inv])
        (use b1(2) mi_counter [OF inv] mi_tokens [OF inv] in \<open>auto simp: b1(3) split: if_splits\<close>)
    moreover have "manager_view E ?M' = spec_agent prefix (Erase t) (manager_view E M)"
      using portfolio_erase [OF book b1(2) r(2) b1(3)] by (auto simp: manager_view_def r(4))
    ultimately show ?thesis by blast
  qed
qed

section \<open>Receiving\<close>

lemma addresses_norm: "addresses m (norm_order ord) \<longleftrightarrow> addresses m ord"
  by (cases m) simp_all

lemma order_after_norm: "order_after m (norm_order ord) = norm_order (order_after m ord)"
  by (cases m) (simp_all add: norm_order_def awaits_accept_def is_live_def fsm_error_transition_def Let_def)

lemma tokens_after: "tokens (order_after m ord) = tokens ord"
  by (cases m) (simp_all add: tokens_def fsm_error_transition_def Let_def)

lemma portfolio_ouch:
  assumes "ex_inv E b" "ex_inv E b'" "xorders E b' = spec_ouch m (xorders E b)"
  shows "portfolio E b' = spec_ouch m (portfolio E b)"
  unfolding spec_ouch_def
  by (rule portfolio_map [OF assms(1,2)])
    (simp_all add: assms(3) spec_ouch_def addresses_norm order_after_norm tokens_after)

lemma ouch_allows_book:
  assumes "ex_inv E b" "ouch_allows m (portfolio E b)"
  shows "ouch_allows m (xorders E b)"
proof (cases m)
  case (Order_accepted a)
  have "x_oid ord \<noteq> ou_oid a" if "xorders E b r = Some ord" for r ord
  proof -
    have "portfolio E b (x_otk ord) = Some (norm_order ord)" by (rule portfolio_at [OF assms(1) that]) simp
    moreover have "\<forall>t x. portfolio E b t = Some x \<longrightarrow> x_oid x \<noteq> ou_oid a"
      using assms(2) Order_accepted by (simp add: new_exchange_id_def)
    ultimately have "x_oid (norm_order ord) \<noteq> ou_oid a" by blast
    then show ?thesis by simp
  qed
  with assms(2) Order_accepted show ?thesis by (auto simp: new_exchange_id_def)
qed simp_all

lemma receive_sim:
  assumes inv: "manager_inv E room prefix M" and ok: "ouch_allows m (portfolio E (xm_book M))"
  shows "(agent_stops E (Receive m) M \<and> (\<exists>e. agent_step E room (Receive m) M = Some (Inl e))) \<or>
    (\<exists>M'. agent_step E room (Receive m) M = Some (Inr M') \<and> manager_inv E room prefix M' \<and>
      manager_view E M' = spec_agent prefix (Receive m) (manager_view E M))"
proof -
  note book = mi_book [OF inv]
  from ouch.step_law [OF book ouch_allows_book [OF book ok]] show ?thesis
  proof (elim disjE conjE exE)
    fix e assume "ouch_exhausts E m (xm_book M)" "visit_ouch E m (xm_book M) = Some (Inl e)"
    then show ?thesis by simp
  next
    fix b1 assume b1: "visit_ouch E m (xm_book M) = Some (Inr b1)" "ex_inv E b1" "xorders E b1 = spec_ouch m (xorders E (xm_book M))"
    let ?M' = "M\<lparr>xm_book := b1\<rparr>"
    have "manager_inv E room prefix ?M'"
      by (rule manager_invI [OF inv])
        (use b1(2) mi_counter [OF inv] mi_tokens [OF inv] in \<open>auto simp: b1(3) spec_ouch_def tokens_after split: if_splits\<close>)
    moreover have "manager_view E ?M' = spec_agent prefix (Receive m) (manager_view E M)"
      using portfolio_ouch [OF book b1(2,3)] by (simp add: manager_view_def)
    ultimately show ?thesis using b1(1) by simp
  qed
qed

section \<open>The simulation\<close>

interpretation agent: simulation "manager_inv E room prefix" "manager_view E" "agent_step E room" "spec_agent prefix"
    agent_allows "agent_stops E"
  for E :: ex_env and room :: "nat \<Rightarrow> bool" and prefix :: "32 word"
proof
  fix M ev assume inv: "manager_inv E room prefix M" and ok: "agent_allows ev (manager_view E M)"
  show "(agent_stops E ev M \<and> (\<exists>e. agent_step E room ev M = Some (Inl e))) \<or>
    (\<exists>M'. agent_step E room ev M = Some (Inr M') \<and> manager_inv E room prefix M' \<and>
      manager_view E M' = spec_agent prefix ev (manager_view E M))"
  proof (cases ev)
    case (Submit TIF liid s price qty)
    with ok have c: "xm_otk_counter M < 2 ^ 28" by simp
    from submit_sim [OF inv c, of TIF liid s price qty] Submit show ?thesis by (elim disjE conjE exE) simp_all
  next
    case (Modify t price qty)
    with ok modify_sim [OF inv, of t price qty] show ?thesis by simp
  next
    case (Cancel t)
    with ok cancel_sim [OF inv, of t] show ?thesis by simp
  next
    case (Erase t)
    with ok erase_sim [OF inv, of t] show ?thesis by simp
  next
    case (Receive m)
    with ok receive_sim [OF inv, of m] show ?thesis by simp
  qed
qed

end
