(* ===== verification/Execution_Props.thy ===== *)
theory Execution_Props
  imports Execution_Sim
begin

text \<open>
  What the order entry protocol guarantees of an execution book: how the state of an order
  moves, which orders can leave the book, and the book's own operations.
\<close>

section \<open>The life of an order\<close>

definition stage :: "fsm \<Rightarrow> nat" where
  "stage s = (if order_state s = fs_created then 0 else if order_state s = fs_live then 1
     else if order_state s = fs_done then 2 else 3)"

definition follows :: "eo_order \<Rightarrow> eo_order \<Rightarrow> bool" where
  "follows ord ord' \<longleftrightarrow> stage (x_state ord) \<le> stage (x_state ord') \<and> tokens ord' = tokens ord \<and> x_liid ord' = x_liid ord \<and>
     x_loid ord' = x_loid ord \<and> (x_oid ord \<noteq> 0 \<longrightarrow> x_oid ord' = x_oid ord)"

lemma stage_simps [simp]:
  "stage (fs_created OR fp_submit) = 0" "stage fs_live = 1" "stage (fs_live OR fp_replace) = 1" "stage (fs_live OR fp_cancel) = 1"
  "stage fs_done = 2" "stage off_book = 2" "stage (error_transition s) = 3" "stage s \<le> 3"
  by (simp_all add: stage_def)

lemma live_stage: "is_live ord \<Longrightarrow> stage (x_state ord) = 1"
  by (simp add: stage_def is_live_def)

lemma error_follows: "follows ord (fsm_error_transition n ord)"
  by (simp add: follows_def) (simp add: fsm_error_transition_def)

lemma follows_refl [simp]: "follows ord ord"
  by (simp add: follows_def)

lemma follows_trans: "follows a b \<Longrightarrow> follows b c \<Longrightarrow> follows a c"
  by (auto simp: follows_def)

lemma order_after_follows:
  assumes "awaits_accept ord \<Longrightarrow> x_oid ord = 0"
  shows "follows ord (order_after m ord)"
proof (cases m)
  case (Order_accepted m)
  with assms error_follows [of ord 129] show ?thesis by (auto simp: follows_def awaits_accept_def tokens_def)
next
  case (Order_rejected m)
  have "follows ord (fsm_error_transition 206 (ord\<lparr>x_reject_code := c\<rparr>))" for c
    by (rule follows_trans [OF _ error_follows]) (simp add: follows_def)
  with Order_rejected assms show ?thesis by (auto simp: follows_def awaits_accept_def Let_def)
next
  case (Order_replaced m)
  with error_follows [of ord 286] live_stage [of ord] show ?thesis by (auto simp: follows_def tokens_def)
next
  case (Order_canceled m)
  with error_follows [of ord 345] live_stage [of ord] show ?thesis by (auto simp: follows_def tokens_def)
qed simp

lemma spec_ouch_follows:
  assumes "orders_ok A" "A r = Some ord"
  obtains ord' where "spec_ouch m A r = Some ord'" "follows ord ord'"
proof -
  have "awaits_accept ord \<Longrightarrow> x_oid ord = 0" using assms by (auto simp: orders_ok_def awaits_accept_def)
  with that assms(2) order_after_follows [of ord m] show ?thesis by (cases "addresses m ord") (simp_all add: spec_ouch_def)
qed

lemma dom_spec_ouch: "dom (spec_ouch m A) = dom A"
  by (auto simp: spec_ouch_def)

text \<open>One message, and many, on the book itself.\<close>

lemma run_ouch_induct:
  assumes "ex_inv E b" "all_allowed ouch_allows spec_ouch ms (xorders E b)" "run_steps (visit_ouch E) ms b = Some (Inr b')"
    and "\<And>b. ex_inv E b \<Longrightarrow> P b b"
    and "\<And>m b b1 b'. ex_inv E b \<Longrightarrow> ouch_allows m (xorders E b) \<Longrightarrow> xorders E b1 = spec_ouch m (xorders E b) \<Longrightarrow> ex_inv E b1 \<Longrightarrow> P b1 b' \<Longrightarrow> P b b'"
  shows "P b b'"
  using assms(1-3)
proof (induction ms arbitrary: b)
  case Nil
  then show ?case using assms(4) by simp
next
  case (Cons m ms)
  from ouch.step_law [OF Cons.prems(1), of m] Cons.prems(2)
  consider e where "visit_ouch E m b = Some (Inl e)"
    | b1 where "visit_ouch E m b = Some (Inr b1)" "ex_inv E b1" "xorders E b1 = spec_ouch m (xorders E b)" by auto
  then show ?case
  proof cases
    case 1
    with Cons.prems(3) show ?thesis by simp
  next
    case 2
    then have "P b1 b'" using Cons.IH [of b1] Cons.prems(2,3) by simp
    with assms(5) [OF Cons.prems(1) _ 2(3,2)] Cons.prems(2) show ?thesis by simp
  qed
qed

section \<open>Orders that wait for their end\<close>

definition stuck :: "eo_order \<Rightarrow> bool" where
  "stuck ord \<longleftrightarrow> pending_state (x_state ord) = fp_finalize \<and> \<not> is_live ord \<and> \<not> awaits_accept ord"

lemma stuck_states: "stuck ord \<Longrightarrow> stuck (fsm_error_transition n ord)"
proof -
  have "order_state (error_transition (x_state ord)) \<noteq> order_state (fs_created OR fp_submit)" by simp
  then have "error_transition (x_state ord) \<noteq> fs_created OR fp_submit" by metis
  then show "stuck ord \<Longrightarrow> stuck (fsm_error_transition n ord)" by (simp add: stuck_def is_live_def awaits_accept_def)
qed

lemma order_after_stuck: "stuck ord \<Longrightarrow> stuck (order_after m ord)"
proof (cases m)
  case (Order_rejected m)
  assume s: "stuck ord"
  have "x_state ord \<notin> {fs_live OR fp_replace, fs_live OR fp_cancel}" using s by (auto simp: stuck_def is_live_def)
  moreover have "stuck (ord\<lparr>x_reject_code := c\<rparr>)" for c using s by (simp add: stuck_def is_live_def awaits_accept_def)
  ultimately show ?thesis using s stuck_states Order_rejected by (simp add: stuck_def awaits_accept_def Let_def)
qed (simp_all add: stuck_states, simp_all add: stuck_def)


lemma run_ouch_stuck:
  assumes "ex_inv E b" "all_allowed ouch_allows spec_ouch ms (xorders E b)" "run_steps (visit_ouch E) ms b = Some (Inr b')"
  shows "ex_inv E b' \<and> (\<forall>r ord. xorders E b r = Some ord \<longrightarrow> stuck ord \<longrightarrow> (\<exists>ord'. xorders E b' r = Some ord' \<and> stuck ord'))"
  using assms
proof (rule run_ouch_induct)
  fix m b b1 b'
  assume b: "ex_inv E b" "xorders E b1 = spec_ouch m (xorders E b)"
    and IH: "ex_inv E b' \<and> (\<forall>r ord. xorders E b1 r = Some ord \<longrightarrow> stuck ord \<longrightarrow> (\<exists>ord'. xorders E b' r = Some ord' \<and> stuck ord'))"
  have "\<exists>o1. xorders E b1 r = Some o1 \<and> stuck o1" if "xorders E b r = Some ord" "stuck ord" for r ord
    using that order_after_stuck [OF that(2), of m] by (simp add: b(2) spec_ouch_def)
  with IH show "ex_inv E b' \<and> (\<forall>r ord. xorders E b r = Some ord \<longrightarrow> stuck ord \<longrightarrow> (\<exists>ord'. xorders E b' r = Some ord' \<and> stuck ord'))"
    by blast
qed blast

section \<open>A concrete book\<close>

definition demo_xenv :: ex_env where
  "demo_xenv = \<lparr>xe_otk_traits = \<lparr>t_hash = ucast, t_fixed = False, t_link_bits = 16\<rparr>,
     xe_oid_traits = \<lparr>t_hash = of_int, t_fixed = False, t_link_bits = 16\<rparr>, xe_pool = demo_pool_opts\<rparr>"

lemma demo_xenv_capacity: "max_capacity (xe_otk_traits demo_xenv) = 16384" "max_capacity (xe_oid_traits demo_xenv) = 16384"
  using lzcnt_eq [of 14 32766 64] by (simp_all add: max_capacity_def demo_xenv_def)

definition demo_sent :: eo_order where
  "demo_sent = fresh_order\<lparr>x_state := fs_created OR fp_submit, x_loid := 0, x_otk := 5\<rparr>"

text \<open>A book with one order that has been sent to the exchange under token 5.\<close>

lemma demo_xbook:
  obtains b where "ex_inv demo_xenv b" "xorders demo_xenv b = [0 \<mapsto> demo_sent]" "m_size (eo_oid_map b) = 0"
proof -
  have pool: "xe_pool demo_xenv = demo_pool_opts" by (simp add: demo_xenv_def)
  obtain b0 where b0: "ex_book_new demo_xenv demo_pool = Inr b0" "ex_inv demo_xenv b0" "xorders demo_xenv b0 = Map.empty"
    "eo_pool b0 = demo_pool" "m_size (eo_otk_map b0) = 0" "m_size (eo_oid_map b0) = 0"
    by (rule ex_book_new_ok [of demo_xenv demo_pool])
      (simp_all add: demo_xenv_capacity pool demo_pool_inv demo_pool_empty)
  have "\<not> put_fails (xe_otk_traits demo_xenv) (eo_otk_map b0) 5" by (simp add: put_fails_def b0(5) capacity_def)
  then obtain t where t: "cst_inv (xe_otk_traits demo_xenv) t" "cst_map t = (cst_map (eo_otk_map b0))(5 \<mapsto> 0)"
    using cst.put_law [OF ex_otks [OF b0(2)], of 5 0] by blast
  obtain p where p: "pool_inv demo_pool_opts p" "objs demo_pool_opts p = [0 \<mapsto> demo_sent]"
    using demo_pool_alloc [of demo_sent] by blast
  let ?b = "\<lparr>eo_pool = p, eo_otk_map = t, eo_oid_map = eo_oid_map b0\<rparr>"
  have "cst_map (eo_otk_map b0) 5 = None" using ex_token_None [OF b0(2), of 5] b0(3) by simp
  then have "token_table (xorders demo_xenv ?b) (cst_map t)"
    using token_table_add [OF ex_tt [OF b0(2)], of 0 5 demo_sent] b0(3) p(2) t(2)
    by (simp add: pool tokens_def history_list_def demo_sent_def fresh_order_def)
  moreover have "oid_table (xorders demo_xenv ?b) (cst_map (eo_oid_map b0))"
    using oid_table_add [OF ex_it [OF b0(2)], of 0 demo_sent] b0(3) p(2) by (simp add: pool demo_sent_def fresh_order_def)
  moreover have "orders_ok (xorders demo_xenv ?b)" by (simp add: orders_ok_def p(2) pool demo_sent_def fresh_order_def)
  ultimately have "ex_inv demo_xenv ?b" using p(1) t(1) ex_oids [OF b0(2)] by (simp add: ex_inv_def pool)
  with that [of ?b] p(2) b0(6) pool show ?thesis by simp
qed

section \<open>Properties\<close>

text \<open>
  C13: over any sequence of order entry messages whose acceptances carry fresh nonzero exchange
  ids, the listener keeps the invariant of the execution book, and every order is exactly what the protocol makes
  of it; processing stops early only when the exchange id table is exhausted by an acceptance.
\<close>

theorem ouch_feed_refines:
  assumes "ex_inv E b" "all_allowed ouch_allows spec_ouch ms (xorders E b)"
  shows "(\<exists>b'. run_steps (visit_ouch E) ms b = Some (Inr b') \<and> ex_inv E b' \<and> xorders E b' = fold spec_ouch ms (xorders E b)) \<or>
    (\<exists>before_m m rest b' e. ms = before_m @ m # rest \<and> run_steps (visit_ouch E) before_m b = Some (Inr b') \<and> ex_inv E b' \<and>
      xorders E b' = fold spec_ouch before_m (xorders E b) \<and> ouch_exhausts E m b' \<and> run_steps (visit_ouch E) ms b = Some (Inl e))"
  using ouch.run_refines [OF assms] by auto

definition demo_accept :: ouch_order where
  "demo_accept = \<lparr>ou_otk = 5, ou_oid = 7, ou_qty = 10, ou_price = 5, ou_state = 1\<rparr>"

lemma demo_allowed:
  "all_allowed ouch_allows spec_ouch [Order_accepted demo_accept, Order_canceled \<lparr>uc_oid = 7, uc_cancel_code = 1\<rparr>] [0 \<mapsto> demo_sent]"
  by (simp add: new_exchange_id_def demo_accept_def demo_sent_def fresh_order_def os_LIVE_def)

lemma demo_run:
  "fold spec_ouch [Order_accepted demo_accept, Order_canceled \<lparr>uc_oid = 7, uc_cancel_code = 1\<rparr>] [0 \<mapsto> demo_sent] 0 =
     Some (demo_sent\<lparr>x_oid := 7, x_state := fs_done, x_cancel_code := 1\<rparr>)"
  by (simp add: spec_ouch_def demo_accept_def demo_sent_def fresh_order_def os_LIVE_def awaits_accept_def is_live_def tokens_def)

lemma ouch_feed_refines_witness:
  "\<exists>b. (\<exists>b'. run_steps (visit_ouch demo_xenv) [Order_accepted demo_accept, Order_canceled \<lparr>uc_oid = 7, uc_cancel_code = 1\<rparr>] b = Some (Inr b') \<and>
      xorders demo_xenv b' 0 = Some (demo_sent\<lparr>x_oid := 7, x_state := fs_done, x_cancel_code := 1\<rparr>)) \<or>
    (\<exists>e. run_steps (visit_ouch demo_xenv) [Order_accepted demo_accept, Order_canceled \<lparr>uc_oid = 7, uc_cancel_code = 1\<rparr>] b = Some (Inl e))"
proof -
  obtain b where b: "ex_inv demo_xenv b" "xorders demo_xenv b = [0 \<mapsto> demo_sent]" by (rule demo_xbook)
  show ?thesis using ouch_feed_refines [OF b(1), unfolded b(2), OF demo_allowed] demo_run by metis
qed

text \<open>
  C14: an order's state only moves forward, from created through live to done and from anywhere to
  the error state, whatever messages arrive; no message adds or drops an order, changes its
  tokens or instrument, or its exchange id once it has one.
\<close>

theorem ouch_lifecycle:
  assumes "ex_inv E b" "all_allowed ouch_allows spec_ouch ms (xorders E b)" "run_steps (visit_ouch E) ms b = Some (Inr b')"
  shows "dom (xorders E b') = dom (xorders E b) \<and>
    (\<forall>r ord. xorders E b r = Some ord \<longrightarrow> (\<exists>ord'. xorders E b' r = Some ord' \<and> follows ord ord'))"
  using assms
proof (rule run_ouch_induct)
  fix m b b1 b'
  assume b: "ex_inv E b" "xorders E b1 = spec_ouch m (xorders E b)"
    and IH: "dom (xorders E b') = dom (xorders E b1) \<and>
    (\<forall>r ord. xorders E b1 r = Some ord \<longrightarrow> (\<exists>ord'. xorders E b' r = Some ord' \<and> follows ord ord'))"
  show "dom (xorders E b') = dom (xorders E b) \<and>
    (\<forall>r ord. xorders E b r = Some ord \<longrightarrow> (\<exists>ord'. xorders E b' r = Some ord' \<and> follows ord ord'))"
  proof (intro conjI allI impI)
    show "dom (xorders E b') = dom (xorders E b)" using IH b(2) by (simp add: dom_spec_ouch)
    fix r ord assume "xorders E b r = Some ord"
    then obtain o1 where o1: "spec_ouch m (xorders E b) r = Some o1" "follows ord o1"
      using spec_ouch_follows [OF ex_orders [OF b(1)]] by blast
    then have "xorders E b1 r = Some o1" by (simp add: b(2))
    then obtain ord' where "xorders E b' r = Some ord'" "follows o1 ord'" using IH by blast
    with o1(2) show "\<exists>ord'. xorders E b' r = Some ord' \<and> follows ord ord'" using follows_trans by blast
  qed
qed simp

lemma ouch_lifecycle_witness:
  "\<exists>b ms. run_steps (visit_ouch demo_xenv) ms b \<noteq> None \<and> ms = [Order_rejected \<lparr>uj_otk = 5, uj_reject_code = 3\<rparr>] \<and>
    (\<forall>b'. run_steps (visit_ouch demo_xenv) ms b = Some (Inr b') \<longrightarrow> (\<exists>ord'. xorders demo_xenv b' 0 = Some ord' \<and> follows demo_sent ord'))"
proof -
  obtain b where b: "ex_inv demo_xenv b" "xorders demo_xenv b = [0 \<mapsto> demo_sent]" by (rule demo_xbook)
  let ?ms = "[Order_rejected \<lparr>uj_otk = 5, uj_reject_code = 3\<rparr>]"
  have ok: "all_allowed ouch_allows spec_ouch ?ms (xorders demo_xenv b)" by simp
  from ouch_lifecycle [OF b(1) ok] ouch.run_total [OF b(1) ok] b(2) show ?thesis by auto
qed

text \<open>
  C15: an order the exchange has accepted as not on book stays unremovable, whatever
  messages follow: the pending finalization is never cleared, so the book refuses
  to erase it for good.
\<close>

theorem ouch_finalize_never_erased:
  assumes "ex_inv E b" "all_allowed ouch_allows spec_ouch ms (xorders E b)" "run_steps (visit_ouch E) ms b = Some (Inr b')"
    and "xorders E b r = Some ord" "x_state ord = fs_done OR fp_finalize"
  shows "erase_order E r b' = Some (Inl Agent_runtime)"
proof -
  have "stuck ord" using assms(5) by (simp add: stuck_def is_live_def awaits_accept_def fsm_names fsm_ops)
  then obtain ord' where "xorders E b' r = Some ord'" "stuck ord'" using run_ouch_stuck [OF assms(1-3)] assms(4) by blast
  moreover have "\<not> erasable ord'" using \<open>stuck ord'\<close> by (simp add: stuck_def erasable_def fsm_names)
  ultimately show ?thesis using erase_order_ok [of E b' r ord'] run_ouch_stuck [OF assms(1-3)] by simp
qed

text \<open>
  C16: creating an order under an unused token either fails because the pool or the token table is
  exhausted, or finds the order, in its initial state, under that token from then on, while every
  other token finds what it found before.
\<close>

theorem ex_create_exact:
  assumes "ex_inv E b" "ex_find_order E otk b = Some None"
  shows "((pool_full (xe_pool E) (eo_pool b) \<or> put_fails (xe_otk_traits E) (eo_otk_map b) otk) \<and>
      (\<exists>e. create_order E liid otk b = Some (Inl e))) \<or>
    (\<exists>r b'. create_order E liid otk b = Some (Inr (r, b')) \<and> ex_inv E b' \<and> xorders E b r = None \<and>
      xorders E b' = (xorders E b)(r \<mapsto> fresh_order\<lparr>x_loid := r, x_liid := liid, x_otk := otk\<rparr>) \<and>
      (\<forall>k. ex_find_order E k b' = (if k = otk then Some (Some r) else ex_find_order E k b)))"
proof -
  have new: "cst_map (eo_otk_map b) otk = None" using assms cst.get_law [OF ex_otks [OF assms(1)]] by (simp add: ex_find_order_def)
  have "\<forall>k. ex_find_order E k b' = (if k = otk then Some (Some r) else ex_find_order E k b)"
    if b': "ex_inv E b'" "xorders E b r = None"
      "xorders E b' = (xorders E b)(r \<mapsto> fresh_order\<lparr>x_loid := r, x_liid := liid, x_otk := otk\<rparr>)" for r b'
  proof -
    have "token_table (xorders E b') ((cst_map (eo_otk_map b))(otk \<mapsto> r))"
      using token_table_add [OF ex_tt [OF assms(1)] b'(2) new, of "fresh_order\<lparr>x_loid := r, x_liid := liid, x_otk := otk\<rparr>"]
      by (simp add: b'(3) tokens_def history_list_def fresh_order_def)
    then have "cst_map (eo_otk_map b') = (cst_map (eo_otk_map b))(otk \<mapsto> r)" by (rule token_table_unique [OF ex_tt [OF b'(1)]])
    then show ?thesis using cst.get_law [OF ex_otks [OF assms(1)]] cst.get_law [OF ex_otks [OF b'(1)]] by (simp add: ex_find_order_def)
  qed
  with create_order_ok [OF assms(1) new, of liid] show ?thesis by blast
qed

text \<open>
  C17: erasing an order that is neither pending nor live removes it with its exchange id and all the
  tokens it ever had, leaving every other order in place; any other order is refused without
  a change.
\<close>

theorem ex_erase_exact:
  assumes "ex_inv E b" "xorders E b r = Some ord"
  shows "if pending_state (x_state ord) = 0 \<and> order_state (x_state ord) \<noteq> fs_live
    then \<exists>b'. erase_order E r b = Some (Inr b') \<and> ex_inv E b' \<and> xorders E b' = (xorders E b)(r := None) \<and>
      (\<forall>k. ex_find_order E k b' = (if k \<in> tokens ord then Some None else ex_find_order E k b))
    else erase_order E r b = Some (Inl Agent_runtime)"
proof -
  have "\<forall>k. ex_find_order E k b' = (if k \<in> tokens ord then Some None else ex_find_order E k b)"
    if b': "ex_inv E b'" "xorders E b' = (xorders E b)(r := None)" for b'
  proof -
    have "cst_map (eo_otk_map b') = (\<lambda>k. if k \<in> tokens ord then None else cst_map (eo_otk_map b) k)"
      by (rule token_table_unique [OF ex_tt [OF b'(1)]]) (use token_table_erase [OF ex_tt [OF assms(1)] assms(2)] b'(2) in simp)
    then show ?thesis using cst.get_law [OF ex_otks [OF assms(1)]] cst.get_law [OF ex_otks [OF b'(1)]] by (simp add: ex_find_order_def)
  qed
  with erase_order_ok [OF assms] show ?thesis by (auto simp: erasable_def split: if_splits)
qed

lemma ex_create_exact_witness:
  "\<exists>b. ex_find_order demo_xenv 6 b = Some None \<and>
    ((\<exists>e. create_order demo_xenv 2 6 b = Some (Inl e)) \<or>
     (\<exists>r b'. create_order demo_xenv 2 6 b = Some (Inr (r, b')) \<and> ex_find_order demo_xenv 6 b' = Some (Some r)))"
proof -
  obtain b where b: "ex_inv demo_xenv b" "xorders demo_xenv b = [0 \<mapsto> demo_sent]" by (rule demo_xbook)
  have "cst_map (eo_otk_map b) 6 = None"
    using ex_token_None [OF b(1), of 6] b(2) by (simp add: tokens_def history_list_def demo_sent_def fresh_order_def)
  then have n: "ex_find_order demo_xenv 6 b = Some None" using cst.get_law [OF ex_otks [OF b(1)]] by (simp add: ex_find_order_def)
  from ex_create_exact [OF b(1) n, of 2] n show ?thesis by metis
qed

lemma ex_erase_exact_witness:
  "\<exists>b. xorders demo_xenv b 0 = Some demo_sent \<and> erase_order demo_xenv 0 b = Some (Inl Agent_runtime)"
proof -
  obtain b where b: "ex_inv demo_xenv b" "xorders demo_xenv b = [0 \<mapsto> demo_sent]" by (rule demo_xbook)
  have r: "xorders demo_xenv b 0 = Some demo_sent" by (simp add: b(2))
  have "pending_state (x_state demo_sent) \<noteq> 0" by (simp add: demo_sent_def fsm_names fsm_ops)
  with ex_erase_exact [OF b(1) r] r show ?thesis by auto
qed

lemma ouch_finalize_never_erased_witness:
  "\<exists>b b' ord. xorders demo_xenv b 0 = Some ord \<and> x_state ord = fs_done OR fp_finalize \<and>
    run_steps (visit_ouch demo_xenv) [Order_canceled \<lparr>uc_oid = 7, uc_cancel_code = 1\<rparr>] b = Some (Inr b') \<and>
    erase_order demo_xenv 0 b' = Some (Inl Agent_runtime)"
proof -
  let ?m = "demo_accept\<lparr>ou_state := 2\<rparr>" and ?ms = "[Order_canceled \<lparr>uc_oid = 7, uc_cancel_code = 1\<rparr>]"
  obtain b0 where b0: "ex_inv demo_xenv b0" "xorders demo_xenv b0 = [0 \<mapsto> demo_sent]" "m_size (eo_oid_map b0) = 0" by (rule demo_xbook)
  have "ouch_allows (Order_accepted ?m) (xorders demo_xenv b0)"
    by (simp add: b0(2) new_exchange_id_def demo_accept_def demo_sent_def fresh_order_def os_NOT_ON_BOOK_def)
  moreover have "\<not> ouch_exhausts demo_xenv (Order_accepted ?m) b0" by (simp add: put_fails_def b0(3) capacity_def)
  ultimately obtain b where b: "ex_inv demo_xenv b" "xorders demo_xenv b = spec_ouch (Order_accepted ?m) (xorders demo_xenv b0)"
    using ouch.step_law [OF b0(1)] by blast
  let ?o = "demo_sent\<lparr>x_oid := 7, x_state := off_book\<rparr>"
  have o: "xorders demo_xenv b 0 = Some ?o"
    by (simp add: b(2) b0(2) spec_ouch_def demo_accept_def demo_sent_def fresh_order_def tokens_def awaits_accept_def os_LIVE_def)
  have ok: "all_allowed ouch_allows spec_ouch ?ms (xorders demo_xenv b)" by simp
  from canceled_sim [OF b(1), of "\<lparr>uc_oid = 7, uc_cancel_code = 1\<rparr>"]
  obtain b' where b': "run_steps (visit_ouch demo_xenv) ?ms b = Some (Inr b')" by auto
  have "x_state ?o = fs_done OR fp_finalize" by (simp add: off_book_def)
  with ouch_finalize_never_erased [OF b(1) ok b' o] o b' show ?thesis by blast
qed

end
