(* ===== verification/Manager_Props.thy ===== *)
theory Manager_Props
  imports Manager_Sim Execution_Props
begin

text \<open>
  The properties of the execution manager: what an agent observes, which tokens its requests
  carry and name, and the login barrier.
\<close>

section \<open>The requests of a run\<close>

primrec new_tokens :: "xl_request \<Rightarrow> order_token list" where
  "new_tokens Start_login = []"
| "new_tokens (Submit_order liid otk s price qty TIF) = [otk]"
| "new_tokens (Replace_order liid otk new price qty) = [new]"
| "new_tokens (Cancel_order liid otk) = []"

definition sent_tokens :: "xl_request list \<Rightarrow> order_token list" where
  "sent_tokens reqs = concat (map new_tokens reqs)"

definition tokens_ok :: "32 word \<Rightarrow> agent_view \<Rightarrow> bool" where
  "tokens_ok prefix V \<longleftrightarrow> prefix < 16 \<and> distinct (sent_tokens (av_sent V)) \<and>
     (\<forall>t\<in>set (sent_tokens (av_sent V)). made_below prefix (av_counter V) t)"

lemma tokens_ok_step:
  assumes "tokens_ok prefix V" "agent_allows ev V"
  shows "tokens_ok prefix (spec_agent prefix ev V)"
proof -
  have fresh: "make_with_prefix (av_counter V) prefix \<notin> set (sent_tokens (av_sent V))" if "av_counter V < 2 ^ 28"
    using assms(1) made_below_fresh [OF that] by (auto simp: tokens_ok_def)
  have step: "tokens_ok prefix (V\<lparr>av_orders := P, av_sent := av_sent V @ [req], av_counter := av_counter V + 1\<rparr>)"
    if "av_counter V < 2 ^ 28" "new_tokens req = [make_with_prefix (av_counter V) prefix]" for req P
    using assms(1) fresh [OF that(1)] made_below_next [OF that(1)] made_below_new [OF that(1)]
    by (auto simp: tokens_ok_def sent_tokens_def that(2))
  have same: "tokens_ok prefix (V\<lparr>av_orders := P, av_sent := av_sent V @ [req]\<rparr>)" if "new_tokens req = []" for req P
    using assms(1) by (simp add: tokens_ok_def sent_tokens_def that)
  have keep: "tokens_ok prefix (V\<lparr>av_orders := P\<rparr>)" for P using assms(1) by (simp add: tokens_ok_def)
  show ?thesis
    using assms step same keep by (cases ev) (auto simp: Let_def split: option.splits)
qed

text \<open>
  Which order a token stands for, told from the actions alone: a submission's token stands for
  itself, a replacement's for whatever the token it replaces stands for. Messages play no part.
\<close>

primrec note_token :: "32 word \<Rightarrow> agent_event \<Rightarrow> (order_token \<rightharpoonup> order_token) \<times> 32 word \<Rightarrow> (order_token \<rightharpoonup> order_token) \<times> 32 word" where
  "note_token prefix (Submit TIF liid s price qty) fc =
     ((fst fc)(make_with_prefix (snd fc) prefix \<mapsto> make_with_prefix (snd fc) prefix), snd fc + 1)"
| "note_token prefix (Modify t price qty) fc =
     ((fst fc)(make_with_prefix (snd fc) prefix := fst fc t), snd fc + 1)"
| "note_token prefix (Cancel t) fc = fc"
| "note_token prefix (Erase t) fc = fc"
| "note_token prefix (Receive msg) fc = fc"

definition first_token :: "32 word \<Rightarrow> 32 word \<Rightarrow> agent_event list \<Rightarrow> order_token \<rightharpoonup> order_token" where
  "first_token prefix counter evs = fst (fold (note_token prefix) evs (Map.empty, counter))"

definition names_submissions :: "(order_token \<rightharpoonup> order_token) \<times> 32 word \<Rightarrow> agent_view \<Rightarrow> bool" where
  "names_submissions fc V \<longleftrightarrow> snd fc = av_counter V \<and>
     (\<forall>t ord. av_orders V t = Some ord \<longrightarrow> fst fc t = Some (x_otk ord) \<and>
       (\<exists>s price qty TIF. Submit_order (x_liid ord) (x_otk ord) s price qty TIF \<in> set (av_sent V)))"

lemma names_step:
  assumes "names_submissions fc V" "agent_allows ev V"
  shows "names_submissions (note_token prefix ev fc) (spec_agent prefix ev V)"
proof (cases ev)
  case (Submit TIF liid s price qty)
  with assms show ?thesis by (fastforce simp: names_submissions_def Let_def sent_order_def)
next
  case (Modify t price qty)
  with assms(2) obtain ord where "av_orders V t = Some ord" by auto
  with Modify assms(1) show ?thesis by (fastforce simp: names_submissions_def Let_def change_order_def)
next
  case (Cancel t)
  with assms(2) obtain ord where "av_orders V t = Some ord" by auto
  with Cancel assms(1) show ?thesis by (fastforce simp: names_submissions_def change_order_def)
next
  case (Erase t)
  with assms(1) show ?thesis by (cases "av_orders V t") (auto simp: names_submissions_def)
next
  case (Receive m)
  have "x_otk (if addresses m ord then order_after m ord else ord) = x_otk ord"
    "x_liid (if addresses m ord then order_after m ord else ord) = x_liid ord" for ord
    by (cases m; simp add: fsm_error_transition_def Let_def)+
  then have "\<exists>ord0. av_orders V t = Some ord0 \<and> x_otk ord = x_otk ord0 \<and> x_liid ord = x_liid ord0"
    if "spec_ouch m (av_orders V) t = Some ord" for t ord
    using that by (auto simp: spec_ouch_def)
  with assms(1) Receive show ?thesis by (fastforce simp: names_submissions_def)
qed

lemma names_fold:
  assumes "names_submissions fc V" "all_allowed agent_allows (spec_agent prefix) evs V"
  shows "names_submissions (fold (note_token prefix) evs fc) (fold (spec_agent prefix) evs V)"
  using assms
proof (induction evs arbitrary: fc V)
  case (Cons ev evs)
  then show ?case using names_step [of fc V ev prefix] by simp
qed simp

lemma spec_agent_card:
  assumes "\<And>t. ev \<noteq> Erase t" "finite (dom (av_orders V))"
  shows "card (dom (av_orders (spec_agent prefix ev V))) \<le> Suc (card (dom (av_orders V)))"
proof -
  have d: "dom (change_order ord f P) = dom P" for ord f P by (auto simp: change_order_def dom_def)
  have s: "dom (spec_ouch m P) = dom P" for m P by (auto simp: spec_ouch_def dom_def)
  show ?thesis using assms
    by (cases ev) (auto simp: Let_def d s card_insert_if split: option.split)
qed

lemma fold_spec_invariant:
  assumes "Q V" "all_allowed agent_allows (spec_agent prefix) evs V" "\<And>ev V. Q V \<Longrightarrow> agent_allows ev V \<Longrightarrow> Q (spec_agent prefix ev V)"
  shows "Q (fold (spec_agent prefix) evs V)"
  using assms(1,2)
proof (induction evs arbitrary: V)
  case (Cons ev evs)
  then show ?case using Cons.IH [of "spec_agent prefix ev V"] assms(3) by simp
qed simp

section \<open>A new manager\<close>

definition new_manager :: "eo_book \<Rightarrow> 32 word \<Rightarrow> 32 word \<Rightarrow> ex_manager" where
  "new_manager b counter prefix = \<lparr>xm_book = b, xm_queue = [], xm_try = 0, xm_state = State_start, xm_partition_mask = 0xF,
     xm_otk_counter = counter, xm_otk_prefix = prefix, xm_liids = [], xm_login_pending = 0,
     xm_sessions = replicate 4 \<lparr>sc_seqnum = 0, sc_name = []\<rparr>\<rparr>"

lemma demo_manager:
  obtains b where "manager_inv demo_xenv (\<lambda>_. True) 0xA (new_manager b 1 0xA)" "portfolio demo_xenv b = Map.empty"
proof -
  have pool: "xe_pool demo_xenv = demo_pool_opts" by (simp add: demo_xenv_def)
  obtain b where b: "ex_book_new demo_xenv demo_pool = Inr b" "ex_inv demo_xenv b" "xorders demo_xenv b = Map.empty"
    by (rule ex_book_new_ok [of demo_xenv demo_pool]) (simp_all add: demo_xenv_capacity pool demo_pool_inv demo_pool_empty)
  have "portfolio demo_xenv b t = None" for t by (rule portfolio_miss [OF b(2)]) (simp add: b(3))
  then have "portfolio demo_xenv b = Map.empty" by blast
  moreover have "manager_inv demo_xenv (\<lambda>_. True) 0xA (new_manager b 1 0xA)"
    using b by (auto simp: manager_inv_def new_manager_def)
  ultimately show ?thesis using that by blast
qed

text \<open>Few orders do not exhaust the demonstration's storage, so its runs succeed.\<close>

lemma demo_agent_room:
  assumes inv: "manager_inv demo_xenv room prefix M" and few: "card (dom (portfolio demo_xenv (xm_book M))) < 6"
    and ev: "\<And>t. ev \<noteq> Erase t"
  shows "\<not> agent_stops demo_xenv ev M"
proof -
  let ?b = "xm_book M"
  note book = mi_book [OF inv]
  let ?T = "cst_map (eo_otk_map ?b)" and ?I = "cst_map (eo_oid_map ?b)" and ?A = "xorders demo_xenv ?b"
  have d: "dom (portfolio demo_xenv ?b) = dom ?T" using portfolio_None [OF book] by (auto simp: dom_def)
  have cap: "max_capacity (xe_otk_traits demo_xenv) = 16384" "max_capacity (xe_oid_traits demo_xenv) = 16384"
    by (rule demo_xenv_capacity)+
  have fin: "finite (dom ?T)" by (rule finite_cst_map)
  have "dom ?A \<subseteq> (\<lambda>t. the (?T t)) ` dom ?T"
  proof
    fix r assume "r \<in> dom ?A"
    then obtain ord where "?A r = Some ord" by auto
    then have "?T (x_otk ord) = Some r" using ex_tokens [OF book, of "x_otk ord" r] by auto
    then show "r \<in> (\<lambda>t. the (?T t)) ` dom ?T" by force
  qed
  then have A: "card (dom ?A) < 6" "finite (dom ?A)"
    using surj_card_le [OF fin] few d fin by (fastforce, meson finite_imageI finite_subset)
  have "dom ?I \<subseteq> (\<lambda>r. x_oid (the (?A r))) ` dom ?A"
  proof
    fix i assume "i \<in> dom ?I"
    then obtain r where "?I i = Some r" by auto
    then obtain ord where "?A r = Some ord" "x_oid ord = i" using ex_ids [OF book, of i r] by auto
    then show "i \<in> (\<lambda>r. x_oid (the (?A r))) ` dom ?A" by force
  qed
  then have I: "card (dom ?I) < 6" using surj_card_le [OF A(2)] A(1) by fastforce
  have pool: "\<not> pool_full (xe_pool demo_xenv) (eo_pool ?b)"
  proof
    assume "pool_full (xe_pool demo_xenv) (eo_pool ?b)"
    then have "card (dom ?A) = pool_capacity demo_pool_opts (eo_pool ?b)" "7 < pool_capacity demo_pool_opts (eo_pool ?b) + 2"
      by (simp_all add: pool_full_def demo_xenv_def demo_pool_limits)
    with A(1) show False by simp
  qed
  have "\<not> put_fails (xe_otk_traits demo_xenv) (eo_otk_map ?b) t" for t
    using cst_count [OF ex_otks [OF book]] few d cap(1) by (auto simp: put_fails_def demo_xenv_def)
  moreover have "\<not> put_fails (xe_oid_traits demo_xenv) (eo_oid_map ?b) i" for i
    using cst_count [OF ex_oids [OF book]] I cap(2) by (auto simp: put_fails_def demo_xenv_def)
  moreover have "\<not> ouch_exhausts demo_xenv m ?b" for m by (cases m) (simp_all add: calculation)
  ultimately show ?thesis
  proof (cases ev)
    case (Erase t)
    with ev show ?thesis by blast
  qed (use pool in simp_all)
qed

lemma demo_agent_run:
  assumes "manager_inv demo_xenv room prefix M" "all_allowed agent_allows (spec_agent prefix) evs (manager_view demo_xenv M)"
    and "card (dom (portfolio demo_xenv (xm_book M))) + length evs \<le> 6" "\<And>t. Erase t \<notin> set evs"
  obtains M' where "run_steps (agent_step demo_xenv room) evs M = Some (Inr M')"
proof -
  have "\<exists>M'. run_steps (agent_step demo_xenv room) evs M = Some (Inr M')"
    using assms
  proof (induction evs arbitrary: M)
    case (Cons ev evs)
    let ?P = "portfolio demo_xenv (xm_book M)"
    have ns: "\<not> agent_stops demo_xenv ev M"
      by (rule demo_agent_room [OF Cons.prems(1)]) (use Cons.prems(3,4) in auto)
    have ok: "agent_allows ev (manager_view demo_xenv M)" using Cons.prems(2) by simp
    from agent.step_law [OF Cons.prems(1) ok] ns obtain M1 where
      M1: "agent_step demo_xenv room ev M = Some (Inr M1)" "manager_inv demo_xenv room prefix M1"
        "manager_view demo_xenv M1 = spec_agent prefix ev (manager_view demo_xenv M)" by blast
    have "finite (dom ?P)"
      using finite_cst_map [of "eo_otk_map (xm_book M)"] portfolio_None [OF mi_book [OF Cons.prems(1)]]
      by (metis domIff subsetI finite_subset)
    then have "card (dom (av_orders (spec_agent prefix ev (manager_view demo_xenv M)))) \<le> Suc (card (dom ?P))"
      using spec_agent_card [of ev "manager_view demo_xenv M" prefix] Cons.prems(4) by auto
    then have "card (dom (portfolio demo_xenv (xm_book M1))) \<le> Suc (card (dom ?P))" by (simp flip: M1(3))
    with Cons.IH [OF M1(2)] Cons.prems M1 show ?case by simp
  qed simp
  with that show ?thesis by blast
qed

section \<open>Logging in\<close>

primrec login_acks :: "(nat \<times> string \<times> string) list \<Rightarrow> ex_manager \<Rightarrow> ex_manager result option" where
  "login_acks [] M = Some (Inr M)"
| "login_acks (ack # acks) M =
     (case ack of (pix, session, seqnum) \<Rightarrow> bind_ro (visit_login_accepted pix session seqnum M) (login_acks acks))"

definition readable_ack :: "nat \<times> string \<times> string \<Rightarrow> bool" where
  "readable_ack ack \<longleftrightarrow>
     (let s = ltrim CHR '' '' (snd (snd ack)) in s = [] \<or> parse_decimal_signed s \<noteq> (None :: 64 word option))"

lemma pending_bit: "xm_login_pending M AND push_bit pix 1 = 0 \<longleftrightarrow> \<not> bit (xm_login_pending M) pix"
  using bit_iff_and_push_bit_not_eq_0 [of "xm_login_pending M" pix] by simp

lemma cleared_bit:
  "bit ((w :: 32 word) AND NOT (push_bit pix 1)) n \<longleftrightarrow> bit w n \<and> n \<noteq> pix"
  by (auto simp: bit_simps dest: bit_imp_le_length)

lemma login_acks_exact:
  assumes "list_all readable_ack acks"
  shows "if distinct (map fst acks) \<and> (\<forall>pix\<in>set (map fst acks). bit (xm_login_pending M) pix)
   then \<exists>M'. login_acks acks M = Some (Inr M') \<and> xm_state M' = xm_state M \<and>
     (\<forall>n. bit (xm_login_pending M') n \<longleftrightarrow> bit (xm_login_pending M) n \<and> n \<notin> set (map fst acks))
   else login_acks acks M = Some (Inl Check_failure)"
  using assms
proof (induction acks arbitrary: M)
  case (Cons ack acks)
  obtain pix session seqnum where ack: "ack = (pix, session, seqnum)" by (cases ack)
  show ?case
  proof (cases "bit (xm_login_pending M) pix")
    case False
    then have "visit_login_accepted pix session seqnum M = Some (Inl Check_failure)"
      unfolding visit_login_accepted_def pending_bit by simp
    then have "login_acks (ack # acks) M = Some (Inl Check_failure)" by (simp add: ack)
    with False show ?thesis by (simp add: ack)
  next
    case True
    moreover obtain n where "ltrim CHR '' '' seqnum = [] \<or> ltrim CHR '' '' seqnum \<noteq> [] \<and> parse_decimal_signed (ltrim CHR '' '' seqnum) = Some (n :: 64 word)"
      using Cons.prems by (auto simp: readable_ack_def Let_def ack)
    ultimately obtain M1 where M1: "visit_login_accepted pix session seqnum M = Some (Inr M1)" "xm_state M1 = xm_state M"
      "xm_login_pending M1 = xm_login_pending M AND NOT (push_bit pix 1)"
      unfolding visit_login_accepted_def pending_bit Let_def by auto
    have run: "login_acks (ack # acks) M = login_acks acks M1" by (simp add: ack M1(1))
    have p: "bit (xm_login_pending M1) n \<longleftrightarrow> bit (xm_login_pending M) n \<and> n \<noteq> pix" for n by (simp only: M1(3) cleared_bit)
    have "distinct (map fst (ack # acks)) \<and> (\<forall>q\<in>set (map fst (ack # acks)). bit (xm_login_pending M) q) \<longleftrightarrow>
        distinct (map fst acks) \<and> (\<forall>q\<in>set (map fst acks). bit (xm_login_pending M1) q)"
      using True by (auto simp: ack p)
    with Cons.IH [of M1] Cons.prems run M1(2) p show ?thesis by (auto simp: ack)
  qed
qed simp

section \<open>Properties\<close>

text \<open>
  C21: over any sequence of an agent's actions and received messages the manager shows the agent
  exactly the specified orders under exactly their tokens, and sends exactly the specified requests, as long as actions
  name orders of the book, counters stay below the prefix digit and the queue keeps draining; it
  stops early only for exhausted storage or an order that may not be erased, everything before
  that being as specified.
\<close>

theorem agent_refines:
  assumes "manager_inv E room prefix M" "all_allowed agent_allows (spec_agent prefix) evs (manager_view E M)"
  shows "(\<exists>M'. run_steps (agent_step E room) evs M = Some (Inr M') \<and> manager_inv E room prefix M' \<and>
      manager_view E M' = fold (spec_agent prefix) evs (manager_view E M)) \<or>
    (\<exists>before_ev ev rest M' e. evs = before_ev @ ev # rest \<and> run_steps (agent_step E room) before_ev M = Some (Inr M') \<and>
      manager_inv E room prefix M' \<and> manager_view E M' = fold (spec_agent prefix) before_ev (manager_view E M) \<and>
      agent_stops E ev M' \<and> run_steps (agent_step E room) evs M = Some (Inl e))"
  using agent.run_refines [OF assms] by auto

definition demo_token :: order_token where
  "demo_token = make_with_prefix 1 0xA"

text \<open>The demonstration's manager, before its first action.\<close>

lemma demo_start:
  obtains b where "manager_inv demo_xenv (\<lambda>_. True) 0xA (new_manager b 1 0xA)" "portfolio demo_xenv b = Map.empty"
    "manager_view demo_xenv (new_manager b 1 0xA) = \<lparr>av_orders = Map.empty, av_sent = [], av_counter = 1\<rparr>"
    "xm_queue (new_manager b 1 0xA) = []" "xm_book (new_manager b 1 0xA) = b" "xm_otk_counter (new_manager b 1 0xA) = 1"
proof -
  obtain b where b: "manager_inv demo_xenv (\<lambda>_. True) 0xA (new_manager b 1 0xA)" "portfolio demo_xenv b = Map.empty"
    by (rule demo_manager)
  then show ?thesis by (intro that [of b]) (simp_all add: manager_view_def new_manager_def)
qed

lemma demo_tokens: "make_with_prefix 2 0xA \<noteq> demo_token" "make_with_prefix 3 0xA \<noteq> demo_token"
    "make_with_prefix 3 0xA \<noteq> make_with_prefix 2 0xA" "make_with_prefix 1 0xA = demo_token"
  by (simp_all add: demo_token_def make_with_prefix_inj)

lemma agent_refines_witness:
  "\<exists>b M'. run_steps (agent_step demo_xenv (\<lambda>_. True)) [Submit 0 2 BID 1000 10, Cancel demo_token] (new_manager b 1 0xA) = Some (Inr M') \<and>
      xm_queue M' = [Submit_order 2 demo_token Buy 1000 10 0, Cancel_order 2 demo_token]"
proof -
  let ?evs = "[Submit 0 2 BID 1000 10, Cancel demo_token]"
  obtain b where b: "manager_inv demo_xenv (\<lambda>_. True) 0xA (new_manager b 1 0xA)" "portfolio demo_xenv b = Map.empty"
    "manager_view demo_xenv (new_manager b 1 0xA) = \<lparr>av_orders = Map.empty, av_sent = [], av_counter = 1\<rparr>"
    "xm_queue (new_manager b 1 0xA) = []" "xm_book (new_manager b 1 0xA) = b" "xm_otk_counter (new_manager b 1 0xA) = 1"
    by (rule demo_start)
  have ok: "all_allowed agent_allows (spec_agent 0xA) ?evs (manager_view demo_xenv (new_manager b 1 0xA))"
    by (simp add: b(3) demo_tokens Let_def)
  obtain M' where M': "run_steps (agent_step demo_xenv (\<lambda>_. True)) ?evs (new_manager b 1 0xA) = Some (Inr M')"
    by (rule demo_agent_run [OF b(1) ok]) (simp_all add: b(2,5))
  have "av_sent (fold (spec_agent 0xA) ?evs (manager_view demo_xenv (new_manager b 1 0xA))) =
      [Submit_order 2 demo_token Buy 1000 10 0, Cancel_order 2 demo_token]"
    by (simp add: b(3) demo_tokens Let_def sent_order_def)
  moreover have "manager_view demo_xenv M' = fold (spec_agent 0xA) ?evs (manager_view demo_xenv (new_manager b 1 0xA))"
    using agent_refines [OF b(1) ok] M' by auto
  ultimately show ?thesis using M' by (metis manager_view_simps(2))
qed

text \<open>
  C22: after any admissible run (the actions name orders of the book and counters stay below \<open>2 ^ 28\<close>) that an agent
  with a prefix digit carries out from an empty queue, no two of its requests carry the same new
  token, and every new token is made from the agent's own prefix, so it meets no token that an agent with another prefix
  makes from a counter below \<open>2 ^ 28\<close>. A run that stops has carried out the actions before the one
  that failed, to which the same applies.
\<close>

theorem agent_tokens_fresh:
  assumes "manager_inv E room prefix M" "xm_queue M = []" "all_allowed agent_allows (spec_agent prefix) evs (manager_view E M)"
    and "run_steps (agent_step E room) evs M = Some (Inr M')"
  shows "distinct (sent_tokens (xm_queue M')) \<and>
    (\<forall>t\<in>set (sent_tokens (xm_queue M')). \<forall>v q. v < 2 ^ 28 \<longrightarrow> q < 16 \<longrightarrow> q \<noteq> prefix \<longrightarrow> t \<noteq> make_with_prefix v q)"
proof -
  from agent.run_refines [OF assms(1,3)] assms(4)
  have M': "manager_inv E room prefix M'" "manager_view E M' = fold (spec_agent prefix) evs (manager_view E M)" by auto
  have "tokens_ok prefix (manager_view E M)" using assms(1,2) mi_prefix by (simp add: tokens_ok_def sent_tokens_def)
  then have ok: "tokens_ok prefix (manager_view E M')"
    unfolding M'(2) by (rule fold_spec_invariant [of "tokens_ok prefix", OF _ assms(3) tokens_ok_step])
  have "t \<noteq> make_with_prefix v q" if t: "t \<in> set (sent_tokens (xm_queue M'))" and v: "v < 2 ^ 28" "q < 16" "q \<noteq> prefix" for t v q
  proof -
    obtain u where u: "unat u < unat (xm_otk_counter M')" "t = make_with_prefix u prefix"
      using ok t by (auto simp: tokens_ok_def made_below_def)
    then have "unat u < 2 ^ 28" using mi_counter [OF M'(1)] by linarith
    then have "u < 2 ^ 28" by (simp add: word_less_nat_alt)
    with u(2) v make_with_prefix_inj [OF this v(1) mi_prefix(2) [OF M'(1)] v(2)] show ?thesis by metis
  qed
  with ok show ?thesis by (auto simp: tokens_ok_def)
qed

lemma agent_tokens_fresh_witness:
  "\<exists>b M'. run_steps (agent_step demo_xenv (\<lambda>_. True)) [Submit 0 2 BID 1000 10, Modify demo_token 1001 10] (new_manager b 1 0xA) = Some (Inr M') \<and>
    sent_tokens (xm_queue M') = [demo_token, make_with_prefix 2 0xA] \<and> distinct (sent_tokens (xm_queue M')) \<and>
    (\<forall>v q. v < 2 ^ 28 \<longrightarrow> q < 16 \<longrightarrow> q \<noteq> 0xA \<longrightarrow> demo_token \<noteq> make_with_prefix v q)"
proof -
  let ?evs = "[Submit 0 2 BID 1000 10, Modify demo_token 1001 10]"
  obtain b where b: "manager_inv demo_xenv (\<lambda>_. True) 0xA (new_manager b 1 0xA)" "portfolio demo_xenv b = Map.empty"
    "manager_view demo_xenv (new_manager b 1 0xA) = \<lparr>av_orders = Map.empty, av_sent = [], av_counter = 1\<rparr>"
    "xm_queue (new_manager b 1 0xA) = []" "xm_book (new_manager b 1 0xA) = b" "xm_otk_counter (new_manager b 1 0xA) = 1"
    by (rule demo_start)
  have ok: "all_allowed agent_allows (spec_agent 0xA) ?evs (manager_view demo_xenv (new_manager b 1 0xA))"
    by (simp add: b(3) demo_tokens Let_def)
  obtain M' where M': "run_steps (agent_step demo_xenv (\<lambda>_. True)) ?evs (new_manager b 1 0xA) = Some (Inr M')"
    by (rule demo_agent_run [OF b(1) ok]) (simp_all add: b(2,5))
  have "manager_view demo_xenv M' = fold (spec_agent 0xA) ?evs (manager_view demo_xenv (new_manager b 1 0xA))"
    using agent.run_refines [OF b(1) ok] M' by auto
  then have "av_sent (manager_view demo_xenv M') =
      [Submit_order 2 demo_token Buy 1000 10 0, Replace_order 2 demo_token (make_with_prefix 2 0xA) 1001 10]"
    by (simp add: b(3) demo_tokens Let_def sent_order_def)
  then have q: "sent_tokens (xm_queue M') = [demo_token, make_with_prefix 2 0xA]" by (simp add: sent_tokens_def)
  from agent_tokens_fresh [OF b(1,4) ok M'] have "distinct (sent_tokens (xm_queue M'))"
    "\<forall>v q. v < 2 ^ 28 \<longrightarrow> q < 16 \<longrightarrow> q \<noteq> 0xA \<longrightarrow> demo_token \<noteq> make_with_prefix v q" by (simp_all add: q)
  with M' q show ?thesis by blast
qed

text \<open>
  C23: after any such run from an empty book, take any order the agent has under any of its tokens.
  A request to cancel it is sent, and a request to replace it carries out when it succeeds, naming
  the token (and the instrument) under which that very order was submitted: the one found by
  following the agent's own replacements back from the token the action names, whatever the
  exchange has acknowledged since; and the submission is among the requests sent.
\<close>

theorem agent_names_first_token:
  assumes "manager_inv E room prefix M" "xm_queue M = []" "portfolio E (xm_book M) = Map.empty"
    and "all_allowed agent_allows (spec_agent prefix) evs (manager_view E M)"
    and "run_steps (agent_step E room) evs M = Some (Inr M')" "portfolio E (xm_book M') t = Some ord"
  shows "\<exists>first. first_token prefix (xm_otk_counter M) evs t = Some first \<and>
    (\<exists>s price qty TIF. Submit_order (x_liid ord) first s price qty TIF \<in> set (xm_queue M')) \<and>
    (\<exists>M''. cancel_order E room t M' = Some (Inr M'') \<and> xm_queue M'' = xm_queue M' @ [Cancel_order (x_liid ord) first]) \<and>
    (\<forall>price qty M''. xm_otk_counter M' < 2 ^ 28 \<longrightarrow> modify_order E room t price qty M' = Some (Inr M'') \<longrightarrow>
      xm_queue M'' = xm_queue M' @ [Replace_order (x_liid ord) first (make_with_prefix (xm_otk_counter M') prefix) price qty])"
proof -
  from agent.run_refines [OF assms(1,4)] assms(5)
  have M': "manager_inv E room prefix M'" "manager_view E M' = fold (spec_agent prefix) evs (manager_view E M)" by auto
  have "names_submissions (Map.empty, xm_otk_counter M) (manager_view E M)" using assms(3) by (simp add: names_submissions_def)
  from names_fold [OF this assms(4)] assms(6)
  have f: "first_token prefix (xm_otk_counter M) evs t = Some (x_otk ord)"
    "\<exists>s price qty TIF. Submit_order (x_liid ord) (x_otk ord) s price qty TIF \<in> set (xm_queue M')"
    by (simp_all add: names_submissions_def first_token_def flip: M'(2))
  have t: "portfolio E (xm_book M') t \<noteq> None" using assms(6) by simp
  have c: "\<exists>M''. cancel_order E room t M' = Some (Inr M'') \<and> xm_queue M'' = xm_queue M' @ [Cancel_order (x_liid ord) (x_otk ord)]"
  proof -
    obtain M'' where "cancel_order E room t M' = Some (Inr M'')" "manager_view E M'' = spec_agent prefix (Cancel t) (manager_view E M')"
      using cancel_sim [OF M'(1) t] by blast
    moreover from this(2) have "av_sent (manager_view E M'') = xm_queue M' @ [Cancel_order (x_liid ord) (x_otk ord)]"
      by (simp add: assms(6))
    ultimately show ?thesis by (metis manager_view_simps(2))
  qed
  have "xm_queue M'' = xm_queue M' @ [Replace_order (x_liid ord) (x_otk ord) (make_with_prefix (xm_otk_counter M') prefix) price qty]"
    if "xm_otk_counter M' < 2 ^ 28" "modify_order E room t price qty M' = Some (Inr M'')" for price qty M''
  proof -
    from modify_sim [OF M'(1) that(1) t, of price qty] that(2)
    have "manager_view E M'' = spec_agent prefix (Modify t price qty) (manager_view E M')" by auto
    then have "av_sent (manager_view E M'') =
        xm_queue M' @ [Replace_order (x_liid ord) (x_otk ord) (make_with_prefix (xm_otk_counter M') prefix) price qty]"
      by (simp add: assms(6) Let_def)
    then show ?thesis by simp
  qed
  with f c show ?thesis by blast
qed

lemma demo_sent3:
  "av_sent (fold (spec_agent 0xA) [Submit 0 2 BID 1000 10, Submit 0 3 ASK 1005 7, Modify demo_token 1001 10]
      \<lparr>av_orders = Map.empty, av_sent = [], av_counter = 1\<rparr>) =
    [Submit_order 2 demo_token Buy 1000 10 0, Submit_order 3 (make_with_prefix 2 0xA) Sell 1005 7 0,
      Replace_order 2 demo_token (make_with_prefix 3 0xA) 1001 10]"
  using demo_tokens by (simp add: Let_def sent_order_def)

lemma demo_order3:
  "\<exists>ord. av_orders (fold (spec_agent 0xA) [Submit 0 2 BID 1000 10, Submit 0 3 ASK 1005 7, Modify demo_token 1001 10]
      \<lparr>av_orders = Map.empty, av_sent = [], av_counter = 1\<rparr>) (make_with_prefix 3 0xA) = Some ord \<and> x_liid ord = 2"
  using demo_tokens by (simp add: Let_def sent_order_def)

lemma agent_names_first_token_witness:
  "\<exists>b M' M''. run_steps (agent_step demo_xenv (\<lambda>_. True))
      [Submit 0 2 BID 1000 10, Submit 0 3 ASK 1005 7, Modify demo_token 1001 10] (new_manager b 1 0xA) = Some (Inr M') \<and>
    cancel_order demo_xenv (\<lambda>_. True) (make_with_prefix 3 0xA) M' = Some (Inr M'') \<and>
    xm_queue M'' = [Submit_order 2 demo_token Buy 1000 10 0, Submit_order 3 (make_with_prefix 2 0xA) Sell 1005 7 0,
      Replace_order 2 demo_token (make_with_prefix 3 0xA) 1001 10, Cancel_order 2 demo_token]"
proof -
  let ?evs = "[Submit 0 2 BID 1000 10, Submit 0 3 ASK 1005 7, Modify demo_token 1001 10]"
  obtain b where b: "manager_inv demo_xenv (\<lambda>_. True) 0xA (new_manager b 1 0xA)" "portfolio demo_xenv b = Map.empty"
    "manager_view demo_xenv (new_manager b 1 0xA) = \<lparr>av_orders = Map.empty, av_sent = [], av_counter = 1\<rparr>"
    "xm_queue (new_manager b 1 0xA) = []" "xm_book (new_manager b 1 0xA) = b" "xm_otk_counter (new_manager b 1 0xA) = 1"
    by (rule demo_start)
  have ok: "all_allowed agent_allows (spec_agent 0xA) ?evs (manager_view demo_xenv (new_manager b 1 0xA))"
    by (simp add: b(3) demo_tokens Let_def)
  obtain M' where M': "run_steps (agent_step demo_xenv (\<lambda>_. True)) ?evs (new_manager b 1 0xA) = Some (Inr M')"
    by (rule demo_agent_run [OF b(1) ok]) (simp_all add: b(2,5))
  have v: "manager_view demo_xenv M' = fold (spec_agent 0xA) ?evs (manager_view demo_xenv (new_manager b 1 0xA))"
    using agent.run_refines [OF b(1) ok] M' by auto
  then have q: "xm_queue M' = [Submit_order 2 demo_token Buy 1000 10 0, Submit_order 3 (make_with_prefix 2 0xA) Sell 1005 7 0,
      Replace_order 2 demo_token (make_with_prefix 3 0xA) 1001 10]"
    by (metis manager_view_simps(2) demo_sent3 b(3))
  obtain ord where ord: "portfolio demo_xenv (xm_book M') (make_with_prefix 3 0xA) = Some ord" "x_liid ord = 2"
    by (metis v manager_view_simps(1) demo_order3 b(3))
  have "portfolio demo_xenv (xm_book (new_manager b 1 0xA)) = Map.empty" by (simp add: b(2,5))
  from agent_names_first_token [OF b(1,4) this ok M' ord(1)]
  obtain first M'' where f: "first_token 0xA 1 ?evs (make_with_prefix 3 0xA) = Some first"
    "cancel_order demo_xenv (\<lambda>_. True) (make_with_prefix 3 0xA) M' = Some (Inr M'')"
    "xm_queue M'' = xm_queue M' @ [Cancel_order 2 first]"
    unfolding ord(2) b(6) by blast
  have "first = demo_token" using f(1) demo_tokens by (simp add: first_token_def)
  with f(2,3) q M' show ?thesis by (intro exI [of _ b] exI [of _ M'] exI [of _ M'']) simp
qed

text \<open>
  The login barrier opens exactly when every partition of the agent has acknowledged: from
  the start state one successful request raises the barrier, each expected acknowledgement clears
  its partition, an acknowledgement that is repeated or not expected is refused, and
  the manager's next step starts it running exactly when none is missing.
\<close>

theorem login_barrier_exact:
  assumes "xm_state M = State_start" "room (xm_try M)" "list_all readable_ack acks"
  shows "\<exists>M1. login_transition room M = Some M1 \<and> xm_queue M1 = xm_queue M @ [Start_login] \<and> xm_state M1 = State_login_barrier \<and>
    (if distinct (map fst acks) \<and> (\<forall>pix\<in>set (map fst acks). bit (xm_partition_mask M) pix)
     then \<exists>M2 M3. login_acks acks M1 = Some (Inr M2) \<and> login_transition room M2 = Some M3 \<and>
       xm_state M3 = (if \<forall>n. bit (xm_partition_mask M) n \<longrightarrow> n \<in> set (map fst acks) then State_running else State_login_barrier)
     else login_acks acks M1 = Some (Inl Check_failure))"
proof -
  let ?M1 = "M\<lparr>xm_try := Suc (xm_try M), xm_queue := xm_queue M @ [Start_login],
    xm_login_pending := xm_partition_mask M, xm_state := State_login_barrier\<rparr>"
  have M1: "login_transition room M = Some ?M1" using assms by (simp add: login_transition_def)
  have "if distinct (map fst acks) \<and> (\<forall>pix\<in>set (map fst acks). bit (xm_partition_mask M) pix)
     then \<exists>M2 M3. login_acks acks ?M1 = Some (Inr M2) \<and> login_transition room M2 = Some M3 \<and>
       xm_state M3 = (if \<forall>n. bit (xm_partition_mask M) n \<longrightarrow> n \<in> set (map fst acks) then State_running else State_login_barrier)
     else login_acks acks ?M1 = Some (Inl Check_failure)"
  proof (cases "distinct (map fst acks) \<and> (\<forall>pix\<in>set (map fst acks). bit (xm_partition_mask M) pix)")
    case True
    with login_acks_exact [OF assms(3), of ?M1]
    obtain M2 where M2: "login_acks acks ?M1 = Some (Inr M2)" "xm_state M2 = State_login_barrier"
      "\<forall>n. bit (xm_login_pending M2) n \<longleftrightarrow> bit (xm_partition_mask M) n \<and> n \<notin> set (map fst acks)" by auto
    have "xm_login_pending M2 = 0 \<longleftrightarrow> (\<forall>n. bit (xm_partition_mask M) n \<longrightarrow> n \<in> set (map fst acks))"
      using M2(3) bit_eq_iff [of "xm_login_pending M2" 0] by auto
    with M2(1,2) True show ?thesis by (auto simp: login_transition_def)
  next
    case False
    with login_acks_exact [OF assms(3), of ?M1] show ?thesis by auto
  qed
  with M1 show ?thesis by (intro exI [of _ ?M1]) simp
qed

lemma login_barrier_exact_witness:
  "\<exists>M1. login_transition (\<lambda>_. True) (new_manager undefined 1 0xA) = Some M1 \<and>
    (\<exists>M2. login_acks [(0, ''S'', ''1''), (1, ''S'', ''1''), (2, ''S'', ''1''), (3, ''S'', ''1'')] M1 = Some (Inr M2))"
  using login_barrier_exact [of "new_manager undefined 1 0xA" "\<lambda>_. True" "[(0, ''S'', ''1''), (1, ''S'', ''1''), (2, ''S'', ''1''), (3, ''S'', ''1'')]"]
  by (auto simp: new_manager_def bit_iff_odd readable_ack_def parse_decimal_signed_def)

end
