(* ===== verification/Decimal_Print.thy ===== *)
theory Decimal_Print
  imports Decimal
begin

text \<open>
  The logarithm is exact, the printers write the decimal digits and nothing else, and the parser
  reads them back. The reference is \<open>dec\<close>, the digits of a number by repeated division.
\<close>

section \<open>The integer logarithm is exact\<close>

lemma top_bit_diff:
  fixes a b :: "'a::len word"
  assumes w: "LENGTH('a) = Suc w"
  shows "unat b \<le> unat a \<Longrightarrow> unat a - unat b < 2 ^ w \<Longrightarrow> drop_bit w (a - b) = 0"
    and "unat a < unat b \<Longrightarrow> unat b - unat a \<le> 2 ^ w \<Longrightarrow> drop_bit w (a - b) = 1"
proof -
  have top: "unat (drop_bit w (a - b)) = unat (a - b) div 2 ^ w" by (subst unat_drop_bit_eq) (simp only: drop_bit_eq_div)
  show "drop_bit w (a - b) = 0" if "unat b \<le> unat a" "unat a - unat b < 2 ^ w"
    using that top by (simp add: unat_sub_if' unsigned_eq_0_iff)
  show "drop_bit w (a - b) = 1" if "unat a < unat b" "unat b - unat a \<le> 2 ^ w"
  proof -
    have lt: "unat b < 2 * 2 ^ w" using unsigned_less [of b, where ?'a = nat] w by simp
    have "unat (a - b) = unat a + 2 * 2 ^ w - unat b" using that(1) w by (simp add: unat_sub_if')
    then have "2 ^ w \<le> unat (a - b)" "unat (a - b) < 2 * 2 ^ w" using that lt by simp_all
    then have "unat (a - b) div 2 ^ w = 1" by (simp add: div_nat_eqI)
    with top have "unat (drop_bit w (a - b)) = unat (1 :: 'a word)" by simp
    then show ?thesis by (rule unsigned_word_eqI)
  qed
qed

lemma all_below: "list_all P [0..<n] \<Longrightarrow> l < n \<Longrightarrow> P l"
  by (simp add: list_all_iff)

lemma upto64:
  "[0..<32] = [0, 1, 2, 3, 4, 5, 6, 7, 8, 9, 10, 11, 12, 13, 14, 15, 16, 17, 18, 19, 20, 21, 22, 23, 24, 25, 26, 27, 28, 29, 30, 31::nat]"
  "[0..<64] = [0, 1, 2, 3, 4, 5, 6, 7, 8, 9, 10, 11, 12, 13, 14, 15, 16, 17, 18, 19, 20, 21, 22, 23, 24, 25, 26, 27, 28, 29, 30, 31, 32, 33, 34, 35, 36, 37, 38, 39, 40, 41, 42, 43, 44, 45, 46, 47, 48, 49, 50, 51, 52, 53, 54, 55, 56, 57, 58, 59, 60, 61, 62, 63::nat]"
  by code_simp+

lemma log2_exists:
  assumes "0 < (n::nat)" "n < 2 ^ w"
  obtains l where "l < w" "2 ^ l \<le> n" "n < 2 ^ Suc l"
  using lzcnt_bounds [OF assms] that [of "w - 1 - lzcnt w n"] by (simp add: Suc_diff_Suc)

definition estimate :: "nat \<Rightarrow> nat" where
  "estimate l = 19 * l div 64"


lemma estimate_64:
  assumes "l < 64"
  shows est64_le: "(10::nat) ^ estimate l \<le> 2 ^ l"
   and est64_ge: "(2::nat) ^ Suc l \<le> 10 ^ (estimate l + 2)"
   and est64_t0: "unat (ilog10_i64_table_0 ! Suc (estimate l)) = 10 ^ Suc (estimate l) - 1"
   and est64_t1: "unat (ilog10_i64_table_1 ! Suc (estimate l)) = 10 ^ Suc (estimate l) - 1"
   and est64_d: "10 ^ Suc (estimate l) - 1 - (2::nat) ^ l < 2 ^ 63" "(2::nat) ^ Suc l - 10 ^ Suc (estimate l) \<le> 2 ^ 63"
proof -
  have "list_all (\<lambda>l. (10::nat) ^ estimate l \<le> 2 ^ l) [0..<64]" by (simp add: upto64 estimate_def)
  from this assms show "(10::nat) ^ estimate l \<le> 2 ^ l" by (rule all_below)
  have "list_all (\<lambda>l. (2::nat) ^ Suc l \<le> 10 ^ (estimate l + 2)) [0..<64]" by (simp add: upto64 estimate_def)
  from this assms show "(2::nat) ^ Suc l \<le> 10 ^ (estimate l + 2)" by (rule all_below)
  have "list_all (\<lambda>l. unat (ilog10_i64_table_0 ! Suc (estimate l)) = 10 ^ Suc (estimate l) - 1) [0..<64]"
    by (simp add: upto64 estimate_def ilog10_i64_table_0_def)
  from this assms show "unat (ilog10_i64_table_0 ! Suc (estimate l)) = 10 ^ Suc (estimate l) - 1" by (rule all_below)
  have "list_all (\<lambda>l. unat (ilog10_i64_table_1 ! Suc (estimate l)) = 10 ^ Suc (estimate l) - 1) [0..<64]"
    by (simp add: upto64 estimate_def ilog10_i64_table_1_def)
  from this assms show "unat (ilog10_i64_table_1 ! Suc (estimate l)) = 10 ^ Suc (estimate l) - 1" by (rule all_below)
  have "list_all (\<lambda>l. 10 ^ Suc (estimate l) - 1 - (2::nat) ^ l < 2 ^ 63) [0..<64]" by (simp add: upto64 estimate_def)
  from this assms show "10 ^ Suc (estimate l) - 1 - (2::nat) ^ l < 2 ^ 63" by (rule all_below)
  have "list_all (\<lambda>l. (2::nat) ^ Suc l - 10 ^ Suc (estimate l) \<le> 2 ^ 63) [0..<64]" by (simp add: upto64 estimate_def)
  from this assms show "(2::nat) ^ Suc l - 10 ^ Suc (estimate l) \<le> 2 ^ 63" by (rule all_below)
qed

lemma estimate_32:
  assumes "l < 32"
  shows est32_le: "(10::nat) ^ estimate l \<le> 2 ^ l"
   and est32_ge: "(2::nat) ^ Suc l \<le> 10 ^ (estimate l + 2)"
   and est32_t0: "unat (ilog10_i32_table_0 ! Suc (estimate l)) = min (10 ^ Suc (estimate l) - 1) (2 ^ 32 - 1)"
   and est32_t1: "unat (ilog10_i32_table_1 ! Suc (estimate l)) = min (10 ^ Suc (estimate l) - 1) (2 ^ 32 - 1)"
   and est32_d: "min (10 ^ Suc (estimate l) - 1) (2 ^ 32 - 1) - (2::nat) ^ l < 2 ^ 31" "(2::nat) ^ Suc l - 10 ^ Suc (estimate l) \<le> 2 ^ 31"
proof -
  have "list_all (\<lambda>l. (10::nat) ^ estimate l \<le> 2 ^ l) [0..<32]" by (simp add: upto64 estimate_def)
  from this assms show "(10::nat) ^ estimate l \<le> 2 ^ l" by (rule all_below)
  have "list_all (\<lambda>l. (2::nat) ^ Suc l \<le> 10 ^ (estimate l + 2)) [0..<32]" by (simp add: upto64 estimate_def)
  from this assms show "(2::nat) ^ Suc l \<le> 10 ^ (estimate l + 2)" by (rule all_below)
  have "list_all (\<lambda>l. unat (ilog10_i32_table_0 ! Suc (estimate l)) = min (10 ^ Suc (estimate l) - 1) (2 ^ 32 - 1)) [0..<32]"
    by (simp add: upto64 estimate_def ilog10_i32_table_0_def)
  from this assms show "unat (ilog10_i32_table_0 ! Suc (estimate l)) = min (10 ^ Suc (estimate l) - 1) (2 ^ 32 - 1)" by (rule all_below)
  have "list_all (\<lambda>l. unat (ilog10_i32_table_1 ! Suc (estimate l)) = min (10 ^ Suc (estimate l) - 1) (2 ^ 32 - 1)) [0..<32]"
    by (simp add: upto64 estimate_def ilog10_i32_table_1_def)
  from this assms show "unat (ilog10_i32_table_1 ! Suc (estimate l)) = min (10 ^ Suc (estimate l) - 1) (2 ^ 32 - 1)" by (rule all_below)
  have "list_all (\<lambda>l. min (10 ^ Suc (estimate l) - 1) (2 ^ 32 - 1) - (2::nat) ^ l < 2 ^ 31) [0..<32]" by (simp add: upto64 estimate_def)
  from this assms show "min (10 ^ Suc (estimate l) - 1) (2 ^ 32 - 1) - (2::nat) ^ l < 2 ^ 31" by (rule all_below)
  have "list_all (\<lambda>l. (2::nat) ^ Suc l - 10 ^ Suc (estimate l) \<le> 2 ^ 31) [0..<32]" by (simp add: upto64 estimate_def)
  from this assms show "(2::nat) ^ Suc l - 10 ^ Suc (estimate l) \<le> 2 ^ 31" by (rule all_below)
qed

lemma estimate_int: "(19 * int l) div 2 ^ 6 = int (estimate l)"
  by (simp add: upto64 estimate_def zdiv_int)


lemma log_correction:
  fixes x t :: "'a::len word"
  assumes w: "LENGTH('a) = Suc w" and l: "2 ^ l \<le> unat x" "unat x < 2 ^ Suc l"
    and e: "(10::nat) ^ e \<le> 2 ^ l" "(2::nat) ^ Suc l \<le> 10 ^ (e + 2)"
    and t: "unat t = min (10 ^ Suc e - 1) (2 ^ Suc w - 1)"
    and d: "min (10 ^ Suc e - 1) (2 ^ Suc w - 1) - (2::nat) ^ l < 2 ^ w" "(2::nat) ^ Suc l - 10 ^ Suc e \<le> 2 ^ w"
  obtains r where "int e + uint (drop_bit w (t - x)) = int r" "10 ^ r \<le> unat x" "unat x < 10 ^ Suc r"
proof (cases "unat x \<le> unat t")
  case True
  have "unat t - unat x < 2 ^ w" using d(1) l(1) unfolding t by linarith
  then have "drop_bit w (t - x) = 0" by (intro top_bit_diff(1) True w)
  moreover have "10 ^ e \<le> unat x" using e(1) l(1) by linarith
  moreover have "unat x < 10 ^ Suc e" using True unfolding t by (simp add: le_diff_conv2 less_eq_Suc_le)
  ultimately show ?thesis using that [of e] by simp
next
  case False
  have "unat x < 2 ^ Suc w" using unsigned_less [of x, where ?'a = nat] w by simp
  then have T: "unat t = 10 ^ Suc e - 1" using False unfolding t by linarith
  then have big: "10 ^ Suc e \<le> unat x" using False by simp
  have "unat x - unat t \<le> 2 ^ w" using d(2) l(2) unfolding T by linarith
  then have "drop_bit w (t - x) = 1" using False by (intro top_bit_diff(2) w) simp_all
  moreover have "unat x < 10 ^ Suc (Suc e)" using e(2) l(2) by simp
  ultimately show ?thesis using that [of "Suc e"] big by simp
qed

lemma ilog10_floor_64_exact:
  assumes "0 < unat x"
  obtains r where "ilog10_floor_64 zero x = int r" "10 ^ r \<le> unat x" "unat x < 10 ^ Suc r"
proof -
  obtain l where l: "l < 64" "2 ^ l \<le> unat x" "unat x < 2 ^ Suc l"
    by (rule log2_exists [OF assms, of 64]) (use unsigned_less [of x, where ?'a = nat] in simp_all)
  let ?t = "(if zero then ilog10_i64_table_0 else ilog10_i64_table_1) ! Suc (estimate l)"
  have "(10::nat) ^ Suc (estimate l) - 1 \<le> 2 ^ 64 - 1"
    using unsigned_less [of "ilog10_i64_table_0 ! Suc (estimate l)", where ?'a = nat] est64_t0 [OF l(1)] by simp
  then have m: "min ((10::nat) ^ Suc (estimate l) - 1) (2 ^ Suc 63 - 1) = 10 ^ Suc (estimate l) - 1" by (simp add: min_def)
  have t: "unat ?t = min (10 ^ Suc (estimate l) - 1) (2 ^ Suc 63 - 1)" unfolding m using est64_t0 [OF l(1)] est64_t1 [OF l(1)] by simp
  have "lzcnt 64 (unat x) = 63 - l" using lzcnt_eq [OF l(2,3), of 64] l(1) by simp
  then have y: "19 * (63 - int (lzcnt 64 (unat x))) div 2 ^ 6 = int (estimate l)"
    using l(1) by (simp only: estimate_int [symmetric]) simp
  have v: "ilog10_floor_64 zero x = int (estimate l) + uint (drop_bit 63 (?t - x))"
    unfolding ilog10_floor_64_def Let_def y by (simp add: nat_add_distrib)
  show ?thesis
    by (rule log_correction [of 63 l x "estimate l" ?t])
      (use l t v that est64_le est64_ge est64_d(2) est64_d(1) in \<open>simp_all only: m\<close>, simp_all)
qed

lemma ilog10_floor_32_exact:
  assumes "0 < unat x"
  obtains r where "ilog10_floor_32 zero x = int r" "10 ^ r \<le> unat x" "unat x < 10 ^ Suc r"
proof -
  obtain l where l: "l < 32" "2 ^ l \<le> unat x" "unat x < 2 ^ Suc l"
    by (rule log2_exists [OF assms, of 32]) (use unsigned_less [of x, where ?'a = nat] in simp_all)
  let ?t = "(if zero then ilog10_i32_table_0 else ilog10_i32_table_1) ! Suc (estimate l)"
  have t: "unat ?t = min (10 ^ Suc (estimate l) - 1) (2 ^ Suc 31 - 1)" using est32_t0 [OF l(1)] est32_t1 [OF l(1)] by simp
  have "lzcnt 32 (unat x) = 31 - l" using lzcnt_eq [OF l(2,3), of 32] l(1) by simp
  then have y: "19 * (31 - int (lzcnt 32 (unat x))) div 2 ^ 6 = int (estimate l)"
    using l(1) by (simp only: estimate_int [symmetric]) simp
  have v: "ilog10_floor_32 zero x = int (estimate l) + uint (drop_bit 31 (?t - x))"
    unfolding ilog10_floor_32_def Let_def y by (simp add: nat_add_distrib)
  show ?thesis
    by (rule log_correction [of 31 l x "estimate l" ?t])
      (use l t v that est32_le est32_ge est32_d in simp_all)
qed

section \<open>Printing writes the decimal digits\<close>

definition digit :: "nat \<Rightarrow> char" where
  "digit d = char_of (48 + d)"

fun dec :: "nat \<Rightarrow> string" where
  "dec x = (if x < 10 then [digit x] else dec (x div 10) @ [digit (x mod 10)])"

declare dec.simps [simp del]

lemma dec_pair: "100 \<le> x \<Longrightarrow> dec x = dec (x div 100) @ [digit (x mod 100 div 10), digit (x mod 100 mod 10)]"
proof -
  assume x: "100 \<le> x"
  then have "dec x = dec (x div 10) @ [digit (x mod 10)]" by (simp add: dec.simps [of x])
  moreover have "\<not> x div 10 < 10" using x by presburger
  then have "dec (x div 10) = dec (x div 10 div 10) @ [digit (x div 10 mod 10)]" by (simp add: dec.simps [of "x div 10"])
  moreover have "x mod 100 div 10 = x div 10 mod 10" "x mod 100 mod 10 = x mod 10"
    by (simp_all add: mod_mult2_eq [of x 10 10, simplified] mod_mod_cancel)
  ultimately show ?thesis by (simp add: div_mult2_eq [of x 10 10, simplified])
qed

lemma digit_pairs:
  assumes "r < 100"
  shows "g_digit_pairs ! (2 * r) = digit (r div 10)" "g_digit_pairs ! Suc (2 * r) = digit (r mod 10)"
proof -
  have "list_all (\<lambda>r. g_digit_pairs ! (2 * r) = digit (r div 10) \<and> g_digit_pairs ! Suc (2 * r) = digit (r mod 10)) [0..<100]"
    by code_simp
  from all_below [OF this assms] show "g_digit_pairs ! (2 * r) = digit (r div 10)" "g_digit_pairs ! Suc (2 * r) = digit (r mod 10)"
    by simp_all
qed


lemma write_char_at:
  "e < length dst \<Longrightarrow> write_char (int e) ch dst = Some (take e dst @ ch # drop (Suc e) dst)"
  by (simp add: write_char_def upd_conv_take_nth_drop)

lemma write_pair_at:
  assumes "Suc e < length dst" "r < 100"
  shows "write_pair (int (Suc e)) r dst = Some (take e dst @ [digit (r div 10), digit (r mod 10)] @ drop (Suc (Suc e)) dst)"
proof -
  have "write_char (int (Suc e) - 1) ch dst = Some (take e dst @ ch # drop (Suc e) dst)" for ch
    using write_char_at [of e dst] assms(1) by simp
  moreover have "write_char (int (Suc e)) ch (take e dst @ ch' # drop (Suc e) dst) = Some (take e dst @ [ch', ch] @ drop (Suc (Suc e)) dst)" for ch ch'
    using write_char_at [of "Suc e" "take e dst @ ch' # drop (Suc e) dst"] assms(1) by (simp add: min_def)
  ultimately show ?thesis unfolding write_pair_def using digit_pairs [OF assms(2)] by simp
qed

lemma dec_length_pos [simp]: "0 < length (dec x)" "dec x \<noteq> []"
  by (subst dec.simps, simp)+

lemma dec_small: "x < 10 \<Longrightarrow> dec x = [digit x]" "10 \<le> x \<Longrightarrow> x < 100 \<Longrightarrow> dec x = [digit (x div 10), digit (x mod 10)]"
  by (simp_all add: dec.simps [of x] dec.simps [of "x div 10"])

lemma char_plus_0: "d < 10 \<Longrightarrow> char_plus CHR ''0'' d = digit d"
  by (simp add: char_plus_def digit_def)

lemma print_rest_spec:
  assumes "x < 100" "length (dec x) \<le> e" "e \<le> length dst"
  shows "print_rest x (int e - 1) dst = Some (take (e - length (dec x)) dst @ dec x @ drop e dst)"
proof (cases "x < 10")
  case True
  then have "length (dec x) = 1" by (simp add: dec_small)
  then obtain e' where e: "e = Suc e'" using assms(2) by (cases e) simp_all
  with True assms(3) show ?thesis by (simp add: print_rest_def dec_small char_plus_0 write_char_at)
next
  case False
  then have "length (dec x) = 2" using assms(1) by (simp add: dec_small)
  then obtain e' where e: "e = Suc (Suc e')" using assms(2) by (cases e; cases "e - 1") simp_all
  with False assms write_pair_at [of e' dst x] show ?thesis by (simp add: print_rest_def dec_small)
qed

text \<open>Both loops and the rest: the digits end up right before \<open>e\<close>.\<close>

lemma print_digits:
  assumes "length (dec x) \<le> e" "e \<le> length dst"
  obtains y c k' dst' where "print_pairs x (int e - 1) k dst = Some (y, c, k', dst')" "y < 100"
    "print_rest y c dst' = Some (take (e - length (dec x)) dst @ dec x @ drop e dst)" "k' + (if y < 10 then 1 else 2) = k + length (dec x)"
  using assms
proof (induction x arbitrary: e k dst thesis rule: less_induct)
  case (less x)
  show ?case
  proof (cases "x < 100")
    case True
    have "k + (if x < 10 then 1 else 2) = k + length (dec x)" using True by (simp add: dec_small)
    moreover have "print_pairs x (int e - 1) k dst = Some (x, int e - 1, k, dst)" using True by (simp add: print_pairs.simps [of x])
    ultimately show ?thesis by (rule less.prems(1) [OF _ True print_rest_spec [OF True less.prems(2,3)], rotated])
  next
    case False
    then have d: "dec x = dec (x div 100) @ [digit (x mod 100 div 10), digit (x mod 100 mod 10)]" by (simp add: dec_pair)
    then have "2 \<le> e" using less.prems(2) by simp
    then obtain f where e: "e = Suc (Suc f)" by (cases e; cases "e - 1") simp_all
    let ?dst = "take f dst @ [digit (x mod 100 div 10), digit (x mod 100 mod 10)] @ drop e dst"
    have w: "write_pair (int e - 1) (x mod 100) dst = Some ?dst"
      using write_pair_at [of f dst "x mod 100"] less.prems(3) by (simp add: e)
    have len: "length (dec (x div 100)) \<le> f" "f \<le> length ?dst" using d less.prems(2,3) by (simp_all add: e)
    obtain y c k' dst' where r: "print_pairs (x div 100) (int f - 1) (k + 2) ?dst = Some (y, c, k', dst')" "y < 100"
      "print_rest y c dst' = Some (take (f - length (dec (x div 100))) ?dst @ dec (x div 100) @ drop f ?dst)"
      "k' + (if y < 10 then 1 else 2) = k + 2 + length (dec (x div 100))"
      by (rule less.IH [OF _ _ len, of "k + 2"]) (use False in auto)
    have "print_pairs x (int e - 1) k dst = Some (y, c, k', dst')"
      using False w r(1) by (subst print_pairs.simps) (simp add: e)
    moreover have "print_rest y c dst' = Some (take (e - length (dec x)) dst @ dec x @ drop e dst)"
      using r(3) len(1) less.prems(3) d by (simp add: e min_def)
    moreover have "k' + (if y < 10 then 1 else 2) = k + length (dec x)" using r(4) d by simp
    ultimately show ?thesis using less.prems(1) r(2) by blast
  qed
qed

lemma rjust_exact:
  assumes "length (dec x) \<le> width" "width \<le> length dst"
  shows "rjust_print_decimal_nonnegative x width dst = Some (length (dec x), take (width - length (dec x)) dst @ dec x @ drop width dst)"
proof -
  obtain y c k' dst' where p: "print_pairs x (int width - 1) 0 dst = Some (y, c, k', dst')" "y < 100"
    "print_rest y c dst' = Some (take (width - length (dec x)) dst @ dec x @ drop width dst)" "k' + (if y < 10 then 1 else 2) = 0 + length (dec x)"
    by (rule print_digits [OF assms, of 0])
  show ?thesis using p by (simp add: rjust_print_decimal_nonnegative_def)
qed

text \<open>The length of the digits is the logarithm.\<close>

lemma dec_length_bounds: "length (dec x) = Suc r" if "x < 10 ^ Suc r" "10 ^ r \<le> x \<or> r = 0"
  using that
proof (induction r arbitrary: x)
  case 0
  then show ?case by (simp add: dec_small)
next
  case (Suc r)
  then have "10 \<le> x" using le_trans [of 10 "10 ^ Suc r" x] by simp
  moreover have "x div 10 < 10 ^ Suc r" "10 ^ r \<le> x div 10" using Suc.prems by (simp_all add: less_mult_imp_div_less less_eq_div_iff_mult_less_eq mult.commute)
  ultimately show ?case using Suc.IH [of "x div 10"] by (simp add: dec.simps [of x])
qed

lemma digits10:
  assumes "x < 2 ^ type_bits wide"
  shows "1 + (if wide then ilog10_floor_64 True (of_nat x) else ilog10_floor_32 True (of_nat x)) = int (length (dec x))"
proof (cases "x = 0")
  case True
  have "ilog10_floor_64 True 0 = 0" "ilog10_floor_32 True 0 = 0"
    by (simp_all add: ilog10_floor_64_def ilog10_floor_32_def ilog10_i64_table_0_def ilog10_i32_table_0_def)
  with True show ?thesis by (simp add: dec_small)
next
  case False
  show ?thesis
  proof (cases wide)
    case True
    then have u: "unat (of_nat x :: 64 word) = x" using assms by (simp add: unat_of_nat take_bit_eq_mod type_bits_def)
    obtain r where r: "ilog10_floor_64 True (of_nat x) = int r" "10 ^ r \<le> x" "x < 10 ^ Suc r"
      using ilog10_floor_64_exact [of "of_nat x" True] u False by auto
    with True dec_length_bounds [of x r] show ?thesis by simp
  next
    case narrow: False
    then have u: "unat (of_nat x :: 32 word) = x" using assms by (simp add: unat_of_nat take_bit_eq_mod type_bits_def)
    obtain r where r: "ilog10_floor_32 True (of_nat x) = int r" "10 ^ r \<le> x" "x < 10 ^ Suc r"
      using ilog10_floor_32_exact [of "of_nat x" True] u False by auto
    with narrow dec_length_bounds [of x r] show ?thesis by simp
  qed
qed

lemma print_unsigned_exact:
  assumes "x < 2 ^ type_bits wide" "at + length (dec x) \<le> length dst"
  shows "print_decimal_unsigned wide x at dst = Some (int (length (dec x)), take at dst @ dec x @ drop (at + length (dec x)) dst)"
proof -
  obtain y c k' dst' where p: "print_pairs x (int (at + length (dec x)) - 1) 0 dst = Some (y, c, k', dst')" "y < 100"
    "print_rest y c dst' = Some (take (at + length (dec x) - length (dec x)) dst @ dec x @ drop (at + length (dec x)) dst)"
    by (rule print_digits [OF _ assms(2), of x 0]) simp_all
  show ?thesis using p by (simp add: print_decimal_unsigned_def Let_def digits10 [OF assms(1)])
qed

section \<open>Parsing reads them back\<close>

lemma char_digit: "d < 10 \<Longrightarrow> char_value (digit d) - char_value CHR ''0'' = int d"
  by (simp add: char_value_def digit_def narrow_def)

lemma parse_dec: "foldl (\<lambda>r c. r * 10 + word_of_int (char_value c - char_value CHR ''0'')) r (dec x) = r * 10 ^ length (dec x) + (of_nat x :: 'a::len word)"
proof (induction x arbitrary: r rule: less_induct)
  case (less x)
  show ?case
  proof (cases "x < 10")
    case True
    then show ?thesis by (simp add: dec_small char_digit del: of_int_diff)
  next
    case False
    have d: "dec x = dec (x div 10) @ [digit (x mod 10)]" using False by (simp add: dec.simps [of x])
    have "(of_nat x :: 'a word) = of_nat (x div 10) * 10 + of_nat (x mod 10)"
      by (metis div_mult_mod_eq of_nat_add of_nat_mult of_nat_numeral)
    then show ?thesis using less.IH [of "x div 10" r] False by (simp add: d char_digit algebra_simps del: of_int_diff)
  qed
qed

lemma parse_unsigned_dec: "parse_decimal_unsigned (dec x) = (of_nat x :: 'a::len word)"
  using parse_dec [of 0 x] by (simp add: parse_decimal_unsigned_def)


lemma dec_length_le: "x < 10 ^ n \<Longrightarrow> 0 < n \<Longrightarrow> length (dec x) \<le> n"
proof (induction n arbitrary: x)
  case (Suc n)
  then show ?case
    using Suc.IH [of "x div 10"] by (cases "x < 10"; cases n) (auto simp: dec.simps [of x] less_mult_imp_div_less mult.commute)
qed simp

lemma dec_length_gt: "10 ^ n \<le> x \<Longrightarrow> 0 < n \<Longrightarrow> n < length (dec x)"
proof (induction n arbitrary: x)
  case (Suc n)
  have ge: "10 \<le> x" using Suc.prems(1) le_trans [of 10 "10 ^ Suc n" x] by simp
  have "10 ^ n \<le> x div 10" using Suc.prems(1) by (simp add: less_eq_div_iff_mult_less_eq mult.commute)
  with Suc.IH [of "x div 10"] ge show ?case by (cases n) (simp_all add: dec.simps [of x])
qed simp

text \<open>Too many digits for the room before \<open>e\<close> write outside the buffer.\<close>

lemma write_outside: "i < 0 \<Longrightarrow> write_char i ch dst = None"
  by (simp add: write_char_def)

lemma print_overflow:
  assumes "e < length (dec x)" "e \<le> length dst"
  shows "print_pairs x (int e - 1) k dst = None \<or>
    (\<exists>y c k' dst'. print_pairs x (int e - 1) k dst = Some (y, c, k', dst') \<and> print_rest y c dst' = None)"
  using assms
proof (induction x arbitrary: e k dst rule: less_induct)
  case (less x)
  show ?case
  proof (cases "x < 100")
    case True
    have p: "print_pairs x (int e - 1) k dst = Some (x, int e - 1, k, dst)" using True by (simp add: print_pairs.simps [of x])
    have "print_rest x (int e - 1) dst = None"
    proof (cases "x < 10")
      case True
      with less.prems(1) have "e = 0" by (simp add: dec_small)
      with True show ?thesis by (simp add: print_rest_def write_outside)
    next
      case False
      with less.prems(1) \<open>x < 100\<close> have "int e - 1 - 1 < 0" by (simp add: dec_small)
      with False show ?thesis by (simp add: print_rest_def write_pair_def write_outside)
    qed
    with p show ?thesis by simp
  next
    case False
    then have d: "dec x = dec (x div 100) @ [digit (x mod 100 div 10), digit (x mod 100 mod 10)]" by (simp add: dec_pair)
    show ?thesis
    proof (cases "e < 2")
      case True
      then have "write_pair (int e - 1) (x mod 100) dst = None" by (simp add: write_pair_def write_outside)
      with False show ?thesis by (subst print_pairs.simps) simp
    next
      case big: False
      then obtain f where e: "e = Suc (Suc f)" by (cases e; cases "e - 1") simp_all
      let ?dst = "take f dst @ [digit (x mod 100 div 10), digit (x mod 100 mod 10)] @ drop e dst"
      have w: "write_pair (int e - 1) (x mod 100) dst = Some ?dst"
        using write_pair_at [of f dst "x mod 100"] less.prems(2) by (simp add: e)
      have "print_pairs x (int e - 1) k dst = print_pairs (x div 100) (int f - 1) (k + 2) ?dst"
        using False w by (subst print_pairs.simps) (simp add: e)
      moreover have "f < length (dec (x div 100))" "f \<le> length ?dst" using d less.prems by (simp_all add: e)
      ultimately show ?thesis using less.IH [of "x div 100" f ?dst "k + 2"] False by simp
    qed
  qed
qed

lemma rjust_outside:
  assumes "width < length (dec x)" "width \<le> length dst"
  shows "rjust_print_decimal_nonnegative x width dst = None"
  using print_overflow [OF assms, of 0] by (auto simp: rjust_print_decimal_nonnegative_def)

lemma digit_not: "d < 10 \<Longrightarrow> digit d \<noteq> CHR '' ''" "d < 10 \<Longrightarrow> digit d \<noteq> CHR ''-''"
proof -
  assume d: "d < 10"
  have "(of_char (digit d) :: nat) = 48 + d" using d by (simp add: digit_def)
  moreover have "(of_char CHR '' '' :: nat) = 32" "(of_char CHR ''-'' :: nat) = 45" by simp_all
  ultimately show "digit d \<noteq> CHR '' ''" "digit d \<noteq> CHR ''-''" by auto
qed

lemma dec_head: "\<exists>d ds. d < 10 \<and> dec x = digit d # ds"
proof (induction x rule: less_induct)
  case (less x)
  show ?case
  proof (cases "x < 10")
    case False
    then obtain d ds where "d < 10" "dec (x div 10) = digit d # ds" using less [of "x div 10"] by auto
    with False show ?thesis by (auto simp: dec.simps [of x])
  qed (auto simp: dec_small)
qed

lemma parse_signed_dec:
  "parse_decimal_signed (dec x) = Some (of_nat x :: 'a::len word)"
  "parse_decimal_signed (CHR ''-'' # dec x) =
     (if 32 \<le> LENGTH('a) \<and> (of_nat x :: 'a word) = 2 ^ (LENGTH('a) - 1) then None else Some (- of_nat x :: 'a::len word))"
proof -
  obtain d ds where h: "d < 10" "dec x = digit d # ds" using dec_head by blast
  then have "dec x ! 0 \<noteq> CHR ''-''" using digit_not by simp
  then show "parse_decimal_signed (dec x) = Some (of_nat x :: 'a::len word)"
    by (simp add: parse_decimal_signed_def parse_unsigned_dec Let_def)
  show "parse_decimal_signed (CHR ''-'' # dec x) =
     (if 32 \<le> LENGTH('a) \<and> (of_nat x :: 'a word) = 2 ^ (LENGTH('a) - 1) then None else Some (- of_nat x :: 'a::len word))"
    by (simp add: parse_decimal_signed_def parse_unsigned_dec Let_def)
qed

lemma ltrim_blanks: "ltrim b (replicate n b @ s) = ltrim b s"
  by (induction n) simp_all

lemma ltrim_dec: "ltrim CHR '' '' (dec x) = dec x"
proof -
  obtain d ds where h: "d < 10" "dec x = digit d # ds" using dec_head by blast
  then show ?thesis using digit_not by simp
qed

lemma dec_padded:
  assumes "x < 10 ^ w" "0 < w"
  shows "replicate (w - length (dec x)) CHR ''0'' @ dec x = map (\<lambda>i. digit (x div 10 ^ (w - 1 - i) mod 10)) [0..<w]"
  using assms
proof (induction w arbitrary: x)
  case (Suc w)
  have zero: "digit 0 = CHR ''0''" by (simp add: digit_def char_of_eq_iff take_bit_eq_mod)
  show ?case
  proof (cases "w = 0")
    case True
    with Suc.prems show ?thesis by (simp add: dec_small)
  next
    case False
    have "x div 10 < 10 ^ w" using Suc.prems(1) by (simp add: less_mult_imp_div_less mult.commute)
    note IH = Suc.IH [OF this] 
    have m: "map (\<lambda>i. digit (x div 10 ^ (Suc w - 1 - i) mod 10)) [0..<Suc w] =
      map (\<lambda>i. digit (x div 10 div 10 ^ (w - 1 - i) mod 10)) [0..<w] @ [digit (x mod 10)]"
    proof -
      have "x div 10 ^ (w - i) = x div 10 div 10 ^ (w - 1 - i)" if "i < w" for i
        using that by (simp add: div_mult2_eq [symmetric] flip: power_Suc) (simp add: Suc_diff_Suc)
      then show ?thesis by simp
    qed
    have "replicate (Suc w - length (dec x)) CHR ''0'' @ dec x = replicate (w - length (dec (x div 10))) CHR ''0'' @ dec (x div 10) @ [digit (x mod 10)]"
    proof (cases "x < 10")
      case True
      from False obtain v where "w = Suc v" by (cases w) auto
      with True show ?thesis by (simp add: dec_small zero replicate_append_same)
    qed (simp add: dec.simps [of x])
    with IH m False show ?thesis by simp
  qed
qed simp

end
