(* ===== verification/Decimal_Props.thy ===== *)
theory Decimal_Props
  imports Decimal_Print
begin

text \<open>The properties of decimal numbers: the logarithm, round trips, fields and timestamp fractions.\<close>

lemma neg_smallest: "- (w :: 'a::len word) = 2 ^ (LENGTH('a) - 1) \<longleftrightarrow> w = 2 ^ (LENGTH('a) - 1)"
proof -
  have "- (2 ^ (LENGTH('a) - 1)) = (2 ^ (LENGTH('a) - 1) :: 'a word)"
  proof -
    have "(2 :: 'a word) ^ Suc (LENGTH('a) - 1) = 0" by (metis Suc_pred' len_gt_0 word_exp_length_eq_0)
    then have "(2 ^ (LENGTH('a) - 1) + 2 ^ (LENGTH('a) - 1) :: 'a word) = 0" unfolding power_Suc mult_2 .
    then show ?thesis by (rule minus_unique)
  qed
  then show ?thesis by (metis minus_minus)
qed

section \<open>Properties\<close>

text \<open>
  C19: the table-driven logarithm is exact on every nonzero 32-bit and 64-bit value, with either
  table, and the tables only differ in what they return for zero.
\<close>

theorem ilog10_exact:
  assumes "(x :: 32 word) \<noteq> 0" "(y :: 64 word) \<noteq> 0"
  shows "(\<exists>r. ilog10_floor_32 zero x = int r \<and> 10 ^ r \<le> unat x \<and> unat x < 10 ^ Suc r) \<and>
    (\<exists>r. ilog10_floor_64 zero y = int r \<and> 10 ^ r \<le> unat y \<and> unat y < 10 ^ Suc r) \<and>
    ilog10_floor_32 zero 0 = (if zero then 0 else - 1) \<and> ilog10_floor_64 zero 0 = (if zero then 0 else - 1)"
proof (intro conjI)
  have pos: "0 < unat x" "0 < unat y" using assms by (simp_all add: unat_gt_0)
  show "\<exists>r. ilog10_floor_32 zero x = int r \<and> 10 ^ r \<le> unat x \<and> unat x < 10 ^ Suc r"
    by (rule ilog10_floor_32_exact [OF pos(1), of zero]) blast
  show "\<exists>r. ilog10_floor_64 zero y = int r \<and> 10 ^ r \<le> unat y \<and> unat y < 10 ^ Suc r"
    by (rule ilog10_floor_64_exact [OF pos(2), of zero]) blast
qed (simp_all add: ilog10_floor_64_def ilog10_floor_32_def ilog10_i64_table_0_def ilog10_i32_table_0_def
  ilog10_i64_table_1_def ilog10_i32_table_1_def)

lemma ilog10_exact_witness:
  "\<exists>r s. ilog10_floor_32 True 1000 = int r \<and> 10 ^ r \<le> (1000::nat) \<and> ilog10_floor_64 False 999 = int s \<and> (999::nat) < 10 ^ Suc s"
  using ilog10_exact [of 1000 1 True] ilog10_exact [of 1 999 False] by auto

text \<open>
  C20: a signed integer of 32 or 64 bits other than the smallest one is printed into any buffer of at
  least 20 characters, the returned count says how many were written, the rest of the
  buffer is untouched, and what was printed parses back as the value in any integer type
  (modulo its width), unless it is negative and becomes the smallest value of a type of at least 32 bits. For the
  smallest value of either width the printer, and for its digits the parser of that width,
  negate a signed integer that has no negation, which is undefined.
\<close>

theorem decimal_roundtrip:
  assumes "- (2 ^ (type_bits wide - 1)) \<le> x" "x < 2 ^ (type_bits wide - 1)" "20 \<le> length dst"
  shows "(if x = - (2 ^ (type_bits wide - 1)) then print_decimal_signed wide x dst = None
    else \<exists>n dst'. print_decimal_signed wide x dst = Some (int n, dst') \<and> n \<le> 20 \<and> length dst' = length dst \<and> drop n dst' = drop n dst \<and>
      take n dst' = (if x < 0 then CHR ''-'' # dec (nat (- x)) else dec (nat x)) \<and>
      parse_decimal_signed (take n dst') =
        (if x < 0 \<and> 32 \<le> LENGTH('a) \<and> (word_of_int x :: 'a::len word) = 2 ^ (LENGTH('a) - 1) then None else Some (word_of_int x :: 'a word))) \<and>
    parse_decimal_signed ''-2147483648'' = (None :: 32 word option) \<and>
    parse_decimal_signed ''-9223372036854775808'' = (None :: 64 word option)"
proof (intro conjI)
  have w: "type_bits wide \<le> 64" "0 < type_bits wide" "(2::nat) ^ (type_bits wide - 1) \<le> 2 ^ 63" by (simp_all add: type_bits_def)
  have d: "length (dec (nat \<bar>x\<bar>)) \<le> 19"
  proof (rule dec_length_le)
    have "\<bar>x\<bar> \<le> 2 ^ (type_bits wide - 1)" using assms by simp
    also have "\<dots> < 10 ^ 19" by (simp add: type_bits_def)
    finally show "nat \<bar>x\<bar> < 10 ^ 19" by simp
  qed simp
  have b: "nat \<bar>x\<bar> < 2 ^ type_bits wide" using assms by (auto simp: type_bits_def nat_less_iff split: if_splits)
  show "if x = - (2 ^ (type_bits wide - 1)) then print_decimal_signed wide x dst = None
    else \<exists>n dst'. print_decimal_signed wide x dst = Some (int n, dst') \<and> n \<le> 20 \<and> length dst' = length dst \<and> drop n dst' = drop n dst \<and>
      take n dst' = (if x < 0 then CHR ''-'' # dec (nat (- x)) else dec (nat x)) \<and>
      parse_decimal_signed (take n dst') =
        (if x < 0 \<and> 32 \<le> LENGTH('a) \<and> (word_of_int x :: 'a::len word) = 2 ^ (LENGTH('a) - 1) then None else Some (word_of_int x :: 'a word))"
  proof (cases "x < 0")
    case True
    let ?y = "nat (- x)"
    have y: "nat \<bar>x\<bar> = ?y" using True by simp
    show ?thesis
    proof (cases "x = - (2 ^ (type_bits wide - 1))")
      case min: True
      have "(0::int) < 2 ^ (type_bits wide - 1)" by simp
      with min show ?thesis by (simp add: print_decimal_signed_def)
    next
      case nmin: False
      have len: "1 + length (dec ?y) \<le> length (dst[0 := CHR ''-''])" using d assms(3) by (simp add: y)
      obtain c dst0 where dst: "dst = c # dst0" using assms(3) by (cases dst) auto
      have "print_decimal_signed wide x dst =
          Some (int (Suc (length (dec ?y))), CHR ''-'' # dec ?y @ drop (length (dec ?y)) dst0)"
        using print_unsigned_exact [OF b [unfolded y] len] True nmin by (simp add: print_decimal_signed_def write_char_def dst)
      moreover have "parse_decimal_signed (CHR ''-'' # dec ?y) =
          (if 32 \<le> LENGTH('a) \<and> (word_of_int x :: 'a word) = 2 ^ (LENGTH('a) - 1) then None else Some (word_of_int x :: 'a word))"
        using True neg_smallest [where ?'a = 'a, of "word_of_int x"] by (simp add: parse_signed_dec)
      ultimately show ?thesis using d assms(3) dst True nmin
        by (simp only: if_False) (intro exI [of _ "Suc (length (dec ?y))"] exI [of _ "CHR ''-'' # dec ?y @ drop (length (dec ?y)) dst0"], simp add: y)
    qed
  next
    case False
    let ?y = "nat \<bar>x\<bar>"
    have nmin: "x \<noteq> - (2 ^ (type_bits wide - 1))" using False by (simp add: type_bits_def split: if_splits)
    have "print_decimal_signed wide x dst = Some (int (length (dec ?y)), dec ?y @ drop (length (dec ?y)) dst)"
      using print_unsigned_exact [OF b, of 0 dst] False d assms(3) by (simp add: print_decimal_signed_def)
    moreover have "parse_decimal_signed (dec ?y) = Some (word_of_int x :: 'a word)" using False by (simp add: parse_signed_dec)
    ultimately show ?thesis using d assms(3) False nmin
      by (simp only: if_False) (intro exI [of _ "length (dec ?y)"] exI [of _ "dec ?y @ drop (length (dec ?y)) dst"], simp)
  qed
qed (simp_all add: parse_decimal_signed_def parse_decimal_unsigned_def Let_def char_value_def narrow_def)

lemma decimal_roundtrip_witness:
  "print_decimal_signed False (- 2147483648) (replicate 20 CHR '' '') = None \<and>
   (\<exists>n dst'. print_decimal_signed False (- 2147483647) (replicate 20 CHR '' '') = Some (int n, dst') \<and>
     parse_decimal_signed (take n dst') = Some (0x80000001 :: 32 word))"
proof -
  have b: "- (2 ^ (type_bits False - 1)) \<le> (- 2147483648 :: int)" "(- 2147483648 :: int) < 2 ^ (type_bits False - 1)"
    "- (2 ^ (type_bits False - 1)) \<le> (- 2147483647 :: int)" "(- 2147483647 :: int) < 2 ^ (type_bits False - 1)"
    "20 \<le> length (replicate 20 CHR '' '')" by (simp_all add: type_bits_def)
  have "(word_of_int (- 2147483647) :: 32 word) = 0x80000001" by simp
  with decimal_roundtrip [OF b(1,2,5), where ?'a = 32] decimal_roundtrip [OF b(3-5), where ?'a = 32] show ?thesis
    by (auto simp: type_bits_def)
qed

text \<open>
  A nonnegative number printed right-justified into a blank field of \<open>width\<close> characters and
  read back by trimming and parsing, as login sequence numbers are, is the number itself when it has at most \<open>width\<close>
  digits; with more digits the printer writes before the start of the field.
\<close>

theorem rjust_field_exact:
  assumes "0 < width"
  shows "if x < 10 ^ width
    then \<exists>buf. rjust_print_decimal_nonnegative x width (replicate width CHR '' '') = Some (length (dec x), buf) \<and> length buf = width \<and>
      ltrim CHR '' '' buf \<noteq> [] \<and> parse_decimal_signed (ltrim CHR '' '' buf) = Some (of_nat x :: 'a::len word)
    else rjust_print_decimal_nonnegative x width (replicate width CHR '' '') = None"
proof (cases "x < 10 ^ width")
  case True
  then have len: "length (dec x) \<le> width" using assms dec_length_le by blast
  have "rjust_print_decimal_nonnegative x width (replicate width CHR '' '') =
      Some (length (dec x), replicate (width - length (dec x)) CHR '' '' @ dec x)"
    using rjust_exact [OF len, of "replicate width CHR '' ''"] by simp
  with True len show ?thesis by (simp add: ltrim_blanks ltrim_dec parse_signed_dec)
next
  case False
  then have "width < length (dec x)" using assms by (intro dec_length_gt) simp_all
  with False rjust_outside [of width x "replicate width CHR '' ''"] show ?thesis by simp
qed

lemma rjust_field_exact_witness:
  "\<exists>buf. rjust_print_decimal_nonnegative 42 20 (replicate 20 CHR '' '') = Some (length (dec 42), buf) \<and>
    parse_decimal_signed (ltrim CHR '' '' buf) = Some (42 :: 64 word)"
  using rjust_field_exact [of 20 42, where ?'a = 64] by auto

text \<open>
  The fraction of a timestamp after the epoch is a point and its leading nanosecond digits,
  padded with zeros; for a timestamp before the epoch that is not a whole second the remainder
  is negative, converts to a twenty-digit number and is written before the start of the buffer.
\<close>

theorem timestamp_fraction_exact:
  assumes "digits_secs \<le> 9" "- (2 ^ 63) \<le> ts" "ts < 2 ^ 63"
  shows "print_fraction ts digits_secs =
    (if 0 \<le> ts \<or> ts mod 1000000000 = 0
     then Some (CHR ''.'' # map (\<lambda>i. digit (nat (ts mod 1000000000) div 10 ^ (8 - i) mod 10)) [0..<digits_secs])
     else None)"
proof (cases "0 \<le> ts \<or> ts mod 1000000000 = 0")
  case True
  let ?r = "nat (ts mod 1000000000)"
  have rem: "ts - 1000000000 * (if 0 \<le> ts then ts div 1000000000 else - (- ts div 1000000000)) = int ?r"
    using True by (auto simp: minus_mult_div_eq_mod zdiv_zminus1_eq_if)
  have r: "?r < 10 ^ 9" by (simp add: nat_less_iff)
  then have len: "length (dec ?r) \<le> 9" by (intro dec_length_le) simp_all
  have "nat (int ?r mod 2 ^ 64) = ?r" using r by (simp add: mod_pos_pos_trivial)
  moreover have "rjust_print_decimal_nonnegative ?r 9 (replicate 9 CHR ''0'') =
      Some (length (dec ?r), map (\<lambda>i. digit (?r div 10 ^ (8 - i) mod 10)) [0..<9])"
    using rjust_exact [OF len, of "replicate 9 CHR ''0''"] dec_padded [OF r] len by simp
  ultimately have "print_fraction ts digits_secs =
      Some (take (1 + digits_secs) (CHR ''.'' # map (\<lambda>i. digit (?r div 10 ^ (8 - i) mod 10)) [0..<9]))"
    by (simp only: print_fraction_def Let_def rem option.case prod.case)
  with True assms(1) show ?thesis by (simp add: take_map min_def)
next
  case False
  let ?rem = "ts - 1000000000 * - (- ts div 1000000000)"
  have u: "(- ts) mod 1000000000 = - ts - 1000000000 * (- ts div 1000000000)" by (simp only: minus_mult_div_eq_mod)
  have nz: "(- ts) mod 1000000000 \<noteq> 0" using False by (simp add: zmod_zminus1_eq_if)
  have bd: "0 \<le> (- ts) mod 1000000000" "(- ts) mod 1000000000 < 1000000000" by simp_all
  have "?rem < 0" "- 1000000000 < ?rem" using nz bd unfolding u by linarith+
  then have "?rem mod 2 ^ 64 = ?rem + 2 ^ 64" by (subst mod_add_self2 [symmetric], intro mod_pos_pos_trivial) simp_all
  then have "10 ^ 9 \<le> nat (?rem mod 2 ^ 64)" using \<open>- 1000000000 < ?rem\<close> by simp
  then have "9 < length (dec (nat (?rem mod 2 ^ 64)))" by (intro dec_length_gt) simp_all
  then have "rjust_print_decimal_nonnegative (nat (?rem mod 2 ^ 64)) 9 (replicate 9 CHR ''0'') = None" by (intro rjust_outside) simp_all
  with False show ?thesis by (simp add: print_fraction_def Let_def)
qed

lemma timestamp_fraction_exact_witness:
  "print_fraction 5 9 \<noteq> None \<and> print_fraction (- 5) 9 = None"
  using timestamp_fraction_exact [of 9 5] timestamp_fraction_exact [of 9 "- 5"] by simp

end
