(* ===== verification/Spsc_Buffer.thy ===== *)
theory Spsc_Buffer
  imports Vrt_Prelude "HOL-Library.Sublist"
begin

unbundle bit_operations_syntax

text \<open>
  The single-producer single-consumer ring buffer of \<^verbatim>\<open>vr/mc/lf_spsc_buffer.h\<close>, with the memory
  model it is written for: on x86-TSO a store goes into the issuing processor's first-in
  first-out store buffer and reaches memory later, and a load sees the processor's own
  buffered stores first. Either side writes its own position; the producer also writes the slots.
  The cached copies of the other side's position are private to their owner. Positions count from zero and are taken not to reach 2 to
  the 63rd.
\<close>

section \<open>Memory and store buffers\<close>

datatype 'a p_store = Set_slot nat 'a | Set_position int

record 'a spsc =
  q_data :: "'a list"
  q_p_position :: int
  q_c_position :: int
  q_c_local :: int
  q_p_local :: int
  q_p_stores :: "'a p_store list"
  q_c_stores :: "int list"

definition p_view :: "'a spsc \<Rightarrow> int" where
  "p_view q = foldl (\<lambda>p st. case st of Set_slot i v \<Rightarrow> p | Set_position n \<Rightarrow> n) (q_p_position q) (q_p_stores q)"

definition c_view :: "'a spsc \<Rightarrow> int" where
  "c_view q = foldl (\<lambda>_ n. n) (q_c_position q) (q_c_stores q)"

text \<open>The oldest store of a buffer reaches memory.\<close>

definition drain_p :: "'a spsc \<Rightarrow> 'a spsc" where
  "drain_p q = (case q_p_stores q of [] \<Rightarrow> q
     | Set_slot i v # stores \<Rightarrow> q\<lparr>q_data := (q_data q)[i := v], q_p_stores := stores\<rparr>
     | Set_position n # stores \<Rightarrow> q\<lparr>q_p_position := n, q_p_stores := stores\<rparr>)"

definition drain_c :: "'a spsc \<Rightarrow> 'a spsc" where
  "drain_c q = (case q_c_stores q of [] \<Rightarrow> q | n # stores \<Rightarrow> q\<lparr>q_c_position := n, q_c_stores := stores\<rparr>)"

section \<open>Operations\<close>

definition spsc_new :: "nat \<Rightarrow> 'a \<Rightarrow> 'a spsc" where
  "spsc_new cap zero = \<lparr>q_data = replicate cap zero, q_p_position = 0, q_c_position = 0, q_c_local = 0, q_p_local = 0,
     q_p_stores = [], q_c_stores = []\<rparr>"

definition slot_index :: "nat \<Rightarrow> int \<Rightarrow> nat" where
  "slot_index cap pos = unat ((word_of_int pos :: 32 word) AND of_nat (cap - 1))"

definition try_enqueue :: "nat \<Rightarrow> 'a spsc \<Rightarrow> bool \<times> 'a spsc" where
  "try_enqueue cap q =
     (let p_pos_m_cap = p_view q - int cap in
      if q_c_local q \<le> p_pos_m_cap then
        let q = q\<lparr>q_c_local := q_c_position q\<rparr> in
        if q_c_local q \<le> p_pos_m_cap then (False, q) else (True, q)
      else (True, q))"

text \<open>The producer fills the entry and commits it; the destructor of the result advances the position.\<close>

definition enqueue_value :: "nat \<Rightarrow> 'a \<Rightarrow> 'a spsc \<Rightarrow> 'a spsc" where
  "enqueue_value cap v q = q\<lparr>q_p_stores := q_p_stores q @ [Set_slot (slot_index cap (p_view q)) v]\<rparr>"

definition enqueue_release :: "bool \<Rightarrow> 'a spsc \<Rightarrow> 'a spsc" where
  "enqueue_release committed q =
     (if committed then q\<lparr>q_p_stores := q_p_stores q @ [Set_position (p_view q + 1)]\<rparr> else q)"

definition try_dequeue :: "'a spsc \<Rightarrow> bool \<times> 'a spsc" where
  "try_dequeue q =
     (let c_pos = c_view q in
      if q_p_local q \<le> c_pos then
        let q = q\<lparr>q_p_local := q_p_position q\<rparr> in
        if q_p_local q \<le> c_pos then (False, q) else (True, q)
      else (True, q))"

definition dequeue_value :: "nat \<Rightarrow> 'a spsc \<Rightarrow> 'a" where
  "dequeue_value cap q = q_data q ! slot_index cap (c_view q)"

definition dequeue_release :: "'a spsc \<Rightarrow> 'a spsc" where
  "dequeue_release q = q\<lparr>q_c_stores := q_c_stores q @ [c_view q + 1]\<rparr>"

section \<open>Two processors at work\<close>

datatype 'a producer = P_idle | P_entry | P_filled 'a
datatype consumer = C_idle | C_entry | C_read

record 'a spsc_sys =
  y_q :: "'a spsc"
  y_p :: "'a producer"
  y_c :: consumer
  y_sent :: "'a list"
  y_got :: "'a list"

inductive spsc_step :: "nat \<Rightarrow> 'a spsc_sys \<Rightarrow> 'a spsc_sys \<Rightarrow> bool" for cap :: nat where
  p_try: "y_p S = P_idle \<Longrightarrow> try_enqueue cap (y_q S) = (ok, q) \<Longrightarrow>
    spsc_step cap S (S\<lparr>y_q := q, y_p := (if ok then P_entry else P_idle)\<rparr>)"
| p_fill: "y_p S \<noteq> P_idle \<Longrightarrow> spsc_step cap S (S\<lparr>y_q := enqueue_value cap v (y_q S), y_p := P_filled v\<rparr>)"
| p_commit: "y_p S = P_filled v \<Longrightarrow>
    spsc_step cap S (S\<lparr>y_q := enqueue_release True (y_q S), y_p := P_idle, y_sent := y_sent S @ [v]\<rparr>)"
| p_abort: "y_p S \<noteq> P_idle \<Longrightarrow> spsc_step cap S (S\<lparr>y_q := enqueue_release False (y_q S), y_p := P_idle\<rparr>)"
| c_try: "y_c S = C_idle \<Longrightarrow> try_dequeue (y_q S) = (ok, q) \<Longrightarrow>
    spsc_step cap S (S\<lparr>y_q := q, y_c := (if ok then C_entry else C_idle)\<rparr>)"
| c_read: "y_c S = C_entry \<Longrightarrow> spsc_step cap S (S\<lparr>y_c := C_read, y_got := y_got S @ [dequeue_value cap (y_q S)]\<rparr>)"
| c_release: "y_c S = C_read \<Longrightarrow> spsc_step cap S (S\<lparr>y_q := dequeue_release (y_q S), y_c := C_idle\<rparr>)"
| drain_producer: "spsc_step cap S (S\<lparr>y_q := drain_p (y_q S)\<rparr>)"
| drain_consumer: "spsc_step cap S (S\<lparr>y_q := drain_c (y_q S)\<rparr>)"

definition spsc_start :: "nat \<Rightarrow> 'a \<Rightarrow> 'a spsc_sys" where
  "spsc_start cap zero = \<lparr>y_q = spsc_new cap zero, y_p = P_idle, y_c = C_idle, y_sent = [], y_got = []\<rparr>"

end
