(* ===== verification/Spsc_Props.thy ===== *)
theory Spsc_Props
  imports Spsc_Buffer
begin

text \<open>
  The ring buffer is a first-in first-out queue under every interleaving and every delay of the
  stores: the invariant says what the producer's buffered stores will do to memory and which
  slots the consumer may still read.
\<close>

section \<open>Slots\<close>

lemma slot_index_mod:
  assumes "cap = 2 ^ n" "n < 32"
  shows "slot_index cap (int i) = i mod cap"
proof -
  have "(word_of_int (int i) :: 32 word) AND of_nat (2 ^ n - 1) = take_bit n (of_nat i)"
    by (simp add: take_bit_eq_mask mask_eq_exp_minus_1 of_nat_diff)
  then have "slot_index cap (int i) = take_bit n (unat (of_nat i :: 32 word))"
    by (simp add: slot_index_def assms(1) unsigned_take_bit_eq)
  also have "\<dots> = i mod 2 ^ 32 mod 2 ^ n" by (simp add: unat_of_nat take_bit_eq_mod)
  also have "\<dots> = i mod 2 ^ n" by (rule mod_mod_cancel, rule le_imp_power_dvd) (use assms(2) in simp)
  finally show ?thesis by (simp add: assms(1))
qed

lemma mod_eq_near:
  assumes "(i::nat) mod c = j mod c" "i \<le> j" "j < i + c"
  shows "i = j"
proof -
  have "(j - i) mod c = 0" using assms(1,2) by (metis mod_eq_dvd_iff_nat dvd_imp_mod_0)
  moreover have "j - i < c" using assms by simp
  ultimately show ?thesis using assms(2) by simp
qed

section \<open>The producer's buffered stores\<close>

text \<open>
  From position \<open>m\<close> in memory, whose slot holds \<open>cur\<close> if known: slots are written only at the current position and within reach of
  what the producer knows to be free; a position is published after its slot has the committed
  value; \<open>F\<close> holds of where the stores lead.
\<close>

primrec stores_ok :: "nat \<Rightarrow> int \<Rightarrow> 'a list \<Rightarrow> (nat \<Rightarrow> 'a option \<Rightarrow> bool) \<Rightarrow> nat \<Rightarrow> 'a option \<Rightarrow> 'a p_store list \<Rightarrow> bool" where
  "stores_ok cap lim sent F m cur [] \<longleftrightarrow> F m cur"
| "stores_ok cap lim sent F m cur (st # stores) \<longleftrightarrow>
     (case st of
        Set_slot i v \<Rightarrow> i = m mod cap \<and> int m < lim + int cap \<and> stores_ok cap lim sent F m (Some v) stores
      | Set_position n \<Rightarrow> n = int m + 1 \<and> m < length sent \<and> cur = Some (sent ! m) \<and> stores_ok cap lim sent F (Suc m) None stores)"

lemma stores_ok_append:
  "stores_ok cap lim sent F m cur (xs @ ys) \<longleftrightarrow> stores_ok cap lim sent (\<lambda>m cur. stores_ok cap lim sent F m cur ys) m cur xs"
  by (induction xs arbitrary: m cur) (auto split: p_store.splits)

lemma stores_ok_mono:
  assumes "stores_ok cap lim sent F m cur xs" "\<And>m cur. F m cur \<Longrightarrow> F' m cur" "lim \<le> lim'" "prefix sent sent'"
  shows "stores_ok cap lim' sent' F' m cur xs"
  using assms(1)
proof (induction xs arbitrary: m cur)
  case (Cons st xs)
  then show ?case using assms(3,4) by (cases st) (auto simp: prefix_def nth_append)
qed (simp add: assms(2))

lemma stores_ok_known:
  assumes "stores_ok cap lim sent F m None xs" "\<And>m. F m None \<Longrightarrow> F m (Some x)"
  shows "stores_ok cap lim sent F m (Some x) xs"
  using assms by (cases xs) (auto split: p_store.splits)

lemma stores_ok_view:
  assumes "stores_ok cap lim sent F m cur xs"
  obtains m' cur' where "F m' cur'" "foldl (\<lambda>p st. case st of Set_slot i v \<Rightarrow> p | Set_position n \<Rightarrow> n) (int m) xs = int m'" "m \<le> m'"
  using assms
proof (induction xs arbitrary: m cur thesis)
  case (Cons st xs)
  show ?case
  proof (cases st)
    case (Set_slot i v)
    with Cons.prems(2) have ok: "stores_ok cap lim sent F m (Some v) xs" by simp
    obtain m' cur' where "F m' cur'" "foldl (\<lambda>p st. case st of Set_slot i v \<Rightarrow> p | Set_position n \<Rightarrow> n) (int m) xs = int m'" "m \<le> m'"
      by (rule Cons.IH [OF _ ok])
    with Cons.prems(1) Set_slot show ?thesis by simp
  next
    case (Set_position n)
    with Cons.prems(2) have n: "n = int (Suc m)" "stores_ok cap lim sent F (Suc m) None xs" by simp_all
    obtain m' cur' where "F m' cur'" "foldl (\<lambda>p st. case st of Set_slot i v \<Rightarrow> p | Set_position n \<Rightarrow> n) (int (Suc m)) xs = int m'" "Suc m \<le> m'"
      by (rule Cons.IH [OF _ n(2)])
    with Cons.prems(1) Set_position n(1) show ?thesis by simp
  qed
qed simp

section \<open>The invariant\<close>

definition leads_to :: "'a list \<Rightarrow> 'a producer \<Rightarrow> nat \<Rightarrow> 'a option \<Rightarrow> bool" where
  "leads_to sent p m cur \<longleftrightarrow> m = length sent \<and> (\<forall>v. p = P_filled v \<longrightarrow> cur = Some v)"

text \<open>Memory has positions \<open>pm\<close> and \<open>cm\<close>; the consumer has released \<open>nc\<close> entries.\<close>

definition spsc_at :: "nat \<Rightarrow> 'a spsc_sys \<Rightarrow> nat \<Rightarrow> nat \<Rightarrow> nat \<Rightarrow> bool" where
  "spsc_at cap S pm cm nc \<longleftrightarrow>
     length (q_data (y_q S)) = cap \<and> q_p_position (y_q S) = int pm \<and> q_c_position (y_q S) = int cm \<and> cm \<le> nc \<and>
     q_c_stores (y_q S) = map int [Suc cm..<Suc nc] \<and>
     stores_ok cap (q_c_local (y_q S)) (y_sent S) (leads_to (y_sent S) (y_p S)) pm
       (Some (q_data (y_q S) ! (pm mod cap))) (q_p_stores (y_q S)) \<and>
     q_c_local (y_q S) \<le> int cm \<and> q_p_local (y_q S) \<le> int pm \<and>
     int (length (y_sent S)) \<le> q_c_local (y_q S) + int cap \<and>
     (y_p S \<noteq> P_idle \<longrightarrow> int (length (y_sent S)) < q_c_local (y_q S) + int cap) \<and>
     int nc \<le> q_p_local (y_q S) \<and> (y_c S \<noteq> C_idle \<longrightarrow> int nc < q_p_local (y_q S)) \<and>
     (\<forall>i. nc \<le> i \<longrightarrow> i < pm \<longrightarrow> q_data (y_q S) ! (i mod cap) = y_sent S ! i) \<and>
     pm \<le> length (y_sent S) \<and> y_got S = take (if y_c S = C_read then Suc nc else nc) (y_sent S)"

lemma spsc_atD:
  assumes "spsc_at cap S pm cm nc"
  shows at_len: "length (q_data (y_q S)) = cap" and at_pm: "q_p_position (y_q S) = int pm" and at_cm: "q_c_position (y_q S) = int cm"
    and at_rel: "cm \<le> nc" and at_cst: "q_c_stores (y_q S) = map int [Suc cm..<Suc nc]"
    and at_pst: "stores_ok cap (q_c_local (y_q S)) (y_sent S) (leads_to (y_sent S) (y_p S)) pm
      (Some (q_data (y_q S) ! (pm mod cap))) (q_p_stores (y_q S))"
    and at_cl: "q_c_local (y_q S) \<le> int cm" and at_pl: "q_p_local (y_q S) \<le> int pm"
    and at_room: "int (length (y_sent S)) \<le> q_c_local (y_q S) + int cap"
      "y_p S \<noteq> P_idle \<Longrightarrow> int (length (y_sent S)) < q_c_local (y_q S) + int cap"
    and at_known: "int nc \<le> q_p_local (y_q S)" "y_c S \<noteq> C_idle \<Longrightarrow> int nc < q_p_local (y_q S)"
    and at_data: "nc \<le> i \<Longrightarrow> i < pm \<Longrightarrow> q_data (y_q S) ! (i mod cap) = y_sent S ! i"
    and at_sent: "pm \<le> length (y_sent S)" and at_got: "y_got S = take (if y_c S = C_read then Suc nc else nc) (y_sent S)"
  using assms unfolding spsc_at_def by blast+

text \<open>A step that touches neither memory nor the stores.\<close>

lemma p_view_at: "spsc_at cap S pm cm nc \<Longrightarrow> p_view (y_q S) = int (length (y_sent S))"
  by (rule stores_ok_view [OF at_pst], assumption) (simp add: p_view_def at_pm leads_to_def)

lemma foldl_last: "foldl (\<lambda>_ n. n) a xs = (if xs = [] then a else last xs)"
  by (induction xs arbitrary: a) simp_all

lemma c_view_at: "spsc_at cap S pm cm nc \<Longrightarrow> c_view (y_q S) = int nc"
  using at_rel [of cap S pm cm nc] by (simp add: c_view_def foldl_last at_cst at_cm)

section \<open>Every step keeps it\<close>

lemma start_at: "0 < cap \<Longrightarrow> spsc_at cap (spsc_start cap zero) 0 0 0"
  by (simp add: spsc_at_def spsc_start_def spsc_new_def leads_to_def)

lemma p_try_at:
  assumes S: "spsc_at cap S pm cm nc" and "y_p S = P_idle" "try_enqueue cap (y_q S) = (ok, q)"
  shows "spsc_at cap (S\<lparr>y_q := q, y_p := (if ok then P_entry else P_idle)\<rparr>) pm cm nc"
proof -
  have st: "stores_ok cap l (y_sent S) (leads_to (y_sent S) p) pm (Some (q_data (y_q S) ! (pm mod cap))) (q_p_stores (y_q S))"
    if "q_c_local (y_q S) \<le> l" "p \<in> {P_entry, P_idle}" for l p
    by (rule stores_ok_mono [OF at_pst [OF S]]) (use assms(2) that in \<open>auto simp: leads_to_def\<close>)
  from assms(3) consider (known) "ok" "q = y_q S" "int (length (y_sent S)) < q_c_local (y_q S) + int cap"
    | (read) "q = (y_q S)\<lparr>q_c_local := int cm\<rparr>" "ok \<longleftrightarrow> int (length (y_sent S)) < int cm + int cap"
    by (auto simp: try_enqueue_def p_view_at [OF S] at_cm [OF S] Let_def split: if_splits)
  then show ?thesis
  proof cases
    case known
    with S st [of "q_c_local (y_q S)" P_entry] show ?thesis by (simp add: spsc_at_def del: upt_Suc)
  next
    case read
    have "int (length (y_sent S)) \<le> int cm + int cap" using at_room(1) [OF S] at_cl [OF S] by linarith
    with read S st [of "int cm" "if ok then P_entry else P_idle"] at_cl [OF S] show ?thesis
      by (simp add: spsc_at_def del: upt_Suc)
  qed
qed

lemma p_fill_at:
  assumes cap: "cap = 2 ^ n" "n < 32" and S: "spsc_at cap S pm cm nc" and "y_p S \<noteq> P_idle"
  shows "spsc_at cap (S\<lparr>y_q := enqueue_value cap v (y_q S), y_p := P_filled v\<rparr>) pm cm nc"
proof -
  note room = at_room(2) [OF S assms(4)]
  have "stores_ok cap (q_c_local (y_q S)) (y_sent S) (leads_to (y_sent S) (P_filled v)) pm (Some (q_data (y_q S) ! (pm mod cap)))
      (q_p_stores (y_q S) @ [Set_slot (length (y_sent S) mod cap) v])"
    unfolding stores_ok_append by (rule stores_ok_mono [OF at_pst [OF S]]) (use room in \<open>auto simp: leads_to_def\<close>)
  with S room show ?thesis
    by (simp add: spsc_at_def enqueue_value_def p_view_at [OF S] slot_index_mod [OF cap] del: upt_Suc)
qed

lemma p_abort_at:
  assumes S: "spsc_at cap S pm cm nc"
  shows "spsc_at cap (S\<lparr>y_q := enqueue_release False (y_q S), y_p := P_idle\<rparr>) pm cm nc"
proof -
  have "stores_ok cap (q_c_local (y_q S)) (y_sent S) (leads_to (y_sent S) P_idle) pm
      (Some (q_data (y_q S) ! (pm mod cap))) (q_p_stores (y_q S))"
    by (rule stores_ok_mono [OF at_pst [OF S]]) (auto simp: leads_to_def)
  with S show ?thesis by (simp add: spsc_at_def enqueue_release_def del: upt_Suc)
qed

lemma p_commit_at:
  assumes S: "spsc_at cap S pm cm nc" and "y_p S = P_filled v"
  shows "spsc_at cap (S\<lparr>y_q := enqueue_release True (y_q S), y_p := P_idle, y_sent := y_sent S @ [v]\<rparr>) pm cm nc"
proof -
  have room: "int (length (y_sent S)) < q_c_local (y_q S) + int cap" using at_room(2) [OF S] assms(2) by simp
  have st: "stores_ok cap (q_c_local (y_q S)) (y_sent S @ [v]) (leads_to (y_sent S @ [v]) P_idle) pm (Some (q_data (y_q S) ! (pm mod cap)))
      (q_p_stores (y_q S) @ [Set_position (int (length (y_sent S)) + 1)])"
    unfolding stores_ok_append
    by (rule stores_ok_mono [OF at_pst [OF S]]) (use assms(2) in \<open>auto simp: leads_to_def\<close>)
  have "(if y_c S = C_read then Suc nc else nc) \<le> length (y_sent S)"
    using at_known [OF S] at_pl [OF S] at_sent [OF S] by auto
  then have got: "y_got S = take (if y_c S = C_read then Suc nc else nc) (y_sent S @ [v])" using at_got [OF S] by simp
  have "q_data (y_q S) ! (i mod cap) = (y_sent S @ [v]) ! i" if "nc \<le> i" "i < pm" for i
    using at_data [OF S that] at_sent [OF S] that by (simp add: nth_append)
  with S room st got show ?thesis by (simp add: spsc_at_def enqueue_release_def p_view_at [OF S] del: upt_Suc)
qed

lemma c_try_at:
  assumes S: "spsc_at cap S pm cm nc" and "y_c S = C_idle" "try_dequeue (y_q S) = (ok, q)"
  shows "spsc_at cap (S\<lparr>y_q := q, y_c := (if ok then C_entry else C_idle)\<rparr>) pm cm nc"
proof -
  have "nc \<le> pm" using at_known(1) [OF S] at_pl [OF S] by simp
  from assms(3) consider (known) "ok" "q = y_q S" "int nc < q_p_local (y_q S)"
    | (read) "q = (y_q S)\<lparr>q_p_local := int pm\<rparr>" "ok \<longleftrightarrow> nc < pm"
    by (auto simp: try_dequeue_def c_view_at [OF S] at_pm [OF S] Let_def split: if_splits)
  then show ?thesis
    by cases (use S assms(2) \<open>nc \<le> pm\<close> in \<open>simp_all add: spsc_at_def del: upt_Suc\<close>)
qed

lemma c_read_at:
  assumes cap: "cap = 2 ^ n" "n < 32" and S: "spsc_at cap S pm cm nc" and "y_c S = C_entry"
  shows "spsc_at cap (S\<lparr>y_c := C_read, y_got := y_got S @ [dequeue_value cap (y_q S)]\<rparr>) pm cm nc"
proof -
  have "nc < pm" using at_known(2) [OF S] at_pl [OF S] assms(4) by simp
  then have "dequeue_value cap (y_q S) = y_sent S ! nc"
    using at_data [OF S, of nc] by (simp add: dequeue_value_def c_view_at [OF S] slot_index_mod [OF cap])
  moreover have "nc < length (y_sent S)" using \<open>nc < pm\<close> at_sent [OF S] by simp
  ultimately have "y_got S @ [dequeue_value cap (y_q S)] = take (Suc nc) (y_sent S)"
    using at_got [OF S] assms(4) by (simp add: take_Suc_conv_app_nth)
  with S assms(4) show ?thesis by (simp add: spsc_at_def del: upt_Suc)
qed

lemma c_release_at:
  assumes S: "spsc_at cap S pm cm nc" and "y_c S = C_read"
  shows "spsc_at cap (S\<lparr>y_q := dequeue_release (y_q S), y_c := C_idle\<rparr>) pm cm (Suc nc)"
proof -
  have "int nc < q_p_local (y_q S)" using at_known(2) [OF S] assms(2) by simp
  with S assms(2) at_rel [OF S] show ?thesis
    by (simp add: spsc_at_def dequeue_release_def c_view_at [OF S])
qed

lemma drain_c_at:
  assumes S: "spsc_at cap S pm cm nc"
  shows "\<exists>cm. spsc_at cap (S\<lparr>y_q := drain_c (y_q S)\<rparr>) pm cm nc"
proof (cases "cm < nc")
  case True
  then have "q_c_stores (y_q S) = int (Suc cm) # map int [Suc (Suc cm)..<Suc nc]"
    using at_cst [OF S] by (simp add: upt_conv_Cons del: upt_Suc)
  then have d: "drain_c (y_q S) = (y_q S)\<lparr>q_c_position := int (Suc cm), q_c_stores := map int [Suc (Suc cm)..<Suc nc]\<rparr>"
    by (simp add: drain_c_def del: upt_Suc)
  have "spsc_at cap (S\<lparr>y_q := drain_c (y_q S)\<rparr>) pm (Suc cm) nc"
    using S True unfolding d by (simp add: spsc_at_def del: upt_Suc)
  then show ?thesis ..
next
  case False
  then have "q_c_stores (y_q S) = []" using at_cst [OF S] at_rel [OF S] by simp
  with S have "spsc_at cap (S\<lparr>y_q := drain_c (y_q S)\<rparr>) pm cm nc" by (simp add: drain_c_def)
  then show ?thesis ..
qed

lemma drain_p_at:
  assumes cap: "0 < cap" and S: "spsc_at cap S pm cm nc"
  shows "\<exists>pm. spsc_at cap (S\<lparr>y_q := drain_p (y_q S)\<rparr>) pm cm nc"
proof (cases "q_p_stores (y_q S)")
  case Nil
  then have "drain_p (y_q S) = y_q S" by (simp add: drain_p_def)
  with S show ?thesis by (intro exI [of _ pm]) simp
next
  case (Cons st stores)
  note st = at_pst [OF S, unfolded Cons]
  show ?thesis
  proof (cases st)
    case (Set_slot i v)
    with st have i: "i = pm mod cap" "int pm < q_c_local (y_q S) + int cap"
      "stores_ok cap (q_c_local (y_q S)) (y_sent S) (leads_to (y_sent S) (y_p S)) pm (Some v) stores" by simp_all
    have lt: "pm mod cap < length (q_data (y_q S))" using cap at_len [OF S] by simp
    have near: "pm < nc + cap" using i(2) at_cl [OF S] at_rel [OF S] by linarith
    have "(q_data (y_q S))[pm mod cap := v] ! (j mod cap) = y_sent S ! j" if "nc \<le> j" "j < pm" for j
    proof -
      have "j mod cap \<noteq> pm mod cap" using mod_eq_near [of j cap pm] that near by auto
      with at_data [OF S that] show ?thesis by simp
    qed
    then have "spsc_at cap (S\<lparr>y_q := drain_p (y_q S)\<rparr>) pm cm nc"
      using S i lt by (simp add: spsc_at_def drain_p_def Cons Set_slot del: upt_Suc)
    then show ?thesis ..
  next
    case (Set_position m)
    with st have m: "m = int (Suc pm)" "pm < length (y_sent S)" "q_data (y_q S) ! (pm mod cap) = y_sent S ! pm"
      "stores_ok cap (q_c_local (y_q S)) (y_sent S) (leads_to (y_sent S) (y_p S)) (Suc pm) None stores" by simp_all
    have "stores_ok cap (q_c_local (y_q S)) (y_sent S) (leads_to (y_sent S) (y_p S)) (Suc pm)
        (Some (q_data (y_q S) ! (Suc pm mod cap))) stores"
      by (rule stores_ok_known [OF m(4)]) (auto simp: leads_to_def)
    moreover have "q_data (y_q S) ! (j mod cap) = y_sent S ! j" if "nc \<le> j" "j < Suc pm" for j
      using that m(3) at_data [OF S, of j] by (cases "j = pm") auto
    ultimately have "spsc_at cap (S\<lparr>y_q := drain_p (y_q S)\<rparr>) (Suc pm) cm nc"
      using S m(1,2) by (simp add: spsc_at_def drain_p_def Cons Set_position del: upt_Suc)
    then show ?thesis ..
  qed
qed

lemma step_at:
  assumes "cap = 2 ^ n" "n < 32" "spsc_step cap S S'" "spsc_at cap S pm cm nc"
  shows "\<exists>pm cm nc. spsc_at cap S' pm cm nc"
  using assms(3)
proof cases
  case (p_try ok q)
  show ?thesis unfolding p_try(1) using p_try_at [OF assms(4) p_try(2,3)] by blast
next
  case (p_fill v)
  show ?thesis unfolding p_fill(1) using p_fill_at [OF assms(1,2,4) p_fill(2)] by blast
next
  case (p_commit v)
  show ?thesis unfolding p_commit(1) using p_commit_at [OF assms(4) p_commit(2)] by blast
next
  case p_abort
  show ?thesis unfolding p_abort(1) using p_abort_at [OF assms(4)] by blast
next
  case (c_try ok q)
  show ?thesis unfolding c_try(1) using c_try_at [OF assms(4) c_try(2,3)] by blast
next
  case c_read
  show ?thesis unfolding c_read(1) using c_read_at [OF assms(1,2,4) c_read(2)] by blast
next
  case c_release
  show ?thesis unfolding c_release(1) using c_release_at [OF assms(4) c_release(2)] by blast
next
  case drain_producer
  have "0 < cap" using assms(1) by simp
  then show ?thesis unfolding drain_producer using drain_p_at [OF _ assms(4)] by blast
next
  case drain_consumer
  show ?thesis unfolding drain_consumer using drain_c_at [OF assms(4)] by blast
qed

lemma reachable_at:
  assumes "cap = 2 ^ n" "n < 32" "(spsc_step cap)\<^sup>*\<^sup>* (spsc_start cap zero) S"
  shows "\<exists>pm cm nc. spsc_at cap S pm cm nc"
  using assms(3)
proof induction
  case base
  have "0 < cap" using assms(1) by simp
  then show ?case by (intro exI, rule start_at)
next
  case (step S S')
  obtain pm cm nc where "spsc_at cap S pm cm nc" using step.IH by blast
  from step_at [OF assms(1,2) step.hyps(2) this] show ?case .
qed

section \<open>Properties\<close>

text \<open>
  C25: whatever the interleaving of producer and consumer and however long their stores take to
  reach memory, the consumer receives the committed entries in order, each once and as
  written, never more than \<open>cap\<close> are in flight, and an attempt fails only when there is reason:
  a dequeue when everything in memory has been received, an enqueue when \<open>cap\<close> entries are
  not yet released in memory.
\<close>

theorem spsc_fifo:
  assumes "cap = 2 ^ n" "n < 32" "(spsc_step cap)\<^sup>*\<^sup>* (spsc_start cap zero) S"
  shows "prefix (y_got S) (y_sent S) \<and> length (y_sent S) \<le> length (y_got S) + cap \<and>
    (y_c S = C_idle \<and> \<not> fst (try_dequeue (y_q S)) \<longrightarrow> q_p_position (y_q S) = int (length (y_got S))) \<and>
    (y_p S = P_idle \<and> \<not> fst (try_enqueue cap (y_q S)) \<longrightarrow> int (length (y_sent S)) = q_c_position (y_q S) + int cap)"
proof -
  obtain pm cm nc where S: "spsc_at cap S pm cm nc" using reachable_at [OF assms] by blast
  have nc: "nc \<le> length (y_sent S)" "y_c S = C_read \<Longrightarrow> Suc nc \<le> length (y_sent S)"
    using at_known [OF S] at_pl [OF S] at_sent [OF S] by auto
  then have got: "length (y_got S) = (if y_c S = C_read then Suc nc else nc)" by (simp add: at_got [OF S])
  have "prefix (y_got S) (y_sent S)" by (simp add: at_got [OF S] take_is_prefix)
  moreover have "length (y_sent S) \<le> length (y_got S) + cap"
    using at_room(1) [OF S] at_cl [OF S] at_rel [OF S] got by auto
  moreover have "q_p_position (y_q S) = int (length (y_got S))" if "y_c S = C_idle" "\<not> fst (try_dequeue (y_q S))"
    using that got at_known(1) [OF S] at_pl [OF S]
    by (auto simp: try_dequeue_def c_view_at [OF S] at_pm [OF S] Let_def split: if_splits)
  moreover have "int (length (y_sent S)) = q_c_position (y_q S) + int cap" if "y_p S = P_idle" "\<not> fst (try_enqueue cap (y_q S))"
    using that at_room(1) [OF S] at_cl [OF S]
    by (auto simp: try_enqueue_def p_view_at [OF S] at_cm [OF S] Let_def split: if_splits)
  ultimately show ?thesis by blast
qed

lemma spsc_fifo_witness:
  "\<exists>S. (spsc_step 2)\<^sup>*\<^sup>* (spsc_start 2 0) S \<and> y_sent S = [7::nat] \<and> prefix (y_got S) [7]"
proof -
  let ?S0 = "spsc_start 2 (0::nat)"
  let ?S1 = "?S0\<lparr>y_q := snd (try_enqueue 2 (y_q ?S0)), y_p := P_entry\<rparr>"
  let ?S2 = "?S1\<lparr>y_q := enqueue_value 2 7 (y_q ?S1), y_p := P_filled 7\<rparr>"
  let ?S3 = "?S2\<lparr>y_q := enqueue_release True (y_q ?S2), y_p := P_idle, y_sent := y_sent ?S2 @ [7]\<rparr>"
  have ok: "try_enqueue 2 (y_q ?S0) = (True, snd (try_enqueue 2 (y_q ?S0)))"
    by (simp add: spsc_start_def spsc_new_def try_enqueue_def p_view_def)
  have "spsc_step 2 ?S0 ?S1" using spsc_step.p_try [OF _ ok] by (simp add: spsc_start_def)
  moreover have "spsc_step 2 ?S1 ?S2" by (rule spsc_step.p_fill) simp
  moreover have "spsc_step 2 ?S2 ?S3" by (rule spsc_step.p_commit) simp
  ultimately have r: "(spsc_step 2)\<^sup>*\<^sup>* ?S0 ?S3" by (meson r_into_rtranclp rtranclp.rtrancl_into_rtrancl)
  have "y_sent ?S3 = [7]" by (simp add: spsc_start_def)
  moreover from spsc_fifo [of 2 1, OF _ _ r] have "prefix (y_got ?S3) (y_sent ?S3)" by simp
  ultimately show ?thesis using r by metis
qed

end
