(* ===== verification/Byte_Buffer.thy ===== *)
theory Byte_Buffer
  imports Vrt_Prelude
begin

text \<open>
  The interface of the byte buffers that \<^verbatim>\<open>vr/io/links/link_base.h\<close> is a template over: a
  stream of bytes between a read and a write position, both memory addresses that the user
  may write to and read from directly. The C++ template parameter is the record of operations;
  what the links rely on is the locale \<open>byte_buffer\<close>.
\<close>

type_synonym byte = "8 word"

section \<open>Operations\<close>

text \<open>
  \<open>b_read a n\<close> are the \<open>n\<close> bytes at address \<open>a\<close>, \<open>b_write a bs\<close> stores bytes from address
  \<open>a\<close> on; both are \<open>None\<close> when an address is not mapped. The other fields are the member
  functions of the buffer classes.
\<close>

record 's buffer_ops =
  b_r_position :: "'s \<Rightarrow> int"
  b_w_position :: "'s \<Rightarrow> int"
  b_size :: "'s \<Rightarrow> int"
  b_w_window :: "'s \<Rightarrow> int"
  b_r_advance :: "int \<Rightarrow> 's \<Rightarrow> 's result"
  b_w_advance :: "int \<Rightarrow> 's \<Rightarrow> 's result"
  b_read :: "int \<Rightarrow> nat \<Rightarrow> 's \<Rightarrow> byte list option"
  b_write :: "int \<Rightarrow> byte list \<Rightarrow> 's \<Rightarrow> 's option"

section \<open>A stretch of memory\<close>

text \<open>
  \<open>cell\<close> maps an address to the index of its byte in the backing store, or to \<open>None\<close> when it
  is not mapped; two addresses may share a byte.
\<close>

definition load_bytes :: "(int \<Rightarrow> nat option) \<Rightarrow> byte list \<Rightarrow> int \<Rightarrow> nat \<Rightarrow> byte list option" where
  "load_bytes cell store a n =
     those (map (\<lambda>i. map_option (\<lambda>k. store ! k) (cell (a + int i))) [0..<n])"

primrec store_bytes :: "(int \<Rightarrow> nat option) \<Rightarrow> int \<Rightarrow> byte list \<Rightarrow> byte list \<Rightarrow> byte list option" where
  "store_bytes cell a [] store = Some store"
| "store_bytes cell a (b # bs) store =
     (case cell a of None \<Rightarrow> None | Some k \<Rightarrow> store_bytes cell (a + 1) bs (store[k := b]))"

lemma those_Some_map: "those (map (\<lambda>x. Some (f x)) xs) = Some (map f xs)"
  by (induction xs) simp_all

lemma load_bytes_eq:
  assumes "\<And>i. i < n \<Longrightarrow> cell (a + int i) = Some (k i)"
  shows "load_bytes cell store a n = Some (map (\<lambda>i. store ! k i) [0..<n])"
proof -
  have "map (\<lambda>i. map_option (\<lambda>k. store ! k) (cell (a + int i))) [0..<n] = map (\<lambda>i. Some (store ! k i)) [0..<n]"
    using assms by (intro map_cong) simp_all
  then show ?thesis unfolding load_bytes_def by (simp only: those_Some_map)
qed

text \<open>Storing into cells that are pairwise different changes exactly these.\<close>

lemma store_bytes_eq:
  assumes "\<And>i. i < length bs \<Longrightarrow> cell (a + int i) = Some (k i)" "inj_on k {..<length bs}"
    "\<And>i. i < length bs \<Longrightarrow> k i < length store"
  shows "\<exists>store'. store_bytes cell a bs store = Some store' \<and> length store' = length store \<and>
    (\<forall>i<length bs. store' ! k i = bs ! i) \<and> (\<forall>j. j \<notin> k ` {..<length bs} \<longrightarrow> store' ! j = store ! j)"
  using assms
proof (induction bs arbitrary: a k store)
  case (Cons b bs)
  have c: "cell a = Some (k 0)" using Cons.prems(1) [of 0] by simp
  have inj: "inj_on (k \<circ> Suc) {..<length bs}" using Cons.prems(2) by (auto simp: inj_on_def)
  have "\<And>i. i < length bs \<Longrightarrow> cell (a + 1 + int i) = Some ((k \<circ> Suc) i)"
    using Cons.prems(1) [of "Suc i" for i] by (simp add: algebra_simps)
  moreover have "\<And>i. i < length bs \<Longrightarrow> (k \<circ> Suc) i < length (store[k 0 := b])"
    using Cons.prems(3) by simp
  ultimately obtain st where st: "store_bytes cell (a + 1) bs (store[k 0 := b]) = Some st"
    "length st = length (store[k 0 := b])" "\<forall>i<length bs. st ! (k \<circ> Suc) i = bs ! i"
    "\<forall>j. j \<notin> (k \<circ> Suc) ` {..<length bs} \<longrightarrow> st ! j = store[k 0 := b] ! j"
    using Cons.IH [OF _ inj] by blast
  have k0: "k 0 \<notin> (k \<circ> Suc) ` {..<length bs}" using Cons.prems(2) by (auto simp: inj_on_def)
  have img: "k ` {..<length (b # bs)} = insert (k 0) ((k \<circ> Suc) ` {..<length bs})"
    by (simp add: lessThan_Suc_eq_insert_0 image_image)
  have "st ! k i = (b # bs) ! i" if "i < length (b # bs)" for i
  proof (cases i)
    case 0
    then show ?thesis using st(4) k0 Cons.prems(3) [of 0] by simp
  next
    case (Suc i')
    then show ?thesis using st(3) that by simp
  qed
  moreover have "st ! j = store ! j" if "j \<notin> k ` {..<length (b # bs)}" for j
    using that st(4) unfolding img by simp
  ultimately show ?case using st(1,2) c by simp
qed simp

lemma store_bytes_None:
  "i < length bs \<Longrightarrow> cell (a + int i) = None \<Longrightarrow> store_bytes cell a bs store = None"
proof (induction bs arbitrary: i a store)
  case (Cons b bs)
  then show ?case by (cases i) (auto simp: add.assoc [symmetric] split: option.split)
qed simp

section \<open>Stretches of a linear store\<close>

text \<open>The bytes of a store between two positions, and what reading and writing makes of them.\<close>

definition stretch :: "'a list \<Rightarrow> nat \<Rightarrow> nat \<Rightarrow> 'a list" where
  "stretch F r w = take (w - r) (drop r F)"

lemma length_stretch: "r \<le> w \<Longrightarrow> w \<le> length F \<Longrightarrow> length (stretch F r w) = w - r"
  by (simp add: stretch_def)

lemma stretch_nth: "i < w - r \<Longrightarrow> r + i < length F \<Longrightarrow> stretch F r w ! i = F ! (r + i)"
  by (simp add: stretch_def)

lemma stretch_append: "r \<le> w \<Longrightarrow> w \<le> v \<Longrightarrow> v \<le> length F \<Longrightarrow> stretch F r v = stretch F r w @ stretch F w v"
  by (rule nth_equalityI) (auto simp: length_stretch stretch_nth nth_append add.commute)

lemma stretch_drop: "stretch F (r + n) w = drop n (stretch F r w)"
  by (simp add: stretch_def drop_take add.commute)

lemma stretch_take: "n \<le> w - r \<Longrightarrow> take n (stretch F r w) = stretch F r (r + n)"
  by (simp add: stretch_def min_def)

definition patch :: "'a list \<Rightarrow> nat \<Rightarrow> 'a list \<Rightarrow> 'a list" where
  "patch F k bs = take k F @ bs @ drop (k + length bs) F"

lemma length_patch [simp]: "k + length bs \<le> length F \<Longrightarrow> length (patch F k bs) = length F"
  by (simp add: patch_def)

lemma patch_nth:
  assumes "k + length bs \<le> length F"
  shows "patch F k bs ! i = (if k \<le> i \<and> i < k + length bs then bs ! (i - k) else F ! i)"
proof -
  have "i < k \<or> (k \<le> i \<and> i < k + length bs) \<or> k + length bs \<le> i" by linarith
  then show ?thesis using assms unfolding patch_def
    by (elim disjE) (auto simp: nth_append)
qed

lemma stretch_patch_outside:
  assumes "k + length bs \<le> length F" "w \<le> k \<or> k + length bs \<le> r" "r \<le> w" "w \<le> length F"
  shows "stretch (patch F k bs) r w = stretch F r w"
  using assms by (intro nth_equalityI) (auto simp: length_stretch stretch_nth patch_nth)

lemma stretch_patch_exact: "k + length bs \<le> length F \<Longrightarrow> stretch (patch F k bs) k (k + length bs) = bs"
  by (intro nth_equalityI) (auto simp: length_stretch stretch_nth patch_nth)

lemma stretch_patch_inside:
  assumes "r + k + length bs \<le> w" "w \<le> length F"
  shows "stretch (patch F (r + k) bs) r w = patch (stretch F r w) k bs"
  using assms by (intro nth_equalityI) (auto simp: length_stretch stretch_nth patch_nth)

lemma load_linear:
  assumes "\<And>i. i < n \<Longrightarrow> cell (a + int i) = Some (k + i)" "k + n \<le> length store"
  shows "load_bytes cell store a n = Some (stretch store k (k + n))"
proof -
  have "load_bytes cell store a n = Some (map (\<lambda>i. store ! (k + i)) [0..<n])"
    by (rule load_bytes_eq [where k = "\<lambda>i. k + i"]) (rule assms(1))
  moreover have "map (\<lambda>i. store ! (k + i)) [0..<n] = stretch store k (k + n)"
    using assms(2) by (intro nth_equalityI) (simp_all add: length_stretch stretch_nth)
  ultimately show ?thesis by simp
qed

lemma store_linear:
  assumes "\<And>i. i < length bs \<Longrightarrow> cell (a + int i) = Some (k + i)" "k + length bs \<le> length store"
  shows "store_bytes cell a bs store = Some (patch store k bs)"
proof -
  have "inj_on (\<lambda>i. k + i) {..<length bs}" by (simp add: inj_on_def)
  moreover have "\<And>i. i < length bs \<Longrightarrow> k + i < length store" using assms(2) by simp
  ultimately obtain st where st: "store_bytes cell a bs store = Some st" "length st = length store"
    "\<forall>i<length bs. st ! (k + i) = bs ! i" "\<forall>j. j \<notin> (\<lambda>i. k + i) ` {..<length bs} \<longrightarrow> st ! j = store ! j"
    using store_bytes_eq [where k = "\<lambda>i. k + i" and cell = cell and a = a and bs = bs and store = store] assms(1) by blast
  have "st = patch store k bs"
  proof (rule nth_equalityI)
    show "length st = length (patch store k bs)" using st(2) assms(2) by simp
    fix i
    show "st ! i = patch store k bs ! i"
    proof (cases "k \<le> i \<and> i < k + length bs")
      case True
      then obtain d where "i = k + d" "d < length bs" by (metis le_add_diff_inverse nat_add_left_cancel_less)
      then show ?thesis using st(3) assms(2) by (simp add: patch_nth)
    next
      case False
      then have "i \<notin> (\<lambda>i. k + i) ` {..<length bs}" by auto
      then show ?thesis using st(4) assms(2) False by (auto simp: patch_nth)
    qed
  qed
  with st(1) show ?thesis by simp
qed

section \<open>The contract\<close>

text \<open>
  \<open>content\<close> are the unconsumed bytes. \<open>step\<close> bounds what may be appended at once, \<open>left\<close> what may
  still be appended; consuming gives space back to a buffer that \<open>recycles\<close>. Appending works
  both ways the links do it: bytes stored at the write position and then committed, or space
  committed first and then stored to relative to the read position.
\<close>

definition content :: "('s, 'm) buffer_ops_scheme \<Rightarrow> 's \<Rightarrow> byte list" where
  "content B s = (case b_read B (b_r_position B s) (nat (b_size B s)) s of None \<Rightarrow> [] | Some bs \<Rightarrow> bs)"

locale byte_buffer =
  fixes B :: "'s buffer_ops" and inv :: "'s \<Rightarrow> bool" and step left :: "'s \<Rightarrow> int" and recycles :: bool
  assumes size_law: "inv s \<Longrightarrow> 0 \<le> b_size B s"
    and read_law: "inv s \<Longrightarrow> \<exists>c. b_read B (b_r_position B s) (nat (b_size B s)) s = Some c \<and> length c = nat (b_size B s)"
    and room_law: "inv s \<Longrightarrow> 0 \<le> step s \<and> 0 \<le> left s \<and> min (step s) (left s) \<le> b_w_window B s"
    and fill_law: "inv s \<Longrightarrow> int (length bs) \<le> step s \<Longrightarrow> int (length bs) \<le> left s \<Longrightarrow>
      \<exists>s'. b_write B (b_w_position B s) bs s = Some s' \<and>
        (\<exists>s''. b_w_advance B (int (length bs)) s' = Inr s'' \<and> inv s'' \<and> content B s'' = content B s @ bs \<and>
          step s'' = step s \<and> left s'' \<ge> left s - int (length bs))"
    and reserve_law: "inv s \<Longrightarrow> 0 \<le> n \<Longrightarrow> n \<le> step s \<Longrightarrow> n \<le> left s \<Longrightarrow>
      \<exists>s' junk. b_w_advance B n s = Inr s' \<and> inv s' \<and> content B s' = content B s @ junk \<and> length junk = nat n \<and>
        step s' = step s \<and> left s' \<ge> left s - n"
    and store_law: "inv s \<Longrightarrow> k + length bs \<le> length (content B s) \<Longrightarrow>
      \<exists>s'. b_write B (b_r_position B s + int k) bs s = Some s' \<and> inv s' \<and> b_r_position B s' = b_r_position B s \<and>
        content B s' = patch (content B s) k bs \<and> step s' = step s \<and> left s' = left s"
    and consume_law: "inv s \<Longrightarrow> 0 \<le> n \<Longrightarrow> n \<le> b_size B s \<Longrightarrow>
      \<exists>s'. b_r_advance B n s = Inr s' \<and> inv s' \<and> content B s' = drop (nat n) (content B s) \<and>
        step s' = step s \<and> left s' \<ge> left s + (if recycles then n else 0)"
    and peek_law: "inv s \<Longrightarrow> m \<le> nat (b_size B s) \<Longrightarrow> b_read B (b_r_position B s) m s = Some (take m (content B s))"
begin

lemma length_content: "inv s \<Longrightarrow> int (length (content B s)) = b_size B s"
  using read_law [of s] size_law [of s] by (auto simp: content_def)

lemma size_eq: "inv s \<Longrightarrow> b_size B s = int (length (content B s))"
  by (simp add: length_content)

text \<open>What can certainly be appended at once.\<close>

definition room :: "'s \<Rightarrow> int" where
  "room s = min (step s) (left s)"

lemma room_window: "inv s \<Longrightarrow> 0 \<le> room s \<and> room s \<le> b_w_window B s"
  using room_law [of s] by (simp add: room_def)

end

section \<open>Programs of a buffer user\<close>

text \<open>Appending, as a read from a device does it, and taking bytes out.\<close>

datatype buffer_op = Put "byte list" | Take nat

definition buffer_put :: "'s buffer_ops \<Rightarrow> byte list \<Rightarrow> 's \<Rightarrow> 's result option" where
  "buffer_put B bs s =
     bind_ro (lift_o (b_write B (b_w_position B s) bs s)) (\<lambda>s. Some (b_w_advance B (int (length bs)) s))"

definition buffer_take :: "'s buffer_ops \<Rightarrow> nat \<Rightarrow> 's \<Rightarrow> (byte list \<times> 's) result option" where
  "buffer_take B n s =
     bind_ro (lift_o (b_read B (b_r_position B s) n s)) (\<lambda>bs.
     bind_ro (Some (b_r_advance B (int n) s)) (\<lambda>s. Some (Inr (bs, s))))"

primrec buffer_run :: "'s buffer_ops \<Rightarrow> buffer_op list \<Rightarrow> 's \<Rightarrow> (byte list list \<times> 's) result option" where
  "buffer_run B [] s = Some (Inr ([], s))"
| "buffer_run B (x # xs) s =
     (case x of
        Put bs \<Rightarrow> bind_ro (buffer_put B bs s) (buffer_run B xs)
      | Take n \<Rightarrow> bind_ro (buffer_take B n s) (\<lambda>(bs, s). bind_ro (buffer_run B xs s) (\<lambda>(out, s). Some (Inr (bs # out, s)))))"

text \<open>A program that respects the bounds, and what it appends and takes.\<close>

primrec fits :: "bool \<Rightarrow> int \<Rightarrow> buffer_op list \<Rightarrow> int \<Rightarrow> int \<Rightarrow> bool" where
  "fits recycles st [] lft sz \<longleftrightarrow> True"
| "fits recycles st (x # xs) lft sz \<longleftrightarrow>
     (case x of
        Put bs \<Rightarrow> int (length bs) \<le> st \<and> int (length bs) \<le> lft \<and> fits recycles st xs (lft - int (length bs)) (sz + int (length bs))
      | Take n \<Rightarrow> int n \<le> sz \<and> fits recycles st xs (lft + (if recycles then int n else 0)) (sz - int n))"

primrec put_bytes :: "buffer_op list \<Rightarrow> byte list" where
  "put_bytes [] = []"
| "put_bytes (x # xs) = (case x of Put bs \<Rightarrow> bs | Take n \<Rightarrow> []) @ put_bytes xs"

primrec take_counts :: "buffer_op list \<Rightarrow> nat list" where
  "take_counts [] = []"
| "take_counts (x # xs) = (case x of Put bs \<Rightarrow> [] | Take n \<Rightarrow> [n]) @ take_counts xs"

lemma fits_mono: "fits rc st xs lft sz \<Longrightarrow> lft \<le> lft' \<Longrightarrow> fits rc st xs lft' sz"
proof (induction xs arbitrary: lft lft' sz)
  case (Cons x xs)
  then show ?case by (cases x) (auto elim!: Cons.IH)
qed simp

context byte_buffer
begin

text \<open>First in, first out: what was taken, followed by what is left, is what was put.\<close>

lemma run_fifo:
  assumes "inv s" "fits recycles (step s) xs (left s) (b_size B s)"
  shows "\<exists>out s'. buffer_run B xs s = Some (Inr (out, s')) \<and> inv s' \<and>
    concat out @ content B s' = content B s @ put_bytes xs \<and> map length out = take_counts xs"
  using assms
proof (induction xs arbitrary: s)
  case (Cons x xs)
  note i = Cons.prems(1)
  show ?case
  proof (cases x)
    case (Put bs)
    with Cons.prems(2) have f: "int (length bs) \<le> step s" "int (length bs) \<le> left s"
      "fits recycles (step s) xs (left s - int (length bs)) (b_size B s + int (length bs))" by auto
    from fill_law [OF i f(1,2)] obtain s1 s2 where s: "b_write B (b_w_position B s) bs s = Some s1"
      "b_w_advance B (int (length bs)) s1 = Inr s2" "inv s2" "content B s2 = content B s @ bs" "step s2 = step s"
      "left s2 \<ge> left s - int (length bs)" by auto
    have "b_size B s2 = b_size B s + int (length bs)" by (simp add: size_eq s(3,4) i)
    with fits_mono [OF f(3) s(6)] s(5) have "fits recycles (step s2) xs (left s2) (b_size B s2)" by simp
    from Cons.IH [OF s(3) this] show ?thesis using s(1,2,4) by (auto simp: Put buffer_put_def)
  next
    case (Take n)
    with Cons.prems(2) have f: "int n \<le> b_size B s"
      "fits recycles (step s) xs (left s + (if recycles then int n else 0)) (b_size B s - int n)" by auto
    from consume_law [OF i _ f(1)] obtain s1 where s: "b_r_advance B (int n) s = Inr s1" "inv s1"
      "content B s1 = drop n (content B s)" "step s1 = step s" "left s1 \<ge> left s + (if recycles then int n else 0)" by auto
    have n: "n \<le> nat (b_size B s)" "n \<le> length (content B s)" using f(1) size_eq [OF i] by linarith+
    have "b_size B s1 = b_size B s - int n" using n(2) by (simp add: size_eq s(2,3) i)
    with fits_mono [OF f(2) s(5)] s(4) have "fits recycles (step s1) xs (left s1) (b_size B s1)" by simp
    from Cons.IH [OF s(2) this] obtain out s' where r: "buffer_run B xs s1 = Some (Inr (out, s'))" "inv s'"
      "concat out @ content B s' = content B s1 @ put_bytes xs" "map length out = take_counts xs" by blast
    have "take n (content B s) @ concat out @ content B s' = content B s @ put_bytes xs"
      unfolding r(3) s(3) by (simp flip: append_assoc)
    then show ?thesis using r s(1) n peek_law [OF i n(1)] by (auto simp: Take buffer_take_def)
  qed
qed simp

end

end
