(* ===== verification/Ring_Buffer.thy ===== *)
theory Ring_Buffer
  imports Byte_Buffer Ops_Int
begin

text \<open>
  \<^verbatim>\<open>vr/io/mapped_ring_buffer.h\<close> and \<^verbatim>\<open>.cpp\<close>: a ring buffer of bytes whose storage is mapped
  twice in a row, so that a record that wraps around is still contiguous in memory. Positions
  only grow; they are kept as integers, below the \<open>2 ^ 63\<close> of \<^verbatim>\<open>pos_t\<close>.
\<close>

unbundle bit_operations_syntax

section \<open>State and operations\<close>

record ring_buffer =
  rb_capacity_mask :: int
  rb_base :: int
  rb_r_position :: int
  rb_w_position :: int
  rb_mem :: "byte list"

text \<open>\<open>mmap_contiguous\<close>: the two mappings of the same shared memory file.\<close>

definition ring_cell :: "int \<Rightarrow> int \<Rightarrow> int \<Rightarrow> nat option" where
  "ring_cell base cap a =
     (if base \<le> a \<and> a < base + cap then Some (nat (a - base))
      else if base + cap \<le> a \<and> a < base + cap + cap then Some (nat (a - (base + cap)))
      else None)"

definition ring_capacity :: "ring_buffer \<Rightarrow> int" where
  "ring_capacity s = rb_capacity_mask s + 1"

definition ring_r_position :: "ring_buffer \<Rightarrow> int" where
  "ring_r_position s = rb_base s + (rb_r_position s AND rb_capacity_mask s)"

definition ring_w_position :: "ring_buffer \<Rightarrow> int" where
  "ring_w_position s = rb_base s + (rb_w_position s AND rb_capacity_mask s)"

definition ring_size :: "ring_buffer \<Rightarrow> int" where
  "ring_size s = rb_w_position s - rb_r_position s"

definition ring_w_window :: "ring_buffer \<Rightarrow> int" where
  "ring_w_window s = ring_capacity s - ring_size s"

definition ring_r_advance :: "bool \<Rightarrow> int \<Rightarrow> ring_buffer \<Rightarrow> ring_buffer result" where
  "ring_r_advance CHECK_BOUNDS step s =
     (let r_position_new = rb_r_position s + step in
      if CHECK_BOUNDS \<and> \<not> (rb_r_position s \<le> r_position_new \<and> r_position_new \<le> rb_w_position s) then Inl Out_of_bounds
      else Inr (s\<lparr>rb_r_position := r_position_new\<rparr>))"

definition ring_w_advance :: "bool \<Rightarrow> int \<Rightarrow> ring_buffer \<Rightarrow> ring_buffer result" where
  "ring_w_advance CHECK_BOUNDS step s =
     (let w_position_new = rb_w_position s + step in
      if CHECK_BOUNDS \<and> \<not> (rb_w_position s \<le> w_position_new \<and> w_position_new \<le> rb_r_position s + ring_capacity s) then Inl Out_of_bounds
      else Inr (s\<lparr>rb_w_position := w_position_new\<rparr>))"

definition ring_read :: "int \<Rightarrow> nat \<Rightarrow> ring_buffer \<Rightarrow> byte list option" where
  "ring_read a n s = load_bytes (ring_cell (rb_base s) (ring_capacity s)) (rb_mem s) a n"

definition ring_write :: "int \<Rightarrow> byte list \<Rightarrow> ring_buffer \<Rightarrow> ring_buffer option" where
  "ring_write a bs s =
     map_option (\<lambda>mem. s\<lparr>rb_mem := mem\<rparr>) (store_bytes (ring_cell (rb_base s) (ring_capacity s)) a bs (rb_mem s))"

definition ring_ops :: "bool \<Rightarrow> ring_buffer buffer_ops" where
  "ring_ops CHECK_BOUNDS = \<lparr>b_r_position = ring_r_position, b_w_position = ring_w_position, b_size = ring_size,
     b_w_window = ring_w_window, b_r_advance = ring_r_advance CHECK_BOUNDS, b_w_advance = ring_w_advance CHECK_BOUNDS,
     b_read = ring_read, b_write = ring_write\<rparr>"

text \<open>
  \<open>select_capacity\<close>: the literal \<open>1\<close> is a 32-bit integer, so shifting it by 31 gives the
  smallest one and shifting it further is undefined (\<open>None\<close>).
\<close>

definition shl_one_32 :: "int \<Rightarrow> int option" where
  "shl_one_32 n = (if n < 0 \<or> 32 \<le> n then None else Some (narrow 32 (2 ^ nat n)))"

definition select_capacity :: "int \<Rightarrow> int \<Rightarrow> int result option" where
  "select_capacity page_size requested =
     (if \<not> 0 < requested then Some (Inl Check_failure)
      else
        let requested_pages_ceil = ((requested + page_size - 1) div page_size) * page_size in
        bind_ro (Some (log2_ceil 64 requested_pages_ceil)) (\<lambda>n. lift_o (shl_one_32 n)))"

definition ring_new :: "int \<Rightarrow> int \<Rightarrow> int \<Rightarrow> ring_buffer result option" where
  "ring_new page_size base capacity =
     bind_ro (select_capacity page_size capacity) (\<lambda>c.
       let mask = c - 1 in
       if \<not> mask + 1 \<ge> capacity then Some (Inl Check_failure)
       else Some (Inr \<lparr>rb_capacity_mask = mask, rb_base = base, rb_r_position = 0, rb_w_position = 0,
              rb_mem = replicate (nat (mask + 1)) 0\<rparr>))"

section \<open>The ring as a byte buffer\<close>

definition ring_inv :: "ring_buffer \<Rightarrow> bool" where
  "ring_inv s \<longleftrightarrow> (\<exists>k. rb_capacity_mask s = 2 ^ k - 1) \<and> length (rb_mem s) = nat (ring_capacity s) \<and>
     0 \<le> rb_r_position s \<and> rb_r_position s \<le> rb_w_position s \<and>
     rb_w_position s \<le> rb_r_position s + ring_capacity s"

lemma ring_inv_cap: "ring_inv s \<Longrightarrow> 0 < ring_capacity s"
  by (auto simp: ring_inv_def ring_capacity_def)

lemma ring_mask:
  assumes "ring_inv s"
  shows "p AND rb_capacity_mask s = p mod ring_capacity s"
proof -
  obtain k where "rb_capacity_mask s = 2 ^ k - 1" using assms by (auto simp: ring_inv_def)
  then show ?thesis
    by (simp add: ring_capacity_def take_bit_eq_mod flip: take_bit_eq_mask mask_eq_exp_minus_1)
      (simp add: mask_eq_exp_minus_1)
qed

text \<open>The byte of stream position \<open>p + i\<close> is at \<open>i\<close> from the address of position \<open>p\<close>.\<close>

lemma mod_add_step:
  assumes "(0::int) < c" "0 \<le> i" "i < c"
  shows "p mod c + i < c \<and> (p + i) mod c = p mod c + i \<or> c \<le> p mod c + i \<and> (p + i) mod c = p mod c + i - c"
proof -
  have e: "(p + i) mod c = (p mod c + i) mod c" by (simp add: mod_simps)
  have b: "0 \<le> p mod c" "p mod c < c" using assms by simp_all
  show ?thesis
  proof (cases "p mod c + i < c")
    case True
    then show ?thesis using e b assms by simp
  next
    case False
    then have "(p mod c + i) mod c = (p mod c + i - c) mod c" by simp
    also have "\<dots> = p mod c + i - c" using False b assms by (intro mod_pos_pos_trivial) linarith+
    finally show ?thesis using e False by simp
  qed
qed

definition ring_slot :: "ring_buffer \<Rightarrow> int \<Rightarrow> nat" where
  "ring_slot s p = nat (p mod ring_capacity s)"

lemma ring_cell_at:
  assumes "0 \<le> m" "m < cap" "0 \<le> i" "i < cap"
  shows "ring_cell base cap (base + m + i) = Some (nat (if m + i < cap then m + i else m + i - cap))"
proof -
  have "base + m + i - base = m + i" "base + m + i - (base + cap) = m + i - cap" by simp_all
  then show ?thesis using assms by (simp add: ring_cell_def add_diff_eq)
qed

lemma ring_cell_pos:
  assumes "ring_inv s" "int i < ring_capacity s"
  shows "ring_cell (rb_base s) (ring_capacity s) (rb_base s + p mod ring_capacity s + int i) =
    Some (ring_slot s (p + int i))"
proof -
  have c: "0 < ring_capacity s" by (rule ring_inv_cap [OF assms(1)])
  then have m: "0 \<le> p mod ring_capacity s" "p mod ring_capacity s < ring_capacity s" by simp_all
  from mod_add_step [OF c of_nat_0_le_iff assms(2), of p]
  have "(if p mod ring_capacity s + int i < ring_capacity s then p mod ring_capacity s + int i
    else p mod ring_capacity s + int i - ring_capacity s) = (p + int i) mod ring_capacity s" by auto
  then show ?thesis unfolding ring_cell_at [OF m of_nat_0_le_iff assms(2)] ring_slot_def by simp
qed

lemma ring_slot_less: "ring_inv s \<Longrightarrow> ring_slot s p < length (rb_mem s)"
  using ring_inv_cap [of s] by (simp add: ring_slot_def ring_inv_def nat_less_iff)

lemma ring_slot_eq:
  assumes "ring_inv s" "\<bar>p - q\<bar> < ring_capacity s" "ring_slot s p = ring_slot s q"
  shows "p = q"
proof -
  have c: "0 < ring_capacity s" by (rule ring_inv_cap [OF assms(1)])
  have "p mod ring_capacity s = q mod ring_capacity s"
    using assms(3) c by (simp add: ring_slot_def nat_eq_iff)
  then have "ring_capacity s dvd (p - q)" by (simp add: mod_eq_dvd_iff)
  then show ?thesis using assms(2) by (metis abs_of_pos c dvd_imp_le_int eq_iff_diff_eq_0 not_le)
qed

lemma ring_content:
  assumes "ring_inv s"
  shows "content (ring_ops chk) s = map (\<lambda>i. rb_mem s ! ring_slot s (rb_r_position s + int i)) [0..<nat (ring_size s)]"
    and "n \<le> nat (ring_size s) \<Longrightarrow> ring_read (ring_r_position s) n s =
      Some (map (\<lambda>i. rb_mem s ! ring_slot s (rb_r_position s + int i)) [0..<n])"
proof -
  have le: "ring_size s \<le> ring_capacity s" using assms by (simp add: ring_inv_def ring_size_def)
  have rd: "ring_read (ring_r_position s) n s =
      Some (map (\<lambda>i. rb_mem s ! ring_slot s (rb_r_position s + int i)) [0..<n])" if "n \<le> nat (ring_size s)" for n
    unfolding ring_read_def ring_r_position_def ring_mask [OF assms]
    using le that by (intro load_bytes_eq ring_cell_pos [OF assms]) linarith
  show "content (ring_ops chk) s = map (\<lambda>i. rb_mem s ! ring_slot s (rb_r_position s + int i)) [0..<nat (ring_size s)]"
    by (simp add: content_def ring_ops_def rd)
  show "n \<le> nat (ring_size s) \<Longrightarrow> ring_read (ring_r_position s) n s =
      Some (map (\<lambda>i. rb_mem s ! ring_slot s (rb_r_position s + int i)) [0..<n])"
    by (rule rd)
qed

text \<open>Storing at the address of a stream position changes the bytes of these positions only.\<close>

lemma ring_write_pos:
  fixes p0 :: int
  assumes "ring_inv s" "int (off + length bs) \<le> ring_capacity s"
  defines "p \<equiv> p0 + int off"
  shows "\<exists>mem. ring_write (rb_base s + p0 mod ring_capacity s + int off) bs s = Some (s\<lparr>rb_mem := mem\<rparr>) \<and>
    length mem = length (rb_mem s) \<and> (\<forall>i<length bs. mem ! ring_slot s (p + int i) = bs ! i) \<and>
    (\<forall>q. p + int (length bs) - ring_capacity s \<le> q \<and> q < p \<or> p + int (length bs) \<le> q \<and> q < p + ring_capacity s \<longrightarrow>
      mem ! ring_slot s q = rb_mem s ! ring_slot s q)"
proof -
  let ?k = "\<lambda>i. ring_slot s (p + int i)"
  let ?cell = "ring_cell (rb_base s) (ring_capacity s)"
  let ?a = "rb_base s + p0 mod ring_capacity s + int off"
  have inj: "inj_on ?k {..<length bs}"
  proof (rule inj_onI)
    fix x y assume "x \<in> {..<length bs}" "y \<in> {..<length bs}" "?k x = ?k y"
    then show "x = y" using ring_slot_eq [OF assms(1), of "p + int x" "p + int y"] assms(2) by auto
  qed
  have cell: "?cell (?a + int i) = Some (?k i)" if "i < length bs" for i
    using ring_cell_pos [OF assms(1), of "off + i" p0] that assms(2) by (simp add: p_def add.assoc)
  obtain mem where mem: "store_bytes ?cell ?a bs (rb_mem s) = Some mem"
    "length mem = length (rb_mem s)" "\<forall>i<length bs. mem ! ?k i = bs ! i"
    "\<forall>j. j \<notin> ?k ` {..<length bs} \<longrightarrow> mem ! j = rb_mem s ! j"
    using store_bytes_eq [of bs ?cell ?a ?k "rb_mem s", OF cell inj ring_slot_less [OF assms(1)]] by auto
  have "mem ! ring_slot s q = rb_mem s ! ring_slot s q"
    if q: "p + int (length bs) - ring_capacity s \<le> q \<and> q < p \<or> p + int (length bs) \<le> q \<and> q < p + ring_capacity s" for q
  proof -
    have "ring_slot s q \<noteq> ?k i" if i: "i < length bs" for i
    proof
      assume "ring_slot s q = ?k i"
      moreover have "\<bar>q - (p + int i)\<bar> < ring_capacity s" using q i by linarith
      ultimately have "q = p + int i" by (intro ring_slot_eq [OF assms(1)])
      then show False using q i by linarith
    qed
    then show ?thesis using mem(4) by blast
  qed
  then show ?thesis using mem by (auto simp: ring_write_def)
qed

text \<open>The laws of the interface, one by one.\<close>

lemma ring_inv_mem [simp]: "length mem = length (rb_mem s) \<Longrightarrow> ring_inv (s\<lparr>rb_mem := mem\<rparr>) \<longleftrightarrow> ring_inv s"
  by (simp add: ring_inv_def ring_capacity_def)

lemma ring_mem_simps [simp]:
  "ring_capacity (s\<lparr>rb_mem := mem\<rparr>) = ring_capacity s" "ring_size (s\<lparr>rb_mem := mem\<rparr>) = ring_size s"
  "ring_w_window (s\<lparr>rb_mem := mem\<rparr>) = ring_w_window s" "ring_slot (s\<lparr>rb_mem := mem\<rparr>) = ring_slot s"
  "ring_r_position (s\<lparr>rb_mem := mem\<rparr>) = ring_r_position s"
  "ring_capacity (s\<lparr>rb_w_position := w\<rparr>) = ring_capacity s" "ring_slot (s\<lparr>rb_w_position := w\<rparr>) = ring_slot s"
  "ring_capacity (s\<lparr>rb_r_position := r\<rparr>) = ring_capacity s" "ring_slot (s\<lparr>rb_r_position := r\<rparr>) = ring_slot s"
  by (simp_all add: ring_capacity_def ring_size_def ring_w_window_def ring_slot_def ring_r_position_def fun_eq_iff)

lemma ring_w_advance_ok:
  assumes "ring_inv s" "0 \<le> n" "n \<le> ring_w_window s"
  shows "ring_w_advance chk n s = Inr (s\<lparr>rb_w_position := rb_w_position s + n\<rparr>)"
    "ring_inv (s\<lparr>rb_w_position := rb_w_position s + n\<rparr>)"
  using assms by (auto simp: ring_w_advance_def ring_inv_def ring_w_window_def ring_size_def ring_capacity_def)

lemma ring_r_advance_ok:
  assumes "ring_inv s" "0 \<le> n" "n \<le> ring_size s"
  shows "ring_r_advance chk n s = Inr (s\<lparr>rb_r_position := rb_r_position s + n\<rparr>)"
    "ring_inv (s\<lparr>rb_r_position := rb_r_position s + n\<rparr>)"
  using assms by (auto simp: ring_r_advance_def ring_inv_def ring_size_def ring_capacity_def)

lemma ring_content_nth:
  assumes "ring_inv s" "int i < ring_size s"
  shows "content (ring_ops chk) s ! i = rb_mem s ! ring_slot s (rb_r_position s + int i)"
proof -
  have "i < nat (ring_size s)" using assms(2) by (simp only: zless_nat_eq_int_zless)
  then show ?thesis by (simp add: ring_content(1) [OF assms(1)])
qed

lemma ring_content_length: "ring_inv s \<Longrightarrow> length (content (ring_ops chk) s) = nat (ring_size s)"
  by (simp add: ring_content(1))

lemma ring_reserve:
  assumes "ring_inv s" "0 \<le> n" "n \<le> ring_w_window s"
  defines "s' \<equiv> s\<lparr>rb_w_position := rb_w_position s + n\<rparr>"
  shows "content (ring_ops chk) s' = content (ring_ops chk) s @
    map (\<lambda>i. rb_mem s ! ring_slot s (rb_w_position s + int i)) [0..<nat n]"
proof (rule nth_equalityI)
  have i': "ring_inv s'" unfolding s'_def by (rule ring_w_advance_ok(2) [OF assms(1-3)])
  have sz: "ring_size s' = ring_size s + n" by (simp add: s'_def ring_size_def)
  have pos: "0 \<le> ring_size s" using assms(1) by (simp add: ring_inv_def ring_size_def)
  show "length (content (ring_ops chk) s') = length (content (ring_ops chk) s @
    map (\<lambda>i. rb_mem s ! ring_slot s (rb_w_position s + int i)) [0..<nat n])"
    using pos assms(2) by (simp add: ring_content_length i' assms(1) sz nat_add_distrib)
  fix i assume "i < length (content (ring_ops chk) s')"
  then have i: "int i < ring_size s + n" using ring_content_length [OF i'] sz by simp
  have e: "content (ring_ops chk) s' ! i = rb_mem s ! ring_slot s (rb_r_position s + int i)"
    using ring_content_nth [OF i', of i] i sz by (simp add: s'_def)
  show "content (ring_ops chk) s' ! i = (content (ring_ops chk) s @
    map (\<lambda>i. rb_mem s ! ring_slot s (rb_w_position s + int i)) [0..<nat n]) ! i"
  proof (cases "int i < ring_size s")
    case True
    then show ?thesis using e ring_content_nth [OF assms(1) True]
      by (simp add: nth_append ring_content_length [OF assms(1)] zless_nat_eq_int_zless)
  next
    case False
    then have eq: "rb_w_position s + int (i - nat (ring_size s)) = rb_r_position s + int i"
      using pos by (simp add: ring_size_def)
    have "\<not> i < nat (ring_size s)" "i - nat (ring_size s) < nat n" using False i pos by linarith+
    then have "(content (ring_ops chk) s @ map (\<lambda>i. rb_mem s ! ring_slot s (rb_w_position s + int i)) [0..<nat n]) ! i =
      rb_mem s ! ring_slot s (rb_w_position s + int (i - nat (ring_size s)))"
      by (simp add: nth_append ring_content_length [OF assms(1)])
    then show ?thesis unfolding eq using e by simp
  qed
qed

lemma ring_consume:
  assumes "ring_inv s" "0 \<le> n" "n \<le> ring_size s"
  defines "s' \<equiv> s\<lparr>rb_r_position := rb_r_position s + n\<rparr>"
  shows "content (ring_ops chk) s' = drop (nat n) (content (ring_ops chk) s)"
proof (rule nth_equalityI)
  have i': "ring_inv s'" unfolding s'_def by (rule ring_r_advance_ok(2) [OF assms(1-3)])
  have sz: "ring_size s' = ring_size s - n" by (simp add: s'_def ring_size_def)
  show "length (content (ring_ops chk) s') = length (drop (nat n) (content (ring_ops chk) s))"
    using assms(2) by (simp add: ring_content_length i' assms(1) sz nat_diff_distrib')
  fix i assume "i < length (content (ring_ops chk) s')"
  then have i: "int i < ring_size s - n" using ring_content_length [OF i'] sz by simp
  then have j: "int (nat n + i) < ring_size s" using assms(2) by simp
  have l: "nat n + i \<le> length (content (ring_ops chk) s)" using j ring_content_length [OF assms(1), of chk] by linarith
  have "rb_r_position s + n + int i = rb_r_position s + int (nat n + i)" using assms(2) by simp
  then show "content (ring_ops chk) s' ! i = drop (nat n) (content (ring_ops chk) s) ! i"
    using ring_content_nth [OF i', of i] ring_content_nth [OF assms(1) j] i sz l by (simp add: s'_def add.assoc)
qed

lemma ring_content_mem:
  assumes "ring_inv s" "length mem = length (rb_mem s)"
    "\<And>q. rb_r_position s \<le> q \<Longrightarrow> q < rb_w_position s \<Longrightarrow> mem ! ring_slot s q = rb_mem s ! ring_slot s q"
  shows "content (ring_ops chk) (s\<lparr>rb_mem := mem\<rparr>) = content (ring_ops chk) s"
proof -
  have "ring_inv (s\<lparr>rb_mem := mem\<rparr>)" using assms(1,2) by simp
  then show ?thesis using assms by (simp add: ring_content(1) ring_size_def)
qed

lemma ring_fill:
  assumes "ring_inv s" "int (length bs) \<le> ring_w_window s"
  shows "\<exists>s'. ring_write (ring_w_position s) bs s = Some s' \<and>
    (\<exists>s''. ring_w_advance chk (int (length bs)) s' = Inr s'' \<and> ring_inv s'' \<and>
      content (ring_ops chk) s'' = content (ring_ops chk) s @ bs \<and> ring_capacity s'' = ring_capacity s \<and> ring_w_window s'' \<ge> ring_w_window s - int (length bs))"
proof -
  have pos: "0 \<le> ring_size s" "rb_w_position s = rb_r_position s + ring_size s"
    using assms(1) by (simp_all add: ring_inv_def ring_size_def)
  have le: "int (0 + length bs) \<le> ring_capacity s" using assms(2) pos by (simp add: ring_w_window_def)
  from ring_write_pos [OF assms(1) le, of "rb_w_position s"] obtain mem where mem:
    "ring_write (ring_w_position s) bs s = Some (s\<lparr>rb_mem := mem\<rparr>)" "length mem = length (rb_mem s)"
    "\<forall>i<length bs. mem ! ring_slot s (rb_w_position s + int i) = bs ! i"
    "\<forall>q. rb_w_position s + int (length bs) - ring_capacity s \<le> q \<and> q < rb_w_position s \<longrightarrow>
      mem ! ring_slot s q = rb_mem s ! ring_slot s q"
    by (auto simp: ring_w_position_def ring_mask [OF assms(1)])
  let ?s = "s\<lparr>rb_mem := mem\<rparr>"
  have i: "ring_inv ?s" using assms(1) mem(2) by simp
  have w: "0 \<le> int (length bs)" "int (length bs) \<le> ring_w_window ?s" using assms(2) by simp_all
  have "mem ! ring_slot s q = rb_mem s ! ring_slot s q" if "rb_r_position s \<le> q" "q < rb_w_position s" for q
    using that mem(4) assms(2) pos by (auto simp: ring_w_window_def)
  then have c: "content (ring_ops chk) ?s = content (ring_ops chk) s"
    by (rule ring_content_mem [OF assms(1) mem(2)])
  have "map (\<lambda>i. mem ! ring_slot s (rb_w_position s + int i)) [0..<length bs] = bs"
    using mem(3) by (intro nth_equalityI) simp_all
  then have "content (ring_ops chk) (?s\<lparr>rb_w_position := rb_w_position ?s + int (length bs)\<rparr>) = content (ring_ops chk) s @ bs"
    using ring_reserve [OF i w, of chk] c by simp
  then show ?thesis using mem(1) ring_w_advance_ok(1) [OF i w, of chk] ring_w_advance_ok(2) [OF i w]
    by (auto simp: ring_w_window_def ring_size_def ring_capacity_def)
qed

lemma ring_store:
  assumes "ring_inv s" "k + length bs \<le> length (content (ring_ops chk) s)"
  shows "\<exists>s'. ring_write (ring_r_position s + int k) bs s = Some s' \<and> ring_inv s' \<and> ring_r_position s' = ring_r_position s \<and>
    content (ring_ops chk) s' = patch (content (ring_ops chk) s) k bs \<and>
    ring_capacity s' = ring_capacity s \<and> ring_w_window s' = ring_w_window s"
proof -
  let ?c = "content (ring_ops chk) s"
  have "int (length ?c) = ring_size s" "ring_size s \<le> ring_capacity s"
    using assms(1) by (auto simp: ring_content_length ring_inv_def ring_size_def)
  then have sz: "int (k + length bs) \<le> ring_size s" "int (k + length bs) \<le> ring_capacity s" "ring_size s \<le> ring_capacity s"
    using assms(2) by linarith+
  from ring_write_pos [OF assms(1) sz(2), of "rb_r_position s"] obtain mem where mem:
    "ring_write (ring_r_position s + int k) bs s = Some (s\<lparr>rb_mem := mem\<rparr>)" "length mem = length (rb_mem s)"
    "\<forall>i<length bs. mem ! ring_slot s (rb_r_position s + int k + int i) = bs ! i"
    "\<forall>q. rb_r_position s \<le> q \<and> q < rb_r_position s + int k \<or>
      rb_r_position s + int (k + length bs) \<le> q \<and> q < rb_r_position s + ring_size s \<longrightarrow>
      mem ! ring_slot s q = rb_mem s ! ring_slot s q"
    using sz by (auto simp: ring_r_position_def ring_mask [OF assms(1)])
  let ?s = "s\<lparr>rb_mem := mem\<rparr>"
  have i: "ring_inv ?s" using assms(1) mem(2) by simp
  have "content (ring_ops chk) ?s = take k ?c @ bs @ drop (k + length bs) ?c"
  proof (rule nth_equalityI)
    show len: "length (content (ring_ops chk) ?s) = length (take k ?c @ bs @ drop (k + length bs) ?c)"
      using assms(2) by (simp add: ring_content_length [OF i] ring_content_length [OF assms(1)])
    fix j assume "j < length (content (ring_ops chk) ?s)"
    then have j: "int j < ring_size s" by (simp add: ring_content_length [OF i])
    have e: "content (ring_ops chk) ?s ! j = mem ! ring_slot s (rb_r_position s + int j)"
      using ring_content_nth [OF i, of j] j by simp
    have l: "length (take k ?c) = k" "j < length ?c" using assms(2) j ring_content_length [OF assms(1), of chk] by simp_all
    show "content (ring_ops chk) ?s ! j = (take k ?c @ bs @ drop (k + length bs) ?c) ! j"
    proof (cases "j < k \<or> k + length bs \<le> j")
      case True
      then have "mem ! ring_slot s (rb_r_position s + int j) = ?c ! j"
        using mem(4) j ring_content_nth [OF assms(1) j, of chk] by auto
      moreover have "(take k ?c @ bs @ drop (k + length bs) ?c) ! j = ?c ! j"
        using True l by (auto simp: nth_append min_def)
      ultimately show ?thesis using e by simp
    next
      case False
      then have jk: "j - k < length bs" "\<not> j < k" by linarith+
      then have "(take k ?c @ bs @ drop (k + length bs) ?c) ! j = bs ! (j - k)"
        using l by (simp add: nth_append)
      moreover have "mem ! ring_slot s (rb_r_position s + int k + int (j - k)) = bs ! (j - k)"
        using mem(3) jk(1) by blast
      moreover have "rb_r_position s + int k + int (j - k) = rb_r_position s + int j" using False by simp
      ultimately show ?thesis using e by metis
    qed
  qed
  then show ?thesis using mem(1) i by (simp add: patch_def)
qed

section \<open>Construction\<close>

definition pages_ceil :: "int \<Rightarrow> int \<Rightarrow> int" where
  "pages_ceil page_size requested = ((requested + page_size - 1) div page_size) * page_size"

lemma pages_ceil_bounds:
  assumes "0 < page_size"
  shows "requested \<le> pages_ceil page_size requested \<and> pages_ceil page_size requested < requested + page_size"
proof -
  let ?x = "requested + page_size - 1"
  have "?x div page_size * page_size = ?x - ?x mod page_size" by (simp add: minus_mod_eq_div_mult)
  moreover have "0 \<le> ?x mod page_size" "?x mod page_size < page_size" using assms by simp_all
  ultimately show ?thesis unfolding pages_ceil_def by linarith
qed

lemma select_capacity_cases:
  assumes "0 < page_size" "0 < c" "pages_ceil page_size c \<le> 2 ^ 64"
  obtains k where "pages_ceil page_size c \<le> 2 ^ k" "\<And>q. pages_ceil page_size c \<le> 2 ^ q \<Longrightarrow> k \<le> q"
    "select_capacity page_size c = lift_o (shl_one_32 (int k))"
proof -
  have "1 \<le> pages_ceil page_size c" using pages_ceil_bounds [OF assms(1), of c] assms(2) by linarith
  from log2_ceil_least [OF this assms(3)] obtain k where
    k: "log2_ceil 64 (pages_ceil page_size c) = Inr (int k)" "pages_ceil page_size c \<le> 2 ^ k"
      "\<And>q. pages_ceil page_size c \<le> 2 ^ q \<Longrightarrow> k \<le> q" by auto
  have "select_capacity page_size c = lift_o (shl_one_32 (int k))"
    using k(1) assms(2) by (simp add: select_capacity_def pages_ceil_def)
  with k(2,3) show ?thesis by (rule that)
qed

lemma ring_new_ok:
  assumes "0 < page_size" "0 < c" "pages_ceil page_size c \<le> 2 ^ 30"
  obtains k s where "ring_new page_size base c = Some (Inr s)" "ring_inv s" "ring_capacity s = 2 ^ k"
    "pages_ceil page_size c \<le> 2 ^ k" "\<forall>q. pages_ceil page_size c \<le> 2 ^ q \<longrightarrow> k \<le> q"
    "content (ring_ops chk) s = []" "ring_w_window s = 2 ^ k"
proof -
  have "pages_ceil page_size c \<le> 2 ^ 64" using assms(3) by simp
  from select_capacity_cases [OF assms(1,2) this] obtain k where
    k: "pages_ceil page_size c \<le> 2 ^ k" "\<And>q. pages_ceil page_size c \<le> 2 ^ q \<Longrightarrow> k \<le> q"
      "select_capacity page_size c = lift_o (shl_one_32 (int k))" by blast
  have "k \<le> 30" by (rule k(2) [OF assms(3)])
  then have "(2::int) ^ k < 2 ^ (32 - 1)" by (intro power_strict_increasing) simp_all
  moreover have "- (2 ^ (32 - 1)) \<le> (2::int) ^ k" by (rule order_trans [of _ 0]) simp_all
  ultimately have "narrow 32 (2 ^ k) = 2 ^ k" by (intro narrow_id) simp_all
  then have sel: "select_capacity page_size c = Some (Inr (2 ^ k))"
    using k(3) \<open>k \<le> 30\<close> by (simp add: shl_one_32_def)
  define s where "s = \<lparr>rb_capacity_mask = 2 ^ k - 1, rb_base = base, rb_r_position = 0, rb_w_position = 0,
    rb_mem = replicate (nat (2 ^ k)) (0::byte)\<rparr>"
  have cap: "ring_capacity s = 2 ^ k" by (simp add: s_def ring_capacity_def)
  have "c \<le> 2 ^ k" using k(1) pages_ceil_bounds [OF assms(1), of c] by linarith
  then have new: "ring_new page_size base c = Some (Inr s)" by (simp add: ring_new_def sel s_def)
  have inv: "ring_inv s" unfolding ring_inv_def cap by (simp add: s_def)
  have "ring_size s = 0" by (simp add: s_def ring_size_def)
  then have "content (ring_ops chk) s = []" "ring_w_window s = 2 ^ k" for chk
    by (simp_all add: ring_content(1) [OF inv] ring_w_window_def cap)
  with new inv cap k(1,2) show ?thesis by (intro that) auto
qed

lemma ring_new_too_large:
  assumes "0 < page_size" "0 < c" "2 ^ 30 < pages_ceil page_size c" "pages_ceil page_size c \<le> 2 ^ 64"
  shows "ring_new page_size base c = (if pages_ceil page_size c \<le> 2 ^ 31 then Some (Inl Check_failure) else None)"
proof -
  from select_capacity_cases [OF assms(1,2,4)] obtain k where
    k: "pages_ceil page_size c \<le> 2 ^ k" "\<And>q. pages_ceil page_size c \<le> 2 ^ q \<Longrightarrow> k \<le> q"
      "select_capacity page_size c = lift_o (shl_one_32 (int k))" by blast
  have "\<not> k \<le> 30"
  proof
    assume "k \<le> 30"
    then have "(2::int) ^ k \<le> 2 ^ 30" by (rule power_increasing) simp
    then show False using k(1) assms(3) by linarith
  qed
  show ?thesis
  proof (cases "pages_ceil page_size c \<le> 2 ^ 31")
    case True
    with k(2) \<open>\<not> k \<le> 30\<close> have "k = 31" by fastforce
    then have "select_capacity page_size c = Some (Inr (- (2 ^ 31)))"
      using k(3) by (simp add: shl_one_32_def narrow_def)
    then show ?thesis using True assms(2) by (simp add: ring_new_def)
  next
    case False
    have "\<not> k \<le> 31"
    proof
      assume "k \<le> 31"
      then have "(2::int) ^ k \<le> 2 ^ 31" by (rule power_increasing) simp
      then show False using k(1) False by linarith
    qed
    then show ?thesis using k(3) False by (simp add: ring_new_def shl_one_32_def)
  qed
qed

section \<open>The ring satisfies the contract\<close>

interpretation ring: byte_buffer "ring_ops chk" ring_inv ring_capacity ring_w_window True
proof (unfold_locales, goal_cases)
  case (1 s)
  then show ?case by (simp add: ring_ops_def ring_inv_def ring_size_def)
next
  case (2 s)
  then show ?case using ring_content(2) [of s "nat (ring_size s)"] by (simp add: ring_ops_def)
next
  case (3 s)
  then show ?case by (simp add: ring_ops_def ring_inv_def ring_w_window_def ring_size_def)
next
  case (4 s bs)
  then show ?case using ring_fill [of s bs chk] by (simp add: ring_ops_def)
next
  case (5 s n)
  then show ?case using ring_reserve [of s n chk] ring_w_advance_ok(1) [of s n chk] ring_w_advance_ok(2) [of s n]
    by (force simp add: ring_ops_def ring_w_window_def ring_size_def)
next
  case (6 s k bs)
  then show ?case using ring_store [of s k bs chk] by (simp add: ring_ops_def)
next
  case (7 s n)
  then show ?case using ring_consume [of s n chk] ring_r_advance_ok(1) [of s n chk] ring_r_advance_ok(2) [of s n]
    by (simp add: ring_ops_def ring_w_window_def ring_size_def)
next
  case (8 s m)
  then show ?case using ring_content(2) [of s m] ring_content(1) [of s chk] by (simp add: ring_ops_def take_map)
qed

end
