(* ===== verification/Linear_Buffer.thy ===== *)
theory Linear_Buffer
  imports Byte_Buffer
begin

text \<open>
  The buffers over a file: the stream is a stretch of a linear store between two positions that
  only move forward. The contract of the byte buffers follows from what the operations do to
  the store and the positions, wherever the store happens to be mapped.
\<close>

locale linear_buffer =
  fixes B :: "'s buffer_ops" and inv :: "'s \<Rightarrow> bool" and step left :: "'s \<Rightarrow> int"
    and store :: "'s \<Rightarrow> byte list" and rp wp :: "'s \<Rightarrow> nat"
  assumes pos_law: "inv s \<Longrightarrow> rp s \<le> wp s \<and> wp s \<le> length (store s) \<and> b_size B s = int (wp s) - int (rp s)"
    and left_law: "inv s \<Longrightarrow> 0 \<le> step s \<and> 0 \<le> left s \<and> min (step s) (left s) \<le> b_w_window B s \<and>
      int (wp s) + left s \<le> int (length (store s))"
    and load_law: "inv s \<Longrightarrow> rp s + k \<le> wp s \<Longrightarrow> b_read B (b_r_position B s) k s = Some (stretch (store s) (rp s) (rp s + k))"
    and inside_law: "inv s \<Longrightarrow> rp s + k + length bs \<le> wp s \<Longrightarrow>
      \<exists>s'. b_write B (b_r_position B s + int k) bs s = Some s' \<and> inv s' \<and> store s' = patch (store s) (rp s + k) bs \<and>
        rp s' = rp s \<and> wp s' = wp s \<and> b_r_position B s' = b_r_position B s \<and> step s' = step s \<and> left s' = left s"
    and beyond_law: "inv s \<Longrightarrow> int (length bs) \<le> step s \<Longrightarrow> int (length bs) \<le> left s \<Longrightarrow>
      \<exists>s'. b_write B (b_w_position B s) bs s = Some s' \<and> inv s' \<and> store s' = patch (store s) (wp s) bs \<and>
        rp s' = rp s \<and> wp s' = wp s \<and> step s' = step s \<and> left s' = left s"
    and w_law: "inv s \<Longrightarrow> int k \<le> step s \<Longrightarrow> int k \<le> left s \<Longrightarrow>
      \<exists>s'. b_w_advance B (int k) s = Inr s' \<and> inv s' \<and> store s' = store s \<and> rp s' = rp s \<and> wp s' = wp s + k \<and>
        step s' = step s \<and> left s' \<ge> left s - int k"
    and r_law: "inv s \<Longrightarrow> rp s + k \<le> wp s \<Longrightarrow>
      \<exists>s'. b_r_advance B (int k) s = Inr s' \<and> inv s' \<and> store s' = store s \<and> rp s' = rp s + k \<and> wp s' = wp s \<and>
        step s' = step s \<and> left s' \<ge> left s"
begin

lemma content_stretch:
  assumes "inv s"
  shows "content B s = stretch (store s) (rp s) (wp s)"
proof -
  have "nat (b_size B s) = wp s - rp s" "rp s + (wp s - rp s) = wp s" using pos_law [OF assms] by auto
  then show ?thesis using load_law [OF assms, of "wp s - rp s"] by (simp add: content_def)
qed

lemma content_len: "inv s \<Longrightarrow> length (content B s) = wp s - rp s"
  using pos_law [of s] by (simp add: content_stretch length_stretch)

lemma size_nat: "inv s \<Longrightarrow> nat (b_size B s) = wp s - rp s"
  using pos_law [of s] by auto

end

sublocale linear_buffer \<subseteq> byte_buffer B inv step left False
proof (unfold_locales, goal_cases)
  case (1 s)
  then show ?case using pos_law [of s] by simp
next
  case (2 s)
  then have p: "rp s + (wp s - rp s) = wp s" "rp s \<le> wp s" "wp s \<le> length (store s)" using pos_law [of s] by auto
  then have "b_read B (b_r_position B s) (wp s - rp s) s = Some (stretch (store s) (rp s) (wp s))"
    using load_law [OF 2, of "wp s - rp s"] by simp
  then show ?case unfolding size_nat [OF 2] using p by (simp add: length_stretch)
next
  case (3 s)
  then show ?case using left_law [of s] by simp
next
  case (4 s bs)
  obtain s1 where s1: "b_write B (b_w_position B s) bs s = Some s1" "inv s1" "store s1 = patch (store s) (wp s) bs"
    "rp s1 = rp s" "wp s1 = wp s" "step s1 = step s" "left s1 = left s"
    using beyond_law [OF 4] by blast
  with 4(2,3) w_law [of s1 "length bs"] obtain s2 where s2: "b_w_advance B (int (length bs)) s1 = Inr s2" "inv s2"
    "store s2 = store s1" "rp s2 = rp s" "wp s2 = wp s + length bs" "step s2 = step s"
    "left s2 \<ge> left s - int (length bs)" by auto
  have "wp s + length bs \<le> length (store s)" using left_law [OF 4(1)] 4(3) by linarith
  then have "content B s2 = content B s @ bs"
    using pos_law [OF 4(1)] stretch_append [of "rp s" "wp s" "wp s + length bs" "store s2"]
    by (simp add: content_stretch s1 s2 4(1) stretch_patch_outside stretch_patch_exact)
  with s1 s2 show ?case by blast
next
  case (5 s n)
  then obtain s' where s': "b_w_advance B n s = Inr s'" "inv s'" "store s' = store s" "rp s' = rp s"
    "wp s' = wp s + nat n" "step s' = step s" "left s' \<ge> left s - n"
    using w_law [of s "nat n"] by auto
  have n: "wp s + nat n \<le> length (store s)" using left_law [OF 5(1)] 5(2,4) by linarith
  then have "content B s' = content B s @ stretch (store s) (wp s) (wp s + nat n)"
    using pos_law [OF 5(1)] stretch_append [of "rp s" "wp s" "wp s + nat n" "store s"]
    by (simp add: content_stretch s' 5(1))
  moreover have "length (stretch (store s) (wp s) (wp s + nat n)) = nat n" using n by (simp add: length_stretch)
  ultimately show ?case using s' by blast
next
  case (6 s k bs)
  then have k: "rp s + k + length bs \<le> wp s" using pos_law [OF 6(1)] by (simp add: content_len, arith)
  from inside_law [OF 6(1) this] obtain s' where s': "b_write B (b_r_position B s + int k) bs s = Some s'" "inv s'"
    "store s' = patch (store s) (rp s + k) bs" "rp s' = rp s" "wp s' = wp s" "b_r_position B s' = b_r_position B s"
    "step s' = step s" "left s' = left s" by blast
  then have "content B s' = patch (content B s) k bs"
    using pos_law [OF 6(1)] k by (simp add: content_stretch 6(1) stretch_patch_inside)
  with s' show ?case by blast
next
  case (7 s n)
  then have "rp s + nat n \<le> wp s" using pos_law [OF 7(1)] by auto
  moreover have "int (nat n) = n" using 7(2) by simp
  ultimately obtain s' where s': "b_r_advance B n s = Inr s'" "inv s'" "store s' = store s"
    "rp s' = rp s + nat n" "wp s' = wp s" "step s' = step s" "left s' \<ge> left s" using r_law [OF 7(1), of "nat n"] by metis
  then have "content B s' = drop (nat n) (content B s)" by (simp add: content_stretch 7(1) stretch_drop)
  with s' show ?case by (intro exI [of _ s']) simp
next
  case (8 s m)
  then have "m \<le> wp s - rp s" "rp s + m \<le> wp s" using pos_law [OF 8(1)] by (auto simp: size_nat)
  then show ?case using load_law [OF 8(1), of m] by (simp add: content_stretch 8(1) stretch_take)
qed

context linear_buffer
begin

text \<open>The store keeps everything that was ever appended.\<close>

lemma run_store:
  assumes "inv s" "fits False (step s) xs (left s) (b_size B s)" "buffer_run B xs s = Some (Inr (out, s'))"
  shows "take (wp s') (store s') = take (wp s) (store s) @ put_bytes xs"
  using assms
proof (induction xs arbitrary: s out)
  case (Cons x xs)
  note i = Cons.prems(1)
  show ?case
  proof (cases x)
    case (Put bs)
    with Cons.prems(2) have f: "int (length bs) \<le> step s" "int (length bs) \<le> left s"
      "fits False (step s) xs (left s - int (length bs)) (b_size B s + int (length bs))" by auto
    obtain s1 where s1: "b_write B (b_w_position B s) bs s = Some s1" "inv s1" "store s1 = patch (store s) (wp s) bs"
      "rp s1 = rp s" "wp s1 = wp s" "step s1 = step s" "left s1 = left s"
      using beyond_law [OF i f(1,2)] by blast
    with f(1,2) w_law [of s1 "length bs"] obtain s2 where s2: "b_w_advance B (int (length bs)) s1 = Inr s2" "inv s2"
      "store s2 = store s1" "rp s2 = rp s" "wp s2 = wp s + length bs" "step s2 = step s"
      "left s2 \<ge> left s - int (length bs)" by auto
    have run: "buffer_run B xs s2 = Some (Inr (out, s'))"
      using Cons.prems(3) s1(1) s2(1) by (simp add: Put buffer_put_def)
    have "b_size B s2 = b_size B s + int (length bs)" using pos_law [OF i] pos_law [OF s2(2)] s2(4,5) by simp
    with fits_mono [OF f(3) s2(7)] s2(6) have "fits False (step s2) xs (left s2) (b_size B s2)" by simp
    from Cons.IH [OF s2(2) this run] have "take (wp s') (store s') = take (wp s2) (store s2) @ put_bytes xs" .
    moreover have "wp s \<le> length (store s)" using pos_law [OF i] by simp
    then have "take (wp s2) (store s2) = take (wp s) (store s) @ bs"
      unfolding s2(3,5) s1(3) patch_def by simp
    ultimately show ?thesis by (simp add: Put)
  next
    case (Take n)
    with Cons.prems(2) have f: "int n \<le> b_size B s" "fits False (step s) xs (left s) (b_size B s - int n)" by auto
    have n: "rp s + n \<le> wp s" using f(1) pos_law [OF i] by linarith
    from r_law [OF i n] obtain s1 where s1: "b_r_advance B (int n) s = Inr s1" "inv s1" "store s1 = store s"
      "rp s1 = rp s + n" "wp s1 = wp s" "step s1 = step s" "left s1 \<ge> left s" by blast
    have "n \<le> nat (b_size B s)" using f(1) by linarith
    then obtain o1 where run: "buffer_run B xs s1 = Some (Inr (o1, s'))"
      using Cons.prems(3) s1(1) peek_law [OF i, of n]
      by (auto simp: Take buffer_take_def bind_ro_def split: option.splits sum.splits)
    have "b_size B s1 = b_size B s - int n" using pos_law [OF i] pos_law [OF s1(2)] s1(4,5) by simp
    with fits_mono [OF f(2) s1(7)] s1(6) have "fits False (step s1) xs (left s1) (b_size B s1)" by simp
    from Cons.IH [OF s1(2) this run] show ?thesis by (simp add: Take s1)
  qed
qed simp

text \<open>From an empty start, the consumed prefix of the store is what was taken out.\<close>

lemma run_consumed:
  assumes "inv s" "wp s = 0" "fits False (step s) xs (left s) 0"
  shows "\<exists>out s'. buffer_run B xs s = Some (Inr (out, s')) \<and> inv s' \<and> concat out @ content B s' = put_bytes xs \<and>
    map length out = take_counts xs \<and> take (rp s') (store s') = concat out"
proof -
  have z: "b_size B s = 0" "content B s = []" using pos_law [OF assms(1)] assms(2) content_stretch [OF assms(1)]
    by (simp_all add: stretch_def)
  from run_fifo [OF assms(1), of xs] assms(3) z obtain out s' where r: "buffer_run B xs s = Some (Inr (out, s'))" "inv s'"
    "concat out @ content B s' = put_bytes xs" "map length out = take_counts xs" by auto
  have "take (wp s') (store s') = put_bytes xs" using run_store [OF assms(1) _ r(1)] assms(2,3) z(1) by simp
  moreover have "take (wp s') (store s') = take (rp s') (store s') @ content B s'"
    using pos_law [OF r(2)] content_stretch [OF r(2)]
    by (metis add_diff_inverse_nat not_le stretch_def take_add)
  ultimately have "take (rp s') (store s') = concat out" using r(3) by (metis append_same_eq)
  with r show ?thesis by blast
qed

end

end
