(* ===== verification/Tape_Buffer.thy ===== *)
theory Tape_Buffer
  imports Linear_Buffer
begin

text \<open>
  \<^verbatim>\<open>vr/io/mapped_tape_buffer.h\<close> and \<^verbatim>\<open>.cpp\<close>: a file of a fixed reserved size mapped in one
  piece; reading and writing only move addresses forward through it. Opening the file is not
  modelled: the address of the mapping is an argument.
\<close>

section \<open>State and operations\<close>

record tape_buffer =
  tp_reserve_size :: int
  tp_base :: int
  tp_r_addr :: int
  tp_w_addr :: int
  tp_mem :: "byte list"

definition tape_size :: "tape_buffer \<Rightarrow> int" where
  "tape_size s = tp_w_addr s - tp_r_addr s"

definition tape_capacity :: "tape_buffer \<Rightarrow> int" where
  "tape_capacity s = tp_reserve_size s"

definition tape_w_window :: "tape_buffer \<Rightarrow> int" where
  "tape_w_window s = tape_capacity s - tape_size s"

definition tape_r_advance :: "bool \<Rightarrow> int \<Rightarrow> tape_buffer \<Rightarrow> tape_buffer result" where
  "tape_r_advance CHECK_BOUNDS step s =
     (if CHECK_BOUNDS \<and> \<not> (0 \<le> step \<and> step \<le> tape_size s) then Inl Out_of_bounds
      else Inr (s\<lparr>tp_r_addr := tp_r_addr s + step\<rparr>))"

definition tape_w_advance :: "bool \<Rightarrow> int \<Rightarrow> tape_buffer \<Rightarrow> tape_buffer result" where
  "tape_w_advance CHECK_BOUNDS step s =
     (if CHECK_BOUNDS \<and> \<not> (0 \<le> step \<and> step \<le> tape_capacity s - tape_size s) then Inl Out_of_bounds
      else Inr (s\<lparr>tp_w_addr := tp_w_addr s + step\<rparr>))"

definition tape_cell :: "tape_buffer \<Rightarrow> int \<Rightarrow> nat option" where
  "tape_cell s a = (if tp_base s \<le> a \<and> a < tp_base s + tp_reserve_size s then Some (nat (a - tp_base s)) else None)"

definition tape_read :: "int \<Rightarrow> nat \<Rightarrow> tape_buffer \<Rightarrow> byte list option" where
  "tape_read a n s = load_bytes (tape_cell s) (tp_mem s) a n"

definition tape_write :: "int \<Rightarrow> byte list \<Rightarrow> tape_buffer \<Rightarrow> tape_buffer option" where
  "tape_write a bs s = map_option (\<lambda>mem. s\<lparr>tp_mem := mem\<rparr>) (store_bytes (tape_cell s) a bs (tp_mem s))"

definition tape_ops :: "bool \<Rightarrow> tape_buffer buffer_ops" where
  "tape_ops CHECK_BOUNDS = \<lparr>b_r_position = tp_r_addr, b_w_position = tp_w_addr, b_size = tape_size,
     b_w_window = tape_w_window, b_r_advance = tape_r_advance CHECK_BOUNDS, b_w_advance = tape_w_advance CHECK_BOUNDS,
     b_read = tape_read, b_write = tape_write\<rparr>"

definition select_size :: "int \<Rightarrow> int \<Rightarrow> int result" where
  "select_size page_size requested =
     (if \<not> 0 < requested then Inl Check_failure
      else Inr (((requested + page_size - 1) div page_size) * page_size))"

definition tape_new :: "int \<Rightarrow> int \<Rightarrow> int \<Rightarrow> tape_buffer result" where
  "tape_new page_size base reserve_size =
     bind_r (select_size page_size reserve_size) (\<lambda>n.
       Inr \<lparr>tp_reserve_size = n, tp_base = base, tp_r_addr = base, tp_w_addr = base, tp_mem = replicate (nat n) 0\<rparr>)"

text \<open>\<open>truncate_and_close\<close>: the bytes left in the file.\<close>

definition tape_close :: "tape_buffer \<Rightarrow> byte list" where
  "tape_close s = (let r_count = tp_r_addr s - tp_base s in take (nat r_count) (tp_mem s))"

section \<open>The tape as a byte buffer\<close>

definition tape_inv :: "tape_buffer \<Rightarrow> bool" where
  "tape_inv s \<longleftrightarrow> int (length (tp_mem s)) = tp_reserve_size s \<and> tp_base s \<le> tp_r_addr s \<and> tp_r_addr s \<le> tp_w_addr s \<and>
     tp_w_addr s \<le> tp_base s + tp_reserve_size s"

text \<open>What is left of the mapping after the write address; \<open>w_window\<close> promises more once bytes were consumed.\<close>

definition tape_room :: "tape_buffer \<Rightarrow> int" where
  "tape_room s = tp_base s + tp_reserve_size s - tp_w_addr s"

definition tape_r :: "tape_buffer \<Rightarrow> nat" where "tape_r s = nat (tp_r_addr s - tp_base s)"
definition tape_w :: "tape_buffer \<Rightarrow> nat" where "tape_w s = nat (tp_w_addr s - tp_base s)"

lemma tape_posD:
  assumes "tape_inv s"
  shows "tp_r_addr s = tp_base s + int (tape_r s)" "tp_w_addr s = tp_base s + int (tape_w s)"
    "tape_r s \<le> tape_w s" "tape_w s \<le> length (tp_mem s)" "tape_room s = int (length (tp_mem s)) - int (tape_w s)"
    "tape_size s = int (tape_w s) - int (tape_r s)" "tp_reserve_size s = int (length (tp_mem s))"
  using assms by (auto simp: tape_inv_def tape_r_def tape_w_def tape_room_def tape_size_def)

lemma tape_cell_at:
  "tape_inv s \<Longrightarrow> k < length (tp_mem s) \<Longrightarrow> tape_cell s (tp_base s + int k) = Some k"
  by (simp add: tape_cell_def tape_inv_def)

lemma tape_load:
  assumes "tape_inv s" "k + n \<le> length (tp_mem s)"
  shows "tape_read (tp_base s + int k) n s = Some (stretch (tp_mem s) k (k + n))"
  unfolding tape_read_def using assms tape_cell_at [OF assms(1), of "k + i" for i]
  by (intro load_linear) (simp_all add: add.assoc)

lemma tape_store:
  assumes "tape_inv s" "k + length bs \<le> length (tp_mem s)"
  shows "tape_write (tp_base s + int k) bs s = Some (s\<lparr>tp_mem := patch (tp_mem s) k bs\<rparr>)"
    "tape_inv (s\<lparr>tp_mem := patch (tp_mem s) k bs\<rparr>)"
proof -
  have "store_bytes (tape_cell s) (tp_base s + int k) bs (tp_mem s) = Some (patch (tp_mem s) k bs)"
    using assms tape_cell_at [OF assms(1), of "k + i" for i] by (intro store_linear) (simp_all add: add.assoc)
  then show "tape_write (tp_base s + int k) bs s = Some (s\<lparr>tp_mem := patch (tp_mem s) k bs\<rparr>)"
    by (simp add: tape_write_def)
  show "tape_inv (s\<lparr>tp_mem := patch (tp_mem s) k bs\<rparr>)" using assms by (simp add: tape_inv_def)
qed

lemma tape_upd_simps:
  "tape_r (s\<lparr>tp_mem := mem\<rparr>) = tape_r s" "tape_w (s\<lparr>tp_mem := mem\<rparr>) = tape_w s" "tape_room (s\<lparr>tp_mem := mem\<rparr>) = tape_room s"
  "tape_r (s\<lparr>tp_w_addr := a\<rparr>) = tape_r s" "tape_w (s\<lparr>tp_r_addr := a\<rparr>) = tape_w s" "tape_room (s\<lparr>tp_r_addr := a\<rparr>) = tape_room s"
  "tape_room (s\<lparr>tp_w_addr := a + d\<rparr>) = tape_room (s\<lparr>tp_w_addr := a\<rparr>) - d"
  by (simp_all add: tape_r_def tape_w_def tape_room_def)

interpretation tape: linear_buffer "tape_ops chk" tape_inv tp_reserve_size tape_room tp_mem tape_r tape_w
proof (unfold_locales, goal_cases)
  case (1 s)
  then show ?case using tape_posD [of s] by (simp add: tape_ops_def)
next
  case (2 s)
  then show ?case using tape_posD [of s] by (simp add: tape_ops_def tape_w_window_def tape_capacity_def)
next
  case (3 s k)
  then show ?case using tape_load [of s "tape_r s" k] tape_posD [of s] by (simp add: tape_ops_def)
next
  case (4 s k bs)
  then show ?case using tape_store [of s "tape_r s + k" bs] tape_posD [of s]
    by (simp add: tape_ops_def add.assoc tape_upd_simps)
next
  case (5 s bs)
  then have "tape_w s + length bs \<le> length (tp_mem s)" using tape_posD [of s] by linarith
  then show ?case using 5(1,3) tape_store [of s "tape_w s" bs] tape_posD [of s]
    by (simp add: tape_ops_def tape_upd_simps)
next
  case (6 s k)
  note p = tape_posD [OF 6(1)]
  let ?s = "s\<lparr>tp_w_addr := tp_w_addr s + int k\<rparr>"
  have "int k \<le> tape_capacity s - tape_size s" using 6(3) p by (simp add: tape_capacity_def)
  then have "tape_w_advance chk (int k) s = Inr ?s" by (simp add: tape_w_advance_def)
  moreover have "tape_inv ?s" using 6 by (simp add: tape_inv_def tape_room_def)
  moreover have "tp_w_addr s + int k - tp_base s = int (tape_w s + k)" using p by simp
  then have "tape_w ?s = tape_w s + k" by (simp add: tape_w_def [of ?s] del: of_nat_add)
  ultimately show ?case by (simp add: tape_ops_def tape_upd_simps)
next
  case (7 s k)
  note p = tape_posD [OF 7(1)]
  let ?s = "s\<lparr>tp_r_addr := tp_r_addr s + int k\<rparr>"
  have k: "int k \<le> tape_size s" using 7(2) p by simp
  then have "tape_r_advance chk (int k) s = Inr ?s" by (simp add: tape_r_advance_def)
  moreover have "tape_inv ?s" using 7(1) k by (simp add: tape_inv_def tape_size_def)
  moreover have "tp_r_addr s + int k - tp_base s = int (tape_r s + k)" using p by simp
  then have "tape_r ?s = tape_r s + k" by (simp add: tape_r_def [of ?s] del: of_nat_add)
  ultimately show ?case by (simp add: tape_ops_def tape_upd_simps)
qed

section \<open>Construction and closing\<close>

lemma tape_new_inv:
  assumes "tape_new page_size base n = Inr s" "0 < page_size"
  shows "tape_inv s" "content (tape_ops chk) s = []" "tape_room s = tp_reserve_size s" "n \<le> tp_reserve_size s"
proof -
  let ?N = "((n + page_size - 1) div page_size) * page_size"
  have n: "0 < n" and s: "s = \<lparr>tp_reserve_size = ?N, tp_base = base, tp_r_addr = base, tp_w_addr = base, tp_mem = replicate (nat ?N) 0\<rparr>"
    using assms(1) by (auto simp: tape_new_def select_size_def bind_r_def split: if_splits)
  have "?N = n + page_size - 1 - (n + page_size - 1) mod page_size" by (simp add: minus_mod_eq_div_mult)
  moreover have "(n + page_size - 1) mod page_size < page_size" using assms(2) by simp
  ultimately have N: "n \<le> ?N" by linarith
  with n show inv: "tape_inv s" by (simp add: s tape_inv_def)
  show "n \<le> tp_reserve_size s" using N by (simp add: s)
  show "tape_room s = tp_reserve_size s" by (simp add: s tape_room_def)
  show "content (tape_ops chk) s = []"
    unfolding tape.content_stretch [OF inv] by (simp add: s stretch_def tape_r_def tape_w_def)
qed

text \<open>What is left in the file is what was consumed, in order.\<close>

end
