(* ===== verification/Mapped_File.thy ===== *)
theory Mapped_File
  imports Linear_Buffer
begin

text \<open>
  \<^verbatim>\<open>vr/io/mapped_files.h\<close> and \<^verbatim>\<open>.cpp\<close>: a file seen through one sliding memory mapping of whole
  pages. The address the kernel picks for a mapping is a parameter, a function of its extent
  and file offset; opening, advising and unmapping are not modelled, and mappings succeed.
\<close>

unbundle bit_operations_syntax

section \<open>State and operations\<close>

datatype advice_dir = Forward | Backward

record mapped_file =
  mf_file :: "byte list"
  mf_open :: bool
  mf_size :: int
  mf_base_addr :: int
  mf_base_position :: int
  mf_offset :: int
  mf_extent :: int
  mf_advice :: advice_dir

definition reposition :: "int \<Rightarrow> (int \<Rightarrow> int \<Rightarrow> int) \<Rightarrow> int \<Rightarrow> int \<Rightarrow> mapped_file \<Rightarrow> int \<times> mapped_file" where
  "reposition page_size mmap position window f =
     (let new_extent = page_size + (((position + window - 1) AND NOT (page_size - 1)) - (position AND NOT (page_size - 1)));
          new_extent = max new_extent (mf_extent f);
          base_position =
            (case mf_advice f of
               Forward \<Rightarrow> position AND NOT (page_size - 1)
             | Backward \<Rightarrow> max 0 (((position + window - 1) AND NOT (page_size - 1)) - new_extent + page_size));
          base_addr = mmap new_extent base_position;
          offset = position - base_position
      in (base_addr + offset, f\<lparr>mf_base_addr := base_addr, mf_base_position := base_position, mf_offset := offset,
           mf_extent := new_extent\<rparr>))"

definition seek_impl :: "bool \<Rightarrow> int \<Rightarrow> (int \<Rightarrow> int \<Rightarrow> int) \<Rightarrow> int \<Rightarrow> int \<Rightarrow> mapped_file \<Rightarrow> (int \<times> mapped_file) result" where
  "seek_impl CHECK_INPUT page_size mmap position window f =
     (if CHECK_INPUT \<and> \<not> (position \<ge> 0 \<and> window > 0) then Inl Check_failure
      else
        let begin_pos = position - mf_base_position f; end_pos = begin_pos + window in
        if (0 \<le> begin_pos \<and> begin_pos < mf_extent f) \<and> (0 \<le> end_pos \<and> end_pos \<le> mf_extent f)
        then Inr (mf_base_addr f + begin_pos, f\<lparr>mf_offset := begin_pos\<rparr>)
        else Inr (reposition page_size mmap position window f))"

definition ofile_new :: "int \<Rightarrow> advice_dir \<Rightarrow> mapped_file result" where
  "ofile_new reserve_size advice =
     (if \<not> 0 < reserve_size then Inl Check_failure
      else Inr \<lparr>mf_file = replicate (nat reserve_size) 0, mf_open = True, mf_size = 0, mf_base_addr = 0,
        mf_base_position = 0, mf_offset = 0, mf_extent = 0, mf_advice = advice\<rparr>)"

definition ofile_seek :: "bool \<Rightarrow> int \<Rightarrow> (int \<Rightarrow> int \<Rightarrow> int) \<Rightarrow> int \<Rightarrow> int \<Rightarrow> mapped_file \<Rightarrow> (int \<times> mapped_file) result" where
  "ofile_seek CHECK_INPUT page_size mmap position window f =
     bind_r (seek_impl CHECK_INPUT page_size mmap position window f) (\<lambda>(r, f).
       Inr (r, f\<lparr>mf_size := max (mf_size f) (position + window)\<rparr>))"

definition ofile_advance :: "bool \<Rightarrow> int \<Rightarrow> (int \<Rightarrow> int \<Rightarrow> int) \<Rightarrow> int \<Rightarrow> int \<Rightarrow> mapped_file \<Rightarrow> (int \<times> mapped_file) result" where
  "ofile_advance CHECK_INPUT page_size mmap step window f =
     (let position = mf_offset f + step + mf_base_position f in
      bind_r (seek_impl CHECK_INPUT page_size mmap position window f) (\<lambda>(r, f).
        Inr (r, f\<lparr>mf_size := max (mf_size f) (position + window)\<rparr>)))"

text \<open>\<open>ftruncate\<close> keeps a prefix, or pads with zero bytes.\<close>

definition ftruncate :: "nat \<Rightarrow> byte list \<Rightarrow> byte list" where
  "ftruncate n file = take n file @ replicate (n - length file) 0"

definition truncate_and_close :: "int \<Rightarrow> mapped_file \<Rightarrow> (bool \<times> mapped_file) result" where
  "truncate_and_close n f =
     (if \<not> mf_open f then Inr (False, f)
      else if \<not> (0 \<le> n \<and> n \<le> mf_size f) then Inl Out_of_bounds
      else Inr (True, f\<lparr>mf_file := ftruncate (nat n) (mf_file f), mf_size := n, mf_open := False\<rparr>))"

text \<open>Memory: the mapping shows the file; beyond the end of the file an access is an error.\<close>

definition file_cell :: "mapped_file \<Rightarrow> int \<Rightarrow> nat option" where
  "file_cell f a =
     (if mf_open f \<and> mf_base_addr f \<le> a \<and> a < mf_base_addr f + mf_extent f \<and>
         mf_base_position f + (a - mf_base_addr f) < int (length (mf_file f))
      then Some (nat (mf_base_position f + (a - mf_base_addr f))) else None)"

definition file_read :: "int \<Rightarrow> nat \<Rightarrow> mapped_file \<Rightarrow> byte list option" where
  "file_read a n f = load_bytes (file_cell f) (mf_file f) a n"

definition file_write :: "int \<Rightarrow> byte list \<Rightarrow> mapped_file \<Rightarrow> mapped_file option" where
  "file_write a bs f = map_option (\<lambda>file. f\<lparr>mf_file := file\<rparr>) (store_bytes (file_cell f) a bs (mf_file f))"

section \<open>Repositioning\<close>

text \<open>The page size is a power of two; masking rounds down to a page.\<close>

definition page_ok :: "int \<Rightarrow> bool" where
  "page_ok page_size \<longleftrightarrow> (\<exists>k::nat. page_size = 2 ^ k)"

lemma and_not_mask_int: "(p::int) AND NOT (2 ^ k - 1) = p - p mod 2 ^ k"
proof -
  have "(p AND mask k) + (p AND NOT (mask k)) = (p AND mask k) OR (p AND NOT (mask k))"
    by (rule disjunctive_add_eq_or) (simp add: bit_eq_iff bit_simps)
  also have "\<dots> = p" by (rule bit_eqI) (auto simp: bit_simps)
  finally show ?thesis by (simp add: take_bit_eq_mod flip: mask_eq_exp_minus_1 take_bit_eq_mask)
qed

lemma page_floor:
  assumes "page_ok page_size"
  shows "p AND NOT (page_size - 1) \<le> p" "p < (p AND NOT (page_size - 1)) + page_size"
    "0 \<le> p \<Longrightarrow> 0 \<le> p AND NOT (page_size - 1)" "0 < page_size"
proof -
  obtain k :: nat where k: "page_size = 2 ^ k" using assms by (auto simp: page_ok_def)
  have "p mod 2 ^ k < 2 ^ k" "0 \<le> p mod 2 ^ k" "0 \<le> p \<Longrightarrow> p mod 2 ^ k \<le> p" by (simp_all add: zmod_le_nonneg_dividend)
  then show "p AND NOT (page_size - 1) \<le> p" "p < (p AND NOT (page_size - 1)) + page_size"
    "0 \<le> p \<Longrightarrow> 0 \<le> p AND NOT (page_size - 1)" "0 < page_size"
    unfolding k and_not_mask_int by linarith+
qed

definition mf_inv :: "mapped_file \<Rightarrow> bool" where
  "mf_inv f \<longleftrightarrow> mf_open f \<and> 0 \<le> mf_base_position f \<and> 0 \<le> mf_offset f \<and> 0 \<le> mf_extent f"

text \<open>A window that is mapped as a whole at the file position of the current offset.\<close>

definition mapped_at :: "int \<Rightarrow> int \<Rightarrow> mapped_file \<Rightarrow> bool" where
  "mapped_at position window f \<longleftrightarrow> mf_inv f \<and> mf_base_position f + mf_offset f = position \<and> mf_offset f + window \<le> mf_extent f"

lemma reposition_maps:
  fixes mmap :: "int \<Rightarrow> int \<Rightarrow> int"
  assumes "page_ok page_size" "mf_inv f" "0 \<le> position" "0 < window"
  defines "r \<equiv> reposition page_size mmap position window f"
  shows "fst r = mf_base_addr (snd r) + mf_offset (snd r)" "mapped_at position window (snd r)"
    "mf_file (snd r) = mf_file f" "mf_size (snd r) = mf_size f"
proof -
  define hi lo where "hi = (position + window - 1) AND NOT (page_size - 1)" and "lo = position AND NOT (page_size - 1)"
  have b: "0 \<le> lo" "lo \<le> position" "position + window \<le> hi + page_size" "0 < page_size"
    using page_floor(1-3) [OF assms(1), of position] page_floor(1-3) [OF assms(1), of "position + window - 1"]
      page_floor(4) [OF assms(1)] assms(3,4) by (simp_all add: hi_def lo_def)
  show "fst r = mf_base_addr (snd r) + mf_offset (snd r)" "mapped_at position window (snd r)"
    "mf_file (snd r) = mf_file f" "mf_size (snd r) = mf_size f"
    using assms(2) b unfolding r_def reposition_def Let_def mapped_at_def mf_inv_def hi_def [symmetric] lo_def [symmetric]
    by (auto split: advice_dir.split)
qed

lemma seek_maps:
  assumes "page_ok page_size" "mf_inv f" "0 \<le> position" "0 < window"
  obtains f' where "seek_impl chk page_size mmap position window f = Inr (mf_base_addr f' + mf_offset f', f')"
    "mapped_at position window f'" "mf_file f' = mf_file f" "mf_size f' = mf_size f"
proof (cases "0 \<le> position - mf_base_position f \<and> position - mf_base_position f < mf_extent f \<and>
    position - mf_base_position f + window \<le> mf_extent f")
  case True
  then show ?thesis using assms(2-4)
    by (intro that [of "f\<lparr>mf_offset := position - mf_base_position f\<rparr>"])
      (simp_all add: seek_impl_def Let_def mapped_at_def mf_inv_def)
next
  case False
  let ?r = "reposition page_size mmap position window f"
  have "seek_impl chk page_size mmap position window f = Inr ?r"
    using False assms(3,4) by (auto simp: seek_impl_def Let_def)
  then show ?thesis using reposition_maps [OF assms(1-4), of mmap] by (intro that [of "snd ?r"]) (metis prod.collapse)
qed

lemma file_cell_at:
  assumes "mapped_at position window f" "0 \<le> i" "i < window" "position + i < int (length (mf_file f))"
  shows "file_cell f (mf_base_addr f + mf_offset f + i) = Some (nat (position + i))"
  using assms by (auto simp: file_cell_def mapped_at_def mf_inv_def algebra_simps)

text \<open>Reading and writing through the mapping are reading and writing the file.\<close>

lemma file_load:
  assumes "mapped_at position window f" "position + int d + int n \<le> int (length (mf_file f))" "int d + int n \<le> window"
  shows "file_read (mf_base_addr f + mf_offset f + int d) n f =
    Some (stretch (mf_file f) (nat position + d) (nat position + d + n))"
  unfolding file_read_def
proof (rule load_linear)
  have p: "0 \<le> position" using assms(1) by (auto simp: mapped_at_def mf_inv_def)
  show "nat position + d + n \<le> length (mf_file f)" using assms(2) p by linarith
  fix i assume "i < n"
  then have "file_cell f (mf_base_addr f + mf_offset f + int (d + i)) = Some (nat (position + int (d + i)))"
    using assms by (intro file_cell_at [OF assms(1)]) simp_all
  then show "file_cell f (mf_base_addr f + mf_offset f + int d + int i) = Some (nat position + d + i)"
    using p by (simp add: add.assoc nat_add_distrib)
qed

lemma file_store:
  assumes "mapped_at position window f" "position + int d + int (length bs) \<le> int (length (mf_file f))"
    "int d + int (length bs) \<le> window"
  shows "file_write (mf_base_addr f + mf_offset f + int d) bs f =
    Some (f\<lparr>mf_file := patch (mf_file f) (nat position + d) bs\<rparr>)"
proof -
  have p: "0 \<le> position" using assms(1) by (auto simp: mapped_at_def mf_inv_def)
  have "store_bytes (file_cell f) (mf_base_addr f + mf_offset f + int d) bs (mf_file f) =
    Some (patch (mf_file f) (nat position + d) bs)"
  proof (rule store_linear)
    show "nat position + d + length bs \<le> length (mf_file f)" using assms(2) p by linarith
    fix i assume "i < length bs"
    then have "file_cell f (mf_base_addr f + mf_offset f + int (d + i)) = Some (nat (position + int (d + i)))"
      using assms by (intro file_cell_at [OF assms(1)]) simp_all
    then show "file_cell f (mf_base_addr f + mf_offset f + int d + int i) = Some (nat position + d + i)"
      using p by (simp add: add.assoc nat_add_distrib)
  qed
  then show ?thesis by (simp add: file_write_def)
qed

end
