(* ===== verification/Window_Buffer.thy ===== *)
theory Window_Buffer
  imports Mapped_File
begin

text \<open>
  \<^verbatim>\<open>vr/io/mapped_window_buffer.h\<close> and \<^verbatim>\<open>.cpp\<close>: a byte buffer over a sliding mapping of a
  file, which remaps when the write position reaches the end of the current capacity.
\<close>

section \<open>State and operations\<close>

record window_buffer =
  wb_w_window :: int
  wb_out_w :: int
  wb_r_offset :: int
  wb_w_offset :: int
  wb_capacity :: int
  wb_out :: mapped_file

definition wb_r_position :: "window_buffer \<Rightarrow> int" where
  "wb_r_position s = wb_out_w s + wb_r_offset s"

definition wb_w_position :: "window_buffer \<Rightarrow> int" where
  "wb_w_position s = wb_out_w s + wb_w_offset s"

definition wb_size :: "window_buffer \<Rightarrow> int" where
  "wb_size s = wb_w_offset s - wb_r_offset s"

definition wb_r_advance :: "bool \<Rightarrow> int \<Rightarrow> window_buffer \<Rightarrow> window_buffer result" where
  "wb_r_advance CHECK_BOUNDS step s =
     (if CHECK_BOUNDS \<and> \<not> (0 \<le> step \<and> step \<le> wb_size s) then Inl Out_of_bounds
      else Inr (s\<lparr>wb_r_offset := wb_r_offset s + step\<rparr>))"

definition w_remap_advance :: "int \<Rightarrow> (int \<Rightarrow> int \<Rightarrow> int) \<Rightarrow> int \<Rightarrow> window_buffer \<Rightarrow> window_buffer result" where
  "w_remap_advance page_size mmap step s =
     (let sz = wb_size s;
          w_offset = sz + step;
          capacity = max (wb_capacity s) w_offset
      in bind_r (ofile_advance False page_size mmap (wb_r_offset s) (capacity + wb_w_window s) (wb_out s)) (\<lambda>(out_w, out).
           Inr (s\<lparr>wb_w_offset := w_offset, wb_out := out, wb_out_w := out_w, wb_r_offset := 0, wb_capacity := capacity\<rparr>)))"

definition wb_w_advance :: "bool \<Rightarrow> int \<Rightarrow> (int \<Rightarrow> int \<Rightarrow> int) \<Rightarrow> int \<Rightarrow> window_buffer \<Rightarrow> window_buffer result" where
  "wb_w_advance CHECK_BOUNDS page_size mmap step s =
     (if CHECK_BOUNDS \<and> \<not> (0 \<le> step \<and> step \<le> wb_w_window s) then Inl Out_of_bounds
      else
        let w_offset = wb_w_offset s + step in
        if w_offset \<le> wb_capacity s then Inr (s\<lparr>wb_w_offset := w_offset\<rparr>)
        else w_remap_advance page_size mmap step s)"

definition wb_read :: "int \<Rightarrow> nat \<Rightarrow> window_buffer \<Rightarrow> byte list option" where
  "wb_read a n s = file_read a n (wb_out s)"

definition wb_write :: "int \<Rightarrow> byte list \<Rightarrow> window_buffer \<Rightarrow> window_buffer option" where
  "wb_write a bs s = map_option (\<lambda>out. s\<lparr>wb_out := out\<rparr>) (file_write a bs (wb_out s))"

definition window_ops :: "bool \<Rightarrow> int \<Rightarrow> (int \<Rightarrow> int \<Rightarrow> int) \<Rightarrow> window_buffer buffer_ops" where
  "window_ops CHECK_BOUNDS page_size mmap = \<lparr>b_r_position = wb_r_position, b_w_position = wb_w_position, b_size = wb_size,
     b_w_window = wb_w_window, b_r_advance = wb_r_advance CHECK_BOUNDS,
     b_w_advance = wb_w_advance CHECK_BOUNDS page_size mmap, b_read = wb_read, b_write = wb_write\<rparr>"

definition window_new :: "int \<Rightarrow> (int \<Rightarrow> int \<Rightarrow> int) \<Rightarrow> int \<Rightarrow> int \<Rightarrow> int \<Rightarrow> window_buffer result" where
  "window_new page_size mmap capacity w_window reserve_size =
     bind_r (ofile_new reserve_size Forward) (\<lambda>out.
       if \<not> 0 < w_window then Inl Check_failure
       else if \<not> capacity \<ge> w_window then Inl Check_failure
       else bind_r (ofile_seek False page_size mmap 0 (capacity + w_window) out) (\<lambda>(out_w, out).
         Inr \<lparr>wb_w_window = w_window, wb_out_w = out_w, wb_r_offset = 0, wb_w_offset = 0, wb_capacity = capacity, wb_out = out\<rparr>))"

definition window_truncate_and_close :: "window_buffer \<Rightarrow> window_buffer result" where
  "window_truncate_and_close s =
     (let r_count = mf_size (wb_out s) + wb_r_offset s - wb_capacity s - wb_w_window s in
      bind_r (truncate_and_close r_count (wb_out s)) (\<lambda>(_, out). Inr (s\<lparr>wb_out := out\<rparr>)))"

section \<open>The window as a byte buffer\<close>

text \<open>The file position of the start of the mapped window.\<close>

definition wb_start :: "window_buffer \<Rightarrow> int" where
  "wb_start s = mf_base_position (wb_out s) + mf_offset (wb_out s)"

definition wb_file :: "window_buffer \<Rightarrow> byte list" where "wb_file s = mf_file (wb_out s)"
definition wb_r :: "window_buffer \<Rightarrow> nat" where "wb_r s = nat (wb_start s + wb_r_offset s)"
definition wb_w :: "window_buffer \<Rightarrow> nat" where "wb_w s = nat (wb_start s + wb_w_offset s)"

definition window_inv :: "window_buffer \<Rightarrow> bool" where
  "window_inv s \<longleftrightarrow> mapped_at (wb_start s) (wb_capacity s + wb_w_window s) (wb_out s) \<and>
     wb_out_w s = mf_base_addr (wb_out s) + mf_offset (wb_out s) \<and>
     0 \<le> wb_r_offset s \<and> wb_r_offset s \<le> wb_w_offset s \<and> wb_w_offset s \<le> wb_capacity s \<and> 0 < wb_w_window s \<and>
     mf_size (wb_out s) = wb_start s + wb_capacity s + wb_w_window s \<and>
     wb_start s + wb_w_offset s \<le> int (length (wb_file s))"

text \<open>What can be appended without running over the reserved size of the file.\<close>

definition window_left :: "window_buffer \<Rightarrow> int" where
  "window_left s = int (length (wb_file s)) - (wb_start s + wb_w_offset s)"

lemma window_posD:
  assumes "window_inv s"
  shows "0 \<le> wb_start s" "wb_start s + wb_r_offset s = int (wb_r s)" "wb_start s + wb_w_offset s = int (wb_w s)"
    "wb_r s \<le> wb_w s" "wb_w s \<le> length (wb_file s)" "wb_size s = int (wb_w s) - int (wb_r s)"
  using assms by (auto simp: window_inv_def mapped_at_def mf_inv_def wb_r_def wb_w_def wb_size_def)

lemma window_load:
  assumes "window_inv s" "0 \<le> d" "d + int n \<le> wb_capacity s + wb_w_window s" "wb_start s + d + int n \<le> int (length (wb_file s))"
  shows "wb_read (wb_out_w s + d) n s = Some (stretch (wb_file s) (nat (wb_start s + d)) (nat (wb_start s + d) + n))"
proof -
  have m: "mapped_at (wb_start s) (wb_capacity s + wb_w_window s) (wb_out s)"
    and a: "wb_out_w s = mf_base_addr (wb_out s) + mf_offset (wb_out s)" using assms(1) by (simp_all add: window_inv_def)
  have "nat (wb_start s + d) = nat (wb_start s) + nat d" using window_posD(1) [OF assms(1)] assms(2) by (simp add: nat_add_distrib)
  then show ?thesis using file_load [OF m, of "nat d" n] assms(2-4) by (simp add: wb_read_def a wb_file_def)
qed

lemma window_store:
  assumes "window_inv s" "0 \<le> d" "d + int (length bs) \<le> wb_capacity s + wb_w_window s"
    "wb_start s + d + int (length bs) \<le> int (length (wb_file s))"
  defines "s' \<equiv> s\<lparr>wb_out := wb_out s\<lparr>mf_file := patch (wb_file s) (nat (wb_start s + d)) bs\<rparr>\<rparr>"
  shows "wb_write (wb_out_w s + d) bs s = Some s'" "window_inv s'" "wb_file s' = patch (wb_file s) (nat (wb_start s + d)) bs"
    "wb_r s' = wb_r s" "wb_w s' = wb_w s" "window_left s' = window_left s" "wb_w_window s' = wb_w_window s" "wb_r_position s' = wb_r_position s"
proof -
  have m: "mapped_at (wb_start s) (wb_capacity s + wb_w_window s) (wb_out s)"
    and a: "wb_out_w s = mf_base_addr (wb_out s) + mf_offset (wb_out s)" using assms(1) by (simp_all add: window_inv_def)
  have e: "nat (wb_start s + d) = nat (wb_start s) + nat d" using window_posD(1) [OF assms(1)] assms(2) by (simp add: nat_add_distrib)
  then show "wb_write (wb_out_w s + d) bs s = Some s'"
    using file_store [OF m, of "nat d" bs] assms(2-4) by (simp add: wb_write_def a wb_file_def s'_def)
  have "nat (wb_start s + d) + length bs \<le> length (wb_file s)"
    using window_posD(1) [OF assms(1)] assms(2,4) by linarith
  then have len: "length (wb_file s') = length (wb_file s)" by (simp add: s'_def wb_file_def)
  have st: "wb_start s' = wb_start s" by (simp add: s'_def wb_start_def)
  show "window_inv s'" using assms(1) unfolding window_inv_def st len
    by (simp add: s'_def mapped_at_def mf_inv_def)
  show "wb_file s' = patch (wb_file s) (nat (wb_start s + d)) bs" by (simp add: s'_def wb_file_def)
  show "wb_r s' = wb_r s" "wb_w s' = wb_w s" by (simp_all add: wb_r_def wb_w_def st) (simp_all add: s'_def)
  show "window_left s' = window_left s" by (simp add: window_left_def st len) (simp add: s'_def)
  show "wb_w_window s' = wb_w_window s" by (simp add: s'_def)
  show "wb_r_position s' = wb_r_position s" by (simp add: s'_def wb_r_position_def)
qed

lemma window_w_advance:
  assumes "page_ok page_size" "window_inv s" "int n \<le> wb_w_window s" "int n \<le> window_left s"
  obtains s' where "wb_w_advance chk page_size mmap (int n) s = Inr s'" "window_inv s'" "wb_file s' = wb_file s"
    "wb_r s' = wb_r s" "wb_w s' = wb_w s + n" "wb_w_window s' = wb_w_window s" "window_left s' = window_left s - int n"
proof (cases "wb_w_offset s + int n \<le> wb_capacity s")
  case True
  let ?s = "s\<lparr>wb_w_offset := wb_w_offset s + int n\<rparr>"
  note p = window_posD [OF assms(2)]
  have st: "wb_start ?s = wb_start s" "wb_file ?s = wb_file s" by (simp_all add: wb_start_def wb_file_def)
  show ?thesis
  proof (rule that [of ?s])
    show "wb_w_advance chk page_size mmap (int n) s = Inr ?s"
      using True assms(3) by (simp add: wb_w_advance_def window_left_def Let_def)
    show "window_inv ?s" using assms(2,4) True p(3) unfolding window_inv_def st by (simp add: window_left_def)
    have "wb_start s + (wb_w_offset s + int n) = int (wb_w s + n)" using p(3) by simp
    then show "wb_w ?s = wb_w s + n" by (simp add: wb_w_def [of ?s] st del: of_nat_add)
    show "window_left ?s = window_left s - int n" unfolding window_left_def st by simp
  qed (simp_all add: st wb_r_def)
next
  case False
  note p = window_posD [OF assms(2)]
  let ?f = "wb_out s" and ?n = "wb_size s + int n"
  let ?cap = "max (wb_capacity s) ?n" and ?pos = "mf_offset (wb_out s) + wb_r_offset s + mf_base_position (wb_out s)"
  have m: "mf_inv ?f" and size: "mf_size ?f = wb_start s + wb_capacity s + wb_w_window s"
    using assms(2) by (simp_all add: window_inv_def mapped_at_def)
  have pos: "?pos = wb_start s + wb_r_offset s" by (simp add: wb_start_def)
  have w: "0 < ?cap + wb_w_window s" using assms(2) by (auto simp: window_inv_def)
  from seek_maps [OF assms(1) m, of ?pos "?cap + wb_w_window s" False mmap] p(2) pos w
  obtain f where f: "seek_impl False page_size mmap ?pos (?cap + wb_w_window s) ?f = Inr (mf_base_addr f + mf_offset f, f)"
    "mapped_at ?pos (?cap + wb_w_window s) f" "mf_file f = mf_file ?f" "mf_size f = mf_size ?f" by auto
  let ?out = "f\<lparr>mf_size := max (mf_size f) (?pos + (?cap + wb_w_window s))\<rparr>"
  let ?s = "s\<lparr>wb_w_offset := ?n, wb_out := ?out, wb_out_w := mf_base_addr f + mf_offset f, wb_r_offset := 0, wb_capacity := ?cap\<rparr>"
  have adv: "wb_w_advance chk page_size mmap (int n) s = Inr ?s"
    using False assms(3) f(1) by (simp add: wb_w_advance_def w_remap_advance_def ofile_advance_def Let_def window_left_def)
  have st: "wb_start ?s = ?pos" "wb_file ?s = wb_file s"
    using f(2,3) by (simp_all add: wb_start_def wb_file_def mapped_at_def)
  have out: "mapped_at ?pos (?cap + wb_w_window s) ?out" using f(2) by (simp add: mapped_at_def mf_inv_def)
  have off: "0 \<le> wb_r_offset s" "wb_r_offset s \<le> wb_w_offset s" "0 < wb_w_window s" using assms(2) by (simp_all add: window_inv_def)
  have end_pos: "?pos + ?n = wb_start s + wb_w_offset s + int n" by (simp add: wb_start_def wb_size_def)
  have "mf_size ?out = ?pos + ?cap + wb_w_window s" using f(4) size off by (simp add: pos)
  then have inv: "window_inv ?s" unfolding window_inv_def st(1) st(2)
    using out off assms(4) end_pos by (simp add: wb_size_def window_left_def)
  show ?thesis
  proof (rule that [OF adv inv st(2)])
    show "wb_r ?s = wb_r s" unfolding wb_r_def st(1) by (simp add: pos)
    have "?pos + ?n = int (wb_w s + n)" using end_pos p(3) by simp
    then show "wb_w ?s = wb_w s + n" unfolding wb_w_def [of ?s] st(1) by (simp del: of_nat_add)
    show "window_left ?s = window_left s - int n" unfolding window_left_def st using end_pos by simp
    show "wb_w_window ?s = wb_w_window s" by simp
  qed
qed

lemma window_r_advance:
  assumes "window_inv s" "wb_r s + n \<le> wb_w s"
  obtains s' where "wb_r_advance chk (int n) s = Inr s'" "window_inv s'" "wb_file s' = wb_file s"
    "wb_r s' = wb_r s + n" "wb_w s' = wb_w s" "window_left s' = window_left s" "wb_w_window s' = wb_w_window s"
proof -
  let ?s = "s\<lparr>wb_r_offset := wb_r_offset s + int n\<rparr>"
  note p = window_posD [OF assms(1)]
  have st: "wb_start ?s = wb_start s" "wb_file ?s = wb_file s" by (simp_all add: wb_start_def wb_file_def)
  have n: "wb_r_offset s + int n \<le> wb_w_offset s" using assms(2) p(2,3) by linarith
  show ?thesis
  proof (rule that [of ?s])
    show "wb_r_advance chk (int n) s = Inr ?s" using n by (simp add: wb_r_advance_def wb_size_def)
    show "window_inv ?s" using assms(1) n unfolding window_inv_def st by simp
    have "wb_start s + (wb_r_offset s + int n) = int (wb_r s + n)" using p(2) by simp
    then show "wb_r ?s = wb_r s + n" by (simp add: wb_r_def [of ?s] st del: of_nat_add)
  qed (simp_all add: st wb_w_def window_left_def)
qed

interpretation window: linear_buffer "window_ops chk (2 ^ p) mmap" window_inv wb_w_window window_left wb_file wb_r wb_w
proof (unfold_locales, goal_cases)
  case (1 s)
  then show ?case using window_posD [of s] by (simp add: window_ops_def)
next
  case (2 s)
  have "0 < wb_w_window s" using 2 by (simp add: window_inv_def)
  then show ?case using window_posD(3,5) [OF 2] by (simp add: window_ops_def window_left_def)
next
  case (3 s k)
  note p = window_posD [OF 3(1)]
  have "wb_r_offset s + int k \<le> wb_w_offset s" "0 \<le> wb_r_offset s" "wb_w_offset s \<le> wb_capacity s + wb_w_window s"
    using 3 p(2,3) by (auto simp: window_inv_def)
  then show ?case using window_load [OF 3(1), of "wb_r_offset s" k] p by (simp add: window_ops_def wb_r_position_def)
next
  case (4 s k bs)
  note p = window_posD [OF 4(1)]
  let ?d = "wb_r_offset s + int k"
  have d: "0 \<le> ?d" "?d + int (length bs) \<le> wb_w_offset s" "wb_w_offset s \<le> wb_capacity s + wb_w_window s"
    using 4 p(2,3) by (auto simp: window_inv_def)
  have "wb_start s + ?d = int (wb_r s + k)" using p(2) by simp
  then have "nat (wb_start s + ?d) = wb_r s + k" by (simp del: of_nat_add)
  then show ?case using window_store [OF 4(1) d(1), of bs] d p(3,5) by (simp add: window_ops_def wb_r_position_def add.assoc)
next
  case (5 s bs)
  note p = window_posD [OF 5(1)]
  have d: "0 \<le> wb_w_offset s" "wb_w_offset s + int (length bs) \<le> wb_capacity s + wb_w_window s"
    "wb_start s + wb_w_offset s + int (length bs) \<le> int (length (wb_file s))"
    using 5 by (auto simp: window_inv_def window_left_def)
  then show ?case using window_store [OF 5(1), of "wb_w_offset s" bs] p(3) by (simp add: window_ops_def wb_w_position_def)
next
  case (6 s k)
  then show ?case using window_w_advance [of "2 ^ p" s k chk mmap] by (fastforce simp: window_ops_def page_ok_def)
next
  case (7 s k)
  from window_r_advance [OF this, of chk] show ?case by (fastforce simp: window_ops_def)
qed

section \<open>Construction and closing\<close>

lemma window_new_ok:
  assumes "0 < w_window" "w_window \<le> capacity" "0 < reserve_size"
  obtains s where "window_new (2 ^ p) mmap capacity w_window reserve_size = Inr s" "window_inv s"
    "content (window_ops chk (2 ^ p) mmap) s = []" "wb_w s = 0" "length (wb_file s) = nat reserve_size" "wb_w_window s = w_window"
proof -
  define f where "f = \<lparr>mf_file = replicate (nat reserve_size) 0, mf_open = True, mf_size = 0, mf_base_addr = 0,
    mf_base_position = 0, mf_offset = 0, mf_extent = 0, mf_advice = Forward\<rparr>"
  have new: "ofile_new reserve_size Forward = Inr f" using assms(3) by (simp add: ofile_new_def f_def)
  have i: "mf_inv f" and pg: "page_ok (2 ^ p)" by (auto simp: mf_inv_def f_def page_ok_def)
  from seek_maps [OF pg i, of 0 "capacity + w_window" False mmap] assms
  obtain f' where f': "seek_impl False (2 ^ p) mmap 0 (capacity + w_window) f = Inr (mf_base_addr f' + mf_offset f', f')"
    "mapped_at 0 (capacity + w_window) f'" "mf_file f' = mf_file f" "mf_size f' = mf_size f" by auto
  define out where "out = f'\<lparr>mf_size := max (mf_size f') (0 + (capacity + w_window))\<rparr>"
  define s where "s = \<lparr>wb_w_window = w_window, wb_out_w = mf_base_addr f' + mf_offset f', wb_r_offset = 0, wb_w_offset = 0,
    wb_capacity = capacity, wb_out = out\<rparr>"
  have "window_new (2 ^ p) mmap capacity w_window reserve_size = Inr s"
    using assms f'(1) by (simp add: window_new_def new ofile_seek_def s_def out_def)
  moreover have inv: "window_inv s" using assms f'
    by (simp add: window_inv_def s_def out_def wb_start_def mapped_at_def mf_inv_def f_def wb_file_def)
  moreover have "wb_start s = 0" using f'(2) by (simp add: s_def out_def wb_start_def mapped_at_def)
  then have "wb_r s = 0" "wb_w s = 0" by (simp_all add: wb_r_def wb_w_def) (simp_all add: s_def)
  moreover have "length (wb_file s) = nat reserve_size" by (simp add: s_def out_def wb_file_def f'(3)) (simp add: f_def)
  moreover have "wb_w_window s = w_window" by (simp add: s_def)
  moreover have "content (window_ops chk (2 ^ p) mmap) s = []"
    unfolding window.content_stretch [OF inv] using \<open>wb_w s = 0\<close> by (simp add: stretch_def)
  ultimately show ?thesis by (intro that)
qed

text \<open>Closing leaves in the file exactly the bytes that were consumed.\<close>

lemma window_close:
  assumes "window_inv s"
  shows "\<exists>s'. window_truncate_and_close s = Inr s' \<and> wb_file s' = take (wb_r s) (wb_file s) \<and> \<not> mf_open (wb_out s')"
proof -
  note p = window_posD [OF assms]
  have op: "mf_open (wb_out s)" "mf_size (wb_out s) = wb_start s + wb_capacity s + wb_w_window s"
    "wb_r_offset s \<le> wb_capacity s + wb_w_window s" using assms by (auto simp: window_inv_def mapped_at_def mf_inv_def)
  have e: "mf_size (wb_out s) + wb_r_offset s - wb_capacity s - wb_w_window s = int (wb_r s)" using op(2) p(2) by simp
  have le: "int (wb_r s) \<le> mf_size (wb_out s)" using op(2,3) p(2) by linarith
  show ?thesis using op(1) le p(4,5)
    by (simp add: window_truncate_and_close_def Let_def e truncate_and_close_def ftruncate_def wb_file_def)
qed

end
