(* ===== verification/Stream_Link.thy ===== *)
theory Stream_Link
  imports Byte_Buffer
begin

text \<open>
  The non-blocking links over a pair of byte buffers: \<^verbatim>\<open>vr/io/links/link_base.h\<close> and the TCP
  link of \<^verbatim>\<open>vr/io/links/TCP_link.h\<close> and \<^verbatim>\<open>.cpp\<close>. The kernel socket is a script: what arrives
  between two moments at which a read would block, and how much each send accepts.
\<close>

section \<open>The socket\<close>

text \<open>
  \<open>Arrived bs\<close>: \<open>bs\<close> is what can be read until a read would block. \<open>Accepts n\<close>: the next
  send takes at most \<open>n\<close> bytes. With nothing scripted either call would block.
\<close>

datatype arrival = Arrived "byte list" | Peer_closed | Recv_failed
datatype acceptance = Accepts nat | Send_failed

record tcp_socket =
  so_in :: "arrival list"
  so_accept :: "acceptance list"
  so_out :: "byte list"

text \<open>\<open>tcp_recv_poll\<close>: a positive count, \<open>0\<close> on EAGAIN, \<open>-1\<close> when \<open>recv\<close> returns zero.\<close>

definition tcp_recv_poll :: "int \<Rightarrow> tcp_socket \<Rightarrow> (int \<times> byte list \<times> tcp_socket) result" where
  "tcp_recv_poll len so =
     (case so_in so of
        [] \<Rightarrow> Inr (0, [], so)
      | Arrived bs # rest \<Rightarrow>
          if bs = [] then Inr (0, [], so\<lparr>so_in := rest\<rparr>)
          else
            let got = take (nat len) bs in
            if got = [] then Inr (- 1, [], so)
            else Inr (int (length got), got, so\<lparr>so_in := Arrived (drop (nat len) bs) # rest\<rparr>)
      | Peer_closed # rest \<Rightarrow> Inr (- 1, [], so)
      | Recv_failed # rest \<Rightarrow> Inl Io_exception)"

text \<open>\<open>tcp_send\<close>: how many of \<open>len\<close> bytes are accepted.\<close>

definition tcp_send :: "int \<Rightarrow> acceptance \<Rightarrow> int result" where
  "tcp_send len a = (case a of Accepts n \<Rightarrow> Inr (min (int n) len) | Send_failed \<Rightarrow> Inl Io_exception)"

section \<open>The link\<close>

record ('r, 's) data_link =
  dl_recv :: 'r
  dl_send :: 's
  dl_ts_last_recv :: int
  dl_ts_last_send :: int

text \<open>What can be read before a read would block; every read that delivers shortens it.\<close>

definition ready :: "tcp_socket \<Rightarrow> byte list" where
  "ready so = (case so_in so of Arrived bs # rest \<Rightarrow> bs | _ \<Rightarrow> [])"

lemma tcp_recv_poll_progress:
  "tcp_recv_poll len so = Inr (rc, bs, so') \<Longrightarrow> 0 < rc \<Longrightarrow> length (ready so') < length (ready so)"
  by (auto simp: tcp_recv_poll_def ready_def Let_def split: list.splits arrival.splits if_splits)

text \<open>\<open>TCP_link::recv_poll_impl\<close>: read until a read would block.\<close>

function recv_drain :: "'r buffer_ops \<Rightarrow> int \<Rightarrow> 'r \<Rightarrow> tcp_socket \<Rightarrow> (int \<times> 'r \<times> tcp_socket) result option" where
  "recv_drain B r buf so =
     (case tcp_recv_poll (b_w_window B buf) so of
        Inl e \<Rightarrow> Some (Inl e)
      | Inr (rc, bs, so') \<Rightarrow>
          if rc > 0 then
            (case b_write B (b_w_position B buf) bs buf of
               None \<Rightarrow> None
             | Some buf' \<Rightarrow>
                 (case b_w_advance B rc buf' of
                    Inl e \<Rightarrow> Some (Inl e)
                  | Inr buf'' \<Rightarrow> recv_drain B (r + rc) buf'' so'))
          else if rc < 0 \<and> r = 0 then Some (Inl Eof_exception)
          else Some (Inr (r, buf, so')))"
  by pat_completeness auto

termination
  by (relation "measure (\<lambda>(B, r, buf, so). length (ready so))") (auto dest: tcp_recv_poll_progress)

declare recv_drain.simps [simp del]

text \<open>\<open>link_base::recv_poll\<close>: the address and the number of all bytes since the last flush.\<close>

definition recv_poll ::
  "'r buffer_ops \<Rightarrow> int \<Rightarrow> tcp_socket \<Rightarrow> ('r, 's) data_link \<Rightarrow> ((int \<times> int) \<times> ('r, 's) data_link \<times> tcp_socket) result option" where
  "recv_poll B now so l =
     (if b_w_window B (dl_recv l) > 0 then
        bind_ro (recv_drain B 0 (dl_recv l) so) (\<lambda>(r, buf, so).
          let l = (if r > 0 then l\<lparr>dl_recv := buf, dl_ts_last_recv := now\<rparr> else l\<lparr>dl_recv := buf\<rparr>) in
          Some (Inr ((b_r_position B buf, b_size B buf), l, so)))
      else Some (Inr ((b_r_position B (dl_recv l), b_size B (dl_recv l)), l, so)))"

definition recv_flush :: "'r buffer_ops \<Rightarrow> int \<Rightarrow> ('r, 's) data_link \<Rightarrow> ('r, 's) data_link result" where
  "recv_flush B len l = bind_r (b_r_advance B len (dl_recv l)) (\<lambda>buf. Inr (l\<lparr>dl_recv := buf\<rparr>))"

definition blank_fill :: "nat \<Rightarrow> byte list" where
  "blank_fill len = replicate len 0x20"

definition send_allocate :: "'s buffer_ops \<Rightarrow> int \<Rightarrow> bool \<Rightarrow> ('r, 's) data_link \<Rightarrow> (int \<times> ('r, 's) data_link) result option" where
  "send_allocate B len blank_init l =
     (let sz = b_size B (dl_send l) in
      bind_ro (Some (b_w_advance B len (dl_send l))) (\<lambda>buf.
        let r_addr = b_r_position B buf + sz in
        bind_ro (if blank_init then lift_o (b_write B r_addr (blank_fill (nat len)) buf) else Some (Inr buf)) (\<lambda>buf.
          Some (Inr (r_addr, l\<lparr>dl_send := buf\<rparr>)))))"

text \<open>Storing into memory that \<open>send_allocate\<close> returned.\<close>

definition send_store :: "'s buffer_ops \<Rightarrow> int \<Rightarrow> byte list \<Rightarrow> ('r, 's) data_link \<Rightarrow> ('r, 's) data_link result option" where
  "send_store B addr bs l = bind_ro (lift_o (b_write B addr bs (dl_send l))) (\<lambda>buf. Some (Inr (l\<lparr>dl_send := buf\<rparr>)))"

text \<open>\<open>TCP_link::send_flush_impl\<close>: send until \<open>len\<close> bytes are accepted or a send would block.\<close>

primrec send_drain ::
  "'s buffer_ops \<Rightarrow> int \<Rightarrow> acceptance list \<Rightarrow> int \<Rightarrow> 's \<Rightarrow> byte list \<Rightarrow> (int \<times> 's \<times> acceptance list \<times> byte list) result option" where
  "send_drain B len [] r buf out = Some (Inr (r, buf, [], out))"
| "send_drain B len (a # as) r buf out =
     (if r < len then
        (case tcp_send (len - r) a of
           Inl e \<Rightarrow> Some (Inl e)
         | Inr rc \<Rightarrow>
             if rc > 0 then
               (case b_read B (b_r_position B buf) (nat rc) buf of
                  None \<Rightarrow> None
                | Some bs \<Rightarrow>
                    (case b_r_advance B rc buf of
                       Inl e \<Rightarrow> Some (Inl e)
                     | Inr buf' \<Rightarrow> send_drain B len as (r + rc) buf' (out @ bs)))
             else Some (Inr (r, buf, as, out)))
      else Some (Inr (r, buf, a # as, out)))"

definition send_flush ::
  "'s buffer_ops \<Rightarrow> int \<Rightarrow> int \<Rightarrow> tcp_socket \<Rightarrow> ('r, 's) data_link \<Rightarrow> (int \<times> ('r, 's) data_link \<times> tcp_socket) result option" where
  "send_flush B now len so l =
     bind_ro (send_drain B len (so_accept so) 0 (dl_send l) (so_out so)) (\<lambda>(r, buf, as, out).
       let l = (if r > 0 then l\<lparr>dl_send := buf, dl_ts_last_send := now\<rparr> else l\<lparr>dl_send := buf\<rparr>) in
       Some (Inr (r, l, so\<lparr>so_accept := as, so_out := out\<rparr>)))"

section \<open>What a link does to the streams\<close>

context byte_buffer
begin

lemma fill_room: "inv s \<Longrightarrow> int (length bs) \<le> room s \<Longrightarrow>
    \<exists>s' s''. b_write B (b_w_position B s) bs s = Some s' \<and> b_w_advance B (int (length bs)) s' = Inr s'' \<and> inv s'' \<and>
      content B s'' = content B s @ bs \<and> room s'' \<ge> room s - int (length bs)"
  using fill_law [of s bs] by (fastforce simp: room_def)

lemma reserve_room: "inv s \<Longrightarrow> 0 \<le> n \<Longrightarrow> n \<le> room s \<Longrightarrow>
    \<exists>s' junk. b_w_advance B n s = Inr s' \<and> inv s' \<and> content B s' = content B s @ junk \<and> length junk = nat n \<and>
      room s' \<ge> room s - n"
  using reserve_law [of s n] by (fastforce simp: room_def)

lemma consume_room: "inv s \<Longrightarrow> 0 \<le> n \<Longrightarrow> n \<le> b_size B s \<Longrightarrow>
    \<exists>s'. b_r_advance B n s = Inr s' \<and> inv s' \<and> content B s' = drop (nat n) (content B s) \<and> room s' \<ge> room s"
  using consume_law [of s n] by (fastforce simp: room_def split: if_splits)

text \<open>A poll appends exactly what is ready, if it fits.\<close>

lemma recv_drain_exact:
  assumes "inv buf" "int (length (ready so)) \<le> room buf" "so_in so = Arrived bs # rest"
  shows "\<exists>buf'. recv_drain B r buf so = Some (Inr (r + int (length bs), buf', so\<lparr>so_in := rest\<rparr>)) \<and> inv buf' \<and>
    content B buf' = content B buf @ bs \<and> room buf' \<ge> room buf - int (length bs)"
  using assms
proof (induction "length bs" arbitrary: bs r buf so rule: less_induct)
  case less
  let ?w = "b_w_window B buf"
  show ?case
  proof (cases "bs = []")
    case True
    then have "tcp_recv_poll ?w so = Inr (0, [], so\<lparr>so_in := rest\<rparr>)" using less.prems(3) by (simp add: tcp_recv_poll_def)
    then show ?thesis using True less.prems(1) by (simp add: recv_drain.simps)
  next
    case False
    have rd: "ready so = bs" using less.prems(3) by (simp add: ready_def)
    have "int (length bs) \<le> ?w" using less.prems(2) room_window [OF less.prems(1)] rd by simp
    then have t: "take (nat ?w) bs = bs" "drop (nat ?w) bs = []" by simp_all
    let ?so = "so\<lparr>so_in := Arrived [] # rest\<rparr>"
    have p: "tcp_recv_poll ?w so = Inr (int (length bs), bs, ?so)"
      using False less.prems(3) t by (simp add: tcp_recv_poll_def)
    from fill_room [OF less.prems(1), of bs] less.prems(2) rd obtain b1 b2 where b: "b_write B (b_w_position B buf) bs buf = Some b1"
      "b_w_advance B (int (length bs)) b1 = Inr b2" "inv b2" "content B b2 = content B buf @ bs" "room b2 \<ge> room buf - int (length bs)"
      by auto
    have "recv_drain B r buf so = recv_drain B (r + int (length bs)) b2 ?so"
      using p b False by (subst recv_drain.simps) simp
    moreover have "tcp_recv_poll (b_w_window B b2) ?so = Inr (0, [], so\<lparr>so_in := rest\<rparr>)" by (simp add: tcp_recv_poll_def)
    then have "recv_drain B (r + int (length bs)) b2 ?so = Some (Inr (r + int (length bs), b2, so\<lparr>so_in := rest\<rparr>))"
      using False by (subst recv_drain.simps) simp
    ultimately show ?thesis using b by auto
  qed
qed

lemma recv_drain_idle: "so_in so = [] \<Longrightarrow> recv_drain B r buf so = Some (Inr (r, buf, so))"
  by (subst recv_drain.simps) (simp add: tcp_recv_poll_def)

text \<open>A flush moves a prefix of the unsent bytes to the socket, no more than asked for.\<close>

lemma send_drain_exact:
  assumes "inv buf" "0 \<le> r" "r \<le> len" "len - r \<le> b_size B buf"
  shows "(send_drain B len as r buf out = Some (Inl Io_exception) \<and> Send_failed \<in> set as) \<or>
    (\<exists>n buf' as'. send_drain B len as r buf out = Some (Inr (r + int n, buf', as', out @ take n (content B buf))) \<and>
      r + int n \<le> len \<and> inv buf' \<and> content B buf' = drop n (content B buf) \<and> room buf' \<ge> room buf)"
  using assms
proof (induction as arbitrary: r buf out)
  case (Cons a as)
  show ?case
  proof (cases "r < len \<and> a \<noteq> Send_failed \<and> a \<noteq> Accepts 0")
    case False
    then show ?thesis using Cons.prems
      by (cases a) (auto simp: tcp_send_def intro!: exI [of _ "0::nat"])
  next
    case True
    then obtain k where a: "a = Accepts k" "0 < k" by (cases a) auto
    define n where "n = nat (min (int k) (len - r))"
    have n: "0 < n" "r + int n \<le> len" "min (int k) (len - r) = int n" using True a(2) by (auto simp: n_def)
    have le: "int n \<le> b_size B buf" "n \<le> nat (b_size B buf)" using n(2) Cons.prems(4) by linarith+
    note rd = peek_law [OF Cons.prems(1) le(2)]
    from consume_room [OF Cons.prems(1) _ le(1)] obtain b where b: "b_r_advance B (int n) buf = Inr b" "inv b"
      "content B b = drop n (content B buf)" "room b \<ge> room buf" by auto
    have step: "send_drain B len (a # as) r buf out = send_drain B len as (r + int n) b (out @ take n (content B buf))"
      using True n rd b(1) by (simp add: a(1) tcp_send_def)
    have sz: "len - (r + int n) \<le> b_size B b"
      using Cons.prems(4) le(1) size_eq [OF Cons.prems(1)] size_eq [OF b(2)] b(3) by simp
    have "0 \<le> r + int n" using Cons.prems(2) by simp
    from Cons.IH [OF b(2) this n(2) sz, of "out @ take n (content B buf)"] show ?thesis
    proof (elim disjE exE conjE)
      fix m buf' as'
      assume h: "send_drain B len as (r + int n) b (out @ take n (content B buf)) =
          Some (Inr (r + int n + int m, buf', as', (out @ take n (content B buf)) @ take m (content B b)))"
        "r + int n + int m \<le> len" "inv buf'" "content B buf' = drop m (content B b)" "room buf' \<ge> room b"
      have "take n (content B buf) @ take m (content B b) = take (n + m) (content B buf)" by (simp add: b(3) take_add)
      then show ?thesis using step h b(3,4)
        by (intro disjI2 exI [of _ "n + m"] exI [of _ buf'] exI [of _ as']) (simp add: add.commute add.left_commute)
    qed (use step in simp)
  qed
qed (use assms in \<open>auto intro!: exI [of _ "0::nat"]\<close>)

text \<open>Allocating and storing appends the stored bytes.\<close>

lemma send_allocate_exact:
  assumes "inv (dl_send l)" "int n \<le> room (dl_send l)"
  obtains addr l' junk where "send_allocate B (int n) blank l = Some (Inr (addr, l'))" "inv (dl_send l')"
    "content B (dl_send l') = content B (dl_send l) @ junk" "length junk = n" "blank \<Longrightarrow> junk = blank_fill n"
    "addr = b_r_position B (dl_send l') + b_size B (dl_send l)" "room (dl_send l') \<ge> room (dl_send l) - int n"
    "l' = l\<lparr>dl_send := dl_send l'\<rparr>"
proof -
  from reserve_room [OF assms(1) _ assms(2)] obtain s1 junk where s1: "b_w_advance B (int n) (dl_send l) = Inr s1" "inv s1"
    "content B s1 = content B (dl_send l) @ junk" "length junk = n" "room s1 \<ge> room (dl_send l) - int n" by auto
  have sz: "b_size B (dl_send l) = int (length (content B (dl_send l)))" by (rule size_eq [OF assms(1)])
  show ?thesis
  proof (cases blank)
    case False
    then show ?thesis using s1 by (intro that [of _ "l\<lparr>dl_send := s1\<rparr>" junk]) (simp_all add: send_allocate_def)
  next
    case True
    have "length (content B (dl_send l)) + length (blank_fill n) \<le> length (content B s1)" using s1(3,4) by (simp add: blank_fill_def)
    from store_law [OF s1(2) this] obtain s2 where s2:
      "b_write B (b_r_position B s1 + b_size B (dl_send l)) (blank_fill n) s1 = Some s2" "inv s2"
      "b_r_position B s2 = b_r_position B s1"
      "content B s2 = patch (content B s1) (length (content B (dl_send l))) (blank_fill n)" "room s2 = room s1"
      unfolding sz room_def by fastforce
    have "content B s2 = content B (dl_send l) @ blank_fill n" using s1(3,4) s2(4) by (simp add: patch_def blank_fill_def)
    then show ?thesis using s1 s2 True
      by (intro that [of _ "l\<lparr>dl_send := s2\<rparr>" "blank_fill n"]) (simp_all add: send_allocate_def blank_fill_def)
  qed
qed

lemma send_store_exact:
  assumes "inv (dl_send l)" "k + length bs \<le> length (content B (dl_send l))"
  obtains l' where "send_store B (b_r_position B (dl_send l) + int k) bs l = Some (Inr l')" "inv (dl_send l')"
    "content B (dl_send l') = patch (content B (dl_send l)) k bs" "room (dl_send l') = room (dl_send l)"
    "b_r_position B (dl_send l') = b_r_position B (dl_send l)" "l' = l\<lparr>dl_send := dl_send l'\<rparr>"
proof -
  from store_law [OF assms] obtain s where "b_write B (b_r_position B (dl_send l) + int k) bs (dl_send l) = Some s" "inv s"
    "b_r_position B s = b_r_position B (dl_send l)" "content B s = patch (content B (dl_send l)) k bs" "room s = room (dl_send l)"
    by (auto simp: room_def)
  then show ?thesis by (intro that [of "l\<lparr>dl_send := s\<rparr>"]) (simp_all add: send_store_def)
qed

end

end
