(* ===== verification/Buffer_Props.thy ===== *)
theory Buffer_Props
  imports Ring_Buffer Tape_Buffer Window_Buffer Stream_Link
begin

text \<open>
  What the byte buffers promise their users, over whole programs of appends and reads from
  construction on.
\<close>

section \<open>The ring buffer\<close>

text \<open>
  C26: \<^verbatim>\<open>mapped_ring_buffer\<close>: the constructor refuses capacities whose round-up does not fit the
  32-bit shift (beyond \<open>2 ^ 31\<close> the shift is undefined) and otherwise takes the least power of
  two of whole pages; any number of appends and reads that keep at most the requested capacity
  buffered run without an error, every read is contiguous memory, and what was read followed by
  what is left is what was appended.
\<close>

theorem ring_fifo:
  assumes "0 < page_size" "0 < c" "pages_ceil page_size c \<le> 2 ^ 64"
  shows "if pages_ceil page_size c \<le> 2 ^ 30 then
      \<exists>s k. ring_new page_size base c = Some (Inr s) \<and> ring_capacity s = 2 ^ k \<and> pages_ceil page_size c \<le> 2 ^ k \<and>
        (\<forall>q. pages_ceil page_size c \<le> 2 ^ q \<longrightarrow> k \<le> q) \<and>
        (\<forall>ops. fits True (2 ^ k) ops (2 ^ k) 0 \<longrightarrow>
          (\<exists>out s'. buffer_run (ring_ops chk) ops s = Some (Inr (out, s')) \<and>
            concat out @ content (ring_ops chk) s' = put_bytes ops \<and> map length out = take_counts ops))
    else if pages_ceil page_size c \<le> 2 ^ 31 then ring_new page_size base c = Some (Inl Check_failure)
    else ring_new page_size base c = None"
proof (cases "pages_ceil page_size c \<le> 2 ^ 30")
  case True
  obtain k s where s: "ring_new page_size base c = Some (Inr s)" "ring_inv s" "ring_capacity s = 2 ^ k"
    "pages_ceil page_size c \<le> 2 ^ k" "\<forall>q. pages_ceil page_size c \<le> 2 ^ q \<longrightarrow> k \<le> q"
    "content (ring_ops chk) s = []" "ring_w_window s = 2 ^ k"
    by (rule ring_new_ok [OF assms(1,2) True, of base chk])
  have sz: "b_size (ring_ops chk) s = 0" using ring.size_eq [OF s(2), of chk] s(6) by simp
  have "\<exists>out s'. buffer_run (ring_ops chk) ops s = Some (Inr (out, s')) \<and>
      concat out @ content (ring_ops chk) s' = put_bytes ops \<and> map length out = take_counts ops"
    if "fits True (2 ^ k) ops (2 ^ k) 0" for ops
    using ring.run_fifo [OF s(2), of ops chk] that s(3,6,7) sz by auto
  with s True show ?thesis by auto
next
  case False
  then show ?thesis using ring_new_too_large [OF assms(1,2) _ assms(3), of base] by auto
qed

definition demo_ops :: "buffer_op list" where
  "demo_ops = [Put [1, 2, 3], Take 2, Put [4, 5], Take 3]"

lemma ring_fifo_witness:
  "\<exists>s k. ring_new 4096 0 100 = Some (Inr s) \<and> ring_capacity s = 2 ^ k \<and>
    (\<exists>out s'. buffer_run (ring_ops True) demo_ops s = Some (Inr (out, s')) \<and>
      concat out @ content (ring_ops True) s' = [1, 2, 3, 4, 5] \<and> map length out = [2, 3])"
proof -
  have p: "pages_ceil 4096 100 = 4096" by (simp add: pages_ceil_def)
  from ring_fifo [of 4096 100 0 True] p obtain s k where s: "ring_new 4096 0 100 = Some (Inr s)" "ring_capacity s = 2 ^ k"
    "4096 \<le> (2::int) ^ k" "\<forall>ops. fits True (2 ^ k) ops (2 ^ k) 0 \<longrightarrow>
      (\<exists>out s'. buffer_run (ring_ops True) ops s = Some (Inr (out, s')) \<and>
        concat out @ content (ring_ops True) s' = put_bytes ops \<and> map length out = take_counts ops)" by auto
  have "fits True (2 ^ k) demo_ops (2 ^ k) 0" using s(3) by (simp add: demo_ops_def)
  with s(4) have "\<exists>out s'. buffer_run (ring_ops True) demo_ops s = Some (Inr (out, s')) \<and>
    concat out @ content (ring_ops True) s' = put_bytes demo_ops \<and> map length out = take_counts demo_ops" by blast
  moreover have "put_bytes demo_ops = [1, 2, 3, 4, 5]" "take_counts demo_ops = [2, 3]" by (simp_all add: demo_ops_def)
  ultimately show ?thesis using s(1,2) by simp
qed

section \<open>The window buffer\<close>

text \<open>
  C27: \<^verbatim>\<open>mapped_window_buffer\<close> over \<^verbatim>\<open>mapped_ofile\<close>: wherever the kernel places the mappings and
  however often the window is remapped, appends of at most \<open>w_window\<close> bytes that stay within the
  reserved file, and reads, behave first in, first out; closing leaves in the file exactly the
  bytes that were consumed.
\<close>

theorem window_file_exact:
  assumes "0 < w_window" "w_window \<le> capacity" "0 < reserve_size" "fits False w_window ops reserve_size 0"
  shows "\<exists>s out s' s''. window_new (2 ^ p) mmap capacity w_window reserve_size = Inr s \<and>
    buffer_run (window_ops chk (2 ^ p) mmap) ops s = Some (Inr (out, s')) \<and>
    concat out @ content (window_ops chk (2 ^ p) mmap) s' = put_bytes ops \<and> map length out = take_counts ops \<and>
    window_truncate_and_close s' = Inr s'' \<and> wb_file s'' = concat out"
proof -
  from window_new_ok [OF assms(1-3), of p mmap chk] obtain s where s: "window_new (2 ^ p) mmap capacity w_window reserve_size = Inr s"
    "window_inv s" "wb_w s = 0" "length (wb_file s) = nat reserve_size" "wb_w_window s = w_window" by auto
  have "window_left s = reserve_size" using window_posD(3) [OF s(2)] s(3,4) assms(3) by (simp add: window_left_def)
  with assms(4) s(5) have "fits False (wb_w_window s) ops (window_left s) 0" by simp
  from window.run_consumed [OF s(2,3) this, of chk p mmap] obtain out s' where
    r: "buffer_run (window_ops chk (2 ^ p) mmap) ops s = Some (Inr (out, s'))" "window_inv s'"
      "concat out @ content (window_ops chk (2 ^ p) mmap) s' = put_bytes ops" "map length out = take_counts ops"
      "take (wb_r s') (wb_file s') = concat out" by blast
  from window_close [OF r(2)] obtain s'' where "window_truncate_and_close s' = Inr s''" "wb_file s'' = concat out"
    using r(5) by auto
  with s(1) r show ?thesis by blast
qed

definition demo_mmap :: "int \<Rightarrow> int \<Rightarrow> int" where
  "demo_mmap extent offset = 65536 + offset"

lemma window_file_exact_witness:
  "\<exists>s out s' s''. window_new 4096 demo_mmap 8 4 100000 = Inr s \<and>
    buffer_run (window_ops True 4096 demo_mmap) demo_ops s = Some (Inr (out, s')) \<and> map length out = [2, 3] \<and>
    window_truncate_and_close s' = Inr s'' \<and> wb_file s'' = concat out"
  using window_file_exact [of 4 8 100000 demo_ops 12 demo_mmap True] by (auto simp: demo_ops_def)

section \<open>The tape buffer\<close>

text \<open>
  C28: \<^verbatim>\<open>mapped_tape_buffer\<close>: within the reserved size it is first in, first out, and closing
  leaves the consumed bytes; but the write window it reports counts consumed space as free
  again, so after \<open>n > 0\<close> bytes were consumed a client may commit as many bytes as the window
  says and end up \<open>n\<close> bytes beyond the mapping, where storing faults.
\<close>

theorem tape_fifo_overrun:
  assumes "0 < page_size" "tape_new page_size base reserve_size = Inr s" "fits False (tp_reserve_size s) ops (tp_reserve_size s) 0"
  shows "\<exists>out s'. buffer_run (tape_ops chk) ops s = Some (Inr (out, s')) \<and>
    concat out @ content (tape_ops chk) s' = put_bytes ops \<and> map length out = take_counts ops \<and> tape_close s' = concat out \<and>
    (concat out \<noteq> [] \<longrightarrow>
      (\<exists>s''. tape_w_advance chk (tape_w_window s') s' = Inr s'' \<and>
        tp_w_addr s'' = tp_base s' + tp_reserve_size s' + int (length (concat out))) \<and>
      (\<forall>bs. int (length bs) = tape_w_window s' \<longrightarrow> tape_write (tp_w_addr s') bs s' = None))"
proof -
  note n = tape_new_inv [OF assms(2,1)]
  have w: "tape_w s = 0" "tape_room s = tp_reserve_size s"
    using assms(2) n(3) by (auto simp: tape_new_def select_size_def bind_r_def tape_w_def split: if_splits)
  with assms(3) have "fits False (tp_reserve_size s) ops (tape_room s) 0" by simp
  from tape.run_consumed [OF n(1) w(1) this, of chk] obtain out s' where r: "buffer_run (tape_ops chk) ops s = Some (Inr (out, s'))"
    "tape_inv s'" "concat out @ content (tape_ops chk) s' = put_bytes ops" "map length out = take_counts ops"
    "take (tape_r s') (tp_mem s') = concat out" by blast
  note p = tape_posD [OF r(2)]
  have "tape_r s' \<le> length (tp_mem s')" using p(3,4) by linarith
  then have len: "length (concat out) = tape_r s'" unfolding r(5) [symmetric] by simp
  have close: "tape_close s' = concat out" using r(5) p(1) by (simp add: tape_close_def)
  have win: "tape_w_window s' = tape_room s' + int (length (concat out))"
    unfolding len using p by (simp add: tape_w_window_def tape_capacity_def)
  have "tape_w_advance chk (tape_w_window s') s' = Inr (s'\<lparr>tp_w_addr := tp_w_addr s' + tape_w_window s'\<rparr>)"
    using p(4,5) win by (simp add: tape_w_advance_def) (simp add: tape_w_window_def)
  moreover have "tp_w_addr s' + tape_w_window s' = tp_base s' + tp_reserve_size s' + int (length (concat out))"
    using win by (simp add: tape_room_def)
  moreover have "tape_write (tp_w_addr s') bs s' = None" if "concat out \<noteq> []" "int (length bs) = tape_w_window s'" for bs
  proof -
    define i where "i = nat (tape_room s')"
    have "0 < length (concat out)" using that(1) by simp
    then have i: "int i = tape_room s'" "i < length bs" using p(4,5) win that(2) unfolding i_def by linarith+
    then have "tape_cell s' (tp_w_addr s' + int i) = None" by (simp add: tape_cell_def tape_room_def)
    then show ?thesis using store_bytes_None [of i bs "tape_cell s'"] i(2) by (simp add: tape_write_def)
  qed
  ultimately show ?thesis using r close by (intro exI conjI impI allI) (assumption | simp)+
qed

lemma tape_fifo_overrun_witness:
  "\<exists>s out s' s''. tape_new 4 1000 8 = Inr s \<and> buffer_run (tape_ops True) demo_ops s = Some (Inr (out, s')) \<and>
    tape_close s' = concat out \<and> tape_w_advance True (tape_w_window s') s' = Inr s'' \<and>
    tp_w_addr s'' = tp_base s' + tp_reserve_size s' + 5"
proof -
  obtain s where s: "tape_new 4 1000 8 = Inr s" "tp_reserve_size s = 8" by (simp add: tape_new_def select_size_def)
  have f: "fits False (tp_reserve_size s) demo_ops (tp_reserve_size s) 0" by (simp add: s(2) demo_ops_def)
  have t: "take_counts demo_ops = [2, 3]" by (simp add: demo_ops_def)
  from tape_fifo_overrun [OF _ s(1) f, of True] obtain out s' where r:
    "buffer_run (tape_ops True) demo_ops s = Some (Inr (out, s'))" "map length out = [2, 3]" "tape_close s' = concat out"
    "concat out \<noteq> [] \<longrightarrow> (\<exists>s''. tape_w_advance True (tape_w_window s') s' = Inr s'' \<and>
        tp_w_addr s'' = tp_base s' + tp_reserve_size s' + int (length (concat out)))"
    unfolding t by auto
  have "length (concat out) = 5" using r(2) by (simp add: length_concat)
  moreover from this have "concat out \<noteq> []" by force
  ultimately show ?thesis using s(1) r(1,3,4) by auto
qed

end
