(* ===== verification/Wire.thy ===== *)
theory Wire
  imports Byte_Buffer
begin

text \<open>
  Bytes on the wire: the big-endian integers of \<^verbatim>\<open>vr/util/ops_int.h\<close> (\<^verbatim>\<open>net_int\<close>), the blank
  padded character fields of \<^verbatim>\<open>vr/market/net/defs.h\<close>, and packed structs
  (\<^verbatim>\<open>VR_META_PACKED_STRUCT\<close>) as their list of fields with sizes in bytes.
\<close>

text \<open>The number of partitions of the exchange.\<close>

definition partition_count :: nat where "partition_count = 5"

section \<open>Network integers\<close>

text \<open>An \<open>n\<close>-byte integer in the memory of a little-endian host, and what is read from there.\<close>

primrec le_bytes :: "nat \<Rightarrow> int \<Rightarrow> byte list" where
  "le_bytes 0 v = []"
| "le_bytes (Suc n) v = word_of_int (v mod 256) # le_bytes n (v div 256)"

primrec from_le :: "byte list \<Rightarrow> int" where
  "from_le [] = 0"
| "from_le (b # bs) = uint b + 256 * from_le bs"

definition byteswap :: "nat \<Rightarrow> int \<Rightarrow> int" where
  "byteswap n x = from_le (rev (le_bytes n x))"

definition net_write :: "nat \<Rightarrow> int \<Rightarrow> byte list" where
  "net_write n x = le_bytes n (byteswap n x)"

definition net_read :: "nat \<Rightarrow> byte list \<Rightarrow> int" where
  "net_read n bs = narrow (8 * n) (byteswap n (from_le bs))"

lemma length_le_bytes [simp]: "length (le_bytes n v) = n"
  by (induction n arbitrary: v) simp_all

lemma le_bytes_from_le: "le_bytes (length bs) (from_le bs) = bs"
proof (induction bs)
  case (Cons b bs)
  have "uint b < 256" "0 \<le> uint b" using uint_lt2p [of b] by simp_all
  then have "(uint b + 256 * from_le bs) mod 256 = uint b" "(uint b + 256 * from_le bs) div 256 = from_le bs" by simp_all
  then show ?case using Cons.IH by simp
qed simp

lemma from_le_le_bytes: "from_le (le_bytes n v) = v mod 2 ^ (8 * n)"
proof (induction n arbitrary: v)
  case (Suc n)
  have "from_le (le_bytes (Suc n) v) = v mod 256 + 256 * (v div 256 mod 2 ^ (8 * n))"
    by (simp add: Suc.IH uint_word_of_int)
  also have "\<dots> = v mod (256 * 2 ^ (8 * n))" by (simp add: zmod_zmult2_eq)
  also have "(256::int) * 2 ^ (8 * n) = 2 ^ (8 * Suc n)" by (simp add: power_add)
  finally show ?case .
qed simp

lemma net_write_rev: "net_write n x = rev (le_bytes n x)"
  using le_bytes_from_le [of "rev (le_bytes n x)"] by (simp add: net_write_def byteswap_def)

lemma length_net_write [simp]: "length (net_write n x) = n"
  by (simp add: net_write_rev)

text \<open>What is written is read back, as the signed value of the field's width.\<close>

lemma net_read_write: "net_read n (net_write n x) = narrow (8 * n) x"
proof -
  have "le_bytes n (from_le (net_write n x)) = net_write n x"
    using le_bytes_from_le [of "net_write n x"] by simp
  then have "net_read n (net_write n x) = narrow (8 * n) (x mod 2 ^ (8 * n))"
    by (simp add: net_read_def byteswap_def net_write_rev from_le_le_bytes)
  then show ?thesis using narrow_cong [of "8 * n" "x mod 2 ^ (8 * n)" x] by simp
qed

lemma net_read_bounds: "0 < n \<Longrightarrow> - (2 ^ (8 * n - 1)) \<le> net_read n bs \<and> net_read n bs < 2 ^ (8 * n - 1)"
  unfolding net_read_def by (rule narrow_bounds) simp

section \<open>Characters\<close>

definition byte_of_char :: "char \<Rightarrow> byte" where
  "byte_of_char c = of_char c"

definition BLANK :: byte where "BLANK = byte_of_char CHR '' ''"

section \<open>Packed structs\<close>

text \<open>The offset and the size of a field.\<close>

primrec field_at :: "('f \<times> nat) list \<Rightarrow> 'f \<Rightarrow> (nat \<times> nat) option" where
  "field_at [] f = None"
| "field_at (x # l) f = (if fst x = f then Some (0, snd x) else map_option (\<lambda>(ofs, n). (snd x + ofs, n)) (field_at l f))"

definition struct_size :: "('f \<times> nat) list \<Rightarrow> nat" where
  "struct_size l = sum_list (map snd l)"

definition has_field :: "('f \<times> nat) list \<Rightarrow> 'f \<Rightarrow> bool" where
  "has_field l f \<longleftrightarrow> f \<in> set (map fst l)"

definition get_field :: "('f \<times> nat) list \<Rightarrow> 'f \<Rightarrow> byte list \<Rightarrow> byte list" where
  "get_field l f msg = (case field_at l f of None \<Rightarrow> [] | Some (ofs, n) \<Rightarrow> stretch msg ofs (ofs + n))"

text \<open>Storing bytes into the leading part of a field; a struct without the field stays as it is.\<close>

definition set_field :: "('f \<times> nat) list \<Rightarrow> 'f \<Rightarrow> byte list \<Rightarrow> byte list \<Rightarrow> byte list" where
  "set_field l f bs msg = (case field_at l f of None \<Rightarrow> msg | Some (ofs, n) \<Rightarrow> patch msg ofs bs)"

lemma field_at_None: "field_at l f = None \<longleftrightarrow> \<not> has_field l f"
  by (induction l) (auto simp: has_field_def)

lemma field_at_bound: "field_at l f = Some (ofs, n) \<Longrightarrow> ofs + n \<le> struct_size l"
  by (induction l arbitrary: ofs) (auto simp: struct_size_def split: if_splits)

lemma field_at_disjoint:
  "field_at l f = Some (ofs, n) \<Longrightarrow> field_at l g = Some (ofs', n') \<Longrightarrow> f \<noteq> g \<Longrightarrow> ofs + n \<le> ofs' \<or> ofs' + n' \<le> ofs"
proof (induction l arbitrary: ofs ofs')
  case (Cons x l)
  show ?case
  proof (cases "fst x = f \<or> fst x = g")
    case True
    then show ?thesis using Cons.prems by (auto split: if_splits)
  next
    case False
    then obtain o1 o2 where "field_at l f = Some (o1, n)" "ofs = snd x + o1" "field_at l g = Some (o2, n')" "ofs' = snd x + o2"
      using Cons.prems by auto
    then show ?thesis using Cons.IH [of o1 o2] Cons.prems(3) by auto
  qed
qed simp

lemma length_set_field:
  assumes "length msg = struct_size l" "\<And>ofs n. field_at l f = Some (ofs, n) \<Longrightarrow> length bs \<le> n"
  shows "length (set_field l f bs msg) = struct_size l"
  using assms field_at_bound [of l f] by (fastforce simp: set_field_def split: option.split)

lemma length_get_field:
  "length msg = struct_size l \<Longrightarrow> field_at l f = Some (ofs, n) \<Longrightarrow> length (get_field l f msg) = n"
  using field_at_bound [of l f ofs n] by (simp add: get_field_def length_stretch)

lemma get_set_same:
  assumes "length msg = struct_size l" "field_at l f = Some (ofs, n)" "length bs \<le> n"
  shows "get_field l f (set_field l f bs msg) = bs @ drop (length bs) (get_field l f msg)"
proof -
  have "ofs + n \<le> length msg" using field_at_bound [OF assms(2)] assms(1) by simp
  moreover have "patch (stretch msg ofs (ofs + n)) 0 bs = stretch (patch msg (ofs + 0) bs) ofs (ofs + n)"
    using calculation assms(3) by (intro stretch_patch_inside [symmetric]) simp_all
  ultimately show ?thesis using assms(2) by (simp add: get_field_def set_field_def patch_def)
qed

lemma get_set_other:
  assumes "length msg = struct_size l" "f \<noteq> g" "\<And>ofs n. field_at l f = Some (ofs, n) \<Longrightarrow> length bs \<le> n"
  shows "get_field l g (set_field l f bs msg) = get_field l g msg"
proof (cases "field_at l f")
  case (Some p)
  obtain ofs n where p: "p = (ofs, n)" by (cases p)
  show ?thesis
  proof (cases "field_at l g")
    case (Some q)
    obtain ofs' n' where q: "q = (ofs', n')" by (cases q)
    have f: "field_at l f = Some (ofs, n)" and g: "field_at l g = Some (ofs', n')"
      using \<open>field_at l f = Some p\<close> Some p q by simp_all
    have "ofs + length bs \<le> length msg" "ofs' + n' \<le> ofs \<or> ofs + length bs \<le> ofs'" "ofs' + n' \<le> length msg"
      using field_at_bound [OF f] field_at_bound [OF g] field_at_disjoint [OF f g assms(2)] assms(3) [OF f] assms(1) by auto
    then show ?thesis by (simp add: get_field_def set_field_def f g stretch_patch_outside)
  qed (simp add: get_field_def)
qed (simp add: set_field_def)

lemma set_length:
  "length msg = struct_size l \<Longrightarrow> field_at l f = Some (ofs, n) \<Longrightarrow> length bs \<le> n \<Longrightarrow> length (set_field l f bs msg) = struct_size l"
  by (rule length_set_field) auto

lemma get_other:
  assumes "length msg = struct_size l" "field_at l f = Some (ofs, n)" "length bs \<le> n" "f \<noteq> g"
  shows "get_field l g (set_field l f bs msg) = get_field l g msg"
  by (rule get_set_other [OF assms(1,4)]) (use assms(2,3) in simp)

lemma get_field_blank:
  "field_at l f = Some (ofs, n) \<Longrightarrow> get_field l f (replicate (struct_size l) b) = replicate n b"
  using field_at_bound [of l f ofs n] by (simp add: get_field_def stretch_def)

text \<open>A struct is its fields, one after the other.\<close>

lemma get_field_tail:
  assumes "f \<noteq> fst x" "snd x \<le> length msg"
  shows "get_field (x # l) f msg = get_field l f (drop (snd x) msg)"
proof (cases "field_at l f")
  case (Some p)
  then show ?thesis using assms by (cases p) (simp add: get_field_def stretch_def add.commute)
qed (use assms in \<open>simp add: get_field_def\<close>)

lemma struct_split:
  assumes "distinct (map fst l)" "length msg = struct_size l"
  shows "msg = concat (map (\<lambda>x. get_field l (fst x) msg) l)"
  using assms
proof (induction l arbitrary: msg)
  case (Cons x l)
  have n: "snd x \<le> length msg" "length (drop (snd x) msg) = struct_size l" using Cons.prems(2) by (simp_all add: struct_size_def)
  have "map (\<lambda>y. get_field (x # l) (fst y) msg) l = map (\<lambda>y. get_field l (fst y) (drop (snd x) msg)) l"
    using Cons.prems(1) n(1) by (intro map_cong refl get_field_tail) (auto simp: image_iff)
  moreover have "drop (snd x) msg = concat (map (\<lambda>y. get_field l (fst y) (drop (snd x) msg)) l)"
    using Cons.IH [OF _ n(2)] Cons.prems(1) by simp
  moreover have "get_field (x # l) (fst x) msg = take (snd x) msg" by (simp add: get_field_def stretch_def)
  ultimately show ?case by (metis append_take_drop_id concat.simps(2) list.simps(9))
qed (simp add: struct_size_def)

text \<open>\<open>copy_to_alphanum\<close> asserts that the source fits.\<close>

definition copy_to_alphanum :: "('f \<times> nat) list \<Rightarrow> 'f \<Rightarrow> byte list \<Rightarrow> byte list \<Rightarrow> byte list" where
  "copy_to_alphanum l f src msg = set_field l f src msg"

end
