(* ===== verification/Soup_Framing.thy ===== *)
theory Soup_Framing
  imports Wire
begin

text \<open>
  SoupBinTCP framing, \<^verbatim>\<open>vr/market/net/SoupTCP_.h\<close>: packets of a two-byte length, a type
  character and a payload. \<open>consume\<close> takes the packet at the start of the available bytes; its
  result is the number of bytes taken, or \<open>-1\<close> for an incomplete packet, with the visit it makes.
  A type the switch does not know is \<open>VR_ASSUME_UNREACHABLE\<close>: no behaviour (\<open>None\<close>).
\<close>

section \<open>Packets\<close>

datatype soup_field = H_length | H_type | L_username | L_password | L_session | L_seqnum | A_session | A_seqnum | J_reject_code

definition SoupTCP_packet_hdr :: "(soup_field \<times> nat) list" where
  "SoupTCP_packet_hdr = [(H_length, 2), (H_type, 1)]"

definition SoupTCP_login_request :: "(soup_field \<times> nat) list" where
  "SoupTCP_login_request = [(L_username, 6), (L_password, 10), (L_session, 10), (L_seqnum, 20)]"

definition SoupTCP_login_accepted :: "(soup_field \<times> nat) list" where
  "SoupTCP_login_accepted = [(A_session, 10), (A_seqnum, 20)]"

definition SoupTCP_login_rejected :: "(soup_field \<times> nat) list" where
  "SoupTCP_login_rejected = [(J_reject_code, 10)]"

definition hdr_len :: int where
  "hdr_len = int (struct_size SoupTCP_packet_hdr)"

datatype soup_visit =
    Visit_payload "byte list"
  | Visit_login_request "byte list"
  | Visit_login_accepted "byte list"
  | Visit_login_rejected "byte list"
  | Visit_heartbeat
  | Visit_eos
  | Visit_debug

definition packet_length :: "byte list \<Rightarrow> int" where
  "packet_length data = net_read 2 (get_field SoupTCP_packet_hdr H_length data)"

definition packet_type :: "byte list \<Rightarrow> byte" where
  "packet_type data = hd (get_field SoupTCP_packet_hdr H_type data)"

text \<open>What a visit may look at: the rest of the packet.\<close>

definition packet_body :: "int \<Rightarrow> byte list \<Rightarrow> byte list" where
  "packet_body soup_len data = stretch data (nat hdr_len) (nat soup_len)"

definition consume_recv :: "byte list \<Rightarrow> int \<Rightarrow> (int \<times> soup_visit option) option" where
  "consume_recv data available =
     (let soup_len = hdr_len + packet_length data - 1 in
      if available < soup_len then Some (- 1, None)
      else
        let msg_type = packet_type data; body = packet_body soup_len data in
        if msg_type = byte_of_char CHR ''S'' then Some (soup_len, Some (Visit_payload body))
        else if msg_type = byte_of_char CHR ''A'' then Some (soup_len, Some (Visit_login_accepted body))
        else if msg_type = byte_of_char CHR ''J'' then Some (soup_len, Some (Visit_login_rejected body))
        else if msg_type = byte_of_char CHR ''H'' then Some (soup_len, Some Visit_heartbeat)
        else if msg_type = byte_of_char CHR ''Z'' then Some (soup_len, Some Visit_eos)
        else if msg_type = byte_of_char CHR ''+'' then Some (soup_len, Some Visit_debug)
        else None)"

definition consume_send :: "byte list \<Rightarrow> int \<Rightarrow> (int \<times> soup_visit option) option" where
  "consume_send data available =
     (let soup_len = hdr_len + packet_length data - 1 in
      if available < soup_len then Some (- 1, None)
      else
        let msg_type = packet_type data; body = packet_body soup_len data in
        if msg_type = byte_of_char CHR ''U'' then Some (soup_len, Some (Visit_payload body))
        else if msg_type = byte_of_char CHR ''L'' then Some (soup_len, Some (Visit_login_request body))
        else if msg_type = byte_of_char CHR ''R'' then Some (soup_len, Some Visit_heartbeat)
        else None)"

text \<open>
  The loop of a reader: take packets while there are enough bytes for a header. A packet that
  claims no bytes at all makes it run forever, so it is a partial function (\<open>None\<close> then).
\<close>

partial_function (option) consume_loop ::
  "(byte list \<Rightarrow> int \<Rightarrow> (int \<times> soup_visit option) option) \<Rightarrow> byte list \<Rightarrow> int \<Rightarrow> int \<Rightarrow> soup_visit list \<Rightarrow>
    (int \<times> int \<times> soup_visit list) option" where
  "consume_loop consume data available parsed visits =
     (if available \<ge> hdr_len then
        (case consume (drop (nat parsed) data) available of
           None \<Rightarrow> None
         | Some (rrc, v) \<Rightarrow>
             if rrc < 0 then Some (available, parsed, visits @ (case v of None \<Rightarrow> [] | Some w \<Rightarrow> [w]))
             else consume_loop consume data (available - rrc) (parsed + rrc)
               (visits @ (case v of None \<Rightarrow> [] | Some w \<Rightarrow> [w])))
      else Some (available, parsed, visits))"

text \<open>The character codes.\<close>

lemma soup_types [simp]:
  "byte_of_char CHR ''S'' = 83" "byte_of_char CHR ''A'' = 65" "byte_of_char CHR ''J'' = 74" "byte_of_char CHR ''H'' = 72"
  "byte_of_char CHR ''Z'' = 90" "byte_of_char CHR ''+'' = 43" "byte_of_char CHR ''U'' = 85" "byte_of_char CHR ''L'' = 76"
  "byte_of_char CHR ''R'' = 82"
  by (simp_all add: byte_of_char_def)

text \<open>A packet of length \<open>-2\<close> takes no bytes, and the reader visits it forever.\<close>

lemma consume_loop_hangs:
  assumes "consume (drop (nat parsed) data) available = Some (0, v)" "3 \<le> available"
  shows "consume_loop consume data available parsed vs = None"
proof -
  have "\<not> (consume (drop (nat parsed) data) available = Some (0, v) \<and> 3 \<le> available)"
    if "consume_loop consume data available parsed vs = Some y" for y
    using that
  proof (rule consume_loop.raw_induct [rotated])
    fix loop :: "(byte list \<Rightarrow> int \<Rightarrow> (int \<times> soup_visit option) option) \<Rightarrow> byte list \<Rightarrow> int \<Rightarrow> int \<Rightarrow> soup_visit list \<Rightarrow>
      (int \<times> int \<times> soup_visit list) option" and consume data available parsed vs y
    assume IH: "\<And>consume data available parsed vs y. loop consume data available parsed vs = Some y \<Longrightarrow>
        \<not> (consume (drop (nat parsed) data) available = Some (0, v) \<and> 3 \<le> available)"
      and eq: "(if available \<ge> hdr_len then
        (case consume (drop (nat parsed) data) available of
           None \<Rightarrow> None
         | Some (rrc, v) \<Rightarrow>
             if rrc < 0 then Some (available, parsed, vs @ (case v of None \<Rightarrow> [] | Some w \<Rightarrow> [w]))
             else loop consume data (available - rrc) (parsed + rrc) (vs @ (case v of None \<Rightarrow> [] | Some w \<Rightarrow> [w])))
        else Some (available, parsed, vs)) = Some y"
    show "\<not> (consume (drop (nat parsed) data) available = Some (0, v) \<and> 3 \<le> available)"
    proof
      assume h: "consume (drop (nat parsed) data) available = Some (0, v) \<and> 3 \<le> available"
      with eq have "loop consume data available parsed (vs @ (case v of None \<Rightarrow> [] | Some w \<Rightarrow> [w])) = Some y"
        by (simp add: hdr_len_def SoupTCP_packet_hdr_def struct_size_def)
      with IH h show False by blast
    qed
  qed
  with assms show ?thesis by (cases "consume_loop consume data available parsed vs") auto
qed

section \<open>Frames\<close>

text \<open>A packet as it is on the wire, and the visit it stands for.\<close>

definition frame :: "byte \<Rightarrow> byte list \<Rightarrow> byte list" where
  "frame ty body = net_write 2 (1 + int (length body)) @ ty # body"

definition frame_ok :: "byte list \<Rightarrow> bool" where
  "frame_ok body \<longleftrightarrow> 1 + int (length body) < 2 ^ 15"

lemma hdr_len_3 [simp]: "hdr_len = 3"
  by (simp add: hdr_len_def SoupTCP_packet_hdr_def struct_size_def)

lemma hdr_fields:
  "field_at SoupTCP_packet_hdr H_length = Some (0, 2)" "field_at SoupTCP_packet_hdr H_type = Some (2, 1)"
  by (simp_all add: SoupTCP_packet_hdr_def)

lemma length_frame [simp]: "length (frame ty body) = 3 + length body"
  by (simp add: frame_def)

lemma frame_header:
  assumes "frame_ok body"
  shows "packet_length (frame ty body @ rest) = 1 + int (length body)" "packet_type (frame ty body @ rest) = ty"
    "packet_body (3 + int (length body)) (frame ty body @ rest) = body"
proof -
  have "take 2 (net_write 2 (1 + int (length body)) @ ty # body @ rest) = net_write 2 (1 + int (length body))" by simp
  moreover have "narrow 16 (1 + int (length body)) = 1 + int (length body)"
    using assms by (intro narrow_id) (simp_all add: frame_ok_def)
  ultimately show "packet_length (frame ty body @ rest) = 1 + int (length body)"
    by (simp add: packet_length_def get_field_def hdr_fields stretch_def frame_def net_read_write)
  show "packet_type (frame ty body @ rest) = ty"
    by (simp add: packet_type_def get_field_def hdr_fields stretch_def frame_def)
  show "packet_body (3 + int (length body)) (frame ty body @ rest) = body"
    by (simp add: packet_body_def stretch_def frame_def)
qed

text \<open>The visits of a packet of either direction; \<open>None\<close> for a type the reader does not know.\<close>

definition recv_visit :: "byte \<Rightarrow> byte list \<Rightarrow> soup_visit option" where
  "recv_visit ty body =
     (if ty = byte_of_char CHR ''S'' then Some (Visit_payload body)
      else if ty = byte_of_char CHR ''A'' then Some (Visit_login_accepted body)
      else if ty = byte_of_char CHR ''J'' then Some (Visit_login_rejected body)
      else if ty = byte_of_char CHR ''H'' then Some Visit_heartbeat
      else if ty = byte_of_char CHR ''Z'' then Some Visit_eos
      else if ty = byte_of_char CHR ''+'' then Some Visit_debug
      else None)"

definition send_visit :: "byte \<Rightarrow> byte list \<Rightarrow> soup_visit option" where
  "send_visit ty body =
     (if ty = byte_of_char CHR ''U'' then Some (Visit_payload body)
      else if ty = byte_of_char CHR ''L'' then Some (Visit_login_request body)
      else if ty = byte_of_char CHR ''R'' then Some Visit_heartbeat
      else None)"

lemma consume_recv_frame:
  assumes "frame_ok body" "recv_visit ty body = Some v" "3 + int (length body) \<le> available"
  shows "consume_recv (frame ty body @ rest) available = Some (3 + int (length body), Some v)"
  using assms(2,3) by (simp add: consume_recv_def Let_def frame_header [OF assms(1)] recv_visit_def split: if_splits)

lemma consume_send_frame:
  assumes "frame_ok body" "send_visit ty body = Some v" "3 + int (length body) \<le> available"
  shows "consume_send (frame ty body @ rest) available = Some (3 + int (length body), Some v)"
  using assms(2,3) by (simp add: consume_send_def Let_def frame_header [OF assms(1)] send_visit_def split: if_splits)

text \<open>An incomplete packet is left alone.\<close>

lemma consume_partial:
  assumes "frame_ok body" "data = take k (frame ty body)" "3 \<le> k" "k < 3 + length body"
  shows "consume_recv data (int k) = Some (- 1, None)" "consume_send data (int k) = Some (- 1, None)"
proof -
  have "take 2 data = net_write 2 (1 + int (length body))" using assms(2,3) by (simp add: frame_def)
  moreover have "narrow 16 (1 + int (length body)) = 1 + int (length body)"
    using assms(1) by (intro narrow_id) (simp_all add: frame_ok_def)
  ultimately have "packet_length data = 1 + int (length body)"
    by (simp add: packet_length_def get_field_def hdr_fields stretch_def net_read_write)
  then show "consume_recv data (int k) = Some (- 1, None)" "consume_send data (int k) = Some (- 1, None)"
    using assms(4) by (simp_all add: consume_recv_def consume_send_def)
qed

section \<open>Reading a stream of packets\<close>

text \<open>
  What the loop needs to know of a direction: complete packets with their visit, incomplete
  ones left alone.
\<close>

locale soup_reader =
  fixes consume :: "byte list \<Rightarrow> int \<Rightarrow> (int \<times> soup_visit option) option"
    and visit :: "byte \<Rightarrow> byte list \<Rightarrow> soup_visit option"
  assumes complete: "frame_ok body \<Longrightarrow> visit ty body = Some v \<Longrightarrow> 3 + int (length body) \<le> available \<Longrightarrow>
      consume (frame ty body @ rest) available = Some (3 + int (length body), Some v)"
    and incomplete: "frame_ok body \<Longrightarrow> 3 \<le> k \<Longrightarrow> k < 3 + length body \<Longrightarrow>
      consume (take k (frame ty body)) (int k) = Some (- 1, None)"
begin

text \<open>Packets followed by a strict prefix of another one.\<close>

definition good :: "(byte \<times> byte list) list \<Rightarrow> bool" where
  "good fs \<longleftrightarrow> (\<forall>(ty, body) \<in> set fs. frame_ok body \<and> visit ty body \<noteq> None)"

definition wire :: "(byte \<times> byte list) list \<Rightarrow> byte list" where
  "wire fs = concat (map (\<lambda>(ty, body). frame ty body) fs)"

definition visits :: "(byte \<times> byte list) list \<Rightarrow> soup_visit list" where
  "visits fs = map (\<lambda>(ty, body). the (visit ty body)) fs"

lemma loop_stops:
  assumes "frame_ok body" "k < 3 + length body"
  shows "consume_loop consume (pre @ take k (frame ty body)) (int k) (int (length pre)) vs =
    Some (int k, int (length pre), vs)"
proof (cases "k < 3")
  case True
  then show ?thesis by (subst consume_loop.simps) simp
next
  case False
  then show ?thesis using incomplete [OF assms(1) _ assms(2)] by (subst consume_loop.simps) simp
qed

lemma loop_exact:
  assumes "good fs" "frame_ok body" "k < 3 + length body"
  shows "consume_loop consume (pre @ wire fs @ take k (frame ty body)) (int (length (wire fs) + k)) (int (length pre)) vs =
    Some (int k, int (length pre + length (wire fs)), vs @ visits fs)"
  using assms(1)
proof (induction fs arbitrary: pre vs)
  case Nil
  then show ?case using loop_stops [OF assms(2,3), of pre] by (simp add: wire_def visits_def)
next
  case (Cons f fs)
  obtain ty' body' where f: "f = (ty', body')" by (cases f)
  with Cons.prems obtain v where v: "frame_ok body'" "visit ty' body' = Some v" by (auto simp: good_def)
  let ?rest = "wire fs @ take k (frame ty body)"
  have w: "wire (f # fs) = frame ty' body' @ wire fs" by (simp add: wire_def f)
  have step: "consume (frame ty' body' @ ?rest) (int (length (wire (f # fs)) + k)) = Some (3 + int (length body'), Some v)"
    by (rule complete [OF v]) (simp add: w)
  have "consume_loop consume (pre @ wire (f # fs) @ take k (frame ty body)) (int (length (wire (f # fs)) + k)) (int (length pre)) vs =
      consume_loop consume ((pre @ frame ty' body') @ ?rest) (int (length (wire fs) + k)) (int (length (pre @ frame ty' body'))) (vs @ [v])"
    by (subst consume_loop.simps) (use step in \<open>simp add: w add.assoc\<close>)
  also have "\<dots> = Some (int k, int (length (pre @ frame ty' body') + length (wire fs)), (vs @ [v]) @ visits fs)"
    by (rule Cons.IH) (use Cons.prems in \<open>simp add: good_def\<close>)
  finally show ?case by (simp add: wire_def visits_def f v(2) add.assoc)
qed

end

interpretation soup_recv: soup_reader consume_recv recv_visit
  by unfold_locales (auto intro: consume_recv_frame consume_partial)

interpretation soup_send: soup_reader consume_send send_visit
  by unfold_locales (auto intro: consume_send_frame consume_partial)

end
