(* ===== verification/Ouch_Wire.thy ===== *)
theory Ouch_Wire
  imports Soup_Framing Execution_Manager
begin

text \<open>
  The OUCH messages an agent's requests become, \<^verbatim>\<open>vr/market/sources/asx/ouch/messages.h\<close>, and
  how \<^verbatim>\<open>rt/asx/execution_link.cpp\<close> fills them: templates with the fixed fields, prepared once,
  and the fields of the request written over a copy.
\<close>

section \<open>Layouts\<close>

datatype ouch_field =
    F_type | F_otk | F_new_otk | F_iid | F_side | F_qty | F_price | F_TIF | F_open_close | F_account
  | F_customer_info | F_exchange_info | F_participant | F_crossing_key | F_reg_data | F_order_type
  | F_short_sell_qty | F_MAQ | F_participant_capacity | F_directed_wholesale | F_venue | F_intermediary
  | F_order_origin | F_unused | F_ts | F_oid | F_state | F_reject_code | F_cancel_code | F_match | F_deal_source | F_match_attributes

definition reg_data_overlay :: "(ouch_field \<times> nat) list" where
  "reg_data_overlay = [(F_participant_capacity, 1), (F_directed_wholesale, 1), (F_venue, 4), (F_intermediary, 10),
     (F_order_origin, 20), (F_unused, 8)]"

definition submit_layout :: "(ouch_field \<times> nat) list" where
  "submit_layout = [(F_type, 1), (F_otk, 14), (F_iid, 4), (F_side, 1), (F_qty, 8), (F_price, 4), (F_TIF, 1),
     (F_open_close, 1), (F_account, 10), (F_customer_info, 15), (F_exchange_info, 32), (F_participant, 1),
     (F_crossing_key, 4), (F_reg_data, struct_size reg_data_overlay), (F_order_type, 1), (F_short_sell_qty, 8), (F_MAQ, 8)]"

definition replace_layout :: "(ouch_field \<times> nat) list" where
  "replace_layout = [(F_type, 1), (F_otk, 14), (F_new_otk, 14), (F_qty, 8), (F_price, 4), (F_open_close, 1),
     (F_account, 10), (F_customer_info, 15), (F_exchange_info, 32), (F_reg_data, struct_size reg_data_overlay),
     (F_short_sell_qty, 8), (F_MAQ, 8)]"

definition cancel_layout :: "(ouch_field \<times> nat) list" where
  "cancel_layout = [(F_type, 1), (F_otk, 14)]"

text \<open>\<open>send_message_type\<close>, \<open>ord_side\<close>, \<open>ord_type::LIMIT\<close>.\<close>

definition MSG_SUBMIT :: byte where "MSG_SUBMIT = byte_of_char CHR ''O''"
definition MSG_REPLACE :: byte where "MSG_REPLACE = byte_of_char CHR ''U''"
definition MSG_CANCEL :: byte where "MSG_CANCEL = byte_of_char CHR ''X''"

primrec side_byte :: "ord_side \<Rightarrow> byte" where
  "side_byte Buy = byte_of_char CHR ''B''"
| "side_byte Sell = byte_of_char CHR ''S''"
| "side_byte Short = byte_of_char CHR ''T''"

definition LIMIT :: byte where "LIMIT = byte_of_char CHR ''Y''"

text \<open>An order token is a string of at most eight characters, ended by the first zero byte.\<close>

definition ls_zero_index :: "byte list \<Rightarrow> nat" where
  "ls_zero_index bs = length (takeWhile (\<lambda>b. b \<noteq> 0) bs)"

definition otk_chars :: "order_token \<Rightarrow> byte list" where
  "otk_chars otk = (let data = le_bytes 8 (uint otk) in take (ls_zero_index data) data)"

section \<open>Templates\<close>

record fixed_fields =
  ff_crossing_key :: int
  ff_participant :: byte
  ff_participant_capacity :: byte
  ff_directed_wholesale :: byte

definition default_fixed_fields :: fixed_fields where
  "default_fixed_fields = \<lparr>ff_crossing_key = 2, ff_participant = byte_of_char CHR ''6'',
     ff_participant_capacity = byte_of_char CHR ''P'', ff_directed_wholesale = byte_of_char CHR ''N''\<rparr>"

text \<open>A framed message: the packet header and the payload, one after the other in memory.\<close>

type_synonym framed = "byte list \<times> byte list"

definition frame_bytes :: "framed \<Rightarrow> byte list" where
  "frame_bytes f = fst f @ snd f"

definition init_hdr :: "int \<Rightarrow> byte \<Rightarrow> byte list" where
  "init_hdr len ty =
     (let hdr = replicate (nat hdr_len) BLANK;
          hdr = set_field SoupTCP_packet_hdr H_length (net_write 2 len) hdr
      in set_field SoupTCP_packet_hdr H_type [ty] hdr)"

text \<open>\<open>initialize_\<close>, for either layout; \<open>guarded b f\<close> is \<open>if (has_field<...>)\<close>.\<close>

definition guarded :: "bool \<Rightarrow> (byte list \<Rightarrow> byte list) \<Rightarrow> byte list \<Rightarrow> byte list" where
  "guarded b f msg = (if b then f msg else msg)"

definition initialize_order :: "fixed_fields \<Rightarrow> byte list \<Rightarrow> byte \<Rightarrow> (ouch_field \<times> nat) list \<Rightarrow> framed result" where
  "initialize_order ff account type l =
     (let hdr = init_hdr (1 + int (struct_size l)) (byte_of_char CHR ''U'');
          msg = replicate (struct_size l) BLANK;
          msg = set_field l F_type [type] msg;
          msg = set_field l F_open_close [0] msg
      in if has_field l F_account \<and> account = [] then Inl Check_failure
      else
        let msg = guarded (has_field l F_account) (copy_to_alphanum l F_account account) msg;
            msg = guarded (has_field l F_participant) (set_field l F_participant [ff_participant ff]) msg;
            msg = guarded (has_field l F_crossing_key) (set_field l F_crossing_key (net_write 4 (ff_crossing_key ff))) msg;
            msg = guarded (has_field l F_reg_data) (\<lambda>msg.
              let rd = get_field l F_reg_data msg;
                  rd = set_field reg_data_overlay F_participant_capacity [ff_participant_capacity ff] rd;
                  rd = set_field reg_data_overlay F_directed_wholesale [ff_directed_wholesale ff] rd
              in set_field l F_reg_data rd msg) msg;
            msg = guarded (has_field l F_order_type) (set_field l F_order_type [LIMIT]) msg;
            msg = guarded (has_field l F_MAQ) (set_field l F_MAQ (net_write 8 0)) msg
        in Inr (hdr, msg))"

definition initialize_cancel_order :: framed where
  "initialize_cancel_order =
     (let hdr = init_hdr (1 + int (struct_size cancel_layout)) (byte_of_char CHR ''U'');
          msg = replicate (struct_size cancel_layout) BLANK
      in (hdr, set_field cancel_layout F_type [MSG_CANCEL] msg))"

record templates =
  tpl_submit_order :: framed
  tpl_replace_order :: framed
  tpl_cancel_order :: framed

definition initialize_msg_templates :: "fixed_fields \<Rightarrow> byte list \<Rightarrow> templates result" where
  "initialize_msg_templates ff account =
     bind_r (initialize_order ff account MSG_SUBMIT submit_layout) (\<lambda>submit.
     bind_r (initialize_order ff account MSG_REPLACE replace_layout) (\<lambda>replace.
       Inr \<lparr>tpl_submit_order = submit, tpl_replace_order = replace, tpl_cancel_order = initialize_cancel_order\<rparr>))"

section \<open>Requests\<close>

text \<open>The fields of a request; what a kind of request does not have is never read.\<close>

primrec req_liid :: "xl_request \<Rightarrow> int" where
  "req_liid Start_login = 0"
| "req_liid (Submit_order liid otk s price qty TIF) = liid"
| "req_liid (Replace_order liid otk new_otk price qty) = liid"
| "req_liid (Cancel_order liid otk) = liid"

primrec req_otk :: "xl_request \<Rightarrow> order_token" where
  "req_otk Start_login = 0"
| "req_otk (Submit_order liid otk s price qty TIF) = otk"
| "req_otk (Replace_order liid otk new_otk price qty) = otk"
| "req_otk (Cancel_order liid otk) = otk"

definition req_new_otk :: "xl_request \<Rightarrow> order_token" where
  "req_new_otk req = (case req of Replace_order liid otk new_otk price qty \<Rightarrow> new_otk | _ \<Rightarrow> 0)"

definition req_side :: "xl_request \<Rightarrow> ord_side" where
  "req_side req = (case req of Submit_order liid otk s price qty TIF \<Rightarrow> s | _ \<Rightarrow> Buy)"

definition req_price :: "xl_request \<Rightarrow> int" where
  "req_price req = (case req of Submit_order liid otk s price qty TIF \<Rightarrow> price
     | Replace_order liid otk new_otk price qty \<Rightarrow> price | _ \<Rightarrow> 0)"

definition req_qty :: "xl_request \<Rightarrow> int" where
  "req_qty req = (case req of Submit_order liid otk s price qty TIF \<Rightarrow> qty
     | Replace_order liid otk new_otk price qty \<Rightarrow> qty | _ \<Rightarrow> 0)"

definition req_TIF :: "xl_request \<Rightarrow> nat" where
  "req_TIF req = (case req of Submit_order liid otk s price qty TIF \<Rightarrow> TIF | _ \<Rightarrow> 0)"

text \<open>The message body of \<open>emit_\<close>, over a copy of the template's payload.\<close>

definition emit_fields :: "(ouch_field \<times> nat) list \<Rightarrow> int \<Rightarrow> xl_request \<Rightarrow> byte list \<Rightarrow> byte list" where
  "emit_fields l iid req msg =
     (let msg = guarded (has_field l F_otk) (copy_to_alphanum l F_otk (otk_chars (req_otk req))) msg;
          msg = guarded (has_field l F_new_otk) (copy_to_alphanum l F_new_otk (otk_chars (req_new_otk req))) msg;
          msg = guarded (has_field l F_iid) (set_field l F_iid (net_write 4 iid)) msg;
          msg = guarded (has_field l F_side) (set_field l F_side [side_byte (req_side req)]) msg;
          msg = guarded (has_field l F_qty) (set_field l F_qty (net_write 8 (req_qty req))) msg;
          msg = guarded (has_field l F_price) (set_field l F_price (net_write 4 (book_to_wire (req_price req)))) msg;
          msg = guarded (has_field l F_short_sell_qty) (set_field l F_short_sell_qty (net_write 8 0)) msg
      in guarded (has_field l F_TIF) (set_field l F_TIF [of_nat (req_TIF req)]) msg)"

definition emit_cancel_fields :: "xl_request \<Rightarrow> byte list \<Rightarrow> byte list" where
  "emit_cancel_fields req msg = copy_to_alphanum cancel_layout F_otk (otk_chars (req_otk req)) msg"

section \<open>What a message says\<close>

text \<open>A character field shorter than its size is padded with blanks.\<close>

definition padded :: "nat \<Rightarrow> byte list \<Rightarrow> byte list" where
  "padded n cs = cs @ replicate (n - length cs) BLANK"

lemma length_otk_chars: "length (otk_chars otk) \<le> 8"
  by (simp add: otk_chars_def ls_zero_index_def Let_def)

lemma layout_sizes:
  "struct_size reg_data_overlay = 44" "struct_size submit_layout = 157" "struct_size replace_layout = 159"
  "struct_size cancel_layout = 15"
  by (simp_all add: struct_size_def reg_data_overlay_def submit_layout_def replace_layout_def cancel_layout_def)

lemma layouts_distinct:
  "distinct (map fst submit_layout)" "distinct (map fst replace_layout)" "distinct (map fst cancel_layout)"
  "distinct (map fst reg_data_overlay)"
  by (simp_all add: submit_layout_def replace_layout_def cancel_layout_def reg_data_overlay_def)

lemma submit_fields:
  "field_at submit_layout F_type = Some (0, 1)" "field_at submit_layout F_otk = Some (1, 14)" "field_at submit_layout F_iid = Some (15, 4)"
  "field_at submit_layout F_side = Some (19, 1)" "field_at submit_layout F_qty = Some (20, 8)" "field_at submit_layout F_price = Some (28, 4)"
  "field_at submit_layout F_TIF = Some (32, 1)" "field_at submit_layout F_open_close = Some (33, 1)" "field_at submit_layout F_account = Some (34, 10)"
  "field_at submit_layout F_customer_info = Some (44, 15)" "field_at submit_layout F_exchange_info = Some (59, 32)"
  "field_at submit_layout F_participant = Some (91, 1)" "field_at submit_layout F_crossing_key = Some (92, 4)"
  "field_at submit_layout F_reg_data = Some (96, 44)" "field_at submit_layout F_order_type = Some (140, 1)"
  "field_at submit_layout F_short_sell_qty = Some (141, 8)" "field_at submit_layout F_MAQ = Some (149, 8)"
  by (simp_all add: submit_layout_def struct_size_def reg_data_overlay_def)

lemma replace_fields:
  "field_at replace_layout F_type = Some (0, 1)" "field_at replace_layout F_otk = Some (1, 14)" "field_at replace_layout F_new_otk = Some (15, 14)"
  "field_at replace_layout F_qty = Some (29, 8)" "field_at replace_layout F_price = Some (37, 4)" "field_at replace_layout F_open_close = Some (41, 1)"
  "field_at replace_layout F_account = Some (42, 10)" "field_at replace_layout F_customer_info = Some (52, 15)"
  "field_at replace_layout F_exchange_info = Some (67, 32)" "field_at replace_layout F_reg_data = Some (99, 44)"
  "field_at replace_layout F_short_sell_qty = Some (143, 8)" "field_at replace_layout F_MAQ = Some (151, 8)"
  by (simp_all add: replace_layout_def struct_size_def reg_data_overlay_def)

lemma cancel_fields: "field_at cancel_layout F_type = Some (0, 1)" "field_at cancel_layout F_otk = Some (1, 14)"
  by (simp_all add: cancel_layout_def)

lemma reg_data_fields:
  "field_at reg_data_overlay F_participant_capacity = Some (0, 1)" "field_at reg_data_overlay F_directed_wholesale = Some (1, 1)"
  "field_at reg_data_overlay F_venue = Some (2, 4)" "field_at reg_data_overlay F_intermediary = Some (6, 10)"
  "field_at reg_data_overlay F_order_origin = Some (16, 20)" "field_at reg_data_overlay F_unused = Some (36, 8)"
  by (simp_all add: reg_data_overlay_def)

lemma guarded_simps: "guarded True f = f" "guarded False f = (\<lambda>x. x)"
  by (simp_all add: guarded_def fun_eq_iff)

lemma has_fields:
  "has_field submit_layout f \<longleftrightarrow> f \<notin> {F_new_otk, F_participant_capacity, F_directed_wholesale, F_venue, F_intermediary, F_order_origin, F_unused,
    F_ts, F_oid, F_state, F_reject_code, F_cancel_code, F_match, F_deal_source, F_match_attributes}"
  "has_field replace_layout f \<longleftrightarrow> f \<in> {F_type, F_otk, F_new_otk, F_qty, F_price, F_open_close, F_account, F_customer_info, F_exchange_info,
    F_reg_data, F_short_sell_qty, F_MAQ}"
  by (cases f; simp add: has_field_def submit_layout_def replace_layout_def)+

lemmas struct_simps = copy_to_alphanum_def guarded_simps has_fields set_length get_other get_set_same length_get_field
  submit_fields replace_fields cancel_fields reg_data_fields

text \<open>The bytes of the messages, field by field.\<close>

definition reg_data_bytes :: "fixed_fields \<Rightarrow> byte list" where
  "reg_data_bytes ff = [ff_participant_capacity ff, ff_directed_wholesale ff] @ replicate 42 BLANK"

definition submit_bytes :: "fixed_fields \<Rightarrow> byte list \<Rightarrow> int \<Rightarrow> order_token \<Rightarrow> ord_side \<Rightarrow> int \<Rightarrow> int \<Rightarrow> nat \<Rightarrow> byte list" where
  "submit_bytes ff account iid otk s price qty TIF =
     [MSG_SUBMIT] @ padded 14 (otk_chars otk) @ net_write 4 iid @ [side_byte s] @ net_write 8 qty @
     net_write 4 (book_to_wire price) @ [of_nat TIF] @ [0] @ padded 10 account @ replicate 15 BLANK @ replicate 32 BLANK @
     [ff_participant ff] @ net_write 4 (ff_crossing_key ff) @ reg_data_bytes ff @ [LIMIT] @ net_write 8 0 @ net_write 8 0"

definition replace_bytes :: "fixed_fields \<Rightarrow> byte list \<Rightarrow> order_token \<Rightarrow> order_token \<Rightarrow> int \<Rightarrow> int \<Rightarrow> byte list" where
  "replace_bytes ff account otk new_otk price qty =
     [MSG_REPLACE] @ padded 14 (otk_chars otk) @ padded 14 (otk_chars new_otk) @ net_write 8 qty @
     net_write 4 (book_to_wire price) @ [0] @ padded 10 account @ replicate 15 BLANK @ replicate 32 BLANK @
     reg_data_bytes ff @ net_write 8 0 @ net_write 8 0"

definition cancel_bytes :: "order_token \<Rightarrow> byte list" where
  "cancel_bytes otk = [MSG_CANCEL] @ padded 14 (otk_chars otk)"

lemma reg_data_filled:
  "set_field reg_data_overlay F_directed_wholesale [b] (set_field reg_data_overlay F_participant_capacity [a] (replicate 44 BLANK)) =
    [a, b] @ replicate 42 BLANK"
  by (simp add: set_field_def reg_data_fields patch_def eval_nat_numeral)

lemma init_hdr_frame: "init_hdr len ty = net_write 2 len @ [ty]"
  by (simp add: init_hdr_def set_field_def hdr_fields patch_def Let_def)

lemma initialize_submit:
  assumes "length account \<le> 10" "account \<noteq> []"
  obtains f where "initialize_order ff account MSG_SUBMIT submit_layout = Inr f" "fst f = net_write 2 158 @ [85]"
    "length (snd f) = struct_size submit_layout" "get_field submit_layout F_type (snd f) = [MSG_SUBMIT]"
    "get_field submit_layout F_otk (snd f) = replicate 14 BLANK"
    "get_field submit_layout F_open_close (snd f) = [0]"
    "get_field submit_layout F_account (snd f) = padded 10 account" "get_field submit_layout F_customer_info (snd f) = replicate 15 BLANK"
    "get_field submit_layout F_exchange_info (snd f) = replicate 32 BLANK" "get_field submit_layout F_participant (snd f) = [ff_participant ff]"
    "get_field submit_layout F_crossing_key (snd f) = net_write 4 (ff_crossing_key ff)" "get_field submit_layout F_reg_data (snd f) = reg_data_bytes ff"
    "get_field submit_layout F_order_type (snd f) = [LIMIT]" "get_field submit_layout F_MAQ (snd f) = net_write 8 0"
proof -
  obtain f where f: "initialize_order ff account MSG_SUBMIT submit_layout = Inr f"
    using assms(2) by (simp add: initialize_order_def Let_def)
  note s = f [symmetric, unfolded initialize_order_def Let_def]
  have h: "fst f = net_write 2 158 @ [85]" using s assms(2) by (simp add: struct_simps init_hdr_frame layout_sizes)
  show ?thesis
    by (rule that [OF f h]) (use s assms in \<open>simp_all add: struct_simps get_field_blank reg_data_filled reg_data_bytes_def padded_def\<close>)
qed

lemma initialize_replace:
  assumes "length account \<le> 10" "account \<noteq> []"
  obtains f where "initialize_order ff account MSG_REPLACE replace_layout = Inr f" "fst f = net_write 2 160 @ [85]"
    "length (snd f) = struct_size replace_layout" "get_field replace_layout F_type (snd f) = [MSG_REPLACE]"
    "get_field replace_layout F_otk (snd f) = replicate 14 BLANK" "get_field replace_layout F_new_otk (snd f) = replicate 14 BLANK"
    "get_field replace_layout F_open_close (snd f) = [0]"
    "get_field replace_layout F_account (snd f) = padded 10 account" "get_field replace_layout F_customer_info (snd f) = replicate 15 BLANK"
    "get_field replace_layout F_exchange_info (snd f) = replicate 32 BLANK"
    "get_field replace_layout F_reg_data (snd f) = reg_data_bytes ff" "get_field replace_layout F_MAQ (snd f) = net_write 8 0"
proof -
  obtain f where f: "initialize_order ff account MSG_REPLACE replace_layout = Inr f"
    using assms(2) by (simp add: initialize_order_def Let_def)
  note s = f [symmetric, unfolded initialize_order_def Let_def]
  have h: "fst f = net_write 2 160 @ [85]" using s assms(2) by (simp add: struct_simps init_hdr_frame layout_sizes)
  show ?thesis
    by (rule that [OF f h]) (use s assms in \<open>simp_all add: struct_simps get_field_blank reg_data_filled reg_data_bytes_def padded_def\<close>)
qed

lemma padded_otk: "otk_chars otk @ drop (length (otk_chars otk)) (replicate 14 BLANK) = padded 14 (otk_chars otk)"
  by (simp add: padded_def)

lemma otk_fits: "length (otk_chars otk) \<le> 14"
  using length_otk_chars [of otk] by simp

text \<open>The templates are prepared; what is emitted over them is, byte by byte, the message.\<close>

definition templates_ok :: "fixed_fields \<Rightarrow> byte list \<Rightarrow> templates \<Rightarrow> bool" where
  "templates_ok ff account T \<longleftrightarrow>
     fst (tpl_submit_order T) = net_write 2 158 @ [85] \<and> fst (tpl_replace_order T) = net_write 2 160 @ [85] \<and>
     fst (tpl_cancel_order T) = net_write 2 16 @ [85] \<and>
     (\<forall>iid liid otk s price qty TIF. emit_fields submit_layout iid (Submit_order liid otk s price qty TIF) (snd (tpl_submit_order T)) =
       submit_bytes ff account iid otk s price qty TIF) \<and>
     (\<forall>iid liid otk new_otk price qty. emit_fields replace_layout iid (Replace_order liid otk new_otk price qty) (snd (tpl_replace_order T)) =
       replace_bytes ff account otk new_otk price qty) \<and>
     (\<forall>liid otk. emit_cancel_fields (Cancel_order liid otk) (snd (tpl_cancel_order T)) = cancel_bytes otk)"

lemma submit_emitted:
  assumes "length msg = struct_size submit_layout" "get_field submit_layout F_type msg = [MSG_SUBMIT]"
    "get_field submit_layout F_otk msg = replicate 14 BLANK" "get_field submit_layout F_open_close msg = [0]"
    "get_field submit_layout F_account msg = padded 10 account" "get_field submit_layout F_customer_info msg = replicate 15 BLANK"
    "get_field submit_layout F_exchange_info msg = replicate 32 BLANK" "get_field submit_layout F_participant msg = [ff_participant ff]"
    "get_field submit_layout F_crossing_key msg = net_write 4 (ff_crossing_key ff)" "get_field submit_layout F_reg_data msg = reg_data_bytes ff"
    "get_field submit_layout F_order_type msg = [LIMIT]" "get_field submit_layout F_MAQ msg = net_write 8 0"
  shows "emit_fields submit_layout iid (Submit_order liid otk s price qty TIF) msg = submit_bytes ff account iid otk s price qty TIF"
proof -
  define m where "m = emit_fields submit_layout iid (Submit_order liid otk s price qty TIF) msg"
  note d = m_def [unfolded emit_fields_def Let_def]
  have len: "length m = struct_size submit_layout"
    unfolding d using assms(1) otk_fits [of otk] by (simp add: struct_simps)
  have f: "get_field submit_layout F_type m = [MSG_SUBMIT]" "get_field submit_layout F_otk m = padded 14 (otk_chars otk)"
    "get_field submit_layout F_iid m = net_write 4 iid" "get_field submit_layout F_side m = [side_byte s]"
    "get_field submit_layout F_qty m = net_write 8 qty" "get_field submit_layout F_price m = net_write 4 (book_to_wire price)"
    "get_field submit_layout F_TIF m = [of_nat TIF]" "get_field submit_layout F_open_close m = [0]"
    "get_field submit_layout F_account m = padded 10 account" "get_field submit_layout F_customer_info m = replicate 15 BLANK"
    "get_field submit_layout F_exchange_info m = replicate 32 BLANK" "get_field submit_layout F_participant m = [ff_participant ff]"
    "get_field submit_layout F_crossing_key m = net_write 4 (ff_crossing_key ff)" "get_field submit_layout F_reg_data m = reg_data_bytes ff"
    "get_field submit_layout F_order_type m = [LIMIT]" "get_field submit_layout F_short_sell_qty m = net_write 8 0"
    "get_field submit_layout F_MAQ m = net_write 8 0"
    unfolding d using assms otk_fits [of otk]
    by (simp_all add: struct_simps padded_def req_side_def req_price_def req_qty_def req_TIF_def)
  have "m = concat (map (\<lambda>x. get_field submit_layout (fst x) m) submit_layout)"
    by (rule struct_split [OF layouts_distinct(1) len])
  also have "map (\<lambda>x. get_field submit_layout (fst x) m) submit_layout = map (\<lambda>f. get_field submit_layout f m) (map fst submit_layout)"
    by simp
  also have "map fst submit_layout = [F_type, F_otk, F_iid, F_side, F_qty, F_price, F_TIF, F_open_close, F_account, F_customer_info,
      F_exchange_info, F_participant, F_crossing_key, F_reg_data, F_order_type, F_short_sell_qty, F_MAQ]"
    by (simp add: submit_layout_def)
  finally show ?thesis unfolding m_def [symmetric] by (simp only: list.map concat.simps f submit_bytes_def append_Nil2)
qed

lemma replace_emitted:
  assumes "length msg = struct_size replace_layout" "get_field replace_layout F_type msg = [MSG_REPLACE]"
    "get_field replace_layout F_otk msg = replicate 14 BLANK" "get_field replace_layout F_new_otk msg = replicate 14 BLANK"
    "get_field replace_layout F_open_close msg = [0]"
    "get_field replace_layout F_account msg = padded 10 account" "get_field replace_layout F_customer_info msg = replicate 15 BLANK"
    "get_field replace_layout F_exchange_info msg = replicate 32 BLANK"
    "get_field replace_layout F_reg_data msg = reg_data_bytes ff" "get_field replace_layout F_MAQ msg = net_write 8 0"
  shows "emit_fields replace_layout iid (Replace_order liid otk new_otk price qty) msg = replace_bytes ff account otk new_otk price qty"
proof -
  define m where "m = emit_fields replace_layout iid (Replace_order liid otk new_otk price qty) msg"
  note d = m_def [unfolded emit_fields_def Let_def]
  have len: "length m = struct_size replace_layout"
    unfolding d using assms(1) otk_fits [of otk] otk_fits [of new_otk] by (simp add: struct_simps req_new_otk_def)
  have f: "get_field replace_layout F_type m = [MSG_REPLACE]" "get_field replace_layout F_otk m = padded 14 (otk_chars otk)"
    "get_field replace_layout F_new_otk m = padded 14 (otk_chars new_otk)"
    "get_field replace_layout F_qty m = net_write 8 qty" "get_field replace_layout F_price m = net_write 4 (book_to_wire price)"
    "get_field replace_layout F_open_close m = [0]"
    "get_field replace_layout F_account m = padded 10 account" "get_field replace_layout F_customer_info m = replicate 15 BLANK"
    "get_field replace_layout F_exchange_info m = replicate 32 BLANK" "get_field replace_layout F_reg_data m = reg_data_bytes ff"
    "get_field replace_layout F_short_sell_qty m = net_write 8 0" "get_field replace_layout F_MAQ m = net_write 8 0"
    unfolding d using assms otk_fits [of otk] otk_fits [of new_otk]
    by (simp_all add: struct_simps padded_def req_new_otk_def req_price_def req_qty_def)
  have "m = concat (map (\<lambda>x. get_field replace_layout (fst x) m) replace_layout)"
    by (rule struct_split [OF layouts_distinct(2) len])
  also have "map (\<lambda>x. get_field replace_layout (fst x) m) replace_layout = map (\<lambda>f. get_field replace_layout f m) (map fst replace_layout)"
    by simp
  also have "map fst replace_layout = [F_type, F_otk, F_new_otk, F_qty, F_price, F_open_close, F_account, F_customer_info,
      F_exchange_info, F_reg_data, F_short_sell_qty, F_MAQ]"
    by (simp add: replace_layout_def)
  finally show ?thesis unfolding m_def [symmetric] by (simp only: list.map concat.simps f replace_bytes_def append_Nil2)
qed

lemma cancel_emitted: "emit_cancel_fields (Cancel_order liid otk) (snd initialize_cancel_order) = cancel_bytes otk"
proof -
  define m where "m = emit_cancel_fields (Cancel_order liid otk) (snd initialize_cancel_order)"
  note d = m_def [unfolded emit_cancel_fields_def initialize_cancel_order_def Let_def, simplified]
  have len: "length m = struct_size cancel_layout"
    unfolding d using otk_fits [of otk] by (simp add: struct_simps)
  have f: "get_field cancel_layout F_type m = [MSG_CANCEL]" "get_field cancel_layout F_otk m = padded 14 (otk_chars otk)"
    unfolding d using otk_fits [of otk] by (simp_all add: struct_simps padded_def get_field_blank)
  have "m = concat (map (\<lambda>x. get_field cancel_layout (fst x) m) cancel_layout)"
    by (rule struct_split [OF layouts_distinct(3) len])
  also have "map (\<lambda>x. get_field cancel_layout (fst x) m) cancel_layout = map (\<lambda>f. get_field cancel_layout f m) (map fst cancel_layout)"
    by simp
  also have "map fst cancel_layout = [F_type, F_otk]" by (simp add: cancel_layout_def)
  finally show ?thesis unfolding m_def [symmetric] by (simp only: list.map concat.simps f cancel_bytes_def append_Nil2)
qed

lemma templates_initialized:
  assumes "length account \<le> 10" "account \<noteq> []"
  obtains T where "initialize_msg_templates ff account = Inr T" "templates_ok ff account T"
proof -
  obtain f where f: "initialize_order ff account MSG_SUBMIT submit_layout = Inr f" "fst f = net_write 2 158 @ [85]"
    and fe: "\<And>iid liid otk s price qty TIF. emit_fields submit_layout iid (Submit_order liid otk s price qty TIF) (snd f) =
       submit_bytes ff account iid otk s price qty TIF"
    by (rule initialize_submit [OF assms, of ff]) (blast intro: submit_emitted)
  obtain g where g: "initialize_order ff account MSG_REPLACE replace_layout = Inr g" "fst g = net_write 2 160 @ [85]"
    and ge: "\<And>iid liid otk new_otk price qty. emit_fields replace_layout iid (Replace_order liid otk new_otk price qty) (snd g) =
       replace_bytes ff account otk new_otk price qty"
    by (rule initialize_replace [OF assms, of ff]) (blast intro: replace_emitted)
  have c: "fst initialize_cancel_order = net_write 2 16 @ [85]"
    by (simp add: initialize_cancel_order_def Let_def init_hdr_frame layout_sizes)
  show ?thesis
    by (rule that [of "\<lparr>tpl_submit_order = f, tpl_replace_order = g, tpl_cancel_order = initialize_cancel_order\<rparr>"])
      (simp_all add: initialize_msg_templates_def f g templates_ok_def fe ge c cancel_emitted)
qed

section \<open>Frames of requests\<close>

text \<open>
  What \<open>emit_\<close> and \<open>emit_cancel_order\<close> leave in the send buffer: the template's header and the
  payload with the request's fields.
\<close>

definition request_template :: "templates \<Rightarrow> xl_request \<Rightarrow> framed" where
  "request_template T req =
     (case req of Submit_order liid otk s price qty TIF \<Rightarrow> tpl_submit_order T
      | Replace_order liid otk new_otk price qty \<Rightarrow> tpl_replace_order T
      | _ \<Rightarrow> tpl_cancel_order T)"

definition request_payload :: "int \<Rightarrow> xl_request \<Rightarrow> byte list \<Rightarrow> byte list" where
  "request_payload iid req msg =
     (case req of Submit_order liid otk s price qty TIF \<Rightarrow> emit_fields submit_layout iid req msg
      | Replace_order liid otk new_otk price qty \<Rightarrow> emit_fields replace_layout iid req msg
      | _ \<Rightarrow> emit_cancel_fields req msg)"

definition request_frame :: "templates \<Rightarrow> int \<Rightarrow> xl_request \<Rightarrow> byte list" where
  "request_frame T iid req =
     (let tpl = request_template T req in frame_bytes (fst tpl, request_payload iid req (snd tpl)))"

text \<open>The message a request stands for.\<close>

primrec request_bytes :: "fixed_fields \<Rightarrow> byte list \<Rightarrow> int \<Rightarrow> xl_request \<Rightarrow> byte list" where
  "request_bytes ff account iid Start_login = []"
| "request_bytes ff account iid (Submit_order liid otk s price qty TIF) = submit_bytes ff account iid otk s price qty TIF"
| "request_bytes ff account iid (Replace_order liid otk new_otk price qty) = replace_bytes ff account otk new_otk price qty"
| "request_bytes ff account iid (Cancel_order liid otk) = cancel_bytes otk"

lemma length_reg_data_bytes: "length (reg_data_bytes ff) = 44"
  by (simp add: reg_data_bytes_def)

lemma length_padded: "length cs \<le> n \<Longrightarrow> length (padded n cs) = n"
  by (simp add: padded_def)

lemma length_request_bytes:
  assumes "length account \<le> 10" "req \<noteq> Start_login"
  shows "length (request_bytes ff account iid req) =
    (case req of Submit_order liid otk s price qty TIF \<Rightarrow> 157 | Replace_order liid otk new_otk price qty \<Rightarrow> 159 | _ \<Rightarrow> 15)"
  using assms otk_fits
  by (cases req) (simp_all add: submit_bytes_def replace_bytes_def cancel_bytes_def length_padded length_reg_data_bytes)

lemma request_frame_exact:
  assumes "templates_ok ff account T" "length account \<le> 10" "req \<noteq> Start_login"
  shows "request_frame T iid req = frame 85 (request_bytes ff account iid req)" "frame_ok (request_bytes ff account iid req)"
proof -
  note len = length_request_bytes [OF assms(2,3), of ff iid]
  show "frame_ok (request_bytes ff account iid req)"
    using len assms(3) by (cases req) (simp_all add: frame_ok_def)
  show "request_frame T iid req = frame 85 (request_bytes ff account iid req)"
    using assms(1,3) len unfolding templates_ok_def request_frame_def request_template_def request_payload_def Let_def frame_def frame_bytes_def
    by (cases req) simp_all
qed

section \<open>Reading a request\<close>

text \<open>The fields of a message as its reader sees them; the instrument takes the place of the local id.\<close>

definition read_token :: "byte list \<Rightarrow> order_token" where
  "read_token f = word_of_int (from_le (takeWhile (\<lambda>b. b \<noteq> BLANK) f))"

definition read_side :: "byte list \<Rightarrow> ord_side" where
  "read_side f = (if f = [side_byte Buy] then Buy else if f = [side_byte Sell] then Sell else Short)"

definition read_price :: "byte list \<Rightarrow> int" where
  "read_price f = wire_to_book (net_read 4 f)"

definition read_request :: "byte list \<Rightarrow> xl_request option" where
  "read_request body =
     (if get_field submit_layout F_type body = [MSG_SUBMIT] then
        let g = (\<lambda>f. get_field submit_layout f body) in
        Some (Submit_order (net_read 4 (g F_iid)) (read_token (g F_otk)) (read_side (g F_side)) (read_price (g F_price))
          (net_read 8 (g F_qty)) (unat (hd (g F_TIF))))
      else if get_field replace_layout F_type body = [MSG_REPLACE] then
        let g = (\<lambda>f. get_field replace_layout f body) in
        Some (Replace_order 0 (read_token (g F_otk)) (read_token (g F_new_otk)) (read_price (g F_price)) (net_read 8 (g F_qty)))
      else if get_field cancel_layout F_type body = [MSG_CANCEL] then
        Some (Cancel_order 0 (read_token (get_field cancel_layout F_otk body)))
      else None)"

text \<open>What survives the trip: tokens of non-blank characters, whole wire prices, numbers within their fields.\<close>

definition clean_token :: "order_token \<Rightarrow> bool" where
  "clean_token otk \<longleftrightarrow> from_le (otk_chars otk) = uint otk \<and> BLANK \<notin> set (otk_chars otk)"

definition wire_price :: "int \<Rightarrow> bool" where
  "wire_price price \<longleftrightarrow> (\<exists>v. int32 v \<and> v \<noteq> - (2 ^ 31) \<and> price = wire_to_book v)"

primrec wire_ok :: "int \<Rightarrow> xl_request \<Rightarrow> bool" where
  "wire_ok iid Start_login \<longleftrightarrow> False"
| "wire_ok iid (Submit_order liid otk s price qty TIF) \<longleftrightarrow>
     int32 iid \<and> clean_token otk \<and> wire_price price \<and> - (2 ^ 63) \<le> qty \<and> qty < 2 ^ 63 \<and> TIF < 256"
| "wire_ok iid (Replace_order liid otk new_otk price qty) \<longleftrightarrow>
     clean_token otk \<and> clean_token new_otk \<and> wire_price price \<and> - (2 ^ 63) \<le> qty \<and> qty < 2 ^ 63"
| "wire_ok iid (Cancel_order liid otk) \<longleftrightarrow> clean_token otk"

primrec wire_form :: "int \<Rightarrow> xl_request \<Rightarrow> xl_request" where
  "wire_form iid Start_login = Start_login"
| "wire_form iid (Submit_order liid otk s price qty TIF) = Submit_order iid otk s price qty TIF"
| "wire_form iid (Replace_order liid otk new_otk price qty) = Replace_order 0 otk new_otk price qty"
| "wire_form iid (Cancel_order liid otk) = Cancel_order 0 otk"

lemma read_token_padded: "clean_token otk \<Longrightarrow> read_token (padded 14 (otk_chars otk)) = otk"
proof -
  assume c: "clean_token otk"
  then have "takeWhile (\<lambda>b. b \<noteq> BLANK) (otk_chars otk @ replicate (14 - length (otk_chars otk)) BLANK) = otk_chars otk"
    by (subst takeWhile_append2) (auto simp: clean_token_def)
  with c show ?thesis by (simp add: read_token_def padded_def clean_token_def)
qed

lemma read_side_byte: "read_side [side_byte s] = s"
  by (cases s) (simp_all add: read_side_def byte_of_char_def)

lemma read_price_write: "wire_price price \<Longrightarrow> read_price (net_write 4 (book_to_wire price)) = price"
proof -
  assume "wire_price price"
  then obtain v where v: "int32 v" "v \<noteq> - (2 ^ 31)" "price = wire_to_book v" by (auto simp: wire_price_def)
  have "narrow 32 v = v" by (rule narrow_id) (use v(1) in \<open>auto simp: int32_def\<close>)
  then show ?thesis by (simp add: read_price_def net_read_write v(3) book_to_wire_book [OF v(1,2)])
qed

lemma read_qty_write: "- (2 ^ 63) \<le> qty \<Longrightarrow> qty < 2 ^ 63 \<Longrightarrow> net_read 8 (net_write 8 qty) = qty"
  using narrow_id [of 64 qty] by (simp add: net_read_write)

text \<open>Fields at their offsets.\<close>

lemma get_field_append:
  assumes "field_at l f = Some (ofs, n)" "length pre = ofs" "length bs = n"
  shows "get_field l f (pre @ bs @ post) = bs"
  using assms by (simp add: get_field_def stretch_def)

end
