(* ===== verification/Ouch_Props.thy ===== *)
theory Ouch_Props
  imports Ouch_Wire
begin

text \<open>
  What is on the wire is what was asked for: requests read back from their frames, and a stream
  of packets read packet by packet.
\<close>

section \<open>Reading back\<close>

lemma message_types: "MSG_SUBMIT = 79" "MSG_REPLACE = 85" "MSG_CANCEL = 88"
  by (simp_all add: MSG_SUBMIT_def MSG_REPLACE_def MSG_CANCEL_def byte_of_char_def)

lemma length_padded_otk [simp]: "length (padded 14 (otk_chars otk)) = 14"
  by (rule length_padded [OF otk_fits])

lemma submit_read:
  assumes "body = submit_bytes ff account iid otk s price qty TIF"
  shows "get_field submit_layout F_type body = [MSG_SUBMIT]" "get_field submit_layout F_otk body = padded 14 (otk_chars otk)"
    "get_field submit_layout F_iid body = net_write 4 iid" "get_field submit_layout F_side body = [side_byte s]"
    "get_field submit_layout F_qty body = net_write 8 qty" "get_field submit_layout F_price body = net_write 4 (book_to_wire price)"
    "get_field submit_layout F_TIF body = [of_nat TIF]"
  unfolding assms get_field_def submit_fields submit_bytes_def by (simp_all add: stretch_def)

lemma replace_read:
  assumes "body = replace_bytes ff account otk new_otk price qty"
  shows "get_field replace_layout F_type body = [MSG_REPLACE]" "get_field replace_layout F_otk body = padded 14 (otk_chars otk)"
    "get_field replace_layout F_new_otk body = padded 14 (otk_chars new_otk)"
    "get_field replace_layout F_qty body = net_write 8 qty" "get_field replace_layout F_price body = net_write 4 (book_to_wire price)"
    "get_field submit_layout F_type body = [MSG_REPLACE]"
  unfolding assms get_field_def replace_fields submit_fields replace_bytes_def by (simp_all add: stretch_def)

lemma cancel_read:
  assumes "body = cancel_bytes otk"
  shows "get_field cancel_layout F_type body = [MSG_CANCEL]" "get_field cancel_layout F_otk body = padded 14 (otk_chars otk)"
    "get_field submit_layout F_type body = [MSG_CANCEL]" "get_field replace_layout F_type body = [MSG_CANCEL]"
  unfolding assms get_field_def replace_fields submit_fields cancel_fields cancel_bytes_def by (simp_all add: stretch_def)

lemma read_request_bytes:
  assumes "wire_ok iid req"
  shows "read_request (request_bytes ff account iid req) = Some (wire_form iid req)"
proof (cases req)
  case (Submit_order liid otk s price qty TIF)
  have "narrow 32 iid = iid" by (rule narrow_id) (use assms Submit_order in \<open>auto simp: int32_def\<close>)
  then have "net_read 4 (net_write 4 iid) = iid" by (simp add: net_read_write)
  with assms show ?thesis
    by (simp add: Submit_order read_request_def Let_def submit_read [OF refl] read_token_padded read_side_byte read_price_write
        read_qty_write unat_of_nat)
next
  case (Replace_order liid otk new_otk price qty)
  with assms show ?thesis
    by (simp add: read_request_def Let_def replace_read [OF refl] message_types read_token_padded read_price_write read_qty_write)
next
  case (Cancel_order liid otk)
  with assms show ?thesis
    by (simp add: read_request_def Let_def cancel_read [OF refl] message_types read_token_padded)
qed (use assms in simp)

text \<open>Tokens of the generator are clean.\<close>

lemma le_bytes_map: "le_bytes n v = map (\<lambda>i. word_of_int (v div 256 ^ i mod 256)) [0..<n]"
proof (induction n arbitrary: v)
  case (Suc n)
  have "le_bytes (Suc n) v = word_of_int (v mod 256) # map (\<lambda>i. word_of_int (v div 256 div 256 ^ i mod 256)) [0..<n]"
    by (simp add: Suc.IH)
  also have "\<dots> = map (\<lambda>i. word_of_int (v div 256 ^ i mod 256)) (0 # map Suc [0..<n])"
    by (simp add: zdiv_zmult2_eq)
  also have "0 # map Suc [0..<n] = [0..<Suc n]" by (simp only: map_Suc_upt upt_conv_Cons [OF zero_less_Suc])
  finally show ?case .
qed simp

lemma token_chars:
  assumes "i < 8"
  shows "\<exists>d<16. uint (convert_fw v) div 256 ^ i mod 256 = uint (hex_digit d)"
proof -
  have dix: "7 - i < 8" "56 - (7 - i) * 8 = 8 * i" using assms by simp_all
  have "take_bit 64 (uint (convert_fw v)) = uint (convert_fw v)"
    by (rule take_bit_int_eq_self) (use uint_lt2p [of "convert_fw v"] in simp_all)
  then have "uint (take_bit 8 (drop_bit (8 * i) (convert_fw v))) = take_bit 8 (drop_bit (8 * i) (uint (convert_fw v)))"
    by (simp add: unsigned_take_bit_eq unsigned_drop_bit_eq)
  also have "\<dots> = uint (convert_fw v) div 256 ^ i mod 256"
    by (simp add: take_bit_eq_mod drop_bit_eq_div power_mult)
  finally have "uint (take_bit 8 (drop_bit (8 * i) (convert_fw v))) = uint (convert_fw v) div 256 ^ i mod 256" .
  moreover have "take_bit 8 (drop_bit (8 * i) (convert_fw v)) = hex_digit (nibble v (7 - i))"
    using token_byte [OF dix(1), of v] by (simp only: dix(2))
  ultimately show ?thesis using nibble_lt [of "(7 - i) * 4" v] by (auto simp: nibble_def)
qed

lemma clean_convert_fw: "clean_token (convert_fw v)"
proof -
  let ?d = "le_bytes 8 (uint (convert_fw v))"
  have b: "b \<noteq> 0 \<and> b \<noteq> BLANK" if "b \<in> set ?d" for b
  proof -
    from that obtain i where i: "i < 8" "b = word_of_int (uint (convert_fw v) div 256 ^ i mod 256)"
      unfolding le_bytes_map by auto
    from token_chars [OF i(1), of v] obtain d where d: "d < 16" "b = word_of_int (uint (hex_digit d))"
      using i(2) by auto
    have "b = ucast (hex_digit d)" using d(2) by (simp add: unsigned_of_int)
    have "uint (hex_digit d) = (if d < 10 then int d + 48 else int d + 55)" using unat_hex_digit [OF d(1)] by (simp add: uint_nat)
    then have "uint b = (if d < 10 then int d + 48 else int d + 55)" using d by (simp add: uint_word_of_int)
    then show ?thesis using d(1) by (auto simp: BLANK_def byte_of_char_def split: if_splits)
  qed
  then have "takeWhile (\<lambda>b. b \<noteq> 0) ?d = ?d" by (simp add: takeWhile_eq_all_conv)
  then have "otk_chars (convert_fw v) = take (length ?d) ?d" by (simp only: otk_chars_def ls_zero_index_def Let_def)
  then have c: "otk_chars (convert_fw v) = ?d" by simp
  have "uint (convert_fw v) mod 2 ^ 64 = uint (convert_fw v)" using uint_lt2p [of "convert_fw v"] by simp
  then show ?thesis using b by (auto simp: clean_token_def c from_le_le_bytes)
qed

lemma clean_generated: "clean_token (make_with_prefix v prefix)"
  by (simp only: make_with_prefix_def clean_convert_fw)

section \<open>Properties\<close>

text \<open>
  C29: a request leaves the link as one packet from which the exchange reads back exactly the
  request: tokens, side, price, quantity and time in force, with the instrument for the local
  id, when prices are whole wire prices and numbers fit their fields. The
  tokens of the generator always survive.
\<close>

theorem request_wire_roundtrip:
  assumes "initialize_msg_templates ff account = Inr T" "length account \<le> 10" "wire_ok iid req"
  shows "(\<exists>body. consume_send (request_frame T iid req @ rest) (int (length (request_frame T iid req @ rest))) =
      Some (int (length (request_frame T iid req)), Some (Visit_payload body)) \<and>
      read_request body = Some (wire_form iid req)) \<and> clean_token (make_with_prefix v prefix)"
proof (intro conjI exI)
  have ne: "account \<noteq> []" using assms(1) by (auto simp: initialize_msg_templates_def initialize_order_def has_fields Let_def)
  from templates_initialized [OF assms(2) ne, of ff] assms(1) have T: "templates_ok ff account T" by auto
  have req: "req \<noteq> Start_login" using assms(3) by auto
  note f = request_frame_exact [OF T assms(2) req, of iid]
  show "consume_send (request_frame T iid req @ rest) (int (length (request_frame T iid req @ rest))) =
      Some (int (length (request_frame T iid req)), Some (Visit_payload (request_bytes ff account iid req)))"
    unfolding f(1) using consume_send_frame [OF f(2), of 85 "Visit_payload (request_bytes ff account iid req)"]
    by (simp add: send_visit_def)
  show "read_request (request_bytes ff account iid req) = Some (wire_form iid req)"
    by (rule read_request_bytes [OF assms(3)])
qed (rule clean_generated)

definition demo_account :: "byte list" where
  "demo_account = [49, 50, 51]"

definition demo_templates :: templates where
  "demo_templates = (case initialize_msg_templates default_fixed_fields demo_account of Inr T \<Rightarrow> T)"

lemma demo_templates_ok: "initialize_msg_templates default_fixed_fields demo_account = Inr demo_templates"
  by (rule templates_initialized [of demo_account default_fixed_fields]) (simp_all add: demo_account_def demo_templates_def)

definition demo_request :: xl_request where
  "demo_request = Submit_order 3 (make_with_prefix 0x1234 0xA) Sell 12345000 500 DAY"

lemma demo_wire_price: "wire_price 12345000"
  unfolding wire_price_def by (rule exI [of _ 12345]) (simp add: wire_to_book_simps int32_def)

lemma demo_wire_ok: "wire_ok 70000 demo_request"
  by (simp add: demo_request_def clean_generated demo_wire_price int32_def DAY_def)

lemma request_wire_roundtrip_witness:
  "\<exists>body. consume_send (request_frame demo_templates 70000 demo_request @ [0, 16]) (int (length (request_frame demo_templates 70000 demo_request @ [0, 16]))) =
      Some (int (length (request_frame demo_templates 70000 demo_request)), Some (Visit_payload body)) \<and>
    read_request body = Some (Submit_order 70000 (make_with_prefix 0x1234 0xA) Sell 12345000 500 DAY)"
  using request_wire_roundtrip [OF demo_templates_ok _ demo_wire_ok, of "[0, 16]"] by (simp add: demo_request_def demo_account_def)

text \<open>
  C30: the loop that takes packets off the received bytes takes exactly the complete packets, in
  order, leaves an incomplete one for later, and the same on the other side of the connection;
  but a packet that claims a length of minus two is taken forever.
\<close>

theorem soup_stream_exact:
  assumes "frame_ok body" "k < 3 + length body"
  shows "(soup_recv.good fs \<longrightarrow>
      consume_loop consume_recv (soup_recv.wire fs @ take k (frame ty body)) (int (length (soup_recv.wire fs) + k)) 0 [] =
        Some (int k, int (length (soup_recv.wire fs)), soup_recv.visits fs)) \<and>
    (soup_send.good fs \<longrightarrow>
      consume_loop consume_send (soup_send.wire fs @ take k (frame ty body)) (int (length (soup_send.wire fs) + k)) 0 [] =
        Some (int k, int (length (soup_send.wire fs)), soup_send.visits fs)) \<and>
    consume_loop consume_recv (net_write 2 (- 2) @ [72] @ rest) (int (3 + length rest)) 0 [] = None"
proof (intro conjI impI)
  show "soup_recv.good fs \<Longrightarrow>
      consume_loop consume_recv (soup_recv.wire fs @ take k (frame ty body)) (int (length (soup_recv.wire fs) + k)) 0 [] =
        Some (int k, int (length (soup_recv.wire fs)), soup_recv.visits fs)"
    using soup_recv.loop_exact [OF _ assms, of fs "[]" ty "[]"] by simp
  show "soup_send.good fs \<Longrightarrow>
      consume_loop consume_send (soup_send.wire fs @ take k (frame ty body)) (int (length (soup_send.wire fs) + k)) 0 [] =
        Some (int k, int (length (soup_send.wire fs)), soup_send.visits fs)"
    using soup_send.loop_exact [OF _ assms, of fs "[]" ty "[]"] by simp
  have "net_read 2 (net_write 2 (- 2)) = - 2" by (simp add: net_read_write narrow_def)
  moreover have "take 2 (net_write 2 (- 2) @ 72 # rest) = net_write 2 (- 2)" by simp
  ultimately have "packet_length (net_write 2 (- 2) @ 72 # rest) = - 2"
    by (simp only: packet_length_def get_field_def hdr_fields option.case prod.case stretch_def drop_0 add_0 diff_zero)
  moreover have "packet_type (net_write 2 (- 2) @ 72 # rest) = 72"
    by (simp add: packet_type_def get_field_def hdr_fields stretch_def)
  ultimately have "consume_recv (net_write 2 (- 2) @ 72 # rest) (int (3 + length rest)) = Some (0, Some Visit_heartbeat)"
    by (simp add: consume_recv_def Let_def)
  then show "consume_loop consume_recv (net_write 2 (- 2) @ [72] @ rest) (int (3 + length rest)) 0 [] = None"
    by (intro consume_loop_hangs [where v = "Some Visit_heartbeat"]) simp_all
qed

lemma soup_stream_exact_witness:
  "consume_loop consume_recv (frame 72 [] @ frame 83 [1, 2] @ take 4 (frame 83 [7, 7, 7])) 12 0 [] =
    Some (4, 8, [Visit_heartbeat, Visit_payload [1, 2]])"
  using soup_stream_exact [of "[7, 7, 7]" 4 "[(72, []), (83, [1, 2])]" 83]
  by (simp add: frame_ok_def soup_recv.good_def soup_recv.wire_def soup_recv.visits_def recv_visit_def)

end
