(* ===== verification/Pix_Mask.thy ===== *)
theory Pix_Mask
  imports Ops_Int
begin

text \<open>
  The loops over the partitions of a bit mask, as \<^verbatim>\<open>rt/asx/execution_link.cpp\<close> and
  \<^verbatim>\<open>rt/agents/asx/execution_manager.h\<close> write them: take the lowest set bit, compute its index,
  clear it.
\<close>

unbundle bit_operations_syntax

section \<open>The lowest set bit\<close>

definition pix_bit :: "32 word \<Rightarrow> 32 word" where
  "pix_bit m = m AND - m"

lemma lowest_bit:
  assumes "(m :: 32 word) \<noteq> 0"
  obtains k where "k < 32" "bit m k" "\<And>j. j < k \<Longrightarrow> \<not> bit m j"
proof -
  from assms obtain n where "bit m n" using bit_eqI [of m 0] by auto
  define k where "k = (LEAST n. bit m n)"
  have "bit m k" unfolding k_def by (rule LeastI) (fact \<open>bit m n\<close>)
  moreover have "\<not> bit m j" if "j < k" for j using that not_less_Least unfolding k_def by blast
  moreover have "k < 32" using bit_imp_le_length [OF \<open>bit m k\<close>] by simp
  ultimately show ?thesis using that by blast
qed

lemma pix_bit_eq:
  assumes "bit m k" "\<And>j. j < k \<Longrightarrow> \<not> bit m j"
  shows "pix_bit m = 2 ^ k"
proof -
  have k: "k < 32" using bit_imp_le_length [OF assms(1)] by simp
  define r where "r = m XOR 2 ^ k"
  have r: "bit r j \<longleftrightarrow> bit m j \<and> k < j" for j
    using assms k by (cases "j = k"; cases "j < k") (auto simp: r_def bit_simps)
  have "m = r OR 2 ^ k" using assms(1) k by (intro bit_word_eqI) (auto simp: r_def bit_simps)
  also have "\<dots> = r + 2 ^ k"
    by (rule disjunctive_add_eq_or [symmetric]) (intro bit_word_eqI, auto simp: bit_simps r)
  finally have "m - 1 = r + mask k" by (simp add: mask_eq_exp_minus_1)
  also have "\<dots> = r OR mask k"
    by (rule disjunctive_add_eq_or) (intro bit_word_eqI, auto simp: bit_simps r)
  finally have "- m = NOT (r OR mask k)" by (simp add: minus_eq_not_minus_1)
  then show ?thesis unfolding pix_bit_def using assms k
    by (intro bit_word_eqI) (auto simp: bit_simps r)
qed

section \<open>The loop\<close>

lemma clear_lowest: "m \<noteq> 0 \<Longrightarrow> unat (m XOR pix_bit m) < unat m"
proof -
  assume "m \<noteq> 0"
  then obtain k where k: "k < 32" "bit m k" "\<And>j. j < k \<Longrightarrow> \<not> bit m j" by (rule lowest_bit) blast
  then have b: "pix_bit m = 2 ^ k" by (intro pix_bit_eq) auto
  have "m = (m XOR 2 ^ k) OR 2 ^ k" using k by (intro bit_word_eqI) (auto simp: bit_simps)
  also have "\<dots> = (m XOR 2 ^ k) + 2 ^ k"
    using k by (intro disjunctive_add_eq_or [symmetric] bit_word_eqI) (auto simp: bit_simps)
  finally have "m XOR 2 ^ k = m - 2 ^ k" by (metis add_diff_cancel_right')
  moreover have "m AND 2 ^ k = 2 ^ k" using k by (intro bit_word_eqI) (auto simp: bit_simps)
  then have "2 ^ k \<le> m" using word_and_le1 [of "2 ^ k" m] word_and_le2 [of m "2 ^ k"] by simp
  ultimately have "unat (m XOR 2 ^ k) = unat m - unat (2 ^ k :: 32 word)" "unat (2 ^ k :: 32 word) \<le> unat m"
    by (simp_all add: unat_sub word_le_nat_alt)
  moreover have "0 < unat (2 ^ k :: 32 word)" using k(1) by (simp add: unat_gt_0)
  ultimately show ?thesis unfolding b by linarith
qed

function mask_pixes :: "32 word \<Rightarrow> nat list" where
  "mask_pixes m = (if m = 0 then [] else (31 - lzcnt 32 (unat (pix_bit m))) # mask_pixes (m XOR pix_bit m))"
  by pat_completeness auto

termination
  by (relation "measure unat") (simp_all add: clear_lowest)

declare mask_pixes.simps [simp del]

text \<open>The loop visits the set bits, each once, in increasing order.\<close>

lemma mask_pixes_filter: "mask_pixes m = filter (bit m) [0..<32]"
proof (induction m rule: mask_pixes.induct)
  case (1 m)
  show ?case
  proof (cases "m = 0")
    case True
    then show ?thesis by (simp add: mask_pixes.simps)
  next
    case False
    then obtain k where k: "k < 32" "bit m k" "\<And>j. j < k \<Longrightarrow> \<not> bit m j" by (rule lowest_bit) blast
    then have b: "pix_bit m = 2 ^ k" by (intro pix_bit_eq) auto
    have u: "unat (2 ^ k :: 32 word) = 2 ^ k" 
    proof -
      have "(2::nat) ^ k < 2 ^ 32" using k(1) by (intro power_strict_increasing) simp_all
      then have "unat (word_of_nat (2 ^ k) :: 32 word) = 2 ^ k" by (simp only: unat_of_nat) simp
      then show ?thesis by simp
    qed
    have "lzcnt 32 (unat (pix_bit m)) = 32 - Suc k" unfolding b u by (rule lzcnt_eq) (use k(1) in simp_all)
    then have "31 - lzcnt 32 (unat (pix_bit m)) = k" using k(1) by simp
    then have "mask_pixes m = k # filter (bit (m XOR 2 ^ k)) [0..<32]"
      using 1 [OF False] False by (simp add: mask_pixes.simps [of m] b)
    moreover have s: "[0..<32] = [0..<k] @ k # [Suc k..<32]"
      using k(1) upt_add_eq_append [of 0 k "32 - k"] upt_conv_Cons [of k 32] by simp
    moreover have "filter (bit m) [Suc k..<32] = filter (bit (m XOR 2 ^ k)) [Suc k..<32]"
      using k(1) by (intro filter_cong) (auto simp: bit_simps)
    moreover have "filter (bit m) [0..<k] = []" "filter (bit (m XOR 2 ^ k)) [0..<k] = []"
      using k by (auto simp: filter_empty_conv bit_simps)
    moreover have "\<not> bit (m XOR 2 ^ k) k" using k by (simp add: bit_simps)
    ultimately show ?thesis using k(2) by simp
  qed
qed

lemma mask_pixes_set: "pix \<in> set (mask_pixes m) \<longleftrightarrow> bit m pix"
  using bit_imp_le_length [of m pix] by (auto simp: mask_pixes_filter)

lemma mask_pixes_distinct: "distinct (mask_pixes m)"
  by (simp add: mask_pixes_filter)

text \<open>Doing something for every partition of a mask, in order.\<close>

primrec each_pix :: "(nat \<Rightarrow> 's \<Rightarrow> 's result option) \<Rightarrow> nat list \<Rightarrow> 's \<Rightarrow> 's result option" where
  "each_pix f [] s = Some (Inr s)"
| "each_pix f (pix # pixes) s = bind_ro (f pix s) (each_pix f pixes)"

lemma each_pix_keeps:
  assumes "\<And>pix s s'. f pix s = Some (Inr s') \<Longrightarrow> P s' = P s" "each_pix f pixes s = Some (Inr s')"
  shows "P s' = P s"
  using assms(2)
proof (induction pixes arbitrary: s)
  case (Cons pix pixes)
  from Cons.prems obtain t where "f pix s = Some (Inr t)" "each_pix f pixes t = Some (Inr s')"
    by (auto simp: bind_ro_def split: option.splits sum.splits)
  then show ?case using Cons.IH assms(1) by metis
qed simp

end
