(* ===== verification/Rcu_Publish.thy ===== *)
theory Rcu_Publish
  imports Pool_Props
begin

text \<open>
  Publication of receive positions under RCU, as \<^verbatim>\<open>rt/asx/execution_link.cpp\<close> does it with the
  descriptors of \<^verbatim>\<open>market/rt/defs.h\<close> and the callback of \<^verbatim>\<open>market/rt/impl/reclamation.cpp\<close>.
  The writer fills a private descriptor, publishes it and hands the previous one to \<open>call_rcu\<close>;
  the callback pushes it on a stack that the writer takes over as a whole at its next step.
  The stack is only pushed to one element at a time and emptied as a whole, so each of the two
  is one atomic step here. Of the RCU library the documented guarantee is used: a callback runs
  after every read section that was open at \<open>call_rcu\<close> has ended.
\<close>

section \<open>Descriptors\<close>

record recv_position =
  rp_pos :: int
  rp_end :: int
  rp_ts :: int

record poll_descriptor =
  pd_data :: "recv_position list"
  pd_instance :: nat
  pd_next :: "nat option"

text \<open>The width \<open>W\<close> of a descriptor is the parameter of the template: four for the execution link.\<close>

definition part_count :: nat where "part_count = 4"

definition clear_data :: "nat \<Rightarrow> recv_position list" where
  "clear_data W = replicate W \<lparr>rp_pos = 0, rp_end = 0, rp_ts = 0\<rparr>"

text \<open>
  \<open>ru_pending\<close>: the descriptors handed to \<open>call_rcu\<close>, with the readers whose sections must end
  first. \<open>ru_readers\<close>: the open read sections with the descriptor they loaded; the second
  component records what it held then.
\<close>

record rcu_pub =
  ru_pool :: "poll_descriptor pool"
  ru_published :: nat
  ru_current :: nat
  ru_head :: "nat option"
  ru_pending :: "(nat \<times> nat set) list"
  ru_readers :: "nat \<rightharpoonup> nat \<times> recv_position list"

section \<open>The writer\<close>

text \<open>What a fresh slot holds before it is set is not used.\<close>

definition pd_allocate :: "pool_opts \<Rightarrow> recv_position list \<Rightarrow> poll_descriptor pool \<Rightarrow> (nat \<times> poll_descriptor pool) result option" where
  "pd_allocate Q data p =
     bind_ro (pool_allocate Q \<lparr>pd_data = [], pd_instance = 0, pd_next = None\<rparr> p) (\<lambda>(r, p).
     bind_ro (lift_o (pool_modify Q r (\<lambda>pd. pd\<lparr>pd_instance := r, pd_next := None, pd_data := data\<rparr>) p)) (\<lambda>p.
       Some (Inr (r, p))))"

definition rcu_initialize :: "nat \<Rightarrow> pool_opts \<Rightarrow> poll_descriptor pool \<Rightarrow> rcu_pub result option" where
  "rcu_initialize W Q p =
     bind_ro (pd_allocate Q (clear_data W) p) (\<lambda>(published, p).
     bind_ro (lift_o (case pool_get Q False published p of Some (Inr pd) \<Rightarrow> Some (pd_data pd) | _ \<Rightarrow> None)) (\<lambda>data.
     bind_ro (pd_allocate Q data p) (\<lambda>(current, p).
       Some (Inr \<lparr>ru_pool = p, ru_published = published, ru_current = current, ru_head = None, ru_pending = [],
         ru_readers = Map.empty\<rparr>))))"

definition rcu_write :: "pool_opts \<Rightarrow> nat \<Rightarrow> recv_position \<Rightarrow> rcu_pub \<Rightarrow> rcu_pub result option" where
  "rcu_write Q pix rp U =
     bind_ro (lift_o (pool_modify Q (ru_current U) (\<lambda>pd. pd\<lparr>pd_data := (pd_data pd)[pix := rp]\<rparr>) (ru_pool U))) (\<lambda>p.
       Some (Inr (U\<lparr>ru_pool := p\<rparr>)))"

text \<open>
  Publishing: \<open>rcu_assign_pointer\<close>, \<open>call_rcu\<close> for the previous version, and the next one, which holds \<open>data\<close>.
  The execution link copies what it has just published.
\<close>

definition rcu_publish_next :: "pool_opts \<Rightarrow> recv_position list \<Rightarrow> rcu_pub \<Rightarrow> rcu_pub result option" where
  "rcu_publish_next Q data U =
     (let published = ru_published U; current = ru_current U;
          U = U\<lparr>ru_published := current, ru_pending := ru_pending U @ [(published, dom (ru_readers U))]\<rparr> in
      bind_ro (pd_allocate Q data (ru_pool U)) (\<lambda>(r, p).
        Some (Inr (U\<lparr>ru_pool := p, ru_current := r\<rparr>))))"

definition rcu_publish :: "pool_opts \<Rightarrow> rcu_pub \<Rightarrow> rcu_pub result option" where
  "rcu_publish Q U =
     bind_ro (pool_get Q False (ru_current U) (ru_pool U)) (\<lambda>pd. rcu_publish_next Q (pd_data pd) U)"

text \<open>\<open>release_poll_descriptor\<close>, run by the callback thread for the descriptor at place \<open>i\<close> of the pending ones.\<close>

definition rcu_callback :: "pool_opts \<Rightarrow> nat \<Rightarrow> rcu_pub \<Rightarrow> rcu_pub result option" where
  "rcu_callback Q i U =
     (let r = fst (ru_pending U ! i) in
      bind_ro (lift_o (pool_modify Q r (\<lambda>pd. pd\<lparr>pd_next := ru_head U\<rparr>) (ru_pool U))) (\<lambda>p.
        Some (Inr (U\<lparr>ru_pool := p, ru_head := Some r, ru_pending := take i (ru_pending U) @ drop (Suc i) (ru_pending U)\<rparr>))))"

text \<open>The loop over the reclaimed descriptors; it follows links, so it may go on forever.\<close>

definition min_bounds :: "recv_position list \<Rightarrow> int list \<Rightarrow> int list" where
  "min_bounds data bounds = map (\<lambda>pix. min (bounds ! pix) (rp_pos (data ! pix))) [0..<length bounds]"

partial_function (option) reclaim_loop ::
  "pool_opts \<Rightarrow> nat option \<Rightarrow> int list \<Rightarrow> poll_descriptor pool \<Rightarrow> (int list \<times> poll_descriptor pool) result option" where
  "reclaim_loop Q i bounds p =
     (case i of
        None \<Rightarrow> Some (Inr (bounds, p))
      | Some r \<Rightarrow>
          (case pool_get Q False r p of
             None \<Rightarrow> None
           | Some (Inl e) \<Rightarrow> Some (Inl e)
           | Some (Inr pd) \<Rightarrow>
               (case pool_release Q r p of
                  None \<Rightarrow> None
                | Some (Inl e) \<Rightarrow> Some (Inl e)
                | Some (Inr (x, p)) \<Rightarrow> reclaim_loop Q (pd_next pd) (min_bounds (pd_data pd) bounds) p)))"

definition pos_max :: int where "pos_max = 2 ^ 63 - 1"

definition rcu_reclaim :: "nat \<Rightarrow> pool_opts \<Rightarrow> rcu_pub \<Rightarrow> (int list \<times> rcu_pub) result option" where
  "rcu_reclaim W Q U =
     bind_ro (reclaim_loop Q (ru_head U) (replicate W pos_max) (ru_pool U)) (\<lambda>(bounds, p).
       Some (Inr (bounds, U\<lparr>ru_pool := p, ru_head := None\<rparr>)))"

section \<open>Readers\<close>

text \<open>\<open>poll\<close> inside a read section, and the end of the section.\<close>

definition rcu_lock :: "pool_opts \<Rightarrow> nat \<Rightarrow> rcu_pub \<Rightarrow> rcu_pub result option" where
  "rcu_lock Q rd U =
     bind_ro (pool_get Q False (ru_published U) (ru_pool U)) (\<lambda>pd.
       Some (Inr (U\<lparr>ru_readers := (ru_readers U)(rd \<mapsto> (ru_published U, pd_data pd))\<rparr>)))"

definition rcu_unlock :: "nat \<Rightarrow> rcu_pub \<Rightarrow> rcu_pub" where
  "rcu_unlock rd U = U\<lparr>ru_readers := (ru_readers U)(rd := None), ru_pending := map (\<lambda>(r, W). (r, W - {rd})) (ru_pending U)\<rparr>"

text \<open>What writer, readers and the callback thread do, in any order.\<close>

datatype rcu_event = Write nat recv_position | Publish | Callback nat | Reclaim | Lock nat | Unlock nat

primrec rcu_do :: "nat \<Rightarrow> pool_opts \<Rightarrow> rcu_event \<Rightarrow> rcu_pub \<Rightarrow> rcu_pub result option" where
  "rcu_do W Q (Write pix rp) U = rcu_write Q pix rp U"
| "rcu_do W Q Publish U = rcu_publish Q U"
| "rcu_do W Q (Callback i) U = rcu_callback Q i U"
| "rcu_do W Q Reclaim U = bind_ro (rcu_reclaim W Q U) (\<lambda>(bounds, U). Some (Inr U))"
| "rcu_do W Q (Lock rd) U = rcu_lock Q rd U"
| "rcu_do W Q (Unlock rd) U = Some (Inr (rcu_unlock rd U))"

primrec rcu_enabled :: "nat \<Rightarrow> rcu_event \<Rightarrow> rcu_pub \<Rightarrow> bool" where
  "rcu_enabled W (Write pix rp) U \<longleftrightarrow> pix < W"
| "rcu_enabled W Publish U \<longleftrightarrow> True"
| "rcu_enabled W (Callback i) U \<longleftrightarrow> i < length (ru_pending U) \<and> snd (ru_pending U ! i) = {}"
| "rcu_enabled W Reclaim U \<longleftrightarrow> True"
| "rcu_enabled W (Lock rd) U \<longleftrightarrow> ru_readers U rd = None"
| "rcu_enabled W (Unlock rd) U \<longleftrightarrow> ru_readers U rd \<noteq> None"

inductive rcu_reach :: "nat \<Rightarrow> pool_opts \<Rightarrow> rcu_pub \<Rightarrow> rcu_pub \<Rightarrow> bool" for W :: nat and Q :: pool_opts and U0 :: rcu_pub where
  reach_start: "rcu_reach W Q U0 U0"
| reach_event: "rcu_reach W Q U0 U \<Longrightarrow> rcu_enabled W ev U \<Longrightarrow> rcu_do W Q ev U = Some (Inr U') \<Longrightarrow> rcu_reach W Q U0 U'"

section \<open>The invariant\<close>

text \<open>The stack of reclaimed descriptors, followed from its head.\<close>

primrec linked :: "(nat \<rightharpoonup> poll_descriptor) \<Rightarrow> nat option \<Rightarrow> nat list \<Rightarrow> bool" where
  "linked M h [] \<longleftrightarrow> h = None"
| "linked M h (r # rs) \<longleftrightarrow> h = Some r \<and> (case M r of None \<Rightarrow> False | Some pd \<Rightarrow> linked M (pd_next pd) rs)"

lemma reclaim_linked_cong: "(\<And>r. r \<in> set rs \<Longrightarrow> map_option pd_next (M r) = map_option pd_next (M' r)) \<Longrightarrow> linked M h rs = linked M' h rs"
proof (induction rs arbitrary: h)
  case (Cons r rs)
  have "map_option pd_next (M r) = map_option pd_next (M' r)" using Cons.prems by simp
  then show ?case using Cons by (cases "M r"; cases "M' r") auto
qed simp

lemma linked_other: "r \<notin> set rs \<Longrightarrow> linked (M(r := x)) h rs = linked M h rs"
  by (rule reclaim_linked_cong) auto

lemma linked_kept: "M r = Some pd \<Longrightarrow> pd_next pd' = pd_next pd \<Longrightarrow> linked (M(r \<mapsto> pd')) h rs = linked M h rs"
  by (rule reclaim_linked_cong) auto

definition rcu_live :: "rcu_pub \<Rightarrow> nat list \<Rightarrow> nat list" where
  "rcu_live U chain = ru_published U # ru_current U # map fst (ru_pending U) @ chain"

definition rcu_data :: "pool_opts \<Rightarrow> rcu_pub \<Rightarrow> nat \<Rightarrow> recv_position list" where
  "rcu_data Q U r = (case objs Q (ru_pool U) r of None \<Rightarrow> [] | Some pd \<Rightarrow> pd_data pd)"

definition rcu_inv :: "nat \<Rightarrow> pool_opts \<Rightarrow> rcu_pub \<Rightarrow> nat list \<Rightarrow> bool" where
  "rcu_inv W Q U chain \<longleftrightarrow> pool_inv Q (ru_pool U) \<and> linked (objs Q (ru_pool U)) (ru_head U) chain \<and> distinct (rcu_live U chain) \<and>
     (\<forall>r \<in> set (rcu_live U chain). objs Q (ru_pool U) r \<noteq> None \<and> length (rcu_data Q U r) = W) \<and>
     (\<forall>rd r data. ru_readers U rd = Some (r, data) \<longrightarrow> rcu_data Q U r = data \<and>
       (r = ru_published U \<or> (\<exists>R. (r, R) \<in> set (ru_pending U) \<and> rd \<in> R)))"

lemma rcu_invD:
  assumes "rcu_inv W Q U chain"
  shows "pool_inv Q (ru_pool U)" "linked (objs Q (ru_pool U)) (ru_head U) chain" "distinct (rcu_live U chain)"
    "r \<in> set (rcu_live U chain) \<Longrightarrow> \<exists>pd. objs Q (ru_pool U) r = Some pd \<and> rcu_data Q U r = pd_data pd \<and> length (pd_data pd) = W"
    "ru_readers U rd = Some (r, data) \<Longrightarrow> rcu_data Q U r = data \<and>
       (r = ru_published U \<or> (\<exists>R. (r, R) \<in> set (ru_pending U) \<and> rd \<in> R))"
  using assms by (auto simp: rcu_inv_def rcu_data_def)

text \<open>A descriptor a reader holds is the published one or waits for that reader.\<close>

lemma held_live:
  assumes "rcu_inv W Q U chain" "ru_readers U rd = Some (r, data)"
  shows "r \<in> set (rcu_live U []) \<and> r \<noteq> ru_current U"
proof -
  have "r \<in> insert (ru_published U) (fst ` set (ru_pending U))" using rcu_invD(5) [OF assms] by force
  then show ?thesis using rcu_invD(3) [OF assms(1)] unfolding rcu_live_def by (cases "r = ru_current U") simp_all
qed

lemma pd_allocate_spec:
  assumes "pool_inv Q p" "\<not> pool_full Q p"
  obtains r p' pd where "pd_allocate Q data p = Some (Inr (r, p'))" "pool_inv Q p'" "objs Q p r = None"
    "objs Q p' = (objs Q p)(r \<mapsto> pd)" "pd_data pd = data" "pd_instance pd = r" "pd_next pd = None"
proof -
  let ?blank = "\<lparr>pd_data = [], pd_instance = 0, pd_next = None\<rparr>"
  from pool.alloc_law [OF assms, of ?blank] obtain r p1 where a: "pool_allocate Q ?blank p = Some (Inr (r, p1))" "pool_inv Q p1"
    "objs Q p r = None" "objs Q p1 = (objs Q p)(r \<mapsto> ?blank)" by blast
  let ?f = "\<lambda>pd. pd\<lparr>pd_instance := r, pd_next := None, pd_data := data\<rparr>"
  from pool.upd_law [OF a(2), of r ?blank ?f] a(4) obtain p2 where u: "pool_modify Q r ?f p1 = Some p2" "pool_inv Q p2"
    "objs Q p2 = (objs Q p1)(r \<mapsto> ?f ?blank)" by auto
  show ?thesis by (rule that [of r p2 "?f ?blank"]) (use a u in \<open>simp_all add: pd_allocate_def\<close>)
qed

section \<open>The operations\<close>

lemma rcu_write_spec:
  assumes "rcu_inv W Q U chain" "pix < W"
  obtains p where "rcu_write Q pix rp U = Some (Inr (U\<lparr>ru_pool := p\<rparr>))" "rcu_inv W Q (U\<lparr>ru_pool := p\<rparr>) chain"
    "rcu_data Q (U\<lparr>ru_pool := p\<rparr>) = (rcu_data Q U)(ru_current U := (rcu_data Q U (ru_current U))[pix := rp])"
    "pool_full Q p = pool_full Q (ru_pool U)"
proof -
  note i = rcu_invD [OF assms(1)]
  let ?c = "ru_current U" and ?f = "\<lambda>pd. pd\<lparr>pd_data := (pd_data pd)[pix := rp]\<rparr>"
  from i(4) [of ?c] obtain pd where pd: "objs Q (ru_pool U) ?c = Some pd" "rcu_data Q U ?c = pd_data pd" "length (pd_data pd) = W"
    by (auto simp: rcu_live_def)
  obtain p where p: "pool_modify Q ?c ?f (ru_pool U) = Some p" "pool_inv Q p"
    "objs Q p = (objs Q (ru_pool U))(?c \<mapsto> ?f pd)" "pool_capacity Q p = pool_capacity Q (ru_pool U)"
    by (rule pool_modify_spec [OF i(1) pd(1), of ?f])
  have full: "pool_full Q p = pool_full Q (ru_pool U)"
    using pd(1) by (simp add: pool_full_def p(3,4) insert_absorb domI)
  let ?U = "U\<lparr>ru_pool := p\<rparr>"
  have d: "rcu_data Q ?U = (rcu_data Q U)(?c := (rcu_data Q U ?c)[pix := rp])"
    using p(3) pd(2) by (auto simp: rcu_data_def fun_eq_iff)
  have l: "linked (objs Q p) (ru_head U) chain"
    using i(2) unfolding p(3) by (subst linked_kept [where M = "objs Q (ru_pool U)", OF pd(1)]) simp_all
  have "rcu_inv W Q ?U chain"
    unfolding rcu_inv_def
  proof (intro conjI ballI allI impI)
    fix r assume "r \<in> set (rcu_live ?U chain)"
    then have r: "r \<in> set (rcu_live U chain)" by (simp add: rcu_live_def)
    show "objs Q (ru_pool ?U) r \<noteq> None" using i(4) [OF r] p(3) by auto
    show "length (rcu_data Q ?U r) = W" using i(4) [OF r] pd(2,3) unfolding d by auto
  next
    fix rd r data assume h: "ru_readers ?U rd = Some (r, data)"
    then have "r \<noteq> ?c" using held_live [OF assms(1)] by simp
    then show "rcu_data Q ?U r = data" using i(5) h unfolding d by auto
    show "r = ru_published ?U \<or> (\<exists>R. (r, R) \<in> set (ru_pending ?U) \<and> rd \<in> R)" using i(5) h by simp
  qed (use p(2) l i(3) in \<open>simp_all add: rcu_live_def\<close>)
  then show ?thesis using p(1) d full by (intro that [of p]) (simp_all add: rcu_write_def)
qed

lemma rcu_publish_next_spec:
  assumes "rcu_inv W Q U chain" "\<not> pool_full Q (ru_pool U)" "length data = W"
  obtains U' where "rcu_publish_next Q data U = Some (Inr U')" "rcu_inv W Q U' chain" "ru_published U' = ru_current U"
    "rcu_data Q U' = (rcu_data Q U)(ru_current U' := data)"
    "ru_current U' \<notin> set (rcu_live U chain)"
    "ru_pending U' = ru_pending U @ [(ru_published U, dom (ru_readers U))]" "ru_readers U' = ru_readers U" "ru_head U' = ru_head U"
proof -
  note i = rcu_invD [OF assms(1)]
  let ?c = "ru_current U"
  obtain r p new where a: "pd_allocate Q data (ru_pool U) = Some (Inr (r, p))" "pool_inv Q p" "objs Q (ru_pool U) r = None"
    "objs Q p = (objs Q (ru_pool U))(r \<mapsto> new)" "pd_data new = data"
    by (rule pd_allocate_spec [OF i(1) assms(2)])
  let ?U = "U\<lparr>ru_published := ?c, ru_pending := ru_pending U @ [(ru_published U, dom (ru_readers U))], ru_pool := p, ru_current := r\<rparr>"
  have eq: "rcu_publish_next Q data U = Some (Inr ?U)" using a(1) by (simp add: rcu_publish_next_def Let_def)
  have fresh: "r \<notin> set (rcu_live U chain)" using i(4) [of r] a(3) by auto
  have d: "rcu_data Q ?U = (rcu_data Q U)(r := data)"
    using a(4,5) by (auto simp: rcu_data_def fun_eq_iff)
  have live: "set (rcu_live ?U chain) = insert r (set (rcu_live U chain))" by (auto simp: rcu_live_def)
  have "linked (objs Q p) (ru_head U) chain"
    using i(2) fresh unfolding a(4) by (subst linked_other) (simp_all add: rcu_live_def)
  moreover have "distinct (rcu_live ?U chain)" using i(3) fresh by (auto simp: rcu_live_def)
  ultimately have "rcu_inv W Q ?U chain"
    unfolding rcu_inv_def
  proof (intro conjI ballI allI impI)
    fix q assume "q \<in> set (rcu_live ?U chain)"
    then have q: "q = r \<or> q \<in> set (rcu_live U chain)" by (simp add: live)
    show "objs Q (ru_pool ?U) q \<noteq> None" using q i(4) [of q] a(4) by auto
    show "length (rcu_data Q ?U q) = W" using q i(4) [of q] assms(3) unfolding d by auto
  next
    fix rd q data' assume h: "ru_readers ?U rd = Some (q, data')"
    then have h': "ru_readers U rd = Some (q, data')" by simp
    have "q \<noteq> r" using held_live [OF assms(1) h'] fresh by (auto simp: rcu_live_def)
    then show "rcu_data Q ?U q = data'" using i(5) [OF h'] unfolding d by simp
    show "q = ru_published ?U \<or> (\<exists>R. (q, R) \<in> set (ru_pending ?U) \<and> rd \<in> R)"
      using i(5) [OF h'] h' by auto
  qed (use a(2) in simp_all)
  then show ?thesis by (intro that [of ?U]) (use eq d fresh in simp_all)
qed

lemma rcu_publish_spec:
  assumes "rcu_inv W Q U chain" "\<not> pool_full Q (ru_pool U)"
  obtains U' where "rcu_publish Q U = Some (Inr U')" "rcu_inv W Q U' chain" "ru_published U' = ru_current U"
    "rcu_data Q U' = (rcu_data Q U)(ru_current U' := rcu_data Q U (ru_current U))"
    "ru_current U' \<notin> set (rcu_live U chain)"
    "ru_pending U' = ru_pending U @ [(ru_published U, dom (ru_readers U))]" "ru_readers U' = ru_readers U" "ru_head U' = ru_head U"
proof -
  note i = rcu_invD [OF assms(1)]
  from i(4) [of "ru_current U"] obtain pd where pd: "objs Q (ru_pool U) (ru_current U) = Some pd"
    "rcu_data Q U (ru_current U) = pd_data pd" "length (pd_data pd) = W" by (auto simp: rcu_live_def)
  have "rcu_publish Q U = rcu_publish_next Q (pd_data pd) U" by (simp add: rcu_publish_def pool_get_spec [OF i(1) pd(1)])
  with rcu_publish_next_spec [OF assms pd(3)] that show ?thesis unfolding pd(2) by metis
qed

lemma rcu_callback_spec:
  assumes "rcu_inv W Q U chain" "k < length (ru_pending U)" "snd (ru_pending U ! k) = {}"
  obtains U' where "rcu_callback Q k U = Some (Inr U')" "rcu_inv W Q U' (fst (ru_pending U ! k) # chain)" "rcu_data Q U' = rcu_data Q U"
    "ru_published U' = ru_published U" "ru_current U' = ru_current U" "ru_readers U' = ru_readers U"
    "ru_pending U' = take k (ru_pending U) @ drop (Suc k) (ru_pending U)"
proof -
  note i = rcu_invD [OF assms(1)]
  let ?r = "fst (ru_pending U ! k)" and ?f = "\<lambda>pd. pd\<lparr>pd_next := ru_head U\<rparr>"
  have split: "ru_pending U = take k (ru_pending U) @ ru_pending U ! k # drop (Suc k) (ru_pending U)"
    by (rule id_take_nth_drop [OF assms(2)])
  have r: "?r \<in> set (rcu_live U chain)" using assms(2) by (simp add: rcu_live_def)
  from i(4) [OF r] obtain pd where pd: "objs Q (ru_pool U) ?r = Some pd" "rcu_data Q U ?r = pd_data pd" by auto
  from pool.upd_law [OF i(1) pd(1), of ?f] obtain p where p: "pool_modify Q ?r ?f (ru_pool U) = Some p" "pool_inv Q p"
    "objs Q p = (objs Q (ru_pool U))(?r \<mapsto> ?f pd)" by auto
  let ?U = "U\<lparr>ru_pool := p, ru_head := Some ?r, ru_pending := take k (ru_pending U) @ drop (Suc k) (ru_pending U)\<rparr>"
  have d: "rcu_data Q ?U = rcu_data Q U" using p(3) pd by (auto simp: rcu_data_def fun_eq_iff)
  have fsts: "map fst (ru_pending U) = map fst (take k (ru_pending U)) @ ?r # map fst (drop (Suc k) (ru_pending U))"
    by (subst split) simp
  have live: "set (rcu_live ?U (?r # chain)) = set (rcu_live U chain)" unfolding rcu_live_def fsts by auto
  have dist: "distinct (rcu_live ?U (?r # chain))" using i(3) unfolding rcu_live_def fsts by auto
  have nr: "?r \<notin> set chain" using i(3) unfolding rcu_live_def fsts by auto
  have "linked (objs Q p) (ru_head U) chain"
    using i(2) nr unfolding p(3) by (subst linked_other) simp_all
  then have l: "linked (objs Q (ru_pool ?U)) (ru_head ?U) (?r # chain)" using p(3) by simp
  have "rcu_inv W Q ?U (?r # chain)"
    unfolding rcu_inv_def
  proof (intro conjI ballI allI impI)
    fix q assume "q \<in> set (rcu_live ?U (?r # chain))"
    then have q: "q \<in> set (rcu_live U chain)" by (simp add: live)
    show "objs Q (ru_pool ?U) q \<noteq> None" using i(4) [OF q] p(3) by auto
    show "length (rcu_data Q ?U q) = W" using i(4) [OF q] unfolding d by auto
  next
    fix rd q data assume "ru_readers ?U rd = Some (q, data)"
    then have h: "ru_readers U rd = Some (q, data)" by simp
    then show "rcu_data Q ?U q = data" using i(5) unfolding d by simp
    have "(q, R) \<in> set (ru_pending ?U)" if "(q, R) \<in> set (ru_pending U)" "rd \<in> R" for R
    proof -
      have "(q, R) \<noteq> ru_pending U ! k" using assms(3) that(2) by (metis empty_iff snd_conv)
      moreover have "(q, R) \<in> set (take k (ru_pending U) @ ru_pending U ! k # drop (Suc k) (ru_pending U))"
        using that(1) split by simp
      ultimately show ?thesis by auto
    qed
    with i(5) [OF h] show "q = ru_published ?U \<or> (\<exists>R. (q, R) \<in> set (ru_pending ?U) \<and> rd \<in> R)" by auto
  qed (use p(2) l dist in simp_all)
  then show ?thesis by (intro that [of ?U]) (use p(1) d in \<open>simp_all add: rcu_callback_def\<close>)
qed

text \<open>Taking over the stack: every reclaimed descriptor bounds what may be flushed, and goes back to the pool.\<close>

definition reclaimed_bounds :: "recv_position list list \<Rightarrow> int list \<Rightarrow> int list" where
  "reclaimed_bounds ds bounds = fold min_bounds ds bounds"

lemma length_min_bounds [simp]: "length (min_bounds data bounds) = length bounds"
  by (simp add: min_bounds_def)

lemma reclaimed_bound:
  assumes "pix < length bounds"
  shows "reclaimed_bounds ds bounds ! pix = bounds ! pix \<or> (\<exists>d \<in> set ds. reclaimed_bounds ds bounds ! pix = rp_pos (d ! pix))"
  using assms
proof (induction ds arbitrary: bounds)
  case (Cons d ds)
  have "min_bounds d bounds ! pix = bounds ! pix \<or> min_bounds d bounds ! pix = rp_pos (d ! pix)"
    using Cons.prems by (auto simp: min_bounds_def min_def)
  with Cons.IH [of "min_bounds d bounds"] Cons.prems show ?case by (auto simp: reclaimed_bounds_def)
qed (simp add: reclaimed_bounds_def)

lemma reclaim_loop_spec:
  assumes "pool_inv Q p" "linked (objs Q p) h chain" "distinct chain"
  shows "\<exists>p'. reclaim_loop Q h bounds p =
      Some (Inr (reclaimed_bounds (map (\<lambda>r. case objs Q p r of None \<Rightarrow> [] | Some pd \<Rightarrow> pd_data pd) chain) bounds, p')) \<and>
    pool_inv Q p' \<and> objs Q p' = (\<lambda>r. if r \<in> set chain then None else objs Q p r)"
  using assms
proof (induction chain arbitrary: h bounds p)
  case Nil
  then show ?case by (subst reclaim_loop.simps) (simp add: reclaimed_bounds_def)
next
  case (Cons r rs)
  then obtain pd where pd: "objs Q p r = Some pd" "h = Some r" "linked (objs Q p) (pd_next pd) rs" by (auto split: option.splits)
  from pool.free_law [OF Cons.prems(1) pd(1)] obtain p1 where p1: "pool_release Q r p = Some (Inr (pd, p1))" "pool_inv Q p1"
    "objs Q p1 = (objs Q p)(r := None)" by blast
  have nr: "r \<notin> set rs" using Cons.prems(3) by simp
  have l: "linked (objs Q p1) (pd_next pd) rs" using pd(3) nr unfolding p1(3) by (subst linked_other) simp_all
  have m: "map (\<lambda>r. case objs Q p1 r of None \<Rightarrow> [] | Some pd \<Rightarrow> pd_data pd) rs = map (\<lambda>r. case objs Q p r of None \<Rightarrow> [] | Some pd \<Rightarrow> pd_data pd) rs"
    using nr by (intro map_cong refl) (auto simp: p1(3))
  have step: "reclaim_loop Q h bounds p = reclaim_loop Q (pd_next pd) (min_bounds (pd_data pd) bounds) p1"
    using pool_get_spec [OF Cons.prems(1) pd(1)] p1(1) pd(2) by (subst reclaim_loop.simps) simp
  have "distinct rs" using Cons.prems(3) by simp
  from Cons.IH [OF p1(2) l this, of "min_bounds (pd_data pd) bounds"] obtain p' where p':
    "reclaim_loop Q (pd_next pd) (min_bounds (pd_data pd) bounds) p1 =
      Some (Inr (reclaimed_bounds (map (\<lambda>r. case objs Q p r of None \<Rightarrow> [] | Some pd \<Rightarrow> pd_data pd) rs) (min_bounds (pd_data pd) bounds), p'))"
    "pool_inv Q p'" "objs Q p' = (\<lambda>q. if q \<in> set rs then None else objs Q p1 q)"
    unfolding m by blast
  show ?case
    by (rule exI [of _ p']) (use step p' pd(1) in \<open>auto simp: reclaimed_bounds_def p1(3) fun_eq_iff\<close>)
qed

lemma rcu_reclaim_spec:
  assumes "rcu_inv W Q U chain"
  obtains U' where "rcu_reclaim W Q U = Some (Inr (reclaimed_bounds (map (rcu_data Q U) chain) (replicate W pos_max), U'))"
    "rcu_inv W Q U' []" "ru_published U' = ru_published U" "ru_current U' = ru_current U" "ru_pending U' = ru_pending U"
    "ru_readers U' = ru_readers U" "\<And>r. r \<in> set (rcu_live U []) \<Longrightarrow> rcu_data Q U' r = rcu_data Q U r"
proof -
  note i = rcu_invD [OF assms]
  have "distinct chain" using i(3) by (simp add: rcu_live_def)
  from reclaim_loop_spec [OF i(1,2) this, of "replicate W pos_max"] obtain p where p:
    "reclaim_loop Q (ru_head U) (replicate W pos_max) (ru_pool U) =
      Some (Inr (reclaimed_bounds (map (rcu_data Q U) chain) (replicate W pos_max), p))"
    "pool_inv Q p" "objs Q p = (\<lambda>r. if r \<in> set chain then None else objs Q (ru_pool U) r)"
    unfolding rcu_data_def by blast
  let ?U = "U\<lparr>ru_pool := p, ru_head := None\<rparr>"
  have disj: "r \<notin> set chain" if "r \<in> set (rcu_live U [])" for r
    using that i(3) by (auto simp: rcu_live_def)
  have d: "rcu_data Q ?U r = rcu_data Q U r" if "r \<in> set (rcu_live U [])" for r
    using disj [OF that] by (simp add: rcu_data_def p(3))
  have sub: "set (rcu_live ?U []) = set (rcu_live U [])" "set (rcu_live U []) \<subseteq> set (rcu_live U chain)" by (auto simp: rcu_live_def)
  have "rcu_inv W Q ?U []"
    unfolding rcu_inv_def
  proof (intro conjI ballI allI impI)
    fix r assume "r \<in> set (rcu_live ?U [])"
    then have r: "r \<in> set (rcu_live U [])" "r \<in> set (rcu_live U chain)" using sub by auto
    show "objs Q (ru_pool ?U) r \<noteq> None" using i(4) [OF r(2)] disj [OF r(1)] by (auto simp: p(3))
    show "length (rcu_data Q ?U r) = W" using i(4) [OF r(2)] d [OF r(1)] by auto
  next
    fix rd r data assume "ru_readers ?U rd = Some (r, data)"
    then have h: "ru_readers U rd = Some (r, data)" by simp
    then show "rcu_data Q ?U r = data" using i(5) d held_live [OF assms] by metis
    show "r = ru_published ?U \<or> (\<exists>R. (r, R) \<in> set (ru_pending ?U) \<and> rd \<in> R)" using i(5) [OF h] by simp
  qed (use p(2) i(3) in \<open>simp_all add: rcu_live_def\<close>)
  then show ?thesis by (intro that [of ?U]) (use p(1) d in \<open>simp_all add: rcu_reclaim_def\<close>)
qed

lemma rcu_lock_spec:
  assumes "rcu_inv W Q U chain"
  shows "rcu_lock Q rd U = Some (Inr (U\<lparr>ru_readers := (ru_readers U)(rd \<mapsto> (ru_published U, rcu_data Q U (ru_published U)))\<rparr>))"
    "rcu_inv W Q (U\<lparr>ru_readers := (ru_readers U)(rd \<mapsto> (ru_published U, rcu_data Q U (ru_published U)))\<rparr>) chain"
proof -
  note i = rcu_invD [OF assms]
  from i(4) [of "ru_published U"] obtain pd where pd: "objs Q (ru_pool U) (ru_published U) = Some pd" "rcu_data Q U (ru_published U) = pd_data pd"
    by (auto simp: rcu_live_def)
  then show "rcu_lock Q rd U = Some (Inr (U\<lparr>ru_readers := (ru_readers U)(rd \<mapsto> (ru_published U, rcu_data Q U (ru_published U)))\<rparr>))"
    by (simp add: rcu_lock_def pool_get_spec [OF i(1)])
  show "rcu_inv W Q (U\<lparr>ru_readers := (ru_readers U)(rd \<mapsto> (ru_published U, rcu_data Q U (ru_published U)))\<rparr>) chain"
    using assms by (auto simp: rcu_inv_def rcu_data_def rcu_live_def)
qed

lemma rcu_unlock_spec:
  assumes "rcu_inv W Q U chain"
  shows "rcu_inv W Q (rcu_unlock rd U) chain" "rcu_data Q (rcu_unlock rd U) = rcu_data Q U"
    "map fst (ru_pending (rcu_unlock rd U)) = map fst (ru_pending U)"
proof -
  show f: "map fst (ru_pending (rcu_unlock rd U)) = map fst (ru_pending U)"
    by (simp add: rcu_unlock_def split_beta comp_def)
  show d: "rcu_data Q (rcu_unlock rd U) = rcu_data Q U" by (simp add: rcu_data_def rcu_unlock_def fun_eq_iff)
  have "rcu_live (rcu_unlock rd U) chain = rcu_live U chain" using f by (simp add: rcu_live_def rcu_unlock_def)
  moreover have "\<exists>R. (r, R) \<in> set (ru_pending (rcu_unlock rd U)) \<and> rd' \<in> R" if "(r, R) \<in> set (ru_pending U)" "rd' \<in> R" "rd' \<noteq> rd" for r rd' R
    using that by (force simp: rcu_unlock_def)
  moreover have "rcu_data Q U r = data \<and> (r = ru_published U \<or> (\<exists>R. (r, R) \<in> set (ru_pending (rcu_unlock rd U)) \<and> rd' \<in> R))"
    if "ru_readers (rcu_unlock rd U) rd' = Some (r, data)" for rd' r data
  proof -
    from that have h: "ru_readers U rd' = Some (r, data)" "rd' \<noteq> rd" by (auto simp: rcu_unlock_def split: if_splits)
    show ?thesis using rcu_invD(5) [OF assms h(1)] calculation(2) h(2) by blast
  qed
  ultimately show "rcu_inv W Q (rcu_unlock rd U) chain"
    using assms unfolding rcu_inv_def d by (simp add: rcu_unlock_def)
qed

lemma pd_allocate_Inr:
  assumes "pool_inv Q p" "pd_allocate Q data p = Some (Inr (r, p'))"
  obtains pd where "pool_inv Q p'" "objs Q p r = None" "objs Q p' = (objs Q p)(r \<mapsto> pd)" "pd_data pd = data" "pd_next pd = None"
proof -
  have "\<not> pool_full Q p"
    using pool.alloc_full [OF assms(1), of "\<lparr>pd_data = [], pd_instance = 0, pd_next = None\<rparr>"] assms(2)
    by (auto simp: pd_allocate_def)
  from pd_allocate_spec [OF assms(1) this, of data] show ?thesis using assms(2) that by (metis Inr_inject option.inject prod.inject)
qed

lemma rcu_initialize_inv:
  assumes "pool_inv Q p" "rcu_initialize W Q p = Some (Inr U)"
  shows "rcu_inv W Q U []" "rcu_data Q U (ru_published U) = clear_data W" "rcu_data Q U (ru_current U) = clear_data W"
    "ru_pending U = []" "ru_readers U = Map.empty"
proof -
  from assms(2) obtain r1 p1 where a1: "pd_allocate Q (clear_data W) p = Some (Inr (r1, p1))"
    by (auto simp: rcu_initialize_def bind_ro_def split: option.splits sum.splits)
  obtain d1 where b1: "pool_inv Q p1" "objs Q p r1 = None" "objs Q p1 = (objs Q p)(r1 \<mapsto> d1)" "pd_data d1 = clear_data W" "pd_next d1 = None"
    by (rule pd_allocate_Inr [OF assms(1) a1])
  have g: "pool_get Q False r1 p1 = Some (Inr d1)" by (rule pool_get_spec [OF b1(1)]) (simp add: b1(3))
  from assms(2) obtain r2 p2 where a2: "pd_allocate Q (clear_data W) p1 = Some (Inr (r2, p2))"
    "U = \<lparr>ru_pool = p2, ru_published = r1, ru_current = r2, ru_head = None, ru_pending = [], ru_readers = Map.empty\<rparr>"
    by (auto simp: rcu_initialize_def a1 g b1(4) bind_ro_def split: option.splits sum.splits)
  obtain d2 where b2: "pool_inv Q p2" "objs Q p1 r2 = None" "objs Q p2 = (objs Q p1)(r2 \<mapsto> d2)" "pd_data d2 = clear_data W" "pd_next d2 = None"
    by (rule pd_allocate_Inr [OF b1(1) a2(1)])
  have "r2 \<noteq> r1" using b2(2) b1(3) by auto
  then show "rcu_inv W Q U []" "rcu_data Q U (ru_published U) = clear_data W" "rcu_data Q U (ru_current U) = clear_data W"
    "ru_pending U = []" "ru_readers U = Map.empty"
    using b1 b2 by (auto simp: rcu_inv_def rcu_live_def rcu_data_def a2(2) clear_data_def)
qed

section \<open>Safety\<close>

lemma rcu_do_inv:
  assumes "rcu_inv W Q U chain" "rcu_enabled W ev U" "rcu_do W Q ev U = Some (Inr U')"
  shows "\<exists>chain. rcu_inv W Q U' chain"
proof (cases ev)
  case (Write pix rp)
  with assms(2) have "pix < W" by simp
  from rcu_write_spec [OF assms(1) this, of rp] show ?thesis using assms(3) Write by (metis Inr_inject option.inject rcu_do.simps(1))
next
  case Publish
  have "\<not> pool_full Q (ru_pool U)"
  proof
    assume full: "pool_full Q (ru_pool U)"
    note i = rcu_invD [OF assms(1)]
    obtain pd where pd: "objs Q (ru_pool U) (ru_current U) = Some pd" using i(4) [of "ru_current U"] by (auto simp: rcu_live_def)
    obtain e where "pool_allocate Q \<lparr>pd_data = [], pd_instance = 0, pd_next = None\<rparr> (ru_pool U) = Some (Inl e)"
      using pool.alloc_full [OF i(1) full] by blast
    then show False using assms(3) Publish
      by (simp add: rcu_publish_def rcu_publish_next_def Let_def pool_get_spec [OF i(1) pd] pd_allocate_def)
  qed
  from rcu_publish_spec [OF assms(1) this] show ?thesis using assms(3) Publish by (metis Inr_inject option.inject rcu_do.simps(2))
next
  case (Callback k)
  with assms(2) have "k < length (ru_pending U)" "snd (ru_pending U ! k) = {}" by simp_all
  from rcu_callback_spec [OF assms(1) this] show ?thesis using assms(3) Callback by (metis Inr_inject option.inject rcu_do.simps(3))
next
  case Reclaim
  from rcu_reclaim_spec [OF assms(1)] show ?thesis using assms(3) Reclaim by (metis (no_types, lifting) Inr_inject bind_ro_simps(3) case_prod_conv option.inject rcu_do.simps(4))
next
  case (Lock rd)
  then show ?thesis using rcu_lock_spec [OF assms(1), of rd] assms(3) by auto
next
  case (Unlock rd)
  then show ?thesis using rcu_unlock_spec(1) [OF assms(1), of rd] assms(3) by auto
qed

lemma rcu_reach_inv: "rcu_reach W Q U0 U \<Longrightarrow> rcu_inv W Q U0 chain0 \<Longrightarrow> \<exists>chain. rcu_inv W Q U chain"
  by (induction rule: rcu_reach.induct) (auto dest: rcu_do_inv)

end
