(* ===== verification/Execution_Link.thy ===== *)
theory Execution_Link
  imports Ouch_Wire Stream_Link Tape_Buffer Pix_Mask Rcu_Publish
begin

text \<open>
  The order entry link of \<^verbatim>\<open>vr/market/rt/asx/execution_link.cpp\<close>: per partition a TCP link over
  two tape buffers, the counters of committed and flushed bytes in both directions, and one
  \<open>step\<close> that polls the links, publishes how much of what arrived is whole packets, takes over
  reclaimed descriptors, turns the agents' requests into packets, and sends. Assertions that a
  release build compiles out are not checked; what the code would then do outside the bounds of
  an array or through a null pointer is \<open>None\<close>. The queues between agents and link are lists
  (\<open>Spsc_Buffer\<close> models the queue itself).
\<close>

section \<open>State\<close>

record partition =
  pn_link :: "(tape_buffer, tape_buffer) data_link option"
  pn_sock :: tcp_socket
  pn_send_committed :: int
  pn_send_flushed :: int
  pn_recv_pos_begin :: int
  pn_recv_size :: int
  pn_recv_available :: int

record execution_link =
  xl_partitions :: "partition list"
  xl_active :: "32 word"
  xl_liid_map :: "(int \<times> nat) list"
  xl_templates :: templates
  xl_credentials :: "(byte list \<times> byte list) list option"
  xl_seqnums :: "nat list"
  xl_agents :: "(string \<times> 32 word) list"
  xl_queues :: "xl_request list list"
  xl_connect_count :: nat
  xl_login_count :: nat
  xl_pub :: rcu_pub

text \<open>The environment of a step: the options of the pool, bounds checks, and what the clocks read.\<close>

record link_env =
  le_pool :: pool_opts
  le_check :: bool
  le_recv_now :: "nat \<Rightarrow> int"
  le_send_now :: "nat \<Rightarrow> int"
  le_utc :: int

definition set_partition :: "nat \<Rightarrow> partition \<Rightarrow> execution_link \<Rightarrow> execution_link" where
  "set_partition pix P S = S\<lparr>xl_partitions := (xl_partitions S)[pix := P]\<rparr>"

text \<open>A partition and its link; an index or a pointer that is not there is undefined.\<close>

definition with_link ::
  "nat \<Rightarrow> (partition \<Rightarrow> (tape_buffer, tape_buffer) data_link \<Rightarrow> 'r result option) \<Rightarrow> execution_link \<Rightarrow> 'r result option" where
  "with_link pix f S =
     (if pix < length (xl_partitions S) then
        (case pn_link (xl_partitions S ! pix) of None \<Rightarrow> None | Some l \<Rightarrow> f (xl_partitions S ! pix) l)
      else None)"

section \<open>Starting\<close>

record link_config =
  lc_agents :: "(string \<times> (string \<times> nat) list) list"
  lc_liid_limit :: nat
  lc_instruments :: "string \<rightharpoonup> int \<times> nat"
  lc_capacity :: int
  lc_account :: "byte list"
  lc_credentials :: "(byte list \<times> byte list) list"

primrec map_symbols ::
  "link_config \<Rightarrow> (string \<times> nat) list \<Rightarrow> (int \<times> nat) list \<times> 32 word \<Rightarrow> ((int \<times> nat) list \<times> 32 word) result option" where
  "map_symbols cfg [] s = Some (Inr s)"
| "map_symbols cfg (sl # sls) s =
     (case lc_instruments cfg (fst sl) of
        None \<Rightarrow> Some (Inl Invalid_input)
      | Some lme \<Rightarrow>
          if snd sl < length (fst s) then map_symbols cfg sls ((fst s)[snd sl := lme], snd s OR push_bit (snd lme) 1)
          else None)"

primrec map_agents ::
  "link_config \<Rightarrow> (string \<times> (string \<times> nat) list) list \<Rightarrow> (int \<times> nat) list \<times> (string \<times> 32 word) list \<times> 32 word \<Rightarrow>
    ((int \<times> nat) list \<times> (string \<times> 32 word) list \<times> 32 word) result option" where
  "map_agents cfg [] s = Some (Inr s)"
| "map_agents cfg (a # as) s =
     (case s of (liid_map, contexts, pix_mask) \<Rightarrow>
        bind_ro (map_symbols cfg (snd a) (liid_map, 0)) (\<lambda>(liid_map, a_pix_mask).
          map_agents cfg as (liid_map, contexts @ [(fst a, a_pix_mask)], pix_mask OR a_pix_mask)))"

text \<open>\<open>tcp_link_factory::create\<close>: the mappings of the two tapes are at given addresses.\<close>

definition link_create :: "int \<Rightarrow> int \<Rightarrow> int \<Rightarrow> int \<Rightarrow> (tape_buffer, tape_buffer) data_link result" where
  "link_create page_size r_base s_base cap =
     bind_r (tape_new page_size r_base cap) (\<lambda>r.
     bind_r (tape_new page_size s_base cap) (\<lambda>s.
       Inr \<lparr>dl_recv = r, dl_send = s, dl_ts_last_recv = 0, dl_ts_last_send = 0\<rparr>))"

definition connect_partition :: "int \<Rightarrow> (nat \<Rightarrow> int \<times> int) \<Rightarrow> int \<Rightarrow> nat \<Rightarrow> execution_link \<Rightarrow> execution_link result option" where
  "connect_partition page_size bases cap pix S =
     (if pix < length (xl_partitions S) then
        bind_ro (Some (link_create page_size (fst (bases pix)) (snd (bases pix)) cap)) (\<lambda>l.
          Some (Inr (set_partition pix ((xl_partitions S ! pix)\<lparr>pn_link := Some l\<rparr>) S)))
      else None)"

definition link_start ::
  "link_config \<Rightarrow> fixed_fields \<Rightarrow> int \<Rightarrow> (nat \<Rightarrow> int \<times> int) \<Rightarrow> execution_link \<Rightarrow> execution_link result option" where
  "link_start cfg ff page_size bases S =
     bind_ro (map_agents cfg (lc_agents cfg) (replicate (lc_liid_limit cfg) (0, 0), [], 0)) (\<lambda>(liid_map, contexts, pix_mask).
       if contexts = [] then Some (Inl Check_failure)
       else if pix_mask = 0 then Some (Inl Check_failure)
       else if length (lc_credentials cfg) \<noteq> part_count then Some (Inl Check_failure)
       else
         bind_ro (Some (initialize_msg_templates ff (lc_account cfg))) (\<lambda>T.
           each_pix (connect_partition page_size bases (lc_capacity cfg)) (mask_pixes pix_mask)
             (S\<lparr>xl_liid_map := liid_map, xl_agents := contexts, xl_queues := replicate (length contexts) [],
               xl_active := pix_mask, xl_credentials := Some (lc_credentials cfg), xl_templates := T\<rparr>)))"

text \<open>\<open>stop\<close>: the links of the active partitions are closed.\<close>

definition stop_partition :: "nat \<Rightarrow> execution_link \<Rightarrow> execution_link result option" where
  "stop_partition pix S =
     (if pix < length (xl_partitions S) then Some (Inr (set_partition pix ((xl_partitions S ! pix)\<lparr>pn_link := None\<rparr>) S)) else None)"

definition link_stop :: "execution_link \<Rightarrow> execution_link result option" where
  "link_stop S = each_pix stop_partition (mask_pixes (xl_active S)) S"

text \<open>The state before \<open>start\<close>: the members' initialisers and \<open>initialize\<close>.\<close>

definition idle_socket :: tcp_socket where
  "idle_socket = \<lparr>so_in = [], so_accept = [], so_out = []\<rparr>"

definition idle_partition :: partition where
  "idle_partition = \<lparr>pn_link = None, pn_sock = idle_socket, pn_send_committed = 0, pn_send_flushed = 0,
     pn_recv_pos_begin = 0, pn_recv_size = 0, pn_recv_available = 0\<rparr>"

definition link_new :: "pool_opts \<Rightarrow> templates \<Rightarrow> poll_descriptor pool \<Rightarrow> execution_link result option" where
  "link_new Q T p =
     bind_ro (rcu_initialize part_count Q p) (\<lambda>U.
       Some (Inr \<lparr>xl_partitions = replicate part_count idle_partition, xl_active = 0, xl_liid_map = [], xl_templates = T,
         xl_credentials = None, xl_seqnums = [1, 1, 1, 1], xl_agents = [], xl_queues = [], xl_connect_count = 0,
         xl_login_count = 0, xl_pub = U\<rparr>))"

text \<open>\<open>connect\<close>: the agent's partitions, its token prefix and the number of its queue.\<close>

definition link_connect :: "string \<Rightarrow> execution_link \<Rightarrow> (32 word \<times> 32 word \<times> nat) result \<times> execution_link" where
  "link_connect aid S =
     (let ifc_index = xl_connect_count S; S = S\<lparr>xl_connect_count := xl_connect_count S + 1\<rparr> in
      if ifc_index > length (xl_agents S) then (Inl Out_of_bounds, S)
      else case map_of (xl_agents S) aid of
             None \<Rightarrow> (Inl Invalid_input, S)
           | Some a_mask \<Rightarrow> (Inr (a_mask, of_nat (0xA + ifc_index), ifc_index), S))"

text \<open>An agent's side of its queue.\<close>

definition link_enqueue :: "nat \<Rightarrow> xl_request \<Rightarrow> execution_link \<Rightarrow> execution_link option" where
  "link_enqueue ifc_index req S =
     (if ifc_index < length (xl_queues S) then Some (S\<lparr>xl_queues := (xl_queues S)[ifc_index := xl_queues S ! ifc_index @ [req]]\<rparr>)
      else None)"

section \<open>Receiving\<close>

definition recv_partition :: "link_env \<Rightarrow> nat \<Rightarrow> execution_link \<times> bool \<Rightarrow> (execution_link \<times> bool) result option" where
  "recv_partition E pix s =
     (case s of (S, update) \<Rightarrow>
        with_link pix (\<lambda>P l.
          bind_ro (recv_poll (tape_ops (le_check E)) (le_recv_now E pix) (pn_sock P) l) (\<lambda>((addr, sz), l, so).
            let P = P\<lparr>pn_link := Some l, pn_sock := so\<rparr> in
            if sz > pn_recv_size P then
              let recv_size_adj = pn_recv_size P - pn_recv_available P;
                  available = narrow 32 (sz - recv_size_adj);
                  data = addr + recv_size_adj
              in bind_ro (lift_o (b_read (tape_ops (le_check E)) data (nat available) (dl_recv l))) (\<lambda>bytes.
                 bind_ro (lift_o (consume_loop consume_recv bytes available 0 [])) (\<lambda>(available, parsed, visits).
                   let P = P\<lparr>pn_recv_size := narrow 32 sz, pn_recv_available := available\<rparr>;
                       S = set_partition pix P S
                   in if parsed > 0 then
                        bind_ro (rcu_write (le_pool E) pix
                            \<lparr>rp_pos = pn_recv_pos_begin P + parsed + recv_size_adj, rp_end = data + parsed, rp_ts = dl_ts_last_recv l\<rparr> (xl_pub S)) (\<lambda>U.
                          Some (Inr (S\<lparr>xl_pub := U\<rparr>, True)))
                      else Some (Inr (S, update))))
            else Some (Inr (set_partition pix P S, update)))) S)"

definition recv_phase :: "link_env \<Rightarrow> execution_link \<Rightarrow> execution_link result option" where
  "recv_phase E S =
     bind_ro (each_pix (recv_partition E) (mask_pixes (xl_active S)) (S, False)) (\<lambda>(S, update).
       if update then bind_ro (rcu_publish (le_pool E) (xl_pub S)) (\<lambda>U. Some (Inr (S\<lparr>xl_pub := U\<rparr>)))
       else Some (Inr S))"

section \<open>Requests\<close>

text \<open>Space for a packet in the send buffer, the packet stored there, and its bytes counted.\<close>

definition send_frame :: "link_env \<Rightarrow> bool \<Rightarrow> byte list \<Rightarrow> nat \<Rightarrow> execution_link \<Rightarrow> execution_link result option" where
  "send_frame E blank bytes pix S =
     with_link pix (\<lambda>P l.
       bind_ro (send_allocate (tape_ops (le_check E)) (int (length bytes)) blank l) (\<lambda>(addr, l).
       bind_ro (send_store (tape_ops (le_check E)) addr bytes l) (\<lambda>l.
         Some (Inr (set_partition pix (P\<lparr>pn_link := Some l, pn_send_committed := pn_send_committed P + int (length bytes)\<rparr>) S))))) S"

definition emit_order :: "link_env \<Rightarrow> xl_request \<Rightarrow> execution_link \<Rightarrow> execution_link result option" where
  "emit_order E req S =
     (if 0 \<le> req_liid req \<and> req_liid req < int (length (xl_liid_map S)) then
        let lme = xl_liid_map S ! nat (req_liid req) in
        send_frame E False (request_frame (xl_templates S) (fst lme) req) (snd lme) S
      else None)"

definition heartbeat_packet :: "byte list" where
  "heartbeat_packet = net_write 2 1 @ [byte_of_char CHR ''R'']"

definition emit_heartbeat :: "link_env \<Rightarrow> nat \<Rightarrow> execution_link \<Rightarrow> execution_link result option" where
  "emit_heartbeat E pix S = send_frame E False heartbeat_packet pix S"

text \<open>The login packet, over blanks: names, password and the expected sequence number, right-justified.\<close>

definition login_packet :: "byte list \<times> byte list \<Rightarrow> nat \<Rightarrow> byte list option" where
  "login_packet lp seqnum =
     (let msg = replicate (struct_size SoupTCP_login_request) BLANK;
          msg = copy_to_alphanum SoupTCP_login_request L_username (fst lp) msg;
          msg = copy_to_alphanum SoupTCP_login_request L_password (snd lp) msg
      in case rjust_print_decimal_nonnegative seqnum 20 (replicate 20 CHR '' '') of
           None \<Rightarrow> None
         | Some (n, text) \<Rightarrow>
             Some (net_write 2 (1 + int (struct_size SoupTCP_login_request)) @ [byte_of_char CHR ''L''] @
               set_field SoupTCP_login_request L_seqnum (map byte_of_char text) msg))"

definition emit_login_to :: "link_env \<Rightarrow> nat \<Rightarrow> execution_link \<Rightarrow> execution_link result option" where
  "emit_login_to E pix S =
     (case xl_credentials S of
        None \<Rightarrow> None
      | Some creds \<Rightarrow>
          if pix < length creds then
            (if pix < length (xl_seqnums S) then
               bind_ro (lift_o (login_packet (creds ! pix) (xl_seqnums S ! pix))) (\<lambda>bytes. send_frame E True bytes pix S)
             else None)
          else Some (Inl Out_of_bounds))"

definition emit_login :: "link_env \<Rightarrow> execution_link \<Rightarrow> execution_link result option" where
  "emit_login E S =
     bind_ro (each_pix (emit_login_to E) (mask_pixes (xl_active S)) S) (\<lambda>S. Some (Inr (S\<lparr>xl_credentials := None\<rparr>)))"

text \<open>One queue: at most one request; it leaves the queue after it was processed.\<close>

definition serve_queue :: "link_env \<Rightarrow> nat \<Rightarrow> nat \<Rightarrow> execution_link \<Rightarrow> execution_link result option" where
  "serve_queue E agent_count ifc_index S =
     (if ifc_index < length (xl_queues S) then
        (case xl_queues S ! ifc_index of
           [] \<Rightarrow> Some (Inr S)
         | req # rest \<Rightarrow>
             bind_ro (if req \<noteq> Start_login then emit_order E req S
                 else
                   let S = S\<lparr>xl_login_count := xl_login_count S + 1\<rparr> in
                   if xl_login_count S = agent_count then emit_login E S else Some (Inr S)) (\<lambda>S.
               Some (Inr (S\<lparr>xl_queues := (xl_queues S)[ifc_index := rest]\<rparr>))))
      else None)"

definition request_phase :: "link_env \<Rightarrow> execution_link \<Rightarrow> execution_link result option" where
  "request_phase E S =
     (let agent_count = xl_connect_count S in each_pix (serve_queue E agent_count) [0..<agent_count] S)"

section \<open>Sending and flushing\<close>

definition heartbeat_timeout :: int where "heartbeat_timeout = 10 * 1000000000"

definition send_partition :: "link_env \<Rightarrow> nat \<Rightarrow> execution_link \<Rightarrow> execution_link result option" where
  "send_partition E pix S =
     with_link pix (\<lambda>P l.
       let send_pending = narrow 32 (pn_send_committed P - pn_send_flushed P) in
       if send_pending > 0 then
         bind_ro (send_flush (tape_ops (le_check E)) (le_send_now E pix) send_pending (pn_sock P) l) (\<lambda>(rc, l, so).
           Some (Inr (set_partition pix (P\<lparr>pn_link := Some l, pn_sock := so, pn_send_flushed := pn_send_flushed P + rc\<rparr>) S)))
       else if le_utc E \<ge> dl_ts_last_send l + heartbeat_timeout then emit_heartbeat E pix S
       else Some (Inr S)) S"

definition flush_partition :: "link_env \<Rightarrow> int list \<Rightarrow> int list \<Rightarrow> nat \<Rightarrow> execution_link \<Rightarrow> execution_link result option" where
  "flush_partition E pos_min_bound pos_flushed pix S =
     with_link pix (\<lambda>P l.
       let pos_min_bound_pix = pos_min_bound ! pix; link_pos_flushed_pix = pos_flushed ! pix in
       if link_pos_flushed_pix < pos_min_bound_pix \<and> pos_min_bound_pix < pos_max then
         let pos_increment = narrow 32 (pos_min_bound_pix - link_pos_flushed_pix) in
         bind_ro (Some (recv_flush (tape_ops (le_check E)) pos_increment l)) (\<lambda>l.
           Some (Inr (set_partition pix (P\<lparr>pn_link := Some l, pn_recv_pos_begin := pos_min_bound_pix,
             pn_recv_size := pn_recv_size P - pos_increment\<rparr>) S)))
       else Some (Inr S)) S"

definition link_step :: "link_env \<Rightarrow> execution_link \<Rightarrow> execution_link result option" where
  "link_step E S =
     (let link_pos_flushed = map pn_recv_pos_begin (xl_partitions S) in
      bind_ro (recv_phase E S) (\<lambda>S.
      bind_ro (rcu_reclaim part_count (le_pool E) (xl_pub S)) (\<lambda>(pos_min_bound, U).
      bind_ro (request_phase E (S\<lparr>xl_pub := U\<rparr>)) (\<lambda>S.
        each_pix (\<lambda>pix S. bind_ro (send_partition E pix S) (flush_partition E pos_min_bound link_pos_flushed pix))
          (mask_pixes (xl_active S)) S))))"

end
