(* ===== verification/Link_Tape.thy ===== *)
theory Link_Tape
  imports Execution_Link
begin

text \<open>
  The link's buffers are tapes: what polling, committing and flushing do to the memory behind
  them, exactly; and the part of a stream of packets that has arrived in whole.
\<close>

section \<open>Appending to a tape\<close>

definition tape_append :: "byte list \<Rightarrow> tape_buffer \<Rightarrow> tape_buffer" where
  "tape_append bs s = s\<lparr>tp_mem := patch (tp_mem s) (tape_w s) bs, tp_w_addr := tp_w_addr s + int (length bs)\<rparr>"

text \<open>All bytes that were ever appended; consuming them does not take them off the tape.\<close>

definition tape_all :: "tape_buffer \<Rightarrow> byte list" where
  "tape_all s = take (tape_w s) (tp_mem s)"

lemma tape_append_inv:
  assumes "tape_inv s" "int (length bs) \<le> tape_room s"
  shows "tape_inv (tape_append bs s)" "tape_w (tape_append bs s) = tape_w s + length bs" "tape_r (tape_append bs s) = tape_r s"
    "tape_all (tape_append bs s) = tape_all s @ bs" "tape_room (tape_append bs s) = tape_room s - int (length bs)"
    "tape_size (tape_append bs s) = tape_size s + int (length bs)" "tp_r_addr (tape_append bs s) = tp_r_addr s"
    "tp_base (tape_append bs s) = tp_base s" "tp_reserve_size (tape_append bs s) = tp_reserve_size s"
proof -
  note p = tape_posD [OF assms(1)]
  have fit: "tape_w s + length bs \<le> length (tp_mem s)" using assms(2) p(5) by linarith
  show "tape_inv (tape_append bs s)"
    using assms fit by (simp add: tape_inv_def tape_append_def tape_room_def)
  have "tp_w_addr s + int (length bs) - tp_base s = int (tape_w s + length bs)" using p(2) by simp
  moreover have "tape_w (tape_append bs s) = nat (tp_w_addr s + int (length bs) - tp_base s)"
    by (simp add: tape_w_def tape_append_def)
  ultimately show w: "tape_w (tape_append bs s) = tape_w s + length bs" by (simp only: nat_int)
  show "tape_all (tape_append bs s) = tape_all s @ bs"
    unfolding tape_all_def w using fit p(4) by (simp add: tape_append_def patch_def)
qed (simp_all add: tape_append_def tape_r_def tape_room_def tape_size_def)

lemma tape_append_store:
  assumes "tape_inv s" "int (length bs) \<le> tape_room s"
  shows "tape_write (tp_w_addr s) bs s = Some (s\<lparr>tp_mem := patch (tp_mem s) (tape_w s) bs\<rparr>)"
proof -
  note p = tape_posD [OF assms(1)]
  have "tape_w s + length bs \<le> length (tp_mem s)" using assms(2) p(5) by linarith
  then show ?thesis using tape_store(1) [OF assms(1), of "tape_w s" bs] p(2) by simp
qed

lemma tape_advance:
  assumes "tape_inv s" "0 \<le> n" "n \<le> tape_room s"
  shows "tape_w_advance chk n s = Inr (s\<lparr>tp_w_addr := tp_w_addr s + n\<rparr>)"
proof -
  have "n \<le> tape_capacity s - tape_size s" using assms(3) tape_posD [OF assms(1)] by (simp add: tape_capacity_def)
  then show ?thesis using assms(2) by (simp add: tape_w_advance_def)
qed

lemma tape_content: "tape_inv s \<Longrightarrow> Byte_Buffer.content (tape_ops chk) s = drop (tape_r s) (tape_all s)"
  using tape.content_stretch [of s chk] tape_posD [of s] by (simp add: stretch_def tape_all_def drop_take)

lemma length_tape_all: "tape_inv s \<Longrightarrow> length (tape_all s) = tape_w s"
  using tape_posD(4) [of s] by (simp add: tape_all_def)

lemma tape_read_all:
  assumes "tape_inv s" "k + n \<le> tape_w s"
  shows "tape_read (tp_base s + int k) n s = Some (take n (drop k (tape_all s)))"
proof -
  have "k + n \<le> length (tp_mem s)" using assms(2) tape_posD(4) [OF assms(1)] by simp
  moreover have "stretch (tp_mem s) k (k + n) = take n (drop k (tape_all s))"
    using assms(2) by (simp add: stretch_def tape_all_def drop_take)
  ultimately show ?thesis using tape_load [OF assms(1), of k n] by simp
qed

section \<open>Polling\<close>

text \<open>The next read does not fail, no send fails.\<close>

definition can_recv :: "tcp_socket \<Rightarrow> bool" where
  "can_recv so \<longleftrightarrow> (case so_in so of [] \<Rightarrow> True | Arrived bs # rest \<Rightarrow> True | _ \<Rightarrow> False)"

definition can_send :: "tcp_socket \<Rightarrow> bool" where
  "can_send so \<longleftrightarrow> Send_failed \<notin> set (so_accept so)"

lemma recv_drain_tape:
  assumes "tape_inv s" "so_in so = Arrived bs # rest" "bs \<noteq> []" "int (length bs) \<le> tape_room s"
  shows "recv_drain (tape_ops chk) r s so = Some (Inr (r + int (length bs), tape_append bs s, so\<lparr>so_in := rest\<rparr>))"
proof -
  let ?B = "tape_ops chk" and ?s = "tape_append bs s" and ?so = "so\<lparr>so_in := Arrived [] # rest\<rparr>"
  have win: "int (length bs) \<le> b_w_window ?B s"
    using assms(4) tape_posD [OF assms(1)] by (simp add: tape_ops_def tape_w_window_def tape_capacity_def)
  then have t: "take (nat (b_w_window ?B s)) bs = bs" "drop (nat (b_w_window ?B s)) bs = []" by simp_all
  have p: "tcp_recv_poll (b_w_window ?B s) so = Inr (int (length bs), bs, ?so)"
    using assms(2,3) t by (simp add: tcp_recv_poll_def)
  let ?m = "s\<lparr>tp_mem := patch (tp_mem s) (tape_w s) bs\<rparr>"
  have fit: "tape_w s + length bs \<le> length (tp_mem s)" using assms(4) tape_posD [OF assms(1)] by linarith
  have m: "tape_inv ?m" "tape_room ?m = tape_room s" using tape_store(2) [OF assms(1) fit] by (simp_all add: tape_room_def)
  have w: "b_write ?B (b_w_position ?B s) bs s = Some ?m" "b_w_advance ?B (int (length bs)) ?m = Inr ?s"
    using tape_append_store [OF assms(1,4)] tape_advance [OF m(1), of "int (length bs)" chk] assms(4) m(2)
    by (simp_all add: tape_ops_def tape_append_def)
  have "recv_drain ?B r s so = recv_drain ?B (r + int (length bs)) ?s ?so"
    using p w assms(3) by (subst recv_drain.simps) simp
  also have "tcp_recv_poll (b_w_window ?B ?s) ?so = Inr (0, [], so\<lparr>so_in := rest\<rparr>)" by (simp add: tcp_recv_poll_def)
  then have "recv_drain ?B (r + int (length bs)) ?s ?so = Some (Inr (r + int (length bs), ?s, so\<lparr>so_in := rest\<rparr>))"
    using assms(3) by (subst recv_drain.simps) simp
  finally show ?thesis .
qed

lemma recv_poll_tape:
  assumes "tape_inv (dl_recv l)" "int (length (ready so)) \<le> tape_room (dl_recv l)" "can_recv so"
  obtains l' so' where "recv_poll (tape_ops chk) now so l = Some (Inr ((tp_r_addr (dl_recv l), tape_size (dl_recv l')), l', so'))"
    "dl_recv l' = tape_append (ready so) (dl_recv l)" "dl_send l' = dl_send l" "dl_ts_last_send l' = dl_ts_last_send l"
    "so_out so' = so_out so" "so_accept so' = so_accept so" "ready so \<noteq> [] \<Longrightarrow> dl_ts_last_recv l' = now"
proof -
  let ?B = "tape_ops chk"
  have op: "b_r_position ?B = tp_r_addr" "b_size ?B = tape_size" "b_w_window ?B = tape_w_window" by (simp_all add: tape_ops_def)
  have nil: "tape_append [] s = s" for s by (simp add: tape_append_def patch_def)
  show ?thesis
  proof (cases "ready so = []")
    case False
    then obtain bs rest where so: "so_in so = Arrived bs # rest" "ready so = bs" "bs \<noteq> []"
      by (auto simp: ready_def split: list.splits arrival.splits)
    have "int (length bs) \<le> tape_w_window (dl_recv l)"
      using assms(2) so(2) tape_posD [OF assms(1)] by (simp add: tape_w_window_def tape_capacity_def)
    then have "tape_w_window (dl_recv l) > 0" using so(3) by (metis length_greater_0_conv of_nat_0_less_iff order_less_le_trans)
    with recv_drain_tape [OF assms(1) so(1,3), of chk 0] assms(2) so show ?thesis
      by (intro that [of "l\<lparr>dl_recv := tape_append bs (dl_recv l), dl_ts_last_recv := now\<rparr>" "so\<lparr>so_in := rest\<rparr>"])
        (simp_all add: recv_poll_def op tape_append_inv(7) [OF assms(1)])
  next
    case True
    have "\<exists>so'. recv_drain ?B 0 (dl_recv l) so = Some (Inr (0, dl_recv l, so')) \<and> so_out so' = so_out so \<and> so_accept so' = so_accept so"
      using assms(3) True by (subst recv_drain.simps) (auto simp: can_recv_def ready_def tcp_recv_poll_def split: list.splits arrival.splits)
    then obtain so' where so': "recv_drain ?B 0 (dl_recv l) so = Some (Inr (0, dl_recv l, so'))" "so_out so' = so_out so" "so_accept so' = so_accept so"
      by blast
    show ?thesis
    proof (cases "tape_w_window (dl_recv l) > 0")
      case w: True
      then show ?thesis using so' True by (intro that [of l so']) (simp_all add: recv_poll_def op nil)
    next
      case w: False
      then show ?thesis using True by (intro that [of l so]) (simp_all add: recv_poll_def op nil)
    qed
  qed
qed

section \<open>Committing and sending\<close>

lemma send_append:
  assumes "tape_inv (dl_send l)" "int (length bs) \<le> tape_room (dl_send l)"
  shows "bind_ro (send_allocate (tape_ops chk) (int (length bs)) blank l) (\<lambda>(addr, l). send_store (tape_ops chk) addr bs l) =
    Some (Inr (l\<lparr>dl_send := tape_append bs (dl_send l)\<rparr>))"
proof -
  let ?s = "dl_send l" and ?n = "int (length bs)"
  note p = tape_posD [OF assms(1)]
  let ?a = "?s\<lparr>tp_w_addr := tp_w_addr ?s + ?n\<rparr>"
  have adv: "tape_w_advance chk ?n ?s = Inr ?a" by (rule tape_advance [OF assms(1)]) (use assms(2) in simp_all)
  have a: "tape_inv ?a" using assms by (simp add: tape_inv_def tape_room_def)
  have fit: "tape_w ?s + length bs \<le> length (tp_mem ?s)" using assms(2) p(5) by linarith
  have addr: "tp_r_addr ?a + tape_size ?s = tp_base ?a + int (tape_w ?s)" using p by simp
  have len: "length (blank_fill (nat ?n)) = length bs" by (simp add: blank_fill_def)
  show ?thesis
  proof (cases blank)
    case False
    have "tape_write (tp_base ?a + int (tape_w ?s)) bs ?a = Some (?a\<lparr>tp_mem := patch (tp_mem ?s) (tape_w ?s) bs\<rparr>)"
      using tape_store(1) [OF a, of "tape_w ?s" bs] fit by simp
    then show ?thesis using False addr
      by (simp add: send_allocate_def send_store_def tape_ops_def adv Let_def tape_append_def)
  next
    case True
    let ?m = "patch (tp_mem ?s) (tape_w ?s) (blank_fill (nat ?n))"
    have m: "length ?m = length (tp_mem ?s)" using fit len by simp
    have s1: "tape_write (tp_base ?a + int (tape_w ?s)) (blank_fill (nat ?n)) ?a = Some (?a\<lparr>tp_mem := ?m\<rparr>)"
      using tape_store(1) [OF a, of "tape_w ?s" "blank_fill (nat ?n)"] fit len by simp
    have "patch ?m (tape_w ?s) bs = patch (tp_mem ?s) (tape_w ?s) bs"
      using fit len by (simp add: patch_def)
    then have s2: "tape_write (tp_base ?a + int (tape_w ?s)) bs (?a\<lparr>tp_mem := ?m\<rparr>) = Some (?a\<lparr>tp_mem := patch (tp_mem ?s) (tape_w ?s) bs\<rparr>)"
      using tape_store(1) [of "?a\<lparr>tp_mem := ?m\<rparr>" "tape_w ?s" bs] a m fit by (simp add: tape_inv_def)
    show ?thesis using True addr s1 s2
      by (simp add: send_allocate_def send_store_def tape_ops_def adv Let_def tape_append_def)
  qed
qed

definition tape_consume :: "nat \<Rightarrow> tape_buffer \<Rightarrow> tape_buffer" where
  "tape_consume n s = s\<lparr>tp_r_addr := tp_r_addr s + int n\<rparr>"

text \<open>The bytes still to be sent.\<close>

definition tape_rest :: "tape_buffer \<Rightarrow> byte list" where
  "tape_rest s = drop (tape_r s) (tape_all s)"

lemma length_tape_rest: "tape_inv s \<Longrightarrow> int (length (tape_rest s)) = tape_size s"
  using tape_posD [of s] by (simp add: tape_rest_def length_tape_all)

lemma tape_consume_inv:
  assumes "tape_inv s" "int n \<le> tape_size s"
  shows "tape_inv (tape_consume n s)" "tape_all (tape_consume n s) = tape_all s" "tape_r (tape_consume n s) = tape_r s + n"
    "tape_w (tape_consume n s) = tape_w s" "tape_room (tape_consume n s) = tape_room s" "tape_size (tape_consume n s) = tape_size s - int n"
    "tape_rest (tape_consume n s) = drop n (tape_rest s)" "tp_base (tape_consume n s) = tp_base s"
    "tp_reserve_size (tape_consume n s) = tp_reserve_size s" "tp_r_addr (tape_consume n s) = tp_r_addr s + int n"
proof -
  show "tape_inv (tape_consume n s)" using assms by (simp add: tape_inv_def tape_consume_def tape_size_def)
  have "tape_r (tape_consume n s) = nat (tp_r_addr s + int n - tp_base s)" by (simp add: tape_r_def tape_consume_def)
  moreover have "tp_r_addr s + int n - tp_base s = int (tape_r s + n)" using tape_posD(1) [OF assms(1)] by simp
  ultimately show r: "tape_r (tape_consume n s) = tape_r s + n" by (simp only: nat_int)
  show a: "tape_all (tape_consume n s) = tape_all s" by (simp add: tape_all_def tape_consume_def tape_w_def)
  show "tape_rest (tape_consume n s) = drop n (tape_rest s)" by (simp add: tape_rest_def a r add.commute)
qed (simp_all add: tape_consume_def tape_w_def tape_room_def tape_size_def)

lemma tape_append_rest: "tape_inv s \<Longrightarrow> int (length bs) \<le> tape_room s \<Longrightarrow> tape_rest (tape_append bs s) = tape_rest s @ bs"
  using tape_posD(3) [of s] by (simp add: tape_rest_def tape_append_inv length_tape_all)

lemma tape_r_advance_exact: "int n \<le> tape_size s \<Longrightarrow> tape_r_advance chk (int n) s = Inr (tape_consume n s)"
  by (simp add: tape_r_advance_def tape_consume_def)

lemma send_drain_tape:
  assumes "tape_inv s" "0 \<le> r" "r \<le> len" "len - r \<le> tape_size s" "Send_failed \<notin> set as"
  obtains n as' where "send_drain (tape_ops chk) len as r s out = Some (Inr (r + int n, tape_consume n s, as', out @ take n (tape_rest s)))"
    "r + int n \<le> len" "set as' \<subseteq> set as"
proof -
  have "\<exists>n as'. send_drain (tape_ops chk) len as r s out = Some (Inr (r + int n, tape_consume n s, as', out @ take n (tape_rest s))) \<and>
    r + int n \<le> len \<and> set as' \<subseteq> set as"
    using assms
  proof (induction as arbitrary: r s out)
    case Nil
    then show ?case by (intro exI [of _ 0]) (simp add: tape_consume_def)
  next
    case (Cons a as)
    show ?case
    proof (cases "r < len \<and> a \<noteq> Accepts 0")
      case False
      then show ?thesis using Cons.prems
        by (cases a) (auto simp: tcp_send_def tape_consume_def intro!: exI [of _ "0::nat"])
    next
      case True
      then obtain k where a: "a = Accepts k" "0 < k" using Cons.prems(5) by (cases a) auto
      define n where "n = nat (min (int k) (len - r))"
      have n: "0 < n" "r + int n \<le> len" "min (int k) (len - r) = int n" using True a(2) by (auto simp: n_def)
      have le: "int n \<le> tape_size s" using n(2) Cons.prems(4) by linarith
      note c = tape_consume_inv [OF Cons.prems(1) le]
      have rn: "tape_r s + n \<le> tape_w s" using le tape_posD [OF Cons.prems(1)] by linarith
      have "tape_read (tp_r_addr s) n s = Some (take n (tape_rest s))"
        using tape_read_all [OF Cons.prems(1) rn] tape_posD(1) [OF Cons.prems(1)] by (simp add: tape_rest_def)
      then have step: "send_drain (tape_ops chk) len (a # as) r s out = send_drain (tape_ops chk) len as (r + int n) (tape_consume n s) (out @ take n (tape_rest s))"
        using True n tape_r_advance_exact [OF le, of chk] by (simp add: a(1) tcp_send_def tape_ops_def)
      have "0 \<le> r + int n" "len - (r + int n) \<le> tape_size (tape_consume n s)" "Send_failed \<notin> set as"
        using Cons.prems c(6) by auto
      from Cons.IH [OF c(1) this(1) n(2) this(2,3), of "out @ take n (tape_rest s)"] obtain m as' where m:
        "send_drain (tape_ops chk) len as (r + int n) (tape_consume n s) (out @ take n (tape_rest s)) =
          Some (Inr (r + int n + int m, tape_consume m (tape_consume n s), as', (out @ take n (tape_rest s)) @ take m (tape_rest (tape_consume n s))))"
        "r + int n + int m \<le> len" "set as' \<subseteq> set as" by blast
      have "take n (tape_rest s) @ take m (tape_rest (tape_consume n s)) = take (n + m) (tape_rest s)" by (simp add: c(7) take_add)
      moreover have "tape_consume m (tape_consume n s) = tape_consume (n + m) s" by (simp add: tape_consume_def add.assoc)
      ultimately show ?thesis using step m by (intro exI [of _ "n + m"] exI [of _ as']) (auto simp: add.assoc)
    qed
  qed
  then show ?thesis using that by blast
qed

lemma send_flush_tape:
  assumes "tape_inv (dl_send l)" "0 \<le> len" "len \<le> tape_size (dl_send l)" "can_send so"
  obtains n l' so' where "send_flush (tape_ops chk) now len so l = Some (Inr (int n, l', so'))" "int n \<le> len"
    "dl_send l' = tape_consume n (dl_send l)" "dl_recv l' = dl_recv l" "so_out so' = so_out so @ take n (tape_rest (dl_send l))"
    "so_in so' = so_in so" "can_send so'" "dl_ts_last_recv l' = dl_ts_last_recv l"
proof -
  have "Send_failed \<notin> set (so_accept so)" using assms(4) by (simp add: can_send_def)
  then obtain n as' where d: "send_drain (tape_ops chk) len (so_accept so) 0 (dl_send l) (so_out so) =
      Some (Inr (0 + int n, tape_consume n (dl_send l), as', so_out so @ take n (tape_rest (dl_send l))))" "0 + int n \<le> len"
      "set as' \<subseteq> set (so_accept so)"
    using send_drain_tape [OF assms(1) order_refl assms(2), of "so_accept so" chk "so_out so"] assms(3) by auto
  show ?thesis
    by (rule that [of n "if int n > 0 then l\<lparr>dl_send := tape_consume n (dl_send l), dl_ts_last_send := now\<rparr> else l\<lparr>dl_send := tape_consume n (dl_send l)\<rparr>"
        "so\<lparr>so_accept := as', so_out := so_out so @ take n (tape_rest (dl_send l))\<rparr>"])
      (use d assms(4) in \<open>auto simp: send_flush_def can_send_def\<close>)
qed

lemma recv_flush_tape:
  "int n \<le> tape_size (dl_recv l) \<Longrightarrow> recv_flush (tape_ops chk) (int n) l = Inr (l\<lparr>dl_recv := tape_consume n (dl_recv l)\<rparr>)"
  by (simp add: recv_flush_def tape_ops_def tape_r_advance_exact)

section \<open>Whole packets\<close>

text \<open>Of the packets a peer sends, those that are complete in the first \<open>n\<close> bytes.\<close>

type_synonym packet = "byte \<times> byte list"

fun whole :: "packet list \<Rightarrow> nat \<Rightarrow> packet list" where
  "whole [] n = []"
| "whole ((ty, body) # fs) n = (if 3 + length body \<le> n then (ty, body) # whole fs (n - (3 + length body)) else [])"

abbreviation wire :: "packet list \<Rightarrow> byte list" where "wire \<equiv> soup_recv.wire"

definition whole_size :: "packet list \<Rightarrow> nat \<Rightarrow> nat" where
  "whole_size fs n = length (wire (whole fs n))"

lemma wire_simps [simp]: "wire [] = []" "wire ((ty, body) # fs) = frame ty body @ wire fs" "wire (fs @ gs) = wire fs @ wire gs"
  by (simp_all add: soup_recv.wire_def)

lemma whole_prefix: "whole fs n @ drop (length (whole fs n)) fs = fs"
  by (induction fs n rule: whole.induct) simp_all

lemma whole_size_le: "whole_size fs n \<le> n"
  by (induction fs n rule: whole.induct) (auto simp: whole_size_def)

lemma whole_mono: "n \<le> m \<Longrightarrow> whole fs m = whole fs n @ whole (drop (length (whole fs n)) fs) (m - whole_size fs n)"
proof (induction fs n arbitrary: m rule: whole.induct)
  case (2 ty body fs n)
  let ?l = "3 + length body"
  show ?case
  proof (cases "?l \<le> n")
    case True
    have "n - ?l \<le> m - ?l" using "2.prems" by simp
    from "2.IH" [OF True this] have "whole fs (m - ?l) = whole fs (n - ?l) @ whole (drop (length (whole fs (n - ?l))) fs) (m - ?l - whole_size fs (n - ?l))" .
    moreover have "whole_size ((ty, body) # fs) n = ?l + whole_size fs (n - ?l)" using True by (simp add: whole_size_def)
    ultimately show ?thesis using True "2.prems" by (simp only: whole.simps) simp
  qed (simp add: whole_size_def)
qed (simp add: whole_size_def)

lemma whole_size_mono: "n \<le> m \<Longrightarrow> whole_size fs n \<le> whole_size fs m"
  using whole_mono [of n m fs] by (simp add: whole_size_def)

lemma whole_0 [simp]: "whole fs 0 = []" "whole_size fs 0 = 0"
  by (cases fs; auto simp: whole_size_def)+

text \<open>The bytes beyond the complete packets are a strict prefix of the next one.\<close>

lemma whole_partial:
  assumes "n \<le> length (wire fs)" "soup_recv.good fs"
  shows "\<exists>ty body k. frame_ok body \<and> k < 3 + length body \<and> take n (wire fs) = wire (whole fs n) @ take k (frame ty body) \<and>
    n = whole_size fs n + k"
  using assms
proof (induction fs n rule: whole.induct)
  case (1 n)
  then show ?case by (intro exI [of _ 0] exI [of _ "[]"]) (simp add: frame_ok_def whole_size_def)
next
  case (2 ty body fs n)
  show ?case
  proof (cases "3 + length body \<le> n")
    case True
    have "n - (3 + length body) \<le> length (wire fs)" "soup_recv.good fs" using "2.prems" True by (auto simp: soup_recv.good_def)
    from "2.IH" [OF True this] obtain ty' body' k where k: "frame_ok body'" "k < 3 + length body'"
      "take (n - (3 + length body)) (wire fs) = wire (whole fs (n - (3 + length body))) @ take k (frame ty' body')"
      "n - (3 + length body) = whole_size fs (n - (3 + length body)) + k" by blast
    show ?thesis
      by (rule exI [of _ ty'], rule exI [of _ body'], rule exI [of _ k]) (use k True in \<open>simp add: whole_size_def\<close>)
  next
    case False
    then have "frame_ok body" "n < 3 + length body" using "2.prems"(2) by (auto simp: soup_recv.good_def)
    then show ?thesis by (intro exI [of _ ty] exI [of _ body] exI [of _ n]) (simp add: whole_size_def)
  qed
qed

text \<open>The framing loop over what arrived since the last complete packet.\<close>

lemma frame_new_bytes:
  assumes "n \<le> m" "m \<le> length (wire fs)" "soup_recv.good fs"
  shows "consume_loop consume_recv (drop (whole_size fs n) (take m (wire fs))) (int (m - whole_size fs n)) 0 [] =
    Some (int (m - whole_size fs m), int (whole_size fs m - whole_size fs n), soup_recv.visits (drop (length (whole fs n)) (whole fs m)))"
proof -
  let ?gs = "drop (length (whole fs n)) fs" and ?d = "m - whole_size fs n"
  have le: "whole_size fs n \<le> m" using whole_size_le [of fs n] assms(1) by linarith
  have w: "wire fs = wire (whole fs n) @ wire ?gs" using whole_prefix [of fs n] wire_simps(3) by metis
  have d: "drop (whole_size fs n) (take m (wire fs)) = take ?d (wire ?gs)"
    unfolding w using le by (simp add: whole_size_def)
  have "?d \<le> length (wire ?gs)" using assms(2) unfolding w by (simp add: whole_size_def)
  moreover have good: "soup_recv.good ?gs" using assms(3) in_set_dropD unfolding soup_recv.good_def by fastforce
  ultimately obtain ty body k where k: "frame_ok body" "k < 3 + length body" "take ?d (wire ?gs) = wire (whole ?gs ?d) @ take k (frame ty body)"
    "?d = whole_size ?gs ?d + k" using whole_partial by blast
  have gw: "soup_recv.good (whole ?gs ?d)"
    using good whole_prefix [of ?gs ?d] by (metis (no_types, lifting) Un_iff set_append soup_recv.good_def)
  have m: "whole fs m = whole fs n @ whole ?gs ?d" by (rule whole_mono [OF assms(1)])
  have s: "whole_size fs m = whole_size fs n + whole_size ?gs ?d" by (simp add: whole_size_def m)
  have len: "length (wire (whole ?gs ?d)) + k = ?d" using k(4) by (simp add: whole_size_def)
  have "consume_loop consume_recv (wire (whole ?gs ?d) @ take k (frame ty body)) (int ?d) 0 [] =
      Some (int k, int (length (wire (whole ?gs ?d))), soup_recv.visits (whole ?gs ?d))"
    using soup_recv.loop_exact [OF gw k(1,2), of "[]" ty "[]"] unfolding len by simp
  moreover have "k = m - whole_size fs m" using k(4) s le by linarith
  moreover have "length (wire (whole ?gs ?d)) = whole_size fs m - whole_size fs n" using s by (simp add: whole_size_def)
  moreover have "whole ?gs ?d = drop (length (whole fs n)) (whole fs m)" by (simp add: m)
  ultimately show ?thesis unfolding d k(3) by simp
qed

end
