(* ===== verification/Link_Inv.thy ===== *)
theory Link_Inv
  imports Link_Tape
begin

text \<open>
  The invariant of the execution link and the phases of its step that deal with arriving bytes.
  \<open>FS pix\<close> are the packets that the exchange sends on partition \<open>pix\<close>; TCP delivers their bytes
  in order, cut anywhere.
\<close>

section \<open>Invariant\<close>

definition recv_tape :: "partition \<Rightarrow> tape_buffer" where "recv_tape P = dl_recv (the (pn_link P))"
definition send_tape :: "partition \<Rightarrow> tape_buffer" where "send_tape P = dl_send (the (pn_link P))"

text \<open>How many bytes arrived, and where the last complete packet ends.\<close>

definition arrived :: "partition \<Rightarrow> nat" where "arrived P = tape_w (recv_tape P)"

text \<open>Everything handed to the link for sending: what the socket took, then what waits in the buffer.\<close>

definition sent :: "partition \<Rightarrow> byte list" where
  "sent P = so_out (pn_sock P) @ tape_rest (send_tape P)"

definition send_ok :: "partition \<Rightarrow> bool" where
  "send_ok P \<longleftrightarrow> tape_inv (send_tape P) \<and> tp_reserve_size (send_tape P) < 2 ^ 31 \<and>
     pn_send_committed P - pn_send_flushed P = tape_size (send_tape P)"

definition recv_ok :: "packet list \<Rightarrow> partition \<Rightarrow> bool" where
  "recv_ok fs P \<longleftrightarrow> tape_inv (recv_tape P) \<and> tp_reserve_size (recv_tape P) < 2 ^ 31 \<and>
     pn_recv_pos_begin P = int (tape_r (recv_tape P)) \<and> pn_recv_size P = tape_size (recv_tape P) \<and>
     pn_recv_available P = int (arrived P - whole_size fs (arrived P)) \<and> tape_r (recv_tape P) \<le> whole_size fs (arrived P) \<and>
     tape_all (recv_tape P) = take (arrived P) (wire fs) \<and> arrived P \<le> length (wire fs) \<and> soup_recv.good fs"

definition part_ok :: "packet list \<Rightarrow> partition \<Rightarrow> bool" where
  "part_ok fs P \<longleftrightarrow> pn_link P \<noteq> None \<and> send_ok P \<and> recv_ok fs P"

text \<open>A published position: the end of some complete packet that arrived, and its address.\<close>

definition pos_ok :: "packet list \<Rightarrow> partition \<Rightarrow> recv_position \<Rightarrow> bool" where
  "pos_ok fs P rp \<longleftrightarrow> (\<exists>n \<le> arrived P. rp_pos rp = int (whole_size fs n)) \<and>
     (rp_pos rp \<noteq> 0 \<longrightarrow> rp_end rp = tp_base (recv_tape P) + rp_pos rp)"

definition active :: "execution_link \<Rightarrow> nat \<Rightarrow> bool" where
  "active S pix \<longleftrightarrow> bit (xl_active S) pix"

abbreviation part :: "execution_link \<Rightarrow> nat \<Rightarrow> partition" where
  "part S pix \<equiv> xl_partitions S ! pix"

definition link_inv :: "link_env \<Rightarrow> (nat \<Rightarrow> packet list) \<Rightarrow> nat list \<Rightarrow> execution_link \<Rightarrow> bool" where
  "link_inv E FS stack S \<longleftrightarrow> length (xl_partitions S) = part_count \<and> rcu_inv part_count (le_pool E) (xl_pub S) stack \<and>
     (\<forall>pix. active S pix \<longrightarrow> pix < part_count \<and> part_ok (FS pix) (part S pix) \<and>
       (\<forall>r \<in> set (rcu_live (xl_pub S) stack). pos_ok (FS pix) (part S pix) (rcu_data (le_pool E) (xl_pub S) r ! pix)) \<and>
       rp_pos (rcu_data (le_pool E) (xl_pub S) (ru_current (xl_pub S)) ! pix) = int (whole_size (FS pix) (arrived (part S pix))))"

lemma link_invD:
  assumes "link_inv E FS stack S"
  shows "length (xl_partitions S) = part_count" "rcu_inv part_count (le_pool E) (xl_pub S) stack"
    "active S pix \<Longrightarrow> pix < part_count" "active S pix \<Longrightarrow> pix < length (xl_partitions S)" "active S pix \<Longrightarrow> part_ok (FS pix) (part S pix)"
    "active S pix \<Longrightarrow> r \<in> set (rcu_live (xl_pub S) stack) \<Longrightarrow> pos_ok (FS pix) (part S pix) (rcu_data (le_pool E) (xl_pub S) r ! pix)"
    "active S pix \<Longrightarrow> rp_pos (rcu_data (le_pool E) (xl_pub S) (ru_current (xl_pub S)) ! pix) = int (whole_size (FS pix) (arrived (part S pix)))"
  using assms by (auto simp: link_inv_def)

text \<open>Between steps what is published is current.\<close>

definition settled :: "link_env \<Rightarrow> execution_link \<Rightarrow> bool" where
  "settled E S \<longleftrightarrow> (\<forall>pix. active S pix \<longrightarrow>
     rcu_data (le_pool E) (xl_pub S) (ru_published (xl_pub S)) ! pix = rcu_data (le_pool E) (xl_pub S) (ru_current (xl_pub S)) ! pix)"

text \<open>What the kernel has for a partition continues the stream of its packets, and fits the tape.\<close>

definition arrives :: "packet list \<Rightarrow> partition \<Rightarrow> bool" where
  "arrives fs P \<longleftrightarrow> can_recv (pn_sock P) \<and> int (length (ready (pn_sock P))) \<le> tape_room (recv_tape P) \<and>
     (\<exists>rest. wire fs = tape_all (recv_tape P) @ ready (pn_sock P) @ rest)"

lemma recv_okD:
  assumes "recv_ok fs P"
  shows "tape_inv (recv_tape P)" "tp_reserve_size (recv_tape P) < 2 ^ 31" "pn_recv_pos_begin P = int (tape_r (recv_tape P))"
    "pn_recv_size P = tape_size (recv_tape P)" "pn_recv_available P = int (arrived P - whole_size fs (arrived P))"
    "tape_r (recv_tape P) \<le> whole_size fs (arrived P)" "tape_all (recv_tape P) = take (arrived P) (wire fs)"
    "arrived P \<le> length (wire fs)" "soup_recv.good fs"
    "pn_recv_size P - pn_recv_available P = int (whole_size fs (arrived P)) - int (tape_r (recv_tape P))"
proof -
  have "whole_size fs (arrived P) \<le> arrived P" by (rule whole_size_le)
  then show "pn_recv_size P - pn_recv_available P = int (whole_size fs (arrived P)) - int (tape_r (recv_tape P))"
    using assms tape_posD(6) [of "recv_tape P"] by (simp add: recv_ok_def arrived_def of_nat_diff)
qed (use assms in \<open>simp_all add: recv_ok_def\<close>)

lemma pos_ok_later: "pos_ok fs P rp \<Longrightarrow> arrived P \<le> arrived P' \<Longrightarrow> tp_base (recv_tape P') = tp_base (recv_tape P) \<Longrightarrow> pos_ok fs P' rp"
  unfolding pos_ok_def by (metis order_trans)

lemma pos_ok_le: "pos_ok fs P rp \<Longrightarrow> rp_pos rp \<le> int (whole_size fs (arrived P))"
  unfolding pos_ok_def using whole_size_mono by (metis of_nat_le_iff)

section \<open>Receiving\<close>

text \<open>One partition: what arrived is appended, and its new complete packets counted.\<close>

definition poll_result :: "packet list \<Rightarrow> partition \<Rightarrow> partition \<Rightarrow> bool" where
  "poll_result fs P P' \<longleftrightarrow> tape_all (recv_tape P') = tape_all (recv_tape P) @ ready (pn_sock P) \<and>
     send_tape P' = send_tape P \<and> so_out (pn_sock P') = so_out (pn_sock P) \<and> so_accept (pn_sock P') = so_accept (pn_sock P) \<and>
     pn_send_committed P' = pn_send_committed P \<and> pn_send_flushed P' = pn_send_flushed P \<and>
     dl_ts_last_send (the (pn_link P')) = dl_ts_last_send (the (pn_link P)) \<and> tp_base (recv_tape P') = tp_base (recv_tape P) \<and>
     pn_recv_pos_begin P' = pn_recv_pos_begin P"

lemma polled:
  assumes ok: "recv_ok fs P" and l: "pn_link P = Some l" and arr: "arrives fs P"
  obtains l' so' where "recv_poll (tape_ops chk) now (pn_sock P) l = Some (Inr ((tp_r_addr (dl_recv l), tape_size (dl_recv l')), l', so'))"
    "dl_send l' = dl_send l" "dl_ts_last_send l' = dl_ts_last_send l" "so_out so' = so_out (pn_sock P)" "so_accept so' = so_accept (pn_sock P)"
    "tape_inv (dl_recv l')" "tp_reserve_size (dl_recv l') < 2 ^ 31" "tp_base (dl_recv l') = tp_base (dl_recv l)"
    "tape_r (dl_recv l') = tape_r (dl_recv l)" "tape_w (dl_recv l') = arrived P + length (ready (pn_sock P))"
    "tape_all (dl_recv l') = tape_all (dl_recv l) @ ready (pn_sock P)"
    "tape_all (dl_recv l') = take (arrived P + length (ready (pn_sock P))) (wire fs)"
    "arrived P + length (ready (pn_sock P)) \<le> length (wire fs)"
proof -
  have t: "recv_tape P = dl_recv l" by (simp add: recv_tape_def l)
  note r = recv_okD [OF ok, unfolded t]
  have room: "int (length (ready (pn_sock P))) \<le> tape_room (dl_recv l)" "can_recv (pn_sock P)" using arr t by (simp_all add: arrives_def)
  note ap = tape_append_inv [OF r(1) room(1)]
  obtain rest where rest: "wire fs = tape_all (dl_recv l) @ ready (pn_sock P) @ rest" using arr t by (auto simp: arrives_def)
  have len: "length (tape_all (dl_recv l)) = arrived P" by (simp add: length_tape_all [OF r(1)] arrived_def t)
  from recv_poll_tape [OF r(1) room, of chk now] obtain l' so' where
    "recv_poll (tape_ops chk) now (pn_sock P) l = Some (Inr ((tp_r_addr (dl_recv l), tape_size (dl_recv l')), l', so'))"
    "dl_recv l' = tape_append (ready (pn_sock P)) (dl_recv l)" "dl_send l' = dl_send l" "dl_ts_last_send l' = dl_ts_last_send l"
    "so_out so' = so_out (pn_sock P)" "so_accept so' = so_accept (pn_sock P)" by metis
  then show ?thesis
    using ap r(2) len rest by (intro that [of l' so']) (simp_all add: arrived_def t)
qed

text \<open>The rest of the link does not mind.\<close>

lemma link_inv_polled:
  assumes inv: "link_inv E FS stack S" and act: "active S pix"
    and P': "part_ok (FS pix) P'" "arrived (part S pix) \<le> arrived P'" "tp_base (recv_tape P') = tp_base (recv_tape (part S pix))"
    and U': "rcu_inv part_count (le_pool E) U' stack" "ru_published U' = ru_published (xl_pub S)" "ru_current U' = ru_current (xl_pub S)"
      "ru_pending U' = ru_pending (xl_pub S)"
      "rcu_data (le_pool E) U' = (rcu_data (le_pool E) (xl_pub S))(ru_current (xl_pub S) := (rcu_data (le_pool E) (xl_pub S) (ru_current (xl_pub S)))[pix := rp])"
      "pos_ok (FS pix) P' rp" "rp_pos rp = int (whole_size (FS pix) (arrived P'))"
  shows "link_inv E FS stack (S\<lparr>xl_partitions := (xl_partitions S)[pix := P'], xl_pub := U'\<rparr>)"
proof -
  let ?S = "S\<lparr>xl_partitions := (xl_partitions S)[pix := P'], xl_pub := U'\<rparr>" and ?U = "xl_pub S" and ?Q = "le_pool E"
  note i = link_invD [OF inv]
  have pix: "pix < length (xl_partitions S)" "pix < part_count" using i(4,3) [OF act] by simp_all
  have len: "length (rcu_data ?Q ?U (ru_current ?U)) = part_count"
    using rcu_invD(4) [OF i(2), of "ru_current ?U"] by (auto simp: rcu_live_def)
  have live: "rcu_live U' stack = rcu_live ?U stack" using U' by (simp add: rcu_live_def)
  show ?thesis unfolding link_inv_def
  proof (intro conjI allI impI ballI)
    fix q assume "active ?S q"
    then have q: "active S q" by (simp add: active_def)
    show "q < part_count" by (rule i(3) [OF q])
    have pq: "(xl_partitions S)[pix := P'] ! q = (if q = pix then P' else part S q)" using pix by (simp add: nth_list_update)
    show "part_ok (FS q) (part ?S q)" using i(5) [OF q] P'(1) by (simp add: pq)
    show "rp_pos (rcu_data ?Q (xl_pub ?S) (ru_current (xl_pub ?S)) ! q) = int (whole_size (FS q) (arrived (part ?S q)))"
      using i(7) [OF q] U'(3,5,7) pix len by (simp add: pq)
    fix v assume "v \<in> set (rcu_live (xl_pub ?S) stack)"
    then have v: "v \<in> set (rcu_live ?U stack)" by (simp add: live)
    show "pos_ok (FS q) (part ?S q) (rcu_data ?Q (xl_pub ?S) v ! q)"
    proof (cases "q = pix")
      case True
      have "pos_ok (FS pix) P' (rcu_data ?Q ?U v ! pix)" by (rule pos_ok_later [OF i(6) [OF act v] P'(2,3)])
      then show ?thesis using True U'(5,6) pix len by (simp add: pq)
    next
      case False
      then show ?thesis using i(6) [OF q v] U'(5) by (auto simp: pq)
    qed
  qed (use i(1) U'(1) in simp_all)
qed

lemma link_inv_quiet:
  assumes inv: "link_inv E FS stack S" and act: "active S pix"
    and P': "part_ok (FS pix) P'" "arrived (part S pix) \<le> arrived P'" "tp_base (recv_tape P') = tp_base (recv_tape (part S pix))"
      "whole_size (FS pix) (arrived P') = whole_size (FS pix) (arrived (part S pix))"
  shows "link_inv E FS stack (set_partition pix P' S)"
proof -
  note i = link_invD [OF inv]
  let ?rp = "rcu_data (le_pool E) (xl_pub S) (ru_current (xl_pub S)) ! pix"
  have "pos_ok (FS pix) P' ?rp" by (rule pos_ok_later [OF i(6) [OF act] P'(2,3)]) (simp add: rcu_live_def)
  then have "link_inv E FS stack (S\<lparr>xl_partitions := (xl_partitions S)[pix := P'], xl_pub := xl_pub S\<rparr>)"
    using i(2,7) act P' by (intro link_inv_polled [OF inv act P'(1-3), where rp = ?rp]) (simp_all add: fun_eq_iff)
  then show ?thesis by (simp add: set_partition_def)
qed

lemma recv_partition_spec:
  assumes inv: "link_inv E FS stack S" and act: "active S pix" and arr: "arrives (FS pix) (part S pix)"
  obtains P' U' where "recv_partition E pix (S, u) = Some (Inr (S\<lparr>xl_partitions := (xl_partitions S)[pix := P'], xl_pub := U'\<rparr>,
      u \<or> whole_size (FS pix) (arrived P') \<noteq> whole_size (FS pix) (arrived (part S pix))))"
    "link_inv E FS stack (S\<lparr>xl_partitions := (xl_partitions S)[pix := P'], xl_pub := U'\<rparr>)"
    "poll_result (FS pix) (part S pix) P'" "arrived P' = arrived (part S pix) + length (ready (pn_sock (part S pix)))"
    "whole_size (FS pix) (arrived P') = whole_size (FS pix) (arrived (part S pix)) \<Longrightarrow> U' = xl_pub S"
    "ru_published U' = ru_published (xl_pub S)" "rcu_data (le_pool E) U' (ru_published U') = rcu_data (le_pool E) (xl_pub S) (ru_published (xl_pub S))"
    "pool_full (le_pool E) (ru_pool U') = pool_full (le_pool E) (ru_pool (xl_pub S))" "ru_readers U' = ru_readers (xl_pub S)"
proof -
  let ?P = "part S pix" and ?fs = "FS pix" and ?Q = "le_pool E" and ?U = "xl_pub S"
  note i = link_invD [OF inv]
  have pix: "pix < length (xl_partitions S)" "pix < part_count" using i(4,3) [OF act] by simp_all
  have po: "send_ok ?P" "recv_ok ?fs ?P" using i(5) [OF act] by (simp_all add: part_ok_def)
  from i(5) [OF act] obtain l where l: "pn_link ?P = Some l" by (auto simp: part_ok_def)
  have t: "recv_tape ?P = dl_recv l" "send_tape ?P = dl_send l" by (simp_all add: recv_tape_def send_tape_def l)
  note r = recv_okD [OF po(2), unfolded t]
  let ?n = "arrived ?P" and ?m = "arrived ?P + length (ready (pn_sock ?P))"
  obtain l' so' where p: "recv_poll (tape_ops (le_check E)) (le_recv_now E pix) (pn_sock ?P) l =
      Some (Inr ((tp_r_addr (dl_recv l), tape_size (dl_recv l')), l', so'))"
    "dl_send l' = dl_send l" "dl_ts_last_send l' = dl_ts_last_send l" "so_out so' = so_out (pn_sock ?P)" "so_accept so' = so_accept (pn_sock ?P)"
    "tape_inv (dl_recv l')" "tp_reserve_size (dl_recv l') < 2 ^ 31" "tp_base (dl_recv l') = tp_base (dl_recv l)"
    "tape_r (dl_recv l') = tape_r (dl_recv l)" "tape_w (dl_recv l') = ?m"
    "tape_all (dl_recv l') = tape_all (dl_recv l) @ ready (pn_sock ?P)" "tape_all (dl_recv l') = take ?m (wire ?fs)" "?m \<le> length (wire ?fs)"
    by (rule polled [OF po(2) l arr, where chk = "le_check E" and now = "le_recv_now E pix"])
  let ?adj = "pn_recv_size ?P - pn_recv_available ?P" and ?ws = "whole_size ?fs ?n" and ?ws' = "whole_size ?fs ?m"
  have le: "?ws \<le> ?n" "?ws' \<le> ?m" "?ws \<le> ?ws'" "tape_r (dl_recv l) \<le> ?ws" using whole_size_le whole_size_mono [of ?n ?m] r(6) by simp_all
  have lim: "int ?m < 2 ^ 31" using tape_posD(4,7) [OF p(6)] p(7,10) by linarith
  have sz: "tape_size (dl_recv l') = int ?m - int (tape_r (dl_recv l))" "tape_size (dl_recv l) = int ?n - int (tape_r (dl_recv l))"
    using tape_posD(6) [OF p(6)] tape_posD(6) [OF r(1)] p(9,10) t by (simp_all add: arrived_def)
  have base: "tp_r_addr (dl_recv l) + ?adj = tp_base (dl_recv l') + int ?ws"
    using r(10) tape_posD(1) [OF r(1)] p(8) by simp
  have keep: "part_ok ?fs P'" "poll_result ?fs ?P P'" "arrived P' = ?m" "tp_base (recv_tape P') = tp_base (recv_tape ?P)"
    if "pn_link P' = Some l'" "pn_sock P' = so'" "pn_send_committed P' = pn_send_committed ?P" "pn_send_flushed P' = pn_send_flushed ?P"
      "pn_recv_pos_begin P' = pn_recv_pos_begin ?P" "pn_recv_size P' = tape_size (dl_recv l')" "pn_recv_available P' = int (?m - ?ws')" for P'
  proof -
    have t': "recv_tape P' = dl_recv l'" "send_tape P' = send_tape ?P" by (simp_all add: recv_tape_def send_tape_def that(1) p(2) l)
    show "part_ok ?fs P'" using that t' p po(1) r(3,9) le unfolding part_ok_def recv_ok_def send_ok_def by (simp add: arrived_def)
    show "poll_result ?fs ?P P'" using that t' p t by (simp add: poll_result_def l)
    show "arrived P' = ?m" "tp_base (recv_tape P') = tp_base (recv_tape ?P)" using p t by (simp_all add: arrived_def t')
  qed
  show ?thesis
  proof (cases "tape_size (dl_recv l') > pn_recv_size ?P")
    case False
    then have nil: "ready (pn_sock ?P) = []" using sz r(4) by simp
    let ?P' = "?P\<lparr>pn_link := Some l', pn_sock := so'\<rparr>"
    note k = keep [of ?P']
    have k': "part_ok ?fs ?P'" "poll_result ?fs ?P ?P'" "arrived ?P' = ?m" "tp_base (recv_tape ?P') = tp_base (recv_tape ?P)"
      using k nil r(4,5) sz by simp_all
    have "recv_partition E pix (S, u) = Some (Inr (set_partition pix ?P' S, u))"
      using pix False by (simp add: recv_partition_def with_link_def l p(1) Let_def)
    with k' nil link_inv_quiet [OF inv act k'(1)] show ?thesis
      by (intro that [of ?U ?P']) (simp_all add: set_partition_def)
  next
    case True
    have av: "narrow 32 (tape_size (dl_recv l') - ?adj) = int (?m - ?ws)"
    proof -
      have "tape_size (dl_recv l') - ?adj = int (?m - ?ws)" using sz(1) r(10) le by (simp add: of_nat_diff)
      moreover have "narrow 32 (int (?m - ?ws)) = int (?m - ?ws)" by (rule narrow_id) (use lim in simp_all)
      ultimately show ?thesis by simp
    qed
    have nsz: "narrow 32 (tape_size (dl_recv l')) = tape_size (dl_recv l')"
      by (rule narrow_id) (use lim sz le in simp_all)
    have rd: "b_read (tape_ops (le_check E)) (tp_r_addr (dl_recv l) + ?adj) (nat (int (?m - ?ws))) (dl_recv l') =
        Some (drop ?ws (take ?m (wire ?fs)))"
      using tape_read_all [OF p(6), of ?ws "?m - ?ws"] p(10,12,13) le unfolding base nat_int by (simp add: tape_ops_def)
    note loop = frame_new_bytes [of ?n ?m ?fs, OF le_add1 p(13) r(9)]
    let ?P' = "?P\<lparr>pn_link := Some l', pn_sock := so', pn_recv_size := tape_size (dl_recv l'), pn_recv_available := int (?m - ?ws')\<rparr>"
    have k': "part_ok ?fs ?P'" "poll_result ?fs ?P ?P'" "arrived ?P' = ?m" "tp_base (recv_tape ?P') = tp_base (recv_tape ?P)"
      using keep [of ?P'] by simp_all
    show ?thesis
    proof (cases "?ws' = ?ws")
      case ws: True
      have "recv_partition E pix (S, u) = Some (Inr (set_partition pix ?P' S, u))"
        using pix True rd loop ws unfolding recv_partition_def with_link_def
        by (simp add: l p(1) Let_def av nsz)
      with k' ws link_inv_quiet [OF inv act k'(1)] show ?thesis
        by (intro that [of ?U ?P']) (simp_all add: set_partition_def)
    next
      case ws: False
      let ?rp = "\<lparr>rp_pos = pn_recv_pos_begin ?P + int (?ws' - ?ws) + ?adj, rp_end = tp_r_addr (dl_recv l) + ?adj + int (?ws' - ?ws),
        rp_ts = dl_ts_last_recv l'\<rparr>"
      obtain q where q: "rcu_write ?Q pix ?rp ?U = Some (Inr (?U\<lparr>ru_pool := q\<rparr>))" "rcu_inv part_count ?Q (?U\<lparr>ru_pool := q\<rparr>) stack"
        "rcu_data ?Q (?U\<lparr>ru_pool := q\<rparr>) = (rcu_data ?Q ?U)(ru_current ?U := (rcu_data ?Q ?U (ru_current ?U))[pix := ?rp])"
        "pool_full ?Q q = pool_full ?Q (ru_pool ?U)"
        by (rule rcu_write_spec [OF i(2) pix(2), of ?rp])
      have rp: "rp_pos ?rp = int ?ws'" "rp_end ?rp = tp_base (dl_recv l') + int ?ws'"
        using r(3,10) le base by simp_all
      have "pos_ok ?fs ?P' ?rp" unfolding pos_ok_def rp k'(3) using k'(4) p(8) t by auto
      then have "link_inv E FS stack (S\<lparr>xl_partitions := (xl_partitions S)[pix := ?P'], xl_pub := ?U\<lparr>ru_pool := q\<rparr>\<rparr>)"
        using q rp k' by (intro link_inv_polled [OF inv act k'(1), where rp = ?rp]) simp_all
      moreover have "0 < int (?ws' - ?ws)" using ws le(3) by simp
      then have "recv_partition E pix (S, u) = Some (Inr (S\<lparr>xl_partitions := (xl_partitions S)[pix := ?P'], xl_pub := ?U\<lparr>ru_pool := q\<rparr>\<rparr>, True))"
        using pix True rd loop q(1) unfolding recv_partition_def with_link_def
        by (simp add: l p(1) Let_def av nsz set_partition_def)
      moreover have "ru_published ?U \<noteq> ru_current ?U" using rcu_invD(3) [OF i(2)] by (simp add: rcu_live_def)
      ultimately show ?thesis using k' ws q(3,4) by (intro that [of "?U\<lparr>ru_pool := q\<rparr>" ?P']) simp_all
    qed
  qed
qed

section \<open>The receive phase\<close>

text \<open>What a phase that only receives leaves alone.\<close>

definition only_recv :: "execution_link \<Rightarrow> execution_link \<Rightarrow> bool" where
  "only_recv S S' \<longleftrightarrow> S' = S\<lparr>xl_partitions := xl_partitions S', xl_pub := xl_pub S'\<rparr>"

lemma only_recv_simps:
  assumes "only_recv S S'"
  shows "xl_active S' = xl_active S" "active S' pix = active S pix" "xl_queues S' = xl_queues S" "xl_liid_map S' = xl_liid_map S"
    "xl_templates S' = xl_templates S" "xl_credentials S' = xl_credentials S" "xl_seqnums S' = xl_seqnums S"
    "xl_connect_count S' = xl_connect_count S" "xl_login_count S' = xl_login_count S" "xl_agents S' = xl_agents S"
  by (subst assms [unfolded only_recv_def], simp add: active_def)+

lemma only_recv_pub: "only_recv S S' \<Longrightarrow> only_recv S (S'\<lparr>xl_pub := U\<rparr>)"
  by (cases S; cases S') (simp add: only_recv_def)

definition polled_to :: "(nat \<Rightarrow> packet list) \<Rightarrow> execution_link \<Rightarrow> execution_link \<Rightarrow> nat \<Rightarrow> bool" where
  "polled_to FS S S' pix \<longleftrightarrow> poll_result (FS pix) (part S pix) (part S' pix) \<and>
     arrived (part S' pix) = arrived (part S pix) + length (ready (pn_sock (part S pix)))"

lemma recv_each_spec:
  assumes "link_inv E FS stack S" "distinct ps" "\<forall>pix \<in> set ps. active S pix \<and> arrives (FS pix) (part S pix)"
  shows "\<exists>S' u'. each_pix (recv_partition E) ps (S, u) = Some (Inr (S', u')) \<and> link_inv E FS stack S' \<and> only_recv S S' \<and>
    (\<forall>pix. if pix \<in> set ps then polled_to FS S S' pix else part S' pix = part S pix) \<and> (\<not> u' \<longrightarrow> \<not> u \<and> xl_pub S' = xl_pub S) \<and>
    (pool_full (le_pool E) (ru_pool (xl_pub S')) \<longleftrightarrow> pool_full (le_pool E) (ru_pool (xl_pub S))) \<and>
    ru_readers (xl_pub S') = ru_readers (xl_pub S)"
  using assms
proof (induction ps arbitrary: S u)
  case Nil
  then show ?case by (simp add: only_recv_def)
next
  case (Cons p ps)
  have p: "active S p" "arrives (FS p) (part S p)" using Cons.prems(3) by simp_all
  obtain P' U' where r: "recv_partition E p (S, u) = Some (Inr (S\<lparr>xl_partitions := (xl_partitions S)[p := P'], xl_pub := U'\<rparr>,
      u \<or> whole_size (FS p) (arrived P') \<noteq> whole_size (FS p) (arrived (part S p))))"
    "link_inv E FS stack (S\<lparr>xl_partitions := (xl_partitions S)[p := P'], xl_pub := U'\<rparr>)"
    "poll_result (FS p) (part S p) P'" "arrived P' = arrived (part S p) + length (ready (pn_sock (part S p)))"
    "whole_size (FS p) (arrived P') = whole_size (FS p) (arrived (part S p)) \<Longrightarrow> U' = xl_pub S"
    "pool_full (le_pool E) (ru_pool U') = pool_full (le_pool E) (ru_pool (xl_pub S))" "ru_readers U' = ru_readers (xl_pub S)"
    using recv_partition_spec [OF Cons.prems(1) p, of u] by metis
  let ?S = "S\<lparr>xl_partitions := (xl_partitions S)[p := P'], xl_pub := U'\<rparr>"
    and ?u = "u \<or> whole_size (FS p) (arrived P') \<noteq> whole_size (FS p) (arrived (part S p))"
  have len: "p < length (xl_partitions S)" by (rule link_invD(4) [OF Cons.prems(1) p(1)])
  have pq: "(xl_partitions S)[p := P'] ! q = (if q = p then P' else part S q)" for q using len by (simp add: nth_list_update)
  have "\<forall>pix \<in> set ps. active ?S pix \<and> arrives (FS pix) (part ?S pix)"
    using Cons.prems(2,3) by (auto simp: pq active_def)
  with Cons.IH [OF r(2)] Cons.prems(2) obtain S' u' where h: "each_pix (recv_partition E) ps (?S, ?u) = Some (Inr (S', u'))" "link_inv E FS stack S'"
    "only_recv ?S S'" "\<forall>pix. if pix \<in> set ps then polled_to FS ?S S' pix else part S' pix = part ?S pix" "\<not> u' \<longrightarrow> \<not> ?u \<and> xl_pub S' = xl_pub ?S"
    "pool_full (le_pool E) (ru_pool (xl_pub S')) \<longleftrightarrow> pool_full (le_pool E) (ru_pool (xl_pub ?S))"
    "ru_readers (xl_pub S') = ru_readers (xl_pub ?S)" by fastforce
  have "if pix \<in> set (p # ps) then polled_to FS S S' pix else part S' pix = part S pix" for pix
  proof (cases "pix = p")
    case True
    have "part S' p = P'" using h(4) Cons.prems(2) by (auto simp: pq dest: spec [where x = p])
    then show ?thesis using True r(3,4) by (simp add: polled_to_def)
  next
    case False
    then show ?thesis using h(4) [rule_format, of pix] by (auto simp: pq polled_to_def)
  qed
  moreover have "only_recv S S'" using h(3) by (simp add: only_recv_def)
  moreover have "\<not> u' \<longrightarrow> \<not> u \<and> xl_pub S' = xl_pub S" using h(5) r(5) by auto
  ultimately show ?case using r(1,6,7) h by (intro exI [of _ S'] exI [of _ u']) simp
qed

text \<open>Changing which descriptors there are, but not what any of them says.\<close>

lemma link_inv_pub:
  assumes inv: "link_inv E FS stack S" and U: "rcu_inv part_count (le_pool E) U' stack'"
    and cur: "rcu_data (le_pool E) U' (ru_current U') = rcu_data (le_pool E) (xl_pub S) (ru_current (xl_pub S))"
    and all: "\<forall>v \<in> set (rcu_live U' stack'). \<exists>w \<in> set (rcu_live (xl_pub S) stack). rcu_data (le_pool E) U' v = rcu_data (le_pool E) (xl_pub S) w"
  shows "link_inv E FS stack' (S\<lparr>xl_pub := U'\<rparr>)"
  unfolding link_inv_def
proof (intro conjI allI impI ballI)
  note i = link_invD [OF inv]
  fix pix assume "active (S\<lparr>xl_pub := U'\<rparr>) pix"
  then have a: "active S pix" by (simp add: active_def)
  show "pix < part_count" by (rule i(3) [OF a])
  show "part_ok (FS pix) (part (S\<lparr>xl_pub := U'\<rparr>) pix)" using i(5) [OF a] by simp
  show "rp_pos (rcu_data (le_pool E) (xl_pub (S\<lparr>xl_pub := U'\<rparr>)) (ru_current (xl_pub (S\<lparr>xl_pub := U'\<rparr>))) ! pix) =
      int (whole_size (FS pix) (arrived (part (S\<lparr>xl_pub := U'\<rparr>) pix)))" using i(7) [OF a] cur by simp
  fix v assume "v \<in> set (rcu_live (xl_pub (S\<lparr>xl_pub := U'\<rparr>)) stack')"
  then obtain w where "w \<in> set (rcu_live (xl_pub S) stack)" "rcu_data (le_pool E) U' v = rcu_data (le_pool E) (xl_pub S) w"
    using all by auto
  then show "pos_ok (FS pix) (part (S\<lparr>xl_pub := U'\<rparr>) pix) (rcu_data (le_pool E) (xl_pub (S\<lparr>xl_pub := U'\<rparr>)) v ! pix)"
    using i(6) [OF a] by simp
qed (use link_invD(1) [OF inv] U in simp_all)

lemma recv_phase_spec:
  assumes inv: "link_inv E FS stack S" and st: "settled E S" and arr: "\<forall>pix. active S pix \<longrightarrow> arrives (FS pix) (part S pix)"
    and room: "\<not> pool_full (le_pool E) (ru_pool (xl_pub S))"
  obtains S' where "recv_phase E S = Some (Inr S')" "link_inv E FS stack S'" "only_recv S S'" "settled E S'"
    "ru_readers (xl_pub S') = ru_readers (xl_pub S)"
    "\<forall>pix. if active S pix then polled_to FS S S' pix else part S' pix = part S pix"
proof -
  let ?ps = "mask_pixes (xl_active S)" and ?Q = "le_pool E"
  have "\<forall>pix \<in> set ?ps. active S pix \<and> arrives (FS pix) (part S pix)" using arr by (simp add: mask_pixes_set active_def)
  from recv_each_spec [OF inv mask_pixes_distinct this, of False] obtain S1 u where r: "each_pix (recv_partition E) ?ps (S, False) = Some (Inr (S1, u))"
    "link_inv E FS stack S1" "only_recv S S1" "\<forall>pix. if pix \<in> set ?ps then polled_to FS S S1 pix else part S1 pix = part S pix"
    "\<not> u \<longrightarrow> xl_pub S1 = xl_pub S" "pool_full ?Q (ru_pool (xl_pub S1)) \<longleftrightarrow> pool_full ?Q (ru_pool (xl_pub S))"
    "ru_readers (xl_pub S1) = ru_readers (xl_pub S)" by blast
  have pp: "\<forall>pix. if active S pix then polled_to FS S S1 pix else part S1 pix = part S pix" using r(4) by (simp add: mask_pixes_set active_def)
  note or = only_recv_simps [OF r(3)]
  show ?thesis
  proof (cases u)
    case False
    moreover have "settled E S1" using st r(5) False by (simp add: settled_def or)
    ultimately show ?thesis using r pp by (intro that [of S1]) (simp_all add: recv_phase_def)
  next
    case True
    from rcu_publish_spec [OF link_invD(2) [OF r(2)]] r(6) room obtain U' where U': "rcu_publish ?Q (xl_pub S1) = Some (Inr U')"
      "rcu_inv part_count ?Q U' stack" "ru_published U' = ru_current (xl_pub S1)"
      "rcu_data ?Q U' = (rcu_data ?Q (xl_pub S1))(ru_current U' := rcu_data ?Q (xl_pub S1) (ru_current (xl_pub S1)))"
      "ru_current U' \<notin> set (rcu_live (xl_pub S1) stack)"
      "ru_pending U' = ru_pending (xl_pub S1) @ [(ru_published (xl_pub S1), dom (ru_readers (xl_pub S1)))]"
      "ru_readers U' = ru_readers (xl_pub S1)" by blast
    let ?S = "S1\<lparr>xl_pub := U'\<rparr>"
    have neq: "ru_current (xl_pub S1) \<noteq> ru_current U'" using U'(5) by (auto simp: rcu_live_def)
    have live: "set (rcu_live U' stack) = insert (ru_current U') (set (rcu_live (xl_pub S1) stack))"
      using U'(3,6) by (auto simp: rcu_live_def)
    have "link_inv E FS stack ?S"
    proof (rule link_inv_pub [OF r(2) U'(2)])
      show "rcu_data ?Q U' (ru_current U') = rcu_data ?Q (xl_pub S1) (ru_current (xl_pub S1))" by (simp add: U'(4))
      have "ru_current (xl_pub S1) \<in> set (rcu_live (xl_pub S1) stack)" by (simp add: rcu_live_def)
      then show "\<forall>v \<in> set (rcu_live U' stack). \<exists>w \<in> set (rcu_live (xl_pub S1) stack). rcu_data ?Q U' v = rcu_data ?Q (xl_pub S1) w"
        unfolding live U'(4) by auto
    qed
    moreover have "settled E ?S" using neq by (simp add: settled_def U'(3,4))
    moreover have "only_recv S ?S" by (rule only_recv_pub [OF r(3)])
    moreover have "\<forall>pix. if active S pix then polled_to FS S ?S pix else part ?S pix = part S pix" using pp unfolding polled_to_def by simp
    ultimately show ?thesis using True r(1,7) U'(1,7) by (intro that [of ?S]) (simp_all add: recv_phase_def)
  qed
qed

section \<open>Reclaiming\<close>

text \<open>A bound that counts is the end of a complete packet that arrived.\<close>

lemma reclaim_spec:
  assumes inv: "link_inv E FS stack S" and st: "settled E S"
  obtains bounds U' where "rcu_reclaim part_count (le_pool E) (xl_pub S) = Some (Inr (bounds, U'))" "link_inv E FS [] (S\<lparr>xl_pub := U'\<rparr>)"
    "settled E (S\<lparr>xl_pub := U'\<rparr>)" "ru_readers U' = ru_readers (xl_pub S)"
    "\<And>pix. active S pix \<Longrightarrow> bounds ! pix \<noteq> pos_max \<Longrightarrow> \<exists>n \<le> arrived (part S pix). bounds ! pix = int (whole_size (FS pix) n)"
proof -
  let ?Q = "le_pool E" and ?U = "xl_pub S"
  note i = link_invD [OF inv]
  obtain U' where U': "rcu_reclaim part_count ?Q ?U = Some (Inr (reclaimed_bounds (map (rcu_data ?Q ?U) stack) (replicate part_count pos_max), U'))"
    "rcu_inv part_count ?Q U' []" "ru_published U' = ru_published ?U" "ru_current U' = ru_current ?U" "ru_pending U' = ru_pending ?U"
    "\<And>r. r \<in> set (rcu_live ?U []) \<Longrightarrow> rcu_data ?Q U' r = rcu_data ?Q ?U r" "ru_readers U' = ru_readers ?U"
    using rcu_reclaim_spec [OF i(2)] by metis
  have live: "rcu_live U' [] = rcu_live ?U []" using U' by (simp add: rcu_live_def)
  have in_live: "ru_current ?U \<in> set (rcu_live ?U [])" "ru_published ?U \<in> set (rcu_live ?U [])" by (simp_all add: rcu_live_def)
  have "link_inv E FS [] (S\<lparr>xl_pub := U'\<rparr>)"
  proof (rule link_inv_pub [OF inv U'(2)])
    show "rcu_data ?Q U' (ru_current U') = rcu_data ?Q ?U (ru_current ?U)" using U'(4,6) in_live by simp
    have "set (rcu_live ?U []) \<subseteq> set (rcu_live ?U stack)" by (auto simp: rcu_live_def)
    then show "\<forall>v \<in> set (rcu_live U' []). \<exists>w \<in> set (rcu_live ?U stack). rcu_data ?Q U' v = rcu_data ?Q ?U w"
      unfolding live using U'(6) by blast
  qed
  moreover have "settled E (S\<lparr>xl_pub := U'\<rparr>)" using st U'(3,4,6) in_live by (simp add: settled_def active_def)
  moreover have "\<exists>n \<le> arrived (part S pix). reclaimed_bounds (map (rcu_data ?Q ?U) stack) (replicate part_count pos_max) ! pix = int (whole_size (FS pix) n)"
    if a: "active S pix" and b: "reclaimed_bounds (map (rcu_data ?Q ?U) stack) (replicate part_count pos_max) ! pix \<noteq> pos_max" for pix
  proof -
    have pix: "pix < part_count" by (rule i(3) [OF a])
    obtain r where r: "r \<in> set stack"
      "reclaimed_bounds (map (rcu_data ?Q ?U) stack) (replicate part_count pos_max) ! pix = rp_pos (rcu_data ?Q ?U r ! pix)"
      using reclaimed_bound [of pix "replicate part_count pos_max" "map (rcu_data ?Q ?U) stack"] b pix by auto
    then have "r \<in> set (rcu_live ?U stack)" by (simp add: rcu_live_def)
    from i(6) [OF a this] r(2) show ?thesis by (auto simp: pos_ok_def)
  qed
  ultimately show ?thesis by (intro that [OF U'(1)]) (use U'(7) in simp_all)
qed

end
