(* ===== verification/Link_Send.thy ===== *)
theory Link_Send
  imports Link_Inv
begin

text \<open>
  The phases of the execution link's step that send: requests become packets at the end of
  what is to be sent, pending bytes move to the socket, and what every reader has seen is
  flushed from the receive buffer.
\<close>

section \<open>Appending a packet\<close>

definition appended :: "byte list \<Rightarrow> partition \<Rightarrow> partition \<Rightarrow> bool" where
  "appended bs P P' \<longleftrightarrow> sent P' = sent P @ bs \<and> tape_room (send_tape P') = tape_room (send_tape P) - int (length bs) \<and>
     tape_size (send_tape P') = tape_size (send_tape P) + int (length bs) \<and> recv_tape P' = recv_tape P \<and> pn_sock P' = pn_sock P \<and>
     pn_recv_pos_begin P' = pn_recv_pos_begin P \<and> dl_ts_last_send (the (pn_link P')) = dl_ts_last_send (the (pn_link P))"

lemma appended_refl: "appended [] P P"
  by (simp add: appended_def)

lemma appended_trans: "appended a P P' \<Longrightarrow> appended b P' P'' \<Longrightarrow> appended (a @ b) P P''"
  by (simp add: appended_def)

lemma send_frame_spec:
  assumes inv: "link_inv E FS stack S" and act: "active S pix" and room: "int (length bs) \<le> tape_room (send_tape (part S pix))"
  obtains P' where "send_frame E blank bs pix S = Some (Inr (set_partition pix P' S))" "link_inv E FS stack (set_partition pix P' S)"
    "appended bs (part S pix) P'"
proof -
  let ?P = "part S pix"
  have pix: "pix < length (xl_partitions S)" by (rule link_invD(4) [OF inv act])
  have po: "part_ok (FS pix) ?P" by (rule link_invD(5) [OF inv act])
  then obtain l where l: "pn_link ?P = Some l" by (auto simp: part_ok_def)
  have t: "send_tape ?P = dl_send l" "recv_tape ?P = dl_recv l" by (simp_all add: send_tape_def recv_tape_def l)
  have so: "tape_inv (dl_send l)" "tp_reserve_size (dl_send l) < 2 ^ 31" "pn_send_committed ?P - pn_send_flushed ?P = tape_size (dl_send l)"
    using po t by (simp_all add: part_ok_def send_ok_def)
  note ap = tape_append_inv [OF so(1) room [unfolded t]] and rest = tape_append_rest [OF so(1) room [unfolded t]]
  let ?l = "l\<lparr>dl_send := tape_append bs (dl_send l)\<rparr>"
  let ?P' = "?P\<lparr>pn_link := Some ?l, pn_send_committed := pn_send_committed ?P + int (length bs)\<rparr>"
  have eq: "send_frame E blank bs pix S = Some (Inr (set_partition pix ?P' S))"
    using pix send_append [OF so(1) room [unfolded t], of "le_check E" blank]
    by (auto simp: send_frame_def with_link_def l bind_ro_def split: option.splits sum.splits)
  have t': "send_tape ?P' = tape_append bs (dl_send l)" "recv_tape ?P' = dl_recv l" by (simp_all add: send_tape_def recv_tape_def)
  have "part_ok (FS pix) ?P'"
    using po so ap t' t by (simp add: part_ok_def send_ok_def recv_ok_def arrived_def)
  then have "link_inv E FS stack (set_partition pix ?P' S)"
    by (rule link_inv_quiet [OF inv act]) (simp_all add: arrived_def t t')
  moreover have "appended bs ?P ?P'"
    using ap rest by (simp add: appended_def sent_def t t' l)
  ultimately show ?thesis using eq by (intro that)
qed

section \<open>What a step emits\<close>

text \<open>The packets of a phase in order, each with its partition.\<close>

type_synonym emission = "(nat \<times> byte list) list"

definition out_for :: "nat \<Rightarrow> emission \<Rightarrow> byte list" where
  "out_for pix outs = concat (map snd (filter (\<lambda>out. fst out = pix) outs))"

lemma out_for_simps [simp]: "out_for pix [] = []" "out_for pix (outs @ outs') = out_for pix outs @ out_for pix outs'"
  "out_for pix ((q, bs) # outs) = (if q = pix then bs else []) @ out_for pix outs"
  by (simp_all add: out_for_def)

definition request_out :: "execution_link \<Rightarrow> xl_request \<Rightarrow> nat \<times> byte list" where
  "request_out S req =
     (let lme = xl_liid_map S ! nat (req_liid req) in (snd lme, request_frame (xl_templates S) (fst lme) req))"

definition login_out :: "execution_link \<Rightarrow> emission" where
  "login_out S = map (\<lambda>pix. (pix, the (login_packet (the (xl_credentials S) ! pix) (xl_seqnums S ! pix)))) (mask_pixes (xl_active S))"

definition queue_out :: "execution_link \<Rightarrow> nat \<Rightarrow> nat \<Rightarrow> nat \<Rightarrow> emission" where
  "queue_out S agents logins i =
     (case xl_queues S ! i of [] \<Rightarrow> []
      | req # rest \<Rightarrow> if req \<noteq> Start_login then [request_out S req] else if logins + 1 = agents then login_out S else [])"

definition queue_logins :: "execution_link \<Rightarrow> nat \<Rightarrow> nat" where
  "queue_logins S i = (case xl_queues S ! i of [] \<Rightarrow> 0 | req # rest \<Rightarrow> if req = Start_login then 1 else 0)"

primrec phase_out :: "execution_link \<Rightarrow> nat \<Rightarrow> nat \<Rightarrow> nat list \<Rightarrow> emission" where
  "phase_out S agents logins [] = []"
| "phase_out S agents logins (i # is) = queue_out S agents logins i @ phase_out S agents (logins + queue_logins S i) is"

text \<open>
  Requests that can be served: known instruments on active partitions, and when the last agent
  logs in, credentials that were not used up before, with sequence numbers that fit.
\<close>

definition login_ready :: "execution_link \<Rightarrow> bool" where
  "login_ready S \<longleftrightarrow> (case xl_credentials S of None \<Rightarrow> False
     | Some creds \<Rightarrow> length creds = part_count \<and> length (xl_seqnums S) = part_count \<and>
         (\<forall>pix \<in> set (mask_pixes (xl_active S)). login_packet (creds ! pix) (xl_seqnums S ! pix) \<noteq> None))"

definition queue_ready :: "execution_link \<Rightarrow> nat \<Rightarrow> nat \<Rightarrow> nat \<Rightarrow> bool" where
  "queue_ready S agents logins i \<longleftrightarrow> i < length (xl_queues S) \<and>
     (case xl_queues S ! i of [] \<Rightarrow> True
      | req # rest \<Rightarrow>
          if req \<noteq> Start_login then 0 \<le> req_liid req \<and> req_liid req < int (length (xl_liid_map S)) \<and> active S (fst (request_out S req))
          else logins + 1 = agents \<longrightarrow> login_ready S)"

primrec phase_ready :: "execution_link \<Rightarrow> nat \<Rightarrow> nat \<Rightarrow> nat list \<Rightarrow> bool" where
  "phase_ready S agents logins [] \<longleftrightarrow> True"
| "phase_ready S agents logins (i # is) \<longleftrightarrow> queue_ready S agents logins i \<and> phase_ready S agents (logins + queue_logins S i) is"

text \<open>What a phase that only sends leaves alone.\<close>

definition same_frame :: "execution_link \<Rightarrow> execution_link \<Rightarrow> bool" where
  "same_frame S S' \<longleftrightarrow> S' = S\<lparr>xl_partitions := xl_partitions S', xl_queues := xl_queues S', xl_login_count := xl_login_count S',
     xl_credentials := xl_credentials S'\<rparr>"

lemma same_frame_simps:
  assumes "same_frame S S'"
  shows "xl_active S' = xl_active S" "active S' pix = active S pix" "xl_liid_map S' = xl_liid_map S"
    "xl_templates S' = xl_templates S" "xl_seqnums S' = xl_seqnums S" "xl_pub S' = xl_pub S"
    "xl_connect_count S' = xl_connect_count S" "xl_agents S' = xl_agents S"
  by (subst assms [unfolded same_frame_def], simp add: active_def)+

lemma same_frame_refl: "same_frame S S"
  by (simp add: same_frame_def)

lemma same_frame_trans: "same_frame S S' \<Longrightarrow> same_frame S' S'' \<Longrightarrow> same_frame S S''"
  by (cases S; cases S'; cases S'') (simp add: same_frame_def)

lemma same_frame_partition: "same_frame S (set_partition pix P S)"
  by (cases S) (simp add: same_frame_def set_partition_def)

lemma link_inv_frame:
  "link_inv E FS stack (S\<lparr>xl_queues := q, xl_login_count := n, xl_credentials := c\<rparr>) \<longleftrightarrow> link_inv E FS stack S"
  by (simp add: link_inv_def active_def)

lemma phase_cong:
  assumes f: "xl_active S' = xl_active S" "xl_liid_map S' = xl_liid_map S" "xl_templates S' = xl_templates S" "xl_seqnums S' = xl_seqnums S"
    and "\<forall>i \<in> set is. xl_queues S' ! i = xl_queues S ! i" and len: "length (xl_queues S') = length (xl_queues S)"
    and "xl_credentials S' = xl_credentials S \<or> agents \<le> logins"
  shows "phase_out S' agents logins is = phase_out S agents logins is \<and>
    phase_ready S' agents logins is = phase_ready S agents logins is"
  using assms(5,7)
proof (induction "is" arbitrary: logins)
  case (Cons i "is")
  have q: "xl_queues S' ! i = xl_queues S ! i" using Cons.prems(1) by simp
  have l: "queue_logins S' i = queue_logins S i" by (simp add: queue_logins_def q)
  have r: "request_out S' req = request_out S req" for req by (simp add: request_out_def f)
  have c: "login_out S' = login_out S" "login_ready S' = login_ready S" if "logins + 1 = agents"
    using Cons.prems(2) that by (auto simp: login_out_def login_ready_def f split: option.split)
  have o: "queue_out S' agents logins i = queue_out S agents logins i" "queue_ready S' agents logins i = queue_ready S agents logins i"
    using c by (auto simp: queue_out_def queue_ready_def active_def q r f len split: list.split)
  have "xl_credentials S' = xl_credentials S \<or> agents \<le> logins + queue_logins S i" using Cons.prems(2) by auto
  from Cons.IH [OF _ this] Cons.prems(1) l o show ?case by simp
qed simp

section \<open>Serving the queues\<close>

text \<open>A list of packets, each appended for its partition.\<close>

definition emitted :: "emission \<Rightarrow> execution_link \<Rightarrow> execution_link \<Rightarrow> bool" where
  "emitted outs S S' \<longleftrightarrow> (\<forall>pix. if active S pix then appended (out_for pix outs) (part S pix) (part S' pix) else part S' pix = part S pix)"

lemma emitted_one:
  assumes "link_inv E FS stack S" "active S pix" "appended bs (part S pix) P'"
  shows "emitted [(pix, bs)] S (set_partition pix P' S)"
proof -
  have "pix < length (xl_partitions S)" by (rule link_invD(4) [OF assms(1,2)])
  then have "part (set_partition pix P' S) q = (if q = pix then P' else part S q)" for q
    by (simp add: set_partition_def nth_list_update)
  then show ?thesis using assms(2,3) unfolding emitted_def by (simp add: appended_refl)
qed

lemma emitted_trans:
  "emitted a S S' \<Longrightarrow> same_frame S S' \<Longrightarrow> emitted b S' S'' \<Longrightarrow> emitted (a @ b) S S''"
  unfolding emitted_def by (simp add: same_frame_simps) (metis appended_trans)

lemma emitted_same: "emitted [] S (S\<lparr>xl_queues := q, xl_login_count := n, xl_credentials := c\<rparr>)"
  by (simp add: emitted_def appended_refl)

definition fits_out :: "emission \<Rightarrow> execution_link \<Rightarrow> bool" where
  "fits_out outs S \<longleftrightarrow> (\<forall>pix. active S pix \<longrightarrow> int (length (out_for pix outs)) \<le> tape_room (send_tape (part S pix)))"

lemma fits_out_rest:
  assumes "fits_out (a @ b) S" "emitted a S S'" "same_frame S S'"
  shows "fits_out b S'"
  unfolding fits_out_def
proof (intro allI impI)
  fix pix assume "active S' pix"
  then have a: "active S pix" by (simp add: same_frame_simps [OF assms(3)])
  then have "tape_room (send_tape (part S' pix)) = tape_room (send_tape (part S pix)) - int (length (out_for pix a))"
    using assms(2) unfolding emitted_def appended_def by auto
  then show "int (length (out_for pix b)) \<le> tape_room (send_tape (part S' pix))"
    using assms(1) [unfolded fits_out_def, rule_format, OF a] by simp
qed

lemma emit_login_each:
  assumes "link_inv E FS stack S" "login_ready S" "set ps \<subseteq> set (mask_pixes (xl_active S))" "xl_credentials S = Some creds"
    "outs = map (\<lambda>pix. (pix, the (login_packet (creds ! pix) (xl_seqnums S ! pix)))) ps" "fits_out outs S"
  shows "\<exists>S'. each_pix (emit_login_to E) ps S = Some (Inr S') \<and> link_inv E FS stack S' \<and> emitted outs S S' \<and> same_frame S S' \<and>
    xl_queues S' = xl_queues S \<and> xl_login_count S' = xl_login_count S \<and> xl_credentials S' = xl_credentials S"
  using assms
proof (induction ps arbitrary: S outs)
  case Nil
  then show ?case by (simp add: emitted_def appended_refl same_frame_refl)
next
  case (Cons p ps)
  have a: "active S p" using Cons.prems(3) by (simp add: active_def mask_pixes_set)
  have pix: "p < part_count" by (rule link_invD(3) [OF Cons.prems(1) a])
  obtain bs where bs: "login_packet (creds ! p) (xl_seqnums S ! p) = Some bs"
    using Cons.prems(2,3,4) by (auto simp: login_ready_def)
  let ?outs = "map (\<lambda>pix. (pix, the (login_packet (creds ! pix) (xl_seqnums S ! pix)))) ps"
  have o: "outs = [(p, bs)] @ ?outs" using bs Cons.prems(5) by simp
  have "int (length bs) \<le> tape_room (send_tape (part S p))" using Cons.prems(6) a unfolding o fits_out_def by auto
  from send_frame_spec [OF Cons.prems(1) a this, of True] obtain P' where s: "send_frame E True bs p S = Some (Inr (set_partition p P' S))"
    "link_inv E FS stack (set_partition p P' S)" "appended bs (part S p) P'" by blast
  let ?S = "set_partition p P' S"
  have step: "emit_login_to E p S = Some (Inr ?S)"
    using Cons.prems(2,4) pix bs s(1) by (simp add: emit_login_to_def login_ready_def)
  have e: "emitted [(p, bs)] S ?S" by (rule emitted_one [OF Cons.prems(1) a s(3)])
  have k: "xl_credentials ?S = xl_credentials S" "xl_seqnums ?S = xl_seqnums S" "xl_active ?S = xl_active S" "xl_queues ?S = xl_queues S"
    "xl_login_count ?S = xl_login_count S" by (simp_all add: set_partition_def)
  have r: "login_ready ?S" using Cons.prems(2,4) by (simp add: login_ready_def k)
  have f: "fits_out ?outs ?S" using fits_out_rest [OF _ e same_frame_partition] Cons.prems(6) o by blast
  from Cons.IH [OF s(2) r _ _ _ f] Cons.prems(3,4) obtain S' where "each_pix (emit_login_to E) ps ?S = Some (Inr S')" "link_inv E FS stack S'"
    "emitted ?outs ?S S'" "same_frame ?S S'" "xl_queues S' = xl_queues ?S" "xl_login_count S' = xl_login_count ?S" "xl_credentials S' = xl_credentials ?S"
    by (auto simp: k)
  then show ?case using step emitted_trans [OF e same_frame_partition] same_frame_trans [OF same_frame_partition] o
    by (intro exI [of _ S']) (simp add: k)
qed

lemma emit_login_spec:
  assumes "link_inv E FS stack S" "login_ready S" "fits_out (login_out S) S"
  obtains S' where "emit_login E S = Some (Inr S')" "link_inv E FS stack S'" "emitted (login_out S) S S'" "same_frame S S'"
    "xl_queues S' = xl_queues S" "xl_login_count S' = xl_login_count S" "xl_credentials S' = None"
proof -
  from assms(2) obtain creds where creds: "xl_credentials S = Some creds" by (auto simp: login_ready_def split: option.splits)
  obtain S1 where s: "each_pix (emit_login_to E) (mask_pixes (xl_active S)) S = Some (Inr S1)" "link_inv E FS stack S1" "emitted (login_out S) S S1"
    "same_frame S S1" "xl_queues S1 = xl_queues S" "xl_login_count S1 = xl_login_count S"
    using emit_login_each [OF assms(1,2) order_refl creds refl] assms(3) by (auto simp: login_out_def creds)
  let ?S = "S1\<lparr>xl_queues := xl_queues S1, xl_login_count := xl_login_count S1, xl_credentials := None\<rparr>"
  have "?S = S1\<lparr>xl_credentials := None\<rparr>" by simp
  moreover have "same_frame S ?S" using s(4) by (cases S; cases S1) (simp add: same_frame_def)
  moreover have "link_inv E FS stack ?S" unfolding link_inv_frame by (rule s(2))
  moreover have "emitted (login_out S) S ?S" using s(3) by (simp add: emitted_def)
  ultimately show ?thesis using s by (intro that [of ?S]) (simp_all add: emit_login_def)
qed

lemma emit_order_spec:
  assumes "link_inv E FS stack S" "0 \<le> req_liid req" "req_liid req < int (length (xl_liid_map S))" "active S (fst (request_out S req))"
    "fits_out [request_out S req] S"
  obtains S' where "emit_order E req S = Some (Inr S')" "link_inv E FS stack S'" "emitted [request_out S req] S S'" "same_frame S S'"
    "xl_queues S' = xl_queues S" "xl_login_count S' = xl_login_count S" "xl_credentials S' = xl_credentials S"
proof -
  obtain pix bs where o: "request_out S req = (pix, bs)" by (cases "request_out S req")
  with assms(4) have a: "active S pix" by simp
  have "int (length bs) \<le> tape_room (send_tape (part S pix))" using assms(5) a o by (auto simp: fits_out_def)
  from send_frame_spec [OF assms(1) a this, of False] obtain P' where s: "send_frame E False bs pix S = Some (Inr (set_partition pix P' S))"
    "link_inv E FS stack (set_partition pix P' S)" "appended bs (part S pix) P'" by blast
  have "emit_order E req S = send_frame E False bs pix S"
    using assms(2,3) o by (simp add: emit_order_def request_out_def Let_def)
  then show ?thesis using s emitted_one [OF assms(1) a s(3)] o same_frame_partition
    by (intro that [of "set_partition pix P' S"]) (simp_all add: set_partition_def)
qed

text \<open>One queue: what its request comes to, and the request gone.\<close>

definition served :: "nat \<Rightarrow> nat \<Rightarrow> execution_link \<Rightarrow> execution_link \<Rightarrow> bool" where
  "served agents i S S' \<longleftrightarrow> emitted (queue_out S agents (xl_login_count S) i) S S' \<and> same_frame S S' \<and>
     xl_queues S' = (xl_queues S)[i := tl (xl_queues S ! i)] \<and> xl_login_count S' = xl_login_count S + queue_logins S i \<and>
     (xl_credentials S' = xl_credentials S \<or> xl_credentials S' = None \<and> agents \<le> xl_login_count S')"

lemma served_request:
  assumes "xl_queues S ! i = req # rest" "emitted (queue_out S agents (xl_login_count S) i) S S1" "same_frame S S1"
    "xl_queues S1 = xl_queues S" "xl_login_count S1 = xl_login_count S + queue_logins S i"
    "xl_credentials S1 = xl_credentials S \<or> xl_credentials S1 = None \<and> agents \<le> xl_login_count S1" "link_inv E FS stack S1"
  shows "served agents i S (S1\<lparr>xl_queues := (xl_queues S)[i := rest]\<rparr>)" "link_inv E FS stack (S1\<lparr>xl_queues := (xl_queues S)[i := rest]\<rparr>)"
proof -
  let ?S = "S1\<lparr>xl_queues := (xl_queues S)[i := rest], xl_login_count := xl_login_count S1, xl_credentials := xl_credentials S1\<rparr>"
  have eq: "?S = S1\<lparr>xl_queues := (xl_queues S)[i := rest]\<rparr>" by simp
  have "same_frame S (S1\<lparr>xl_queues := (xl_queues S)[i := rest]\<rparr>)" using assms(3) by (cases S; cases S1) (simp add: same_frame_def)
  then show "served agents i S (S1\<lparr>xl_queues := (xl_queues S)[i := rest]\<rparr>)"
    using assms by (simp add: served_def emitted_def)
  show "link_inv E FS stack (S1\<lparr>xl_queues := (xl_queues S)[i := rest]\<rparr>)"
    using link_inv_frame [where S = S1 and q = "(xl_queues S)[i := rest]" and n = "xl_login_count S1" and c = "xl_credentials S1"] assms(7) unfolding eq by blast
qed

lemma serve_queue_spec:
  assumes inv: "link_inv E FS stack S" and r: "queue_ready S agents (xl_login_count S) i"
    and f: "fits_out (queue_out S agents (xl_login_count S) i) S"
  shows "\<exists>S'. serve_queue E agents i S = Some (Inr S') \<and> link_inv E FS stack S' \<and> served agents i S S'"
proof (cases "xl_queues S ! i")
  case Nil
  then have "serve_queue E agents i S = Some (Inr S)" "queue_out S agents (xl_login_count S) i = []" "queue_logins S i = 0"
    using r by (simp_all add: serve_queue_def queue_out_def queue_logins_def queue_ready_def)
  moreover have "xl_queues S = (xl_queues S)[i := tl (xl_queues S ! i)]" using Nil list_update_id [of "xl_queues S" i] by simp
  ultimately show ?thesis using inv by (intro exI [of _ S]) (simp add: served_def emitted_def appended_refl same_frame_refl)
next
  case (Cons req rest)
  have i: "i < length (xl_queues S)" using r by (simp add: queue_ready_def)
  note q = served_request [OF Cons]
  show ?thesis
  proof (cases "req = Start_login")
    case False
    have o: "queue_out S agents (xl_login_count S) i = [request_out S req]" "queue_logins S i = 0"
      using Cons False by (simp_all add: queue_out_def queue_logins_def)
    have rr: "0 \<le> req_liid req" "req_liid req < int (length (xl_liid_map S))" "active S (fst (request_out S req))"
      using r Cons False by (simp_all add: queue_ready_def)
    obtain S1 where s: "emit_order E req S = Some (Inr S1)" "link_inv E FS stack S1" "emitted [request_out S req] S S1" "same_frame S S1"
      "xl_queues S1 = xl_queues S" "xl_login_count S1 = xl_login_count S" "xl_credentials S1 = xl_credentials S"
      by (rule emit_order_spec [OF inv rr f [unfolded o]])
    have "serve_queue E agents i S = Some (Inr (S1\<lparr>xl_queues := (xl_queues S)[i := rest]\<rparr>))"
      using i Cons False s(1,5) by (simp add: serve_queue_def)
    then show ?thesis using q [of agents S1] s o by auto
  next
    case login: True
    let ?S = "S\<lparr>xl_queues := xl_queues S, xl_login_count := xl_login_count S + 1, xl_credentials := xl_credentials S\<rparr>"
    have eq: "?S = S\<lparr>xl_login_count := xl_login_count S + 1\<rparr>" by simp
    have l: "queue_logins S i = 1" using Cons login by (simp add: queue_logins_def)
    have inv': "link_inv E FS stack ?S" unfolding link_inv_frame by (rule inv)
    have fr: "same_frame S ?S" by (cases S) (simp add: same_frame_def)
    show ?thesis
    proof (cases "xl_login_count S + 1 = agents")
      case False
      have o: "queue_out S agents (xl_login_count S) i = []" using Cons login False by (simp add: queue_out_def)
      have "serve_queue E agents i S = Some (Inr (?S\<lparr>xl_queues := (xl_queues S)[i := rest]\<rparr>))"
        using i Cons login False by (simp add: serve_queue_def Let_def)
      moreover have "emitted [] S ?S" by (rule emitted_same)
      ultimately show ?thesis using q [of agents ?S] inv' fr o l by auto
    next
      case True
      have o: "queue_out S agents (xl_login_count S) i = login_out S" using Cons login True by (simp add: queue_out_def)
      have lo: "login_out ?S = login_out S" "login_ready ?S = login_ready S" by (auto simp: login_out_def login_ready_def split: option.split)
      have "login_ready ?S" unfolding lo using r Cons login True by (simp add: queue_ready_def)
      moreover have "fits_out (login_out ?S) ?S" unfolding lo using f o by (simp add: fits_out_def active_def)
      ultimately obtain S1 where s: "emit_login E ?S = Some (Inr S1)" "link_inv E FS stack S1" "emitted (login_out ?S) ?S S1" "same_frame ?S S1"
        "xl_queues S1 = xl_queues ?S" "xl_login_count S1 = xl_login_count ?S" "xl_credentials S1 = None"
        by (rule emit_login_spec [OF inv'])
      have "emitted (login_out S) S S1" using s(3) unfolding lo by (simp add: emitted_def active_def cong: if_cong)
      moreover have "serve_queue E agents i S = Some (Inr (S1\<lparr>xl_queues := (xl_queues S)[i := rest]\<rparr>))"
        using i Cons login True s(1,5) by (simp add: serve_queue_def Let_def)
      ultimately show ?thesis using q [of agents S1] s(2,5-7) o l True same_frame_trans [OF fr s(4)] by auto
    qed
  qed
qed

text \<open>All queues.\<close>

lemma serve_each_spec:
  assumes "link_inv E FS stack S" "distinct is" "phase_ready S agents (xl_login_count S) is"
    "fits_out (phase_out S agents (xl_login_count S) is) S"
  shows "\<exists>S'. each_pix (serve_queue E agents) is S = Some (Inr S') \<and> link_inv E FS stack S' \<and>
    emitted (phase_out S agents (xl_login_count S) is) S S' \<and> same_frame S S' \<and> length (xl_queues S') = length (xl_queues S) \<and>
    (\<forall>i. xl_queues S' ! i = (if i \<in> set is then tl (xl_queues S ! i) else xl_queues S ! i)) \<and>
    (xl_credentials S' = xl_credentials S \<or> xl_credentials S' = None)"
  using assms
proof (induction "is" arbitrary: S)
  case Nil
  then show ?case by (simp add: emitted_def appended_refl same_frame_refl)
next
  case (Cons i "is")
  let ?o = "queue_out S agents (xl_login_count S) i" and ?lc = "xl_login_count S + queue_logins S i"
  have r: "queue_ready S agents (xl_login_count S) i" "phase_ready S agents ?lc is" using Cons.prems(3) by simp_all
  then have i: "i < length (xl_queues S)" by (simp add: queue_ready_def)
  have "fits_out ?o S" using Cons.prems(4) unfolding fits_out_def by fastforce
  from serve_queue_spec [OF Cons.prems(1) r(1) this] obtain S1 where s: "serve_queue E agents i S = Some (Inr S1)" "link_inv E FS stack S1"
    "served agents i S S1" by blast
  note v = s(3) [unfolded served_def]
  have q: "xl_queues S1 ! j = (if j = i then tl (xl_queues S ! i) else xl_queues S ! j)" for j
    using v i by (simp add: nth_list_update)
  have len: "length (xl_queues S1) = length (xl_queues S)" using v by simp
  have "\<forall>j \<in> set is. xl_queues S1 ! j = xl_queues S ! j" using Cons.prems(2) by (auto simp: q)
  with phase_cong [of S1 S "is" agents ?lc] v len same_frame_simps [of S S1]
  have pc: "phase_out S1 agents ?lc is = phase_out S agents ?lc is" "phase_ready S1 agents ?lc is = phase_ready S agents ?lc is" by auto
  have "fits_out (phase_out S agents ?lc is) S1" using fits_out_rest [of ?o _ S S1] v Cons.prems(4) by simp
  with Cons.IH [OF s(2)] Cons.prems(2) r(2) v pc obtain S' where h: "each_pix (serve_queue E agents) is S1 = Some (Inr S')" "link_inv E FS stack S'"
    "emitted (phase_out S agents ?lc is) S1 S'" "same_frame S1 S'" "length (xl_queues S') = length (xl_queues S1)"
    "\<forall>j. xl_queues S' ! j = (if j \<in> set is then tl (xl_queues S1 ! j) else xl_queues S1 ! j)"
    "xl_credentials S' = xl_credentials S1 \<or> xl_credentials S' = None" by auto
  have "xl_credentials S' = xl_credentials S \<or> xl_credentials S' = None" using h(7) v by auto
  moreover have "emitted (phase_out S agents (xl_login_count S) (i # is)) S S'" using emitted_trans [of ?o S S1] v h(3) by simp
  moreover have "same_frame S S'" using same_frame_trans [OF _ h(4)] v by blast
  moreover have "\<forall>j. xl_queues S' ! j = (if j \<in> set (i # is) then tl (xl_queues S ! j) else xl_queues S ! j)"
    using h(6) Cons.prems(2) by (auto simp: q)
  ultimately show ?case using s(1) h(1,2,5) len by (intro exI [of _ S']) simp
qed

end
