(* ===== verification/Link_Step.thy ===== *)
theory Link_Step
  imports Link_Send
begin

text \<open>
  The last phase of the execution link's step, partition by partition, and the step as a whole.
\<close>

section \<open>Sending and flushing one partition\<close>

text \<open>The heartbeat that is added when nothing waits and nothing was sent for a while.\<close>

definition heartbeat_out :: "link_env \<Rightarrow> partition \<Rightarrow> byte list" where
  "heartbeat_out E P = (if tape_size (send_tape P) = 0 \<and> dl_ts_last_send (the (pn_link P)) + heartbeat_timeout \<le> le_utc E
     then heartbeat_packet else [])"

definition sent_on :: "byte list \<Rightarrow> partition \<Rightarrow> partition \<Rightarrow> bool" where
  "sent_on bs P P' \<longleftrightarrow> sent P' = sent P @ bs \<and> (\<exists>new. so_out (pn_sock P') = so_out (pn_sock P) @ new) \<and>
     tape_all (recv_tape P') = tape_all (recv_tape P) \<and> arrived P' = arrived P \<and> so_in (pn_sock P') = so_in (pn_sock P)"

lemma length_heartbeat: "length heartbeat_packet = 3"
  by (simp add: heartbeat_packet_def)

lemma send_partition_spec:
  assumes inv: "link_inv E FS stack S" and act: "active S pix" and so: "can_send (pn_sock (part S pix))"
    and room: "heartbeat_out E (part S pix) \<noteq> [] \<longrightarrow> 3 \<le> tape_room (send_tape (part S pix))"
  obtains P' where "send_partition E pix S = Some (Inr (set_partition pix P' S))" "link_inv E FS stack (set_partition pix P' S)"
    "sent_on (heartbeat_out E (part S pix)) (part S pix) P'" "recv_tape P' = recv_tape (part S pix)" "pn_recv_pos_begin P' = pn_recv_pos_begin (part S pix)"
proof -
  let ?P = "part S pix"
  have pix: "pix < length (xl_partitions S)" by (rule link_invD(4) [OF inv act])
  have po: "part_ok (FS pix) ?P" by (rule link_invD(5) [OF inv act])
  then obtain l where l: "pn_link ?P = Some l" by (auto simp: part_ok_def)
  have t: "send_tape ?P = dl_send l" "recv_tape ?P = dl_recv l" by (simp_all add: send_tape_def recv_tape_def l)
  have sk: "tape_inv (dl_send l)" "tp_reserve_size (dl_send l) < 2 ^ 31" "pn_send_committed ?P - pn_send_flushed ?P = tape_size (dl_send l)"
    using po t by (simp_all add: part_ok_def send_ok_def)
  have sz: "0 \<le> tape_size (dl_send l)" "tape_size (dl_send l) < 2 ^ 31" using tape_posD [OF sk(1)] sk(2) by linarith+
  have pend: "narrow 32 (pn_send_committed ?P - pn_send_flushed ?P) = tape_size (dl_send l)"
    unfolding sk(3) by (rule narrow_id) (use sz in simp_all)
  show ?thesis
  proof (cases "tape_size (dl_send l) > 0")
    case True
    obtain n l' so' where f: "send_flush (tape_ops (le_check E)) (le_send_now E pix) (tape_size (dl_send l)) (pn_sock ?P) l = Some (Inr (int n, l', so'))"
      "int n \<le> tape_size (dl_send l)" "dl_send l' = tape_consume n (dl_send l)" "dl_recv l' = dl_recv l"
      "so_out so' = so_out (pn_sock ?P) @ take n (tape_rest (dl_send l))" "so_in so' = so_in (pn_sock ?P)" "can_send so'"
      by (rule send_flush_tape [OF sk(1) sz(1) order_refl so])
    let ?P' = "?P\<lparr>pn_link := Some l', pn_sock := so', pn_send_flushed := pn_send_flushed ?P + int n\<rparr>"
    have t': "send_tape ?P' = tape_consume n (dl_send l)" "recv_tape ?P' = dl_recv l" by (simp_all add: send_tape_def recv_tape_def f(3,4))
    note c = tape_consume_inv [OF sk(1) f(2)]
    have "send_ok ?P'" using sk c by (simp add: send_ok_def t')
    then have "part_ok (FS pix) ?P'" using po by (simp add: part_ok_def recv_ok_def arrived_def t t')
    then have "link_inv E FS stack (set_partition pix ?P' S)" by (rule link_inv_quiet [OF inv act]) (simp_all add: arrived_def t t')
    moreover have "sent_on [] ?P ?P'" using f(5,6) c(7) by (simp add: sent_on_def sent_def arrived_def t t')
    moreover have "heartbeat_out E ?P = []" using True by (simp add: heartbeat_out_def t)
    moreover have "send_partition E pix S = Some (Inr (set_partition pix ?P' S))"
      using pix True pend f(1) by (simp add: send_partition_def with_link_def l Let_def)
    ultimately show ?thesis by (intro that [of ?P']) (simp_all add: t t')
  next
    case False
    then have z: "tape_size (dl_send l) = 0" using sz by simp
    show ?thesis
    proof (cases "le_utc E \<ge> dl_ts_last_send l + heartbeat_timeout")
      case True
      have hb: "heartbeat_out E ?P = heartbeat_packet" using True z by (simp add: heartbeat_out_def t l)
      then have "int (length heartbeat_packet) \<le> tape_room (send_tape ?P)" using room length_heartbeat by (auto simp: heartbeat_packet_def)
      from send_frame_spec [OF inv act this, of False] obtain P' where s: "send_frame E False heartbeat_packet pix S = Some (Inr (set_partition pix P' S))"
        "link_inv E FS stack (set_partition pix P' S)" "appended heartbeat_packet ?P P'" by blast
      have "send_partition E pix S = Some (Inr (set_partition pix P' S))"
        using pix True pend z s(1) by (simp add: send_partition_def with_link_def l Let_def emit_heartbeat_def)
      moreover have "sent_on heartbeat_packet ?P P'" using s(3) by (simp add: sent_on_def appended_def arrived_def)
      ultimately show ?thesis using s(2,3) hb by (intro that [of P']) (simp_all add: appended_def)
    next
      case False
      then have hb: "heartbeat_out E ?P = []" by (simp add: heartbeat_out_def l)
      have eq: "set_partition pix ?P S = S" by (simp add: set_partition_def)
      have "send_partition E pix S = Some (Inr S)"
        using pix False pend z by (simp add: send_partition_def with_link_def l Let_def)
      then show ?thesis using inv by (intro that [of ?P]) (simp_all add: eq hb sent_on_def)
    qed
  qed
qed

text \<open>A bound that is the end of a complete packet is within what arrived.\<close>

definition bound_ok :: "packet list \<Rightarrow> partition \<Rightarrow> int \<Rightarrow> bool" where
  "bound_ok fs P b \<longleftrightarrow> b \<noteq> pos_max \<longrightarrow> (\<exists>n \<le> arrived P. b = int (whole_size fs n))"

lemma flush_partition_spec:
  assumes inv: "link_inv E FS stack S" and act: "active S pix" and b: "bound_ok (FS pix) (part S pix) (bounds ! pix)"
    and fl: "flushed ! pix = pn_recv_pos_begin (part S pix)"
  obtains P' where "flush_partition E bounds flushed pix S = Some (Inr (set_partition pix P' S))" "link_inv E FS stack (set_partition pix P' S)"
    "sent_on [] (part S pix) P'"
proof -
  let ?P = "part S pix" and ?fs = "FS pix"
  have pix: "pix < length (xl_partitions S)" by (rule link_invD(4) [OF inv act])
  have po: "part_ok ?fs ?P" by (rule link_invD(5) [OF inv act])
  then obtain l where l: "pn_link ?P = Some l" by (auto simp: part_ok_def)
  have t: "send_tape ?P = dl_send l" "recv_tape ?P = dl_recv l" by (simp_all add: send_tape_def recv_tape_def l)
  have "recv_ok ?fs ?P" using po by (simp add: part_ok_def)
  note r = recv_okD [OF this, unfolded t]
  show ?thesis
  proof (cases "pn_recv_pos_begin ?P < bounds ! pix \<and> bounds ! pix < pos_max")
    case False
    have eq: "set_partition pix ?P S = S" by (simp add: set_partition_def)
    have "flush_partition E bounds flushed pix S = Some (Inr S)"
      using pix False by (auto simp: flush_partition_def with_link_def l Let_def fl)
    then show ?thesis using inv by (intro that [of ?P]) (simp_all add: eq sent_on_def)
  next
    case True
    then obtain m where m: "m \<le> arrived ?P" "bounds ! pix = int (whole_size ?fs m)" using b by (auto simp: bound_ok_def)
    let ?n = "whole_size ?fs m - tape_r (dl_recv l)"
    have le: "tape_r (dl_recv l) < whole_size ?fs m" "whole_size ?fs m \<le> whole_size ?fs (arrived ?P)" "whole_size ?fs (arrived ?P) \<le> arrived ?P"
      using True m(2) r(3) whole_size_mono [OF m(1)] whole_size_le by simp_all
    have w: "arrived ?P = tape_w (dl_recv l)" by (simp add: arrived_def t)
    have inc: "bounds ! pix - pn_recv_pos_begin ?P = int ?n" using m(2) r(3) le by (simp add: of_nat_diff)
    have small: "int ?n \<le> tape_size (dl_recv l)" using le w tape_posD(6) [OF r(1)] by simp
    have "int ?n < 2 ^ 31" using small tape_posD [OF r(1)] r(2) by linarith
    then have "narrow 32 (int ?n) = int ?n" by (intro narrow_id) simp_all
    then have nar: "narrow 32 (bounds ! pix - pn_recv_pos_begin ?P) = int ?n" unfolding inc .
    let ?l = "l\<lparr>dl_recv := tape_consume ?n (dl_recv l)\<rparr>"
    let ?P' = "?P\<lparr>pn_link := Some ?l, pn_recv_pos_begin := bounds ! pix, pn_recv_size := pn_recv_size ?P - int ?n\<rparr>"
    note c = tape_consume_inv [OF r(1) small]
    have t': "send_tape ?P' = dl_send l" "recv_tape ?P' = tape_consume ?n (dl_recv l)" by (simp_all add: send_tape_def recv_tape_def)
    have a: "arrived ?P' = arrived ?P" using c(4) by (simp add: arrived_def t t')
    have "recv_ok ?fs ?P'"
      unfolding recv_ok_def a t' using c r m(2) le by (simp add: w)
    then have "part_ok ?fs ?P'" using po by (simp add: part_ok_def send_ok_def t t')
    then have "link_inv E FS stack (set_partition pix ?P' S)"
      by (rule link_inv_quiet [OF inv act]) (use a c(8) in \<open>simp_all add: t t'\<close>)
    moreover have "sent_on [] ?P ?P'" using a c(2) by (simp add: sent_on_def sent_def t t')
    moreover have "flush_partition E bounds flushed pix S = Some (Inr (set_partition pix ?P' S))"
      using pix True nar recv_flush_tape [OF small, of "le_check E"] by (simp add: flush_partition_def with_link_def l Let_def fl)
    ultimately show ?thesis by (intro that)
  qed
qed

section \<open>All partitions\<close>

definition finish_partition :: "link_env \<Rightarrow> int list \<Rightarrow> int list \<Rightarrow> nat \<Rightarrow> execution_link \<Rightarrow> execution_link result option" where
  "finish_partition E bounds flushed pix S = bind_ro (send_partition E pix S) (flush_partition E bounds flushed pix)"

definition finish_ready :: "link_env \<Rightarrow> (nat \<Rightarrow> packet list) \<Rightarrow> int list \<Rightarrow> int list \<Rightarrow> execution_link \<Rightarrow> nat \<Rightarrow> bool" where
  "finish_ready E FS bounds flushed S pix \<longleftrightarrow> active S pix \<and> can_send (pn_sock (part S pix)) \<and>
     (heartbeat_out E (part S pix) \<noteq> [] \<longrightarrow> 3 \<le> tape_room (send_tape (part S pix))) \<and>
     bound_ok (FS pix) (part S pix) (bounds ! pix) \<and> flushed ! pix = pn_recv_pos_begin (part S pix)"

lemma sent_on_trans: "sent_on a P P' \<Longrightarrow> sent_on b P' P'' \<Longrightarrow> sent_on (a @ b) P P''"
  by (auto simp: sent_on_def)

lemma finish_partition_spec:
  assumes inv: "link_inv E FS stack S" and ok: "finish_ready E FS bounds flushed S pix"
  obtains P' where "finish_partition E bounds flushed pix S = Some (Inr (set_partition pix P' S))" "link_inv E FS stack (set_partition pix P' S)"
    "sent_on (heartbeat_out E (part S pix)) (part S pix) P'"
proof -
  have o: "active S pix" "can_send (pn_sock (part S pix))" "heartbeat_out E (part S pix) \<noteq> [] \<longrightarrow> 3 \<le> tape_room (send_tape (part S pix))"
    "bound_ok (FS pix) (part S pix) (bounds ! pix)" "flushed ! pix = pn_recv_pos_begin (part S pix)"
    using ok by (simp_all add: finish_ready_def)
  obtain P1 where s: "send_partition E pix S = Some (Inr (set_partition pix P1 S))" "link_inv E FS stack (set_partition pix P1 S)"
    "sent_on (heartbeat_out E (part S pix)) (part S pix) P1" "recv_tape P1 = recv_tape (part S pix)" "pn_recv_pos_begin P1 = pn_recv_pos_begin (part S pix)"
    by (rule send_partition_spec [OF inv o(1-3)])
  let ?S = "set_partition pix P1 S"
  have pix: "pix < length (xl_partitions S)" by (rule link_invD(4) [OF inv o(1)])
  have p: "part ?S pix = P1" using pix by (simp add: set_partition_def)
  have a: "active ?S pix" using o(1) by (simp add: active_def set_partition_def)
  have "bound_ok (FS pix) (part ?S pix) (bounds ! pix)" "flushed ! pix = pn_recv_pos_begin (part ?S pix)"
    using o(4,5) s(4,5) unfolding p by (simp_all add: bound_ok_def arrived_def)
  from flush_partition_spec [OF s(2) a this] obtain P' where f: "flush_partition E bounds flushed pix ?S = Some (Inr (set_partition pix P' ?S))"
    "link_inv E FS stack (set_partition pix P' ?S)" "sent_on [] (part ?S pix) P'" by blast
  have eq: "set_partition pix P' ?S = set_partition pix P' S" by (simp add: set_partition_def)
  have "sent_on (heartbeat_out E (part S pix)) (part S pix) P'" using sent_on_trans [OF s(3), of "[]" P'] f(3) unfolding p by simp
  then show ?thesis using s(1) f(1,2) unfolding eq by (intro that [of P']) (simp_all add: finish_partition_def)
qed

lemma finish_each_spec:
  assumes "link_inv E FS stack S" "distinct ps" "\<forall>pix \<in> set ps. finish_ready E FS bounds flushed S pix"
  shows "\<exists>S'. each_pix (finish_partition E bounds flushed) ps S = Some (Inr S') \<and> link_inv E FS stack S' \<and> same_frame S S' \<and>
    xl_queues S' = xl_queues S \<and> xl_credentials S' = xl_credentials S \<and>
    (\<forall>pix. if pix \<in> set ps then sent_on (heartbeat_out E (part S pix)) (part S pix) (part S' pix) else part S' pix = part S pix)"
  using assms
proof (induction ps arbitrary: S)
  case Nil
  then show ?case by (simp add: same_frame_refl)
next
  case (Cons p ps)
  have r: "finish_ready E FS bounds flushed S p" using Cons.prems(3) by simp
  obtain P' where f: "finish_partition E bounds flushed p S = Some (Inr (set_partition p P' S))" "link_inv E FS stack (set_partition p P' S)"
    "sent_on (heartbeat_out E (part S p)) (part S p) P'"
    by (rule finish_partition_spec [OF Cons.prems(1) r])
  let ?S = "set_partition p P' S"
  have "p < length (xl_partitions S)" using link_invD(4) [OF Cons.prems(1)] r by (simp add: finish_ready_def)
  then have pq: "part ?S q = (if q = p then P' else part S q)" for q by (simp add: set_partition_def nth_list_update)
  have "\<forall>pix \<in> set ps. finish_ready E FS bounds flushed ?S pix"
  proof
    fix q assume q: "q \<in> set ps"
    then have "q \<noteq> p" using Cons.prems(2) by auto
    then have "part ?S q = part S q" by (simp add: pq)
    moreover have "active ?S q = active S q" by (simp add: active_def set_partition_def)
    ultimately show "finish_ready E FS bounds flushed ?S q" using Cons.prems(3) q unfolding finish_ready_def by simp
  qed
  with Cons.IH [OF f(2)] Cons.prems(2) obtain S' where h: "each_pix (finish_partition E bounds flushed) ps ?S = Some (Inr S')" "link_inv E FS stack S'"
    "same_frame ?S S'" "xl_queues S' = xl_queues ?S" "xl_credentials S' = xl_credentials ?S"
    "\<forall>pix. if pix \<in> set ps then sent_on (heartbeat_out E (part ?S pix)) (part ?S pix) (part S' pix) else part S' pix = part ?S pix" by auto
  have "if q \<in> set (p # ps) then sent_on (heartbeat_out E (part S q)) (part S q) (part S' q) else part S' q = part S q" for q
  proof (cases "q = p")
    case True
    have "part S' p = P'" using h(6) [rule_format, of p] Cons.prems(2) unfolding pq by simp
    then show ?thesis using True f(3) by simp
  next
    case False
    then show ?thesis using h(6) [rule_format, of q] unfolding pq by (simp cong: if_cong)
  qed
  moreover have "xl_queues ?S = xl_queues S" "xl_credentials ?S = xl_credentials S" by (simp_all add: set_partition_def)
  ultimately show ?case using f(1) h same_frame_trans [OF same_frame_partition h(3)] by (intro exI [of _ S']) simp
qed

section \<open>The step\<close>

text \<open>
  What a step needs: bytes that continue the packets of the exchange and fit the tapes, sockets
  that do not fail, requests that can be served, room for what they become, a descriptor left in
  the pool.
\<close>

definition step_out :: "execution_link \<Rightarrow> emission" where
  "step_out S = phase_out S (xl_connect_count S) (xl_login_count S) [0..<xl_connect_count S]"

definition step_ready :: "link_env \<Rightarrow> (nat \<Rightarrow> packet list) \<Rightarrow> execution_link \<Rightarrow> bool" where
  "step_ready E FS S \<longleftrightarrow> \<not> pool_full (le_pool E) (ru_pool (xl_pub S)) \<and>
     phase_ready S (xl_connect_count S) (xl_login_count S) [0..<xl_connect_count S] \<and>
     (\<forall>pix. active S pix \<longrightarrow> arrives (FS pix) (part S pix) \<and> can_send (pn_sock (part S pix)) \<and>
       int (length (out_for pix (step_out S))) + 3 \<le> tape_room (send_tape (part S pix)))"

text \<open>What it comes to, for one partition.\<close>

definition step_heartbeat :: "link_env \<Rightarrow> emission \<Rightarrow> nat \<Rightarrow> partition \<Rightarrow> byte list" where
  "step_heartbeat E outs pix P = (if out_for pix outs = [] then heartbeat_out E P else [])"

definition stepped :: "link_env \<Rightarrow> (nat \<Rightarrow> packet list) \<Rightarrow> execution_link \<Rightarrow> execution_link \<Rightarrow> nat \<Rightarrow> bool" where
  "stepped E FS S S' pix \<longleftrightarrow>
     tape_all (recv_tape (part S' pix)) = tape_all (recv_tape (part S pix)) @ ready (pn_sock (part S pix)) \<and>
     sent (part S' pix) = sent (part S pix) @ out_for pix (step_out S) @ step_heartbeat E (step_out S) pix (part S pix) \<and>
     (\<exists>new. so_out (pn_sock (part S' pix)) = so_out (pn_sock (part S pix)) @ new) \<and>
     rp_pos (rcu_data (le_pool E) (xl_pub S') (ru_published (xl_pub S')) ! pix) = int (whole_size (FS pix) (arrived (part S' pix)))"

lemma step_readyD:
  assumes "step_ready E FS S"
  shows "\<not> pool_full (le_pool E) (ru_pool (xl_pub S))"
    "phase_ready S (xl_connect_count S) (xl_login_count S) [0..<xl_connect_count S]"
    "active S pix \<Longrightarrow> arrives (FS pix) (part S pix)" "active S pix \<Longrightarrow> can_send (pn_sock (part S pix))"
    "active S pix \<Longrightarrow> int (length (out_for pix (step_out S))) + 3 \<le> tape_room (send_tape (part S pix))"
  using assms by (auto simp: step_ready_def)

lemma link_step_finish:
  "link_step E S = bind_ro (recv_phase E S) (\<lambda>S1. bind_ro (rcu_reclaim part_count (le_pool E) (xl_pub S1)) (\<lambda>(bounds, U).
     bind_ro (request_phase E (S1\<lparr>xl_pub := U\<rparr>)) (\<lambda>S2.
       each_pix (finish_partition E bounds (map pn_recv_pos_begin (xl_partitions S))) (mask_pixes (xl_active S2)) S2)))"
  by (simp add: link_step_def Let_def finish_partition_def [abs_def])

lemma link_step_spec:
  assumes inv: "link_inv E FS stack S" and st: "settled E S" and ok: "step_ready E FS S"
  obtains S' where "link_step E S = Some (Inr S')" "link_inv E FS [] S'" "settled E S'" "xl_active S' = xl_active S" "xl_agents S' = xl_agents S"
    "\<forall>pix. active S pix \<longrightarrow> stepped E FS S S' pix" "\<forall>i < xl_connect_count S. xl_queues S' ! i = tl (xl_queues S ! i)"
    "xl_templates S' = xl_templates S" "xl_seqnums S' = xl_seqnums S" "xl_credentials S' = xl_credentials S \<or> xl_credentials S' = None"
    "ru_readers (xl_pub S') = ru_readers (xl_pub S)"
proof -
  note k = step_readyD [OF ok]
  obtain S1 where r: "recv_phase E S = Some (Inr S1)" "link_inv E FS stack S1" "only_recv S S1" "settled E S1"
    "ru_readers (xl_pub S1) = ru_readers (xl_pub S)"
    "\<forall>pix. if active S pix then polled_to FS S S1 pix else part S1 pix = part S pix"
    by (rule recv_phase_spec [OF inv st _ k(1)]) (use k(3) in blast)+
  note or = only_recv_simps [OF r(3)]
  obtain bounds U where u: "rcu_reclaim part_count (le_pool E) (xl_pub S1) = Some (Inr (bounds, U))" "link_inv E FS [] (S1\<lparr>xl_pub := U\<rparr>)"
    "settled E (S1\<lparr>xl_pub := U\<rparr>)" "ru_readers U = ru_readers (xl_pub S1)"
    "\<And>pix. active S1 pix \<Longrightarrow> bounds ! pix \<noteq> pos_max \<Longrightarrow> \<exists>n \<le> arrived (part S1 pix). bounds ! pix = int (whole_size (FS pix) n)"
    using reclaim_spec [OF r(2,4)] by metis
  let ?S1 = "S1\<lparr>xl_pub := U\<rparr>" and ?n = "xl_connect_count S"
  have n: "xl_connect_count ?S1 = ?n" "xl_login_count ?S1 = xl_login_count S" "xl_queues ?S1 = xl_queues S" by (simp_all add: or)
  have ph: "phase_out ?S1 ?n (xl_login_count ?S1) [0..<?n] = step_out S" "phase_ready ?S1 ?n (xl_login_count ?S1) [0..<?n]"
    using phase_cong [of ?S1 S "[0..<?n]" ?n "xl_login_count S"] k(2) by (simp_all add: or step_out_def)
  have p1: "polled_to FS S S1 pix" "send_tape (part S1 pix) = send_tape (part S pix)" if "active S pix" for pix
    using r(6) [rule_format, of pix] that by (simp_all add: polled_to_def poll_result_def)
  have "fits_out (step_out S) ?S1"
    unfolding fits_out_def
  proof (intro allI impI)
    fix pix assume "active ?S1 pix"
    then have a: "active S pix" using or(2) by (simp add: active_def)
    show "int (length (out_for pix (step_out S))) \<le> tape_room (send_tape (part ?S1 pix))" using k(5) [OF a] p1(2) [OF a] by simp
  qed
  with serve_each_spec [OF u(2), of "[0..<?n]" ?n] ph obtain S2 where q: "each_pix (serve_queue E ?n) [0..<?n] ?S1 = Some (Inr S2)" "link_inv E FS [] S2"
    "emitted (step_out S) ?S1 S2" "same_frame ?S1 S2" "\<forall>i. xl_queues S2 ! i = (if i \<in> set [0..<?n] then tl (xl_queues ?S1 ! i) else xl_queues ?S1 ! i)"
    "xl_credentials S2 = xl_credentials ?S1 \<or> xl_credentials S2 = None" by auto
  note sf = same_frame_simps [OF q(4)]
  have act: "active S2 pix = active S pix" for pix using sf(2) [of pix] or(2) [of pix] by (simp add: active_def)
  have p2: "appended (out_for pix (step_out S)) (part S1 pix) (part S2 pix)" if "active S pix" for pix
    using q(3) [unfolded emitted_def, rule_format, of pix] that or(2) [of pix] by (simp add: active_def)
  have hb: "heartbeat_out E (part S2 pix) = step_heartbeat E (step_out S) pix (part S pix)" if a: "active S pix" for pix
  proof -
    have "0 \<le> tape_size (send_tape (part S pix))" using tape_posD(3,6) [of "send_tape (part S pix)"] link_invD(5) [OF inv a]
      by (simp add: part_ok_def send_ok_def)
    moreover have "tape_size (send_tape (part S2 pix)) = tape_size (send_tape (part S pix)) + int (length (out_for pix (step_out S)))"
      using p1(2) [OF a] p2 [OF a] by (simp add: appended_def)
    ultimately have "tape_size (send_tape (part S2 pix)) = 0 \<longleftrightarrow> tape_size (send_tape (part S pix)) = 0 \<and> out_for pix (step_out S) = []"
      by (cases "out_for pix (step_out S)") auto
    moreover have "dl_ts_last_send (the (pn_link (part S2 pix))) = dl_ts_last_send (the (pn_link (part S pix)))"
      using p1(1) [OF a] p2 [OF a] by (simp add: appended_def polled_to_def poll_result_def)
    ultimately show ?thesis unfolding heartbeat_out_def step_heartbeat_def by simp
  qed
  let ?fl = "map pn_recv_pos_begin (xl_partitions S)"
  have fr: "finish_ready E FS bounds ?fl S2 pix" if a: "active S pix" for pix
  proof -
    have len: "pix < length (xl_partitions S)" by (rule link_invD(4) [OF inv a])
    have "bound_ok (FS pix) (part S2 pix) (bounds ! pix)"
      using u(5) [of pix] a or(2) [of pix] p2 [OF a] by (auto simp: bound_ok_def appended_def arrived_def)
    then show ?thesis using k(4,5) [OF a] p1 [OF a] p2 [OF a] act a len
      by (auto simp: finish_ready_def polled_to_def poll_result_def appended_def can_send_def)
  qed
  let ?ps = "mask_pixes (xl_active S2)"
  have "\<forall>pix \<in> set ?ps. finish_ready E FS bounds ?fl S2 pix"
    using fr act by (simp add: mask_pixes_set active_def)
  from finish_each_spec [OF q(2) mask_pixes_distinct this] obtain S' where f: "each_pix (finish_partition E bounds ?fl) ?ps S2 = Some (Inr S')"
    "link_inv E FS [] S'" "same_frame S2 S'" "xl_queues S' = xl_queues S2"
    "\<forall>pix. if pix \<in> set ?ps then sent_on (heartbeat_out E (part S2 pix)) (part S2 pix) (part S' pix) else part S' pix = part S2 pix"
    "xl_credentials S' = xl_credentials S2" by blast
  note sf' = same_frame_simps [OF f(3)]
  have p3: "sent_on (step_heartbeat E (step_out S) pix (part S pix)) (part S2 pix) (part S' pix)" if "active S pix" for pix
    using f(5) [rule_format, of pix] that act [of pix] hb [OF that] by (simp add: mask_pixes_set active_def)
  have pub: "xl_pub S' = U" by (simp add: sf' sf)
  have st': "settled E S'" using u(3) act or(2) by (simp add: settled_def pub active_def sf' sf)
  have "stepped E FS S S' pix" if a: "active S pix" for pix
  proof -
    have "active S' pix" using a act sf'(2) by simp
    then have "rp_pos (rcu_data (le_pool E) (xl_pub S') (ru_published (xl_pub S')) ! pix) = int (whole_size (FS pix) (arrived (part S' pix)))"
      using st' link_invD(7) [OF f(2)] by (simp add: settled_def)
    then show ?thesis using p1 [OF a] p2 [OF a] p3 [OF a]
      by (auto simp: stepped_def polled_to_def poll_result_def appended_def sent_on_def sent_def)
  qed
  moreover have "link_step E S = Some (Inr S')"
    unfolding link_step_finish using r(1) u(1) q(1) f(1) by (simp add: request_phase_def or)
  moreover have "\<forall>i < ?n. xl_queues S' ! i = tl (xl_queues S ! i)" using q(5) f(4) n(3) by simp
  moreover have "xl_active S' = xl_active S" "xl_agents S' = xl_agents S" "xl_templates S' = xl_templates S" "xl_seqnums S' = xl_seqnums S"
    by (simp_all add: sf' sf or)
  moreover have "xl_credentials S' = xl_credentials S \<or> xl_credentials S' = None" using q(6) f(6) by (simp add: or)
  moreover have "ru_readers (xl_pub S') = ru_readers (xl_pub S)" using u(4) r(5) by (simp add: pub)
  ultimately show ?thesis using f(2) st' by (intro that [of S']) simp_all
qed

end
