(* ===== verification/Link_Start.thy ===== *)
theory Link_Start
  imports Link_Step
begin

text \<open>
  A link that was constructed and started satisfies the invariant of its steps.
\<close>

section \<open>The partitions of the agents\<close>

lemma map_agents_masks:
  assumes "map_agents cfg as (lm, ctx, mk) = Some (Inr (lm', ctx', mk'))" "\<forall>c \<in> set ctx. \<forall>k. bit (snd c) k \<longrightarrow> bit mk k"
  shows "\<forall>c \<in> set ctx'. \<forall>k. bit (snd c) k \<longrightarrow> bit mk' k"
  using assms
proof (induction as arbitrary: lm ctx mk)
  case (Cons a as)
  then obtain lm1 m1 where "map_agents cfg as (lm1, ctx @ [(fst a, m1)], mk OR m1) = Some (Inr (lm', ctx', mk'))"
    by (auto simp: bind_ro_def split: option.splits sum.splits)
  from Cons.IH [OF this] Cons.prems(2) show ?case by (auto simp: bit_or_iff)
qed simp

section \<open>Connecting\<close>

lemma tape_new_empty:
  assumes "tape_new page_size base cap = Inr s" "0 < page_size" "cap + page_size \<le> 2 ^ 31"
  shows "tape_inv s" "tape_w s = 0" "tape_r s = 0" "tp_reserve_size s < 2 ^ 31"
proof -
  have "0 \<le> (cap + page_size - 1) mod page_size" using assms(2) by simp
  then have "((cap + page_size - 1) div page_size) * page_size \<le> cap + page_size - 1"
    unfolding minus_mod_eq_div_mult [symmetric] by linarith
  then show "tape_inv s" "tape_w s = 0" "tape_r s = 0" "tp_reserve_size s < 2 ^ 31"
    using assms tape_new_inv(1) [OF assms(1,2)]
    by (auto simp: tape_new_def select_size_def bind_r_def tape_w_def tape_r_def split: if_splits)
qed

lemma link_create_empty:
  assumes "link_create page_size r_base s_base cap = Inr l" "0 < page_size" "cap + page_size \<le> 2 ^ 31"
  shows "tape_inv (dl_recv l)" "tape_w (dl_recv l) = 0" "tape_r (dl_recv l) = 0" "tp_reserve_size (dl_recv l) < 2 ^ 31"
    "tape_inv (dl_send l)" "tape_w (dl_send l) = 0" "tape_r (dl_send l) = 0" "tp_reserve_size (dl_send l) < 2 ^ 31"
proof -
  have "tape_new page_size r_base cap = Inr (dl_recv l)" "tape_new page_size s_base cap = Inr (dl_send l)"
    using assms(1) by (auto simp: link_create_def bind_r_Inr_iff)
  then show "tape_inv (dl_recv l)" "tape_w (dl_recv l) = 0" "tape_r (dl_recv l) = 0" "tp_reserve_size (dl_recv l) < 2 ^ 31"
    "tape_inv (dl_send l)" "tape_w (dl_send l) = 0" "tape_r (dl_send l) = 0" "tp_reserve_size (dl_send l) < 2 ^ 31"
    using tape_new_empty [OF _ assms(2,3)] by blast+
qed

lemma connect_one:
  assumes "connect_partition page_size bases cap p S = Some (Inr S')"
  obtains l where "p < length (xl_partitions S)" "link_create page_size (fst (bases p)) (snd (bases p)) cap = Inr l"
    "S' = set_partition p ((part S p)\<lparr>pn_link := Some l\<rparr>) S"
  using assms by (auto simp: connect_partition_def bind_ro_def split: if_splits option.splits sum.splits)

lemma connect_each:
  assumes "each_pix (connect_partition page_size bases cap) ps S = Some (Inr S')"
  shows "S' = S\<lparr>xl_partitions := xl_partitions S'\<rparr> \<and> length (xl_partitions S') = length (xl_partitions S) \<and>
    (\<forall>q. if q \<in> set ps then q < length (xl_partitions S) \<and>
        (\<exists>l. link_create page_size (fst (bases q)) (snd (bases q)) cap = Inr l \<and> part S' q = (part S q)\<lparr>pn_link := Some l\<rparr>)
      else part S' q = part S q)"
  using assms
proof (induction ps arbitrary: S)
  case (Cons p ps)
  obtain l where l: "p < length (xl_partitions S)" "link_create page_size (fst (bases p)) (snd (bases p)) cap = Inr l"
    "each_pix (connect_partition page_size bases cap) ps (set_partition p ((part S p)\<lparr>pn_link := Some l\<rparr>) S) = Some (Inr S')"
  proof -
    from Cons.prems obtain S1 where "connect_partition page_size bases cap p S = Some (Inr S1)"
      "each_pix (connect_partition page_size bases cap) ps S1 = Some (Inr S')"
      by (auto simp: bind_ro_def split: option.splits sum.splits)
    then show ?thesis using that by (auto elim: connect_one)
  qed
  let ?S = "set_partition p ((part S p)\<lparr>pn_link := Some l\<rparr>) S"
  have pq: "part ?S q = (if q = p then (part S p)\<lparr>pn_link := Some l\<rparr> else part S q)" for q
    using l(1) by (simp add: set_partition_def nth_list_update)
  note h = Cons.IH [OF l(3)]
  have "if q \<in> set (p # ps) then q < length (xl_partitions S) \<and>
        (\<exists>l. link_create page_size (fst (bases q)) (snd (bases q)) cap = Inr l \<and> part S' q = (part S q)\<lparr>pn_link := Some l\<rparr>)
      else part S' q = part S q" for q
  proof -
    have hq: "if q \<in> set ps then q < length (xl_partitions ?S) \<and>
        (\<exists>l. link_create page_size (fst (bases q)) (snd (bases q)) cap = Inr l \<and> part S' q = (part ?S q)\<lparr>pn_link := Some l\<rparr>)
      else part S' q = part ?S q" using h by blast
    have "length (xl_partitions ?S) = length (xl_partitions S)" by (simp add: set_partition_def)
    with hq l(1,2) show ?thesis by (cases "q = p"; cases "q \<in> set ps") (auto simp: pq)
  qed
  moreover have "S' = S\<lparr>xl_partitions := xl_partitions S'\<rparr>" using h by (cases S; cases S') (simp add: set_partition_def)
  moreover have "length (xl_partitions S') = length (xl_partitions S)" using h by (simp add: set_partition_def)
  ultimately show ?case by blast
qed simp

section \<open>The started link\<close>

definition started :: "execution_link \<Rightarrow> bool" where
  "started S \<longleftrightarrow> (\<forall>c \<in> set (xl_agents S). \<forall>k. bit (snd c) k \<longrightarrow> active S k)"

lemma link_start_shape:
  assumes new: "link_new Q T p = Some (Inr S0)" and start: "link_start cfg ff page_size bases S0 = Some (Inr S)"
  obtains U where "rcu_initialize part_count Q p = Some (Inr U)" "xl_pub S = U" "xl_connect_count S = 0" "xl_login_count S = 0" "started S"
    "initialize_msg_templates ff (lc_account cfg) = Inr (xl_templates S)" "xl_credentials S = Some (lc_credentials cfg)"
    "length (xl_partitions S) = part_count"
    "\<And>pix. active S pix \<Longrightarrow> pix < part_count \<and>
      (\<exists>l. link_create page_size (fst (bases pix)) (snd (bases pix)) (lc_capacity cfg) = Inr l \<and> part S pix = idle_partition\<lparr>pn_link := Some l\<rparr>)"
proof -
  obtain U where U: "rcu_initialize part_count Q p = Some (Inr U)"
    and S0: "S0 = \<lparr>xl_partitions = replicate part_count idle_partition, xl_active = 0, xl_liid_map = [], xl_templates = T,
         xl_credentials = None, xl_seqnums = [1, 1, 1, 1], xl_agents = [], xl_queues = [], xl_connect_count = 0,
         xl_login_count = 0, xl_pub = U\<rparr>"
    using new by (auto simp: link_new_def bind_ro_def split: option.splits sum.splits)
  from start obtain lm ctx mk T' where m: "map_agents cfg (lc_agents cfg) (replicate (lc_liid_limit cfg) (0, 0), [], 0) = Some (Inr (lm, ctx, mk))"
    and T': "initialize_msg_templates ff (lc_account cfg) = Inr T'"
    and c: "each_pix (connect_partition page_size bases (lc_capacity cfg)) (mask_pixes mk)
             (S0\<lparr>xl_liid_map := lm, xl_agents := ctx, xl_queues := replicate (length ctx) [],
               xl_active := mk, xl_credentials := Some (lc_credentials cfg), xl_templates := T'\<rparr>) = Some (Inr S)"
    by (auto simp: link_start_def bind_ro_def split: option.splits sum.splits if_splits)
  note h = connect_each [OF c, unfolded S0, simplified]
  have S: "xl_active S = mk" "xl_agents S = ctx" "xl_pub S = U" "xl_connect_count S = 0" "xl_login_count S = 0" "xl_templates S = T'"
    "xl_credentials S = Some (lc_credentials cfg)"
    using h by (metis execution_link.select_convs)+
  have "started S" using map_agents_masks [OF m] by (simp add: started_def S active_def)
  moreover have "length (xl_partitions S) = part_count" using h by simp
  moreover have "pix < part_count \<and> (\<exists>l. link_create page_size (fst (bases pix)) (snd (bases pix)) (lc_capacity cfg) = Inr l \<and>
      part S pix = idle_partition\<lparr>pn_link := Some l\<rparr>)" if "active S pix" for pix
    using h that by (auto simp: active_def S mask_pixes_set split: if_splits)
  ultimately show ?thesis using U T' S by (intro that) simp_all
qed

lemma link_start_spec:
  assumes new: "link_new (le_pool E) T p = Some (Inr S0)" "pool_inv (le_pool E) p"
    and start: "link_start cfg ff page_size bases S0 = Some (Inr S)"
    and size: "0 < page_size" "lc_capacity cfg + page_size \<le> 2 ^ 31" and fs: "\<And>pix. soup_recv.good (FS pix)"
  shows "link_inv E FS [] S \<and> settled E S \<and> started S"
proof -
  obtain U where U: "rcu_initialize part_count (le_pool E) p = Some (Inr U)" and S: "xl_pub S = U" and st: "started S"
    and len: "length (xl_partitions S) = part_count"
    and p: "\<And>pix. active S pix \<Longrightarrow> pix < part_count \<and>
      (\<exists>l. link_create page_size (fst (bases pix)) (snd (bases pix)) (lc_capacity cfg) = Inr l \<and> part S pix = idle_partition\<lparr>pn_link := Some l\<rparr>)"
    by (rule link_start_shape [OF new(1) start]) blast
  note u = rcu_initialize_inv [OF new(2) U]
  have d: "rcu_data (le_pool E) U r ! pix = \<lparr>rp_pos = 0, rp_end = 0, rp_ts = 0\<rparr>" if "pix < part_count" "r \<in> set (rcu_live U [])" for r pix
    using that u by (auto simp: rcu_live_def clear_data_def)
  have "link_inv E FS [] S" unfolding link_inv_def S
  proof (intro conjI allI impI ballI)
    fix pix assume "active S pix"
    then obtain l where l: "pix < part_count" "link_create page_size (fst (bases pix)) (snd (bases pix)) (lc_capacity cfg) = Inr l"
      "part S pix = idle_partition\<lparr>pn_link := Some l\<rparr>" using p by blast
    note e = link_create_empty [OF l(2) size]
    have t: "recv_tape (part S pix) = dl_recv l" "send_tape (part S pix) = dl_send l" by (simp_all add: l(3) recv_tape_def send_tape_def)
    have a: "arrived (part S pix) = 0" by (simp add: arrived_def t e)
    show "pix < part_count" by (rule l(1))
    show "part_ok (FS pix) (part S pix)"
      using e tape_posD(6) [OF e(1)] tape_posD(6) [OF e(5)] fs
      by (simp add: part_ok_def send_ok_def recv_ok_def t a tape_all_def) (simp add: l(3) idle_partition_def)
    show "pos_ok (FS pix) (part S pix) (rcu_data (le_pool E) U r ! pix)" if "r \<in> set (rcu_live U [])" for r
      using d [OF l(1) that] by (simp add: pos_ok_def a)
    show "rp_pos (rcu_data (le_pool E) U (ru_current U) ! pix) = int (whole_size (FS pix) (arrived (part S pix)))"
      using d [OF l(1), of "ru_current U"] by (simp add: a rcu_live_def)
  qed (use len u(1) in simp_all)
  moreover have "settled E S" using d p by (simp add: settled_def S rcu_live_def)
  ultimately show ?thesis using st by simp
qed

end
