(* ===== verification/Link_Agents.thy ===== *)
theory Link_Agents
  imports Link_Start
begin

text \<open>
  The readers of the execution link: \<open>update\<close> of \<^verbatim>\<open>rt/agents/asx/execution_manager.h\<close>, which
  visits the packets between the position an agent has reached and the published one, in place,
  and the system of link, kernel, callback thread and agents.
\<close>

section \<open>Reading what was published\<close>

text \<open>The loop over the packets; unlike the link's own it starts with a packet.\<close>

partial_function (option) update_loop ::
  "(byte list \<Rightarrow> int \<Rightarrow> (int \<times> soup_visit option) option) \<Rightarrow> byte list \<Rightarrow> int \<Rightarrow> int \<Rightarrow> soup_visit list \<Rightarrow>
    (int \<times> int \<times> soup_visit list) option" where
  "update_loop consume data available consumed visits =
     (case consume (drop (nat consumed) data) available of
        None \<Rightarrow> None
      | Some (rrc, v) \<Rightarrow>
          if rrc < 0 then Some (available, consumed, visits @ (case v of None \<Rightarrow> [] | Some w \<Rightarrow> [w]))
          else
            let available = available - rrc; consumed = consumed + rrc; visits = visits @ (case v of None \<Rightarrow> [] | Some w \<Rightarrow> [w]) in
            if available \<ge> hdr_len then update_loop consume data available consumed visits
            else Some (available, consumed, visits))"

text \<open>One partition: \<open>pd\<close> is the descriptor, \<open>ctxs\<close> the positions reached, and a visit is recorded with its context.\<close>

type_synonym agent_visit = "nat \<times> int \<times> soup_visit"

definition update_partition ::
  "link_env \<Rightarrow> execution_link \<Rightarrow> recv_position list \<Rightarrow> nat \<Rightarrow> int list \<times> agent_visit list \<Rightarrow> (int list \<times> agent_visit list) result option" where
  "update_partition E S pd pix s =
     (case s of (ctxs, seen) \<Rightarrow>
        if pix < length pd \<and> pix < length ctxs then
          let rcvd = pd ! pix; p_pos = ctxs ! pix; available = narrow 32 (rp_pos rcvd - p_pos) in
          if available > 0 then
            let data = rp_end rcvd - available in
            with_link pix (\<lambda>P l.
              bind_ro (lift_o (b_read (tape_ops (le_check E)) data (nat available) (dl_recv l))) (\<lambda>bytes.
              bind_ro (lift_o (update_loop consume_recv bytes available 0 [])) (\<lambda>(available, consumed, visits).
                Some (Inr (ctxs[pix := p_pos + consumed], seen @ map (\<lambda>v. (pix, rp_ts rcvd, v)) visits))))) S
          else Some (Inr (ctxs, seen))
        else None)"

definition agent_update ::
  "link_env \<Rightarrow> execution_link \<Rightarrow> recv_position list \<Rightarrow> 32 word \<Rightarrow> int list \<times> agent_visit list \<Rightarrow> (int list \<times> agent_visit list) result option" where
  "agent_update E S pd partition_mask s = each_pix (update_partition E S pd) (mask_pixes partition_mask) s"

section \<open>One update\<close>

lemma update_loop_consume:
  assumes "hdr_len \<le> available" "consume_loop consume data available consumed visits = Some y"
  shows "update_loop consume data available consumed visits = Some y"
proof -
  have "if hdr_len \<le> available then update_loop consume data available consumed visits = Some y else y = (available, consumed, visits)"
    using assms(2)
  proof (rule consume_loop.raw_induct [rotated])
    fix loop :: "(byte list \<Rightarrow> int \<Rightarrow> (int \<times> soup_visit option) option) \<Rightarrow> byte list \<Rightarrow> int \<Rightarrow> int \<Rightarrow> soup_visit list \<Rightarrow>
      (int \<times> int \<times> soup_visit list) option" and consume data available parsed visits y
    assume IH: "\<And>consume data available parsed visits y. loop consume data available parsed visits = Some y \<Longrightarrow>
        if hdr_len \<le> available then update_loop consume data available parsed visits = Some y else y = (available, parsed, visits)"
      and eq: "(if available \<ge> hdr_len then
        (case consume (drop (nat parsed) data) available of
           None \<Rightarrow> None
         | Some (rrc, v) \<Rightarrow>
             if rrc < 0 then Some (available, parsed, visits @ (case v of None \<Rightarrow> [] | Some w \<Rightarrow> [w]))
             else loop consume data (available - rrc) (parsed + rrc) (visits @ (case v of None \<Rightarrow> [] | Some w \<Rightarrow> [w])))
        else Some (available, parsed, visits)) = Some y"
    show "if hdr_len \<le> available then update_loop consume data available parsed visits = Some y else y = (available, parsed, visits)"
    proof (cases "hdr_len \<le> available")
      case True
      then obtain rrc v where c: "consume (drop (nat parsed) data) available = Some (rrc, v)"
        using eq by (auto split: option.splits)
      let ?vs = "visits @ (case v of None \<Rightarrow> [] | Some w \<Rightarrow> [w])"
      have "update_loop consume data available parsed visits = Some y"
      proof (cases "rrc < 0")
        case r: True
        then show ?thesis using eq True c by (subst update_loop.simps) simp
      next
        case False
        have "loop consume data (available - rrc) (parsed + rrc) ?vs = Some y" using eq True c False by simp
        from IH [OF this] False c show ?thesis
          by (subst update_loop.simps) (cases "hdr_len \<le> available - rrc"; simp add: Let_def)
      qed
      then show ?thesis using True by simp
    qed (use eq in simp)
  qed
  with assms(1) show ?thesis by simp
qed

text \<open>The position an agent has reached, and what it has seen until there.\<close>

definition seen_of :: "nat \<Rightarrow> agent_visit list \<Rightarrow> soup_visit list" where
  "seen_of pix seen = map (snd \<circ> snd) (filter (\<lambda>v. fst v = pix) seen)"

definition reached :: "packet list \<Rightarrow> partition \<Rightarrow> int \<Rightarrow> soup_visit list \<Rightarrow> bool" where
  "reached fs P pos vs \<longleftrightarrow> (\<exists>n \<le> arrived P. pos = int (whole_size fs n) \<and> vs = soup_recv.visits (whole fs n))"

lemma seen_of_simps [simp]: "seen_of pix [] = []" "seen_of pix (a @ b) = seen_of pix a @ seen_of pix b"
  "seen_of pix (map (\<lambda>v. (q, ts, v)) vs) = (if q = pix then vs else [])"
  by (simp_all add: seen_of_def filter_map comp_def)

lemma whole_idem: "whole fs (whole_size fs n) = whole fs n"
  by (induction fs n rule: whole.induct) (simp_all add: whole_size_def)

lemma whole_size_idem: "whole_size fs (whole_size fs n) = whole_size fs n"
  by (simp add: whole_size_def [of fs "whole_size fs n"] whole_idem) (simp add: whole_size_def)

lemma whole_size_step: "whole_size fs n < whole_size fs m \<Longrightarrow> whole_size fs n + 3 \<le> whole_size fs m"
proof -
  assume lt: "whole_size fs n < whole_size fs m"
  then have "n \<le> m" using whole_size_mono [of m n fs] by (metis nat_le_linear not_less)
  note w = whole_mono [OF this, of fs]
  obtain ty body gs where "whole (drop (length (whole fs n)) fs) (m - whole_size fs n) = (ty, body) # gs"
    using lt w by (cases "whole (drop (length (whole fs n)) fs) (m - whole_size fs n)") (auto simp: whole_size_def)
  then show ?thesis using w by (simp add: whole_size_def)
qed

lemma update_partition_spec:
  assumes inv: "link_inv E FS stack S" and act: "active S pix" and len: "pix < length pd" "pix < length ctxs"
    and pd: "pos_ok (FS pix) (part S pix) (pd ! pix)" and at: "reached (FS pix) (part S pix) (ctxs ! pix) (seen_of pix seen)"
  obtains seen' where "update_partition E S pd pix (ctxs, seen) = Some (Inr (ctxs[pix := max (ctxs ! pix) (rp_pos (pd ! pix))], seen'))"
    "reached (FS pix) (part S pix) (max (ctxs ! pix) (rp_pos (pd ! pix))) (seen_of pix seen')"
    "\<forall>q. q \<noteq> pix \<longrightarrow> seen_of q seen' = seen_of q seen"
proof -
  let ?P = "part S pix" and ?fs = "FS pix" and ?rp = "pd ! pix"
  have pix: "pix < length (xl_partitions S)" by (rule link_invD(4) [OF inv act])
  have po: "part_ok ?fs ?P" by (rule link_invD(5) [OF inv act])
  then obtain l where l: "pn_link ?P = Some l" by (auto simp: part_ok_def)
  have t: "recv_tape ?P = dl_recv l" by (simp add: recv_tape_def l)
  have "recv_ok ?fs ?P" using po by (simp add: part_ok_def)
  note r = recv_okD [OF this, unfolded t]
  obtain n m where n: "n \<le> arrived ?P" "ctxs ! pix = int (whole_size ?fs n)" "seen_of pix seen = soup_recv.visits (whole ?fs n)"
    and m: "m \<le> arrived ?P" "rp_pos ?rp = int (whole_size ?fs m)" using at pd by (auto simp: reached_def pos_ok_def)
  let ?n = "whole_size ?fs n" and ?m = "whole_size ?fs m"
  have w: "arrived ?P = tape_w (dl_recv l)" by (simp add: arrived_def t)
  have small: "int (arrived ?P) < 2 ^ 31" using w tape_posD(4,7) [OF r(1)] r(2) by linarith
  have le: "?n \<le> arrived ?P" "?m \<le> arrived ?P" using n(1) m(1) whole_size_le order_trans by blast+
  have nar: "narrow 32 (rp_pos ?rp - ctxs ! pix) = int ?m - int ?n"
    unfolding n(2) m(2) by (rule narrow_id) (use le small in simp_all)
  show ?thesis
  proof (cases "?n < ?m")
    case False
    have "update_partition E S pd pix (ctxs, seen) = Some (Inr (ctxs, seen))"
      using False nar len by (simp add: update_partition_def Let_def)
    moreover have "max (ctxs ! pix) (rp_pos ?rp) = ctxs ! pix" using False by (simp add: n(2) m(2))
    ultimately show ?thesis using at by (intro that [of seen]) simp_all
  next
    case True
    have d: "rp_end ?rp - (int ?m - int ?n) = tp_base (dl_recv l) + int ?n"
      using pd True m(2) by (simp add: pos_ok_def t)
    have "?n + (?m - ?n) \<le> tape_w (dl_recv l)" using True le(2) w by simp
    note rd0 = tape_read_all [OF r(1) this]
    have rd: "tape_read (tp_base (dl_recv l) + int ?n) (?m - ?n) (dl_recv l) = Some (drop ?n (take ?m (wire ?fs)))"
    proof -
      have "take (?m - ?n) (drop ?n (take (arrived ?P) (wire ?fs))) = drop ?n (take ?m (wire ?fs))"
        using le(2) by (simp add: drop_take take_take min.absorb1 diff_le_mono)
      with rd0 show ?thesis by (simp add: r(7))
    qed
    have "?m \<le> length (wire ?fs)" using le(2) r(8) by linarith
    from frame_new_bytes [OF less_imp_le [OF True] this r(9)]
    have "consume_loop consume_recv (drop ?n (take ?m (wire ?fs))) (int (?m - ?n)) 0 [] =
        Some (0, int (?m - ?n), soup_recv.visits (drop (length (whole ?fs n)) (whole ?fs m)))"
      by (simp add: whole_size_idem whole_idem)
    moreover have "hdr_len \<le> int (?m - ?n)" using whole_size_step [OF True] by simp
    ultimately have u: "update_loop consume_recv (drop ?n (take ?m (wire ?fs))) (int (?m - ?n)) 0 [] =
        Some (0, int (?m - ?n), soup_recv.visits (drop (length (whole ?fs n)) (whole ?fs m)))"
      by (rule update_loop_consume [rotated])
    let ?vs = "soup_recv.visits (drop (length (whole ?fs n)) (whole ?fs m))"
    have mx: "max (ctxs ! pix) (rp_pos ?rp) = ctxs ! pix + int (?m - ?n)" using True by (simp add: n(2) m(2) of_nat_diff)
    have "n \<le> m" using True whole_size_mono [of m n ?fs] by (metis nat_le_linear not_less)
    then have "whole ?fs m = whole ?fs n @ drop (length (whole ?fs n)) (whole ?fs m)" using whole_mono [of n m ?fs] by simp
    from arg_cong [OF this, of soup_recv.visits] have "soup_recv.visits (whole ?fs m) = soup_recv.visits (whole ?fs n) @ ?vs"
      by (simp only: soup_recv.visits_def map_append)
    then have "reached ?fs ?P (max (ctxs ! pix) (rp_pos ?rp)) (seen_of pix (seen @ map (\<lambda>v. (pix, rp_ts ?rp, v)) ?vs))"
      unfolding reached_def using m True n(2,3) by (intro exI [of _ m]) simp
    moreover have "update_partition E S pd pix (ctxs, seen) =
        Some (Inr (ctxs[pix := max (ctxs ! pix) (rp_pos ?rp)], seen @ map (\<lambda>v. (pix, rp_ts ?rp, v)) ?vs))"
    proof -
      have nar': "narrow 32 (rp_pos ?rp - ctxs ! pix) = int (?m - ?n)" using True nar by (simp add: of_nat_diff)
      have d': "rp_end ?rp - int (?m - ?n) = tp_base (dl_recv l) + int ?n" using True d by (simp add: of_nat_diff)
      show ?thesis
        using True len rd u pix unfolding update_partition_def mx by (simp add: Let_def nar' d' tape_ops_def with_link_def l del: of_nat_diff)
    qed
    ultimately show ?thesis by (intro that [of "seen @ map (\<lambda>v. (pix, rp_ts ?rp, v)) ?vs"]) simp_all
  qed
qed

lemma update_each_spec:
  assumes inv: "link_inv E FS stack S" and pd: "\<forall>pix. active S pix \<longrightarrow> pos_ok (FS pix) (part S pix) (pd ! pix)"
    and len: "length pd = part_count" "length ctxs = part_count"
    and ps: "distinct ps" "\<forall>pix \<in> set ps. active S pix" and at: "\<forall>pix \<in> set ps. reached (FS pix) (part S pix) (ctxs ! pix) (seen_of pix seen)"
  shows "\<exists>ctxs' seen'. each_pix (update_partition E S pd) ps (ctxs, seen) = Some (Inr (ctxs', seen')) \<and> length ctxs' = part_count \<and>
    (\<forall>pix. if pix \<in> set ps then ctxs' ! pix = max (ctxs ! pix) (rp_pos (pd ! pix)) \<and> reached (FS pix) (part S pix) (ctxs' ! pix) (seen_of pix seen')
      else ctxs' ! pix = ctxs ! pix \<and> seen_of pix seen' = seen_of pix seen)"
  using len(2) ps at
proof (induction ps arbitrary: ctxs seen)
  case (Cons p ps)
  have a: "active S p" using Cons.prems(3) by simp
  then have lt: "p < part_count" by (rule link_invD(3) [OF inv])
  let ?c = "ctxs[p := max (ctxs ! p) (rp_pos (pd ! p))]"
  obtain seen1 where u: "update_partition E S pd p (ctxs, seen) = Some (Inr (?c, seen1))"
    "reached (FS p) (part S p) (max (ctxs ! p) (rp_pos (pd ! p))) (seen_of p seen1)" "\<forall>q. q \<noteq> p \<longrightarrow> seen_of q seen1 = seen_of q seen"
    using update_partition_spec [OF inv a, of pd ctxs seen] lt len(1) Cons.prems(1,4) pd a by auto
  have c: "?c ! q = (if q = p then max (ctxs ! p) (rp_pos (pd ! p)) else ctxs ! q)" for q
    using lt Cons.prems(1) by (simp add: nth_list_update)
  have "\<forall>pix \<in> set ps. reached (FS pix) (part S pix) (?c ! pix) (seen_of pix seen1)"
    using Cons.prems(2,4) u(3) unfolding c by auto
  with Cons.IH [of ?c seen1] Cons.prems obtain ctxs' seen' where h: "each_pix (update_partition E S pd) ps (?c, seen1) = Some (Inr (ctxs', seen'))"
    "length ctxs' = part_count"
    "\<forall>pix. if pix \<in> set ps then ctxs' ! pix = max (?c ! pix) (rp_pos (pd ! pix)) \<and> reached (FS pix) (part S pix) (ctxs' ! pix) (seen_of pix seen')
      else ctxs' ! pix = ?c ! pix \<and> seen_of pix seen' = seen_of pix seen1" by auto
  have "if pix \<in> set (p # ps) then ctxs' ! pix = max (ctxs ! pix) (rp_pos (pd ! pix)) \<and> reached (FS pix) (part S pix) (ctxs' ! pix) (seen_of pix seen')
      else ctxs' ! pix = ctxs ! pix \<and> seen_of pix seen' = seen_of pix seen" for pix
    using h(3) [rule_format, of pix] u(2,3) Cons.prems(2) unfolding c by (cases "pix = p"; cases "pix \<in> set ps") auto
  moreover have "each_pix (update_partition E S pd) (p # ps) (ctxs, seen) = Some (Inr (ctxs', seen'))" using u(1) h(1) by simp
  ultimately show ?case using h(2) by blast
qed simp

lemma agent_update_spec:
  assumes "link_inv E FS stack S" "\<forall>pix. active S pix \<longrightarrow> pos_ok (FS pix) (part S pix) (pd ! pix)"
    "length pd = part_count" "length ctxs = part_count" "\<forall>pix. bit m pix \<longrightarrow> active S pix"
    "\<forall>pix. bit m pix \<longrightarrow> reached (FS pix) (part S pix) (ctxs ! pix) (seen_of pix seen)"
  obtains ctxs' seen' where "agent_update E S pd m (ctxs, seen) = Some (Inr (ctxs', seen'))" "length ctxs' = part_count"
    "\<forall>pix. bit m pix \<longrightarrow> ctxs' ! pix = max (ctxs ! pix) (rp_pos (pd ! pix)) \<and> reached (FS pix) (part S pix) (ctxs' ! pix) (seen_of pix seen')"
proof -
  have "\<forall>pix \<in> set (mask_pixes m). active S pix" "\<forall>pix \<in> set (mask_pixes m). reached (FS pix) (part S pix) (ctxs ! pix) (seen_of pix seen)"
    using assms(5,6) by (simp_all add: mask_pixes_set)
  from update_each_spec [OF assms(1-4) mask_pixes_distinct this] show ?thesis
    using that unfolding agent_update_def mask_pixes_set by (metis (no_types, lifting))
qed

end
