(* ===== verification/Link_System.thy ===== *)
theory Link_System
  imports Link_Agents
begin

text \<open>
  The execution link with what runs around it: the kernel that delivers bytes and takes them, the
  callback thread of the RCU library, and agents that connect, send requests and update. Each
  event is atomic; the read section of an agent may span any number of other events.
\<close>

section \<open>Events\<close>

record agent_reader =
  ar_mask :: "32 word"
  ar_pos :: "int list"
  ar_seen :: "agent_visit list"

record link_system =
  sy_link :: execution_link
  sy_agents :: "nat \<rightharpoonup> agent_reader"

datatype sys_event =
    Sys_net "nat \<Rightarrow> tcp_socket"
  | Sys_connect nat string
  | Sys_enqueue nat xl_request
  | Sys_step "nat \<Rightarrow> int" "nat \<Rightarrow> int" int
  | Sys_callback nat
  | Sys_lock nat
  | Sys_update nat
  | Sys_unlock nat

text \<open>The kernel decides anew what each socket delivers and accepts.\<close>

definition deliver :: "(nat \<Rightarrow> tcp_socket) \<Rightarrow> execution_link \<Rightarrow> execution_link" where
  "deliver f S = S\<lparr>xl_partitions :=
     map (\<lambda>pix. (part S pix)\<lparr>pn_sock := (f pix)\<lparr>so_out := so_out (pn_sock (part S pix))\<rparr>\<rparr>) [0..<length (xl_partitions S)]\<rparr>"

definition set_pub :: "rcu_pub \<Rightarrow> link_system \<Rightarrow> link_system" where
  "set_pub U X = X\<lparr>sy_link := (sy_link X)\<lparr>xl_pub := U\<rparr>\<rparr>"

text \<open>An agent in its read section follows the pointer it loaded.\<close>

definition sys_update :: "link_env \<Rightarrow> nat \<Rightarrow> link_system \<Rightarrow> link_system result option" where
  "sys_update E rd X =
     (case (ru_readers (xl_pub (sy_link X)) rd, sy_agents X rd) of
        (Some (r, ghost), Some a) \<Rightarrow>
          bind_ro (pool_get (le_pool E) False r (ru_pool (xl_pub (sy_link X)))) (\<lambda>pd.
          bind_ro (agent_update E (sy_link X) (pd_data pd) (ar_mask a) (ar_pos a, ar_seen a)) (\<lambda>(pos, seen).
            Some (Inr (X\<lparr>sy_agents := (sy_agents X)(rd \<mapsto> a\<lparr>ar_pos := pos, ar_seen := seen\<rparr>)\<rparr>))))
      | _ \<Rightarrow> None)"

definition new_agent :: "32 word \<Rightarrow> agent_reader" where
  "new_agent m = \<lparr>ar_mask = m, ar_pos = replicate part_count 0, ar_seen = []\<rparr>"

primrec sys_do :: "link_env \<Rightarrow> sys_event \<Rightarrow> link_system \<Rightarrow> link_system result option" where
  "sys_do E (Sys_net f) X = Some (Inr (X\<lparr>sy_link := deliver f (sy_link X)\<rparr>))"
| "sys_do E (Sys_connect rd aid) X =
     (case link_connect aid (sy_link X) of
        (Inl e, S) \<Rightarrow> Some (Inl e)
      | (Inr (m, prefix, ifc_index), S) \<Rightarrow> Some (Inr (X\<lparr>sy_link := S, sy_agents := (sy_agents X)(rd \<mapsto> new_agent m)\<rparr>)))"
| "sys_do E (Sys_enqueue i req) X =
     bind_ro (lift_o (link_enqueue i req (sy_link X))) (\<lambda>S. Some (Inr (X\<lparr>sy_link := S\<rparr>)))"
| "sys_do E (Sys_step rn sn utc) X =
     bind_ro (link_step (E\<lparr>le_recv_now := rn, le_send_now := sn, le_utc := utc\<rparr>) (sy_link X)) (\<lambda>S. Some (Inr (X\<lparr>sy_link := S\<rparr>)))"
| "sys_do E (Sys_callback i) X =
     bind_ro (rcu_callback (le_pool E) i (xl_pub (sy_link X))) (\<lambda>U. Some (Inr (set_pub U X)))"
| "sys_do E (Sys_lock rd) X = bind_ro (rcu_lock (le_pool E) rd (xl_pub (sy_link X))) (\<lambda>U. Some (Inr (set_pub U X)))"
| "sys_do E (Sys_update rd) X = sys_update E rd X"
| "sys_do E (Sys_unlock rd) X = Some (Inr (set_pub (rcu_unlock rd (xl_pub (sy_link X))) X))"

text \<open>
  When an event may happen. A step needs room in its buffers, sockets that do not fail, bytes
  that continue the packets of the exchange, and requests it can serve (\<open>step_ready\<close>).
\<close>

primrec sys_enabled :: "link_env \<Rightarrow> (nat \<Rightarrow> packet list) \<Rightarrow> sys_event \<Rightarrow> link_system \<Rightarrow> bool" where
  "sys_enabled E FS (Sys_net f) X \<longleftrightarrow> True"
| "sys_enabled E FS (Sys_connect rd aid) X \<longleftrightarrow> sy_agents X rd = None"
| "sys_enabled E FS (Sys_enqueue i req) X \<longleftrightarrow> i < length (xl_queues (sy_link X))"
| "sys_enabled E FS (Sys_step rn sn utc) X \<longleftrightarrow> step_ready (E\<lparr>le_recv_now := rn, le_send_now := sn, le_utc := utc\<rparr>) FS (sy_link X)"
| "sys_enabled E FS (Sys_callback i) X \<longleftrightarrow> rcu_enabled part_count (Callback i) (xl_pub (sy_link X))"
| "sys_enabled E FS (Sys_lock rd) X \<longleftrightarrow> rcu_enabled part_count (Lock rd) (xl_pub (sy_link X))"
| "sys_enabled E FS (Sys_update rd) X \<longleftrightarrow> ru_readers (xl_pub (sy_link X)) rd \<noteq> None \<and> sy_agents X rd \<noteq> None"
| "sys_enabled E FS (Sys_unlock rd) X \<longleftrightarrow> rcu_enabled part_count (Unlock rd) (xl_pub (sy_link X))"

inductive sys_reach :: "link_env \<Rightarrow> (nat \<Rightarrow> packet list) \<Rightarrow> link_system \<Rightarrow> link_system \<Rightarrow> bool"
  for E :: link_env and FS :: "nat \<Rightarrow> packet list" and X0 :: link_system where
  sys_start: "sys_reach E FS X0 X0"
| sys_event: "sys_reach E FS X0 X \<Longrightarrow> sys_enabled E FS ev X \<Longrightarrow> sys_do E ev X = Some (Inr X') \<Longrightarrow> sys_reach E FS X0 X'"

section \<open>Invariant\<close>

definition agent_ok :: "(nat \<Rightarrow> packet list) \<Rightarrow> execution_link \<Rightarrow> agent_reader \<Rightarrow> bool" where
  "agent_ok FS S a \<longleftrightarrow> length (ar_pos a) = part_count \<and>
     (\<forall>pix. bit (ar_mask a) pix \<longrightarrow> active S pix \<and> reached (FS pix) (part S pix) (ar_pos a ! pix) (seen_of pix (ar_seen a)))"

definition sys_inv :: "link_env \<Rightarrow> (nat \<Rightarrow> packet list) \<Rightarrow> link_system \<Rightarrow> bool" where
  "sys_inv E FS X \<longleftrightarrow> (\<exists>stack. link_inv E FS stack (sy_link X)) \<and> settled E (sy_link X) \<and> started (sy_link X) \<and>
     (\<forall>rd a. sy_agents X rd = Some a \<longrightarrow> agent_ok FS (sy_link X) a)"

lemma reached_later: "reached fs P pos vs \<Longrightarrow> arrived P \<le> arrived P' \<Longrightarrow> reached fs P' pos vs"
  unfolding reached_def using order_trans by blast

lemma agent_ok_later:
  "agent_ok FS S a \<Longrightarrow> (\<And>pix. active S pix \<Longrightarrow> active S' pix \<and> arrived (part S pix) \<le> arrived (part S' pix)) \<Longrightarrow> agent_ok FS S' a"
  unfolding agent_ok_def using reached_later by blast

text \<open>The invariant needs the pool's options only, not the clocks.\<close>

lemma link_inv_env: "le_pool E' = le_pool E \<Longrightarrow> link_inv E' FS stack S = link_inv E FS stack S"
  by (simp add: link_inv_def)

lemma settled_env: "le_pool E' = le_pool E \<Longrightarrow> settled E' S = settled E S"
  by (simp add: settled_def)

lemma started_cong: "started S \<Longrightarrow> xl_agents S' = xl_agents S \<Longrightarrow> xl_active S' = xl_active S \<Longrightarrow> started S'"
  by (simp add: started_def active_def)

lemma sys_inv_move:
  assumes inv: "sys_inv E FS X" and S': "link_inv E FS stack S'" "settled E S'" "xl_agents S' = xl_agents (sy_link X)" "xl_active S' = xl_active (sy_link X)"
    and arr: "\<And>pix. active (sy_link X) pix \<Longrightarrow> arrived (part (sy_link X) pix) \<le> arrived (part S' pix)"
  shows "sys_inv E FS (X\<lparr>sy_link := S'\<rparr>)"
proof -
  have "agent_ok FS S' a" if "sy_agents X rd = Some a" for rd a
  proof (rule agent_ok_later)
    show "agent_ok FS (sy_link X) a" using inv that by (simp add: sys_inv_def)
    show "active S' pix \<and> arrived (part (sy_link X) pix) \<le> arrived (part S' pix)" if "active (sy_link X) pix" for pix
      using that arr S'(4) by (simp add: active_def)
  qed
  moreover have "started S'" using inv started_cong [OF _ S'(3,4)] by (simp add: sys_inv_def)
  ultimately show ?thesis using S'(1,2) by (auto simp: sys_inv_def)
qed

section \<open>Events keep the invariant\<close>

lemma part_sock [simp]:
  "arrived (P\<lparr>pn_sock := so\<rparr>) = arrived P" "part_ok fs (P\<lparr>pn_sock := so\<rparr>) = part_ok fs P" "pos_ok fs (P\<lparr>pn_sock := so\<rparr>) rp = pos_ok fs P rp"
  by (simp_all add: arrived_def part_ok_def pos_ok_def send_ok_def recv_ok_def send_tape_def recv_tape_def)

lemma deliver_inv:
  assumes "link_inv E FS stack S" "settled E S"
  shows "link_inv E FS stack (deliver f S)" "settled E (deliver f S)" "xl_agents (deliver f S) = xl_agents S" "xl_active (deliver f S) = xl_active S"
    "active S pix \<Longrightarrow> arrived (part (deliver f S) pix) = arrived (part S pix)"
proof -
  note i = link_invD [OF assms(1)]
  have a: "active (deliver f S) pix = active S pix" for pix by (simp add: active_def deliver_def)
  have u: "xl_pub (deliver f S) = xl_pub S" by (simp add: deliver_def)
  have p: "part (deliver f S) pix = (part S pix)\<lparr>pn_sock := (f pix)\<lparr>so_out := so_out (pn_sock (part S pix))\<rparr>\<rparr>" if "active S pix" for pix
    using i(4) [OF that] by (simp add: deliver_def)
  show "link_inv E FS stack (deliver f S)"
    unfolding link_inv_def a u
  proof (intro conjI allI impI ballI)
    show "length (xl_partitions (deliver f S)) = part_count" using i(1) by (simp add: deliver_def)
    show "rcu_inv part_count (le_pool E) (xl_pub S) stack" by (rule i(2))
  qed (use i in \<open>simp_all add: p\<close>)
  show "settled E (deliver f S)" using assms(2) by (simp add: settled_def a u)
  show "xl_agents (deliver f S) = xl_agents S" "xl_active (deliver f S) = xl_active S" by (simp_all add: deliver_def)
  show "arrived (part (deliver f S) pix) = arrived (part S pix)" if "active S pix" using p [OF that] by simp
qed

text \<open>An event of the publication that changes no descriptor's data.\<close>

lemma sys_pub_inv:
  assumes inv: "sys_inv E FS X" "link_inv E FS stack (sy_link X)" and U: "rcu_inv part_count (le_pool E) U' stack'"
    and data: "rcu_data (le_pool E) U' = rcu_data (le_pool E) (xl_pub (sy_link X))"
    and ptr: "ru_published U' = ru_published (xl_pub (sy_link X))" "ru_current U' = ru_current (xl_pub (sy_link X))"
    and live: "set (rcu_live U' stack') \<subseteq> set (rcu_live (xl_pub (sy_link X)) stack)"
  shows "sys_inv E FS (set_pub U' X)"
  unfolding set_pub_def
proof (rule sys_inv_move [OF inv(1)])
  show "link_inv E FS stack' ((sy_link X)\<lparr>xl_pub := U'\<rparr>)"
    by (rule link_inv_pub [OF inv(2) U]) (use data ptr live in auto)
  show "settled E ((sy_link X)\<lparr>xl_pub := U'\<rparr>)" using inv(1) by (simp add: sys_inv_def settled_def active_def data ptr)
qed simp_all

lemma sys_callback_spec:
  assumes inv: "sys_inv E FS X" and en: "rcu_enabled part_count (Callback i) (xl_pub (sy_link X))"
  shows "\<exists>X'. sys_do E (Sys_callback i) X = Some (Inr X') \<and> sys_inv E FS X'"
proof -
  let ?U = "xl_pub (sy_link X)"
  obtain stack where l: "link_inv E FS stack (sy_link X)" using inv by (auto simp: sys_inv_def)
  have k: "i < length (ru_pending ?U)" "snd (ru_pending ?U ! i) = {}" using en by simp_all
  obtain U' where c: "rcu_callback (le_pool E) i ?U = Some (Inr U')" "rcu_inv part_count (le_pool E) U' (fst (ru_pending ?U ! i) # stack)"
    "rcu_data (le_pool E) U' = rcu_data (le_pool E) ?U" "ru_published U' = ru_published ?U" "ru_current U' = ru_current ?U"
    "ru_readers U' = ru_readers ?U" "ru_pending U' = take i (ru_pending ?U) @ drop (Suc i) (ru_pending ?U)"
    by (rule rcu_callback_spec [OF link_invD(2) [OF l] k])
  have "fst (ru_pending ?U ! i) \<in> fst ` set (ru_pending ?U)" using k(1) by simp
  then have "set (rcu_live U' (fst (ru_pending ?U ! i) # stack)) \<subseteq> set (rcu_live ?U stack)"
    using set_take_subset [of i "ru_pending ?U"] set_drop_subset [of "Suc i" "ru_pending ?U"]
    by (auto simp: rcu_live_def c(4,5,7))
  from sys_pub_inv [OF inv l c(2-5) this] c(1) show ?thesis by simp
qed

lemma sys_lock_spec:
  assumes inv: "sys_inv E FS X"
  shows "\<exists>X'. sys_do E (Sys_lock rd) X = Some (Inr X') \<and> sys_inv E FS X'"
    "sys_inv E FS (set_pub (rcu_unlock rd (xl_pub (sy_link X))) X)"
proof -
  let ?U = "xl_pub (sy_link X)"
  obtain stack where l: "link_inv E FS stack (sy_link X)" using inv by (auto simp: sys_inv_def)
  note lock = rcu_lock_spec [OF link_invD(2) [OF l], of rd] and un = rcu_unlock_spec [OF link_invD(2) [OF l], of rd]
  have "sys_inv E FS (set_pub (?U\<lparr>ru_readers := (ru_readers ?U)(rd \<mapsto> (ru_published ?U, rcu_data (le_pool E) ?U (ru_published ?U)))\<rparr>) X)"
    by (rule sys_pub_inv [OF inv l lock(2)]) (simp_all add: rcu_data_def rcu_live_def fun_eq_iff)
  with lock(1) show "\<exists>X'. sys_do E (Sys_lock rd) X = Some (Inr X') \<and> sys_inv E FS X'" by simp
  show "sys_inv E FS (set_pub (rcu_unlock rd ?U) X)"
  proof (rule sys_pub_inv [OF inv l un(1,2)])
    have "ru_published (rcu_unlock rd ?U) = ru_published ?U" "ru_current (rcu_unlock rd ?U) = ru_current ?U" by (simp_all add: rcu_unlock_def)
    then show "ru_published (rcu_unlock rd ?U) = ru_published ?U" "ru_current (rcu_unlock rd ?U) = ru_current ?U"
      "set (rcu_live (rcu_unlock rd ?U) stack) \<subseteq> set (rcu_live ?U stack)" using un(3) by (simp_all add: rcu_live_def)
  qed
qed

lemma sys_step_spec:
  assumes inv: "sys_inv E FS X" and en: "sys_enabled E FS (Sys_step rn sn utc) X"
  shows "\<exists>X'. sys_do E (Sys_step rn sn utc) X = Some (Inr X') \<and> sys_inv E FS X'"
proof -
  let ?E = "E\<lparr>le_recv_now := rn, le_send_now := sn, le_utc := utc\<rparr>" and ?S = "sy_link X"
  have env: "link_inv ?E = link_inv E" "settled ?E = settled E" by (intro ext link_inv_env settled_env; simp)+
  obtain stack where l: "link_inv ?E FS stack ?S" "settled ?E ?S" using inv by (auto simp: sys_inv_def env)
  have ready: "step_ready ?E FS ?S" using en by simp
  obtain S' where s: "link_step ?E ?S = Some (Inr S')" "link_inv ?E FS [] S'" "settled ?E S'" "xl_active S' = xl_active ?S" "xl_agents S' = xl_agents ?S"
    "\<forall>pix. active ?S pix \<longrightarrow> stepped ?E FS ?S S' pix"
    by (rule link_step_spec [OF l ready])
  have "arrived (part ?S pix) \<le> arrived (part S' pix)" if a: "active ?S pix" for pix
  proof -
    have a': "active S' pix" using a s(4) by (simp add: active_def)
    have inv': "tape_inv (recv_tape (part ?S pix))" "tape_inv (recv_tape (part S' pix))"
      using link_invD(5) [OF l(1) a] link_invD(5) [OF s(2) a'] by (simp_all add: part_ok_def recv_ok_def)
    have "tape_all (recv_tape (part S' pix)) = tape_all (recv_tape (part ?S pix)) @ ready (pn_sock (part ?S pix))"
      using s(6) a by (simp add: stepped_def)
    from arg_cong [OF this, of length] show ?thesis using inv' by (simp add: length_tape_all arrived_def)
  qed
  from sys_inv_move [OF inv s(2,3) [unfolded env] s(5,4) this] s(1) show ?thesis by simp
qed

lemma sys_connect_spec:
  assumes inv: "sys_inv E FS X" and en: "sys_enabled E FS (Sys_connect rd aid) X"
  shows "\<exists>r. sys_do E (Sys_connect rd aid) X = Some r \<and> (\<forall>X'. r = Inr X' \<longrightarrow> sys_inv E FS X')"
proof -
  let ?S = "sy_link X" and ?S' = "(sy_link X)\<lparr>xl_connect_count := xl_connect_count (sy_link X) + 1\<rparr>"
  obtain stack where l: "link_inv E FS stack ?S" using inv by (auto simp: sys_inv_def)
  have snd: "snd (link_connect aid ?S) = ?S'" by (simp add: link_connect_def Let_def split: option.split)
  show ?thesis
  proof (cases "fst (link_connect aid ?S)")
    case (Inl e)
    then have "link_connect aid ?S = (Inl e, ?S')" using snd by (metis prod.collapse)
    then show ?thesis by simp
  next
    case (Inr b)
    then obtain m prefix ifc where b: "link_connect aid ?S = (Inr (m, prefix, ifc), ?S')" using snd by (metis prod.collapse)
    then have "map_of (xl_agents ?S) aid = Some m" by (auto simp: link_connect_def Let_def split: if_splits option.splits)
    then have mem: "(aid, m) \<in> set (xl_agents ?S)" by (rule map_of_SomeD)
    have "link_inv E FS stack ?S'" "settled E ?S'" using l inv by (simp_all add: link_inv_def settled_def active_def sys_inv_def)
    then have i: "sys_inv E FS (X\<lparr>sy_link := ?S'\<rparr>)" by (rule sys_inv_move [OF inv]) simp_all
    have "agent_ok FS ?S' (new_agent m)"
      unfolding agent_ok_def
    proof (intro conjI allI impI)
      fix pix assume "bit (ar_mask (new_agent m)) pix"
      then have a: "active ?S pix" using inv mem by (auto simp: sys_inv_def started_def new_agent_def)
      then show "active ?S' pix" by (simp add: active_def)
      have "pix < part_count" by (rule link_invD(3) [OF l a])
      then show "reached (FS pix) (part ?S' pix) (ar_pos (new_agent m) ! pix) (seen_of pix (ar_seen (new_agent m)))"
        unfolding reached_def by (intro exI [of _ 0]) (simp add: new_agent_def soup_recv.visits_def)
    qed (simp add: new_agent_def)
    with i have "sys_inv E FS (X\<lparr>sy_link := ?S', sy_agents := (sy_agents X)(rd \<mapsto> new_agent m)\<rparr>)"
      by (auto simp: sys_inv_def)
    then show ?thesis by (simp add: b)
  qed
qed

text \<open>An update in a read section never fails, and reaches the position of its descriptor.\<close>

lemma sys_update_spec:
  assumes inv: "sys_inv E FS X" and rd: "ru_readers (xl_pub (sy_link X)) rd = Some (r, pd)" and ag: "sy_agents X rd = Some a"
  obtains a' where "sys_update E rd X = Some (Inr (X\<lparr>sy_agents := (sy_agents X)(rd \<mapsto> a')\<rparr>))" "ar_mask a' = ar_mask a"
    "\<And>pix. bit (ar_mask a) pix \<Longrightarrow> ar_pos a' ! pix = max (ar_pos a ! pix) (rp_pos (pd ! pix))"
    "sys_inv E FS (X\<lparr>sy_agents := (sy_agents X)(rd \<mapsto> a')\<rparr>)"
proof -
  let ?S = "sy_link X" and ?Q = "le_pool E"
  obtain stack where l: "link_inv E FS stack ?S" using inv by (auto simp: sys_inv_def)
  note u = link_invD(2) [OF l] and i = rcu_invD [OF link_invD(2) [OF l]]
  have "r \<in> set (rcu_live (xl_pub ?S) [])" using held_live [OF u rd] by simp
  then have live: "r \<in> set (rcu_live (xl_pub ?S) stack)" by (auto simp: rcu_live_def)
  from i(4) [OF this] i(5) [OF rd] obtain d where d: "objs ?Q (ru_pool (xl_pub ?S)) r = Some d" "pd_data d = pd" "length pd = part_count" by auto
  have ok: "\<forall>pix. active ?S pix \<longrightarrow> pos_ok (FS pix) (part ?S pix) (pd ! pix)"
    using link_invD(6) [OF l _ live] i(5) [OF rd] by metis
  have a: "length (ar_pos a) = part_count" "\<forall>pix. bit (ar_mask a) pix \<longrightarrow> active ?S pix"
    "\<forall>pix. bit (ar_mask a) pix \<longrightarrow> reached (FS pix) (part ?S pix) (ar_pos a ! pix) (seen_of pix (ar_seen a))"
    using inv ag by (auto simp: sys_inv_def agent_ok_def)
  obtain pos seen where p: "agent_update E ?S pd (ar_mask a) (ar_pos a, ar_seen a) = Some (Inr (pos, seen))" "length pos = part_count"
    "\<forall>pix. bit (ar_mask a) pix \<longrightarrow> pos ! pix = max (ar_pos a ! pix) (rp_pos (pd ! pix)) \<and> reached (FS pix) (part ?S pix) (pos ! pix) (seen_of pix seen)"
    by (rule agent_update_spec [OF l ok d(3) a(1-3)])
  let ?a = "a\<lparr>ar_pos := pos, ar_seen := seen\<rparr>"
  have "sys_update E rd X = Some (Inr (X\<lparr>sy_agents := (sy_agents X)(rd \<mapsto> ?a)\<rparr>))"
    using p(1) d(2) by (simp add: sys_update_def rd ag pool_get_spec [OF i(1) d(1)])
  moreover have "agent_ok FS ?S ?a" unfolding agent_ok_def using p(2,3) a(2) by auto
  then have "sys_inv E FS (X\<lparr>sy_agents := (sy_agents X)(rd \<mapsto> ?a)\<rparr>)" using inv by (auto simp: sys_inv_def)
  ultimately show ?thesis using p(3) by (intro that [of ?a]) simp_all
qed

lemma sys_do_spec:
  assumes inv: "sys_inv E FS X" and en: "sys_enabled E FS ev X"
  shows "\<exists>r. sys_do E ev X = Some r \<and> (\<forall>X'. r = Inr X' \<longrightarrow> sys_inv E FS X') \<and> ((\<forall>rd aid. ev \<noteq> Sys_connect rd aid) \<longrightarrow> (\<exists>X'. r = Inr X'))"
proof (cases ev)
  case (Sys_net f)
  obtain stack where "link_inv E FS stack (sy_link X)" "settled E (sy_link X)" using inv by (auto simp: sys_inv_def)
  note d = deliver_inv [OF this, where f = f]
  have "sys_inv E FS (X\<lparr>sy_link := deliver f (sy_link X)\<rparr>)" by (rule sys_inv_move [OF inv d(1-4)]) (simp add: d(5))
  then show ?thesis by (simp add: Sys_net)
next
  case (Sys_connect rd aid)
  with sys_connect_spec [OF inv en [unfolded this]] show ?thesis by simp
next
  case (Sys_enqueue i req)
  obtain stack where l: "link_inv E FS stack (sy_link X)" "settled E (sy_link X)" using inv by (auto simp: sys_inv_def)
  let ?S = "(sy_link X)\<lparr>xl_queues := (xl_queues (sy_link X))[i := xl_queues (sy_link X) ! i @ [req]]\<rparr>"
  have "link_inv E FS stack ?S" "settled E ?S" using l by (simp_all add: link_inv_def settled_def active_def)
  then have "sys_inv E FS (X\<lparr>sy_link := ?S\<rparr>)" by (rule sys_inv_move [OF inv]) simp_all
  with en show ?thesis by (simp add: Sys_enqueue link_enqueue_def)
next
  case (Sys_update rd)
  with en obtain r pd a where "ru_readers (xl_pub (sy_link X)) rd = Some (r, pd)" "sy_agents X rd = Some a" by auto
  then obtain a' where "sys_update E rd X = Some (Inr (X\<lparr>sy_agents := (sy_agents X)(rd \<mapsto> a')\<rparr>))"
    "sys_inv E FS (X\<lparr>sy_agents := (sy_agents X)(rd \<mapsto> a')\<rparr>)" by (rule sys_update_spec [OF inv])
  then show ?thesis by (simp add: Sys_update)
next
  case (Sys_step rn sn utc)
  from sys_step_spec [OF inv en [unfolded this]] show ?thesis unfolding Sys_step by blast
next
  case (Sys_callback i)
  have "rcu_enabled part_count (Callback i) (xl_pub (sy_link X))" using en by (simp add: Sys_callback)
  from sys_callback_spec [OF inv this] show ?thesis unfolding Sys_callback by blast
next
  case (Sys_lock rd)
  from sys_lock_spec(1) [OF inv, of rd] show ?thesis unfolding Sys_lock by blast
next
  case (Sys_unlock rd)
  from sys_lock_spec(2) [OF inv, of rd] show ?thesis by (simp add: Sys_unlock)
qed

lemma sys_reach_inv: "sys_reach E FS X0 X \<Longrightarrow> sys_inv E FS X0 \<Longrightarrow> sys_inv E FS X"
  by (induction rule: sys_reach.induct) (auto dest!: sys_do_spec)

text \<open>A link that was started, with no agents yet.\<close>

lemma sys_inv_started: "link_inv E FS [] S \<Longrightarrow> settled E S \<Longrightarrow> started S \<Longrightarrow> sys_inv E FS \<lparr>sy_link = S, sy_agents = Map.empty\<rparr>"
  by (auto simp: sys_inv_def)

text \<open>An agent that opens a read section and updates has then seen every complete packet that arrived.\<close>

lemma sys_inv_agent: "sys_inv E FS X \<Longrightarrow> sy_agents X rd = Some a \<Longrightarrow> agent_ok FS (sy_link X) a"
  by (simp add: sys_inv_def)

lemma sys_catch_up:
  assumes inv: "sys_inv E FS X" and ag: "sy_agents X rd = Some a"
  shows "\<exists>X1 X2 a'. sys_do E (Sys_lock rd) X = Some (Inr X1) \<and> sys_do E (Sys_update rd) X1 = Some (Inr X2) \<and> sy_agents X2 rd = Some a' \<and>
    (\<forall>pix. bit (ar_mask a) pix \<longrightarrow> seen_of pix (ar_seen a') = soup_recv.visits (whole (FS pix) (arrived (part (sy_link X) pix))))"
proof -
  let ?S = "sy_link X" and ?U = "xl_pub (sy_link X)" and ?Q = "le_pool E"
  obtain stack where l: "link_inv E FS stack ?S" using inv by (auto simp: sys_inv_def)
  let ?pd = "rcu_data ?Q ?U (ru_published ?U)"
  let ?X1 = "set_pub (?U\<lparr>ru_readers := (ru_readers ?U)(rd \<mapsto> (ru_published ?U, ?pd))\<rparr>) X"
  have lock: "sys_do E (Sys_lock rd) X = Some (Inr ?X1)" using rcu_lock_spec(1) [OF link_invD(2) [OF l], of rd] by simp
  have inv1: "sys_inv E FS ?X1" using sys_lock_spec(1) [OF inv, of rd] lock by simp
  have r1: "ru_readers (xl_pub (sy_link ?X1)) rd = Some (ru_published ?U, ?pd)" "sy_agents ?X1 rd = Some a"
    "\<And>pix. part (sy_link ?X1) pix = part ?S pix" using ag by (simp_all add: set_pub_def)
  obtain a' where u: "sys_update E rd ?X1 = Some (Inr (?X1\<lparr>sy_agents := (sy_agents ?X1)(rd \<mapsto> a')\<rparr>))" "ar_mask a' = ar_mask a"
    "\<And>pix. bit (ar_mask a) pix \<Longrightarrow> ar_pos a' ! pix = max (ar_pos a ! pix) (rp_pos (?pd ! pix))"
    "sys_inv E FS (?X1\<lparr>sy_agents := (sy_agents ?X1)(rd \<mapsto> a')\<rparr>)"
    by (rule sys_update_spec [OF inv1 r1(1,2)]) blast
  have "seen_of pix (ar_seen a') = soup_recv.visits (whole (FS pix) (arrived (part ?S pix)))" if b: "bit (ar_mask a) pix" for pix
  proof -
    let ?ws = "whole_size (FS pix)" and ?n = "arrived (part ?S pix)"
    from sys_inv_agent [OF inv ag] obtain k where k: "active ?S pix" "k \<le> ?n" "ar_pos a ! pix = int (?ws k)" using b by (auto simp: agent_ok_def reached_def)
    have "agent_ok FS (sy_link ?X1) a'" using sys_inv_agent [OF u(4), of rd a'] by simp
    then obtain m where m: "ar_pos a' ! pix = int (?ws m)" "seen_of pix (ar_seen a') = soup_recv.visits (whole (FS pix) m)"
      using b by (auto simp: agent_ok_def reached_def u(2) r1(3))
    have "rp_pos (?pd ! pix) = int (?ws ?n)" using inv k(1) link_invD(7) [OF l k(1)] by (simp add: sys_inv_def settled_def)
    then have "ar_pos a' ! pix = int (?ws ?n)" using u(3) [OF b] k(3) whole_size_mono [OF k(2), of "FS pix"] by simp
    then have "?ws m = ?ws ?n" using m(1) by simp
    then have "whole (FS pix) m = whole (FS pix) ?n" using whole_idem by metis
    then show ?thesis using m(2) by simp
  qed
  then show ?thesis using lock u(1) by auto
qed

end
