(* ===== verification/Link_Output.thy ===== *)
theory Link_Output
  imports Link_System Decimal_Print
begin

text \<open>
  What leaves a link is a sequence of whole packets that the exchange's reader understands:
  requests, logins and heartbeats.
\<close>

section \<open>Packets of the client\<close>

definition framed :: "byte list \<Rightarrow> bool" where
  "framed bs \<longleftrightarrow> (\<exists>ty body. bs = frame ty body \<and> frame_ok body \<and> send_visit ty body \<noteq> None)"

definition packets :: "byte list \<Rightarrow> bool" where
  "packets bs \<longleftrightarrow> (\<exists>gs. soup_send.good gs \<and> bs = soup_send.wire gs)"

lemma packets_Nil [simp]: "packets []"
  unfolding packets_def by (rule exI [of _ "[]"]) (simp add: soup_send.good_def soup_send.wire_def)

lemma packets_append: "packets as \<Longrightarrow> packets bs \<Longrightarrow> packets (as @ bs)"
proof -
  assume "packets as" "packets bs"
  then obtain fs gs where "soup_send.good fs" "as = soup_send.wire fs" "soup_send.good gs" "bs = soup_send.wire gs" by (auto simp: packets_def)
  then have "soup_send.good (fs @ gs)" "as @ bs = soup_send.wire (fs @ gs)" by (auto simp: soup_send.good_def soup_send.wire_def)
  then show ?thesis by (auto simp: packets_def)
qed

lemma packets_framed: "framed bs \<Longrightarrow> packets bs"
proof -
  assume "framed bs"
  then obtain ty body where "bs = frame ty body" "frame_ok body" "send_visit ty body \<noteq> None" by (auto simp: framed_def)
  then show ?thesis unfolding packets_def
    by (intro exI [of _ "[(ty, body)]"]) (simp add: soup_send.good_def soup_send.wire_def)
qed

lemma packets_out_for: "\<forall>out \<in> set outs. framed (snd out) \<Longrightarrow> packets (out_for pix outs)"
proof (induction outs)
  case (Cons out outs)
  obtain q bs where out: "out = (q, bs)" by (cases out)
  show ?case using Cons packets_append [OF packets_framed] by (auto simp: out)
qed simp

lemma framed_heartbeat: "framed heartbeat_packet"
  unfolding framed_def by (intro exI [of _ 82] exI [of _ "[]"]) (simp add: heartbeat_packet_def frame_def frame_ok_def send_visit_def)

lemma framed_request:
  assumes "templates_ok ff account T" "length account \<le> 10" "req \<noteq> Start_login"
  shows "framed (request_frame T iid req)"
  unfolding framed_def using request_frame_exact [OF assms, of iid]
  by (intro exI [of _ 85] exI [of _ "request_bytes ff account iid req"]) (simp add: send_visit_def)

lemma framed_login:
  assumes "login_packet lp seqnum = Some bs" "length (fst lp) \<le> 6" "length (snd lp) \<le> 10"
  shows "framed bs"
proof -
  let ?l = SoupTCP_login_request
  have l: "field_at ?l L_username = Some (0, 6)" "field_at ?l L_password = Some (6, 10)" "field_at ?l L_seqnum = Some (26, 20)" "struct_size ?l = 46"
    by (simp_all add: SoupTCP_login_request_def struct_size_def)
  obtain n chars where t: "rjust_print_decimal_nonnegative seqnum 20 (replicate 20 CHR '' '') = Some (n, chars)"
    using assms(1) by (auto simp: login_packet_def Let_def split: option.splits)
  have chars: "length chars = 20"
  proof (cases "length (dec seqnum) \<le> 20")
    case True
    then have "chars = take (20 - length (dec seqnum)) (replicate 20 CHR '' '') @ dec seqnum @ drop 20 (replicate 20 CHR '' '')"
      using rjust_exact [OF True, of "replicate 20 CHR '' ''"] t by simp
    then show ?thesis using True by simp
  next
    case False
    then show ?thesis using rjust_outside [of 20 seqnum "replicate 20 CHR '' ''"] t by simp
  qed
  define body where "body = set_field ?l L_seqnum (map byte_of_char chars)
    (copy_to_alphanum ?l L_password (snd lp) (copy_to_alphanum ?l L_username (fst lp) (replicate 46 BLANK)))"
  have len: "length body = 46"
    unfolding body_def copy_to_alphanum_def
    using chars assms(2,3) set_length [of _ ?l L_seqnum] set_length [of _ ?l L_password] set_length [of _ ?l L_username] by (simp add: l)
  have "bs = frame 76 body" using assms(1) t
    by (simp add: login_packet_def Let_def l(4) body_def [symmetric] frame_def len)
  then show ?thesis unfolding framed_def
    by (intro exI [of _ 76] exI [of _ body]) (simp add: frame_ok_def len send_visit_def)
qed

section \<open>What a step hands to the sockets\<close>

definition creds_fit :: "execution_link \<Rightarrow> bool" where
  "creds_fit S \<longleftrightarrow> (\<forall>creds. xl_credentials S = Some creds \<longrightarrow> (\<forall>lp \<in> set creds. length (fst lp) \<le> 6 \<and> length (snd lp) \<le> 10))"

definition output_ok :: "fixed_fields \<Rightarrow> byte list \<Rightarrow> execution_link \<Rightarrow> bool" where
  "output_ok ff account S \<longleftrightarrow> templates_ok ff account (xl_templates S) \<and> creds_fit S \<and> (\<forall>pix. active S pix \<longrightarrow> packets (sent (part S pix)))"

lemma framed_login_out:
  assumes "login_ready S" "creds_fit S" "\<And>pix. active S pix \<Longrightarrow> pix < part_count"
  shows "\<forall>out \<in> set (login_out S). framed (snd out)"
proof
  fix out assume o: "out \<in> set (login_out S)"
  from assms(1) obtain creds where c: "xl_credentials S = Some creds" "length creds = part_count" "length (xl_seqnums S) = part_count"
    "\<forall>pix \<in> set (mask_pixes (xl_active S)). login_packet (creds ! pix) (xl_seqnums S ! pix) \<noteq> None"
    by (auto simp: login_ready_def split: option.splits)
  from o obtain pix where pix: "pix \<in> set (mask_pixes (xl_active S))" "out = (pix, the (login_packet (creds ! pix) (xl_seqnums S ! pix)))"
    by (auto simp: login_out_def c(1))
  from c(4) pix obtain bs where bs: "login_packet (creds ! pix) (xl_seqnums S ! pix) = Some bs" "out = (pix, bs)" by auto
  have "pix < length creds" using assms(3) pix(1) c(2) by (simp add: active_def mask_pixes_set)
  then have "creds ! pix \<in> set creds" by simp
  then show "framed (snd out)" using framed_login [OF bs(1)] assms(2) c(1) bs(2) by (auto simp: creds_fit_def)
qed

lemma framed_queue_out:
  assumes "queue_ready S agents logins i" "output_ok ff account S" "length account \<le> 10" "\<And>pix. active S pix \<Longrightarrow> pix < part_count"
  shows "\<forall>out \<in> set (queue_out S agents logins i). framed (snd out)"
proof (cases "xl_queues S ! i")
  case (Cons req rest)
  have T: "templates_ok ff account (xl_templates S)" "creds_fit S" using assms(2) by (simp_all add: output_ok_def)
  show ?thesis
  proof (cases "req = Start_login")
    case True
    then show ?thesis using assms(1) Cons framed_login_out [OF _ T(2) assms(4)] by (auto simp: queue_out_def queue_ready_def)
  next
    case False
    then show ?thesis using Cons framed_request [OF T(1) assms(3)] by (simp add: queue_out_def request_out_def Let_def)
  qed
qed (simp add: queue_out_def)

lemma framed_phase_out:
  assumes "phase_ready S agents logins is" "output_ok ff account S" "length account \<le> 10" "\<And>pix. active S pix \<Longrightarrow> pix < part_count"
  shows "\<forall>out \<in> set (phase_out S agents logins is). framed (snd out)"
  using assms(1)
proof (induction "is" arbitrary: logins)
  case (Cons i "is")
  then show ?case using framed_queue_out [OF _ assms(2-4), of agents logins i] Cons.IH [of "logins + queue_logins S i"]
    by (simp add: ball_Un)
qed simp

lemma step_output:
  assumes ok: "output_ok ff account S" "length account \<le> 10" "step_ready E FS S" and inv: "link_inv E FS stack S"
    and S': "\<forall>pix. active S pix \<longrightarrow> stepped E FS S S' pix" "xl_active S' = xl_active S" "xl_templates S' = xl_templates S"
      "xl_credentials S' = xl_credentials S \<or> xl_credentials S' = None"
  shows "output_ok ff account S'"
proof -
  have "\<forall>out \<in> set (step_out S). framed (snd out)"
    unfolding step_out_def by (rule framed_phase_out [OF step_readyD(2) [OF ok(3)] ok(1,2)]) (rule link_invD(3) [OF inv])
  then have "packets (out_for pix (step_out S) @ step_heartbeat E (step_out S) pix (part S pix))" for pix
    by (intro packets_append packets_out_for) (simp_all add: step_heartbeat_def heartbeat_out_def packets_framed framed_heartbeat)
  moreover have "packets (sent (part S pix))" if "active S pix" for pix using ok(1) that by (simp add: output_ok_def)
  ultimately have "packets (sent (part S' pix))" if "active S pix" for pix
    using S'(1) that packets_append unfolding stepped_def by auto
  moreover have "active S' pix = active S pix" for pix using S'(2) by (simp add: active_def)
  ultimately show ?thesis using ok(1) S'(3,4) by (auto simp: output_ok_def creds_fit_def)
qed

section \<open>The system\<close>

lemma output_ok_same:
  assumes "output_ok ff account S" "xl_active S' = xl_active S" "xl_templates S' = xl_templates S" "xl_credentials S' = xl_credentials S"
    "\<And>pix. active S pix \<Longrightarrow> sent (part S' pix) = sent (part S pix)"
  shows "output_ok ff account S'"
  using assms by (simp add: output_ok_def creds_fit_def active_def)

lemma sys_do_output:
  assumes inv: "sys_inv E FS X" and en: "sys_enabled E FS ev X" and ok: "output_ok ff account (sy_link X)" "length account \<le> 10"
    and ev: "sys_do E ev X = Some (Inr X')"
  shows "output_ok ff account (sy_link X')"
proof (cases ev)
  case (Sys_net f)
  obtain stack where l: "link_inv E FS stack (sy_link X)" using inv by (auto simp: sys_inv_def)
  have "sent (part (deliver f (sy_link X)) pix) = sent (part (sy_link X) pix)" if "active (sy_link X) pix" for pix
    using link_invD(4) [OF l that] by (simp add: deliver_def sent_def send_tape_def)
  then show ?thesis using ev Sys_net by (auto intro: output_ok_same [OF ok(1)] simp: deliver_def)
next
  case (Sys_connect rd aid)
  then have "sy_link X' = (sy_link X)\<lparr>xl_connect_count := xl_connect_count (sy_link X) + 1\<rparr>"
    using ev by (auto simp: link_connect_def Let_def split: if_splits option.splits)
  then show ?thesis by (auto intro: output_ok_same [OF ok(1)])
next
  case (Sys_step rn sn utc)
  let ?E = "E\<lparr>le_recv_now := rn, le_send_now := sn, le_utc := utc\<rparr>" and ?S = "sy_link X"
  have env: "link_inv ?E = link_inv E" "settled ?E = settled E" by (intro ext link_inv_env settled_env; simp)+
  obtain stack where l: "link_inv ?E FS stack ?S" "settled ?E ?S" using inv by (auto simp: sys_inv_def env)
  have ready: "step_ready ?E FS ?S" using en Sys_step by simp
  obtain S' where s: "link_step ?E ?S = Some (Inr S')" "xl_active S' = xl_active ?S" "\<forall>pix. active ?S pix \<longrightarrow> stepped ?E FS ?S S' pix"
    "xl_templates S' = xl_templates ?S" "xl_credentials S' = xl_credentials ?S \<or> xl_credentials S' = None"
    by (rule link_step_spec [OF l ready])
  have "sy_link X' = S'" using ev Sys_step s(1) by auto
  then show ?thesis using step_output [OF ok ready l(1) s(3,2,4,5)] by simp
next
  case (Sys_enqueue i req)
  then show ?thesis using ev by (auto simp: link_enqueue_def split: if_splits intro!: output_ok_same [OF ok(1)])
next
  case (Sys_update rd)
  then have "sy_link X' = sy_link X" using ev by (auto simp: sys_update_def bind_ro_def split: option.splits prod.splits sum.splits)
  then show ?thesis using ok(1) by simp
qed (use ev in \<open>auto simp: set_pub_def bind_ro_def split: option.splits sum.splits intro!: output_ok_same [OF ok(1)]\<close>)

lemma sys_reach_output:
  "sys_reach E FS X0 X \<Longrightarrow> sys_inv E FS X0 \<Longrightarrow> output_ok ff account (sy_link X0) \<Longrightarrow> length account \<le> 10 \<Longrightarrow> output_ok ff account (sy_link X)"
  by (induction rule: sys_reach.induct) (use sys_do_output sys_reach_inv in blast)+

lemma link_start_output:
  assumes "link_new Q T p = Some (Inr S0)" "link_start cfg ff page_size bases S0 = Some (Inr S)"
    and size: "0 < page_size" "lc_capacity cfg + page_size \<le> 2 ^ 31"
    and cfg: "length (lc_account cfg) \<le> 10" "\<forall>lp \<in> set (lc_credentials cfg). length (fst lp) \<le> 6 \<and> length (snd lp) \<le> 10"
  shows "output_ok ff (lc_account cfg) S"
proof -
  from link_start_shape [OF assms(1,2)] obtain U where s: "initialize_msg_templates ff (lc_account cfg) = Inr (xl_templates S)"
    "xl_credentials S = Some (lc_credentials cfg)"
    "\<And>pix. active S pix \<Longrightarrow> pix < part_count \<and>
      (\<exists>l. link_create page_size (fst (bases pix)) (snd (bases pix)) (lc_capacity cfg) = Inr l \<and> part S pix = idle_partition\<lparr>pn_link := Some l\<rparr>)"
    by metis
  have "lc_account cfg \<noteq> []" using s(1) by (auto simp: initialize_msg_templates_def initialize_order_def has_fields Let_def)
  from templates_initialized [OF cfg(1) this, of ff] s(1) have "templates_ok ff (lc_account cfg) (xl_templates S)" by auto
  moreover have "sent (part S pix) = []" if a: "active S pix" for pix
  proof -
    obtain l where l: "link_create page_size (fst (bases pix)) (snd (bases pix)) (lc_capacity cfg) = Inr l" "part S pix = idle_partition\<lparr>pn_link := Some l\<rparr>"
      using s(3) [OF a] by blast
    note e = link_create_empty [OF l(1) size]
    show ?thesis using e(6,7) by (simp add: l(2) sent_def send_tape_def idle_partition_def idle_socket_def tape_rest_def tape_all_def)
  qed
  ultimately show ?thesis using s(2) cfg(2) by (simp add: output_ok_def creds_fit_def)
qed

end
