(* ===== verification/Link_Props.thy ===== *)
theory Link_Props
  imports Link_Output Ouch_Props
begin

text \<open>
  The execution link, its readers and its output: the properties.
\<close>

section \<open>A link for the witnesses\<close>

definition demo_cfg :: link_config where
  "demo_cfg = \<lparr>lc_agents = [(''a'', [(''X'', 0)])], lc_liid_limit = 1, lc_instruments = [''X'' \<mapsto> (70000, 0)], lc_capacity = 4096,
     lc_account = demo_account, lc_credentials = replicate 4 ([65], [66])\<rparr>"

definition demo_env :: link_env where
  "demo_env = \<lparr>le_pool = demo_pool_opts, le_check = True, le_recv_now = (\<lambda>pix. 0), le_send_now = (\<lambda>pix. 0), le_utc = 10000000000\<rparr>"

definition demo_packets :: "nat \<Rightarrow> packet list" where
  "demo_packets pix = [(72, []), (83, [1, 2])]"

lemma demo_packets_good: "soup_recv.good (demo_packets pix)"
  by (simp add: demo_packets_def soup_recv.good_def recv_visit_def frame_ok_def)

lemma mask_one: "mask_pixes 1 = [0]"
proof -
  have "filter (bit (1 :: 32 word)) [0..<32] = [0]" by (simp add: bit_1_iff upt_conv_Cons)
  then show ?thesis by (simp add: mask_pixes_filter)
qed

lemma demo_pool_room: "card (dom (objs demo_pool_opts p)) \<le> 5 \<Longrightarrow> \<not> pool_full demo_pool_opts p"
  by (auto simp: pool_full_def demo_pool_opts_def chunk_capacity_def)

lemma demo_initialized:
  obtains U where "rcu_initialize W demo_pool_opts demo_pool = Some (Inr U)" "\<not> pool_full demo_pool_opts (ru_pool U)" "ru_readers U = Map.empty"
proof -
  let ?Q = demo_pool_opts and ?p = "demo_pool :: poll_descriptor pool"
  obtain r1 p1 d1 where a1: "pd_allocate ?Q (clear_data W) ?p = Some (Inr (r1, p1))" "pool_inv ?Q p1" "objs ?Q p1 = [r1 \<mapsto> d1]" "pd_data d1 = (clear_data W)"
    using pd_allocate_spec [OF demo_pool_inv demo_pool_not_full, of "clear_data W"] unfolding demo_pool_empty by metis
  have "\<not> pool_full ?Q p1" by (rule demo_pool_room) (simp add: a1(3))
  then obtain r2 p2 d2 where a2: "pd_allocate ?Q (clear_data W) p1 = Some (Inr (r2, p2))" "pool_inv ?Q p2" "objs ?Q p2 = (objs ?Q p1)(r2 \<mapsto> d2)"
    using pd_allocate_spec [OF a1(2), of "clear_data W"] by metis
  have g: "pool_get ?Q False r1 p1 = Some (Inr d1)" by (rule pool_get_spec [OF a1(2)]) (simp add: a1(3))
  have "card (dom (objs ?Q p2)) \<le> 2" using card_insert_le_m1 [of 2 "{r1}" r2] by (simp add: a2(3) a1(3))
  then have "\<not> pool_full ?Q p2" by (intro demo_pool_room) simp
  moreover have "rcu_initialize W ?Q ?p = Some (Inr \<lparr>ru_pool = p2, ru_published = r1, ru_current = r2, ru_head = None, ru_pending = [],
      ru_readers = Map.empty\<rparr>)" using a1 a2(1) g by (simp add: rcu_initialize_def)
  ultimately show ?thesis using that by simp
qed

lemma demo_link_created: "\<exists>l. link_create 4096 r s 4096 = Inr l"
  by (simp add: link_create_def tape_new_def select_size_def)

lemma demo_started:
  obtains S0 S where "link_new demo_pool_opts demo_templates demo_pool = Some (Inr S0)"
    "link_start demo_cfg default_fixed_fields 4096 (\<lambda>pix. (0, 10000)) S0 = Some (Inr S)"
    "xl_agents S = [(''a'', 1)]" "xl_active S = 1" "\<not> pool_full demo_pool_opts (ru_pool (xl_pub S))"
    "xl_connect_count S = 0" "xl_queues S = [[]]" "ru_readers (xl_pub S) = Map.empty"
    "\<exists>l. link_create 4096 0 10000 4096 = Inr l \<and> part S 0 = idle_partition\<lparr>pn_link := Some l\<rparr>"
proof -
  obtain U where U: "rcu_initialize part_count demo_pool_opts demo_pool = Some (Inr U)" "\<not> pool_full demo_pool_opts (ru_pool U)" "ru_readers U = Map.empty"
    by (rule demo_initialized)
  obtain l where l: "link_create 4096 0 10000 4096 = Inr l" using demo_link_created by blast
  have m: "map_agents demo_cfg (lc_agents demo_cfg) (replicate (lc_liid_limit demo_cfg) (0, 0), [], 0) = Some (Inr ([(70000, 0)], [(''a'', 1)], 1))"
    by (simp add: demo_cfg_def)
  obtain S0 where S0: "link_new demo_pool_opts demo_templates demo_pool = Some (Inr S0)" "xl_partitions S0 = replicate part_count idle_partition"
    "xl_pub S0 = U" "xl_connect_count S0 = 0"
    using U(1) by (simp add: link_new_def)
  have "lc_account demo_cfg = demo_account" "length (lc_credentials demo_cfg) = part_count" "lc_capacity demo_cfg = 4096"
    by (simp_all add: demo_cfg_def part_count_def)
  then have start: "link_start demo_cfg default_fixed_fields 4096 (\<lambda>pix. (0, 10000)) S0 =
      Some (Inr (set_partition 0 (idle_partition\<lparr>pn_link := Some l\<rparr>) (S0\<lparr>xl_liid_map := [(70000, 0)], xl_agents := [(''a'', 1)],
        xl_queues := replicate 1 [], xl_active := 1, xl_credentials := Some (lc_credentials demo_cfg), xl_templates := demo_templates\<rparr>)))"
    unfolding link_start_def m using l S0(2)
    by (simp add: demo_templates_ok mask_one connect_partition_def part_count_def)
  show ?thesis by (rule that [OF S0(1) start]) (use S0 U(2,3) l in \<open>simp_all add: set_partition_def part_count_def\<close>)
qed

lemma demo_sizes: "le_pool demo_env = demo_pool_opts" "lc_capacity demo_cfg + 4096 \<le> 2 ^ 31" "lc_account demo_cfg = demo_account"
  "length (lc_account demo_cfg) \<le> 10" "\<forall>lp \<in> set (lc_credentials demo_cfg). length (fst lp) \<le> 6 \<and> length (snd lp) \<le> 10"
  by (simp_all add: demo_env_def demo_cfg_def demo_account_def)

text \<open>The kernel delivers the first packet and a part of the second one.\<close>

definition demo_net :: "nat \<Rightarrow> tcp_socket" where
  "demo_net pix = \<lparr>so_in = [Arrived [0, 1, 72, 0, 3]], so_accept = [], so_out = []\<rparr>"

lemma phase_idle:
  "\<forall>i \<in> set is. i < length (xl_queues S) \<and> xl_queues S ! i = [] \<Longrightarrow> phase_out S agents logins is = [] \<and> phase_ready S agents logins is"
  by (induction "is" arbitrary: logins) (simp_all add: queue_out_def queue_ready_def queue_logins_def)

lemma demo_ready:
  assumes "link_inv demo_env demo_packets stack S" "xl_active S = 1" "\<not> pool_full demo_pool_opts (ru_pool (xl_pub S))"
    "xl_queues S = [[]]" "xl_connect_count S \<le> 1"
    "link_create 4096 0 10000 4096 = Inr l" "part S 0 = idle_partition\<lparr>pn_link := Some l\<rparr>"
  shows "step_ready demo_env demo_packets (deliver demo_net S)" "ready (pn_sock (part (deliver demo_net S) 0)) = [0, 1, 72, 0, 3]"
    "step_out (deliver demo_net S) = []"
proof -
  let ?S = "deliver demo_net S"
  note e = link_create_empty [OF assms(6)]
  have e: "tape_inv (dl_recv l)" "tape_w (dl_recv l) = 0" "tape_inv (dl_send l)" "tape_w (dl_send l) = 0" using e by simp_all
  have "4096 \<le> tape_room (dl_recv l)" "4096 \<le> tape_room (dl_send l)"
    using assms(6) tape_new_inv(3,4) [of 4096 0 4096] tape_new_inv(3,4) [of 4096 10000 4096]
    by (auto simp: link_create_def bind_r_Inr_iff)
  note room = this
  have act: "active ?S pix \<Longrightarrow> pix = 0" "active S 0" for pix using assms(2) by (simp_all add: active_def deliver_def bit_1_iff)
  have len: "0 < length (xl_partitions S)" using link_invD(4) [OF assms(1) act(2)] .
  have p: "part ?S 0 = (part S 0)\<lparr>pn_sock := (demo_net 0)\<lparr>so_out := so_out (pn_sock (part S 0))\<rparr>\<rparr>"
    using len by (simp add: deliver_def)
  show rd: "ready (pn_sock (part ?S 0)) = [0, 1, 72, 0, 3]" by (simp add: p demo_net_def ready_def)
  have w: "wire (demo_packets 0) = [0, 1, 72, 0, 3] @ [83, 1, 2]"
    by (simp add: demo_packets_def frame_def net_write_rev eval_nat_numeral)
  have "arrives (demo_packets 0) (part ?S 0)"
    unfolding arrives_def rd w using room(1) e(2)
    by (simp add: can_recv_def p demo_net_def recv_tape_def assms(7) tape_all_def)
  moreover have "can_send (pn_sock (part ?S 0))" by (simp add: can_send_def p demo_net_def)
  moreover have out: "step_out ?S = []" "phase_ready ?S (xl_connect_count ?S) (xl_login_count ?S) [0..<xl_connect_count ?S]"
  proof -
    have "xl_queues ?S = [[]]" "xl_connect_count ?S \<le> 1" using assms(4,5) by (simp_all add: deliver_def)
    then have "\<forall>i \<in> set [0..<xl_connect_count ?S]. i < length (xl_queues ?S) \<and> xl_queues ?S ! i = []" by (auto simp: less_Suc_eq_le dest!: less_le_trans)
    from phase_idle [OF this] show "step_out ?S = []"
      "phase_ready ?S (xl_connect_count ?S) (xl_login_count ?S) [0..<xl_connect_count ?S]" by (simp_all add: step_out_def)
  qed
  moreover have "3 \<le> tape_room (send_tape (part ?S 0))" using room(2) by (simp add: p send_tape_def assms(7))
  moreover have "\<not> pool_full (le_pool demo_env) (ru_pool (xl_pub ?S))" using assms(3) by (simp add: demo_env_def deliver_def)
  ultimately show "step_ready demo_env demo_packets ?S" "step_out ?S = []" unfolding step_ready_def using act(1) by auto
qed

section \<open>Properties\<close>

text \<open>
  C31: a step of the execution link does exactly this: what arrived on a partition is appended
  to what arrived before, every request at the head of a queue becomes its packet at the
  end of what is sent, in queue order, with a heartbeat when nothing else was sent for long enough; what
  the socket takes comes off the front; and the published position is the end of the last
  complete packet that arrived. Nothing is ever lost, repeated or reordered.
\<close>

theorem link_step_exact:
  assumes "link_inv E FS stack S" "settled E S" "step_ready E FS S"
  shows "\<exists>S'. link_step E S = Some (Inr S') \<and> link_inv E FS [] S' \<and> settled E S' \<and> xl_active S' = xl_active S \<and>
    (\<forall>pix. active S pix \<longrightarrow>
       tape_all (recv_tape (part S' pix)) = tape_all (recv_tape (part S pix)) @ ready (pn_sock (part S pix)) \<and>
       sent (part S' pix) = sent (part S pix) @ out_for pix (step_out S) @ step_heartbeat E (step_out S) pix (part S pix) \<and>
       (\<exists>new. so_out (pn_sock (part S' pix)) = so_out (pn_sock (part S pix)) @ new) \<and>
       rp_pos (rcu_data (le_pool E) (xl_pub S') (ru_published (xl_pub S')) ! pix) = int (whole_size (FS pix) (arrived (part S' pix)))) \<and>
    (\<forall>i < xl_connect_count S. xl_queues S' ! i = tl (xl_queues S ! i))"
proof -
  obtain S' where "link_step E S = Some (Inr S')" "link_inv E FS [] S'" "settled E S'" "xl_active S' = xl_active S"
    "\<forall>pix. active S pix \<longrightarrow> stepped E FS S S' pix" "\<forall>i < xl_connect_count S. xl_queues S' ! i = tl (xl_queues S ! i)"
    by (rule link_step_spec [OF assms])
  then show ?thesis unfolding stepped_def by blast
qed

lemma demo_delivered:
  obtains S where "link_inv demo_env demo_packets [] S" "settled demo_env S" "step_ready demo_env demo_packets S" "active S 0"
    "ready (pn_sock (part S 0)) = [0, 1, 72, 0, 3]" "tape_all (recv_tape (part S 0)) = []"
proof -
  obtain S0 S l where d: "link_new demo_pool_opts demo_templates demo_pool = Some (Inr S0)"
    "link_start demo_cfg default_fixed_fields 4096 (\<lambda>pix. (0, 10000)) S0 = Some (Inr S)"
    "xl_agents S = [(''a'', 1)]" "xl_active S = 1" "\<not> pool_full demo_pool_opts (ru_pool (xl_pub S))"
    "xl_connect_count S = 0" "xl_queues S = [[]]" "link_create 4096 0 10000 4096 = Inr l" "part S 0 = idle_partition\<lparr>pn_link := Some l\<rparr>"
    by (rule demo_started) blast
  have "link_inv demo_env demo_packets [] S \<and> settled demo_env S \<and> started S"
    by (rule link_start_spec [OF _ _ d(2)]) (use d(1) demo_pool_inv demo_sizes(1,2) demo_packets_good in simp_all)
  then have i: "link_inv demo_env demo_packets [] S" "settled demo_env S" by simp_all
  have a: "active S 0" using d(4) by (simp add: active_def)
  have c: "xl_connect_count S \<le> 1" using d(6) by simp
  note r = demo_ready [OF i(1) d(4,5,7) c d(8,9)]
  have "part (deliver demo_net S) 0 = (part S 0)\<lparr>pn_sock := (demo_net 0)\<lparr>so_out := so_out (pn_sock (part S 0))\<rparr>\<rparr>"
    using link_invD(4) [OF i(1) a] by (simp add: deliver_def)
  then have "tape_all (recv_tape (part (deliver demo_net S) 0)) = []"
    using link_create_empty [OF d(8)] by (simp add: recv_tape_def d(9) tape_all_def)
  then show ?thesis using deliver_inv [OF i, where f = demo_net] r a by (intro that) (simp_all add: active_def)
qed

lemma link_step_exact_witness:
  "\<exists>S S'. link_step demo_env S = Some (Inr S') \<and> tape_all (recv_tape (part S' 0)) = [0, 1, 72, 0, 3] \<and>
     link_inv demo_env demo_packets [] S' \<and> rp_pos (rcu_data demo_pool_opts (xl_pub S') (ru_published (xl_pub S')) ! 0) = 3"
proof -
  obtain S where d: "link_inv demo_env demo_packets [] S" "settled demo_env S" "step_ready demo_env demo_packets S" "active S 0"
    "ready (pn_sock (part S 0)) = [0, 1, 72, 0, 3]" "tape_all (recv_tape (part S 0)) = []" by (rule demo_delivered)
  from link_step_exact [OF d(1-3)] d(4-6) obtain S' where s: "link_step demo_env S = Some (Inr S')" "link_inv demo_env demo_packets [] S'"
    "xl_active S' = xl_active S" "tape_all (recv_tape (part S' 0)) = [0, 1, 72, 0, 3]"
    "rp_pos (rcu_data demo_pool_opts (xl_pub S') (ru_published (xl_pub S')) ! 0) = int (whole_size (demo_packets 0) (arrived (part S' 0)))"
    by (auto simp: demo_sizes(1))
  have "active S' 0" using d(4) s(3) by (simp add: active_def)
  then have "tape_inv (recv_tape (part S' 0))" using link_invD(5) [OF s(2)] by (auto simp: part_ok_def recv_ok_def)
  from length_tape_all [OF this] have "arrived (part S' 0) = 5" by (simp add: s(4) arrived_def)
  then have "whole_size (demo_packets 0) (arrived (part S' 0)) = 3" by (simp add: whole_size_def demo_packets_def)
  then show ?thesis using s by auto
qed

text \<open>
  C32: whatever link, kernel, callback thread and agents do, in any order that leaves the buffers
  room, every agent has visited, on each of its partitions, exactly the packets the exchange sent up
  to some point, each once and in order, and an agent that opens a read
  section and updates has then visited every complete packet that arrived. None of these events fails but a
  connection: it is refused exactly when more connections were made before than there are agents, or
  the agent is not configured; otherwise the new agent reads its partitions from the start.
\<close>

theorem agents_see_stream:
  assumes "pool_inv (le_pool E) p" "link_new (le_pool E) T p = Some (Inr S0)" "link_start cfg ff page_size bases S0 = Some (Inr S)"
    "0 < page_size" "lc_capacity cfg + page_size \<le> 2 ^ 31" "\<And>pix. soup_recv.good (FS pix)"
    "sys_reach E FS \<lparr>sy_link = S, sy_agents = Map.empty\<rparr> X"
  shows "(\<forall>ev. sys_enabled E FS ev X \<and> (\<forall>rd aid. ev \<noteq> Sys_connect rd aid) \<longrightarrow> (\<exists>X'. sys_do E ev X = Some (Inr X'))) \<and>
    (\<forall>rd aid. sys_do E (Sys_connect rd aid) X = Some
      (if length (xl_agents (sy_link X)) < xl_connect_count (sy_link X) then Inl Out_of_bounds
       else case map_of (xl_agents (sy_link X)) aid of
           None \<Rightarrow> Inl Invalid_input
         | Some m \<Rightarrow> Inr (X\<lparr>sy_link := (sy_link X)\<lparr>xl_connect_count := xl_connect_count (sy_link X) + 1\<rparr>,
             sy_agents := (sy_agents X)(rd \<mapsto> new_agent m)\<rparr>))) \<and>
    (\<forall>rd a pix. sy_agents X rd = Some a \<and> bit (ar_mask a) pix \<longrightarrow>
      (\<exists>n \<le> arrived (part (sy_link X) pix). ar_pos a ! pix = int (whole_size (FS pix) n) \<and>
        seen_of pix (ar_seen a) = soup_recv.visits (whole (FS pix) n))) \<and>
    (\<forall>rd a. sy_agents X rd = Some a \<and> ru_readers (xl_pub (sy_link X)) rd = None \<longrightarrow>
      (\<exists>X1 X2 a'. sys_do E (Sys_lock rd) X = Some (Inr X1) \<and> sys_do E (Sys_update rd) X1 = Some (Inr X2) \<and> sy_agents X2 rd = Some a' \<and>
        (\<forall>pix. bit (ar_mask a) pix \<longrightarrow> seen_of pix (ar_seen a') = soup_recv.visits (whole (FS pix) (arrived (part (sy_link X) pix))))))"
proof -
  have "link_inv E FS [] S \<and> settled E S \<and> started S" by (rule link_start_spec [OF assms(2,1,3-6)])
  then have inv: "sys_inv E FS X" using sys_reach_inv [OF assms(7)] sys_inv_started by blast
  show ?thesis
  proof (intro conjI allI impI)
    fix ev assume "sys_enabled E FS ev X \<and> (\<forall>rd aid. ev \<noteq> Sys_connect rd aid)"
    with sys_do_spec [OF inv, of ev] show "\<exists>X'. sys_do E ev X = Some (Inr X')" by blast
  next
    fix rd aid
    show "sys_do E (Sys_connect rd aid) X = Some
      (if length (xl_agents (sy_link X)) < xl_connect_count (sy_link X) then Inl Out_of_bounds
       else case map_of (xl_agents (sy_link X)) aid of
           None \<Rightarrow> Inl Invalid_input
         | Some m \<Rightarrow> Inr (X\<lparr>sy_link := (sy_link X)\<lparr>xl_connect_count := xl_connect_count (sy_link X) + 1\<rparr>,
             sy_agents := (sy_agents X)(rd \<mapsto> new_agent m)\<rparr>))"
      by (simp add: link_connect_def Let_def split: option.split)
  next
    fix rd a pix assume "sy_agents X rd = Some a \<and> bit (ar_mask a) pix"
    then show "\<exists>n \<le> arrived (part (sy_link X) pix). ar_pos a ! pix = int (whole_size (FS pix) n) \<and>
        seen_of pix (ar_seen a) = soup_recv.visits (whole (FS pix) n)"
      using inv by (auto simp: sys_inv_def agent_ok_def reached_def)
  qed (use sys_catch_up [OF inv] in blast)
qed

lemma demo_system:
  obtains S0 S X where "link_new demo_pool_opts demo_templates demo_pool = Some (Inr S0)"
    "link_start demo_cfg default_fixed_fields 4096 (\<lambda>pix. (0, 10000)) S0 = Some (Inr S)"
    "sys_reach demo_env demo_packets \<lparr>sy_link = S, sy_agents = Map.empty\<rparr> X" "sy_agents X 0 = Some (new_agent 1)"
    "arrived (part (sy_link X) 0) = 5" "ru_readers (xl_pub (sy_link X)) = Map.empty" "active (sy_link X) 0"
    "sent (part (sy_link X) 0) = [0, 1, 82]"
proof -
  obtain S0 S l where d: "link_new demo_pool_opts demo_templates demo_pool = Some (Inr S0)"
    "link_start demo_cfg default_fixed_fields 4096 (\<lambda>pix. (0, 10000)) S0 = Some (Inr S)"
    "xl_agents S = [(''a'', 1)]" "xl_active S = 1" "\<not> pool_full demo_pool_opts (ru_pool (xl_pub S))" "ru_readers (xl_pub S) = Map.empty"
    "xl_connect_count S = 0" "xl_queues S = [[]]" "link_create 4096 0 10000 4096 = Inr l" "part S 0 = idle_partition\<lparr>pn_link := Some l\<rparr>"
    by (rule demo_started) blast
  let ?X0 = "\<lparr>sy_link = S, sy_agents = Map.empty\<rparr>" and ?S1 = "S\<lparr>xl_connect_count := 1\<rparr>"
  let ?X1 = "\<lparr>sy_link = ?S1, sy_agents = [0 \<mapsto> new_agent 1]\<rparr>" and ?S2 = "deliver demo_net (S\<lparr>xl_connect_count := 1\<rparr>)"
  let ?X2 = "\<lparr>sy_link = ?S2, sy_agents = [0 \<mapsto> new_agent 1]\<rparr>"
  have "link_inv demo_env demo_packets [] S \<and> settled demo_env S \<and> started S"
    by (rule link_start_spec [OF _ _ d(2)]) (use d(1) demo_pool_inv demo_sizes(1,2) demo_packets_good in simp_all)
  then have i: "link_inv demo_env demo_packets [] ?S1" "settled demo_env ?S1" by (simp_all add: link_inv_def settled_def active_def)
  have "sys_do demo_env (Sys_connect 0 ''a'') ?X0 = Some (Inr ?X1)" using d(3,7) by (simp add: link_connect_def)
  then have r1: "sys_reach demo_env demo_packets ?X0 ?X1" by (rule sys_event [OF sys_start, rotated]) simp
  have "sys_do demo_env (Sys_net demo_net) ?X1 = Some (Inr ?X2)" by simp
  then have r2: "sys_reach demo_env demo_packets ?X0 ?X2" by (rule sys_event [OF r1, rotated]) simp
  have s1: "xl_active ?S1 = 1" "\<not> pool_full demo_pool_opts (ru_pool (xl_pub ?S1))" "xl_queues ?S1 = [[]]" "xl_connect_count ?S1 \<le> 1"
    "part ?S1 0 = idle_partition\<lparr>pn_link := Some l\<rparr>" using d by simp_all
  note rd = demo_ready [OF i(1) s1(1-4) d(9) s1(5)]
  note dl = deliver_inv [OF i, where f = demo_net]
  obtain S3 where s3: "link_step demo_env ?S2 = Some (Inr S3)" "link_inv demo_env demo_packets [] S3" "xl_active S3 = xl_active ?S2"
    "\<forall>pix. active ?S2 pix \<longrightarrow> stepped demo_env demo_packets ?S2 S3 pix" "ru_readers (xl_pub S3) = ru_readers (xl_pub ?S2)"
    by (rule link_step_spec [OF dl(1,2) rd(1)])
  have env: "demo_env\<lparr>le_recv_now := \<lambda>pix. 0, le_send_now := \<lambda>pix. 0, le_utc := 10000000000\<rparr> = demo_env" by (simp add: demo_env_def)
  have "sys_do demo_env (Sys_step (\<lambda>pix. 0) (\<lambda>pix. 0) 10000000000) ?X2 = Some (Inr (?X2\<lparr>sy_link := S3\<rparr>))" using s3(1) by (simp add: env)
  then have r3: "sys_reach demo_env demo_packets ?X0 (?X2\<lparr>sy_link := S3\<rparr>)"
    by (rule sys_event [OF r2, rotated]) (use rd(1) in \<open>simp add: env\<close>)
  have a1: "active ?S1 0" using d(4) by (simp add: active_def)
  have a2: "active ?S2 0" "active S3 0" using a1 s3(3) dl(4) by (simp_all add: active_def)
  have "arrived (part ?S2 0) = 0" using dl(5) [OF a1] link_create_empty [OF d(9)] by (simp add: d(10) arrived_def recv_tape_def)
  then have "tape_all (recv_tape (part ?S2 0)) = []" by (simp add: arrived_def tape_all_def)
  then have "tape_all (recv_tape (part S3 0)) = [0, 1, 72, 0, 3]" using s3(4) a2(1) rd(2) by (simp add: stepped_def)
  moreover have "tape_inv (recv_tape (part S3 0))" using link_invD(5) [OF s3(2) a2(2)] by (simp add: part_ok_def recv_ok_def)
  ultimately have "arrived (part S3 0) = 5" using length_tape_all [of "recv_tape (part S3 0)"] by (simp add: arrived_def)
  moreover have "ru_readers (xl_pub S3) = Map.empty" using s3(5) d(6) by (simp add: deliver_def)
  moreover have "sent (part S3 0) = [0, 1, 82]"
  proof -
    have p: "part ?S2 0 = (part ?S1 0)\<lparr>pn_sock := (demo_net 0)\<lparr>so_out := so_out (pn_sock (part ?S1 0))\<rparr>\<rparr>"
      using link_invD(4) [OF i(1) a1] by (simp add: deliver_def)
    have p0: "part ?S2 0 = idle_partition\<lparr>pn_link := Some l, pn_sock := demo_net 0\<rparr>"
      unfolding p by (simp add: d(10) demo_net_def idle_partition_def idle_socket_def)
    note e = link_create_empty [OF d(9)]
    have ts: "dl_ts_last_send l = 0" using d(9) by (auto simp: link_create_def bind_r_Inr_iff)
    have out: "step_out ?S2 = []" by (rule rd(3))
    have "sent (part ?S2 0) = []" using e unfolding p0 by (simp add: sent_def send_tape_def tape_rest_def tape_all_def demo_net_def)
    moreover have "heartbeat_out demo_env (part ?S2 0) = [0, 1, 82]"
      using e tape_posD(6) [of "dl_send l"] ts
      unfolding p0 by (simp add: heartbeat_out_def send_tape_def heartbeat_timeout_def demo_env_def heartbeat_packet_def net_write_rev eval_nat_numeral)
    ultimately show ?thesis using s3(4) a2(1) out by (simp add: stepped_def step_heartbeat_def)
  qed
  ultimately show ?thesis using a2(2) by (intro that [OF d(1,2) r3]) simp_all
qed

lemma agents_see_stream_witness:
  "\<exists>X X1 X2 a. sys_do demo_env (Sys_lock 0) X = Some (Inr X1) \<and> sys_do demo_env (Sys_update 0) X1 = Some (Inr X2) \<and>
     sy_agents X2 0 = Some a \<and> seen_of 0 (ar_seen a) = [Visit_heartbeat]"
proof -
  obtain S0 S X where d: "link_new demo_pool_opts demo_templates demo_pool = Some (Inr S0)"
    "link_start demo_cfg default_fixed_fields 4096 (\<lambda>pix. (0, 10000)) S0 = Some (Inr S)"
    "sys_reach demo_env demo_packets \<lparr>sy_link = S, sy_agents = Map.empty\<rparr> X" "sy_agents X 0 = Some (new_agent 1)"
    "arrived (part (sy_link X) 0) = 5" "ru_readers (xl_pub (sy_link X)) = Map.empty" by (rule demo_system)
  have "soup_recv.visits (whole (demo_packets 0) 5) = [Visit_heartbeat]"
    by (simp add: demo_packets_def soup_recv.visits_def recv_visit_def)
  moreover have "bit (ar_mask (new_agent 1)) 0" by (simp add: new_agent_def)
  ultimately show ?thesis
    using agents_see_stream [OF _ _ d(2) _ demo_sizes(2) demo_packets_good d(3)] d(1,4-6) demo_pool_inv
    unfolding demo_sizes(1) by (metis zero_less_numeral)
qed

text \<open>
  C33: everything a link hands over for sending, from the start on and whatever happens, is a sequence of
  well-formed packets: the exchange's reader takes each of them whole, login requests, order
  messages and heartbeats, and nothing is left between them.
\<close>

theorem link_output_wellformed:
  assumes "pool_inv (le_pool E) p" "link_new (le_pool E) T p = Some (Inr S0)" "link_start cfg ff page_size bases S0 = Some (Inr S)"
    "0 < page_size" "lc_capacity cfg + page_size \<le> 2 ^ 31" "\<And>pix. soup_recv.good (FS pix)"
    "length (lc_account cfg) \<le> 10" "\<forall>lp \<in> set (lc_credentials cfg). length (fst lp) \<le> 6 \<and> length (snd lp) \<le> 10"
    "sys_reach E FS \<lparr>sy_link = S, sy_agents = Map.empty\<rparr> X" "active (sy_link X) pix"
  shows "\<exists>gs. soup_send.good gs \<and> sent (part (sy_link X) pix) = soup_send.wire gs \<and>
    consume_loop consume_send (sent (part (sy_link X) pix)) (int (length (sent (part (sy_link X) pix)))) 0 [] =
      Some (0, int (length (sent (part (sy_link X) pix))), soup_send.visits gs)"
proof -
  have "link_inv E FS [] S \<and> settled E S \<and> started S" by (rule link_start_spec [OF assms(2,1,3-6)])
  then have inv: "sys_inv E FS \<lparr>sy_link = S, sy_agents = Map.empty\<rparr>" using sys_inv_started by blast
  have "output_ok ff (lc_account cfg) S" by (rule link_start_output [OF assms(2-5,7,8)])
  then have "output_ok ff (lc_account cfg) (sy_link X)" using sys_reach_output [OF assms(9) inv _ assms(7)] by simp
  then obtain gs where gs: "soup_send.good gs" "sent (part (sy_link X) pix) = soup_send.wire gs"
    using assms(10) by (auto simp: output_ok_def packets_def)
  have "consume_loop consume_send (soup_send.wire gs @ take 0 (frame 82 [])) (int (length (soup_send.wire gs) + 0)) (int (length ([] :: byte list))) [] =
      Some (int 0, int (length ([] :: byte list) + length (soup_send.wire gs)), [] @ soup_send.visits gs)"
    using soup_send.loop_exact [OF gs(1), of "[]" 0 "[]" 82 "[]"] by (simp add: frame_ok_def)
  then show ?thesis using gs by auto
qed

lemma link_output_wellformed_witness:
  "\<exists>(X :: link_system) gs. active (sy_link X) 0 \<and> sent (part (sy_link X) 0) = [0, 1, 82] \<and> soup_send.good gs \<and> sent (part (sy_link X) 0) = soup_send.wire gs"
proof -
  obtain S0 S X where d: "link_new demo_pool_opts demo_templates demo_pool = Some (Inr S0)"
    "link_start demo_cfg default_fixed_fields 4096 (\<lambda>pix. (0, 10000)) S0 = Some (Inr S)"
    "sys_reach demo_env demo_packets \<lparr>sy_link = S, sy_agents = Map.empty\<rparr> X" "active (sy_link X) 0"
    "sent (part (sy_link X) 0) = [0, 1, 82]" by (rule demo_system)
  have "pool_inv (le_pool demo_env) demo_pool" "link_new (le_pool demo_env) demo_templates demo_pool = Some (Inr S0)"
    using d(1) demo_pool_inv by (simp_all add: demo_sizes(1))
  from link_output_wellformed [OF this d(2) zero_less_numeral demo_sizes(2) demo_packets_good demo_sizes(4,5) d(3,4)] d(4,5) show ?thesis by metis
qed

text \<open>
  C34: a descriptor an agent holds in its read section stays as it was loaded until the section ends, however
  often the link publishes, reclaims and reuses descriptors meanwhile; the descriptor being
  written is never the published one nor held by any reader; and reclaiming always succeeds.
\<close>

theorem rcu_readers_safe:
  assumes "pool_inv Q p" "rcu_initialize W Q p = Some (Inr U0)" "rcu_reach W Q U0 U"
  shows "(\<forall>rd r data. ru_readers U rd = Some (r, data) \<longrightarrow>
      (\<exists>pd. pool_get Q False r (ru_pool U) = Some (Inr pd) \<and> pd_data pd = data) \<and> r \<noteq> ru_current U) \<and>
    ru_published U \<noteq> ru_current U \<and> (\<exists>bounds U'. rcu_reclaim W Q U = Some (Inr (bounds, U')))"
proof -
  obtain stack where u: "rcu_inv W Q U stack" using rcu_reach_inv [OF assms(3) rcu_initialize_inv(1) [OF assms(1,2)]] by blast
  note i = rcu_invD [OF u]
  have "(\<exists>pd. pool_get Q False r (ru_pool U) = Some (Inr pd) \<and> pd_data pd = data) \<and> r \<noteq> ru_current U"
    if h: "ru_readers U rd = Some (r, data)" for rd r data
  proof -
    have live: "r \<in> set (rcu_live U [])" "r \<noteq> ru_current U" using held_live [OF u h] by simp_all
    then have "r \<in> set (rcu_live U stack)" by (auto simp: rcu_live_def)
    from i(4) [OF this] i(5) [OF h] obtain pd where "objs Q (ru_pool U) r = Some pd" "pd_data pd = data" by auto
    then show ?thesis using pool_get_spec [OF i(1)] live(2) by blast
  qed
  moreover have "ru_published U \<noteq> ru_current U" using i(3) by (simp add: rcu_live_def)
  moreover have "\<exists>bounds U'. rcu_reclaim W Q U = Some (Inr (bounds, U'))" using rcu_reclaim_spec [OF u] by metis
  ultimately show ?thesis by blast
qed

lemma rcu_readers_safe_witness:
  "\<exists>(U :: rcu_pub) pd. ru_readers U 7 = Some (ru_published U, (clear_data part_count)) \<and> pool_get demo_pool_opts False (ru_published U) (ru_pool U) = Some (Inr pd) \<and>
    pd_data pd = (clear_data part_count)"
proof -
  obtain U0 where U0: "rcu_initialize part_count demo_pool_opts demo_pool = Some (Inr U0)" "ru_readers U0 = Map.empty" by (rule demo_initialized)
  note v = rcu_initialize_inv [OF demo_pool_inv U0(1)]
  let ?U = "U0\<lparr>ru_readers := (ru_readers U0)(7 \<mapsto> (ru_published U0, (clear_data part_count)))\<rparr>"
  have "rcu_do part_count demo_pool_opts (Lock 7) U0 = Some (Inr ?U)" using rcu_lock_spec(1) [OF v(1), of 7] v(2) by simp
  then have "rcu_reach part_count demo_pool_opts U0 ?U" by (rule reach_event [OF reach_start, rotated]) (simp add: U0(2))
  from rcu_readers_safe [OF demo_pool_inv U0(1) this] have "\<forall>r data. ru_readers ?U 7 = Some (r, data) \<longrightarrow>
      (\<exists>pd. pool_get demo_pool_opts False r (ru_pool ?U) = Some (Inr pd) \<and> pd_data pd = data)" by blast
  then obtain pd where "pool_get demo_pool_opts False (ru_published ?U) (ru_pool ?U) = Some (Inr pd)" "pd_data pd = (clear_data part_count)" by auto
  then show ?thesis by (intro exI [of _ ?U] exI [of _ pd]) simp
qed

text \<open>What the phases of a step leave alone when they return.\<close>

lemma with_link_Inr:
  assumes "with_link pix f S = Some (Inr x)"
  obtains l where "f (part S pix) l = Some (Inr x)"
  using assms by (auto simp: with_link_def split: if_splits option.splits)

lemma recv_partition_keeps:
  assumes "recv_partition E pix s = Some (Inr s')"
  shows "(xl_queues (fst s'), xl_connect_count (fst s')) = (xl_queues (fst s), xl_connect_count (fst s))"
proof -
  obtain S u where s: "s = (S, u)" by (cases s)
  show ?thesis using assms unfolding s recv_partition_def prod.case
    by (rule with_link_Inr) (auto simp: bind_ro_def Let_def set_partition_def lift_o_def split: option.splits sum.splits if_splits)
qed

lemma recv_phase_keeps:
  assumes "recv_phase E S = Some (Inr S')"
  shows "xl_queues S' = xl_queues S" "xl_connect_count S' = xl_connect_count S"
proof -
  obtain S1 u where r: "each_pix (recv_partition E) (mask_pixes (xl_active S)) (S, False) = Some (Inr (S1, u))"
    "xl_queues S' = xl_queues S1" "xl_connect_count S' = xl_connect_count S1"
    using assms by (auto simp: recv_phase_def bind_ro_def split: option.splits sum.splits if_splits)
  have "(xl_queues S1, xl_connect_count S1) = (xl_queues S, xl_connect_count S)"
    using each_pix_keeps [where P = "\<lambda>s. (xl_queues (fst s), xl_connect_count (fst s))", OF recv_partition_keeps r(1)] by simp
  then show "xl_queues S' = xl_queues S" "xl_connect_count S' = xl_connect_count S" using r by simp_all
qed

lemma send_frame_keeps:
  assumes "send_frame E blank bs pix S = Some (Inr S')"
  shows "xl_queues S' = xl_queues S"
  using assms unfolding send_frame_def
  by (rule with_link_Inr) (auto simp: bind_ro_def set_partition_def split: option.splits sum.splits)

lemma emit_login_keeps:
  assumes "emit_login E S = Some (Inr S')"
  shows "xl_queues S' = xl_queues S" "xl_credentials S' = None"
proof -
  obtain S1 where s: "each_pix (emit_login_to E) (mask_pixes (xl_active S)) S = Some (Inr S1)" "S' = S1\<lparr>xl_credentials := None\<rparr>"
    using assms by (auto simp: emit_login_def bind_ro_def split: option.splits sum.splits)
  have "xl_queues t = xl_queues u" if "emit_login_to E pix u = Some (Inr t)" for pix t u
    using that by (auto simp: emit_login_to_def bind_ro_def split: option.splits sum.splits if_splits dest: send_frame_keeps)
  from each_pix_keeps [where P = xl_queues, OF this s(1)] s(2) show "xl_queues S' = xl_queues S" "xl_credentials S' = None" by simp_all
qed

lemma serve_queue_keeps:
  assumes "serve_queue E agents i S = Some (Inr S')"
  shows "length (xl_queues S') = length (xl_queues S) \<and> i < length (xl_queues S)"
  using assms
  by (auto simp: serve_queue_def emit_order_def Let_def bind_ro_def split: list.splits option.splits sum.splits if_splits
      dest!: send_frame_keeps emit_login_keeps(1))

lemma serve_each_bound:
  "each_pix (serve_queue E agents) is S = Some (Inr S') \<Longrightarrow> i \<in> set is \<Longrightarrow> i < length (xl_queues S)"
proof (induction "is" arbitrary: S)
  case (Cons j "is")
  then obtain T where "serve_queue E agents j S = Some (Inr T)" "each_pix (serve_queue E agents) is T = Some (Inr S')"
    by (auto simp: bind_ro_def split: option.splits sum.splits)
  with Cons.IH [of T] Cons.prems(2) serve_queue_keeps show ?case by fastforce
qed simp

text \<open>
  C35: two ways to break a link. When as many agents have connected as were configured, one more
  is still let in, is given a queue that does not exist, and no step succeeds from then
  on. And once the login requests were sent the credentials are gone: when another agent
  connects later and asks to log in, the step that serves it reads them through a null pointer.
\<close>

theorem link_misuse:
  assumes "xl_connect_count S = length (xl_agents S)" "length (xl_queues S) = length (xl_agents S)" "map_of (xl_agents S) aid = Some m"
  shows "fst (link_connect aid S) = Inr (m, of_nat (10 + length (xl_queues S)), length (xl_queues S)) \<and>
    (\<forall>E S'. link_step E (snd (link_connect aid S)) \<noteq> Some (Inr S')) \<and>
    (\<forall>E E' S1 S2 S3 agents i rest. emit_login E S1 = Some (Inr S2) \<and> xl_credentials S3 = xl_credentials S2 \<and> xl_active S3 \<noteq> 0 \<and>
      i < length (xl_queues S3) \<and> xl_queues S3 ! i = Start_login # rest \<and> xl_login_count S3 + 1 = agents \<longrightarrow>
      serve_queue E' agents i S3 = None)"
proof (intro conjI allI impI notI)
  let ?n = "length (xl_queues S)"
  have c: "link_connect aid S = (Inr (m, of_nat (10 + ?n), ?n), S\<lparr>xl_connect_count := ?n + 1\<rparr>)"
    using assms by (simp add: link_connect_def Let_def)
  then show "fst (link_connect aid S) = Inr (m, of_nat (10 + ?n), ?n)" by simp
  fix E S' assume "link_step E (snd (link_connect aid S)) = Some (Inr S')"
  then obtain S1 U S2 where s: "recv_phase E (S\<lparr>xl_connect_count := ?n + 1\<rparr>) = Some (Inr S1)" "request_phase E (S1\<lparr>xl_pub := U\<rparr>) = Some (Inr S2)"
    by (auto simp: c link_step_def Let_def bind_ro_def split: option.splits sum.splits)
  note k = recv_phase_keeps [OF s(1)]
  have "each_pix (serve_queue E (?n + 1)) [0..<?n + 1] (S1\<lparr>xl_pub := U\<rparr>) = Some (Inr S2)"
    using s(2) k by (simp add: request_phase_def)
  from serve_each_bound [OF this, of ?n] show False using k by simp
next
  fix E E' and S1 S2 S3 :: execution_link and agents i rest
  assume a: "emit_login E S1 = Some (Inr S2) \<and> xl_credentials S3 = xl_credentials S2 \<and> xl_active S3 \<noteq> 0 \<and>
      i < length (xl_queues S3) \<and> xl_queues S3 ! i = Start_login # rest \<and> xl_login_count S3 + 1 = agents"
  then have "xl_credentials S3 = None" using emit_login_keeps(2) by metis
  moreover obtain p ps where "mask_pixes (xl_active S3) = p # ps" using a by (auto simp: mask_pixes.simps [of "xl_active S3"])
  ultimately have "emit_login E' (S3\<lparr>xl_login_count := xl_login_count S3 + 1\<rparr>) = None"
    by (simp add: emit_login_def emit_login_to_def)
  then show "serve_queue E' agents i S3 = None" using a by (simp add: serve_queue_def Let_def)
qed

lemma link_misuse_witness:
  "\<exists>S. fst (link_connect ''a'' S) = Inr (1, 11, 1) \<and> length (xl_queues S) = 1 \<and>
    (\<forall>E S'. link_step E (snd (link_connect ''a'' S)) \<noteq> Some (Inr S'))"
proof -
  obtain S :: execution_link where d: "xl_agents S = [(''a'', 1)]" "xl_queues S = [[]]" by (rule demo_started) blast
  let ?S = "S\<lparr>xl_connect_count := 1\<rparr>"
  show ?thesis using link_misuse [of ?S "''a''" 1] d by (intro exI [of _ ?S]) simp
qed

end
