(* ===== verification/Ouch_In.thy ===== *)
theory Ouch_In
  imports Ouch_Wire
begin

text \<open>
  The OUCH messages of the exchange, the second half of
  \<^verbatim>\<open>vr/market/sources/asx/ouch/messages.h\<close>, and the dispatch of \<^verbatim>\<open>OUCH_visitor.h\<close> on the type in
  their header: what the listener reads of a message is taken from its bytes.
\<close>

section \<open>Layouts\<close>

definition OUCH_hdr :: "(ouch_field \<times> nat) list" where
  "OUCH_hdr = [(F_type, 1), (F_ts, 8)]"

definition order_accepted_layout :: "(ouch_field \<times> nat) list" where
  "order_accepted_layout = OUCH_hdr @ [(F_otk, 14), (F_iid, 4), (F_side, 1), (F_oid, 8), (F_qty, 8), (F_price, 4), (F_TIF, 1),
     (F_open_close, 1), (F_account, 10), (F_state, 1), (F_customer_info, 15), (F_exchange_info, 32), (F_participant, 1),
     (F_crossing_key, 4), (F_reg_data, struct_size reg_data_overlay), (F_order_type, 1), (F_short_sell_qty, 8), (F_MAQ, 8)]"

definition order_rejected_layout :: "(ouch_field \<times> nat) list" where
  "order_rejected_layout = OUCH_hdr @ [(F_otk, 14), (F_reject_code, 4)]"

definition order_replaced_layout :: "(ouch_field \<times> nat) list" where
  "order_replaced_layout = OUCH_hdr @ [(F_new_otk, 14), (F_otk, 14), (F_iid, 4), (F_side, 1), (F_oid, 8), (F_qty, 8), (F_price, 4),
     (F_TIF, 1), (F_open_close, 1), (F_account, 10), (F_state, 1), (F_customer_info, 15), (F_exchange_info, 32),
     (F_participant, 1), (F_crossing_key, 4), (F_reg_data, struct_size reg_data_overlay), (F_order_type, 1),
     (F_short_sell_qty, 8), (F_MAQ, 8)]"

definition order_canceled_layout :: "(ouch_field \<times> nat) list" where
  "order_canceled_layout = OUCH_hdr @ [(F_otk, 14), (F_iid, 4), (F_side, 1), (F_oid, 8), (F_cancel_code, 1)]"

text \<open>\<open>match_ID_t\<close> is a 64-bit and a 32-bit number.\<close>

definition order_execution_layout :: "(ouch_field \<times> nat) list" where
  "order_execution_layout = OUCH_hdr @ [(F_otk, 14), (F_iid, 4), (F_qty, 8), (F_price, 4), (F_match, 12), (F_deal_source, 2),
     (F_match_attributes, 1)]"

text \<open>\<open>recv_message_type\<close>\<close>

definition MSG_ACCEPTED :: byte where "MSG_ACCEPTED = byte_of_char CHR ''A''"
definition MSG_REJECTED :: byte where "MSG_REJECTED = byte_of_char CHR ''J''"
definition MSG_REPLACED :: byte where "MSG_REPLACED = byte_of_char CHR ''U''"
definition MSG_CANCELED :: byte where "MSG_CANCELED = byte_of_char CHR ''C''"
definition MSG_EXECUTION :: byte where "MSG_EXECUTION = byte_of_char CHR ''E''"

lemmas msg_types = MSG_ACCEPTED_def MSG_REJECTED_def MSG_REPLACED_def MSG_CANCELED_def MSG_EXECUTION_def

section \<open>Reading\<close>

text \<open>\<open>otk_of\<close> takes the first eight bytes of the field for a token, whatever they are.\<close>

definition otk_of :: "(ouch_field \<times> nat) list \<Rightarrow> ouch_field \<Rightarrow> byte list \<Rightarrow> order_token" where
  "otk_of l f msg = word_of_int (from_le (take 8 (get_field l f msg)))"

definition read_qty :: "(ouch_field \<times> nat) list \<Rightarrow> ouch_field \<Rightarrow> byte list \<Rightarrow> int" where
  "read_qty l f msg = net_read 8 (get_field l f msg)"

definition read_int32 :: "(ouch_field \<times> nat) list \<Rightarrow> ouch_field \<Rightarrow> byte list \<Rightarrow> int" where
  "read_int32 l f msg = net_read 4 (get_field l f msg)"

definition read_uint8 :: "(ouch_field \<times> nat) list \<Rightarrow> ouch_field \<Rightarrow> byte list \<Rightarrow> int" where
  "read_uint8 l f msg = uint (hd (get_field l f msg))"

definition read_int8 :: "(ouch_field \<times> nat) list \<Rightarrow> ouch_field \<Rightarrow> byte list \<Rightarrow> int" where
  "read_int8 l f msg = sint (hd (get_field l f msg))"

text \<open>
  The cases of the switch. The state of an acceptance is an enumeration over unsigned bytes,
  that of a replacement a signed byte.
\<close>

definition read_accepted :: "byte list \<Rightarrow> ouch_msg" where
  "read_accepted msg = (let l = order_accepted_layout in
     Order_accepted \<lparr>ou_otk = otk_of l F_otk msg, ou_oid = read_qty l F_oid msg, ou_qty = read_qty l F_qty msg,
       ou_price = read_int32 l F_price msg, ou_state = read_uint8 l F_state msg\<rparr>)"

definition read_rejected :: "byte list \<Rightarrow> ouch_msg" where
  "read_rejected msg = (let l = order_rejected_layout in
     Order_rejected \<lparr>uj_otk = otk_of l F_otk msg, uj_reject_code = read_int32 l F_reject_code msg\<rparr>)"

definition read_replaced :: "byte list \<Rightarrow> ouch_msg" where
  "read_replaced msg = (let l = order_replaced_layout in
     Order_replaced \<lparr>ou_otk = otk_of l F_otk msg, ou_oid = read_qty l F_oid msg, ou_qty = read_qty l F_qty msg,
       ou_price = read_int32 l F_price msg, ou_state = read_int8 l F_state msg\<rparr>)"

definition read_canceled :: "byte list \<Rightarrow> ouch_msg" where
  "read_canceled msg = (let l = order_canceled_layout in
     Order_canceled \<lparr>uc_oid = read_qty l F_oid msg, uc_cancel_code = read_uint8 l F_cancel_code msg\<rparr>)"

definition read_execution :: "byte list \<Rightarrow> ouch_msg" where
  "read_execution msg = (let l = order_execution_layout in
     Order_execution \<lparr>ue_otk = otk_of l F_otk msg, ue_qty = read_qty l F_qty msg, ue_price = read_int32 l F_price msg\<rparr>)"

text \<open>
  The visitor reads a message in place, so one that is shorter than its struct would be read
  beyond its end: no behaviour, as for a type the switch does not know.
\<close>

definition read_message :: "(ouch_field \<times> nat) list \<Rightarrow> (byte list \<Rightarrow> ouch_msg) \<Rightarrow> byte list \<Rightarrow> ouch_msg option" where
  "read_message l read msg = (if length msg < struct_size l then None else Some (read msg))"

definition decode_ouch :: "byte list \<Rightarrow> ouch_msg option" where
  "decode_ouch msg =
     (if length msg < struct_size OUCH_hdr then None
      else let msg_type = hd (get_field OUCH_hdr F_type msg) in
        if msg_type = MSG_ACCEPTED then read_message order_accepted_layout read_accepted msg
        else if msg_type = MSG_REJECTED then read_message order_rejected_layout read_rejected msg
        else if msg_type = MSG_REPLACED then read_message order_replaced_layout read_replaced msg
        else if msg_type = MSG_CANCELED then read_message order_canceled_layout read_canceled msg
        else if msg_type = MSG_EXECUTION then read_message order_execution_layout read_execution msg
        else None)"

section \<open>Messages field by field\<close>

lemma in_layout_sizes:
  "struct_size OUCH_hdr = 9" "struct_size order_accepted_layout = 174" "struct_size order_rejected_layout = 27"
  "struct_size order_replaced_layout = 188" "struct_size order_canceled_layout = 37" "struct_size order_execution_layout = 54"
  by (simp_all add: struct_size_def OUCH_hdr_def order_accepted_layout_def order_rejected_layout_def order_replaced_layout_def
      order_canceled_layout_def order_execution_layout_def reg_data_overlay_def)

text \<open>Every message starts with the header.\<close>

lemma field_at_app: "field_at (l @ l') f = (case field_at l f of Some p \<Rightarrow> Some p
    | None \<Rightarrow> map_option (\<lambda>(ofs, n). (struct_size l + ofs, n)) (field_at l' f))"
  by (induction l) (auto simp: struct_size_def option.map_comp comp_def case_prod_unfold add.assoc option.map_ident split: option.split)

lemma header_type:
  assumes "l = OUCH_hdr @ l'"
  shows "field_at l F_type = Some (0, 1)" "get_field OUCH_hdr F_type msg = get_field l F_type msg" "struct_size l = 9 + struct_size l'"
  by (simp_all add: assms get_field_def field_at_app OUCH_hdr_def struct_size_def)

lemma in_layouts:
  "\<exists>l'. order_accepted_layout = OUCH_hdr @ l'" "\<exists>l'. order_rejected_layout = OUCH_hdr @ l'" "\<exists>l'. order_replaced_layout = OUCH_hdr @ l'"
  "\<exists>l'. order_canceled_layout = OUCH_hdr @ l'" "\<exists>l'. order_execution_layout = OUCH_hdr @ l'"
  by (simp_all add: order_accepted_layout_def order_rejected_layout_def order_replaced_layout_def order_canceled_layout_def
      order_execution_layout_def)

text \<open>What the switch does with a message of its own length and type.\<close>

lemma decode_message:
  assumes "length msg = struct_size l" "get_field l F_type msg = [ty]"
    and "(l, ty, read) \<in> {(order_accepted_layout, MSG_ACCEPTED, read_accepted), (order_rejected_layout, MSG_REJECTED, read_rejected),
      (order_replaced_layout, MSG_REPLACED, read_replaced), (order_canceled_layout, MSG_CANCELED, read_canceled),
      (order_execution_layout, MSG_EXECUTION, read_execution)}"
  shows "decode_ouch msg = Some (read msg)"
proof -
  obtain l' where l: "l = OUCH_hdr @ l'" using assms(3) in_layouts by auto
  have "get_field OUCH_hdr F_type msg = [ty]" "struct_size OUCH_hdr \<le> length msg"
    using header_type [OF l] assms(1,2) by (simp_all add: in_layout_sizes(1))
  then show ?thesis using assms(1,3) by (auto simp: decode_ouch_def read_message_def msg_types byte_of_char_def)
qed

text \<open>A token the exchange sends back: the characters it was sent, padded.\<close>

definition full_token :: "order_token \<Rightarrow> bool" where
  "full_token otk \<longleftrightarrow> 0 \<notin> set (le_bytes 8 (uint otk))"

lemma full_token_chars:
  assumes "full_token otk"
  shows "otk_chars otk = le_bytes 8 (uint otk)"
proof -
  have "takeWhile (\<lambda>b. b \<noteq> 0) (le_bytes 8 (uint otk)) = le_bytes 8 (uint otk)"
    using assms unfolding full_token_def takeWhile_eq_all_conv by metis
  then show ?thesis unfolding otk_chars_def ls_zero_index_def Let_def by (simp only: take_all length_le_bytes order.refl)
qed

lemma otk_of_padded:
  assumes "get_field l f msg = padded 14 (otk_chars otk)" "full_token otk"
  shows "otk_of l f msg = otk"
proof -
  have "take 8 (padded 14 (otk_chars otk)) = le_bytes 8 (uint otk)" by (simp add: padded_def full_token_chars [OF assms(2)])
  moreover have "uint otk mod 2 ^ 64 = uint otk" using uint_lt2p [of otk] by simp
  ultimately show ?thesis by (simp add: otk_of_def assms(1) from_le_le_bytes)
qed

end
