(* ===== verification/Manager_Feed.thy ===== *)
theory Manager_Feed
  imports Manager_Sim Link_System Ouch_In
begin

text \<open>
  The execution manager as a reader of the execution link: the visits of
  \<^verbatim>\<open>vr/market/sources/asx/ouch/Soup_frame_.h\<close>, \<^verbatim>\<open>OUCH_visitor.h\<close> and
  \<^verbatim>\<open>rt/agents/asx/execution_manager.h\<close> that its \<open>update\<close> makes while it walks over the new
  packets, and what they do to what the agent observes.
\<close>

section \<open>Visits\<close>

text \<open>
  The manager with the state of its base class \<open>seqnum_state\<close>: an expected number for each of
  the exchange's \<open>partition_count\<close> partitions, of which the link serves \<open>part_count\<close>. A number only counts packets
  received since the start, so its 64 bits are not a bound here.
\<close>

record ex_agent =
  xa_manager :: ex_manager
  xa_seqnums :: "int list"

definition chars :: "byte list \<Rightarrow> string" where
  "chars bs = map (\<lambda>b. char_of (unat b)) bs"

text \<open>\<open>_internal_message_visit\<close>, then the visit of the execution listener.\<close>

definition internal_message_visit :: "ex_env \<Rightarrow> byte list \<Rightarrow> ex_manager \<Rightarrow> ex_manager result option" where
  "internal_message_visit E data M =
     (case decode_ouch data of None \<Rightarrow> None
      | Some msg \<Rightarrow> bind_ro (visit_ouch E msg (xm_book M)) (\<lambda>b. Some (Inr (M\<lparr>xm_book := b\<rparr>))))"

definition visit_SoupTCP_payload :: "ex_env \<Rightarrow> nat \<Rightarrow> byte list \<Rightarrow> ex_agent \<Rightarrow> ex_agent result option" where
  "visit_SoupTCP_payload E pix msg A =
     (if pix < length (xa_seqnums A) then
        let A = A\<lparr>xa_seqnums := (xa_seqnums A)[pix := xa_seqnums A ! pix + 1]\<rparr> in
        bind_ro (internal_message_visit E msg (xa_manager A)) (\<lambda>M. Some (Inr (A\<lparr>xa_manager := M\<rparr>)))
      else None)"

definition visit_SoupTCP_login_accepted :: "nat \<Rightarrow> byte list \<Rightarrow> ex_agent \<Rightarrow> ex_agent result option" where
  "visit_SoupTCP_login_accepted pix msg A =
     (if length msg < struct_size SoupTCP_login_accepted \<or> length (xm_sessions (xa_manager A)) \<le> pix then None
      else
        let session = chars (get_field SoupTCP_login_accepted A_session msg);
            seqnum = chars (get_field SoupTCP_login_accepted A_seqnum msg)
        in bind_ro (visit_login_accepted pix session seqnum (xa_manager A)) (\<lambda>M. Some (Inr (A\<lparr>xa_manager := M\<rparr>))))"

text \<open>A visit with its context: partition and local time. Login requests are never received.\<close>

definition manager_visit :: "ex_env \<Rightarrow> agent_visit \<Rightarrow> ex_agent \<Rightarrow> ex_agent result option" where
  "manager_visit E v A =
     (case v of (pix, ts_local, packet) \<Rightarrow>
        (case packet of
           Visit_payload msg \<Rightarrow> visit_SoupTCP_payload E pix msg A
         | Visit_login_accepted msg \<Rightarrow> visit_SoupTCP_login_accepted pix msg A
         | Visit_login_rejected msg \<Rightarrow> bind_ro (Some (visit_login_rejected (xa_manager A))) (\<lambda>M. Some (Inr (A\<lparr>xa_manager := M\<rparr>)))
         | Visit_login_request msg \<Rightarrow> None
         | _ \<Rightarrow> Some (Inr A)))"

section \<open>Updating\<close>

text \<open>The walk over the packets of a partition, each visited as it is consumed.\<close>

partial_function (option) manage_loop ::
  "(agent_visit \<Rightarrow> 'a \<Rightarrow> 'a result option) \<Rightarrow> nat \<Rightarrow> int \<Rightarrow> byte list \<Rightarrow> int \<Rightarrow> int \<Rightarrow> 'a \<Rightarrow> (int \<times> int \<times> 'a) result option" where
  "manage_loop visit pix ts data available consumed A =
     (case consume_recv (drop (nat consumed) data) available of
        None \<Rightarrow> None
      | Some (rrc, v) \<Rightarrow>
          (case (case v of None \<Rightarrow> Some (Inr A) | Some w \<Rightarrow> visit (pix, ts, w) A) of
             None \<Rightarrow> None
           | Some (Inl e) \<Rightarrow> Some (Inl e)
           | Some (Inr A) \<Rightarrow>
               if rrc < 0 then Some (Inr (available, consumed, A))
               else if available - rrc \<ge> hdr_len then manage_loop visit pix ts data (available - rrc) (consumed + rrc) A
               else Some (Inr (available - rrc, consumed + rrc, A))))"

definition manage_partition ::
  "(agent_visit \<Rightarrow> 'a \<Rightarrow> 'a result option) \<Rightarrow> link_env \<Rightarrow> execution_link \<Rightarrow> recv_position list \<Rightarrow> nat \<Rightarrow> int list \<times> 'a \<Rightarrow>
    (int list \<times> 'a) result option" where
  "manage_partition visit E S pd pix s =
     (case s of (ctxs, A) \<Rightarrow>
        if pix < length pd \<and> pix < length ctxs then
          let rcvd = pd ! pix; p_pos = ctxs ! pix; available = narrow 32 (rp_pos rcvd - p_pos) in
          if available > 0 then
            let data = rp_end rcvd - available in
            with_link pix (\<lambda>P l.
              bind_ro (lift_o (b_read (tape_ops (le_check E)) data (nat available) (dl_recv l))) (\<lambda>bytes.
              bind_ro (manage_loop visit pix (rp_ts rcvd) bytes available 0 A) (\<lambda>(available, consumed, A).
                Some (Inr (ctxs[pix := p_pos + consumed], A))))) S
          else Some (Inr (ctxs, A))
        else None)"

definition manage_update ::
  "(agent_visit \<Rightarrow> 'a \<Rightarrow> 'a result option) \<Rightarrow> link_env \<Rightarrow> execution_link \<Rightarrow> recv_position list \<Rightarrow> 32 word \<Rightarrow> int list \<times> 'a \<Rightarrow>
    (int list \<times> 'a) result option" where
  "manage_update visit E S pd partition_mask s = each_pix (manage_partition visit E S pd) (mask_pixes partition_mask) s"

text \<open>\<open>update\<close>, in the read section of the agent.\<close>

definition manager_update :: "link_env \<Rightarrow> ex_env \<Rightarrow> nat \<Rightarrow> link_system \<Rightarrow> ex_agent \<Rightarrow> (int list \<times> ex_agent) result option" where
  "manager_update E XE rd X A =
     (case (ru_readers (xl_pub (sy_link X)) rd, sy_agents X rd) of
        (Some (r, ghost), Some a) \<Rightarrow>
          bind_ro (pool_get (le_pool E) False r (ru_pool (xl_pub (sy_link X)))) (\<lambda>pd.
            manage_update (manager_visit XE) E (sy_link X) (pd_data pd) (ar_mask a) (ar_pos a, A))
      | _ \<Rightarrow> None)"

section \<open>Visiting as the packets are consumed\<close>

text \<open>What is recorded of an update is what is visited, in that order.\<close>

lemma manage_loop_visits:
  assumes "update_loop consume_recv data available consumed visits = Some y"
  shows "\<exists>new. snd (snd y) = visits @ new \<and> (\<forall>A. manage_loop visit pix ts data available consumed A =
    bind_ro (run_steps visit (map (\<lambda>v. (pix, ts, v)) new) A) (\<lambda>A'. Some (Inr (fst y, fst (snd y), A'))))"
proof -
  have "c = consume_recv \<longrightarrow> (\<exists>new. snd (snd y) = visits @ new \<and> (\<forall>A. manage_loop visit pix ts data available consumed A =
      bind_ro (run_steps visit (map (\<lambda>v. (pix, ts, v)) new) A) (\<lambda>A'. Some (Inr (fst y, fst (snd y), A')))))"
    if "update_loop c data available consumed visits = Some y" for c
    using that
  proof (rule update_loop.raw_induct [rotated])
    fix loop :: "(byte list \<Rightarrow> int \<Rightarrow> (int \<times> soup_visit option) option) \<Rightarrow> byte list \<Rightarrow> int \<Rightarrow> int \<Rightarrow> soup_visit list \<Rightarrow>
      (int \<times> int \<times> soup_visit list) option" and c data available consumed visits y
    assume IH: "\<And>c data available consumed visits y. loop c data available consumed visits = Some y \<Longrightarrow>
        c = consume_recv \<longrightarrow> (\<exists>new. snd (snd y) = visits @ new \<and> (\<forall>A. manage_loop visit pix ts data available consumed A =
          bind_ro (run_steps visit (map (\<lambda>v. (pix, ts, v)) new) A) (\<lambda>A'. Some (Inr (fst y, fst (snd y), A')))))"
      and eq: "(case c (drop (nat consumed) data) available of
        None \<Rightarrow> None
      | Some (rrc, v) \<Rightarrow>
          if rrc < 0 then Some (available, consumed, visits @ (case v of None \<Rightarrow> [] | Some w \<Rightarrow> [w]))
          else
            let available = available - rrc; consumed = consumed + rrc; visits = visits @ (case v of None \<Rightarrow> [] | Some w \<Rightarrow> [w]) in
            if available \<ge> hdr_len then loop c data available consumed visits
            else Some (available, consumed, visits)) = Some y"
    show "c = consume_recv \<longrightarrow> (\<exists>new. snd (snd y) = visits @ new \<and> (\<forall>A. manage_loop visit pix ts data available consumed A =
        bind_ro (run_steps visit (map (\<lambda>v. (pix, ts, v)) new) A) (\<lambda>A'. Some (Inr (fst y, fst (snd y), A')))))"
    proof
      assume c: "c = consume_recv"
      obtain rrc v where cv: "consume_recv (drop (nat consumed) data) available = Some (rrc, v)" using eq c by (auto split: option.splits)
      let ?here = "case v of None \<Rightarrow> [] | Some w \<Rightarrow> [w]"
      have here: "(case v of None \<Rightarrow> Some (Inr A) | Some w \<Rightarrow> visit (pix, ts, w) A) = run_steps visit (map (\<lambda>v. (pix, ts, v)) ?here) A" for A
        by (cases v) (simp_all add: bind_ro_def split: option.split sum.split)
      have unf: "manage_loop visit pix ts data available consumed A =
          bind_ro (run_steps visit (map (\<lambda>v. (pix, ts, v)) ?here) A) (\<lambda>A.
            if rrc < 0 then Some (Inr (available, consumed, A))
            else if available - rrc \<ge> hdr_len then manage_loop visit pix ts data (available - rrc) (consumed + rrc) A
            else Some (Inr (available - rrc, consumed + rrc, A)))" for A
        by (subst manage_loop.simps) (simp add: cv here bind_ro_def)
      show "\<exists>new. snd (snd y) = visits @ new \<and> (\<forall>A. manage_loop visit pix ts data available consumed A =
          bind_ro (run_steps visit (map (\<lambda>v. (pix, ts, v)) new) A) (\<lambda>A'. Some (Inr (fst y, fst (snd y), A'))))"
      proof (cases "0 \<le> rrc \<and> hdr_len \<le> available - rrc")
        case True
        then have "loop c data (available - rrc) (consumed + rrc) (visits @ ?here) = Some y" using eq cv c by (simp add: Let_def)
        from IH [OF this] c obtain new where new: "snd (snd y) = (visits @ ?here) @ new"
          "\<And>A. manage_loop visit pix ts data (available - rrc) (consumed + rrc) A =
            bind_ro (run_steps visit (map (\<lambda>v. (pix, ts, v)) new) A) (\<lambda>A'. Some (Inr (fst y, fst (snd y), A')))" by blast
        show ?thesis
          by (rule exI [of _ "?here @ new"])
            (use True new in \<open>simp add: unf run_steps_append bind_ro_assoc\<close>)
      next
        case False
        then have y: "snd (snd y) = visits @ ?here" "fst (snd y) = (if rrc < 0 then consumed else consumed + rrc)"
          "fst y = (if rrc < 0 then available else available - rrc)" using eq cv c by (auto simp: Let_def split: if_splits)
        show ?thesis by (rule exI [of _ ?here]) (use False y in \<open>auto simp: unf intro!: arg_cong [of _ _ "bind_ro _"]\<close>)
      qed
    qed
  qed
  with assms show ?thesis by blast
qed

lemma manage_partition_visits:
  assumes "update_partition E S pd pix (ctxs, seen) = Some (Inr (ctxs', seen'))"
  shows "\<exists>new. seen' = seen @ new \<and> fst ` set new \<subseteq> {pix} \<and> (\<forall>A. manage_partition visit E S pd pix (ctxs, A) =
    bind_ro (run_steps visit new A) (\<lambda>A'. Some (Inr (ctxs', A'))))"
proof -
  let ?available = "narrow 32 (rp_pos (pd ! pix) - ctxs ! pix)" and ?ts = "rp_ts (pd ! pix)"
  have lt: "pix < length pd" "pix < length ctxs" using assms by (simp_all add: update_partition_def split: if_splits)
  show ?thesis
  proof (cases "?available > 0")
    case False
    then have "ctxs' = ctxs" "seen' = seen" using assms lt by (simp_all add: update_partition_def Let_def)
    then show ?thesis using False lt by (intro exI [of _ "[]"]) (simp add: manage_partition_def Let_def)
  next
    case True
    let ?data = "rp_end (pd ! pix) - ?available"
    have "with_link pix (\<lambda>P l.
        bind_ro (lift_o (b_read (tape_ops (le_check E)) ?data (nat ?available) (dl_recv l))) (\<lambda>bytes.
        bind_ro (lift_o (update_loop consume_recv bytes ?available 0 [])) (\<lambda>(available, consumed, visits).
          Some (Inr (ctxs[pix := ctxs ! pix + consumed], seen @ map (\<lambda>v. (pix, ?ts, v)) visits))))) S = Some (Inr (ctxs', seen'))"
      using assms lt True by (simp add: update_partition_def Let_def)
    then obtain l bytes y where l: "pix < length (xl_partitions S)" "pn_link (part S pix) = Some l"
      and y: "b_read (tape_ops (le_check E)) ?data (nat ?available) (dl_recv l) = Some bytes"
        "update_loop consume_recv bytes ?available 0 [] = Some y"
        "ctxs' = ctxs[pix := ctxs ! pix + fst (snd y)]" "seen' = seen @ map (\<lambda>v. (pix, ?ts, v)) (snd (snd y))"
      by (auto simp: with_link_def bind_ro_def lift_o_def split: if_splits option.splits sum.splits)
    obtain new where new: "snd (snd y) = [] @ new" "\<And>A. manage_loop visit pix ?ts bytes ?available 0 A =
        bind_ro (run_steps visit (map (\<lambda>v. (pix, ?ts, v)) new) A) (\<lambda>A'. Some (Inr (fst y, fst (snd y), A')))"
      using manage_loop_visits [OF y(2), of visit pix ?ts] by blast
    have "manage_partition visit E S pd pix (ctxs, A) = bind_ro (run_steps visit (map (\<lambda>v. (pix, ?ts, v)) new) A) (\<lambda>A'. Some (Inr (ctxs', A')))" for A
      using lt True l y(1) new(2) y(3) by (simp add: manage_partition_def Let_def with_link_def bind_ro_assoc)
    then show ?thesis using y(4) new(1) by (intro exI [of _ "map (\<lambda>v. (pix, ?ts, v)) new"]) auto
  qed
qed

lemma manage_update_visits:
  assumes "agent_update E S pd m (ctxs, seen) = Some (Inr (ctxs', seen'))"
  obtains new where "seen' = seen @ new" "fst ` set new \<subseteq> {pix. bit m pix}"
    "\<And>A. manage_update visit E S pd m (ctxs, A) = bind_ro (run_steps visit new A) (\<lambda>A'. Some (Inr (ctxs', A')))"
proof -
  have "\<exists>new. seen' = seen @ new \<and> fst ` set new \<subseteq> set ps \<and> (\<forall>A. each_pix (manage_partition visit E S pd) ps (ctxs, A) =
      bind_ro (run_steps visit new A) (\<lambda>A'. Some (Inr (ctxs', A'))))"
    if "each_pix (update_partition E S pd) ps (ctxs, seen) = Some (Inr (ctxs', seen'))" for ps
    using that
  proof (induction ps arbitrary: ctxs seen)
    case (Cons p ps)
    then obtain ctxs1 seen1 where u: "update_partition E S pd p (ctxs, seen) = Some (Inr (ctxs1, seen1))"
      "each_pix (update_partition E S pd) ps (ctxs1, seen1) = Some (Inr (ctxs', seen'))"
      by (auto simp: bind_ro_def split: option.splits sum.splits)
    obtain new1 where n1: "seen1 = seen @ new1" "fst ` set new1 \<subseteq> {p}" "\<And>A. manage_partition visit E S pd p (ctxs, A) =
        bind_ro (run_steps visit new1 A) (\<lambda>A'. Some (Inr (ctxs1, A')))" using manage_partition_visits [OF u(1), of visit] by blast
    obtain new2 where n2: "seen' = seen1 @ new2" "fst ` set new2 \<subseteq> set ps" "\<And>A. each_pix (manage_partition visit E S pd) ps (ctxs1, A) =
        bind_ro (run_steps visit new2 A) (\<lambda>A'. Some (Inr (ctxs', A')))" using Cons.IH [OF u(2)] by blast
    show ?case by (rule exI [of _ "new1 @ new2"]) (use n1(2) n2(2) in \<open>auto simp: n1(1,3) n2(1,3) run_steps_append bind_ro_assoc\<close>)
  qed simp
  from this [OF assms [unfolded agent_update_def]] obtain new where "seen' = seen @ new" "fst ` set new \<subseteq> set (mask_pixes m)"
    "\<And>A. manage_update visit E S pd m (ctxs, A) = bind_ro (run_steps visit new A) (\<lambda>A'. Some (Inr (ctxs', A')))"
    unfolding manage_update_def by blast
  then show ?thesis using that mask_pixes_set by (metis mem_Collect_eq subset_iff)
qed

section \<open>What an agent observes of its visits\<close>

record feed_view =
  fv_agent :: agent_view
  fv_pending :: "32 word"
  fv_seqnums :: "int list"

definition feed_view :: "ex_env \<Rightarrow> ex_agent \<Rightarrow> feed_view" where
  "feed_view E A = \<lparr>fv_agent = manager_view E (xa_manager A), fv_pending = xm_login_pending (xa_manager A), fv_seqnums = xa_seqnums A\<rparr>"

text \<open>A sequenced packet is one message for the orders and counts as one; an accepted login clears its partition.\<close>

definition spec_feed :: "32 word \<Rightarrow> agent_visit \<Rightarrow> feed_view \<Rightarrow> feed_view" where
  "spec_feed prefix v V =
     (case v of (pix, ts, packet) \<Rightarrow>
        (case packet of
           Visit_payload msg \<Rightarrow> (case decode_ouch msg of None \<Rightarrow> V
             | Some m \<Rightarrow> V\<lparr>fv_agent := spec_agent prefix (Receive m) (fv_agent V), fv_seqnums := (fv_seqnums V)[pix := fv_seqnums V ! pix + 1]\<rparr>)
         | Visit_login_accepted msg \<Rightarrow> V\<lparr>fv_pending := fv_pending V AND NOT (push_bit pix 1)\<rparr>
         | _ \<Rightarrow> V))"

text \<open>
  What the exchange may send: messages its protocol allows, and login replies that were asked for
  and whose sequence number is blank or text that the parser can read as a 64-bit integer.
\<close>

definition readable_seqnum :: "byte list \<Rightarrow> bool" where
  "readable_seqnum msg \<longleftrightarrow>
     (let s = ltrim CHR '' '' (chars (get_field SoupTCP_login_accepted A_seqnum msg))
      in s = [] \<or> parse_decimal_signed s \<noteq> (None :: 64 word option))"

definition visit_allowed :: "agent_visit \<Rightarrow> feed_view \<Rightarrow> bool" where
  "visit_allowed v V \<longleftrightarrow>
     (case v of (pix, ts, packet) \<Rightarrow> pix < part_count \<and>
        (case packet of
           Visit_payload msg \<Rightarrow> (case decode_ouch msg of None \<Rightarrow> False | Some m \<Rightarrow> agent_allows (Receive m) (fv_agent V))
         | Visit_login_accepted msg \<Rightarrow> struct_size SoupTCP_login_accepted \<le> length msg \<and> bit (fv_pending V) pix \<and> readable_seqnum msg
         | Visit_login_request msg \<Rightarrow> False
         | _ \<Rightarrow> True))"

text \<open>What stops an agent: exhausted storage, or a rejected login.\<close>

definition visit_stops :: "ex_env \<Rightarrow> agent_visit \<Rightarrow> ex_agent \<Rightarrow> bool" where
  "visit_stops E v A \<longleftrightarrow>
     (case v of (pix, ts, packet) \<Rightarrow>
        (case packet of
           Visit_payload msg \<Rightarrow> (case decode_ouch msg of None \<Rightarrow> False | Some m \<Rightarrow> agent_stops E (Receive m) (xa_manager A))
         | Visit_login_rejected msg \<Rightarrow> True
         | _ \<Rightarrow> False))"

definition feed_inv :: "ex_env \<Rightarrow> (nat \<Rightarrow> bool) \<Rightarrow> 32 word \<Rightarrow> ex_agent \<Rightarrow> bool" where
  "feed_inv E room prefix A \<longleftrightarrow> manager_inv E room prefix (xa_manager A) \<and> length (xa_seqnums A) = partition_count \<and>
     length (xm_sessions (xa_manager A)) = part_count"

lemma feed_view_simps [simp]:
  "fv_agent (feed_view E A) = manager_view E (xa_manager A)" "fv_pending (feed_view E A) = xm_login_pending (xa_manager A)"
  "fv_seqnums (feed_view E A) = xa_seqnums A"
  by (simp_all add: feed_view_def)

lemma payload_sim:
  assumes inv: "feed_inv E room prefix A" and pix: "pix < part_count" and d: "decode_ouch msg = Some m"
    and ok: "agent_allows (Receive m) (manager_view E (xa_manager A))"
  shows "(agent_stops E (Receive m) (xa_manager A) \<and> (\<exists>e. visit_SoupTCP_payload E pix msg A = Some (Inl e))) \<or>
    (\<exists>A'. visit_SoupTCP_payload E pix msg A = Some (Inr A') \<and> feed_inv E room prefix A' \<and>
      feed_view E A' = spec_feed prefix (pix, ts, Visit_payload msg) (feed_view E A))"
proof -
  let ?M = "xa_manager A"
  have lt: "pix < length (xa_seqnums A)" and mi: "manager_inv E room prefix ?M" using inv pix by (simp_all add: feed_inv_def part_count_def partition_count_def)
  have im: "internal_message_visit E msg ?M = agent_step E room (Receive m) ?M" by (simp add: internal_message_visit_def d)
  from agent.step_law [OF mi ok] show ?thesis
  proof (elim disjE conjE exE)
    fix e assume "agent_stops E (Receive m) ?M" "agent_step E room (Receive m) ?M = Some (Inl e)"
    then show ?thesis using lt by (simp add: visit_SoupTCP_payload_def Let_def im)
  next
    fix M' assume M': "agent_step E room (Receive m) ?M = Some (Inr M')" "manager_inv E room prefix M'"
      "manager_view E M' = spec_agent prefix (Receive m) (manager_view E ?M)"
    then have "xm_sessions M' = xm_sessions ?M \<and> xm_login_pending M' = xm_login_pending ?M"
      by (auto simp: bind_ro_def split: option.splits sum.splits)
    then show ?thesis
      using lt M' inv by (simp add: visit_SoupTCP_payload_def Let_def im feed_inv_def feed_view_def spec_feed_def d)
  qed
qed

lemma login_accepted_sim:
  assumes inv: "feed_inv E room prefix A" and pix: "pix < part_count" "bit (xm_login_pending (xa_manager A)) pix"
    and len: "struct_size SoupTCP_login_accepted \<le> length msg" and rd: "readable_seqnum msg"
  shows "\<exists>A'. visit_SoupTCP_login_accepted pix msg A = Some (Inr A') \<and> feed_inv E room prefix A' \<and>
      feed_view E A' = spec_feed prefix (pix, ts, Visit_login_accepted msg) (feed_view E A)"
proof -
  have "xm_login_pending (xa_manager A) AND push_bit pix 1 \<noteq> 0"
    using pix(2) bit_iff_and_push_bit_not_eq_0 [of "xm_login_pending (xa_manager A)" pix] by simp
  moreover obtain n where "ltrim CHR '' '' (chars (get_field SoupTCP_login_accepted A_seqnum msg)) = [] \<or>
      parse_decimal_signed (ltrim CHR '' '' (chars (get_field SoupTCP_login_accepted A_seqnum msg))) = Some (n :: 64 word) \<and> ltrim CHR '' '' (chars (get_field SoupTCP_login_accepted A_seqnum msg)) \<noteq> []"
    using rd by (auto simp: readable_seqnum_def Let_def)
  ultimately show ?thesis
    using inv pix(1) len
    by (auto simp: visit_SoupTCP_login_accepted_def visit_login_accepted_def Let_def feed_inv_def feed_view_def spec_feed_def
        manager_inv_def manager_view_def)
qed

interpretation agent_feed: simulation "feed_inv E room prefix" "feed_view E" "manager_visit E" "spec_feed prefix" visit_allowed "visit_stops E"
  for E :: ex_env and room :: "nat \<Rightarrow> bool" and prefix :: "32 word"
proof
  fix A v assume inv: "feed_inv E room prefix A" and ok: "visit_allowed v (feed_view E A)"
  obtain pix ts packet where v: "v = (pix, ts, packet)" by (cases v)
  have pix: "pix < part_count" using ok by (simp add: visit_allowed_def v)
  show "(visit_stops E v A \<and> (\<exists>e. manager_visit E v A = Some (Inl e))) \<or>
    (\<exists>A'. manager_visit E v A = Some (Inr A') \<and> feed_inv E room prefix A' \<and> feed_view E A' = spec_feed prefix v (feed_view E A))"
  proof (cases packet)
    case (Visit_payload msg)
    then obtain m where "decode_ouch msg = Some m" "agent_allows (Receive m) (manager_view E (xa_manager A))"
      using ok by (auto simp: visit_allowed_def v split: option.splits)
    from payload_sim [OF inv pix this, of ts] this(1) show ?thesis
      by (simp add: v Visit_payload manager_visit_def visit_stops_def del: agent_stops.simps)
  next
    case (Visit_login_accepted msg)
    then have "bit (xm_login_pending (xa_manager A)) pix" "struct_size SoupTCP_login_accepted \<le> length msg" "readable_seqnum msg"
      using ok by (simp_all add: visit_allowed_def v)
    from login_accepted_sim [OF inv pix this, of ts] show ?thesis by (simp add: v Visit_login_accepted manager_visit_def)
  next
    case (Visit_login_rejected msg)
    then show ?thesis by (simp add: v manager_visit_def visit_stops_def visit_login_rejected_def)
  qed (use ok inv in \<open>simp_all add: v manager_visit_def visit_allowed_def spec_feed_def\<close>)
qed

end
