(* ===== verification/Feed_Props.thy ===== *)
theory Feed_Props
  imports Manager_Feed Manager_Props Link_Props
begin

text \<open>
  An agent on the execution link: what its orders are after an update, in terms of the packets
  the exchange sent.
\<close>

section \<open>Sequence numbers\<close>

primrec is_payload :: "soup_visit \<Rightarrow> bool" where
  "is_payload (Visit_payload msg) \<longleftrightarrow> True"
| "is_payload (Visit_login_request msg) \<longleftrightarrow> False"
| "is_payload (Visit_login_accepted msg) \<longleftrightarrow> False"
| "is_payload (Visit_login_rejected msg) \<longleftrightarrow> False"
| "is_payload Visit_heartbeat \<longleftrightarrow> False"
| "is_payload Visit_eos \<longleftrightarrow> False"
| "is_payload Visit_debug \<longleftrightarrow> False"

definition sequenced :: "soup_visit list \<Rightarrow> int" where
  "sequenced vs = int (length (filter is_payload vs))"

lemma sequenced_simps [simp]: "sequenced [] = 0" "sequenced (v # vs) = (if is_payload v then 1 else 0) + sequenced vs"
  "sequenced (vs @ ws) = sequenced vs + sequenced ws"
  by (simp_all add: sequenced_def)

lemma seqnums_fold:
  assumes "all_allowed visit_allowed (spec_feed prefix) vs V" "length (fv_seqnums V) = partition_count" "pix < part_count"
  shows "fv_seqnums (fold (spec_feed prefix) vs V) ! pix = fv_seqnums V ! pix + sequenced (seen_of pix vs)"
  using assms
proof (induction vs arbitrary: V)
  case (Cons v vs)
  obtain q ts p where v: "v = (q, ts, p)" by (cases v)
  have s: "length (fv_seqnums (spec_feed prefix v V)) = partition_count"
    "fv_seqnums (spec_feed prefix v V) ! pix = fv_seqnums V ! pix + (if q = pix \<and> is_payload p then 1 else 0)"
    using Cons.prems by (auto simp: v spec_feed_def visit_allowed_def part_count_def partition_count_def nth_list_update split: soup_visit.split option.split)
  have "seen_of pix (v # vs) = (if q = pix then [p] else []) @ seen_of pix vs" by (simp add: v seen_of_def)
  then show ?case using Cons.IH [OF _ s(1) Cons.prems(3)] Cons.prems(1) s(2) by simp
qed simp

section \<open>An update of the manager\<close>

lemma manager_update_spec:
  assumes inv: "sys_inv E FS X" and ag: "sy_agents X rd = Some a"
  obtains X1 X2 a' new where "sys_do E (Sys_lock rd) X = Some (Inr X1)" "sys_do E (Sys_update rd) X1 = Some (Inr X2)"
    "sy_agents X2 rd = Some a'" "ar_seen a' = ar_seen a @ new" "\<forall>v \<in> set new. bit (ar_mask a) (fst v)"
    "\<forall>pix. bit (ar_mask a) pix \<longrightarrow> seen_of pix (ar_seen a') = soup_recv.visits (whole (FS pix) (arrived (part (sy_link X) pix)))"
    "\<And>A. manager_update E XE rd X1 A = bind_ro (run_steps (manager_visit XE) new A) (\<lambda>A'. Some (Inr (ar_pos a', A')))"
proof -
  obtain X1 X2 a' where u: "sys_do E (Sys_lock rd) X = Some (Inr X1)" "sys_do E (Sys_update rd) X1 = Some (Inr X2)" "sy_agents X2 rd = Some a'"
    "\<forall>pix. bit (ar_mask a) pix \<longrightarrow> seen_of pix (ar_seen a') = soup_recv.visits (whole (FS pix) (arrived (part (sy_link X) pix)))"
    using sys_catch_up [OF inv ag] by blast
  have a1: "sy_agents X1 rd = Some a" using u(1) ag by (auto simp: bind_ro_def set_pub_def split: option.splits sum.splits)
  then obtain r ghost pd pos seen where p: "ru_readers (xl_pub (sy_link X1)) rd = Some (r, ghost)"
    "pool_get (le_pool E) False r (ru_pool (xl_pub (sy_link X1))) = Some (Inr pd)"
    "agent_update E (sy_link X1) (pd_data pd) (ar_mask a) (ar_pos a, ar_seen a) = Some (Inr (pos, seen))"
    "a' = a\<lparr>ar_pos := pos, ar_seen := seen\<rparr>"
    using u(2,3) by (auto simp: sys_update_def bind_ro_def split: option.splits sum.splits)
  obtain new where new: "seen = ar_seen a @ new" "fst ` set new \<subseteq> {pix. bit (ar_mask a) pix}"
    "\<And>A. manage_update (manager_visit XE) E (sy_link X1) (pd_data pd) (ar_mask a) (ar_pos a, A) =
      bind_ro (run_steps (manager_visit XE) new A) (\<lambda>A'. Some (Inr (pos, A')))"
    by (rule manage_update_visits [OF p(3), of "manager_visit XE"]) blast
  have "manager_update E XE rd X1 A = bind_ro (run_steps (manager_visit XE) new A) (\<lambda>A'. Some (Inr (ar_pos a', A')))" for A
    by (simp add: manager_update_def p(1,2,4) a1 new(3))
  then show ?thesis using that [OF u(1-3) _ _ u(4)] new(1,2) p(4) by auto
qed

text \<open>
  C36: an agent that updates handles exactly the packets that arrived since its last update, each once, in the
  order of their partition: its orders, its pending logins and its sequence numbers are then what
  the messages in those packets make of them, unless storage runs out or a login was rejected;
  and its sequence numbers count the sequenced packets received since the start.
\<close>

theorem manager_follows_stream:
  assumes "pool_inv (le_pool E) p" "link_new (le_pool E) T p = Some (Inr S0)" "link_start cfg ff page_size bases S0 = Some (Inr S)"
    "0 < page_size" "lc_capacity cfg + page_size \<le> 2 ^ 31" "\<And>pix. soup_recv.good (FS pix)"
    "sys_reach E FS \<lparr>sy_link = S, sy_agents = Map.empty\<rparr> X" "sy_agents X rd = Some a" "feed_inv XE room prefix A"
  shows "\<exists>X1 X2 a' new. sys_do E (Sys_lock rd) X = Some (Inr X1) \<and> sys_do E (Sys_update rd) X1 = Some (Inr X2) \<and>
    sy_agents X2 rd = Some a' \<and> ar_seen a' = ar_seen a @ new \<and> (\<forall>v \<in> set new. bit (ar_mask a) (fst v)) \<and>
    (\<forall>pix. bit (ar_mask a) pix \<longrightarrow> seen_of pix (ar_seen a') = soup_recv.visits (whole (FS pix) (arrived (part (sy_link X) pix)))) \<and>
    (all_allowed visit_allowed (spec_feed prefix) new (feed_view XE A) \<longrightarrow>
      (\<exists>A'. manager_update E XE rd X1 A = Some (Inr (ar_pos a', A')) \<and> feed_inv XE room prefix A' \<and>
        feed_view XE A' = fold (spec_feed prefix) new (feed_view XE A) \<and>
        (\<forall>pix. bit (ar_mask a) pix \<and> pix < part_count \<and> xa_seqnums A ! pix = sequenced (seen_of pix (ar_seen a)) \<longrightarrow>
          xa_seqnums A' ! pix = sequenced (soup_recv.visits (whole (FS pix) (arrived (part (sy_link X) pix)))))) \<or>
      (\<exists>done v rest A' e. new = done @ v # rest \<and> run_steps (manager_visit XE) done A = Some (Inr A') \<and>
        feed_view XE A' = fold (spec_feed prefix) done (feed_view XE A) \<and> visit_stops XE v A' \<and>
        manager_update E XE rd X1 A = Some (Inl e)))"
proof -
  have "link_inv E FS [] S \<and> settled E S \<and> started S" by (rule link_start_spec [OF assms(2,1,3-6)])
  then have inv: "sys_inv E FS X" using sys_reach_inv [OF assms(7)] sys_inv_started by blast
  obtain X1 X2 a' new where u: "sys_do E (Sys_lock rd) X = Some (Inr X1)" "sys_do E (Sys_update rd) X1 = Some (Inr X2)"
    "sy_agents X2 rd = Some a'" "ar_seen a' = ar_seen a @ new" "\<forall>v \<in> set new. bit (ar_mask a) (fst v)"
    "\<forall>pix. bit (ar_mask a) pix \<longrightarrow> seen_of pix (ar_seen a') = soup_recv.visits (whole (FS pix) (arrived (part (sy_link X) pix)))"
    "\<And>A. manager_update E XE rd X1 A = bind_ro (run_steps (manager_visit XE) new A) (\<lambda>A'. Some (Inr (ar_pos a', A')))"
    by (rule manager_update_spec [OF inv assms(8), of XE]) blast
  show ?thesis
  proof (rule exI [of _ X1], rule exI [of _ X2], rule exI [of _ a'], rule exI [of _ new], intro conjI impI)
    assume ok: "all_allowed visit_allowed (spec_feed prefix) new (feed_view XE A)"
    have seq: "xa_seqnums A' ! pix = sequenced (soup_recv.visits (whole (FS pix) (arrived (part (sy_link X) pix))))"
      if "feed_view XE A' = fold (spec_feed prefix) new (feed_view XE A)" "bit (ar_mask a) pix" "pix < part_count"
        "xa_seqnums A ! pix = sequenced (seen_of pix (ar_seen a))" for A' pix
    proof -
      have "length (fv_seqnums (feed_view XE A)) = partition_count" using assms(9) by (simp add: feed_inv_def)
      from seqnums_fold [OF ok this that(3)] have "xa_seqnums A' ! pix = sequenced (seen_of pix (ar_seen a')) "
        using that(1,4) u(4) feed_view_simps(3) [of XE A'] by simp
      then show ?thesis using u(6) that(2) by simp
    qed
    from agent_feed.run_refines [OF assms(9) ok] show "(\<exists>A'. manager_update E XE rd X1 A = Some (Inr (ar_pos a', A')) \<and> feed_inv XE room prefix A' \<and>
        feed_view XE A' = fold (spec_feed prefix) new (feed_view XE A) \<and>
        (\<forall>pix. bit (ar_mask a) pix \<and> pix < part_count \<and> xa_seqnums A ! pix = sequenced (seen_of pix (ar_seen a)) \<longrightarrow>
          xa_seqnums A' ! pix = sequenced (soup_recv.visits (whole (FS pix) (arrived (part (sy_link X) pix)))))) \<or>
      (\<exists>done v rest A' e. new = done @ v # rest \<and> run_steps (manager_visit XE) done A = Some (Inr A') \<and>
        feed_view XE A' = fold (spec_feed prefix) done (feed_view XE A) \<and> visit_stops XE v A' \<and>
        manager_update E XE rd X1 A = Some (Inl e))"
    proof (elim disjE exE conjE)
      fix A' assume "run_steps (manager_visit XE) new A = Some (Inr A')" "feed_inv XE room prefix A'"
        "feed_view XE A' = fold (spec_feed prefix) new (feed_view XE A)"
      then show ?thesis using seq by (intro disjI1 exI [of _ A']) (simp add: u(7))
    next
      fix l v rest A' e assume "new = l @ v # rest" "run_steps (manager_visit XE) l A = Some (Inr A')"
        "feed_view XE A' = fold (spec_feed prefix) l (feed_view XE A)" "visit_stops XE v A'" "run_steps (manager_visit XE) new A = Some (Inl e)"
      then show ?thesis by (intro disjI2 exI [of _ l] exI [of _ v] exI [of _ rest] exI [of _ A'] exI [of _ e]) (simp add: u(7))
    qed
  qed (use u in simp_all)
qed

lemma manager_follows_stream_witness:
  "\<exists>(X1 :: link_system) pos A A' ts. manager_update demo_env demo_xenv 0 X1 A = Some (Inr (pos, A')) \<and>
     feed_view demo_xenv A' = spec_feed 0xA (0, ts, Visit_heartbeat) (feed_view demo_xenv A) \<and> xa_seqnums A' ! 0 = 0"
proof -
  obtain S0 S X where d: "link_new demo_pool_opts demo_templates demo_pool = Some (Inr S0)"
    "link_start demo_cfg default_fixed_fields 4096 (\<lambda>pix. (0, 10000)) S0 = Some (Inr S)"
    "sys_reach demo_env demo_packets \<lparr>sy_link = S, sy_agents = Map.empty\<rparr> X" "sy_agents X 0 = Some (new_agent 1)"
    "arrived (part (sy_link X) 0) = 5" by (rule demo_system)
  obtain b where b: "manager_inv demo_xenv (\<lambda>_. True) 0xA (new_manager b 1 0xA)" by (rule demo_manager)
  let ?A = "\<lparr>xa_manager = new_manager b 1 0xA, xa_seqnums = replicate 5 0\<rparr>"
  have A: "feed_inv demo_xenv (\<lambda>_. True) 0xA ?A" using b by (simp add: feed_inv_def new_manager_def part_count_def partition_count_def)
  have p: "pool_inv (le_pool demo_env) demo_pool" "link_new (le_pool demo_env) demo_templates demo_pool = Some (Inr S0)"
    using d(1) demo_pool_inv by (simp_all add: demo_sizes(1))
  have w: "soup_recv.visits (whole (demo_packets 0) 5) = [Visit_heartbeat]"
    by (simp add: demo_packets_def soup_recv.visits_def recv_visit_def)
  let ?a = "new_agent 1"
  from manager_follows_stream [OF p d(2) zero_less_numeral demo_sizes(2) demo_packets_good d(3,4) A]
  obtain X1 :: link_system and a' :: agent_reader and new where n: "ar_seen a' = ar_seen ?a @ new" "\<forall>v \<in> set new. bit (ar_mask ?a) (fst v)"
    "\<forall>pix. bit (ar_mask ?a) pix \<longrightarrow> seen_of pix (ar_seen a') = soup_recv.visits (whole (demo_packets pix) (arrived (part (sy_link X) pix)))"
    and r: "all_allowed visit_allowed (spec_feed 0xA) new (feed_view demo_xenv ?A) \<longrightarrow>
      (\<exists>A'. manager_update demo_env demo_xenv 0 X1 ?A = Some (Inr (ar_pos a', A')) \<and> feed_inv demo_xenv (\<lambda>_. True) 0xA A' \<and>
        feed_view demo_xenv A' = fold (spec_feed 0xA) new (feed_view demo_xenv ?A) \<and>
        (\<forall>pix. bit (ar_mask ?a) pix \<and> pix < part_count \<and> xa_seqnums ?A ! pix = sequenced (seen_of pix (ar_seen ?a)) \<longrightarrow>
          xa_seqnums A' ! pix = sequenced (soup_recv.visits (whole (demo_packets pix) (arrived (part (sy_link X) pix)))))) \<or>
      (\<exists>l v rest A' e. new = l @ v # rest \<and> run_steps (manager_visit demo_xenv) l ?A = Some (Inr A') \<and>
        feed_view demo_xenv A' = fold (spec_feed 0xA) l (feed_view demo_xenv ?A) \<and> visit_stops demo_xenv v A' \<and>
        manager_update demo_env demo_xenv 0 X1 ?A = Some (Inl e))"
    by (elim exE conjE) (rule that)
  have u: "ar_seen a' = new" "\<forall>v \<in> set new. bit (1 :: 32 word) (fst v)" "seen_of 0 (ar_seen a') = [Visit_heartbeat]"
    using n w d(5) by (simp_all add: new_agent_def)
  have "\<forall>v \<in> set new. fst v = 0" using u(2) by (simp add: bit_1_iff)
  then have "seen_of 0 new = map (snd \<circ> snd) new" by (simp add: seen_of_def)
  then obtain v where v: "new = [v]" "snd (snd v) = Visit_heartbeat" using u(1,3) by auto
  then obtain ts where new: "new = [(0, ts, Visit_heartbeat)]" using \<open>\<forall>v \<in> set new. fst v = 0\<close> by (cases v) auto
  have "all_allowed visit_allowed (spec_feed 0xA) new (feed_view demo_xenv ?A)" by (simp add: new visit_allowed_def part_count_def)
  moreover have "\<not> visit_stops demo_xenv (0, ts, Visit_heartbeat) A'" for A' by (simp add: visit_stops_def)
  ultimately obtain A' where A': "manager_update demo_env demo_xenv 0 X1 ?A = Some (Inr (ar_pos a', A'))"
    "feed_view demo_xenv A' = fold (spec_feed 0xA) new (feed_view demo_xenv ?A)"
    using r unfolding new by (force simp: append_eq_Cons_conv Cons_eq_append_conv)
  have "xa_seqnums A' = fv_seqnums (feed_view demo_xenv A')" by simp
  also have "\<dots> = replicate 5 0" unfolding A'(2) by (simp add: new spec_feed_def)
  finally show ?thesis using A' by (intro exI [of _ X1] exI [of _ "ar_pos a'"] exI [of _ ?A] exI [of _ A'] exI [of _ ts]) (simp add: new)
qed

end
