(* ===== verification/Fenwick_Window.thy ===== *)
theory Fenwick_Window
  imports Vrt_Prelude "HOL-Library.Sublist"
begin

unbundle bit_operations_syntax

text \<open>
  The sliding event count of \<^verbatim>\<open>vr/containers/util/fenwick_window.h\<close>: two Fenwick trees over
  adjacent aligned windows of bins, the front one being filled and the back one complete.
\<close>

section \<open>State\<close>

text \<open>
  The template arguments: the logarithms of the number of bins and of the width of a bin, and
  the widths in bits of a bin's counter and of the time type.
\<close>

record fw_options =
  fo_log2_bin_count :: nat
  fo_log2_bin_width :: nat
  fo_bin_bits :: nat
  fo_time_bits :: nat

definition bin_count :: "fw_options \<Rightarrow> int" where
  "bin_count O' = 2 ^ fo_log2_bin_count O'"

record fenwick_window =
  fe_time_index :: int
  fe_front_window :: bool
  fe_window :: "bool \<Rightarrow> int list"

definition time_index_of :: "fw_options \<Rightarrow> int \<Rightarrow> int" where
  "time_index_of O' time = narrow (fo_time_bits O') (time mod 2 ^ fo_time_bits O' div 2 ^ fo_log2_bin_width O')"

text \<open>The position in the two windows, as a bin index of both.\<close>

definition position :: "fw_options \<Rightarrow> int \<Rightarrow> int" where
  "position O' time_index = time_index mod 2 ^ 32 AND (2 * bin_count O' - 1)"

definition fenwick_new :: "fw_options \<Rightarrow> int \<Rightarrow> fenwick_window result" where
  "fenwick_new O' start_time =
     (if start_time < 0 then Inl Check_failure
      else let i = time_index_of O' start_time in
        Inr \<lparr>fe_time_index = i, fe_front_window = (position O' i \<ge> bin_count O'),
          fe_window = (\<lambda>_. replicate (nat (bin_count O')) 0)\<rparr>)"

section \<open>Operations\<close>

definition low_bit :: "int \<Rightarrow> int" where
  "low_bit r = r AND - r"

text \<open>A positive number is an odd multiple of its lowest bit.\<close>

lemma low_bit_double: "low_bit (2 * r) = 2 * low_bit r"
  by (rule bit_eqI) (auto simp: low_bit_def bit_and_iff bit_double_iff simp flip: mult_minus_right)

lemma low_bit_odd: "low_bit (2 * a + 1) = 1"
proof -
  have neg: "- (2 * a + 1) = 2 * NOT a + 1" by (simp add: not_int_def)
  show ?thesis unfolding low_bit_def neg by (subst and_rec) simp
qed

lemma low_bit_cases:
  assumes "0 < r"
  obtains j a where "r = 2 ^ j * (2 * a + 1)" "0 \<le> a" "low_bit r = 2 ^ j"
proof -
  have "\<exists>j a. r = 2 ^ j * (2 * a + 1) \<and> 0 \<le> a \<and> low_bit r = 2 ^ j" using assms
  proof (induction "nat r" arbitrary: r rule: less_induct)
    case less
    show ?case
    proof (cases "even r")
      case True
      then obtain q where q: "r = 2 * q" by blast
      then have "0 < q" "nat q < nat r" using less.prems by simp_all
      from less.hyps [OF this(2) this(1)] obtain j a where "q = 2 ^ j * (2 * a + 1)" "0 \<le> a" "low_bit q = 2 ^ j" by blast
      then show ?thesis using q by (intro exI [of _ "Suc j"] exI [of _ a]) (simp add: low_bit_double)
    next
      case False
      then obtain a where "r = 2 * a + 1" by (rule oddE)
      then show ?thesis using less.prems by (intro exI [of _ 0] exI [of _ a]) (simp add: low_bit_odd)
    qed
  qed
  then show ?thesis using that by blast
qed

lemma low_bit_bounds:
  assumes "0 < r"
  shows "0 < low_bit r" "low_bit r \<le> r"
proof -
  obtain j a where "r = 2 ^ j * (2 * a + 1)" "0 \<le> a" "low_bit r = 2 ^ j" by (rule low_bit_cases [OF assms])
  moreover have "2 ^ j * 1 \<le> 2 ^ j * (2 * a + 1)" using \<open>0 \<le> a\<close> by (intro mult_left_mono) simp_all
  ultimately show "0 < low_bit r" "low_bit r \<le> r" by simp_all
qed

lemma xor_low_bit: "0 < r \<Longrightarrow> r XOR low_bit r = r - low_bit r"
proof -
  have "r = (r AND NOT (low_bit r)) + low_bit r"
  proof -
    have "(r AND NOT (low_bit r)) + low_bit r = (r AND NOT (low_bit r)) OR low_bit r"
      by (rule disjunctive_add) (simp add: bit_and_iff bit_not_iff)
    also have "\<dots> = r" by (rule bit_eqI) (auto simp: bit_or_iff bit_and_iff bit_not_iff low_bit_def)
    finally show ?thesis ..
  qed
  moreover have "r XOR low_bit r = r AND NOT (low_bit r)"
    by (rule bit_eqI) (auto simp: bit_xor_iff bit_and_iff bit_or_iff bit_not_iff low_bit_def)
  ultimately show ?thesis by linarith
qed

text \<open>\<open>count_impl\<close>: the loop that turns off one bit after the other.\<close>

function count_loop :: "int list \<Rightarrow> int list \<Rightarrow> int \<Rightarrow> int \<Rightarrow> int" where
  "count_loop fw bw r acc =
     (if r > 0 then count_loop fw bw (r XOR low_bit r) (narrow 32 (acc + (fw ! nat (r - 1) - bw ! nat (r - 1)))) else acc)"
  by pat_completeness auto
termination by (relation "measure (\<lambda>(fw, bw, r, acc). nat r)") (auto simp: xor_low_bit low_bit_bounds)

declare count_loop.simps [simp del]

definition count_impl :: "fw_options \<Rightarrow> int \<Rightarrow> bool \<Rightarrow> fenwick_window \<Rightarrow> int" where
  "count_impl O' r front F =
     (let fw = fe_window F front; bw = fe_window F (\<not> front) in count_loop fw bw r (bw ! nat (bin_count O' - 1)))"

definition fenwick_count :: "fw_options \<Rightarrow> fenwick_window \<Rightarrow> int" where
  "fenwick_count O' F =
     count_impl O' ((position O' (fe_time_index F) AND (bin_count O' - 1)) + 1) (fe_front_window F) F"

text \<open>The loop that adds to the bins above; from zero it would not end.\<close>

partial_function (option) add_loop :: "fw_options \<Rightarrow> int \<Rightarrow> int \<Rightarrow> int list \<Rightarrow> int list option" where
  "add_loop O' increment u bins =
     (if u \<le> bin_count O'
      then add_loop O' increment (u + low_bit u) (bins[nat (u - 1) := narrow (fo_bin_bits O') (bins ! nat (u - 1) + increment)])
      else Some bins)"

definition fenwick_add :: "fw_options \<Rightarrow> bool \<Rightarrow> int \<Rightarrow> int \<Rightarrow> fenwick_window \<Rightarrow> (int \<times> fenwick_window) result option" where
  "fenwick_add O' check_monotonicity time increment F =
     (let time_index = time_index_of O' time; r = position O' time_index; front_window = (r \<ge> bin_count O');
          r = (r AND (bin_count O' - 1)) + 1; zero = replicate (nat (bin_count O')) 0
      in bind_ro
        (if time_index \<ge> fe_time_index F + bin_count O' then Some (Inr (F\<lparr>fe_front_window := front_window, fe_window := (\<lambda>_. zero)\<rparr>))
         else if check_monotonicity \<and> \<not> fe_time_index F \<le> time_index then Some (Inl Check_failure)
         else if front_window \<noteq> fe_front_window F then
           Some (Inr (F\<lparr>fe_front_window := front_window, fe_window := (fe_window F)(front_window := zero)\<rparr>))
         else Some (Inr F)) (\<lambda>F.
      bind_ro (lift_o (add_loop O' increment r (fe_window F front_window))) (\<lambda>bins.
      let F = F\<lparr>fe_window := (fe_window F)(front_window := bins), fe_time_index := time_index\<rparr> in
        Some (Inr (count_impl O' r front_window F, F)))))"

text \<open>A run of additions: the counts they return.\<close>

primrec fenwick_run :: "fw_options \<Rightarrow> (int \<times> int) list \<Rightarrow> fenwick_window \<Rightarrow> (int list \<times> fenwick_window) result option" where
  "fenwick_run O' [] F = Some (Inr ([], F))"
| "fenwick_run O' (e # es) F = bind_ro (fenwick_add O' True (fst e) (snd e) F) (\<lambda>(c, F).
     bind_ro (fenwick_run O' es F) (\<lambda>(cs, F). Some (Inr (c # cs, F))))"

section \<open>One tree\<close>

lemma multiple_next:
  fixes d x y :: int
  assumes "d dvd x" "d dvd y" "x < y"
  shows "x + d \<le> y"
proof -
  have "d dvd y - x" using assms(1,2) by simp
  then have "d \<le> y - x" using assms(3) by (intro zdvd_imp_le) simp_all
  then show ?thesis by simp
qed

text \<open>Bin \<open>v\<close> covers the interval of positions that ends in \<open>v\<close> and has the length of its lowest bit.\<close>

definition covers :: "int \<Rightarrow> int \<Rightarrow> bool" where
  "covers v u \<longleftrightarrow> v - low_bit v < u \<and> u \<le> v"

text \<open>The bins that cover a position are the ones the loop of \<open>add\<close> visits from it.\<close>

lemma covers_step:
  assumes "0 < u" "0 < v" "v \<noteq> u"
  shows "covers v u \<longleftrightarrow> covers v (u + low_bit u)"
proof -
  obtain i a where v: "v = 2 ^ i * (2 * a + 1)" "0 \<le> a" "low_bit v = 2 ^ i" by (rule low_bit_cases [OF assms(2)])
  obtain j c where u: "u = 2 ^ j * (2 * c + 1)" "0 \<le> c" "low_bit u = 2 ^ j" by (rule low_bit_cases [OF assms(1)])
  have pos: "(0::int) < 2 ^ i" "(0::int) < 2 ^ j" by simp_all
  have vi: "v - 2 ^ i = 2 ^ i * (2 * a)" by (simp add: v(1) algebra_simps)
  have uj: "u + 2 ^ j = 2 ^ Suc j * (c + 1)" by (simp add: u(1) algebra_simps)
  have du: "2 ^ j dvd u" and dv: "2 ^ i dvd v" by (simp_all add: u(1) v(1))
  show ?thesis unfolding covers_def u(3) v(3)
  proof
    assume h: "v - 2 ^ i < u \<and> u \<le> v"
    then have lt: "u < v" using assms(3) by simp
    have "j < i"
    proof (rule ccontr)
      assume "\<not> j < i"
      then have "2 ^ i dvd u" using du by (meson dvd_trans le_imp_power_dvd not_less)
      from multiple_next [OF this dv lt] h show False by simp
    qed
    then have "2 ^ j dvd v" using dv by (meson dvd_trans le_imp_power_dvd less_imp_le)
    from multiple_next [OF du this lt] show "v - 2 ^ i < u + 2 ^ j \<and> u + 2 ^ j \<le> v" using h pos by linarith
  next
    assume h: "v - 2 ^ i < u + 2 ^ j \<and> u + 2 ^ j \<le> v"
    have "v - 2 ^ i < u"
    proof (rule ccontr)
      assume "\<not> v - 2 ^ i < u"
      then have le: "u \<le> v - 2 ^ i" by simp
      show False
      proof (cases "i \<le> j")
        case True
        then have "2 ^ Suc i dvd u + 2 ^ j" unfolding uj by (intro dvd_mult2 le_imp_power_dvd) simp
        moreover have "2 ^ Suc i dvd v - 2 ^ i" unfolding vi by simp
        ultimately have "v - 2 ^ i + 2 ^ Suc i \<le> u + 2 ^ j" using h by (intro multiple_next) simp_all
        then show False using h pos by simp
      next
        case False
        then have d: "2 ^ Suc j dvd v - 2 ^ i" unfolding vi
          by (metis dvd_mult2 le_imp_power_dvd not_less_eq_eq nle_le)
        then have "2 ^ j dvd v - 2 ^ i" by (meson dvd_trans le_imp_power_dvd le_SucI order_refl)
        with du have "\<not> u < v - 2 ^ i" using multiple_next [of "2 ^ j" u "v - 2 ^ i"] h by linarith
        then have "2 ^ Suc j dvd u" using le d by simp
        then have "2 ^ j * 2 dvd 2 ^ j * (2 * c + 1)" unfolding u(1) by (simp only: power_Suc mult.commute)
        then have "2 dvd 2 * c + 1" using pos(2) by simp
        then show False by presburger
      qed
    qed
    then show "v - 2 ^ i < u \<and> u \<le> v" using h pos by linarith
  qed
qed

lemma covers_self: "0 < u \<Longrightarrow> covers u u" "0 < u \<Longrightarrow> \<not> covers u (u + low_bit u)"
  using low_bit_bounds [of u] by (simp_all add: covers_def)

lemma add_loop_spec:
  assumes "0 < u" "length bins = nat (bin_count O')"
  shows "\<exists>bins'. add_loop O' increment u bins = Some bins' \<and> length bins' = length bins \<and>
    (\<forall>v. 0 < v \<and> v \<le> bin_count O' \<longrightarrow> bins' ! nat (v - 1) =
      (if covers v u then narrow (fo_bin_bits O') (bins ! nat (v - 1) + increment) else bins ! nat (v - 1)))"
  using assms
proof (induction "nat (bin_count O' + 1 - u)" arbitrary: u bins rule: less_induct)
  case less
  note lb = low_bit_bounds [OF less.prems(1)]
  show ?case
  proof (cases "u \<le> bin_count O'")
    case True
    define b1 where "b1 = bins[nat (u - 1) := narrow (fo_bin_bits O') (bins ! nat (u - 1) + increment)]"
    have "\<exists>bins'. add_loop O' increment (u + low_bit u) b1 = Some bins' \<and> length bins' = length b1 \<and>
      (\<forall>v. 0 < v \<and> v \<le> bin_count O' \<longrightarrow> bins' ! nat (v - 1) =
        (if covers v (u + low_bit u) then narrow (fo_bin_bits O') (b1 ! nat (v - 1) + increment) else b1 ! nat (v - 1)))"
      by (rule less.hyps) (use True lb less.prems in \<open>simp_all add: b1_def\<close>)
    then obtain bins' where b': "add_loop O' increment (u + low_bit u) b1 = Some bins'" "length bins' = length b1"
      "\<And>v. 0 < v \<Longrightarrow> v \<le> bin_count O' \<Longrightarrow> bins' ! nat (v - 1) =
        (if covers v (u + low_bit u) then narrow (fo_bin_bits O') (b1 ! nat (v - 1) + increment) else b1 ! nat (v - 1))" by blast
    have "bins' ! nat (v - 1) = (if covers v u then narrow (fo_bin_bits O') (bins ! nat (v - 1) + increment) else bins ! nat (v - 1))"
      if v: "0 < v" "v \<le> bin_count O'" for v
    proof (cases "v = u")
      case True
      then show ?thesis using b'(3) [OF v] covers_self [OF less.prems(1)] v less.prems(2) by (simp add: b1_def)
    next
      case False
      then have "nat (v - 1) \<noteq> nat (u - 1)" using v(1) less.prems(1) by simp
      then have "b1 ! nat (v - 1) = bins ! nat (v - 1)" by (simp add: b1_def)
      then show ?thesis using b'(3) [OF v] covers_step [OF less.prems(1) v(1) False] by simp
    qed
    then show ?thesis using b' True by (subst add_loop.simps) (simp add: b1_def)
  next
    case False
    then have "\<not> covers v u" if "v \<le> bin_count O'" for v using that by (simp add: covers_def)
    then show ?thesis using False by (subst add_loop.simps) simp
  qed
qed

text \<open>A tree holds the prefix sums \<open>S\<close>, each bin the sum of what it covers.\<close>

definition tree_of :: "fw_options \<Rightarrow> int list \<Rightarrow> (int \<Rightarrow> int) \<Rightarrow> bool" where
  "tree_of O' bins S \<longleftrightarrow> length bins = nat (bin_count O') \<and>
     (\<forall>v. 0 < v \<and> v \<le> bin_count O' \<longrightarrow> bins ! nat (v - 1) = narrow (fo_bin_bits O') (S v - S (v - low_bit v)))"

lemma bin_count_pos [simp]: "0 < bin_count O'"
  by (simp add: bin_count_def)

lemma narrow_0: "0 < w \<Longrightarrow> narrow w 0 = 0"
  by (cases w) (simp_all add: narrow_def)

lemma tree_of_cong:
  assumes "tree_of O' bins S" "\<And>x. 0 \<le> x \<Longrightarrow> x \<le> bin_count O' \<Longrightarrow> S' x = S x"
  shows "tree_of O' bins S'"
  unfolding tree_of_def
proof (intro conjI allI impI)
  fix v assume v: "0 < v \<and> v \<le> bin_count O'"
  then have "S' v = S v" "S' (v - low_bit v) = S (v - low_bit v)" using low_bit_bounds [of v] by (simp_all add: assms(2))
  then show "bins ! nat (v - 1) = narrow (fo_bin_bits O') (S' v - S' (v - low_bit v))"
    using assms(1) v by (simp add: tree_of_def)
qed (use assms(1) in \<open>simp add: tree_of_def\<close>)

lemma tree_of_zero: "0 < fo_bin_bits O' \<Longrightarrow> tree_of O' (replicate (nat (bin_count O')) 0) (\<lambda>_. 0)"
  by (simp add: tree_of_def narrow_0)

lemma tree_of_add:
  assumes "tree_of O' bins S" "0 < u"
  obtains bins' where "add_loop O' increment u bins = Some bins'"
    "tree_of O' bins' (\<lambda>x. S x + (if u \<le> x then increment else 0))"
proof -
  from assms(1) have len: "length bins = nat (bin_count O')" by (simp add: tree_of_def)
  obtain bins' where b': "add_loop O' increment u bins = Some bins'" "length bins' = length bins"
    "\<And>v. 0 < v \<Longrightarrow> v \<le> bin_count O' \<Longrightarrow> bins' ! nat (v - 1) =
      (if covers v u then narrow (fo_bin_bits O') (bins ! nat (v - 1) + increment) else bins ! nat (v - 1))"
    using add_loop_spec [OF assms(2) len, of increment] by blast
  have "tree_of O' bins' (\<lambda>x. S x + (if u \<le> x then increment else 0))"
    unfolding tree_of_def
  proof (intro conjI allI impI)
    fix v assume v: "0 < v \<and> v \<le> bin_count O'"
    have old: "bins ! nat (v - 1) = narrow (fo_bin_bits O') (S v - S (v - low_bit v))"
      using assms(1) v by (simp add: tree_of_def)
    show "bins' ! nat (v - 1) = narrow (fo_bin_bits O')
      (S v + (if u \<le> v then increment else 0) - (S (v - low_bit v) + (if u \<le> v - low_bit v then increment else 0)))"
    proof (cases "covers v u")
      case True
      then have "bins' ! nat (v - 1) = narrow (fo_bin_bits O') (S v - S (v - low_bit v) + increment)"
        using b'(3) [of v] v old by (simp add: narrow_add)
      moreover have "u \<le> v" "\<not> u \<le> v - low_bit v" using True by (auto simp: covers_def)
      ultimately show ?thesis by (simp add: algebra_simps)
    next
      case False
      then have "u \<le> v \<longleftrightarrow> u \<le> v - low_bit v" using low_bit_bounds [of v] v by (auto simp: covers_def)
      then show ?thesis using False b'(3) [of v] v old by simp
    qed
  qed (simp add: b'(2) len)
  with b'(1) show ?thesis by (rule that)
qed

text \<open>The loop of \<open>count_impl\<close> over two trees whose sums fit.\<close>

definition tree_fits :: "fw_options \<Rightarrow> (int \<Rightarrow> int) \<Rightarrow> bool" where
  "tree_fits O' S \<longleftrightarrow> (\<forall>v. 0 < v \<and> v \<le> bin_count O' \<longrightarrow>
     narrow (fo_bin_bits O') (S v - S (v - low_bit v)) = S v - S (v - low_bit v))"

lemma count_loop_spec:
  assumes "tree_of O' fw S" "tree_of O' bw T" "tree_fits O' S" "tree_fits O' T"
    and "0 \<le> r" "r \<le> bin_count O'" "narrow 32 acc = acc"
  shows "count_loop fw bw r acc = narrow 32 (acc + (S r - S 0) - (T r - T 0))"
  using assms(5-7)
proof (induction "nat r" arbitrary: r acc rule: less_induct)
  case less
  show ?case
  proof (cases "0 < r")
    case True
    note lb = low_bit_bounds [OF True]
    have bins: "fw ! nat (r - 1) = S r - S (r - low_bit r)" "bw ! nat (r - 1) = T r - T (r - low_bit r)"
      using assms(1-4) True less.prems by (simp_all add: tree_of_def tree_fits_def)
    have "count_loop fw bw r acc =
      count_loop fw bw (r - low_bit r) (narrow 32 (acc + (fw ! nat (r - 1) - bw ! nat (r - 1))))"
      using True by (subst count_loop.simps) (simp add: xor_low_bit)
    also have "\<dots> = narrow 32 (narrow 32 (acc + (fw ! nat (r - 1) - bw ! nat (r - 1))) +
      (S (r - low_bit r) - S 0) - (T (r - low_bit r) - T 0))"
      by (rule less.hyps) (use True lb less.prems in simp_all)
    also have "\<dots> = narrow 32 (narrow 32 (acc + (fw ! nat (r - 1) - bw ! nat (r - 1))) +
      ((S (r - low_bit r) - S 0) - (T (r - low_bit r) - T 0)))" by (simp only: add_diff_eq)
    also have "\<dots> = narrow 32 (acc + (S r - S 0) - (T r - T 0))"
      unfolding narrow_add bins by (rule arg_cong [where f = "narrow 32"]) linarith
    finally show ?thesis .
  next
    case False
    then have "r = 0" using less.prems by simp
    then show ?thesis using less.prems by (subst count_loop.simps) simp
  qed
qed

section \<open>The sum of a window\<close>

text \<open>Events are bin indices with increments; the sum over the indices in \<open>(lo, hi]\<close>.\<close>

definition window_sum :: "(int \<times> int) list \<Rightarrow> int \<Rightarrow> int \<Rightarrow> int" where
  "window_sum h lo hi = sum_list (map snd (filter (\<lambda>e. lo < fst e \<and> fst e \<le> hi) h))"

lemma window_sum_simps [simp]:
  "window_sum [] lo hi = 0"
  "window_sum (e # h) lo hi = (if lo < fst e \<and> fst e \<le> hi then snd e else 0) + window_sum h lo hi"
  "window_sum (h @ h') lo hi = window_sum h lo hi + window_sum h' lo hi"
  by (simp_all add: window_sum_def)

lemma window_sum_split: "lo \<le> mid \<Longrightarrow> mid \<le> hi \<Longrightarrow> window_sum h lo hi = window_sum h lo mid + window_sum h mid hi"
  by (induction h) auto

lemma window_sum_above: "\<forall>e\<in>set h. fst e \<le> lo \<Longrightarrow> window_sum h lo hi = 0"
  by (induction h) auto

lemma window_sum_empty: "hi \<le> lo \<Longrightarrow> window_sum h lo hi = 0"
  by (induction h) auto

text \<open>Every run of events less than a window apart has a sum that a bin can hold.\<close>

definition sums_fit :: "nat \<Rightarrow> int \<Rightarrow> (int \<times> int) list \<Rightarrow> bool" where
  "sums_fit b B h \<longleftrightarrow> (\<forall>ms\<in>set (sublists h). ms \<noteq> [] \<longrightarrow> fst (last ms) < fst (hd ms) + B \<longrightarrow>
     - (2 ^ (b - 1)) \<le> sum_list (map snd ms) \<and> sum_list (map snd ms) < 2 ^ (b - 1))"

lemma sums_fit_sublist: "sums_fit b B h \<Longrightarrow> sublist h' h \<Longrightarrow> sums_fit b B h'"
  unfolding sums_fit_def set_sublists_eq using sublist_order.order.trans by blast

lemma sorted_filter_sublist:
  assumes "sorted (map fst (h :: (int \<times> int) list))"
  shows "sublist (filter (\<lambda>e. lo < fst e \<and> fst e \<le> hi) h) h"
  using assms
proof (induction h)
  case (Cons e h)
  let ?P = "\<lambda>e. lo < fst e \<and> fst e \<le> hi"
  have IH: "sublist (filter ?P h) h" using Cons by simp
  show ?case
  proof (cases "?P e")
    case True
    have "filter ?P h = takeWhile ?P h" using Cons.prems True
    proof (induction h)
      case (Cons x xs)
      show ?case
      proof (cases "?P x")
        case False
        then have "hi < fst x" using Cons.prems by auto
        then have none: "filter ?P (x # xs) = []" using Cons.prems(1) by (auto simp: filter_empty_conv)
        show ?thesis unfolding none using False by simp
      qed (use Cons in simp)
    qed simp
    then have "e # h = filter ?P (e # h) @ dropWhile ?P h" using True by simp
    then show ?thesis unfolding sublist_def by (intro exI [of _ "[]"] exI [of _ "dropWhile ?P h"]) (simp only: append_Nil)
  next
    case False
    then have none: "filter ?P (e # h) = filter ?P h" by (simp only: filter.simps if_False)
    show ?thesis unfolding none using IH by (simp add: sublist_Cons_right)
  qed
qed simp

lemma window_sum_fits:
  assumes "sorted (map fst h)" "sums_fit b B h" "hi \<le> lo + B" "0 < b"
  shows "narrow b (window_sum h lo hi) = window_sum h lo hi"
proof (cases "filter (\<lambda>e. lo < fst e \<and> fst e \<le> hi) h = []")
  case False
  let ?ms = "filter (\<lambda>e. lo < fst e \<and> fst e \<le> hi) h"
  have "hd ?ms \<in> set ?ms" "last ?ms \<in> set ?ms" using False by (rule hd_in_set, rule last_in_set)
  then have "lo < fst (hd ?ms)" "fst (last ?ms) \<le> hi" by simp_all
  then have "fst (last ?ms) < fst (hd ?ms) + B" using assms(3) by simp
  moreover have "?ms \<in> set (sublists h)" using sorted_filter_sublist [OF assms(1)] by (simp add: set_sublists_eq)
  ultimately show ?thesis using assms(2,4) False unfolding sums_fit_def window_sum_def by (intro narrow_id) blast+
qed (simp add: window_sum_def narrow_0 assms(4))

section \<open>The two windows\<close>

definition fw_ok :: "fw_options \<Rightarrow> bool" where
  "fw_ok O' \<longleftrightarrow> fo_log2_bin_count O' \<le> 29 \<and> 0 < fo_bin_bits O' \<and> fo_bin_bits O' \<le> 32 \<and> 0 < fo_time_bits O'"

text \<open>The first bin of the aligned window of an index, and the prefix sums from it.\<close>

definition window_base :: "fw_options \<Rightarrow> int \<Rightarrow> int" where
  "window_base O' i = i div bin_count O' * bin_count O'"

definition sums_from :: "(int \<times> int) list \<Rightarrow> int \<Rightarrow> int \<Rightarrow> int" where
  "sums_from h base x = window_sum h (base - 1) (base + x - 1)"

definition windows_hold :: "fw_options \<Rightarrow> (int \<times> int) list \<Rightarrow> int \<Rightarrow> int list \<Rightarrow> int list \<Rightarrow> bool" where
  "windows_hold O' h i fw bw \<longleftrightarrow> tree_of O' fw (sums_from h (window_base O' i)) \<and>
     tree_of O' bw (sums_from h (window_base O' i - bin_count O'))"

lemma mask_mod:
  assumes "0 \<le> (x::int)"
  shows "x AND (2 ^ n - 1) = x mod 2 ^ n"
  by (simp add: take_bit_eq_mod flip: take_bit_eq_mask mask_eq_exp_minus_1)

lemma position_eq:
  assumes "fw_ok O'" "0 \<le> i"
  shows "position O' i = i mod (2 * bin_count O')"
    and "position O' i \<ge> bin_count O' \<longleftrightarrow> odd (i div bin_count O')"
    and "position O' i AND (bin_count O' - 1) = i mod bin_count O'"
proof -
  let ?k = "fo_log2_bin_count O'"
  have two: "2 * bin_count O' = 2 ^ Suc ?k" by (simp add: bin_count_def)
  have "(2::int) ^ Suc ?k dvd 2 ^ 32" using assms(1) by (intro le_imp_power_dvd) (simp add: fw_ok_def)
  then show pos: "position O' i = i mod (2 * bin_count O')"
    unfolding position_def two by (simp add: mask_mod mod_mod_cancel del: power_Suc)
  have r: "i mod (2 * bin_count O') = bin_count O' * (i div bin_count O' mod 2) + i mod bin_count O'"
    using zmod_zmult2_eq [of 2 i "bin_count O'"] by (simp add: mult.commute)
  have m: "0 \<le> i mod bin_count O'" "i mod bin_count O' < bin_count O'" by simp_all
  show "position O' i \<ge> bin_count O' \<longleftrightarrow> odd (i div bin_count O')"
    using m by (cases "even (i div bin_count O')") (simp_all add: pos r odd_iff_mod_2_eq_one not_le)
  have "bin_count O' - 1 = 2 ^ ?k - 1" by (simp add: bin_count_def)
  then have "position O' i AND (bin_count O' - 1) = position O' i mod bin_count O'"
    using mask_mod [of "position O' i" ?k] by (simp add: pos bin_count_def)
  also have "\<dots> = i mod bin_count O'" by (simp add: pos mod_mod_cancel)
  finally show "position O' i AND (bin_count O' - 1) = i mod bin_count O'" .
qed

lemma window_base_bounds: "window_base O' i \<le> i" "i < window_base O' i + bin_count O'"
  "window_base O' i + i mod bin_count O' = i"
proof -
  show eq: "window_base O' i + i mod bin_count O' = i" by (simp add: window_base_def)
  have "0 \<le> i mod bin_count O'" "i mod bin_count O' < bin_count O'" by simp_all
  with eq show "window_base O' i \<le> i" "i < window_base O' i + bin_count O'" by linarith+
qed

lemma windows_add:
  assumes "windows_hold O' h i fw bw"
  obtains fw' where "add_loop O' increment (i mod bin_count O' + 1) fw = Some fw'"
    "windows_hold O' (h @ [(i, increment)]) i fw' bw"
proof -
  note wb = window_base_bounds [where O' = O' and i = i]
  have u: "0 < i mod bin_count O' + 1" using pos_mod_sign [of "bin_count O'" i] by simp
  obtain fw' where fw': "add_loop O' increment (i mod bin_count O' + 1) fw = Some fw'"
    "tree_of O' fw' (\<lambda>x. sums_from h (window_base O' i) x + (if i mod bin_count O' + 1 \<le> x then increment else 0))"
    using tree_of_add [OF _ u] assms unfolding windows_hold_def by blast
  have "tree_of O' fw' (sums_from (h @ [(i, increment)]) (window_base O' i))"
    by (rule tree_of_cong [OF fw'(2)]) (use wb in \<open>auto simp: sums_from_def\<close>)
  moreover have "tree_of O' bw (sums_from (h @ [(i, increment)]) (window_base O' i - bin_count O'))"
    by (rule tree_of_cong [where S = "sums_from h (window_base O' i - bin_count O')"])
      (use wb assms in \<open>auto simp: sums_from_def windows_hold_def\<close>)
  ultimately show ?thesis using fw'(1) that by (simp add: windows_hold_def)
qed

lemma sums_from_fits:
  assumes "fw_ok O'" "sorted (map fst h)" "sums_fit (fo_bin_bits O') (bin_count O') h"
  shows "tree_fits O' (sums_from h base)"
  unfolding tree_fits_def
proof (intro allI impI)
  fix v assume v: "0 < v \<and> v \<le> bin_count O'"
  then have lb: "0 < low_bit v" "low_bit v \<le> v" using low_bit_bounds by simp_all
  have "sums_from h base v - sums_from h base (v - low_bit v) = window_sum h (base + v - low_bit v - 1) (base + v - 1)"
    unfolding sums_from_def using lb window_sum_split [of "base - 1" "base + (v - low_bit v) - 1" "base + v - 1" h]
    by (simp add: algebra_simps)
  moreover have "narrow (fo_bin_bits O') (window_sum h (base + v - low_bit v - 1) (base + v - 1)) =
    window_sum h (base + v - low_bit v - 1) (base + v - 1)"
    by (rule window_sum_fits [OF assms(2,3)]) (use v lb assms(1) in \<open>simp_all add: fw_ok_def\<close>)
  ultimately show "narrow (fo_bin_bits O') (sums_from h base v - sums_from h base (v - low_bit v)) =
    sums_from h base v - sums_from h base (v - low_bit v)" by simp
qed

lemma low_bit_bin_count: "low_bit (bin_count O') = bin_count O'"
proof -
  have "low_bit (2 ^ k) = 2 ^ k" for k by (induction k) (use low_bit_odd [of 0] in \<open>simp_all add: low_bit_double\<close>)
  then show ?thesis by (simp add: bin_count_def)
qed

lemma narrow_32_of: "narrow b x = x \<Longrightarrow> 0 < b \<Longrightarrow> b \<le> 32 \<Longrightarrow> narrow 32 x = x"
proof -
  assume a: "narrow b x = x" "0 < b" "b \<le> 32"
  have "(2::int) ^ (b - 1) \<le> 2 ^ (32 - 1)" using a by (intro power_increasing) simp_all
  then show ?thesis using narrow_bounds [OF a(2), of x] a(1) by (intro narrow_id) linarith+
qed

lemma windows_count:
  assumes "fw_ok O'" "windows_hold O' h i (fe_window F front) (fe_window F (\<not> front))"
    and "sorted (map fst h)" "sums_fit (fo_bin_bits O') (bin_count O') h"
  shows "count_impl O' (i mod bin_count O' + 1) front F = window_sum h (i - bin_count O') i"
proof -
  let ?B = "bin_count O'" and ?fb = "window_base O' i" and ?b = "fo_bin_bits O'"
  let ?S = "sums_from h ?fb" and ?T = "sums_from h (?fb - ?B)" and ?r = "i mod ?B + 1"
  note wb = window_base_bounds [where O' = O' and i = i]
  have fits: "0 < ?b" "?b \<le> 32" using assms(1) by (simp_all add: fw_ok_def)
  have r: "0 \<le> ?r" "?r \<le> ?B" using wb by linarith+
  have tree: "tree_of O' (fe_window F front) ?S" "tree_of O' (fe_window F (\<not> front)) ?T"
    using assms(2) by (simp_all add: windows_hold_def)
  have ft: "tree_fits O' ?S" "tree_fits O' ?T" by (rule sums_from_fits [OF assms(1,3,4)])+
  have T0: "?T 0 = 0" "?S 0 = 0" by (simp_all add: sums_from_def window_sum_empty)
  have acc2: "narrow ?b (?T ?B) = ?T ?B"
    using ft(2) [unfolded tree_fits_def, rule_format, of ?B] T0 by (simp add: low_bit_bin_count)
  have acc1: "fe_window F (\<not> front) ! nat (?B - 1) = ?T ?B"
    using tree(2) [unfolded tree_of_def, THEN conjunct2, rule_format, of ?B] T0 acc2 by (simp add: low_bit_bin_count)
  have "count_impl O' ?r front F = narrow 32 (?T ?B + (?S ?r - ?S 0) - (?T ?r - ?T 0))"
    unfolding count_impl_def Let_def acc1
    by (rule count_loop_spec [OF tree ft r narrow_32_of [OF acc2 fits]])
  also have "?T ?B + (?S ?r - ?S 0) - (?T ?r - ?T 0) = window_sum h (i - ?B) i"
  proof -
    have "?T ?B = ?T ?r + window_sum h (i - ?B) (?fb - 1)" unfolding sums_from_def
      using window_sum_split [of "?fb - ?B - 1" "?fb - ?B + ?r - 1" "?fb - ?B + ?B - 1" h] wb r by (simp add: algebra_simps)
    moreover have "window_sum h (i - ?B) i = window_sum h (i - ?B) (?fb - 1) + ?S ?r" unfolding sums_from_def
      using window_sum_split [of "i - ?B" "?fb - 1" i h] wb by (simp add: algebra_simps)
    ultimately show ?thesis using T0 by simp
  qed
  also have "narrow 32 (window_sum h (i - ?B) i) = window_sum h (i - ?B) i"
    by (rule narrow_32_of [OF window_sum_fits [OF assms(3,4)] fits]) (use fits in simp_all)
  finally show ?thesis .
qed

section \<open>Additions\<close>

text \<open>
  What the object has after the events \<open>h\<close>: the trees hold a suffix of them, which has every
  event of the current window.
\<close>

definition fenwick_inv :: "fw_options \<Rightarrow> (int \<times> int) list \<Rightarrow> fenwick_window \<Rightarrow> bool" where
  "fenwick_inv O' h F \<longleftrightarrow> (let i = fe_time_index F; front = fe_front_window F in
     0 \<le> i \<and> front = odd (i div bin_count O') \<and> sorted (map fst h) \<and> (\<forall>e\<in>set h. fst e \<le> i) \<and>
     (\<exists>h'. suffix h' h \<and> windows_hold O' h' i (fe_window F front) (fe_window F (\<not> front)) \<and>
       (\<forall>lo hi. i - bin_count O' \<le> lo \<longrightarrow> window_sum h' lo hi = window_sum h lo hi)))"

lemma suffix_facts:
  assumes "suffix h' h" "sorted (map fst h)" "\<forall>e\<in>set h. fst e \<le> (i :: int)" "sums_fit b B h"
  shows "sorted (map fst h')" "\<forall>e\<in>set h'. fst e \<le> i" "sums_fit b B h'"
proof -
  from assms(1) obtain pre where pre: "h = pre @ h'" by (auto simp: suffix_def)
  show "sorted (map fst h')" "\<forall>e\<in>set h'. fst e \<le> i" using assms(2,3) by (simp_all add: pre sorted_append)
  show "sums_fit b B h'" by (rule sums_fit_sublist [OF assms(4) suffix_imp_sublist [OF assms(1)]])
qed

lemma fenwick_count_spec:
  assumes "fw_ok O'" "fenwick_inv O' h F" "sums_fit (fo_bin_bits O') (bin_count O') h"
  shows "fenwick_count O' F = window_sum h (fe_time_index F - bin_count O') (fe_time_index F)"
proof -
  let ?i = "fe_time_index F"
  from assms(2) obtain h' where inv: "0 \<le> ?i" "sorted (map fst h)" "\<forall>e\<in>set h. fst e \<le> ?i" and h': "suffix h' h"
    "windows_hold O' h' ?i (fe_window F (fe_front_window F)) (fe_window F (\<not> fe_front_window F))"
    "\<And>lo hi. ?i - bin_count O' \<le> lo \<Longrightarrow> window_sum h' lo hi = window_sum h lo hi"
    unfolding fenwick_inv_def Let_def by blast
  note sf = suffix_facts [OF h'(1) inv(2,3) assms(3)]
  show ?thesis unfolding fenwick_count_def position_eq(3) [OF assms(1) inv(1)]
    using windows_count [OF assms(1) h'(2) sf(1,3)] h'(3) [of "?i - bin_count O'"] by simp
qed

text \<open>The three cases of \<open>add\<close> prepare the windows for the new index.\<close>

lemma windows_reset:
  assumes "fw_ok O'"
  shows "windows_hold O' [] i (replicate (nat (bin_count O')) 0) (replicate (nat (bin_count O')) 0)"
proof -
  have "sums_from [] base = (\<lambda>_. 0)" for base by (rule ext) (simp add: sums_from_def)
  then show ?thesis using tree_of_zero [of O'] assms by (simp add: windows_hold_def fw_ok_def)
qed

lemma windows_roll:
  assumes "fw_ok O'" "windows_hold O' h c fw bw" "\<forall>e\<in>set h. fst e \<le> c" "i div bin_count O' = c div bin_count O' + 1"
  shows "windows_hold O' h i (replicate (nat (bin_count O')) 0) fw"
proof -
  have base: "window_base O' i = window_base O' c + bin_count O'" by (simp add: window_base_def assms(4) algebra_simps)
  have "fst e \<le> window_base O' i - 1" if "e \<in> set h" for e
    using assms(3) that window_base_bounds(2) [of c O'] base by fastforce
  then have "sums_from h (window_base O' i) = (\<lambda>_. 0)"
    by (intro ext) (simp add: sums_from_def window_sum_above)
  then show ?thesis using assms(1,2) tree_of_zero [of O'] by (simp add: windows_hold_def base fw_ok_def)
qed

lemma div_next:
  assumes "c \<le> i" "i < c + bin_count O'"
  shows "i div bin_count O' = c div bin_count O' \<or> i div bin_count O' = c div bin_count O' + 1"
proof -
  have "c div bin_count O' \<le> i div bin_count O'" using assms(1) by (intro zdiv_mono1) simp_all
  moreover have "i div bin_count O' \<le> (c + bin_count O') div bin_count O'" using assms(2) by (intro zdiv_mono1) simp_all
  moreover have "(c + bin_count O') div bin_count O' = c div bin_count O' + 1"
    by (intro div_add_self2) (simp add: bin_count_def)
  ultimately show ?thesis by linarith
qed

definition fenwick_prepare :: "fw_options \<Rightarrow> int \<Rightarrow> bool \<Rightarrow> fenwick_window \<Rightarrow> fenwick_window" where
  "fenwick_prepare O' i front F = (let zero = replicate (nat (bin_count O')) 0 in
     if i \<ge> fe_time_index F + bin_count O' then F\<lparr>fe_front_window := front, fe_window := (\<lambda>_. zero)\<rparr>
     else if front \<noteq> fe_front_window F then
       F\<lparr>fe_front_window := front, fe_window := (fe_window F)(front := zero)\<rparr>
     else F)"

lemma fenwick_prepare_spec:
  assumes "fw_ok O'" "fenwick_inv O' h F" "fe_time_index F \<le> i" "front = odd (i div bin_count O')"
  obtains h' where "suffix h' h"
    "windows_hold O' h' i (fe_window (fenwick_prepare O' i front F) front) (fe_window (fenwick_prepare O' i front F) (\<not> front))"
    "\<And>lo hi. i - bin_count O' \<le> lo \<Longrightarrow> window_sum h' lo hi = window_sum h lo hi"
    "fe_front_window (fenwick_prepare O' i front F) = front"
proof -
  let ?c = "fe_time_index F" and ?B = "bin_count O'"
  from assms(2) obtain h' where inv: "0 \<le> ?c" "fe_front_window F = odd (?c div ?B)" "sorted (map fst h)" "\<forall>e\<in>set h. fst e \<le> ?c"
    and h': "suffix h' h" "windows_hold O' h' ?c (fe_window F (fe_front_window F)) (fe_window F (\<not> fe_front_window F))"
      "\<And>lo hi. ?c - ?B \<le> lo \<Longrightarrow> window_sum h' lo hi = window_sum h lo hi"
    unfolding fenwick_inv_def Let_def by blast
  have le: "\<forall>e\<in>set h'. fst e \<le> ?c" using inv(4) h'(1) by (auto simp: suffix_def)
  show ?thesis
  proof (cases "i \<ge> ?c + ?B")
    case True
    then have "window_sum h lo hi = 0" if "i - ?B \<le> lo" for lo hi
      using that inv(4) by (intro window_sum_above) force
    then show ?thesis using True windows_reset [OF assms(1)] by (intro that [of "[]"]) (simp_all add: fenwick_prepare_def)
  next
    case False
    have agree: "window_sum h' lo hi = window_sum h lo hi" if "i - ?B \<le> lo" for lo hi
      using that assms(3) by (intro h'(3)) simp
    from div_next [of ?c i O'] False assms(3) have next_div: "i div ?B = ?c div ?B \<or> i div ?B = ?c div ?B + 1" by simp
    show ?thesis
    proof (cases "front = fe_front_window F")
      case same: True
      then have eq: "i div ?B = ?c div ?B" using next_div inv(2) assms(4) by auto
      then have "windows_hold O' h' i = windows_hold O' h' ?c" by (intro ext) (simp add: windows_hold_def window_base_def)
      then show ?thesis using h' same False agree by (intro that [of h']) (simp_all add: fenwick_prepare_def)
    next
      case differ: False
      then have "i div ?B = ?c div ?B + 1" using next_div inv(2) assms(4) by auto
      from windows_roll [OF assms(1) h'(2) le this] show ?thesis
        using h'(1) differ False agree by (intro that [of h']) (simp_all add: fenwick_prepare_def)
    qed
  qed
qed

lemma fenwick_add_spec:
  assumes "fw_ok O'" "fenwick_inv O' h F" "0 \<le> i" "i = time_index_of O' time"
    and "sums_fit (fo_bin_bits O') (bin_count O') (h @ [(i, increment)])"
  shows "i < fe_time_index F \<Longrightarrow> fenwick_add O' True time increment F = Some (Inl Check_failure)"
    and "fe_time_index F \<le> i \<Longrightarrow> \<exists>F'. fenwick_add O' True time increment F =
      Some (Inr (window_sum (h @ [(i, increment)]) (i - bin_count O') i, F')) \<and>
      fenwick_inv O' (h @ [(i, increment)]) F' \<and> fe_time_index F' = i"
proof -
  let ?B = "bin_count O'" and ?h = "h @ [(i, increment)]"
  define front where "front = odd (i div ?B)"
  note pos = position_eq [OF assms(1,3)]
  show "fenwick_add O' True time increment F = Some (Inl Check_failure)" if "i < fe_time_index F"
  proof -
    have "\<not> i \<ge> fe_time_index F + ?B" using that bin_count_pos [of O'] by linarith
    then show ?thesis using that by (simp add: fenwick_add_def Let_def flip: assms(4))
  qed
  assume le: "fe_time_index F \<le> i"
  let ?F1 = "fenwick_prepare O' i front F"
  obtain h' where h': "suffix h' h" "windows_hold O' h' i (fe_window ?F1 front) (fe_window ?F1 (\<not> front))"
    "\<And>lo hi. i - ?B \<le> lo \<Longrightarrow> window_sum h' lo hi = window_sum h lo hi" "fe_front_window ?F1 = front"
    using fenwick_prepare_spec [OF assms(1,2) le front_def] by blast
  obtain fw' where fw': "add_loop O' increment (i mod ?B + 1) (fe_window ?F1 front) = Some fw'"
    "windows_hold O' (h' @ [(i, increment)]) i fw' (fe_window ?F1 (\<not> front))"
    using windows_add [OF h'(2)] by blast
  define F2 where "F2 = ?F1\<lparr>fe_window := (fe_window ?F1)(front := fw'), fe_time_index := i\<rparr>"
  have w2: "fe_window F2 front = fw'" "fe_window F2 (\<not> front) = fe_window ?F1 (\<not> front)" "fe_time_index F2 = i"
    "fe_front_window F2 = front" by (simp_all add: F2_def h'(4))
  have srt: "sorted (map fst ?h)" "\<forall>e\<in>set ?h. fst e \<le> i"
    using assms(2) le unfolding fenwick_inv_def Let_def by (auto simp: sorted_append intro: order_trans)
  have suf: "suffix (h' @ [(i, increment)]) ?h" using h'(1) by simp
  have agree: "window_sum (h' @ [(i, increment)]) lo hi = window_sum ?h lo hi" if "i - ?B \<le> lo" for lo hi
    using h'(3) [OF that, of hi] by simp
  have inv2: "fenwick_inv O' ?h F2" unfolding fenwick_inv_def Let_def w2
    using assms(3) front_def srt suf fw'(2) agree by blast
  note sf = suffix_facts [OF suf srt assms(5)]
  have count: "count_impl O' (i mod ?B + 1) front F2 = window_sum ?h (i - ?B) i"
    using windows_count [OF assms(1) _ sf(1,3), of i F2 front] fw'(2) agree [of "i - ?B" i] w2 by simp
  have "fenwick_add O' True time increment F = Some (Inr (count_impl O' (i mod ?B + 1) front F2, F2))"
    unfolding fenwick_add_def Let_def assms(4) [symmetric] pos(2,3) front_def [symmetric]
    using le fw'(1) by (simp add: fenwick_prepare_def Let_def F2_def split: if_splits)
  then show "\<exists>F'. fenwick_add O' True time increment F = Some (Inr (window_sum ?h (i - ?B) i, F')) \<and>
      fenwick_inv O' ?h F' \<and> fe_time_index F' = i" using inv2 w2(3) count by auto
qed

section \<open>Runs\<close>

text \<open>
  What a run of additions is to return, from the events before it and the index reached: for each
  event the sum over the \<open>bin_count\<close> bins that end in its own, until time goes back.
\<close>

primrec window_spec :: "fw_options \<Rightarrow> (int \<times> int) list \<Rightarrow> (int \<times> int) list \<Rightarrow> int \<Rightarrow> int list result" where
  "window_spec O' [] h c = Inr []"
| "window_spec O' (e # es) h c = (let i = fst e; h' = h @ [e] in
     if i < c then Inl Check_failure
     else bind_r (window_spec O' es h' i) (\<lambda>counts. Inr (window_sum h' (i - bin_count O') i # counts)))"

definition indexed :: "fw_options \<Rightarrow> (int \<times> int) list \<Rightarrow> (int \<times> int) list" where
  "indexed O' es = map (\<lambda>(time, increment). (time_index_of O' time, increment)) es"

lemma time_index_of_eq:
  assumes "0 \<le> time" "time < 2 ^ (fo_time_bits O' - 1)" "0 < fo_time_bits O'"
  shows "time_index_of O' time = time div 2 ^ fo_log2_bin_width O'"
proof -
  have "(2::int) ^ (fo_time_bits O' - 1) \<le> 2 ^ fo_time_bits O'" by (intro power_increasing) simp_all
  then have "time mod 2 ^ fo_time_bits O' = time" using assms by (intro mod_pos_pos_trivial) linarith+
  moreover have "0 \<le> time div 2 ^ fo_log2_bin_width O'" "time div 2 ^ fo_log2_bin_width O' \<le> time"
    using assms(1) zdiv_mono2 [of time 1 "2 ^ fo_log2_bin_width O'"] by (simp_all add: pos_imp_zdiv_nonneg_iff)
  ultimately show ?thesis unfolding time_index_of_def
    using assms by (simp add: narrow_id)
qed

lemma fenwick_run_spec:
  assumes "fw_ok O'" "\<forall>e\<in>set es. 0 \<le> fst e \<and> fst e < 2 ^ (fo_time_bits O' - 1)"
    and "fenwick_inv O' h F" "sums_fit (fo_bin_bits O') (bin_count O') (h @ indexed O' es)"
  shows "case window_spec O' (indexed O' es) h (fe_time_index F) of
      Inl x \<Rightarrow> fenwick_run O' es F = Some (Inl x)
    | Inr counts \<Rightarrow> \<exists>F'. fenwick_run O' es F = Some (Inr (counts, F')) \<and> fenwick_inv O' (h @ indexed O' es) F'"
  using assms(2-4)
proof (induction es arbitrary: h F)
  case Nil
  then show ?case by (simp add: indexed_def)
next
  case (Cons e es)
  let ?i = "time_index_of O' (fst e)" and ?inc = "snd e"
  let ?h = "h @ [(?i, ?inc)]"
  have idx: "indexed O' (e # es) = (?i, ?inc) # indexed O' es" by (simp add: indexed_def case_prod_unfold)
  have i: "0 \<le> ?i" using Cons.prems(1) assms(1) by (simp add: time_index_of_eq fw_ok_def pos_imp_zdiv_nonneg_iff)
  have fit: "sums_fit (fo_bin_bits O') (bin_count O') ?h"
    by (rule sums_fit_sublist [OF Cons.prems(3)]) (simp add: idx sublist_def, metis append_Nil)
  note step = fenwick_add_spec [OF assms(1) Cons.prems(2) i refl fit]
  show ?case
  proof (cases "?i < fe_time_index F")
    case True
    then show ?thesis using step(1) by (simp add: idx)
  next
    case False
    then obtain F1 where F1: "fenwick_add O' True (fst e) ?inc F = Some (Inr (window_sum ?h (?i - bin_count O') ?i, F1))"
      "fenwick_inv O' ?h F1" "fe_time_index F1 = ?i" using step(2) by force
    from Cons.IH [OF _ F1(2)] Cons.prems(1,3) have
      "case window_spec O' (indexed O' es) ?h ?i of
        Inl x \<Rightarrow> fenwick_run O' es F1 = Some (Inl x)
      | Inr counts \<Rightarrow> \<exists>F'. fenwick_run O' es F1 = Some (Inr (counts, F')) \<and> fenwick_inv O' (?h @ indexed O' es) F'"
      by (simp add: idx F1(3))
    then show ?thesis using False F1(1) by (auto simp: idx Let_def split: sum.splits)
  qed
qed

lemma fenwick_new_inv:
  assumes "fw_ok O'" "0 \<le> start" "start < 2 ^ (fo_time_bits O' - 1)"
  obtains F where "fenwick_new O' start = Inr F" "fenwick_inv O' [] F" "fe_time_index F = time_index_of O' start"
proof -
  have i: "0 \<le> time_index_of O' start" using assms by (simp add: time_index_of_eq fw_ok_def pos_imp_zdiv_nonneg_iff)
  show ?thesis
    by (rule that) (use assms(2) i position_eq(2) [OF assms(1) i] windows_reset [OF assms(1)] in
      \<open>auto simp: fenwick_new_def Let_def fenwick_inv_def\<close>)
qed

text \<open>
  C37: the window counter returns, for every addition in a run from a fresh object, exactly the sum of
  the increments whose bins are among the \<open>bin_count\<close> bins that end at the new event's, and \<open>count\<close>
  afterwards is the sum for the time reached; when time goes back to an earlier bin, the check fails and
  the run ends there. The hypotheses: times are non-negative values of their type, and no run of
  events less than a window apart sums to more than a bin can hold.
\<close>

theorem fenwick_counts_window:
  assumes "fw_ok O'" "0 \<le> start" "start < 2 ^ (fo_time_bits O' - 1)"
    and "\<forall>e\<in>set es. 0 \<le> fst e \<and> fst e < 2 ^ (fo_time_bits O' - 1)"
    and "sums_fit (fo_bin_bits O') (bin_count O') (indexed O' es)"
  shows "\<exists>F. fenwick_new O' start = Inr F \<and>
    (case window_spec O' (indexed O' es) [] (time_index_of O' start) of
      Inl x \<Rightarrow> fenwick_run O' es F = Some (Inl x)
    | Inr counts \<Rightarrow> \<exists>F'. fenwick_run O' es F = Some (Inr (counts, F')) \<and>
        fenwick_count O' F' = window_sum (indexed O' es) (fe_time_index F' - bin_count O') (fe_time_index F'))"
proof -
  obtain F where F: "fenwick_new O' start = Inr F" "fenwick_inv O' [] F" "fe_time_index F = time_index_of O' start"
    by (rule fenwick_new_inv [OF assms(1-3)])
  have "case window_spec O' (indexed O' es) [] (time_index_of O' start) of
      Inl x \<Rightarrow> fenwick_run O' es F = Some (Inl x)
    | Inr counts \<Rightarrow> \<exists>F'. fenwick_run O' es F = Some (Inr (counts, F')) \<and> fenwick_inv O' (indexed O' es) F'"
    using fenwick_run_spec [OF assms(1,4) F(2)] assms(5) unfolding F(3) append_Nil .
  then show ?thesis using F(1) fenwick_count_spec [OF assms(1) _ assms(5)]
    by (auto split: sum.splits intro: exI [of _ F])
qed

lemma fenwick_counts_window_witness:
  "\<exists>F. fenwick_new \<lparr>fo_log2_bin_count = 1, fo_log2_bin_width = 1, fo_bin_bits = 8, fo_time_bits = 16\<rparr> 3 = Inr F \<and>
    (\<exists>F'. fenwick_run \<lparr>fo_log2_bin_count = 1, fo_log2_bin_width = 1, fo_bin_bits = 8, fo_time_bits = 16\<rparr>
      [(3, 5), (4, 7), (6, 1)] F = Some (Inr ([5, 12, 8], F')))"
  using fenwick_counts_window [of "\<lparr>fo_log2_bin_count = 1, fo_log2_bin_width = 1, fo_bin_bits = 8, fo_time_bits = 16\<rparr>" 3
      "[(3, 5), (4, 7), (6, 1)]"]
  by (auto simp: fw_ok_def sums_fit_def indexed_def time_index_of_def narrow_def bin_count_def Let_def)

end
