(* ===== verification/Market_View.thy ===== *)
theory Market_View
  imports Book_Feed
begin

text \<open>
  The books of several instruments over one arena of pools,
  \<^verbatim>\<open>vr/market/books/asx/market_data_view.h\<close>: a table from instrument ids to books. Each book sees
  the whole arena, so what keeps the books apart is that none touches what another holds.
\<close>

section \<open>State\<close>

text \<open>
  \<open>mv_books\<close> is the array \<open>m_liid_map\<close> by local instrument id; a pointer into it is a place in it. The
  arena is the two pools, which every book refers to.
\<close>

record ('l, 'pm) market_view =
  mv_iid_map :: "(int, nat) cst"
  mv_order_pool :: "lob_order pool"
  mv_level_pool :: "'l lob_level pool"
  mv_books :: "(side \<Rightarrow> 'pm book_side) list"

definition view_book :: "('l, 'pm) market_view \<Rightarrow> nat \<Rightarrow> ('l, 'pm) lob" where
  "view_book V i = \<lparr>b_order_pool = mv_order_pool V, b_level_pool = mv_level_pool V, b_side = mv_books V ! i\<rparr>"

definition set_book :: "nat \<Rightarrow> ('l, 'pm) lob \<Rightarrow> ('l, 'pm) market_view \<Rightarrow> ('l, 'pm) market_view" where
  "set_book i b V = V\<lparr>mv_order_pool := b_order_pool b, mv_level_pool := b_level_pool b, mv_books := (mv_books V)[i := b_side b]\<rparr>"

text \<open>
  Construction: \<open>rd\<close> is the lookup of the reference data, from a symbol to its instrument id, and
  \<open>symbols\<close> the symbols of the configuration by local id.
\<close>

primrec view_fill :: "('l, 'pm) lob_env \<Rightarrow> int cst_traits \<Rightarrow> (string \<Rightarrow> int result) \<Rightarrow> string list \<Rightarrow> ('l, 'pm) market_view \<Rightarrow>
    ('l, 'pm) market_view result option" where
  "view_fill E T rd [] V = Some (Inr V)"
| "view_fill E T rd (symbol # symbols) V =
     bind_ro (Some (rd symbol)) (\<lambda>iid.
     bind_ro (Some (lob_new E (mv_order_pool V) (mv_level_pool V))) (\<lambda>b.
     bind_ro (cst_put T iid (length (mv_books V)) (mv_iid_map V)) (\<lambda>iids.
       view_fill E T rd symbols (V\<lparr>mv_iid_map := iids, mv_books := mv_books V @ [b_side b]\<rparr>))))"

definition view_new :: "('l, 'pm) lob_env \<Rightarrow> int cst_traits \<Rightarrow> (string \<Rightarrow> int result) \<Rightarrow> string list \<Rightarrow> lob_order pool \<Rightarrow>
    'l lob_level pool \<Rightarrow> ('l, 'pm) market_view result option" where
  "view_new E T rd symbols order_pool level_pool =
     bind_ro (Some (cst_new T (int (length symbols)))) (\<lambda>iids.
     bind_ro (view_fill E T rd symbols
       \<lparr>mv_iid_map = iids, mv_order_pool = order_pool, mv_level_pool = level_pool, mv_books = []\<rparr>) (\<lambda>V.
     bind_ro (cst_rehash T (int (m_size (mv_iid_map V))) (mv_iid_map V)) (\<lambda>iids.
       if m_size iids \<noteq> length symbols then Some (Inl Check_failure)
       else Some (Inr (V\<lparr>mv_iid_map := iids\<rparr>)))))"

text \<open>\<open>size\<close> and \<open>operator[]\<close>; the result of the latter is null for an instrument that is not in the view.\<close>

definition view_size :: "('l, 'pm) market_view \<Rightarrow> nat" where
  "view_size V = m_size (mv_iid_map V)"

definition view_lookup :: "int cst_traits \<Rightarrow> ('l, 'pm) market_view \<Rightarrow> int \<Rightarrow> nat option option" where
  "view_lookup T V iid = cst_get T (mv_iid_map V) iid"

section \<open>Invariant and abstraction\<close>

definition books_apart :: "('l, 'pm) lob_env \<Rightarrow> ('l, 'pm) lob \<Rightarrow> ('l, 'pm) lob \<Rightarrow> bool" where
  "books_apart E b c \<longleftrightarrow> (\<forall>s t. ran (oids b s) \<inter> ran (oids c t) = {} \<and> snd ` set (nodes E b s) \<inter> snd ` set (nodes E c t) = {})"

definition view_inv :: "('l, 'pm) lob_env \<Rightarrow> int cst_traits \<Rightarrow> ('l, 'pm) market_view \<Rightarrow> bool" where
  "view_inv E T V \<longleftrightarrow> cst_inv T (mv_iid_map V) \<and>
     (\<forall>iid i. cst_map (mv_iid_map V) iid = Some i \<longrightarrow> i < length (mv_books V)) \<and>
     (\<forall>iid jid i. cst_map (mv_iid_map V) iid = Some i \<longrightarrow> cst_map (mv_iid_map V) jid = Some i \<longrightarrow> iid = jid) \<and>
     (\<forall>i < length (mv_books V). book_inv E (view_book V i)) \<and>
     (\<forall>i j. i < length (mv_books V) \<longrightarrow> j < length (mv_books V) \<longrightarrow> i \<noteq> j \<longrightarrow> books_apart E (view_book V i) (view_book V j))"

lemma view_invD:
  assumes "view_inv E T V"
  shows "cst_inv T (mv_iid_map V)" "cst_map (mv_iid_map V) iid = Some i \<Longrightarrow> i < length (mv_books V)"
    "cst_map (mv_iid_map V) iid = Some i \<Longrightarrow> cst_map (mv_iid_map V) jid = Some i \<Longrightarrow> iid = jid"
    "i < length (mv_books V) \<Longrightarrow> book_inv E (view_book V i)"
    "i < length (mv_books V) \<Longrightarrow> j < length (mv_books V) \<Longrightarrow> i \<noteq> j \<Longrightarrow> books_apart E (view_book V i) (view_book V j)"
  using assms by (auto simp: view_inv_def)

text \<open>The abstract market: the resting orders of every instrument in the view.\<close>

type_synonym market = "int \<Rightarrow> quotes option"

definition market_of :: "('l, 'pm) lob_env \<Rightarrow> ('l, 'pm) market_view \<Rightarrow> market" where
  "market_of E V iid = map_option (\<lambda>i. resting E (view_book V i)) (cst_map (mv_iid_map V) iid)"

section \<open>A visit to one book leaves the others\<close>

lemma view_book_simps [simp]:
  "b_order_pool (view_book V i) = mv_order_pool V" "b_level_pool (view_book V i) = mv_level_pool V"
  "b_side (view_book V i) = mv_books V ! i"
  by (simp_all add: view_book_def)

lemma set_book_same: "i < length (mv_books V) \<Longrightarrow> view_book (set_book i b V) i = b"
  by (simp add: view_book_def set_book_def)

lemma set_book_other: "j \<noteq> i \<Longrightarrow> view_book (set_book i b V) j = b\<lparr>b_side := mv_books V ! j\<rparr>"
  by (simp add: view_book_def set_book_def)

lemma set_book_simps [simp]:
  "mv_iid_map (set_book i b V) = mv_iid_map V" "length (mv_books (set_book i b V)) = length (mv_books V)"
  by (simp_all add: set_book_def)

text \<open>What a book holds is live in the pools.\<close>

lemma held_order: "book_inv E c \<Longrightarrow> r \<in> ran (oids c s) \<Longrightarrow> \<exists>ord. orders E c r = Some ord"
  using side_order [OF book_side_ok] by (fastforce simp: ran_def)

lemma held_level: "book_inv E c \<Longrightarrow> l \<in> snd ` set (nodes E c s) \<Longrightarrow> \<exists>lv. levels E c l = Some lv"
  using side_level [OF book_side_ok] by fastforce

lemma other_book:
  fixes b c :: "('l, 'pm) lob"
  assumes inv: "book_inv E b" "book_inv E b'" "book_inv E c" and ap: "books_apart E b c" and keep: "keeps_others E b b'"
    and shared: "b_order_pool c = b_order_pool b" "b_level_pool c = b_level_pool b"
    and c': "c' = b'\<lparr>b_side := b_side c\<rparr>"
  shows "book_inv E c'" "resting E c' = resting E c" "books_apart E b' c'"
proof -
  have sides: "b_side c' = b_side c" "b_order_pool c' = b_order_pool b'" "b_level_pool c' = b_level_pool b'" by (simp_all add: c')
  have o: "orders E c' r = orders E c r \<and> (\<forall>t. r \<notin> ran (oids b' t))" if rin: "r \<in> ran (oids c s)" for r s
  proof -
    obtain ord where ord: "orders E c r = Some ord" using held_order [OF inv(3) rin] by blast
    have out: "\<forall>t. r \<notin> ran (oids b t)" using ap rin unfolding books_apart_def by blast
    have "orders E b r = Some ord" using ord by (simp add: shared)
    with keep out have "orders E b' r = Some ord \<and> (\<forall>t. r \<notin> ran (oids b' t))" unfolding keeps_others_def by blast
    then show ?thesis by (simp add: sides ord)
  qed
  have l: "levels E c' l = levels E c l \<and> (\<forall>t. l \<notin> snd ` set (nodes E b' t))" if lin: "l \<in> snd ` set (nodes E c s)" for l s
  proof -
    obtain lv where lv: "levels E c l = Some lv" using held_level [OF inv(3) lin] by blast
    have out: "\<forall>t. l \<notin> snd ` set (nodes E b t)" using ap lin unfolding books_apart_def by blast
    have "levels E b l = Some lv" using lv by (simp add: shared)
    with keep out have "levels E b' l = Some lv \<and> (\<forall>t. l \<notin> snd ` set (nodes E b' t))" unfolding keeps_others_def by blast
    then show ?thesis by (simp add: sides lv)
  qed
  have "ran (oids b' s) \<inter> ran (oids c t) = {}" "snd ` set (nodes E b' s) \<inter> snd ` set (nodes E c t) = {}" for s t
    using o l by blast+
  then show "books_apart E b' c'" by (simp add: books_apart_def sides)
  show "book_inv E c'" unfolding book_inv_def
  proof (intro conjI allI)
    show "pool_inv (e_order_opts E) (b_order_pool c')" "pool_inv (e_level_opts E) (b_level_pool c')"
      using book_orders [OF inv(2)] book_levels [OF inv(2)] by (simp_all add: sides)
    fix s
    show "cst_inv (e_oid_traits E) (bs_oid_map (b_side c' s))" "e_pm_side E (bs_price_map (b_side c' s)) = s"
      using book_oids [OF inv(3)] book_pm [OF inv(3)] by (simp_all add: sides)
    show "side_ok E s (orders E c') (levels E c') (oids c' s) (nodes E c' s)"
      unfolding sides(1) by (rule side_ok_frame [OF book_side_ok [OF inv(3)]]) (use o l in blast)+
    show "ran (oids c' s) \<inter> ran (oids c' (side_not s)) = {}" "snd ` set (nodes E c' s) \<inter> snd ` set (nodes E c' (side_not s)) = {}"
      using book_disj [OF inv(3), of s] by (simp_all add: sides)
  qed
  show "resting E c' = resting E c"
  proof (intro ext)
    fix s oid
    show "resting E c' s oid = resting E c s oid"
    proof (cases "oids c s oid")
      case None
      then show ?thesis by (simp add: resting_def sides)
    next
      case (Some r)
      obtain ord lv where res: "orders E c r = Some ord" "levels E c (o_parent ord) = Some lv" "(l_price lv, o_parent ord) \<in> set (nodes E c s)"
        by (rule resting_Some [OF inv(3) Some])
      have "r \<in> ran (oids c s)" using Some by (auto simp: ran_def)
      with res have "orders E c' r = Some ord" using o by simp
      moreover have "o_parent ord \<in> snd ` set (nodes E c s)" using res(3) by force
      with res have "levels E c' (o_parent ord) = Some lv" using l by simp
      ultimately show ?thesis using Some res(1,2) by (simp add: resting_def sides)
    qed
  qed
qed

lemma books_apart_sym: "books_apart E b c \<Longrightarrow> books_apart E c b"
  unfolding books_apart_def by (metis inf_commute)

lemma books_apart_sides: "b_side c' = b_side c \<Longrightarrow> b_side b' = b_side b \<Longrightarrow> books_apart E b c \<Longrightarrow> books_apart E b' c'"
  by (simp add: books_apart_def)

lemma view_visit_frame:
  assumes inv: "view_inv E T V" and iid: "cst_map (mv_iid_map V) iid = Some i"
    and b': "book_inv E b'" "keeps_others E (view_book V i) b'"
  shows "view_inv E T (set_book i b' V)" "market_of E (set_book i b' V) = (market_of E V)(iid \<mapsto> resting E b')"
proof -
  note v = view_invD [OF inv]
  have i: "i < length (mv_books V)" by (rule v(2) [OF iid])
  have other: "book_inv E (view_book (set_book i b' V) j)" "resting E (view_book (set_book i b' V) j) = resting E (view_book V j)"
    "books_apart E b' (view_book (set_book i b' V) j)" if j: "j < length (mv_books V)" "j \<noteq> i" for j
    using other_book [OF v(4) [OF i] b'(1) v(4) [OF j(1)] v(5) [OF i j(1) j(2) [symmetric]] b'(2) _ _ set_book_other [OF j(2), of b' V, folded view_book_simps(3)]]
    by simp_all
  show "view_inv E T (set_book i b' V)" unfolding view_inv_def set_book_simps
  proof (intro conjI allI impI)
    show "cst_inv T (mv_iid_map V)" "cst_map (mv_iid_map V) iid = Some j \<Longrightarrow> j < length (mv_books V)"
      "cst_map (mv_iid_map V) iid = Some j \<Longrightarrow> cst_map (mv_iid_map V) jid = Some j \<Longrightarrow> iid = jid" for iid jid j
      using v by blast+
    show "book_inv E (view_book (set_book i b' V) j)" if "j < length (mv_books V)" for j
      using other(1) [OF that] set_book_same [OF i, of b'] b'(1) by (cases "j = i") simp_all
    fix j k assume jk: "j < length (mv_books V)" "k < length (mv_books V)" "j \<noteq> k"
    show "books_apart E (view_book (set_book i b' V) j) (view_book (set_book i b' V) k)"
    proof (cases "j = i")
      case True
      with other(3) [OF jk(2)] jk(3) set_book_same [OF i, of b'] show ?thesis by simp
    next
      case j: False
      show ?thesis
      proof (cases "k = i")
        case True
        with books_apart_sym [OF other(3) [OF jk(1) j]] set_book_same [OF i, of b'] show ?thesis by simp
      next
        case False
        show ?thesis by (rule books_apart_sides [OF _ _ v(5) [OF jk]]) (simp_all add: set_book_other j False)
      qed
    qed
  qed
  show "market_of E (set_book i b' V) = (market_of E V)(iid \<mapsto> resting E b')"
  proof
    fix jid
    show "market_of E (set_book i b' V) jid = ((market_of E V)(iid \<mapsto> resting E b')) jid"
    proof (cases "jid = iid")
      case True
      then show ?thesis using iid set_book_same [OF i, of b'] by (simp add: market_of_def)
    next
      case False
      then have "j \<noteq> i" if "cst_map (mv_iid_map V) jid = Some j" for j using v(3) [OF iid] that by blast
      then show ?thesis using False other(2) v(2) by (cases "cst_map (mv_iid_map V) jid") (auto simp: market_of_def)
    qed
  qed
qed

end
