(* ===== verification/Itch_Wire.thy ===== *)
theory Itch_Wire
  imports Wire Market_View
begin

text \<open>
  The ITCH messages of the exchange, \<^verbatim>\<open>vr/market/sources/asx/itch/messages.h\<close>: their types and packed
  layouts, the size of each type and where its instrument id is, and what the listener reads of the
  order messages.
\<close>

section \<open>Types\<close>

datatype message_type =
    MT_seconds | MT_end_of_snapshot
  | MT_order_book_dir | MT_combo_order_book_dir | MT_tick_size_table_entry | MT_system_event | MT_order_book_state
  | MT_auction_update | MT_order_add | MT_order_add_with_participant | MT_order_fill | MT_order_fill_with_price
  | MT_order_replace | MT_order_delete | MT_trade

primrec type_char :: "message_type \<Rightarrow> char" where
  "type_char MT_seconds = CHR ''T''"
| "type_char MT_end_of_snapshot = CHR ''G''"
| "type_char MT_order_book_dir = CHR ''R''"
| "type_char MT_combo_order_book_dir = CHR ''M''"
| "type_char MT_tick_size_table_entry = CHR ''L''"
| "type_char MT_system_event = CHR ''S''"
| "type_char MT_order_book_state = CHR ''O''"
| "type_char MT_auction_update = CHR ''Z''"
| "type_char MT_order_add = CHR ''A''"
| "type_char MT_order_add_with_participant = CHR ''F''"
| "type_char MT_order_fill = CHR ''E''"
| "type_char MT_order_fill_with_price = CHR ''C''"
| "type_char MT_order_replace = CHR ''U''"
| "type_char MT_order_delete = CHR ''D''"
| "type_char MT_trade = CHR ''P''"

text \<open>The sequence of all types, and the type of a byte, if it is one.\<close>

definition message_seq :: "message_type list" where
  "message_seq = [MT_seconds, MT_end_of_snapshot, MT_order_book_dir, MT_combo_order_book_dir, MT_tick_size_table_entry,
     MT_system_event, MT_order_book_state, MT_auction_update, MT_order_add, MT_order_add_with_participant, MT_order_fill,
     MT_order_fill_with_price, MT_order_replace, MT_order_delete, MT_trade]"

definition message_type_of :: "byte \<Rightarrow> message_type option" where
  "message_type_of b = List.find (\<lambda>mt. byte_of_char (type_char mt) = b) message_seq"

section \<open>Layouts\<close>

datatype itch_field =
    I_type | I_ts_ns | I_ts_sec | I_seqnum | I_iid | I_symbol | I_name | I_ISIN | I_product | I_ccy | I_price_scale
  | I_nominal_scale | I_odd_lot_size | I_round_lot_size | I_block_lot_size | I_nominal_value | I_leg_1 | I_leg_2 | I_leg_3
  | I_leg_4 | I_ratio | I_tick_size | I_begin | I_end | I_event_code | I_oid | I_side | I_queue_rank | I_qty | I_price
  | I_best_price | I_best_qty | I_order_attrs | I_lot_type | I_participant | I_match | I_owner | I_counterparty
  | I_at_auction | I_printable | I_combo_group

type_synonym itch_layout = "(itch_field \<times> nat) list"

definition ITCH_hdr :: itch_layout where
  "ITCH_hdr = [(I_type, 1), (I_ts_ns, 4)]"

definition combo_leg :: itch_layout where
  "combo_leg = [(I_symbol, 32), (I_side, 1), (I_ratio, 4)]"

text \<open>\<open>match_ID_t\<close>\<close>

definition match_ID :: itch_layout where
  "match_ID = [(I_match, 8), (I_combo_group, 4)]"

definition seconds_layout :: itch_layout where
  "seconds_layout = [(I_type, 1), (I_ts_sec, 4)]"

definition end_of_snapshot_layout :: itch_layout where
  "end_of_snapshot_layout = [(I_type, 1), (I_seqnum, 20)]"

definition order_book_dir_layout :: itch_layout where
  "order_book_dir_layout = ITCH_hdr @ [(I_iid, 4), (I_symbol, 32), (I_name, 32), (I_ISIN, 12), (I_product, 1), (I_ccy, 3),
     (I_price_scale, 2), (I_nominal_scale, 2), (I_odd_lot_size, 4), (I_round_lot_size, 4), (I_block_lot_size, 4),
     (I_nominal_value, 8)]"

definition combo_order_book_dir_layout :: itch_layout where
  "combo_order_book_dir_layout = order_book_dir_layout @ [(I_leg_1, struct_size combo_leg), (I_leg_2, struct_size combo_leg),
     (I_leg_3, struct_size combo_leg), (I_leg_4, struct_size combo_leg)]"

definition tick_size_table_entry_layout :: itch_layout where
  "tick_size_table_entry_layout = ITCH_hdr @ [(I_iid, 4), (I_tick_size, 8), (I_begin, 4), (I_end, 4)]"

definition system_event_layout :: itch_layout where
  "system_event_layout = ITCH_hdr @ [(I_event_code, 1)]"

definition order_book_state_layout :: itch_layout where
  "order_book_state_layout = ITCH_hdr @ [(I_iid, 4), (I_name, 20)]"

text \<open>A pair of quantities or prices is an array over the two sides.\<close>

definition auction_update_layout :: itch_layout where
  "auction_update_layout = ITCH_hdr @ [(I_iid, 4), (I_qty, 2 * 8), (I_price, 4), (I_best_price, 2 * 4), (I_best_qty, 2 * 8)]"

definition order_add_layout :: itch_layout where
  "order_add_layout = ITCH_hdr @ [(I_oid, 8), (I_iid, 4), (I_side, 1), (I_queue_rank, 4), (I_qty, 8), (I_price, 4),
     (I_order_attrs, 2), (I_lot_type, 1)]"

definition order_add_with_participant_layout :: itch_layout where
  "order_add_with_participant_layout = order_add_layout @ [(I_participant, 7)]"

definition order_fill_layout :: itch_layout where
  "order_fill_layout = ITCH_hdr @ [(I_oid, 8), (I_iid, 4), (I_side, 1), (I_qty, 8), (I_match, struct_size match_ID),
     (I_owner, 7), (I_counterparty, 7)]"

definition order_fill_with_price_layout :: itch_layout where
  "order_fill_with_price_layout = order_fill_layout @ [(I_price, 4), (I_at_auction, 1), (I_printable, 1)]"

definition order_replace_layout :: itch_layout where
  "order_replace_layout = ITCH_hdr @ [(I_oid, 8), (I_iid, 4), (I_side, 1), (I_queue_rank, 4), (I_qty, 8), (I_price, 4),
     (I_order_attrs, 2)]"

definition order_delete_layout :: itch_layout where
  "order_delete_layout = ITCH_hdr @ [(I_oid, 8), (I_iid, 4), (I_side, 1)]"

definition trade_layout :: itch_layout where
  "trade_layout = ITCH_hdr @ [(I_match, struct_size match_ID), (I_side, 1), (I_qty, 8), (I_iid, 4), (I_price, 4), (I_owner, 7),
     (I_counterparty, 7), (I_printable, 1), (I_at_auction, 1)]"

primrec layout_of :: "message_type \<Rightarrow> itch_layout" where
  "layout_of MT_seconds = seconds_layout"
| "layout_of MT_end_of_snapshot = end_of_snapshot_layout"
| "layout_of MT_order_book_dir = order_book_dir_layout"
| "layout_of MT_combo_order_book_dir = combo_order_book_dir_layout"
| "layout_of MT_tick_size_table_entry = tick_size_table_entry_layout"
| "layout_of MT_system_event = system_event_layout"
| "layout_of MT_order_book_state = order_book_state_layout"
| "layout_of MT_auction_update = auction_update_layout"
| "layout_of MT_order_add = order_add_layout"
| "layout_of MT_order_add_with_participant = order_add_with_participant_layout"
| "layout_of MT_order_fill = order_fill_layout"
| "layout_of MT_order_fill_with_price = order_fill_with_price_layout"
| "layout_of MT_order_replace = order_replace_layout"
| "layout_of MT_order_delete = order_delete_layout"
| "layout_of MT_trade = trade_layout"

text \<open>\<open>message_type::size\<close> and \<open>message_type::offsetof_iid\<close>\<close>

definition message_size :: "message_type \<Rightarrow> nat" where
  "message_size mt = struct_size (layout_of mt)"

definition offsetof_iid :: "message_type \<Rightarrow> int" where
  "offsetof_iid mt = (case field_at (layout_of mt) I_iid of None \<Rightarrow> - 1 | Some (ofs, n) \<Rightarrow> int ofs)"

section \<open>Reading\<close>

definition itch_num :: "nat \<Rightarrow> itch_layout \<Rightarrow> itch_field \<Rightarrow> byte list \<Rightarrow> int" where
  "itch_num n l f msg = net_read n (get_field l f msg)"

text \<open>A side that is neither buying nor selling short reads like a sale: \<open>to_side\<close> only looks for \<open>BUY\<close>.\<close>

definition itch_side :: "itch_layout \<Rightarrow> byte list \<Rightarrow> ord_side" where
  "itch_side l msg = (let b = hd (get_field l I_side msg) in
     if b = byte_of_char CHR ''B'' then Buy else if b = byte_of_char CHR ''T'' then Short else Sell)"

text \<open>What the visit of an order message reads; a fill has no price of the order, a deletion no quantity either.\<close>

definition order_of :: "message_type \<Rightarrow> byte list \<Rightarrow> itch_order" where
  "order_of mt msg = (let l = layout_of mt in
     \<lparr>m_oid = itch_num 8 l I_oid msg, m_side = itch_side l msg,
       m_qty = (if has_field l I_qty then itch_num 8 l I_qty msg else 0),
       m_price = (if has_field l I_queue_rank then itch_num 4 l I_price msg else 0)\<rparr>)"

text \<open>The visits the listener overrides.\<close>

definition order_visit :: "message_type \<Rightarrow> byte list \<Rightarrow> itch_msg option" where
  "order_visit mt msg = (let m = order_of mt msg in
     case mt of
       MT_order_add \<Rightarrow> Some (Order_add m)
     | MT_order_add_with_participant \<Rightarrow> Some (Order_add_with_participant m)
     | MT_order_fill \<Rightarrow> Some (Order_fill m)
     | MT_order_fill_with_price \<Rightarrow> Some (Order_fill_with_price m)
     | MT_order_replace \<Rightarrow> Some (Order_replace m)
     | MT_order_delete \<Rightarrow> Some (Order_delete m)
     | _ \<Rightarrow> None)"

section \<open>Facts\<close>

lemmas itch_layouts = seconds_layout_def end_of_snapshot_layout_def order_book_dir_layout_def combo_order_book_dir_layout_def
  tick_size_table_entry_layout_def system_event_layout_def order_book_state_layout_def auction_update_layout_def order_add_layout_def
  order_add_with_participant_layout_def order_fill_layout_def order_fill_with_price_layout_def order_replace_layout_def
  order_delete_layout_def trade_layout_def ITCH_hdr_def combo_leg_def match_ID_def

lemma message_type_of_char: "message_type_of (byte_of_char (type_char mt)) = Some mt"
  by (cases mt) (simp_all add: message_type_of_def message_seq_def byte_of_char_def)

lemma message_type_of_Some: "message_type_of b = Some mt \<longleftrightarrow> b = byte_of_char (type_char mt)"
proof
  assume "message_type_of b = Some mt"
  then show "b = byte_of_char (type_char mt)" unfolding message_type_of_def by (auto simp: find_Some_iff)
qed (simp add: message_type_of_char)

lemma message_sizes:
  "message_size MT_seconds = 5" "message_size MT_end_of_snapshot = 21" "message_size MT_order_book_dir = 113"
  "message_size MT_combo_order_book_dir = 261" "message_size MT_tick_size_table_entry = 25" "message_size MT_system_event = 6"
  "message_size MT_order_book_state = 29" "message_size MT_auction_update = 53" "message_size MT_order_add = 37"
  "message_size MT_order_add_with_participant = 44" "message_size MT_order_fill = 52" "message_size MT_order_fill_with_price = 58"
  "message_size MT_order_replace = 36" "message_size MT_order_delete = 18" "message_size MT_trade = 50"
  by (simp_all add: message_size_def itch_layouts struct_size_def)

lemma message_size_pos: "0 < message_size mt"
  by (cases mt) (simp_all add: message_sizes)

lemma offsets_of_iid:
  "offsetof_iid MT_seconds = - 1" "offsetof_iid MT_end_of_snapshot = - 1" "offsetof_iid MT_order_book_dir = 5"
  "offsetof_iid MT_combo_order_book_dir = 5" "offsetof_iid MT_tick_size_table_entry = 5" "offsetof_iid MT_system_event = - 1"
  "offsetof_iid MT_order_book_state = 5" "offsetof_iid MT_auction_update = 5" "offsetof_iid MT_order_add = 13"
  "offsetof_iid MT_order_add_with_participant = 13" "offsetof_iid MT_order_fill = 13" "offsetof_iid MT_order_fill_with_price = 13"
  "offsetof_iid MT_order_replace = 13" "offsetof_iid MT_order_delete = 13" "offsetof_iid MT_trade = 26"
  by (simp_all add: offsetof_iid_def itch_layouts struct_size_def)

lemma order_has_iid: "order_visit mt msg \<noteq> None \<Longrightarrow> offsetof_iid mt = 13"
  by (cases mt) (simp_all add: order_visit_def Let_def offsets_of_iid)

lemma iid_inside: "0 \<le> offsetof_iid mt \<Longrightarrow> nat (offsetof_iid mt) + 4 \<le> message_size mt"
  by (cases mt) (simp_all add: offsets_of_iid message_sizes)

end
