(* ===== verification/Itch_Pipeline.thy ===== *)
theory Itch_Pipeline
  imports Itch_Wire
begin

text \<open>
  The visitors of the ITCH feed: the dispatch of \<^verbatim>\<open>itch/ITCH_visitor.h\<close>, the chaining of visitors in
  \<^verbatim>\<open>itch/ITCH_pipeline.h\<close>, and the pipeline of the market data manager: the selector of
  \<^verbatim>\<open>books/asx/market_data_view.h\<close>, which finds the book of a message's instrument, and the listener of
  \<^verbatim>\<open>books/asx/market_data_listener.h\<close> with its base \<^verbatim>\<open>itch/ITCH_ts_tracker.h\<close>.
\<close>

section \<open>Visitors\<close>

text \<open>
  The hooks and visits of a visitor over a common state. The \<open>visit\<close>s are overloaded by the struct of the
  message: here one function of the type and the bytes. The flags say whether to go on.
\<close>

record 's visitor =
  v_pre_packet :: "int \<Rightarrow> 's \<Rightarrow> 's result option"
  v_post_packet :: "int \<Rightarrow> 's \<Rightarrow> 's result option"
  v_pre_message :: "message_type \<Rightarrow> byte list \<Rightarrow> 's \<Rightarrow> (bool \<times> 's) result option"
  v_post_message :: "message_type \<Rightarrow> 's \<Rightarrow> 's result option"
  v_visit :: "message_type \<Rightarrow> byte list \<Rightarrow> 's \<Rightarrow> (bool \<times> 's) result option"

text \<open>The null visitor lets everything pass.\<close>

definition null_visitor :: "'s visitor" where
  "null_visitor = \<lparr>v_pre_packet = (\<lambda>_ s. Some (Inr s)), v_post_packet = (\<lambda>_ s. Some (Inr s)),
     v_pre_message = (\<lambda>_ _ s. Some (Inr (True, s))), v_post_message = (\<lambda>_ s. Some (Inr s)),
     v_visit = (\<lambda>_ _ s. Some (Inr (True, s)))\<rparr>"

text \<open>
  \<open>_internal_message_visit\<close>: the visit of the message between the two hooks. A type the switch does not
  know has no behaviour, nor has a message that ends before its struct does.
\<close>

definition message_visit :: "'s visitor \<Rightarrow> byte list \<Rightarrow> 's \<Rightarrow> 's result option" where
  "message_visit v data s =
     (case data of [] \<Rightarrow> None
      | b # _ \<Rightarrow>
          (case message_type_of b of None \<Rightarrow> None
           | Some msg_type \<Rightarrow>
               if length data < message_size msg_type then None
               else
                 bind_ro (v_pre_message v msg_type data s) (\<lambda>(rc, s).
                   if rc then
                     bind_ro (v_visit v msg_type data s) (\<lambda>(_, s). v_post_message v msg_type s)
                   else Some (Inr s))))"

section \<open>Pipelines\<close>

text \<open>\<open>visit_forward\<close> and \<open>visit_reverse\<close>: the recursion over the tuple of visitors.\<close>

primrec pre_packet_forward :: "'s visitor list \<Rightarrow> int \<Rightarrow> 's \<Rightarrow> 's result option" where
  "pre_packet_forward [] msg_count s = Some (Inr s)"
| "pre_packet_forward (v # vs) msg_count s = bind_ro (v_pre_packet v msg_count s) (pre_packet_forward vs msg_count)"

primrec pre_message_forward :: "'s visitor list \<Rightarrow> nat \<Rightarrow> message_type \<Rightarrow> byte list \<Rightarrow> 's \<Rightarrow> (nat \<times> 's) result option" where
  "pre_message_forward [] i msg_type msg s = Some (Inr (i, s))"
| "pre_message_forward (v # vs) i msg_type msg s =
     bind_ro (v_pre_message v msg_type msg s) (\<lambda>(rc, s).
       if \<not> rc then Some (Inr (i, s)) else pre_message_forward vs (i + 1) msg_type msg s)"

primrec message_forward :: "'s visitor list \<Rightarrow> nat \<Rightarrow> message_type \<Rightarrow> byte list \<Rightarrow> nat \<Rightarrow> 's \<Rightarrow> (nat \<times> 's) result option" where
  "message_forward [] i msg_type msg v_limit s = Some (Inr (i, s))"
| "message_forward (v # vs) i msg_type msg v_limit s =
     (if i = v_limit then Some (Inr (i, s))
      else bind_ro (v_visit v msg_type msg s) (\<lambda>(rc, s).
        if \<not> rc then Some (Inr (i + 1, s)) else message_forward vs (i + 1) msg_type msg v_limit s))"

text \<open>Backwards: the number of visitors still to be visited counts down.\<close>

primrec post_message_reverse :: "'s visitor list \<Rightarrow> nat \<Rightarrow> message_type \<Rightarrow> nat \<Rightarrow> 's \<Rightarrow> 's result option" where
  "post_message_reverse vs 0 msg_type v_limit s = Some (Inr s)"
| "post_message_reverse vs (Suc k) msg_type v_limit s =
     bind_ro (if k < v_limit then v_post_message (vs ! k) msg_type s else Some (Inr s))
       (post_message_reverse vs k msg_type v_limit)"

primrec post_packet_reverse :: "'s visitor list \<Rightarrow> nat \<Rightarrow> int \<Rightarrow> 's \<Rightarrow> 's result option" where
  "post_packet_reverse vs 0 msg_count s = Some (Inr s)"
| "post_packet_reverse vs (Suc k) msg_count s = bind_ro (v_post_packet (vs ! k) msg_count s) (post_packet_reverse vs k msg_count)"

text \<open>The pipeline is itself a visitor; \<open>m_v_limit\<close> is kept beside the state of its visitors.\<close>

definition itch_pipeline :: "'s visitor list \<Rightarrow> (nat \<times> 's) visitor" where
  "itch_pipeline vs =
     \<lparr>v_pre_packet = (\<lambda>msg_count (limit, s).
        bind_ro (pre_packet_forward vs msg_count s) (\<lambda>s. Some (Inr (limit, s)))),
      v_post_packet = (\<lambda>msg_count (limit, s).
        bind_ro (post_packet_reverse vs (length vs) msg_count s) (\<lambda>s. Some (Inr (limit, s)))),
      v_pre_message = (\<lambda>msg_type msg (limit, s).
        bind_ro (pre_message_forward vs 0 msg_type msg s) (\<lambda>(limit, s). Some (Inr (limit \<noteq> 0, (limit, s))))),
      v_post_message = (\<lambda>msg_type (limit, s).
        bind_ro (post_message_reverse vs (length vs) msg_type limit s) (\<lambda>s. Some (Inr (limit, s)))),
      v_visit = (\<lambda>msg_type msg (limit, s).
        bind_ro (message_forward vs 0 msg_type msg limit s) (\<lambda>(limit, s). Some (Inr (limit \<noteq> 0, (limit, s)))))\<rparr>"

section \<open>The state of the market data manager\<close>

text \<open>The context of a packet, \<open>visit_ctx\<close>: the fields that are written and read.\<close>

record visit_ctx =
  cx_book :: "nat option"
  cx_ts_origin :: int
  cx_partition :: int
  cx_seqnum :: int
  cx_dst_port :: int

definition new_ctx :: visit_ctx where
  "new_ctx = \<lparr>cx_book = None, cx_ts_origin = 0, cx_partition = 0, cx_seqnum = 0, cx_dst_port = 0\<rparr>"

text \<open>The view with the per-partition state of the base classes \<open>ITCH_ts_tracker\<close> and \<open>seqnum_state\<close>.\<close>

record ('l, 'pm) md_state =
  md_view :: "('l, 'pm) market_view"
  md_ts_origin_sec :: "int list"
  md_seqnums :: "int list"
  md_ctx :: visit_ctx

section \<open>The selector\<close>

definition iid_at :: "int \<Rightarrow> byte list \<Rightarrow> int" where
  "iid_at ofs msg = net_read 4 (stretch msg (nat ofs) (nat ofs + 4))"

definition selector_pre_message :: "int cst_traits \<Rightarrow> message_type \<Rightarrow> byte list \<Rightarrow> ('l, 'pm) md_state \<Rightarrow>
    (bool \<times> ('l, 'pm) md_state) result option" where
  "selector_pre_message T mt msg S =
     (let iid_offset = offsetof_iid mt in
      if iid_offset < 0 then Some (Inr (True, S))
      else
        (case view_lookup T (md_view S) (iid_at iid_offset msg) of
           None \<Rightarrow> None
         | Some None \<Rightarrow> Some (Inr (False, S\<lparr>md_ctx := (md_ctx S)\<lparr>cx_book := None\<rparr>\<rparr>))
         | Some (Some book) \<Rightarrow> Some (Inr (True, S\<lparr>md_ctx := (md_ctx S)\<lparr>cx_book := Some book\<rparr>\<rparr>))))"

definition selector :: "int cst_traits \<Rightarrow> ('l, 'pm) md_state visitor" where
  "selector T = null_visitor\<lparr>v_pre_message := selector_pre_message T\<rparr>"

section \<open>The listener\<close>

definition one_second :: int where "one_second = 1000000000"

text \<open>\<open>ITCH_ts_tracker\<close>: the seconds of a partition, and the time of origin of the messages that have one.\<close>

definition ts_tracker_visit :: "message_type \<Rightarrow> byte list \<Rightarrow> ('l, 'pm) md_state \<Rightarrow> ('l, 'pm) md_state option" where
  "ts_tracker_visit mt msg S =
     (let pix = cx_partition (md_ctx S) in
      if mt = MT_end_of_snapshot then Some S
      else if pix < 0 \<or> int (length (md_ts_origin_sec S)) \<le> pix then None
      else if mt = MT_seconds then
        Some (S\<lparr>md_ts_origin_sec := (md_ts_origin_sec S)[nat pix := itch_num 4 seconds_layout I_ts_sec msg * one_second]\<rparr>)
      else
        Some (S\<lparr>md_ctx := (md_ctx S)\<lparr>cx_ts_origin := md_ts_origin_sec S ! nat pix + itch_num 4 ITCH_hdr I_ts_ns msg\<rparr>\<rparr>))"

text \<open>The visits of the order messages work on \<open>current_book\<close>, which must be there.\<close>

definition listener_visit :: "('l, 'pm) lob_env \<Rightarrow> message_type \<Rightarrow> byte list \<Rightarrow> ('l, 'pm) md_state \<Rightarrow>
    (bool \<times> ('l, 'pm) md_state) result option" where
  "listener_visit E mt msg S =
     bind_ro (lift_o (ts_tracker_visit mt msg S)) (\<lambda>S.
       (case order_visit mt msg of
          None \<Rightarrow> Some (Inr (True, S))
        | Some m \<Rightarrow>
            (case cx_book (md_ctx S) of
               None \<Rightarrow> None
             | Some book \<Rightarrow>
                 if book < length (mv_books (md_view S)) then
                   bind_ro (visit E m (view_book (md_view S) book)) (\<lambda>b.
                     Some (Inr (True, S\<lparr>md_view := set_book book b (md_view S)\<rparr>)))
                 else None)))"

definition listener :: "('l, 'pm) lob_env \<Rightarrow> ('l, 'pm) md_state visitor" where
  "listener E = null_visitor\<lparr>v_visit := listener_visit E\<rparr>"

definition md_pipeline :: "('l, 'pm) lob_env \<Rightarrow> int cst_traits \<Rightarrow> (nat \<times> ('l, 'pm) md_state) visitor" where
  "md_pipeline E T = itch_pipeline [selector T, listener E]"

section \<open>A message through the pipeline\<close>

text \<open>What a message says to a market: which order of which instrument it changes.\<close>

definition order_event :: "byte list \<Rightarrow> (int \<times> itch_msg) option" where
  "order_event msg =
     (case msg of [] \<Rightarrow> None
      | b # _ \<Rightarrow> (case message_type_of b of None \<Rightarrow> None
          | Some mt \<Rightarrow> map_option (\<lambda>m. (iid_at (offsetof_iid mt) msg, m)) (order_visit mt msg)))"

definition spec_event :: "byte list \<Rightarrow> market \<Rightarrow> market" where
  "spec_event msg M =
     (case order_event msg of None \<Rightarrow> M
      | Some (iid, m) \<Rightarrow> (case M iid of None \<Rightarrow> M | Some Q \<Rightarrow> M(iid \<mapsto> spec_visit m Q)))"

definition event_allowed :: "byte list \<Rightarrow> market \<Rightarrow> bool" where
  "event_allowed msg M \<longleftrightarrow>
     (case msg of [] \<Rightarrow> False
      | b # _ \<Rightarrow> (case message_type_of b of None \<Rightarrow> False | Some mt \<Rightarrow> message_size mt \<le> length msg)) \<and>
     (case order_event msg of None \<Rightarrow> True
      | Some (iid, m) \<Rightarrow> (case M iid of None \<Rightarrow> True | Some Q \<Rightarrow> feed_allows m Q))"

definition event_exhausts :: "('l, 'pm) lob_env \<Rightarrow> byte list \<Rightarrow> ('l, 'pm) market_view \<Rightarrow> bool" where
  "event_exhausts E msg V \<longleftrightarrow>
     (case order_event msg of None \<Rightarrow> False
      | Some (iid, m) \<Rightarrow> (case cst_map (mv_iid_map V) iid of None \<Rightarrow> False | Some i \<Rightarrow> visit_exhausts E m (view_book V i)))"

text \<open>The expected sequence numbers: none before the first packet of a partition, then positive.\<close>

definition seqnums_ok :: "int list \<Rightarrow> bool" where
  "seqnums_ok ns \<longleftrightarrow> length ns = partition_count \<and> (\<forall>n\<in>set ns. 0 \<le> n \<and> n < 2 ^ 63)"

definition md_inv :: "('l, 'pm) lob_env \<Rightarrow> int cst_traits \<Rightarrow> ('l, 'pm) md_state \<Rightarrow> bool" where
  "md_inv E T S \<longleftrightarrow> env_ok E \<and> view_inv E T (md_view S) \<and> length (md_ts_origin_sec S) = partition_count \<and>
     seqnums_ok (md_seqnums S)"

lemma md_message:
  assumes "message_type_of b = Some mt" "message_size mt \<le> length (b # bs)"
  shows "message_visit (md_pipeline E T) (b # bs) (l, S) =
    bind_ro (selector_pre_message T mt (b # bs) S) (\<lambda>(rc, S).
      if \<not> rc then Some (Inr (0, S)) else bind_ro (listener_visit E mt (b # bs) S) (\<lambda>(_, S). Some (Inr (2, S))))"
  using assms
  by (simp add: message_visit_def md_pipeline_def itch_pipeline_def selector_def listener_def null_visitor_def bind_ro_assoc
      case_prod_unfold numeral_2_eq_2 if_distrib [where f = "\<lambda>m. bind_ro m f" for f] cong: if_cong)

lemma ts_tracker_total:
  assumes "length (md_ts_origin_sec S) = partition_count" "0 \<le> cx_partition (md_ctx S)" "cx_partition (md_ctx S) < int partition_count"
  obtains ts ctx where "ts_tracker_visit mt msg S = Some (S\<lparr>md_ts_origin_sec := ts, md_ctx := ctx\<rparr>)" "length ts = partition_count"
    "cx_book ctx = cx_book (md_ctx S)" "cx_partition ctx = cx_partition (md_ctx S)"
proof -
  have same: "S = S\<lparr>md_ts_origin_sec := md_ts_origin_sec S, md_ctx := md_ctx S\<rparr>" by simp
  consider "mt = MT_end_of_snapshot" | "mt = MT_seconds" | "mt \<noteq> MT_end_of_snapshot" "mt \<noteq> MT_seconds" by blast
  then show ?thesis
  proof cases
    case 1
    then have "ts_tracker_visit mt msg S = Some (S\<lparr>md_ts_origin_sec := md_ts_origin_sec S, md_ctx := md_ctx S\<rparr>)"
      by (simp add: ts_tracker_visit_def)
    from that [OF this] assms(1) show ?thesis by simp
  next
    case 2
    let ?ts = "(md_ts_origin_sec S)[nat (cx_partition (md_ctx S)) := itch_num 4 seconds_layout I_ts_sec msg * one_second]"
    have "ts_tracker_visit mt msg S = Some (S\<lparr>md_ts_origin_sec := ?ts, md_ctx := md_ctx S\<rparr>)"
      using 2 assms by (simp add: ts_tracker_visit_def Let_def)
    from that [OF this] assms(1) show ?thesis by simp
  next
    case 3
    let ?ctx = "(md_ctx S)\<lparr>cx_ts_origin := md_ts_origin_sec S ! nat (cx_partition (md_ctx S)) + itch_num 4 ITCH_hdr I_ts_ns msg\<rparr>"
    have "ts_tracker_visit mt msg S = Some (S\<lparr>md_ts_origin_sec := md_ts_origin_sec S, md_ctx := ?ctx\<rparr>)"
      using 3 assms by (simp add: ts_tracker_visit_def Let_def)
    from that [OF this] assms(1) show ?thesis by simp
  qed
qed

text \<open>The context of a state that handles messages: a partition in range.\<close>

definition md_ready :: "('l, 'pm) lob_env \<Rightarrow> int cst_traits \<Rightarrow> nat \<times> ('l, 'pm) md_state \<Rightarrow> bool" where
  "md_ready E T p \<longleftrightarrow> md_inv E T (snd p) \<and> 0 \<le> cx_partition (md_ctx (snd p)) \<and> cx_partition (md_ctx (snd p)) < int partition_count"

definition md_market :: "('l, 'pm) lob_env \<Rightarrow> nat \<times> ('l, 'pm) md_state \<Rightarrow> market" where
  "md_market E p = market_of E (md_view (snd p))"

lemma md_inv_fields: "md_inv E T S \<Longrightarrow> length ts = partition_count \<Longrightarrow> md_inv E T (S\<lparr>md_ts_origin_sec := ts, md_ctx := ctx\<rparr>)"
  by (simp add: md_inv_def)

lemma selector_spec:
  assumes "view_inv E T (md_view S)"
  shows "selector_pre_message T mt msg S =
    (if offsetof_iid mt < 0 then Some (Inr (True, S))
     else let r = cst_map (mv_iid_map (md_view S)) (iid_at (offsetof_iid mt) msg) in
       Some (Inr (r \<noteq> None, S\<lparr>md_ctx := (md_ctx S)\<lparr>cx_book := r\<rparr>\<rparr>)))"
  using cst.get_law [OF view_invD(1) [OF assms]]
  by (auto simp: selector_pre_message_def view_lookup_def Let_def split: option.split)

lemma message_sim:
  assumes ready: "md_ready E T p" and ok: "event_allowed msg (md_market E p)"
  shows "(event_exhausts E msg (md_view (snd p)) \<and> (\<exists>e. message_visit (md_pipeline E T) msg p = Some (Inl e))) \<or>
    (\<exists>p'. message_visit (md_pipeline E T) msg p = Some (Inr p') \<and> md_ready E T p' \<and> md_market E p' = spec_event msg (md_market E p) \<and>
      md_seqnums (snd p') = md_seqnums (snd p))"
proof -
  obtain l S where p: "p = (l, S)" by (cases p)
  from ready have inv: "md_inv E T S" and pix: "0 \<le> cx_partition (md_ctx S)" "cx_partition (md_ctx S) < int partition_count"
    by (simp_all add: md_ready_def p)
  have env: "env_ok E" and vinv: "view_inv E T (md_view S)" and len: "length (md_ts_origin_sec S) = partition_count"
    using inv by (simp_all add: md_inv_def)
  obtain b bs mt where msg: "msg = b # bs" and mt: "message_type_of b = Some mt" "message_size mt \<le> length (b # bs)"
    using ok by (auto simp: event_allowed_def split: list.splits option.splits)
  let ?ofs = "offsetof_iid mt"
  let ?r = "cst_map (mv_iid_map (md_view S)) (iid_at ?ofs msg)"
  note visit = md_message [OF mt, of E T l S, folded msg]
  note sel = selector_spec [OF vinv, of mt msg]
  have ev: "order_event msg = map_option (\<lambda>m. (iid_at ?ofs msg, m)) (order_visit mt msg)" by (simp add: order_event_def msg mt(1))
  have mk: "md_market E p (iid_at ?ofs msg) = map_option (\<lambda>i. resting E (view_book (md_view S) i)) ?r"
    by (simp add: md_market_def p market_of_def)
  show ?thesis
  proof (cases "order_visit mt msg")
    case None
    have spec: "spec_event msg (md_market E p) = md_market E p" by (simp add: spec_event_def ev None)
    define S1 where "S1 = (if ?ofs < 0 then S else S\<lparr>md_ctx := (md_ctx S)\<lparr>cx_book := ?r\<rparr>\<rparr>)"
    have S1: "md_inv E T S1" "cx_partition (md_ctx S1) = cx_partition (md_ctx S)" "md_view S1 = md_view S"
      "md_seqnums S1 = md_seqnums S" "length (md_ts_origin_sec S1) = partition_count"
      using inv len by (simp_all add: S1_def md_inv_def)
    obtain ts ctx where ts: "ts_tracker_visit mt msg S1 = Some (S1\<lparr>md_ts_origin_sec := ts, md_ctx := ctx\<rparr>)" "length ts = partition_count"
      "cx_partition ctx = cx_partition (md_ctx S1)"
      using ts_tracker_total [OF S1(5), of mt msg thesis] pix S1(2) by simp
    have lv: "listener_visit E mt msg S1 = Some (Inr (True, S1\<lparr>md_ts_origin_sec := ts, md_ctx := ctx\<rparr>))"
      by (simp add: listener_visit_def ts(1) None)
    show ?thesis
    proof (cases "?ofs < 0 \<or> ?r \<noteq> None")
      case True
      then have "selector_pre_message T mt msg S = Some (Inr (True, S1))" using sel by (auto simp: S1_def)
      then have "message_visit (md_pipeline E T) msg p = Some (Inr (2, S1\<lparr>md_ts_origin_sec := ts, md_ctx := ctx\<rparr>))"
        by (simp add: p visit lv)
      then show ?thesis using md_inv_fields [OF S1(1) ts(2), of ctx] S1 ts(3) pix spec
        by (simp add: md_ready_def md_market_def p)
    next
      case False
      then have "selector_pre_message T mt msg S = Some (Inr (False, S1))" using sel by (simp add: S1_def)
      then have "message_visit (md_pipeline E T) msg p = Some (Inr (0, S1))" by (simp add: p visit)
      then show ?thesis using S1 pix spec by (simp add: md_ready_def md_market_def p)
    qed
  next
    case (Some m)
    have ofs: "\<not> ?ofs < 0" using order_has_iid [of mt msg] Some by simp
    let ?S1 = "S\<lparr>md_ctx := (md_ctx S)\<lparr>cx_book := ?r\<rparr>\<rparr>"
    have pre: "selector_pre_message T mt msg S = Some (Inr (?r \<noteq> None, ?S1))" using sel ofs by (simp add: Let_def)
    show ?thesis
    proof (cases ?r)
      case None
      then have "message_visit (md_pipeline E T) msg p = Some (Inr (0, ?S1))" by (simp add: p visit pre)
      moreover have "spec_event msg (md_market E p) = md_market E p" by (simp add: spec_event_def ev Some mk None)
      ultimately show ?thesis using inv pix by (simp add: md_ready_def md_market_def md_inv_def p)
    next
      case book: (Some i)
      have i: "i < length (mv_books (md_view S))" by (rule view_invD(2) [OF vinv book])
      let ?b = "view_book (md_view S) i"
      have ok': "feed_allows m (resting E ?b)" using ok by (simp add: event_allowed_def ev Some mk book)
      obtain ts ctx where ts: "ts_tracker_visit mt msg ?S1 = Some (?S1\<lparr>md_ts_origin_sec := ts, md_ctx := ctx\<rparr>)" "length ts = partition_count"
        "cx_book ctx = Some i" "cx_partition ctx = cx_partition (md_ctx S)"
        using ts_tracker_total [of ?S1 mt msg thesis] len pix by (simp add: book)
      let ?S2 = "?S1\<lparr>md_ts_origin_sec := ts, md_ctx := ctx\<rparr>"
      have lv: "listener_visit E mt msg ?S1 = bind_ro (visit E m ?b) (\<lambda>b. Some (Inr (True, ?S2\<lparr>md_view := set_book i b (md_view S)\<rparr>)))"
        by (simp add: listener_visit_def ts(1,3) Some i)
      have run: "message_visit (md_pipeline E T) msg p =
        bind_ro (visit E m ?b) (\<lambda>b. Some (Inr (2, ?S2\<lparr>md_view := set_book i b (md_view S)\<rparr>)))"
        using lv by (simp add: p visit pre book bind_ro_assoc)
      from visit_sim [OF env view_invD(4) [OF vinv i] ok'] show ?thesis
      proof (elim disjE exE conjE)
        fix e assume "visit_exhausts E m ?b" "visit E m ?b = Some (Inl e)"
        then show ?thesis unfolding run by (simp add: event_exhausts_def ev Some p book)
      next
        fix b' assume b': "visit E m ?b = Some (Inr b')" "book_inv E b'" "resting E b' = spec_visit m (resting E ?b)" "keeps_others E ?b b'"
        note fr = view_visit_frame [OF vinv book b'(2,4)]
        have "spec_event msg (md_market E p) = (md_market E p)(iid_at ?ofs msg \<mapsto> spec_visit m (resting E ?b))"
          by (simp add: spec_event_def ev Some mk book)
        then show ?thesis unfolding run using fr inv ts(2,4) pix b'(1,3)
          by (simp add: md_ready_def md_market_def md_inv_def p)
      qed
    qed
  qed
qed

end
