(* ===== verification/Mold_Feed.thy ===== *)
theory Mold_Feed
  imports Itch_Pipeline Tape_Buffer Rcu_Publish
begin

text \<open>
  The packets of the market data feed: Ethernet frames with IP (\<^verbatim>\<open>vr/io/net/IP_.h\<close>), UDP
  (\<^verbatim>\<open>vr/io/net/UDP_.h\<close>) and MoldUDP64 (\<^verbatim>\<open>vr/market/net/MoldUDP64_.h\<close>) headers, whose message blocks
  \<^verbatim>\<open>itch/Mold_frame_.h\<close> visits; and the loop of \<^verbatim>\<open>rt/agents/asx/market_data_manager.h\<close> that walks over
  the frames that have arrived.
\<close>

section \<open>Headers\<close>

datatype net_hdr_field =
    N_hl_v | N_tos | N_len | N_id | N_off | N_ttl | N_p | N_sum | N_src | N_dst
  | N_source | N_dest | N_udp_len | N_check | N_session | N_seqnum | N_msg_count

text \<open>\<open>::ip\<close> and \<open>::udphdr\<close> of the system's headers; the Ethernet header is 14 bytes that are not read.\<close>

definition ip_hdr :: "(net_hdr_field \<times> nat) list" where
  "ip_hdr = [(N_hl_v, 1), (N_tos, 1), (N_len, 2), (N_id, 2), (N_off, 2), (N_ttl, 1), (N_p, 1), (N_sum, 2), (N_src, 4), (N_dst, 4)]"

definition udp_hdr :: "(net_hdr_field \<times> nat) list" where
  "udp_hdr = [(N_source, 2), (N_dest, 2), (N_udp_len, 2), (N_check, 2)]"

definition MoldUDP64_recv_packet_hdr :: "(net_hdr_field \<times> nat) list" where
  "MoldUDP64_recv_packet_hdr = [(N_session, 10), (N_seqnum, 8), (N_msg_count, 2)]"

definition eth_hdr_len :: nat where "eth_hdr_len = 14"

definition min_payload :: int where "min_payload = 46"

definition MoldUDP64_recv_message_hdr :: nat where "MoldUDP64_recv_message_hdr = 2"

text \<open>An unsigned field in network order.\<close>

definition net_read_u :: "nat \<Rightarrow> byte list \<Rightarrow> int" where
  "net_read_u n bs = byteswap n (from_le bs)"

text \<open>What lies at a place in memory: nothing that can be read outside of what was received.\<close>

definition peek :: "byte list \<Rightarrow> int \<Rightarrow> nat \<Rightarrow> byte list option" where
  "peek mem pos n = (if 0 \<le> pos \<and> nat pos + n \<le> length mem then Some (stretch mem (nat pos) (nat pos + n)) else None)"

section \<open>Message blocks\<close>

text \<open>
  The loop over the blocks: each has a length, a signed number, and a message that is visited where it
  is. The place after the last block is returned.
\<close>

primrec mold_blocks :: "'s visitor \<Rightarrow> nat \<Rightarrow> byte list \<Rightarrow> int \<Rightarrow> 's \<Rightarrow> (int \<times> 's) result option" where
  "mold_blocks v 0 mem data s = Some (Inr (data, s))"
| "mold_blocks v (Suc m) mem data s =
     (case peek mem data MoldUDP64_recv_message_hdr of None \<Rightarrow> None
      | Some msg_hdr \<Rightarrow>
          let data = data + int MoldUDP64_recv_message_hdr in
          bind_ro (message_visit v (drop (nat data) mem) s) (\<lambda>s. mold_blocks v m mem (data + net_read 2 msg_hdr) s))"

definition partition_port_base :: int where "partition_port_base = 21001"

definition fits_int64 :: "int \<Rightarrow> bool" where
  "fits_int64 n \<longleftrightarrow> - (2 ^ 63) \<le> n \<and> n < 2 ^ 63"

text \<open>
  \<open>visit_MoldUDP64_payload\<close> of \<open>Mold_frame_\<close>: the partition from the destination port, the expected
  sequence number (a gap is only logged), then the packet's messages between the packet hooks.
  \<open>None\<close> is a partition outside the array, which only a debug build checks, and the undefined
  overflow of the signed 64-bit numbers: of the next expectation, or of the gap as it is logged.
\<close>

definition visit_MoldUDP64_payload :: "(nat \<times> ('l, 'pm) md_state) visitor \<Rightarrow> byte list \<Rightarrow> int \<Rightarrow> byte list \<Rightarrow> int \<Rightarrow>
    nat \<times> ('l, 'pm) md_state \<Rightarrow> (nat \<times> ('l, 'pm) md_state) result option" where
  "visit_MoldUDP64_payload v packet_hdr msg_count mem data p =
     (case p of (limit, S) \<Rightarrow>
        let pix = cx_dst_port (md_ctx S) - partition_port_base;
            sn_incoming = net_read 8 (get_field MoldUDP64_recv_packet_hdr N_seqnum packet_hdr)
        in if pix < 0 \<or> int (length (md_seqnums S)) \<le> pix then None
           else if \<not> fits_int64 (sn_incoming + msg_count) then None
           else if sn_incoming \<noteq> md_seqnums S ! nat pix \<and> md_seqnums S ! nat pix \<noteq> 0 \<and>
             \<not> fits_int64 (sn_incoming - md_seqnums S ! nat pix) then None
           else
             let S = S\<lparr>md_ctx := (md_ctx S)\<lparr>cx_partition := pix, cx_seqnum := sn_incoming\<rparr>,
                   md_seqnums := (md_seqnums S)[nat pix := sn_incoming + msg_count]\<rparr>
             in bind_ro (v_pre_packet v msg_count (limit, S)) (\<lambda>p.
                bind_ro (mold_blocks v (nat msg_count) mem data p) (\<lambda>(_, p).
                  v_post_packet v msg_count p)))"

text \<open>The macro \<open>vr_is_in_exclusive_range\<close> on \<open>int32_t\<close>: one comparison of unsigned differences.\<close>

definition in_exclusive_range :: "int \<Rightarrow> int \<Rightarrow> int \<Rightarrow> bool" where
  "in_exclusive_range i a b \<longleftrightarrow> (i - a - 1) mod 2 ^ 32 < (b - a - 1) mod 2 ^ 32"

text \<open>\<open>visit_data\<close>: heartbeats and the end of the session change nothing.\<close>

definition visit_data :: "(nat \<times> ('l, 'pm) md_state) visitor \<Rightarrow> byte list \<Rightarrow> int \<Rightarrow> nat \<times> ('l, 'pm) md_state \<Rightarrow>
    (nat \<times> ('l, 'pm) md_state) result option" where
  "visit_data v mem data p =
     (let hdr_len = struct_size MoldUDP64_recv_packet_hdr in
      case peek mem data hdr_len of None \<Rightarrow> None
      | Some packet_hdr \<Rightarrow>
          let msg_count = net_read 2 (get_field MoldUDP64_recv_packet_hdr N_msg_count packet_hdr) in
          if in_exclusive_range msg_count 0 0xFFFF then visit_MoldUDP64_payload v packet_hdr msg_count mem (data + int hdr_len) p
          else Some (Inr p))"

section \<open>UDP and IP\<close>

definition visit_proto :: "(nat \<times> ('l, 'pm) md_state) visitor \<Rightarrow> byte list \<Rightarrow> int \<Rightarrow> nat \<times> ('l, 'pm) md_state \<Rightarrow>
    (nat \<times> ('l, 'pm) md_state) result option" where
  "visit_proto v mem udp p =
     (let read_offset = struct_size udp_hdr in
      case peek mem udp read_offset of None \<Rightarrow> None
      | Some hdr \<Rightarrow>
          (case p of (limit, S) \<Rightarrow>
             let dst = net_read_u 2 (get_field udp_hdr N_dest hdr);
                 S = S\<lparr>md_ctx := (md_ctx S)\<lparr>cx_dst_port := dst\<rparr>\<rparr>
             in visit_data v mem (udp + int read_offset) (limit, S)))"

definition IPPROTO_UDP :: int where "IPPROTO_UDP = 17"

text \<open>
  \<open>consume\<close>: the number of bytes of the frame, padding included, or \<open>-1\<close> for a partial one. The handler of a
  protocol gets the address behind the IP header; \<open>drop_packet\<close> stands for TCP, which none of the stacks here has
  a handler for, and for any other protocol.
\<close>

definition IP_consume :: "(byte list \<Rightarrow> int \<Rightarrow> 's \<Rightarrow> 's result option) \<Rightarrow> ('s \<Rightarrow> 's) \<Rightarrow> byte list \<Rightarrow> int \<Rightarrow> 's \<Rightarrow> (int \<times> 's) result option" where
  "IP_consume UDP_handler drop_packet mem available s =
     (case peek mem (int eth_hdr_len) (struct_size ip_hdr) of None \<Rightarrow> None
      | Some hdr \<Rightarrow>
          let ip_len = net_read_u 2 (get_field ip_hdr N_len hdr);
              raw_len = int eth_hdr_len + max min_payload ip_len
          in if available < raw_len then Some (Inr (- 1, s))
             else
               let ip_hl = uint (hd (get_field ip_hdr N_hl_v hdr)) mod 16 * 4;
                   proto = uint (hd (get_field ip_hdr N_p hdr));
                   proto_data = int eth_hdr_len + ip_hl
               in if proto = IPPROTO_UDP then bind_ro (UDP_handler mem proto_data s) (\<lambda>s. Some (Inr (raw_len, s)))
                  else Some (Inr (raw_len, drop_packet s)))"

text \<open>The manager's stack; its context has no mark for a packet that was dropped.\<close>

definition ip_consume :: "(nat \<times> ('l, 'pm) md_state) visitor \<Rightarrow> byte list \<Rightarrow> int \<Rightarrow> nat \<times> ('l, 'pm) md_state \<Rightarrow>
    (int \<times> nat \<times> ('l, 'pm) md_state) result option" where
  "ip_consume v = IP_consume (visit_proto v) (\<lambda>p. p)"

section \<open>The manager's update\<close>

definition min_available :: int where
  "min_available = int (eth_hdr_len + struct_size ip_hdr)"

text \<open>The loop over the frames, each with a fresh context.\<close>

definition fresh_ctx :: "nat \<times> ('l, 'pm) md_state \<Rightarrow> nat \<times> ('l, 'pm) md_state" where
  "fresh_ctx p = (fst p, (snd p)\<lparr>md_ctx := new_ctx\<rparr>)"

partial_function (option) md_loop :: "(nat \<times> ('l, 'pm) md_state) visitor \<Rightarrow> byte list \<Rightarrow> int \<Rightarrow> int \<Rightarrow> nat \<times> ('l, 'pm) md_state \<Rightarrow>
    (int \<times> int \<times> nat \<times> ('l, 'pm) md_state) result option" where
  "md_loop v data available consumed p =
     (case ip_consume v (drop (nat consumed) data) available (fresh_ctx p) of
        None \<Rightarrow> None
      | Some (Inl e) \<Rightarrow> Some (Inl e)
      | Some (Inr (rrc, p)) \<Rightarrow>
          if rrc < 0 then Some (Inr (available, consumed, p))
          else if available - rrc \<ge> min_available then md_loop v data (available - rrc) (consumed + rrc) p
          else Some (Inr (available - rrc, consumed + rrc, p)))"

text \<open>
  \<open>update\<close>, inside the read section: \<open>pd\<close> is the polled descriptor with its position and the address of its
  end (\<open>recv_descriptor<1>\<close>), and \<open>m_pos\<close> the position the manager has reached in the feed whose buffer is \<open>tape\<close>.
\<close>

definition md_update :: "bool \<Rightarrow> ('l, 'pm) lob_env \<Rightarrow> int cst_traits \<Rightarrow> tape_buffer \<Rightarrow> recv_position \<Rightarrow>
    int \<times> nat \<times> ('l, 'pm) md_state \<Rightarrow> (int \<times> nat \<times> ('l, 'pm) md_state) result option" where
  "md_update chk E T tape pd x =
     (case x of (m_pos, p) \<Rightarrow>
        let available = narrow 32 (rp_pos pd - m_pos) in
        if available > 0 then
          bind_ro (lift_o (b_read (tape_ops chk) (rp_end pd - available) (nat available) tape)) (\<lambda>data.
          bind_ro (md_loop (md_pipeline E T) data available 0 p) (\<lambda>(available, consumed, p).
            Some (Inr (m_pos + consumed, p))))
        else Some (Inr (m_pos, p)))"

section \<open>Messages in place\<close>

text \<open>A message that is all there: what follows it in memory makes no difference.\<close>

definition whole_message :: "byte list \<Rightarrow> bool" where
  "whole_message msg \<longleftrightarrow> (case msg of [] \<Rightarrow> False
     | b # _ \<Rightarrow> (case message_type_of b of None \<Rightarrow> False | Some mt \<Rightarrow> message_size mt \<le> length msg))"

lemma get_field_app: "struct_size l \<le> length msg \<Longrightarrow> get_field l f (msg @ rest) = get_field l f msg"
  using field_at_bound [of l f] by (fastforce simp: get_field_def stretch_def split: option.split)

lemma hdr_le_message: "struct_size ITCH_hdr \<le> message_size mt"
  by (cases mt) (simp_all add: message_sizes ITCH_hdr_def struct_size_def)

lemma fields_app:
  assumes "message_size mt \<le> length msg"
  shows "order_visit mt (msg @ rest) = order_visit mt msg"
    and "0 \<le> offsetof_iid mt \<Longrightarrow> iid_at (offsetof_iid mt) (msg @ rest) = iid_at (offsetof_iid mt) msg"
    and "ts_tracker_visit mt (msg @ rest) S = ts_tracker_visit mt msg S"
proof -
  have l: "struct_size (layout_of mt) \<le> length msg" using assms by (simp add: message_size_def)
  note g = get_field_app [OF l]
  have "order_of mt (msg @ rest) = order_of mt msg" by (simp add: order_of_def itch_num_def itch_side_def Let_def g)
  then show "order_visit mt (msg @ rest) = order_visit mt msg" unfolding order_visit_def by (simp only:)
  show "iid_at (offsetof_iid mt) (msg @ rest) = iid_at (offsetof_iid mt) msg" if "0 \<le> offsetof_iid mt"
    using iid_inside [OF that] assms by (simp add: iid_at_def stretch_def)
  have h: "struct_size ITCH_hdr \<le> length msg" using hdr_le_message [of mt] assms by simp
  show "ts_tracker_visit mt (msg @ rest) S = ts_tracker_visit mt msg S"
    using g [of I_ts_sec rest] get_field_app [OF h] by (auto simp: ts_tracker_visit_def itch_num_def Let_def)
qed

lemma message_visit_app:
  assumes "whole_message msg"
  shows "message_visit (md_pipeline E T) (msg @ rest) p = message_visit (md_pipeline E T) msg p"
    and "order_event (msg @ rest) = order_event msg"
proof -
  obtain b bs mt where m: "msg = b # bs" "message_type_of b = Some mt" "message_size mt \<le> length msg"
    using assms by (auto simp: whole_message_def split: list.splits option.splits)
  have len: "message_size mt \<le> length (b # bs @ rest)" using m(1,3) by simp
  obtain l S where p: "p = (l, S)" by (cases p)
  note f = fields_app [OF m(3), of rest, unfolded m(1)]
  have sel: "selector_pre_message T mt (b # bs @ rest) S = selector_pre_message T mt (b # bs) S"
    using f(2) by (simp add: selector_pre_message_def Let_def)
  have lis: "listener_visit E mt (b # bs @ rest) = listener_visit E mt (b # bs)"
    by (rule ext) (simp add: listener_visit_def f(1,3) [simplified])
  show "message_visit (md_pipeline E T) (msg @ rest) p = message_visit (md_pipeline E T) msg p"
    using md_message [OF m(2) len, of E T l S] md_message [OF m(2) m(3) [unfolded m(1)], of E T l S]
    by (simp add: p m(1) sel lis cong: if_cong)
  show "order_event (msg @ rest) = order_event msg"
  proof (cases "order_visit mt (b # bs)")
    case (Some x)
    then have "0 \<le> offsetof_iid mt" using order_has_iid [of mt "b # bs"] by simp
    then show ?thesis using f(1,2) by (simp add: order_event_def m(1,2))
  qed (use f(1) in \<open>simp add: order_event_def m(1,2)\<close>)
qed

text \<open>A block: the length and the message.\<close>

definition block :: "byte list \<Rightarrow> byte list" where
  "block msg = net_write 2 (int (length msg)) @ msg"

lemma peek_at: "length pre = n \<Longrightarrow> length bs = k \<Longrightarrow> peek (pre @ bs @ post) (int n) k = Some bs"
  by (simp add: peek_def stretch_def)

lemma mold_blocks_run:
  assumes "\<forall>msg\<in>set msgs. whole_message msg \<and> length msg < 2 ^ 15"
  shows "mold_blocks (md_pipeline E T) (length msgs) (pre @ concat (map block msgs) @ post) (int (length pre)) p =
    bind_ro (run_steps (message_visit (md_pipeline E T)) msgs p)
      (\<lambda>p. Some (Inr (int (length pre + length (concat (map block msgs))), p)))"
  using assms
proof (induction msgs arbitrary: pre p)
  case (Cons msg msgs)
  let ?mem = "pre @ concat (map block (msg # msgs)) @ post" and ?hdr = "net_write 2 (int (length msg))"
  let ?rest = "concat (map block msgs) @ post"
  have mem: "?mem = pre @ ?hdr @ (msg @ ?rest)" "?mem = (pre @ block msg) @ concat (map block msgs) @ post" by (simp_all add: block_def)
  have pk: "peek ?mem (int (length pre)) MoldUDP64_recv_message_hdr = Some ?hdr"
    unfolding mem(1) by (rule peek_at) (simp_all add: MoldUDP64_recv_message_hdr_def)
  have dr: "drop (nat (int (length pre) + int MoldUDP64_recv_message_hdr)) ?mem = msg @ ?rest"
    unfolding mem(1) by (simp add: MoldUDP64_recv_message_hdr_def nat_add_distrib)
  have len: "net_read 2 ?hdr = int (length msg)" unfolding net_read_write by (rule narrow_id) (use Cons.prems in simp_all)
  have succ: "int (length pre) + int MoldUDP64_recv_message_hdr + net_read 2 ?hdr = int (length (pre @ block msg))"
    unfolding len by (simp add: MoldUDP64_recv_message_hdr_def block_def)
  have ih: "mold_blocks (md_pipeline E T) (length msgs) ?mem (int (length (pre @ block msg))) q =
    bind_ro (run_steps (message_visit (md_pipeline E T)) msgs q)
      (\<lambda>p. Some (Inr (int (length (pre @ block msg) + length (concat (map block msgs))), p)))" for q
    unfolding mem(2) by (rule Cons.IH) (use Cons.prems in simp)
  have w: "whole_message msg" using Cons.prems by simp
  have "mold_blocks (md_pipeline E T) (length (msg # msgs)) ?mem (int (length pre)) p =
    bind_ro (message_visit (md_pipeline E T) msg p) (\<lambda>q. mold_blocks (md_pipeline E T) (length msgs) ?mem (int (length (pre @ block msg))) q)"
    unfolding list.size(4) add_0_right add_Suc_right mold_blocks.simps pk option.case Let_def dr succ message_visit_app(1) [OF w] ..
  also have "\<dots> = bind_ro (run_steps (message_visit (md_pipeline E T)) (msg # msgs) p)
      (\<lambda>p. Some (Inr (int (length pre + length (concat (map block (msg # msgs)))), p)))"
    unfolding ih by (simp add: bind_ro_assoc add.assoc)
  finally show ?case .
qed simp

end
