(* ===== verification/Market_Feed.thy ===== *)
theory Market_Feed
  imports Mold_Feed
begin

text \<open>
  What the manager's update does to the market it shows: a frame of the feed as a list of headers and
  messages, the specification of a frame, and the walk over all frames that have arrived.
\<close>

section \<open>Frames\<close>

text \<open>A frame with its headers as bytes; \<open>fr_tail\<close> pads it to the least size of an Ethernet payload.\<close>

record md_frame =
  fr_eth :: "byte list"
  fr_ip :: "byte list"
  fr_udp :: "byte list"
  fr_mold :: "byte list"
  fr_msgs :: "byte list list"
  fr_tail :: "byte list"

definition frame_payload :: "md_frame \<Rightarrow> byte list" where
  "frame_payload fr = fr_mold fr @ concat (map block (fr_msgs fr)) @ fr_tail fr"

definition md_frame_bytes :: "md_frame \<Rightarrow> byte list" where
  "md_frame_bytes fr = fr_eth fr @ fr_ip fr @ fr_udp fr @ frame_payload fr"

definition frame_pix :: "md_frame \<Rightarrow> int" where
  "frame_pix fr = net_read_u 2 (get_field udp_hdr N_dest (fr_udp fr)) - partition_port_base"

definition frame_seqnum :: "md_frame \<Rightarrow> int" where
  "frame_seqnum fr = net_read 8 (get_field MoldUDP64_recv_packet_hdr N_seqnum (fr_mold fr))"

definition frame_count :: "md_frame \<Rightarrow> int" where
  "frame_count fr = net_read 2 (get_field MoldUDP64_recv_packet_hdr N_msg_count (fr_mold fr))"

text \<open>
  The headers are as long as they say, the protocol is UDP, the port one of a partition, and a packet with a
  positive count has that many whole messages and a sequence number that starts at one and leaves room
  for the next in 64 bits. A count of zero is a heartbeat; one that reads as negative
  is taken for the end of the session.
\<close>

definition md_frame_ok :: "md_frame \<Rightarrow> bool" where
  "md_frame_ok fr \<longleftrightarrow> length (fr_eth fr) = eth_hdr_len \<and> struct_size ip_hdr \<le> length (fr_ip fr) \<and>
     length (fr_udp fr) = struct_size udp_hdr \<and> length (fr_mold fr) = struct_size MoldUDP64_recv_packet_hdr \<and>
     uint (hd (get_field ip_hdr N_hl_v (fr_ip fr))) mod 16 * 4 = int (length (fr_ip fr)) \<and>
     uint (hd (get_field ip_hdr N_p (fr_ip fr))) = IPPROTO_UDP \<and>
     int (length (md_frame_bytes fr)) = int eth_hdr_len + max min_payload (net_read_u 2 (get_field ip_hdr N_len (fr_ip fr))) \<and>
     0 \<le> frame_pix fr \<and> frame_pix fr < int partition_count \<and>
     (0 < frame_count fr \<longrightarrow> 0 < frame_seqnum fr \<and> frame_seqnum fr + frame_count fr < 2 ^ 63 \<and>
       frame_count fr = int (length (fr_msgs fr)) \<and>
       (\<forall>msg\<in>set (fr_msgs fr). whole_message msg \<and> length msg < 2 ^ 15))"

section \<open>What a frame means\<close>

type_synonym feed_state = "market \<times> int list"

definition spec_frame :: "md_frame \<Rightarrow> feed_state \<Rightarrow> feed_state" where
  "spec_frame fr F =
     (if 0 < frame_count fr then
        (fold spec_event (fr_msgs fr) (fst F), (snd F)[nat (frame_pix fr) := frame_seqnum fr + frame_count fr])
      else F)"

definition frame_allowed :: "md_frame \<Rightarrow> feed_state \<Rightarrow> bool" where
  "frame_allowed fr F \<longleftrightarrow> md_frame_ok fr \<and> (0 < frame_count fr \<longrightarrow> all_allowed event_allowed spec_event (fr_msgs fr) (fst F))"

definition feed_state :: "('l, 'pm) lob_env \<Rightarrow> nat \<times> ('l, 'pm) md_state \<Rightarrow> feed_state" where
  "feed_state E p = (market_of E (md_view (snd p)), md_seqnums (snd p))"

text \<open>The state in which the messages of a frame are visited.\<close>

definition in_frame :: "md_frame \<Rightarrow> nat \<times> ('l, 'pm) md_state \<Rightarrow> nat \<times> ('l, 'pm) md_state" where
  "in_frame fr p = (fst p, (snd p)\<lparr>md_ctx := new_ctx\<lparr>cx_dst_port := frame_pix fr + partition_port_base,
       cx_partition := frame_pix fr, cx_seqnum := frame_seqnum fr\<rparr>,
     md_seqnums := (md_seqnums (snd p))[nat (frame_pix fr) := frame_seqnum fr + frame_count fr]\<rparr>)"

text \<open>Storage runs out at one of the messages of a frame.\<close>

definition frame_exhausts :: "('l, 'pm) lob_env \<Rightarrow> int cst_traits \<Rightarrow> md_frame \<Rightarrow> nat \<times> ('l, 'pm) md_state \<Rightarrow> bool" where
  "frame_exhausts E T fr p \<longleftrightarrow> (\<exists>before msg rest p'. fr_msgs fr = before @ msg # rest \<and>
     run_steps (message_visit (md_pipeline E T)) before (in_frame fr p) = Some (Inr p') \<and>
     event_exhausts E msg (md_view (snd p')))"

section \<open>One frame\<close>

interpretation market_msgs: simulation "md_ready E T" "md_market E" "message_visit (md_pipeline E T)" spec_event event_allowed
  "\<lambda>msg p. event_exhausts E msg (md_view (snd p))" for E :: "('l, 'pm) lob_env" and T :: "int cst_traits"
  by unfold_locales (use message_sim in blast)

lemma seqnums_kept:
  assumes "run_steps (message_visit (md_pipeline E T)) msgs p = Some (Inr p')" "md_ready E T p"
    and "all_allowed event_allowed spec_event msgs (md_market E p)"
  shows "md_seqnums (snd p') = md_seqnums (snd p)"
  using assms
proof (induction msgs arbitrary: p)
  case (Cons msg msgs)
  obtain q where q: "message_visit (md_pipeline E T) msg p = Some (Inr q)"
    "run_steps (message_visit (md_pipeline E T)) msgs q = Some (Inr p')"
    using Cons.prems(1) by (auto simp: bind_ro_def split: option.splits sum.splits)
  have "event_allowed msg (md_market E p)" using Cons.prems(3) by simp
  with message_sim [OF Cons.prems(2) this] q(1) have s: "md_ready E T q" "md_market E q = spec_event msg (md_market E p)"
    "md_seqnums (snd q) = md_seqnums (snd p)" by auto
  with Cons.IH [OF q(2) s(1)] Cons.prems(3) show ?case by simp
qed simp

lemma frame_sizes: "struct_size ip_hdr = 20" "struct_size udp_hdr = 8" "struct_size MoldUDP64_recv_packet_hdr = 20"
  by (simp_all add: ip_hdr_def udp_hdr_def MoldUDP64_recv_packet_hdr_def struct_size_def)

lemma in_exclusive_range_16:
  assumes "- (2 ^ 15) \<le> c" "c < 2 ^ 15"
  shows "in_exclusive_range c 0 0xFFFF \<longleftrightarrow> 0 < c"
proof (cases "0 < c")
  case True
  then show ?thesis using assms by (simp add: in_exclusive_range_def)
next
  case False
  have "(c - 1) mod 2 ^ 32 = (c - 1 + 2 ^ 32) mod 2 ^ 32" by (simp only: mod_add_self2)
  also have "\<dots> = c - 1 + 2 ^ 32" using False assms by (intro mod_pos_pos_trivial) simp_all
  finally show ?thesis using False assms by (simp add: in_exclusive_range_def)
qed

lemma md_ready_in_frame:
  "md_inv E T (snd p) \<Longrightarrow> md_frame_ok fr \<Longrightarrow> 0 < frame_count fr \<Longrightarrow> md_ready E T (in_frame fr p)"
  by (auto simp: md_ready_def in_frame_def md_inv_def md_frame_ok_def seqnums_ok_def dest!: set_update_subset_insert [THEN subsetD])

lemma pipeline_packet_hooks:
  "v_pre_packet (md_pipeline E T) n p = Some (Inr p)" "v_post_packet (md_pipeline E T) n p = Some (Inr p)"
  by (cases p; simp add: md_pipeline_def itch_pipeline_def selector_def listener_def null_visitor_def numeral_2_eq_2)+

lemma peek_middle: "pos = int (length pre) \<Longrightarrow> length bs = k \<Longrightarrow> peek (pre @ bs @ post) pos k = Some bs"
  by (simp add: peek_at)

lemma seqnum_room:
  assumes "md_frame_ok fr" "0 < frame_count fr" "seqnums_ok ns"
  shows "fits_int64 (frame_seqnum fr + frame_count fr)" "fits_int64 (frame_seqnum fr - ns ! nat (frame_pix fr))"
    "length ns = partition_count"
proof -
  have s: "0 < frame_seqnum fr" "frame_seqnum fr + frame_count fr < 2 ^ 63" "0 \<le> frame_pix fr" "frame_pix fr < int partition_count"
    using assms(1,2) by (simp_all add: md_frame_ok_def)
  show len: "length ns = partition_count" using assms(3) by (simp add: seqnums_ok_def)
  have "ns ! nat (frame_pix fr) \<in> set ns" by (rule nth_mem) (use s len in simp)
  then have "0 \<le> ns ! nat (frame_pix fr)" "ns ! nat (frame_pix fr) < 2 ^ 63" using assms(3) by (auto simp: seqnums_ok_def)
  then show "fits_int64 (frame_seqnum fr + frame_count fr)" "fits_int64 (frame_seqnum fr - ns ! nat (frame_pix fr))"
    using s(1,2) assms(2) by (simp_all add: fits_int64_def)
qed

lemma visit_data_frame:
  assumes ok: "md_frame_ok fr" and p: "fst p = l" "snd p = S\<lparr>md_ctx := new_ctx\<lparr>cx_dst_port := frame_pix fr + partition_port_base\<rparr>\<rparr>"
    and len: "seqnums_ok (md_seqnums S)"
  shows "visit_data (md_pipeline E T) (pre @ frame_payload fr @ post) (int (length pre)) p =
    (if 0 < frame_count fr then run_steps (message_visit (md_pipeline E T)) (fr_msgs fr) (in_frame fr (l, S)) else Some (Inr p))"
proof -
  let ?mem = "pre @ frame_payload fr @ post" and ?blocks = "concat (map block (fr_msgs fr))"
  note fo = ok [unfolded md_frame_ok_def]
  have mold: "length (fr_mold fr) = struct_size MoldUDP64_recv_packet_hdr" using fo by simp
  have mem: "?mem = pre @ fr_mold fr @ (?blocks @ fr_tail fr @ post)" "?mem = (pre @ fr_mold fr) @ ?blocks @ (fr_tail fr @ post)"
    by (simp_all add: frame_payload_def)
  have pk: "peek ?mem (int (length pre)) (struct_size MoldUDP64_recv_packet_hdr) = Some (fr_mold fr)"
    unfolding mem(1) by (rule peek_middle) (simp_all add: mold)
  have c: "in_exclusive_range (frame_count fr) 0 0xFFFF \<longleftrightarrow> 0 < frame_count fr"
    using net_read_bounds [of 2 "get_field MoldUDP64_recv_packet_hdr N_msg_count (fr_mold fr)"]
    by (intro in_exclusive_range_16) (simp_all add: frame_count_def)
  show ?thesis
  proof (cases "0 < frame_count fr")
    case False
    then show ?thesis using c pk by (simp add: visit_data_def Let_def frame_count_def)
  next
    case True
    have n: "nat (frame_count fr) = length (fr_msgs fr)" and msgs: "\<forall>msg\<in>set (fr_msgs fr). whole_message msg \<and> length msg < 2 ^ 15"
      using fo True by simp_all
    have port: "cx_dst_port (md_ctx (snd p)) - partition_port_base = frame_pix fr" by (simp add: p)
    have "int (length pre) + int (struct_size MoldUDP64_recv_packet_hdr) = int (length (pre @ fr_mold fr))" by (simp add: mold)
    then have run: "mold_blocks (md_pipeline E T) (nat (frame_count fr)) ?mem
        (int (length pre) + int (struct_size MoldUDP64_recv_packet_hdr)) q =
      bind_ro (run_steps (message_visit (md_pipeline E T)) (fr_msgs fr) q)
        (\<lambda>p. Some (Inr (int (length (pre @ fr_mold fr) + length ?blocks), p)))" for q
      unfolding n mem(2) by (simp only: mold_blocks_run [OF msgs])
    have S: "p = (l, S\<lparr>md_ctx := new_ctx\<lparr>cx_dst_port := frame_pix fr + partition_port_base\<rparr>\<rparr>)" using p by (metis prod.collapse)
    have inf: "in_frame fr (l, S) = (l, S\<lparr>md_ctx := new_ctx\<lparr>cx_dst_port := frame_pix fr + partition_port_base,
        cx_partition := frame_pix fr, cx_seqnum := frame_seqnum fr\<rparr>,
        md_seqnums := (md_seqnums S)[nat (frame_pix fr) := frame_seqnum fr + frame_count fr]\<rparr>)" by (simp add: in_frame_def)
    have "visit_data (md_pipeline E T) ?mem (int (length pre)) p =
      visit_MoldUDP64_payload (md_pipeline E T) (fr_mold fr) (frame_count fr) ?mem (int (length pre) + int (struct_size MoldUDP64_recv_packet_hdr)) p"
      using c True pk by (simp add: visit_data_def Let_def frame_count_def)
    also have "\<dots> = run_steps (message_visit (md_pipeline E T)) (fr_msgs fr) (in_frame fr (l, S))"
      unfolding visit_MoldUDP64_payload_def S inf using fo len seqnum_room [OF ok True len]
      by (simp add: Let_def pipeline_packet_hooks run bind_ro_assoc case_prod_unfold flip: frame_seqnum_def)
        (auto simp: bind_ro_def split: option.split sum.split)
    finally show ?thesis using True by simp
  qed
qed

lemma ip_consume_frame:
  assumes ok: "md_frame_ok fr" and len: "seqnums_ok (md_seqnums (snd p))"
    and av: "int (length (md_frame_bytes fr)) \<le> available"
  shows "ip_consume (md_pipeline E T) (md_frame_bytes fr @ post) available (fresh_ctx p) =
    (if 0 < frame_count fr then
       bind_ro (run_steps (message_visit (md_pipeline E T)) (fr_msgs fr) (in_frame fr p))
         (\<lambda>p. Some (Inr (int (length (md_frame_bytes fr)), p)))
     else Some (Inr (int (length (md_frame_bytes fr)), (fst p, (snd p)\<lparr>md_ctx := new_ctx\<lparr>cx_dst_port := frame_pix fr + partition_port_base\<rparr>\<rparr>))))"
proof -
  let ?mem = "md_frame_bytes fr @ post" and ?hdr = "take 20 (fr_ip fr)"
  note fo = ok [unfolded md_frame_ok_def]
  have eth: "length (fr_eth fr) = eth_hdr_len" and ip: "20 \<le> length (fr_ip fr)" and udp: "length (fr_udp fr) = struct_size udp_hdr"
    using fo by (simp_all add: frame_sizes)
  have m1: "?mem = fr_eth fr @ ?hdr @ (drop 20 (fr_ip fr) @ fr_udp fr @ frame_payload fr @ post)"
    unfolding md_frame_bytes_def append_assoc by (simp only: append_take_drop_id append_assoc [symmetric])
  have pk: "peek ?mem (int eth_hdr_len) (struct_size ip_hdr) = Some ?hdr"
    unfolding m1 by (rule peek_middle) (use eth ip in \<open>simp_all add: frame_sizes\<close>)
  have same: "get_field ip_hdr f ?hdr = get_field ip_hdr f (fr_ip fr)" for f
    using get_field_app [of ip_hdr ?hdr f "drop 20 (fr_ip fr)"] ip by (simp add: frame_sizes)
  have m2: "?mem = (fr_eth fr @ fr_ip fr) @ fr_udp fr @ (frame_payload fr @ post)"
    "?mem = (fr_eth fr @ fr_ip fr @ fr_udp fr) @ frame_payload fr @ post" by (simp_all add: md_frame_bytes_def)
  let ?udp = "int (length (fr_eth fr @ fr_ip fr))"
  have at: "int eth_hdr_len + uint (hd (get_field ip_hdr N_hl_v (fr_ip fr))) mod 16 * 4 = ?udp" using fo by simp
  have pu: "peek ?mem ?udp (struct_size udp_hdr) = Some (fr_udp fr)" unfolding m2(1) by (rule peek_middle) (simp_all add: udp)
  have "?udp + int (struct_size udp_hdr) = int (length (fr_eth fr @ fr_ip fr @ fr_udp fr))" using udp by simp
  note nxt = this
  define S where "S = snd p"
  have dst: "net_read_u 2 (get_field udp_hdr N_dest (fr_udp fr)) = frame_pix fr + partition_port_base" by (simp add: frame_pix_def)
  let ?q = "(fst p, S\<lparr>md_ctx := new_ctx\<lparr>cx_dst_port := frame_pix fr + partition_port_base\<rparr>\<rparr>)"
  have vp: "visit_proto (md_pipeline E T) ?mem ?udp (fresh_ctx p) =
    (if 0 < frame_count fr then run_steps (message_visit (md_pipeline E T)) (fr_msgs fr) (in_frame fr p) else Some (Inr ?q))"
  proof -
    have "visit_proto (md_pipeline E T) ?mem ?udp (fresh_ctx p) =
      visit_data (md_pipeline E T) ?mem (int (length (fr_eth fr @ fr_ip fr @ fr_udp fr))) ?q"
      unfolding visit_proto_def Let_def pu nxt option.case fresh_ctx_def prod.case dst by (simp add: S_def)
    also have "\<dots> = (if 0 < frame_count fr then run_steps (message_visit (md_pipeline E T)) (fr_msgs fr) (in_frame fr (fst p, S)) else Some (Inr ?q))"
      unfolding m2(2) by (rule visit_data_frame [OF ok]) (use len in \<open>simp_all add: S_def\<close>)
    finally show ?thesis by (simp add: S_def)
  qed
  have raw: "int eth_hdr_len + max min_payload (net_read_u 2 (get_field ip_hdr N_len (fr_ip fr))) = int (length (md_frame_bytes fr))"
    and proto: "uint (hd (get_field ip_hdr N_p (fr_ip fr))) = IPPROTO_UDP" using fo by simp_all
  show ?thesis using av
    unfolding ip_consume_def IP_consume_def pk option.case Let_def same raw proto at vp by (simp add: S_def)
qed

text \<open>A frame as the loop handles it, with the state it leaves.\<close>

definition consume_frame :: "('l, 'pm) lob_env \<Rightarrow> int cst_traits \<Rightarrow> md_frame \<Rightarrow> nat \<times> ('l, 'pm) md_state \<Rightarrow>
    (nat \<times> ('l, 'pm) md_state) result option" where
  "consume_frame E T fr p = bind_ro (ip_consume (md_pipeline E T) (md_frame_bytes fr) (int (length (md_frame_bytes fr))) (fresh_ctx p))
     (\<lambda>(rrc, p). Some (Inr p))"

lemma ip_consume_step:
  assumes "md_frame_ok fr" "seqnums_ok (md_seqnums (snd p))" "int (length (md_frame_bytes fr)) \<le> available"
  shows "ip_consume (md_pipeline E T) (md_frame_bytes fr @ post) available (fresh_ctx p) =
    bind_ro (consume_frame E T fr p) (\<lambda>p. Some (Inr (int (length (md_frame_bytes fr)), p)))"
  using ip_consume_frame [OF assms, of E T post] ip_consume_frame [OF assms(1,2) order_refl, of E T "[]"]
  by (simp add: consume_frame_def bind_ro_assoc case_prod_unfold)

lemma frame_sim:
  assumes inv: "md_inv E T (snd p)" and ok: "frame_allowed fr (feed_state E p)"
  shows "(frame_exhausts E T fr p \<and> (\<exists>e. consume_frame E T fr p = Some (Inl e))) \<or>
    (\<exists>p'. consume_frame E T fr p = Some (Inr p') \<and> md_inv E T (snd p') \<and> feed_state E p' = spec_frame fr (feed_state E p))"
proof -
  have fok: "md_frame_ok fr" using ok by (simp add: frame_allowed_def)
  have len: "seqnums_ok (md_seqnums (snd p))" using inv by (simp add: md_inv_def)
  note ip = ip_consume_frame [OF fok len order_refl, of E T "[]", simplified]
  show ?thesis
  proof (cases "0 < frame_count fr")
    case False
    let ?p = "(fst p, (snd p)\<lparr>md_ctx := new_ctx\<lparr>cx_dst_port := frame_pix fr + partition_port_base\<rparr>\<rparr>)"
    have "consume_frame E T fr p = Some (Inr ?p)" using ip False by (simp add: consume_frame_def)
    moreover have "md_inv E T (snd ?p)" using inv by (simp add: md_inv_def)
    moreover have "feed_state E ?p = spec_frame fr (feed_state E p)" using False by (simp add: feed_state_def spec_frame_def)
    ultimately show ?thesis by blast
  next
    case True
    let ?q = "in_frame fr p"
    have con: "consume_frame E T fr p = run_steps (message_visit (md_pipeline E T)) (fr_msgs fr) ?q"
    proof -
      have "consume_frame E T fr p = bind_ro (run_steps (message_visit (md_pipeline E T)) (fr_msgs fr) ?q) (\<lambda>p. Some (Inr p))"
        using ip True by (simp add: consume_frame_def bind_ro_assoc)
      then show ?thesis by (auto simp: bind_ro_def split: option.splits sum.splits)
    qed
    have ready: "md_ready E T ?q" by (rule md_ready_in_frame [OF inv fok True])
    have mk: "md_market E ?q = market_of E (md_view (snd p))" by (simp add: md_market_def in_frame_def)
    have all: "all_allowed event_allowed spec_event (fr_msgs fr) (md_market E ?q)"
      using ok True by (simp add: frame_allowed_def feed_state_def mk)
    from market_msgs.run_refines [OF ready all] show ?thesis
    proof (elim disjE exE conjE)
      fix p' assume p': "run_steps (message_visit (md_pipeline E T)) (fr_msgs fr) ?q = Some (Inr p')" "md_ready E T p'"
        "md_market E p' = fold spec_event (fr_msgs fr) (md_market E ?q)"
      have "md_seqnums (snd p') = md_seqnums (snd ?q)" by (rule seqnums_kept [OF p'(1) ready all])
      then show ?thesis using p' con True by (simp add: md_ready_def feed_state_def spec_frame_def md_market_def in_frame_def)
    next
      fix done' m rest p' e assume "fr_msgs fr = done' @ m # rest" "run_steps (message_visit (md_pipeline E T)) done' ?q = Some (Inr p')"
        "event_exhausts E m (md_view (snd p'))" "run_steps (message_visit (md_pipeline E T)) (fr_msgs fr) ?q = Some (Inl e)"
      then have "frame_exhausts E T fr p" "consume_frame E T fr p = Some (Inl e)" unfolding frame_exhausts_def con by blast+
      then show ?thesis by blast
    qed
  qed
qed

interpretation market_frames: simulation "\<lambda>p. md_inv E T (snd p)" "feed_state E" "consume_frame E T" spec_frame frame_allowed
  "frame_exhausts E T" for E :: "('l, 'pm) lob_env" and T :: "int cst_traits"
  by unfold_locales (use frame_sim in blast)

section \<open>The walk\<close>

lemma frame_length: "md_frame_ok fr \<Longrightarrow> 60 \<le> length (md_frame_bytes fr)"
proof -
  assume "md_frame_ok fr"
  then have "int (length (md_frame_bytes fr)) = 14 + max 46 (net_read_u 2 (get_field ip_hdr N_len (fr_ip fr)))"
    unfolding md_frame_ok_def eth_hdr_len_def min_payload_def by simp
  then show ?thesis by linarith
qed

lemma md_loop_frames:
  assumes "frs \<noteq> []" "md_inv E T (snd p)" "all_allowed frame_allowed spec_frame frs (feed_state E p)"
  shows "md_loop (md_pipeline E T) (pre @ concat (map md_frame_bytes frs)) (int (length (concat (map md_frame_bytes frs)))) (int (length pre)) p =
    bind_ro (run_steps (consume_frame E T) frs p)
      (\<lambda>p. Some (Inr (0, int (length (pre @ concat (map md_frame_bytes frs))), p)))"
  using assms
proof (induction frs arbitrary: pre p)
  case (Cons fr frs)
  let ?rest = "concat (map md_frame_bytes frs)"
  have ok: "frame_allowed fr (feed_state E p)" using Cons.prems(3) by simp
  then have fok: "md_frame_ok fr" by (simp add: frame_allowed_def)
  have len: "seqnums_ok (md_seqnums (snd p))" using Cons.prems(2) by (simp add: md_inv_def)
  have av: "int (length (md_frame_bytes fr)) \<le> int (length (concat (map md_frame_bytes (fr # frs))))" by simp
  have step: "ip_consume (md_pipeline E T) (drop (nat (int (length pre))) (pre @ concat (map md_frame_bytes (fr # frs))))
      (int (length (concat (map md_frame_bytes (fr # frs))))) (fresh_ctx p) =
    bind_ro (consume_frame E T fr p) (\<lambda>p. Some (Inr (int (length (md_frame_bytes fr)), p)))"
    using ip_consume_step [OF fok len av, of E T ?rest] by simp
  have none: "consume_frame E T fr p \<noteq> None" using frame_sim [OF Cons.prems(2) ok] by auto
  show ?case
  proof (cases "consume_frame E T fr p")
    case (Some r)
    show ?thesis
    proof (cases r)
      case (Inl e)
      then show ?thesis using Some step by (subst md_loop.simps) simp
    next
      case (Inr p')
      then have p': "md_inv E T (snd p')" "feed_state E p' = spec_frame fr (feed_state E p)"
        using frame_sim [OF Cons.prems(2) ok] Some by auto
      have all: "all_allowed frame_allowed spec_frame frs (feed_state E p')" using Cons.prems(3) p'(2) by simp
      have unfold: "md_loop (md_pipeline E T) (pre @ concat (map md_frame_bytes (fr # frs)))
          (int (length (concat (map md_frame_bytes (fr # frs))))) (int (length pre)) p =
        (if int (length ?rest) \<ge> min_available
         then md_loop (md_pipeline E T) ((pre @ md_frame_bytes fr) @ ?rest) (int (length ?rest)) (int (length (pre @ md_frame_bytes fr))) p'
         else Some (Inr (int (length ?rest), int (length (pre @ md_frame_bytes fr)), p')))"
        using step Some Inr by (subst md_loop.simps) simp
      show ?thesis
      proof (cases frs)
        case Nil
        then show ?thesis using unfold Some Inr by (simp add: min_available_def eth_hdr_len_def frame_sizes)
      next
        case more: (Cons fr2 frs2)
        have "md_frame_ok fr2" using all more by (simp add: frame_allowed_def)
        then have "min_available \<le> int (length ?rest)" using frame_length [of fr2]
          by (simp add: more min_available_def eth_hdr_len_def frame_sizes)
        then show ?thesis using unfold Some Inr Cons.IH [of p' "pre @ md_frame_bytes fr"] p'(1) all more by simp
      qed
    qed
  qed (use none in simp)
qed simp

lemma md_update_frames:
  assumes inv: "md_inv E T (snd p)" and all: "all_allowed frame_allowed spec_frame frs (feed_state E p)"
    and pos: "rp_pos pd = m_pos + int (length (concat (map md_frame_bytes frs)))" "length (concat (map md_frame_bytes frs)) < 2 ^ 31"
    and data: "b_read (tape_ops chk) (rp_end pd - int (length (concat (map md_frame_bytes frs)))) (length (concat (map md_frame_bytes frs))) tape =
      Some (concat (map md_frame_bytes frs))"
  shows "md_update chk E T tape pd (m_pos, p) = bind_ro (run_steps (consume_frame E T) frs p) (\<lambda>p. Some (Inr (rp_pos pd, p)))"
proof -
  have av: "narrow 32 (rp_pos pd - m_pos) = int (length (concat (map md_frame_bytes frs)))"
    unfolding pos(1) using pos(2) by (subst narrow_id) simp_all
  show ?thesis
  proof (cases "frs = []")
    case True
    then show ?thesis using av pos(1) by (simp add: md_update_def Let_def)
  next
    case False
    then obtain fr frs' where fr: "frs = fr # frs'" by (cases frs) auto
    then have "md_frame_ok fr" using all by (simp add: frame_allowed_def)
    then have "0 < length (md_frame_bytes fr)" using frame_length [of fr] by linarith
    then have "0 < length (concat (map md_frame_bytes frs))" by (simp add: fr)
    then show ?thesis using av data md_loop_frames [OF False inv all, of "[]"]
      by (simp add: md_update_def Let_def pos(1) bind_ro_assoc)
  qed
qed

end
