(* ===== verification/Mcast_Feed.thy ===== *)
theory Mcast_Feed
  imports Mold_Feed Link_Tape
begin

text \<open>
  The market data feed, \<^verbatim>\<open>vr/market/rt/market_data_feed.cpp\<close>: each step reads at most one datagram from
  the multicast link (\<^verbatim>\<open>vr/io/links/UDP_mcast_link.h\<close>), publishes the new end of the data under RCU and flushes
  what reclaimed descriptors allow. Packets that are not for a group of the source, or not UDP, are dropped
  by the filter of the link (\<^verbatim>\<open>vr/io/net/filters.h\<close>).
\<close>

section \<open>The filter\<close>

text \<open>A range of addresses as its lower end and its length; the test is one unsigned comparison.\<close>

record IP_range_filter =
  ipf_lo_h :: int
  ipf_hi_m_lo_h :: int

definition new_IP_range_filter :: "int \<Rightarrow> int \<Rightarrow> IP_range_filter result" where
  "new_IP_range_filter lo hi = (if \<not> lo \<le> hi then Inl Check_failure else Inr \<lparr>ipf_lo_h = lo, ipf_hi_m_lo_h = hi - lo\<rparr>)"

definition ip_in_range :: "IP_range_filter \<Rightarrow> int \<Rightarrow> bool" where
  "ip_in_range F addr \<longleftrightarrow> (addr - ipf_lo_h F) mod 2 ^ 32 \<le> ipf_hi_m_lo_h F"

text \<open>The range that the addresses of all groups span.\<close>

definition make_group_range_filter :: "int list \<Rightarrow> IP_range_filter result" where
  "make_group_range_filter groups = (case fold (\<lambda>g (lo, hi). (min lo g, max hi g)) groups (2 ^ 32 - 1, 0) of (lo, hi) \<Rightarrow> new_IP_range_filter lo hi)"

text \<open>It lets exactly the addresses between the lowest and the highest group pass.\<close>

lemma group_fold:
  "fold (\<lambda>g (lo, hi). (min lo g, max hi g)) gs (lo, hi) = (Min (insert lo (set gs)), Max (insert hi (set gs :: int set)))"
proof (induction gs arbitrary: lo hi)
  case (Cons g gs)
  have "Min (insert lo (insert g (set gs))) = Min (insert (min lo g) (set gs))" "Max (insert hi (insert g (set gs))) = Max (insert (max hi g) (set gs))"
    by (cases "gs = []"; simp add: min.assoc max.assoc)+
  then show ?case by (simp add: Cons.IH)
qed simp

lemma ip_in_range_iff:
  "0 \<le> addr \<Longrightarrow> addr < 2 ^ 32 \<Longrightarrow> 0 \<le> lo \<Longrightarrow> lo \<le> hi \<Longrightarrow> hi < 2 ^ 32 \<Longrightarrow>
    ip_in_range \<lparr>ipf_lo_h = lo, ipf_hi_m_lo_h = hi - lo\<rparr> addr \<longleftrightarrow> lo \<le> addr \<and> addr \<le> hi"
proof (cases "lo \<le> addr")
  case False
  assume a: "0 \<le> addr" "addr < 2 ^ 32" "0 \<le> lo" "lo \<le> hi" "hi < 2 ^ 32"
  have "(addr - lo) mod 2 ^ 32 = addr - lo + 2 ^ 32"
    using mod_pos_pos_trivial [of "addr - lo + 2 ^ 32" "2 ^ 32"] a False by simp
  then show ?thesis using a False by (simp add: ip_in_range_def)
qed (simp add: ip_in_range_def)

lemma group_filter_exact:
  assumes "groups \<noteq> []" "\<forall>g \<in> set groups. 0 \<le> g \<and> g < 2 ^ 32"
  obtains F where "make_group_range_filter groups = Inr F"
    "\<And>addr. 0 \<le> addr \<Longrightarrow> addr < 2 ^ 32 \<Longrightarrow> ip_in_range F addr \<longleftrightarrow> Min (set groups) \<le> addr \<and> addr \<le> Max (set groups)"
proof -
  have ne: "set groups \<noteq> {}" and fin: "finite (set groups)" using assms(1) by simp_all
  have b: "0 \<le> Min (set groups)" "Min (set groups) \<le> 2 ^ 32 - 1" "0 \<le> Max (set groups)" "Max (set groups) < 2 ^ 32"
    "Min (set groups) \<le> Max (set groups)"
    using assms(2) Min_in [OF fin ne] Max_in [OF fin ne] Max_ge [OF fin Min_in [OF fin ne]] by force+
  have m: "Min (insert (2 ^ 32 - 1) (set groups)) = Min (set groups)" "Max (insert 0 (set groups)) = Max (set groups)"
    using min_absorb2 [OF b(2)] max_absorb2 [OF b(3)] Min_insert [OF fin ne] Max_insert [OF fin ne] by simp_all
  have "make_group_range_filter groups = Inr \<lparr>ipf_lo_h = Min (set groups), ipf_hi_m_lo_h = Max (set groups) - Min (set groups)\<rparr>"
    using b(5) unfolding make_group_range_filter_def group_fold prod.case m new_IP_range_filter_def by simp
  then show ?thesis by (rule that) (rule ip_in_range_iff, use b in simp_all)
qed

text \<open>
  \<open>filter_impl::drop\<close>: its stack marks the packets that no handler takes. The code reads the header also of a packet that
  is too short for one, from what the buffer holds behind it; that is \<open>None\<close> here.
\<close>

definition mcast_drop :: "IP_range_filter \<Rightarrow> byte list \<Rightarrow> int \<Rightarrow> bool result option" where
  "mcast_drop F data data_len =
     (case peek data (int eth_hdr_len) (struct_size ip_hdr) of None \<Rightarrow> None
      | Some hdr \<Rightarrow>
          if \<not> ip_in_range F (net_read_u 4 (get_field ip_hdr N_dst hdr)) then Some (Inr True)
          else
            bind_ro (IP_consume (\<lambda>mem udp filtered. Some (Inr False)) (\<lambda>filtered. True) data data_len False) (\<lambda>(ipf_rc, filtered).
              Some (Inr (ipf_rc < 0 \<or> filtered))))"

section \<open>The link\<close>

text \<open>The script of a raw socket: datagrams with the time stamps of the interface, or a failure.\<close>

datatype datagram = Datagram "byte list" int | Mcast_failed

text \<open>\<open>recvmsg\<close>: one datagram, cut to the buffer it is read into; with none pending it would block.\<close>

definition mcast_recvmsg :: "int \<Rightarrow> datagram list \<Rightarrow> (int \<times> byte list \<times> int \<times> datagram list) result" where
  "mcast_recvmsg len so =
     (case so of
        [] \<Rightarrow> Inr (0, [], 0, [])
      | Datagram bs ts # rest \<Rightarrow> let got = take (nat len) bs in Inr (int (length got), got, ts, rest)
      | Mcast_failed # rest \<Rightarrow> Inl Io_exception)"

text \<open>A packet that the filter drops stays in the buffer behind the write address, to be overwritten.\<close>

definition mcast_recv_poll_impl :: "IP_range_filter \<Rightarrow> 'r buffer_ops \<Rightarrow> datagram list \<Rightarrow> ('r, 's) data_link \<Rightarrow>
    (('r, 's) data_link \<times> datagram list) result option" where
  "mcast_recv_poll_impl F B so l =
     (case mcast_recvmsg (b_w_window B (dl_recv l)) so of
        Inl e \<Rightarrow> Some (Inl e)
      | Inr (rc, bs, ts, so) \<Rightarrow>
          if rc > 0 then
            bind_ro (lift_o (b_write B (b_w_position B (dl_recv l)) bs (dl_recv l))) (\<lambda>buf.
            bind_ro (mcast_drop F bs rc) (\<lambda>dropped.
              if dropped then Some (Inr (l\<lparr>dl_recv := buf\<rparr>, so))
              else
                bind_ro (Some (b_w_advance B rc buf)) (\<lambda>buf.
                  Some (Inr (l\<lparr>dl_recv := buf, dl_ts_last_recv := ts\<rparr>, so)))))
          else Some (Inr (l, so)))"

text \<open>\<open>link_base::recv_poll\<close> over it: the address and the number of all bytes since the last flush.\<close>

definition mcast_recv_poll :: "IP_range_filter \<Rightarrow> 'r buffer_ops \<Rightarrow> datagram list \<Rightarrow> ('r, 's) data_link \<Rightarrow>
    ((int \<times> int) \<times> ('r, 's) data_link \<times> datagram list) result option" where
  "mcast_recv_poll F B so l =
     (if b_w_window B (dl_recv l) > 0 then
        bind_ro (mcast_recv_poll_impl F B so l) (\<lambda>(l, so). Some (Inr ((b_r_position B (dl_recv l), b_size B (dl_recv l)), l, so)))
      else Some (Inr ((b_r_position B (dl_recv l), b_size B (dl_recv l)), l, so)))"

section \<open>The feed\<close>

text \<open>
  \<open>fe_stale\<close> is what happens to be in the next descriptor before it is written: it is not cleared
  in release builds.
\<close>

record feed_env =
  fe_pool :: pool_opts
  fe_check :: bool
  fe_filter :: IP_range_filter
  fe_stale :: recv_position

record market_feed =
  fd_link :: "(tape_buffer, unit) data_link"
  fd_sock :: "datagram list"
  fd_pub :: rcu_pub
  fd_link_pos_begin :: int
  fd_link_size :: int

definition feed_width :: nat where "feed_width = 1"

text \<open>Construction with the descriptors, and the link that \<open>start\<close> creates.\<close>

definition market_feed_new :: "feed_env \<Rightarrow> int \<Rightarrow> int \<Rightarrow> int \<Rightarrow> poll_descriptor pool \<Rightarrow> market_feed result option" where
  "market_feed_new E page_size base reserve p =
     bind_ro (rcu_initialize feed_width (fe_pool E) p) (\<lambda>U.
     bind_ro (Some (tape_new page_size base reserve)) (\<lambda>buf.
       Some (Inr \<lparr>fd_link = \<lparr>dl_recv = buf, dl_send = (), dl_ts_last_recv = 0, dl_ts_last_send = 0\<rparr>, fd_sock = [], fd_pub = U,
         fd_link_pos_begin = 0, fd_link_size = 0\<rparr>)))"

text \<open>The first half of a step: a datagram is published as soon as it is there.\<close>

definition feed_recv :: "feed_env \<Rightarrow> market_feed \<Rightarrow> market_feed result option" where
  "feed_recv E S =
     bind_ro (mcast_recv_poll (fe_filter E) (tape_ops (fe_check E)) (fd_sock S) (fd_link S)) (\<lambda>((addr, sz), l, so).
       let S = S\<lparr>fd_link := l, fd_sock := so\<rparr> in
       if sz > fd_link_size S then
         let link_size = narrow 32 sz in
         bind_ro (rcu_write (fe_pool E) 0 \<lparr>rp_pos = fd_link_pos_begin S + link_size, rp_end = addr + link_size, rp_ts = dl_ts_last_recv l\<rparr>
           (fd_pub S)) (\<lambda>U.
         bind_ro (rcu_publish_next (fe_pool E) [fe_stale E] U) (\<lambda>U.
           Some (Inr (S\<lparr>fd_pub := U, fd_link_size := link_size\<rparr>))))
       else Some (Inr S))"

text \<open>The second half: reclaimed descriptors go back to the pool and bound what is flushed.\<close>

definition feed_flush :: "feed_env \<Rightarrow> market_feed \<Rightarrow> market_feed result option" where
  "feed_flush E S =
     bind_ro (rcu_reclaim feed_width (fe_pool E) (fd_pub S)) (\<lambda>(bounds, U).
       let S = S\<lparr>fd_pub := U\<rparr>; pos_min_bound = bounds ! 0; link_pos_flushed = fd_link_pos_begin S in
       if link_pos_flushed < pos_min_bound \<and> pos_min_bound < pos_max then
         let pos_increment = narrow 32 (pos_min_bound - link_pos_flushed) in
         bind_ro (Some (recv_flush (tape_ops (fe_check E)) pos_increment (fd_link S))) (\<lambda>l.
           Some (Inr (S\<lparr>fd_link := l, fd_link_pos_begin := pos_min_bound, fd_link_size := fd_link_size S - pos_increment\<rparr>)))
       else Some (Inr S))"

definition feed_step :: "feed_env \<Rightarrow> market_feed \<Rightarrow> market_feed result option" where
  "feed_step E S = bind_ro (feed_recv E S) (feed_flush E)"

end
