(* ===== verification/Feed_Inv.thy ===== *)
theory Feed_Inv
  imports Market_Feed Mcast_Feed Link_Start
begin

text \<open>
  The invariant of the market data feed: what is on the tape are the frames accepted so far, and
  every descriptor that was published points behind one of them. A step of the feed keeps it.
\<close>

section \<open>Accepted frames\<close>

definition frames_size :: "md_frame list \<Rightarrow> nat \<Rightarrow> nat" where
  "frames_size FS k = length (concat (map md_frame_bytes (take k FS)))"

definition frame_dst :: "md_frame \<Rightarrow> int" where
  "frame_dst fr = net_read_u 4 (get_field ip_hdr N_dst (fr_ip fr))"

lemma frames_size_add: "k \<le> m \<Longrightarrow> frames_size FS m = frames_size FS k + length (concat (map md_frame_bytes (drop k (take m FS))))"
proof -
  assume "k \<le> m"
  then have "take m FS = take k FS @ drop k (take m FS)" by (metis append_take_drop_id min.absorb1 take_take)
  then show ?thesis unfolding frames_size_def by (metis concat_append length_append map_append)
qed

lemma frames_size_mono: "k \<le> m \<Longrightarrow> frames_size FS k \<le> frames_size FS m"
  using frames_size_add by simp

lemma frames_size_strict:
  assumes "k < m" "m \<le> length FS" "\<forall>fr \<in> set FS. md_frame_ok fr"
  shows "frames_size FS k < frames_size FS m"
proof -
  have "frames_size FS (Suc k) = frames_size FS k + length (md_frame_bytes (FS ! k))"
    using assms(1,2) by (simp add: frames_size_def take_Suc_conv_app_nth)
  moreover have "60 \<le> length (md_frame_bytes (FS ! k))" by (rule frame_length) (use assms in simp)
  moreover have "frames_size FS (Suc k) \<le> frames_size FS m" by (rule frames_size_mono) (use assms(1) in simp)
  ultimately show ?thesis by linarith
qed

lemma frames_size_less: "frames_size FS k < frames_size FS m \<Longrightarrow> k < m"
  using frames_size_mono by (metis not_le)

lemma accepted_unique:
  assumes "concat (map md_frame_bytes (take m FS)) = concat (map md_frame_bytes (take n FS))" "m \<le> length FS" "n \<le> length FS"
    "\<forall>fr \<in> set FS. md_frame_ok fr"
  shows "m = n"
proof -
  have "frames_size FS m = frames_size FS n" using assms(1) by (simp add: frames_size_def)
  then show ?thesis using frames_size_strict [OF _ _ assms(4)] assms(2,3) by (metis less_irrefl linorder_neqE_nat)
qed

text \<open>The filter lets a frame for one of the groups pass.\<close>

lemma frame_not_dropped:
  assumes ok: "md_frame_ok fr" and dst: "ip_in_range F (frame_dst fr)"
  shows "mcast_drop F (md_frame_bytes fr) (int (length (md_frame_bytes fr))) = Some (Inr False)"
proof -
  let ?mem = "md_frame_bytes fr" and ?hdr = "take 20 (fr_ip fr)"
  note fo = ok [unfolded md_frame_ok_def]
  have eth: "length (fr_eth fr) = eth_hdr_len" and ip: "20 \<le> length (fr_ip fr)" using fo by (simp_all add: frame_sizes)
  have m1: "?mem = fr_eth fr @ ?hdr @ (drop 20 (fr_ip fr) @ fr_udp fr @ frame_payload fr)"
    unfolding md_frame_bytes_def append_assoc by (simp only: append_take_drop_id append_assoc [symmetric])
  have pk: "peek ?mem (int eth_hdr_len) (struct_size ip_hdr) = Some ?hdr"
    unfolding m1 by (rule peek_middle) (use eth ip in \<open>simp_all add: frame_sizes\<close>)
  have same: "get_field ip_hdr f ?hdr = get_field ip_hdr f (fr_ip fr)" for f
    using get_field_app [of ip_hdr ?hdr f "drop 20 (fr_ip fr)"] ip by (simp add: frame_sizes)
  have raw: "int eth_hdr_len + max min_payload (net_read_u 2 (get_field ip_hdr N_len (fr_ip fr))) = int (length (md_frame_bytes fr))"
    and proto: "uint (hd (get_field ip_hdr N_p (fr_ip fr))) = IPPROTO_UDP" using fo by simp_all
  show ?thesis using dst unfolding mcast_drop_def IP_consume_def pk option.case Let_def same raw proto frame_dst_def by simp
qed

section \<open>The invariant\<close>

definition mark_ok :: "md_frame list \<Rightarrow> nat \<Rightarrow> tape_buffer \<Rightarrow> recv_position \<Rightarrow> bool" where
  "mark_ok FS n buf rp \<longleftrightarrow> (\<exists>k \<le> n. rp_pos rp = int (frames_size FS k) \<and>
     (0 < frames_size FS k \<longrightarrow> rp_end rp = tp_base buf + int (frames_size FS k)))"

lemma mark_ok_later: "mark_ok FS n buf rp \<Longrightarrow> n \<le> m \<Longrightarrow> tp_base buf' = tp_base buf \<Longrightarrow> mark_ok FS m buf' rp"
  unfolding mark_ok_def by (elim exE conjE) (rule exI, intro conjI; simp)

definition md_feed_inv :: "feed_env \<Rightarrow> md_frame list \<Rightarrow> nat \<Rightarrow> nat list \<Rightarrow> market_feed \<Rightarrow> bool" where
  "md_feed_inv E FS n stack S \<longleftrightarrow>
     (let buf = dl_recv (fd_link S); U = fd_pub S; Q = fe_pool E in
      tape_inv buf \<and> tp_reserve_size buf < 2 ^ 31 \<and> n \<le> length FS \<and> (\<forall>fr \<in> set FS. md_frame_ok fr) \<and>
      tape_all buf = concat (map md_frame_bytes (take n FS)) \<and>
      fd_link_pos_begin S = int (tape_r buf) \<and> fd_link_size S = tape_size buf \<and> rcu_inv feed_width Q U stack \<and>
      (\<forall>r \<in> set (rcu_live U stack). r \<noteq> ru_current U \<longrightarrow> mark_ok FS n buf (rcu_data Q U r ! 0)) \<and>
      rp_pos (rcu_data Q U (ru_published U) ! 0) = int (frames_size FS n))"

lemma md_feed_invD:
  assumes "md_feed_inv E FS n stack S"
  shows "tape_inv (dl_recv (fd_link S))" "tp_reserve_size (dl_recv (fd_link S)) < 2 ^ 31" "n \<le> length FS" "\<forall>fr \<in> set FS. md_frame_ok fr"
    "tape_all (dl_recv (fd_link S)) = concat (map md_frame_bytes (take n FS))" "fd_link_pos_begin S = int (tape_r (dl_recv (fd_link S)))"
    "fd_link_size S = tape_size (dl_recv (fd_link S))" "rcu_inv feed_width (fe_pool E) (fd_pub S) stack"
    "r \<in> set (rcu_live (fd_pub S) stack) \<Longrightarrow> r \<noteq> ru_current (fd_pub S) \<Longrightarrow> mark_ok FS n (dl_recv (fd_link S)) (rcu_data (fe_pool E) (fd_pub S) r ! 0)"
    "rp_pos (rcu_data (fe_pool E) (fd_pub S) (ru_published (fd_pub S)) ! 0) = int (frames_size FS n)"
    "frames_size FS n = tape_w (dl_recv (fd_link S))"
  using assms length_tape_all [of "dl_recv (fd_link S)"] by (auto simp: md_feed_inv_def Let_def frames_size_def)

text \<open>Changing which descriptors there are, but not what any published one says.\<close>

lemma md_feed_inv_pub:
  assumes inv: "md_feed_inv E FS n stack S" and U: "rcu_inv feed_width (fe_pool E) U' stack'"
    and pub: "rp_pos (rcu_data (fe_pool E) U' (ru_published U') ! 0) = int (frames_size FS n)"
    and all: "\<And>v. v \<in> set (rcu_live U' stack') \<Longrightarrow> v \<noteq> ru_current U' \<Longrightarrow> mark_ok FS n (dl_recv (fd_link S)) (rcu_data (fe_pool E) U' v ! 0)"
  shows "md_feed_inv E FS n stack' (S\<lparr>fd_pub := U'\<rparr>)"
  using inv U pub all by (simp add: md_feed_inv_def Let_def)

text \<open>What a step needs: a free descriptor, and a socket that delivers a frame of another group or the next one of the feed.\<close>

definition feed_ready :: "feed_env \<Rightarrow> md_frame list \<Rightarrow> market_feed \<Rightarrow> bool" where
  "feed_ready E FS S \<longleftrightarrow> \<not> pool_full (fe_pool E) (ru_pool (fd_pub S)) \<and>
     (case fd_sock S of
        [] \<Rightarrow> True
      | Datagram bs ts # rest \<Rightarrow>
          bs \<noteq> [] \<and> int (length bs) \<le> tape_room (dl_recv (fd_link S)) \<and>
          (mcast_drop (fe_filter E) bs (int (length bs)) = Some (Inr True) \<or>
           (\<exists>m < length FS. tape_all (dl_recv (fd_link S)) = concat (map md_frame_bytes (take m FS)) \<and>
              bs = md_frame_bytes (FS ! m) \<and> ip_in_range (fe_filter E) (frame_dst (FS ! m))))
      | Mcast_failed # rest \<Rightarrow> False)"

section \<open>Receiving\<close>

lemma tape_scribble:
  assumes "tape_inv s" "int (length bs) \<le> tape_room s"
  shows "tape_inv (s\<lparr>tp_mem := patch (tp_mem s) (tape_w s) bs\<rparr>)" "tape_all (s\<lparr>tp_mem := patch (tp_mem s) (tape_w s) bs\<rparr>) = tape_all s"
proof -
  note p = tape_posD [OF assms(1)]
  have fit: "tape_w s + length bs \<le> length (tp_mem s)" using assms(2) p(5) by linarith
  show "tape_inv (s\<lparr>tp_mem := patch (tp_mem s) (tape_w s) bs\<rparr>)" by (rule tape_store(2) [OF assms(1) fit])
  show "tape_all (s\<lparr>tp_mem := patch (tp_mem s) (tape_w s) bs\<rparr>) = tape_all s"
    using p(4) by (simp add: tape_all_def tape_upd_simps patch_def)
qed

text \<open>A poll appends the frame, drops it, or finds nothing.\<close>

lemma mcast_poll_frame:
  assumes inv: "tape_inv (dl_recv l)" and so: "so = Datagram bs ts # rest" "bs \<noteq> []" "int (length bs) \<le> tape_room (dl_recv l)"
    and d: "mcast_drop F bs (int (length bs)) = Some (Inr dropped)"
  shows "mcast_recv_poll F (tape_ops chk) so l =
    (let l' = if dropped then l\<lparr>dl_recv := (dl_recv l)\<lparr>tp_mem := patch (tp_mem (dl_recv l)) (tape_w (dl_recv l)) bs\<rparr>\<rparr>
       else l\<lparr>dl_recv := tape_append bs (dl_recv l), dl_ts_last_recv := ts\<rparr>
     in Some (Inr ((tp_r_addr (dl_recv l), tape_size (dl_recv l')), l', rest)))"
proof -
  let ?s = "dl_recv l"
  let ?m = "?s\<lparr>tp_mem := patch (tp_mem ?s) (tape_w ?s) bs\<rparr>"
  have op: "b_r_position (tape_ops chk) = tp_r_addr" "b_size (tape_ops chk) = tape_size" "b_w_window (tape_ops chk) = tape_w_window"
    "b_w_position (tape_ops chk) = tp_w_addr" "b_write (tape_ops chk) = tape_write" "b_w_advance (tape_ops chk) = tape_w_advance chk"
    by (simp_all add: tape_ops_def)
  have win: "int (length bs) \<le> tape_w_window ?s"
    using so(3) tape_posD [OF inv] by (simp add: tape_w_window_def tape_capacity_def)
  have pos: "0 < int (length bs)" using so(2) by simp
  have wpos: "tape_w_window ?s > 0" using win pos by linarith
  have t: "take (nat (tape_w_window ?s)) bs = bs" using win by simp
  have rm: "mcast_recvmsg (tape_w_window ?s) so = Inr (int (length bs), bs, ts, rest)" by (simp add: mcast_recvmsg_def so(1) Let_def t)
  have m: "tape_inv ?m" "tape_room ?m = tape_room ?s" using tape_scribble(1) [OF inv so(3)] by (simp_all add: tape_room_def)
  have adv: "tape_w_advance chk (int (length bs)) ?m = Inr (tape_append bs ?s)"
    using tape_advance [OF m(1), of "int (length bs)" chk] so(3) m(2) by (simp add: tape_append_def)
  have sz: "tape_size ?m = tape_size ?s" by (simp add: tape_size_def)
  show ?thesis
    unfolding mcast_recv_poll_def mcast_recv_poll_impl_def op rm using wpos pos
    by (simp add: tape_append_store [OF inv so(3)] d adv Let_def tape_append_inv(7) [OF inv so(3)])
qed

text \<open>A step accepts the datagram that is pending unless the filter drops it.\<close>

definition feed_accepts :: "feed_env \<Rightarrow> market_feed \<Rightarrow> bool" where
  "feed_accepts E S \<longleftrightarrow> (\<exists>bs ts rest. fd_sock S = Datagram bs ts # rest \<and> mcast_drop (fe_filter E) bs (int (length bs)) \<noteq> Some (Inr True))"

lemma feed_recv_spec:
  assumes inv: "md_feed_inv E FS n stack S" and ready: "feed_ready E FS S"
  defines "n' \<equiv> if feed_accepts E S then Suc n else n"
  obtains S' where "feed_recv E S = Some (Inr S')" "md_feed_inv E FS n' stack S'"
    "tp_base (dl_recv (fd_link S')) = tp_base (dl_recv (fd_link S))" "ru_readers (fd_pub S') = ru_readers (fd_pub S)"
    "\<And>rp. mark_ok FS n (dl_recv (fd_link S)) rp \<Longrightarrow> mark_ok FS n' (dl_recv (fd_link S')) rp"
proof -
  let ?l = "fd_link S" and ?Q = "fe_pool E" and ?U = "fd_pub S"
  let ?s = "dl_recv ?l"
  note i = md_feed_invD [OF inv] and result = that
  have op: "b_r_position (tape_ops c) = tp_r_addr" "b_size (tape_ops c) = tape_size" "b_w_window (tape_ops c) = tape_w_window" for c
    by (simp_all add: tape_ops_def)
  have idle: thesis if poll: "mcast_recv_poll (fe_filter E) (tape_ops (fe_check E)) (fd_sock S) ?l = Some (Inr ((tp_r_addr ?s, tape_size ?s), l', so))"
    and same: "tape_inv (dl_recv l')" "tape_all (dl_recv l') = tape_all ?s" "tape_r (dl_recv l') = tape_r ?s" "tape_size (dl_recv l') = tape_size ?s"
    "tp_base (dl_recv l') = tp_base ?s" "tp_reserve_size (dl_recv l') = tp_reserve_size ?s" and rej: "\<not> feed_accepts E S" for l' so
  proof (rule result)
    show "feed_recv E S = Some (Inr (S\<lparr>fd_link := l', fd_sock := so\<rparr>))" using i(7) by (simp add: feed_recv_def poll Let_def)
    show "md_feed_inv E FS n' stack (S\<lparr>fd_link := l', fd_sock := so\<rparr>)"
      using inv same rej by (simp add: md_feed_inv_def Let_def mark_ok_def n'_def)
    show "mark_ok FS n' (dl_recv (fd_link (S\<lparr>fd_link := l', fd_sock := so\<rparr>))) rp" if "mark_ok FS n ?s rp" for rp
      using that same(5) rej by (simp add: mark_ok_def n'_def)
  qed (use same(5) in simp_all)
  show ?thesis
  proof (cases "fd_sock S")
    case Nil
    have "mcast_recv_poll (fe_filter E) (tape_ops (fe_check E)) (fd_sock S) ?l = Some (Inr ((tp_r_addr ?s, tape_size ?s), ?l, []))"
      by (simp add: mcast_recv_poll_def mcast_recv_poll_impl_def mcast_recvmsg_def Nil op)
    moreover have "\<not> feed_accepts E S" by (simp add: feed_accepts_def Nil)
    ultimately show ?thesis using idle i(1) by blast
  next
    case (Cons d rest)
    then obtain bs ts where d: "d = Datagram bs ts" using ready by (cases d) (auto simp: feed_ready_def)
    have so: "fd_sock S = Datagram bs ts # rest" by (simp add: Cons d)
    have fit: "bs \<noteq> []" "int (length bs) \<le> tape_room ?s" using ready by (simp_all add: feed_ready_def so)
    show ?thesis
    proof (cases "mcast_drop (fe_filter E) bs (int (length bs)) = Some (Inr True)")
      case True
      note poll = mcast_poll_frame [OF i(1) so fit True, of "fe_check E", unfolded Let_def if_True]
      let ?m = "?s\<lparr>tp_mem := patch (tp_mem ?s) (tape_w ?s) bs\<rparr>"
      have "tape_size ?m = tape_size ?s" "tape_r ?m = tape_r ?s" by (simp_all add: tape_size_def tape_upd_simps)
      moreover have "\<not> feed_accepts E S" using True by (simp add: feed_accepts_def so)
      moreover note poll
      ultimately show ?thesis using idle [of "?l\<lparr>dl_recv := ?m\<rparr>" rest] tape_scribble [OF i(1) fit(2)] by simp
    next
      case False
      then obtain m where m: "m < length FS" "tape_all ?s = concat (map md_frame_bytes (take m FS))" "bs = md_frame_bytes (FS ! m)"
        "ip_in_range (fe_filter E) (frame_dst (FS ! m))" using ready by (auto simp: feed_ready_def so)
      have mn: "m = n" by (rule accepted_unique [OF _ _ i(3,4)]) (use m(1,2) i(5) in simp_all)
      have "md_frame_ok (FS ! m)" using i(4) m(1) by simp
      from frame_not_dropped [OF this m(4)] have nd: "mcast_drop (fe_filter E) bs (int (length bs)) = Some (Inr False)" by (simp add: m(3))
      note poll = mcast_poll_frame [OF i(1) so fit nd, of "fe_check E", unfolded Let_def if_False]
      let ?l' = "?l\<lparr>dl_recv := tape_append bs ?s, dl_ts_last_recv := ts\<rparr>"
      note ap = tape_append_inv [OF i(1) fit(2)]
      have all: "tape_all (tape_append bs ?s) = concat (map md_frame_bytes (take (Suc n) FS))"
        using ap(4) i(5) m(1,3) mn by (simp add: take_Suc_conv_app_nth)
      have fs: "frames_size FS (Suc n) = tape_w ?s + length bs" using arg_cong [OF all, of length] length_tape_all [OF ap(1)] ap(2)
        by (simp add: frames_size_def)
      have small: "tape_size (tape_append bs ?s) < 2 ^ 31" "0 \<le> tape_size (tape_append bs ?s)"
        using tape_posD [OF ap(1)] ap(9) i(2) by linarith+
      have nar: "narrow 32 (tape_size (tape_append bs ?s)) = tape_size (tape_append bs ?s)" by (rule narrow_id) (use small in simp_all)
      let ?sz = "tape_size (tape_append bs ?s)"
      let ?rp = "\<lparr>rp_pos = fd_link_pos_begin S + ?sz, rp_end = tp_r_addr ?s + ?sz, rp_ts = ts\<rparr>"
      have rp: "rp_pos ?rp = int (frames_size FS (Suc n))" "rp_end ?rp = tp_base ?s + int (frames_size FS (Suc n))"
        using tape_posD [OF i(1)] ap(6) i(6) fs by simp_all
      have w0: "0 < feed_width" by (simp add: feed_width_def)
      obtain q where q: "rcu_write ?Q 0 ?rp ?U = Some (Inr (?U\<lparr>ru_pool := q\<rparr>))" "rcu_inv feed_width ?Q (?U\<lparr>ru_pool := q\<rparr>) stack"
        "rcu_data ?Q (?U\<lparr>ru_pool := q\<rparr>) = (rcu_data ?Q ?U)(ru_current ?U := (rcu_data ?Q ?U (ru_current ?U))[0 := ?rp])"
        "pool_full ?Q q = pool_full ?Q (ru_pool ?U)"
        by (rule rcu_write_spec [OF i(8) w0, of ?rp])
      have room: "\<not> pool_full ?Q (ru_pool (?U\<lparr>ru_pool := q\<rparr>))" using q(4) ready by (simp add: feed_ready_def)
      have lw: "length [fe_stale E] = feed_width" by (simp add: feed_width_def)
      obtain U' where pub: "rcu_publish_next ?Q [fe_stale E] (?U\<lparr>ru_pool := q\<rparr>) = Some (Inr U')"
        "rcu_inv feed_width ?Q U' stack" "ru_published U' = ru_current (?U\<lparr>ru_pool := q\<rparr>)"
        "rcu_data ?Q U' = (rcu_data ?Q (?U\<lparr>ru_pool := q\<rparr>))(ru_current U' := [fe_stale E])"
        "ru_current U' \<notin> set (rcu_live (?U\<lparr>ru_pool := q\<rparr>) stack)"
        "ru_pending U' = ru_pending (?U\<lparr>ru_pool := q\<rparr>) @ [(ru_published (?U\<lparr>ru_pool := q\<rparr>), dom (ru_readers (?U\<lparr>ru_pool := q\<rparr>)))]"
        "ru_readers U' = ru_readers (?U\<lparr>ru_pool := q\<rparr>)"
        by (rule rcu_publish_next_spec [OF q(2) room lw])
      note U' = pub(1,2) pub(3) [simplified] pub(4,5) pub(6,7) [simplified]
      let ?S = "S\<lparr>fd_link := ?l', fd_sock := rest, fd_pub := U', fd_link_size := ?sz\<rparr>"
      have "length (rcu_data ?Q ?U (ru_current ?U)) = 1"
        using rcu_invD(4) [OF i(8), of "ru_current ?U"] by (auto simp: rcu_live_def feed_width_def)
      then have cur: "rcu_data ?Q U' (ru_current ?U) ! 0 = ?rp"
        using U'(4,5) q(3) by (auto simp: rcu_live_def)
      have eq: "feed_recv E S = Some (Inr ?S)"
        using poll fit(1) i(7) ap(6) q(1) U'(1) by (simp add: feed_recv_def Let_def nar [unfolded ap(6)])
      have live: "set (rcu_live U' stack) = insert (ru_current U') (set (rcu_live ?U stack))"
        using U'(3,6) by (auto simp: rcu_live_def)
      have marks: "mark_ok FS (Suc n) (tape_append bs ?s) rp" if "mark_ok FS n ?s rp" for rp
        using mark_ok_later [OF that _ ap(8)] by simp
      have mk: "mark_ok FS (Suc n) (tape_append bs ?s) (rcu_data ?Q U' r ! 0)" if r: "r \<in> set (rcu_live U' stack)" "r \<noteq> ru_current U'" for r
      proof (cases "r = ru_current ?U")
        case True
        then show ?thesis using cur rp by (auto simp: mark_ok_def ap(8))
      next
        case False
        then have "rcu_data ?Q U' r = rcu_data ?Q ?U r" "r \<in> set (rcu_live ?U stack)" using r live by (simp_all add: U'(4) q(3))
        then show ?thesis using i(9) [OF _ False] marks by simp
      qed
      have "md_feed_inv E FS (Suc n) stack ?S"
        unfolding md_feed_inv_def Let_def
        using ap all U'(2) mk i(2,4,6) m(1) mn cur rp(1) by (simp add: U'(3))
      moreover have "n' = Suc n" using nd by (simp add: n'_def feed_accepts_def so)
      ultimately show ?thesis using result [OF eq] marks U'(7) ap(8) by simp
    qed
  qed
qed

section \<open>Flushing and the step\<close>

lemma feed_flush_spec:
  assumes inv: "md_feed_inv E FS n stack S"
  obtains S' where "feed_flush E S = Some (Inr S')" "md_feed_inv E FS n [] S'" "tp_base (dl_recv (fd_link S')) = tp_base (dl_recv (fd_link S))"
    "ru_readers (fd_pub S') = ru_readers (fd_pub S)" "fd_sock S' = fd_sock S"
proof -
  let ?Q = "fe_pool E" and ?U = "fd_pub S" and ?l = "fd_link S"
  let ?s = "dl_recv ?l"
  note i = md_feed_invD [OF inv] and result = that
  let ?bounds = "reclaimed_bounds (map (rcu_data ?Q ?U) stack) (replicate feed_width pos_max)"
  obtain U' where U': "rcu_reclaim feed_width ?Q ?U = Some (Inr (?bounds, U'))" "rcu_inv feed_width ?Q U' []"
    "ru_published U' = ru_published ?U" "ru_current U' = ru_current ?U" "ru_pending U' = ru_pending ?U" "ru_readers U' = ru_readers ?U"
    "\<And>r. r \<in> set (rcu_live ?U []) \<Longrightarrow> rcu_data ?Q U' r = rcu_data ?Q ?U r"
    using rcu_reclaim_spec [OF i(8)] by metis
  have live: "rcu_live U' [] = rcu_live ?U []" "set (rcu_live ?U []) \<subseteq> set (rcu_live ?U stack)" using U' by (auto simp: rcu_live_def)
  have inv1: "md_feed_inv E FS n [] (S\<lparr>fd_pub := U'\<rparr>)"
  proof (rule md_feed_inv_pub [OF inv U'(2)])
    have "ru_published ?U \<in> set (rcu_live ?U [])" by (simp add: rcu_live_def)
    then show "rp_pos (rcu_data ?Q U' (ru_published U') ! 0) = int (frames_size FS n)" using i(10) U'(3,7) by simp
    show "mark_ok FS n ?s (rcu_data ?Q U' v ! 0)" if "v \<in> set (rcu_live U' [])" "v \<noteq> ru_current U'" for v
    proof -
      have v: "v \<in> set (rcu_live ?U [])" "v \<noteq> ru_current ?U" using that live(1) U'(4) by simp_all
      have "v \<in> set (rcu_live ?U stack)" using v(1) live(2) by blast
      from i(9) [OF this v(2)] show ?thesis by (simp add: U'(7) [OF v(1)])
    qed
  qed
  have bound: "?bounds ! 0 = pos_max \<or> (\<exists>k \<le> n. ?bounds ! 0 = int (frames_size FS k))"
  proof -
    have "?bounds ! 0 = pos_max \<or> (\<exists>r \<in> set stack. ?bounds ! 0 = rp_pos (rcu_data ?Q ?U r ! 0))"
      using reclaimed_bound [of 0 "replicate feed_width pos_max" "map (rcu_data ?Q ?U) stack"] by (auto simp: feed_width_def)
    moreover have "\<exists>k \<le> n. rp_pos (rcu_data ?Q ?U r ! 0) = int (frames_size FS k)" if r: "r \<in> set stack" for r
    proof -
      have "r \<in> set (rcu_live ?U stack)" "r \<noteq> ru_current ?U" using r rcu_invD(3) [OF i(8)] by (auto simp: rcu_live_def)
      from i(9) [OF this] show ?thesis unfolding mark_ok_def by blast
    qed
    ultimately show ?thesis by metis
  qed
  show ?thesis
  proof (cases "fd_link_pos_begin S < ?bounds ! 0 \<and> ?bounds ! 0 < pos_max")
    case False
    then have "feed_flush E S = Some (Inr (S\<lparr>fd_pub := U'\<rparr>))" by (auto simp: feed_flush_def U'(1) Let_def)
    from result [OF this inv1] U'(6) show ?thesis by simp
  next
    case True
    then obtain k where k: "k \<le> n" "?bounds ! 0 = int (frames_size FS k)" using bound by auto
    have le: "frames_size FS k \<le> tape_w ?s" using frames_size_mono [OF k(1), of FS] i(11) by simp
    define d where "d = frames_size FS k - tape_r ?s"
    have d: "?bounds ! 0 - fd_link_pos_begin S = int d" "int d \<le> tape_size ?s"
      using True k(2) i(6) le tape_posD(6) [OF i(1)] by (simp_all add: d_def of_nat_diff)
    have "tape_size ?s < 2 ^ 31" using tape_posD [OF i(1)] i(2) by linarith
    then have nar: "narrow 32 (int d) = int d" using d(2) by (intro narrow_id) simp_all
    let ?s' = "tape_consume d ?s"
    let ?S = "S\<lparr>fd_pub := U', fd_link := ?l\<lparr>dl_recv := ?s'\<rparr>, fd_link_pos_begin := ?bounds ! 0, fd_link_size := fd_link_size S - int d\<rparr>"
    note c = tape_consume_inv [OF i(1) d(2)]
    have eq: "feed_flush E S = Some (Inr ?S)"
      using True recv_flush_tape [OF d(2), of "fe_check E"] by (simp add: feed_flush_def U'(1) Let_def d(1) nar)
    have "?bounds ! 0 = int (tape_r ?s')" using d(1) i(6) c(3) by simp
    then have "md_feed_inv E FS n [] ?S"
      using inv1 c i(7) unfolding md_feed_inv_def Let_def mark_ok_def by simp
    from result [OF eq this] U'(6) c(8) show ?thesis by simp
  qed
qed

lemma feed_step_spec:
  assumes inv: "md_feed_inv E FS n stack S" and ready: "feed_ready E FS S"
  defines "n' \<equiv> if feed_accepts E S then Suc n else n"
  obtains S' where "feed_step E S = Some (Inr S')" "md_feed_inv E FS n' [] S'" "ru_readers (fd_pub S') = ru_readers (fd_pub S)"
    "tp_base (dl_recv (fd_link S')) = tp_base (dl_recv (fd_link S))"
proof -
  obtain S1 where r: "feed_recv E S = Some (Inr S1)" "md_feed_inv E FS n' stack S1"
    "tp_base (dl_recv (fd_link S1)) = tp_base (dl_recv (fd_link S))" "ru_readers (fd_pub S1) = ru_readers (fd_pub S)"
    unfolding n'_def by (rule feed_recv_spec [OF inv ready])
  obtain S2 where f: "feed_flush E S1 = Some (Inr S2)" "md_feed_inv E FS n' [] S2" "tp_base (dl_recv (fd_link S2)) = tp_base (dl_recv (fd_link S1))"
    "ru_readers (fd_pub S2) = ru_readers (fd_pub S1)"
    by (rule feed_flush_spec [OF r(2)])
  show ?thesis by (rule that [of S2]) (use r f in \<open>simp_all add: feed_step_def\<close>)
qed

lemma market_feed_new_inv:
  assumes "pool_inv (fe_pool E) p" "market_feed_new E page_size base reserve p = Some (Inr S)" "0 < page_size" "reserve + page_size \<le> 2 ^ 31"
    and "\<forall>fr \<in> set FS. md_frame_ok fr"
  shows "md_feed_inv E FS 0 [] S" "ru_readers (fd_pub S) = Map.empty"
proof -
  from assms(2) obtain U buf where U: "rcu_initialize feed_width (fe_pool E) p = Some (Inr U)" and buf: "tape_new page_size base reserve = Inr buf"
    and S: "S = \<lparr>fd_link = \<lparr>dl_recv = buf, dl_send = (), dl_ts_last_recv = 0, dl_ts_last_send = 0\<rparr>, fd_sock = [], fd_pub = U,
         fd_link_pos_begin = 0, fd_link_size = 0\<rparr>"
    by (auto simp: market_feed_new_def bind_ro_def split: option.splits sum.splits)
  note u = rcu_initialize_inv [OF assms(1) U]
  have t: "tape_inv buf" "tape_w buf = 0" "tape_r buf = 0" "tp_reserve_size buf < 2 ^ 31"
    using tape_new_empty [OF buf assms(3,4)] by blast+
  have all: "tape_all buf = []" using length_tape_all [OF t(1)] t(2) by simp
  have z: "clear_data feed_width ! 0 = \<lparr>rp_pos = 0, rp_end = 0, rp_ts = 0\<rparr>" by (simp add: clear_data_def feed_width_def)
  have mk: "mark_ok FS 0 buf (rcu_data (fe_pool E) U r ! 0)" if "r \<in> set (rcu_live U [])" for r
  proof -
    have "rcu_data (fe_pool E) U r = clear_data feed_width" using that u(2-4) by (auto simp: rcu_live_def)
    then show ?thesis by (simp add: z mark_ok_def frames_size_def)
  qed
  have "tape_size buf = 0" using tape_posD(6) [OF t(1)] t(2,3) by simp
  then show "md_feed_inv E FS 0 [] S"
    unfolding md_feed_inv_def Let_def S using t all u(1,2) mk assms(5) by (simp add: z frames_size_def)
  show "ru_readers (fd_pub S) = Map.empty" by (simp add: S u(5))
qed

end
