(* ===== verification/Market_Props.thy ===== *)
theory Market_Props
  imports Market_Feed Book_Props
begin

text \<open>
  The properties of the market data path: the construction of a view, and what an update of the manager
  makes of the frames that have arrived.
\<close>

section \<open>Construction of a view\<close>

text \<open>The instrument ids of the symbols, or the first failing lookup.\<close>

primrec lookup_all :: "(string \<Rightarrow> int result) \<Rightarrow> string list \<Rightarrow> int list result" where
  "lookup_all rd [] = Inr []"
| "lookup_all rd (symbol # symbols) = bind_r (rd symbol) (\<lambda>iid. bind_r (lookup_all rd symbols) (\<lambda>iids. Inr (iid # iids)))"

definition fresh_side :: "('l, 'pm) lob_env \<Rightarrow> (side \<Rightarrow> 'pm book_side) \<Rightarrow> bool" where
  "fresh_side E bs \<longleftrightarrow> (\<forall>s. cst_inv (e_oid_traits E) (bs_oid_map (bs s)) \<and> e_pm_side E (bs_price_map (bs s)) = s \<and>
     cst_map (bs_oid_map (bs s)) = Map.empty \<and> e_pm_nodes E (bs_price_map (bs s)) = [])"

lemma view_fill_spec:
  assumes env: "env_ok E" "512 \<le> max_capacity (e_oid_traits E)"
    and pools: "pool_inv (e_order_opts E) (mv_order_pool V)" "pool_inv (e_level_opts E) (mv_level_pool V)"
    and map: "cst_inv T (mv_iid_map V)" "m_size (mv_iid_map V) + length symbols \<le> capacity (mv_iid_map V)"
    and fresh: "\<forall>bs\<in>set (mv_books V). fresh_side E bs"
  shows "case lookup_all rd symbols of
      Inl e \<Rightarrow> view_fill E T rd symbols V = Some (Inl e)
    | Inr iids \<Rightarrow> \<exists>V'. view_fill E T rd symbols V = Some (Inr V') \<and> mv_order_pool V' = mv_order_pool V \<and>
        mv_level_pool V' = mv_level_pool V \<and> cst_inv T (mv_iid_map V') \<and>
        cst_map (mv_iid_map V') = (cst_map (mv_iid_map V))(iids [\<mapsto>] [length (mv_books V)..<length (mv_books V) + length symbols]) \<and>
        length (mv_books V') = length (mv_books V) + length symbols \<and> length iids = length symbols \<and>
        (\<forall>bs\<in>set (mv_books V'). fresh_side E bs)"
  using pools map fresh
proof (induction symbols arbitrary: V)
  case (Cons symbol symbols)
  show ?case
  proof (cases "rd symbol")
    case (Inr iid)
    obtain b where b: "lob_new E (mv_order_pool V) (mv_level_pool V) = Inr b" "fresh_side E (b_side b)"
      by (rule lob_new_ok [OF env Cons.prems(1,2)]) (simp add: fresh_side_def)
    have "m_size (mv_iid_map V) < capacity (mv_iid_map V)" using Cons.prems(4) by simp
    then obtain t where t: "cst_put T iid (length (mv_books V)) (mv_iid_map V) = Some (Inr t)" "cst_inv T t"
      "cst_map t = (cst_map (mv_iid_map V))(iid \<mapsto> length (mv_books V))" "capacity t = capacity (mv_iid_map V)"
      "m_size t = (if cst_map (mv_iid_map V) iid = None then m_size (mv_iid_map V) + 1 else m_size (mv_iid_map V))"
      using cst_put_n_room [OF Cons.prems(3), of iid 1 "length (mv_books V)"] unfolding cst_put_2 by auto
    let ?V = "V\<lparr>mv_iid_map := t, mv_books := mv_books V @ [b_side b]\<rparr>"
    have step: "view_fill E T rd (symbol # symbols) V = view_fill E T rd symbols ?V" by (simp add: Inr b(1) t(1))
    have cap: "m_size t + length symbols \<le> capacity t" using Cons.prems(4) t(4,5) by simp
    have up: "[length (mv_books V)..<length (mv_books V) + length (symbol # symbols)] =
      length (mv_books V) # [Suc (length (mv_books V))..<Suc (length (mv_books V)) + length symbols]"
      using upt_rec [of "length (mv_books V)" "length (mv_books V) + Suc (length symbols)"] by (simp only: list.size add_Suc_right add_Suc add_0_right) simp
    have pre: "pool_inv (e_order_opts E) (mv_order_pool ?V)" "pool_inv (e_level_opts E) (mv_level_pool ?V)" "cst_inv T (mv_iid_map ?V)"
      "m_size (mv_iid_map ?V) + length symbols \<le> capacity (mv_iid_map ?V)" "\<forall>bs\<in>set (mv_books ?V). fresh_side E bs"
      using Cons.prems t(2) cap b(2) by simp_all
    show ?thesis
    proof (cases "lookup_all rd symbols")
      case (Inl e)
      then show ?thesis using Cons.IH [OF pre] unfolding step lookup_all.simps Inr bind_r_simps by simp
    next
      case ids: (Inr iids)
      show ?thesis using Cons.IH [OF pre] unfolding step lookup_all.simps Inr bind_r_simps ids sum.case up
        by (simp add: t(3))
    qed
  qed simp
qed (simp)

lemma fresh_view_inv:
  assumes env: "env_ok E" and pools: "pool_inv (e_order_opts E) (mv_order_pool V)" "pool_inv (e_level_opts E) (mv_level_pool V)"
    and map: "cst_inv T (mv_iid_map V)" "cst_map (mv_iid_map V) = Map.empty(iids [\<mapsto>] [0..<length iids])" "distinct iids"
    and books: "length (mv_books V) = length iids" "\<forall>bs\<in>set (mv_books V). fresh_side E bs"
  shows "view_inv E T V" "market_of E V = (\<lambda>iid. if iid \<in> set iids then Some (\<lambda>s. Map.empty) else None)"
proof -
  have look: "cst_map (mv_iid_map V) iid = Some i \<longleftrightarrow> i < length iids \<and> iids ! i = iid" for iid i
  proof -
    have d: "distinct (map fst (rev (zip iids [0..<length iids])))" using map(3) by (simp flip: rev_map)
    have "cst_map (mv_iid_map V) iid = Some i \<longleftrightarrow> (iid, i) \<in> set (zip iids [0..<length iids])"
      using map_of_eq_Some_iff [OF d, of iid i] by (simp add: map(2) map_upds_def)
    then show ?thesis by (auto simp: in_set_zip)
  qed
  have fr: "fresh_side E (mv_books V ! i)" if "i < length iids" for i using books that by simp
  have binv: "book_inv E (view_book V i)" and rest: "resting E (view_book V i) = (\<lambda>s. Map.empty)" if "i < length iids" for i
  proof -
    have side: "cst_inv (e_oid_traits E) (bs_oid_map ((mv_books V ! i) s))" "e_pm_side E (bs_price_map ((mv_books V ! i) s)) = s"
      "cst_map (bs_oid_map ((mv_books V ! i) s)) = Map.empty" "e_pm_nodes E (bs_price_map ((mv_books V ! i) s)) = []" for s
      using fr [OF that] by (simp_all add: fresh_side_def)
    show "book_inv E (view_book V i)" using pools by (simp add: book_inv_def side side_ok_empty)
    show "resting E (view_book V i) = (\<lambda>s. Map.empty)" by (simp add: resting_def side fun_eq_iff)
  qed
  show "view_inv E T V" unfolding view_inv_def using map(1) look binv books(1) fr
    by (auto simp: books_apart_def fresh_side_def)
  show "market_of E V = (\<lambda>iid. if iid \<in> set iids then Some (\<lambda>s. Map.empty) else None)"
  proof
    fix iid
    show "market_of E V iid = (if iid \<in> set iids then Some (\<lambda>s. Map.empty) else None)"
    proof (cases "cst_map (mv_iid_map V) iid")
      case None
      then have "iid \<notin> set iids" using look [of iid] by (metis in_set_conv_nth option.distinct(1))
      then show ?thesis using None by (simp add: market_of_def)
    next
      case (Some i)
      then have "i < length iids" "iids ! i = iid" using look by blast+
      then show ?thesis using Some rest by (auto simp: market_of_def)
    qed
  qed
qed

text \<open>
  C39: a view over a configuration of symbols fails when a symbol is not in the reference data, or when
  two of them are the same instrument; otherwise every instrument has its own book, and all of
  them are empty.
\<close>

theorem market_view_new_exact:
  assumes "env_ok E" "512 \<le> max_capacity (e_oid_traits E)" "pool_inv (e_order_opts E) op" "pool_inv (e_level_opts E) lp"
    and "symbols \<noteq> []" "length symbols \<le> max_capacity T" "t_link_bits T \<le> 32"
  shows "case lookup_all rd symbols of
      Inl e \<Rightarrow> view_new E T rd symbols op lp = Some (Inl e)
    | Inr iids \<Rightarrow>
        if distinct iids then \<exists>V. view_new E T rd symbols op lp = Some (Inr V) \<and> view_inv E T V \<and> view_size V = length symbols \<and>
          market_of E V = (\<lambda>iid. if iid \<in> set iids then Some (\<lambda>s. Map.empty) else None)
        else view_new E T rd symbols op lp = Some (Inl Check_failure)"
proof -
  have n: "1 \<le> int (length symbols)" "int (length symbols) \<le> int (max_capacity T)" using assms(5) assms(6) [folded of_nat_le_iff [where 'a = int]]
    by (simp_all add: Suc_le_eq)
  have c31: "int (length symbols) \<le> 2 ^ 31"
    using n(2) of_nat_mono [OF max_capacity_int32 [OF assms(7)], where 'a = int] by simp
  obtain t :: "(int, nat) cst" where t: "cst_new T (int (length symbols)) = Inr t" "cst_inv T t" "cst_map t = Map.empty"
    "int (length symbols) \<le> int (capacity t)" "m_size t = 0"
    by (rule cst_new_spec [OF n c31])
  let ?V0 = "\<lparr>mv_iid_map = t, mv_order_pool = op, mv_level_pool = lp, mv_books = []\<rparr>"
  have fill: "case lookup_all rd symbols of
      Inl e \<Rightarrow> view_fill E T rd symbols ?V0 = Some (Inl e)
    | Inr iids \<Rightarrow> \<exists>V'. view_fill E T rd symbols ?V0 = Some (Inr V') \<and> mv_order_pool V' = op \<and>
        mv_level_pool V' = lp \<and> cst_inv T (mv_iid_map V') \<and>
        cst_map (mv_iid_map V') = Map.empty(iids [\<mapsto>] [0..<length symbols]) \<and>
        length (mv_books V') = length symbols \<and> length iids = length symbols \<and> (\<forall>bs\<in>set (mv_books V'). fresh_side E bs)"
    using view_fill_spec [OF assms(1,2), of ?V0 T symbols rd] assms(3,4) t(2-5) by (simp cong: sum.case_cong)
  have new: "view_new E T rd symbols op lp = bind_ro (view_fill E T rd symbols ?V0) (\<lambda>V.
     bind_ro (cst_rehash T (int (m_size (mv_iid_map V))) (mv_iid_map V)) (\<lambda>iids.
       if m_size iids \<noteq> length symbols then Some (Inl Check_failure) else Some (Inr (V\<lparr>mv_iid_map := iids\<rparr>))))"
    by (simp add: view_new_def t(1))
  show ?thesis
  proof (cases "lookup_all rd symbols")
    case (Inl e)
    then show ?thesis using fill by (simp add: new)
  next
    case (Inr iids)
    obtain V where V: "view_fill E T rd symbols ?V0 = Some (Inr V)" "mv_order_pool V = op" "mv_level_pool V = lp" "cst_inv T (mv_iid_map V)"
      "cst_map (mv_iid_map V) = Map.empty(iids [\<mapsto>] [0..<length symbols])" "length (mv_books V) = length symbols"
      "length iids = length symbols" "\<forall>bs\<in>set (mv_books V). fresh_side E bs"
      using fill Inr by auto
    have size: "m_size u = card (set iids)" if "cst_inv T u" "cst_map u = cst_map (mv_iid_map V)" for u :: "(int, nat) cst"
      using that(1) cst_size(1) that(2) V(5,7) by (fastforce simp: cst_inv_def)
    have k: "1 \<le> int (m_size (mv_iid_map V))" "int (m_size (mv_iid_map V)) \<le> int (max_capacity T)"
    proof -
      have "set iids \<noteq> {}" using V(7) assms(5) by auto
      then show "1 \<le> int (m_size (mv_iid_map V))" unfolding size [OF V(4) refl] by (simp add: Suc_le_eq card_gt_0_iff)
      show "int (m_size (mv_iid_map V)) \<le> int (max_capacity T)"
        unfolding size [OF V(4) refl] using card_length [of iids] V(7) assms(6) by simp
    qed
    obtain u where u: "cst_rehash T (int (m_size (mv_iid_map V))) (mv_iid_map V) = Some (Inr u)" "cst_inv T u"
      "cst_map u = cst_map (mv_iid_map V)"
      by (rule cst_rehash_ok [OF V(4) k(1) order_refl k(2) assms(7)])
    have res: "view_new E T rd symbols op lp = (if card (set iids) \<noteq> length symbols then Some (Inl Check_failure)
        else Some (Inr (V\<lparr>mv_iid_map := u\<rparr>)))" by (simp add: new V(1) u(1) size [OF u(2,3)])
    have dist: "distinct iids \<longleftrightarrow> card (set iids) = length symbols" using V(7) card_distinct distinct_card by metis
    show ?thesis
    proof (cases "distinct iids")
      case False
      then show ?thesis using Inr res dist by simp
    next
      case True
      let ?V = "V\<lparr>mv_iid_map := u\<rparr>"
      have pre: "pool_inv (e_order_opts E) (mv_order_pool ?V)" "pool_inv (e_level_opts E) (mv_level_pool ?V)" "cst_inv T (mv_iid_map ?V)"
        "cst_map (mv_iid_map ?V) = Map.empty(iids [\<mapsto>] [0..<length iids])" "length (mv_books ?V) = length iids"
        "\<forall>bs\<in>set (mv_books ?V). fresh_side E bs"
        using V u assms(3,4) by simp_all
      note fresh_view_inv [OF assms(1) pre(1-4) True pre(5,6)]
      then show ?thesis using Inr res dist True size [OF u(2,3)] by (simp add: view_size_def)
    qed
  qed
qed

lemma demo_oid: "max_capacity (e_oid_traits demo_env) = 16384" "t_link_bits (e_oid_traits demo_env) \<le> 32"
  by (simp_all add: demo_oid_capacity) (simp add: demo_env_def)

lemma demo_pools: "pool_inv (e_order_opts demo_env) demo_pool" "pool_inv (e_level_opts demo_env) demo_pool"
  using demo_pool_inv by (simp_all add: demo_env_def)

definition demo_instruments :: "string \<Rightarrow> int result" where
  "demo_instruments symbol = (if symbol = ''BHP'' then Inr 7 else if symbol = ''CBA'' then Inr 8 else Inl Check_failure)"

lemma market_view_new_exact_witness:
  "(\<exists>V. view_new demo_env (e_oid_traits demo_env) demo_instruments [''BHP'', ''CBA''] demo_pool demo_pool = Some (Inr V) \<and>
     view_size V = 2 \<and> market_of demo_env V 8 = Some (\<lambda>s. Map.empty)) \<and>
   view_new demo_env (e_oid_traits demo_env) demo_instruments [''BHP'', ''BHP''] demo_pool demo_pool = Some (Inl Check_failure) \<and>
   view_new demo_env (e_oid_traits demo_env) demo_instruments [''BHP'', ''XYZ''] demo_pool demo_pool = Some (Inl Check_failure)"
proof -
  have c: "512 \<le> max_capacity (e_oid_traits demo_env)" by (simp add: demo_oid)
  note new = market_view_new_exact [OF demo_env_ok c demo_pools _ _ demo_oid(2), where rd = demo_instruments]
  have 1: "lookup_all demo_instruments [''BHP'', ''CBA''] = Inr [7, 8]"
    "lookup_all demo_instruments [''BHP'', ''BHP''] = Inr [7, 7]"
    "lookup_all demo_instruments [''BHP'', ''XYZ''] = Inl Check_failure" by (simp_all add: demo_instruments_def)
  have "\<exists>V. view_new demo_env (e_oid_traits demo_env) demo_instruments [''BHP'', ''CBA''] demo_pool demo_pool = Some (Inr V) \<and>
     view_size V = 2 \<and> market_of demo_env V 8 = Some (\<lambda>s. Map.empty)"
    using new [of "[''BHP'', ''CBA'']"] unfolding 1 by (auto simp: demo_oid)
  moreover have "view_new demo_env (e_oid_traits demo_env) demo_instruments [''BHP'', ''BHP''] demo_pool demo_pool = Some (Inl Check_failure)"
    using new [of "[''BHP'', ''BHP'']"] unfolding 1 by (simp add: demo_oid)
  moreover have "view_new demo_env (e_oid_traits demo_env) demo_instruments [''BHP'', ''XYZ''] demo_pool demo_pool = Some (Inl Check_failure)"
    using new [of "[''BHP'', ''XYZ'']"] unfolding 1 by (simp add: demo_oid)
  ultimately show ?thesis by blast
qed

text \<open>
  C38: an update of the manager handles exactly the frames that have arrived since the last one: the
  view then shows, for every instrument in it, the resting orders that the order messages in the
  frames make of the ones it showed before, instruments that are not in it are passed over, and
  the expected sequence number of each partition follows its last packet. A packet whose count
  of messages is zero, or reads as negative, changes nothing. It stops early only where an
  order finds the storage exhausted, with everything before that frame handled.
\<close>

theorem market_data_follows_feed:
  assumes "md_inv E T (snd p)" "all_allowed frame_allowed spec_frame frs (feed_state E p)"
    and "rp_pos pd = m_pos + int (length (concat (map md_frame_bytes frs)))" "length (concat (map md_frame_bytes frs)) < 2 ^ 31"
    and "b_read (tape_ops chk) (rp_end pd - int (length (concat (map md_frame_bytes frs)))) (length (concat (map md_frame_bytes frs))) tape =
      Some (concat (map md_frame_bytes frs))"
  shows "(\<exists>p'. md_update chk E T tape pd (m_pos, p) = Some (Inr (rp_pos pd, p')) \<and> md_inv E T (snd p') \<and>
      feed_state E p' = fold spec_frame frs (feed_state E p)) \<or>
    (\<exists>earlier fr rest p' e. frs = earlier @ fr # rest \<and> run_steps (consume_frame E T) earlier p = Some (Inr p') \<and>
      feed_state E p' = fold spec_frame earlier (feed_state E p) \<and> frame_exhausts E T fr p' \<and>
      md_update chk E T tape pd (m_pos, p) = Some (Inl e))"
proof -
  note upd = md_update_frames [OF assms]
  from market_frames.run_refines [OF assms(1,2)] show ?thesis
  proof (elim disjE exE conjE)
    fix p' assume "run_steps (consume_frame E T) frs p = Some (Inr p')" "md_inv E T (snd p')"
      "feed_state E p' = fold spec_frame frs (feed_state E p)"
    then show ?thesis unfolding upd by simp
  next
    fix earlier fr rest p' e
    assume "frs = earlier @ fr # rest" "run_steps (consume_frame E T) earlier p = Some (Inr p')"
      "feed_state E p' = fold spec_frame earlier (feed_state E p)" "frame_exhausts E T fr p'"
      "run_steps (consume_frame E T) frs p = Some (Inl e)"
    moreover from this(5) have "md_update chk E T tape pd (m_pos, p) = Some (Inl e)" unfolding upd by simp
    ultimately show ?thesis by blast
  qed
qed

text \<open>A frame with one message, a bid of ten at the price 100 under the id 5, on a tape of its own.\<close>

definition demo_bid :: "byte list" where
  "demo_bid = byte_of_char CHR ''A'' # net_write 4 0 @ net_write 8 5 @ net_write 4 7 @ [byte_of_char CHR ''B''] @ net_write 4 1 @
     net_write 8 10 @ net_write 4 100 @ [0, 0] @ [0]"

definition demo_frame :: md_frame where
  "demo_frame = \<lparr>fr_eth = replicate 14 0, fr_ip = [0x45, 0] @ net_write 2 87 @ replicate 5 0 @ [17] @ replicate 10 0,
     fr_udp = [0, 0] @ net_write 2 21001 @ replicate 4 0, fr_mold = replicate 10 0 @ net_write 8 1 @ net_write 2 1,
     fr_msgs = [demo_bid], fr_tail = []\<rparr>"

definition demo_tape :: tape_buffer where
  "demo_tape = \<lparr>tp_reserve_size = 101, tp_base = 65536, tp_r_addr = 65536, tp_w_addr = 65637, tp_mem = md_frame_bytes demo_frame\<rparr>"

lemma demo_bid:
  "length demo_bid = 37" "whole_message demo_bid"
  "order_event demo_bid = Some (7, Order_add \<lparr>m_oid = 5, m_side = Buy, m_qty = 10, m_price = 100\<rparr>)"
proof -
  note read = net_read_write narrow_id
  have type: "message_type_of (byte_of_char CHR ''A'') = Some MT_order_add" using message_type_of_char [of MT_order_add] by simp
  show len: "length demo_bid = 37" by (simp add: demo_bid_def)
  show "whole_message demo_bid" using len by (simp add: whole_message_def demo_bid_def type message_sizes)
  have f: "get_field order_add_layout I_oid demo_bid = net_write 8 5" "get_field order_add_layout I_side demo_bid = [byte_of_char CHR ''B'']"
    "get_field order_add_layout I_qty demo_bid = net_write 8 10" "get_field order_add_layout I_price demo_bid = net_write 4 100"
    by (simp_all add: get_field_def order_add_layout_def ITCH_hdr_def stretch_def demo_bid_def)
  have iid: "iid_at 13 demo_bid = 7" by (simp add: iid_at_def stretch_def demo_bid_def read)
  have "order_of MT_order_add demo_bid = \<lparr>m_oid = 5, m_side = Buy, m_qty = 10, m_price = 100\<rparr>"
    by (simp add: order_of_def itch_num_def itch_side_def f read) (simp add: has_field_def order_add_layout_def)
  then have "order_visit MT_order_add demo_bid = Some (Order_add \<lparr>m_oid = 5, m_side = Buy, m_qty = 10, m_price = 100\<rparr>)"
    by (simp add: order_visit_def)
  moreover obtain bs where bs: "demo_bid = byte_of_char CHR ''A'' # bs" by (simp add: demo_bid_def)
  have "order_event (byte_of_char CHR ''A'' # bs) = map_option (\<lambda>m. (iid_at 13 (byte_of_char CHR ''A'' # bs), m))
      (order_visit MT_order_add (byte_of_char CHR ''A'' # bs))"
    by (simp add: order_event_def type offsets_of_iid)
  then have "order_event demo_bid = map_option (\<lambda>m. (iid_at 13 demo_bid, m)) (order_visit MT_order_add demo_bid)"
    by (simp only: bs [symmetric])
  ultimately show "order_event demo_bid = Some (7, Order_add \<lparr>m_oid = 5, m_side = Buy, m_qty = 10, m_price = 100\<rparr>)"
    by (simp add: iid)
qed

lemma net_read_u_write: "net_read_u n (net_write n x) = x mod 2 ^ (8 * n)"
proof -
  have "le_bytes n (from_le (net_write n x)) = net_write n x" using le_bytes_from_le [of "net_write n x"] by simp
  then show ?thesis by (simp add: net_read_u_def byteswap_def net_write_rev from_le_le_bytes)
qed

lemma demo_frame:
  "length (md_frame_bytes demo_frame) = 101" "md_frame_ok demo_frame" "frame_pix demo_frame = 0" "frame_count demo_frame = 1"
  "frame_seqnum demo_frame = 1"
proof -
  show len: "length (md_frame_bytes demo_frame) = 101"
    by (simp add: demo_frame_def md_frame_bytes_def frame_payload_def block_def demo_bid)
  have f: "get_field udp_hdr N_dest (fr_udp demo_frame) = net_write 2 21001"
    "get_field MoldUDP64_recv_packet_hdr N_seqnum (fr_mold demo_frame) = net_write 8 1"
    "get_field MoldUDP64_recv_packet_hdr N_msg_count (fr_mold demo_frame) = net_write 2 1"
    "get_field ip_hdr N_len (fr_ip demo_frame) = net_write 2 87" "get_field ip_hdr N_hl_v (fr_ip demo_frame) = [0x45]"
    "get_field ip_hdr N_p (fr_ip demo_frame) = [17]"
    by (simp_all add: get_field_def udp_hdr_def MoldUDP64_recv_packet_hdr_def ip_hdr_def stretch_def demo_frame_def)
  show pix: "frame_pix demo_frame = 0" by (simp add: frame_pix_def f net_read_u_write partition_port_base_def)
  show count: "frame_count demo_frame = 1" by (simp add: frame_count_def f net_read_write narrow_id)
  show sn: "frame_seqnum demo_frame = 1" by (simp add: frame_seqnum_def f net_read_write narrow_id)
  have msgs: "fr_msgs demo_frame = [demo_bid]" by (simp add: demo_frame_def)
  have lens: "length (fr_eth demo_frame) = 14" "length (fr_ip demo_frame) = 20" "length (fr_udp demo_frame) = 8"
    "length (fr_mold demo_frame) = 20" by (simp_all add: demo_frame_def)
  show "md_frame_ok demo_frame" unfolding md_frame_ok_def pix count sn msgs len f
    by (simp add: lens frame_sizes eth_hdr_len_def demo_bid partition_count_def net_read_u_write IPPROTO_UDP_def min_payload_def)
qed

text \<open>The demonstration's pools and tables have room for it.\<close>

lemma demo_room:
  fixes V :: "(nat list, side \<times> (int \<times> nat) list) market_view"
  assumes "mv_order_pool V = demo_pool" "mv_level_pool V = demo_pool" "cst_map (mv_iid_map V) = [7 \<mapsto> 0]"
    and "fresh_side demo_env (mv_books V ! 0)"
  shows "\<not> event_exhausts demo_env demo_bid V"
proof -
  let ?t = "bs_oid_map ((mv_books V ! 0) BID)"
  have "cst_inv (e_oid_traits demo_env) ?t" "cst_map ?t = Map.empty" using assms(4) by (simp_all add: fresh_side_def)
  then have "m_size ?t = 0" using cst_count by fastforce
  then have "\<not> put_fails (e_oid_traits demo_env) ?t 5" by (simp add: put_fails_def capacity_def)
  then show ?thesis using assms(1-3)
    by (simp add: demo_pool_not_full event_exhausts_def demo_bid(3) add_exhausts_def view_book_def to_side_def demo_env_def)
qed

lemma demo_view:
  obtains V where "view_inv demo_env (e_oid_traits demo_env) V" "market_of demo_env V = [7 \<mapsto> (\<lambda>s. Map.empty)]"
    "\<not> event_exhausts demo_env demo_bid V"
proof -
  obtain t :: "(int, nat) cst" where t: "cst_inv (e_oid_traits demo_env) t" "cst_map t = Map.empty" "1 \<le> int (capacity t)" "m_size t = 0"
    by (rule cst_new_spec [of 1 "e_oid_traits demo_env"]) (simp_all add: demo_oid)
  let ?V = "\<lparr>mv_iid_map = t, mv_order_pool = demo_pool, mv_level_pool = demo_pool, mv_books = []\<rparr>"
  have look: "lookup_all demo_instruments [''BHP''] = Inr [7]" by (simp add: demo_instruments_def)
  have c: "512 \<le> max_capacity (e_oid_traits demo_env)" by (simp add: demo_oid)
  have pre: "pool_inv (e_order_opts demo_env) (mv_order_pool ?V)" "pool_inv (e_level_opts demo_env) (mv_level_pool ?V)"
    "cst_inv (e_oid_traits demo_env) (mv_iid_map ?V)" "m_size (mv_iid_map ?V) + length [''BHP''] \<le> capacity (mv_iid_map ?V)"
    "\<forall>bs\<in>set (mv_books ?V). fresh_side demo_env bs"
    using demo_pools t by simp_all
  obtain V :: "(nat list, side \<times> (int \<times> nat) list) market_view" where V: "mv_order_pool V = demo_pool" "mv_level_pool V = demo_pool" "cst_inv (e_oid_traits demo_env) (mv_iid_map V)"
    "cst_map (mv_iid_map V) = Map.empty([7] [\<mapsto>] [0..<length [7 :: int]])" "length (mv_books V) = length [7 :: int]"
    "\<forall>bs\<in>set (mv_books V). fresh_side demo_env bs"
    using view_fill_spec [OF demo_env_ok c pre, of demo_instruments] unfolding look sum.case by (auto simp: t(2))
  with fresh_view_inv [OF demo_env_ok _ _ V(3,4) _ V(5,6)] demo_pools
  have "view_inv demo_env (e_oid_traits demo_env) V"
    "market_of demo_env V = (\<lambda>iid. if iid \<in> set [7] then Some (\<lambda>s. Map.empty) else None)" by simp_all
  moreover have "\<not> event_exhausts demo_env demo_bid V" by (rule demo_room) (use V in simp_all)
  ultimately show ?thesis using that [of V] by (simp add: fun_eq_iff)
qed

lemma demo_market:
  obtains S where "md_inv demo_env (e_oid_traits demo_env) S" "market_of demo_env (md_view S) = [7 \<mapsto> (\<lambda>s. Map.empty)]"
    "all_allowed frame_allowed spec_frame [demo_frame] (feed_state demo_env (0, S))"
    "fold spec_frame [demo_frame] (feed_state demo_env (0, S)) =
      ([7 \<mapsto> (\<lambda>s. if s = BID then [5 \<mapsto> (100000, 10)] else Map.empty)], [2, 0, 0, 0, 0])"
    "\<not> frame_exhausts demo_env (e_oid_traits demo_env) demo_frame (0, S)"
proof -
  obtain V where V: "view_inv demo_env (e_oid_traits demo_env) V" "market_of demo_env V = [7 \<mapsto> (\<lambda>s. Map.empty)]"
    "\<not> event_exhausts demo_env demo_bid V" by (rule demo_view)
  let ?p = "(0, \<lparr>md_view = V, md_ts_origin_sec = replicate 5 0, md_seqnums = replicate 5 0, md_ctx = new_ctx\<rparr>)"
  have fs: "feed_state demo_env ?p = ([7 \<mapsto> (\<lambda>s. Map.empty)], replicate 5 0)" by (simp add: feed_state_def V(2))
  have inv: "md_inv demo_env (e_oid_traits demo_env) (snd ?p)" by (simp add: md_inv_def demo_env_ok V(1) partition_count_def seqnums_ok_def)
  have msgs: "fr_msgs demo_frame = [demo_bid]" by (simp add: demo_frame_def)
  have ev: "event_allowed demo_bid [7 \<mapsto> (\<lambda>s. Map.empty)]"
    using demo_bid(2) by (simp add: event_allowed_def demo_bid(3) whole_message_def id_is_new_def split: list.splits)
  have all: "all_allowed frame_allowed spec_frame [demo_frame] (feed_state demo_env ?p)"
    by (simp add: fs frame_allowed_def demo_frame msgs ev)
  have price: "wire_to_book 100 = 100000" by (simp add: wire_to_book_simps int32_def)
  have "spec_event demo_bid [7 \<mapsto> (\<lambda>s. Map.empty)] = [7 \<mapsto> (\<lambda>s. if s = BID then [5 \<mapsto> (100000, 10)] else Map.empty)]"
    by (auto simp: spec_event_def demo_bid(3) spec_add_def to_side_def price narrow_id fun_eq_iff)
  then have spec: "fold spec_frame [demo_frame] (feed_state demo_env ?p) =
    ([7 \<mapsto> (\<lambda>s. if s = BID then [5 \<mapsto> (100000, 10)] else Map.empty)], [2, 0, 0, 0, 0])"
    unfolding fs by (simp add: spec_frame_def demo_frame msgs numeral_eq_Suc)
  have "\<not> frame_exhausts demo_env (e_oid_traits demo_env) demo_frame ?p"
    using V(3) by (auto simp: frame_exhausts_def msgs in_frame_def Cons_eq_append_conv)
  then show ?thesis by (intro that [of "snd ?p"]) (use V(2) inv all spec in simp_all)
qed

lemma market_data_follows_feed_witness:
  "\<exists>p p'. market_of demo_env (md_view (snd p)) = [7 \<mapsto> (\<lambda>s. Map.empty)] \<and>
     md_update True demo_env (e_oid_traits demo_env) demo_tape \<lparr>rp_pos = 101, rp_end = 65637, rp_ts = 0\<rparr> (0, p) = Some (Inr (101, p')) \<and>
     market_of demo_env (md_view (snd p')) = [7 \<mapsto> (\<lambda>s. if s = BID then [5 \<mapsto> (100000, 10)] else Map.empty)] \<and>
     md_seqnums (snd p') = [2, 0, 0, 0, 0]"
proof -
  obtain S where S: "md_inv demo_env (e_oid_traits demo_env) S" "market_of demo_env (md_view S) = [7 \<mapsto> (\<lambda>s. Map.empty)]"
    "all_allowed frame_allowed spec_frame [demo_frame] (feed_state demo_env (0, S))"
    "fold spec_frame [demo_frame] (feed_state demo_env (0, S)) =
      ([7 \<mapsto> (\<lambda>s. if s = BID then [5 \<mapsto> (100000, 10)] else Map.empty)], [2, 0, 0, 0, 0])"
    "\<not> frame_exhausts demo_env (e_oid_traits demo_env) demo_frame (0, S)" by (rule demo_market)
  let ?p = "(0, S)" and ?rp = "\<lparr>rp_pos = 101, rp_end = 65637, rp_ts = 0\<rparr>"
  have inv: "md_inv demo_env (e_oid_traits demo_env) (snd ?p)" using S(1) by simp
  have data: "b_read (tape_ops True) 65536 101 demo_tape = Some (md_frame_bytes demo_frame)"
    using load_linear [of 101 "tape_cell demo_tape" 65536 0 "md_frame_bytes demo_frame"] demo_frame(1)
    by (simp add: tape_ops_def tape_read_def demo_tape_def tape_cell_def stretch_def)
  have "\<exists>p'. md_update True demo_env (e_oid_traits demo_env) demo_tape ?rp (0, ?p) = Some (Inr (101, p')) \<and>
      feed_state demo_env p' = fold spec_frame [demo_frame] (feed_state demo_env ?p)"
  proof -
    have at: "rp_pos ?rp = 0 + int (length (concat (map md_frame_bytes [demo_frame])))"
      "length (concat (map md_frame_bytes [demo_frame])) < 2 ^ 31"
      "b_read (tape_ops True) (rp_end ?rp - int (length (concat (map md_frame_bytes [demo_frame]))))
        (length (concat (map md_frame_bytes [demo_frame]))) demo_tape = Some (concat (map md_frame_bytes [demo_frame]))"
      using data by (simp_all add: demo_frame(1))
    from market_data_follows_feed [OF inv S(3) at] show ?thesis
    proof (elim disjE exE conjE)
      fix earlier fr rest p' assume "[demo_frame] = earlier @ fr # rest"
        "run_steps (consume_frame demo_env (e_oid_traits demo_env)) earlier ?p = Some (Inr p')"
        "frame_exhausts demo_env (e_oid_traits demo_env) fr p'"
      with S(5) have False by (auto simp: Cons_eq_append_conv)
      then show ?thesis ..
    qed auto
  qed
  then obtain p' where "md_update True demo_env (e_oid_traits demo_env) demo_tape ?rp (0, ?p) = Some (Inr (101, p'))"
    "feed_state demo_env p' = ([7 \<mapsto> (\<lambda>s. if s = BID then [5 \<mapsto> (100000, 10)] else Map.empty)], [2, 0, 0, 0, 0])"
    unfolding S(4) by blast
  then show ?thesis using S(2) by (intro exI [of _ ?p] exI [of _ p']) (simp add: feed_state_def)
qed

end
