(* ===== verification/Market_System.thy ===== *)
theory Market_System
  imports Feed_Inv Market_Props Link_Props
begin

text \<open>
  The market data feed with what runs around it: the network, the callback thread of the RCU library and any
  number of agents with their market data managers. Each event is atomic; a read section of an agent may span
  any number of other events.
\<close>

section \<open>Events\<close>

text \<open>\<open>fa_start\<close> records what the view and the sequence numbers of an agent were when it was connected.\<close>

record ('l, 'pm) feed_agent =
  fa_pos :: int
  fa_state :: "nat \<times> ('l, 'pm) md_state"
  fa_start :: feed_state

record ('l, 'pm) market_system =
  my_feed :: market_feed
  my_agents :: "nat \<rightharpoonup> ('l, 'pm) feed_agent"

datatype ('l, 'pm) md_event =
    Md_net "datagram list"
  | Md_connect nat "('l, 'pm) md_state"
  | Md_step
  | Md_callback nat
  | Md_lock nat
  | Md_update nat
  | Md_unlock nat

definition set_feed_pub :: "rcu_pub \<Rightarrow> ('l, 'pm) market_system \<Rightarrow> ('l, 'pm) market_system" where
  "set_feed_pub U X = X\<lparr>my_feed := (my_feed X)\<lparr>fd_pub := U\<rparr>\<rparr>"

text \<open>A manager that starts has a context of zeros.\<close>

definition new_manager_agent :: "('l, 'pm) lob_env \<Rightarrow> ('l, 'pm) md_state \<Rightarrow> ('l, 'pm) feed_agent" where
  "new_manager_agent L S = \<lparr>fa_pos = 0, fa_state = (0, S), fa_start = feed_state L (0, S)\<rparr>"

text \<open>An agent in its read section follows the pointer it loaded.\<close>

definition manager_poll :: "feed_env \<Rightarrow> ('l, 'pm) lob_env \<Rightarrow> int cst_traits \<Rightarrow> nat \<Rightarrow> ('l, 'pm) market_system \<Rightarrow>
    ('l, 'pm) market_system result option" where
  "manager_poll E L T rd X =
     (case (ru_readers (fd_pub (my_feed X)) rd, my_agents X rd) of
        (Some (r, ghost), Some a) \<Rightarrow>
          bind_ro (pool_get (fe_pool E) False r (ru_pool (fd_pub (my_feed X)))) (\<lambda>pd.
          bind_ro (md_update (fe_check E) L T (dl_recv (fd_link (my_feed X))) (pd_data pd ! 0) (fa_pos a, fa_state a)) (\<lambda>(pos, S).
            Some (Inr (X\<lparr>my_agents := (my_agents X)(rd \<mapsto> a\<lparr>fa_pos := pos, fa_state := S\<rparr>)\<rparr>))))
      | _ \<Rightarrow> None)"

primrec md_do :: "feed_env \<Rightarrow> ('l, 'pm) lob_env \<Rightarrow> int cst_traits \<Rightarrow> ('l, 'pm) md_event \<Rightarrow> ('l, 'pm) market_system \<Rightarrow>
    ('l, 'pm) market_system result option" where
  "md_do E L T (Md_net so) X = Some (Inr (X\<lparr>my_feed := (my_feed X)\<lparr>fd_sock := so\<rparr>\<rparr>))"
| "md_do E L T (Md_connect rd S) X = Some (Inr (X\<lparr>my_agents := (my_agents X)(rd \<mapsto> new_manager_agent L S)\<rparr>))"
| "md_do E L T Md_step X = bind_ro (feed_step E (my_feed X)) (\<lambda>S. Some (Inr (X\<lparr>my_feed := S\<rparr>)))"
| "md_do E L T (Md_callback i) X = bind_ro (rcu_callback (fe_pool E) i (fd_pub (my_feed X))) (\<lambda>U. Some (Inr (set_feed_pub U X)))"
| "md_do E L T (Md_lock rd) X = bind_ro (rcu_lock (fe_pool E) rd (fd_pub (my_feed X))) (\<lambda>U. Some (Inr (set_feed_pub U X)))"
| "md_do E L T (Md_update rd) X = manager_poll E L T rd X"
| "md_do E L T (Md_unlock rd) X = Some (Inr (set_feed_pub (rcu_unlock rd (fd_pub (my_feed X))) X))"

text \<open>
  When an event may happen: an agent connects with a view whose books the frames of the feed fit; a step needs
  what \<open>feed_ready\<close> says.
\<close>

primrec md_enabled :: "feed_env \<Rightarrow> ('l, 'pm) lob_env \<Rightarrow> int cst_traits \<Rightarrow> md_frame list \<Rightarrow> ('l, 'pm) md_event \<Rightarrow> ('l, 'pm) market_system \<Rightarrow> bool" where
  "md_enabled E L T FS (Md_net so) X \<longleftrightarrow> True"
| "md_enabled E L T FS (Md_connect rd S) X \<longleftrightarrow> my_agents X rd = None \<and> md_inv L T S \<and> all_allowed frame_allowed spec_frame FS (feed_state L (0, S))"
| "md_enabled E L T FS Md_step X \<longleftrightarrow> feed_ready E FS (my_feed X)"
| "md_enabled E L T FS (Md_callback i) X \<longleftrightarrow> rcu_enabled feed_width (Callback i) (fd_pub (my_feed X))"
| "md_enabled E L T FS (Md_lock rd) X \<longleftrightarrow> rcu_enabled feed_width (Lock rd) (fd_pub (my_feed X))"
| "md_enabled E L T FS (Md_update rd) X \<longleftrightarrow> ru_readers (fd_pub (my_feed X)) rd \<noteq> None \<and> my_agents X rd \<noteq> None"
| "md_enabled E L T FS (Md_unlock rd) X \<longleftrightarrow> rcu_enabled feed_width (Unlock rd) (fd_pub (my_feed X))"

inductive md_reach :: "feed_env \<Rightarrow> ('l, 'pm) lob_env \<Rightarrow> int cst_traits \<Rightarrow> md_frame list \<Rightarrow> ('l, 'pm) market_system \<Rightarrow> ('l, 'pm) market_system \<Rightarrow> bool"
  for E :: feed_env and L :: "('l, 'pm) lob_env" and T :: "int cst_traits" and FS :: "md_frame list" and X0 :: "('l, 'pm) market_system" where
  md_start: "md_reach E L T FS X0 X0"
| md_event: "md_reach E L T FS X0 X \<Longrightarrow> md_enabled E L T FS ev X \<Longrightarrow> md_do E L T ev X = Some (Inr X') \<Longrightarrow> md_reach E L T FS X0 X'"

section \<open>Invariant\<close>

text \<open>An agent has handled the first frames of the feed, up to one of those accepted.\<close>

definition follows :: "('l, 'pm) lob_env \<Rightarrow> md_frame list \<Rightarrow> nat \<Rightarrow> ('l, 'pm) feed_agent \<Rightarrow> bool" where
  "follows L FS k a \<longleftrightarrow> fa_pos a = int (frames_size FS k) \<and> feed_state L (fa_state a) = fold spec_frame (take k FS) (fa_start a)"

definition follower_ok :: "('l, 'pm) lob_env \<Rightarrow> int cst_traits \<Rightarrow> md_frame list \<Rightarrow> nat \<Rightarrow> ('l, 'pm) feed_agent \<Rightarrow> bool" where
  "follower_ok L T FS n a \<longleftrightarrow> md_inv L T (snd (fa_state a)) \<and> all_allowed frame_allowed spec_frame FS (fa_start a) \<and> (\<exists>k \<le> n. follows L FS k a)"

definition market_inv :: "feed_env \<Rightarrow> ('l, 'pm) lob_env \<Rightarrow> int cst_traits \<Rightarrow> md_frame list \<Rightarrow> nat \<Rightarrow> ('l, 'pm) market_system \<Rightarrow> bool" where
  "market_inv E L T FS n X \<longleftrightarrow> (\<exists>stack. md_feed_inv E FS n stack (my_feed X)) \<and> (\<forall>rd a. my_agents X rd = Some a \<longrightarrow> follower_ok L T FS n a)"

lemma market_inv_feed:
  "market_inv E L T FS n X \<Longrightarrow> md_feed_inv E FS n' stack S \<Longrightarrow> n \<le> n' \<Longrightarrow> market_inv E L T FS n' (X\<lparr>my_feed := S\<rparr>)"
  unfolding market_inv_def follower_ok_def by simp (meson order_trans)

text \<open>An event of the publication that changes no descriptor's data.\<close>

lemma market_inv_pub:
  assumes inv: "market_inv E L T FS n X" "md_feed_inv E FS n stack (my_feed X)" and U: "rcu_inv feed_width (fe_pool E) U' stack'"
    and data: "rcu_data (fe_pool E) U' = rcu_data (fe_pool E) (fd_pub (my_feed X))"
    and ptr: "ru_published U' = ru_published (fd_pub (my_feed X))" "ru_current U' = ru_current (fd_pub (my_feed X))"
    and live: "set (rcu_live U' stack') \<subseteq> set (rcu_live (fd_pub (my_feed X)) stack)"
  shows "market_inv E L T FS n (set_feed_pub U' X)"
  unfolding set_feed_pub_def
proof (rule market_inv_feed [OF inv(1) _ order_refl])
  show "md_feed_inv E FS n stack' ((my_feed X)\<lparr>fd_pub := U'\<rparr>)"
    by (rule md_feed_inv_pub [OF inv(2) U]) (use md_feed_invD(9,10) [OF inv(2)] live in \<open>auto simp: data ptr\<close>)
qed

lemma all_allowed_append: "all_allowed ok spec (xs @ ys) a \<longleftrightarrow> all_allowed ok spec xs a \<and> all_allowed ok spec ys (fold spec xs a)"
  by (induction xs arbitrary: a) simp_all

section \<open>Updates\<close>

text \<open>
  What stops an update of an agent up to a position: from the state it is in, it handles the frames it has
  not handled yet, and comes to one, within that position, at which the storage of its view is exhausted.
\<close>

definition update_exhausts :: "('l, 'pm) lob_env \<Rightarrow> int cst_traits \<Rightarrow> md_frame list \<Rightarrow> int \<Rightarrow> ('l, 'pm) feed_agent \<Rightarrow> bool" where
  "update_exhausts L T FS pos a \<longleftrightarrow> (\<exists>k j p. follows L FS k a \<and> k \<le> j \<and> j < length FS \<and> int (frames_size FS (Suc j)) \<le> pos \<and>
     run_steps (consume_frame L T) (drop k (take j FS)) (fa_state a) = Some (Inr p) \<and> frame_exhausts L T (FS ! j) p)"

text \<open>An update with a published position either finds storage exhausted or brings the agent to it.\<close>

lemma follower_update:
  assumes inv: "md_feed_inv E FS n stack S" and a: "follower_ok L T FS n a" "follows L FS k a" "k \<le> n" and rp: "mark_ok FS n (dl_recv (fd_link S)) rp"
  shows "(update_exhausts L T FS (rp_pos rp) a \<and> (\<exists>e. md_update chk L T (dl_recv (fd_link S)) rp (fa_pos a, fa_state a) = Some (Inl e))) \<or>
    (\<exists>m p'. md_update chk L T (dl_recv (fd_link S)) rp (fa_pos a, fa_state a) = Some (Inr (int (frames_size FS m), p')) \<and>
      k \<le> m \<and> m \<le> n \<and> rp_pos rp \<le> int (frames_size FS m) \<and>
      follower_ok L T FS n (a\<lparr>fa_pos := int (frames_size FS m), fa_state := p'\<rparr>) \<and>
      follows L FS m (a\<lparr>fa_pos := int (frames_size FS m), fa_state := p'\<rparr>))"
proof -
  let ?buf = "dl_recv (fd_link S)"
  note i = md_feed_invD [OF inv]
  obtain m where m: "m \<le> n" "rp_pos rp = int (frames_size FS m)" "0 < frames_size FS m \<Longrightarrow> rp_end rp = tp_base ?buf + int (frames_size FS m)"
    using rp by (auto simp: mark_ok_def)
  have pos: "fa_pos a = int (frames_size FS k)" and st: "feed_state L (fa_state a) = fold spec_frame (take k FS) (fa_start a)"
    using a(2) by (simp_all add: follows_def)
  have dinv: "md_inv L T (snd (fa_state a))" and all: "all_allowed frame_allowed spec_frame FS (fa_start a)" using a(1) by (simp_all add: follower_ok_def)
  have "int (frames_size FS n) < 2 ^ 31" using i(2,11) tape_posD(4,7) [OF i(1)] by linarith
  then have small: "frames_size FS n < 2 ^ 31" by simp
  show ?thesis
  proof (cases "frames_size FS k < frames_size FS m")
    case False
    have k31: "frames_size FS k < 2 ^ 31" using small frames_size_mono [OF a(3), of FS] by simp
    have "narrow 32 (rp_pos rp - fa_pos a) = rp_pos rp - fa_pos a" using False k31 by (intro narrow_id) (simp_all add: m(2) pos)
    then have "md_update chk L T ?buf rp (fa_pos a, fa_state a) = Some (Inr (int (frames_size FS k), fa_state a))"
      using False by (simp add: md_update_def Let_def m(2) pos)
    moreover have "a\<lparr>fa_pos := int (frames_size FS k), fa_state := fa_state a\<rparr> = a" using pos by simp
    ultimately show ?thesis using a False m(2) by (intro disjI2 exI [of _ k] exI [of _ "fa_state a"]) simp
  next
    case True
    then have km: "k \<le> m" using frames_size_less by fastforce
    obtain frs where split: "take m FS = take k FS @ frs" using km by (metis append_take_drop_id min.absorb1 take_take)
    let ?bytes = "concat (map md_frame_bytes frs)"
    have size: "frames_size FS m = frames_size FS k + length ?bytes" by (simp add: frames_size_def split)
    have "all_allowed frame_allowed spec_frame (take m FS) (fa_start a)"
      using all all_allowed_append [of frame_allowed spec_frame "take m FS" "drop m FS" "fa_start a"] by simp
    then have ok: "all_allowed frame_allowed spec_frame frs (feed_state L (fa_state a))"
      unfolding split all_allowed_append st by simp
    have mw: "frames_size FS m \<le> tape_w ?buf" using frames_size_mono [OF m(1), of FS] i(11) by simp
    have len: "length ?bytes < 2 ^ 31" using size small frames_size_mono [OF m(1), of FS] by linarith
    have addr: "rp_end rp - int (length ?bytes) = tp_base ?buf + int (frames_size FS k)" using m(3) True size by simp
    have "take (length ?bytes) (drop (frames_size FS k) (tape_all ?buf)) = ?bytes"
    proof -
      have "take m FS @ drop m (take n FS) = take n FS" using m(1) by (metis append_take_drop_id min.absorb1 take_take)
      then have "tape_all ?buf = concat (map md_frame_bytes (take m FS @ drop m (take n FS)))" by (simp add: i(5))
      also have "\<dots> = concat (map md_frame_bytes (take k FS)) @ ?bytes @ concat (map md_frame_bytes (drop m (take n FS)))"
        unfolding split by simp
      finally show ?thesis by (simp add: frames_size_def)
    qed
    then have data: "b_read (tape_ops chk) (rp_end rp - int (length ?bytes)) (length ?bytes) ?buf = Some ?bytes"
      using tape_read_all [OF i(1), of "frames_size FS k" "length ?bytes"] mw size unfolding addr by (simp add: tape_ops_def)
    have at: "rp_pos rp = fa_pos a + int (length ?bytes)" by (simp add: m(2) pos size)
    note upd = md_update_frames [OF dinv ok at len data]
    from market_frames.run_refines [OF dinv ok] show ?thesis
    proof (elim disjE exE conjE)
      fix p' assume p': "run_steps (consume_frame L T) frs (fa_state a) = Some (Inr p')" "md_inv L T (snd p')"
        "feed_state L p' = fold spec_frame frs (feed_state L (fa_state a))"
      have "feed_state L p' = fold spec_frame (take m FS) (fa_start a)" unfolding split p'(3) st by simp
      then have "follows L FS m (a\<lparr>fa_pos := int (frames_size FS m), fa_state := p'\<rparr>)" by (simp add: follows_def)
      moreover from this have "follower_ok L T FS n (a\<lparr>fa_pos := int (frames_size FS m), fa_state := p'\<rparr>)"
        using p'(2) all m(1) unfolding follower_ok_def by auto
      ultimately show ?thesis using upd p'(1) km m(1,2)
        by (intro disjI2 exI [of _ m] exI [of _ p']) simp
    next
      fix earlier fr rest p' e
      assume ex: "frs = earlier @ fr # rest" "run_steps (consume_frame L T) earlier (fa_state a) = Some (Inr p')" "frame_exhausts L T fr p'"
        and e: "run_steps (consume_frame L T) frs (fa_state a) = Some (Inl e)"
      let ?j = "k + length earlier"
      have lm: "length (take m FS) = m" "length (take k FS) = k" using m(1) a(3) i(3) by simp_all
      have at_j: "take m FS = (take k FS @ earlier) @ fr # rest" using split ex(1) by simp
      have jm: "Suc ?j \<le> m" using arg_cong [OF at_j, of length] lm by simp
      have "take ?j (take m FS) = take k FS @ earlier" unfolding at_j using lm(2) by simp
      then have tj: "take ?j FS = take k FS @ earlier" using jm by (simp add: min_def)
      have dj: "drop k (take ?j FS) = earlier" unfolding tj using lm(2) by simp
      have "take m FS ! ?j = fr" unfolding at_j using lm(2) by (simp add: nth_append)
      then have "FS ! ?j = fr" using jm by simp
      moreover have "frames_size FS (Suc ?j) \<le> frames_size FS m" by (rule frames_size_mono [OF jm])
      then have "int (frames_size FS (Suc ?j)) \<le> rp_pos rp" using m(2) by simp
      moreover have "?j < length FS" using jm m(1) i(3) by simp
      ultimately have "update_exhausts L T FS (rp_pos rp) a"
        unfolding update_exhausts_def using a(2) ex(2,3) dj by (intro exI [of _ k] exI [of _ ?j] exI [of _ p']) simp
      then show ?thesis using upd e by simp
    qed
  qed
qed

section \<open>Events keep the invariant\<close>

lemma market_inv_agents:
  "market_inv E L T FS n X \<Longrightarrow> follower_ok L T FS n a \<Longrightarrow> market_inv E L T FS n (X\<lparr>my_agents := (my_agents X)(rd \<mapsto> a)\<rparr>)"
  by (auto simp: market_inv_def)

lemma market_inv_agent: "market_inv E L T FS n X \<Longrightarrow> my_agents X rd = Some a \<Longrightarrow> follower_ok L T FS n a"
  by (simp add: market_inv_def)

text \<open>Updating in an open read section.\<close>

lemma manager_poll_spec:
  assumes inv: "market_inv E L T FS n X" and rd: "ru_readers (fd_pub (my_feed X)) rd = Some (r, data)" and ag: "my_agents X rd = Some a"
  shows "(update_exhausts L T FS (rp_pos (data ! 0)) a \<and> (\<exists>e. manager_poll E L T rd X = Some (Inl e))) \<or>
    (\<exists>X' a' m. manager_poll E L T rd X = Some (Inr X') \<and> market_inv E L T FS n X' \<and> my_agents X' rd = Some a' \<and>
      fa_start a' = fa_start a \<and> m \<le> n \<and> rp_pos (data ! 0) \<le> int (frames_size FS m) \<and> follows L FS m a')"
proof -
  let ?S = "my_feed X" and ?Q = "fe_pool E"
  obtain stack where f: "md_feed_inv E FS n stack ?S" using inv by (auto simp: market_inv_def)
  note i = md_feed_invD [OF f] and u = rcu_invD [OF md_feed_invD(8) [OF f]]
  have live: "r \<in> set (rcu_live (fd_pub ?S) stack)" "r \<noteq> ru_current (fd_pub ?S)"
    using held_live [OF i(8) rd] by (auto simp: rcu_live_def)
  obtain pd where pd: "objs ?Q (ru_pool (fd_pub ?S)) r = Some pd" "rcu_data ?Q (fd_pub ?S) r = pd_data pd" using u(4) [OF live(1)] by blast
  have d: "pd_data pd = data" using u(5) [OF rd] pd(2) by simp
  have mk: "mark_ok FS n (dl_recv (fd_link ?S)) (data ! 0)" using i(9) [OF live] by (simp add: pd(2) d)
  have ok: "follower_ok L T FS n a" by (rule market_inv_agent [OF inv ag])
  then obtain k where k: "follows L FS k a" "k \<le> n" by (auto simp: follower_ok_def)
  have run: "manager_poll E L T rd X = bind_ro (md_update (fe_check E) L T (dl_recv (fd_link ?S)) (data ! 0) (fa_pos a, fa_state a)) (\<lambda>(pos, S).
      Some (Inr (X\<lparr>my_agents := (my_agents X)(rd \<mapsto> a\<lparr>fa_pos := pos, fa_state := S\<rparr>)\<rparr>)))"
    by (simp add: manager_poll_def rd ag pool_get_spec [OF u(1) pd(1)] d)
  from follower_update [OF f ok k mk, of "fe_check E"] show ?thesis
  proof (elim disjE exE conjE)
    fix e assume "update_exhausts L T FS (rp_pos (data ! 0)) a" "md_update (fe_check E) L T (dl_recv (fd_link ?S)) (data ! 0) (fa_pos a, fa_state a) = Some (Inl e)"
    then show ?thesis unfolding run by simp
  next
    fix m p' assume m: "md_update (fe_check E) L T (dl_recv (fd_link ?S)) (data ! 0) (fa_pos a, fa_state a) = Some (Inr (int (frames_size FS m), p'))"
      "m \<le> n" "rp_pos (data ! 0) \<le> int (frames_size FS m)"
      and a': "follower_ok L T FS n (a\<lparr>fa_pos := int (frames_size FS m), fa_state := p'\<rparr>)"
        "follows L FS m (a\<lparr>fa_pos := int (frames_size FS m), fa_state := p'\<rparr>)"
    note inv' = market_inv_agents [OF inv a'(1), of rd]
    show ?thesis unfolding run m(1) using inv' a'(2) m(2,3) by (intro disjI2) (simp, blast)
  qed
qed

lemma new_manager_agent_ok:
  "md_inv L T S \<Longrightarrow> all_allowed frame_allowed spec_frame FS (feed_state L (0, S)) \<Longrightarrow> follower_ok L T FS n (new_manager_agent L S)"
  unfolding follower_ok_def follows_def by (auto simp: new_manager_agent_def frames_size_def intro: exI [of _ 0])

lemma md_do_spec:
  assumes inv: "market_inv E L T FS n X" and en: "md_enabled E L T FS ev X"
  shows "(\<exists>rd r data a e. ev = Md_update rd \<and> ru_readers (fd_pub (my_feed X)) rd = Some (r, data) \<and> my_agents X rd = Some a \<and>
          md_do E L T ev X = Some (Inl e) \<and> update_exhausts L T FS (rp_pos (data ! 0)) a) \<or>
    (\<exists>X' n'. md_do E L T ev X = Some (Inr X') \<and> market_inv E L T FS n' X' \<and> n \<le> n')"
proof -
  let ?S = "my_feed X" and ?U = "fd_pub (my_feed X)" and ?Q = "fe_pool E"
  obtain stack where f: "md_feed_inv E FS n stack ?S" using inv by (auto simp: market_inv_def)
  note u = md_feed_invD(8) [OF f]
  show ?thesis
  proof (cases ev)
    case (Md_net so)
    have "md_feed_inv E FS n stack (?S\<lparr>fd_sock := so\<rparr>)" using f by (simp add: md_feed_inv_def Let_def)
    from market_inv_feed [OF inv this order_refl] show ?thesis using Md_net by auto
  next
    case (Md_connect rd S)
    then show ?thesis using en market_inv_agents [OF inv new_manager_agent_ok] by fastforce
  next
    case Md_step
    then have "feed_ready E FS ?S" using en by simp
    then obtain S' where s: "feed_step E ?S = Some (Inr S')" "md_feed_inv E FS (if feed_accepts E ?S then Suc n else n) [] S'"
      using feed_step_spec [OF f] by metis
    have le: "n \<le> (if feed_accepts E ?S then Suc n else n)" by simp
    from market_inv_feed [OF inv s(2) le] s(1) le show ?thesis using Md_step by auto
  next
    case (Md_callback k)
    have k: "k < length (ru_pending ?U)" "snd (ru_pending ?U ! k) = {}" using en by (simp_all add: Md_callback)
    obtain U' where c: "rcu_callback ?Q k ?U = Some (Inr U')" "rcu_inv feed_width ?Q U' (fst (ru_pending ?U ! k) # stack)"
      "rcu_data ?Q U' = rcu_data ?Q ?U" "ru_published U' = ru_published ?U" "ru_current U' = ru_current ?U"
      "ru_readers U' = ru_readers ?U" "ru_pending U' = take k (ru_pending ?U) @ drop (Suc k) (ru_pending ?U)"
      by (rule rcu_callback_spec [OF u k])
    have "fst (ru_pending ?U ! k) \<in> fst ` set (ru_pending ?U)" using k(1) by simp
    then have "set (rcu_live U' (fst (ru_pending ?U ! k) # stack)) \<subseteq> set (rcu_live ?U stack)"
      using set_take_subset [of k "ru_pending ?U"] set_drop_subset [of "Suc k" "ru_pending ?U"]
      by (auto simp: rcu_live_def c(4,5,7))
    from market_inv_pub [OF inv f c(2-5) this] c(1) show ?thesis using Md_callback by auto
  next
    case (Md_lock rd)
    note lock = rcu_lock_spec [OF u, of rd]
    have "market_inv E L T FS n (set_feed_pub (?U\<lparr>ru_readers := (ru_readers ?U)(rd \<mapsto> (ru_published ?U, rcu_data ?Q ?U (ru_published ?U)))\<rparr>) X)"
      by (rule market_inv_pub [OF inv f lock(2)]) (simp_all add: rcu_data_def rcu_live_def fun_eq_iff)
    then show ?thesis using lock(1) Md_lock by auto
  next
    case (Md_update rd)
    then obtain r data a where ra: "ru_readers ?U rd = Some (r, data)" "my_agents X rd = Some a" using en by auto
    from manager_poll_spec [OF inv this] show ?thesis using Md_update ra by (elim disjE exE conjE) auto
  next
    case (Md_unlock rd)
    note un = rcu_unlock_spec [OF u, of rd]
    have ptr: "ru_published (rcu_unlock rd ?U) = ru_published ?U" "ru_current (rcu_unlock rd ?U) = ru_current ?U" by (simp_all add: rcu_unlock_def)
    have "market_inv E L T FS n (set_feed_pub (rcu_unlock rd ?U) X)"
      by (rule market_inv_pub [OF inv f un(1,2) ptr]) (use un(3) ptr in \<open>simp add: rcu_live_def\<close>)
    then show ?thesis using Md_unlock by auto
  qed
qed

lemma md_reach_inv: "md_reach E L T FS X0 X \<Longrightarrow> market_inv E L T FS n0 X0 \<Longrightarrow> \<exists>n. market_inv E L T FS n X"
proof (induction rule: md_reach.induct)
  case (md_event X ev X')
  then obtain n where "market_inv E L T FS n X" by blast
  from md_do_spec [OF this md_event.hyps(2)] md_event.hyps(3) show ?case by auto
qed blast

text \<open>A fresh read section sees everything the feed has accepted.\<close>

lemma market_catch_up:
  assumes inv: "market_inv E L T FS n X" and ag: "my_agents X rd = Some a"
  shows "\<exists>X1. md_do E L T (Md_lock rd) X = Some (Inr X1) \<and>
    ((\<exists>e. md_do E L T (Md_update rd) X1 = Some (Inl e) \<and> update_exhausts L T FS (int (frames_size FS n)) a) \<or>
     (\<exists>X2 a'. md_do E L T (Md_update rd) X1 = Some (Inr X2) \<and> my_agents X2 rd = Some a' \<and>
        feed_state L (fa_state a') = fold spec_frame (take n FS) (fa_start a)))"
proof -
  let ?U = "fd_pub (my_feed X)" and ?Q = "fe_pool E"
  obtain stack where f: "md_feed_inv E FS n stack (my_feed X)" using inv by (auto simp: market_inv_def)
  let ?data = "rcu_data ?Q ?U (ru_published ?U)"
  let ?X1 = "set_feed_pub (?U\<lparr>ru_readers := (ru_readers ?U)(rd \<mapsto> (ru_published ?U, ?data))\<rparr>) X"
  note lock = rcu_lock_spec [OF md_feed_invD(8) [OF f], of rd]
  have do: "md_do E L T (Md_lock rd) X = Some (Inr ?X1)" using lock(1) by simp
  have inv1: "market_inv E L T FS n ?X1"
    by (rule market_inv_pub [OF inv f lock(2)]) (simp_all add: rcu_data_def rcu_live_def fun_eq_iff)
  have r1: "ru_readers (fd_pub (my_feed ?X1)) rd = Some (ru_published ?U, ?data)" "my_agents ?X1 rd = Some a"
    using ag by (simp_all add: set_feed_pub_def)
  from manager_poll_spec [OF inv1 r1] show ?thesis
  proof (elim disjE exE conjE)
    fix e assume "update_exhausts L T FS (rp_pos (?data ! 0)) a" "manager_poll E L T rd ?X1 = Some (Inl e)"
    moreover have "rp_pos (?data ! 0) = int (frames_size FS n)" by (rule md_feed_invD(10) [OF f])
    ultimately show ?thesis using do by (intro exI [of _ ?X1]) simp
  next
    fix X2 a' m assume m: "manager_poll E L T rd ?X1 = Some (Inr X2)" "my_agents X2 rd = Some a'" "fa_start a' = fa_start a" "m \<le> n"
      "rp_pos (?data ! 0) \<le> int (frames_size FS m)" "follows L FS m a'"
    have "frames_size FS n \<le> frames_size FS m" using m(5) md_feed_invD(10) [OF f] by simp
    then have "m = n" using m(4) frames_size_strict [OF _ md_feed_invD(3,4) [OF f], of m] by (metis le_neq_implies_less not_le)
    then show ?thesis using do m(1-3,6) by (intro exI [of _ ?X1]) (simp add: follows_def)
  qed
qed

text \<open>
  C40: whatever network, feed, callback thread and agents do, in any order, what the tape has received is a
  sequence of whole frames of the feed, and the view and the expected sequence numbers of every agent are what some of
  these frames, from the first one on, make of those it was connected with. A step that finds the next frame pending
  receives it, and only then the tape grows. No enabled event fails, except an
  update of an agent whose own state, after the frames before it, exhausts the storage of its view at a frame
  within the position the update reads up to; and an agent that locks and updates has seen every
  frame received, unless that happens at one of the frames it had not handled.
\<close>

theorem agents_follow_market_feed:
  assumes "pool_inv (fe_pool E) p" "market_feed_new E page_size base reserve p = Some (Inr S0)" "0 < page_size" "reserve + page_size \<le> 2 ^ 31"
    and "\<forall>fr \<in> set FS. md_frame_ok fr" "my_feed X0 = S0" "my_agents X0 = Map.empty" "md_reach E L T FS X0 X"
  shows "\<exists>n \<le> length FS. tape_all (dl_recv (fd_link (my_feed X))) = concat (map md_frame_bytes (take n FS)) \<and>
     (\<forall>rd a. my_agents X rd = Some a \<longrightarrow> (\<exists>k \<le> n. feed_state L (fa_state a) = fold spec_frame (take k FS) (fa_start a)) \<and>
        (\<exists>X1. md_do E L T (Md_lock rd) X = Some (Inr X1) \<and>
          ((\<exists>e. md_do E L T (Md_update rd) X1 = Some (Inl e) \<and> update_exhausts L T FS (int (frames_size FS n)) a) \<or>
           (\<exists>X2 a'. md_do E L T (Md_update rd) X1 = Some (Inr X2) \<and> my_agents X2 rd = Some a' \<and>
              feed_state L (fa_state a') = fold spec_frame (take n FS) (fa_start a))))) \<and>
     (feed_ready E FS (my_feed X) \<longrightarrow> (\<exists>S. feed_step E (my_feed X) = Some (Inr S) \<and>
        tape_all (dl_recv (fd_link S)) = concat (map md_frame_bytes (take (if feed_accepts E (my_feed X) then Suc n else n) FS)))) \<and>
     (\<forall>ev. md_enabled E L T FS ev X \<longrightarrow> (\<exists>X'. md_do E L T ev X = Some (Inr X')) \<or>
        (\<exists>rd r data a e. ev = Md_update rd \<and> ru_readers (fd_pub (my_feed X)) rd = Some (r, data) \<and> my_agents X rd = Some a \<and>
          md_do E L T ev X = Some (Inl e) \<and> update_exhausts L T FS (rp_pos (data ! 0)) a))"
proof -
  have "md_feed_inv E FS 0 [] S0" by (rule market_feed_new_inv [OF assms(1-5)])
  then have "market_inv E L T FS 0 X0" using assms(6,7) by (auto simp: market_inv_def)
  from md_reach_inv [OF assms(8) this] obtain n where inv: "market_inv E L T FS n X" by blast
  obtain stack where f: "md_feed_inv E FS n stack (my_feed X)" using inv by (auto simp: market_inv_def)
  have "\<exists>k \<le> n. feed_state L (fa_state a) = fold spec_frame (take k FS) (fa_start a)" if "my_agents X rd = Some a" for rd a
    using market_inv_agent [OF inv that] by (auto simp: follower_ok_def follows_def)
  moreover have "(\<exists>X'. md_do E L T ev X = Some (Inr X')) \<or> (\<exists>rd r data a e. ev = Md_update rd \<and> ru_readers (fd_pub (my_feed X)) rd = Some (r, data) \<and> my_agents X rd = Some a \<and>
          md_do E L T ev X = Some (Inl e) \<and> update_exhausts L T FS (rp_pos (data ! 0)) a)"
    if "md_enabled E L T FS ev X" for ev using md_do_spec [OF inv that] by blast
  moreover have "\<exists>S. feed_step E (my_feed X) = Some (Inr S) \<and>
      tape_all (dl_recv (fd_link S)) = concat (map md_frame_bytes (take (if feed_accepts E (my_feed X) then Suc n else n) FS))"
    if "feed_ready E FS (my_feed X)" using feed_step_spec [OF f that] md_feed_invD(5) by metis
  ultimately show ?thesis using md_feed_invD(3,5) [OF f] market_catch_up [OF inv] by (intro exI [of _ n]) blast
qed

text \<open>The frame of the demonstration arrives, and the agent that was connected before updates.\<close>

definition demo_feed_env :: feed_env where
  "demo_feed_env = \<lparr>fe_pool = demo_pool_opts, fe_check = True, fe_filter = \<lparr>ipf_lo_h = 0, ipf_hi_m_lo_h = 100\<rparr>,
     fe_stale = \<lparr>rp_pos = 9, rp_end = 9, rp_ts = 9\<rparr>\<rparr>"

definition demo_datagram :: datagram where
  "demo_datagram = Datagram (md_frame_bytes demo_frame) 77"

lemma demo_feed_new:
  obtains S0 where "market_feed_new demo_feed_env 4096 65536 4096 demo_pool = Some (Inr S0)"
    "\<not> pool_full demo_pool_opts (ru_pool (fd_pub S0))" "tape_room (dl_recv (fd_link S0)) = 4096" "tape_all (dl_recv (fd_link S0)) = []"
proof -
  obtain U where U: "rcu_initialize feed_width demo_pool_opts demo_pool = Some (Inr U)" "\<not> pool_full demo_pool_opts (ru_pool U)"
    "ru_readers U = Map.empty" by (rule demo_initialized)
  let ?buf = "\<lparr>tp_reserve_size = 4096, tp_base = 65536, tp_r_addr = 65536, tp_w_addr = 65536, tp_mem = replicate 4096 0\<rparr>"
  let ?S = "\<lparr>fd_link = \<lparr>dl_recv = ?buf, dl_send = (), dl_ts_last_recv = 0, dl_ts_last_send = 0\<rparr>, fd_sock = [], fd_pub = U,
    fd_link_pos_begin = 0, fd_link_size = 0\<rparr>"
  have "market_feed_new demo_feed_env 4096 65536 4096 demo_pool = Some (Inr ?S)"
    using U(1) by (simp add: market_feed_new_def demo_feed_env_def tape_new_def select_size_def)
  then show ?thesis by (rule that) (use U(2) in \<open>simp_all add: tape_room_def tape_all_def tape_w_def\<close>)
qed

lemma demo_feed_ready:
  assumes "\<not> pool_full demo_pool_opts (ru_pool (fd_pub S))" "tape_room (dl_recv (fd_link S)) = 4096" "tape_all (dl_recv (fd_link S)) = []"
    and "fd_sock S = [demo_datagram]"
  shows "feed_ready demo_feed_env [demo_frame] S" "feed_accepts demo_feed_env S"
proof -
  have "get_field ip_hdr N_dst (fr_ip demo_frame) = [0, 0, 0, 0]"
    by (simp add: get_field_def ip_hdr_def stretch_def demo_frame_def numeral_eq_Suc)
  then have dst: "frame_dst demo_frame = 0" by (simp add: frame_dst_def net_read_u_def byteswap_def numeral_eq_Suc)
  have range: "ip_in_range (fe_filter demo_feed_env) (frame_dst demo_frame)" by (simp add: dst ip_in_range_def demo_feed_env_def)
  show "feed_accepts demo_feed_env S"
    using frame_not_dropped [OF demo_frame(2) range] by (simp add: feed_accepts_def assms(4) demo_datagram_def)
  have "md_frame_bytes demo_frame \<noteq> []" using demo_frame(1) by auto
  then show "feed_ready demo_feed_env [demo_frame] S"
    using assms range demo_frame(1) by (simp add: feed_ready_def demo_datagram_def demo_feed_env_def)
qed

lemma agents_follow_market_feed_witness:
  "\<exists>S0 X. market_feed_new demo_feed_env 4096 65536 4096 demo_pool = Some (Inr S0) \<and>
     md_reach demo_feed_env Book_Props.demo_env (e_oid_traits Book_Props.demo_env) [demo_frame] \<lparr>my_feed = S0, my_agents = Map.empty\<rparr> X \<and>
     tape_all (dl_recv (fd_link (my_feed X))) = md_frame_bytes demo_frame \<and>
     (\<exists>X1 X2 a. md_do demo_feed_env Book_Props.demo_env (e_oid_traits Book_Props.demo_env) (Md_lock 3) X = Some (Inr X1) \<and>
        md_do demo_feed_env Book_Props.demo_env (e_oid_traits Book_Props.demo_env) (Md_update 3) X1 = Some (Inr X2) \<and>
        my_agents X2 3 = Some a \<and>
        market_of Book_Props.demo_env (md_view (snd (fa_state a))) = [7 \<mapsto> (\<lambda>s. if s = BID then [5 \<mapsto> (100000, 10)] else Map.empty)])"
proof -
  let ?E = demo_feed_env and ?L = Book_Props.demo_env and ?FS = "[demo_frame]"
  let ?T = "e_oid_traits ?L"
  obtain S0 where S0: "market_feed_new ?E 4096 65536 4096 demo_pool = Some (Inr S0)" "\<not> pool_full demo_pool_opts (ru_pool (fd_pub S0))"
    "tape_room (dl_recv (fd_link S0)) = 4096" "tape_all (dl_recv (fd_link S0)) = []" by (rule demo_feed_new)
  obtain S where S: "md_inv ?L ?T S" "market_of ?L (md_view S) = [7 \<mapsto> (\<lambda>s. Map.empty)]"
    "all_allowed frame_allowed spec_frame ?FS (feed_state ?L (0, S))"
    "fold spec_frame ?FS (feed_state ?L (0, S)) = ([7 \<mapsto> (\<lambda>s. if s = BID then [5 \<mapsto> (100000, 10)] else Map.empty)], [2, 0, 0, 0, 0])"
    "\<not> frame_exhausts ?L ?T demo_frame (0, S)"
    by (rule demo_market)
  let ?X0 = "\<lparr>my_feed = S0, my_agents = Map.empty\<rparr>"
  let ?X1 = "?X0\<lparr>my_agents := Map.empty(3 \<mapsto> new_manager_agent ?L S)\<rparr>"
  let ?X2 = "?X1\<lparr>my_feed := S0\<lparr>fd_sock := [demo_datagram]\<rparr>\<rparr>"
  have r1: "md_reach ?E ?L ?T ?FS ?X0 ?X1" by (rule md_event [OF md_start, where ev = "Md_connect 3 S"]) (use S in simp_all)
  have r2: "md_reach ?E ?L ?T ?FS ?X0 ?X2" by (rule md_event [OF r1, where ev = "Md_net [demo_datagram]"]) simp_all
  have pool: "pool_inv (fe_pool ?E) demo_pool" using demo_pool_inv by (simp add: demo_feed_env_def)
  have ok: "\<forall>fr \<in> set ?FS. md_frame_ok fr" by (simp add: demo_frame(2))
  have fr: "md_frame_bytes demo_frame \<noteq> []" using demo_frame(1) by auto
  have x0: "(4096 :: int) + 4096 \<le> 2 ^ 31" "my_feed ?X0 = S0" "my_agents ?X0 = Map.empty" by simp_all
  have ready: "feed_ready ?E ?FS (my_feed ?X2)" "feed_accepts ?E (my_feed ?X2)"
    using demo_feed_ready [of "my_feed ?X2"] S0(2-4) by simp_all
  obtain n where "tape_all (dl_recv (fd_link (my_feed ?X2))) = concat (map md_frame_bytes (take n ?FS))"
    "\<exists>S. feed_step ?E (my_feed ?X2) = Some (Inr S) \<and>
      tape_all (dl_recv (fd_link S)) = concat (map md_frame_bytes (take (if feed_accepts ?E (my_feed ?X2) then Suc n else n) ?FS))"
    using agents_follow_market_feed [OF pool S0(1) zero_less_numeral x0(1) ok x0(2,3) r2] ready(1) by auto
  then obtain S' where S': "feed_step ?E (my_feed ?X2) = Some (Inr S')" "tape_all (dl_recv (fd_link S')) = md_frame_bytes demo_frame"
    using ready(2) by auto
  let ?X3 = "?X2\<lparr>my_feed := S'\<rparr>"
  have r3: "md_reach ?E ?L ?T ?FS ?X0 ?X3" by (rule md_event [OF r2, where ev = Md_step]) (use ready(1) S'(1) in simp_all)
  have ag: "my_agents ?X3 3 = Some (new_manager_agent ?L S)" by simp
  from agents_follow_market_feed [OF pool S0(1) zero_less_numeral x0(1) ok x0(2,3) r3]
  obtain n where n: "n \<le> length ?FS" "tape_all (dl_recv (fd_link (my_feed ?X3))) = concat (map md_frame_bytes (take n ?FS))"
    and all: "\<forall>rd a. my_agents ?X3 rd = Some a \<longrightarrow> (\<exists>k \<le> n. feed_state ?L (fa_state a) = fold spec_frame (take k ?FS) (fa_start a)) \<and>
        (\<exists>X4. md_do ?E ?L ?T (Md_lock rd) ?X3 = Some (Inr X4) \<and>
          ((\<exists>e. md_do ?E ?L ?T (Md_update rd) X4 = Some (Inl e) \<and> update_exhausts ?L ?T ?FS (int (frames_size ?FS n)) a) \<or>
           (\<exists>X5 a'. md_do ?E ?L ?T (Md_update rd) X4 = Some (Inr X5) \<and> my_agents X5 rd = Some a' \<and>
              feed_state ?L (fa_state a') = fold spec_frame (take n ?FS) (fa_start a))))"
    by (elim exE conjE) (rule that)
  have "\<not> update_exhausts ?L ?T ?FS pos (new_manager_agent ?L S)" for pos
    using S(5) by (auto simp: update_exhausts_def new_manager_agent_def)
  with all [rule_format, OF ag] obtain X4 X5 a' where X4: "md_do ?E ?L ?T (Md_lock 3) ?X3 = Some (Inr X4)"
    "md_do ?E ?L ?T (Md_update 3) X4 = Some (Inr X5)" "my_agents X5 3 = Some a'"
    "feed_state ?L (fa_state a') = fold spec_frame (take n ?FS) (fa_start (new_manager_agent ?L S))" by blast
  have "n = 1" using n S'(2) fr by (cases n) auto
  then have "market_of ?L (md_view (snd (fa_state a'))) = [7 \<mapsto> (\<lambda>s. if s = BID then [5 \<mapsto> (100000, 10)] else Map.empty)]"
    using X4(4) S(4) by (simp add: feed_state_def new_manager_agent_def)
  then show ?thesis using S0(1) r3 S'(2) X4(1-3) by (intro exI [of _ S0] exI [of _ ?X3]) simp
qed

end
