(* ===== verification/Component_Order.thy ===== *)
theory Component_Order
  imports Simulation
begin

text \<open>
  How a container resolves the dependencies of its components, \<^verbatim>\<open>vr/util/di/component_impl.h\<close> and the binding
  traversal of \<^verbatim>\<open>vr/util/di/container.cpp\<close>: every component names what it depends on, and a depth-first traversal
  binds the pointers and lists the components in the order in which they are started.
\<close>

section \<open>Components\<close>

text \<open>
  An instance has the classes it can be cast to, the dependencies it has declared (a field, the name of a
  component and the class of the field) until they are resolved, and its fields.
\<close>

type_synonym comp = nat
type_synonym dep_map = "(nat \<times> string \<times> string) list"

record component =
  c_types :: "string set"
  c_context :: "dep_map option"
  c_fields :: "nat \<rightharpoonup> comp"

text \<open>\<open>dep_proxy::operator=\<close>\<close>

definition dep_assign :: "nat \<Rightarrow> string \<Rightarrow> string \<Rightarrow> component \<Rightarrow> component result option" where
  "dep_assign field cls name c =
     (case c_context c of None \<Rightarrow> None
      | Some m_dep_map \<Rightarrow>
          if field \<in> fst ` set m_dep_map then Some (Inl Invalid_input)
          else Some (Inr (c\<lparr>c_context := Some ((field, name, cls) # m_dep_map)\<rparr>)))"

lemma dep_assign_declares:
  assumes "c_context c = Some ds" "distinct (map fst ds)"
  shows "if field \<in> fst ` set ds then dep_assign field cls name c = Some (Inl Invalid_input)
    else \<exists>c'. dep_assign field cls name c = Some (Inr c') \<and> c_context c' = Some ((field, name, cls) # ds) \<and>
      distinct (map fst ((field, name, cls) # ds)) \<and> c_fields c' = c_fields c \<and> c_types c' = c_types c"
  using assms by (auto simp: dep_assign_def)

section \<open>Resolving\<close>

record resolver =
  rs_heap :: "comp \<rightharpoonup> component"
  rs_order :: "comp list"
  rs_visited :: "comp set"

text \<open>\<open>dynamic_caster\<close>: the field has to be null and the component of the right class.\<close>

definition bind_field :: "nat \<Rightarrow> string \<Rightarrow> comp \<Rightarrow> comp \<Rightarrow> resolver \<Rightarrow> resolver result option" where
  "bind_field field cls succ c S =
     (case (rs_heap S c, rs_heap S succ) of
        (Some co, Some so) \<Rightarrow>
          if c_fields co field \<noteq> None then Some (Inl Check_failure)
          else if cls \<notin> c_types so then Some (Inl Type_mismatch)
          else Some (Inr (S\<lparr>rs_heap := (rs_heap S)(c \<mapsto> co\<lparr>c_fields := (c_fields co)(field \<mapsto> succ)\<rparr>)\<rparr>))
      | _ \<Rightarrow> None)"

text \<open>What \<open>bind_visit\<close> does before and after its loop.\<close>

definition visit_begin :: "comp \<Rightarrow> resolver \<Rightarrow> (dep_map \<times> resolver) result option" where
  "visit_begin c S =
     (case rs_heap S c of None \<Rightarrow> None
      | Some co \<Rightarrow>
          (case c_context co of None \<Rightarrow> Some (Inl Check_failure)
           | Some m_dep_map \<Rightarrow> Some (Inr (m_dep_map, S\<lparr>rs_visited := insert c (rs_visited S)\<rparr>))))"

definition visit_end :: "comp \<Rightarrow> resolver \<Rightarrow> resolver result option" where
  "visit_end c S =
     (case rs_heap S c of None \<Rightarrow> None
      | Some co \<Rightarrow> Some (Inr (S\<lparr>rs_heap := (rs_heap S)(c \<mapsto> co\<lparr>c_context := None\<rparr>), rs_order := rs_order S @ [c]\<rparr>)))"

text \<open>The loop over the dependencies of \<open>c\<close>, with the recursion into those not visited yet.\<close>

lemma bind_ro_mono [partial_function_mono]:
  assumes "mono_option m" "\<And>a. mono_option (\<lambda>f. g a f)"
  shows "mono_option (\<lambda>f. bind_ro (m f) (\<lambda>a. g a f))"
proof -
  have eq: "bind_ro r h = Option.bind r (\<lambda>x. case x of Inl e \<Rightarrow> Some (Inl e) | Inr a \<Rightarrow> h a)" for r :: "'x result option"
    and h :: "'x \<Rightarrow> 'y result option" by (cases r) (simp_all add: bind_ro_def)
  show ?thesis unfolding eq
  proof (rule bind_mono [OF assms(1)])
    show "mono_option (\<lambda>f. case y of Inl e \<Rightarrow> Some (Inl e) | Inr a \<Rightarrow> g a f)" for y
      using assms(2) option.const_mono by (cases y) simp_all
  qed
qed

partial_function (option) bind_deps :: "(string \<times> comp) list \<Rightarrow> comp \<Rightarrow> dep_map \<Rightarrow> resolver \<Rightarrow> resolver result option" where
  "bind_deps names c deps S =
     (case deps of [] \<Rightarrow> Some (Inr S)
      | (field, succ_name, cls) # rest \<Rightarrow>
          (case map_of names succ_name of None \<Rightarrow> Some (Inl Invalid_input)
           | Some succ \<Rightarrow>
               bind_ro (bind_field field cls succ c S) (\<lambda>S.
               bind_ro
                 (if succ \<in> rs_visited S then Some (Inr S)
                  else bind_ro (visit_begin succ S) (\<lambda>(succ_deps, S). bind_ro (bind_deps names succ succ_deps S) (visit_end succ)))
                 (bind_deps names c rest))))"

definition bind_visit :: "(string \<times> comp) list \<Rightarrow> comp \<Rightarrow> resolver \<Rightarrow> resolver result option" where
  "bind_visit names c S =
     bind_ro (visit_begin c S) (\<lambda>(deps, S).
     bind_ro (bind_deps names c deps S) (visit_end c))"

lemma bind_deps_Nil [simp]: "bind_deps names c [] S = Some (Inr S)"
  by (subst bind_deps.simps) simp

lemma bind_deps_Cons [simp]:
  "bind_deps names c ((field, succ_name, cls) # rest) S =
     (case map_of names succ_name of None \<Rightarrow> Some (Inl Invalid_input)
      | Some succ \<Rightarrow>
          bind_ro (bind_field field cls succ c S) (\<lambda>S.
          bind_ro (if succ \<in> rs_visited S then Some (Inr S) else bind_visit names succ S) (bind_deps names c rest)))"
  by (subst bind_deps.simps) (simp add: bind_visit_def cong: option.case_cong if_cong)

text \<open>\<open>binding_traversal\<close>: every component not reached from an earlier one; the list is the order of the unordered view.\<close>

primrec visit_roots :: "(string \<times> comp) list \<Rightarrow> comp list \<Rightarrow> resolver \<Rightarrow> resolver result option" where
  "visit_roots names [] S = Some (Inr S)"
| "visit_roots names (c # cs) S =
     bind_ro (if c \<in> rs_visited S then Some (Inr S) else bind_visit names c S) (visit_roots names cs)"

definition binding_traversal :: "(string \<times> comp) list \<Rightarrow> comp list \<Rightarrow> (comp \<rightharpoonup> component) \<times> comp list \<Rightarrow>
    ((comp \<rightharpoonup> component) \<times> comp list) result option" where
  "binding_traversal names view = (\<lambda>(heap, m_dep_order).
     if m_dep_order \<noteq> [] then Some (Inl Check_failure)
     else bind_ro (visit_roots names view \<lparr>rs_heap = heap, rs_order = [], rs_visited = {}\<rparr>) (\<lambda>S.
       Some (Inr (rs_heap S, rs_order S))))"

section \<open>What resolving achieves\<close>

text \<open>The declared dependencies of a component, the ones that can be bound, and what its fields become.\<close>

definition deps_of :: "(comp \<rightharpoonup> component) \<Rightarrow> comp \<Rightarrow> dep_map" where
  "deps_of H c = (case H c of None \<Rightarrow> [] | Some co \<Rightarrow> (case c_context co of None \<Rightarrow> [] | Some ds \<Rightarrow> ds))"

definition dep_ok :: "(string \<times> comp) list \<Rightarrow> (comp \<rightharpoonup> component) \<Rightarrow> nat \<times> string \<times> string \<Rightarrow> bool" where
  "dep_ok names H = (\<lambda>(field, name, cls). \<exists>s so. map_of names name = Some s \<and> H s = Some so \<and> cls \<in> c_types so)"

definition dep_absent :: "(string \<times> comp) list \<Rightarrow> nat \<times> string \<times> string \<Rightarrow> bool" where
  "dep_absent names = (\<lambda>(field, name, cls). map_of names name = None)"

definition bound_fields :: "(string \<times> comp) list \<Rightarrow> dep_map \<Rightarrow> nat \<rightharpoonup> comp" where
  "bound_fields names ds field = Option.bind (map_of ds field) (\<lambda>(name, cls). map_of names name)"

definition succs :: "(string \<times> comp) list \<Rightarrow> (comp \<rightharpoonup> component) \<Rightarrow> comp \<Rightarrow> comp set" where
  "succs names H c = {s. \<exists>(field, name, cls) \<in> set (deps_of H c). map_of names name = Some s}"

definition depends :: "(string \<times> comp) list \<Rightarrow> (comp \<rightharpoonup> component) \<Rightarrow> (comp \<times> comp) set" where
  "depends names H = {(c, s). s \<in> succs names H c}"

text \<open>A configuration before it is resolved.\<close>

definition unresolved :: "(string \<times> comp) list \<Rightarrow> (comp \<rightharpoonup> component) \<Rightarrow> bool" where
  "unresolved names H \<longleftrightarrow> finite (dom H) \<and> snd ` set names \<subseteq> dom H \<and>
     (\<forall>c co. H c = Some co \<longrightarrow> (\<exists>ds. c_context co = Some ds \<and> distinct (map fst ds)) \<and> c_fields co = Map.empty)"

text \<open>Every component comes behind those it depends on.\<close>

definition in_dep_order :: "(comp \<Rightarrow> comp set) \<Rightarrow> comp list \<Rightarrow> bool" where
  "in_dep_order nexts order \<longleftrightarrow> (\<forall>ys x zs. order = ys @ x # zs \<longrightarrow> nexts x \<subseteq> set ys)"

lemma in_dep_order_snoc: "in_dep_order nexts (order @ [c]) \<longleftrightarrow> in_dep_order nexts order \<and> nexts c \<subseteq> set order"
  unfolding in_dep_order_def
proof (intro iffI conjI allI impI)
  assume all: "\<forall>ys x zs. order @ [c] = ys @ x # zs \<longrightarrow> nexts x \<subseteq> set ys"
  show "nexts x \<subseteq> set ys" if "order = ys @ x # zs" for ys x zs
    using all [rule_format, of ys x "zs @ [c]"] that by simp
  show "nexts c \<subseteq> set order" using all by blast
next
  fix ys x zs
  assume "(\<forall>ys x zs. order = ys @ x # zs \<longrightarrow> nexts x \<subseteq> set ys) \<and> nexts c \<subseteq> set order" "order @ [c] = ys @ x # zs"
  then show "nexts x \<subseteq> set ys" by (cases zs rule: rev_cases) auto
qed

text \<open>The state while resolving: \<open>H\<close> is the heap at the beginning.\<close>

definition resolve_inv :: "(string \<times> comp) list \<Rightarrow> (comp \<rightharpoonup> component) \<Rightarrow> resolver \<Rightarrow> bool" where
  "resolve_inv names H S \<longleftrightarrow> set (rs_order S) \<subseteq> rs_visited S \<and> rs_visited S \<subseteq> dom H \<and> distinct (rs_order S) \<and>
     dom (rs_heap S) = dom H \<and>
     (\<forall>c co. H c = Some co \<longrightarrow> c \<notin> rs_visited S \<longrightarrow> rs_heap S c = Some co) \<and>
     (\<forall>c \<in> set (rs_order S). \<forall>co. H c = Some co \<longrightarrow>
        rs_heap S c = Some (co\<lparr>c_context := None, c_fields := bound_fields names (deps_of H c)\<rparr>) \<and>
        (\<forall>d \<in> set (deps_of H c). dep_ok names H d)) \<and>
     (\<forall>c co. H c = Some co \<longrightarrow> (\<exists>co'. rs_heap S c = Some co' \<and> c_types co' = c_types co)) \<and>
     (\<forall>c \<in> set (rs_order S). succs names H c \<subseteq> rs_visited S)"

text \<open>What one call adds.\<close>

definition resolved_more :: "(string \<times> comp) list \<Rightarrow> (comp \<rightharpoonup> component) \<Rightarrow> resolver \<Rightarrow> resolver \<Rightarrow> bool" where
  "resolved_more names H S S' \<longleftrightarrow> resolve_inv names H S' \<and>
     (\<exists>new. rs_order S' = rs_order S @ new \<and> rs_visited S' = rs_visited S \<union> set new \<and> set new \<inter> rs_visited S = {})"


text \<open>Resolving fails only over a dependency that is not there or of another class.\<close>

definition resolve_fails :: "(string \<times> comp) list \<Rightarrow> (comp \<rightharpoonup> component) \<Rightarrow> 'r result option \<Rightarrow> bool" where
  "resolve_fails names H r \<longleftrightarrow>
     (r = Some (Inl Invalid_input) \<and> (\<exists>c \<in> dom H. \<exists>d \<in> set (deps_of H c). dep_absent names d)) \<or>
     (r = Some (Inl Type_mismatch) \<and> (\<exists>c \<in> dom H. \<exists>d \<in> set (deps_of H c). \<not> dep_ok names H d \<and> \<not> dep_absent names d))"

definition keeps_order :: "(string \<times> comp) list \<Rightarrow> (comp \<rightharpoonup> component) \<Rightarrow> comp \<Rightarrow> resolver \<Rightarrow> resolver \<Rightarrow> bool" where
  "keeps_order names H c S S' \<longleftrightarrow>
     ((\<forall>g \<in> rs_visited S - set (rs_order S). (g, c) \<in> (depends names H)\<^sup>*) \<longrightarrow> in_dep_order (succs names H) (rs_order S) \<longrightarrow>
       in_dep_order (succs names H) (rs_order S'))"

text \<open>What \<open>bind_visit\<close> and the loop make of a state.\<close>

definition visit_result :: "(string \<times> comp) list \<Rightarrow> (comp \<rightharpoonup> component) \<Rightarrow> comp \<Rightarrow> resolver \<Rightarrow> resolver result option \<Rightarrow> bool" where
  "visit_result names H c S r \<longleftrightarrow> resolve_fails names H r \<or>
     (\<exists>S'. r = Some (Inr S') \<and> resolved_more names H S S' \<and> c \<in> set (rs_order S') \<and>
        (\<forall>x \<in> rs_visited S. rs_heap S' x = rs_heap S x) \<and> (acyclic (depends names H) \<longrightarrow> keeps_order names H c S S'))"

definition loop_result :: "(string \<times> comp) list \<Rightarrow> (comp \<rightharpoonup> component) \<Rightarrow> comp \<Rightarrow> dep_map \<Rightarrow> resolver \<Rightarrow> resolver result option \<Rightarrow> bool" where
  "loop_result names H c deps S r \<longleftrightarrow> resolve_fails names H r \<or>
     (\<exists>S'. r = Some (Inr S') \<and> resolved_more names H S S' \<and>
        rs_heap S' c = Some ((the (H c))\<lparr>c_fields := bound_fields names (deps_of H c)\<rparr>) \<and>
        (\<forall>x \<in> rs_visited S - {c}. rs_heap S' x = rs_heap S x) \<and>
        (\<forall>d \<in> set deps. dep_ok names H d) \<and> (\<forall>(field, name, cls) \<in> set deps. set_option (map_of names name) \<subseteq> rs_visited S') \<and>
        (acyclic (depends names H) \<longrightarrow> keeps_order names H c S S'))"

text \<open>A component in whose loop the first dependencies have been bound.\<close>

definition visiting :: "(string \<times> comp) list \<Rightarrow> (comp \<rightharpoonup> component) \<Rightarrow> comp \<Rightarrow> dep_map \<Rightarrow> resolver \<Rightarrow> bool" where
  "visiting names H c pre S \<longleftrightarrow> c \<in> rs_visited S \<and> c \<notin> set (rs_order S) \<and>
     rs_heap S c = Some ((the (H c))\<lparr>c_fields := bound_fields names pre\<rparr>)"

lemma resolve_invD:
  assumes "resolve_inv names H S"
  shows "set (rs_order S) \<subseteq> rs_visited S" "rs_visited S \<subseteq> dom H" "distinct (rs_order S)" "dom (rs_heap S) = dom H"
    "H c = Some co \<Longrightarrow> c \<notin> rs_visited S \<Longrightarrow> rs_heap S c = Some co"
    "c \<in> set (rs_order S) \<Longrightarrow> H c = Some co \<Longrightarrow>
      rs_heap S c = Some (co\<lparr>c_context := None, c_fields := bound_fields names (deps_of H c)\<rparr>)"
    "c \<in> set (rs_order S) \<Longrightarrow> H c = Some co \<Longrightarrow> d \<in> set (deps_of H c) \<Longrightarrow> dep_ok names H d"
    "H c = Some co \<Longrightarrow> \<exists>co'. rs_heap S c = Some co' \<and> c_types co' = c_types co"
    "c \<in> set (rs_order S) \<Longrightarrow> succs names H c \<subseteq> rs_visited S"
  using assms unfolding resolve_inv_def by blast+

lemma unresolvedD:
  assumes "unresolved names H" "H c = Some co"
  obtains "c_context co = Some (deps_of H c)" "distinct (map fst (deps_of H c))" "c_fields co = Map.empty"
  using assms by (fastforce simp: unresolved_def deps_of_def)

text \<open>Marking a component visited.\<close>

lemma visit_begin_spec:
  assumes un: "unresolved names H" and inv: "resolve_inv names H S" and c: "c \<in> dom H" "c \<notin> rs_visited S"
  obtains S1 where "visit_begin c S = Some (Inr (deps_of H c, S1))" "resolve_inv names H S1" "visiting names H c [] S1"
    "S1 = S\<lparr>rs_visited := insert c (rs_visited S)\<rparr>"
proof -
  obtain co where co: "H c = Some co" using c(1) by blast
  note i = resolve_invD [OF inv]
  obtain ctx: "c_context co = Some (deps_of H c)" and e: "c_fields co = Map.empty" using unresolvedD [OF un co] by metis
  have h: "rs_heap S c = Some co" by (rule i(5) [OF co c(2)])
  let ?S = "S\<lparr>rs_visited := insert c (rs_visited S)\<rparr>"
  have "resolve_inv names H ?S" using inv c(1) unfolding resolve_inv_def by auto
  moreover have "bound_fields names [] = Map.empty" by (simp add: bound_fields_def fun_eq_iff)
  then have "visiting names H c [] ?S" using c(2) i(1) h co e by (auto simp: visiting_def)
  moreover have "visit_begin c S = Some (Inr (deps_of H c, ?S))" by (simp add: visit_begin_def h ctx)
  ultimately show ?thesis using that by blast
qed

text \<open>Listing it when its dependencies are bound.\<close>

lemma visit_end_spec:
  assumes inv: "resolve_inv names H S" and v: "visiting names H c (deps_of H c) S"
    and ok: "\<forall>d \<in> set (deps_of H c). dep_ok names H d" "succs names H c \<subseteq> rs_visited S"
  obtains S1 where "visit_end c S = Some (Inr S1)" "resolve_inv names H S1" "rs_order S1 = rs_order S @ [c]" "rs_visited S1 = rs_visited S"
    "\<forall>x. x \<noteq> c \<longrightarrow> rs_heap S1 x = rs_heap S x"
proof -
  note i = resolve_invD [OF inv]
  obtain co where co: "H c = Some co" using v i(2) by (auto simp: visiting_def)
  have vis: "c \<in> rs_visited S" "c \<notin> set (rs_order S)" "rs_heap S c = Some (co\<lparr>c_fields := bound_fields names (deps_of H c)\<rparr>)"
    using v co by (simp_all add: visiting_def)
  let ?o = "co\<lparr>c_context := None, c_fields := bound_fields names (deps_of H c)\<rparr>"
  let ?S = "S\<lparr>rs_heap := (rs_heap S)(c \<mapsto> ?o), rs_order := rs_order S @ [c]\<rparr>"
  have "visit_end c S = Some (Inr ?S)" by (cases co) (simp add: visit_end_def vis(3))
  moreover have "resolve_inv names H ?S"
    using inv vis(1,2) co ok unfolding resolve_inv_def by (auto simp: insert_absorb)
  ultimately show ?thesis by (rule that) simp_all
qed

text \<open>Binding one field.\<close>

lemma bind_field_spec:
  assumes un: "unresolved names H" and inv: "resolve_inv names H S" and v: "visiting names H c pre S"
    and deps: "deps_of H c = pre @ (field, name, cls) # rest" and s: "map_of names name = Some s"
  shows "(bind_field field cls s c S = Some (Inl Type_mismatch) \<and> \<not> dep_ok names H (field, name, cls)) \<or>
    (\<exists>S'. bind_field field cls s c S = Some (Inr S') \<and> dep_ok names H (field, name, cls) \<and> resolve_inv names H S' \<and>
      visiting names H c (pre @ [(field, name, cls)]) S' \<and> rs_order S' = rs_order S \<and> rs_visited S' = rs_visited S \<and>
      (\<forall>x. x \<noteq> c \<longrightarrow> rs_heap S' x = rs_heap S x))"
proof -
  note i = resolve_invD [OF inv]
  obtain co where co: "H c = Some co" using v i(2) by (auto simp: visiting_def)
  have vis: "c \<in> rs_visited S" "c \<notin> set (rs_order S)" "rs_heap S c = Some (co\<lparr>c_fields := bound_fields names pre\<rparr>)"
    using v co by (simp_all add: visiting_def)
  have "s \<in> dom H" using un map_of_SomeD [OF s] by (force simp: unresolved_def)
  then obtain so where so: "H s = Some so" by blast
  obtain so' where so': "rs_heap S s = Some so'" "c_types so' = c_types so" using i(8) [OF so] by blast
  have "distinct (map fst (deps_of H c))" by (rule unresolvedD [OF un co])
  then have fresh: "field \<notin> fst ` set pre" by (simp add: deps)
  then have null: "bound_fields names pre field = None" by (simp add: bound_fields_def map_of_eq_None_iff [THEN iffD2])
  have add: "bound_fields names (pre @ [(field, name, cls)]) = (bound_fields names pre)(field \<mapsto> s)"
  proof
    fix f
    have "map_of pre field = None" using fresh by (simp add: map_of_eq_None_iff)
    then show "bound_fields names (pre @ [(field, name, cls)]) f = ((bound_fields names pre)(field \<mapsto> s)) f"
      by (simp add: bound_fields_def map_add_def s split: option.splits)
  qed
  show ?thesis
  proof (cases "cls \<in> c_types so")
    case False
    then show ?thesis using vis(3) so' null s so by (auto simp: bind_field_def dep_ok_def)
  next
    case True
    let ?S = "S\<lparr>rs_heap := (rs_heap S)(c \<mapsto> co\<lparr>c_fields := bound_fields names (pre @ [(field, name, cls)])\<rparr>)\<rparr>"
    have "bind_field field cls s c S = Some (Inr ?S)" using True vis(3) so' null by (simp add: bind_field_def add)
    moreover have "resolve_inv names H ?S" using inv vis(1,2) co unfolding resolve_inv_def by (auto simp: insert_absorb)
    moreover have "visiting names H c (pre @ [(field, name, cls)]) ?S" using vis co by (simp add: visiting_def)
    moreover have "dep_ok names H (field, name, cls)" using True s so by (simp add: dep_ok_def)
    ultimately show ?thesis by (intro disjI2 exI [of _ ?S]) simp
  qed
qed


text \<open>A visit, given what the loop does.\<close>

lemma bind_visit_result:
  assumes un: "unresolved names H" and inv: "resolve_inv names H S" and c: "c \<in> dom H" "c \<notin> rs_visited S"
    and loop: "\<And>S1. resolve_inv names H S1 \<Longrightarrow> visiting names H c [] S1 \<Longrightarrow> rs_visited S1 = insert c (rs_visited S) \<Longrightarrow>
      loop_result names H c (deps_of H c) S1 (bind_deps names c (deps_of H c) S1)"
  shows "visit_result names H c S (bind_visit names c S)"
proof -
  obtain S1 where S1: "visit_begin c S = Some (Inr (deps_of H c, S1))" "resolve_inv names H S1" "visiting names H c [] S1"
    "S1 = S\<lparr>rs_visited := insert c (rs_visited S)\<rparr>" by (rule visit_begin_spec [OF un inv c])
  have vis: "rs_visited S1 = insert c (rs_visited S)" "rs_order S1 = rs_order S" "rs_heap S1 = rs_heap S" by (simp_all add: S1(4))
  note run = bind_visit_def [of names c S, unfolded S1(1) bind_ro_simps prod.case]
  from loop [OF S1(2,3) vis(1)] show ?thesis unfolding loop_result_def
  proof (elim disjE exE conjE)
    assume "resolve_fails names H (bind_deps names c (deps_of H c) S1)"
    then show ?thesis unfolding visit_result_def run by (auto simp: resolve_fails_def)
  next
    fix S2 assume eq: "bind_deps names c (deps_of H c) S1 = Some (Inr S2)" and more: "resolved_more names H S1 S2"
      and h: "rs_heap S2 c = Some ((the (H c))\<lparr>c_fields := bound_fields names (deps_of H c)\<rparr>)"
      and frame: "\<forall>x \<in> rs_visited S1 - {c}. rs_heap S2 x = rs_heap S1 x"
      and ok: "\<forall>d \<in> set (deps_of H c). dep_ok names H d" "\<forall>(field, name, cls) \<in> set (deps_of H c). set_option (map_of names name) \<subseteq> rs_visited S2"
      and ord: "acyclic (depends names H) \<longrightarrow> keeps_order names H c S1 S2"
    from more obtain new where inv2: "resolve_inv names H S2" and new: "rs_order S2 = rs_order S @ new"
      "rs_visited S2 = insert c (rs_visited S) \<union> set new" "set new \<inter> insert c (rs_visited S) = {}"
      by (auto simp: resolved_more_def vis)
    have sub: "succs names H c \<subseteq> rs_visited S2" using ok(2) by (fastforce simp: succs_def)
    have v2: "visiting names H c (deps_of H c) S2" using h S1(3) new by (auto simp: visiting_def vis)
    obtain S3 where S3: "visit_end c S2 = Some (Inr S3)" "resolve_inv names H S3" "rs_order S3 = rs_order S2 @ [c]"
      "rs_visited S3 = rs_visited S2" "\<forall>x. x \<noteq> c \<longrightarrow> rs_heap S3 x = rs_heap S2 x" by (rule visit_end_spec [OF inv2 v2 ok(1) sub])
    have "resolved_more names H S S3" unfolding resolved_more_def
      using S3(2,3,4) new c(2) by (intro conjI exI [of _ "new @ [c]"]) auto
    moreover have "\<forall>x \<in> rs_visited S. rs_heap S3 x = rs_heap S x" using frame S3(5) c(2) by (metis DiffI insertI2 singletonD vis(1,3))
    moreover have "keeps_order names H c S S3" if ac: "acyclic (depends names H)"
      unfolding keeps_order_def
    proof (intro impI)
      assume gray: "\<forall>g \<in> rs_visited S - set (rs_order S). (g, c) \<in> (depends names H)\<^sup>*" and o: "in_dep_order (succs names H) (rs_order S)"
      have "\<forall>g \<in> rs_visited S1 - set (rs_order S1). (g, c) \<in> (depends names H)\<^sup>*" using gray by (auto simp: vis)
      then have o2: "in_dep_order (succs names H) (rs_order S2)" using ord ac o by (simp add: keeps_order_def vis)
      have "s \<in> set (rs_order S2)" if s: "s \<in> succs names H c" for s
      proof (rule ccontr)
        assume "s \<notin> set (rs_order S2)"
        then have "s \<in> insert c (rs_visited S - set (rs_order S))" using sub s new by auto
        then have "(s, c) \<in> (depends names H)\<^sup>*" using gray by auto
        moreover have "(c, s) \<in> depends names H" using s by (simp add: depends_def)
        ultimately have "(c, c) \<in> (depends names H)\<^sup>+" by (rule rtrancl_into_trancl2 [rotated])
        then show False using ac by (simp add: acyclic_def)
      qed
      then show "in_dep_order (succs names H) (rs_order S3)" unfolding S3(3) in_dep_order_snoc using o2 by blast
    qed
    ultimately show ?thesis unfolding visit_result_def run eq bind_ro_simps S3(1) using S3(3) by auto
  qed
qed

text \<open>The loop; \<open>n\<close> bounds the components not visited yet.\<close>

lemma bind_deps_result:
  assumes un: "unresolved names H"
  shows "resolve_inv names H S \<Longrightarrow> visiting names H c pre S \<Longrightarrow> deps_of H c = pre @ deps \<Longrightarrow> card (dom H - rs_visited S) \<le> n \<Longrightarrow>
    loop_result names H c deps S (bind_deps names c deps S)"
proof (induction n arbitrary: S c pre deps rule: less_induct)
  case (less n)
  have fin: "finite (dom H)" using un by (simp add: unresolved_def)
  show ?case using less.prems
  proof (induction deps arbitrary: pre S)
    case Nil
    then have "\<forall>x \<in> {}. dep_ok names H x" "resolved_more names H S S" "keeps_order names H c S S"
      by (auto simp: resolved_more_def keeps_order_def)
    then show ?case using Nil.prems(2,3) by (simp add: loop_result_def visiting_def)
  next
    case (Cons d rest)
    obtain field name cls where d: "d = (field, name, cls)" by (cases d)
    note inv = Cons.prems(1) and v = Cons.prems(2)
    note i = resolve_invD [OF inv]
    have c: "c \<in> dom H" using v i(2) by (auto simp: visiting_def)
    have din: "(field, name, cls) \<in> set (deps_of H c)" using Cons.prems(3) by (simp add: d)
    show ?case
    proof (cases "map_of names name")
      case None
      then have "dep_absent names (field, name, cls)" by (simp add: dep_absent_def)
      then have "resolve_fails names H (Some (Inl Invalid_input))" using c din unfolding resolve_fails_def by blast
      then show ?thesis by (simp add: loop_result_def d None)
    next
      case (Some s)
      have ds: "deps_of H c = pre @ (field, name, cls) # rest" using Cons.prems(3) d by simp
      have s: "s \<in> dom H" using un map_of_SomeD [OF Some] by (force simp: unresolved_def)
      have edge: "(c, s) \<in> depends names H" using din Some by (auto simp: depends_def succs_def)
      from bind_field_spec [OF un inv v ds Some] show ?thesis
      proof (elim disjE exE conjE)
        assume "bind_field field cls s c S = Some (Inl Type_mismatch)" "\<not> dep_ok names H (field, name, cls)"
        moreover have "\<not> dep_absent names (field, name, cls)" using Some by (simp add: dep_absent_def)
        with calculation(2) have "resolve_fails names H (Some (Inl Type_mismatch))" using c din unfolding resolve_fails_def by blast
        ultimately show ?thesis by (simp add: loop_result_def d Some)
      next
        fix S1 assume eq1: "bind_field field cls s c S = Some (Inr S1)" and ok1: "dep_ok names H (field, name, cls)" and inv1: "resolve_inv names H S1"
          and v1: "visiting names H c (pre @ [(field, name, cls)]) S1" and same: "rs_order S1 = rs_order S" "rs_visited S1 = rs_visited S"
          and frame1: "\<forall>x. x \<noteq> c \<longrightarrow> rs_heap S1 x = rs_heap S x"
        let ?visit = "if s \<in> rs_visited S1 then Some (Inr S1) else bind_visit names s S1"
        have run: "bind_deps names c (d # rest) S = bind_ro ?visit (bind_deps names c rest)" by (simp add: d Some eq1)
        have visit: "resolve_fails names H ?visit \<or> (\<exists>S2. ?visit = Some (Inr S2) \<and> resolved_more names H S1 S2 \<and> s \<in> rs_visited S2 \<and>
            (\<forall>x \<in> rs_visited S1. rs_heap S2 x = rs_heap S1 x) \<and>
            (acyclic (depends names H) \<longrightarrow> keeps_order names H c S1 S2))"
        proof (cases "s \<in> rs_visited S1")
          case True
          then show ?thesis using inv1 by (auto simp: resolved_more_def keeps_order_def)
        next
          case False
          have "visit_result names H s S1 (bind_visit names s S1)"
          proof (rule bind_visit_result [OF un inv1 s False])
            fix S2 assume S2: "resolve_inv names H S2" "visiting names H s [] S2" "rs_visited S2 = insert s (rs_visited S1)"
            have "dom H - rs_visited S2 \<subset> dom H - rs_visited S1" using S2(3) s False by auto
            then have "card (dom H - rs_visited S2) < n"
              using psubset_card_mono [of "dom H - rs_visited S1"] fin Cons.prems(4) same(2) by (metis finite_Diff order_less_le_trans)
            then show "loop_result names H s (deps_of H s) S2 (bind_deps names s (deps_of H s) S2)"
              using less.IH [OF _ S2(1,2), of _ "deps_of H s"] by simp
          qed
          moreover have "keeps_order names H c S1 S2" if k: "keeps_order names H s S1 S2" for S2
          proof -
            have "\<forall>g \<in> rs_visited S1 - set (rs_order S1). (g, s) \<in> (depends names H)\<^sup>*"
              if "\<forall>g \<in> rs_visited S1 - set (rs_order S1). (g, c) \<in> (depends names H)\<^sup>*"
              using that edge by (meson rtrancl.rtrancl_into_rtrancl)
            then show ?thesis using k by (simp add: keeps_order_def)
          qed
          ultimately show ?thesis using False resolve_invD(1) unfolding visit_result_def resolved_more_def by fastforce
        qed
        from visit show ?thesis
        proof (elim disjE exE conjE)
          assume "resolve_fails names H ?visit"
          then show ?thesis unfolding loop_result_def run by (auto simp: resolve_fails_def)
        next
          fix S2 assume eq2: "?visit = Some (Inr S2)" and more: "resolved_more names H S1 S2" and sv: "s \<in> rs_visited S2"
            and frame2: "\<forall>x \<in> rs_visited S1. rs_heap S2 x = rs_heap S1 x" and k2: "acyclic (depends names H) \<longrightarrow> keeps_order names H c S1 S2"
          obtain new where inv2: "resolve_inv names H S2" and new: "rs_order S2 = rs_order S @ new" "rs_visited S2 = rs_visited S \<union> set new"
            "set new \<inter> rs_visited S = {}" using more by (auto simp: resolved_more_def same)
          have cv: "c \<in> rs_visited S" "c \<notin> set (rs_order S)" using v by (simp_all add: visiting_def)
          have v2: "visiting names H c (pre @ [(field, name, cls)]) S2" using v1 frame2 cv new same by (auto simp: visiting_def)
          have ds2: "deps_of H c = (pre @ [(field, name, cls)]) @ rest" using ds by simp
          have "card (dom H - rs_visited S2) \<le> card (dom H - rs_visited S)" using new(2) fin by (intro card_mono) auto
          then have card2: "card (dom H - rs_visited S2) \<le> n" using Cons.prems(4) by simp
          from Cons.IH [OF inv2 v2 ds2 card2] show ?thesis unfolding loop_result_def run eq2 bind_ro_simps
          proof (elim disjE exE conjE)
            fix S3 assume 3: "bind_deps names c rest S2 = Some (Inr S3)" "resolved_more names H S2 S3"
              "rs_heap S3 c = Some ((the (H c))\<lparr>c_fields := bound_fields names (deps_of H c)\<rparr>)"
              "\<forall>x \<in> rs_visited S2 - {c}. rs_heap S3 x = rs_heap S2 x" "\<forall>d \<in> set rest. dep_ok names H d"
              "\<forall>(field, name, cls) \<in> set rest. set_option (map_of names name) \<subseteq> rs_visited S3"
              "acyclic (depends names H) \<longrightarrow> keeps_order names H c S2 S3"
            obtain new' where new': "rs_order S3 = rs_order S2 @ new'" "rs_visited S3 = rs_visited S2 \<union> set new'"
              "set new' \<inter> rs_visited S2 = {}" "resolve_inv names H S3" using 3(2) by (auto simp: resolved_more_def)
            have "resolved_more names H S S3" unfolding resolved_more_def using new new'
              by (intro conjI exI [of _ "new @ new'"]) auto
            moreover have "\<forall>x \<in> rs_visited S - {c}. rs_heap S3 x = rs_heap S x"
              using 3(4) frame1 frame2 new(2) same(2) by auto
            moreover have "keeps_order names H c S S3" if ac: "acyclic (depends names H)"
              unfolding keeps_order_def
            proof (intro impI)
              assume g: "\<forall>g \<in> rs_visited S - set (rs_order S). (g, c) \<in> (depends names H)\<^sup>*" and o: "in_dep_order (succs names H) (rs_order S)"
              have "\<forall>g \<in> rs_visited S2 - set (rs_order S2). (g, c) \<in> (depends names H)\<^sup>*" using g new by auto
              then show "in_dep_order (succs names H) (rs_order S3)" using k2 3(7) ac g o by (simp add: keeps_order_def same)
            qed
            ultimately show "resolve_fails names H (bind_deps names c rest S2) \<or> (\<exists>S'. bind_deps names c rest S2 = Some (Inr S') \<and>
                resolved_more names H S S' \<and> rs_heap S' c = Some ((the (H c))\<lparr>c_fields := bound_fields names (deps_of H c)\<rparr>) \<and>
                (\<forall>x \<in> rs_visited S - {c}. rs_heap S' x = rs_heap S x) \<and> (\<forall>d \<in> set (d # rest). dep_ok names H d) \<and>
                (\<forall>(field, name, cls) \<in> set (d # rest). set_option (map_of names name) \<subseteq> rs_visited S') \<and>
                (acyclic (depends names H) \<longrightarrow> keeps_order names H c S S'))"
              using 3(1,3,5,6) ok1 d Some sv new'(2) by auto
          qed blast
        qed
      qed
    qed
  qed
qed

section \<open>The traversal\<close>

lemma visit_roots_result:
  assumes un: "unresolved names H"
  shows "resolve_inv names H S \<Longrightarrow> rs_visited S = set (rs_order S) \<Longrightarrow> set cs \<subseteq> dom H \<Longrightarrow>
    resolve_fails names H (visit_roots names cs S) \<or>
    (\<exists>S'. visit_roots names cs S = Some (Inr S') \<and> resolve_inv names H S' \<and> rs_visited S' = set (rs_order S') \<and>
       rs_visited S \<union> set cs \<subseteq> rs_visited S' \<and>
       (acyclic (depends names H) \<longrightarrow> in_dep_order (succs names H) (rs_order S) \<longrightarrow> in_dep_order (succs names H) (rs_order S')))"
proof (induction cs arbitrary: S)
  case (Cons c cs)
  let ?visit = "if c \<in> rs_visited S then Some (Inr S) else bind_visit names c S"
  have run: "visit_roots names (c # cs) S = bind_ro ?visit (visit_roots names cs)" by simp
  have c: "c \<in> dom H" "set cs \<subseteq> dom H" using Cons.prems(3) by simp_all
  have "resolve_fails names H ?visit \<or> (\<exists>S1. ?visit = Some (Inr S1) \<and> resolved_more names H S S1 \<and> c \<in> set (rs_order S1) \<and>
      (acyclic (depends names H) \<longrightarrow> in_dep_order (succs names H) (rs_order S) \<longrightarrow> in_dep_order (succs names H) (rs_order S1)))"
  proof (cases "c \<in> rs_visited S")
    case True
    then show ?thesis using Cons.prems(1,2) by (auto simp: resolved_more_def)
  next
    case False
    have "visit_result names H c S (bind_visit names c S)"
    proof (rule bind_visit_result [OF un Cons.prems(1) c(1) False])
      fix S1 assume "resolve_inv names H S1" "visiting names H c [] S1" "rs_visited S1 = insert c (rs_visited S)"
      then show "loop_result names H c (deps_of H c) S1 (bind_deps names c (deps_of H c) S1)"
        using bind_deps_result [OF un, of S1 c "[]" "deps_of H c" "card (dom H - rs_visited S1)"] by simp
    qed
    then show ?thesis using False Cons.prems(2) by (auto simp: visit_result_def keeps_order_def)
  qed
  then show ?case
  proof (elim disjE exE conjE)
    assume "resolve_fails names H ?visit"
    then show ?thesis unfolding run by (auto simp: resolve_fails_def)
  next
    fix S1 assume S1: "?visit = Some (Inr S1)" "resolved_more names H S S1" "c \<in> set (rs_order S1)"
      "acyclic (depends names H) \<longrightarrow> in_dep_order (succs names H) (rs_order S) \<longrightarrow> in_dep_order (succs names H) (rs_order S1)"
    have v: "resolve_inv names H S1" "rs_visited S1 = set (rs_order S1)" "rs_visited S \<subseteq> rs_visited S1"
      using S1(2) Cons.prems(2) by (auto simp: resolved_more_def)
    from Cons.IH [OF v(1,2) c(2)] show ?thesis
    proof (elim disjE exE conjE)
      assume "resolve_fails names H (visit_roots names cs S1)"
      then show ?thesis unfolding run S1(1) by simp
    next
      fix S2 assume 2: "visit_roots names cs S1 = Some (Inr S2)" "resolve_inv names H S2" "rs_visited S2 = set (rs_order S2)"
        "rs_visited S1 \<union> set cs \<subseteq> rs_visited S2"
        "acyclic (depends names H) \<longrightarrow> in_dep_order (succs names H) (rs_order S1) \<longrightarrow> in_dep_order (succs names H) (rs_order S2)"
      have "c \<in> rs_visited S2" using S1(3) v(2) 2(4) by auto
      then show ?thesis unfolding run S1(1) bind_ro_simps using 2 v(3) S1(4) by auto
    qed
  qed
qed auto

definition resolvable :: "(string \<times> comp) list \<Rightarrow> (comp \<rightharpoonup> component) \<Rightarrow> bool" where
  "resolvable names H \<longleftrightarrow> (\<forall>c \<in> dom H. \<forall>d \<in> set (deps_of H c). dep_ok names H d)"

lemma dep_absent_not_ok: "dep_absent names d \<Longrightarrow> \<not> dep_ok names H d"
  by (auto simp: dep_absent_def dep_ok_def)

text \<open>A component after resolving.\<close>

definition resolved_heap :: "(string \<times> comp) list \<Rightarrow> (comp \<rightharpoonup> component) \<Rightarrow> comp \<rightharpoonup> component" where
  "resolved_heap names H c = map_option (\<lambda>co. co\<lparr>c_context := None, c_fields := bound_fields names (deps_of H c)\<rparr>) (H c)"

lemma binding_traversal_spec:
  assumes un: "unresolved names H" and view: "set view = dom H"
  shows "if resolvable names H
    then \<exists>order. binding_traversal names view (H, []) = Some (Inr (resolved_heap names H, order)) \<and> distinct order \<and> set order = dom H \<and>
      (acyclic (depends names H) \<longrightarrow> in_dep_order (succs names H) order)
    else resolve_fails names H (binding_traversal names view (H, []))"
proof -
  let ?S = "\<lparr>rs_heap = H, rs_order = [], rs_visited = {}\<rparr>"
  have inv: "resolve_inv names H ?S" by (simp add: resolve_inv_def)
  have run: "binding_traversal names view (H, []) = bind_ro (visit_roots names view ?S) (\<lambda>S. Some (Inr (rs_heap S, rs_order S)))"
    by (simp add: binding_traversal_def)
  have e: "in_dep_order (succs names H) []" by (simp add: in_dep_order_def)
  have vis: "rs_visited ?S = set (rs_order ?S)" and sub: "set view \<subseteq> dom H" using view by simp_all
  from visit_roots_result [OF un inv vis sub] show ?thesis
  proof (elim disjE exE conjE)
    assume "resolve_fails names H (visit_roots names view ?S)"
    moreover from this have "\<not> resolvable names H"
      unfolding resolve_fails_def resolvable_def using dep_absent_not_ok by blast
    ultimately show ?thesis unfolding run by (auto simp: resolve_fails_def)
  next
    fix S' assume S': "visit_roots names view ?S = Some (Inr S')" "resolve_inv names H S'" "rs_visited S' = set (rs_order S')"
      "rs_visited ?S \<union> set view \<subseteq> rs_visited S'"
      "acyclic (depends names H) \<longrightarrow> in_dep_order (succs names H) (rs_order ?S) \<longrightarrow> in_dep_order (succs names H) (rs_order S')"
    note i = resolve_invD [OF S'(2)]
    have all: "set (rs_order S') = dom H" using S'(3,4) i(2) view by auto
    have "rs_heap S' = resolved_heap names H"
    proof
      fix c
      show "rs_heap S' c = resolved_heap names H c"
      proof (cases "H c")
        case None
        then show ?thesis using i(4) by (auto simp: resolved_heap_def)
      next
        case (Some co)
        then have "c \<in> set (rs_order S')" using all by blast
        from i(6) [OF this Some] show ?thesis by (simp add: resolved_heap_def Some)
      qed
    qed
    moreover have "resolvable names H" unfolding resolvable_def using i(7) all by blast
    ultimately show ?thesis unfolding run S'(1) using i(3) all S'(5) e by simp
  qed
qed

section \<open>The container\<close>

datatype container_stage = Stage_created | Stage_configured | Stage_resolved | Stage_started | Stage_stopped

record di_container =
  dc_heap :: "comp \<rightharpoonup> component"
  dc_stage :: container_stage
  dc_components :: "(string \<times> comp) list"
  dc_order :: "comp list"

definition new_container :: di_container where
  "new_container = \<lparr>dc_heap = Map.empty, dc_stage = Stage_created, dc_components = [], dc_order = []\<rparr>"

text \<open>
  \<open>add\<close> owns the instance before any of its checks, so a check that fails deletes it, also when it is
  one the container has already.
\<close>

definition container_add :: "string \<Rightarrow> comp \<Rightarrow> di_container \<Rightarrow> unit result \<times> di_container" where
  "container_add name c K =
     (if dc_stage K \<noteq> Stage_created \<and> dc_stage K \<noteq> Stage_configured then (Inl Check_failure, K\<lparr>dc_heap := (dc_heap K)(c := None)\<rparr>)
      else if name \<in> fst ` set (dc_components K) \<or> c \<in> snd ` set (dc_components K)
      then (Inl Invalid_input, K\<lparr>dc_heap := (dc_heap K)(c := None)\<rparr>)
      else (Inr (), K\<lparr>dc_components := (name, c) # dc_components K, dc_stage := Stage_configured\<rparr>))"

definition container_find :: "string \<Rightarrow> di_container \<Rightarrow> comp result" where
  "container_find name K = (case map_of (dc_components K) name of None \<Rightarrow> Inl Invalid_input | Some c \<Rightarrow> Inr c)"

text \<open>The first part of \<open>start\<close>; \<open>view\<close> is the order in which the map of the instances is walked.\<close>

definition container_resolve :: "comp list \<Rightarrow> di_container \<Rightarrow> di_container result option" where
  "container_resolve view K =
     (if dc_stage K \<noteq> Stage_configured then Some (Inl Illegal_state)
      else bind_ro (binding_traversal (dc_components K) view (dc_heap K, dc_order K)) (\<lambda>(heap, order).
        Some (Inr (K\<lparr>dc_heap := heap, dc_order := order, dc_stage := Stage_resolved\<rparr>))))"

text \<open>A client that configures a container: it allocates each instance and adds it.\<close>

fun configure :: "(string \<times> comp \<times> component) list \<Rightarrow> di_container \<Rightarrow> unit result \<times> di_container" where
  "configure [] K = (Inr (), K)"
| "configure ((name, c, co) # xs) K =
     (case container_add name c (K\<lparr>dc_heap := (dc_heap K)(c \<mapsto> co)\<rparr>) of
        (Inl e, K) \<Rightarrow> (Inl e, K)
      | (Inr _, K) \<Rightarrow> configure xs K)"

definition names_of :: "(string \<times> comp \<times> component) list \<Rightarrow> (string \<times> comp) list" where
  "names_of xs = map (\<lambda>(name, c, co). (name, c)) xs"

definition heap_of :: "(string \<times> comp \<times> component) list \<Rightarrow> comp \<rightharpoonup> component" where
  "heap_of xs = map_of (map snd xs)"

lemma map_of_rev_distinct: "distinct (map fst ns) \<Longrightarrow> map_of (rev ns) = map_of ns"
proof
  fix k assume d: "distinct (map fst ns)"
  then have "distinct (map fst (rev ns))" by (simp flip: rev_map)
  with d show "map_of (rev ns) k = map_of ns k" by (metis map_of_eq_Some_iff map_of_eq_None_iff not_None_eq set_rev)
qed

lemma configure_spec:
  assumes "dc_stage K = Stage_created \<or> dc_stage K = Stage_configured" "distinct (map fst xs)" "distinct (map (fst \<circ> snd) xs)"
    and "fst ` set xs \<inter> fst ` set (dc_components K) = {}" "(fst \<circ> snd) ` set xs \<inter> snd ` set (dc_components K) = {}"
  shows "configure xs K = (Inr (), K\<lparr>dc_heap := dc_heap K ++ heap_of xs, dc_components := rev (names_of xs) @ dc_components K,
    dc_stage := if xs = [] then dc_stage K else Stage_configured\<rparr>)"
  using assms
proof (induction xs arbitrary: K)
  case (Cons x xs)
  obtain name c co where x: "x = (name, c, co)" by (cases x)
  let ?K = "K\<lparr>dc_heap := (dc_heap K)(c \<mapsto> co), dc_components := (name, c) # dc_components K, dc_stage := Stage_configured\<rparr>"
  have free: "name \<notin> fst ` set (dc_components K)" "c \<notin> snd ` set (dc_components K)"
    using Cons.prems(4,5) by (auto simp: x)
  have add: "container_add name c (K\<lparr>dc_heap := (dc_heap K)(c \<mapsto> co)\<rparr>) = (Inr (), ?K)"
    using Cons.prems(1) free by (auto simp: container_add_def)
  have "c \<notin> dom (heap_of xs)" using Cons.prems(3) by (auto simp: x heap_of_def dom_map_of_conv_image_fst image_image)
  then have "dc_heap K ++ heap_of (x # xs) = (dc_heap K)(c \<mapsto> co) ++ heap_of xs"
    by (auto simp: x heap_of_def fun_eq_iff map_add_def split: option.split)
  moreover have "configure xs ?K = (Inr (), ?K\<lparr>dc_heap := dc_heap ?K ++ heap_of xs, dc_components := rev (names_of xs) @ dc_components ?K,
      dc_stage := if xs = [] then dc_stage ?K else Stage_configured\<rparr>)"
    by (rule Cons.IH) (use Cons.prems in \<open>auto simp: x\<close>)
  ultimately show ?case by (simp add: x add names_of_def)
qed (simp add: heap_of_def names_of_def)

text \<open>Adding an instance twice deletes it under the container's hands.\<close>

lemma container_add_twice:
  assumes "container_add name c K = (Inr (), K1)" "dc_heap K c \<noteq> None"
  shows "\<exists>K2. container_add name' c K1 = (Inl Invalid_input, K2) \<and> container_find name K2 = Inr c \<and> dc_heap K2 c = None"
  using assms by (auto simp: container_add_def container_find_def split: if_splits)

section \<open>Properties\<close>

text \<open>
  C24: a container configured with named instances whose dependencies are declared, and not resolved yet,
  resolves them exactly when every dependency names a component that can be cast to the class of its
  field: then every field points to the component it names, no declaration is left, every instance
  is listed once, in whatever order the unordered maps are walked, and, when the dependencies have no cycle, behind all
  it depends on (a cycle is resolved all the same). Otherwise it fails over a name that
  is not there or a component of another class. A container resolves once.
\<close>

theorem container_resolves:
  assumes "xs \<noteq> []" "distinct (map fst xs)" "distinct (map (fst \<circ> snd) xs)" "set view = (fst \<circ> snd) ` set xs"
    and "\<forall>(name, c, co) \<in> set xs. \<exists>ds. c_context co = Some ds \<and> distinct (map fst ds) \<and> c_fields co = Map.empty"
  shows "\<exists>K. configure xs new_container = (Inr (), K) \<and>
    (if resolvable (names_of xs) (heap_of xs)
     then \<exists>K' order. container_resolve view K = Some (Inr K') \<and> dc_heap K' = resolved_heap (names_of xs) (heap_of xs) \<and>
       dc_order K' = order \<and> distinct order \<and> set order = (fst \<circ> snd) ` set xs \<and>
       (acyclic (depends (names_of xs) (heap_of xs)) \<longrightarrow> in_dep_order (succs (names_of xs) (heap_of xs)) order) \<and>
       container_resolve view K' = Some (Inl Illegal_state)
     else resolve_fails (names_of xs) (heap_of xs) (container_resolve view K))"
proof -
  let ?H = "heap_of xs" and ?N = "names_of xs"
  let ?K = "\<lparr>dc_heap = ?H, dc_stage = Stage_configured, dc_components = rev ?N, dc_order = []\<rparr>"
  have conf: "configure xs new_container = (Inr (), ?K)"
    using configure_spec [of new_container xs] assms(1-3) by (simp add: new_container_def)
  have dom: "dom ?H = (fst \<circ> snd) ` set xs" by (force simp: heap_of_def dom_map_of_conv_image_fst)
  have names: "map_of (rev ?N) = map_of ?N"
    using assms(2) by (simp add: names_of_def comp_def case_prod_unfold map_of_rev_distinct)
  have fields: "bound_fields (rev ?N) = bound_fields ?N"
    by (simp add: fun_eq_iff bound_fields_def names)
  have same: "resolvable (rev ?N) ?H = resolvable ?N ?H" "resolved_heap (rev ?N) ?H = resolved_heap ?N ?H"
    "depends (rev ?N) ?H = depends ?N ?H" "succs (rev ?N) ?H = succs ?N ?H" "resolve_fails (rev ?N) ?H r = resolve_fails ?N ?H r" for r :: "'r result option"
    by (simp_all add: resolvable_def resolved_heap_def depends_def succs_def resolve_fails_def dep_ok_def dep_absent_def
        fields names fun_eq_iff)
  have un: "unresolved (rev ?N) ?H"
    unfolding unresolved_def
  proof (intro conjI allI impI)
    show "snd ` set (rev ?N) \<subseteq> dom ?H" unfolding dom by (force simp: names_of_def)
    fix c co assume "?H c = Some co"
    then have "(c, co) \<in> set (map snd xs)" unfolding heap_of_def by (rule map_of_SomeD)
    then obtain name where "(name, c, co) \<in> set xs" by auto
    with assms(5) show "\<exists>ds. c_context co = Some ds \<and> distinct (map fst ds)" "c_fields co = Map.empty" by blast+
  qed (simp add: heap_of_def finite_dom_map_of)
  have view: "set view = dom ?H" using assms(4) dom by simp
  note spec = binding_traversal_spec [OF un view, unfolded same]
  show ?thesis
  proof (cases "resolvable ?N ?H")
    case True
    with spec obtain order where o: "binding_traversal (rev ?N) view (?H, []) = Some (Inr (resolved_heap ?N ?H, order))"
      "distinct order" "set order = dom ?H" "acyclic (depends ?N ?H) \<longrightarrow> in_dep_order (succs ?N ?H) order" by auto
    then show ?thesis using True dom by (intro exI [of _ ?K]) (simp add: conf container_resolve_def)
  next
    case False
    with spec have "resolve_fails ?N ?H (binding_traversal (rev ?N) view (?H, []))" by simp
    with False show ?thesis
      by (intro exI [of _ ?K]) (auto simp: conf container_resolve_def resolve_fails_def)
  qed
qed

text \<open>Two components, listed before what they need; and a component with nothing to bind to.\<close>

definition demo_component :: "string \<Rightarrow> dep_map \<Rightarrow> component" where
  "demo_component cls ds = \<lparr>c_types = {cls}, c_context = Some ds, c_fields = Map.empty\<rparr>"

definition demo_parts :: "(string \<times> comp \<times> component) list" where
  "demo_parts = [(''book'', 0, demo_component ''view'' [(0, ''feed'', ''source'')]), (''feed'', 1, demo_component ''source'' [])]"

definition demo_lone :: "(string \<times> comp \<times> component) list" where
  "demo_lone = [(''book'', 0, demo_component ''view'' [(0, ''feed'', ''source'')])]"

lemmas demo_simps = demo_parts_def demo_lone_def demo_component_def names_of_def heap_of_def deps_of_def

lemma pair_order:
  assumes "distinct order" "set order = {0, Suc 0}" "in_dep_order nexts order" "Suc 0 \<in> nexts 0"
  shows "order = [Suc 0, 0]"
proof -
  have "length order = 2" using distinct_card [OF assms(1)] assms(2) by simp
  then obtain a b where ab: "order = [a, b]" by (auto simp: numeral_2_eq_2 length_Suc_conv)
  have "\<And>ys x zs. order = ys @ x # zs \<Longrightarrow> nexts x \<subseteq> set ys" using assms(3) by (simp add: in_dep_order_def)
  from this [of "[]" a "[b]"] have "nexts a = {}" by (simp add: ab)
  then have "Suc 0 \<notin> nexts a" by simp
  then have "a \<noteq> 0" using assms(4) by metis
  moreover have "a \<noteq> b" "{a, b} = {0, Suc 0}" using assms(1,2) by (simp_all add: ab)
  ultimately have "a = Suc 0 \<and> b = 0" unfolding doubleton_eq_iff by metis
  then show ?thesis by (simp add: ab)
qed

lemma container_resolves_witness:
  "\<exists>K K' L. configure demo_parts new_container = (Inr (), K) \<and> container_resolve [0, 1] K = Some (Inr K') \<and> dc_order K' = [1, 0] \<and>
     map_option c_fields (dc_heap K' 0) = Some [0 \<mapsto> 1] \<and>
     configure demo_lone new_container = (Inr (), L) \<and> container_resolve [0] L = Some (Inl Invalid_input)"
proof -
  let ?N = "names_of demo_parts" and ?H = "heap_of demo_parts"
  have succs: "succs ?N ?H = (\<lambda>c. if c = 0 then {1} else {})" by (auto simp: succs_def demo_simps split: if_splits)
  have ac: "acyclic (depends ?N ?H)"
    by (rule acyclic_subset [OF wf_acyclic [OF wf_less_than]]) (auto simp: depends_def succs split: if_splits)
  have ok: "resolvable ?N ?H" by (auto simp: resolvable_def dep_ok_def demo_simps split: if_splits)
  have "\<exists>K. configure demo_parts new_container = (Inr (), K) \<and>
    (if resolvable ?N ?H
     then \<exists>K' order. container_resolve [0, 1] K = Some (Inr K') \<and> dc_heap K' = resolved_heap ?N ?H \<and>
       dc_order K' = order \<and> distinct order \<and> set order = (fst \<circ> snd) ` set demo_parts \<and>
       (acyclic (depends ?N ?H) \<longrightarrow> in_dep_order (succs ?N ?H) order) \<and>
       container_resolve [0, 1] K' = Some (Inl Illegal_state)
     else resolve_fails ?N ?H (container_resolve [0, 1] K))"
    by (rule container_resolves) (auto simp: demo_simps)
  then obtain K K' where K: "configure demo_parts new_container = (Inr (), K)" "container_resolve [0, 1] K = Some (Inr K')"
    "dc_heap K' = resolved_heap ?N ?H" "distinct (dc_order K')" "set (dc_order K') = (fst \<circ> snd) ` set demo_parts"
    "in_dep_order (succs ?N ?H) (dc_order K')" using ok ac by auto
  have "Suc 0 \<in> succs ?N ?H 0" "set (dc_order K') = {0, Suc 0}" by (simp_all add: succs K(5)) (simp add: demo_parts_def)
  with pair_order [OF K(4) _ K(6)] have "dc_order K' = [Suc 0, 0]" by blast
  moreover have "map_option c_fields (dc_heap K' 0) = Some [0 \<mapsto> 1]"
    by (simp add: K(3) resolved_heap_def bound_fields_def demo_simps fun_eq_iff)
  moreover have lone: "\<not> resolvable (names_of demo_lone) (heap_of demo_lone)"
    "resolve_fails (names_of demo_lone) (heap_of demo_lone) r \<Longrightarrow> r = Some (Inl Invalid_input)" for r :: "di_container result option"
    by (auto simp: resolvable_def resolve_fails_def dep_ok_def dep_absent_def demo_simps split: if_splits)
  moreover have "\<exists>L. configure demo_lone new_container = (Inr (), L) \<and>
    resolve_fails (names_of demo_lone) (heap_of demo_lone) (container_resolve [0] L)"
    by (rule exE [OF container_resolves [of demo_lone "[0]"]]) (auto simp: lone(1), simp_all add: demo_simps)
  ultimately show ?thesis using K(1,2) by (auto simp: One_nat_def)
qed

end
