(* ===== verification/Spec2Isabelle.thy ===== *)
theory Spec2Isabelle
  imports Scatter_Props Pool_Props Book_Props Manager_Props Decimal_Props Spsc_Props Buffer_Props Ouch_Props Link_Props Feed_Props
    Fenwick_Window Market_System Component_Order
begin

text \<open>
  A verification library for the low-latency market data and execution toolkit under
  \<^verbatim>\<open>src/vr\<close>: its containers, buffers and utilities (\<^verbatim>\<open>vr_common\<close>) and its market model and order
  entry path (\<^verbatim>\<open>vr_rt\<close>).

  \<^bold>\<open>How the program is put together.\<close> The common library provides a hash table with chained
  scatter, object pools, integer utilities and byte buffers over mapped memory. Two paths are built on
  them.

  Market data: a feed reads Ethernet frames from a multicast link, whose filter drops what is for other groups, and
  publishes its position the way the execution link does. Each agent's
  market data manager visits the frames that have arrived, in place: IP and UDP headers, the MoldUDP64
  packet with the sequence number of its partition, and its blocks of ITCH messages. These go through a
  pipeline of two visitors: a selector finds the book of the message's instrument in the agent's view
  or stops the message, and a listener applies the order messages to that book. Orders and price
  levels of all books live in one arena of object pools, orders are found by id through a scatter
  table, and the levels of a side form an intrusive splay tree.

  Order entry: an agent (a trading strategy) asks its execution manager to submit, replace or cancel orders.
  The manager generates an order token, enters the order into its execution book (again pools
  and scatter tables), and puts a request on a single-producer single-consumer queue. The
  execution link, one thread, serves the queues of all agents: it fills a prepared
  OUCH message, framed as a SoupTCP packet, into the send buffer of the partition's TCP link, and sends
  what is pending. In the same step it reads what arrived, counts how much of it is whole packets,
  and publishes that position to the agents under RCU. Each agent, at its own pace, visits the
  packets between the position it has reached and the published one, in place in the receive buffer,
  and its execution listener applies the messages to its book. Superseded descriptors come
  back through a callback thread and let the link flush what all agents have passed.

  Wiring: a container owns the named components of a process, binds the dependencies they declare and
  orders them for starting.

  \<^bold>\<open>Theories.\<close>
  \<^item> \<open>Vrt_Prelude\<close>: errors, the result monads, signed stores, list lemmas. \<open>Simulation\<close>: the locale
    that lifts one-step simulations to sequences, interpreted by every component with a history.
  \<^item> \<open>Ops_Int\<close>: \<^verbatim>\<open>util/ops_int.h\<close>. \<open>Decimal\<close>: the integer logarithms with their tables, decimal printing
    and parsing (\<^verbatim>\<open>ops_int.cpp\<close>, \<^verbatim>\<open>format.h\<close>, \<^verbatim>\<open>parse.h\<close>, the fraction of \<^verbatim>\<open>datetime.cpp\<close>);
    \<open>Decimal_Print\<close> and \<open>Decimal_Props\<close> prove them. \<open>Order_Token\<close>: \<^verbatim>\<open>rt/asx/utility.h\<close>.
  \<^item> \<open>Scatter_Table\<close> models \<^verbatim>\<open>containers/util/chained_scatter_table.h\<close>: the bucket array, the
    free list threaded through it by negative links, \<open>get\<close>, \<open>put\<close>, \<open>remove\<close>, rehashing,
    iteration. \<open>Scatter_Rep\<close> states the representation invariant, \<open>Scatter_Walk\<close> the loops,
    \<open>Scatter_Update\<close> and \<open>Scatter_Correct\<close> one pass of each operation, \<open>Scatter_Put\<close>,
    \<open>Scatter_Ops\<close> and \<open>Scatter_Api\<close> the whole operations; \<open>Keyed_Map\<close> is the interface as a
    locale, interpreted in \<open>Scatter_Props\<close>, which states the properties.
  \<^item> \<open>Object_Pool\<close> models \<^verbatim>\<open>util/object_pools.h\<close> and \<^verbatim>\<open>.cpp\<close>; \<open>Pool_Correct\<close> its invariant and
    operations; \<open>Slot_Pool\<close> the interface, interpreted in \<open>Pool_Props\<close>.
  \<^item> \<open>Prices\<close>: \<^verbatim>\<open>market/prices.h\<close> and the sides.
  \<^item> \<open>Limit_Book\<close> models \<^verbatim>\<open>market/books/limit_order_book.h\<close>, \<open>Market_Data\<close> the visits of
    \<^verbatim>\<open>market/books/asx/market_data_listener.h\<close>. \<open>Book_Inv\<close>, \<open>Book_Ops\<close> and \<open>Book_Remove\<close> prove
    what each visit does, and that it leaves what other books hold in the same pools, \<open>Book_Feed\<close> lifts it to
    message sequences, \<open>Book_Query\<close> relates levels and price queries to the resting orders, and \<open>Book_Props\<close>
    states the properties.
  \<^item> \<open>Market_View\<close> models \<^verbatim>\<open>market/books/asx/market_data_view.h\<close>, several books over one arena, \<open>Itch_Wire\<close> the layouts of
    \<^verbatim>\<open>sources/asx/itch/messages.h\<close>, \<open>Itch_Pipeline\<close> the visitors (\<^verbatim>\<open>ITCH_visitor.h\<close>, \<^verbatim>\<open>ITCH_pipeline.h\<close>,
    \<^verbatim>\<open>ITCH_ts_tracker.h\<close>) with the selector and the listener and what one message does to the market, \<open>Mold_Feed\<close> the
    packets (\<^verbatim>\<open>IP_.h\<close>, \<^verbatim>\<open>UDP_.h\<close>, \<^verbatim>\<open>MoldUDP64_.h\<close>, \<^verbatim>\<open>Mold_frame_.h\<close>) and the update of
    \<^verbatim>\<open>rt/agents/asx/market_data_manager.h\<close>; \<open>Market_Feed\<close> lifts messages to frames and frames to updates, and
    \<open>Market_Props\<close> states the properties. \<open>Mcast_Feed\<close> models \<^verbatim>\<open>rt/market_data_feed.cpp\<close> over the receiving side of
    \<^verbatim>\<open>io/links/UDP_mcast_link.h\<close> and its filters, \<open>Feed_Inv\<close> proves the invariant of its step, and \<open>Market_System\<close>
    puts network, feed, callback thread and managers together as a transition system.
  \<^item> \<open>Execution_Book\<close> and \<open>Execution_Listener\<close> model \<^verbatim>\<open>market/books/execution_order_book.h\<close> and
    \<^verbatim>\<open>market/books/asx/execution_listener.h\<close> with the order state machine; \<open>Execution_Inv\<close>,
    \<open>Execution_Sim\<close> and \<open>Execution_Props\<close> prove them. \<open>Execution_Manager\<close> models
    \<^verbatim>\<open>rt/agents/asx/execution_manager.h\<close> and \<^verbatim>\<open>.cpp\<close> up to its update loop, with the
    specification of an agent's view; \<open>Manager_Inv\<close>, \<open>Manager_Sim\<close>, \<open>Manager_Props\<close> prove the refinement.
  \<^item> \<open>Spsc_Buffer\<close> models \<^verbatim>\<open>mc/lf_spsc_buffer.h\<close> over a TSO memory (a store buffer per thread);
    \<open>Spsc_Props\<close> proves it for every interleaving.
  \<^item> \<open>Byte_Buffer\<close> is the interface of the byte buffers as a locale; \<open>Ring_Buffer\<close>, \<open>Tape_Buffer\<close> and
    \<open>Window_Buffer\<close> (over \<open>Mapped_File\<close>) model \<^verbatim>\<open>io/mapped_*.h\<close> and \<^verbatim>\<open>.cpp\<close> and interpret it, with
    \<open>Linear_Buffer\<close> for what tape and window share; \<open>Stream_Link\<close> models polling and flushing of
    \<^verbatim>\<open>io/links/TCP_link.h\<close> over any of them; \<open>Buffer_Props\<close> states the properties.
  \<^item> \<open>Fenwick_Window\<close>: the sliding event count of \<^verbatim>\<open>containers/util/fenwick_window.h\<close>, with its proof.
  \<^item> \<open>Component_Order\<close>: adding and resolving components (\<^verbatim>\<open>util/di/container.cpp\<close>, \<^verbatim>\<open>component_impl.h\<close>), with its proof.
  \<^item> \<open>Wire\<close>: big-endian integers, character fields, packed structs. \<open>Soup_Framing\<close>:
    \<^verbatim>\<open>net/SoupTCP_.h\<close> and the framing loop, with the locale of a packet reader. \<open>Ouch_Wire\<close>: the messages
    a client sends and their templates; \<open>Ouch_In\<close>: the messages of the exchange and the dispatch on
    their type; \<open>Ouch_Props\<close>: what is sent reads back.
  \<^item> \<open>Pix_Mask\<close>: the loops over partition masks. \<open>Rcu_Publish\<close>: publication and reclamation of
    descriptors of any width, with its invariant over any interleaving. \<open>Execution_Link\<close>: \<^verbatim>\<open>rt/asx/execution_link.cpp\<close>.
    \<open>Link_Tape\<close> (exact effects on the tapes, whole packets of a stream), \<open>Link_Inv\<close> (the invariant and the receiving
    phases), \<open>Link_Send\<close>, \<open>Link_Step\<close> (the sending phases and the step), \<open>Link_Start\<close> (a started link satisfies
    the invariant), \<open>Link_Agents\<close> (the update loop of the manager), \<open>Link_System\<close> (link, kernel, callback thread and agents as a
    transition system), \<open>Link_Output\<close> (what is sent is packets) and \<open>Link_Props\<close> (the properties).
    \<open>Manager_Feed\<close> puts the manager's visitor over the bytes it reads from the link (logins, sequence
    numbers, execution messages); \<open>Feed_Props\<close> relates its update to the messages in the stream.

  \<^bold>\<open>Correspondence.\<close> A class with state is a record, its methods are functions on the record that
  return it updated; \<open>None\<close> stands for undefined behaviour (a wild index, a null pointer, negating the smallest
  integer, a signed count beyond its width, a loop that does not end), \<open>Some (Inl e)\<close> for a thrown error, \<open>Some (Inr x)\<close> for a return. Asserts are compiled out of
  release builds and are not branches; \<^verbatim>\<open>check_\<close> macros and throws are. Bounds checks of a template
  policy are a boolean argument. Integers are words or integers stored with \<open>narrow\<close> where the code's width
  matters; stream positions (64 bits) are unbounded, and so are counts of packets received; sequence numbers a
  packet brings are checked against their width. The totals of a level are kept modulo \<open>2 ^ 32\<close>.

  \<^bold>\<open>The environment.\<close> A socket is a script of what arrives and how much is accepted; clocks and the
  addresses of mappings are parameters; whether an attempt to enqueue finds room is a predicate on the
  number of the attempt in the manager's model, while \<open>Spsc_Buffer\<close> models the queue itself. Of the RCU
  library the documented guarantee is used: a callback runs after every read section open at
  \<^verbatim>\<open>call_rcu\<close> has ended. Boost's intrusive containers are parameters of the book with
  the laws Boost documents (\<open>env_ok\<close>).

  \<^bold>\<open>Fuel and loops.\<close> \<open>put\<close> and \<open>rehash_impl\<close> call each other; the model bounds the nesting at two, and
  \<open>cst_put_fuel_enough\<close> shows that more never changes the result and that two always gives one.
  The other loops that may not end, and the depth-first search of a container, are \<open>partial_function\<close>s; they are shown to return on every state that satisfies the
  component's invariant, and the framing loop to hang on a packet of length minus two.

  \<^bold>\<open>What the lemmas show.\<close> Containers, pools and buffers behave as maps and bounded queues under any program of operations; the
  book holds exactly the resting orders after any admissible feed, and the view of a market data manager those
  of all its instruments after any frames; an agent's execution book and requests follow
  the specification of its actions and of the messages it receives, with fresh tokens; the queue is
  first-in first-out under TSO; requests survive the wire; the framing loop takes exactly the whole packets;
  and link and agents together deliver every packet of the exchange to every agent once and in order, whatever
  interleaving, while everything sent is well-formed; so do the market data feed and its managers for every frame; a
  container resolves what can be resolved, in the order of the dependencies. Where the code falls short of what it means to do, a
  property states what it does instead (\<open>lob_replace_loses_order\<close>, \<open>tape_fifo_overrun\<close>, \<open>agent_names_first_token\<close>,
  \<open>link_misuse\<close> and others).

  \<^bold>\<open>Not modelled.\<close> Memory exhaustion, logging and tracing; sockets, files and threads beyond the
  scripts above; the printing of ITCH and OUCH messages and the filters of the offline tools; sending to
  multicast, unicast and stream links; tables and their formats, parsers generated by Ragel and Lemon, persistence and reference
  data; starting and stopping components; statistics, priority and timer queues; the tools and the mock exchange.
\<close>

end
